(* ===== verification/Prelude.thy ===== *)
theory Prelude
  imports Main "HOL-Library.Word" "HOL-Library.Monad_Syntax"
begin

text \<open>
  Shared vocabulary of the development: the C integer types as words, byte-addressed memory
  with loads and stores, the lemma collections the component theories use, and a few facts on
  lists, options and words that several components share.

  Convention: a C function whose execution may be undefined (an access outside an object, an
  unmapped address, an oversized shift, a signed division that overflows) is modelled as a HOL
  function into \<open>option\<close>, where \<open>None\<close> says that the C execution has no defined result.
  Loops that need not end are \<open>partial_function (option)\<close> or run on fuel.
\<close>

unbundle bit_operations_syntax

section \<open>C integer types\<close>

type_synonym u8 = "8 word"
type_synonym u16 = "16 word"
type_synonym u32 = "32 word"
type_synonym u64 = "64 word"

named_theorems mem_simps \<open>loads and stores\<close>
named_theorems wd_simps \<open>word arithmetic read as natural numbers\<close>

text \<open>A shift of a 64-bit value: the C standard defines it for counts below the width only.\<close>

definition shl64 :: "u64 \<Rightarrow> nat \<Rightarrow> u64 option" where
  "shl64 v n = (if n < 64 then Some (push_bit n v) else None)"

definition shr64 :: "u64 \<Rightarrow> nat \<Rightarrow> u64 option" where
  "shr64 v n = (if n < 64 then Some (drop_bit n v) else None)"

text \<open>Arithmetic right shift of an \<open>int64_t\<close> (the compilers DPDK supports all define it so).\<close>

definition sar64 :: "u64 \<Rightarrow> nat \<Rightarrow> u64 option" where
  "sar64 v n = (if n < 64 then Some (signed_drop_bit n v) else None)"

text \<open>Left shift of a non-negative \<open>int\<close>: undefined unless the result is representable.\<close>

definition shl_int :: "u32 \<Rightarrow> nat \<Rightarrow> u32 option" where
  "shl_int v n =
     (if 0 \<le> sint v \<and> n < 32 \<and> sint v * 2 ^ n < 2 ^ 31 then Some (push_bit n v) else None)"

text \<open>Pointer arithmetic that leaves the address space is undefined.\<close>

definition ptr_add :: "u64 \<Rightarrow> nat \<Rightarrow> u64 option" where
  "ptr_add p n = (if uint p + int n < 2 ^ 64 then Some (p + of_nat n) else None)"

lemma ptr_add_eq: "ptr_add p n = (if unat p + n < 2 ^ 64 then Some (p + of_nat n) else None)"
proof -
  have "uint p + int n < 2 ^ 64 \<longleftrightarrow> int (unat p + n) < int (2 ^ 64)" by simp
  also have "\<dots> \<longleftrightarrow> unat p + n < 2 ^ 64" by (rule of_nat_less_iff)
  finally show ?thesis by (simp add: ptr_add_def)
qed

lemma ptr_add_Some:
  "ptr_add p n = Some q \<Longrightarrow> unat q = unat p + n"
  by (auto simp: ptr_add_eq unat_word_ariths unat_of_nat split: if_splits)

text \<open>Checked list access: an index outside the array is undefined.\<close>

definition nth_opt :: "'a list \<Rightarrow> nat \<Rightarrow> 'a option" where
  "nth_opt xs i = (if i < length xs then Some (xs ! i) else None)"

definition upd_opt :: "'a list \<Rightarrow> nat \<Rightarrow> 'a \<Rightarrow> 'a list option" where
  "upd_opt xs i v = (if i < length xs then Some (xs[i := v]) else None)"

lemma nth_opt_Some [simp]: "nth_opt xs i = Some x \<longleftrightarrow> i < length xs \<and> xs ! i = x"
  by (auto simp: nth_opt_def)

lemma nth_opt_None [simp]: "nth_opt xs i = None \<longleftrightarrow> \<not> i < length xs"
  by (simp add: nth_opt_def)

lemma upd_opt_Some [simp]: "upd_opt xs i v = Some ys \<longleftrightarrow> i < length xs \<and> ys = xs[i := v]"
  by (auto simp: upd_opt_def)

lemma upd_opt_None [simp]: "upd_opt xs i v = None \<longleftrightarrow> \<not> i < length xs"
  by (simp add: upd_opt_def)

lemma nth_opt_lt: "i < length xs \<Longrightarrow> nth_opt xs i = Some (xs ! i)"
  by simp

section \<open>Memory\<close>

text \<open>
  Memory maps the addresses that may be accessed to bytes. The machines the code targets are
  little-endian, so a multi-byte value has its low byte first.
\<close>

type_synonym mem = "u64 \<Rightarrow> u8 option"

fun ld_bytes :: "mem \<Rightarrow> u64 \<Rightarrow> nat \<Rightarrow> u8 list option" where
  "ld_bytes m a 0 = Some []"
| "ld_bytes m a (Suc n) = do { b \<leftarrow> m a; bs \<leftarrow> ld_bytes m (a + 1) n; Some (b # bs) }"

fun st_bytes :: "mem \<Rightarrow> u64 \<Rightarrow> u8 list \<Rightarrow> mem option" where
  "st_bytes m a [] = Some m"
| "st_bytes m a (b # bs) = do { _ \<leftarrow> m a; st_bytes (m(a \<mapsto> b)) (a + 1) bs }"

fun le_val :: "u8 list \<Rightarrow> u64" where
  "le_val [] = 0"
| "le_val (b # bs) = ucast b OR push_bit 8 (le_val bs)"

fun be_val :: "u8 list \<Rightarrow> u64" where
  "be_val bs = le_val (rev bs)"

fun le_bytes :: "nat \<Rightarrow> u64 \<Rightarrow> u8 list" where
  "le_bytes 0 w = []"
| "le_bytes (Suc n) w = ucast w # le_bytes n (drop_bit 8 w)"

definition load :: "mem \<Rightarrow> nat \<Rightarrow> u64 \<Rightarrow> u64 option" where
  "load m n a = map_option le_val (ld_bytes m a n)"

definition store :: "mem \<Rightarrow> nat \<Rightarrow> u64 \<Rightarrow> u64 \<Rightarrow> mem option" where
  "store m n a v = st_bytes m a (le_bytes n v)"

lemma ld_bytes_length: "ld_bytes m a n = Some bs \<Longrightarrow> length bs = n"
  by (induction m a n arbitrary: bs rule: ld_bytes.induct) (auto split: bind_splits)

lemma length_le_bytes [simp]: "length (le_bytes n w) = n"
  by (induction n arbitrary: w) auto

end
