(* ===== verification/Buster_Utils.thy ===== *)
theory Buster_Utils
  imports Prelude
begin

text \<open>
  The utilities of the kernel module: \<open>src/buster/utils.c\<close> and \<open>utils.h\<close>. The module's
  globals are the record \<open>buster\<close>; \<open>klog\<close> collects what \<open>printk\<close> is given, as one
  constructor per format string with the arguments of the call, and \<open>ext\<close> the calls to the
  kernel that map and unmap memory. \<open>ioremap\<close> and \<open>kmalloc\<close> are the kernel's and
  parameters here.
\<close>

section \<open>State\<close>

datatype log_line =
    Begin u64 u64 string          \<comment> \<open>BEGIN.id.start.msg\<close>
  | Qword u64 u64                 \<comment> \<open>0001x offset: value (ranges below one block)\<close>
  | Block u64 u64 "u64 list"      \<comment> \<open>count x offset: the block, word 0 first\<close>
  | Tail u64 u64                  \<comment> \<open>1x offset: value (words after the last block)\<close>
  | End u64                       \<comment> \<open>END.id\<close>
  | Err string
  | Info string "u64 list"        \<comment> \<open>the messages of main.c: format, arguments\<close>

datatype ext_call =
    Ioremap u64 u64 u64           \<comment> \<open>address, size, result\<close>
  | Iounmap u64
  | Debugfs_remove u64

record buster =
  vaddrs :: "u64 list"
  idx :: nat
  log_id :: u64
  dump_file :: u64
  dump_dir :: u64
  klog :: "log_line list"
  ext :: "ext_call list"

definition N_VADDR :: nat where "N_VADDR = 50"

definition buster_init_state :: buster where
  "buster_init_state = \<lparr>vaddrs = replicate N_VADDR 0, idx = 0, log_id = 0, dump_file = 0,
     dump_dir = 0, klog = [], ext = []\<rparr>"

definition printk :: "log_line \<Rightarrow> buster \<Rightarrow> buster" where
  "printk l s = s\<lparr>klog := klog s @ [l]\<rparr>"

definition call :: "ext_call \<Rightarrow> buster \<Rightarrow> buster" where
  "call c s = s\<lparr>ext := ext s @ [c]\<rparr>"

definition GET_MASK :: "nat \<Rightarrow> nat \<Rightarrow> u64" where
  "GET_MASK start end' = push_bit start (- 1) AND drop_bit (64 - end' - 1) (- 1)"

section \<open>Dumping a range of memory\<close>

definition BLOCK_BYTES :: nat where "BLOCK_BYTES = 256 div 8"
definition BLOCK_WORDS :: nat where "BLOCK_WORDS = 256 div 8 div 8"

text \<open>The check of the message: the loop over its first 64 characters.\<close>

fun check_msg :: "nat \<Rightarrow> string \<Rightarrow> string option" where
  "check_msg i [] = None"
| "check_msg i (c # cs) =
     (if c = CHR 0x00 then None
      else if c = CHR 0x0A \<or> c = CHR 0x0D \<or> c = CHR 0x09 then Some ''err:msg has special chars''
      else if i = 63 then Some ''err:msg too long''
      else check_msg (Suc i) cs)"

text \<open>\<open>for (u64 *ptr = ...; ptr < limit; ptr++)\<close>: one line per quad word.\<close>

function log_qwords ::
  "(u64 \<Rightarrow> u64 \<Rightarrow> log_line) \<Rightarrow> mem \<Rightarrow> u64 \<Rightarrow> u64 \<Rightarrow> u64 \<Rightarrow> buster \<Rightarrow> buster option" where
  "log_qwords line m start limit ptr s =
     (if ptr < limit
      then do {
        v \<leftarrow> load m 8 ptr;
        ptr' \<leftarrow> ptr_add ptr 8;
        log_qwords line m start limit ptr' (printk (line (ptr - start) v) s) }
      else Some s)"
  by pat_completeness auto
termination
  by (relation "measure (\<lambda>(l, m, a, lim, p, s). unat lim - unat p)")
     (auto dest!: ptr_add_Some simp: word_less_nat_alt)

declare log_qwords.simps [simp del]

definition log_short :: "mem \<Rightarrow> u64 \<Rightarrow> u64 \<Rightarrow> string \<Rightarrow> buster \<Rightarrow> buster option" where
  "log_short m start limit msg s = do {
     s1 \<leftarrow> Some (printk (Begin (log_id s) start msg) s);
     s2 \<leftarrow> log_qwords Qword m start limit start s1;
     s3 \<leftarrow> Some (printk (End (log_id s2)) s2);
     Some (s3\<lparr>log_id := log_id s3 + 1\<rparr>) }"

text \<open>The words \<open>prev_val[0..3]\<close> of one block.\<close>

definition ld_block :: "mem \<Rightarrow> u64 \<Rightarrow> u64 list option" where
  "ld_block m p = do {
     w0 \<leftarrow> load m 8 p; w1 \<leftarrow> load m 8 (p + 8); w2 \<leftarrow> load m 8 (p + 16); w3 \<leftarrow> load m 8 (p + 24);
     Some [w0, w1, w2, w3] }"

text \<open>
  The main loop: equal consecutive blocks are counted, a block that differs prints the run
  before it. It returns the pointer behind the last whole block, the pending block and its
  repeat count.
\<close>

function log_blocks ::
  "mem \<Rightarrow> u64 \<Rightarrow> u64 \<Rightarrow> u64 \<Rightarrow> u64 list \<Rightarrow> u64 \<Rightarrow> buster \<Rightarrow> (u64 \<times> u64 list \<times> u64 \<times> buster) option"
where
  "log_blocks m start limit ptr prev_val count s = do {
     e \<leftarrow> ptr_add ptr BLOCK_BYTES;
     if e \<le> limit
     then do {
       ws \<leftarrow> ld_block m ptr;
       if ws = prev_val
       then log_blocks m start limit e prev_val (count + 1) s
       else let delta = ptr - start in
         (if count > 0
          then log_blocks m start limit e ws 0
                 (printk (Block (count + 1) (delta - (count + 1) * of_nat BLOCK_BYTES) prev_val) s)
          else log_blocks m start limit e ws count
                 (printk (Block 1 (delta - of_nat BLOCK_BYTES) prev_val) s)) }
     else Some (ptr, prev_val, count, s) }"
  by pat_completeness auto
termination
  by (relation "measure (\<lambda>(m, a, lim, p, v, c, s). unat lim - unat p)")
     (auto dest!: ptr_add_Some simp: word_le_nat_alt BLOCK_BYTES_def)

declare log_blocks.simps [simp del]

definition log_range :: "mem \<Rightarrow> u64 \<Rightarrow> u64 \<Rightarrow> string \<Rightarrow> buster \<Rightarrow> buster option" where
  "log_range m start limit msg s =
     (case check_msg 0 msg of
        Some e \<Rightarrow> Some (printk (Err e) s)
      | None \<Rightarrow>
          if start = 0 then Some (printk (Err ''err:start is null'') s)
          else if start > limit then Some (printk (Err ''err:start > limit'') s)
          else if limit - start < of_nat BLOCK_BYTES then log_short m start limit msg s
          else if start mod 8 \<noteq> 0 then Some (printk (Err ''err:start not aligned'') s)
          else do {
            prev_val \<leftarrow> ld_block m start;
            s1 \<leftarrow> Some (printk (Begin (log_id s) start msg) s);
            ptr0 \<leftarrow> ptr_add start BLOCK_BYTES;
            (ptr, prev_val', count, s2) \<leftarrow> log_blocks m start limit ptr0 prev_val 0 s1;
            s3 \<leftarrow> Some (printk (Block (count + 1) (limit - start - 8 * (count + 1)) prev_val') s2);
            s4 \<leftarrow> log_qwords Tail m start limit ptr s3;
            s5 \<leftarrow> Some (printk (End (log_id s4)) s4);
            Some (s5\<lparr>log_id := log_id s5 + 1\<rparr>) })"

section \<open>Allocation, mappings, repeated values\<close>

definition mymalloc :: "(u64 \<Rightarrow> u64) \<Rightarrow> u64 \<Rightarrow> buster \<Rightarrow> u64 \<times> buster" where
  "mymalloc kmalloc sz s =
     (let ptr = kmalloc sz in
      if ptr = 0 then (0, printk (Err ''Failed to allocate memory'') s) else (ptr, s))"

definition get_mapping ::
  "(buster \<Rightarrow> u64 \<Rightarrow> u64 \<Rightarrow> u64) \<Rightarrow> u64 \<Rightarrow> u64 \<Rightarrow> buster \<Rightarrow> (u64 \<times> buster) option" where
  "get_mapping ioremap addr sz s =
     (if idx s > N_VADDR then Some (0, s)
      else do {
        ptr \<leftarrow> Some (ioremap s addr sz);
        s1 \<leftarrow> Some (call (Ioremap addr sz ptr) s);
        vs \<leftarrow> upd_opt (vaddrs s1) (idx s1) ptr;
        Some (ptr, s1\<lparr>vaddrs := vs, idx := idx s1 + 1\<rparr>) })"

fun is_repeat_from :: "u64 \<Rightarrow> u64 list \<Rightarrow> nat \<Rightarrow> nat \<Rightarrow> u64 option" where
  "is_repeat_from val arr i 0 = Some 0"
| "is_repeat_from val arr i (Suc n) = do {
     x \<leftarrow> nth_opt arr i;
     if x = val then Some 1 else is_repeat_from val arr (Suc i) n }"

definition is_repeat_in :: "u64 \<Rightarrow> u64 list \<Rightarrow> nat \<Rightarrow> u64 option" where
  "is_repeat_in val arr sz = is_repeat_from val arr 0 sz"

section \<open>Masks and repeated values\<close>

text \<open>\<open>GET_MASK(start,end)\<close> has exactly the bits \<open>start\<close> to \<open>end\<close> set.\<close>

lemma GET_MASK_bits:
  "s \<le> 63 \<Longrightarrow> e \<le> 63 \<Longrightarrow> bit (GET_MASK s e) n \<longleftrightarrow> s \<le> n \<and> n \<le> e"
  by (auto simp: GET_MASK_def bit_simps)

theorem GET_MASK_bits_witness: "bit (GET_MASK 12 51) 12 \<and> \<not> bit (GET_MASK 12 51) 11"
  using GET_MASK_bits [of 12 51 12] GET_MASK_bits [of 12 51 11] by simp

lemma is_repeat_from_iff:
  "i + n \<le> length arr \<Longrightarrow>
   is_repeat_from val arr i n = Some (if val \<in> set (take n (drop i arr)) then 1 else 0)"
proof (induction n arbitrary: i)
  case 0
  then show ?case by simp
next
  case (Suc n)
  then have "drop i arr = arr ! i # drop (Suc i) arr"
    by (simp add: Cons_nth_drop_Suc)
  with Suc show ?case by (auto simp: nth_opt_lt)
qed

lemma is_repeat_in_iff:
  "n \<le> length arr \<Longrightarrow> is_repeat_in val arr n = Some (if val \<in> set (take n arr) then 1 else 0)"
  by (simp add: is_repeat_in_def is_repeat_from_iff)

section \<open>What a dump means\<close>

text \<open>
  \<open>quads m a n\<close> are the \<open>n\<close> quad words of memory from address \<open>a\<close>; \<open>expands\<close> reads a list
  of log lines back as the quad words it stands for; \<open>offs p ls\<close> says that the block lines
  \<open>ls\<close> carry the offsets of the runs they count, starting at \<open>p\<close>, and gives the next offset.
\<close>

definition rd :: "mem \<Rightarrow> u64 \<Rightarrow> u64" where "rd m a = the (load m 8 a)"

definition quads :: "mem \<Rightarrow> u64 \<Rightarrow> nat \<Rightarrow> u64 list" where
  "quads m a n = map (\<lambda>i. rd m (a + 8 * of_nat i)) [0..<n]"

definition readable :: "mem \<Rightarrow> u64 \<Rightarrow> nat \<Rightarrow> bool" where
  "readable m a n \<longleftrightarrow> (\<forall>i<n. load m 8 (a + 8 * of_nat i) \<noteq> None)"

lemma quads_0 [simp]: "quads m a 0 = []" by (simp add: quads_def)
lemma quads_Suc: "quads m a (Suc n) = rd m a # quads m (a + 8) n"
proof -
  have "map (\<lambda>i. rd m (a + 8 * of_nat i)) [Suc 0..<Suc n] = map (\<lambda>i. rd m (a + 8 + 8 * of_nat i)) [0..<n]"
    by (simp add: map_Suc_upt [symmetric] comp_def algebra_simps del: upt_Suc)
  then show ?thesis by (simp add: quads_def upt_conv_Cons del: upt_Suc)
qed
lemma quads_add: "quads m a (i + n) = quads m a i @ quads m (a + 8 * of_nat i) n"
  by (induction i arbitrary: a) (simp_all add: quads_Suc algebra_simps)

lemma readable_Suc: "readable m a (Suc n) \<longleftrightarrow> load m 8 a \<noteq> None \<and> readable m (a + 8) n"
  by (auto simp: readable_def less_Suc_eq_0_disj algebra_simps)
lemma readable_add: "readable m a (i + n) \<longleftrightarrow> readable m a i \<and> readable m (a + 8 * of_nat i) n"
  by (induction i arbitrary: a) (simp_all add: readable_Suc algebra_simps, simp add: readable_def)
lemma readable_load: "readable m a (Suc n) \<Longrightarrow> load m 8 a = Some (rd m a)"
  by (auto simp: readable_Suc rd_def)

lemma ld_block_quads: "readable m a 4 \<Longrightarrow> ld_block m a = Some (quads m a 4)"
proof -
  have 4: "(4::nat) = Suc (Suc (Suc (Suc 0)))" by simp
  assume "readable m a 4"
  then show ?thesis
    unfolding 4 by (auto simp: ld_block_def quads_Suc readable_Suc rd_def add.commute)
qed

fun expand :: "log_line \<Rightarrow> u64 list" where
  "expand (Qword _ v) = [v]"
| "expand (Block k _ ws) = concat (replicate (unat k) ws)"
| "expand (Tail _ v) = [v]"
| "expand _ = []"

definition expands :: "log_line list \<Rightarrow> u64 list" where "expands ls = concat (map expand ls)"
lemma expands_simps [simp]: "expands [] = []" "expands (l # ls) = expand l @ expands ls"
   "expands (xs @ ys) = expands xs @ expands ys"
  by (auto simp: expands_def)

lemma printk_simps [simp]: "klog (printk l s) = klog s @ [l]" "log_id (printk l s) = log_id s"
  "vaddrs (printk l s) = vaddrs s" "idx (printk l s) = idx s" "ext (printk l s) = ext s"
  by (simp_all add: printk_def)

lemma log_qwords_spec:
  assumes "\<And>o' v. expand (line o' v) = [v]"
    and "unat limit = unat ptr + r" "n = (r + 7) div 8" "unat ptr + 8 * n < 2 ^ 64" "readable m ptr n"
  shows "\<exists>s' out. log_qwords line m start limit ptr s = Some s' \<and> klog s' = klog s @ out
     \<and> expands out = quads m ptr n \<and> log_id s' = log_id s \<and> length out = n
     \<and> s' = s\<lparr>klog := klog s'\<rparr>"
  using assms(2-)
proof (induction n arbitrary: ptr r s)
  case 0
  then have "limit = ptr" by (simp add: word_unat_eq_iff)
  then show ?case by (subst log_qwords.simps) simp
next
  case (Suc n)
  then have lt: "ptr < limit" by (auto simp: word_less_nat_alt)
  have ld: "load m 8 ptr = Some (rd m ptr)" using Suc.prems by (blast intro: readable_load)
  have pa: "ptr_add ptr 8 = Some (ptr + 8)" using Suc.prems by (simp add: ptr_add_eq)
  then have u: "unat (ptr + 8) = unat ptr + 8" by (simp add: ptr_add_Some)
  show ?case
  proof (cases "8 \<le> r")
    case True
    have "readable m (ptr + 8) n" using Suc.prems(4) by (simp add: readable_Suc)
    with Suc.prems True u have "unat limit = unat (ptr + 8) + (r - 8)" "n = (r - 8 + 7) div 8"
      "unat (ptr + 8) + 8 * n < 2 ^ 64" "readable m (ptr + 8) n"
      by auto
    from Suc.IH [OF this, of "printk (line (ptr - start) (rd m ptr)) s"]
    show ?thesis using lt ld pa assms(1)
      by (subst log_qwords.simps) (fastforce simp: quads_Suc printk_def)
  next
    case False
    with Suc.prems have n: "n = 0" by auto
    have "\<not> ptr + 8 < limit" using False Suc.prems u by (auto simp: word_less_nat_alt)
    then have "log_qwords line m start limit (ptr + 8) s' = Some s'" for s'
      by (subst log_qwords.simps) simp
    with lt ld pa n assms(1) show ?thesis
      by (subst log_qwords.simps) (simp add: quads_Suc printk_def)
  qed
qed

lemma concat_replicate_Suc: "concat (replicate (Suc n) xs) = concat (replicate n xs) @ xs"
  by (induction n) simp_all

fun offs :: "u64 \<Rightarrow> log_line list \<Rightarrow> u64 option" where
  "offs p [] = Some p"
| "offs p (Block k off ws # ls) = (if off = p then offs (p + 32 * k) ls else None)"
| "offs p (_ # ls) = None"

lemma log_blocks_spec:
  assumes "unat limit = unat ptr + r" "n = r div 32" "unat ptr + 32 * n + 32 < 2 ^ 64"
    "readable m ptr (4 * n)" "unat count + n + 1 < 2 ^ 64"
  shows "\<exists>s' out prev' count'. log_blocks m start limit ptr prev_val count s
            = Some (ptr + 32 * of_nat n, prev', count', s')
     \<and> klog s' = klog s @ out \<and> s' = s\<lparr>klog := klog s'\<rparr> \<and> unat count' \<le> unat count + n
     \<and> expands out @ concat (replicate (Suc (unat count')) prev')
        = concat (replicate (Suc (unat count)) prev_val) @ quads m ptr (4 * n)
     \<and> offs (ptr - start - 32 * (count + 1)) out
        = Some (ptr + 32 * of_nat n - start - 32 * (count' + 1))"
  using assms
proof (induction n arbitrary: ptr r s count prev_val)
  case 0
  then have pa: "ptr_add ptr 32 = Some (ptr + 32)" by (simp add: ptr_add_eq)
  then have "\<not> ptr + 32 \<le> limit" using 0 ptr_add_Some [OF pa] by (simp add: word_le_nat_alt)
  with pa show ?case by (subst log_blocks.simps) (simp add: BLOCK_BYTES_def)
next
  case (Suc n)
  have pa: "ptr_add ptr 32 = Some (ptr + 32)" using Suc.prems by (simp add: ptr_add_eq)
  note u = ptr_add_Some [OF pa]
  have le: "ptr + 32 \<le> limit" using Suc.prems u by (simp add: word_le_nat_alt)
  have "readable m ptr (4 + 4 * n)" using Suc.prems(4) by simp
  then have rb: "readable m ptr 4" and rn: "readable m (ptr + 32) (4 * n)"
    by (simp_all only: readable_add) simp
  have q: "quads m ptr (4 * Suc n) = quads m ptr 4 @ quads m (ptr + 32) (4 * n)"
    using quads_add [of m ptr 4 "4 * n"] by simp
  have step: "log_blocks m start limit ptr prev_val count s =
      (if quads m ptr 4 = prev_val then log_blocks m start limit (ptr + 32) prev_val (count + 1) s
       else log_blocks m start limit (ptr + 32) (quads m ptr 4) 0
              (printk (Block (count + 1) (ptr - start - (count + 1) * 32) prev_val) s))"
    using pa le ld_block_quads [OF rb]
    by (subst log_blocks.simps) (auto simp: BLOCK_BYTES_def Let_def word_gt_0)
  have pre: "unat limit = unat (ptr + 32) + (r - 32)" "n = (r - 32) div 32"
      "unat (ptr + 32) + 32 * n + 32 < 2 ^ 64" "readable m (ptr + 32) (4 * n)"
    using Suc.prems u rn by auto
  have c1: "unat (count + 1) = Suc (unat count)"
    using Suc.prems(5) by (simp add: unat_word_ariths)
  have adr: "ptr + 32 + 32 * of_nat n = ptr + 32 * of_nat (Suc n)" by (simp add: algebra_simps)
  show ?case
  proof (cases "quads m ptr 4 = prev_val")
    case True
    have "unat (count + 1) + n + 1 < 2 ^ 64" using Suc.prems(5) c1 by simp
    from Suc.IH [OF pre this, of prev_val s] obtain s' out prev' count' where
      *: "log_blocks m start limit (ptr + 32) prev_val (count + 1) s
            = Some (ptr + 32 * of_nat (Suc n), prev', count', s')"
        "klog s' = klog s @ out" "s' = s\<lparr>klog := klog s'\<rparr>" "unat count' \<le> unat (count + 1) + n"
        "expands out @ concat (replicate (Suc (unat count')) prev')
          = concat (replicate (Suc (unat (count + 1))) prev_val) @ quads m (ptr + 32) (4 * n)"
        "offs (ptr + 32 - start - 32 * (count + 1 + 1)) out
          = Some (ptr + 32 * of_nat (Suc n) - start - 32 * (count' + 1))"
      unfolding adr by blast
    have "concat (replicate (Suc (unat (count + 1))) prev_val)
            = concat (replicate (Suc (unat count)) prev_val) @ prev_val"
      unfolding c1 by (rule concat_replicate_Suc)
    with * True q c1 show ?thesis unfolding step
      by (intro exI [of _ s'] exI [of _ out] exI [of _ prev'] exI [of _ count'])
         (simp add: algebra_simps)
  next
    case False
    let ?l = "Block (count + 1) (ptr - start - (count + 1) * 32) prev_val"
    have "unat (0 :: u64) + n + 1 < 2 ^ 64" using Suc.prems(5) by simp
    from Suc.IH [OF pre this, of "quads m ptr 4" "printk ?l s"] obtain s' out prev' count' where
      *: "log_blocks m start limit (ptr + 32) (quads m ptr 4) 0 (printk ?l s)
            = Some (ptr + 32 * of_nat (Suc n), prev', count', s')"
        "klog s' = klog (printk ?l s) @ out" "s' = (printk ?l s)\<lparr>klog := klog s'\<rparr>"
        "unat count' \<le> unat (0 :: u64) + n"
        "expands out @ concat (replicate (Suc (unat count')) prev')
          = concat (replicate (Suc (unat (0 :: u64))) (quads m ptr 4)) @ quads m (ptr + 32) (4 * n)"
        "offs (ptr + 32 - start - 32 * (0 + 1)) out
          = Some (ptr + 32 * of_nat (Suc n) - start - 32 * (count' + 1))"
      unfolding adr by blast
    with False q c1 show ?thesis unfolding step
      by (intro exI [of _ s'] exI [of _ "?l # out"] exI [of _ prev'] exI [of _ count'])
         (simp add: algebra_simps printk_def)
  qed
qed

lemma log_range_blocks:
  assumes "check_msg 0 msg = None" "start \<noteq> 0" "start mod 8 = 0" "32 \<le> len"
    "unat limit = unat start + len" "unat limit + 64 < 2 ^ 64" "readable m start ((len + 7) div 8)"
  shows "\<exists>s' rows c ws tails p. log_range m start limit msg s = Some s'
    \<and> klog s' = klog s @ [Begin (log_id s) start msg]
        @ (rows @ Block c (limit - start - 8 * c) ws # tails) @ [End (log_id s)]
    \<and> s' = s\<lparr>klog := klog s', log_id := log_id s + 1\<rparr>
    \<and> expands (rows @ Block c (limit - start - 8 * c) ws # tails) = quads m start ((len + 7) div 8)
    \<and> offs 0 rows = Some p \<and> p = 32 * of_nat (len div 32) - 32 * c
    \<and> 0 < unat c \<and> unat c \<le> len div 32"
proof -
  define b where "b = (len - 32) div 32"
  define r where "r = len mod 32"
  define t where "t = (r + 7) div 8"
  have len: "len = 32 + 32 * b + r" using assms(4) by (simp add: b_def r_def le_div_geq [symmetric])
       (metis add.assoc le_add_diff_inverse minus_mod_eq_mult_div mod_add_self1 mult_div_mod_eq)
  have rlt: "r < 32" by (simp add: r_def)
  have n: "(len + 7) div 8 = 4 + (4 * b + t)" using len by (simp add: t_def)
  have ul: "unat (limit - start) = len" using assms(5) by (simp add: unat_sub_if_size)
  have pa: "ptr_add start 32 = Some (start + 32)" using assms len by (simp add: ptr_add_eq)
  note u = ptr_add_Some [OF pa]
  have rd0: "readable m start 4" and rdb: "readable m (start + 32) (4 * b)"
    and rdt: "readable m (start + 32 + 32 * of_nat b) t"
    using assms(7) unfolding n readable_add by (simp_all add: algebra_simps)
  let ?s1 = "printk (Begin (log_id s) start msg) s"
  have bnd: "unat limit = unat (start + 32) + (32 * b + r)" "b = (32 * b + r) div 32"
    "unat (start + 32) + 32 * b + 32 < 2 ^ 64" "unat (0 :: u64) + b + 1 < 2 ^ 64"
    using assms(5,6) u len rlt by auto
  from log_blocks_spec [OF bnd(1,2,3) rdb bnd(4), of start "quads m start 4" ?s1]
  obtain s2 rows ws c' where L: "log_blocks m start limit (start + 32) (quads m start 4) 0 ?s1
      = Some (start + 32 + 32 * of_nat b, ws, c', s2)"
    "klog s2 = klog ?s1 @ rows" "s2 = ?s1\<lparr>klog := klog s2\<rparr>" "unat c' \<le> unat (0 :: u64) + b"
    "expands rows @ concat (replicate (Suc (unat c')) ws)
      = concat (replicate (Suc (unat (0::u64))) (quads m start 4)) @ quads m (start + 32) (4 * b)"
    "offs (start + 32 - start - 32 * (0 + 1)) rows
      = Some (start + 32 + 32 * of_nat b - start - 32 * (c' + 1))"
    by blast
  let ?c = "c' + 1"
  let ?last = "Block ?c (limit - start - 8 * ?c) ws"
  let ?s3 = "printk ?last s2"
  let ?p = "start + 32 + 32 * of_nat b"
  have up: "unat ?p = unat start + 32 + 32 * b"
    using bnd u by (simp add: unat_word_ariths unat_of_nat)
  have bt: "unat limit = unat ?p + r" "unat ?p + 8 * t < 2 ^ 64"
    using assms(5,6) up len rlt by (auto simp: t_def)
  from log_qwords_spec [where line = Tail, OF _ bt(1) t_def bt(2) rdt, of start ?s3]
  obtain s4 tails where T: "log_qwords Tail m start limit ?p ?s3 = Some s4"
     "klog s4 = klog ?s3 @ tails" "expands tails = quads m ?p t" "log_id s4 = log_id ?s3"
     "s4 = ?s3\<lparr>klog := klog s4\<rparr>" by auto
  have le: "\<not> limit < start" "\<not> limit - start < 32"
    using assms(4,5) ul by (auto simp: word_less_nat_alt)
  let ?s' = "(printk (End (log_id s4)) s4)\<lparr>log_id := log_id s4 + 1\<rparr>"
  have R: "log_range m start limit msg s = Some ?s'"
    using assms(1,2,3) le L(1) T(1) pa ld_block_quads [OF rd0]
    by (simp add: log_range_def BLOCK_BYTES_def)
  have id2: "log_id s2 = log_id s" by (subst L(3)) simp
  have ids: "log_id s4 = log_id s" using T(4) id2 by simp
  have uc: "unat ?c = Suc (unat c')" using L(4) bnd(4) by (simp add: unat_word_ariths)
  have E: "expands (rows @ ?last # tails) = quads m start (4 + (4 * b + t))"
    using L(5) T(3) uc quads_add [of m start 4 "4 * b + t"] quads_add [of m "start + 32" "4 * b" t]
    by (simp add: algebra_simps)
  have S: "?s' = s\<lparr>klog := klog ?s', log_id := log_id s + 1\<rparr>"
    by (subst (1 3) T(5), subst (1) L(3)) (simp add: printk_def ids)
  have "len div 32 = Suc b" using len rlt by simp
  then have O: "offs 0 rows = Some (32 * of_nat (len div 32) - 32 * ?c)"
    using L(6) by (simp add: algebra_simps)
  have K: "klog ?s' = klog s @ [Begin (log_id s) start msg] @ (rows @ ?last # tails) @ [End (log_id s)]"
    using T(2) L(2) ids by simp
  show ?thesis using R K S E n O uc L(4) \<open>len div 32 = Suc b\<close>
    by (intro exI [of _ ?s'] exI [of _ rows] exI [of _ ?c] exI [of _ ws] exI [of _ tails]
          exI [of _ "32 * of_nat (len div 32) - 32 * ?c"]) simp
qed

lemma log_range_short:
  assumes "check_msg 0 msg = None" "start \<noteq> 0" "len < 32"
    "unat limit = unat start + len" "unat limit + 64 < 2 ^ 64" "readable m start ((len + 7) div 8)"
  shows "\<exists>s' body. log_range m start limit msg s = Some s'
    \<and> klog s' = klog s @ [Begin (log_id s) start msg] @ body @ [End (log_id s)]
    \<and> s' = s\<lparr>klog := klog s', log_id := log_id s + 1\<rparr>
    \<and> expands body = quads m start ((len + 7) div 8)"
proof -
  have ul: "unat (limit - start) = len" using assms(4) by (simp add: unat_sub_if_size)
  have le: "\<not> limit < start" "limit - start < 32"
    using assms(3,4) ul by (auto simp: word_less_nat_alt)
  let ?s1 = "printk (Begin (log_id s) start msg) s"
  have b: "unat start + 8 * ((len + 7) div 8) < 2 ^ 64" using assms(4,5) by auto
  from log_qwords_spec [where line = Qword, OF _ assms(4) refl b assms(6), of start ?s1]
  obtain s2 body where Q: "log_qwords Qword m start limit start ?s1 = Some s2"
    "klog s2 = klog ?s1 @ body" "expands body = quads m start ((len + 7) div 8)"
    "log_id s2 = log_id ?s1" "s2 = ?s1\<lparr>klog := klog s2\<rparr>" by auto
  let ?s' = "(printk (End (log_id s2)) s2)\<lparr>log_id := log_id s2 + 1\<rparr>"
  have R: "log_range m start limit msg s = Some ?s'"
    using assms(1,2) le Q(1) by (simp add: log_range_def log_short_def BLOCK_BYTES_def)
  have S: "?s' = s\<lparr>klog := klog ?s', log_id := log_id s + 1\<rparr>"
    by (subst (1 3) Q(5)) (simp add: printk_def)
  show ?thesis using R S Q by (intro exI [of _ ?s'] exI [of _ body]) simp
qed


text \<open>C34: \<open>log_range\<close> loses nothing: for a readable, aligned range and a plain message it
  returns, prints \<open>BEGIN\<close>, a body and \<open>END\<close> under the current id, advances the id, and the body,
  with its run lengths expanded, is exactly the quad words of the range.\<close>

theorem log_range_lossless:
  assumes "check_msg 0 msg = None" "start \<noteq> 0" "start mod 8 = 0"
    "unat limit = unat start + len" "unat limit + 64 < 2 ^ 64" "readable m start ((len + 7) div 8)"
  shows "\<exists>s' body. log_range m start limit msg s = Some s'
    \<and> klog s' = klog s @ [Begin (log_id s) start msg] @ body @ [End (log_id s)]
    \<and> s' = s\<lparr>klog := klog s', log_id := log_id s + 1\<rparr>
    \<and> expands body = quads m start ((len + 7) div 8)"
proof (cases "len < 32")
  case True
  with assms show ?thesis by (intro log_range_short)
next
  case False
  with assms have "32 \<le> len" by simp
  from log_range_blocks [OF assms(1-3) this assms(4-6)] show ?thesis by blast
qed

lemma load_const: "load (\<lambda>_. Some b) 8 a = Some (le_val (replicate 8 b))"
proof -
  have "ld_bytes (\<lambda>_. Some b) a n = Some (replicate n b)" for n
    by (induction n arbitrary: a) auto
  then show ?thesis by (simp add: load_def)
qed

theorem log_range_lossless_witness:
  "\<exists>s' body. log_range (\<lambda>_. Some 0x11) 0x1000 0x1048 ''COM TBL'' buster_init_state = Some s'
    \<and> klog s' = [Begin 0 0x1000 ''COM TBL''] @ body @ [End 0]
    \<and> expands body = quads (\<lambda>_. Some 0x11) 0x1000 9"
  using log_range_lossless [of "''COM TBL''" "0x1000" "0x1048" "0x48" "\<lambda>_. Some 0x11" buster_init_state]
  by (auto simp: readable_def load_const buster_init_state_def)

text \<open>of the block lines, every one but the last carries the offset of the run it counts; the
  last one never does, because the code subtracts \<open>8 * (count + 1)\<close> from the length of the range
  where the run starts \<open>BLOCK_BYTES * (count + 1)\<close> before its last whole block ends.\<close>

theorem log_range_last_offset:
  assumes "check_msg 0 msg = None" "start \<noteq> 0" "start mod 8 = 0" "32 \<le> len"
    "unat limit = unat start + len" "unat limit + 64 < 2 ^ 64" "readable m start ((len + 7) div 8)"
  shows "\<exists>s' rows c off ws tails p. log_range m start limit msg s = Some s'
    \<and> klog s' = klog s @ [Begin (log_id s) start msg] @ rows @ Block c off ws # tails @ [End (log_id s)]
    \<and> offs 0 rows = Some p \<and> off \<noteq> p"
proof -
  from log_range_blocks [OF assms, of s] obtain s' rows c ws tails p where
   *: "log_range m start limit msg s = Some s'"
     "klog s' = klog s @ [Begin (log_id s) start msg]
        @ (rows @ Block c (limit - start - 8 * c) ws # tails) @ [End (log_id s)]"
     "offs 0 rows = Some p" "p = 32 * of_nat (len div 32) - 32 * c"
     "0 < unat c" "unat c \<le> len div 32"
    by blast
  have ul: "limit - start = of_nat len"
  proof -
    have "unat (limit - start) = len" using assms(5) by (simp add: unat_sub_if_size)
    then show ?thesis by (metis of_nat_unat ucast_id)
  qed
  have "limit - start - 8 * c \<noteq> p"
  proof
    assume "limit - start - 8 * c = p"
    then have "of_nat len + 24 * c = (32 * of_nat (len div 32) :: u64)"
      using ul *(4) by (simp add: algebra_simps)
    then have "of_nat (len + 24 * unat c) = (of_nat (32 * (len div 32)) :: u64)"
      by simp
    then have "unat (of_nat (len + 24 * unat c) :: u64) = unat (of_nat (32 * (len div 32)) :: u64)"
      by (rule arg_cong)
    then have "(len + 24 * unat c) mod 2 ^ LENGTH(64) = (32 * (len div 32)) mod 2 ^ LENGTH(64)"
      by (simp only: unat_of_nat)
    moreover have le: "32 * (len div 32) \<le> len + 24 * unat c" by simp
    ultimately have "2 ^ LENGTH(64) dvd len + 24 * unat c - 32 * (len div 32)"
      by (simp only: mod_eq_dvd_iff_nat [OF le])
    moreover have "len + 24 * unat c - 32 * (len div 32) < 2 ^ LENGTH(64)"
      using assms(5,6) *(6) by (auto simp: minus_mult_div_eq_mod [symmetric])
    moreover have "0 < len + 24 * unat c - 32 * (len div 32)" using *(5) by simp
    ultimately show False by (auto dest: dvd_imp_le)
  qed
  with * show ?thesis by fastforce
qed

theorem log_range_last_offset_witness:
  "\<exists>s' rows c off ws tails p.
    log_range (\<lambda>_. Some 0x11) 0x1000 0x1040 ''COM TBL'' buster_init_state = Some s'
    \<and> klog s' = [Begin 0 0x1000 ''COM TBL''] @ rows @ Block c off ws # tails @ [End 0]
    \<and> offs 0 rows = Some p \<and> off \<noteq> p"
  using log_range_last_offset [of "''COM TBL''" "0x1000" "0x40" "0x1040" "\<lambda>_. Some 0x11" buster_init_state]
  by (auto simp: readable_def load_const buster_init_state_def)

section \<open>Invariants that logging keeps\<close>

text \<open>
  What the clients of the log rely on: an invariant that no log line and no change of the log id
  can break is kept by every dump.
\<close>

locale log_inv =
  fixes I :: "buster \<Rightarrow> bool"
  assumes I_log: "I s \<Longrightarrow> I (s\<lparr>klog := l\<rparr>)"
    and I_id: "I s \<Longrightarrow> I (s\<lparr>log_id := n\<rparr>)"
begin

lemma I_printk: "I s \<Longrightarrow> I (printk l s)"
  by (simp add: printk_def I_log)

lemma I_log_qwords: "log_qwords line m a lim p s = Some s' \<Longrightarrow> I s \<Longrightarrow> I s'"
proof (induction line m a lim p s rule: log_qwords.induct)
  case (1 line m a lim p s)
  show ?case
  proof (cases "p < lim")
    case True
    with "1.prems" obtain v q where "load m 8 p = Some v" "ptr_add p 8 = Some q"
      "log_qwords line m a lim q (printk (line (p - a) v) s) = Some s'"
      by (subst (asm) log_qwords.simps) (auto split: bind_splits)
    with True "1.prems" show ?thesis by (blast intro: "1.IH" I_printk)
  next
    case False
    with "1.prems" show ?thesis by (subst (asm) log_qwords.simps) simp
  qed
qed

lemma I_log_short: "log_short m a lim msg s = Some s' \<Longrightarrow> I s \<Longrightarrow> I s'"
proof -
  assume r: "log_short m a lim msg s = Some s'" and I: "I s"
  then obtain s2 where q: "log_qwords Qword m a lim a (printk (Begin (log_id s) a msg) s) = Some s2"
    and s': "s' = (printk (End (log_id s2)) s2)\<lparr>log_id := log_id s2 + 1\<rparr>"
    by (auto simp: log_short_def split: bind_splits)
  have "I s2" using q I by (blast intro: I_log_qwords I_printk)
  then show ?thesis unfolding s' by (intro I_id I_printk)
qed

lemma I_log_blocks:
  "log_blocks m a lim p v c s = Some (p', v', c', s') \<Longrightarrow> I s \<Longrightarrow> I s'"
proof (induction m a lim p v c s rule: log_blocks.induct)
  case (1 m a lim p v c s)
  from "1.prems"(1) obtain e where e: "ptr_add p BLOCK_BYTES = Some e"
    by (subst (asm) log_blocks.simps) (auto split: bind_splits)
  show ?case
  proof (cases "e \<le> lim")
    case True
    with "1.prems"(1) e obtain ws where ws: "ld_block m p = Some ws"
      by (subst (asm) log_blocks.simps) (auto split: bind_splits)
    note IH = "1.IH" [OF e True ws]
    show ?thesis
      using "1.prems" IH(1) IH(2) [OF _ refl] IH(3) [OF _ refl] e True ws
      by (subst (asm) log_blocks.simps) (auto simp: Let_def I_printk split: if_splits)
  next
    case False
    with "1.prems" e show ?thesis by (subst (asm) log_blocks.simps) simp
  qed
qed

lemma I_log_range: "log_range m a lim msg s = Some s' \<Longrightarrow> I s \<Longrightarrow> I s'"
proof -
  assume r: "log_range m a lim msg s = Some s'" and I: "I s"
  consider (err) e where "s' = printk (Err e) s" | (short) "log_short m a lim msg s = Some s'"
    | (blocks) p0 v0 p v c s2 s4 where
        "log_blocks m a lim p0 v0 0 (printk (Begin (log_id s) a msg) s) = Some (p, v, c, s2)"
        "log_qwords Tail m a lim p (printk (Block (c + 1) (lim - a - 8 * (c + 1)) v) s2) = Some s4"
        "s' = (printk (End (log_id s4)) s4)\<lparr>log_id := log_id s4 + 1\<rparr>"
    using r by (auto simp: log_range_def split: option.splits if_splits bind_splits)
  then show ?thesis
  proof cases
    case err
    then show ?thesis using I by (simp add: I_printk)
  next
    case short
    then show ?thesis using I by (rule I_log_short)
  next
    case blocks
    have "I s4" using blocks(1,2) I by (blast intro: I_log_blocks I_log_qwords I_printk)
    then show ?thesis unfolding blocks(3) by (intro I_id I_printk)
  qed
qed

end

end
