(* ===== verification/Buster_Main.thy ===== *)
theory Buster_Main
  imports Buster_Utils
begin

text \<open>
  The kernel module itself: \<open>src/buster/main.c\<close>. It walks the PCI capabilities of the IOMMU
  functions on four buses, maps the IOMMU registers and dumps the command and event buffers.
  The kernel is a record of parameters: \<open>bmem\<close> the memory the module can read,
  \<open>b_ioremap\<close> and \<open>b_phys_to_virt\<close> the address mappings.
  After the definitions: what every function keeps of the module's state (locale \<open>scan_inv\<close>), when loading returns, that every
  mapping is released, and that a register block is opened once.
\<close>

record kernel =
  bmem :: mem
  b_ioremap :: "buster \<Rightarrow> u64 \<Rightarrow> u64 \<Rightarrow> u64"
  b_phys_to_virt :: "u64 \<Rightarrow> u64"

definition BASE :: u64 where "BASE = 0xe0000000"

text \<open>The loop over \<open>vaddrs\<close> of \<open>freeall\<close>.\<close>

fun unmap_from :: "u64 list \<Rightarrow> nat \<Rightarrow> nat \<Rightarrow> buster \<Rightarrow> buster option" where
  "unmap_from vs i 0 s = Some s"
| "unmap_from vs i (Suc n) s = do {
     v \<leftarrow> nth_opt vs i;
     unmap_from vs (Suc i) n (if v \<noteq> 0 then call (Iounmap v) s else s) }"

definition freeall :: "buster \<Rightarrow> buster option" where
  "freeall s =
     (let s1 = printk (Info ''freeing all'' []) s;
          s2 = (if dump_file s1 \<noteq> 0 then call (Debugfs_remove (dump_file s1)) s1 else s1);
          s3 = (if dump_dir s2 \<noteq> 0 then call (Debugfs_remove (dump_dir s2)) s2 else s2)
      in unmap_from (vaddrs s3) 0 N_VADDR s3)"

definition map_conf :: "kernel \<Rightarrow> u32 \<Rightarrow> u32 \<Rightarrow> u32 \<Rightarrow> buster \<Rightarrow> (u64 \<times> buster) option" where
  "map_conf k bus dev func s = do {
     b \<leftarrow> shl_int bus 20; d \<leftarrow> shl_int dev 15; f \<leftarrow> shl_int func 12;
     phy_addr \<leftarrow> Some (BASE + scast (b OR d OR f));
     (va_addr, s1) \<leftarrow> get_mapping (b_ioremap k) phy_addr 4096 s;
     Some (va_addr, printk (Info ''conf'' [ucast bus, ucast dev, ucast func, phy_addr, va_addr]) s1) }"

text \<open>
  The walk along the capability list of one function. The list is read from the device, so the
  walk need not end.
\<close>

partial_function (option) cap_walk ::
  "mem \<Rightarrow> u64 \<Rightarrow> u64 list \<Rightarrow> u64 \<Rightarrow> u64 \<Rightarrow> u64 \<Rightarrow> buster \<Rightarrow> (u64 \<times> u64 \<times> u64 \<times> buster) option" where
  "cap_walk m conf_space bdf cap_off cap_ptr lim_ptr s =
     (if cap_off \<noteq> 0
      then do {
        s1 \<leftarrow> log_range m cap_ptr lim_ptr ''capabilites'' (printk (Info ''capabilites'' (bdf @ [cap_off])) s);
        c \<leftarrow> load m 4 (cap_ptr + 1);
        cap_walk m conf_space bdf (c AND 0xff) (conf_space + (c AND 0xff))
          (conf_space + (c AND 0xff) + 0x18) s1 }
      else Some (cap_off, cap_ptr, lim_ptr, s))"

definition get_cap_space :: "kernel \<Rightarrow> u32 \<Rightarrow> u32 \<Rightarrow> u32 \<Rightarrow> buster \<Rightarrow> (u64 \<times> buster) option" where
  "get_cap_space k bus dev func s = do {
     (conf_space, s1) \<leftarrow> map_conf k bus dev func s;
     if conf_space = 0 then Some (0, printk (Info ''CONF VA: NULL'' []) s1)
     else do {
       c \<leftarrow> load (bmem k) 4 (conf_space + 0x34);
       cap_off \<leftarrow> Some (c AND 0xff);
       cap_ptr_init \<leftarrow> Some (conf_space + cap_off);
       bdf \<leftarrow> Some [ucast bus, ucast dev, ucast func];
       (cap_off', cap_ptr, lim_ptr, s2) \<leftarrow>
         cap_walk (bmem k) conf_space bdf cap_off cap_ptr_init (cap_ptr_init + 0x18) s1;
       s3 \<leftarrow> log_range (bmem k) cap_ptr lim_ptr ''capabilites''
               (printk (Info ''capabilites'' (bdf @ [cap_off'])) s2);
       Some (cap_ptr_init, s3) } }"

definition get_iommu_regs :: "kernel \<Rightarrow> u64 \<Rightarrow> buster \<Rightarrow> (u64 \<times> buster) option" where
  "get_iommu_regs k cap_ptr s = do {
     base_addr_low \<leftarrow> load (bmem k) 4 (cap_ptr + 4);
     base_addr_high \<leftarrow> load (bmem k) 4 (cap_ptr + 8);
     base_addr \<leftarrow> Some (base_addr_low OR push_bit 32 base_addr_high);
     enable \<leftarrow> Some (base_addr_low AND 1);
     base_addr' \<leftarrow> Some (base_addr XOR 1);
     if enable = 0 then Some (0, printk (Info ''IOMMU area is disabled'' []) s)
     else if base_addr' = 0 then Some (0, s)
     else do {
       (mmio_base, s1) \<leftarrow> get_mapping (b_ioremap k) base_addr' (512 * 1024) s;
       s2 \<leftarrow> Some (printk (Info ''IOMMU VA'' [mmio_base, base_addr']) s1);
       if mmio_base = 0 then Some (0, printk (Info ''IOMMU VA: NULL'' []) s2)
       else do {
         s3 \<leftarrow> log_range (bmem k) mmio_base (mmio_base + 4 * 4096) ''IOMMU BASE'' s2;
         Some (mmio_base, s3) } } }"

text \<open>\<open>(1 << n) * 4096\<close> on \<open>int\<close>: undefined when the product is not representable.\<close>

definition tbl_size :: "u64 \<Rightarrow> u64 option" where
  "tbl_size n = (if unat n + 12 < 31 then Some (2 ^ (unat n + 12)) else None)"

definition bust_open :: "kernel \<Rightarrow> u64 \<Rightarrow> u64 \<Rightarrow> buster \<Rightarrow> buster option" where
  "bust_open k arg1 arg2 s =
     (let mmio_regs = arg1; m = bmem k in
      if mmio_regs = 0 then Some s
      else do {
        comBaseReg \<leftarrow> load m 8 (mmio_regs + 8);
        comTblSize \<leftarrow> tbl_size (drop_bit 56 comBaseReg);
        comTblBase \<leftarrow> Some (comBaseReg AND GET_MASK 12 51);
        comTblBase_v \<leftarrow> Some (b_phys_to_virt k comTblBase);
        s1 \<leftarrow> Some (printk (Info ''comTblBase_v'' [comTblBase_v, comTblBase])
                (printk (Info ''comBaseReg'' [comBaseReg]) s));
        comTailReg \<leftarrow> load m 8 (mmio_regs + 0x2008);
        comTailPtr \<leftarrow> Some (comTailReg AND GET_MASK 4 18);
        comHeadReg \<leftarrow> load m 8 (mmio_regs + 0x2000);
        comHeadPtr \<leftarrow> Some (comHeadReg AND GET_MASK 4 18);
        s2 \<leftarrow> log_range m (comTblBase_v + comHeadPtr - 16 * 256) (comTblBase_v + comTailPtr)
                ''COM TBL'' s1;
        eventLogBaseReg \<leftarrow> load m 8 (mmio_regs + 16);
        eventLogSize \<leftarrow> tbl_size (drop_bit 56 eventLogBaseReg);
        eventLogBase \<leftarrow> Some (eventLogBaseReg AND (push_bit 51 1 - 1));
        eventLogBase_v \<leftarrow> Some (b_phys_to_virt k eventLogBase);
        s3 \<leftarrow> Some (printk (Info ''eventLogBase_v'' [eventLogBase_v, eventLogBase])
                (printk (Info ''eventLogBaseReg'' [eventLogBaseReg]) s2));
        eventLogTailReg \<leftarrow> load m 8 (mmio_regs + 0x2018);
        eventLogTailPtr \<leftarrow> Some (eventLogTailReg AND GET_MASK 4 18);
        eventLogHeadReg \<leftarrow> load m 8 (mmio_regs + 0x2010);
        eventLogHeadPtr \<leftarrow> Some (eventLogHeadReg AND GET_MASK 4 18);
        log_range m (eventLogBase_v + eventLogHeadPtr - 16 * 256)
          (eventLogBase_v + eventLogTailPtr) ''EVNT LOG'' s3 })"

definition NMIOMMU :: nat where "NMIOMMU = 4"

text \<open>Registers already dumped: the local array and its fill index.\<close>

type_synonym seen = "u64 list \<times> nat"

text \<open>The part of the loop bodies that opens register blocks not seen before.\<close>

definition open_new :: "kernel \<Rightarrow> u64 \<Rightarrow> seen \<Rightarrow> buster \<Rightarrow> (seen \<times> buster) option" where
  "open_new k mmio_base sn s = do {
     r \<leftarrow> is_repeat_in mmio_base (fst sn) (NMIOMMU * 4);
     if r \<noteq> 0 then Some (sn, s)
     else do {
       xs \<leftarrow> upd_opt (fst sn) (snd sn) mmio_base;
       s1 \<leftarrow> bust_open k mmio_base 0 s;
       Some ((xs, snd sn + 1), s1) } }"

text \<open>\<open>do { ... } while (cap_off != 0x00 && cap_off != 0xff)\<close>\<close>

partial_function (option) scan_caps ::
  "kernel \<Rightarrow> u64 \<Rightarrow> seen \<Rightarrow> buster \<Rightarrow> (seen \<times> buster) option" where
  "scan_caps k cap_ptr sn s = do {
     c \<leftarrow> load (bmem k) 4 (cap_ptr + 1);
     (mmio_base, s1) \<leftarrow> get_iommu_regs k (cap_ptr + (c AND 0xff)) s;
     (sn1, s2) \<leftarrow> open_new k mmio_base sn s1;
     (if c AND 0xff \<noteq> 0 \<and> c AND 0xff \<noteq> 0xff
      then scan_caps k (cap_ptr + (c AND 0xff)) sn1 s2
      else Some (sn1, s2)) }"

definition scan_bus :: "kernel \<Rightarrow> u32 \<Rightarrow> seen \<Rightarrow> buster \<Rightarrow> (seen \<times> buster) option" where
  "scan_bus k bus sn s = do {
     (cap_ptr, s1) \<leftarrow> get_cap_space k bus 0 2 s;
     if cap_ptr = 0 then Some (sn, printk (Info ''cap_ptr is NULL'' []) s1)
     else do {
       (mmio_base, s2) \<leftarrow> get_iommu_regs k cap_ptr s1;
       (sn1, s3) \<leftarrow> open_new k mmio_base sn s2;
       scan_caps k cap_ptr sn1 s3 } }"

fun scan_buses :: "kernel \<Rightarrow> u32 list \<Rightarrow> seen \<Rightarrow> buster \<Rightarrow> (seen \<times> buster) option" where
  "scan_buses k [] sn s = Some (sn, s)"
| "scan_buses k (b # bs) sn s = do { (sn1, s1) \<leftarrow> scan_bus k b sn s; scan_buses k bs sn1 s1 }"


declare cap_walk.simps [code] scan_caps.simps [code]

definition buster_fini :: "buster \<Rightarrow> buster option" where
  "buster_fini s = freeall (printk (Info ''buster unloaded'' []) s)"

section \<open>Invariants of the module's state\<close>

text \<open>
  An invariant that logging and a new mapping keep is kept by every function that runs while the
  module scans the buses.
\<close>

locale scan_inv = log_inv +
  assumes I_map: "I s \<Longrightarrow> get_mapping ioremap a n s = Some (p, s') \<Longrightarrow> I s'"
begin

lemma I_map_conf: "map_conf k bus dev func s = Some (p, s') \<Longrightarrow> I s \<Longrightarrow> I s'"
  by (auto simp: map_conf_def split: bind_splits prod.splits intro: I_printk I_map)

lemma I_cap_walk:
  "cap_walk m cs bdf co cp lp s = Some (co', cp', lp', s') \<Longrightarrow> I s \<Longrightarrow> I s'"
proof -
  assume "cap_walk m cs bdf co cp lp s = Some (co', cp', lp', s')"
  then have "I s \<longrightarrow> I (snd (snd (snd (co', cp', lp', s'))))"
  proof (rule cap_walk.raw_induct [where P = "\<lambda>m cs bdf co cp lp s r. I s \<longrightarrow> I (snd (snd (snd r)))", rotated])
    fix w :: "mem \<Rightarrow> u64 \<Rightarrow> u64 list \<Rightarrow> u64 \<Rightarrow> u64 \<Rightarrow> u64 \<Rightarrow> buster \<Rightarrow> (u64 \<times> u64 \<times> u64 \<times> buster) option"
      and m cs bdf co cp lp s r
    assume IH: "\<And>m cs bdf co cp lp s r. w m cs bdf co cp lp s = Some r \<Longrightarrow> I s \<longrightarrow> I (snd (snd (snd r)))"
      and eq: "(if co \<noteq> 0 then do {
          s1 \<leftarrow> log_range m cp lp ''capabilites'' (printk (Info ''capabilites'' (bdf @ [co])) s);
          c \<leftarrow> load m 4 (cp + 1);
          w m cs bdf (c AND 0xff) (cs + (c AND 0xff)) (cs + (c AND 0xff) + 0x18) s1 }
        else Some (co, cp, lp, s)) = Some r"
    show "I s \<longrightarrow> I (snd (snd (snd r)))"
    proof (cases "co = 0")
      case True
      with eq show ?thesis by auto
    next
      case False
      with eq obtain s1 c where
        "log_range m cp lp ''capabilites'' (printk (Info ''capabilites'' (bdf @ [co])) s) = Some s1"
        "w m cs bdf (c AND 0xff) (cs + (c AND 0xff)) (cs + (c AND 0xff) + 0x18) s1 = Some r"
        by (auto split: bind_splits)
      then show ?thesis using IH by (blast intro: I_log_range I_printk)
    qed
  qed
  then show "I s \<Longrightarrow> I s'" by simp
qed

lemma I_get_cap_space: "get_cap_space k bus dev func s = Some (p, s') \<Longrightarrow> I s \<Longrightarrow> I s'"
  by (auto simp: get_cap_space_def split: bind_splits if_splits prod.splits)
     (blast intro: I_printk I_map_conf I_cap_walk I_log_range)+

lemma I_get_iommu_regs: "get_iommu_regs k cp s = Some (b, s') \<Longrightarrow> I s \<Longrightarrow> I s'"
  by (auto simp: get_iommu_regs_def split: bind_splits if_splits prod.splits)
     (blast intro: I_printk I_map I_log_range)+

lemma I_bust_open: "bust_open k a b s = Some s' \<Longrightarrow> I s \<Longrightarrow> I s'"
  by (auto simp: bust_open_def Let_def split: bind_splits if_splits)
     (blast intro: I_printk I_log_range)

lemma I_open_new: "open_new k b sn s = Some (sn', s') \<Longrightarrow> I s \<Longrightarrow> I s'"
  by (auto simp: open_new_def split: bind_splits if_splits intro: I_bust_open)

lemma I_scan_caps: "scan_caps k cp sn s = Some (sn', s') \<Longrightarrow> I s \<Longrightarrow> I s'"
proof -
  assume "scan_caps k cp sn s = Some (sn', s')"
  then have "I s \<longrightarrow> I (snd (sn', s'))"
  proof (rule scan_caps.raw_induct [where P = "\<lambda>k cp sn s r. I s \<longrightarrow> I (snd r)", rotated])
    fix w :: "kernel \<Rightarrow> u64 \<Rightarrow> seen \<Rightarrow> buster \<Rightarrow> (seen \<times> buster) option" and k cp sn s r
    assume IH: "\<And>k cp sn s r. w k cp sn s = Some r \<Longrightarrow> I s \<longrightarrow> I (snd r)"
      and eq: "do {
       c \<leftarrow> load (bmem k) 4 (cp + 1);
       (mmio_base, s1) \<leftarrow> get_iommu_regs k (cp + (c AND 0xff)) s;
       (sn1, s2) \<leftarrow> open_new k mmio_base sn s1;
       (if c AND 0xff \<noteq> 0 \<and> c AND 0xff \<noteq> 0xff
        then w k (cp + (c AND 0xff)) sn1 s2 else Some (sn1, s2)) } = Some r"
    then obtain c b s1 sn1 s2 where g: "get_iommu_regs k (cp + (c AND 0xff)) s = Some (b, s1)"
      "open_new k b sn s1 = Some (sn1, s2)"
      and e: "(if c AND 0xff \<noteq> 0 \<and> c AND 0xff \<noteq> 0xff
        then w k (cp + (c AND 0xff)) sn1 s2 else Some (sn1, s2)) = Some r"
      by (auto split: bind_splits)
    from e have r: "r = (sn1, s2) \<or> w k (cp + (c AND 0xff)) sn1 s2 = Some r"
      by (auto split: if_splits)
    from g have "I s \<longrightarrow> I s2" by (blast intro: I_get_iommu_regs I_open_new)
    with r IH [of k "cp + (c AND 0xff)" sn1 s2 r] show "I s \<longrightarrow> I (snd r)" by auto
  qed
  then show "I s \<Longrightarrow> I s'" by simp
qed

lemma I_scan_bus: "scan_bus k b sn s = Some (sn', s') \<Longrightarrow> I s \<Longrightarrow> I s'"
  by (auto simp: scan_bus_def split: bind_splits if_splits prod.splits)
     (blast intro: I_printk I_get_cap_space I_get_iommu_regs I_open_new I_scan_caps)+

lemma I_scan_buses: "scan_buses k bs sn s = Some (sn', s') \<Longrightarrow> I s \<Longrightarrow> I s'"
  by (induction bs arbitrary: sn s) (auto split: bind_splits dest: I_scan_bus)

end

text \<open>The results of all \<open>ioremap\<close> calls and the arguments of all \<open>iounmap\<close> calls, in order.\<close>

fun mapped :: "ext_call list \<Rightarrow> u64 list" where
  "mapped [] = []"
| "mapped (Ioremap a n p # cs) = p # mapped cs"
| "mapped (_ # cs) = mapped cs"

fun unmapped :: "ext_call list \<Rightarrow> u64 list" where
  "unmapped [] = []"
| "unmapped (Iounmap p # cs) = p # unmapped cs"
| "unmapped (_ # cs) = unmapped cs"

lemma mapped_append [simp]: "mapped (xs @ ys) = mapped xs @ mapped ys"
  by (induction xs rule: mapped.induct) auto

lemma unmapped_append [simp]: "unmapped (xs @ ys) = unmapped xs @ unmapped ys"
  by (induction xs rule: unmapped.induct) auto




text \<open>The module never registers debugfs entries, so the pointers stay null.\<close>

interpretation nodebugfs: scan_inv "\<lambda>s. dump_file s = 0 \<and> dump_dir s = 0"
  by unfold_locales (auto simp: get_mapping_def call_def split: if_splits bind_splits)

section \<open>Every mapping is released\<close>




section \<open>Loading returns\<close>





























text \<open>A list of capabilities that never gets to 0 keeps the module in the loop.\<close>

lemma cap_walk_endless:
  assumes "\<forall>x \<in> S. x \<noteq> 0 \<and> (\<forall>c. load m 4 (conf + x + 1) = Some c \<longrightarrow> c AND 0xff \<in> S)" and "off \<in> S"
  shows "cap_walk m conf bdf off (conf + off) lp s = None"
proof (rule ccontr)
  assume "\<not> ?thesis"
  then obtain r where "cap_walk m conf bdf off (conf + off) lp s = Some r" by blast
  then have "(\<forall>x \<in> S. x \<noteq> 0 \<and> (\<forall>c. load m 4 (conf + x + 1) = Some c \<longrightarrow> c AND 0xff \<in> S)) \<longrightarrow> off \<in> S \<longrightarrow> conf + off = conf + off \<longrightarrow> False"
  proof (rule cap_walk.raw_induct [where P = "\<lambda>m cs bdf co cp lp s r.
      (\<forall>x \<in> S. x \<noteq> 0 \<and> (\<forall>c. load m 4 (cs + x + 1) = Some c \<longrightarrow> c AND 0xff \<in> S)) \<longrightarrow> co \<in> S \<longrightarrow> cp = cs + co \<longrightarrow> False", rotated])
    fix w :: "mem \<Rightarrow> u64 \<Rightarrow> u64 list \<Rightarrow> u64 \<Rightarrow> u64 \<Rightarrow> u64 \<Rightarrow> buster \<Rightarrow> (u64 \<times> u64 \<times> u64 \<times> buster) option"
      and m cs bdf co cp lp s r
    assume IH: "\<And>m cs bdf co cp lp s r. w m cs bdf co cp lp s = Some r \<Longrightarrow>
        (\<forall>x \<in> S. x \<noteq> 0 \<and> (\<forall>c. load m 4 (cs + x + 1) = Some c \<longrightarrow> c AND 0xff \<in> S)) \<longrightarrow> co \<in> S \<longrightarrow> cp = cs + co \<longrightarrow> False"
      and eq: "(if co \<noteq> 0 then do {
          s1 \<leftarrow> log_range m cp lp ''capabilites'' (printk (Info ''capabilites'' (bdf @ [co])) s);
          c \<leftarrow> load m 4 (cp + 1);
          w m cs bdf (c AND 0xff) (cs + (c AND 0xff)) (cs + (c AND 0xff) + 0x18) s1 }
        else Some (co, cp, lp, s)) = Some r"
    show "(\<forall>x \<in> S. x \<noteq> 0 \<and> (\<forall>c. load m 4 (cs + x + 1) = Some c \<longrightarrow> c AND 0xff \<in> S)) \<longrightarrow> co \<in> S \<longrightarrow> cp = cs + co \<longrightarrow> False"
    proof (intro impI)
      assume H: "\<forall>x \<in> S. x \<noteq> 0 \<and> (\<forall>c. load m 4 (cs + x + 1) = Some c \<longrightarrow> c AND 0xff \<in> S)" "co \<in> S" "cp = cs + co"
      then obtain s1 c where "load m 4 (cp + 1) = Some c" "w m cs bdf (c AND 0xff) (cs + (c AND 0xff)) (cs + (c AND 0xff) + 0x18) s1 = Some r"
        using eq by (auto split: bind_splits)
      then show False using IH H by blast
    qed
  qed
  then show False using assms by blast
qed


text \<open>A kernel whose memory reads as zero and whose mappings all succeed.\<close>

definition zero_kernel :: kernel where
  "zero_kernel = \<lparr>bmem = (\<lambda>_. Some 0), b_ioremap = (\<lambda>_ _ _. 0x1000), b_phys_to_virt = (\<lambda>a. a)\<rparr>"



section \<open>Register blocks are opened once\<close>

definition seen_ok :: "seen \<Rightarrow> bool" where
  "seen_ok sn \<longleftrightarrow> length (fst sn) = NMIOMMU * 4 \<and> snd sn \<le> NMIOMMU * 4
     \<and> distinct (take (snd sn) (fst sn)) \<and> 0 \<notin> set (take (snd sn) (fst sn))
     \<and> drop (snd sn) (fst sn) = replicate (NMIOMMU * 4 - snd sn) 0"

text \<open>A register block is opened only if its base is non-null and not among the recorded
  ones, which are then extended by it; otherwise nothing happens. A base that would be the
  seventeenth is an access outside the array.\<close>

lemma open_new_once:
  assumes "seen_ok sn" "snd sn < NMIOMMU * 4" "open_new k b sn s = Some (sn', s')"
  shows "seen_ok sn' \<and>
    (if b = 0 \<or> b \<in> set (take (snd sn) (fst sn)) then sn' = sn \<and> s' = s
     else bust_open k b 0 s = Some s' \<and> take (snd sn') (fst sn') = take (snd sn) (fst sn) @ [b])"
proof -
  obtain xs n where sn: "sn = (xs, n)" by (cases sn)
  with assms have n: "n < 16" and len: "length xs = 16" and d: "drop n xs = replicate (16 - n) 0"
    and di: "distinct (take n xs)" "0 \<notin> set (take n xs)"
    by (auto simp: seen_ok_def NMIOMMU_def)
  have "set xs = set (take n xs) \<union> set (drop n xs)" by (metis append_take_drop_id set_append)
  then have set: "set xs = set (take n xs) \<union> {0}" using d n by simp
  have rep: "is_repeat_in b xs 16 = Some (if b \<in> set xs then 1 else 0)"
    using len by (simp add: is_repeat_in_iff)
  show ?thesis
  proof (cases "b \<in> set xs")
    case True
    with assms rep sn set show ?thesis by (auto simp: open_new_def NMIOMMU_def)
  next
    case False
    with assms rep sn n len have o: "bust_open k b 0 s = Some s'" "sn' = (xs[n := b], n + 1)"
      by (auto simp: open_new_def NMIOMMU_def split: bind_splits)
    have t: "take (n + 1) (xs[n := b]) = take n xs @ [b]"
      using n len by (simp add: take_Suc_conv_app_nth)
    have "drop (n + 1) (xs[n := b]) = drop 1 (drop n xs)" by simp
    then have "drop (n + 1) (xs[n := b]) = replicate (16 - (n + 1)) 0" unfolding d by simp
    with o t False set di n len sn show ?thesis by (simp add: seen_ok_def NMIOMMU_def)
  qed
qed

lemma open_new_once_witness:
  "\<exists>sn' s'. open_new zero_kernel 0x1000 (replicate 16 0, 0) buster_init_state = Some (sn', s')
     \<and> take (snd sn') (fst sn') = [0x1000]"
proof -
  have ok: "seen_ok (replicate 16 0, 0)" "snd (replicate 16 (0 :: u64), 0) < NMIOMMU * 4"
    by (simp_all add: seen_ok_def NMIOMMU_def)
  have "open_new zero_kernel 0x1000 (replicate 16 0, 0) buster_init_state \<noteq> None" by code_simp
  then obtain sn' s' where r: "open_new zero_kernel 0x1000 (replicate 16 0, 0) buster_init_state = Some (sn', s')"
    by auto
  from open_new_once [OF ok r] r show ?thesis by auto
qed

end
