(* ===== verification/BPF_Def.thy ===== *)
theory BPF_Def
  imports Prelude
begin

text \<open>
  The data of the BPF library: instruction encodings (\<open>bpf_def.h\<close>), argument descriptions,
  external symbols and load parameters (\<open>rte_bpf.h\<close>), the loaded program (\<open>bpf_impl.h\<close>).
\<close>

section \<open>Instruction encodings\<close>

abbreviation (input) BPF_LD :: u8 where "BPF_LD \<equiv> 0x00"
abbreviation (input) BPF_LDX :: u8 where "BPF_LDX \<equiv> 0x01"
abbreviation (input) BPF_ST :: u8 where "BPF_ST \<equiv> 0x02"
abbreviation (input) BPF_STX :: u8 where "BPF_STX \<equiv> 0x03"
abbreviation (input) BPF_ALU :: u8 where "BPF_ALU \<equiv> 0x04"
abbreviation (input) BPF_JMP :: u8 where "BPF_JMP \<equiv> 0x05"
abbreviation (input) BPF_RET :: u8 where "BPF_RET \<equiv> 0x06"
abbreviation (input) BPF_MISC :: u8 where "BPF_MISC \<equiv> 0x07"
abbreviation (input) EBPF_ALU64 :: u8 where "EBPF_ALU64 \<equiv> 0x07"

abbreviation (input) BPF_W :: u8 where "BPF_W \<equiv> 0x00"
abbreviation (input) BPF_H :: u8 where "BPF_H \<equiv> 0x08"
abbreviation (input) BPF_B :: u8 where "BPF_B \<equiv> 0x10"
abbreviation (input) EBPF_DW :: u8 where "EBPF_DW \<equiv> 0x18"

abbreviation (input) BPF_IMM :: u8 where "BPF_IMM \<equiv> 0x00"
abbreviation (input) BPF_ABS :: u8 where "BPF_ABS \<equiv> 0x20"
abbreviation (input) BPF_IND :: u8 where "BPF_IND \<equiv> 0x40"
abbreviation (input) BPF_MEM :: u8 where "BPF_MEM \<equiv> 0x60"
abbreviation (input) BPF_LEN :: u8 where "BPF_LEN \<equiv> 0x80"
abbreviation (input) BPF_MSH :: u8 where "BPF_MSH \<equiv> 0xa0"
abbreviation (input) EBPF_XADD :: u8 where "EBPF_XADD \<equiv> 0xc0"

abbreviation (input) BPF_ADD :: u8 where "BPF_ADD \<equiv> 0x00"
abbreviation (input) BPF_SUB :: u8 where "BPF_SUB \<equiv> 0x10"
abbreviation (input) BPF_MUL :: u8 where "BPF_MUL \<equiv> 0x20"
abbreviation (input) BPF_DIV :: u8 where "BPF_DIV \<equiv> 0x30"
abbreviation (input) BPF_OR :: u8 where "BPF_OR \<equiv> 0x40"
abbreviation (input) BPF_AND :: u8 where "BPF_AND \<equiv> 0x50"
abbreviation (input) BPF_LSH :: u8 where "BPF_LSH \<equiv> 0x60"
abbreviation (input) BPF_RSH :: u8 where "BPF_RSH \<equiv> 0x70"
abbreviation (input) BPF_NEG :: u8 where "BPF_NEG \<equiv> 0x80"
abbreviation (input) BPF_MOD :: u8 where "BPF_MOD \<equiv> 0x90"
abbreviation (input) BPF_XOR :: u8 where "BPF_XOR \<equiv> 0xa0"
abbreviation (input) EBPF_MOV :: u8 where "EBPF_MOV \<equiv> 0xb0"
abbreviation (input) EBPF_ARSH :: u8 where "EBPF_ARSH \<equiv> 0xc0"
abbreviation (input) EBPF_END :: u8 where "EBPF_END \<equiv> 0xd0"

abbreviation (input) BPF_JA :: u8 where "BPF_JA \<equiv> 0x00"
abbreviation (input) BPF_JEQ :: u8 where "BPF_JEQ \<equiv> 0x10"
abbreviation (input) BPF_JGT :: u8 where "BPF_JGT \<equiv> 0x20"
abbreviation (input) BPF_JGE :: u8 where "BPF_JGE \<equiv> 0x30"
abbreviation (input) BPF_JSET :: u8 where "BPF_JSET \<equiv> 0x40"
abbreviation (input) EBPF_JNE :: u8 where "EBPF_JNE \<equiv> 0x50"
abbreviation (input) EBPF_JSGT :: u8 where "EBPF_JSGT \<equiv> 0x60"
abbreviation (input) EBPF_JSGE :: u8 where "EBPF_JSGE \<equiv> 0x70"
abbreviation (input) EBPF_CALL :: u8 where "EBPF_CALL \<equiv> 0x80"
abbreviation (input) EBPF_EXIT :: u8 where "EBPF_EXIT \<equiv> 0x90"
abbreviation (input) EBPF_JLT :: u8 where "EBPF_JLT \<equiv> 0xa0"
abbreviation (input) EBPF_JLE :: u8 where "EBPF_JLE \<equiv> 0xb0"
abbreviation (input) EBPF_JSLT :: u8 where "EBPF_JSLT \<equiv> 0xc0"
abbreviation (input) EBPF_JSLE :: u8 where "EBPF_JSLE \<equiv> 0xd0"

abbreviation (input) BPF_K :: u8 where "BPF_K \<equiv> 0x00"
abbreviation (input) BPF_X :: u8 where "BPF_X \<equiv> 0x08"
abbreviation (input) EBPF_TO_LE :: u8 where "EBPF_TO_LE \<equiv> 0x00"
abbreviation (input) EBPF_TO_BE :: u8 where "EBPF_TO_BE \<equiv> 0x08"

definition BPF_CLASS :: "u8 \<Rightarrow> u8" where "BPF_CLASS c = c AND 0x07"
definition BPF_SIZE :: "u8 \<Rightarrow> u8" where "BPF_SIZE c = c AND 0x18"
definition BPF_MODE :: "u8 \<Rightarrow> u8" where "BPF_MODE c = c AND 0xe0"
definition BPF_OP :: "u8 \<Rightarrow> u8" where "BPF_OP c = c AND 0xf0"
definition BPF_SRC :: "u8 \<Rightarrow> u8" where "BPF_SRC c = c AND 0x08"

text \<open>\<open>bpf_size\<close>: the bytes an access of the given size field moves.\<close>

definition bpf_size :: "u8 \<Rightarrow> nat" where
  "bpf_size bpf_op_sz =
     (if bpf_op_sz = BPF_B then 1
      else if bpf_op_sz = BPF_H then 2
      else if bpf_op_sz = BPF_W then 4
      else if bpf_op_sz = EBPF_DW then 8
      else 0)"

section \<open>Registers and instructions\<close>

abbreviation (input) EBPF_REG_0 :: nat where "EBPF_REG_0 \<equiv> 0"
abbreviation (input) EBPF_REG_1 :: nat where "EBPF_REG_1 \<equiv> 1"
abbreviation (input) EBPF_REG_6 :: nat where "EBPF_REG_6 \<equiv> 6"
abbreviation (input) EBPF_REG_10 :: nat where "EBPF_REG_10 \<equiv> 10"
abbreviation (input) EBPF_REG_NUM :: nat where "EBPF_REG_NUM \<equiv> 11"
abbreviation (input) EBPF_FUNC_MAX_ARGS :: nat where "EBPF_FUNC_MAX_ARGS \<equiv> 5"
abbreviation (input) MAX_BPF_STACK_SIZE :: nat where "MAX_BPF_STACK_SIZE \<equiv> 0x200"

text \<open>\<open>off\<close> and \<open>imm\<close> are signed in C; they are read with \<open>scast\<close> or \<open>sint\<close>.\<close>

record ebpf_insn =
  code :: u8
  dst_reg :: "4 word"
  src_reg :: "4 word"
  off :: u16
  imm :: u32

text \<open>An instruction from its fields, to write programs down.\<close>

definition mk_insn :: "u8 \<Rightarrow> 4 word \<Rightarrow> 4 word \<Rightarrow> u16 \<Rightarrow> u32 \<Rightarrow> ebpf_insn" where
  "mk_insn c d s o' im = \<lparr>code = c, dst_reg = d, src_reg = s, off = o', imm = im\<rparr>"

section \<open>Arguments, external symbols, programs\<close>

datatype rte_bpf_arg_type =
    RTE_BPF_ARG_UNDEF
  | RTE_BPF_ARG_RAW
  | RTE_BPF_ARG_PTR
  | RTE_BPF_ARG_PTR_MBUF
  | RTE_BPF_ARG_RESERVED     \<comment> \<open>\<open>BPF_ARG_PTR_STACK\<close> inside the verifier\<close>

abbreviation (input) BPF_ARG_PTR_STACK :: rte_bpf_arg_type where
  "BPF_ARG_PTR_STACK \<equiv> RTE_BPF_ARG_RESERVED"

text \<open>\<open>RTE_BPF_ARG_PTR_TYPE(x)\<close>, the bit \<open>0x10\<close> of the enumeration's value.\<close>

fun RTE_BPF_ARG_PTR_TYPE :: "rte_bpf_arg_type \<Rightarrow> bool" where
  "RTE_BPF_ARG_PTR_TYPE RTE_BPF_ARG_UNDEF = False"
| "RTE_BPF_ARG_PTR_TYPE RTE_BPF_ARG_RAW = False"
| "RTE_BPF_ARG_PTR_TYPE RTE_BPF_ARG_PTR = True"
| "RTE_BPF_ARG_PTR_TYPE RTE_BPF_ARG_PTR_MBUF = True"
| "RTE_BPF_ARG_PTR_TYPE RTE_BPF_ARG_RESERVED = True"

record rte_bpf_arg =
  arg_type :: rte_bpf_arg_type
  arg_size :: u64
  arg_buf_size :: u64

text \<open>
  An external symbol: the union of \<open>struct rte_bpf_xsym\<close>. The function pointer of a helper is a
  HOL function over the five argument registers and the memory it may change.
\<close>

type_synonym helper = "u64 \<Rightarrow> u64 \<Rightarrow> u64 \<Rightarrow> u64 \<Rightarrow> u64 \<Rightarrow> mem \<Rightarrow> (u64 \<times> mem) option"

datatype xsym_union =
    RTE_BPF_XTYPE_FUNC (xfunc_val: helper) (xfunc_nb_args: u32) (xfunc_args: "rte_bpf_arg list")
      (xfunc_ret: rte_bpf_arg)
  | RTE_BPF_XTYPE_VAR (xvar_val: u64) (xvar_desc: rte_bpf_arg)
  | XTYPE_OTHER

record rte_bpf_xsym =
  xsym_name :: "string option"
  xsym_body :: xsym_union

record rte_bpf_prm =
  ins :: "ebpf_insn list"
  xsym :: "rte_bpf_xsym list"
  prog_arg :: rte_bpf_arg

record rte_bpf =
  prm :: rte_bpf_prm
  jit_func :: u64
  jit_sz :: u64
  sz :: u64
  stack_sz :: u32

text \<open>The 32-bit field \<open>nb_ins\<close>, and what it says of the array it counts.\<close>

definition nb_ins :: "rte_bpf_prm \<Rightarrow> u32" where "nb_ins p = of_nat (length (ins p))"

definition nb_xsym :: "rte_bpf_prm \<Rightarrow> u32" where "nb_xsym p = of_nat (length (xsym p))"

text \<open>\<open>RTE_LEN2MASK(ln, uint64_t)\<close>: undefined when the shift count is not below 64.\<close>

definition RTE_LEN2MASK :: "u64 \<Rightarrow> u64 option" where
  "RTE_LEN2MASK ln = (if 0 < ln \<and> ln \<le> 64 then Some (drop_bit (unat (64 - ln)) (- 1)) else None)"

section \<open>Programs to write down\<close>

definition raw_arg :: rte_bpf_arg where
  "raw_arg = \<lparr>arg_type = RTE_BPF_ARG_RAW, arg_size = 8, arg_buf_size = 0\<rparr>"

definition ptr_arg :: "u64 \<Rightarrow> rte_bpf_arg" where
  "ptr_arg n = \<lparr>arg_type = RTE_BPF_ARG_PTR, arg_size = n, arg_buf_size = 0\<rparr>"

definition mbuf_arg :: rte_bpf_arg where
  "mbuf_arg = \<lparr>arg_type = RTE_BPF_ARG_PTR_MBUF, arg_size = 128, arg_buf_size = 2048\<rparr>"

definition bpf_of :: "rte_bpf_arg \<Rightarrow> ebpf_insn list \<Rightarrow> rte_bpf" where
  "bpf_of a xs = \<lparr>prm = \<lparr>ins = xs, xsym = [], prog_arg = a\<rparr>, jit_func = 0, jit_sz = 0, sz = 0,
     stack_sz = 0\<rparr>"

end
