(* ===== verification/BPF_State.thy ===== *)
theory BPF_State
  imports BPF_Def
begin

text \<open>
  The state of the verifier (\<open>lib/bpf/bpf_validate.c\<close>): what is known of a register or a stack
  slot, the evaluation state of one program point, the nodes of the control flow graph and the
  verifier's own record. Pointers into the two arrays the verifier allocates (\<open>in\<close> and
  \<open>evst_pool.ent\<close>) are indices, the null pointer is \<open>None\<close>.
\<close>

section \<open>Register values\<close>

text \<open>The signed bounds hold the bits of an \<open>int64_t\<close>; they are compared with \<open><s\<close> and \<open>\<le>s\<close>.\<close>

record bpf_reg_val =
  rv_v :: rte_bpf_arg
  rv_mask :: u64
  smin :: u64
  smax :: u64
  umin :: u64
  umax :: u64

abbreviation rv_type :: "bpf_reg_val \<Rightarrow> rte_bpf_arg_type" where
  "rv_type r \<equiv> arg_type (rv_v r)"

definition set_type :: "rte_bpf_arg_type \<Rightarrow> bpf_reg_val \<Rightarrow> bpf_reg_val" where
  "set_type t r = r\<lparr>rv_v := (rv_v r)\<lparr>arg_type := t\<rparr>\<rparr>"

definition set_size :: "u64 \<Rightarrow> bpf_reg_val \<Rightarrow> bpf_reg_val" where
  "set_size n r = r\<lparr>rv_v := (rv_v r)\<lparr>arg_size := n\<rparr>\<rparr>"

text \<open>
  The all-zero value: what \<open>calloc\<close> gives. It also stands for a local variable that has no
  initialiser; the fields the code leaves unset there are never read.
\<close>

definition zero_arg :: rte_bpf_arg where
  "zero_arg = \<lparr>arg_type = RTE_BPF_ARG_UNDEF, arg_size = 0, arg_buf_size = 0\<rparr>"

definition zero_reg_val :: bpf_reg_val where
  "zero_reg_val = \<lparr>rv_v = zero_arg, rv_mask = 0, smin = 0, smax = 0, umin = 0, umax = 0\<rparr>"

record bpf_eval_state =
  rv :: "bpf_reg_val list"
  sv :: "bpf_reg_val list"

definition zero_eval_state :: bpf_eval_state where
  "zero_eval_state =
     \<lparr>rv = replicate EBPF_REG_NUM zero_reg_val, sv = replicate (MAX_BPF_STACK_SIZE div 8) zero_reg_val\<rparr>"

section \<open>The control flow graph\<close>

text \<open>Error codes are negative: \<open>- EINVAL\<close> and so on, as bits of an \<open>int\<close>.\<close>

abbreviation (input) EINVAL :: u32 where "EINVAL \<equiv> 22"
abbreviation (input) ENOMEM :: u32 where "ENOMEM \<equiv> 12"
abbreviation (input) ENOTSUP :: u32 where "ENOTSUP \<equiv> 95"

datatype node_colour = WHITE | GREY | BLACK
datatype edge_type = UNKNOWN_EDGE | TREE_EDGE | BACK_EDGE | CROSS_EDGE

abbreviation (input) MAX_EDGES :: nat where "MAX_EDGES \<equiv> 2"

text \<open>The 4-bit counters \<open>nb_edge\<close> and \<open>cur_edge\<close> stay at most 2 and are kept as naturals.\<close>

record inst_node =
  colour :: node_colour
  nb_edge :: nat
  cur_edge :: nat
  node_edge_type :: "edge_type list"
  edge_dest :: "u32 list"
  prev_node :: u32
  node_evst :: "nat option"

definition zero_node :: inst_node where
  "zero_node = \<lparr>colour = WHITE, nb_edge = 0, cur_edge = 0,
     node_edge_type = replicate MAX_EDGES UNKNOWN_EDGE, edge_dest = replicate MAX_EDGES 0,
     prev_node = 0, node_evst = None\<rparr>"

text \<open>An error message of the verifier with the numbers it prints; debug messages are left out.\<close>

datatype log_msg = Log string "nat list"

record bpf_verifier =
  bvf_prm :: rte_bpf_prm
  bvf_in :: "inst_node list"
  bvf_stack_sz :: u64
  nb_nodes :: u32
  nb_jcc_nodes :: u32
  nb_ldmb_nodes :: u32
  bvf_node_colour :: "node_colour \<Rightarrow> u32"
  bvf_edge_type :: "edge_type \<Rightarrow> u32"
  bvf_evst :: "nat option"
  bvf_evin :: "nat option"
  pool_num :: u32
  pool_cur :: u32
  pool_ent :: "bpf_eval_state list"
  bvf_log :: "log_msg list"

definition bpf_log :: "bpf_verifier \<Rightarrow> log_msg \<Rightarrow> bpf_verifier" where
  "bpf_log bvf l = bvf\<lparr>bvf_log := bvf_log bvf @ [l]\<rparr>"

text \<open>\<open>*bvf->evst\<close>, and an assignment through that pointer.\<close>

definition get_evst :: "bpf_verifier \<Rightarrow> bpf_eval_state option" where
  "get_evst bvf = do { e \<leftarrow> bvf_evst bvf; nth_opt (pool_ent bvf) e }"

definition put_evst :: "bpf_verifier \<Rightarrow> bpf_eval_state \<Rightarrow> bpf_verifier option" where
  "put_evst bvf st = do {
     e \<leftarrow> bvf_evst bvf;
     ent \<leftarrow> upd_opt (pool_ent bvf) e st;
     Some (bvf\<lparr>pool_ent := ent\<rparr>) }"

text \<open>\<open>*(st->rv + r)\<close> and \<open>*(st->sv + i)\<close>, read and assigned.\<close>

definition get_rv :: "bpf_eval_state \<Rightarrow> nat \<Rightarrow> bpf_reg_val option" where
  "get_rv st r = nth_opt (rv st) r"

definition put_rv :: "bpf_eval_state \<Rightarrow> nat \<Rightarrow> bpf_reg_val \<Rightarrow> bpf_eval_state option" where
  "put_rv st r v = map_option (\<lambda>rs. st\<lparr>rv := rs\<rparr>) (upd_opt (rv st) r v)"

definition get_sv :: "bpf_eval_state \<Rightarrow> nat \<Rightarrow> bpf_reg_val option" where
  "get_sv st i = nth_opt (sv st) i"

definition put_sv :: "bpf_eval_state \<Rightarrow> nat \<Rightarrow> bpf_reg_val \<Rightarrow> bpf_eval_state option" where
  "put_sv st i v = map_option (\<lambda>ss. st\<lparr>sv := ss\<rparr>) (upd_opt (sv st) i v)"

end
