(* ===== verification/BPF_Syntax.thy ===== *)
theory BPF_Syntax
  imports BPF_Def
begin

text \<open>
  The first check of the verifier (\<open>lib/bpf/bpf_validate.c\<close>): the table \<open>ins_chk\<close> of what each
  opcode allows in its fields, and \<open>check_syntax\<close>. The function pointers of a table entry are the
  constructors of \<open>check_fn\<close> and \<open>eval_fn\<close>.
\<close>

section \<open>The table of instructions\<close>

datatype check_fn = Check_none | Check_alu_bele

datatype eval_fn =
    Eval_none | Eval_alu | Eval_bele | Eval_load | Eval_ld_imm64 | Eval_ld_mbuf | Eval_store
  | Eval_jcc | Eval_call | Eval_exit

record bpf_ins_check =
  mask_dreg :: u16
  mask_sreg :: u16
  off_min :: u16
  off_max :: u16
  imm_min :: u32
  imm_max :: u32
  chk_check :: check_fn
  chk_eval :: eval_fn

text \<open>\<open>RTE_LEN2MASK(EBPF_REG_NUM, uint16_t)\<close> and the like.\<close>

abbreviation (input) ALL_REGS :: u16 where "ALL_REGS \<equiv> 0x7ff"
abbreviation (input) WRT_REGS :: u16 where "WRT_REGS \<equiv> 0x3ff"
abbreviation (input) ZERO_REG :: u16 where "ZERO_REG \<equiv> 0x1"
abbreviation (input) IND_SRC_REGS :: u16 where "IND_SRC_REGS \<equiv> 0x3bf"
abbreviation (input) UINT16_MAX :: u16 where "UINT16_MAX \<equiv> 0xffff"
abbreviation (input) UINT32_MAX :: u32 where "UINT32_MAX \<equiv> 0xffffffff"
abbreviation (input) INT32_MAX :: u32 where "INT32_MAX \<equiv> 0x7fffffff"

text \<open>An entry: destination and source registers, then the bounds of \<open>off\<close> and \<open>imm\<close>.\<close>

definition ent :: "u16 \<Rightarrow> u16 \<Rightarrow> u16 \<Rightarrow> u16 \<Rightarrow> u32 \<Rightarrow> u32 \<Rightarrow> check_fn \<Rightarrow> eval_fn \<Rightarrow> bpf_ins_check" where
  "ent dreg sreg omin omax imin imax chk evl =
     \<lparr>mask_dreg = dreg, mask_sreg = sreg, off_min = omin, off_max = omax,
      imm_min = imin, imm_max = imax, chk_check = chk, chk_eval = evl\<rparr>"

definition ins_chk_alu_imm :: "(u8 \<times> bpf_ins_check) list" where
  "ins_chk_alu_imm = [
     \<comment> \<open>ALU IMM 32-bit instructions\<close>
     (BPF_ALU OR BPF_ADD OR BPF_K, ent WRT_REGS ZERO_REG 0 0 0 UINT32_MAX Check_none Eval_alu),
     (BPF_ALU OR BPF_SUB OR BPF_K, ent WRT_REGS ZERO_REG 0 0 0 UINT32_MAX Check_none Eval_alu),
     (BPF_ALU OR BPF_AND OR BPF_K, ent WRT_REGS ZERO_REG 0 0 0 UINT32_MAX Check_none Eval_alu),
     (BPF_ALU OR BPF_OR OR BPF_K, ent WRT_REGS ZERO_REG 0 0 0 UINT32_MAX Check_none Eval_alu),
     (BPF_ALU OR BPF_LSH OR BPF_K, ent WRT_REGS ZERO_REG 0 0 0 UINT32_MAX Check_none Eval_alu),
     (BPF_ALU OR BPF_RSH OR BPF_K, ent WRT_REGS ZERO_REG 0 0 0 UINT32_MAX Check_none Eval_alu),
     (BPF_ALU OR BPF_XOR OR BPF_K, ent WRT_REGS ZERO_REG 0 0 0 UINT32_MAX Check_none Eval_alu),
     (BPF_ALU OR BPF_MUL OR BPF_K, ent WRT_REGS ZERO_REG 0 0 0 UINT32_MAX Check_none Eval_alu),
     (BPF_ALU OR EBPF_MOV OR BPF_K, ent WRT_REGS ZERO_REG 0 0 0 UINT32_MAX Check_none Eval_alu),
     (BPF_ALU OR BPF_DIV OR BPF_K, ent WRT_REGS ZERO_REG 0 0 1 UINT32_MAX Check_none Eval_alu),
     (BPF_ALU OR BPF_MOD OR BPF_K, ent WRT_REGS ZERO_REG 0 0 1 UINT32_MAX Check_none Eval_alu),
     \<comment> \<open>ALU IMM 64-bit instructions\<close>
     (EBPF_ALU64 OR BPF_ADD OR BPF_K, ent WRT_REGS ZERO_REG 0 0 0 UINT32_MAX Check_none Eval_alu),
     (EBPF_ALU64 OR BPF_SUB OR BPF_K, ent WRT_REGS ZERO_REG 0 0 0 UINT32_MAX Check_none Eval_alu),
     (EBPF_ALU64 OR BPF_AND OR BPF_K, ent WRT_REGS ZERO_REG 0 0 0 UINT32_MAX Check_none Eval_alu),
     (EBPF_ALU64 OR BPF_OR OR BPF_K, ent WRT_REGS ZERO_REG 0 0 0 UINT32_MAX Check_none Eval_alu),
     (EBPF_ALU64 OR BPF_LSH OR BPF_K, ent WRT_REGS ZERO_REG 0 0 0 UINT32_MAX Check_none Eval_alu),
     (EBPF_ALU64 OR BPF_RSH OR BPF_K, ent WRT_REGS ZERO_REG 0 0 0 UINT32_MAX Check_none Eval_alu),
     (EBPF_ALU64 OR EBPF_ARSH OR BPF_K, ent WRT_REGS ZERO_REG 0 0 0 UINT32_MAX Check_none Eval_alu),
     (EBPF_ALU64 OR BPF_XOR OR BPF_K, ent WRT_REGS ZERO_REG 0 0 0 UINT32_MAX Check_none Eval_alu),
     (EBPF_ALU64 OR BPF_MUL OR BPF_K, ent WRT_REGS ZERO_REG 0 0 0 UINT32_MAX Check_none Eval_alu),
     (EBPF_ALU64 OR EBPF_MOV OR BPF_K, ent WRT_REGS ZERO_REG 0 0 0 UINT32_MAX Check_none Eval_alu),
     (EBPF_ALU64 OR BPF_DIV OR BPF_K, ent WRT_REGS ZERO_REG 0 0 1 UINT32_MAX Check_none Eval_alu),
     (EBPF_ALU64 OR BPF_MOD OR BPF_K, ent WRT_REGS ZERO_REG 0 0 1 UINT32_MAX Check_none Eval_alu)]"

definition ins_chk_alu32_reg :: "(u8 \<times> bpf_ins_check) list" where
  "ins_chk_alu32_reg = [
     \<comment> \<open>ALU REG 32-bit instructions\<close>
     (BPF_ALU OR BPF_ADD OR BPF_X, ent WRT_REGS ALL_REGS 0 0 0 0 Check_none Eval_alu),
     (BPF_ALU OR BPF_SUB OR BPF_X, ent WRT_REGS ALL_REGS 0 0 0 0 Check_none Eval_alu),
     (BPF_ALU OR BPF_AND OR BPF_X, ent WRT_REGS ALL_REGS 0 0 0 0 Check_none Eval_alu),
     (BPF_ALU OR BPF_OR OR BPF_X, ent WRT_REGS ALL_REGS 0 0 0 0 Check_none Eval_alu),
     (BPF_ALU OR BPF_LSH OR BPF_X, ent WRT_REGS ALL_REGS 0 0 0 0 Check_none Eval_alu),
     (BPF_ALU OR BPF_RSH OR BPF_X, ent WRT_REGS ALL_REGS 0 0 0 0 Check_none Eval_alu),
     (BPF_ALU OR BPF_XOR OR BPF_X, ent WRT_REGS ALL_REGS 0 0 0 0 Check_none Eval_alu),
     (BPF_ALU OR BPF_MUL OR BPF_X, ent WRT_REGS ALL_REGS 0 0 0 0 Check_none Eval_alu),
     (BPF_ALU OR BPF_DIV OR BPF_X, ent WRT_REGS ALL_REGS 0 0 0 0 Check_none Eval_alu),
     (BPF_ALU OR BPF_MOD OR BPF_X, ent WRT_REGS ALL_REGS 0 0 0 0 Check_none Eval_alu),
     (BPF_ALU OR EBPF_MOV OR BPF_X, ent WRT_REGS ALL_REGS 0 0 0 0 Check_none Eval_alu),
     (BPF_ALU OR BPF_NEG, ent WRT_REGS ZERO_REG 0 0 0 0 Check_none Eval_alu),
     (BPF_ALU OR EBPF_END OR EBPF_TO_BE, ent WRT_REGS ZERO_REG 0 0 16 64 Check_alu_bele Eval_bele),
     (BPF_ALU OR EBPF_END OR EBPF_TO_LE, ent WRT_REGS ZERO_REG 0 0 16 64 Check_alu_bele Eval_bele)]"

definition ins_chk_alu64_reg :: "(u8 \<times> bpf_ins_check) list" where
  "ins_chk_alu64_reg = [
     \<comment> \<open>ALU REG 64-bit instructions\<close>
     (EBPF_ALU64 OR BPF_ADD OR BPF_X, ent WRT_REGS ALL_REGS 0 0 0 0 Check_none Eval_alu),
     (EBPF_ALU64 OR BPF_SUB OR BPF_X, ent WRT_REGS ALL_REGS 0 0 0 0 Check_none Eval_alu),
     (EBPF_ALU64 OR BPF_AND OR BPF_X, ent WRT_REGS ALL_REGS 0 0 0 0 Check_none Eval_alu),
     (EBPF_ALU64 OR BPF_OR OR BPF_X, ent WRT_REGS ALL_REGS 0 0 0 0 Check_none Eval_alu),
     (EBPF_ALU64 OR BPF_LSH OR BPF_X, ent WRT_REGS ALL_REGS 0 0 0 0 Check_none Eval_alu),
     (EBPF_ALU64 OR BPF_RSH OR BPF_X, ent WRT_REGS ALL_REGS 0 0 0 0 Check_none Eval_alu),
     (EBPF_ALU64 OR EBPF_ARSH OR BPF_X, ent WRT_REGS ALL_REGS 0 0 0 0 Check_none Eval_alu),
     (EBPF_ALU64 OR BPF_XOR OR BPF_X, ent WRT_REGS ALL_REGS 0 0 0 0 Check_none Eval_alu),
     (EBPF_ALU64 OR BPF_MUL OR BPF_X, ent WRT_REGS ALL_REGS 0 0 0 0 Check_none Eval_alu),
     (EBPF_ALU64 OR BPF_DIV OR BPF_X, ent WRT_REGS ALL_REGS 0 0 0 0 Check_none Eval_alu),
     (EBPF_ALU64 OR BPF_MOD OR BPF_X, ent WRT_REGS ALL_REGS 0 0 0 0 Check_none Eval_alu),
     (EBPF_ALU64 OR EBPF_MOV OR BPF_X, ent WRT_REGS ALL_REGS 0 0 0 0 Check_none Eval_alu),
     (EBPF_ALU64 OR BPF_NEG, ent WRT_REGS ZERO_REG 0 0 0 0 Check_none Eval_alu)]"

definition ins_chk_load :: "(u8 \<times> bpf_ins_check) list" where
  "ins_chk_load = [
     \<comment> \<open>load instructions\<close>
     (BPF_LDX OR BPF_MEM OR BPF_B, ent WRT_REGS ALL_REGS 0 UINT16_MAX 0 0 Check_none Eval_load),
     (BPF_LDX OR BPF_MEM OR BPF_H, ent WRT_REGS ALL_REGS 0 UINT16_MAX 0 0 Check_none Eval_load),
     (BPF_LDX OR BPF_MEM OR BPF_W, ent WRT_REGS ALL_REGS 0 UINT16_MAX 0 0 Check_none Eval_load),
     (BPF_LDX OR BPF_MEM OR EBPF_DW, ent WRT_REGS ALL_REGS 0 UINT16_MAX 0 0 Check_none Eval_load),
     \<comment> \<open>load 64 bit immediate value\<close>
     (BPF_LD OR BPF_IMM OR EBPF_DW, ent WRT_REGS ZERO_REG 0 0 0 UINT32_MAX Check_none Eval_ld_imm64),
     \<comment> \<open>load absolute instructions\<close>
     (BPF_LD OR BPF_ABS OR BPF_B, ent ZERO_REG ZERO_REG 0 0 0 INT32_MAX Check_none Eval_ld_mbuf),
     (BPF_LD OR BPF_ABS OR BPF_H, ent ZERO_REG ZERO_REG 0 0 0 INT32_MAX Check_none Eval_ld_mbuf),
     (BPF_LD OR BPF_ABS OR BPF_W, ent ZERO_REG ZERO_REG 0 0 0 INT32_MAX Check_none Eval_ld_mbuf),
     \<comment> \<open>load indirect instructions\<close>
     (BPF_LD OR BPF_IND OR BPF_B, ent ZERO_REG IND_SRC_REGS 0 0 0 UINT32_MAX Check_none Eval_ld_mbuf),
     (BPF_LD OR BPF_IND OR BPF_H, ent ZERO_REG IND_SRC_REGS 0 0 0 UINT32_MAX Check_none Eval_ld_mbuf),
     (BPF_LD OR BPF_IND OR BPF_W, ent ZERO_REG IND_SRC_REGS 0 0 0 UINT32_MAX Check_none Eval_ld_mbuf)]"

definition ins_chk_store :: "(u8 \<times> bpf_ins_check) list" where
  "ins_chk_store = [
     \<comment> \<open>store REG instructions\<close>
     (BPF_STX OR BPF_MEM OR BPF_B, ent ALL_REGS ALL_REGS 0 UINT16_MAX 0 0 Check_none Eval_store),
     (BPF_STX OR BPF_MEM OR BPF_H, ent ALL_REGS ALL_REGS 0 UINT16_MAX 0 0 Check_none Eval_store),
     (BPF_STX OR BPF_MEM OR BPF_W, ent ALL_REGS ALL_REGS 0 UINT16_MAX 0 0 Check_none Eval_store),
     (BPF_STX OR BPF_MEM OR EBPF_DW, ent ALL_REGS ALL_REGS 0 UINT16_MAX 0 0 Check_none Eval_store),
     \<comment> \<open>atomic add instructions\<close>
     (BPF_STX OR EBPF_XADD OR BPF_W, ent ALL_REGS ALL_REGS 0 UINT16_MAX 0 0 Check_none Eval_store),
     (BPF_STX OR EBPF_XADD OR EBPF_DW, ent ALL_REGS ALL_REGS 0 UINT16_MAX 0 0 Check_none Eval_store),
     \<comment> \<open>store IMM instructions\<close>
     (BPF_ST OR BPF_MEM OR BPF_B, ent ALL_REGS ZERO_REG 0 UINT16_MAX 0 UINT32_MAX Check_none Eval_store),
     (BPF_ST OR BPF_MEM OR BPF_H, ent ALL_REGS ZERO_REG 0 UINT16_MAX 0 UINT32_MAX Check_none Eval_store),
     (BPF_ST OR BPF_MEM OR BPF_W, ent ALL_REGS ZERO_REG 0 UINT16_MAX 0 UINT32_MAX Check_none Eval_store),
     (BPF_ST OR BPF_MEM OR EBPF_DW, ent ALL_REGS ZERO_REG 0 UINT16_MAX 0 UINT32_MAX Check_none Eval_store)]"

definition ins_chk_jmp_imm :: "(u8 \<times> bpf_ins_check) list" where
  "ins_chk_jmp_imm = [
     \<comment> \<open>jump instruction\<close>
     (BPF_JMP OR BPF_JA, ent ZERO_REG ZERO_REG 0 UINT16_MAX 0 0 Check_none Eval_none),
     \<comment> \<open>jcc IMM instructions\<close>
     (BPF_JMP OR BPF_JEQ OR BPF_K, ent ALL_REGS ZERO_REG 0 UINT16_MAX 0 UINT32_MAX Check_none Eval_jcc),
     (BPF_JMP OR EBPF_JNE OR BPF_K, ent ALL_REGS ZERO_REG 0 UINT16_MAX 0 UINT32_MAX Check_none Eval_jcc),
     (BPF_JMP OR BPF_JGT OR BPF_K, ent ALL_REGS ZERO_REG 0 UINT16_MAX 0 UINT32_MAX Check_none Eval_jcc),
     (BPF_JMP OR EBPF_JLT OR BPF_K, ent ALL_REGS ZERO_REG 0 UINT16_MAX 0 UINT32_MAX Check_none Eval_jcc),
     (BPF_JMP OR BPF_JGE OR BPF_K, ent ALL_REGS ZERO_REG 0 UINT16_MAX 0 UINT32_MAX Check_none Eval_jcc),
     (BPF_JMP OR EBPF_JLE OR BPF_K, ent ALL_REGS ZERO_REG 0 UINT16_MAX 0 UINT32_MAX Check_none Eval_jcc),
     (BPF_JMP OR EBPF_JSGT OR BPF_K, ent ALL_REGS ZERO_REG 0 UINT16_MAX 0 UINT32_MAX Check_none Eval_jcc),
     (BPF_JMP OR EBPF_JSLT OR BPF_K, ent ALL_REGS ZERO_REG 0 UINT16_MAX 0 UINT32_MAX Check_none Eval_jcc),
     (BPF_JMP OR EBPF_JSGE OR BPF_K, ent ALL_REGS ZERO_REG 0 UINT16_MAX 0 UINT32_MAX Check_none Eval_jcc),
     (BPF_JMP OR EBPF_JSLE OR BPF_K, ent ALL_REGS ZERO_REG 0 UINT16_MAX 0 UINT32_MAX Check_none Eval_jcc),
     (BPF_JMP OR BPF_JSET OR BPF_K, ent ALL_REGS ZERO_REG 0 UINT16_MAX 0 UINT32_MAX Check_none Eval_jcc)]"

definition ins_chk_jmp_reg :: "(u8 \<times> bpf_ins_check) list" where
  "ins_chk_jmp_reg = [
     \<comment> \<open>jcc REG instructions\<close>
     (BPF_JMP OR BPF_JEQ OR BPF_X, ent ALL_REGS ALL_REGS 0 UINT16_MAX 0 0 Check_none Eval_jcc),
     (BPF_JMP OR EBPF_JNE OR BPF_X, ent ALL_REGS ALL_REGS 0 UINT16_MAX 0 0 Check_none Eval_jcc),
     (BPF_JMP OR BPF_JGT OR BPF_X, ent ALL_REGS ALL_REGS 0 UINT16_MAX 0 0 Check_none Eval_jcc),
     (BPF_JMP OR EBPF_JLT OR BPF_X, ent ALL_REGS ALL_REGS 0 UINT16_MAX 0 0 Check_none Eval_jcc),
     (BPF_JMP OR BPF_JGE OR BPF_X, ent ALL_REGS ALL_REGS 0 UINT16_MAX 0 0 Check_none Eval_jcc),
     (BPF_JMP OR EBPF_JLE OR BPF_X, ent ALL_REGS ALL_REGS 0 UINT16_MAX 0 0 Check_none Eval_jcc),
     (BPF_JMP OR EBPF_JSGT OR BPF_X, ent ALL_REGS ALL_REGS 0 UINT16_MAX 0 0 Check_none Eval_jcc),
     (BPF_JMP OR EBPF_JSLT OR BPF_X, ent ALL_REGS ALL_REGS 0 UINT16_MAX 0 0 Check_none Eval_none),
     (BPF_JMP OR EBPF_JSGE OR BPF_X, ent ALL_REGS ALL_REGS 0 UINT16_MAX 0 0 Check_none Eval_jcc),
     (BPF_JMP OR EBPF_JSLE OR BPF_X, ent ALL_REGS ALL_REGS 0 UINT16_MAX 0 0 Check_none Eval_jcc),
     (BPF_JMP OR BPF_JSET OR BPF_X, ent ALL_REGS ALL_REGS 0 UINT16_MAX 0 0 Check_none Eval_jcc),
     \<comment> \<open>call instruction\<close>
     (BPF_JMP OR EBPF_CALL, ent ZERO_REG ZERO_REG 0 0 0 UINT32_MAX Check_none Eval_call),
     \<comment> \<open>ret instruction\<close>
     (BPF_JMP OR EBPF_EXIT, ent ZERO_REG ZERO_REG 0 0 0 0 Check_none Eval_exit)]"

definition ins_chk :: "(u8 \<times> bpf_ins_check) list" where
  "ins_chk = ins_chk_alu_imm @ ins_chk_alu32_reg @ ins_chk_alu64_reg @ ins_chk_load
     @ ins_chk_store @ ins_chk_jmp_imm @ ins_chk_jmp_reg"

text \<open>\<open>ins_chk[op]\<close>: an entry without an initialiser is all zero.\<close>

definition ins_chk_at :: "u8 \<Rightarrow> bpf_ins_check" where
  "ins_chk_at op = (case map_of ins_chk op of
     Some c \<Rightarrow> c | None \<Rightarrow> ent 0 0 0 0 0 0 Check_none Eval_none)"

section \<open>Checks of one instruction\<close>

text \<open>The result is the error message, or \<open>None\<close> where the C function returns the null pointer.\<close>

definition check_alu_bele :: "ebpf_insn \<Rightarrow> string option" where
  "check_alu_bele i =
     (if imm i \<noteq> 16 \<and> imm i \<noteq> 32 \<and> imm i \<noteq> 64 then Some ''invalid imm field'' else None)"

definition check_syntax :: "ebpf_insn \<Rightarrow> string option" where
  "check_syntax i =
     (let c = ins_chk_at (code i) in
      if mask_dreg c = 0 then Some ''invalid opcode''
      else if mask_dreg c AND push_bit (unat (dst_reg i)) 1 = 0 then Some ''invalid dst-reg field''
      else if mask_sreg c AND push_bit (unat (src_reg i)) 1 = 0 then Some ''invalid src-reg field''
      else if off_min c > off i \<or> off_max c < off i then Some ''invalid off field''
      else if imm_min c > imm i \<or> imm_max c < imm i then Some ''invalid imm field''
      else (case chk_check c of
              Check_none \<Rightarrow> None
            | Check_alu_bele \<Rightarrow> check_alu_bele i))"

end
