(* ===== verification/BPF_Cfg.thy ===== *)
theory BPF_Cfg
  imports BPF_State BPF_Syntax
begin

text \<open>
  The first pass of the verifier (\<open>lib/bpf/bpf_validate.c\<close>): the control flow graph, the
  depth-first search over it and \<open>validate\<close>. A node pointer is its index in the array \<open>in\<close>; the
  array has \<open>nb_ins\<close> nodes, and using another one is undefined.
\<close>

section \<open>Nodes and edges\<close>

definition get_node :: "bpf_verifier \<Rightarrow> nat \<Rightarrow> inst_node option" where
  "get_node bvf n = nth_opt (bvf_in bvf) n"

definition put_node :: "bpf_verifier \<Rightarrow> nat \<Rightarrow> inst_node \<Rightarrow> bpf_verifier option" where
  "put_node bvf n nd = map_option (\<lambda>ns. bvf\<lparr>bvf_in := ns\<rparr>) (upd_opt (bvf_in bvf) n nd)"

definition get_node_idx :: "nat \<Rightarrow> u32" where "get_node_idx n = of_nat n"

text \<open>The next child, as an index: \<open>Some (_, None)\<close> is the null pointer.\<close>

definition get_next_node :: "bpf_verifier \<Rightarrow> nat \<Rightarrow> (bpf_verifier \<times> nat option) option" where
  "get_next_node bvf n = do {
     nd \<leftarrow> get_node bvf n;
     (if cur_edge nd = nb_edge nd then Some (bvf, None)
      else do {
        dst \<leftarrow> nth_opt (edge_dest nd) (cur_edge nd);
        bvf1 \<leftarrow> put_node bvf n (nd\<lparr>cur_edge := cur_edge nd + 1\<rparr>);
        Some (bvf1, Some (unat dst)) }) }"

definition set_node_colour :: "bpf_verifier \<Rightarrow> nat \<Rightarrow> node_colour \<Rightarrow> bpf_verifier option" where
  "set_node_colour bvf n new = do {
     nd \<leftarrow> get_node bvf n;
     bvf1 \<leftarrow> put_node bvf n (nd\<lparr>colour := new\<rparr>);
     (let prev = colour nd;
          cnt1 = (bvf_node_colour bvf1)(prev := bvf_node_colour bvf1 prev - 1);
          cnt2 = cnt1(new := cnt1 new + 1)
      in Some (bvf1\<lparr>bvf_node_colour := cnt2\<rparr>)) }"

definition add_edge :: "bpf_verifier \<Rightarrow> nat \<Rightarrow> u32 \<Rightarrow> (bpf_verifier \<times> u32) option" where
  "add_edge bvf n nidx =
     (if nidx > nb_ins (bvf_prm bvf)
      then Some (bpf_log bvf (Log ''program boundary violation'' [n, unat nidx]), - EINVAL)
      else do {
        nd \<leftarrow> get_node bvf n;
        (if nb_edge nd \<ge> MAX_EDGES
         then Some (bpf_log bvf (Log ''internal error'' [n]), - EINVAL)
         else do {
           ds \<leftarrow> upd_opt (edge_dest nd) (nb_edge nd) nidx;
           bvf1 \<leftarrow> put_node bvf n (nd\<lparr>edge_dest := ds, nb_edge := nb_edge nd + 1\<rparr>);
           Some (bvf1, 0) }) })"

fun edge_type_of :: "node_colour \<Rightarrow> edge_type" where
  "edge_type_of WHITE = TREE_EDGE"
| "edge_type_of GREY = BACK_EDGE"
| "edge_type_of BLACK = CROSS_EDGE"

definition set_edge_type :: "bpf_verifier \<Rightarrow> nat \<Rightarrow> nat \<Rightarrow> bpf_verifier option" where
  "set_edge_type bvf n next = do {
     nd \<leftarrow> get_node bvf n;
     nx \<leftarrow> get_node bvf next;
     t \<leftarrow> Some (edge_type_of (colour nx));
     ts \<leftarrow> upd_opt (node_edge_type nd) (cur_edge nd - 1) t;
     bvf1 \<leftarrow> put_node bvf n (nd\<lparr>node_edge_type := ts\<rparr>);
     Some (bvf1\<lparr>bvf_edge_type := (bvf_edge_type bvf1)(t := bvf_edge_type bvf1 t + 1)\<rparr>) }"

definition get_prev_node :: "bpf_verifier \<Rightarrow> nat \<Rightarrow> nat option" where
  "get_prev_node bvf n = map_option (\<lambda>nd. unat (prev_node nd)) (get_node bvf n)"

definition set_prev_node :: "bpf_verifier \<Rightarrow> nat \<Rightarrow> nat \<Rightarrow> bpf_verifier option" where
  "set_prev_node bvf next n = do {
     nx \<leftarrow> get_node bvf next;
     put_node bvf next (nx\<lparr>prev_node := get_node_idx n\<rparr>) }"

section \<open>Depth-first search\<close>

text \<open>How much work a node still is: the measure of both loops of \<open>dfs\<close>.\<close>

definition weight :: "inst_node \<Rightarrow> nat" where
  "weight nd = (case colour nd of
     WHITE \<Rightarrow> 2 + length (edge_dest nd)
   | GREY \<Rightarrow> 1 + (length (edge_dest nd) - cur_edge nd)
   | BLACK \<Rightarrow> 0)"

lemma weight_prev [simp]: "weight (nd\<lparr>prev_node := p\<rparr>) = weight nd"
  by (simp add: weight_def split: node_colour.split)

definition work :: "bpf_verifier \<Rightarrow> nat" where
  "work bvf = sum_list (map weight (bvf_in bvf))"

definition edges_left :: "bpf_verifier \<Rightarrow> nat \<Rightarrow> nat" where
  "edges_left bvf n =
     (case get_node bvf n of None \<Rightarrow> 0 | Some nd \<Rightarrow> length (edge_dest nd) - cur_edge nd)"

lemma put_node_Some:
  "put_node bvf n nd = Some b \<longleftrightarrow> n < length (bvf_in bvf) \<and> b = bvf\<lparr>bvf_in := (bvf_in bvf)[n := nd]\<rparr>"
  by (auto simp: put_node_def)

lemma get_node_Some:
  "get_node bvf n = Some nd \<longleftrightarrow> n < length (bvf_in bvf) \<and> bvf_in bvf ! n = nd"
  by (simp add: get_node_def)

lemma get_next_node_Some:
  assumes "get_next_node bvf n = Some (bvf1, Some d)"
  shows "n < length (bvf_in bvf)"
    and "cur_edge (bvf_in bvf ! n) < length (edge_dest (bvf_in bvf ! n))"
    and "cur_edge (bvf_in bvf ! n) \<noteq> nb_edge (bvf_in bvf ! n)"
    and "d = unat (edge_dest (bvf_in bvf ! n) ! cur_edge (bvf_in bvf ! n))"
    and "bvf1 = bvf\<lparr>bvf_in := (bvf_in bvf)[n := (bvf_in bvf ! n)
            \<lparr>cur_edge := cur_edge (bvf_in bvf ! n) + 1\<rparr>]\<rparr>"
  using assms
  by (auto simp: get_next_node_def get_node_Some put_node_Some split: bind_splits if_splits)

lemma get_next_node_None:
  assumes "get_next_node bvf n = Some (bvf1, None)"
  shows "bvf1 = bvf" and "n < length (bvf_in bvf)"
    and "cur_edge (bvf_in bvf ! n) = nb_edge (bvf_in bvf ! n)"
  using assms
  by (auto simp: get_next_node_def get_node_Some put_node_Some split: bind_splits if_splits)

lemma set_edge_type_Some:
  assumes "set_edge_type bvf n next = Some bvf1"
  shows "n < length (bvf_in bvf)" and "next < length (bvf_in bvf)"
    and "\<exists>ts. bvf1 = bvf\<lparr>bvf_in := (bvf_in bvf)[n := (bvf_in bvf ! n)\<lparr>node_edge_type := ts\<rparr>],
            bvf_edge_type := (bvf_edge_type bvf)
              (edge_type_of (colour (bvf_in bvf ! next)) :=
                 bvf_edge_type bvf (edge_type_of (colour (bvf_in bvf ! next))) + 1)\<rparr>"
  using assms
  by (auto simp: set_edge_type_def get_node_Some put_node_Some split: bind_splits)

text \<open>One turn of the inner loop: the next child and the type of the edge to it.\<close>

lemma edge_turn:
  assumes g: "get_next_node bvf n = Some (bvf1, Some d)" and t: "set_edge_type bvf1 n d = Some bvf2"
  obtains ts ty where "n < length (bvf_in bvf)" "d < length (bvf_in bvf)"
    "cur_edge (bvf_in bvf ! n) < length (edge_dest (bvf_in bvf ! n))"
    "cur_edge (bvf_in bvf ! n) \<noteq> nb_edge (bvf_in bvf ! n)"
    "d = unat (edge_dest (bvf_in bvf ! n) ! cur_edge (bvf_in bvf ! n))"
    "ty = edge_type_of (colour (bvf_in bvf ! d))"
    "bvf2 = bvf\<lparr>bvf_in := (bvf_in bvf)[n := (bvf_in bvf ! n)
        \<lparr>cur_edge := cur_edge (bvf_in bvf ! n) + 1, node_edge_type := ts\<rparr>],
      bvf_edge_type := (bvf_edge_type bvf)(ty := bvf_edge_type bvf ty + 1)\<rparr>"
proof -
  note N = get_next_node_Some [OF g]
  obtain ts where ts: "bvf2 = bvf1\<lparr>bvf_in := (bvf_in bvf1)[n := (bvf_in bvf1 ! n)\<lparr>node_edge_type := ts\<rparr>],
      bvf_edge_type := (bvf_edge_type bvf1)(edge_type_of (colour (bvf_in bvf1 ! d)) :=
        bvf_edge_type bvf1 (edge_type_of (colour (bvf_in bvf1 ! d))) + 1)\<rparr>"
    using set_edge_type_Some(3) [OF t] by blast
  have d: "d < length (bvf_in bvf)" using set_edge_type_Some(2) [OF t] N(5) by simp
  have c: "colour (bvf_in bvf1 ! d) = colour (bvf_in bvf ! d)"
    using N(5) d by (cases "d = n") auto
  show thesis
    by (rule that [OF N(1) d N(2,3,4) refl]) (use ts c N(1,5) in simp)
qed

lemma edges_left_turn:
  assumes "get_next_node bvf n = Some (bvf1, Some d)" "set_edge_type bvf1 n d = Some bvf2"
  shows "edges_left bvf2 n < edges_left bvf n"
  using assms by (elim edge_turn) (auto simp: edges_left_def get_node_def nth_opt_def)

text \<open>The \<open>do ... while (next->colour != WHITE)\<close> loop.\<close>

function next_child :: "bpf_verifier \<Rightarrow> nat \<Rightarrow> (bpf_verifier \<times> nat option) option" where
  "next_child bvf n = do {
     (bvf1, next) \<leftarrow> get_next_node bvf n;
     (case next of
        None \<Rightarrow> Some (bvf1, None)
      | Some d \<Rightarrow> do {
          bvf2 \<leftarrow> set_edge_type bvf1 n d;
          nx \<leftarrow> get_node bvf2 d;
          (if colour nx \<noteq> WHITE then next_child bvf2 n else Some (bvf2, Some d)) }) }"
  by pat_completeness auto
termination
  by (relation "measure (\<lambda>(bvf, n). edges_left bvf n)") (auto dest: edges_left_turn)

declare next_child.simps [simp del]

text \<open>One turn of the outer loop, with the node to go on with (\<open>None\<close> is the null pointer).\<close>

definition dfs_turn :: "bpf_verifier \<Rightarrow> nat \<Rightarrow> (bpf_verifier \<times> nat option) option" where
  "dfs_turn bvf n = do {
     nd \<leftarrow> get_node bvf n;
     bvf1 \<leftarrow> (if colour nd = WHITE then set_node_colour bvf n GREY else Some bvf);
     nd1 \<leftarrow> get_node bvf1 n;
     (if colour nd1 = GREY
      then do {
        (bvf2, next) \<leftarrow> next_child bvf1 n;
        (case next of
           Some d \<Rightarrow> do {
             bvf3 \<leftarrow> set_prev_node bvf2 d n;
             Some (bvf3, Some d) }
         | None \<Rightarrow> do {
             bvf3 \<leftarrow> set_node_colour bvf2 n BLACK;
             nd3 \<leftarrow> get_node bvf3 n;
             bvf4 \<leftarrow> put_node bvf3 n (nd3\<lparr>cur_edge := 0\<rparr>);
             p \<leftarrow> get_prev_node bvf4 n;
             Some (bvf4, Some p) }) }
      else Some (bvf1, None)) }"

text \<open>An invariant of the inner loop holds when it is left, on either of its two exits.\<close>

lemma next_child_inv:
  assumes "next_child bvf n = Some (bvf', r)" "P bvf"
    and step: "\<And>b d b1 b2. P b \<Longrightarrow> get_next_node b n = Some (b1, Some d) \<Longrightarrow>
      set_edge_type b1 n d = Some b2 \<Longrightarrow> colour (bvf_in b2 ! d) \<noteq> WHITE \<Longrightarrow> P b2"
  shows "case r of
      None \<Rightarrow> P bvf' \<and> get_next_node bvf' n = Some (bvf', None)
    | Some d \<Rightarrow> \<exists>b b1. P b \<and> get_next_node b n = Some (b1, Some d) \<and>
        set_edge_type b1 n d = Some bvf' \<and> colour (bvf_in bvf' ! d) = WHITE"
  using assms
proof (induction bvf n rule: next_child.induct)
  case (1 bvf n)
  obtain b1 nx where g: "get_next_node bvf n = Some (b1, nx)"
    using "1.prems"(1) by (subst (asm) next_child.simps) (auto split: bind_splits)
  show ?case
  proof (cases nx)
    case None
    then have "bvf' = b1" "r = None"
      using "1.prems"(1) g by (subst (asm) next_child.simps, simp)+
    moreover have "b1 = bvf" using get_next_node_None(1) g None by blast
    ultimately show ?thesis using "1.prems"(2) g None by simp
  next
    case (Some d)
    obtain b2 where t: "set_edge_type b1 n d = Some b2"
      using "1.prems"(1) g Some by (subst (asm) next_child.simps) (auto split: bind_splits)
    have d: "get_node b2 d = Some (bvf_in b2 ! d)"
      using "1.prems"(1) g Some t
      by (subst (asm) next_child.simps) (auto split: bind_splits simp: get_node_Some)
    show ?thesis
    proof (cases "colour (bvf_in b2 ! d) = WHITE")
      case True
      then have "bvf' = b2" "r = Some d"
        using "1.prems"(1) g Some t d by (subst (asm) next_child.simps, simp)+
      then show ?thesis using True g Some t "1.prems"(2) by auto
    next
      case False
      then have "next_child b2 n = Some (bvf', r)"
        using "1.prems"(1) g Some t d by (subst (asm) next_child.simps) simp
      then show ?thesis
        using "1.IH" [OF g refl Some t d False _
            "1.prems"(3) [OF "1.prems"(2) g [unfolded Some] t False]] "1.prems"(3)
        by simp
    qed
  qed
qed

lemma sum_weight_upd:
  "n < length xs \<Longrightarrow>
   sum_list (map weight (xs[n := nd])) + weight (xs ! n) = sum_list (map weight xs) + weight nd"
  using elem_le_sum_list [of n "map weight xs"] by (simp add: map_update sum_list_update)

lemma work_upd:
  assumes "n < length (bvf_in bvf)"
  shows "work (bvf\<lparr>bvf_in := (bvf_in bvf)[n := nd]\<rparr>) + weight (bvf_in bvf ! n) = work bvf + weight nd"
  using sum_weight_upd [OF assms] by (simp add: work_def)

lemma work_upd_less:
  assumes "n < length (bvf_in bvf)" "weight nd < weight (bvf_in bvf ! n)" "bvf_in b = (bvf_in bvf)[n := nd]"
  shows "work b < work bvf"
  using sum_weight_upd [OF assms(1), of nd] assms(2,3) by (simp add: work_def)

lemma work_upd_eq:
  assumes "n < length (bvf_in bvf)" "weight nd = weight (bvf_in bvf ! n)" "bvf_in b = (bvf_in bvf)[n := nd]"
  shows "work b = work bvf"
  using sum_weight_upd [OF assms(1), of nd] assms(2,3) by (simp add: work_def)

lemma work_edge_turn:
  assumes "get_next_node bvf n = Some (bvf1, Some d)" "set_edge_type bvf1 n d = Some bvf2"
    "colour (bvf_in bvf ! n) = GREY"
  shows "work bvf2 < work bvf" and "colour (bvf_in bvf2 ! n) = GREY"
    and "length (bvf_in bvf2) = length (bvf_in bvf)"
proof -
  show "work bvf2 < work bvf"
    by (rule edge_turn [OF assms(1,2)], rule work_upd_less [of n])
      (use assms(3) in \<open>simp_all add: weight_def\<close>)
  show "colour (bvf_in bvf2 ! n) = GREY" "length (bvf_in bvf2) = length (bvf_in bvf)"
    using assms(3) by (auto intro: edge_turn [OF assms(1,2)])
qed

lemma set_node_colour_Some:
  assumes "set_node_colour bvf n c = Some b"
  shows "n < length (bvf_in bvf)" and "bvf_in b = (bvf_in bvf)[n := (bvf_in bvf ! n)\<lparr>colour := c\<rparr>]"
    and "bvf_edge_type b = bvf_edge_type bvf" and "bvf_prm b = bvf_prm bvf"
    and "bvf_evst b = bvf_evst bvf" and "pool_ent b = pool_ent bvf"
  using assms
  by (auto simp: set_node_colour_def get_node_Some put_node_Some Let_def split: bind_splits)

lemma dfs_turn_work:
  assumes "dfs_turn bvf n = Some (bvf', Some n')"
  shows "work bvf' < work bvf"
proof -
  obtain b1 where n: "n < length (bvf_in bvf)"
    and b1: "(if colour (bvf_in bvf ! n) = WHITE then set_node_colour bvf n GREY else Some bvf) = Some b1"
    using assms by (auto simp: dfs_turn_def get_node_Some split: bind_splits)
  have g: "colour (bvf_in b1 ! n) = GREY" "length (bvf_in b1) = length (bvf_in bvf)"
    and w: "work b1 \<le> work bvf"
  proof -
    have W: "work b < work bvf" "bvf_in b = (bvf_in bvf)[n := (bvf_in bvf ! n)\<lparr>colour := GREY\<rparr>]"
      if "set_node_colour bvf n GREY = Some b" "colour (bvf_in bvf ! n) = WHITE" for b
      using set_node_colour_Some(2) [OF that(1)]
        work_upd_less [OF n, of "(bvf_in bvf ! n)\<lparr>colour := GREY\<rparr>" b] that(2)
      by (auto simp: weight_def)
    show "work b1 \<le> work bvf" using b1 W [of b1] by (auto split: if_splits)
    show "length (bvf_in b1) = length (bvf_in bvf)" using b1 W(2) [of b1] by (auto split: if_splits)
    then have "get_node b1 n = Some (bvf_in b1 ! n)" using n by (simp add: get_node_Some)
    then show "colour (bvf_in b1 ! n) = GREY"
      using assms n b1 by (auto simp: dfs_turn_def get_node_Some split: bind_splits if_splits)
  qed
  obtain b2 r where c: "next_child b1 n = Some (b2, r)"
    using assms n b1 g by (auto simp: dfs_turn_def get_node_Some split: bind_splits if_splits)
  let ?P = "\<lambda>b. colour (bvf_in b ! n) = GREY \<and> length (bvf_in b) = length (bvf_in b1) \<and> work b \<le> work b1"
  have I: "case r of None \<Rightarrow> ?P b2 \<and> get_next_node b2 n = Some (b2, None)
     | Some d \<Rightarrow> \<exists>b b1. ?P b \<and> get_next_node b n = Some (b1, Some d) \<and>
        set_edge_type b1 n d = Some b2 \<and> colour (bvf_in b2 ! d) = WHITE"
    by (rule next_child_inv [OF c]) (use g in \<open>auto dest: work_edge_turn\<close>)
  show ?thesis
  proof (cases r)
    case (Some d)
    then obtain b b' where P: "?P b" and gs: "get_next_node b n = Some (b', Some d)"
      "set_edge_type b' n d = Some b2" and wh: "colour (bvf_in b2 ! d) = WHITE" using I by auto
    have 1: "work b2 < work b" using work_edge_turn [OF gs] P by blast
    have "set_prev_node b2 d n = Some bvf'"
      using assms n b1 g c Some by (auto simp: dfs_turn_def get_node_Some split: bind_splits if_splits)
    then have "d < length (bvf_in b2)"
      "bvf_in bvf' = (bvf_in b2)[d := (bvf_in b2 ! d)\<lparr>prev_node := get_node_idx n\<rparr>]"
      by (auto simp: set_prev_node_def get_node_Some put_node_Some split: bind_splits)
    then have "work bvf' = work b2"
      using work_upd_eq [of d b2 "(bvf_in b2 ! d)\<lparr>prev_node := get_node_idx n\<rparr>" bvf']
      by simp
    then show ?thesis using 1 P w by linarith
  next
    case None
    then have P: "?P b2" using I by auto
    obtain b3 b4 where b3: "set_node_colour b2 n BLACK = Some b3"
      and b4: "put_node b3 n ((bvf_in b3 ! n)\<lparr>cur_edge := 0\<rparr>) = Some b4" "bvf' = b4"
      using assms n b1 g c None
      by (auto simp: dfs_turn_def get_node_Some split: bind_splits if_splits)
    have "bvf_in bvf' = (bvf_in b2)[n := (bvf_in b2 ! n)\<lparr>colour := BLACK, cur_edge := 0\<rparr>]"
      using b4 set_node_colour_Some(1,2) [OF b3] by (auto simp: put_node_Some)
    then have "work bvf' < work b2"
      using P n g work_upd_less [of n b2 "(bvf_in b2 ! n)\<lparr>colour := BLACK, cur_edge := 0\<rparr>" bvf']
      by (simp add: weight_def)
    then show ?thesis using P w by linarith
  qed
qed

function dfs_from :: "bpf_verifier \<Rightarrow> nat option \<Rightarrow> bpf_verifier option" where
  "dfs_from bvf None = Some bvf"
| "dfs_from bvf (Some n) = do { (bvf1, next) \<leftarrow> dfs_turn bvf n; dfs_from bvf1 next }"
  by pat_completeness auto
termination
proof (relation "inv_image (less_than <*lex*> less_than)
    (\<lambda>(bvf, n). (if n = None then 0 else 1 :: nat, work bvf))", goal_cases)
  case 1
  show ?case by auto
next
  case (2 bvf n r bvf1 nxt)
  then show ?case using dfs_turn_work by (cases nxt) auto
qed

declare dfs_from.simps [simp del]

definition dfs :: "bpf_verifier \<Rightarrow> bpf_verifier option" where
  "dfs bvf = dfs_from bvf (Some 0)"


section \<open>Reports\<close>

definition log_unreachable :: "bpf_verifier \<Rightarrow> bpf_verifier" where
  "log_unreachable bvf =
     fold (\<lambda>i b. if colour (bvf_in b ! i) = WHITE \<and>
                    code (ins (bvf_prm b) ! i) \<noteq> (BPF_LD OR BPF_IMM OR EBPF_DW)
                 then bpf_log b (Log ''unreachable code'' [i]) else b)
       [0..<length (ins (bvf_prm bvf))] bvf"

definition log_loop :: "bpf_verifier \<Rightarrow> bpf_verifier" where
  "log_loop bvf =
     fold (\<lambda>i b. if colour (bvf_in b ! i) \<noteq> BLACK then b
                 else fold (\<lambda>j b. if node_edge_type (bvf_in b ! i) ! j = BACK_EDGE
                                  then bpf_log b (Log ''loop'' [i, unat (edge_dest (bvf_in b ! i) ! j)])
                                  else b)
                        [0..<nb_edge (bvf_in b ! i)] b)
       [0..<length (ins (bvf_prm bvf))] bvf"

section \<open>The first pass\<close>

definition jcc_codes :: "u8 list" where
  "jcc_codes = [
     BPF_JMP OR BPF_JEQ OR BPF_K, BPF_JMP OR EBPF_JNE OR BPF_K, BPF_JMP OR BPF_JGT OR BPF_K,
     BPF_JMP OR EBPF_JLT OR BPF_K, BPF_JMP OR BPF_JGE OR BPF_K, BPF_JMP OR EBPF_JLE OR BPF_K,
     BPF_JMP OR EBPF_JSGT OR BPF_K, BPF_JMP OR EBPF_JSLT OR BPF_K, BPF_JMP OR EBPF_JSGE OR BPF_K,
     BPF_JMP OR EBPF_JSLE OR BPF_K, BPF_JMP OR BPF_JSET OR BPF_K,
     BPF_JMP OR BPF_JEQ OR BPF_X, BPF_JMP OR EBPF_JNE OR BPF_X, BPF_JMP OR BPF_JGT OR BPF_X,
     BPF_JMP OR EBPF_JLT OR BPF_X, BPF_JMP OR BPF_JGE OR BPF_X, BPF_JMP OR EBPF_JLE OR BPF_X,
     BPF_JMP OR EBPF_JSGT OR BPF_X, BPF_JMP OR EBPF_JSLT OR BPF_X, BPF_JMP OR EBPF_JSGE OR BPF_X,
     BPF_JMP OR EBPF_JSLE OR BPF_X, BPF_JMP OR BPF_JSET OR BPF_X]"

definition ldmb_codes :: "u8 list" where
  "ldmb_codes = [
     BPF_LD OR BPF_ABS OR BPF_B, BPF_LD OR BPF_ABS OR BPF_H, BPF_LD OR BPF_ABS OR BPF_W,
     BPF_LD OR BPF_IND OR BPF_B, BPF_LD OR BPF_IND OR BPF_H, BPF_LD OR BPF_IND OR BPF_W]"

text \<open>The \<open>switch (ins->code)\<close> that builds the graph: the edges of instruction \<open>i\<close>, and its \<open>rc\<close>.\<close>

definition jmp_dest :: "nat \<Rightarrow> ebpf_insn \<Rightarrow> u32" where
  "jmp_dest i x = get_node_idx i + scast (off x) + 1"

definition cfg_edges :: "bpf_verifier \<Rightarrow> nat \<Rightarrow> ebpf_insn \<Rightarrow> (bpf_verifier \<times> u32) option" where
  "cfg_edges bvf i x =
     (if code x = (BPF_JMP OR EBPF_EXIT) then Some (bvf, 0)
      else if code x \<in> set jcc_codes
      then do {
        (b1, rc1) \<leftarrow> add_edge bvf i (jmp_dest i x);
        (b2, rc2) \<leftarrow> add_edge b1 i (get_node_idx i + 1);
        Some (b2\<lparr>nb_jcc_nodes := nb_jcc_nodes b2 + 1\<rparr>, rc1 OR rc2) }
      else if code x = (BPF_JMP OR BPF_JA) then add_edge bvf i (jmp_dest i x)
      else if code x = (BPF_LD OR BPF_IMM OR EBPF_DW) then add_edge bvf i (get_node_idx i + 2)
      else if code x \<in> set ldmb_codes
      then add_edge (bvf\<lparr>nb_ldmb_nodes := nb_ldmb_nodes bvf + 1\<rparr>) i (get_node_idx i + 1)
      else add_edge bvf i (get_node_idx i + 1))"

text \<open>The index the loop goes on with.\<close>

definition next_head :: "nat \<Rightarrow> ebpf_insn \<Rightarrow> nat" where
  "next_head i x = (if code x = (BPF_LD OR BPF_IMM OR EBPF_DW) then i + 2 else i + 1)"

text \<open>One turn of the loop over the instructions.\<close>

definition validate_ins :: "bpf_verifier \<Rightarrow> nat \<Rightarrow> ebpf_insn \<Rightarrow> u32 \<Rightarrow> (bpf_verifier \<times> u32) option" where
  "validate_ins bvf i x rc = do {
     (b0, rc0) \<leftarrow> Some (case check_syntax x of
                        None \<Rightarrow> (bvf, rc)
                      | Some e \<Rightarrow> (bpf_log bvf (Log e [i]), rc OR (- EINVAL)));
     (b1, rc1) \<leftarrow> cfg_edges b0 i x;
     Some (b1\<lparr>nb_nodes := nb_nodes b1 + 1,
              bvf_node_colour := (bvf_node_colour b1)(WHITE := bvf_node_colour b1 WHITE + 1)\<rparr>,
           rc0 OR rc1) }"

function validate_loop :: "bpf_verifier \<Rightarrow> ebpf_insn list \<Rightarrow> nat \<Rightarrow> u32 \<Rightarrow> (bpf_verifier \<times> u32) option" where
  "validate_loop bvf xs i rc =
     (if i < length xs
      then do {
        (b, rc1) \<leftarrow> validate_ins bvf i (xs ! i) rc;
        validate_loop b xs (next_head i (xs ! i)) rc1 }
      else Some (bvf, rc))"
  by pat_completeness auto
termination
  by (relation "measure (\<lambda>(bvf, xs, i, rc). length xs - i)") (auto simp: next_head_def)

declare validate_loop.simps [simp del]

definition validate :: "bpf_verifier \<Rightarrow> (bpf_verifier \<times> u32) option" where
  "validate bvf = do {
     (b1, rc) \<leftarrow> validate_loop bvf (ins (bvf_prm bvf)) 0 0;
     (if rc \<noteq> 0 then Some (b1, rc)
      else do {
        b2 \<leftarrow> dfs b1;
        Some (if bvf_node_colour b2 BLACK \<noteq> nb_nodes b2
              then (log_unreachable (bpf_log b2 (Log ''unreachable instructions'' [])), - EINVAL)
              else if bvf_node_colour b2 GREY \<noteq> 0 \<or> bvf_node_colour b2 WHITE \<noteq> 0 \<or>
                      bvf_edge_type b2 UNKNOWN_EDGE \<noteq> 0
              then (bpf_log b2 (Log ''DFS internal error'' []), - EINVAL)
              else if bvf_edge_type b2 BACK_EDGE \<noteq> 0
              then (log_loop (bpf_log b2 (Log ''loops detected'' [])), - EINVAL)
              else (b2, 0)) }) }"

text \<open>The verifier's record after \<open>memset\<close> and \<open>calloc\<close>.\<close>

definition bvf_init :: "rte_bpf_prm \<Rightarrow> bpf_verifier" where
  "bvf_init p = \<lparr>bvf_prm = p, bvf_in = replicate (length (ins p)) zero_node, bvf_stack_sz = 0,
     nb_nodes = 0, nb_jcc_nodes = 0, nb_ldmb_nodes = 0, bvf_node_colour = (\<lambda>_. 0),
     bvf_edge_type = (\<lambda>_. 0), bvf_evst = None, bvf_evin = None, pool_num = 0, pool_cur = 0,
     pool_ent = [], bvf_log = []\<rparr>"

end
