(* ===== verification/BPF_Eval.thy ===== *)
theory BPF_Eval
  imports BPF_State "HOL-Library.Signed_Division"
begin

text \<open>
  The verifier's transfer functions (\<open>lib/bpf/bpf_validate.c\<close>, \<open>eval_umax_bound\<close> to
  \<open>eval_alu\<close>): what each ALU operation does to the bounds kept for its operands. The C functions
  update \<open>*rd\<close> in place; the model returns the updated value. \<open>None\<close> is a shift by the width or
  more, or a division that traps. Signed \<open>+\<close>, \<open>-\<close> and \<open>*\<close> wrap around, as the code's own
  overflow tests assume.
\<close>

section \<open>Bounds\<close>

abbreviation UINT64_MAX :: u64 where "UINT64_MAX \<equiv> - 1"

definition eval_umax_bound :: "u64 \<Rightarrow> bpf_reg_val \<Rightarrow> bpf_reg_val" where
  "eval_umax_bound msk r = r\<lparr>umax := msk, umin := 0\<rparr>"

definition eval_smax_bound :: "u64 \<Rightarrow> bpf_reg_val \<Rightarrow> bpf_reg_val" where
  "eval_smax_bound msk r =
     (let mx = drop_bit 1 msk in r\<lparr>smax := mx, smin := mx XOR UINT64_MAX\<rparr>)"

definition eval_max_bound :: "u64 \<Rightarrow> bpf_reg_val \<Rightarrow> bpf_reg_val" where
  "eval_max_bound msk r = eval_smax_bound msk (eval_umax_bound msk r)"

definition eval_fill_max_bound :: "u64 \<Rightarrow> bpf_reg_val \<Rightarrow> bpf_reg_val" where
  "eval_fill_max_bound msk r =
     (set_type RTE_BPF_ARG_RAW (eval_max_bound msk r))\<lparr>rv_mask := msk\<rparr>"

definition eval_fill_imm64 :: "u64 \<Rightarrow> u64 \<Rightarrow> bpf_reg_val \<Rightarrow> bpf_reg_val" where
  "eval_fill_imm64 msk val r =
     r\<lparr>rv_mask := msk, smin := val, smax := val, umin := val, umax := val\<rparr>"

definition eval_fill_imm :: "u64 \<Rightarrow> u32 \<Rightarrow> bpf_reg_val \<Rightarrow> bpf_reg_val" where
  "eval_fill_imm msk im r =
     eval_fill_imm64 msk (scast im AND msk) (set_type RTE_BPF_ARG_RAW r)"

text \<open>\<open>RTE_MIN\<close> and \<open>RTE_MAX\<close> on \<open>int64_t\<close>.\<close>

definition s_min :: "u64 \<Rightarrow> u64 \<Rightarrow> u64" where "s_min a b = (if a <s b then a else b)"
definition s_max :: "u64 \<Rightarrow> u64 \<Rightarrow> u64" where "s_max a b = (if b <s a then a else b)"

definition eval_apply_mask :: "u64 \<Rightarrow> bpf_reg_val \<Rightarrow> bpf_reg_val" where
  "eval_apply_mask msk r =
     (let rt = eval_smax_bound msk (zero_reg_val\<lparr>umin := umin r AND msk, umax := umax r AND msk\<rparr>);
          rv1 = (if umin rt \<noteq> umin r \<or> umax rt \<noteq> umax r
                 then r\<lparr>umax := max (umax rt) msk, umin := 0\<rparr> else r)
      in rv1\<lparr>smax := s_min (smax rt) (smax rv1), smin := s_max (smin rt) (smin rv1),
             rv_mask := msk\<rparr>)"

section \<open>Addition and subtraction\<close>

definition eval_add :: "bpf_reg_val \<Rightarrow> bpf_reg_val \<Rightarrow> u64 \<Rightarrow> bpf_reg_val" where
  "eval_add rd rs msk =
     (let rv0 = rd\<lparr>umin := (umin rd + umin rs) AND msk, umax := (umax rd + umax rs) AND msk,
                   smin := (smin rd + smin rs) AND msk, smax := (smax rd + smax rs) AND msk\<rparr>;
          rv1 = (if (umin rd \<noteq> umax rd \<or> umin rs \<noteq> umax rs) \<and>
                    (umin rv0 < umin rd \<or> umax rv0 < umax rd)
                 then eval_umax_bound msk rv0 else rv0);
          rv2 = (if (smin rd \<noteq> smax rd \<or> smin rs \<noteq> smax rs) \<and>
                    (((smin rs <s 0 \<and> smin rd <s smin rv1) \<or> smin rv1 <s smin rd) \<or>
                     ((smax rs <s 0 \<and> smax rd <s smax rv1) \<or> smax rv1 <s smax rd))
                 then eval_smax_bound msk rv1 else rv1)
      in rv2)"

definition eval_sub :: "bpf_reg_val \<Rightarrow> bpf_reg_val \<Rightarrow> u64 \<Rightarrow> bpf_reg_val" where
  "eval_sub rd rs msk =
     (let rv0 = rd\<lparr>umin := (umin rd - umax rs) AND msk, umax := (umax rd - umin rs) AND msk,
                   smin := (smin rd - smax rs) AND msk, smax := (smax rd - smin rs) AND msk\<rparr>;
          rv1 = (if (umin rd \<noteq> umax rd \<or> umin rs \<noteq> umax rs) \<and>
                    (umin rd < umin rv0 \<or> umax rd < umax rv0)
                 then eval_umax_bound msk rv0 else rv0);
          rv2 = (if (smin rd \<noteq> smax rd \<or> smin rs \<noteq> smax rs) \<and>
                    (((smin rs <s 0 \<and> smin rv1 <s smin rd) \<or> smin rd <s smin rv1) \<or>
                     ((smax rs <s 0 \<and> smax rv1 <s smax rd) \<or> smax rd <s smax rv1))
                 then eval_smax_bound msk rv1 else rv1)
      in rv2)"

section \<open>Shifts\<close>

definition eval_lsh :: "bpf_reg_val \<Rightarrow> bpf_reg_val \<Rightarrow> u64 \<Rightarrow> u64 \<Rightarrow> bpf_reg_val option" where
  "eval_lsh rd rs opsz msk =
     (if umax rs \<ge> opsz then Some (eval_max_bound msk rd)
      else do {
        mx \<leftarrow> RTE_LEN2MASK (opsz - umax rs);
        rd1 \<leftarrow> (if umax rd > mx then Some (eval_umax_bound msk rd)
                else do {
                  mx' \<leftarrow> shl64 (umax rd) (unat (umax rs));
                  mn' \<leftarrow> shl64 (umin rd) (unat (umin rs));
                  Some (rd\<lparr>umax := mx', umin := mn'\<rparr>) });
        sg \<leftarrow> shr64 (smin rd1) (unat (opsz - 1));
        big \<leftarrow> (if sg \<noteq> 0 then Some True
                else do { lm \<leftarrow> RTE_LEN2MASK (opsz - umax rs - 1); Some (lm \<le>s smax rd1) });
        (if big then Some (eval_smax_bound msk rd1)
         else do {
           mx' \<leftarrow> shl64 (smax rd1) (unat (umax rs));
           mn' \<leftarrow> shl64 (smin rd1) (unat (umin rs));
           Some (rd1\<lparr>smax := mx', smin := mn'\<rparr>) }) })"

definition eval_rsh :: "bpf_reg_val \<Rightarrow> bpf_reg_val \<Rightarrow> u64 \<Rightarrow> u64 \<Rightarrow> bpf_reg_val option" where
  "eval_rsh rd rs opsz msk =
     (if umax rs \<ge> opsz then Some (eval_max_bound msk rd)
      else do {
        mx \<leftarrow> shr64 (umax rd) (unat (umin rs));
        mn \<leftarrow> shr64 (umin rd) (unat (umax rs));
        rd1 \<leftarrow> Some (rd\<lparr>umax := mx, umin := mn\<rparr>);
        sg \<leftarrow> shr64 (smin rd1) (unat (opsz - 1));
        (if sg \<noteq> 0 then Some (eval_smax_bound msk rd1)
         else do {
           mx' \<leftarrow> sar64 (smax rd1) (unat (umin rs));
           mn' \<leftarrow> sar64 (smin rd1) (unat (umax rs));
           Some (rd1\<lparr>smax := mx', smin := mn'\<rparr>) }) })"

definition eval_arsh :: "bpf_reg_val \<Rightarrow> bpf_reg_val \<Rightarrow> u64 \<Rightarrow> u64 \<Rightarrow> bpf_reg_val option" where
  "eval_arsh rd rs opsz msk =
     (if umax rs \<ge> opsz then Some (eval_max_bound msk rd)
      else do {
        mx \<leftarrow> sar64 (umax rd) (unat (umin rs));
        mn \<leftarrow> sar64 (umin rd) (unat (umax rs));
        rd1 \<leftarrow> Some (rd\<lparr>umax := mx, umin := mn\<rparr>);
        (rd2, shv) \<leftarrow> (if opsz = 32
           then do {
             mn' \<leftarrow> shl64 (smin rd1) 32;
             mx' \<leftarrow> shl64 (smax rd1) 32;
             Some (rd1\<lparr>smin := mn', smax := mx'\<rparr>, 32) }
           else Some (rd1, 0::u64));
        smn \<leftarrow> (if smin rd2 <s 0 then sar64 (smin rd2) (unat (umin rs + shv))
                else sar64 (smin rd2) (unat (umax rs + shv)));
        smx \<leftarrow> (if smax rd2 <s 0 then sar64 (smax rd2) (unat (umax rs + shv))
                else sar64 (smax rd2) (unat (umin rs + shv)));
        Some (rd2\<lparr>smin := smn AND msk, smax := smx AND msk\<rparr>) })"

section \<open>Bitwise operations\<close>

text \<open>\<open>__builtin_clzll\<close> of a value that is not zero.\<close>

definition clz64 :: "u64 \<Rightarrow> nat" where
  "clz64 v = length (takeWhile (\<lambda>i. \<not> bit v i) (rev [0..<64]))"

definition eval_umax_bits :: "u64 \<Rightarrow> u64 \<Rightarrow> u64 option" where
  "eval_umax_bits v opsz = (if v = 0 then Some 0 else RTE_LEN2MASK (opsz - of_nat (clz64 v)))"

definition eval_uand_max :: "u64 \<Rightarrow> u64 \<Rightarrow> u64 \<Rightarrow> u64 option" where
  "eval_uand_max v1 v2 opsz = do {
     w1 \<leftarrow> eval_umax_bits v1 opsz; w2 \<leftarrow> eval_umax_bits v2 opsz; Some (w1 AND w2) }"

definition eval_uor_max :: "u64 \<Rightarrow> u64 \<Rightarrow> u64 \<Rightarrow> u64 option" where
  "eval_uor_max v1 v2 opsz = do {
     w1 \<leftarrow> eval_umax_bits v1 opsz; w2 \<leftarrow> eval_umax_bits v2 opsz; Some (w1 OR w2) }"

definition eval_and :: "bpf_reg_val \<Rightarrow> bpf_reg_val \<Rightarrow> u64 \<Rightarrow> u64 \<Rightarrow> bpf_reg_val option" where
  "eval_and rd rs opsz msk = do {
     rd1 \<leftarrow> (if umin rd = umax rd \<and> umin rs = umax rs
             then Some (rd\<lparr>umin := umin rd AND umin rs, umax := umax rd AND umax rs\<rparr>)
             else do {
               mx \<leftarrow> eval_uand_max (umax rd) (umax rs) opsz;
               Some (rd\<lparr>umax := mx, umin := umin rd AND umin rs\<rparr>) });
     (if smin rd1 = smax rd1 \<and> smin rs = smax rs
      then Some (rd1\<lparr>smin := smin rd1 AND smin rs, smax := smax rd1 AND smax rs\<rparr>)
      else if 0 \<le>s smin rd1 \<or> 0 \<le>s smin rs
      then do {
        mx \<leftarrow> eval_uand_max (smax rd1 AND drop_bit 1 msk) (smax rs AND drop_bit 1 msk) opsz;
        Some (rd1\<lparr>smax := mx, smin := smin rd1 AND smin rs\<rparr>) }
      else Some (eval_smax_bound msk rd1)) }"

definition eval_or :: "bpf_reg_val \<Rightarrow> bpf_reg_val \<Rightarrow> u64 \<Rightarrow> u64 \<Rightarrow> bpf_reg_val option" where
  "eval_or rd rs opsz msk = do {
     rd1 \<leftarrow> (if umin rd = umax rd \<and> umin rs = umax rs
             then Some (rd\<lparr>umin := umin rd OR umin rs, umax := umax rd OR umax rs\<rparr>)
             else do {
               mx \<leftarrow> eval_uor_max (umax rd) (umax rs) opsz;
               Some (rd\<lparr>umax := mx, umin := umin rd OR umin rs\<rparr>) });
     (if smin rd1 = smax rd1 \<and> smin rs = smax rs
      then Some (rd1\<lparr>smin := smin rd1 OR smin rs, smax := smax rd1 OR smax rs\<rparr>)
      else if 0 \<le>s smin rd1 \<or> 0 \<le>s smin rs
      then do {
        mx \<leftarrow> eval_uor_max (smax rd1) (smax rs) opsz;
        Some (rd1\<lparr>smax := mx, smin := smin rd1 OR smin rs\<rparr>) }
      else Some (eval_smax_bound msk rd1)) }"

definition eval_xor :: "bpf_reg_val \<Rightarrow> bpf_reg_val \<Rightarrow> u64 \<Rightarrow> u64 \<Rightarrow> bpf_reg_val option" where
  "eval_xor rd rs opsz msk = do {
     rd1 \<leftarrow> (if umin rd = umax rd \<and> umin rs = umax rs
             then Some (rd\<lparr>umin := umin rd XOR umin rs, umax := umax rd XOR umax rs\<rparr>)
             else do {
               mx \<leftarrow> eval_uor_max (umax rd) (umax rs) opsz;
               Some (rd\<lparr>umax := mx, umin := 0\<rparr>) });
     (if smin rd1 = smax rd1 \<and> smin rs = smax rs
      then Some (rd1\<lparr>smin := smin rd1 XOR smin rs, smax := smax rd1 XOR smax rs\<rparr>)
      else if 0 \<le>s smin rd1 \<or> 0 \<le>s smin rs
      then do {
        mx \<leftarrow> eval_uor_max (smax rd1) (smax rs) opsz;
        Some (rd1\<lparr>smax := mx, smin := 0\<rparr>) }
      else Some (eval_smax_bound msk rd1)) }"

section \<open>Multiplication, division, negation\<close>

definition eval_mul :: "bpf_reg_val \<Rightarrow> bpf_reg_val \<Rightarrow> u64 \<Rightarrow> u64 \<Rightarrow> bpf_reg_val option" where
  "eval_mul rd rs opsz msk = do {
     rd1 \<leftarrow> (if umin rd = umax rd \<and> umin rs = umax rs
             then Some (rd\<lparr>umin := (umin rd * umin rs) AND msk, umax := (umax rd * umax rs) AND msk\<rparr>)
             else do {
               h \<leftarrow> shr64 msk (unat (opsz div 2));
               fits \<leftarrow> (if umax rd \<le> h
                        then do { w \<leftarrow> shr64 msk (unat opsz); Some (umax rs \<le> w) }
                        else Some False);
               Some (if fits
                     then rd\<lparr>umax := umax rd * umax rs, umin := umin rd * umin rd\<rparr>
                     else eval_umax_bound msk rd) });
     Some (if smin rd1 = smax rd1 \<and> smin rs = smax rs
           then rd1\<lparr>smin := (smin rd1 * smin rs) AND msk, smax := (smax rd1 * smax rs) AND msk\<rparr>
           else if 0 \<le>s smin rd1 \<and> 0 \<le>s smin rs
           then rd1\<lparr>smax := smax rd1 * smax rs, smin := smin rd1 * smin rd1\<rparr>
           else eval_smax_bound msk rd1) }"

text \<open>\<open>(int32_t)v\<close> as an \<open>int64_t\<close>.\<close>

definition sext32 :: "u64 \<Rightarrow> u64" where "sext32 v = scast (ucast v :: u32)"

text \<open>Signed \<open>/\<close> and \<open>%\<close>: they trap on a zero divisor and on \<open>INT64_MIN / -1\<close>.\<close>

definition sdiv64 :: "u64 \<Rightarrow> u64 \<Rightarrow> u64 option" where
  "sdiv64 a b = (if b = 0 \<or> (a = push_bit 63 1 \<and> b = - 1) then None
                 else Some (word_of_int (sint a sdiv sint b)))"

definition smod64 :: "u64 \<Rightarrow> u64 \<Rightarrow> u64 option" where
  "smod64 a b = (if b = 0 \<or> (a = push_bit 63 1 \<and> b = - 1) then None
                 else Some (word_of_int (sint a smod sint b)))"

text \<open>
  Three stages: the unsigned bounds, the signed bounds, and the masking at the end. A stage gives
  an error message or goes on. \<open>rs\<close> is a local copy in the caller, so its update is not returned.
\<close>

definition divmod_u :: "u8 \<Rightarrow> bpf_reg_val \<Rightarrow> bpf_reg_val \<Rightarrow> string + bpf_reg_val" where
  "divmod_u op rd rs =
     (if umin rd = umax rd \<and> umin rs = umax rs
      then if umax rs = 0 then Inl ''division by 0''
           else Inr (if op = BPF_DIV
                     then rd\<lparr>umin := umin rd div umin rs, umax := umax rd div umax rs\<rparr>
                     else rd\<lparr>umin := umin rd mod umin rs, umax := umax rd mod umax rs\<rparr>)
      else Inr (if op = BPF_MOD
                then rd\<lparr>umax := min (umax rd) (umax rs - 1), umin := 0\<rparr>
                else rd\<lparr>umin := 0\<rparr>))"

definition divmod_s ::
  "u8 \<Rightarrow> bpf_reg_val \<Rightarrow> bpf_reg_val \<Rightarrow> u64 \<Rightarrow> (string + bpf_reg_val) option" where
  "divmod_s op rd rs msk =
     (if smin rd = smax rd \<and> smin rs = smax rs
      then if smax rs = 0 then Some (Inl ''division by 0'')
           else if op = BPF_DIV
           then do { mn \<leftarrow> sdiv64 (smin rd) (smin rs); mx \<leftarrow> sdiv64 (smax rd) (smax rs);
                     Some (Inr (rd\<lparr>smin := mn, smax := mx\<rparr>)) }
           else do { mn \<leftarrow> smod64 (smin rd) (smin rs); mx \<leftarrow> smod64 (smax rd) (smax rs);
                     Some (Inr (rd\<lparr>smin := mn, smax := mx\<rparr>)) }
      else if op = BPF_MOD
      then Some (Inr (rd\<lparr>smin := s_min (s_max (smax rd) 0) 0\<rparr>))
      else Some (Inr (eval_smax_bound msk rd)))"

definition eval_divmod ::
  "u8 \<Rightarrow> bpf_reg_val \<Rightarrow> bpf_reg_val \<Rightarrow> u64 \<Rightarrow> u64 \<Rightarrow> (string + bpf_reg_val) option" where
  "eval_divmod op rd rs opsz msk =
     (case divmod_u op rd rs of
        Inl e \<Rightarrow> Some (Inl e)
      | Inr rd1 \<Rightarrow>
          (let rd2 = (if opsz = 32 then rd1\<lparr>smin := sext32 (smin rd1), smax := sext32 (smax rd1)\<rparr> else rd1);
               rs2 = (if opsz = 32 then rs\<lparr>smin := sext32 (smin rs), smax := sext32 (smax rs)\<rparr> else rs)
           in do {
             r \<leftarrow> divmod_s op rd2 rs2 msk;
             Some (case r of
                     Inl e \<Rightarrow> Inl e
                   | Inr rd3 \<Rightarrow> Inr (rd3\<lparr>smax := smax rd3 AND msk, smin := smin rd3 AND msk\<rparr>)) }))"

definition eval_neg :: "bpf_reg_val \<Rightarrow> u64 \<Rightarrow> u64 \<Rightarrow> bpf_reg_val" where
  "eval_neg rd opsz msk =
     (let rd1 = (if opsz = 32 then rd\<lparr>umin := sext32 (umin rd), umax := sext32 (umax rd)\<rparr> else rd);
          ux = (- umin rd1) AND msk;
          uy = (- umax rd1) AND msk;
          rd2 = rd1\<lparr>umax := max ux uy, umin := min ux uy\<rparr>;
          rd3 = (if opsz = 32 then rd2\<lparr>smin := sext32 (smin rd2), smax := sext32 (smax rd2)\<rparr> else rd2);
          sx = (- smin rd3) AND msk;
          sy = (- smax rd3) AND msk
      in rd3\<lparr>smax := s_max sx sy, smin := s_min sx sy\<rparr>)"

section \<open>An ALU instruction\<close>

text \<open>\<open>eval_defined\<close>: a null pointer is \<open>None\<close>.\<close>

definition eval_defined :: "bpf_reg_val option \<Rightarrow> bpf_reg_val option \<Rightarrow> string option" where
  "eval_defined dst src =
     (if map_option rv_type dst = Some RTE_BPF_ARG_UNDEF then Some ''dest reg value is undefined''
      else if map_option rv_type src = Some RTE_BPF_ARG_UNDEF then Some ''src reg value is undefined''
      else None)"

text \<open>The chain of \<open>if (op == ...)\<close>: the new \<open>*rd\<close>, or the error of \<open>eval_divmod\<close>.\<close>

definition eval_alu_op ::
  "u8 \<Rightarrow> bpf_reg_val \<Rightarrow> bpf_reg_val \<Rightarrow> u64 \<Rightarrow> u64 \<Rightarrow> (string + bpf_reg_val) option" where
  "eval_alu_op op rd rs opsz msk =
     (if op = BPF_ADD then Some (Inr (eval_add rd rs msk))
      else if op = BPF_SUB then Some (Inr (eval_sub rd rs msk))
      else if op = BPF_LSH then map_option Inr (eval_lsh rd rs opsz msk)
      else if op = BPF_RSH then map_option Inr (eval_rsh rd rs opsz msk)
      else if op = EBPF_ARSH then map_option Inr (eval_arsh rd rs opsz msk)
      else if op = BPF_AND then map_option Inr (eval_and rd rs opsz msk)
      else if op = BPF_OR then map_option Inr (eval_or rd rs opsz msk)
      else if op = BPF_XOR then map_option Inr (eval_xor rd rs opsz msk)
      else if op = BPF_MUL then map_option Inr (eval_mul rd rs opsz msk)
      else if op = BPF_DIV \<or> op = BPF_MOD then eval_divmod op rd rs opsz msk
      else if op = BPF_NEG then Some (Inr (eval_neg rd opsz msk))
      else if op = EBPF_MOV then Some (Inr rs)
      else Some (Inr (eval_max_bound msk rd)))"

text \<open>
  \<open>eval_alu\<close> on the current evaluation state. After an error the verifier stops, so the model
  keeps the message only.
\<close>

definition alu_opsz :: "ebpf_insn \<Rightarrow> u64" where
  "alu_opsz i = (if BPF_CLASS (code i) = BPF_ALU then 32 else 64)"

definition eval_alu :: "bpf_eval_state \<Rightarrow> ebpf_insn \<Rightarrow> (string + bpf_eval_state) option" where
  "eval_alu st i = do {
     opsz \<leftarrow> Some (alu_opsz i);
     msk \<leftarrow> RTE_LEN2MASK opsz;
     rd0 \<leftarrow> get_rv st (unat (dst_reg i));
     rs0 \<leftarrow> (if BPF_SRC (code i) = BPF_X
             then map_option (eval_apply_mask msk) (get_rv st (unat (src_reg i)))
             else Some (eval_fill_imm msk (imm i) zero_reg_val));
     op \<leftarrow> Some (BPF_OP (code i));
     self_xor \<leftarrow> Some (op = BPF_XOR \<and> BPF_SRC (code i) = BPF_X \<and> src_reg i = dst_reg i);
     rd \<leftarrow> Some (let r = eval_apply_mask msk rd0
                 in if self_xor then eval_fill_imm UINT64_MAX 0 r else r);
     rs \<leftarrow> Some (if self_xor then eval_fill_imm UINT64_MAX 0 rs0 else rs0);
     (case eval_defined (if op \<noteq> EBPF_MOV then Some rd else None)
                        (if op \<noteq> BPF_NEG then Some rs else None) of
        Some e \<Rightarrow> Some (Inl e)
      | None \<Rightarrow> do {
          r \<leftarrow> eval_alu_op op rd rs opsz msk;
          (case r of
             Inl e \<Rightarrow> Some (Inl e)
           | Inr rd' \<Rightarrow> map_option Inr (put_rv st (unat (dst_reg i)) rd')) }) }"

end
