(* ===== verification/Mbuf_Read.thy ===== *)
theory Mbuf_Read
  imports Prelude
begin

text \<open>
  Reading packet data out of a chain of mbufs: \<open>rte_pktmbuf_read\<close> (\<open>lib/mbuf/rte_mbuf.h\<close>) and
  its slow path \<open>__rte_pktmbuf_read\<close> (\<open>lib/mbuf/rte_mbuf.c\<close>), on mbufs laid out in memory as
  \<open>struct rte_mbuf\<close> is on 64-bit targets with \<open>RTE_IOVA_AS_PA\<close>. The C functions return a pointer
  to \<open>len\<close> bytes; the model returns the bytes. \<open>None\<close> is undefined behaviour (an unmapped address)
  or a chain that never ends, \<open>Some None\<close> the null pointer.
\<close>

section \<open>Fields of struct rte\_mbuf\<close>

abbreviation (input) MBUF_BUF_ADDR :: u64 where "MBUF_BUF_ADDR \<equiv> 0"
abbreviation (input) MBUF_DATA_OFF :: u64 where "MBUF_DATA_OFF \<equiv> 16"
abbreviation (input) MBUF_REFCNT :: u64 where "MBUF_REFCNT \<equiv> 18"
abbreviation (input) MBUF_NB_SEGS :: u64 where "MBUF_NB_SEGS \<equiv> 20"
abbreviation (input) MBUF_PKT_LEN :: u64 where "MBUF_PKT_LEN \<equiv> 36"
abbreviation (input) MBUF_DATA_LEN :: u64 where "MBUF_DATA_LEN \<equiv> 40"
abbreviation (input) MBUF_BUF_LEN :: u64 where "MBUF_BUF_LEN \<equiv> 54"
abbreviation (input) MBUF_POOL :: u64 where "MBUF_POOL \<equiv> 56"
abbreviation (input) MBUF_NEXT :: u64 where "MBUF_NEXT \<equiv> 64"
abbreviation (input) MBUF_PRIV_SIZE :: u64 where "MBUF_PRIV_SIZE \<equiv> 88"
abbreviation (input) MBUF_SIZEOF :: u64 where "MBUF_SIZEOF \<equiv> 128"
abbreviation (input) RTE_PKTMBUF_HEADROOM :: u32 where "RTE_PKTMBUF_HEADROOM \<equiv> 128"

definition rte_pktmbuf_data_len :: "mem \<Rightarrow> u64 \<Rightarrow> u32 option" where
  "rte_pktmbuf_data_len m mb = map_option ucast (load m 2 (mb + MBUF_DATA_LEN))"

definition rte_pktmbuf_pkt_len :: "mem \<Rightarrow> u64 \<Rightarrow> u32 option" where
  "rte_pktmbuf_pkt_len m mb = map_option ucast (load m 4 (mb + MBUF_PKT_LEN))"

text \<open>\<open>rte_pktmbuf_mtod_offset(m, char *, off)\<close>\<close>

definition rte_pktmbuf_mtod_offset :: "mem \<Rightarrow> u64 \<Rightarrow> u32 \<Rightarrow> u64 option" where
  "rte_pktmbuf_mtod_offset m mb off = do {
     b \<leftarrow> load m 8 (mb + MBUF_BUF_ADDR);
     d \<leftarrow> load m 2 (mb + MBUF_DATA_OFF);
     Some (b + d + ucast off) }"

section \<open>Reading\<close>

text \<open>\<open>while (off >= rte_pktmbuf_data_len(seg))\<close>\<close>

partial_function (option) skip_segs :: "mem \<Rightarrow> u64 \<Rightarrow> u32 \<Rightarrow> (u64 \<times> u32) option" where
  "skip_segs m seg off = do {
     dl \<leftarrow> rte_pktmbuf_data_len m seg;
     (if off \<ge> dl
      then do { nx \<leftarrow> load m 8 (seg + MBUF_NEXT); skip_segs m nx (off - dl) }
      else Some (seg, off)) }"

text \<open>\<open>while (len > 0)\<close>: the copy loop.\<close>

partial_function (option) copy_segs :: "mem \<Rightarrow> u64 \<Rightarrow> u32 \<Rightarrow> u32 \<Rightarrow> u8 list \<Rightarrow> u8 list option" where
  "copy_segs m seg off len buf =
     (if len > 0
      then do {
        dl \<leftarrow> rte_pktmbuf_data_len m seg;
        copy_len \<leftarrow> Some (if dl - off > len then len else dl - off);
        src \<leftarrow> rte_pktmbuf_mtod_offset m seg off;
        bs \<leftarrow> ld_bytes m src (unat copy_len);
        nx \<leftarrow> load m 8 (seg + MBUF_NEXT);
        copy_segs m nx 0 (len - copy_len) (buf @ bs) }
      else Some buf)"

declare skip_segs.simps [code] copy_segs.simps [code]

definition rte_pktmbuf_read_slow :: "mem \<Rightarrow> u64 \<Rightarrow> u32 \<Rightarrow> u32 \<Rightarrow> u8 list option option" where
  "rte_pktmbuf_read_slow m mb off len = do {
     pl \<leftarrow> rte_pktmbuf_pkt_len m mb;
     (if off + len > pl then Some None
      else do {
        (seg, off') \<leftarrow> skip_segs m mb off;
        dl \<leftarrow> rte_pktmbuf_data_len m seg;
        (if off' + len \<le> dl
         then do { src \<leftarrow> rte_pktmbuf_mtod_offset m seg off'; bs \<leftarrow> ld_bytes m src (unat len); Some (Some bs) }
         else do { bs \<leftarrow> copy_segs m seg off' len []; Some (Some bs) }) }) }"

definition rte_pktmbuf_read :: "mem \<Rightarrow> u64 \<Rightarrow> u32 \<Rightarrow> u32 \<Rightarrow> u8 list option option" where
  "rte_pktmbuf_read m mb off len = do {
     dl \<leftarrow> rte_pktmbuf_data_len m mb;
     (if off + len \<le> dl
      then do { src \<leftarrow> rte_pktmbuf_mtod_offset m mb off; bs \<leftarrow> ld_bytes m src (unat len); Some (Some bs) }
      else rte_pktmbuf_read_slow m mb off len) }"

end
