(* ===== verification/BPF_Eval_Mem.thy ===== *)
theory BPF_Eval_Mem
  imports BPF_Eval BPF_Syntax Mbuf_Read
begin

text \<open>
  The rest of the verifier's transfer functions (\<open>lib/bpf/bpf_validate.c\<close>): loads, stores and the
  checks of pointers, calls, byte swaps and conditional jumps. A function that can reject gives
  \<open>Inl\<close> the message; it may also change the stack size the verifier records, which is passed along
  as \<open>ssz\<close>. The last definition, \<open>run_eval\<close>, is the call through \<open>ins_chk[op].eval\<close>.
\<close>

section \<open>Immediate and packet loads, byte swaps, exit\<close>

definition eval_exit :: "bpf_eval_state \<Rightarrow> (string + bpf_eval_state) option" where
  "eval_exit st = do {
     r0 \<leftarrow> get_rv st EBPF_REG_0;
     Some (if rv_type r0 = RTE_BPF_ARG_UNDEF then Inl ''undefined return value'' else Inr st) }"

text \<open>The first external variable whose address is the value; its description types the register.\<close>

fun find_xvar :: "rte_bpf_xsym list \<Rightarrow> u64 \<Rightarrow> rte_bpf_arg option" where
  "find_xvar [] val = None"
| "find_xvar (x # xs) val =
     (case xsym_body x of
        RTE_BPF_XTYPE_VAR v d \<Rightarrow> if v = val then Some d else find_xvar xs val
      | _ \<Rightarrow> find_xvar xs val)"

definition eval_ld_imm64 ::
  "rte_bpf_prm \<Rightarrow> bpf_eval_state \<Rightarrow> nat \<Rightarrow> (string + bpf_eval_state) option" where
  "eval_ld_imm64 p st idx = do {
     i0 \<leftarrow> nth_opt (ins p) idx;
     i1 \<leftarrow> nth_opt (ins p) (idx + 1);
     val \<leftarrow> Some (ucast (imm i0) OR push_bit 32 (ucast (imm i1)));
     rd \<leftarrow> get_rv st (unat (dst_reg i0));
     rd1 \<leftarrow> Some (eval_fill_imm64 UINT64_MAX val (set_type RTE_BPF_ARG_RAW rd));
     rd2 \<leftarrow> Some (case find_xvar (xsym p) val of
               None \<Rightarrow> rd1
             | Some d \<Rightarrow> eval_fill_imm64 UINT64_MAX 0 (rd1\<lparr>rv_v := d\<rparr>));
     map_option Inr (put_rv st (unat (dst_reg i0)) rd2) }"

text \<open>The loop that makes R1 to R5 undefined.\<close>

fun scratch_regs :: "nat \<Rightarrow> bpf_eval_state \<Rightarrow> bpf_eval_state option" where
  "scratch_regs 0 st = Some st"
| "scratch_regs (Suc n) st = do {
     st1 \<leftarrow> scratch_regs n st;
     r \<leftarrow> get_rv st1 (EBPF_REG_1 + n);
     put_rv st1 (EBPF_REG_1 + n) (set_type RTE_BPF_ARG_UNDEF r) }"

definition eval_ld_mbuf :: "bpf_eval_state \<Rightarrow> ebpf_insn \<Rightarrow> (string + bpf_eval_state) option" where
  "eval_ld_mbuf st i = do {
     r6 \<leftarrow> get_rv st EBPF_REG_6;
     (if rv_type r6 \<noteq> RTE_BPF_ARG_PTR_MBUF
      then Some (Inl ''invalid type for implicit ctx register'')
      else do {
        err \<leftarrow> (if BPF_MODE (code i) = BPF_IND
                then do {
                  rs \<leftarrow> get_rv st (unat (src_reg i));
                  (if rv_type rs \<noteq> RTE_BPF_ARG_RAW
                   then Some (Some ''unexpected type for src register'')
                   else let rs1 = eval_add rs (eval_fill_imm UINT64_MAX (imm i) zero_reg_val) UINT64_MAX
                        in Some (if smax rs1 <s 0 \<or> umin rs1 > 0xffffffff
                                 then Some ''mbuf boundary violation'' else None)) }
                else Some None);
        (case err of
           Some e \<Rightarrow> Some (Inl e)
         | None \<Rightarrow> do {
             st1 \<leftarrow> scratch_regs 5 st;
             r0 \<leftarrow> get_rv st1 EBPF_REG_0;
             n \<leftarrow> Some (of_nat (bpf_size (BPF_SIZE (code i))));
             m \<leftarrow> RTE_LEN2MASK (n * 8);
             map_option Inr (put_rv st1 EBPF_REG_0 (eval_fill_max_bound m (set_size n r0))) }) }) }"

definition eval_bele :: "bpf_eval_state \<Rightarrow> ebpf_insn \<Rightarrow> (string + bpf_eval_state) option" where
  "eval_bele st i = do {
     msk \<leftarrow> RTE_LEN2MASK (scast (imm i));
     rd \<leftarrow> get_rv st (unat (dst_reg i));
     (case eval_defined (Some rd) None of
        Some e \<Rightarrow> Some (Inl e)
      | None \<Rightarrow>
          map_option Inr (put_rv st (unat (dst_reg i))
            (if code i = (BPF_ALU OR EBPF_END OR EBPF_TO_BE)
             then eval_max_bound msk rd else eval_apply_mask msk rd))) }"

section \<open>Pointers\<close>

text \<open>The pointer \<open>rm\<close> moved by \<open>ofs\<close>, checked for an access of \<open>opsz\<close> bytes.\<close>

definition eval_ptr ::
  "u64 \<Rightarrow> bpf_reg_val \<Rightarrow> u32 \<Rightarrow> u32 \<Rightarrow> u16 \<Rightarrow> string option \<times> bpf_reg_val \<times> u64" where
  "eval_ptr ssz rm0 opsz align ofs =
     (let rm = eval_add rm0 (eval_fill_imm (rv_mask rm0) (scast ofs) zero_reg_val) (rv_mask rm0);
          not_const = umax rm \<noteq> umin rm \<or> smax rm \<noteq> smin rm \<or> umax rm \<noteq> smax rm
      in if \<not> RTE_BPF_ARG_PTR_TYPE (rv_type rm) then (Some ''destination is not a pointer'', rm, ssz)
         else if rv_mask rm \<noteq> UINT64_MAX then (Some ''pointer truncation'', rm, ssz)
         else if umax rm + ucast opsz > arg_size (rv_v rm) \<or>
                 smax rm + ucast opsz > arg_size (rv_v rm) \<or> smin rm <s 0
         then (Some ''memory boundary violation'', rm, ssz)
         else if umax rm mod ucast align \<noteq> 0 then (Some ''unaligned memory access'', rm, ssz)
         else if rv_type rm = BPF_ARG_PTR_STACK
         then if not_const then (Some ''stack access with variable offset'', rm, ssz)
              else (None, rm, max ssz (arg_size (rv_v rm) - umax rm))
         else if rv_type rm = RTE_BPF_ARG_PTR_MBUF
         then if not_const then (Some ''mbuf access with variable offset'', rm, ssz)
              else (None, rm, ssz)
         else (None, rm, ssz))"

definition eval_max_load :: "u64 \<Rightarrow> bpf_reg_val \<Rightarrow> bpf_reg_val" where
  "eval_max_load msk r =
     (let r1 = eval_umax_bound msk r;
          r2 = (if msk = UINT64_MAX then eval_smax_bound msk r1 else r1)
      in r2\<lparr>smin := umin r2, smax := umax r2\<rparr>)"

text \<open>What a load through a pointer \<open>rs\<close> that \<open>eval_ptr\<close> accepted puts into \<open>rd\<close>.\<close>

definition load_result ::
  "bpf_eval_state \<Rightarrow> bpf_reg_val \<Rightarrow> bpf_reg_val \<Rightarrow> u64 \<Rightarrow> (string + bpf_reg_val) option" where
  "load_result st rd rs msk =
     (if rv_type rs = BPF_ARG_PTR_STACK
      then do {
        s \<leftarrow> get_sv st (unat (umax rs div 8));
        Some (if rv_type s = RTE_BPF_ARG_UNDEF \<or> rv_mask s < msk
              then Inl ''undefined value on the stack'' else Inr s) }
      else if rv_type rs = RTE_BPF_ARG_PTR_MBUF
      then Some (Inr
        (if umax rs = MBUF_NEXT
         then (eval_fill_imm msk 0 rd)\<lparr>rv_v := rv_v rs\<rparr>
         else if umax rs = MBUF_BUF_ADDR
         then set_size (arg_buf_size (rv_v rs)) (set_type RTE_BPF_ARG_PTR (eval_fill_imm msk 0 rd))
         else if umax rs = MBUF_DATA_OFF
         then set_type RTE_BPF_ARG_RAW (eval_fill_imm msk RTE_PKTMBUF_HEADROOM rd)
         else set_type RTE_BPF_ARG_RAW (eval_max_load msk rd)))
      else Some (Inr (set_type RTE_BPF_ARG_RAW (eval_max_load msk rd))))"

definition eval_load ::
  "u64 \<Rightarrow> bpf_eval_state \<Rightarrow> ebpf_insn \<Rightarrow> (string + bpf_eval_state \<times> u64) option" where
  "eval_load ssz st i = do {
     rd \<leftarrow> get_rv st (unat (dst_reg i));
     rs0 \<leftarrow> get_rv st (unat (src_reg i));
     opsz \<leftarrow> Some (bpf_size (BPF_SIZE (code i)));
     msk \<leftarrow> RTE_LEN2MASK (of_nat opsz * 8);
     (case eval_ptr ssz rs0 (of_nat opsz) 1 (off i) of
        (Some e, _) \<Rightarrow> Some (Inl e)
      | (None, rs, ssz1) \<Rightarrow> do {
          r \<leftarrow> load_result st rd rs msk;
          (case r of
             Inl e \<Rightarrow> Some (Inl e)
           | Inr rd1 \<Rightarrow> map_option (\<lambda>st1. Inr (st1, ssz1)) (put_rv st (unat (dst_reg i)) rd1)) }) }"

section \<open>Stores\<close>

text \<open>The table \<open>mbuf_ro_fileds\<close>: its initialisers leave every \<open>sz\<close> zero.\<close>

definition mbuf_ro_fileds :: "(u64 \<times> u64) list" where
  "mbuf_ro_fileds =
     [(MBUF_BUF_ADDR, 0), (MBUF_REFCNT, 0), (MBUF_NB_SEGS, 0), (MBUF_BUF_LEN, 0),
      (MBUF_POOL, 0), (MBUF_NEXT, 0), (MBUF_PRIV_SIZE, 0)]"

definition eval_mbuf_store :: "bpf_reg_val \<Rightarrow> u32 \<Rightarrow> string option" where
  "eval_mbuf_store r opsz =
     (if list_all (\<lambda>(ofs, sz). ofs + sz \<le> umax r \<or> umax r + ucast opsz \<le> ofs) mbuf_ro_fileds
      then None else Some ''store to the read-only mbuf field'')"

definition eval_store ::
  "u64 \<Rightarrow> bpf_eval_state \<Rightarrow> ebpf_insn \<Rightarrow> (string + bpf_eval_state \<times> u64) option" where
  "eval_store ssz st i = do {
     opsz \<leftarrow> Some (bpf_size (BPF_SIZE (code i)));
     msk \<leftarrow> RTE_LEN2MASK (of_nat opsz * 8);
     rd0 \<leftarrow> get_rv st (unat (dst_reg i));
     rs \<leftarrow> (if BPF_CLASS (code i) = BPF_STX
            then map_option (eval_apply_mask msk) (get_rv st (unat (src_reg i)))
            else Some (eval_fill_imm msk (imm i) zero_reg_val));
     (case eval_defined None (Some rs) of
        Some e \<Rightarrow> Some (Inl e)
      | None \<Rightarrow>
          (case eval_ptr ssz rd0 (of_nat opsz) 1 (off i) of
             (Some e, _) \<Rightarrow> Some (Inl e)
           | (None, rd, ssz1) \<Rightarrow>
               if rv_type rd = BPF_ARG_PTR_STACK
               then do {
                 k \<leftarrow> Some (unat (umax rd div 8));
                 s \<leftarrow> get_sv st k;
                 st1 \<leftarrow> put_sv st k
                   (if BPF_CLASS (code i) = BPF_STX \<and> BPF_MODE (code i) = EBPF_XADD
                    then eval_max_bound msk s else rs);
                 Some (Inr (st1, ssz1)) }
               else if rv_type rd = RTE_BPF_ARG_PTR_MBUF
               then Some (case eval_mbuf_store rd (of_nat opsz) of
                            Some e \<Rightarrow> Inl e | None \<Rightarrow> Inr (st, ssz1))
               else Some (Inr (st, ssz1)))) }"

section \<open>Calls\<close>

text \<open>The loop \<open>while (i != n)\<close> that marks stack slots; a slot outside the array is undefined.\<close>

function mark_stack :: "bpf_eval_state \<Rightarrow> nat \<Rightarrow> nat \<Rightarrow> bpf_eval_state option" where
  "mark_stack st i n =
     (if i = n then Some st
      else if i < length (sv st)
      then mark_stack (st\<lparr>sv := (sv st)[i := eval_fill_max_bound UINT64_MAX (sv st ! i)]\<rparr>) (i + 1) n
      else None)"
  by pat_completeness auto
termination by (relation "measure (\<lambda>(st, i, n). length (sv st) - i)") auto

declare mark_stack.simps [simp del]

definition eval_func_arg ::
  "u64 \<Rightarrow> bpf_eval_state \<Rightarrow> rte_bpf_arg \<Rightarrow> nat \<Rightarrow> (string option \<times> bpf_eval_state \<times> u64) option" where
  "eval_func_arg ssz st arg r = do {
     x \<leftarrow> get_rv st r;
     (if rv_type x = RTE_BPF_ARG_UNDEF then Some (Some ''Undefined argument type'', st, ssz)
      else if arg_type arg \<noteq> rv_type x \<and> arg_type arg \<noteq> RTE_BPF_ARG_RAW \<and>
              (arg_type arg \<noteq> RTE_BPF_ARG_PTR \<or> \<not> RTE_BPF_ARG_PTR_TYPE (rv_type x))
      then Some (Some ''Invalid argument type'', st, ssz)
      else if RTE_BPF_ARG_PTR_TYPE (arg_type arg)
      then (case eval_ptr ssz x (ucast (arg_size arg)) 1 0 of
              (err, x1, ssz1) \<Rightarrow> do {
                st1 \<leftarrow> put_rv st r x1;
                (if err = None \<and> rv_type x1 = BPF_ARG_PTR_STACK
                 then do {
                   i \<leftarrow> Some (ucast (umax x1 div 8) :: u32);
                   n \<leftarrow> Some (ucast (ucast i + arg_size arg div 8) :: u32);
                   st2 \<leftarrow> mark_stack st1 (unat i) (unat n);
                   Some (err, st2, ssz1) }
                 else Some (err, st1, ssz1)) })
      else Some (None, st, ssz)) }"

text \<open>The loop over the arguments: \<open>n\<close> are left, \<open>k\<close> is the next one.\<close>

fun eval_args ::
  "nat \<Rightarrow> nat \<Rightarrow> rte_bpf_arg list \<Rightarrow> u64 \<Rightarrow> bpf_eval_state \<Rightarrow> (string option \<times> bpf_eval_state \<times> u64) option"
where
  "eval_args 0 k args ssz st = Some (None, st, ssz)"
| "eval_args (Suc n) k args ssz st = do {
     a \<leftarrow> nth_opt args k;
     (err, st1, ssz1) \<leftarrow> eval_func_arg ssz st a (EBPF_REG_1 + k);
     (if err \<noteq> None then Some (err, st1, ssz1) else eval_args n (k + 1) args ssz1 st1) }"

definition eval_call ::
  "rte_bpf_prm \<Rightarrow> u64 \<Rightarrow> bpf_eval_state \<Rightarrow> ebpf_insn \<Rightarrow> (string + bpf_eval_state \<times> u64) option" where
  "eval_call p ssz st i =
     (if imm i \<ge> nb_xsym p then Some (Inl ''invalid external function index'')
      else do {
        x \<leftarrow> nth_opt (xsym p) (unat (imm i));
        (case xsym_body x of
           RTE_BPF_XTYPE_FUNC _ nb_args args ret \<Rightarrow> do {
             (err, st1, ssz1) \<leftarrow> eval_args (unat nb_args) 0 args ssz st;
             st2 \<leftarrow> scratch_regs 5 st1;
             r0 \<leftarrow> get_rv st2 EBPF_REG_0;
             r0' \<leftarrow> Some (r0\<lparr>rv_v := ret\<rparr>);
             r0'' \<leftarrow> (if arg_type ret = RTE_BPF_ARG_RAW
                      then do { m \<leftarrow> RTE_LEN2MASK (arg_size ret * 8); Some (eval_fill_max_bound m r0') }
                      else if RTE_BPF_ARG_PTR_TYPE (arg_type ret)
                      then Some (eval_fill_imm64 UINT64_MAX 0 r0')
                      else Some r0');
             st3 \<leftarrow> put_rv st2 EBPF_REG_0 r0'';
             Some (case err of Some e \<Rightarrow> Inl e | None \<Rightarrow> Inr (st3, ssz1)) }
         | _ \<Rightarrow> Some (Inl ''invalid external function index'')) })"

section \<open>Conditional jumps\<close>

text \<open>
  The operands of the branch that is taken (\<open>t\<close>) and of the one that falls through (\<open>f\<close>). A
  function returns the operands it changes.
\<close>

definition set_u :: "bpf_reg_val \<Rightarrow> bpf_reg_val \<Rightarrow> bpf_reg_val" where
  "set_u a b = a\<lparr>umin := umin b, umax := umax b\<rparr>"

definition set_s :: "bpf_reg_val \<Rightarrow> bpf_reg_val \<Rightarrow> bpf_reg_val" where
  "set_s a b = a\<lparr>smin := smin b, smax := smax b\<rparr>"

definition eval_jeq_jne :: "bpf_reg_val \<Rightarrow> bpf_reg_val \<Rightarrow> bpf_reg_val \<times> bpf_reg_val" where
  "eval_jeq_jne trd trs =
     (let (d1, s1) =
        (if umin trs = umax trs then (set_u trd trs, trs)
         else if umin trd = umax trd then (trd, set_u trs trd)
         else let d = trd\<lparr>umax := min (umax trd) (umax trs), umin := max (umin trd) (umin trs)\<rparr>
              in (d, set_u trs d))
      in if smin s1 = smax s1 then (set_s d1 s1, s1)
         else if smin d1 = smax d1 then (d1, set_s s1 d1)
         else let d = d1\<lparr>smax := s_min (smax d1) (smax s1), smin := s_max (smin d1) (smin s1)\<rparr>
              in (d, set_s s1 d))"

text \<open>These return \<open>(*trd, *frd)\<close>.\<close>

definition eval_jgt_jle ::
  "bpf_reg_val \<Rightarrow> bpf_reg_val \<Rightarrow> bpf_reg_val \<Rightarrow> bpf_reg_val \<Rightarrow> bpf_reg_val \<times> bpf_reg_val" where
  "eval_jgt_jle trd trs frd frs =
     (trd\<lparr>umin := max (umin trd) (umin trs + 1)\<rparr>, frd\<lparr>umax := min (umax frd) (umin frs)\<rparr>)"

definition eval_jlt_jge ::
  "bpf_reg_val \<Rightarrow> bpf_reg_val \<Rightarrow> bpf_reg_val \<Rightarrow> bpf_reg_val \<Rightarrow> bpf_reg_val \<times> bpf_reg_val" where
  "eval_jlt_jge trd trs frd frs =
     (trd\<lparr>umax := min (umax trd) (umax trs - 1)\<rparr>, frd\<lparr>umin := max (umin frd) (umin frs)\<rparr>)"

definition eval_jsgt_jsle ::
  "bpf_reg_val \<Rightarrow> bpf_reg_val \<Rightarrow> bpf_reg_val \<Rightarrow> bpf_reg_val \<Rightarrow> bpf_reg_val \<times> bpf_reg_val" where
  "eval_jsgt_jsle trd trs frd frs =
     (trd\<lparr>smin := s_max (smin trd) (smin trs + 1)\<rparr>, frd\<lparr>smax := s_min (smax frd) (smin frs)\<rparr>)"

definition eval_jslt_jsge ::
  "bpf_reg_val \<Rightarrow> bpf_reg_val \<Rightarrow> bpf_reg_val \<Rightarrow> bpf_reg_val \<Rightarrow> bpf_reg_val \<times> bpf_reg_val" where
  "eval_jslt_jsge trd trs frd frs =
     (trd\<lparr>smax := s_min (smax trd) (smax trs - 1)\<rparr>, frd\<lparr>smin := s_max (smin frd) (smin frs)\<rparr>)"

text \<open>
  The new \<open>(*trd, *trs, *frd, *frs)\<close> of the chain of \<open>if (op == ...)\<close>.
\<close>

definition jcc_ops ::
  "u8 \<Rightarrow> bpf_reg_val \<Rightarrow> bpf_reg_val \<Rightarrow> bpf_reg_val \<Rightarrow> bpf_reg_val
   \<Rightarrow> bpf_reg_val \<times> bpf_reg_val \<times> bpf_reg_val \<times> bpf_reg_val" where
  "jcc_ops op trd trs frd frs =
     (if op = BPF_JEQ then let (d, s) = eval_jeq_jne trd trs in (d, s, frd, frs)
      else if op = EBPF_JNE then let (d, s) = eval_jeq_jne frd frs in (trd, trs, d, s)
      else if op = BPF_JGT then let (t, f) = eval_jgt_jle trd trs frd frs in (t, trs, f, frs)
      else if op = EBPF_JLE then let (f, t) = eval_jgt_jle frd frs trd trs in (t, trs, f, frs)
      else if op = EBPF_JLT then let (t, f) = eval_jlt_jge trd trs frd frs in (t, trs, f, frs)
      else if op = BPF_JGE then let (f, t) = eval_jlt_jge frd frs trd trs in (t, trs, f, frs)
      else if op = EBPF_JSGT then let (t, f) = eval_jsgt_jsle trd trs frd frs in (t, trs, f, frs)
      else if op = EBPF_JSLE then let (f, t) = eval_jsgt_jsle frd frs trd trs in (t, trs, f, frs)
      else if op = EBPF_JSLT then let (t, f) = eval_jslt_jsge trd trs frd frs in (t, trs, f, frs)
      else if op = EBPF_JSGE then let (f, t) = eval_jslt_jsge frd frs trd trs in (t, trs, f, frs)
      else (trd, trs, frd, frs))"

text \<open>
  The two operand pointers are the same object when the registers are. Then only the destination
  is written back: \<open>eval_jeq_jne\<close> leaves such an object as it is (\<open>eval_jeq_jne_same\<close>), the other
  functions write to one operand only.
\<close>

definition put_opnds ::
  "bpf_eval_state \<Rightarrow> ebpf_insn \<Rightarrow> bpf_reg_val \<Rightarrow> bpf_reg_val \<Rightarrow> bpf_eval_state option" where
  "put_opnds st i d s =
     (if BPF_SRC (code i) = BPF_X \<and> src_reg i \<noteq> dst_reg i
      then do { st1 \<leftarrow> put_rv st (unat (dst_reg i)) d; put_rv st1 (unat (src_reg i)) s }
      else put_rv st (unat (dst_reg i)) d)"

definition get_src_opnd :: "bpf_eval_state \<Rightarrow> ebpf_insn \<Rightarrow> bpf_reg_val option" where
  "get_src_opnd st i =
     (if BPF_SRC (code i) = BPF_X then get_rv st (unat (src_reg i))
      else Some (eval_fill_imm UINT64_MAX (imm i) zero_reg_val))"

lemma eval_jeq_jne_same: "eval_jeq_jne r r = (r, r)"
  by (cases r) (simp add: eval_jeq_jne_def set_u_def set_s_def s_min_def s_max_def Let_def)

text \<open>\<open>tst\<close> is \<open>bvf->evst\<close>, \<open>fst\<close> the state saved in the node, \<open>bvf->evin->evst\<close>.\<close>

definition eval_jcc :: "bpf_verifier \<Rightarrow> ebpf_insn \<Rightarrow> (string + bpf_verifier) option" where
  "eval_jcc bvf i = do {
     tst \<leftarrow> get_evst bvf;
     n \<leftarrow> bvf_evin bvf;
     nd \<leftarrow> nth_opt (bvf_in bvf) n;
     f \<leftarrow> node_evst nd;
     fst \<leftarrow> nth_opt (pool_ent bvf) f;
     frd \<leftarrow> get_rv fst (unat (dst_reg i));
     trd \<leftarrow> get_rv tst (unat (dst_reg i));
     frs \<leftarrow> get_src_opnd fst i;
     trs \<leftarrow> get_src_opnd tst i;
     (case eval_defined (Some trd) (Some trs) of
        Some e \<Rightarrow> Some (Inl e)
      | None \<Rightarrow>
          (case jcc_ops (BPF_OP (code i)) trd trs frd frs of
             (trd', trs', frd', frs') \<Rightarrow> do {
               tst' \<leftarrow> put_opnds tst i trd' trs';
               fst' \<leftarrow> put_opnds fst i frd' frs';
               bvf1 \<leftarrow> put_evst bvf tst';
               ent \<leftarrow> upd_opt (pool_ent bvf1) f fst';
               Some (Inr (bvf1\<lparr>pool_ent := ent\<rparr>)) })) }"

section \<open>The call through the table\<close>

text \<open>A function of the current evaluation state, and one that also changes the stack size.\<close>

definition on_evst ::
  "bpf_verifier \<Rightarrow> (bpf_eval_state \<Rightarrow> (string + bpf_eval_state) option) \<Rightarrow> (string + bpf_verifier) option" where
  "on_evst bvf f = do {
     st \<leftarrow> get_evst bvf;
     r \<leftarrow> f st;
     (case r of Inl e \<Rightarrow> Some (Inl e) | Inr st1 \<Rightarrow> map_option Inr (put_evst bvf st1)) }"

definition on_evst_ssz ::
  "bpf_verifier \<Rightarrow> (u64 \<Rightarrow> bpf_eval_state \<Rightarrow> (string + bpf_eval_state \<times> u64) option)
   \<Rightarrow> (string + bpf_verifier) option" where
  "on_evst_ssz bvf f = do {
     st \<leftarrow> get_evst bvf;
     r \<leftarrow> f (bvf_stack_sz bvf) st;
     (case r of
        Inl e \<Rightarrow> Some (Inl e)
      | Inr (st1, ssz) \<Rightarrow> map_option Inr (put_evst (bvf\<lparr>bvf_stack_sz := ssz\<rparr>) st1)) }"

fun run_eval :: "eval_fn \<Rightarrow> bpf_verifier \<Rightarrow> nat \<Rightarrow> ebpf_insn \<Rightarrow> (string + bpf_verifier) option" where
  "run_eval Eval_none bvf idx i = Some (Inr bvf)"
| "run_eval Eval_alu bvf idx i = on_evst bvf (\<lambda>st. eval_alu st i)"
| "run_eval Eval_bele bvf idx i = on_evst bvf (\<lambda>st. eval_bele st i)"
| "run_eval Eval_load bvf idx i = on_evst_ssz bvf (\<lambda>z st. eval_load z st i)"
| "run_eval Eval_ld_imm64 bvf idx i = on_evst bvf (\<lambda>st. eval_ld_imm64 (bvf_prm bvf) st idx)"
| "run_eval Eval_ld_mbuf bvf idx i = on_evst bvf (\<lambda>st. eval_ld_mbuf st i)"
| "run_eval Eval_store bvf idx i = on_evst_ssz bvf (\<lambda>z st. eval_store z st i)"
| "run_eval Eval_jcc bvf idx i = eval_jcc bvf i"
| "run_eval Eval_call bvf idx i = on_evst_ssz bvf (\<lambda>z st. eval_call (bvf_prm bvf) z st i)"
| "run_eval Eval_exit bvf idx i = on_evst bvf eval_exit"

end
