(* ===== verification/BPF_Validate.thy ===== *)
theory BPF_Validate
  imports BPF_Cfg BPF_Eval_Mem
begin

text \<open>
  The second pass of the verifier (\<open>lib/bpf/bpf_validate.c\<close>): the pool of evaluation states, the
  walk of \<open>evaluate\<close> along every path of the graph, and \<open>bpf_validate\<close>. Whether the two
  \<open>calloc\<close> calls give memory is a parameter.
\<close>

section \<open>The pool of evaluation states\<close>

definition pull_eval_state :: "bpf_verifier \<Rightarrow> bpf_verifier \<times> nat option" where
  "pull_eval_state bvf =
     (let n = pool_cur bvf in
      if n = pool_num bvf then (bvf, None) else (bvf\<lparr>pool_cur := n + 1\<rparr>, Some (unat n)))"

definition push_eval_state :: "bpf_verifier \<Rightarrow> bpf_verifier" where
  "push_eval_state bvf = bvf\<lparr>pool_cur := pool_cur bvf - 1\<rparr>"

definition evst_pool_fini :: "bpf_verifier \<Rightarrow> bpf_verifier" where
  "evst_pool_fini bvf = bvf\<lparr>bvf_evst := None, pool_ent := [], pool_num := 0, pool_cur := 0\<rparr>"

definition evst_pool_init :: "bool \<Rightarrow> bpf_verifier \<Rightarrow> bpf_verifier \<times> u32" where
  "evst_pool_init alloc_ok bvf =
     (let n = nb_jcc_nodes bvf + 1 in
      if \<not> alloc_ok then (bvf\<lparr>pool_ent := []\<rparr>, - ENOMEM)
      else let (b, e) = pull_eval_state
                 (bvf\<lparr>pool_ent := replicate (unat n) zero_eval_state, pool_num := n, pool_cur := 0\<rparr>)
           in (b\<lparr>bvf_evst := e\<rparr>, 0))"

definition save_eval_state :: "bpf_verifier \<Rightarrow> nat \<Rightarrow> (bpf_verifier \<times> u32) option" where
  "save_eval_state bvf node =
     (case pull_eval_state bvf of
        (b, None) \<Rightarrow> Some (bpf_log b (Log ''internal error (out of space)'' [node]), - ENOMEM)
      | (b, Some st) \<Rightarrow> do {
          cur \<leftarrow> get_evst b;
          ent \<leftarrow> upd_opt (pool_ent b) st cur;
          nd \<leftarrow> get_node b node;
          b1 \<leftarrow> put_node (b\<lparr>pool_ent := ent\<rparr>) node (nd\<lparr>node_evst := bvf_evst b\<rparr>);
          Some (b1\<lparr>bvf_evst := Some st\<rparr>, 0) })"

definition restore_eval_state :: "bpf_verifier \<Rightarrow> nat \<Rightarrow> bpf_verifier option" where
  "restore_eval_state bvf node = do {
     nd \<leftarrow> get_node bvf node;
     b1 \<leftarrow> put_node (bvf\<lparr>bvf_evst := node_evst nd\<rparr>) node (nd\<lparr>node_evst := None\<rparr>);
     Some (push_eval_state b1) }"

section \<open>The walk\<close>

text \<open>The initial state of the frame pointer, and of the evaluation.\<close>

definition rvfp :: bpf_reg_val where
  "rvfp = \<lparr>rv_v = \<lparr>arg_type = BPF_ARG_PTR_STACK, arg_size = of_nat MAX_BPF_STACK_SIZE, arg_buf_size = 0\<rparr>,
     rv_mask = UINT64_MAX, smin = of_nat MAX_BPF_STACK_SIZE, smax = of_nat MAX_BPF_STACK_SIZE,
     umin = of_nat MAX_BPF_STACK_SIZE, umax = of_nat MAX_BPF_STACK_SIZE\<rparr>"

definition eval_start :: "rte_bpf_arg \<Rightarrow> bpf_eval_state \<Rightarrow> bpf_eval_state option" where
  "eval_start arg st = do {
     r1 \<leftarrow> get_rv st EBPF_REG_1;
     st1 \<leftarrow> put_rv st EBPF_REG_1
       (let r = r1\<lparr>rv_v := arg, rv_mask := UINT64_MAX\<rparr>
        in if arg_type arg = RTE_BPF_ARG_RAW then eval_max_bound UINT64_MAX r else r);
     put_rv st1 EBPF_REG_10 rvfp }"

text \<open>
  The evaluation of the current node. When the instruction is rejected the state it was evaluated
  in is not used again, and stays as it was.
\<close>

definition eval_node :: "bpf_verifier \<Rightarrow> nat \<Rightarrow> (bpf_verifier \<times> u32) option" where
  "eval_node bvf node = do {
     x \<leftarrow> nth_opt (ins (bvf_prm bvf)) node;
     nd \<leftarrow> get_node bvf node;
     (b1, rc) \<leftarrow> (if nb_edge nd > 1 then save_eval_state (bvf\<lparr>bvf_evin := Some node\<rparr>) node
                  else Some (bvf\<lparr>bvf_evin := Some node\<rparr>, 0));
     (b2, rc2) \<leftarrow> (if rc = 0
        then do {
          r \<leftarrow> run_eval (chk_eval (ins_chk_at (code x))) b1 node x;
          Some (case r of Inl e \<Rightarrow> (bpf_log b1 (Log e [node]), - EINVAL) | Inr b \<Rightarrow> (b, 0)) }
        else Some (b1, rc));
     Some (b2\<lparr>bvf_evin := None\<rparr>, rc2) }"

text \<open>Going on: the node to go to (\<open>None\<close> at the end), and whether it is a new one to evaluate.\<close>

definition eval_proceed :: "bpf_verifier \<Rightarrow> nat \<Rightarrow> (bpf_verifier \<times> nat option \<times> bool) option" where
  "eval_proceed bvf node = do {
     (b1, next) \<leftarrow> get_next_node bvf node;
     nd \<leftarrow> get_node b1 node;
     (case next of
        Some d \<Rightarrow> do {
          b2 \<leftarrow> (if cur_edge nd = nb_edge nd \<and> node_evst nd \<noteq> None
                 then restore_eval_state b1 node else Some b1);
          nx \<leftarrow> get_node b2 d;
          b3 \<leftarrow> put_node b2 d (nx\<lparr>prev_node := get_node_idx node\<rparr>);
          Some (b3, Some d, True) }
      | None \<Rightarrow> do {
          b2 \<leftarrow> put_node b1 node (nd\<lparr>cur_edge := 0\<rparr>);
          p \<leftarrow> get_prev_node b2 node;
          Some (b2, if p = 0 then None else Some p, False) }) }"

text \<open>\<open>while (node != NULL && rc == 0)\<close>; \<open>new\<close> is \<open>next != NULL\<close>.\<close>

definition eval_turn :: "bpf_verifier \<Rightarrow> nat \<Rightarrow> bool \<Rightarrow> (bpf_verifier \<times> nat option \<times> bool \<times> u32) option" where
  "eval_turn bvf node new = do {
     (b1, rc) \<leftarrow> (if new then eval_node bvf node else Some (bvf, 0));
     (b2, node', new') \<leftarrow> eval_proceed b1 node;
     Some (b2, node', new', rc) }"

partial_function (option) eval_loop ::
  "bpf_verifier \<Rightarrow> nat option \<Rightarrow> bool \<Rightarrow> u32 \<Rightarrow> (bpf_verifier \<times> u32) option" where
  "eval_loop bvf nopt new rc =
     (case nopt of
        None \<Rightarrow> Some (bvf, rc)
      | Some node \<Rightarrow>
          if rc \<noteq> 0 then Some (bvf, rc)
          else Option.bind (eval_turn bvf node new)
                 (\<lambda>(b, node', new', rc'). eval_loop b node' new' rc'))"

declare eval_loop.simps [code]

definition evaluate :: "bpf_verifier \<Rightarrow> (bpf_verifier \<times> u32) option" where
  "evaluate bvf = do {
     st \<leftarrow> get_evst bvf;
     st1 \<leftarrow> eval_start (prog_arg (bvf_prm bvf)) st;
     b \<leftarrow> put_evst bvf st1;
     eval_loop b (Some 0) True 0 }"

section \<open>bpf\_validate\<close>

definition stack_with_ldmb :: "u32 \<Rightarrow> u32 \<Rightarrow> u32" where
  "stack_with_ldmb n ldmb =
     (if ldmb \<noteq> 0 then ucast ((ucast n + 8 + 7 :: u64) AND NOT 7) else n)"

text \<open>The result is the return code and the program with its stack size set.\<close>

definition bpf_validate :: "bool \<Rightarrow> bool \<Rightarrow> rte_bpf \<Rightarrow> (u32 \<times> rte_bpf) option" where
  "bpf_validate in_ok pool_ok bpf =
     (let t = arg_type (prog_arg (prm bpf)) in
      if t \<noteq> RTE_BPF_ARG_RAW \<and> t \<noteq> RTE_BPF_ARG_PTR \<and> t \<noteq> RTE_BPF_ARG_PTR_MBUF
      then Some (- ENOTSUP, bpf)
      else if \<not> in_ok then Some (- ENOMEM, bpf)
      else do {
        (b1, rc) \<leftarrow> validate (bvf_init (prm bpf));
        (b2, rc2) \<leftarrow> (if rc = 0
           then case evst_pool_init pool_ok b1 of
                  (b, rc1) \<Rightarrow> do {
                    (b', rc') \<leftarrow> (if rc1 = 0 then evaluate b else Some (b, rc1));
                    Some (evst_pool_fini b', rc') }
           else Some (b1, rc));
        Some (rc2, if rc2 = 0
                   then bpf\<lparr>stack_sz := stack_with_ldmb (ucast (bvf_stack_sz b2)) (nb_ldmb_nodes b2)\<rparr>
                   else bpf) })"

end
