(* ===== verification/BPF_Load.thy ===== *)
theory BPF_Load
  imports BPF_Validate
begin

text \<open>
  Loading and destroying a program: \<open>lib/bpf/bpf_load.c\<close> and \<open>lib/bpf/bpf.c\<close>. The operating
  system's \<open>mmap\<close> and \<open>mprotect\<close>, the allocator and the JIT compilers are parameters (the record
  \<open>os\<close>); the state is the list of the mappings that exist.
\<close>

section \<open>The environment\<close>

type_synonym maps = "(u64 \<times> u64) list"

text \<open>
  \<open>os_mmap n\<close> is the address of a new mapping of \<open>n\<close> bytes, \<open>None\<close> when the call fails; \<open>os_jit\<close>
  is the code a JIT compiler maps for a program and its size, \<open>None\<close> when it fails. A JIT compiler
  that succeeds has mapped its code at an address that is not null.
\<close>

record os =
  os_mmap :: "u64 \<Rightarrow> u64 option"
  os_in_ok :: bool
  os_pool_ok :: bool
  os_jit :: "rte_bpf \<Rightarrow> (u64 \<times> u64) option"
  os_mprotect_ok :: bool

definition munmap :: "maps \<Rightarrow> u64 \<Rightarrow> u64 \<Rightarrow> maps" where "munmap ms a n = remove1 (a, n) ms"

section \<open>bpf.c\<close>

text \<open>\<open>rte_bpf_destroy\<close> of the program at \<open>addr\<close>; the null pointer is \<open>None\<close>.\<close>

definition rte_bpf_destroy :: "maps \<Rightarrow> (u64 \<times> rte_bpf) option \<Rightarrow> maps" where
  "rte_bpf_destroy ms p =
     (case p of
        None \<Rightarrow> ms
      | Some (addr, bpf) \<Rightarrow>
          let ms1 = (if jit_func bpf \<noteq> 0 then munmap ms (jit_func bpf) (jit_sz bpf) else ms)
          in munmap ms1 addr (sz bpf))"

definition rte_bpf_get_jit :: "rte_bpf option \<Rightarrow> bool \<Rightarrow> u32 \<times> (u64 \<times> u64) option" where
  "rte_bpf_get_jit bpf jit_ptr =
     (case bpf of
        None \<Rightarrow> (- EINVAL, None)
      | Some b \<Rightarrow> if \<not> jit_ptr then (- EINVAL, None) else (0, Some (jit_func b, jit_sz b)))"

definition bpf_jit :: "os \<Rightarrow> maps \<Rightarrow> rte_bpf \<Rightarrow> maps \<times> rte_bpf" where
  "bpf_jit e ms bpf =
     (case os_jit e bpf of
        None \<Rightarrow> (ms, bpf)
      | Some (f, n) \<Rightarrow> ((f, n) # ms, bpf\<lparr>jit_func := f, jit_sz := n\<rparr>))"

section \<open>bpf\_load.c\<close>

text \<open>\<open>sizeof\<close> of \<open>struct rte_bpf\<close>, \<open>struct rte_bpf_xsym\<close> and \<open>struct ebpf_insn\<close>.\<close>

definition load_size :: "rte_bpf_prm \<Rightarrow> u64" where
  "load_size p = ucast (nb_ins p) * 8 + ucast (nb_xsym p) * 176 + 88"

definition bpf_load :: "os \<Rightarrow> maps \<Rightarrow> rte_bpf_prm \<Rightarrow> maps \<times> (u64 \<times> rte_bpf) option" where
  "bpf_load e ms p =
     (case os_mmap e (load_size p) of
        None \<Rightarrow> (ms, None)
      | Some a \<Rightarrow> ((a, load_size p) # ms,
          Some (a, \<lparr>prm = p, jit_func = 0, jit_sz = 0, sz = load_size p, stack_sz = 0\<rparr>)))"

fun check_xfunc_args :: "nat \<Rightarrow> nat \<Rightarrow> rte_bpf_arg list \<Rightarrow> u32 option" where
  "check_xfunc_args 0 k args = Some 0"
| "check_xfunc_args (Suc n) k args = do {
     a \<leftarrow> nth_opt args k;
     (if arg_type a = RTE_BPF_ARG_UNDEF then Some (- EINVAL) else check_xfunc_args n (k + 1) args) }"

definition bpf_check_xsym :: "rte_bpf_xsym \<Rightarrow> u32 option" where
  "bpf_check_xsym x =
     (if xsym_name x = None then Some (- EINVAL)
      else case xsym_body x of
        RTE_BPF_XTYPE_VAR _ d \<Rightarrow> Some (if arg_type d = RTE_BPF_ARG_UNDEF then - EINVAL else 0)
      | RTE_BPF_XTYPE_FUNC _ nb_args args ret \<Rightarrow>
          if nb_args > of_nat EBPF_FUNC_MAX_ARGS then Some (- EINVAL)
          else do {
            rc \<leftarrow> check_xfunc_args (unat nb_args) 0 args;
            Some (if rc \<noteq> 0 then rc
                  else if arg_type ret \<noteq> RTE_BPF_ARG_UNDEF \<and> arg_size ret = 0 then - EINVAL
                  else 0) }
      | XTYPE_OTHER \<Rightarrow> Some (- EINVAL))"

fun check_xsyms :: "rte_bpf_xsym list \<Rightarrow> u32 option" where
  "check_xsyms [] = Some 0"
| "check_xsyms (x # xs) = do {
     rc \<leftarrow> bpf_check_xsym x;
     (if rc \<noteq> 0 then Some rc else check_xsyms xs) }"

text \<open>
  \<open>rte_bpf_load\<close>: \<open>Inl\<close> is the null pointer with \<open>rte_errno\<close>. \<open>ins_ptr\<close> and \<open>xsym_ptr\<close> say whether
  the pointers to the two arrays are not null.
\<close>

definition rte_bpf_load ::
  "os \<Rightarrow> maps \<Rightarrow> rte_bpf_prm option \<Rightarrow> bool \<Rightarrow> bool \<Rightarrow> (maps \<times> (u32 + u64 \<times> rte_bpf)) option" where
  "rte_bpf_load e ms prmo ins_ptr xsym_ptr =
     (case prmo of
        None \<Rightarrow> Some (ms, Inl EINVAL)
      | Some p \<Rightarrow>
          if \<not> ins_ptr \<or> (nb_xsym p \<noteq> 0 \<and> \<not> xsym_ptr) then Some (ms, Inl EINVAL)
          else do {
            rc \<leftarrow> check_xsyms (xsym p);
            (if rc \<noteq> 0 then Some (ms, Inl (- rc))
             else case bpf_load e ms p of
                    (ms1, None) \<Rightarrow> Some (ms1, Inl ENOMEM)
                  | (ms1, Some (a, bpf)) \<Rightarrow> do {
                      (rc1, bpf1) \<leftarrow> bpf_validate (os_in_ok e) (os_pool_ok e) bpf;
                      (ms2, bpf2, rc2) \<leftarrow> Some (if rc1 = 0
                        then case bpf_jit e ms1 bpf1 of
                               (ms', b) \<Rightarrow> (ms', b, if os_mprotect_ok e then 0 else - ENOMEM)
                        else (ms1, bpf1, rc1));
                      Some (if rc2 \<noteq> 0
                            then (rte_bpf_destroy ms2 (Some (a, bpf2)), Inl (- rc2))
                            else (ms2, Inr (a, bpf2))) }) })"

section \<open>Ownership of the mappings\<close>

lemma bpf_validate_frame:
  assumes "bpf_validate io po bpf = Some (rc, bpf')"
  shows "bpf' = bpf\<lparr>stack_sz := stack_sz bpf'\<rparr>"
  using assms
  by (auto simp: bpf_validate_def Let_def split: if_splits bind_splits prod.splits)

lemma bpf_load_Some:
  assumes "bpf_load e ms p = (ms1, Some (a, bpf))"
  shows "ms1 = (a, load_size p) # ms" and "sz bpf = load_size p" and "jit_func bpf = 0"
    and "prm bpf = p"
  using assms by (auto simp: bpf_load_def split: option.splits)

lemma bpf_load_None: "bpf_load e ms p = (ms1, None) \<Longrightarrow> ms1 = ms"
  by (auto simp: bpf_load_def split: option.splits)

text \<open>The mappings of a program: its own first, then its code's.\<close>

definition owns :: "maps \<Rightarrow> maps \<Rightarrow> u64 \<Rightarrow> rte_bpf \<Rightarrow> bool" where
  "owns ms' ms a bpf =
     (ms' = (if jit_func bpf \<noteq> 0 then [(jit_func bpf, jit_sz bpf)] else []) @ (a, sz bpf) # ms)"

lemma destroy_owned: "owns ms' ms a bpf \<Longrightarrow> rte_bpf_destroy ms' (Some (a, bpf)) = ms"
  by (auto simp: owns_def rte_bpf_destroy_def munmap_def Let_def)

lemma owns_load: "bpf_load e ms p = (ms1, Some (a, bpf)) \<Longrightarrow> jit_func bpf = 0 \<and> owns ms1 ms a bpf"
  by (auto simp: bpf_load_def owns_def split: option.splits)

lemma owns_validate:
  assumes "bpf_validate io po bpf = Some (rc, bpf')" "jit_func bpf = 0 \<and> owns ms1 ms a bpf"
  shows "jit_func bpf' = 0 \<and> owns ms1 ms a bpf'"
  using assms(2) by (subst (1 2) bpf_validate_frame [OF assms(1)]) (simp add: owns_def)

lemma owns_jit:
  assumes "bpf_jit e ms1 bpf = (ms2, bpf2)" "jit_func bpf = 0 \<and> owns ms1 ms a bpf"
    and "\<And>b f n. os_jit e b = Some (f, n) \<Longrightarrow> f \<noteq> 0"
  shows "owns ms2 ms a bpf2"
  using assms by (auto simp: bpf_jit_def owns_def split: option.splits)

text \<open>
  C33: a call of \<open>rte_bpf_load\<close> that fails leaves the process with exactly the mappings it had, and
  one that succeeds is undone by \<open>rte_bpf_destroy\<close>.
\<close>

theorem rte_bpf_load_no_leak:
  assumes load: "rte_bpf_load e ms prmo ip xp = Some (ms', r)"
    and jit: "\<And>b f n. os_jit e b = Some (f, n) \<Longrightarrow> f \<noteq> 0"
  shows "case r of Inl errno \<Rightarrow> ms' = ms | Inr p \<Rightarrow> rte_bpf_destroy ms' (Some p) = ms"
proof (cases "\<exists>p. prmo = Some p \<and> ip \<and> (nb_xsym p = 0 \<or> xp) \<and> check_xsyms (xsym p) = Some 0")
  case False
  then show ?thesis using load
    by (auto simp: rte_bpf_load_def split: option.splits if_splits bind_splits)
next
  case True
  then obtain p where p: "prmo = Some p" "ip" "nb_xsym p = 0 \<or> xp" "check_xsyms (xsym p) = Some 0"
    by blast
  obtain ms1 q where l: "bpf_load e ms p = (ms1, q)" by fastforce
  show ?thesis
  proof (cases q)
    case None
    then show ?thesis
      using load p l bpf_load_None [of e ms p ms1] by (auto simp: rte_bpf_load_def)
  next
    case (Some ab)
    obtain a bpf where ab: "ab = (a, bpf)" by fastforce
    obtain rc1 bpf1 where v: "bpf_validate (os_in_ok e) (os_pool_ok e) bpf = Some (rc1, bpf1)"
      using load p l Some ab by (auto simp: rte_bpf_load_def split: bind_splits)
    have o1: "jit_func bpf1 = 0 \<and> owns ms1 ms a bpf1"
      using owns_validate [OF v] owns_load l Some ab by blast
    obtain ms2 bpf2 where j: "bpf_jit e ms1 bpf1 = (ms2, bpf2)" by fastforce
    have o2: "owns ms2 ms a bpf2" using owns_jit [OF j o1] jit by blast
    show ?thesis
      using load p l Some ab v j o1 destroy_owned [OF o2] destroy_owned [of ms1 ms a bpf1]
      by (cases "rc1 = 0") (auto simp: rte_bpf_load_def split: if_splits)
  qed
qed

text \<open>An environment in which everything but the JIT compiler succeeds.\<close>

definition os_plain :: os where
  "os_plain = \<lparr>os_mmap = (\<lambda>_. Some 0x7000), os_in_ok = True, os_pool_ok = True,
     os_jit = (\<lambda>_. None), os_mprotect_ok = True\<rparr>"

definition prm_exit :: rte_bpf_prm where
  "prm_exit = prm (bpf_of raw_arg [mk_insn 0xb7 0 0 0 0, mk_insn 0x95 0 0 0 0])"

theorem rte_bpf_load_no_leak_witness:
  "\<exists>ms' p. rte_bpf_load os_plain [(1, 2)] (Some prm_exit) True True = Some (ms', Inr p) \<and>
     rte_bpf_destroy ms' (Some p) = [(1, 2)]"
proof -
  have "(case rte_bpf_load os_plain [(1, 2)] (Some prm_exit) True True of
      Some (_, Inr _) \<Rightarrow> True | _ \<Rightarrow> False)" by code_simp
  then obtain ms' p where l: "rte_bpf_load os_plain [(1, 2)] (Some prm_exit) True True = Some (ms', Inr p)"
    by (auto split: option.splits sum.splits) (metis old.sum.exhaust surj_pair)
  have "f \<noteq> 0" if "os_jit os_plain b = Some (f, n)" for b f n using that by (simp add: os_plain_def)
  from rte_bpf_load_no_leak [OF l this] show ?thesis using l by auto
qed

end
