(* ===== verification/BPF_Convert.thy ===== *)
theory BPF_Convert
  imports BPF_State Mbuf_Read
begin

text \<open>
  The converter from classic BPF (\<open>lib/bpf/bpf_convert.c\<close>). The classic instruction
  \<open>struct bpf_insn\<close> and a few constants come from libpcap, which is not part of the sources: the
  record \<open>pcap\<close> holds them as a parameter. \<open>None\<close> is undefined behaviour (a write outside the new
  program, memory of one allocator given to another) or a failed assertion.
\<close>

section \<open>libpcap's definitions\<close>

record pcap =
  PC_A :: u16           \<comment> \<open>\<open>BPF_A\<close>\<close>
  PC_TAX :: u16         \<comment> \<open>\<open>BPF_TAX\<close>\<close>
  PC_TXA :: u16         \<comment> \<open>\<open>BPF_TXA\<close>\<close>
  PC_MEMWORDS :: u32    \<comment> \<open>\<open>BPF_MEMWORDS\<close>\<close>
  PC_RVAL :: "u16 \<Rightarrow> u16" \<comment> \<open>\<open>BPF_RVAL\<close>\<close>

record bpf_insn =
  c_code :: u16
  c_jt :: u8
  c_jf :: u8
  c_k :: u32

abbreviation (input) BPF_MAXINSNS :: nat where "BPF_MAXINSNS \<equiv> 4096"

section \<open>Registers and instruction macros\<close>

abbreviation (input) BPF_REG_ARG1 :: "4 word" where "BPF_REG_ARG1 \<equiv> 1"
abbreviation (input) BPF_REG_CTX :: "4 word" where "BPF_REG_CTX \<equiv> 6"
abbreviation (input) BPF_REG_FP :: "4 word" where "BPF_REG_FP \<equiv> 10"
abbreviation (input) BPF_REG_A :: "4 word" where "BPF_REG_A \<equiv> 0"
abbreviation (input) BPF_REG_X :: "4 word" where "BPF_REG_X \<equiv> 7"
abbreviation (input) BPF_REG_TMP :: "4 word" where "BPF_REG_TMP \<equiv> 8"

definition EBPF_ALU64_REG :: "u8 \<Rightarrow> 4 word \<Rightarrow> 4 word \<Rightarrow> ebpf_insn" where
  "EBPF_ALU64_REG op d s = mk_insn (EBPF_ALU64 OR BPF_OP op OR BPF_X) d s 0 0"

definition BPF_ALU32_REG :: "u8 \<Rightarrow> 4 word \<Rightarrow> 4 word \<Rightarrow> ebpf_insn" where
  "BPF_ALU32_REG op d s = mk_insn (BPF_ALU OR BPF_OP op OR BPF_X) d s 0 0"

definition BPF_ALU32_IMM :: "u8 \<Rightarrow> 4 word \<Rightarrow> u32 \<Rightarrow> ebpf_insn" where
  "BPF_ALU32_IMM op d im = mk_insn (BPF_ALU OR BPF_OP op OR BPF_K) d 0 0 im"

definition BPF_MOV64_REG :: "4 word \<Rightarrow> 4 word \<Rightarrow> ebpf_insn" where
  "BPF_MOV64_REG d s = mk_insn (EBPF_ALU64 OR EBPF_MOV OR BPF_X) d s 0 0"

definition BPF_MOV32_REG :: "4 word \<Rightarrow> 4 word \<Rightarrow> ebpf_insn" where
  "BPF_MOV32_REG d s = mk_insn (BPF_ALU OR EBPF_MOV OR BPF_X) d s 0 0"

definition BPF_MOV32_IMM :: "4 word \<Rightarrow> u32 \<Rightarrow> ebpf_insn" where
  "BPF_MOV32_IMM d im = mk_insn (BPF_ALU OR EBPF_MOV OR BPF_K) d 0 0 im"

definition BPF_MOV32_RAW :: "u8 \<Rightarrow> 4 word \<Rightarrow> 4 word \<Rightarrow> u32 \<Rightarrow> ebpf_insn" where
  "BPF_MOV32_RAW t d s im = mk_insn (BPF_ALU OR EBPF_MOV OR BPF_SRC t) d s 0 im"

definition BPF_LD_ABS_INSN :: "u8 \<Rightarrow> u32 \<Rightarrow> ebpf_insn" where
  "BPF_LD_ABS_INSN w im = mk_insn (BPF_LD OR BPF_SIZE w OR BPF_ABS) 0 0 0 im"

definition BPF_LDX_MEM :: "u8 \<Rightarrow> 4 word \<Rightarrow> 4 word \<Rightarrow> u16 \<Rightarrow> ebpf_insn" where
  "BPF_LDX_MEM w d s o' = mk_insn (BPF_LDX OR BPF_SIZE w OR BPF_MEM) d s o' 0"

definition BPF_STX_MEM :: "u8 \<Rightarrow> 4 word \<Rightarrow> 4 word \<Rightarrow> u16 \<Rightarrow> ebpf_insn" where
  "BPF_STX_MEM w d s o' = mk_insn (BPF_STX OR BPF_SIZE w OR BPF_MEM) d s o' 0"

definition BPF_JMP_IMM :: "u8 \<Rightarrow> 4 word \<Rightarrow> u32 \<Rightarrow> u16 \<Rightarrow> ebpf_insn" where
  "BPF_JMP_IMM op d im o' = mk_insn (BPF_JMP OR BPF_OP op OR BPF_K) d 0 o' im"

definition BPF_EXIT_INSN :: ebpf_insn where
  "BPF_EXIT_INSN = mk_insn (BPF_JMP OR EBPF_EXIT) 0 0 0 0"

section \<open>One instruction\<close>

text \<open>\<open>convert_bpf_load\<close>: the offsets of ancillary data, which are refused.\<close>

definition convert_bpf_load :: "bpf_insn \<Rightarrow> bool" where
  "convert_bpf_load fp =
     (c_k fp \<in> set (map (\<lambda>ad. - 0x1000 + ad)
        [0, 4, 8, 28, 20, 32, 24, 44, 48, 60, 52, 12, 16, 36, 56, 40]))"

text \<open>
  \<open>BPF_EMIT_JMP\<close>: the offset of a jump to the classic instruction \<open>target\<close> from place \<open>j\<close> in
  the translation of instruction \<open>i\<close>; \<open>None\<close> is \<open>goto err\<close>. \<open>addrs\<close> is the null pointer while
  the length is computed.
\<close>

definition emit_jmp :: "nat list option \<Rightarrow> nat \<Rightarrow> nat \<Rightarrow> nat \<Rightarrow> nat \<Rightarrow> u16 option" where
  "emit_jmp addrs len i target j =
     (if target \<ge> len then None
      else Some ((case addrs of
                    None \<Rightarrow> 0
                  | Some a \<Rightarrow> word_of_int (int (a ! target) - int (a ! i) - 1)) - of_nat j))"

text \<open>The arithmetic instructions and the indirect loads, which map as they are.\<close>

definition arith_insn :: "bpf_insn \<Rightarrow> ebpf_insn" where
  "arith_insn fp =
     (let c = ucast (c_code fp) :: u8
      in mk_insn c BPF_REG_A (if BPF_SRC c = BPF_X then BPF_REG_X else 0) 0 (c_k fp))"

definition divmod_x_codes :: "u8 list" where
  "divmod_x_codes = [BPF_ALU OR BPF_DIV OR BPF_X, BPF_ALU OR BPF_MOD OR BPF_X]"

definition arith_codes :: "u8 list" where
  "arith_codes = [
     BPF_ALU OR BPF_ADD OR BPF_X, BPF_ALU OR BPF_ADD OR BPF_K, BPF_ALU OR BPF_SUB OR BPF_X,
     BPF_ALU OR BPF_SUB OR BPF_K, BPF_ALU OR BPF_AND OR BPF_X, BPF_ALU OR BPF_AND OR BPF_K,
     BPF_ALU OR BPF_OR OR BPF_X, BPF_ALU OR BPF_OR OR BPF_K, BPF_ALU OR BPF_LSH OR BPF_X,
     BPF_ALU OR BPF_LSH OR BPF_K, BPF_ALU OR BPF_RSH OR BPF_X, BPF_ALU OR BPF_RSH OR BPF_K,
     BPF_ALU OR BPF_XOR OR BPF_X, BPF_ALU OR BPF_XOR OR BPF_K, BPF_ALU OR BPF_MUL OR BPF_X,
     BPF_ALU OR BPF_MUL OR BPF_K, BPF_ALU OR BPF_DIV OR BPF_K, BPF_ALU OR BPF_MOD OR BPF_K,
     BPF_ALU OR BPF_NEG, BPF_LD OR BPF_IND OR BPF_W, BPF_LD OR BPF_IND OR BPF_H,
     BPF_LD OR BPF_IND OR BPF_B]"

definition jump_codes :: "u8 list" where
  "jump_codes = [
     BPF_JMP OR BPF_JEQ OR BPF_K, BPF_JMP OR BPF_JEQ OR BPF_X, BPF_JMP OR BPF_JSET OR BPF_K,
     BPF_JMP OR BPF_JSET OR BPF_X, BPF_JMP OR BPF_JGT OR BPF_K, BPF_JMP OR BPF_JGT OR BPF_X,
     BPF_JMP OR BPF_JGE OR BPF_K, BPF_JMP OR BPF_JGE OR BPF_X]"

text \<open>
  A conditional jump: the instructions before it (\<open>pre\<close>), then one jump or two. A field that no
  statement sets has the zero of \<open>tmp_insns\<close>.
\<close>

definition conv_jump :: "nat list option \<Rightarrow> nat \<Rightarrow> nat \<Rightarrow> bpf_insn \<Rightarrow> ebpf_insn list option" where
  "conv_jump addrs len i fp =
     (let c = ucast (c_code fp) :: u8;
          neg = (BPF_SRC c = BPF_K \<and> c_k fp <s 0);
          pre = (if neg then [BPF_MOV32_IMM BPF_REG_TMP (c_k fp)] else []);
          bpf_src = (if neg then BPF_X else BPF_SRC c);
          src = (if neg then BPF_REG_TMP else if bpf_src = BPF_X then BPF_REG_X else 0);
          im = (if neg then 0 else c_k fp);
          j = length pre;
          tt = i + unat (c_jt fp) + 1;
          tf = i + unat (c_jf fp) + 1
      in if c_jf fp = 0 then do {
           o' \<leftarrow> emit_jmp addrs len i tt j;
           Some (pre @ [mk_insn (BPF_JMP OR BPF_OP c OR bpf_src) BPF_REG_A src o' im]) }
         else if c_jt fp = 0 \<and> BPF_OP c = BPF_JEQ then do {
           o' \<leftarrow> emit_jmp addrs len i tf j;
           Some (pre @ [mk_insn (BPF_JMP OR EBPF_JNE OR bpf_src) BPF_REG_A src o' im]) }
         else do {
           o1 \<leftarrow> emit_jmp addrs len i tt j;
           o2 \<leftarrow> emit_jmp addrs len i tf (j + 1);
           Some (pre @ [mk_insn (BPF_JMP OR BPF_OP c OR bpf_src) BPF_REG_A src o1 im,
                        mk_insn (BPF_JMP OR BPF_JA) 0 0 o2 0]) })"

text \<open>\<open>-(BPF_MEMWORDS - fp->k) * 4\<close>\<close>

definition mem_off :: "pcap \<Rightarrow> bpf_insn \<Rightarrow> u16" where
  "mem_off pc fp = ucast (- (PC_MEMWORDS pc - c_k fp) * 4)"

text \<open>The \<open>switch (fp->code)\<close>. \<open>cls\<close> is \<open>BPF_CLASS(fp->code)\<close>.\<close>

definition conv_insn :: "pcap \<Rightarrow> nat list option \<Rightarrow> nat \<Rightarrow> nat \<Rightarrow> bpf_insn \<Rightarrow> ebpf_insn list option" where
  "conv_insn pc addrs len i fp =
     (let w = c_code fp; c = ucast w :: u8; k = c_k fp;
          is = (\<lambda>x::u8. w = ucast x);
          ax = (\<lambda>ld. if BPF_CLASS c = ld then BPF_REG_A else BPF_REG_X)
      in if is (BPF_LD OR BPF_ABS OR BPF_W) \<or> is (BPF_LD OR BPF_ABS OR BPF_H) \<or>
            is (BPF_LD OR BPF_ABS OR BPF_B)
         then if convert_bpf_load fp then None else Some [mk_insn c 0 0 0 k]
         else if w \<in> ucast ` set divmod_x_codes
         then Some [BPF_MOV32_REG BPF_REG_X BPF_REG_X, BPF_JMP_IMM EBPF_JNE BPF_REG_X 0 2,
                    BPF_ALU32_REG BPF_XOR BPF_REG_A BPF_REG_A, BPF_EXIT_INSN, arith_insn fp]
         else if w \<in> ucast ` set arith_codes then Some [arith_insn fp]
         else if is (BPF_JMP OR BPF_JA)
         then do { o' \<leftarrow> emit_jmp addrs len i (i + unat k + 1) 0; Some [mk_insn c 0 0 o' 0] }
         else if w \<in> ucast ` set jump_codes then conv_jump addrs len i fp
         else if is (BPF_LDX OR BPF_MSH OR BPF_B)
         then Some [BPF_MOV64_REG BPF_REG_TMP BPF_REG_A, BPF_LD_ABS_INSN BPF_B k,
                    BPF_ALU32_IMM BPF_AND BPF_REG_A 0xf, BPF_ALU32_IMM BPF_LSH BPF_REG_A 2,
                    BPF_MOV64_REG BPF_REG_X BPF_REG_A, BPF_MOV64_REG BPF_REG_A BPF_REG_TMP]
         else if w = ucast BPF_RET OR PC_A pc \<or> is (BPF_RET OR BPF_K)
         then Some ((if PC_RVAL pc w = ucast BPF_K then [BPF_MOV32_RAW BPF_K 0 0 k] else [])
                    @ [BPF_EXIT_INSN])
         else if is BPF_ST \<or> is BPF_STX
         then Some [BPF_STX_MEM BPF_W BPF_REG_FP (ax BPF_ST) (mem_off pc fp)]
         else if is (BPF_LD OR BPF_MEM) \<or> is (BPF_LDX OR BPF_MEM)
         then Some [BPF_LDX_MEM BPF_W (ax BPF_LD) BPF_REG_FP (mem_off pc fp)]
         else if is (BPF_LD OR BPF_IMM) \<or> is (BPF_LDX OR BPF_IMM)
         then Some [BPF_MOV32_IMM (ax BPF_LD) k]
         else if w = ucast BPF_MISC OR PC_TAX pc then Some [BPF_MOV64_REG BPF_REG_X BPF_REG_A]
         else if w = ucast BPF_MISC OR PC_TXA pc then Some [BPF_MOV64_REG BPF_REG_A BPF_REG_X]
         else if is (BPF_LD OR BPF_W OR BPF_LEN) \<or> is (BPF_LDX OR BPF_W OR BPF_LEN)
         then Some [BPF_LDX_MEM BPF_W (ax BPF_LD) BPF_REG_CTX (ucast MBUF_PKT_LEN)]
         else None)"

section \<open>The passes\<close>

text \<open>A write of \<open>xs\<close> at \<open>pos\<close> of the new program, if there is one.\<close>

definition emit :: "ebpf_insn list option \<Rightarrow> nat \<Rightarrow> ebpf_insn list \<Rightarrow> ebpf_insn list option option" where
  "emit buf pos xs =
     (case buf of
        None \<Rightarrow> Some None
      | Some b \<Rightarrow>
          if pos + length xs \<le> length b
          then Some (Some (take pos b @ xs @ drop (pos + length xs) b)) else None)"

definition prologue :: "ebpf_insn list" where
  "prologue = [EBPF_ALU64_REG BPF_XOR BPF_REG_A BPF_REG_A, EBPF_ALU64_REG BPF_XOR BPF_REG_X BPF_REG_X,
     BPF_MOV64_REG BPF_REG_CTX BPF_REG_ARG1]"

text \<open>The loop over the classic instructions; \<open>Some None\<close> is \<open>goto err\<close>.\<close>

fun conv_loop ::
  "pcap \<Rightarrow> nat \<Rightarrow> bpf_insn list \<Rightarrow> nat \<Rightarrow> nat list option \<Rightarrow> ebpf_insn list option \<Rightarrow> nat
   \<Rightarrow> (nat list option \<times> ebpf_insn list option \<times> nat) option option" where
  "conv_loop pc len [] i addrs buf pos = Some (Some (addrs, buf, pos))"
| "conv_loop pc len (fp # fps) i addrs buf pos =
     (let addrs1 = map_option (\<lambda>a. a[i := pos]) addrs in
      case conv_insn pc addrs1 len i fp of
        None \<Rightarrow> Some None
      | Some xs \<Rightarrow> do {
          buf1 \<leftarrow> emit buf pos xs;
          conv_loop pc len fps (i + 1) addrs1 buf1 (pos + length xs) })"

definition conv_pass ::
  "pcap \<Rightarrow> bpf_insn list \<Rightarrow> nat list option \<Rightarrow> ebpf_insn list option
   \<Rightarrow> (nat list option \<times> ebpf_insn list option \<times> nat) option option" where
  "conv_pass pc prog addrs buf = do {
     buf1 \<leftarrow> emit buf 0 prologue;
     conv_loop pc (length prog) prog 0 addrs buf1 3 }"

text \<open>
  The passes over an allocated program, while the length changes: \<open>left\<close> counts those allowed by
  \<open>pass > 2\<close>. The result is the return code and the program.
\<close>

fun conv_passes ::
  "nat \<Rightarrow> pcap \<Rightarrow> bpf_insn list \<Rightarrow> nat list option \<Rightarrow> ebpf_insn list option \<Rightarrow> nat
   \<Rightarrow> (u32 \<times> ebpf_insn list option \<times> nat) option" where
  "conv_passes 0 pc prog addrs buf new_flen = Some (- 1, buf, new_flen)"
| "conv_passes (Suc left) pc prog addrs buf new_flen = do {
     r \<leftarrow> conv_pass pc prog addrs buf;
     (case r of
        None \<Rightarrow> Some (- 1, buf, new_flen)
      | Some (addrs1, buf1, pos) \<Rightarrow>
          if new_flen \<noteq> pos then conv_passes left pc prog addrs1 buf1 pos
          else Some (0, buf1, new_flen)) }"

text \<open>
  \<open>bpf_convert_filter\<close>: the return code, the new program and \<open>*new_len\<close>. \<open>alloc_ok\<close> says whether
  the allocation of \<open>addrs\<close> succeeds.
\<close>

definition bpf_convert_filter ::
  "pcap \<Rightarrow> bool \<Rightarrow> bpf_insn list \<Rightarrow> ebpf_insn list option \<Rightarrow> nat
   \<Rightarrow> (u32 \<times> ebpf_insn list option \<times> nat) option" where
  "bpf_convert_filter pc alloc_ok prog new_prog new_len =
     (if length prog > BPF_MAXINSNS then Some (- EINVAL, new_prog, new_len)
      else case new_prog of
        None \<Rightarrow> do {
          r \<leftarrow> conv_pass pc prog None None;
          Some (case r of None \<Rightarrow> (- 1, None, new_len) | Some (_, _, pos) \<Rightarrow> (0, None, pos)) }
      | Some buf \<Rightarrow>
          if \<not> alloc_ok then Some (- ENOMEM, new_prog, new_len)
          else do {
            (rc, buf1, new_flen) \<leftarrow>
              conv_passes 3 pc prog (Some (replicate (length prog) 0)) (Some buf) 0;
            (if rc = 0 \<and> new_len \<noteq> new_flen then None else Some (rc, buf1, new_len)) })"

text \<open>
  \<open>rte_bpf_convert\<close>: \<open>Inl\<close> is the null pointer with \<open>rte_errno\<close>. The memory of \<open>rte_zmalloc\<close> is given
  to \<open>free\<close> when the second call fails, which is undefined.
\<close>

definition rte_bpf_convert ::
  "pcap \<Rightarrow> bool \<Rightarrow> bool \<Rightarrow> bpf_insn list option \<Rightarrow> (u32 + rte_bpf_prm) option" where
  "rte_bpf_convert pc zmalloc_ok alloc_ok prog =
     (case prog of
        None \<Rightarrow> Some (Inl EINVAL)
      | Some insns \<Rightarrow> do {
          (ret, _, ebpf_len) \<leftarrow> bpf_convert_filter pc alloc_ok insns None 0;
          (if ret <s 0 then Some (Inl (- ret))
           else if \<not> zmalloc_ok then Some (Inl ENOMEM)
           else do {
             (ret2, ebpf, n) \<leftarrow> bpf_convert_filter pc alloc_ok insns
                (Some (replicate ebpf_len (mk_insn 0 0 0 0 0))) ebpf_len;
             (if ret2 <s 0 then None
              else do {
                xs \<leftarrow> ebpf;
                Some (Inr \<lparr>ins = xs, xsym = [],
                  prog_arg = \<lparr>arg_type = RTE_BPF_ARG_PTR_MBUF, arg_size = MBUF_SIZEOF, arg_buf_size = 0\<rparr>\<rparr>) }) }) })"

end
