(* ===== verification/BPF_Cfg_Build.thy ===== *)
theory BPF_Cfg_Build
  imports BPF_Cfg
begin

text \<open>
  What the first pass builds: after a loop over the instructions that reports no error, every
  instruction head has exactly the edges of its possible successors (\<open>succ_list\<close>), its syntax is
  valid, and the other nodes are untouched.
\<close>

section \<open>Heads and successors\<close>

text \<open>
  The indices the loop visits: a 64-bit immediate load takes two slots of the program and only
  the first one is a head.
\<close>

function heads :: "ebpf_insn list \<Rightarrow> nat \<Rightarrow> nat list" where
  "heads xs i = (if i < length xs then i # heads xs (next_head i (xs ! i)) else [])"
  by pat_completeness auto
termination by (relation "measure (\<lambda>(xs, i). length xs - i)") (auto simp: next_head_def)

declare heads.simps [simp del]

definition succ_list :: "nat \<Rightarrow> ebpf_insn \<Rightarrow> u32 list" where
  "succ_list i x =
     (if code x = (BPF_JMP OR EBPF_EXIT) then []
      else if code x \<in> set jcc_codes then [jmp_dest i x, get_node_idx i + 1]
      else if code x = (BPF_JMP OR BPF_JA) then [jmp_dest i x]
      else if code x = (BPF_LD OR BPF_IMM OR EBPF_DW) then [get_node_idx i + 2]
      else [get_node_idx i + 1])"

lemma next_head_less: "i < next_head i x" by (simp add: next_head_def)

lemma heads_range: "j \<in> set (heads xs i) \<Longrightarrow> i \<le> j \<and> j < length xs"
proof (induction xs i rule: heads.induct)
  case (1 xs i)
  then show ?case using next_head_less [of i "xs ! i"]
    by (subst (asm) (2) heads.simps) (auto split: if_splits)
qed

lemma heads_0: "xs \<noteq> [] \<Longrightarrow> 0 \<in> set (heads xs 0)"
  by (subst heads.simps) simp

section \<open>One instruction\<close>

text \<open>The node a head gets.\<close>

definition built :: "u32 list \<Rightarrow> inst_node" where
  "built ds = zero_node\<lparr>edge_dest := ds @ replicate (MAX_EDGES - length ds) 0, nb_edge := length ds\<rparr>"

lemma built_Nil: "built [] = zero_node"
  by (simp add: built_def zero_node_def)

lemma built_simps [simp]:
  "nb_edge (built ds) = length ds" "colour (built ds) = WHITE" "cur_edge (built ds) = 0"
  "prev_node (built ds) = 0" "take (length ds) (edge_dest (built ds)) = ds"
  by (simp_all add: built_def zero_node_def)

lemma built_snoc:
  assumes "length ds < 2"
  shows "(built ds)\<lparr>edge_dest := (edge_dest (built ds))[length ds := d], nb_edge := Suc (length ds)\<rparr> =
    built (ds @ [d])"
  using assms by (cases ds) (auto simp: built_def zero_node_def numeral_2_eq_2)

lemma add_edge_ok:
  assumes "add_edge bvf n d = Some (b, 0)" "bvf_in bvf ! n = built ds"
  shows "n < length (bvf_in bvf)" and "d \<le> nb_ins (bvf_prm bvf)"
    and "b = bvf\<lparr>bvf_in := (bvf_in bvf)[n := built (ds @ [d])]\<rparr>"
  using assms
  by (auto simp: add_edge_def get_node_Some put_node_Some assms(2) built_snoc
      split: if_splits bind_splits)

lemma add_edge_rc: "add_edge bvf n d = Some (b, rc) \<Longrightarrow> rc = 0 \<or> rc = - EINVAL"
  by (auto simp: add_edge_def split: if_splits bind_splits)

text \<open>The parts of the verifier's record the loop leaves alone, apart from the counters and the log.\<close>

definition same_rest :: "bpf_verifier \<Rightarrow> bpf_verifier \<Rightarrow> bool" where
  "same_rest a b \<longleftrightarrow> bvf_prm b = bvf_prm a \<and> bvf_edge_type b = bvf_edge_type a \<and>
     bvf_stack_sz b = bvf_stack_sz a \<and> bvf_evst b = bvf_evst a \<and> bvf_evin b = bvf_evin a \<and>
     length (bvf_in b) = length (bvf_in a)"

lemma same_rest_refl: "same_rest a a" by (simp add: same_rest_def)

lemma same_rest_trans: "same_rest a b \<Longrightarrow> same_rest b c \<Longrightarrow> same_rest a c"
  by (simp add: same_rest_def)

lemma cfg_edges_ok:
  assumes "cfg_edges bvf i x = Some (b, 0)" "bvf_in bvf ! i = zero_node" "i < length (bvf_in bvf)"
  shows "bvf_in b = (bvf_in bvf)[i := built (succ_list i x)]" and "same_rest bvf b"
    and "\<forall>d \<in> set (succ_list i x). d \<le> nb_ins (bvf_prm bvf)"
    and "nb_nodes b = nb_nodes bvf" and "bvf_node_colour b = bvf_node_colour bvf"
proof -
  note z = assms(2) [folded built_Nil]
  have A: "bvf_in b = (bvf_in bvf)[i := built (succ_list i x)] \<and> same_rest bvf b \<and>
      (\<forall>d \<in> set (succ_list i x). d \<le> nb_ins (bvf_prm bvf)) \<and> nb_nodes b = nb_nodes bvf \<and>
      bvf_node_colour b = bvf_node_colour bvf"
  proof (cases "code x = (BPF_JMP OR EBPF_EXIT)")
    case True
    then show ?thesis using assms
      by (auto simp: cfg_edges_def succ_list_def built_Nil same_rest_def list_update_id
          simp flip: assms(2))
  next
    case exit: False
    show ?thesis
    proof (cases "code x \<in> set jcc_codes")
      case True
      obtain b1 rc1 b2 rc2 where e: "add_edge bvf i (jmp_dest i x) = Some (b1, rc1)"
        "add_edge b1 i (get_node_idx i + 1) = Some (b2, rc2)"
        and rc: "rc1 OR rc2 = 0" and b: "b = b2\<lparr>nb_jcc_nodes := nb_jcc_nodes b2 + 1\<rparr>"
        using assms(1) exit True by (auto simp: cfg_edges_def split: bind_splits)
      have rc0: "rc1 = 0" "rc2 = 0" using rc by (simp_all add: or_eq_0_iff)
      note E1 = add_edge_ok [OF e(1) [unfolded rc0] z]
      have z1: "bvf_in b1 ! i = built ([] @ [jmp_dest i x])" using E1(1,3) by simp
      note E2 = add_edge_ok [OF e(2) [unfolded rc0] z1]
      show ?thesis using E1 E2 b exit True by (simp add: succ_list_def same_rest_def)
    next
      case False
      show ?thesis
      proof (cases "code x \<in> set ldmb_codes")
        case True
        have *: "code x \<noteq> (BPF_JMP OR BPF_JA)" "code x \<noteq> (BPF_LD OR BPF_IMM OR EBPF_DW)"
          using True by (auto simp: ldmb_codes_def)
        let ?v = "bvf\<lparr>nb_ldmb_nodes := nb_ldmb_nodes bvf + 1\<rparr>"
        have e: "add_edge ?v i (get_node_idx i + 1) = Some (b, 0)"
          using assms(1) exit False True * by (simp add: cfg_edges_def)
        have z': "bvf_in ?v ! i = built []" using z by simp
        note E = add_edge_ok [OF e z']
        show ?thesis using E exit False * by (simp add: succ_list_def same_rest_def)
      next
        case nldmb: False
        then obtain d where d: "succ_list i x = [d]" "add_edge bvf i d = Some (b, 0)"
          using assms(1) exit False by (auto simp: cfg_edges_def succ_list_def split: if_splits)
        note E = add_edge_ok [OF d(2) z]
        show ?thesis using E d by (simp add: same_rest_def)
      qed
    qed
  qed
  then show "bvf_in b = (bvf_in bvf)[i := built (succ_list i x)]" "same_rest bvf b"
    "\<forall>d \<in> set (succ_list i x). d \<le> nb_ins (bvf_prm bvf)" "nb_nodes b = nb_nodes bvf"
    "bvf_node_colour b = bvf_node_colour bvf" by blast+
qed

lemma validate_ins_ok:
  assumes "validate_ins bvf i x rc = Some (b, 0)" "bvf_in bvf ! i = zero_node" "i < length (bvf_in bvf)"
  shows "rc = 0" and "check_syntax x = None" and "same_rest bvf b"
    and "bvf_in b = (bvf_in bvf)[i := built (succ_list i x)]"
    and "\<forall>d \<in> set (succ_list i x). d \<le> nb_ins (bvf_prm bvf)"
    and "nb_nodes b = nb_nodes bvf + 1"
    and "bvf_node_colour b = (bvf_node_colour bvf)(WHITE := bvf_node_colour bvf WHITE + 1)"
proof -
  obtain b0 rc0 b1 rc1 where 0: "(case check_syntax x of None \<Rightarrow> (bvf, rc)
        | Some e \<Rightarrow> (bpf_log bvf (Log e [i]), rc OR (- EINVAL))) = (b0, rc0)"
    and 1: "cfg_edges b0 i x = Some (b1, rc1)" and rc: "rc0 OR rc1 = 0"
    and b: "b = b1\<lparr>nb_nodes := nb_nodes b1 + 1,
              bvf_node_colour := (bvf_node_colour b1)(WHITE := bvf_node_colour b1 WHITE + 1)\<rparr>"
    using assms(1)
    by (cases "check_syntax x") (auto simp: validate_ins_def split: bind_splits)
  have r: "rc0 = 0" "rc1 = 0" using rc by (simp_all add: or_eq_0_iff)
  have c: "check_syntax x = None" "b0 = bvf" "rc = 0"
    using 0 r by (auto simp: or_eq_0_iff split: option.splits)
  note E = cfg_edges_ok [OF 1 [unfolded r c(2)] assms(2,3)]
  show "rc = 0" "check_syntax x = None" "same_rest bvf b"
    "bvf_in b = (bvf_in bvf)[i := built (succ_list i x)]"
    "\<forall>d \<in> set (succ_list i x). d \<le> nb_ins (bvf_prm bvf)" "nb_nodes b = nb_nodes bvf + 1"
    "bvf_node_colour b = (bvf_node_colour bvf)(WHITE := bvf_node_colour bvf WHITE + 1)"
    using c E b by (simp_all add: same_rest_def)
qed

section \<open>The loop\<close>

lemma validate_ins_rc: "validate_ins bvf i x rc = Some (b, 0) \<Longrightarrow> rc = 0"
  by (cases "check_syntax x") (auto simp: validate_ins_def or_eq_0_iff split: bind_splits)

lemma validate_loop_rc: "validate_loop bvf xs i rc = Some (b, 0) \<Longrightarrow> rc = 0"
proof (induction bvf xs i rc rule: validate_loop.induct)
  case (1 bvf xs i rc)
  show ?case
  proof (cases "i < length xs")
    case True
    then obtain b1 rc1 where v: "validate_ins bvf i (xs ! i) rc = Some (b1, rc1)"
      and l: "validate_loop b1 xs (next_head i (xs ! i)) rc1 = Some (b, 0)"
      using "1.prems"(1) by (subst (asm) validate_loop.simps) (auto split: bind_splits)
    show ?thesis using "1.IH" [OF True v refl l] v by (auto dest: validate_ins_rc)
  next
    case False
    then show ?thesis using "1.prems" by (subst (asm) validate_loop.simps) simp
  qed
qed

lemma validate_loop_ok:
  assumes "validate_loop bvf xs i rc = Some (b, 0)"
    and "\<forall>j. i \<le> j \<and> j < length xs \<longrightarrow> bvf_in bvf ! j = zero_node"
    and "length (bvf_in bvf) = length xs"
  shows "same_rest bvf b \<and>
    (\<forall>j < length xs. bvf_in b ! j =
       (if j \<in> set (heads xs i) then built (succ_list j (xs ! j)) else bvf_in bvf ! j)) \<and>
    (\<forall>j \<in> set (heads xs i). check_syntax (xs ! j) = None \<and>
       (\<forall>d \<in> set (succ_list j (xs ! j)). d \<le> nb_ins (bvf_prm bvf)))"
  using assms
proof (induction bvf xs i rc rule: validate_loop.induct)
  case (1 bvf xs i rc)
  show ?case
  proof (cases "i < length xs")
    case False
    then have "heads xs i = []" by (subst heads.simps) simp
    then show ?thesis using "1.prems"(1) False
      by (subst (asm) validate_loop.simps) (simp add: same_rest_refl)
  next
    case True
    obtain b1 rc1 where v: "validate_ins bvf i (xs ! i) rc = Some (b1, rc1)"
      and l: "validate_loop b1 xs (next_head i (xs ! i)) rc1 = Some (b, 0)"
      using "1.prems"(1) True by (subst (asm) validate_loop.simps) (auto split: bind_splits)
    have z: "bvf_in bvf ! i = zero_node" "i < length (bvf_in bvf)" using "1.prems" True by auto
    note V = validate_ins_ok [OF v [unfolded validate_loop_rc [OF l]] z]
    have h: "set (heads xs i) = insert i (set (heads xs (next_head i (xs ! i))))"
      using True by (subst heads.simps) simp
    have n: "i \<notin> set (heads xs (next_head i (xs ! i)))"
      using heads_range [of i xs "next_head i (xs ! i)"] next_head_less [of i "xs ! i"] by auto
    have "\<forall>j. next_head i (xs ! i) \<le> j \<and> j < length xs \<longrightarrow> bvf_in b1 ! j = zero_node"
      using "1.prems"(2) V(4) next_head_less [of i "xs ! i"] by auto
    moreover have "length (bvf_in b1) = length xs" using V(3) "1.prems"(3) by (simp add: same_rest_def)
    ultimately have I: "same_rest b1 b \<and>
      (\<forall>j < length xs. bvf_in b ! j = (if j \<in> set (heads xs (next_head i (xs ! i)))
         then built (succ_list j (xs ! j)) else bvf_in b1 ! j)) \<and>
      (\<forall>j \<in> set (heads xs (next_head i (xs ! i))). check_syntax (xs ! j) = None \<and>
         (\<forall>d \<in> set (succ_list j (xs ! j)). d \<le> nb_ins (bvf_prm b1)))"
      by (rule "1.IH" [OF True v refl l])
    have p: "bvf_prm b1 = bvf_prm bvf" using V(3) by (simp add: same_rest_def)
    have nodes: "bvf_in b ! j = (if j \<in> set (heads xs i) then built (succ_list j (xs ! j)) else bvf_in bvf ! j)"
      if "j < length xs" for j
      using that I V(4) h n z(2) by (cases "j = i") auto
    show ?thesis
      using nodes I V(2,5) p h same_rest_trans [OF V(3)] by auto
  qed
qed

text \<open>The graph after the loop, from the initial record.\<close>

definition graph_of :: "ebpf_insn list \<Rightarrow> bpf_verifier \<Rightarrow> bool" where
  "graph_of xs b \<longleftrightarrow> length (bvf_in b) = length xs \<and>
     (\<forall>j < length xs. bvf_in b ! j =
        (if j \<in> set (heads xs 0) then built (succ_list j (xs ! j)) else zero_node)) \<and>
     bvf_edge_type b = (\<lambda>_. 0)"

lemma validate_loop_init:
  assumes "validate_loop (bvf_init p) (ins p) 0 0 = Some (b, 0)"
  shows "graph_of (ins p) b"
    and "\<And>j. j \<in> set (heads (ins p) 0) \<Longrightarrow> check_syntax (ins p ! j) = None"
    and "\<And>j d. j \<in> set (heads (ins p) 0) \<Longrightarrow> d \<in> set (succ_list j (ins p ! j)) \<Longrightarrow> d \<le> nb_ins p"
  using validate_loop_ok [OF assms]
  by (auto simp: graph_of_def bvf_init_def same_rest_def)

end
