(* ===== verification/BPF_Cfg_Dfs.thy ===== *)
theory BPF_Cfg_Dfs
  imports BPF_Cfg
begin

text \<open>
  Correctness of the depth-first search. The invariant describes the state between two turns: the
  grey nodes from the current one to the root are linked by \<open>prev_node\<close> (\<open>chain\<close>), the black
  nodes in the order they were finished are closed under successors (\<open>topo\<close>). It holds as long as
  no back edge was counted, and the counter cannot wrap around to zero.
\<close>

section \<open>The invariant\<close>

definition node_succs :: "inst_node \<Rightarrow> nat set" where
  "node_succs nd = set (map unat (take (nb_edge nd) (edge_dest nd)))"

text \<open>A list of nodes in which all successors of a node come after it.\<close>

fun topo :: "inst_node list \<Rightarrow> nat list \<Rightarrow> bool" where
  "topo ns [] = True"
| "topo ns (b # bs) = (node_succs (ns ! b) \<subseteq> set bs \<and> topo ns bs)"

definition done_edges :: "nat list \<Rightarrow> inst_node \<Rightarrow> nat \<Rightarrow> bool" where
  "done_edges fin nd c = (\<forall>k < c. unat (edge_dest nd ! k) \<in> set fin)"

text \<open>
  The path from a node back to the root: every node on it waits for the child it went to by its
  last edge, and its other edges so far lead to finished nodes.
\<close>

fun chain :: "inst_node list \<Rightarrow> nat list \<Rightarrow> nat \<Rightarrow> nat list \<Rightarrow> bool" where
  "chain ns fin x [] = (x = 0 \<and> prev_node (ns ! x) = 0)"
| "chain ns fin x (y # r) =
     (unat (prev_node (ns ! x)) = y \<and> colour (ns ! y) = GREY \<and> 0 < cur_edge (ns ! y) \<and>
      unat (edge_dest (ns ! y) ! (cur_edge (ns ! y) - 1)) = x \<and>
      done_edges fin (ns ! y) (cur_edge (ns ! y) - 1) \<and> chain ns fin y r)"

definition wf_node :: "inst_node \<Rightarrow> bool" where
  "wf_node nd \<longleftrightarrow> length (edge_dest nd) = MAX_EDGES \<and> nb_edge nd \<le> MAX_EDGES \<and>
     cur_edge nd \<le> nb_edge nd \<and> (colour nd = WHITE \<longrightarrow> cur_edge nd = 0)"

definition finished :: "inst_node list \<Rightarrow> nat list \<Rightarrow> bool" where
  "finished ns fin \<longleftrightarrow> topo ns fin \<and> distinct fin \<and> set fin \<subseteq> {..<length ns} \<and>
     (\<forall>i < length ns. colour (ns ! i) = BLACK \<longleftrightarrow> i \<in> set fin)"

definition active :: "inst_node list \<Rightarrow> nat \<Rightarrow> nat list \<Rightarrow> nat list \<Rightarrow> bool" where
  "active ns n r fin \<longleftrightarrow> chain ns fin n r \<and> finished ns fin \<and> distinct (n # r @ fin) \<and>
     set (n # r) \<subseteq> {..<length ns} \<and> colour (ns ! n) \<noteq> BLACK \<and>
     done_edges fin (ns ! n) (cur_edge (ns ! n))"

definition searching :: "inst_node list \<Rightarrow> nat \<Rightarrow> bool" where
  "searching ns n \<longleftrightarrow> (\<exists>r fin. active ns n r fin) \<or> (n = 0 \<and> (\<exists>fin. finished ns fin \<and> 0 \<in> set fin))"

definition skel :: "inst_node list \<Rightarrow> (nat \<times> u32 list) list" where
  "skel ns = map (\<lambda>nd. (nb_edge nd, edge_dest nd)) ns"

text \<open>\<open>M\<close> bounds the number of edges that are ever counted.\<close>

definition dfs_inv :: "nat \<Rightarrow> (nat \<times> u32 list) list \<Rightarrow> bpf_verifier \<Rightarrow> bool" where
  "dfs_inv M sk b \<longleftrightarrow> list_all wf_node (bvf_in b) \<and> skel (bvf_in b) = sk \<and>
     length sk < 2 ^ LENGTH(32) \<and> M < 2 ^ LENGTH(32) \<and>
     unat (bvf_edge_type b BACK_EDGE) + work b \<le> M"

section \<open>Updates of one node\<close>

lemma chain_cong:
  assumes "chain ns fin x r" "prev_node (ns' ! x) = prev_node (ns ! x)"
    and "\<And>y. y \<in> set r \<Longrightarrow> ns' ! y = ns ! y" "set fin \<subseteq> set fin'"
  shows "chain ns' fin' x r"
  using assms by (induction ns fin x r rule: chain.induct) (auto simp: done_edges_def)

lemma nth_upd_notin: "y \<in> set r \<Longrightarrow> n \<notin> set r \<Longrightarrow> ns[n := nd] ! y = ns ! y"
  by (metis nth_list_update_neq)

lemma done_edges_last:
  assumes "done_edges fin nd (c - 1)" "0 < c" "unat (edge_dest nd ! (c - 1)) = n"
  shows "done_edges (n # fin) nd c"
  unfolding done_edges_def
proof (intro allI impI)
  fix k assume "k < c"
  then have "k < c - 1 \<or> k = c - 1" by linarith
  then show "unat (edge_dest nd ! k) \<in> set (n # fin)" using assms by (auto simp: done_edges_def)
qed

lemma skel_upd:
  assumes "nb_edge nd = nb_edge (ns ! n)" "edge_dest nd = edge_dest (ns ! n)"
  shows "skel (ns[n := nd]) = skel ns"
  using assms
  by (cases "n < length ns") (simp_all add: skel_def map_update list_update_same_conv list_update_beyond)

lemma topo_cong:
  assumes "topo ns fin" "\<And>y. y \<in> set fin \<Longrightarrow> node_succs (ns' ! y) = node_succs (ns ! y)"
  shows "topo ns' fin"
  using assms by (induction ns fin rule: topo.induct) auto

lemma node_succs_skel: "skel ns' = skel ns \<Longrightarrow> i < length ns \<Longrightarrow> node_succs (ns' ! i) = node_succs (ns ! i)"
proof -
  assume sk: "skel ns' = skel ns" and i: "i < length ns"
  have l: "length ns' = length ns" using arg_cong [OF sk, of length] by (simp add: skel_def)
  then have "skel ns' ! i = skel ns ! i" using sk by simp
  then show ?thesis using i l by (simp add: skel_def node_succs_def)
qed

lemma finished_upd:
  assumes "finished ns fin" "skel (ns[n := nd]) = skel ns" "n < length ns"
    and "colour nd = BLACK \<longleftrightarrow> colour (ns ! n) = BLACK"
  shows "finished (ns[n := nd]) fin"
  unfolding finished_def
proof (intro conjI)
  show "topo (ns[n := nd]) fin"
    using assms(1) topo_cong [of ns fin "ns[n := nd]"] node_succs_skel [OF assms(2)]
    by (auto simp: finished_def)
  show "\<forall>i < length (ns[n := nd]). (colour (ns[n := nd] ! i) = BLACK) = (i \<in> set fin)"
    using assms(1,3,4) by (auto simp: finished_def nth_list_update)
qed (use assms(1) in \<open>simp_all add: finished_def\<close>)

lemma active_upd:
  assumes "active ns n r fin" "skel (ns[n := nd]) = skel ns" "prev_node nd = prev_node (ns ! n)"
    and "colour nd \<noteq> BLACK" "done_edges fin nd (cur_edge nd)"
  shows "active (ns[n := nd]) n r fin"
proof -
  have n: "n < length ns" and r: "n \<notin> set r" using assms(1) by (auto simp: active_def)
  have "chain (ns[n := nd]) fin n r"
    by (rule chain_cong [of ns fin n r]) (use assms n r in \<open>auto simp: active_def intro: nth_upd_notin\<close>)
  moreover have "finished (ns[n := nd]) fin"
    using finished_upd [of ns fin n nd] assms n by (auto simp: active_def)
  ultimately show ?thesis using assms n by (auto simp: active_def)
qed

text \<open>Finishing the current node: its parent, or the root itself, is the next one.\<close>

lemma active_finish:
  assumes a: "active ns n r fin" and w: "list_all wf_node ns" and c: "cur_edge (ns ! n) = nb_edge (ns ! n)"
    and sk: "skel (ns[n := nd]) = skel ns" and nd: "colour nd = BLACK"
  shows "searching (ns[n := nd]) (unat (prev_node (ns ! n)))"
proof -
  have n: "n < length ns" and r: "n \<notin> set r" and nf: "n \<notin> set fin" and fin: "finished ns fin"
    and d: "done_edges fin (ns ! n) (nb_edge (ns ! n))" and ch: "chain ns fin n r"
    using a c by (auto simp: active_def)
  have wn: "wf_node (ns ! n)" using w n by (simp add: list_all_length)
  let ?ns = "ns[n := nd]" and ?fin = "n # fin"
  have s: "node_succs (ns ! n) \<subseteq> set fin"
    using d wn by (auto simp: node_succs_def done_edges_def wf_node_def in_set_conv_nth)
  have "topo ?ns fin"
    by (rule topo_cong [of ns]) (use fin node_succs_skel [OF sk] in \<open>auto simp: finished_def\<close>)
  then have f: "finished ?ns ?fin"
    using fin s nf n nd node_succs_skel [OF sk n] by (auto simp: finished_def nth_list_update)
  show ?thesis
  proof (cases r)
    case Nil
    then show ?thesis using ch f by (auto simp: searching_def)
  next
    case (Cons y r')
    have y: "y \<noteq> n" "?ns ! y = ns ! y" using r Cons by auto
    have "chain ?ns ?fin y r'"
      by (rule chain_cong [of ns fin]) (use ch Cons r y in \<open>auto intro: nth_upd_notin\<close>)
    moreover have "done_edges ?fin (?ns ! y) (cur_edge (?ns ! y))"
      using ch Cons y by (auto intro: done_edges_last)
    ultimately have "active ?ns y r' ?fin"
      using a f Cons y ch by (auto simp: active_def)
    then show ?thesis using ch Cons by (auto simp: searching_def)
  qed
qed

text \<open>Going to a white child.\<close>

lemma active_child:
  assumes a: "active ns n r fin" and g: "colour (ns ! n) = GREY" and w: "list_all wf_node ns"
    and d: "d < length ns" "colour (ns ! d) = WHITE" "unat (edge_dest (ns ! n) ! cur_edge (ns ! n)) = d"
    and ns1: "ns1 = ns[n := nd]" "nd = (ns ! n)\<lparr>cur_edge := cur_edge (ns ! n) + 1, node_edge_type := ts\<rparr>"
    and ns2: "ns2 = ns1[d := (ns1 ! d)\<lparr>prev_node := p\<rparr>]" "unat p = n"
  shows "active ns2 d (n # r) fin"
proof -
  have n: "n < length ns" and nr: "n \<notin> set r" and ch: "chain ns fin n r" and fin: "finished ns fin"
    and dn: "done_edges fin (ns ! n) (cur_edge (ns ! n))"
    using a by (auto simp: active_def)
  have grey: "colour (ns ! y) = GREY" if "y \<in> set r" for y
    using ch that by (induction ns fin n r rule: chain.induct) auto
  have dnr: "d \<noteq> n" "d \<notin> set r" "d \<notin> set fin" using d g grey fin by (auto simp: finished_def)
  have cd: "cur_edge (ns ! d) = 0" using w d by (auto simp: list_all_length wf_node_def)
  have ns2n: "ns2 ! n = nd" and ns2d: "ns2 ! d = (ns ! d)\<lparr>prev_node := p\<rparr>"
    and ns2o: "\<And>y. y \<noteq> n \<Longrightarrow> y \<noteq> d \<Longrightarrow> ns2 ! y = ns ! y" and l: "length ns2 = length ns"
    using ns1 ns2 n d dnr by auto
  have c: "chain ns2 fin n r"
  proof (rule chain_cong [OF ch])
    show "ns2 ! y = ns ! y" if "y \<in> set r" for y
      using that ns2o [of y] nr dnr by metis
  qed (use ns2n ns1 in auto)
  have sk1: "skel ns1 = skel ns" using ns1 by (auto intro: skel_upd)
  have f1: "finished ns1 fin"
    using finished_upd [of ns fin n nd] fin sk1 ns1 n by simp
  have sk2: "skel ns2 = skel ns1"
    using ns2 by (auto intro: skel_upd)
  have "finished ns2 fin"
    using finished_upd [of ns1 fin d "(ns1 ! d)\<lparr>prev_node := p\<rparr>"] f1 sk2 ns2 ns1 d by simp
  then show ?thesis
    using a c ns2n ns2d ns2(2) ns1(2) g d dn dnr cd l
    by (auto simp: active_def done_edges_def)
qed

section \<open>One turn\<close>

text \<open>
  The state inside the inner loop, at the grey node \<open>n\<close>: what holds of the graph unless a back
  edge was counted.
\<close>

definition inner_inv :: "nat \<Rightarrow> (nat \<times> u32 list) list \<Rightarrow> nat \<Rightarrow> bpf_verifier \<Rightarrow> bool" where
  "inner_inv M sk n b \<longleftrightarrow> dfs_inv M sk b \<and> n < length (bvf_in b) \<and> colour (bvf_in b ! n) = GREY \<and>
     (bvf_edge_type b BACK_EDGE = 0 \<longrightarrow> (\<exists>r fin. active (bvf_in b) n r fin))"

definition outer_inv :: "nat \<Rightarrow> (nat \<times> u32 list) list \<Rightarrow> nat \<Rightarrow> bpf_verifier \<Rightarrow> bool" where
  "outer_inv M sk n b \<longleftrightarrow> dfs_inv M sk b \<and>
     (bvf_edge_type b BACK_EDGE = 0 \<longrightarrow> searching (bvf_in b) n)"

lemma wf_upd: "list_all wf_node ns \<Longrightarrow> wf_node nd \<Longrightarrow> list_all wf_node (ns[n := nd])"
  unfolding list_all_length by (metis length_list_update nth_list_update_eq nth_list_update_neq)

text \<open>The counter of back edges goes up by one without wrapping.\<close>

lemma back_count:
  assumes "unat (c :: u32) + Suc w \<le> M" "M < 2 ^ LENGTH(32)"
  shows "unat (c + 1) = Suc (unat c)" and "c + 1 \<noteq> 0"
proof -
  have "unat c + 1 < 2 ^ LENGTH(32)" using assms by simp
  then show "unat (c + 1) = Suc (unat c)" by (simp add: unat_word_ariths)
  then show "c + 1 \<noteq> 0" by (metis nat.distinct(1) unat_0)
qed

lemma edge_turn_inv:
  assumes i: "inner_inv M sk n b" and g: "get_next_node b n = Some (b1, Some d)"
    and t: "set_edge_type b1 n d = Some b2"
  shows "dfs_inv M sk b2" and "n < length (bvf_in b2)" and "colour (bvf_in b2 ! n) = GREY"
    and "colour (bvf_in b2 ! d) = colour (bvf_in b ! d)"
    and "bvf_edge_type b2 BACK_EDGE = 0 \<Longrightarrow>
      bvf_edge_type b BACK_EDGE = 0 \<and> colour (bvf_in b ! d) \<noteq> GREY"
proof -
  have inv: "dfs_inv M sk b" and n: "n < length (bvf_in b)" and gr: "colour (bvf_in b ! n) = GREY"
    using i by (simp_all add: inner_inv_def)
  obtain ts ty where e: "d < length (bvf_in b)" "cur_edge (bvf_in b ! n) \<noteq> nb_edge (bvf_in b ! n)"
    "ty = edge_type_of (colour (bvf_in b ! d))"
    "b2 = b\<lparr>bvf_in := (bvf_in b)[n := (bvf_in b ! n)
        \<lparr>cur_edge := cur_edge (bvf_in b ! n) + 1, node_edge_type := ts\<rparr>],
      bvf_edge_type := (bvf_edge_type b)(ty := bvf_edge_type b ty + 1)\<rparr>"
    by (rule edge_turn [OF g t])
  have w: "work b2 < work b" by (rule work_edge_turn(1) [OF g t gr])
  then have m: "unat (bvf_edge_type b BACK_EDGE) + Suc (work b2) \<le> M" "M < 2 ^ LENGTH(32)"
    using inv by (auto simp: dfs_inv_def)
  have ty: "ty = BACK_EDGE \<longleftrightarrow> colour (bvf_in b ! d) = GREY"
    using e(3) by (cases "colour (bvf_in b ! d)") auto
  have wn: "wf_node (bvf_in b ! n)" using inv n by (auto simp: dfs_inv_def list_all_length)
  have "list_all wf_node (bvf_in b2)"
    using inv wn e gr by (auto simp: dfs_inv_def wf_node_def intro!: wf_upd)
  moreover have "skel (bvf_in b2) = sk" using e inv by (auto simp: dfs_inv_def skel_upd)
  ultimately show "dfs_inv M sk b2"
    using inv m w e(4) back_count(1) [OF m] by (cases "ty = BACK_EDGE") (auto simp: dfs_inv_def)
  show "n < length (bvf_in b2)" "colour (bvf_in b2 ! n) = GREY" using e n gr by auto
  show "colour (bvf_in b2 ! d) = colour (bvf_in b ! d)" using e by (cases "d = n") auto
  show "bvf_edge_type b2 BACK_EDGE = 0 \<Longrightarrow>
      bvf_edge_type b BACK_EDGE = 0 \<and> colour (bvf_in b ! d) \<noteq> GREY"
    using e(4) ty back_count(2) [OF m] by (auto split: if_splits)
qed

lemma inner_step:
  assumes i: "inner_inv M sk n b" and g: "get_next_node b n = Some (b1, Some d)"
    and t: "set_edge_type b1 n d = Some b2" and c: "colour (bvf_in b2 ! d) \<noteq> WHITE"
  shows "inner_inv M sk n b2"
proof -
  note T = edge_turn_inv [OF i g t]
  obtain ts ty where e: "d < length (bvf_in b)"
    "d = unat (edge_dest (bvf_in b ! n) ! cur_edge (bvf_in b ! n))"
    "b2 = b\<lparr>bvf_in := (bvf_in b)[n := (bvf_in b ! n)
        \<lparr>cur_edge := cur_edge (bvf_in b ! n) + 1, node_edge_type := ts\<rparr>],
      bvf_edge_type := (bvf_edge_type b)(ty := bvf_edge_type b ty + 1)\<rparr>"
    by (rule edge_turn [OF g t])
  have "\<exists>r fin. active (bvf_in b2) n r fin" if z: "bvf_edge_type b2 BACK_EDGE = 0"
  proof -
    obtain r fin where a: "active (bvf_in b) n r fin" using T(5) [OF z] i by (auto simp: inner_inv_def)
    have "colour (bvf_in b ! d) = BLACK"
      using T(5) [OF z] T(4) c by (cases "colour (bvf_in b ! d)") auto
    then have df: "d \<in> set fin" using a e(1) by (auto simp: active_def finished_def)
    let ?nd = "(bvf_in b ! n)\<lparr>cur_edge := cur_edge (bvf_in b ! n) + 1, node_edge_type := ts\<rparr>"
    have "active ((bvf_in b)[n := ?nd]) n r fin"
      by (rule active_upd [OF a])
        (use a df e(2) i in \<open>auto simp: active_def done_edges_def less_Suc_eq skel_upd inner_inv_def\<close>)
    then show ?thesis using e(3) by auto
  qed
  then show ?thesis using T by (simp add: inner_inv_def)
qed

text \<open>The three parts of a turn: making a white node grey, going to a child, finishing a node.\<close>

lemma turn_grey:
  assumes o: "outer_inv M sk n b" and n: "colour (bvf_in b ! n) = WHITE"
    and s: "set_node_colour b n GREY = Some b1"
  shows "inner_inv M sk n b1"
proof -
  note S = set_node_colour_Some [OF s]
  have w: "list_all wf_node (bvf_in b)" and inv: "dfs_inv M sk b" using o by (auto simp: outer_inv_def dfs_inv_def)
  have c0: "cur_edge (bvf_in b ! n) = 0" "wf_node (bvf_in b ! n)"
    using w S(1) n by (auto simp: list_all_length wf_node_def)
  have "work b1 < work b"
    by (rule work_upd_less [OF S(1) _ S(2)]) (simp add: weight_def n)
  then have d: "dfs_inv M sk b1"
    using inv S c0 by (auto simp: dfs_inv_def skel_upd wf_node_def intro!: wf_upd)
  have "\<exists>r fin. active (bvf_in b1) n r fin" if "bvf_edge_type b1 BACK_EDGE = 0"
  proof -
    have "searching (bvf_in b) n" using o that S(3) by (simp add: outer_inv_def)
    then obtain r fin where a: "active (bvf_in b) n r fin"
      using n S(1) by (auto simp: searching_def finished_def)
    have "active ((bvf_in b)[n := (bvf_in b ! n)\<lparr>colour := GREY\<rparr>]) n r fin"
      by (rule active_upd [OF a]) (use c0 in \<open>auto simp: skel_upd done_edges_def\<close>)
    then show ?thesis using S(2) by auto
  qed
  then show ?thesis using d S by (simp add: inner_inv_def)
qed

lemma turn_child:
  assumes i: "inner_inv M sk n b" and g: "get_next_node b n = Some (b1, Some d)"
    and t: "set_edge_type b1 n d = Some b2" and c: "colour (bvf_in b2 ! d) = WHITE"
    and p: "set_prev_node b2 d n = Some b3"
  shows "outer_inv M sk d b3"
proof -
  note T = edge_turn_inv [OF i g t]
  obtain ts ty where e: "d < length (bvf_in b)"
    "d = unat (edge_dest (bvf_in b ! n) ! cur_edge (bvf_in b ! n))"
    "b2 = b\<lparr>bvf_in := (bvf_in b)[n := (bvf_in b ! n)
        \<lparr>cur_edge := cur_edge (bvf_in b ! n) + 1, node_edge_type := ts\<rparr>],
      bvf_edge_type := (bvf_edge_type b)(ty := bvf_edge_type b ty + 1)\<rparr>"
    by (rule edge_turn [OF g t])
  have b3: "d < length (bvf_in b2)"
    "b3 = b2\<lparr>bvf_in := (bvf_in b2)[d := (bvf_in b2 ! d)\<lparr>prev_node := get_node_idx n\<rparr>]\<rparr>"
    using p by (auto simp: set_prev_node_def get_node_Some put_node_Some split: bind_splits)
  have wd: "wf_node (bvf_in b2 ! d)" using T(1) b3(1) by (auto simp: dfs_inv_def list_all_length)
  have "work b3 = work b2"
    using work_upd_eq [of d b2 "(bvf_in b2 ! d)\<lparr>prev_node := get_node_idx n\<rparr>" b3] b3 by simp
  then have d: "dfs_inv M sk b3"
    using T(1) b3(2) wd by (auto simp: dfs_inv_def skel_upd wf_node_def intro!: wf_upd)
  have "n < length sk" using i by (auto simp: inner_inv_def dfs_inv_def skel_def)
  then have un: "unat (get_node_idx n) = n"
    using i by (simp add: inner_inv_def dfs_inv_def get_node_idx_def unat_of_nat)
  have "searching (bvf_in b3) d" if z: "bvf_edge_type b3 BACK_EDGE = 0"
  proof -
    have "bvf_edge_type b BACK_EDGE = 0" using T(5) z b3(2) by simp
    then obtain r fin where a: "active (bvf_in b) n r fin" using i by (auto simp: inner_inv_def)
    have w: "list_all wf_node (bvf_in b)" and gr: "colour (bvf_in b ! n) = GREY"
      using i by (auto simp: inner_inv_def dfs_inv_def)
    have "active (bvf_in b3) d (n # r) fin"
      by (rule active_child [OF a gr w e(1) _ e(2) [symmetric] refl refl _ un])
        (use b3(2) e(3) c T(4) in simp_all)
    then show ?thesis by (auto simp: searching_def)
  qed
  then show ?thesis using d by (simp add: outer_inv_def)
qed

lemma turn_finish:
  assumes i: "inner_inv M sk n b" and g: "get_next_node b n = Some (b, None)"
    and s: "set_node_colour b n BLACK = Some b1"
    and p: "put_node b1 n ((bvf_in b1 ! n)\<lparr>cur_edge := 0\<rparr>) = Some b2"
  shows "outer_inv M sk (unat (prev_node (bvf_in b2 ! n))) b2"
proof -
  note S = set_node_colour_Some [OF s]
  let ?nd = "(bvf_in b ! n)\<lparr>colour := BLACK, cur_edge := 0\<rparr>"
  have n: "n < length (bvf_in b)" and gr: "colour (bvf_in b ! n) = GREY" and inv: "dfs_inv M sk b"
    using i by (auto simp: inner_inv_def)
  have b2: "bvf_in b2 = (bvf_in b)[n := ?nd]" "bvf_edge_type b2 = bvf_edge_type b"
    using p S n by (auto simp: put_node_Some)
  have wn: "wf_node (bvf_in b ! n)" using inv n by (auto simp: dfs_inv_def list_all_length)
  have "work b2 < work b"
    by (rule work_upd_less [OF n _ b2(1)]) (simp add: weight_def gr)
  then have d: "dfs_inv M sk b2"
    using inv b2 wn by (auto simp: dfs_inv_def skel_upd wf_node_def intro!: wf_upd)
  have "searching (bvf_in b2) (unat (prev_node (bvf_in b2 ! n)))" if z: "bvf_edge_type b2 BACK_EDGE = 0"
  proof -
    obtain r fin where a: "active (bvf_in b) n r fin" using z b2(2) i by (auto simp: inner_inv_def)
    have "searching ((bvf_in b)[n := ?nd]) (unat (prev_node (bvf_in b ! n)))"
      by (rule active_finish [OF a])
        (use inv get_next_node_None(3) [OF g] in \<open>auto simp: dfs_inv_def skel_upd\<close>)
    then show ?thesis using b2(1) n by simp
  qed
  then show ?thesis using d by (simp add: outer_inv_def)
qed

lemma dfs_turn_inv:
  assumes o: "outer_inv M sk n b" and t: "dfs_turn b n = Some (b', r)"
  shows "case r of Some n' \<Rightarrow> outer_inv M sk n' b'
    | None \<Rightarrow> outer_inv M sk n b' \<and> n < length (bvf_in b') \<and> colour (bvf_in b' ! n) = BLACK"
proof (cases "n < length (bvf_in b) \<and> colour (bvf_in b ! n) = BLACK")
  case True
  then show ?thesis using t o by (auto simp: dfs_turn_def get_node_Some split: bind_splits)
next
  case False
  then have n: "n < length (bvf_in b)" and nb: "colour (bvf_in b ! n) \<noteq> BLACK"
    using t by (auto simp: dfs_turn_def get_node_Some split: bind_splits)
  obtain b1 where b1: "(if colour (bvf_in b ! n) = WHITE then set_node_colour b n GREY else Some b) = Some b1"
    using t n by (auto simp: dfs_turn_def get_node_Some split: bind_splits)
  have i1: "inner_inv M sk n b1"
  proof (cases "colour (bvf_in b ! n) = WHITE")
    case True
    then show ?thesis using turn_grey [OF o True] b1 by simp
  next
    case False
    then have "colour (bvf_in b ! n) = GREY" using nb by (cases "colour (bvf_in b ! n)") auto
    then show ?thesis
      using False b1 o n by (auto simp: inner_inv_def outer_inv_def searching_def finished_def)
  qed
  then have n1: "get_node b1 n = Some (bvf_in b1 ! n)" "colour (bvf_in b1 ! n) = GREY"
    by (auto simp: inner_inv_def get_node_Some)
  obtain b2 r2 where c: "next_child b1 n = Some (b2, r2)"
    using t n b1 n1 by (auto simp: dfs_turn_def get_node_Some split: bind_splits)
  have I: "case r2 of None \<Rightarrow> inner_inv M sk n b2 \<and> get_next_node b2 n = Some (b2, None)
     | Some d \<Rightarrow> \<exists>b b1. inner_inv M sk n b \<and> get_next_node b n = Some (b1, Some d) \<and>
        set_edge_type b1 n d = Some b2 \<and> colour (bvf_in b2 ! d) = WHITE"
    by (rule next_child_inv [where P = "inner_inv M sk n", OF c i1]) (rule inner_step)
  show ?thesis
  proof (cases r2)
    case (Some d)
    then obtain b0 b0' where G: "inner_inv M sk n b0" "get_next_node b0 n = Some (b0', Some d)"
      "set_edge_type b0' n d = Some b2" "colour (bvf_in b2 ! d) = WHITE" using I by auto
    have "set_prev_node b2 d n = Some b'" "r = Some d"
      using t n b1 n1 c Some by (auto simp: dfs_turn_def get_node_Some split: bind_splits)
    then show ?thesis using turn_child [OF G] by simp
  next
    case None
    then have G: "inner_inv M sk n b2" "get_next_node b2 n = Some (b2, None)" using I by auto
    obtain b3 q where b3: "set_node_colour b2 n BLACK = Some b3"
      "put_node b3 n ((bvf_in b3 ! n)\<lparr>cur_edge := 0\<rparr>) = Some b'"
      "get_prev_node b' n = Some q" "r = Some q"
      using t n b1 n1 c None
      by (auto simp: dfs_turn_def get_node_Some split: bind_splits) metis
    then have "r = Some (unat (prev_node (bvf_in b' ! n)))"
      by (auto simp: get_prev_node_def get_node_Some)
    then show ?thesis using turn_finish [OF G b3(1,2)] by simp
  qed
qed

section \<open>The whole search\<close>

lemma dfs_from_inv:
  assumes "dfs_from b (Some n) = Some b'" "outer_inv M sk n b"
  shows "\<exists>n'. outer_inv M sk n' b' \<and> n' < length (bvf_in b') \<and> colour (bvf_in b' ! n') = BLACK"
proof -
  have "dfs_from b no = Some b' \<Longrightarrow> (case no of
      Some n \<Rightarrow> outer_inv M sk n b
    | None \<Rightarrow> \<exists>n. outer_inv M sk n b \<and> n < length (bvf_in b) \<and> colour (bvf_in b ! n) = BLACK) \<Longrightarrow>
    \<exists>n'. outer_inv M sk n' b' \<and> n' < length (bvf_in b') \<and> colour (bvf_in b' ! n') = BLACK" for no
  proof (induction b no rule: dfs_from.induct)
    case (1 b)
    then show ?case by (simp add: dfs_from.simps)
  next
    case (2 b n)
    obtain b1 r where t: "dfs_turn b n = Some (b1, r)" "dfs_from b1 r = Some b'"
      using "2.prems"(1) by (subst (asm) dfs_from.simps) (auto split: bind_splits)
    have "outer_inv M sk n b" using "2.prems"(2) by simp
    from dfs_turn_inv [OF this t(1)] show ?case
      by (intro "2.IH" [OF t(1) refl t(2)]) (cases r; auto)
  qed
  from this [of "Some n"] show ?thesis using assms by simp
qed

text \<open>
  What the search leaves when it started from white nodes and counted no back edge: the black
  nodes, the root among them, in an order in which every successor comes after its predecessors.
\<close>

definition fresh :: "bpf_verifier \<Rightarrow> bool" where
  "fresh b \<longleftrightarrow> bvf_in b \<noteq> [] \<and> bvf_edge_type b BACK_EDGE = 0 \<and> list_all (\<lambda>nd.
     length (edge_dest nd) = MAX_EDGES \<and> nb_edge nd \<le> MAX_EDGES \<and> cur_edge nd = 0 \<and>
     colour nd = WHITE \<and> prev_node nd = 0) (bvf_in b)"

lemma fresh_work: "fresh b \<Longrightarrow> work b = 4 * length (bvf_in b)"
proof -
  have "list_all (\<lambda>nd. length (edge_dest nd) = 2 \<and> colour nd = WHITE) ns \<Longrightarrow>
    sum_list (map weight ns) = 4 * length ns" for ns
    by (induction ns) (auto simp: weight_def)
  moreover assume "fresh b"
  then have "list_all (\<lambda>nd. length (edge_dest nd) = 2 \<and> colour nd = WHITE) (bvf_in b)"
    by (auto simp: fresh_def list_all_length)
  ultimately show ?thesis by (simp add: work_def)
qed

lemma fresh_outer:
  assumes f: "fresh b" and l: "length (bvf_in b) < 2 ^ 30"
  shows "outer_inv (4 * length (bvf_in b)) (skel (bvf_in b)) 0 b"
proof -
  let ?ns = "bvf_in b"
  have n: "?ns \<noteq> []" "0 < length ?ns" and W: "\<And>i. i < length ?ns \<Longrightarrow> colour (?ns ! i) = WHITE \<and>
      cur_edge (?ns ! i) = 0 \<and> prev_node (?ns ! i) = 0"
    using f by (auto simp: fresh_def list_all_length)
  have "list_all wf_node ?ns" using f by (auto simp: fresh_def list_all_length wf_node_def)
  then have d: "dfs_inv (4 * length ?ns) (skel ?ns) b"
    using f l fresh_work [OF f] by (auto simp: dfs_inv_def skel_def fresh_def)
  have "finished ?ns []" using W by (auto simp: finished_def)
  then have "active ?ns 0 [] []" using W n by (auto simp: active_def done_edges_def)
  then show ?thesis using d by (auto simp: outer_inv_def searching_def)
qed

lemma dfs_acyclic:
  assumes "dfs b = Some b'" "fresh b" "length (bvf_in b) < 2 ^ 30"
    and "bvf_edge_type b' BACK_EDGE = 0"
  obtains fin where "finished (bvf_in b') fin" "0 \<in> set fin" "skel (bvf_in b') = skel (bvf_in b)"
proof -
  obtain n where o: "outer_inv (4 * length (bvf_in b)) (skel (bvf_in b)) n b'"
    and n: "n < length (bvf_in b')" "colour (bvf_in b' ! n) = BLACK"
    using dfs_from_inv [OF assms(1) [unfolded dfs_def] fresh_outer [OF assms(2,3)]] by blast
  then obtain fin where "finished (bvf_in b') fin" "0 \<in> set fin"
    using assms(4) by (auto simp: outer_inv_def searching_def active_def)
  then show ?thesis using that o by (auto simp: outer_inv_def dfs_inv_def)
qed

end
