(* ===== verification/BPF_Exec.thy ===== *)
theory BPF_Exec
  imports BPF_Def Mbuf_Read
begin

text \<open>
  The BPF interpreter, \<open>lib/bpf/bpf_exec.c\<close>. The file's macros are the constructors of
  \<open>action\<close>, the \<open>switch (ins->code)\<close> is the table \<open>bpf_switch\<close>, and \<open>exec_action\<close> gives each
  macro's effect. The C operator and cast a macro is instantiated with are its arguments.
\<close>

section \<open>Operators and casts\<close>

datatype alu_op = Add | Sub | And | Or | Lsh | Rsh | Xor | Mul | Div | Mod
datatype cmp_op = CEq | CNe | CGt | CLt | CGe | CLe | CAnd
datatype ctype = Uint32 | Uint64 | Int64

text \<open>
  The binary operators on \<open>uint32_t\<close> and \<open>uint64_t\<close>. Division by zero and shifts by the
  width or more are undefined.
\<close>

fun alu32 :: "alu_op \<Rightarrow> u32 \<Rightarrow> u32 \<Rightarrow> u32 option" where
  "alu32 Add a b = Some (a + b)"
| "alu32 Sub a b = Some (a - b)"
| "alu32 And a b = Some (a AND b)"
| "alu32 Or a b = Some (a OR b)"
| "alu32 Lsh a b = (if b < 32 then Some (push_bit (unat b) a) else None)"
| "alu32 Rsh a b = (if b < 32 then Some (drop_bit (unat b) a) else None)"
| "alu32 Xor a b = Some (a XOR b)"
| "alu32 Mul a b = Some (a * b)"
| "alu32 Div a b = (if b = 0 then None else Some (a div b))"
| "alu32 Mod a b = (if b = 0 then None else Some (a mod b))"

fun alu64 :: "alu_op \<Rightarrow> u64 \<Rightarrow> u64 \<Rightarrow> u64 option" where
  "alu64 Add a b = Some (a + b)"
| "alu64 Sub a b = Some (a - b)"
| "alu64 And a b = Some (a AND b)"
| "alu64 Or a b = Some (a OR b)"
| "alu64 Lsh a b = (if b < 64 then Some (push_bit (unat b) a) else None)"
| "alu64 Rsh a b = (if b < 64 then Some (drop_bit (unat b) a) else None)"
| "alu64 Xor a b = Some (a XOR b)"
| "alu64 Mul a b = Some (a * b)"
| "alu64 Div a b = (if b = 0 then None else Some (a div b))"
| "alu64 Mod a b = (if b = 0 then None else Some (a mod b))"

text \<open>
  \<open>(type)a op (type)b\<close>, converted back to \<open>uint64_t\<close>. On \<open>int64_t\<close> the switch uses \<open>>>\<close> only;
  a negative count is a large unsigned one.
\<close>

fun op_alu :: "alu_op \<Rightarrow> ctype \<Rightarrow> u64 \<Rightarrow> u64 \<Rightarrow> u64 option" where
  "op_alu p Uint32 a b = map_option ucast (alu32 p (ucast a) (ucast b))"
| "op_alu p Uint64 a b = alu64 p a b"
| "op_alu p Int64 a b = (if p = Rsh \<and> b < 64 then Some (signed_drop_bit (unat b) a) else None)"

text \<open>\<open>(type)v\<close> as a \<open>uint64_t\<close>, and the immediate operand \<open>(type)(ins)->imm\<close>.\<close>

fun cast :: "ctype \<Rightarrow> u64 \<Rightarrow> u64" where
  "cast Uint32 v = ucast (ucast v :: u32)"
| "cast Uint64 v = v"
| "cast Int64 v = v"

definition imm64 :: "ebpf_insn \<Rightarrow> u64" where "imm64 i = scast (imm i)"

fun cmp_alu :: "cmp_op \<Rightarrow> ctype \<Rightarrow> u64 \<Rightarrow> u64 \<Rightarrow> bool" where
  "cmp_alu CEq _ a b = (a = b)"
| "cmp_alu CNe _ a b = (a \<noteq> b)"
| "cmp_alu CAnd _ a b = (a AND b \<noteq> 0)"
| "cmp_alu CGt Int64 a b = (sint a > sint b)"
| "cmp_alu CGt _ a b = (a > b)"
| "cmp_alu CLt Int64 a b = (sint a < sint b)"
| "cmp_alu CLt _ a b = (a < b)"
| "cmp_alu CGe Int64 a b = (sint a \<ge> sint b)"
| "cmp_alu CGe _ a b = (a \<ge> b)"
| "cmp_alu CLe Int64 a b = (sint a \<le> sint b)"
| "cmp_alu CLe _ a b = (a \<le> b)"

section \<open>The switch\<close>

datatype action =
    BPF_JMP_UNC
  | BPF_JMP_CND_REG cmp_op ctype
  | BPF_JMP_CND_IMM cmp_op ctype
  | BPF_NEG_ALU ctype
  | EBPF_MOV_ALU_REG ctype
  | BPF_OP_ALU_REG alu_op ctype
  | BPF_DIV_ZERO_CHECK_OP_ALU_REG alu_op ctype
  | EBPF_MOV_ALU_IMM ctype
  | BPF_OP_ALU_IMM alu_op ctype
  | BPF_ALU_BE
  | BPF_ALU_LE
  | BPF_LD_REG nat
  | BPF_ST_IMM nat
  | BPF_ST_REG nat
  | BPF_ST_XADD_REG nat
  | BPF_LD_IMM64
  | BPF_LD_ABS nat
  | BPF_LD_IND nat
  | CALL_FUNC
  | EXIT_PROG

definition switch_alu32 :: "(u8 \<times> action) list" where
  "switch_alu32 = [
     \<comment> \<open>32 bit ALU IMM operations\<close>
     (BPF_ALU OR BPF_ADD OR BPF_K, BPF_OP_ALU_IMM Add Uint32),
     (BPF_ALU OR BPF_SUB OR BPF_K, BPF_OP_ALU_IMM Sub Uint32),
     (BPF_ALU OR BPF_AND OR BPF_K, BPF_OP_ALU_IMM And Uint32),
     (BPF_ALU OR BPF_OR OR BPF_K, BPF_OP_ALU_IMM Or Uint32),
     (BPF_ALU OR BPF_LSH OR BPF_K, BPF_OP_ALU_IMM Lsh Uint32),
     (BPF_ALU OR BPF_RSH OR BPF_K, BPF_OP_ALU_IMM Rsh Uint32),
     (BPF_ALU OR BPF_XOR OR BPF_K, BPF_OP_ALU_IMM Xor Uint32),
     (BPF_ALU OR BPF_MUL OR BPF_K, BPF_OP_ALU_IMM Mul Uint32),
     (BPF_ALU OR BPF_DIV OR BPF_K, BPF_OP_ALU_IMM Div Uint32),
     (BPF_ALU OR BPF_MOD OR BPF_K, BPF_OP_ALU_IMM Mod Uint32),
     (BPF_ALU OR EBPF_MOV OR BPF_K, EBPF_MOV_ALU_IMM Uint32),
     \<comment> \<open>32 bit ALU REG operations\<close>
     (BPF_ALU OR BPF_ADD OR BPF_X, BPF_OP_ALU_REG Add Uint32),
     (BPF_ALU OR BPF_SUB OR BPF_X, BPF_OP_ALU_REG Sub Uint32),
     (BPF_ALU OR BPF_AND OR BPF_X, BPF_OP_ALU_REG And Uint32),
     (BPF_ALU OR BPF_OR OR BPF_X, BPF_OP_ALU_REG Or Uint32),
     (BPF_ALU OR BPF_LSH OR BPF_X, BPF_OP_ALU_REG Lsh Uint32),
     (BPF_ALU OR BPF_RSH OR BPF_X, BPF_OP_ALU_REG Rsh Uint32),
     (BPF_ALU OR BPF_XOR OR BPF_X, BPF_OP_ALU_REG Xor Uint32),
     (BPF_ALU OR BPF_MUL OR BPF_X, BPF_OP_ALU_REG Mul Uint32),
     (BPF_ALU OR BPF_DIV OR BPF_X, BPF_DIV_ZERO_CHECK_OP_ALU_REG Div Uint32),
     (BPF_ALU OR BPF_MOD OR BPF_X, BPF_DIV_ZERO_CHECK_OP_ALU_REG Mod Uint32),
     (BPF_ALU OR EBPF_MOV OR BPF_X, EBPF_MOV_ALU_REG Uint32),
     (BPF_ALU OR BPF_NEG, BPF_NEG_ALU Uint32),
     (BPF_ALU OR EBPF_END OR EBPF_TO_BE, BPF_ALU_BE),
     (BPF_ALU OR EBPF_END OR EBPF_TO_LE, BPF_ALU_LE)]"

definition switch_alu64 :: "(u8 \<times> action) list" where
  "switch_alu64 = [
     \<comment> \<open>64 bit ALU IMM operations\<close>
     (EBPF_ALU64 OR BPF_ADD OR BPF_K, BPF_OP_ALU_IMM Add Uint64),
     (EBPF_ALU64 OR BPF_SUB OR BPF_K, BPF_OP_ALU_IMM Sub Uint64),
     (EBPF_ALU64 OR BPF_AND OR BPF_K, BPF_OP_ALU_IMM And Uint64),
     (EBPF_ALU64 OR BPF_OR OR BPF_K, BPF_OP_ALU_IMM Or Uint64),
     (EBPF_ALU64 OR BPF_LSH OR BPF_K, BPF_OP_ALU_IMM Lsh Uint64),
     (EBPF_ALU64 OR BPF_RSH OR BPF_K, BPF_OP_ALU_IMM Rsh Uint64),
     (EBPF_ALU64 OR EBPF_ARSH OR BPF_K, BPF_OP_ALU_IMM Rsh Int64),
     (EBPF_ALU64 OR BPF_XOR OR BPF_K, BPF_OP_ALU_IMM Xor Uint64),
     (EBPF_ALU64 OR BPF_MUL OR BPF_K, BPF_OP_ALU_IMM Mul Uint64),
     (EBPF_ALU64 OR BPF_DIV OR BPF_K, BPF_OP_ALU_IMM Div Uint64),
     (EBPF_ALU64 OR BPF_MOD OR BPF_K, BPF_OP_ALU_IMM Mod Uint64),
     (EBPF_ALU64 OR EBPF_MOV OR BPF_K, EBPF_MOV_ALU_IMM Uint64),
     \<comment> \<open>64 bit ALU REG operations\<close>
     (EBPF_ALU64 OR BPF_ADD OR BPF_X, BPF_OP_ALU_REG Add Uint64),
     (EBPF_ALU64 OR BPF_SUB OR BPF_X, BPF_OP_ALU_REG Sub Uint64),
     (EBPF_ALU64 OR BPF_AND OR BPF_X, BPF_OP_ALU_REG And Uint64),
     (EBPF_ALU64 OR BPF_OR OR BPF_X, BPF_OP_ALU_REG Or Uint64),
     (EBPF_ALU64 OR BPF_LSH OR BPF_X, BPF_OP_ALU_REG Lsh Uint64),
     (EBPF_ALU64 OR BPF_RSH OR BPF_X, BPF_OP_ALU_REG Rsh Uint64),
     (EBPF_ALU64 OR EBPF_ARSH OR BPF_X, BPF_OP_ALU_REG Rsh Int64),
     (EBPF_ALU64 OR BPF_XOR OR BPF_X, BPF_OP_ALU_REG Xor Uint64),
     (EBPF_ALU64 OR BPF_MUL OR BPF_X, BPF_OP_ALU_REG Mul Uint64),
     (EBPF_ALU64 OR BPF_DIV OR BPF_X, BPF_DIV_ZERO_CHECK_OP_ALU_REG Div Uint64),
     (EBPF_ALU64 OR BPF_MOD OR BPF_X, BPF_DIV_ZERO_CHECK_OP_ALU_REG Mod Uint64),
     (EBPF_ALU64 OR EBPF_MOV OR BPF_X, EBPF_MOV_ALU_REG Uint64),
     (EBPF_ALU64 OR BPF_NEG, BPF_NEG_ALU Uint64)]"

definition switch_mem :: "(u8 \<times> action) list" where
  "switch_mem = [
     \<comment> \<open>load instructions\<close>
     (BPF_LDX OR BPF_MEM OR BPF_B, BPF_LD_REG 1),
     (BPF_LDX OR BPF_MEM OR BPF_H, BPF_LD_REG 2),
     (BPF_LDX OR BPF_MEM OR BPF_W, BPF_LD_REG 4),
     (BPF_LDX OR BPF_MEM OR EBPF_DW, BPF_LD_REG 8),
     \<comment> \<open>load 64 bit immediate value\<close>
     (BPF_LD OR BPF_IMM OR EBPF_DW, BPF_LD_IMM64),
     \<comment> \<open>load absolute instructions\<close>
     (BPF_LD OR BPF_ABS OR BPF_B, BPF_LD_ABS 1),
     (BPF_LD OR BPF_ABS OR BPF_H, BPF_LD_ABS 2),
     (BPF_LD OR BPF_ABS OR BPF_W, BPF_LD_ABS 4),
     \<comment> \<open>load indirect instructions\<close>
     (BPF_LD OR BPF_IND OR BPF_B, BPF_LD_IND 1),
     (BPF_LD OR BPF_IND OR BPF_H, BPF_LD_IND 2),
     (BPF_LD OR BPF_IND OR BPF_W, BPF_LD_IND 4),
     \<comment> \<open>store instructions\<close>
     (BPF_STX OR BPF_MEM OR BPF_B, BPF_ST_REG 1),
     (BPF_STX OR BPF_MEM OR BPF_H, BPF_ST_REG 2),
     (BPF_STX OR BPF_MEM OR BPF_W, BPF_ST_REG 4),
     (BPF_STX OR BPF_MEM OR EBPF_DW, BPF_ST_REG 8),
     (BPF_ST OR BPF_MEM OR BPF_B, BPF_ST_IMM 1),
     (BPF_ST OR BPF_MEM OR BPF_H, BPF_ST_IMM 2),
     (BPF_ST OR BPF_MEM OR BPF_W, BPF_ST_IMM 4),
     (BPF_ST OR BPF_MEM OR EBPF_DW, BPF_ST_IMM 8),
     \<comment> \<open>atomic add instructions\<close>
     (BPF_STX OR EBPF_XADD OR BPF_W, BPF_ST_XADD_REG 4),
     (BPF_STX OR EBPF_XADD OR EBPF_DW, BPF_ST_XADD_REG 8)]"

definition switch_jmp :: "(u8 \<times> action) list" where
  "switch_jmp = [
     \<comment> \<open>jump instructions\<close>
     (BPF_JMP OR BPF_JA, BPF_JMP_UNC),
     \<comment> \<open>jump IMM instructions\<close>
     (BPF_JMP OR BPF_JEQ OR BPF_K, BPF_JMP_CND_IMM CEq Uint64),
     (BPF_JMP OR EBPF_JNE OR BPF_K, BPF_JMP_CND_IMM CNe Uint64),
     (BPF_JMP OR BPF_JGT OR BPF_K, BPF_JMP_CND_IMM CGt Uint64),
     (BPF_JMP OR EBPF_JLT OR BPF_K, BPF_JMP_CND_IMM CLt Uint64),
     (BPF_JMP OR BPF_JGE OR BPF_K, BPF_JMP_CND_IMM CGe Uint64),
     (BPF_JMP OR EBPF_JLE OR BPF_K, BPF_JMP_CND_IMM CLe Uint64),
     (BPF_JMP OR EBPF_JSGT OR BPF_K, BPF_JMP_CND_IMM CGt Int64),
     (BPF_JMP OR EBPF_JSLT OR BPF_K, BPF_JMP_CND_IMM CLt Int64),
     (BPF_JMP OR EBPF_JSGE OR BPF_K, BPF_JMP_CND_IMM CGe Int64),
     (BPF_JMP OR EBPF_JSLE OR BPF_K, BPF_JMP_CND_IMM CLe Int64),
     (BPF_JMP OR BPF_JSET OR BPF_K, BPF_JMP_CND_IMM CAnd Uint64),
     \<comment> \<open>jump REG instructions\<close>
     (BPF_JMP OR BPF_JEQ OR BPF_X, BPF_JMP_CND_REG CEq Uint64),
     (BPF_JMP OR EBPF_JNE OR BPF_X, BPF_JMP_CND_REG CNe Uint64),
     (BPF_JMP OR BPF_JGT OR BPF_X, BPF_JMP_CND_REG CGt Uint64),
     (BPF_JMP OR EBPF_JLT OR BPF_X, BPF_JMP_CND_REG CLt Uint64),
     (BPF_JMP OR BPF_JGE OR BPF_X, BPF_JMP_CND_REG CGe Uint64),
     (BPF_JMP OR EBPF_JLE OR BPF_X, BPF_JMP_CND_REG CLe Uint64),
     (BPF_JMP OR EBPF_JSGT OR BPF_X, BPF_JMP_CND_REG CGt Int64),
     (BPF_JMP OR EBPF_JSLT OR BPF_X, BPF_JMP_CND_REG CLt Int64),
     (BPF_JMP OR EBPF_JSGE OR BPF_X, BPF_JMP_CND_REG CGe Int64),
     (BPF_JMP OR EBPF_JSLE OR BPF_X, BPF_JMP_CND_REG CLe Int64),
     (BPF_JMP OR BPF_JSET OR BPF_X, BPF_JMP_CND_REG CAnd Uint64),
     \<comment> \<open>call and return instructions\<close>
     (BPF_JMP OR EBPF_CALL, CALL_FUNC),
     (BPF_JMP OR EBPF_EXIT, EXIT_PROG)]"

definition bpf_switch :: "(u8 \<times> action) list" where
  "bpf_switch = switch_alu32 @ switch_alu64 @ switch_mem @ switch_jmp"

section \<open>One instruction\<close>

record exec_st =
  pc :: int
  reg :: "u64 list"
  emem :: mem

datatype exec_res = Next exec_st | Return u64 mem

definition rd_reg :: "exec_st \<Rightarrow> 4 word \<Rightarrow> u64 option" where
  "rd_reg st r = nth_opt (reg st) (unat r)"

definition wr_reg :: "exec_st \<Rightarrow> nat \<Rightarrow> u64 \<Rightarrow> exec_st option" where
  "wr_reg st r v = map_option (\<lambda>rs. st\<lparr>reg := rs\<rparr>) (upd_opt (reg st) r v)"

text \<open>The \<open>ins++\<close> of the loop.\<close>

definition next_ins :: "exec_st \<Rightarrow> exec_res" where "next_ins st = Next (st\<lparr>pc := pc st + 1\<rparr>)"

definition set_dst :: "exec_st \<Rightarrow> ebpf_insn \<Rightarrow> u64 \<Rightarrow> exec_res option" where
  "set_dst st i v = map_option next_ins (wr_reg st (unat (dst_reg i)) v)"

text \<open>\<open>ins += off\<close>, then \<open>ins++\<close>.\<close>

definition jump_by :: "exec_st \<Rightarrow> int \<Rightarrow> exec_res" where
  "jump_by st d = next_ins (st\<lparr>pc := pc st + d\<rparr>)"

text \<open>The \<open>rte_cpu_to_be_*\<close> of a little-endian machine and the \<open>rte_cpu_to_le_*\<close>.\<close>

definition bpf_alu_be :: "ebpf_insn \<Rightarrow> u64 \<Rightarrow> u64" where
  "bpf_alu_be i v =
     (if imm i = 16 then be_val (le_bytes 2 v)
      else if imm i = 32 then be_val (le_bytes 4 v)
      else if imm i = 64 then be_val (le_bytes 8 v)
      else v)"

definition bpf_alu_le :: "ebpf_insn \<Rightarrow> u64 \<Rightarrow> u64" where
  "bpf_alu_le i v =
     (if imm i = 16 then ucast (ucast v :: u16)
      else if imm i = 32 then ucast (ucast v :: u32)
      else if imm i = 64 then v
      else v)"

text \<open>The effective address \<open>reg + off\<close>.\<close>

definition eff_addr :: "u64 \<Rightarrow> ebpf_insn \<Rightarrow> u64" where "eff_addr base i = base + scast (off i)"

text \<open>\<open>bpf_ld_mbuf\<close> and the macros around it: R6 points to the mbuf, R0 gets the value.\<close>

definition bpf_ld_mbuf :: "exec_st \<Rightarrow> u32 \<Rightarrow> nat \<Rightarrow> u8 list option option" where
  "bpf_ld_mbuf st ofs n = do {
     mb \<leftarrow> nth_opt (reg st) EBPF_REG_6;
     rte_pktmbuf_read (emem st) mb ofs (of_nat n) }"

definition ld_mbuf_to_r0 :: "exec_st \<Rightarrow> u32 \<Rightarrow> nat \<Rightarrow> exec_res option" where
  "ld_mbuf_to_r0 st ofs n = do {
     p \<leftarrow> bpf_ld_mbuf st ofs n;
     (case p of
        None \<Rightarrow> Some (Return 0 (emem st))
      | Some bs \<Rightarrow> map_option next_ins (wr_reg st EBPF_REG_0 (be_val bs))) }"

definition call_func :: "rte_bpf_prm \<Rightarrow> ebpf_insn \<Rightarrow> exec_st \<Rightarrow> exec_res option" where
  "call_func p i st = do {
     x \<leftarrow> (if 0 \<le> sint (imm i) then nth_opt (xsym p) (unat (imm i)) else None);
     (case xsym_body x of
        RTE_BPF_XTYPE_FUNC val _ _ _ \<Rightarrow> do {
          r1 \<leftarrow> nth_opt (reg st) 1; r2 \<leftarrow> nth_opt (reg st) 2; r3 \<leftarrow> nth_opt (reg st) 3;
          r4 \<leftarrow> nth_opt (reg st) 4; r5 \<leftarrow> nth_opt (reg st) 5;
          (v, m) \<leftarrow> val r1 r2 r3 r4 r5 (emem st);
          map_option next_ins (wr_reg (st\<lparr>emem := m\<rparr>) EBPF_REG_0 v) }
      | _ \<Rightarrow> None) }"

definition ld_imm64 :: "rte_bpf_prm \<Rightarrow> ebpf_insn \<Rightarrow> exec_st \<Rightarrow> exec_res option" where
  "ld_imm64 p i st = do {
     i1 \<leftarrow> nth_opt (ins p) (nat (pc st) + 1);
     st1 \<leftarrow> wr_reg st (unat (dst_reg i)) (ucast (imm i) OR push_bit 32 (ucast (imm i1)));
     Some (jump_by st1 1) }"

fun exec_action :: "rte_bpf_prm \<Rightarrow> ebpf_insn \<Rightarrow> exec_st \<Rightarrow> action \<Rightarrow> exec_res option" where
  "exec_action p i st BPF_JMP_UNC = Some (jump_by st (sint (off i)))"
| "exec_action p i st (BPF_JMP_CND_REG c t) = do {
     a \<leftarrow> rd_reg st (dst_reg i); b \<leftarrow> rd_reg st (src_reg i);
     Some (jump_by st (if cmp_alu c t (cast t a) (cast t b) then sint (off i) else 0)) }"
| "exec_action p i st (BPF_JMP_CND_IMM c t) = do {
     a \<leftarrow> rd_reg st (dst_reg i);
     Some (jump_by st (if cmp_alu c t (cast t a) (cast t (imm64 i)) then sint (off i) else 0)) }"
| "exec_action p i st (BPF_NEG_ALU t) = do {
     a \<leftarrow> rd_reg st (dst_reg i); set_dst st i (cast t (- a)) }"
| "exec_action p i st (EBPF_MOV_ALU_REG t) = do {
     b \<leftarrow> rd_reg st (src_reg i); set_dst st i (cast t b) }"
| "exec_action p i st (BPF_OP_ALU_REG q t) = do {
     a \<leftarrow> rd_reg st (dst_reg i); b \<leftarrow> rd_reg st (src_reg i);
     v \<leftarrow> op_alu q t a b; set_dst st i v }"
| "exec_action p i st (BPF_DIV_ZERO_CHECK_OP_ALU_REG q t) = do {
     b \<leftarrow> rd_reg st (src_reg i);
     (if cast t b = 0 then Some (Return 0 (emem st))
      else do { a \<leftarrow> rd_reg st (dst_reg i); v \<leftarrow> op_alu q t a b; set_dst st i v }) }"
| "exec_action p i st (EBPF_MOV_ALU_IMM t) = set_dst st i (cast t (imm64 i))"
| "exec_action p i st (BPF_OP_ALU_IMM q t) = do {
     a \<leftarrow> rd_reg st (dst_reg i); v \<leftarrow> op_alu q t a (imm64 i); set_dst st i v }"
| "exec_action p i st BPF_ALU_BE = do {
     a \<leftarrow> rd_reg st (dst_reg i); set_dst st i (bpf_alu_be i a) }"
| "exec_action p i st BPF_ALU_LE = do {
     a \<leftarrow> rd_reg st (dst_reg i); set_dst st i (bpf_alu_le i a) }"
| "exec_action p i st (BPF_LD_REG n) = do {
     b \<leftarrow> rd_reg st (src_reg i); v \<leftarrow> load (emem st) n (eff_addr b i); set_dst st i v }"
| "exec_action p i st (BPF_ST_IMM n) = do {
     a \<leftarrow> rd_reg st (dst_reg i); m \<leftarrow> store (emem st) n (eff_addr a i) (imm64 i);
     Some (next_ins (st\<lparr>emem := m\<rparr>)) }"
| "exec_action p i st (BPF_ST_REG n) = do {
     a \<leftarrow> rd_reg st (dst_reg i); b \<leftarrow> rd_reg st (src_reg i);
     m \<leftarrow> store (emem st) n (eff_addr a i) b;
     Some (next_ins (st\<lparr>emem := m\<rparr>)) }"
| "exec_action p i st (BPF_ST_XADD_REG n) = do {
     a \<leftarrow> rd_reg st (dst_reg i); b \<leftarrow> rd_reg st (src_reg i);
     v \<leftarrow> load (emem st) n (eff_addr a i);
     m \<leftarrow> store (emem st) n (eff_addr a i) (v + b);
     Some (next_ins (st\<lparr>emem := m\<rparr>)) }"
| "exec_action p i st BPF_LD_IMM64 = ld_imm64 p i st"
| "exec_action p i st (BPF_LD_ABS n) = ld_mbuf_to_r0 st (imm i) n"
| "exec_action p i st (BPF_LD_IND n) = do {
     b \<leftarrow> rd_reg st (src_reg i); ld_mbuf_to_r0 st (ucast (b + imm64 i)) n }"
| "exec_action p i st CALL_FUNC = call_func p i st"
| "exec_action p i st EXIT_PROG = do {
     v \<leftarrow> nth_opt (reg st) EBPF_REG_0; Some (Return v (emem st)) }"

section \<open>The loop\<close>

definition fetch :: "rte_bpf_prm \<Rightarrow> int \<Rightarrow> ebpf_insn option" where
  "fetch p c = (if 0 \<le> c then nth_opt (ins p) (nat c) else None)"

text \<open>One turn of the loop; an unknown opcode is logged and the result is 0.\<close>

definition bpf_step :: "rte_bpf_prm \<Rightarrow> exec_st \<Rightarrow> exec_res option" where
  "bpf_step p st = do {
     i \<leftarrow> fetch p (pc st);
     (case map_of bpf_switch (code i) of
        None \<Rightarrow> Some (Return 0 (emem st))
      | Some a \<Rightarrow> exec_action p i st a) }"

text \<open>The outcome of a run that may take \<open>n\<close> turns of the loop.\<close>

datatype exec_outcome = Done u64 mem "u64 list" | Undefined | Out_of_fuel

fun bpf_run :: "nat \<Rightarrow> rte_bpf_prm \<Rightarrow> exec_st \<Rightarrow> exec_outcome" where
  "bpf_run 0 p st = Out_of_fuel"
| "bpf_run (Suc n) p st =
     (case bpf_step p st of
        None \<Rightarrow> Undefined
      | Some (Return v m) \<Rightarrow> Done v m (reg st)
      | Some (Next st') \<Rightarrow> bpf_run n p st')"

text \<open>\<open>bpf_exec\<close>: from the first instruction.\<close>

definition bpf_exec :: "nat \<Rightarrow> rte_bpf \<Rightarrow> u64 list \<Rightarrow> mem \<Rightarrow> exec_outcome" where
  "bpf_exec n bpf rs m = bpf_run n (prm bpf) \<lparr>pc = 0, reg = rs, emem = m\<rparr>"

text \<open>
  \<open>rte_bpf_exec_burst\<close>: the registers are one uninitialised array for the whole burst (\<open>rs\<close>), of
  which R1 and R10 are set for each context; \<open>stk\<close> is the address of the local stack array. The
  result is the list of return codes, or \<open>None\<close> when a run is undefined or does not return
  within the fuel.
\<close>

fun rte_bpf_exec_burst ::
  "nat \<Rightarrow> rte_bpf \<Rightarrow> u64 \<Rightarrow> u64 list \<Rightarrow> u64 list \<Rightarrow> mem \<Rightarrow> (u64 list \<times> mem) option" where
  "rte_bpf_exec_burst n bpf stk rs [] m = Some ([], m)"
| "rte_bpf_exec_burst n bpf stk rs (ctx # ctxs) m = do {
     rs1 \<leftarrow> upd_opt rs EBPF_REG_1 ctx;
     rs2 \<leftarrow> upd_opt rs1 EBPF_REG_10 (stk + of_nat MAX_BPF_STACK_SIZE);
     (case bpf_exec n bpf rs2 m of
        Done v m' rs' \<Rightarrow> do {
          (vs, m'') \<leftarrow> rte_bpf_exec_burst n bpf stk rs' ctxs m';
          Some (v # vs, m'') }
      | _ \<Rightarrow> None) }"

definition rte_bpf_exec :: "nat \<Rightarrow> rte_bpf \<Rightarrow> u64 \<Rightarrow> u64 list \<Rightarrow> u64 \<Rightarrow> mem \<Rightarrow> (u64 \<times> mem) option" where
  "rte_bpf_exec n bpf stk rs ctx m = do {
     (vs, m') \<leftarrow> rte_bpf_exec_burst n bpf stk rs [ctx] m;
     rc \<leftarrow> nth_opt vs 0;
     Some (rc, m') }"

end
