(* ===== verification/BPF_Verified.thy ===== *)
theory BPF_Verified
  imports BPF_Cfg_Build BPF_Cfg_Dfs BPF_Validate BPF_Exec
begin

text \<open>
  What the verifier's first pass gives the interpreter: a program it accepts runs to an end within
  as many turns as it has instructions, and never leaves its instructions or meets an unknown
  opcode. The one thing the first pass does not establish is that no jump goes into the second
  half of a 64-bit immediate load; the theorems have it as a hypothesis, and \<open>loop_accepted\<close> shows
  that it is needed.
\<close>

section \<open>Opcodes of valid instructions\<close>

text \<open>How the interpreter's table and the verifier's successors classify an opcode.\<close>

fun flow_ok :: "u8 \<Rightarrow> action \<Rightarrow> bool" where
  "flow_ok c BPF_JMP_UNC = (c = (BPF_JMP OR BPF_JA))"
| "flow_ok c (BPF_JMP_CND_REG _ _) = (c \<in> set jcc_codes)"
| "flow_ok c (BPF_JMP_CND_IMM _ _) = (c \<in> set jcc_codes)"
| "flow_ok c BPF_LD_IMM64 = (c = (BPF_LD OR BPF_IMM OR EBPF_DW))"
| "flow_ok c EXIT_PROG = (c = (BPF_JMP OR EBPF_EXIT))"
| "flow_ok c _ = (c \<noteq> (BPF_JMP OR BPF_JA) \<and> c \<notin> set jcc_codes \<and>
     c \<noteq> (BPF_LD OR BPF_IMM OR EBPF_DW) \<and> c \<noteq> (BPF_JMP OR EBPF_EXIT))"

lemma ins_chk_in_switch:
  "list_all (\<lambda>(c, _). case map_of bpf_switch c of None \<Rightarrow> False | Some a \<Rightarrow> flow_ok c a) ins_chk"
  by code_simp

lemma jcc_codes_other:
  "c \<in> set jcc_codes \<Longrightarrow> c \<noteq> (BPF_JMP OR BPF_JA) \<and>
     c \<noteq> (BPF_LD OR BPF_IMM OR EBPF_DW) \<and> c \<noteq> (BPF_JMP OR EBPF_EXIT)"
  by (auto simp: jcc_codes_def)

lemma check_syntax_opcode:
  assumes "check_syntax x = None"
  obtains a where "map_of bpf_switch (code x) = Some a" "flow_ok (code x) a"
proof -
  have "map_of ins_chk (code x) \<noteq> None"
    using assms by (auto simp: check_syntax_def ins_chk_at_def ent_def Let_def split: option.splits)
  then obtain e where "(code x, e) \<in> set ins_chk" by (auto dest: map_of_SomeD)
  then show ?thesis using ins_chk_in_switch that
    by (fastforce simp: list_all_iff split: option.splits)
qed

section \<open>The interpreter follows the edges\<close>

lemma pc_set_dst: "set_dst st i v = Some (Next st') \<Longrightarrow> pc st' = pc st + 1"
  by (auto simp: set_dst_def wr_reg_def next_ins_def)

lemma pc_jump_by [simp]: "jump_by st d = Next st' \<longleftrightarrow> st' = st\<lparr>pc := pc st + d + 1\<rparr>"
  by (auto simp: jump_by_def next_ins_def)

lemma pc_next_ins [simp]: "next_ins st = Next st' \<longleftrightarrow> st' = st\<lparr>pc := pc st + 1\<rparr>"
  by (auto simp: next_ins_def)

lemma pc_ld_mbuf: "ld_mbuf_to_r0 st ofs n = Some (Next st') \<Longrightarrow> pc st' = pc st + 1"
  by (auto simp: ld_mbuf_to_r0_def wr_reg_def next_ins_def split: bind_splits option.splits)

lemma exec_action_pc:
  assumes "exec_action p i st a = Some (Next st')"
  shows "case a of
      BPF_JMP_UNC \<Rightarrow> pc st' = pc st + sint (off i) + 1
    | BPF_JMP_CND_REG _ _ \<Rightarrow> pc st' = pc st + 1 \<or> pc st' = pc st + sint (off i) + 1
    | BPF_JMP_CND_IMM _ _ \<Rightarrow> pc st' = pc st + 1 \<or> pc st' = pc st + sint (off i) + 1
    | BPF_LD_IMM64 \<Rightarrow> pc st' = pc st + 2
    | EXIT_PROG \<Rightarrow> False
    | _ \<Rightarrow> pc st' = pc st + 1"
  using assms
  by (cases a)
    (auto simp: ld_imm64_def call_func_def wr_reg_def
       dest: pc_set_dst pc_ld_mbuf split: bind_splits if_splits xsym_union.splits prod.splits)

lemma jmp_dest_int:
  assumes "jmp_dest i x \<le> of_nat n" "i < n" "n < 2 ^ 30"
  shows "int (unat (jmp_dest i x)) = int i + sint (off x) + 1"
proof -
  let ?v = "int i + sint (off x) + 1"
  have r: "- (2 ^ 15) \<le> sint (off x)" "sint (off x) < 2 ^ 15"
    using sint_ge [of "off x"] sint_lt [of "off x"] by simp_all
  have n: "int n < 2 ^ 30" "int i < int n" using assms by simp_all
  have jd: "jmp_dest i x = word_of_int ?v"
    by (simp add: jmp_dest_def get_node_idx_def)
  have u: "uint (jmp_dest i x) = ?v mod 2 ^ 32" unfolding jd uint_word_of_int by simp
  have "uint (jmp_dest i x) \<le> uint (of_nat n :: u32)" using assms(1) by (simp add: word_le_def)
  moreover have "unat (of_nat n :: u32) = n" using assms(3) by (simp add: unat_of_nat)
  then have "uint (of_nat n :: u32) = int n" by (simp add: uint_nat)
  ultimately have le: "?v mod 2 ^ 32 \<le> int n" using u by simp
  have "0 \<le> ?v"
  proof (rule ccontr)
    assume "\<not> 0 \<le> ?v"
    then have "(?v + 2 ^ 32) mod 2 ^ 32 = ?v + 2 ^ 32"
      using r by (intro mod_pos_pos_trivial) auto
    then have "?v mod 2 ^ 32 = ?v + 2 ^ 32" unfolding mod_add_self2 .
    then show False using le r n by simp
  qed
  have "?v mod 2 ^ 32 = ?v" using n r \<open>0 \<le> ?v\<close> by (intro mod_pos_pos_trivial) simp_all
  then show ?thesis using u by simp
qed

lemma step_edge:
  assumes x: "fetch p (int i) = Some x" and pc: "pc st = int i" and len: "length (ins p) < 2 ^ 30"
    and s: "check_syntax x = None" and d: "\<forall>d \<in> set (succ_list i x). d \<le> nb_ins p"
    and step: "bpf_step p st = Some (Next st')"
  shows "\<exists>d \<in> set (succ_list i x). pc st' = int (unat d)"
proof -
  have i: "i < length (ins p)" using x by (auto simp: fetch_def)
  obtain a where a: "map_of bpf_switch (code x) = Some a" "flow_ok (code x) a"
    using check_syntax_opcode [OF s] by blast
  have e: "exec_action p x st a = Some (Next st')" using step x pc a by (auto simp: bpf_step_def)
  have n1: "int (unat (get_node_idx i + 1)) = int i + 1" "int (unat (get_node_idx i + 2)) = int i + 2"
    using i len by (simp_all add: get_node_idx_def unat_word_ariths unat_of_nat)
  have j: "int (unat (jmp_dest i x)) = int i + sint (off x) + 1"
    if "jmp_dest i x \<in> set (succ_list i x)"
    using jmp_dest_int [of i x "length (ins p)"] d that i len by (auto simp: nb_ins_def)
  show ?thesis
    using exec_action_pc [OF e] a(2) pc n1 j
    by (cases a) (auto simp: succ_list_def dest: jcc_codes_other)
qed

section \<open>Runs with a rank\<close>

text \<open>
  The interface between the verifier and the interpreter: a set of states that the steps of a
  program do not leave, on which every state can be fetched from and a rank goes down.
\<close>

locale ranked_program =
  fixes p :: rte_bpf_prm and good :: "exec_st \<Rightarrow> bool" and rank :: "exec_st \<Rightarrow> nat"
  assumes fetches: "good st \<Longrightarrow> \<exists>x. fetch p (pc st) = Some x \<and> map_of bpf_switch (code x) \<noteq> None"
    and steps: "good st \<Longrightarrow> bpf_step p st = Some (Next st') \<Longrightarrow> good st'"
    and rank_less: "good st \<Longrightarrow> bpf_step p st = Some (Next st') \<Longrightarrow> rank st' < rank st"
    and rank_pos: "good st \<Longrightarrow> 0 < rank st"
begin

lemma run_ends: "good st \<Longrightarrow> rank st \<le> n \<Longrightarrow> bpf_run n p st \<noteq> Out_of_fuel"
proof (induction n arbitrary: st)
  case 0
  then show ?case using rank_pos by fastforce
next
  case (Suc n)
  show ?case
  proof (cases "bpf_step p st")
    case (Some r)
    then show ?thesis
      using Suc.IH steps [OF Suc.prems(1)] rank_less [OF Suc.prems(1)] Suc.prems(2)
      by (cases r) fastforce+
  qed simp
qed

end

text \<open>The states a run goes through.\<close>

inductive reaches :: "rte_bpf_prm \<Rightarrow> exec_st \<Rightarrow> exec_st \<Rightarrow> bool" for p where
  reaches_refl: "reaches p st st"
| reaches_step: "reaches p st st' \<Longrightarrow> bpf_step p st' = Some (Next st'') \<Longrightarrow> reaches p st st''"

context ranked_program begin

lemma reaches_good: "reaches p st st' \<Longrightarrow> good st \<Longrightarrow> good st'"
  by (induction rule: reaches.induct) (auto dest: steps)

lemma reaches_fetches:
  "reaches p st st' \<Longrightarrow> good st \<Longrightarrow>
   \<exists>x. fetch p (pc st') = Some x \<and> map_of bpf_switch (code x) \<noteq> None"
  by (blast dest: reaches_good fetches)

end

section \<open>The rank of an accepted program\<close>

definition rank_of :: "nat list \<Rightarrow> nat \<Rightarrow> nat" where
  "rank_of fin i = length (dropWhile (\<lambda>x. x \<noteq> i) fin)"

lemma rank_of_pos: "i \<in> set fin \<Longrightarrow> 0 < rank_of fin i"
  by (induction fin) (auto simp: rank_of_def)

lemma rank_of_le: "rank_of fin i \<le> length fin"
  by (simp add: rank_of_def length_dropWhile_le)

lemma rank_of_succ:
  "topo ns fin \<Longrightarrow> distinct fin \<Longrightarrow> i \<in> set fin \<Longrightarrow> d \<in> node_succs (ns ! i) \<Longrightarrow>
   d \<in> set fin \<and> rank_of fin d < rank_of fin i"
proof (induction fin)
  case (Cons b bs)
  show ?case
  proof (cases "i = b")
    case True
    then have "d \<in> set bs" using Cons.prems by auto
    moreover from this have "d \<noteq> b" using Cons.prems by auto
    ultimately show ?thesis using True rank_of_le [of bs d] by (auto simp: rank_of_def)
  next
    case False
    then have "d \<in> set bs \<and> rank_of bs d < rank_of bs i" using Cons by auto
    moreover from this have "d \<noteq> b" using Cons.prems by auto
    ultimately show ?thesis using False by (auto simp: rank_of_def)
  qed
qed simp

text \<open>No instruction has a successor inside a 64-bit immediate load.\<close>

definition no_jump_into_imm64 :: "rte_bpf_prm \<Rightarrow> bool" where
  "no_jump_into_imm64 p =
     (let hs = heads (ins p) 0 in
      list_all (\<lambda>i. list_all (\<lambda>d. unat d < length (ins p) \<longrightarrow> unat d \<in> set hs)
                    (succ_list i (ins p ! i))) hs)"

text \<open>What the first pass establishes of a program, with the order in which it finished the nodes.\<close>

definition first_pass :: "rte_bpf_prm \<Rightarrow> nat list \<Rightarrow> bool" where
  "first_pass p fin \<longleftrightarrow> length (ins p) < 2 ^ 30 \<and> 0 \<in> set fin \<and> 0 \<in> set (heads (ins p) 0) \<and>
     length fin \<le> length (ins p) \<and>
     (\<forall>i \<in> set (heads (ins p) 0). check_syntax (ins p ! i) = None \<and>
        (\<forall>d \<in> set (succ_list i (ins p ! i)). d \<le> nb_ins p)) \<and>
     (\<forall>i \<in> set (heads (ins p) 0) \<inter> set fin. \<forall>d \<in> set (succ_list i (ins p ! i)).
        unat d \<in> set fin \<and> unat d \<in> set (heads (ins p) 0) \<and> rank_of fin (unat d) < rank_of fin i)"

lemma validate_ok:
  assumes "validate (bvf_init p) = Some (b, 0)"
  obtains b1 where "validate_loop (bvf_init p) (ins p) 0 0 = Some (b1, 0)" "dfs b1 = Some b"
    "bvf_edge_type b BACK_EDGE = 0"
    "bvf_node_colour b BLACK = nb_nodes b"
proof -
  obtain b1 rc where l: "validate_loop (bvf_init p) (ins p) 0 0 = Some (b1, rc)"
    using assms by (auto simp: validate_def bvf_init_def split: bind_splits)
  then have rc: "rc = 0" using assms by (auto simp: validate_def bvf_init_def split: if_splits bind_splits)
  then obtain b2 where "dfs b1 = Some b2"
    using assms l by (auto simp: validate_def bvf_init_def split: bind_splits)
  then show ?thesis using assms l rc that
    by (auto simp: validate_def bvf_init_def split: if_splits)
qed

lemma graph_fresh:
  assumes "graph_of xs b" "xs \<noteq> []"
  shows "fresh b"
proof -
  have "length (succ_list j x) \<le> 2" for j x by (simp add: succ_list_def)
  then show ?thesis using assms
    by (auto simp: graph_of_def fresh_def list_all_length built_def zero_node_def)
qed

lemma dfs_nonempty: "dfs b = Some b' \<Longrightarrow> bvf_in b \<noteq> []"
  by (auto simp: dfs_def dfs_from.simps dfs_turn_def get_node_Some split: bind_splits)

lemma validate_first_pass:
  assumes v: "validate (bvf_init p) = Some (b, 0)" and l: "length (ins p) < 2 ^ 30"
    and j: "no_jump_into_imm64 p"
  obtains fin where "first_pass p fin"
proof -
  let ?hs = "set (heads (ins p) 0)"
  obtain b1 where vl: "validate_loop (bvf_init p) (ins p) 0 0 = Some (b1, 0)"
    and d: "dfs b1 = Some b" and nb: "bvf_edge_type b BACK_EDGE = 0"
    using validate_ok [OF v] by blast
  note V = validate_loop_init [OF vl]
  have len: "length (bvf_in b1) = length (ins p)" using V(1) by (simp add: graph_of_def)
  have ne: "ins p \<noteq> []" using dfs_nonempty [OF d] len by auto
  obtain fin where fin: "finished (bvf_in b) fin" "0 \<in> set fin" "skel (bvf_in b) = skel (bvf_in b1)"
    using dfs_acyclic [OF d graph_fresh [OF V(1) ne]] len l nb by auto
  have lb: "length (bvf_in b) = length (ins p)"
    using arg_cong [OF fin(3), of length] len by (simp add: skel_def)
  have "distinct fin" and sub: "set fin \<subseteq> {..<length (ins p)}" and topo: "topo (bvf_in b) fin"
    using fin(1) lb by (auto simp: finished_def)
  then have lf: "length fin \<le> length (ins p)"
    using card_mono [OF _ sub] by (simp add: distinct_card)
  have "unat d \<in> set fin \<and> unat d \<in> ?hs \<and> rank_of fin (unat d) < rank_of fin i"
    if i: "i \<in> ?hs" "i \<in> set fin" and d: "d \<in> set (succ_list i (ins p ! i))" for i d
  proof -
    have il: "i < length (bvf_in b1)" using i sub len by auto
    have "node_succs (bvf_in b ! i) = node_succs (bvf_in b1 ! i)"
      by (rule node_succs_skel [OF fin(3) il])
    also have "\<dots> = set (map unat (succ_list i (ins p ! i)))"
      using V(1) i il len by (simp add: graph_of_def node_succs_def)
    finally have "unat d \<in> node_succs (bvf_in b ! i)" using d by auto
    then have r: "unat d \<in> set fin \<and> rank_of fin (unat d) < rank_of fin i"
      by (rule rank_of_succ [OF topo \<open>distinct fin\<close> i(2)])
    then have "unat d < length (ins p)" using sub by auto
    then have "unat d \<in> ?hs" using j i d by (auto simp: no_jump_into_imm64_def Let_def list_all_iff)
    then show ?thesis using r by blast
  qed
  then have "first_pass p fin"
    using l fin(2) heads_0 [OF ne] lf V(2,3) by (auto simp: first_pass_def)
  then show ?thesis by (rule that)
qed

text \<open>The states of a run of such a program, and the interpretation of the interface.\<close>

definition at_head :: "rte_bpf_prm \<Rightarrow> nat list \<Rightarrow> exec_st \<Rightarrow> bool" where
  "at_head p fin st \<longleftrightarrow> first_pass p fin \<and> 0 \<le> pc st \<and> nat (pc st) \<in> set fin \<and>
     nat (pc st) \<in> set (heads (ins p) 0)"

lemma fetch_int: "k < length (ins p) \<Longrightarrow> fetch p (int k) = Some (ins p ! k)"
  by (simp add: fetch_def)

lemma at_head_step:
  assumes a: "at_head p fin st" and s: "bpf_step p st = Some (Next st')"
  shows "at_head p fin st' \<and> rank_of fin (nat (pc st')) < rank_of fin (nat (pc st))"
proof -
  let ?i = "nat (pc st)"
  have pc: "pc st = int ?i" and i: "?i \<in> set fin" "?i \<in> set (heads (ins p) 0)" and f: "first_pass p fin"
    using a by (auto simp: at_head_def)
  have x: "fetch p (int ?i) = Some (ins p ! ?i)"
    by (rule fetch_int) (use heads_range [OF i(2)] in simp)
  obtain d where d: "d \<in> set (succ_list ?i (ins p ! ?i))" "pc st' = int (unat d)"
    using step_edge [OF x pc _ _ _ s] f i by (auto simp: first_pass_def)
  then have "unat d \<in> set fin \<and> unat d \<in> set (heads (ins p) 0) \<and> rank_of fin (unat d) < rank_of fin ?i"
    using f i by (auto simp: first_pass_def)
  then show ?thesis using d f by (auto simp: at_head_def)
qed

interpretation vrun: ranked_program p "at_head p fin" "\<lambda>st. rank_of fin (nat (pc st))" for p fin
proof unfold_locales
  fix st assume a: "at_head p fin st"
  let ?x = "ins p ! nat (pc st)"
  have h: "nat (pc st) \<in> set (heads (ins p) 0)" and "check_syntax ?x = None"
    using a by (auto simp: at_head_def first_pass_def)
  moreover have "fetch p (pc st) = Some ?x"
    using a heads_range [OF h] by (simp add: at_head_def fetch_def nth_opt_lt)
  ultimately show "\<exists>x. fetch p (pc st) = Some x \<and> map_of bpf_switch (code x) \<noteq> None"
    using check_syntax_opcode [of ?x] by (metis option.distinct(1))
next
  fix st st' assume "at_head p fin st" "bpf_step p st = Some (Next st')"
  from at_head_step [OF this]
  show "at_head p fin st'" "rank_of fin (nat (pc st')) < rank_of fin (nat (pc st))" by blast+
next
  fix st assume "at_head p fin st"
  then show "0 < rank_of fin (nat (pc st))" by (simp add: at_head_def rank_of_pos)
qed

lemma start_at_head: "first_pass p fin \<Longrightarrow> pc st = 0 \<Longrightarrow> at_head p fin st"
  by (simp add: at_head_def first_pass_def)

section \<open>Accepted programs\<close>

lemma bpf_validate_ok:
  assumes "bpf_validate io po bpf = Some (0, bpf')"
  obtains b where "validate (bvf_init (prm bpf)) = Some (b, 0)" "prm bpf' = prm bpf"
proof -
  obtain b rc where b: "validate (bvf_init (prm bpf)) = Some (b, rc)"
    using assms by (auto simp: bpf_validate_def Let_def split: if_splits bind_splits)
  moreover have "rc = 0" "prm bpf' = prm bpf"
    using assms b by (auto simp: bpf_validate_def Let_def split: if_splits bind_splits prod.splits)
  ultimately show ?thesis using that by blast
qed

text \<open>
  C1: a program that \<open>bpf_validate\<close> accepts, and that has no jump into the second half of a 64-bit
  immediate load, ends: \<open>bpf_exec\<close> leaves its loop within as many turns as the program has
  instructions, whatever the registers and the memory hold.
\<close>

theorem validated_program_ends:
  assumes "bpf_validate io po bpf = Some (0, bpf')"
    and "length (ins (prm bpf)) < 2 ^ 30" and "no_jump_into_imm64 (prm bpf)"
  shows "bpf_exec (length (ins (prm bpf))) bpf' rs m \<noteq> Out_of_fuel"
proof -
  obtain b where v: "validate (bvf_init (prm bpf)) = Some (b, 0)" and p: "prm bpf' = prm bpf"
    using bpf_validate_ok [OF assms(1)] by blast
  obtain fin where f: "first_pass (prm bpf) fin" using validate_first_pass [OF v assms(2,3)] by blast
  let ?st = "\<lparr>pc = 0, reg = rs, emem = m\<rparr>"
  have "at_head (prm bpf) fin ?st" using start_at_head [OF f] by simp
  moreover have "rank_of fin (nat (pc ?st)) \<le> length (ins (prm bpf))"
    using rank_of_le [of fin 0] f by (simp add: first_pass_def)
  ultimately show ?thesis using vrun.run_ends by (simp add: bpf_exec_def p)
qed

text \<open>A program with a conditional jump, for the examples.\<close>

definition prog_ret :: rte_bpf where
  "prog_ret = bpf_of raw_arg [
     mk_insn 0xb7 0 0 0 0,      \<comment> \<open>0: r0 = 0\<close>
     mk_insn 0x15 1 0 1 0,      \<comment> \<open>1: if r1 == 0 goto 3\<close>
     mk_insn 0xb7 0 0 0 1,      \<comment> \<open>2: r0 = 1\<close>
     mk_insn 0x95 0 0 0 0]"

lemma prog_ret_ok:
  obtains bpf' where "bpf_validate True True prog_ret = Some (0, bpf')"
proof -
  have "map_option fst (bpf_validate True True prog_ret) = Some 0" by code_simp
  then show ?thesis using that by auto
qed

lemma prog_ret_size: "length (ins (prm prog_ret)) = 4" "no_jump_into_imm64 (prm prog_ret)"
  by code_simp+

theorem validated_program_ends_witness:
  "\<exists>bpf'. bpf_validate True True prog_ret = Some (0, bpf') \<and>
     bpf_exec 4 bpf' (replicate 11 0) (\<lambda>_. None) \<noteq> Out_of_fuel"
proof -
  obtain bpf' where v: "bpf_validate True True prog_ret = Some (0, bpf')" by (rule prog_ret_ok)
  show ?thesis
    using v validated_program_ends [OF v _ prog_ret_size(2)] prog_ret_size(1) by auto
qed

text \<open>
  C2: in a run of such a program the interpreter is always at one of its instructions, and that
  instruction has a case in the switch.
\<close>

theorem validated_program_stays_inside:
  assumes "bpf_validate io po bpf = Some (0, bpf')"
    and "length (ins (prm bpf)) < 2 ^ 30" and "no_jump_into_imm64 (prm bpf)"
    and "reaches (prm bpf') \<lparr>pc = 0, reg = rs, emem = m\<rparr> st"
  shows "\<exists>x. fetch (prm bpf') (pc st) = Some x \<and> map_of bpf_switch (code x) \<noteq> None"
proof -
  obtain b where v: "validate (bvf_init (prm bpf)) = Some (b, 0)" and p: "prm bpf' = prm bpf"
    using bpf_validate_ok [OF assms(1)] by blast
  obtain fin where f: "first_pass (prm bpf) fin" using validate_first_pass [OF v assms(2,3)] by blast
  have "at_head (prm bpf) fin \<lparr>pc = 0, reg = rs, emem = m\<rparr>" using start_at_head [OF f] by simp
  then show ?thesis
    using vrun.reaches_fetches [OF assms(4) [unfolded p]] unfolding p by blast
qed

theorem validated_program_stays_inside_witness:
  "\<exists>bpf' x. bpf_validate True True prog_ret = Some (0, bpf') \<and>
     fetch (prm bpf') 0 = Some x \<and> map_of bpf_switch (code x) \<noteq> None"
proof -
  obtain bpf' where v: "bpf_validate True True prog_ret = Some (0, bpf')" by (rule prog_ret_ok)
  let ?st = "\<lparr>pc = 0, reg = replicate 11 0, emem = \<lambda>_. None\<rparr>"
  have "\<exists>x. fetch (prm bpf') (pc ?st) = Some x \<and> map_of bpf_switch (code x) \<noteq> None"
    by (rule validated_program_stays_inside [OF v _ prog_ret_size(2) reaches_refl])
      (simp add: prog_ret_size(1))
  then show ?thesis using v by simp
qed

end
