(* ===== verification/BPF_Eval_Sound.thy ===== *)
theory BPF_Eval_Sound
  imports BPF_Eval_Mem BPF_Exec
begin

text \<open>
  Soundness of the verifier's transfer functions: if the operands lie within the bounds kept for
  them, the interpreter's result lies within the bounds computed. The interface is the locale
  \<open>sound_transfer\<close>; this theory proves its laws, for the unsigned and for the signed bounds, for the 64-bit addition,
  subtraction and shifts,
  \<open>BPF_Eval_Props\<close> interprets it and draws the consequences.
\<close>

section \<open>Ranges\<close>

definition in_u :: "bpf_reg_val \<Rightarrow> u64 \<Rightarrow> bool" where
  "in_u r x \<longleftrightarrow> umin r \<le> x \<and> x \<le> umax r"

definition in_s :: "bpf_reg_val \<Rightarrow> u64 \<Rightarrow> bool" where
  "in_s r x \<longleftrightarrow> smin r \<le>s x \<and> x \<le>s smax r"

definition in_range :: "bpf_reg_val \<Rightarrow> u64 \<Rightarrow> bool" where
  "in_range r x \<longleftrightarrow> in_u r x \<and> in_s r x"

section \<open>64-bit words as integers\<close>

lemma sint_bounds: "- (2 ^ 63) \<le> sint (w :: u64)" "sint (w :: u64) < 2 ^ 63"
  using sint_ge [of w] sint_lt [of w] by simp_all

lemma uint_bounds: "0 \<le> uint (w :: u64)" "uint (w :: u64) < 2 ^ 64"
  using uint_lt2p [of w] by simp_all

lemma signed_take_bit_64:
  assumes "- (2 ^ 64) \<le> k" "k < 2 ^ 64"
  shows "signed_take_bit 63 (k :: int) =
    (if k < - (2 ^ 63) then k + 2 ^ 64 else if k < 2 ^ 63 then k else k - 2 ^ 64)"
proof -
  have "signed_take_bit 63 k = (k + 2 ^ 63) mod 2 ^ 64 - 2 ^ 63"
    by (simp add: signed_take_bit_eq_take_bit_shift take_bit_eq_mod)
  moreover have "(k + 2 ^ 63) mod 2 ^ 64 =
    (if k < - (2 ^ 63) then k + 2 ^ 63 + 2 ^ 64 else if k < 2 ^ 63 then k + 2 ^ 63 else k + 2 ^ 63 - 2 ^ 64)"
  proof -
    have "(k + 2 ^ 63) mod 2 ^ 64 = (k + 2 ^ 63 + 2 ^ 64) mod 2 ^ 64"
      "(k + 2 ^ 63) mod 2 ^ 64 = (k + 2 ^ 63 - 2 ^ 64) mod 2 ^ 64"
      unfolding mod_add_self2 minus_mod_self2 by (rule refl)+
    then show ?thesis using assms by (simp add: mod_pos_pos_trivial split del: if_split) (auto simp: mod_pos_pos_trivial)
  qed
  ultimately show ?thesis by simp
qed

lemma sint_plus64: "sint (a + b :: u64) =
    (if sint a + sint b < - (2 ^ 63) then sint a + sint b + 2 ^ 64
     else if sint a + sint b < 2 ^ 63 then sint a + sint b else sint a + sint b - 2 ^ 64)"
proof -
  have "sint (a + b) = signed_take_bit 63 (sint a + sint b)" by (simp add: sint_word_ariths)
  then show ?thesis using signed_take_bit_64 [of "sint a + sint b"] sint_bounds [of a] sint_bounds [of b]
    by simp
qed

lemma sint_minus64: "sint (a - b :: u64) =
    (if sint a - sint b < - (2 ^ 63) then sint a - sint b + 2 ^ 64
     else if sint a - sint b < 2 ^ 63 then sint a - sint b else sint a - sint b - 2 ^ 64)"
proof -
  have "sint (a - b) = signed_take_bit 63 (sint a - sint b)" by (simp add: sint_word_ariths)
  then show ?thesis using signed_take_bit_64 [of "sint a - sint b"] sint_bounds [of a] sint_bounds [of b]
    by simp
qed

lemma sint_uint64: "sint (w :: u64) = (if uint w < 2 ^ 63 then uint w else uint w - 2 ^ 64)"
proof -
  have "sint w = signed_take_bit 63 (uint w)" by (simp add: sint_uint)
  then show ?thesis using signed_take_bit_64 [of "uint w"] uint_bounds [of w] by simp
qed

lemma smax_bound_64:
  "smin (eval_smax_bound UINT64_MAX r) = 0x8000000000000000"
  "smax (eval_smax_bound UINT64_MAX r) = 0x7fffffffffffffff"
proof -
  have "drop_bit 1 UINT64_MAX XOR UINT64_MAX = 0x8000000000000000"
    "drop_bit 1 UINT64_MAX = 0x7fffffffffffffff" by code_simp+
  then show "smin (eval_smax_bound UINT64_MAX r) = 0x8000000000000000"
    "smax (eval_smax_bound UINT64_MAX r) = 0x7fffffffffffffff"
    unfolding eval_smax_bound_def Let_def by simp_all
qed

lemma top_s: "in_s (eval_smax_bound UINT64_MAX r) x"
  using sint_bounds [of x] by (simp add: in_s_def smax_bound_64 word_sle_eq sint_uint64)

lemma top_u: "in_u (eval_umax_bound UINT64_MAX r) x"
  by (simp add: in_u_def eval_umax_bound_def)

lemma in_u_smax [simp]: "in_u (eval_smax_bound m r) x = in_u r x"
  by (simp add: in_u_def eval_smax_bound_def Let_def)

lemma in_s_umax [simp]: "in_s (eval_umax_bound m r) x = in_s r x"
  by (simp add: in_s_def eval_umax_bound_def)

lemma top_range: "in_range (eval_max_bound UINT64_MAX r) x"
  by (simp add: in_range_def eval_max_bound_def top_s) (simp add: top_u)

section \<open>The interface\<close>

locale sound_transfer =
  fixes abs_op :: "bpf_reg_val \<Rightarrow> bpf_reg_val \<Rightarrow> bpf_reg_val option"
    and con_op :: "u64 \<Rightarrow> u64 \<Rightarrow> u64 option"
    and pre_u pre_s :: "bpf_reg_val \<Rightarrow> bpf_reg_val \<Rightarrow> bool"
  assumes sound_u: "pre_u rd rs \<Longrightarrow> abs_op rd rs = Some r \<Longrightarrow> in_range rd x \<Longrightarrow> in_range rs y \<Longrightarrow>
      con_op x y = Some z \<Longrightarrow> in_u r z"
    and sound_s: "pre_s rd rs \<Longrightarrow> abs_op rd rs = Some r \<Longrightarrow> in_range rd x \<Longrightarrow> in_range rs y \<Longrightarrow>
      con_op x y = Some z \<Longrightarrow> in_s r z"
begin

lemma sound:
  "pre_u rd rs \<Longrightarrow> pre_s rd rs \<Longrightarrow> abs_op rd rs = Some r \<Longrightarrow> in_range rd x \<Longrightarrow> in_range rs y \<Longrightarrow> con_op x y = Some z \<Longrightarrow> in_range r z"
  using sound_u sound_s by (simp add: in_range_def)

end

section \<open>Addition and subtraction\<close>

text \<open>The bounds of a sum, as the code computes them, and of a difference.\<close>

lemma add_bounds:
  defines "r rd rs \<equiv> eval_add rd rs UINT64_MAX"
  shows "umin (r rd rs) = (if (umin rd \<noteq> umax rd \<or> umin rs \<noteq> umax rs) \<and>
        (umin rd + umin rs < umin rd \<or> umax rd + umax rs < umax rd) then 0 else umin rd + umin rs)"
    and "umax (r rd rs) = (if (umin rd \<noteq> umax rd \<or> umin rs \<noteq> umax rs) \<and>
        (umin rd + umin rs < umin rd \<or> umax rd + umax rs < umax rd) then UINT64_MAX
        else umax rd + umax rs)"
    and "in_s (r rd rs) z \<longleftrightarrow>
      (smin rd \<noteq> smax rd \<or> smin rs \<noteq> smax rs) \<and>
        ((smin rs <s 0 \<and> smin rd <s smin rd + smin rs) \<or> smin rd + smin rs <s smin rd \<or>
         (smax rs <s 0 \<and> smax rd <s smax rd + smax rs) \<or> smax rd + smax rs <s smax rd) \<or>
      (smin rd + smin rs \<le>s z \<and> z \<le>s smax rd + smax rs)"
    and "rv_v (r rd rs) = rv_v rd" and "rv_mask (r rd rs) = rv_mask rd"
  unfolding r_def
  by (simp_all add: eval_add_def Let_def eval_umax_bound_def top_s)
    (auto simp: in_s_def eval_smax_bound_def Let_def)

lemma sub_bounds:
  defines "r rd rs \<equiv> eval_sub rd rs UINT64_MAX"
  shows "umin (r rd rs) = (if (umin rd \<noteq> umax rd \<or> umin rs \<noteq> umax rs) \<and>
        (umin rd < umin rd - umax rs \<or> umax rd < umax rd - umin rs) then 0 else umin rd - umax rs)"
    and "umax (r rd rs) = (if (umin rd \<noteq> umax rd \<or> umin rs \<noteq> umax rs) \<and>
        (umin rd < umin rd - umax rs \<or> umax rd < umax rd - umin rs) then UINT64_MAX
        else umax rd - umin rs)"
    and "in_s (r rd rs) z \<longleftrightarrow>
      (smin rd \<noteq> smax rd \<or> smin rs \<noteq> smax rs) \<and>
        ((smin rs <s 0 \<and> smin rd - smax rs <s smin rd) \<or> smin rd <s smin rd - smax rs \<or>
         (smax rs <s 0 \<and> smax rd - smin rs <s smax rd) \<or> smax rd <s smax rd - smin rs) \<or>
      (smin rd - smax rs \<le>s z \<and> z \<le>s smax rd - smin rs)"
  unfolding r_def
  by (simp_all add: eval_sub_def Let_def eval_umax_bound_def top_s)
    (auto simp: in_s_def eval_smax_bound_def Let_def)

lemma in_u_const: "in_u r x \<Longrightarrow> umin r = umax r \<Longrightarrow> x = umax r"
  by (auto simp: in_u_def)

lemma in_s_const: "in_s r x \<Longrightarrow> smin r = smax r \<Longrightarrow> x = smax r"
  unfolding in_s_def word_sle_eq by (metis order_antisym signed_word_eqI)

lemma add_u:
  assumes "in_u rd x" "in_u rs y"
  shows "in_u (eval_add rd rs UINT64_MAX) (x + y)"
proof (cases "(umin rd \<noteq> umax rd \<or> umin rs \<noteq> umax rs) \<and>
    (umin rd + umin rs < umin rd \<or> umax rd + umax rs < umax rd)")
  case True
  then show ?thesis by (simp add: in_u_def add_bounds)
next
  case False
  show ?thesis
  proof (cases "umin rd = umax rd \<and> umin rs = umax rs")
    case True
    then show ?thesis using assms in_u_const [of rd x] in_u_const [of rs y] by (simp add: in_u_def add_bounds)
  next
    case nc: False
    then have "umin rd \<le> umin rd + umin rs" "umax rd \<le> umax rd + umax rs" using False by auto
    then have "umin rd + umin rs \<le> x + y \<and> x + y \<le> umax rd + umax rs"
      using assms unfolding in_u_def by unat_arith
    then show ?thesis using False by (simp add: in_u_def add_bounds)
  qed
qed

lemma sub_u:
  assumes "in_u rd x" "in_u rs y"
  shows "in_u (eval_sub rd rs UINT64_MAX) (x - y)"
proof (cases "(umin rd \<noteq> umax rd \<or> umin rs \<noteq> umax rs) \<and>
    (umin rd < umin rd - umax rs \<or> umax rd < umax rd - umin rs)")
  case True
  then show ?thesis by (simp add: in_u_def sub_bounds)
next
  case False
  show ?thesis
  proof (cases "umin rd = umax rd \<and> umin rs = umax rs")
    case True
    then show ?thesis using assms in_u_const [of rd x] in_u_const [of rs y] by (simp add: in_u_def sub_bounds)
  next
    case nc: False
    then have "umin rd - umax rs \<le> umin rd" "umax rd - umin rs \<le> umax rd" using False by auto
    then have "umin rd - umax rs \<le> x - y \<and> x - y \<le> umax rd - umin rs"
      using assms unfolding in_u_def by unat_arith
    then show ?thesis using False by (simp add: in_u_def sub_bounds)
  qed
qed

lemma signed_add_kept:
  fixes a b c d x y :: u64
  assumes r: "a \<le>s x" "x \<le>s b" "c \<le>s y" "y \<le>s d"
    and k: "\<not> (c <s 0 \<and> a <s a + c)" "\<not> a + c <s a" "\<not> (d <s 0 \<and> b <s b + d)" "\<not> b + d <s b"
  shows "a + c \<le>s x + y \<and> x + y \<le>s b + d"
proof -
  note B = sint_bounds [of a] sint_bounds [of b] sint_bounds [of c] sint_bounds [of d]
  have "0 \<le> sint c" using k(1,2) B(1,2,5,6) sint_plus64 [of a c]
    unfolding word_sless_alt by (simp split: if_splits)
  then have 1: "sint (a + c) = sint a + sint c" using k(2) B(1,2,5,6) sint_plus64 [of a c]
    unfolding word_sless_alt by (simp split: if_splits)
  have "0 \<le> sint d" using k(3,4) B(3,4,7,8) sint_plus64 [of b d]
    unfolding word_sless_alt by (simp split: if_splits)
  then have 2: "sint (b + d) = sint b + sint d" using k(4) B(3,4,7,8) sint_plus64 [of b d]
    unfolding word_sless_alt by (simp split: if_splits)
  have "- (2 ^ 63) \<le> sint x + sint y" "sint x + sint y < 2 ^ 63"
    using r 1 2 sint_bounds [of "a + c"] sint_bounds [of "b + d"] unfolding word_sle_eq by linarith+
  then have "sint (x + y) = sint x + sint y" by (simp add: sint_plus64)
  then show ?thesis using r 1 2 unfolding word_sle_eq by linarith
qed

lemma signed_sub_kept:
  fixes a b c d x y :: u64
  assumes r: "a \<le>s x" "x \<le>s b" "c \<le>s y" "y \<le>s d" and z: "c <s 0 \<longrightarrow> d \<noteq> 0"
    and k: "\<not> (c <s 0 \<and> a - d <s a)" "\<not> a <s a - d" "\<not> (d <s 0 \<and> b - c <s b)" "\<not> b <s b - c"
  shows "a - d \<le>s x - y \<and> x - y \<le>s b - c"
proof -
  note B = sint_bounds [of a] sint_bounds [of b] sint_bounds [of c] sint_bounds [of d]
  have c: "0 \<le> sint c"
  proof (rule ccontr)
    assume n: "\<not> 0 \<le> sint c"
    then have "sint (a - d) = sint a" using k(1,2) unfolding word_sless_alt by simp
    then have "sint d = 0" using B(1,2,7,8) sint_minus64 [of a d] by (simp split: if_splits)
    then have "d = 0" by (metis signed_word_eqI signed_0)
    then show False using z n by (simp add: word_sless_alt)
  qed
  then have "0 \<le> sint d" using r unfolding word_sle_eq by linarith
  then have 1: "sint (a - d) = sint a - sint d" using k(2) B(1,2,7,8) sint_minus64 [of a d]
    unfolding word_sless_alt by (simp split: if_splits)
  have 2: "sint (b - c) = sint b - sint c" using c k(4) B(3,4,5,6) sint_minus64 [of b c]
    unfolding word_sless_alt by (simp split: if_splits)
  have "- (2 ^ 63) \<le> sint x - sint y" "sint x - sint y < 2 ^ 63"
    using r 1 2 sint_bounds [of "a - d"] sint_bounds [of "b - c"] unfolding word_sle_eq by linarith+
  then have "sint (x - y) = sint x - sint y" by (simp add: sint_minus64)
  then show ?thesis using r 1 2 unfolding word_sle_eq by linarith
qed

lemma add_s:
  assumes "in_s rd x" "in_s rs y"
  shows "in_s (eval_add rd rs UINT64_MAX) (x + y)"
proof (cases "smin rd = smax rd \<and> smin rs = smax rs")
  case True
  then show ?thesis using in_s_const [OF assms(1)] in_s_const [OF assms(2)]
    by (simp add: add_bounds)
next
  case False
  then show ?thesis
    using signed_add_kept [of "smin rd" x "smax rd" "smin rs" y "smax rs"] assms
    by (auto simp: add_bounds in_s_def [of rd] in_s_def [of rs])
qed

lemma sub_s:
  assumes "in_s rd x" "in_s rs y" "smin rs <s 0 \<longrightarrow> smax rs \<noteq> 0"
  shows "in_s (eval_sub rd rs UINT64_MAX) (x - y)"
proof (cases "smin rd = smax rd \<and> smin rs = smax rs")
  case True
  then show ?thesis using in_s_const [OF assms(1)] in_s_const [OF assms(2)]
    by (simp add: sub_bounds)
next
  case False
  then show ?thesis
    using signed_sub_kept [of "smin rd" x "smax rd" "smin rs" y "smax rs"] assms
    by (auto simp: sub_bounds in_s_def [of rd] in_s_def [of rs])
qed

section \<open>Shifts\<close>

lemma uint_drop: "uint (drop_bit n (w :: u64)) = uint w div 2 ^ n"
  unfolding unsigned_drop_bit_eq using uint_bounds [of w]
  by (simp add: drop_bit_eq_div take_bit_int_eq_self)

lemma uint_push: "uint w * 2 ^ n < 2 ^ 64 \<Longrightarrow> uint (push_bit n (w :: u64)) = uint w * 2 ^ n"
  unfolding unsigned_push_bit_eq using uint_bounds [of w]
  by (simp add: push_bit_eq_mult take_bit_int_eq_self)

lemma sint_nonneg: "0 \<le> sint (w :: u64) \<Longrightarrow> sint w = uint w"
  using uint_bounds [of w] by (simp add: sint_uint64 split: if_splits)

lemma sint_small: "uint (w :: u64) < 2 ^ 63 \<Longrightarrow> sint w = uint w"
  by (simp add: sint_uint64)

lemma div_pow_mono:
  fixes x X :: int
  assumes "0 \<le> x" "x \<le> X" "n \<le> y"
  shows "x div 2 ^ y \<le> X div 2 ^ n"
proof -
  have "x div 2 ^ y \<le> x div 2 ^ n"
    using assms by (intro zdiv_mono2) (auto intro: power_increasing)
  also have "\<dots> \<le> X div 2 ^ n" using assms by (intro zdiv_mono1) auto
  finally show ?thesis .
qed
lemma sign_bit_0: "drop_bit 63 (w :: u64) = 0 \<longleftrightarrow> 0 \<le> sint w"
proof -
  have "drop_bit 63 w = 0 \<longleftrightarrow> uint w div 2 ^ 63 = 0" by (metis uint_drop uint_0_iff)
  also have "\<dots> \<longleftrightarrow> uint w < 2 ^ 63" using uint_bounds [of w] by (auto simp: zdiv_eq_0_iff)
  also have "\<dots> \<longleftrightarrow> 0 \<le> sint w" using uint_bounds [of w] by (simp add: sint_uint64)
  finally show ?thesis .
qed

lemma drop_nonneg:
  assumes "0 \<le> sint (w :: u64)"
  shows "signed_drop_bit n w = drop_bit n w" and "sint (drop_bit n w) = uint w div 2 ^ n"
proof -
  have "uint w < 2 ^ 63" using assms sint_bounds [of w] sint_nonneg [OF assms] by linarith
  moreover have "uint w div 2 ^ n \<le> uint w" using div_pow_mono [of "uint w" "uint w" 0 n] uint_bounds [of w] by simp
  ultimately show 1: "sint (drop_bit n w) = uint w div 2 ^ n"
    by (subst sint_small) (simp_all add: uint_drop)
  have "sint (signed_drop_bit n w) = sint w div 2 ^ n"
    by (simp add: sint_signed_drop_bit_eq drop_bit_eq_div)
  then show "signed_drop_bit n w = drop_bit n w"
    using 1 sint_nonneg [OF assms] by (metis signed_word_eqI)
qed


text \<open>Signed order on non-negative values is the order of the unsigned readings.\<close>

lemma sle_uint: "uint a \<le> uint b \<Longrightarrow> 0 \<le> sint b \<Longrightarrow> a \<le>s (b :: u64)"
  using sint_bounds [of b] sint_nonneg [of b] sint_small [of a] by (simp add: word_sle_eq)

lemma in_s_nonneg:
  assumes "in_s r x" "0 \<le> sint (smin r)"
  shows "0 \<le> sint x" and "0 \<le> sint (smax r)" and "uint (smin r) \<le> uint x" and "uint x \<le> uint (smax r)"
proof -
  have 1: "sint (smin r) \<le> sint x" "sint x \<le> sint (smax r)" using assms(1) by (auto simp: in_s_def word_sle_eq)
  then show 2: "0 \<le> sint x" "0 \<le> sint (smax r)" using assms(2) by linarith+
  show "uint (smin r) \<le> uint x" "uint x \<le> uint (smax r)"
    using 1 sint_nonneg [OF assms(2)] sint_nonneg [OF 2(1)] sint_nonneg [OF 2(2)] by linarith+
qed

lemma in_range_u: "in_range r x \<Longrightarrow> uint (umin r) \<le> uint x" "in_range r x \<Longrightarrow> uint x \<le> uint (umax r)"
  by (auto simp: in_range_def in_u_def word_le_def)

lemma in_range_n: "in_range r x \<Longrightarrow> unat (umin r) \<le> unat x" "in_range r x \<Longrightarrow> unat x \<le> unat (umax r)"
  by (auto simp: in_range_def in_u_def word_le_nat_alt)

lemma rsh_sound:
  assumes e: "eval_rsh rd rs 64 UINT64_MAX = Some r" and x: "in_range rd x" and y: "in_range rs y"
    and z: "alu64 Rsh x y = Some z"
  shows "in_range r z"
proof (cases "umax rs \<ge> 64")
  case True
  then have "r = eval_max_bound UINT64_MAX rd" using e by (simp add: eval_rsh_def)
  then show ?thesis by (simp add: top_range)
next
  case False
  have z': "z = drop_bit (unat y) x" using z by (simp split: if_splits)
  note u = in_range_u [OF x] in_range_n [OF y]
  have sx: "in_s rd x" using x by (simp add: in_range_def)
  have k: "unat (umax rs) < 64" "unat (umin rs) < 64" using False u by (auto simp: word_le_nat_alt)
  let ?u = "rd\<lparr>umax := drop_bit (unat (umin rs)) (umax rd), umin := drop_bit (unat (umax rs)) (umin rd)\<rparr>"
  have iu: "in_u ?u z"
    using u uint_bounds [of "umin rd"] uint_bounds [of x]
    by (simp add: in_u_def z' word_le_def uint_drop div_pow_mono)
  have r: "r = (if drop_bit 63 (smin rd) \<noteq> 0 then eval_smax_bound UINT64_MAX ?u
      else ?u\<lparr>smax := signed_drop_bit (unat (umin rs)) (smax rd),
              smin := signed_drop_bit (unat (umax rs)) (smin rd)\<rparr>)"
    using e False k by (auto simp: eval_rsh_def shr64_def sar64_def split: if_splits)
  show ?thesis
  proof (cases "drop_bit 63 (smin rd) = 0")
    case False
    then show ?thesis using iu r top_s [of ?u z] by (simp add: in_range_def)
  next
    case True
    then have s0: "0 \<le> sint (smin rd)" by (simp add: sign_bit_0)
    note s = in_s_nonneg [OF sx s0]
    have "signed_drop_bit (unat (umax rs)) (smin rd) \<le>s z"
      by (rule sle_uint) (use s0 s u in \<open>simp_all add: z' drop_nonneg uint_drop div_pow_mono pos_imp_zdiv_nonneg_iff\<close>)
    moreover have "z \<le>s signed_drop_bit (unat (umin rs)) (smax rd)"
      by (rule sle_uint) (use s0 s u in \<open>simp_all add: z' drop_nonneg uint_drop div_pow_mono pos_imp_zdiv_nonneg_iff\<close>)
    ultimately have "in_s r z" using r True by (simp add: in_s_def)
    moreover have "in_u r z" using iu r True by (simp add: in_u_def)
    ultimately show ?thesis by (simp add: in_range_def)
  qed
qed


lemma uint_mask_drop: "uint (drop_bit n UINT64_MAX) = (2 ^ 64 - 1) div 2 ^ n"
proof -
  have "uint UINT64_MAX = 2 ^ 64 - 1" by code_simp
  then show ?thesis unfolding uint_drop by (rule arg_cong)
qed

lemma len2mask_below:
  assumes "umx < 64"
  shows "RTE_LEN2MASK (64 - umx) = Some (drop_bit (unat umx) UINT64_MAX)"
proof -
  have "0 < 64 - umx \<and> 64 - umx \<le> 64" using assms by unat_arith
  then show ?thesis by (simp add: RTE_LEN2MASK_def)
qed

lemma len2mask_below1:
  assumes "umx < 64" "RTE_LEN2MASK (64 - umx - 1) = Some m"
  shows "m = drop_bit (unat umx + 1) UINT64_MAX"
proof -
  have a: "0 < 64 - umx - 1" "m = drop_bit (unat (64 - (64 - umx - 1))) UINT64_MAX"
    using assms(2) by (auto simp: RTE_LEN2MASK_def split: if_splits)
  have "unat umx < 64" using assms(1) by (simp add: word_less_nat_alt)
  then have "unat (umx + 1) = unat umx + 1" by (simp add: unat_word_ariths)
  then have "unat (64 - (64 - umx - 1)) = unat umx + 1" by (simp add: algebra_simps)
  then show ?thesis using a by simp
qed

lemma mul_pow_mono:
  fixes x X :: int
  assumes "0 \<le> x" "x \<le> X" "n \<le> y"
  shows "x * 2 ^ n \<le> X * 2 ^ y"
  using assms by (intro mult_mono) (auto intro: power_increasing)

lemma below_div:
  fixes a b :: int
  assumes "a \<le> b div 2 ^ n" shows "a * 2 ^ n \<le> b"
proof -
  have "a * 2 ^ n \<le> b div 2 ^ n * 2 ^ n" using assms by (intro mult_right_mono) auto
  also have "\<dots> \<le> b" using mod_div_mult_eq [of b "2 ^ n"] by (simp add: algebra_simps) (metis div_mult_mod_eq le_add_same_cancel1 pos_mod_sign zero_less_numeral zero_less_power mult.commute)
  finally show ?thesis .
qed

lemma lsh_sound:
  assumes e: "eval_lsh rd rs 64 UINT64_MAX = Some r" and x: "in_range rd x" and y: "in_range rs y"
    and z: "alu64 Lsh x y = Some z"
  shows "in_range r z"
proof (cases "umax rs \<ge> 64")
  case True
  then have "r = eval_max_bound UINT64_MAX rd" using e by (simp add: eval_lsh_def)
  then show ?thesis by (simp add: top_range)
next
  case False
  have z': "z = push_bit (unat y) x" using z by (simp split: if_splits)
  note u = in_range_u [OF x] in_range_n [OF y]
  have sx: "in_s rd x" using x by (simp add: in_range_def)
  have k: "umax rs < 64" "unat (umax rs) < 64" "unat (umin rs) < 64"
    using False u by (auto simp: word_le_nat_alt not_le [symmetric])
  let ?K = "unat (umax rs)" and ?k = "unat (umin rs)"
  let ?mx = "drop_bit ?K UINT64_MAX"
  define r1 where "r1 = (if umax rd > ?mx then eval_umax_bound UINT64_MAX rd
    else rd\<lparr>umax := push_bit ?K (umax rd), umin := push_bit ?k (umin rd)\<rparr>)"
  have s1: "smin r1 = smin rd" "smax r1 = smax rd" by (simp_all add: r1_def eval_umax_bound_def)
  have iu: "in_u r1 z"
  proof (cases "umax rd > ?mx")
    case True
    then show ?thesis by (simp add: r1_def top_u)
  next
    case False
    then have "uint (umax rd) \<le> uint ?mx" unfolding word_le_def not_less .
    then have "uint (umax rd) \<le> (2 ^ 64 - 1) div 2 ^ ?K" unfolding uint_mask_drop .
    from below_div [OF this] have m: "uint (umax rd) * 2 ^ ?K < 2 ^ 64" by simp
    have 1: "uint x * 2 ^ unat y \<le> uint (umax rd) * 2 ^ ?K"
      "uint (umin rd) * 2 ^ ?k \<le> uint x * 2 ^ unat y"
      using u uint_bounds [of x] uint_bounds [of "umin rd"] by (auto intro: mul_pow_mono)
    then have "uint z = uint x * 2 ^ unat y" "uint (push_bit ?k (umin rd)) = uint (umin rd) * 2 ^ ?k"
      "uint (push_bit ?K (umax rd)) = uint (umax rd) * 2 ^ ?K"
      using m by (simp_all add: z' uint_push)
    then show ?thesis using 1 False by (simp add: r1_def in_u_def word_le_def)
  qed
  obtain big where b: "(if drop_bit 63 (smin rd) \<noteq> 0 then Some True
        else do { lm \<leftarrow> RTE_LEN2MASK (64 - umax rs - 1); Some (lm \<le>s smax rd) }) = Some big"
    and r: "r = (if big then eval_smax_bound UINT64_MAX r1
       else r1\<lparr>smax := push_bit ?K (smax rd), smin := push_bit ?k (smin rd)\<rparr>)"
  proof -
    have sh: "shl64 v ?K = Some (push_bit ?K v)" "shl64 v ?k = Some (push_bit ?k v)" for v
      using k by (simp_all add: shl64_def)
    have b1: "(if umax rd > ?mx then Some (eval_umax_bound UINT64_MAX rd)
        else do { mx' \<leftarrow> shl64 (umax rd) ?K; mn' \<leftarrow> shl64 (umin rd) ?k;
                  Some (rd\<lparr>umax := mx', umin := mn'\<rparr>) }) = Some r1"
      using k by (simp add: r1_def shl64_def)
    have "do {
        big \<leftarrow> (if drop_bit 63 (smin r1) \<noteq> 0 then Some True
                else do { lm \<leftarrow> RTE_LEN2MASK (64 - umax rs - 1); Some (lm \<le>s smax r1) });
        (if big then Some (eval_smax_bound UINT64_MAX r1)
         else Some (r1\<lparr>smax := push_bit ?K (smax r1), smin := push_bit ?k (smin r1)\<rparr>)) } = Some r"
      using e False unfolding eval_lsh_def len2mask_below [OF k(1)] bind.bind_lunit b1
      unfolding sh bind.bind_lunit by (simp add: shr64_def split: if_splits)
    then show ?thesis using that s1 by (auto split: bind_splits if_splits)
  qed
  show ?thesis
  proof (cases big)
    case True
    then show ?thesis using iu r top_s [of r1 z] by (simp add: in_range_def)
  next
    case nb: False
    then have s0: "0 \<le> sint (smin rd)" using b by (auto simp: sign_bit_0 split: if_splits)
    note s = in_s_nonneg [OF sx s0]
    let ?lm = "drop_bit (?K + 1) UINT64_MAX"
    have "\<not> ?lm \<le>s smax rd"
      using b nb len2mask_below1 [OF k(1)] s0 by (auto simp: sign_bit_0 split: bind_splits)
    then have "sint (smax rd) < sint ?lm" by (simp add: word_sle_eq)
    moreover have "uint ?lm = (2 ^ 64 - 1) div 2 ^ (?K + 1)" by (rule uint_mask_drop)
    moreover have "sint ?lm \<le> uint ?lm" using uint_bounds [of ?lm] by (simp add: sint_uint64)
    ultimately have "uint (smax rd) \<le> (2 ^ 64 - 1) div 2 ^ (?K + 1)"
      using sint_nonneg [OF s(2)] by linarith
    from below_div [OF this] have m: "uint (smax rd) * 2 ^ ?K < 2 ^ 63" by (simp add: algebra_simps)
    have 1: "uint x * 2 ^ unat y \<le> uint (smax rd) * 2 ^ ?K"
      "uint (smin rd) * 2 ^ ?k \<le> uint x * 2 ^ unat y"
      using u s uint_bounds [of x] uint_bounds [of "smin rd"] by (auto intro: mul_pow_mono)
    then have 2: "uint z = uint x * 2 ^ unat y" "uint (push_bit ?k (smin rd)) = uint (smin rd) * 2 ^ ?k"
      "uint (push_bit ?K (smax rd)) = uint (smax rd) * 2 ^ ?K"
      using m by (simp_all add: z' uint_push)
    then have "0 \<le> sint z" "0 \<le> sint (push_bit ?K (smax rd))"
      using 1 m by (simp_all add: sint_uint64)
    then have "in_s r z" using 1 2 r nb by (auto simp: in_s_def intro!: sle_uint)
    moreover have "in_u r z" using iu r nb by (simp add: in_u_def)
    ultimately show ?thesis by (simp add: in_range_def)
  qed
qed

section \<open>Arithmetic shift\<close>

lemma uint_of_sint: "uint (w :: u64) = (if sint w < 0 then sint w + 2 ^ 64 else sint w)"
  using uint_bounds [of w] by (simp add: sint_uint64)

lemma sint_sdrop: "sint (signed_drop_bit n (w :: u64)) = sint w div 2 ^ n"
  by (simp add: sint_signed_drop_bit_eq drop_bit_eq_div)

lemma sdrop_neg: "sint (signed_drop_bit n (w :: u64)) < 0 \<longleftrightarrow> sint w < 0"
  by (simp add: sint_sdrop pos_imp_zdiv_neg_iff)

lemma sdiv_mono:
  fixes x X :: int
  assumes "x \<le> X"
  shows "X < 0 \<Longrightarrow> y \<le> n \<Longrightarrow> x div 2 ^ y \<le> X div 2 ^ n" "0 \<le> x \<Longrightarrow> n \<le> y \<Longrightarrow> x div 2 ^ y \<le> X div 2 ^ n"
    "x < 0 \<Longrightarrow> 0 \<le> X \<Longrightarrow> x div 2 ^ y \<le> X div 2 ^ n"
proof -
  have m: "x div 2 ^ y \<le> X div 2 ^ y" using assms by (simp add: zdiv_mono1)
  show "x div 2 ^ y \<le> X div 2 ^ n" if "X < 0" "y \<le> n"
    using m zdiv_mono2_neg [of X "2 ^ y" "2 ^ n"] that by (simp add: power_increasing)
  show "x div 2 ^ y \<le> X div 2 ^ n" if "0 \<le> x" "n \<le> y" using that assms by (intro div_pow_mono)
  show "x div 2 ^ y \<le> X div 2 ^ n" if "x < 0" "0 \<le> X"
  proof -
    have "x div 2 ^ y < 0" "0 \<le> X div 2 ^ n" using that by (simp_all add: pos_imp_zdiv_neg_iff pos_imp_zdiv_nonneg_iff)
    then show ?thesis by linarith
  qed
qed

text \<open>
  The signed bounds of an arithmetic shift are right. The unsigned ones are computed from those of the operand by the same
  signed shift, in the wrong direction for a value with the sign bit: they are right when the count is known, when the
  operand has no sign bit, or when its unsigned bounds exclude nothing with the sign bit.
\<close>

definition arsh_pre :: "bpf_reg_val \<Rightarrow> bpf_reg_val \<Rightarrow> bool" where
  "arsh_pre rd rs \<longleftrightarrow> umin rs = umax rs \<or> 0 \<le>s umax rd \<or> (umax rd = UINT64_MAX \<and> 0 \<le>s umin rd)"

lemma arsh_below:
  assumes "uint (w :: u64) \<le> uint (x :: u64)" "y \<le> n" and "n = y \<or> 0 \<le> sint x \<or> 0 \<le> sint w"
  shows "uint (signed_drop_bit n w) \<le> uint (signed_drop_bit y x)"
proof -
  note B = sint_bounds [of w] sint_bounds [of x] sint_bounds [of "signed_drop_bit n w"] sint_bounds [of "signed_drop_bit y x"]
  have ord: "0 \<le> sint x \<Longrightarrow> 0 \<le> sint w \<and> sint w \<le> sint x" "sint x < 0 \<Longrightarrow> sint w < 0 \<Longrightarrow> sint w \<le> sint x"
    using assms(1) B(1,2,3,4) unfolding uint_of_sint by (auto split: if_splits)
  consider (pos) "0 \<le> sint x" | (neg) "sint x < 0" "sint w < 0" "n = y" | (mixed) "sint x < 0" "0 \<le> sint w"
    using assms(3) by fastforce
  then show ?thesis
  proof cases
    case pos
    then have "sint (signed_drop_bit n w) \<le> sint (signed_drop_bit y x)"
      unfolding sint_sdrop using ord(1) assms(2) by (intro div_pow_mono) auto
    then show ?thesis using pos ord(1) sdrop_neg [of n w] sdrop_neg [of y x] by (simp add: uint_of_sint)
  next
    case neg
    then have "sint (signed_drop_bit n w) \<le> sint (signed_drop_bit y x)"
      unfolding sint_sdrop using ord(2) by (simp add: zdiv_mono1)
    then show ?thesis using neg sdrop_neg [of n w] sdrop_neg [of y x] by (simp add: uint_of_sint)
  next
    case mixed
    then show ?thesis using B sdrop_neg [of n w] sdrop_neg [of y x] by (simp add: uint_of_sint)
  qed
qed

lemma arsh_u:
  assumes e: "eval_arsh rd rs 64 UINT64_MAX = Some r" and x: "in_range rd x" and y: "in_range rs y"
    and z: "op_alu Rsh Int64 x y = Some z" and p: "arsh_pre rd rs"
  shows "in_u r z"
proof (cases "umax rs \<ge> 64")
  case True
  then have "r = eval_max_bound UINT64_MAX rd" using e by (simp add: eval_arsh_def)
  then show ?thesis using top_range [of rd z] by (simp add: in_range_def)
next
  case False
  have z': "z = signed_drop_bit (unat y) x" using z by (simp split: if_splits)
  note u = in_range_u [OF x] in_range_n [OF y]
  have k: "unat (umax rs) < 64" "unat (umin rs) < 64" using False u by (auto simp: word_le_nat_alt)
  have r: "umax r = signed_drop_bit (unat (umin rs)) (umax rd)" "umin r = signed_drop_bit (unat (umax rs)) (umin rd)"
    using e False by (auto simp: eval_arsh_def sar64_def split: if_splits bind_splits)
  have n0: "0 \<le>s w \<longleftrightarrow> 0 \<le> sint w" for w :: u64 by (simp add: word_sle_eq)
  have s: "0 \<le> sint (umax rd) \<Longrightarrow> 0 \<le> sint x" using u(2) uint_bounds [of x] uint_bounds [of "umax rd"] by (simp add: sint_uint64 split: if_splits)
  have "uint (umin r) \<le> uint z"
    unfolding r z' by (rule arsh_below) (use u p s in \<open>auto simp: arsh_pre_def n0\<close>)
  moreover have "uint z \<le> uint (umax r)"
  proof (cases "umax rd = UINT64_MAX")
    case True
    have "sint (umax r) = - 1" unfolding r sint_sdrop True by (simp add: div_eq_minus1)
    then have "uint (umax r) = 2 ^ 64 - 1" by (simp add: uint_of_sint)
    then show ?thesis using uint_bounds [of z] by simp
  next
    case False
    show ?thesis unfolding r z' by (rule arsh_below) (use u p s False in \<open>auto simp: arsh_pre_def n0\<close>)
  qed
  ultimately show ?thesis by (simp add: in_u_def word_le_def)
qed

lemma arsh_s:
  assumes e: "eval_arsh rd rs 64 UINT64_MAX = Some r" and x: "in_range rd x" and y: "in_range rs y"
    and z: "op_alu Rsh Int64 x y = Some z"
  shows "in_s r z"
proof (cases "umax rs \<ge> 64")
  case True
  then have "r = eval_max_bound UINT64_MAX rd" using e by (simp add: eval_arsh_def)
  then show ?thesis using top_range [of rd z] by (simp add: in_range_def)
next
  case False
  have z': "z = signed_drop_bit (unat y) x" using z by (simp split: if_splits)
  note u = in_range_n [OF y]
  have sx: "sint (smin rd) \<le> sint x" "sint x \<le> sint (smax rd)" using x by (auto simp: in_range_def in_s_def word_sle_eq)
  have r: "smin r = signed_drop_bit (unat (if smin rd <s 0 then umin rs else umax rs)) (smin rd)"
    "smax r = signed_drop_bit (unat (if smax rd <s 0 then umax rs else umin rs)) (smax rd)"
    using e False by (auto simp: eval_arsh_def sar64_def split: if_splits bind_splits)
  have "sint (smin r) \<le> sint z"
    unfolding r z' sint_sdrop using sdiv_mono [OF sx(1)] u by (cases "sint x < 0"; cases "smin rd <s 0") (auto simp: word_sless_alt)
  moreover have "sint z \<le> sint (smax r)"
    unfolding r z' sint_sdrop using sdiv_mono [OF sx(2)] u by (cases "sint x < 0"; cases "smax rd <s 0") (auto simp: word_sless_alt)
  ultimately show ?thesis by (simp add: in_s_def word_sle_eq)
qed

end
