(* ===== verification/BPF_Eval_Props.thy ===== *)
theory BPF_Eval_Props
  imports BPF_Eval_Sound
begin

text \<open>
  The interpretations of \<open>sound_transfer\<close> on the verifier's functions and what follows for the
  interpreter: a step of a 64-bit ALU instruction stays within the bounds the verifier computes,
  and an access that \<open>eval_ptr\<close> accepts lies within its object. The last section has the functions
  whose bounds are not sound, each with values that show it.
\<close>

section \<open>The interpretations\<close>

definition sub_pre :: "bpf_reg_val \<Rightarrow> bpf_reg_val \<Rightarrow> bool" where
  "sub_pre rd rs \<longleftrightarrow> \<not> (smin rs <s 0 \<and> smax rs = 0)"

interpretation add_t: sound_transfer "\<lambda>rd rs. Some (eval_add rd rs UINT64_MAX)" "op_alu Add Uint64" "\<lambda>_ _. True" "\<lambda>_ _. True"
  by unfold_locales (auto simp: in_range_def add_u add_s)

interpretation sub_t: sound_transfer "\<lambda>rd rs. Some (eval_sub rd rs UINT64_MAX)" "op_alu Sub Uint64" "\<lambda>_ _. True" sub_pre
  by unfold_locales (auto simp: in_range_def sub_u sub_s sub_pre_def)

interpretation lsh_t: sound_transfer "\<lambda>rd rs. eval_lsh rd rs 64 UINT64_MAX" "op_alu Lsh Uint64" "\<lambda>_ _. True" "\<lambda>_ _. True"
  by unfold_locales (use lsh_sound in \<open>auto simp: in_range_def simp del: alu64.simps\<close>)

interpretation rsh_t: sound_transfer "\<lambda>rd rs. eval_rsh rd rs 64 UINT64_MAX" "op_alu Rsh Uint64" "\<lambda>_ _. True" "\<lambda>_ _. True"
  by unfold_locales (use rsh_sound in \<open>auto simp: in_range_def simp del: alu64.simps\<close>)

interpretation arsh_t: sound_transfer "\<lambda>rd rs. eval_arsh rd rs 64 UINT64_MAX" "op_alu Rsh Int64" arsh_pre "\<lambda>_ _. True"
  by unfold_locales (erule arsh_u arsh_s; assumption)+

text \<open>A plain value between two bounds.\<close>

definition range_val :: "u64 \<Rightarrow> u64 \<Rightarrow> bpf_reg_val" where
  "range_val lo hi = \<lparr>rv_v = \<lparr>arg_type = RTE_BPF_ARG_RAW, arg_size = 8, arg_buf_size = 0\<rparr>,
     rv_mask = UINT64_MAX, smin = lo, smax = hi, umin = lo, umax = hi\<rparr>"

section \<open>One instruction\<close>

text \<open>
  The registers of a run described by an evaluation state: a register that the verifier takes for
  a plain value lies within its bounds.
\<close>

definition regs_in :: "bpf_eval_state \<Rightarrow> u64 list \<Rightarrow> bool" where
  "regs_in st rs \<longleftrightarrow> length (rv st) = EBPF_REG_NUM \<and> length rs = EBPF_REG_NUM \<and>
     (\<forall>k < EBPF_REG_NUM. rv_type (rv st ! k) = RTE_BPF_ARG_RAW \<longrightarrow> in_range (rv st ! k) (rs ! k))"

lemma apply_mask_64: "eval_apply_mask UINT64_MAX r = r\<lparr>rv_mask := UINT64_MAX\<rparr>"
proof -
  have "\<not> smax (eval_smax_bound UINT64_MAX q) <s smax r" "\<not> smin r <s smin (eval_smax_bound UINT64_MAX q)" for q
    using sint_bounds [of "smax r"] sint_bounds [of "smin r"]
    by (simp_all add: smax_bound_64 word_sless_alt sint_uint64)
  then show ?thesis
    by (simp add: eval_apply_mask_def Let_def s_min_def s_max_def)
      (simp add: eval_smax_bound_def Let_def word_sless_alt)
qed


text \<open>The operations that are interpreted above: the code of the instruction and what the interpreter does.\<close>

definition alu64_table :: "(u8 \<times> alu_op \<times> ctype) list" where
  "alu64_table = [(BPF_ADD, Add, Uint64), (BPF_SUB, Sub, Uint64), (BPF_LSH, Lsh, Uint64), (BPF_RSH, Rsh, Uint64),
     (EBPF_ARSH, Rsh, Int64)]"

definition alu_u_pre :: "u8 \<Rightarrow> bpf_reg_val \<Rightarrow> bpf_reg_val \<Rightarrow> bool" where
  "alu_u_pre op rd rs \<longleftrightarrow> (op = EBPF_ARSH \<longrightarrow> arsh_pre rd rs)"

definition alu_s_pre :: "u8 \<Rightarrow> bpf_reg_val \<Rightarrow> bpf_reg_val \<Rightarrow> bool" where
  "alu_s_pre op rd rs \<longleftrightarrow> (op = BPF_SUB \<longrightarrow> sub_pre rd rs)"

lemma in_range_mask [simp]: "in_range (r\<lparr>rv_mask := m\<rparr>) x = in_range r x"
  by (simp add: in_range_def in_u_def in_s_def)

lemma pre_mask [simp]:
  "alu_u_pre op (r\<lparr>rv_mask := m\<rparr>) q = alu_u_pre op r q" "alu_s_pre op (r\<lparr>rv_mask := m\<rparr>) q = alu_s_pre op r q"
  "alu_u_pre op r (q\<lparr>rv_mask := n\<rparr>) = alu_u_pre op r q" "alu_s_pre op r (q\<lparr>rv_mask := n\<rparr>) = alu_s_pre op r q"
  by (simp_all add: alu_u_pre_def alu_s_pre_def sub_pre_def arsh_pre_def)

text \<open>An immediate operand is a constant.\<close>

lemma pre_imm: "alu_u_pre op rd (eval_fill_imm UINT64_MAX im r)" "alu_s_pre op rd (eval_fill_imm UINT64_MAX im r)"
  by (auto simp: alu_u_pre_def alu_s_pre_def arsh_pre_def sub_pre_def eval_fill_imm_def eval_fill_imm64_def)

lemma eval_fill_imm_range: "in_range (eval_fill_imm UINT64_MAX im r) (scast im)"
  by (simp add: in_range_def in_u_def in_s_def eval_fill_imm_def eval_fill_imm64_def)

text \<open>The five interpretations as one fact about the table.\<close>

lemma table64_sound:
  assumes t: "(op, q, t) \<in> set alu64_table"
  shows "sound_transfer (\<lambda>rd rs. case eval_alu_op op rd rs 64 UINT64_MAX of Some (Inr r) \<Rightarrow> Some r | _ \<Rightarrow> None) (op_alu q t)
    (alu_u_pre op) (alu_s_pre op)"
proof -
  have o: "(\<lambda>rd rs. case eval_alu_op BPF_ADD rd rs 64 UINT64_MAX of Some (Inr r) \<Rightarrow> Some r | _ \<Rightarrow> None) = (\<lambda>rd rs. Some (eval_add rd rs UINT64_MAX))"
    "(\<lambda>rd rs. case eval_alu_op BPF_SUB rd rs 64 UINT64_MAX of Some (Inr r) \<Rightarrow> Some r | _ \<Rightarrow> None) = (\<lambda>rd rs. Some (eval_sub rd rs UINT64_MAX))"
    "(\<lambda>rd rs. case eval_alu_op BPF_LSH rd rs 64 UINT64_MAX of Some (Inr r) \<Rightarrow> Some r | _ \<Rightarrow> None) = (\<lambda>rd rs. eval_lsh rd rs 64 UINT64_MAX)"
    "(\<lambda>rd rs. case eval_alu_op BPF_RSH rd rs 64 UINT64_MAX of Some (Inr r) \<Rightarrow> Some r | _ \<Rightarrow> None) = (\<lambda>rd rs. eval_rsh rd rs 64 UINT64_MAX)"
    "(\<lambda>rd rs. case eval_alu_op EBPF_ARSH rd rs 64 UINT64_MAX of Some (Inr r) \<Rightarrow> Some r | _ \<Rightarrow> None) = (\<lambda>rd rs. eval_arsh rd rs 64 UINT64_MAX)"
    by (auto simp: fun_eq_iff eval_alu_op_def split: option.splits)
  have p: "alu_u_pre BPF_ADD = (\<lambda>_ _. True)" "alu_u_pre BPF_SUB = (\<lambda>_ _. True)" "alu_u_pre BPF_LSH = (\<lambda>_ _. True)"
    "alu_u_pre BPF_RSH = (\<lambda>_ _. True)" "alu_u_pre EBPF_ARSH = arsh_pre" "alu_s_pre BPF_ADD = (\<lambda>_ _. True)" "alu_s_pre BPF_SUB = sub_pre"
    "alu_s_pre BPF_LSH = (\<lambda>_ _. True)" "alu_s_pre BPF_RSH = (\<lambda>_ _. True)" "alu_s_pre EBPF_ARSH = (\<lambda>_ _. True)"
    by (simp_all add: fun_eq_iff alu_u_pre_def alu_s_pre_def)
  from t consider "op = BPF_ADD" "q = Add" "t = Uint64" | "op = BPF_SUB" "q = Sub" "t = Uint64" | "op = BPF_LSH" "q = Lsh" "t = Uint64"
    | "op = BPF_RSH" "q = Rsh" "t = Uint64" | "op = EBPF_ARSH" "q = Rsh" "t = Int64"
    by (auto simp: alu64_table_def)
  then show ?thesis
    by cases (simp_all only: o p add_t.sound_transfer_axioms sub_t.sound_transfer_axioms lsh_t.sound_transfer_axioms
      rsh_t.sound_transfer_axioms arsh_t.sound_transfer_axioms)
qed

lemma len2mask_64: "RTE_LEN2MASK 64 = Some UINT64_MAX"
  by code_simp

lemma alu64_switch:
  assumes "(op, q, t) \<in> set alu64_table" "c = (EBPF_ALU64 OR op OR BPF_X) \<or> c = (EBPF_ALU64 OR op OR BPF_K)"
  shows "map_of bpf_switch c = Some (if BPF_SRC c = BPF_X then BPF_OP_ALU_REG q t else BPF_OP_ALU_IMM q t)"
    "BPF_OP c = op" "BPF_CLASS c \<noteq> BPF_ALU" "op \<noteq> BPF_XOR \<and> op \<noteq> EBPF_MOV \<and> op \<noteq> BPF_NEG"
proof -
  have "list_all (\<lambda>(op, q, t). list_all (\<lambda>c. map_of bpf_switch c = Some (if BPF_SRC c = BPF_X then BPF_OP_ALU_REG q t else BPF_OP_ALU_IMM q t) \<and>
      BPF_OP c = op \<and> BPF_CLASS c \<noteq> BPF_ALU \<and> op \<noteq> BPF_XOR \<and> op \<noteq> EBPF_MOV \<and> op \<noteq> BPF_NEG)
      [EBPF_ALU64 OR op OR BPF_X, EBPF_ALU64 OR op OR BPF_K]) alu64_table" by code_simp
  then show "map_of bpf_switch c = Some (if BPF_SRC c = BPF_X then BPF_OP_ALU_REG q t else BPF_OP_ALU_IMM q t)"
    "BPF_OP c = op" "BPF_CLASS c \<noteq> BPF_ALU" "op \<noteq> BPF_XOR \<and> op \<noteq> EBPF_MOV \<and> op \<noteq> BPF_NEG"
    using assms unfolding list_all_iff by fastforce+
qed

text \<open>What the verifier computes for such an instruction, and what the interpreter does.\<close>

definition src_val :: "bpf_eval_state \<Rightarrow> ebpf_insn \<Rightarrow> bpf_reg_val" where
  "src_val st i = (if BPF_SRC (code i) = BPF_X then rv st ! unat (src_reg i) else eval_fill_imm UINT64_MAX (imm i) zero_reg_val)"

lemma eval_alu_64:
  assumes q: "(op, q, t) \<in> set alu64_table" and c: "code i = (EBPF_ALU64 OR op OR BPF_X) \<or> code i = (EBPF_ALU64 OR op OR BPF_K)"
    and e: "eval_alu st i = Some (Inr st')"
  obtains r where "unat (dst_reg i) < length (rv st)" "BPF_SRC (code i) = BPF_X \<Longrightarrow> unat (src_reg i) < length (rv st)"
    "eval_alu_op op ((rv st ! unat (dst_reg i))\<lparr>rv_mask := UINT64_MAX\<rparr>) ((src_val st i)\<lparr>rv_mask := UINT64_MAX\<rparr>) 64 UINT64_MAX = Some (Inr r)"
    "st' = st\<lparr>rv := (rv st)[unat (dst_reg i) := r]\<rparr>"
proof -
  note o = alu64_switch(2,4) [OF q c]
  have z: "alu_opsz i = 64" using alu64_switch(3) [OF q c] by (simp add: alu_opsz_def)
  have m: "(eval_fill_imm UINT64_MAX im w)\<lparr>rv_mask := UINT64_MAX\<rparr> = eval_fill_imm UINT64_MAX im w" for im w
    by (simp add: eval_fill_imm_def eval_fill_imm64_def)
  show ?thesis
    using e o by (auto simp: eval_alu_def z len2mask_64 apply_mask_64 src_val_def m get_rv_def put_rv_def Let_def
        intro: that split: bind_splits if_splits option.splits sum.splits)
qed

lemma step_alu_64:
  assumes q: "(op, q, t) \<in> set alu64_table" and c: "code i = (EBPF_ALU64 OR op OR BPF_X) \<or> code i = (EBPF_ALU64 OR op OR BPF_K)"
    and s: "fetch p (pc est) = Some i" "bpf_step p est = Some (Next est')"
  obtains z where "op_alu q t (reg est ! unat (dst_reg i)) (if BPF_SRC (code i) = BPF_X then reg est ! unat (src_reg i) else imm64 i) = Some z"
    "reg est' = (reg est)[unat (dst_reg i) := z]"
  using s alu64_switch(1) [OF q c]
  by (auto simp: bpf_step_def rd_reg_def set_dst_def wr_reg_def next_ins_def intro: that split: bind_splits if_splits)

text \<open>
  C11: The verifier's bounds for the 64-bit addition, subtraction and shifts, with a register or an immediate. A step of the
  interpreter leaves the plain registers within the bounds that \<open>eval_alu\<close> computes, the unsigned and the signed ones, with
  two exceptions: the signed bounds of a subtraction of a register whose signed bounds are negative below and zero above
  (\<open>eval_sub_unsound\<close>), and the unsigned bounds of an arithmetic right shift by a register of unknown value, when the unsigned
  bounds of the shifted value tell something about values with the sign bit (\<open>eval_arsh_unsound\<close>).
\<close>

theorem alu64_sound:
  assumes q: "(op, q, t) \<in> set alu64_table" and c: "code i = (EBPF_ALU64 OR op OR BPF_X) \<or> code i = (EBPF_ALU64 OR op OR BPF_K)"
    and e: "eval_alu st i = Some (Inr st')"
    and f: "fetch p (pc est) = Some i" and s: "bpf_step p est = Some (Next est')"
    and R: "regs_in st (reg est)"
    and raw: "rv_type (rv st ! unat (dst_reg i)) = RTE_BPF_ARG_RAW"
      "BPF_SRC (code i) = BPF_X \<longrightarrow> rv_type (rv st ! unat (src_reg i)) = RTE_BPF_ARG_RAW"
  defines "d \<equiv> unat (dst_reg i)" and "X \<equiv> BPF_SRC (code i) = BPF_X" and "rs \<equiv> rv st ! unat (src_reg i)"
  shows "(\<not> (X \<and> op = EBPF_ARSH \<and> umin rs \<noteq> umax rs \<and> umax (rv st ! d) <s 0 \<and>
      (umax (rv st ! d) \<noteq> UINT64_MAX \<or> umin (rv st ! d) <s 0)) \<longrightarrow> in_u (rv st' ! d) (reg est' ! d)) \<and>
    (\<not> (X \<and> op = BPF_SUB \<and> smin rs <s 0 \<and> smax rs = 0) \<longrightarrow> in_s (rv st' ! d) (reg est' ! d)) \<and>
    (\<forall>k. k \<noteq> d \<longrightarrow> rv st' ! k = rv st ! k \<and> reg est' ! k = reg est ! k)"
proof -
  obtain r where r: "d < length (rv st)" "X \<Longrightarrow> unat (src_reg i) < length (rv st)" "st' = st\<lparr>rv := (rv st)[d := r]\<rparr>"
    "eval_alu_op op ((rv st ! d)\<lparr>rv_mask := UINT64_MAX\<rparr>) ((src_val st i)\<lparr>rv_mask := UINT64_MAX\<rparr>) 64 UINT64_MAX = Some (Inr r)"
    using eval_alu_64 [OF q c e] unfolding d_def X_def by metis
  let ?y = "if X then reg est ! unat (src_reg i) else imm64 i"
  obtain z where z: "op_alu q t (reg est ! d) ?y = Some z" "reg est' = (reg est)[d := z]"
    using step_alu_64 [OF q c f s] unfolding d_def X_def by metis
  have len: "length (rv st) = 11" "length (reg est) = 11" using R by (auto simp: regs_in_def)
  have x: "in_range (rv st ! d) (reg est ! d)" using R raw(1) r(1) len by (auto simp: regs_in_def d_def)
  have y: "in_range (src_val st i) ?y"
  proof (cases X)
    case True
    then show ?thesis using R raw(2) r(2) len by (auto simp: regs_in_def X_def src_val_def)
  next
    case False
    then show ?thesis using eval_fill_imm_range [of "imm i"] by (simp add: X_def src_val_def imm64_def)
  qed
  have a: "(case eval_alu_op op ((rv st ! d)\<lparr>rv_mask := UINT64_MAX\<rparr>) ((src_val st i)\<lparr>rv_mask := UINT64_MAX\<rparr>) 64 UINT64_MAX of
      Some (Inr r) \<Rightarrow> Some r | _ \<Rightarrow> None) = Some r" by (simp add: r(4))
  have U: "alu_u_pre op (rv st ! d) (src_val st i)"
    if "\<not> (X \<and> op = EBPF_ARSH \<and> umin rs \<noteq> umax rs \<and> umax (rv st ! d) <s 0 \<and> (umax (rv st ! d) \<noteq> UINT64_MAX \<or> umin (rv st ! d) <s 0))"
    using that pre_imm(1) by (auto simp: src_val_def X_def rs_def alu_u_pre_def arsh_pre_def word_sless_alt word_sle_eq not_less)
  have S: "alu_s_pre op (rv st ! d) (src_val st i)" if "\<not> (X \<and> op = BPF_SUB \<and> smin rs <s 0 \<and> smax rs = 0)"
    using that pre_imm(2) by (auto simp: src_val_def X_def rs_def alu_s_pre_def sub_pre_def)
  note u = sound_transfer.sound_u [OF table64_sound [OF q] _ a _ _ z(1), unfolded pre_mask in_range_mask, OF U x y]
  note v = sound_transfer.sound_s [OF table64_sound [OF q] _ a _ _ z(1), unfolded pre_mask in_range_mask, OF S x y]
  show ?thesis using u v r(1,3) z(2) len by simp
qed

text \<open>An addition of two registers that hold values from 1 to 5.\<close>

definition st_1_5 :: bpf_eval_state where
  "st_1_5 = \<lparr>rv = replicate 11 (range_val 1 5), sv = []\<rparr>"

definition add_02 :: ebpf_insn where "add_02 = mk_insn 0x0f 0 2 0 0"

theorem alu64_sound_witness:
  "\<exists>st' est'. eval_alu st_1_5 add_02 = Some (Inr st') \<and>
     bpf_step (prm (bpf_of raw_arg [add_02])) \<lparr>pc = 0, reg = replicate 11 3, emem = (\<lambda>_. None)\<rparr> = Some (Next est') \<and>
     in_range (rv st' ! 0) (reg est' ! 0) \<and> reg est' ! 0 = 6"
proof -
  let ?p = "prm (bpf_of raw_arg [add_02])"
  let ?est = "\<lparr>pc = 0, reg = replicate 11 3, emem = (\<lambda>_. None)\<rparr> :: exec_st"
  have "(case eval_alu st_1_5 add_02 of Some (Inr _) \<Rightarrow> True | _ \<Rightarrow> False)" by code_simp
  then obtain st' where e: "eval_alu st_1_5 add_02 = Some (Inr st')"
    by (auto split: option.splits sum.splits)
  have "(case bpf_step ?p ?est of Some (Next _) \<Rightarrow> True | _ \<Rightarrow> False)" by code_simp
  then obtain est' where s: "bpf_step ?p ?est = Some (Next est')"
    by (auto split: option.splits exec_res.splits)
  have c: "code add_02 = (EBPF_ALU64 OR BPF_ADD OR BPF_X) \<or> code add_02 = (EBPF_ALU64 OR BPF_ADD OR BPF_K)" by code_simp
  have q: "(BPF_ADD, Add, Uint64) \<in> set alu64_table" by (simp add: alu64_table_def)
  have "(case bpf_step ?p ?est of Some (Next e) \<Rightarrow> reg e ! 0 = 6 | _ \<Rightarrow> False)" by code_simp
  then have z: "reg est' ! 0 = 6" by (simp add: s)
  have d: "unat (dst_reg add_02) = 0" by code_simp
  have f: "fetch ?p (pc ?est) = Some add_02" by (simp add: fetch_def bpf_of_def)
  have "in_range (range_val 1 5) 3" by code_simp
  then have r: "regs_in st_1_5 (reg ?est)" by (simp add: regs_in_def st_1_5_def nth_replicate del: replicate.simps)
  have t: "rv_type (rv st_1_5 ! unat (dst_reg add_02)) = RTE_BPF_ARG_RAW"
    "rv_type (rv st_1_5 ! unat (src_reg add_02)) = RTE_BPF_ARG_RAW" by code_simp+
  show ?thesis using alu64_sound [OF q c e f s r t(1) impI [OF t(2)]] e s z by (simp add: in_range_def d)
qed

section \<open>Pointers\<close>

lemma scast_off: "scast (scast (o' :: u16) :: u32) = (scast o' :: u64)"
  by (rule bit_word_eqI) (auto simp: bit_simps min_def)

text \<open>
  C13: an access that \<open>eval_ptr\<close> accepts lies within the object: if the pointer is \<open>x\<close> bytes into
  it, the access of \<open>opsz\<close> bytes at \<open>x + ofs\<close> ends before the object does and nothing wraps around.
\<close>

theorem eval_ptr_in_bounds:
  assumes e: "eval_ptr ssz rm0 opsz align ofs = (None, rm, ssz')" and x: "in_range rm0 x"
  shows "uint (x + scast ofs) + uint opsz \<le> uint (arg_size (rv_v rm0)) \<and>
    in_range rm (x + scast ofs) \<and> RTE_BPF_ARG_PTR_TYPE (rv_type rm0)"
proof -
  let ?rm = "eval_add rm0 (eval_fill_imm (rv_mask rm0) (scast ofs) zero_reg_val) (rv_mask rm0)"
  have rm: "rm = ?rm" using e by (auto simp: eval_ptr_def Let_def split: if_splits)
  have m: "rv_mask rm = rv_mask rm0" "rv_v rm = rv_v rm0"
    by (simp_all add: rm eval_add_def Let_def eval_umax_bound_def eval_smax_bound_def)
  have m1: "rv_mask rm0 = UINT64_MAX" and c: "\<not> smin rm <s 0" "\<not> smax rm + ucast opsz > arg_size (rv_v rm)"
    and p: "RTE_BPF_ARG_PTR_TYPE (rv_type rm)"
    using e m(1) unfolding rm by (auto simp: eval_ptr_def Let_def split: if_splits)
  have "in_range (eval_fill_imm UINT64_MAX (scast ofs) zero_reg_val) (scast ofs)"
    using eval_fill_imm_range [of "scast ofs" zero_reg_val] by (simp add: scast_off)
  then have r: "in_range rm (x + scast ofs)"
    using add_t.sound [OF _ _ _ x] by (simp add: rm m1)
  then have s: "in_s rm (x + scast ofs)" by (simp add: in_range_def)
  have s0: "0 \<le> sint (smin rm)" using c(1) by (simp add: word_sless_alt)
  note n = in_s_nonneg [OF s s0]
  have o32: "0 \<le> uint opsz" "uint opsz < 2 ^ 32" using uint_lt2p [of opsz] by simp_all
  then have "uint (ucast opsz :: u64) = uint opsz" by (simp add: unsigned_ucast_eq take_bit_int_eq_self)
  moreover note o32
  moreover have "uint (smax rm) < 2 ^ 63" using n(2) sint_nonneg [OF n(2)] sint_bounds [of "smax rm"] by linarith
  ultimately have "uint (smax rm + ucast opsz) = uint (smax rm) + uint opsz"
    by (simp add: uint_plus_if')
  then have "uint (x + scast ofs) + uint opsz \<le> uint (arg_size (rv_v rm0))"
    using c(2) n(4) m(2) by (simp add: word_less_def)
  then show ?thesis using r p m(2) by simp
qed


theorem eval_ptr_in_bounds_witness:
  "fst (eval_ptr 0 ((range_val 0 8)\<lparr>rv_v := ptr_arg 16\<rparr>) 4 1 2) = None \<and>
   uint ((5 :: u64) + scast (2 :: u16)) + uint (4 :: u32) \<le> (16 :: int)"
proof -
  let ?r = "(range_val 0 8)\<lparr>rv_v := ptr_arg 16\<rparr>"
  have "fst (eval_ptr 0 ?r 4 1 2) = None" by code_simp
  then obtain rm z where e: "eval_ptr 0 ?r 4 1 2 = (None, rm, z)"
    by (metis prod.collapse)
  have "in_range ?r 5" by code_simp
  from eval_ptr_in_bounds [OF e this] show ?thesis using e by (simp add: ptr_arg_def)
qed

section \<open>Where the bounds are not sound\<close>

definition unknown_val :: bpf_reg_val where
  "unknown_val = eval_fill_max_bound UINT64_MAX zero_reg_val"

text \<open>
  negating a value of which nothing is known gives the bounds 0 to 1, and no other result of the
  negation lies within them.
\<close>

theorem eval_neg_unsound:
  "in_range unknown_val 5 \<and> \<not> in_range (eval_neg unknown_val 64 UINT64_MAX) (- 5) \<and>
   umin (eval_neg unknown_val 64 UINT64_MAX) = 0 \<and> umax (eval_neg unknown_val 64 UINT64_MAX) = 1"
  by code_simp

text \<open>A subtraction of a value between -1 and 0 gives signed bounds that exclude a possible result.\<close>

theorem eval_sub_unsound:
  "let rd = (range_val 0 9)\<lparr>smax := 0x7fffffffffffffff, umax := 0x7fffffffffffffff\<rparr>;
       rs = unknown_val\<lparr>smin := - 1, smax := 0\<rparr>
   in in_range rd 4 \<and> in_range rs 0 \<and> \<not> in_range (eval_sub rd rs UINT64_MAX) (4 - 0)"
  by code_simp

text \<open>An arithmetic right shift of the least signed value by 0 to 63: -1 is above the upper unsigned bound.\<close>

theorem eval_arsh_unsound:
  "let rd = range_val 0x8000000000000000 0x8000000000000000; rs = range_val 0 63
   in in_range rd 0x8000000000000000 \<and> in_range rs 63 \<and> op_alu Rsh Int64 0x8000000000000000 63 = Some (- 1) \<and>
     map_option (\<lambda>r. in_u r (- 1)) (eval_arsh rd rs 64 UINT64_MAX) = Some False"
  by code_simp

text \<open>The lower bounds of bitwise AND and OR, and of a product of ranges, exclude possible results.\<close>

theorem eval_and_or_unsound:
  "in_range (range_val 3 4) 4 \<and> in_range (range_val 3 3) 3 \<and>
   map_option (\<lambda>r. in_range r (4 AND 3)) (eval_and (range_val 3 4) (range_val 3 3) 64 UINT64_MAX) = Some False \<and>
   in_range (range_val 1 2) 2 \<and> in_range (range_val 2 2) 2 \<and>
   map_option (\<lambda>r. in_range r (2 OR 2)) (eval_or (range_val 1 2) (range_val 2 2) 64 UINT64_MAX) = Some False"
  by code_simp

theorem eval_mul_unsound:
  "let rs = (range_val 1 2)\<lparr>umax := 0\<rparr>; rd = (range_val 3 4)\<lparr>umax := UINT64_MAX\<rparr>
   in in_s rd 3 \<and> in_s rs 1 \<and>
     map_option (\<lambda>r. in_s r (3 * 1)) (eval_mul rd rs 64 UINT64_MAX) = Some False"
  by code_simp

text \<open>A full 64-bit load gets the signed bounds 0 to -1, which no value satisfies.\<close>

theorem eval_max_load_empty: "\<not> in_s (eval_max_load UINT64_MAX r) x"
  by (simp add: in_s_def eval_max_load_def Let_def eval_umax_bound_def eval_smax_bound_def word_sle_eq)

text \<open>
  A store that begins exactly at a read-only field of the mbuf is not refused: the table gives
  every field the size zero.
\<close>

theorem mbuf_store_to_ro_field:
  "list_all (\<lambda>(ofs, _). eval_mbuf_store (range_val ofs ofs) 2 = None) mbuf_ro_fileds"
  by code_simp

end
