(* ===== verification/BPF_Findings.thy ===== *)
theory BPF_Findings
  imports BPF_Verified BPF_Eval_Props
begin

text \<open>
  Whole programs that show where the verifier accepts too much, or does not give a defined result:
  each one is run through \<open>validate\<close> or \<open>bpf_validate\<close>, and through the interpreter.
\<close>

section \<open>The end of the program\<close>

definition prog_no_exit :: rte_bpf where
  "prog_no_exit = bpf_of raw_arg [mk_insn 0xb7 0 0 0 0]"

text \<open>
  An edge to the index \<open>nb_ins\<close>, one past the last instruction, is accepted by \<open>add_edge\<close>, and
  the search then uses a node outside its array.
\<close>

theorem add_edge_off_by_one:
  "map_option snd (add_edge (bvf_init (prm prog_no_exit)) 0 (nb_ins (prm prog_no_exit))) = Some 0 \<and>
   map_option snd (validate (bvf_init (prm prog_no_exit))) = None"
  by code_simp

section \<open>A loop through the second half of a 64-bit load\<close>


lemma loop_switch:
  "map_of bpf_switch 0xb7 = Some (EBPF_MOV_ALU_IMM Uint64)"
  "map_of bpf_switch 0x15 = Some (BPF_JMP_CND_IMM CEq Uint64)"
  "map_of bpf_switch 0x05 = Some BPF_JMP_UNC"
  by code_simp+



section \<open>Reading outside the argument\<close>

definition prog_neg :: rte_bpf where
  "prog_neg = bpf_of (ptr_arg 8) [
     mk_insn 0x79 2 1 0 0,      \<comment> \<open>r2 = *(uint64_t *)(r1 + 0)\<close>
     mk_insn 0x87 2 0 0 0,      \<comment> \<open>r2 = -r2\<close>
     mk_insn 0x0f 1 2 0 0,      \<comment> \<open>r1 += r2\<close>
     mk_insn 0x71 0 1 0 0,      \<comment> \<open>r0 = *(uint8_t *)(r1 + 0)\<close>
     mk_insn 0x95 0 0 0 0]"

lemma find_switch:
  "map_of bpf_switch 0x79 = Some (BPF_LD_REG 8)" "map_of bpf_switch 0x71 = Some (BPF_LD_REG 1)"
  "map_of bpf_switch 0x87 = Some (BPF_NEG_ALU Uint64)" "map_of bpf_switch 0x0f = Some (BPF_OP_ALU_REG Add Uint64)"
  "map_of bpf_switch 0x2d = Some (BPF_JMP_CND_REG CGt Uint64)" "map_of bpf_switch 0x6d = Some (BPF_JMP_CND_REG CGt Int64)"
  "map_of bpf_switch 0x95 = Some EXIT_PROG"
  by code_simp+

lemma load_1: "load m 1 a = map_option ucast (m a)" "load m (Suc 0) a = map_option ucast (m a)"
  by (cases "m a"; simp add: load_def)+

text \<open>Bytes compare as 64-bit values, unsigned and signed, as they do as bytes.\<close>

lemma byte_less: "((ucast x :: u64) < ucast y) = ((x :: u8) < y)" "(sint (ucast x :: u64) < sint (ucast y :: u64)) = (x < y)"
proof -
  have u: "uint (ucast b :: u64) = uint b" for b :: u8 by (simp add: unsigned_ucast_eq take_bit_int_eq_self_iff uint_lt2p [THEN order.strict_trans2])
  moreover have "uint b < 2 ^ 63" for b :: u8 using uint_lt2p [of b] by simp
  ultimately have "sint (ucast b :: u64) = uint b" for b :: u8 by (subst sint_small) simp_all
  then show "((ucast x :: u64) < ucast y) = (x < y)" "(sint (ucast x :: u64) < sint (ucast y :: u64)) = (x < y)"
    by (simp_all add: word_less_def u)
qed

lemmas run_simps = bpf_step_def fetch_def nth_opt_def bpf_of_def mk_insn_def rd_reg_def set_dst_def wr_reg_def upd_opt_def
  next_ins_def jump_by_def imm64_def eff_addr_def loop_switch find_switch

text \<open>
  C37: the bounds of a negation let a program through that reads any address. \<open>bpf_validate\<close> accepts \<open>prog_neg\<close> for an argument
  of 8 bytes, and, whatever the registers and the memory, when the argument holds its own address less \<open>t\<close> the program returns
  the byte at the address \<open>t\<close>, or is undefined if nothing is there; so with 1 it reads the byte before its argument.
\<close>

theorem neg_reads_out_of_bounds:
  assumes "length rs = 11" and "load m 8 (rs ! 1) = Some (rs ! 1 - t)"
  shows "map_option fst (bpf_validate True True prog_neg) = Some 0 \<and>
    bpf_exec 5 prog_neg rs m = (case m t of None \<Rightarrow> Undefined
      | Some b \<Rightarrow> Done (ucast b) m (rs[2 := t - rs ! 1, 1 := t, 0 := ucast b]))"
proof
  show "map_option fst (bpf_validate True True prog_neg) = Some 0" by code_simp
  have 0: "bpf_step (prm prog_neg) \<lparr>pc = 0, reg = rs, emem = m\<rparr> = Some (Next \<lparr>pc = 1, reg = rs[2 := rs ! 1 - t], emem = m\<rparr>)"
    using assms by (simp add: run_simps prog_neg_def)
  have 1: "bpf_step (prm prog_neg) \<lparr>pc = 1, reg = rs[2 := rs ! 1 - t], emem = m\<rparr> =
      Some (Next \<lparr>pc = 2, reg = rs[2 := t - rs ! 1], emem = m\<rparr>)"
    using assms by (simp add: run_simps prog_neg_def)
  have 2: "bpf_step (prm prog_neg) \<lparr>pc = 2, reg = rs[2 := t - rs ! 1], emem = m\<rparr> =
      Some (Next \<lparr>pc = 3, reg = rs[2 := t - rs ! 1, 1 := t], emem = m\<rparr>)"
    using assms by (simp add: run_simps prog_neg_def)
  have 3: "bpf_step (prm prog_neg) \<lparr>pc = 3, reg = rs[2 := t - rs ! 1, 1 := t], emem = m\<rparr> =
      (case m t of None \<Rightarrow> None | Some b \<Rightarrow> Some (Next \<lparr>pc = 4, reg = rs[2 := t - rs ! 1, 1 := t, 0 := ucast b], emem = m\<rparr>))"
    using assms(1) by (simp add: run_simps prog_neg_def load_1 split: option.splits)
  have 4: "bpf_step (prm prog_neg) \<lparr>pc = 4, reg = rs[2 := t - rs ! 1, 1 := t, 0 := w], emem = m\<rparr> = Some (Return w m)" for w
    using assms(1) by (simp add: run_simps prog_neg_def)
  have "bpf_exec (Suc (Suc (Suc (Suc (Suc 0))))) prog_neg rs m = (case m t of None \<Rightarrow> Undefined
      | Some b \<Rightarrow> Done (ucast b) m (rs[2 := t - rs ! 1, 1 := t, 0 := ucast b]))"
    by (simp add: bpf_exec_def 0 1 2 3 4 del: One_nat_def split: option.splits)
  then show "bpf_exec 5 prog_neg rs m = (case m t of None \<Rightarrow> Undefined
      | Some b \<Rightarrow> Done (ucast b) m (rs[2 := t - rs ! 1, 1 := t, 0 := ucast b]))"
    by (simp add: numeral_eq_Suc)
qed

text \<open>An argument at the address 0x1000 that holds the number 1: the program returns the byte at 0xfff.\<close>

theorem neg_reads_out_of_bounds_witness:
  "\<exists>m. m 0xfff = Some 42 \<and> (\<exists>rs'. bpf_exec 5 prog_neg ((replicate 11 0)[1 := 0x1000]) m = Done 42 m rs')"
proof -
  let ?m = "(\<lambda>a. if a = 0xfff then Some 42 else if a = 0x1000 then Some 1 else Some 0) :: mem"
  let ?rs = "(replicate 11 0)[1 := 0x1000] :: u64 list"
  have "load ?m 8 0x1000 = Some 1" by code_simp
  then have "load ?m 8 (?rs ! 1) = Some (?rs ! 1 - 0xfff)" by simp
  from neg_reads_out_of_bounds [OF _ this] show ?thesis by (intro exI [of _ ?m]) auto
qed

definition prog_jgt :: rte_bpf where
  "prog_jgt = bpf_of (ptr_arg 8) [
     mk_insn 0x71 2 1 0 0,      \<comment> \<open>0: r2 = *(uint8_t *)(r1 + 0)\<close>
     mk_insn 0x71 3 1 1 0,      \<comment> \<open>1: r3 = *(uint8_t *)(r1 + 1)\<close>
     mk_insn 0xb7 0 0 0 0,      \<comment> \<open>2: r0 = 0\<close>
     mk_insn 0x2d 3 2 3 0,      \<comment> \<open>3: if r3 > r2 goto 7\<close>
     mk_insn 0x6d 3 2 2 0,      \<comment> \<open>4: if r3 s> r2 goto 7\<close>
     mk_insn 0x0f 1 3 0 0,      \<comment> \<open>5: r1 += r3\<close>
     mk_insn 0x71 0 1 0 0,      \<comment> \<open>6: r0 = *(uint8_t *)(r1 + 0)\<close>
     mk_insn 0x95 0 0 0 0]      \<comment> \<open>7: exit\<close>"

text \<open>
  C38: after a comparison of two registers by greater, the branch that falls through takes the smallest value of the second
  operand, not the largest, as an upper bound of the first. \<open>bpf_validate\<close> accepts a program that checks an index byte \<open>y\<close> against
  another byte \<open>x\<close> of its argument of 8 bytes and then reads at that index: whatever the registers and the memory, it
  returns the byte \<open>y\<close> bytes after the start of the argument for every index up to \<open>x\<close>, so for 8 to 255 a byte behind the argument, or is
  undefined if nothing is there.
\<close>

theorem jgt_reads_out_of_bounds:
  assumes "length rs = 11" and "m (rs ! 1) = Some x" and "m (rs ! 1 + 1) = Some y"
  shows "map_option fst (bpf_validate True True prog_jgt) = Some 0 \<and>
    bpf_exec 8 prog_jgt rs m =
      (if x < y then Done 0 m (rs[2 := ucast x, 3 := ucast y, 0 := 0])
       else case m (rs ! 1 + ucast y) of None \<Rightarrow> Undefined
         | Some b \<Rightarrow> Done (ucast b) m (rs[2 := ucast x, 3 := ucast y, 1 := rs ! 1 + ucast y, 0 := ucast b]))"
proof
  show "map_option fst (bpf_validate True True prog_jgt) = Some 0" by code_simp
  let ?r = "rs[2 := ucast x, 3 := ucast y, 0 := 0]" and ?a = "rs ! 1 + ucast y"
  let ?s = "\<lambda>k r. \<lparr>pc = k, reg = r, emem = m\<rparr>"
  have 0: "bpf_step (prm prog_jgt) (?s 0 rs) = Some (Next (?s 1 (rs[2 := ucast x])))"
    "bpf_step (prm prog_jgt) (?s 1 (rs[2 := ucast x])) = Some (Next (?s 2 (rs[2 := ucast x, 3 := ucast y])))"
    "bpf_step (prm prog_jgt) (?s 2 (rs[2 := ucast x, 3 := ucast y])) = Some (Next (?s 3 ?r))"
    using assms by (simp_all add: run_simps prog_jgt_def load_1)
  have 3: "bpf_step (prm prog_jgt) (?s 3 ?r) = Some (Next (?s (if x < y then 7 else 4) ?r))"
    using assms byte_less by (simp add: run_simps prog_jgt_def)
  have 4: "bpf_step (prm prog_jgt) (?s 4 ?r) = Some (Next (?s (if x < y then 7 else 5) ?r))"
    using assms byte_less by (simp add: run_simps prog_jgt_def)
  have 5: "bpf_step (prm prog_jgt) (?s 5 ?r) = Some (Next (?s 6 (rs[2 := ucast x, 3 := ucast y, 0 := 0, 1 := ?a])))"
    using assms by (simp add: run_simps prog_jgt_def)
  have w: "xs[0 := v, Suc 0 := a, 0 := b] = xs[Suc 0 := a, 0 := b]" for xs :: "u64 list" and v a b
    by (simp add: list_update_swap [of 0 "Suc 0"])
  have 6: "bpf_step (prm prog_jgt) (?s 6 (rs[2 := ucast x, 3 := ucast y, 0 := 0, 1 := ?a])) =
      (case m ?a of None \<Rightarrow> None | Some b \<Rightarrow> Some (Next (?s 7 (rs[2 := ucast x, 3 := ucast y, 1 := ?a, 0 := ucast b]))))"
    using assms by (simp add: run_simps prog_jgt_def load_1 w split: option.splits)
  have 7: "length r = 11 \<Longrightarrow> bpf_step (prm prog_jgt) (?s 7 r) = Some (Return (r ! 0) m)" for r
    by (simp add: run_simps prog_jgt_def)
  have "bpf_exec (Suc (Suc (Suc (Suc (Suc (Suc (Suc (Suc 0)))))))) prog_jgt rs m =
      (if x < y then Done 0 m ?r
       else case m ?a of None \<Rightarrow> Undefined | Some b \<Rightarrow> Done (ucast b) m (rs[2 := ucast x, 3 := ucast y, 1 := ?a, 0 := ucast b]))"
    using assms(1) by (simp add: bpf_exec_def 0 3 4 5 6 7 del: One_nat_def split: option.splits)
  then show "bpf_exec 8 prog_jgt rs m =
      (if x < y then Done 0 m ?r
       else case m ?a of None \<Rightarrow> Undefined | Some b \<Rightarrow> Done (ucast b) m (rs[2 := ucast x, 3 := ucast y, 1 := ?a, 0 := ucast b]))"
    by (simp add: numeral_eq_Suc)
qed

text \<open>An argument at the address 0x1000 that holds the number 200 twice: the program returns the byte at 0x10c8.\<close>

theorem jgt_reads_out_of_bounds_witness:
  "\<exists>m. m 0x10c8 = Some 42 \<and> (\<exists>rs'. bpf_exec 8 prog_jgt ((replicate 11 0)[1 := 0x1000]) m = Done 42 m rs')"
proof -
  let ?m = "(\<lambda>a. if a = 0x10c8 then Some 42 else Some 200) :: mem"
  let ?rs = "(replicate 11 0)[1 := 0x1000] :: u64 list"
  have "?m (?rs ! 1) = Some 200" "?m (?rs ! 1 + 1) = Some 200" by simp_all
  from jgt_reads_out_of_bounds [OF _ this] show ?thesis by (intro exI [of _ ?m]) auto
qed

section \<open>Instructions that are not evaluated\<close>

definition prog_first_jump :: rte_bpf where
  "prog_first_jump = bpf_of raw_arg [
     mk_insn 0x15 1 0 2 0,      \<comment> \<open>0: if r1 == 0 goto 3\<close>
     mk_insn 0xbf 0 5 0 0,      \<comment> \<open>1: r0 = r5, which has no value\<close>
     mk_insn 0x95 0 0 0 0,
     mk_insn 0xb7 0 0 0 0,      \<comment> \<open>3: r0 = 0\<close>
     mk_insn 0x95 0 0 0 0]"

text \<open>
  when the first instruction is a conditional jump, \<open>evaluate\<close> ends when it comes back to it: the
  branch that falls through is never looked at, and may use a register that has no value. Behind
  another instruction the same jump is refused.
\<close>

theorem first_jump_half_evaluated:
  "map_option fst (bpf_validate True True prog_first_jump) = Some 0 \<and>
   map_option fst (bpf_validate True True
     (bpf_of raw_arg (mk_insn 0xb7 2 0 0 0 # ins (prm prog_first_jump)))) = Some (- 22)"
proof
  show "map_option fst (bpf_validate True True prog_first_jump) = Some 0" by code_simp
  show "map_option fst (bpf_validate True True
     (bpf_of raw_arg (mk_insn 0xb7 2 0 0 0 # ins (prm prog_first_jump)))) = Some (- 22)" by code_simp
qed

text \<open>
  The entry of the register form of \<open>EBPF_JSLT\<close> has no \<open>eval\<close>: comparing two registers without a
  value is accepted, and refused for \<open>EBPF_JSLE\<close>.
\<close>

theorem jslt_reg_not_evaluated:
  "map_option fst (bpf_validate True True (bpf_of raw_arg
     [mk_insn 0xb7 0 0 0 0, mk_insn 0xcd 2 3 0 0, mk_insn 0x95 0 0 0 0])) = Some 0 \<and>
   map_option fst (bpf_validate True True (bpf_of raw_arg
     [mk_insn 0xb7 0 0 0 0, mk_insn 0xdd 2 3 0 0, mk_insn 0x95 0 0 0 0])) = Some (- 22)"
proof
  show "map_option fst (bpf_validate True True (bpf_of raw_arg
     [mk_insn 0xb7 0 0 0 0, mk_insn 0xcd 2 3 0 0, mk_insn 0x95 0 0 0 0])) = Some 0" by code_simp
  show "map_option fst (bpf_validate True True (bpf_of raw_arg
     [mk_insn 0xb7 0 0 0 0, mk_insn 0xdd 2 3 0 0, mk_insn 0x95 0 0 0 0])) = Some (- 22)" by code_simp
qed

section \<open>Read-only fields of the mbuf\<close>

text \<open>A program that overwrites the buffer address of its mbuf is accepted.\<close>

theorem mbuf_buf_addr_overwritten:
  "map_option fst (bpf_validate True True (bpf_of mbuf_arg
     [mk_insn 0x7b 1 1 0 0, mk_insn 0xb7 0 0 0 0, mk_insn 0x95 0 0 0 0])) = Some 0"
  by code_simp

end
