(* ===== verification/BPF_Jcc_Sound.thy ===== *)
theory BPF_Jcc_Sound
  imports BPF_Eval_Props BPF_Cfg
begin

text \<open>
  Soundness of \<open>eval_jcc\<close> of \<open>bpf_validate.c\<close>: after a conditional jump the registers lie within the bounds of the
  branch that the interpreter takes. The laws of one comparison, one for each branch, are the locale \<open>sound_branch\<close>,
  interpreted on the eleven comparisons. In the branch where the first operand is not greater, of the jumps on greater and on
  less-or-equal, the law holds only when the second operand is a constant (\<open>eval_jgt_unsound\<close>).
\<close>

section \<open>The interface\<close>

locale sound_branch =
  fixes ops :: "bpf_reg_val \<Rightarrow> bpf_reg_val \<Rightarrow> bpf_reg_val \<Rightarrow> bpf_reg_val \<Rightarrow>
      bpf_reg_val \<times> bpf_reg_val \<times> bpf_reg_val \<times> bpf_reg_val"
    and cond :: "u64 \<Rightarrow> u64 \<Rightarrow> bool"
    and pre_t pre_f :: "bpf_reg_val \<Rightarrow> bool"
  assumes taken: "ops trd trs frd frs = (trd', trs', frd', frs') \<Longrightarrow> pre_t trs \<Longrightarrow> in_range trd x \<Longrightarrow> in_range trs y \<Longrightarrow> cond x y \<Longrightarrow>
      in_range trd' x \<and> in_range trs' y"
    and falls: "ops trd trs frd frs = (trd', trs', frd', frs') \<Longrightarrow> pre_f frs \<Longrightarrow> in_range frd x \<Longrightarrow> in_range frs y \<Longrightarrow> \<not> cond x y \<Longrightarrow>
      in_range frd' x \<and> in_range frs' y"

section \<open>Words\<close>

lemma less_minus1: "(x :: u64) < y \<Longrightarrow> y \<le> m \<Longrightarrow> x \<le> m - 1"
  by unat_arith

lemma less_plus1: "(y :: u64) < x \<Longrightarrow> m \<le> y \<Longrightarrow> m + 1 \<le> x"
  by unat_arith

lemma sless_minus1:
  fixes x y m :: u64
  assumes "sint x < sint y" "sint y \<le> sint m"
  shows "sint x \<le> sint (m - 1)"
proof -
  have "sint (m - 1) = sint m - 1" using assms sint_bounds [of x] sint_bounds [of m] by (simp add: sint_minus64)
  then show ?thesis using assms by simp
qed

lemma sless_plus1:
  fixes x y m :: u64
  assumes "sint y < sint x" "sint m \<le> sint y"
  shows "sint (m + 1) \<le> sint x"
proof -
  have "sint (m + 1) = sint m + 1" using assms sint_bounds [of x] sint_bounds [of m] by (simp add: sint_plus64)
  then show ?thesis using assms by simp
qed

lemma in_s_sint: "in_s r x \<longleftrightarrow> sint (smin r) \<le> sint x \<and> sint x \<le> sint (smax r)"
  by (simp add: in_s_def word_sle_eq)

lemma sint_min_max: "sint (s_min a b) = min (sint a) (sint b)" "sint (s_max a b) = max (sint a) (sint b)"
  by (simp_all add: s_min_def s_max_def word_sless_alt)

lemmas range_defs = in_range_def in_u_def in_s_sint sint_min_max

section \<open>The comparisons\<close>

lemma eq_bounds:
  assumes "eval_jeq_jne d s = (d', s')" "in_range d x" "in_range s x"
  shows "in_range d' x \<and> in_range s' x"
  using assms by (auto simp: eval_jeq_jne_def set_u_def set_s_def range_defs Let_def split: if_splits)

interpretation jeq: sound_branch "jcc_ops BPF_JEQ" "(=)" "\<lambda>_. True" "\<lambda>_. True"
  by unfold_locales (auto simp: jcc_ops_def split: prod.splits dest: eq_bounds)

interpretation jne: sound_branch "jcc_ops EBPF_JNE" "(\<noteq>)" "\<lambda>_. True" "\<lambda>_. True"
  by unfold_locales (auto simp: jcc_ops_def split: prod.splits dest: eq_bounds)

interpretation jlt: sound_branch "jcc_ops EBPF_JLT" "(<)" "\<lambda>_. True" "\<lambda>_. True"
  by unfold_locales (auto simp: jcc_ops_def eval_jlt_jge_def range_defs not_le not_less intro: less_minus1)

interpretation jge: sound_branch "jcc_ops BPF_JGE" "\<lambda>x y. y \<le> x" "\<lambda>_. True" "\<lambda>_. True"
  by unfold_locales (auto simp: jcc_ops_def eval_jlt_jge_def range_defs not_le not_less intro: less_minus1)

interpretation jgt: sound_branch "jcc_ops BPF_JGT" "\<lambda>x y. y < x" "\<lambda>_. True" "\<lambda>r. umin r = umax r"
  by unfold_locales (auto simp: jcc_ops_def eval_jgt_jle_def range_defs not_le not_less intro: less_plus1)

interpretation jle: sound_branch "jcc_ops EBPF_JLE" "(\<le>)" "\<lambda>r. umin r = umax r" "\<lambda>_. True"
  by unfold_locales (auto simp: jcc_ops_def eval_jgt_jle_def range_defs not_le not_less intro: less_plus1)

interpretation jslt: sound_branch "jcc_ops EBPF_JSLT" "\<lambda>x y. sint x < sint y" "\<lambda>_. True" "\<lambda>_. True"
  by unfold_locales (auto simp: jcc_ops_def eval_jslt_jsge_def range_defs not_le not_less intro: sless_minus1)

interpretation jsge: sound_branch "jcc_ops EBPF_JSGE" "\<lambda>x y. sint y \<le> sint x" "\<lambda>_. True" "\<lambda>_. True"
  by unfold_locales (auto simp: jcc_ops_def eval_jslt_jsge_def range_defs not_le not_less intro: sless_minus1)

interpretation jsgt: sound_branch "jcc_ops EBPF_JSGT" "\<lambda>x y. sint y < sint x" "\<lambda>_. True" "\<lambda>r. smin r = smax r"
  by unfold_locales (auto simp: jcc_ops_def eval_jsgt_jsle_def range_defs not_le not_less intro: sless_plus1 [OF _ eq_refl] sless_plus1)

interpretation jsle: sound_branch "jcc_ops EBPF_JSLE" "\<lambda>x y. sint x \<le> sint y" "\<lambda>r. smin r = smax r" "\<lambda>_. True"
  by unfold_locales (auto simp: jcc_ops_def eval_jsgt_jsle_def range_defs not_le not_less intro: sless_plus1)

interpretation jset: sound_branch "jcc_ops BPF_JSET" "\<lambda>x y. x AND y \<noteq> 0" "\<lambda>_. True" "\<lambda>_. True"
  by unfold_locales (auto simp: jcc_ops_def)

text \<open>Without the condition: 5 is not greater than 7, which lies between 0 and 9, but the bound is 0.\<close>

lemma eval_jgt_unsound:
  "case jcc_ops BPF_JGT (range_val 0 9) (range_val 0 9) (range_val 0 9) (range_val 0 9) of
     (trd, trs, frd, frs) \<Rightarrow> in_range (range_val 0 9) 5 \<and> in_range (range_val 0 9) 7 \<and> \<not> in_range frd 5"
  by code_simp

section \<open>The jumps\<close>

text \<open>The comparison of the interpreter for each jump that \<open>eval_jcc\<close> knows, and the conditions on the second operand, if it
jumps and if it falls through.\<close>

definition jcc_table :: "(u8 \<times> cmp_op \<times> ctype) list" where
  "jcc_table = [(BPF_JEQ, CEq, Uint64), (EBPF_JNE, CNe, Uint64), (BPF_JGT, CGt, Uint64), (EBPF_JLE, CLe, Uint64),
     (EBPF_JLT, CLt, Uint64), (BPF_JGE, CGe, Uint64), (EBPF_JSGT, CGt, Int64), (EBPF_JSLE, CLe, Int64),
     (EBPF_JSLT, CLt, Int64), (EBPF_JSGE, CGe, Int64), (BPF_JSET, CAnd, Uint64)]"

definition jcc_pre_t :: "u8 \<Rightarrow> bpf_reg_val \<Rightarrow> bool" where
  "jcc_pre_t op r \<longleftrightarrow> (op = EBPF_JLE \<longrightarrow> umin r = umax r) \<and> (op = EBPF_JSLE \<longrightarrow> smin r = smax r)"

definition jcc_pre_f :: "u8 \<Rightarrow> bpf_reg_val \<Rightarrow> bool" where
  "jcc_pre_f op r \<longleftrightarrow> (op = BPF_JGT \<longrightarrow> umin r = umax r) \<and> (op = EBPF_JSGT \<longrightarrow> smin r = smax r)"

lemma jcc_switch:
  assumes "(op, c, t) \<in> set jcc_table"
  shows "map_of bpf_switch (BPF_JMP OR op OR BPF_X) = Some (BPF_JMP_CND_REG c t)"
    "map_of bpf_switch (BPF_JMP OR op OR BPF_K) = Some (BPF_JMP_CND_IMM c t)"
    "BPF_OP (BPF_JMP OR op OR BPF_X) = op" "BPF_OP (BPF_JMP OR op OR BPF_K) = op"
    "BPF_SRC (BPF_JMP OR op OR BPF_X) = BPF_X" "BPF_SRC (BPF_JMP OR op OR BPF_K) \<noteq> BPF_X"
    "cast t x = x"
proof -
  have "list_all (\<lambda>(op, c, t). map_of bpf_switch (BPF_JMP OR op OR BPF_X) = Some (BPF_JMP_CND_REG c t) \<and>
      map_of bpf_switch (BPF_JMP OR op OR BPF_K) = Some (BPF_JMP_CND_IMM c t) \<and>
      BPF_OP (BPF_JMP OR op OR BPF_X) = op \<and> BPF_OP (BPF_JMP OR op OR BPF_K) = op \<and>
      BPF_SRC (BPF_JMP OR op OR BPF_X) = BPF_X \<and> BPF_SRC (BPF_JMP OR op OR BPF_K) \<noteq> BPF_X) jcc_table" by code_simp
  then show "map_of bpf_switch (BPF_JMP OR op OR BPF_X) = Some (BPF_JMP_CND_REG c t)"
    "map_of bpf_switch (BPF_JMP OR op OR BPF_K) = Some (BPF_JMP_CND_IMM c t)"
    "BPF_OP (BPF_JMP OR op OR BPF_X) = op" "BPF_OP (BPF_JMP OR op OR BPF_K) = op"
    "BPF_SRC (BPF_JMP OR op OR BPF_X) = BPF_X" "BPF_SRC (BPF_JMP OR op OR BPF_K) \<noteq> BPF_X"
    using assms unfolding list_all_iff by blast+
  show "cast t x = x" using assms by (auto simp: jcc_table_def)
qed

text \<open>The eleven interpretations as one fact about the table.\<close>

lemma table_sound:
  assumes t: "(op, c, t) \<in> set jcc_table"
  shows "sound_branch (jcc_ops op) (cmp_alu c t) (jcc_pre_t op) (jcc_pre_f op)"
proof -
  note facts = jeq.sound_branch_axioms jne.sound_branch_axioms jlt.sound_branch_axioms jge.sound_branch_axioms jgt.sound_branch_axioms
    jle.sound_branch_axioms jslt.sound_branch_axioms jsge.sound_branch_axioms jsgt.sound_branch_axioms jsle.sound_branch_axioms
    jset.sound_branch_axioms
  have "cmp_alu CEq Uint64 = (=)" "cmp_alu CNe Uint64 = (\<noteq>)" "cmp_alu CLt Uint64 = (<)" "cmp_alu CGe Uint64 = (\<lambda>x y. y \<le> x)"
    "cmp_alu CGt Uint64 = (\<lambda>x y. y < x)" "cmp_alu CLe Uint64 = (\<le>)" "cmp_alu CLt Int64 = (\<lambda>x y. sint x < sint y)"
    "cmp_alu CGe Int64 = (\<lambda>x y. sint y \<le> sint x)" "cmp_alu CGt Int64 = (\<lambda>x y. sint y < sint x)" "cmp_alu CLe Int64 = (\<lambda>x y. sint x \<le> sint y)"
    "cmp_alu CAnd Uint64 = (\<lambda>x y. x AND y \<noteq> 0)"
    by (simp_all add: fun_eq_iff)
  moreover have "jcc_pre_t BPF_JEQ = (\<lambda>_. True)" "jcc_pre_f BPF_JEQ = (\<lambda>_. True)"
    "jcc_pre_t EBPF_JNE = (\<lambda>_. True)" "jcc_pre_f EBPF_JNE = (\<lambda>_. True)"
    "jcc_pre_t EBPF_JLT = (\<lambda>_. True)" "jcc_pre_f EBPF_JLT = (\<lambda>_. True)"
    "jcc_pre_t BPF_JGE = (\<lambda>_. True)" "jcc_pre_f BPF_JGE = (\<lambda>_. True)"
    "jcc_pre_t EBPF_JSLT = (\<lambda>_. True)" "jcc_pre_f EBPF_JSLT = (\<lambda>_. True)"
    "jcc_pre_t EBPF_JSGE = (\<lambda>_. True)" "jcc_pre_f EBPF_JSGE = (\<lambda>_. True)"
    "jcc_pre_t BPF_JSET = (\<lambda>_. True)" "jcc_pre_f BPF_JSET = (\<lambda>_. True)"
    "jcc_pre_t BPF_JGT = (\<lambda>_. True)" "jcc_pre_f BPF_JGT = (\<lambda>r. umin r = umax r)"
    "jcc_pre_t EBPF_JLE = (\<lambda>r. umin r = umax r)" "jcc_pre_f EBPF_JLE = (\<lambda>_. True)"
    "jcc_pre_t EBPF_JSGT = (\<lambda>_. True)" "jcc_pre_f EBPF_JSGT = (\<lambda>r. smin r = smax r)"
    "jcc_pre_t EBPF_JSLE = (\<lambda>r. smin r = smax r)" "jcc_pre_f EBPF_JSLE = (\<lambda>_. True)"
    by (simp_all add: fun_eq_iff jcc_pre_t_def jcc_pre_f_def)
  ultimately show ?thesis using t facts by (auto simp: jcc_table_def)
qed

lemma jcc_pre_const: "umin r = umax r \<Longrightarrow> smin r = smax r \<Longrightarrow> jcc_pre_t op r \<and> jcc_pre_f op r"
  by (simp add: jcc_pre_t_def jcc_pre_f_def)

lemma regs_put: "regs_in st rs \<Longrightarrow> put_rv st k r = Some st' \<Longrightarrow> in_range r (rs ! k) \<Longrightarrow> regs_in st' rs"
  by (auto simp: put_rv_def regs_in_def nth_list_update)

lemma put_opnds_in:
  assumes "regs_in st rs" "put_opnds st i d s = Some st'" "in_range d (rs ! unat (dst_reg i))"
    and "BPF_SRC (code i) = BPF_X \<Longrightarrow> in_range s (rs ! unat (src_reg i))"
  shows "regs_in st' rs"
proof (cases "BPF_SRC (code i) = BPF_X \<and> src_reg i \<noteq> dst_reg i")
  case True
  then obtain st1 where st1: "put_rv st (unat (dst_reg i)) d = Some st1" "put_rv st1 (unat (src_reg i)) s = Some st'"
    using assms(2) by (auto simp: put_opnds_def split: bind_splits)
  have "regs_in st1 rs" using regs_put [OF assms(1) st1(1) assms(3)] .
  then show ?thesis using regs_put [OF _ st1(2)] True assms(4) by blast
next
  case False
  then show ?thesis using assms(1-3) regs_put by (auto simp: put_opnds_def)
qed

text \<open>The operands of a jump as the verifier has them in one of the states.\<close>

lemma opnds_in:
  assumes R: "regs_in st rs" and g: "get_rv st (unat (dst_reg i)) = Some rd" "get_src_opnd st i = Some r"
    and t: "rv_type (rv st ! unat (dst_reg i)) = RTE_BPF_ARG_RAW"
      "BPF_SRC (code i) = BPF_X \<Longrightarrow> rv_type (rv st ! unat (src_reg i)) = RTE_BPF_ARG_RAW"
  shows "in_range rd (rs ! unat (dst_reg i)) \<and>
    in_range r (if BPF_SRC (code i) = BPF_X then rs ! unat (src_reg i) else imm64 i) \<and>
    (if BPF_SRC (code i) = BPF_X then r = rv st ! unat (src_reg i) else umin r = umax r \<and> smin r = smax r)"
proof -
  have d: "in_range rd (rs ! unat (dst_reg i))" using R g(1) t(1) by (auto simp: get_rv_def regs_in_def)
  show ?thesis
  proof (cases "BPF_SRC (code i) = BPF_X")
    case True
    then show ?thesis using R g(2) t(2) d by (auto simp: get_src_opnd_def get_rv_def regs_in_def)
  next
    case False
    then have r: "r = eval_fill_imm UINT64_MAX (imm i) zero_reg_val" using g(2) by (simp add: get_src_opnd_def)
    then have "umin r = umax r \<and> smin r = smax r" by (simp add: eval_fill_imm_def eval_fill_imm64_def)
    then show ?thesis using False r d eval_fill_imm_range [of "imm i"] by (simp add: imm64_def)
  qed
qed

text \<open>
  C12: conditional jumps. When the registers lie within the bounds before a jump, with plain values as operands, they lie,
  after the step of the interpreter, within the bounds that \<open>eval_jcc\<close> leaves for the branch it takes: those of the current
  state if it jumps, those of the state saved for the other branch if it falls through. This is so for all eleven comparisons, with a
  register or an immediate, but for one branch of four of them: where the first operand is not greater (less-or-equal jumps,
  greater falls through) and the second is a register with no constant bounds, the bounds are wrong (\<open>eval_jgt_unsound\<close>).
\<close>
theorem jcc_sound:
  assumes e: "eval_jcc bvf i = Some (Inr bvf')"
    and i: "(op, c, t) \<in> set jcc_table" "code i = (BPF_JMP OR op OR BPF_X) \<or> code i = (BPF_JMP OR op OR BPF_K)"
    and st: "bvf_evst bvf = Some ct" "nth_opt (pool_ent bvf) ct = Some tst"
      "bvf_evin bvf = Some n" "nth_opt (bvf_in bvf) n = Some nd" "node_evst nd = Some cf" "nth_opt (pool_ent bvf) cf = Some elsest" "ct \<noteq> cf"
    and R: "regs_in tst (reg est)" "regs_in elsest (reg est)"
    and raw: "\<forall>s \<in> {tst, elsest}. rv_type (rv s ! unat (dst_reg i)) = RTE_BPF_ARG_RAW \<and>
      (BPF_SRC (code i) = BPF_X \<longrightarrow> rv_type (rv s ! unat (src_reg i)) = RTE_BPF_ARG_RAW)"
    and s: "fetch p (pc est) = Some i" "bpf_step p est = Some (Next est')"
  defines "X \<equiv> BPF_SRC (code i) = BPF_X" and "trs \<equiv> rv tst ! unat (src_reg i)" and "frs \<equiv> rv elsest ! unat (src_reg i)"
  shows "\<exists>tst' elsest'. nth_opt (pool_ent bvf') ct = Some tst' \<and> nth_opt (pool_ent bvf') cf = Some elsest' \<and> bvf_evst bvf' = Some ct \<and>
    (if cmp_alu c t (reg est ! unat (dst_reg i)) (if X then reg est ! unat (src_reg i) else imm64 i)
     then pc est' = pc est + 1 + sint (off i) \<and>
       (\<not> (X \<and> (op = EBPF_JLE \<and> umin trs \<noteq> umax trs \<or> op = EBPF_JSLE \<and> smin trs \<noteq> smax trs)) \<longrightarrow> regs_in tst' (reg est'))
     else pc est' = pc est + 1 \<and>
       (\<not> (X \<and> (op = BPF_JGT \<and> umin frs \<noteq> umax frs \<or> op = EBPF_JSGT \<and> smin frs \<noteq> smax frs)) \<longrightarrow> regs_in elsest' (reg est')))"
proof -
  let ?d = "unat (dst_reg i)"
  obtain frd trd fr tr where g: "get_rv elsest ?d = Some frd" "get_rv tst ?d = Some trd" "get_src_opnd elsest i = Some fr" "get_src_opnd tst i = Some tr"
    using e unfolding eval_jcc_def get_evst_def st bind.simps by (auto split: bind_splits)
  obtain trd' trs' frd' frs' where q: "jcc_ops (BPF_OP (code i)) trd tr frd fr = (trd', trs', frd', frs')" by (metis prod_cases4)
  have d: "eval_defined (Some trd) (Some tr) = None" using e g unfolding eval_jcc_def get_evst_def st bind.simps by (auto split: option.splits)
  obtain tst' elsest' bvf1 where p: "put_opnds tst i trd' trs' = Some tst'" "put_opnds elsest i frd' frs' = Some elsest'"
    "put_evst bvf tst' = Some bvf1" "bvf' = bvf1\<lparr>pool_ent := (pool_ent bvf1)[cf := elsest']\<rparr>"
    using e unfolding eval_jcc_def get_evst_def st g d q bind.simps option.case prod.case by (auto split: bind_splits)
  then have bvf': "bvf' = bvf\<lparr>pool_ent := (pool_ent bvf)[ct := tst', cf := elsest']\<rparr>" using st(1) by (auto simp: put_evst_def split: bind_splits simp del: upd_opt_Some) (auto simp: upd_opt_def split: if_splits)
  have len: "ct < length (pool_ent bvf)" "cf < length (pool_ent bvf)" using st(2,6) by simp_all
  have op: "BPF_OP (code i) = op" using i(2) jcc_switch(3,4) [OF i(1)] by auto
  note tab = table_sound [OF i(1)]
  let ?x = "reg est ! ?d" and ?y = "if X then reg est ! unat (src_reg i) else imm64 i"
  have T: "in_range trd ?x \<and> in_range tr ?y \<and> (if X then tr = trs else umin tr = umax tr \<and> smin tr = smax tr)"
    unfolding X_def trs_def by (rule opnds_in [OF R(1) g(2,4)]) (use raw in auto)
  have F: "in_range frd ?x \<and> in_range fr ?y \<and> (if X then fr = frs else umin fr = umax fr \<and> smin fr = smax fr)"
    unfolding X_def frs_def by (rule opnds_in [OF R(2) g(1,3)]) (use raw in auto)
  have step: "reg est' = reg est \<and> pc est' = pc est + 1 + (if cmp_alu c t ?x ?y then sint (off i) else 0)"
    using s i(2) jcc_switch [OF i(1)] unfolding X_def
    by (auto simp: bpf_step_def rd_reg_def jump_by_def next_ins_def split: bind_splits)
  have jumps: "regs_in tst' (reg est)" if "cmp_alu c t ?x ?y"
    "\<not> (X \<and> (op = EBPF_JLE \<and> umin trs \<noteq> umax trs \<or> op = EBPF_JSLE \<and> smin trs \<noteq> smax trs))"
  proof -
    have "jcc_pre_t op tr" using T that(2) by (auto simp: jcc_pre_t_def split: if_splits)
    then have "in_range trd' ?x \<and> in_range trs' ?y" using sound_branch.taken [OF tab q [unfolded op]] T that(1) by blast
    then show ?thesis by (intro put_opnds_in [OF R(1) p(1)]) (auto simp: X_def)
  qed
  have falls: "regs_in elsest' (reg est)" if "\<not> cmp_alu c t ?x ?y"
    "\<not> (X \<and> (op = BPF_JGT \<and> umin frs \<noteq> umax frs \<or> op = EBPF_JSGT \<and> smin frs \<noteq> smax frs))"
  proof -
    have "jcc_pre_f op fr" using F that(2) by (auto simp: jcc_pre_f_def split: if_splits)
    then have "in_range frd' ?x \<and> in_range frs' ?y" using sound_branch.falls [OF tab q [unfolded op]] F that(1) by blast
    then show ?thesis by (intro put_opnds_in [OF R(2) p(2)]) (auto simp: X_def)
  qed
  show ?thesis using jumps falls step len st(1,7) by (simp add: bvf')
qed

text \<open>A jump if register 0 is less than 4, after which the bounds are 1 to 3 and 4 to 5.\<close>

definition jlt_4 :: ebpf_insn where "jlt_4 = mk_insn 0xa5 0 0 1 4"

definition bvf_jlt :: bpf_verifier where
  "bvf_jlt = (bvf_init (prm (bpf_of raw_arg [jlt_4])))
     \<lparr>bvf_in := [zero_node\<lparr>node_evst := Some 1\<rparr>], bvf_evst := Some 0, bvf_evin := Some 0, pool_ent := [st_1_5, st_1_5]\<rparr>"

theorem jcc_sound_witness:
  "\<exists>bvf' est' tst' elsest'. eval_jcc bvf_jlt jlt_4 = Some (Inr bvf') \<and>
     bpf_step (prm (bpf_of raw_arg [jlt_4])) \<lparr>pc = 0, reg = replicate 11 3, emem = (\<lambda>_. None)\<rparr> = Some (Next est') \<and>
     nth_opt (pool_ent bvf') 0 = Some tst' \<and> nth_opt (pool_ent bvf') 1 = Some elsest' \<and>
     pc est' = 2 \<and> regs_in tst' (reg est')"
proof -
  let ?p = "prm (bpf_of raw_arg [jlt_4])"
  let ?est = "\<lparr>pc = 0, reg = replicate 11 3, emem = (\<lambda>_. None)\<rparr> :: exec_st"
  have "(case eval_jcc bvf_jlt jlt_4 of Some (Inr _) \<Rightarrow> True | _ \<Rightarrow> False)" by code_simp
  then obtain bvf' where e: "eval_jcc bvf_jlt jlt_4 = Some (Inr bvf')"
    by (auto split: option.splits sum.splits)
  have "(case bpf_step ?p ?est of Some (Next _) \<Rightarrow> True | _ \<Rightarrow> False)" by code_simp
  then obtain est' where s: "bpf_step ?p ?est = Some (Next est')"
    by (auto split: option.splits exec_res.splits)
  have i: "(EBPF_JLT, CLt, Uint64) \<in> set jcc_table" by (simp add: jcc_table_def)
  have c: "code jlt_4 = (BPF_JMP OR EBPF_JLT OR BPF_X) \<or> code jlt_4 = (BPF_JMP OR EBPF_JLT OR BPF_K)" by code_simp
  have K: "BPF_SRC (code jlt_4) \<noteq> BPF_X" and o: "sint (off jlt_4) = 1" by code_simp+
  have f: "fetch ?p (pc ?est) = Some jlt_4" by (simp add: fetch_def bpf_of_def)
  have b: "bvf_evst bvf_jlt = Some 0" "nth_opt (pool_ent bvf_jlt) 0 = Some st_1_5" "bvf_evin bvf_jlt = Some 0"
    "nth_opt (bvf_in bvf_jlt) 0 = Some (zero_node\<lparr>node_evst := Some 1\<rparr>)" "node_evst (zero_node\<lparr>node_evst := Some 1\<rparr>) = Some 1"
    "nth_opt (pool_ent bvf_jlt) 1 = Some st_1_5" "(0 :: nat) \<noteq> 1"
    by (simp_all add: bvf_jlt_def bvf_init_def nth_opt_def)
  have "in_range (range_val 1 5) 3" by code_simp
  then have r: "regs_in st_1_5 (reg ?est)" by (simp add: regs_in_def st_1_5_def nth_replicate del: replicate.simps)
  have t: "rv_type (rv st_1_5 ! unat (dst_reg jlt_4)) = RTE_BPF_ARG_RAW" by code_simp
  have m: "cmp_alu CLt Uint64 (reg ?est ! unat (dst_reg jlt_4)) (imm64 jlt_4)" by code_simp
  have x: "\<forall>s \<in> {st_1_5, st_1_5}. rv_type (rv s ! unat (dst_reg jlt_4)) = RTE_BPF_ARG_RAW \<and>
    (BPF_SRC (code jlt_4) = BPF_X \<longrightarrow> rv_type (rv s ! unat (src_reg jlt_4)) = RTE_BPF_ARG_RAW)" using t K by simp
  show ?thesis using jcc_sound [OF e i c b r r x f s] K m o e s by auto
qed

end
