(* ===== verification/Rcu_Qsbr.thy ===== *)
theory Rcu_Qsbr
  imports Prelude
begin

text \<open>
  \<open>rte_rcu_qsbr.h\<close> and \<open>rte_rcu_qsbr.c\<close>: the variable with which reader threads report their quiescent states, and the
  defer queue of resources that are freed when every reader has passed one. The trailing arrays of the variable are
  lists, as long as \<open>rte_rcu_qsbr_init\<close> makes them. \<open>rte_ring\<close>, another library, is a queue with a capacity. Logging
  and the lock counters of debug builds are left out.
\<close>

section \<open>The variable\<close>

abbreviation (input) QSBR_CNT_THR_OFFLINE :: u64 where "QSBR_CNT_THR_OFFLINE \<equiv> 0"
abbreviation (input) QSBR_CNT_INIT :: u64 where "QSBR_CNT_INIT \<equiv> 1"
abbreviation (input) QSBR_CNT_MAX :: u64 where "QSBR_CNT_MAX \<equiv> - 1"

record rte_rcu_qsbr =
  token :: u64
  acked_token :: u64
  num_threads :: u32
  max_threads :: u32
  qsbr_cnt :: "u64 list"
  thread_bmap :: "u64 list"

text \<open>
  The elements of the bitmap: \<open>RTE_ALIGN_MUL_CEIL\<close> computes in the type of its first argument, 32 bits, and wraps around for
  more than 0xFFFFFFC0 threads (\<open>num_elems_wraps\<close> in \<open>Rcu_Props\<close>).
\<close>

definition num_elems :: "u32 \<Rightarrow> u32" where "num_elems n = ((n + 64 - 1) div 64) * 64 div 64"

definition rte_rcu_qsbr_init :: "u32 \<Rightarrow> rte_rcu_qsbr option" where
  "rte_rcu_qsbr_init n =
     (if n = 0 then None
      else Some \<lparr>token = QSBR_CNT_INIT, acked_token = QSBR_CNT_INIT - 1, num_threads = 0, max_threads = n,
        qsbr_cnt = replicate (unat n) 0, thread_bmap = replicate (unat (num_elems n)) 0\<rparr>)"

text \<open>The index of a thread in the bitmap: the array element and the bit.\<close>

definition thr_elem :: "u32 \<Rightarrow> nat" where "thr_elem th = unat (drop_bit 6 th)"
definition thr_bit :: "u32 \<Rightarrow> nat" where "thr_bit th = unat (th AND 0x3f)"

text \<open>
  Registering and unregistering. The compare-and-exchange is taken to succeed at once: if another thread changes the
  element in between, the loop starts again with the new one. The integer is the return value.
\<close>

definition rte_rcu_qsbr_thread_register :: "rte_rcu_qsbr \<Rightarrow> u32 \<Rightarrow> (rte_rcu_qsbr \<times> int) option" where
  "rte_rcu_qsbr_thread_register v th =
     (if max_threads v \<le> th then Some (v, 1)
      else do {
        old \<leftarrow> nth_opt (thread_bmap v) (thr_elem th);
        (if bit old (thr_bit th) then Some (v, 0)
         else Some (v\<lparr>thread_bmap := (thread_bmap v)[thr_elem th := old OR push_bit (thr_bit th) 1],
                num_threads := num_threads v + 1\<rparr>, 0)) })"

definition rte_rcu_qsbr_thread_unregister :: "rte_rcu_qsbr \<Rightarrow> u32 \<Rightarrow> (rte_rcu_qsbr \<times> int) option" where
  "rte_rcu_qsbr_thread_unregister v th =
     (if max_threads v \<le> th then Some (v, 1)
      else do {
        old \<leftarrow> nth_opt (thread_bmap v) (thr_elem th);
        (if \<not> bit old (thr_bit th) then Some (v, 0)
         else Some (v\<lparr>thread_bmap := (thread_bmap v)[thr_elem th := old AND NOT (push_bit (thr_bit th) 1)],
                num_threads := num_threads v - 1\<rparr>, 0)) })"

definition rte_rcu_qsbr_thread_online :: "rte_rcu_qsbr \<Rightarrow> u32 \<Rightarrow> rte_rcu_qsbr option" where
  "rte_rcu_qsbr_thread_online v th = do {
     c \<leftarrow> upd_opt (qsbr_cnt v) (unat th) (token v);
     Some (v\<lparr>qsbr_cnt := c\<rparr>) }"

definition rte_rcu_qsbr_thread_offline :: "rte_rcu_qsbr \<Rightarrow> u32 \<Rightarrow> rte_rcu_qsbr option" where
  "rte_rcu_qsbr_thread_offline v th = do {
     c \<leftarrow> upd_opt (qsbr_cnt v) (unat th) QSBR_CNT_THR_OFFLINE;
     Some (v\<lparr>qsbr_cnt := c\<rparr>) }"

definition rte_rcu_qsbr_quiescent :: "rte_rcu_qsbr \<Rightarrow> u32 \<Rightarrow> rte_rcu_qsbr option" where
  "rte_rcu_qsbr_quiescent v th = do {
     c \<leftarrow> nth_opt (qsbr_cnt v) (unat th);
     (if token v \<noteq> c then do { cs \<leftarrow> upd_opt (qsbr_cnt v) (unat th) (token v); Some (v\<lparr>qsbr_cnt := cs\<rparr>) }
      else Some v) }"

definition rte_rcu_qsbr_start :: "rte_rcu_qsbr \<Rightarrow> rte_rcu_qsbr \<times> u64" where
  "rte_rcu_qsbr_start v = (let t = token v + 1 in (v\<lparr>token := t\<rparr>, t))"

section \<open>The check\<close>

text \<open>
  One turn of the loops of the check without waiting: the counter of a thread that is not in its quiescent state
  (\<open>None\<close>) ends it, otherwise the least acknowledged token goes on.
\<close>

definition qsbr_turn :: "u64 \<Rightarrow> u64 \<Rightarrow> u64 \<Rightarrow> u64 option" where
  "qsbr_turn t c acked =
     (if c \<noteq> QSBR_CNT_THR_OFFLINE \<and> c < t then None
      else if c \<noteq> QSBR_CNT_THR_OFFLINE \<and> c < acked then Some c else Some acked)"

fun check_ids :: "u64 list \<Rightarrow> u64 \<Rightarrow> nat list \<Rightarrow> u64 \<Rightarrow> u64 option option" where
  "check_ids cnts t [] acked = Some (Some acked)"
| "check_ids cnts t (i # is) acked = do {
     c \<leftarrow> nth_opt cnts i;
     (case qsbr_turn t c acked of
        None \<Rightarrow> Some None
      | Some acked \<Rightarrow> check_ids cnts t is acked) }"

text \<open>The threads in the bitmap, in the order in which \<open>__builtin_ctzl\<close> finds them.\<close>

definition bmap_ids :: "u64 list \<Rightarrow> nat list" where
  "bmap_ids bm = concat (map (\<lambda>i. map (\<lambda>j. 64 * i + j) (filter (bit (bm ! i)) [0..<64])) [0..<length bm])"

definition check_end :: "rte_rcu_qsbr \<Rightarrow> u64 option \<Rightarrow> rte_rcu_qsbr \<times> int" where
  "check_end v r =
     (case r of
        None \<Rightarrow> (v, 0)
      | Some acked \<Rightarrow> (if acked \<noteq> QSBR_CNT_MAX then v\<lparr>acked_token := acked\<rparr> else v, 1))"

definition rte_rcu_qsbr_check_selective :: "rte_rcu_qsbr \<Rightarrow> u64 \<Rightarrow> (rte_rcu_qsbr \<times> int) option" where
  "rte_rcu_qsbr_check_selective v t =
     map_option (check_end v) (check_ids (qsbr_cnt v) t (bmap_ids (thread_bmap v)) QSBR_CNT_MAX)"

definition rte_rcu_qsbr_check_all :: "rte_rcu_qsbr \<Rightarrow> u64 \<Rightarrow> (rte_rcu_qsbr \<times> int) option" where
  "rte_rcu_qsbr_check_all v t =
     map_option (check_end v) (check_ids (qsbr_cnt v) t [0..<unat (max_threads v)] QSBR_CNT_MAX)"

definition rte_rcu_qsbr_check :: "rte_rcu_qsbr \<Rightarrow> u64 \<Rightarrow> (rte_rcu_qsbr \<times> int) option" where
  "rte_rcu_qsbr_check v t =
     (if t \<le> acked_token v then Some (v, 1)
      else if num_threads v = max_threads v then rte_rcu_qsbr_check_all v t
      else rte_rcu_qsbr_check_selective v t)"

text \<open>
  Waiting ends only by what other threads do, so it takes the variable as they leave it: \<open>wait v t\<close>, in which the check
  succeeds. A thread that has read-side sections of its own reports first.
\<close>

abbreviation (input) RTE_QSBR_THRID_INVALID :: u32 where "RTE_QSBR_THRID_INVALID \<equiv> 0xffffffff"

definition rte_rcu_qsbr_synchronize ::
  "(rte_rcu_qsbr \<Rightarrow> u64 \<Rightarrow> rte_rcu_qsbr) \<Rightarrow> rte_rcu_qsbr \<Rightarrow> u32 \<Rightarrow> rte_rcu_qsbr option" where
  "rte_rcu_qsbr_synchronize wait v th = do {
     let (v, t) = rte_rcu_qsbr_start v;
     v \<leftarrow> (if th \<noteq> RTE_QSBR_THRID_INVALID then rte_rcu_qsbr_quiescent v th else Some v);
     Some (wait v t) }"

section \<open>The defer queue\<close>

record rte_rcu_qsbr_dq =
  dq_ring :: "(u64 \<times> u32) list"
  dq_capacity :: nat
  dq_size :: u32
  trigger_reclaim_limit :: u32
  max_reclaim_size :: u32

definition rte_combine32ms1b :: "u32 \<Rightarrow> u32" where
  "rte_combine32ms1b x =
     (let x = x OR drop_bit 1 x; x = x OR drop_bit 2 x; x = x OR drop_bit 4 x; x = x OR drop_bit 8 x
      in x OR drop_bit 16 x)"

definition rte_align32pow2 :: "u32 \<Rightarrow> u32" where
  "rte_align32pow2 x = rte_combine32ms1b (x - 1) + 1"

text \<open>
  The queue holds 32-bit resources. \<open>ring\<close> is \<open>rte_ring_create_elem\<close>: the capacity of a new ring, if there is memory for
  one, and \<open>mem\<close> the result of the allocation of the queue itself. The other parameters are not null in the calls.
\<close>

definition rte_rcu_qsbr_dq_create :: "bool \<Rightarrow> (u32 \<Rightarrow> nat option) \<Rightarrow> u32 \<Rightarrow> u32 \<Rightarrow> u32 \<Rightarrow> rte_rcu_qsbr_dq option" where
  "rte_rcu_qsbr_dq_create mem ring sz trigger max_reclaim =
     (if sz = 0 \<or> trigger \<le> sz \<and> max_reclaim = 0 \<or> \<not> mem then None
      else map_option (\<lambda>cap. \<lparr>dq_ring = [], dq_capacity = cap, dq_size = sz, trigger_reclaim_limit = trigger,
             max_reclaim_size = max_reclaim\<rparr>) (ring (rte_align32pow2 (sz + 1))))"

text \<open>\<open>free\<close> is \<open>free_fn\<close> on the resource and the structure it belongs to. The last component counts the resources freed.\<close>

fun reclaim_loop :: "(u32 \<Rightarrow> 'p \<Rightarrow> 'p option) \<Rightarrow> rte_rcu_qsbr \<Rightarrow> nat \<Rightarrow> (u64 \<times> u32) list \<Rightarrow> 'p \<Rightarrow>
    (rte_rcu_qsbr \<times> (u64 \<times> u32) list \<times> 'p \<times> nat) option" where
  "reclaim_loop free v 0 q p = Some (v, q, p, 0)"
| "reclaim_loop free v (Suc n) [] p = Some (v, [], p, 0)"
| "reclaim_loop free v (Suc n) ((t, e) # q) p = do {
     (v, ok) \<leftarrow> rte_rcu_qsbr_check v t;
     (if ok \<noteq> 1 then Some (v, (t, e) # q, p, 0)
      else do {
        p \<leftarrow> free e p;
        (v, q, p, k) \<leftarrow> reclaim_loop free v n q p;
        Some (v, q, p, k + 1) }) }"

definition rte_rcu_qsbr_dq_reclaim :: "(u32 \<Rightarrow> 'p \<Rightarrow> 'p option) \<Rightarrow> rte_rcu_qsbr \<Rightarrow> rte_rcu_qsbr_dq \<Rightarrow> u32 \<Rightarrow> 'p \<Rightarrow>
    (rte_rcu_qsbr \<times> rte_rcu_qsbr_dq \<times> 'p \<times> int) option" where
  "rte_rcu_qsbr_dq_reclaim free v dq n p =
     (if n = 0 then Some (v, dq, p, 1)
      else do {
        (v, q, p, k) \<leftarrow> reclaim_loop free v (unat n) (dq_ring dq) p;
        Some (v, dq\<lparr>dq_ring := q\<rparr>, p, 0) })"

definition rte_rcu_qsbr_dq_enqueue :: "(u32 \<Rightarrow> 'p \<Rightarrow> 'p option) \<Rightarrow> rte_rcu_qsbr \<Rightarrow> rte_rcu_qsbr_dq \<Rightarrow> u32 \<Rightarrow> 'p \<Rightarrow>
    (rte_rcu_qsbr \<times> rte_rcu_qsbr_dq \<times> 'p \<times> int) option" where
  "rte_rcu_qsbr_dq_enqueue free v dq e p = do {
     let (v, t) = rte_rcu_qsbr_start v;
     (v, dq, p) \<leftarrow>
       (if of_nat (length (dq_ring dq)) > trigger_reclaim_limit dq
        then map_option (\<lambda>(v, dq, p, _). (v, dq, p)) (rte_rcu_qsbr_dq_reclaim free v dq (max_reclaim_size dq) p)
        else Some (v, dq, p));
     (if length (dq_ring dq) < dq_capacity dq
      then Some (v, dq\<lparr>dq_ring := dq_ring dq @ [(t, e)]\<rparr>, p, 0)
      else Some (v, dq, p, 1)) }"

definition rte_rcu_qsbr_dq_delete :: "(u32 \<Rightarrow> 'p \<Rightarrow> 'p option) \<Rightarrow> rte_rcu_qsbr \<Rightarrow> rte_rcu_qsbr_dq option \<Rightarrow> 'p \<Rightarrow>
    (rte_rcu_qsbr \<times> rte_rcu_qsbr_dq option \<times> 'p \<times> int) option" where
  "rte_rcu_qsbr_dq_delete free v dq p =
     (case dq of
        None \<Rightarrow> Some (v, None, p, 0)
      | Some dq \<Rightarrow> do {
          (v, dq, p, _) \<leftarrow> rte_rcu_qsbr_dq_reclaim free v dq (NOT 0) p;
          (if dq_ring dq \<noteq> [] then Some (v, Some dq, p, 1) else Some (v, None, p, 0)) })"

end
