(* ===== verification/Cstring.thy ===== *)
theory Cstring
  imports Prelude
begin

text \<open>
  The functions of the C library on strings that the command line library calls. A string is the memory
  from its first character on; \<open>None\<close> is an access past the end of it. A pointer into a string is the
  rest of the list, and two of them are the same exactly when the rests are. \<open>strtoul\<close> and \<open>strtol\<close> are
  for base 10 and a 64-bit \<open>long\<close>: they return the value, whether \<open>errno\<close> is set to \<open>ERANGE\<close>, and the
  end pointer.
\<close>

text \<open>A string literal.\<close>

definition literal :: "string \<Rightarrow> u8 list" where "literal s = map of_char s @ [0]"

section \<open>Copies\<close>

definition blit :: "'a list \<Rightarrow> nat \<Rightarrow> 'a list \<Rightarrow> 'a list option" where
  "blit dst k xs =
     (if k + length xs \<le> length dst then Some (take k dst @ xs @ drop (k + length xs) dst) else None)"

lemma blit_ok: "k + length xs \<le> length d \<Longrightarrow> \<exists>b. blit d k xs = Some b \<and> length b = length d \<and>
    (\<forall>j < length d. b ! j = (if k \<le> j \<and> j < k + length xs then xs ! (j - k) else d ! j))"
  by (auto simp: blit_def nth_append min_def)

section \<open>Lengths and comparison\<close>

fun strnlen :: "u8 list \<Rightarrow> nat \<Rightarrow> nat option" where
  "strnlen xs 0 = Some 0"
| "strnlen [] (Suc n) = None"
| "strnlen (x # xs) (Suc n) = (if x = 0 then Some 0 else map_option Suc (strnlen xs n))"

fun strlen :: "u8 list \<Rightarrow> nat option" where
  "strlen [] = None"
| "strlen (x # xs) = (if x = 0 then Some 0 else map_option Suc (strlen xs))"

text \<open>\<open>strlcpy\<close> is \<open>snprintf\<close> with \<open>%s\<close>: it reads the whole source.\<close>

definition strlcpy :: "u8 list \<Rightarrow> u8 list \<Rightarrow> nat \<Rightarrow> (u8 list \<times> nat) option" where
  "strlcpy dst src n = do {
     len \<leftarrow> strlen src;
     (if n = 0 then Some (dst, len)
      else do { dst \<leftarrow> blit dst 0 (take (min len (n - 1)) src @ [0]); Some (dst, len) }) }"

text \<open>The comparisons, for equality: \<open>strncmp (a, b, n) == 0\<close> and \<open>strcmp (a, b) == 0\<close>.\<close>

fun strncmp_eq :: "u8 list \<Rightarrow> u8 list \<Rightarrow> nat \<Rightarrow> bool option" where
  "strncmp_eq a b 0 = Some True"
| "strncmp_eq (x # a) (y # b) (Suc n) =
     (if x \<noteq> y then Some False else if x = 0 then Some True else strncmp_eq a b n)"
| "strncmp_eq a b (Suc n) = None"

fun strcmp_eq :: "u8 list \<Rightarrow> u8 list \<Rightarrow> bool option" where
  "strcmp_eq (x # a) (y # b) = (if x \<noteq> y then Some False else if x = 0 then Some True else strcmp_eq a b)"
| "strcmp_eq a b = None"

section \<open>Search\<close>

fun strchr :: "u8 list \<Rightarrow> u8 \<Rightarrow> u8 list option option" where
  "strchr [] c = None"
| "strchr (x # xs) c = (if x = c then Some (Some (x # xs)) else if x = 0 then Some None else strchr xs c)"

fun strrchr :: "u8 list \<Rightarrow> u8 \<Rightarrow> u8 list option option" where
  "strrchr [] c = None"
| "strrchr (x # xs) c =
     (if x = 0 then Some None
      else map_option (\<lambda>r. if r = None \<and> x = c then Some (x # xs) else r) (strrchr xs c))"

text \<open>\<open>while (!p(s[i])) i++\<close>, and the same with the bound \<open>i < m\<close>, which is tested second.\<close>

fun scan :: "(u8 \<Rightarrow> bool) \<Rightarrow> u8 list \<Rightarrow> nat option" where
  "scan p [] = None"
| "scan p (c # cs) = (if p c then Some 0 else map_option Suc (scan p cs))"

fun scan_max :: "(u8 \<Rightarrow> bool) \<Rightarrow> u8 list \<Rightarrow> nat \<Rightarrow> nat option" where
  "scan_max p [] m = None"
| "scan_max p (c # cs) 0 = Some 0"
| "scan_max p (c # cs) (Suc m) = (if p c then Some 0 else map_option Suc (scan_max p cs m))"

section \<open>Numbers\<close>

definition isspace :: "u8 \<Rightarrow> bool" where "isspace c = (c = 0x20 \<or> 0x09 \<le> c \<and> c \<le> 0x0D)"
definition isdigit :: "u8 \<Rightarrow> bool" where "isdigit c = (0x30 \<le> c \<and> c \<le> 0x39)"

fun skip_spaces :: "u8 list \<Rightarrow> u8 list option" where
  "skip_spaces [] = None"
| "skip_spaces (c # cs) = (if isspace c then skip_spaces cs else Some (c # cs))"

fun dec_run :: "u8 list \<Rightarrow> nat \<Rightarrow> (nat \<times> u8 list) option" where
  "dec_run [] v = None"
| "dec_run (c # cs) v = (if isdigit c then dec_run cs (v * 10 + (unat c - 0x30)) else Some (v, c # cs))"

text \<open>A sign and digits: whether there is a minus sign, the magnitude, and the end; \<open>None\<close> inside for no digits.\<close>

definition scan_number :: "u8 list \<Rightarrow> (bool \<times> nat \<times> u8 list) option option" where
  "scan_number s = do {
     s1 \<leftarrow> skip_spaces s;
     c \<leftarrow> nth_opt s1 0;
     s2 \<leftarrow> Some (if c = 0x2D \<or> c = 0x2B then tl s1 else s1);
     (v, e) \<leftarrow> dec_run s2 0;
     Some (if e = s2 then None else Some (c = 0x2D, v, e)) }"

definition strtoul :: "u8 list \<Rightarrow> (u64 \<times> bool \<times> u8 list) option" where
  "strtoul s = map_option (\<lambda>r. case r of
       None \<Rightarrow> (0, False, s)
     | Some (neg, v, e) \<Rightarrow> if v < 2 ^ 64 then (if neg then - of_nat v else of_nat v, False, e) else (- 1, True, e))
     (scan_number s)"

definition strtol :: "u8 list \<Rightarrow> (int \<times> bool \<times> u8 list) option" where
  "strtol s = map_option (\<lambda>r. case r of
       None \<Rightarrow> (0, False, s)
     | Some (neg, v, e) \<Rightarrow>
         if neg then (if v \<le> 2 ^ 63 then (- int v, False, e) else (- (2 ^ 63), True, e))
         else (if v < 2 ^ 63 then (int v, False, e) else (2 ^ 63 - 1, True, e)))
     (scan_number s)"

section \<open>Facts\<close>

lemma strnlen_ok:
  "strnlen xs m = Some n \<Longrightarrow> n \<le> m \<and> n \<le> length xs \<and> 0 \<notin> set (take n xs) \<and> (n < m \<longrightarrow> n < length xs \<and> xs ! n = 0)"
proof (induction xs m arbitrary: n rule: strnlen.induct)
  case (3 x xs m)
  then show ?case by (cases "x = 0") auto
qed auto

lemma strnlen_text: "0 \<notin> set t \<Longrightarrow> strnlen (t @ 0 # ys) m = Some (min (length t) m)"
proof (induction t arbitrary: m)
  case Nil
  then show ?case by (cases m) auto
next
  case (Cons x t)
  then show ?case by (cases m) auto
qed

lemma strnlen_full: "m \<le> length xs \<Longrightarrow> strnlen xs m \<noteq> None"
  by (induction xs m rule: strnlen.induct) auto

lemma strlen_text: "0 \<notin> set t \<Longrightarrow> strlen (t @ 0 # r) = Some (length t)"
  by (induction t) auto

lemma strlcpy_text:
  assumes "0 \<notin> set t" "n \<le> length dst"
  shows "strlcpy dst (t @ 0 # r) n =
    Some (if n = 0 then dst else take (n - 1) t @ 0 # drop (Suc (min (length t) (n - 1))) dst, length t)"
  using assms by (auto simp: strlcpy_def strlen_text blit_def min_def)

lemma strcmp_eq_text: "0 \<notin> set a \<Longrightarrow> 0 \<notin> set b \<Longrightarrow> strcmp_eq (a @ 0 # x) (b @ 0 # y) = Some (a = b)"
proof (induction a arbitrary: b)
  case Nil
  then show ?case by (cases b) auto
next
  case (Cons c a)
  then show ?case by (cases b) auto
qed

lemma strncmp_eq_text:
  "0 \<notin> set a \<Longrightarrow> 0 \<notin> set b \<Longrightarrow> strncmp_eq (a @ 0 # x) (b @ y) (length b) = Some (take (length b) a = b)"
proof (induction b arbitrary: a)
  case (Cons c b)
  then show ?case by (cases a) auto
qed simp

lemma strchr_text:
  assumes "0 \<notin> set t" "c \<noteq> 0"
  shows "strchr (t @ 0 # r) c = Some (if c \<in> set t then Some (dropWhile (\<lambda>x. x \<noteq> c) t @ 0 # r) else None)"
  using assms by (induction t) auto

lemma strrchr_text:
  assumes "0 \<notin> set t" "c \<noteq> 0"
  shows "strrchr (t @ 0 # r) c =
    Some (if c \<in> set t then Some (c # rev (takeWhile (\<lambda>x. x \<noteq> c) (rev t)) @ 0 # r) else None)"
  using assms
proof (induction t)
  case (Cons x t)
  have "takeWhile (\<lambda>x. x \<noteq> c) (rev t @ [x]) = rev t @ (if x = c then [] else [x])" if "c \<notin> set t"
    using that by (subst takeWhile_append2) auto
  moreover have "takeWhile (\<lambda>x. x \<noteq> c) (rev t @ [x]) = takeWhile (\<lambda>x. x \<noteq> c) (rev t)" if "c \<in> set t"
    using that by (intro takeWhile_append1 [of c]) auto
  ultimately show ?case using Cons by auto
qed simp

lemma scan_found: "list_all (\<lambda>c. \<not> p c) t \<Longrightarrow> p e \<Longrightarrow> scan p (t @ e # r) = Some (length t)"
  by (induction t) auto

lemma scan_max_found:
  "list_all (\<lambda>c. \<not> p c) t \<Longrightarrow> p e \<Longrightarrow> scan_max p (t @ e # r) m = Some (min (length t) m)"
proof (induction t arbitrary: m)
  case Nil
  then show ?case by (cases m) auto
next
  case (Cons c t)
  then show ?case by (cases m) auto
qed

lemma scan_total: "p 0 \<Longrightarrow> 0 \<in> set s \<Longrightarrow> scan p s \<noteq> None"
  by (induction s) auto

text \<open>What the number functions read: white space, a sign and digits.\<close>

definition dec_value :: "u8 list \<Rightarrow> nat \<Rightarrow> nat" where
  "dec_value ds v = foldl (\<lambda>v c. v * 10 + (unat c - 0x30)) v ds"

definition dec_number :: "u8 list \<Rightarrow> (bool \<times> nat) option" where
  "dec_number s = (let s1 = dropWhile isspace s;
       signed = (s1 \<noteq> [] \<and> (hd s1 = 0x2D \<or> hd s1 = 0x2B)); ds = (if signed then tl s1 else s1)
     in if ds \<noteq> [] \<and> list_all isdigit ds then Some (signed \<and> hd s1 = 0x2D, dec_value ds 0) else None)"

lemma dec_run_digits: "list_all isdigit ds \<Longrightarrow> \<not> isdigit x \<Longrightarrow> dec_run (ds @ x # r) v = Some (dec_value ds v, x # r)"
  by (induction ds arbitrary: v) (auto simp: dec_value_def)

lemma dec_run_split:
  "dec_run s v = Some (n, e) \<Longrightarrow> \<exists>ds. s = ds @ e \<and> list_all isdigit ds \<and> n = dec_value ds v \<and> e \<noteq> [] \<and> \<not> isdigit (hd e)"
proof (induction s v rule: dec_run.induct)
  case (2 c cs v)
  show ?case
  proof (cases "isdigit c")
    case True
    then obtain ds where "cs = ds @ e" "list_all isdigit ds" "n = dec_value ds (v * 10 + (unat c - 0x30))" "e \<noteq> []"
      "\<not> isdigit (hd e)" using 2 by auto
    then show ?thesis using True by (intro exI [of _ "c # ds"]) (simp add: dec_value_def)
  next
    case False
    then show ?thesis using 2 by (auto simp: dec_value_def)
  qed
qed simp

lemma skip_spaces_eq: "skip_spaces s = (if dropWhile isspace s = [] then None else Some (dropWhile isspace s))"
  by (induction s) auto

lemma dropWhile_stops: "dropWhile p a \<noteq> [] \<Longrightarrow> dropWhile p (a @ b) = dropWhile p a @ b"
  by (induction a) auto

lemma scan_number_text:
  assumes "dec_number a = Some (neg, v)" "\<not> isdigit x"
  shows "scan_number (a @ x # r) = Some (Some (neg, v, x # r))"
proof -
  define s1 where "s1 = dropWhile isspace a"
  define ds where "ds = (if s1 \<noteq> [] \<and> (hd s1 = 0x2D \<or> hd s1 = 0x2B) then tl s1 else s1)"
  have d: "ds \<noteq> []" "list_all isdigit ds" "v = dec_value ds 0" "neg \<longleftrightarrow> s1 \<noteq> [] \<and> hd s1 = 0x2D"
    using assms(1) by (auto simp: dec_number_def Let_def s1_def ds_def split: if_splits)
  have s1: "s1 \<noteq> []" using d(1) by (auto simp: ds_def)
  then have "dropWhile isspace (a @ x # r) = s1 @ x # r" unfolding s1_def by (rule dropWhile_stops)
  then have k: "skip_spaces (a @ x # r) = Some (s1 @ x # r)" using s1 by (simp add: skip_spaces_eq)
  have h: "nth_opt (s1 @ x # r) 0 = Some (hd s1)" using s1 by (cases s1) (simp_all add: nth_opt_def)
  have t: "(if hd s1 = 0x2D \<or> hd s1 = 0x2B then tl (s1 @ x # r) else s1 @ x # r) = ds @ x # r"
    using s1 by (auto simp: ds_def)
  have n: "x # r \<noteq> ds @ x # r" using d(1) by simp
  show ?thesis
    unfolding scan_number_def k bind.simps h t dec_run_digits [OF d(2) assms(2)] using n d(3,4) s1 by simp
qed

lemma scan_number_split:
  assumes "scan_number s = Some (Some (neg, v, e))"
  shows "\<exists>a. s = a @ e \<and> dec_number a = Some (neg, v) \<and> e \<noteq> [] \<and> \<not> isdigit (hd e)"
proof -
  obtain s1 where s1: "skip_spaces s = Some s1" using assms by (auto simp: scan_number_def split: bind_splits)
  then have d1: "dropWhile isspace s = s1" "s1 \<noteq> []" by (auto simp: skip_spaces_eq split: if_splits)
  define c where "c = hd s1"
  define s2 where "s2 = (if c = 0x2D \<or> c = 0x2B then tl s1 else s1)"
  have h: "nth_opt s1 0 = Some c" using d1(2) by (simp add: c_def nth_opt_def hd_conv_nth)
  obtain w f where r: "dec_run s2 0 = Some (w, f)"
    using assms unfolding scan_number_def s1 bind.simps h s2_def [symmetric] by (auto split: bind_splits)
  have e: "f \<noteq> s2" "neg \<longleftrightarrow> c = 0x2D" "v = w" "e = f"
    using assms unfolding scan_number_def s1 bind.simps h s2_def [symmetric] r by (auto split: if_splits)
  obtain ds where ds: "s2 = ds @ e" "list_all isdigit ds" "v = dec_value ds 0" "e \<noteq> []" "\<not> isdigit (hd e)"
    using dec_run_split [OF r] e by blast
  have dne: "ds \<noteq> []" using e(1,4) ds(1) by auto
  define a1 where "a1 = (if c = 0x2D \<or> c = 0x2B then c # ds else ds)"
  have a1: "s1 = a1 @ e" using ds(1) d1(2) by (cases s1) (auto simp: a1_def s2_def c_def split: if_splits)
  define a where "a = takeWhile isspace s @ a1"
  have hd1: "a1 \<noteq> []" "hd a1 = c" using dne a1 by (auto simp: a1_def c_def)
  have nsp: "\<not> isspace (hd a1)" using d1 hd1(2) hd_dropWhile [of isspace s] unfolding c_def by auto
  have "dropWhile isspace (takeWhile isspace s @ a1) = dropWhile isspace a1"
    by (rule dropWhile_append2) (auto dest: set_takeWhileD)
  then have da: "dropWhile isspace a = a1" using nsp hd1(1) unfolding a_def by (cases a1) auto
  have nd: "\<not> isdigit 0x2D" "\<not> isdigit 0x2B" by (simp_all add: isdigit_def)
  have "dec_number a = Some (neg, v)"
    using da dne ds(2,3) e(2) hd1 nd by (cases ds) (auto simp: dec_number_def Let_def a1_def)
  moreover have "s = a @ e" using a1 d1(1) takeWhile_dropWhile_id [of isspace s] by (simp add: a_def)
  ultimately show ?thesis using ds(4,5) by blast
qed

lemma dec_run_total: "0 \<in> set s \<Longrightarrow> dec_run s v \<noteq> None"
  by (induction s v rule: dec_run.induct) (auto simp: isdigit_def)

lemma zero_after_spaces: "0 \<in> set s \<Longrightarrow> 0 \<in> set (dropWhile isspace s)"
  by (induction s) (auto simp: isspace_def)

lemma scan_number_total:
  assumes "0 \<in> set s"
  shows "scan_number s \<noteq> None"
proof -
  obtain c cs where s: "dropWhile isspace s = c # cs" "0 \<in> set (c # cs)"
    using zero_after_spaces [OF assms] by (cases "dropWhile isspace s") auto
  have "0 \<in> set (if c = 0x2D \<or> c = 0x2B then cs else c # cs)" using s(2) by auto
  from dec_run_total [OF this, of 0] show ?thesis
    using s(1) by (auto simp: scan_number_def skip_spaces_eq nth_opt_def split: bind_splits if_splits)
qed

lemma dec_number_chars:
  assumes "dec_number a = Some r" "c \<in> set a"
  shows "isspace c \<or> c = 0x2D \<or> c = 0x2B \<or> isdigit c"
proof -
  have "c \<in> set (takeWhile isspace a) \<union> set (dropWhile isspace a)"
    using assms(2) by (metis set_append takeWhile_dropWhile_id)
  then consider "isspace c" | "c \<in> set (dropWhile isspace a)" by (auto dest: set_takeWhileD)
  then show ?thesis
  proof cases
    case 2
    then show ?thesis using assms(1)
      by (cases "dropWhile isspace a") (auto simp: dec_number_def Let_def list_all_iff split: if_splits)
  qed simp
qed

lemma dec_number_Nil [simp]: "dec_number [] = None"
  by (simp add: dec_number_def)

section \<open>Separators\<close>

fun split_on :: "'a \<Rightarrow> 'a list \<Rightarrow> 'a list list" where
  "split_on c [] = [[]]"
| "split_on c (x # xs) = (if x = c then [] # split_on c xs
     else (case split_on c xs of [] \<Rightarrow> [[x]] | y # ys \<Rightarrow> (x # y) # ys))"

lemma split_on_ne: "split_on c xs \<noteq> []"
  by (cases xs) (auto split: list.splits)

lemma split_on_none: "c \<notin> set xs \<Longrightarrow> split_on c xs = [xs]"
  by (induction xs) auto

lemma split_on_first: "c \<notin> set xs \<Longrightarrow> split_on c (xs @ c # ys) = xs # split_on c ys"
  by (induction xs) auto

text \<open>A list is one part, or a part, a separator and the rest.\<close>

lemma split_on_cases:
  obtains (one) "c \<notin> set t" | (more) a r where "t = a @ c # r" "c \<notin> set a"
  by (meson split_list_first)

section \<open>Tokens\<close>

text \<open>A string is the characters up to the first one with \<open>p\<close>, which is at most its end, and the rest.\<close>

lemma token_split:
  assumes "p 0" "0 \<in> set b"
  obtains t e rest where "b = t @ e # rest" "list_all (\<lambda>c. \<not> p c) t" "p e" "0 \<in> set (e # rest)" "0 \<notin> set t"
proof -
  obtain t e rest where t: "b = t @ e # rest" "p e" "\<forall>c \<in> set t. \<not> p c"
    using split_list_first_prop [of b p] assms by blast
  then have "0 \<notin> set t" using assms(1) by auto
  then show thesis using that [of t e rest] t assms(2) by (auto simp: list_all_iff)
qed

lemma token_copy:
  assumes "0 \<notin> set t" "0 \<in> set (e # rest)" "length t < n"
  shows "\<exists>pad k. strlcpy (replicate n 0) (t @ e # rest) (length t + 1) = Some (t @ 0 # pad, k)"
proof -
  obtain q r where q: "e # rest = q @ 0 # r" "0 \<notin> set q" using split_list_first [OF assms(2)] by blast
  have "strlcpy (replicate n 0) ((t @ q) @ 0 # r) (length t + 1) =
      Some (t @ 0 # drop (Suc (length t)) (replicate n 0), length (t @ q))"
    by (subst strlcpy_text) (use assms q in simp_all)
  then show ?thesis using q(1) by auto
qed

lemma token_hd: "nth_opt (t @ e # rest) 0 = Some (hd (t @ [e]))"
  by (cases t) (simp_all add: nth_opt_def)

end
