(* ===== verification/Lpm.thy ===== *)
theory Lpm
  imports Rcu_Qsbr Cstring
begin

text \<open>
  \<open>rte_lpm.c\<close> and \<open>rte_lpm.h\<close>, longest prefix match for IPv4: a table \<open>tbl24\<close> indexed by the upper 24 bits of an
  address, whose entries hold a next hop or the number of a group of 256 entries in \<open>tbl8\<close> for the lower 8 bits, and a
  table of the rules, grouped by depth. The two tables are functions from indices, with the bounds tested at every
  access; the rules are a list. Concurrent readers see the stores one by one; here an operation is one step
  (\<open>Lpm_Readers\<close> has operations between the loads of a lookup).
\<close>

section \<open>Data\<close>

abbreviation (input) LPM_EINVAL :: int where "LPM_EINVAL \<equiv> - 22"
abbreviation (input) LPM_ENOSPC :: int where "LPM_ENOSPC \<equiv> - 28"
abbreviation (input) LPM_EEXIST :: int where "LPM_EEXIST \<equiv> - 17"
abbreviation (input) LPM_ENOENT :: int where "LPM_ENOENT \<equiv> - 2"
abbreviation (input) RTE_LPM_MAX_DEPTH :: nat where "RTE_LPM_MAX_DEPTH \<equiv> 32"
abbreviation (input) MAX_DEPTH_TBL24 :: nat where "MAX_DEPTH_TBL24 \<equiv> 24"
abbreviation (input) TBL24_ENTRIES :: nat where "TBL24_ENTRIES \<equiv> 16777216"
abbreviation (input) TBL8_GROUP_ENTRIES :: nat where "TBL8_GROUP_ENTRIES \<equiv> 256"

record rte_lpm_tbl_entry =
  next_hop :: "24 word"
  valid :: bool
  valid_group :: bool
  depth :: "6 word"

definition zero_entry :: rte_lpm_tbl_entry where
  "zero_entry = \<lparr>next_hop = 0, valid = False, valid_group = False, depth = 0\<rparr>"

text \<open>An entry read as a \<open>uint32_t\<close>: the bit-fields from the lowest bit on.\<close>

definition entry_word :: "rte_lpm_tbl_entry \<Rightarrow> u32" where
  "entry_word e = ucast (next_hop e) OR push_bit 24 (of_bool (valid e)) OR push_bit 25 (of_bool (valid_group e)) OR
     push_bit 26 (ucast (depth e))"

record rte_lpm_rule =
  rule_ip :: u32
  rule_next_hop :: u32

record rte_lpm_rule_info =
  used_rules :: u32
  first_rule :: u32

datatype rte_lpm_qsbr_mode = RTE_LPM_QSBR_MODE_DQ | RTE_LPM_QSBR_MODE_SYNC

text \<open>\<open>tbl8_size\<close> is the number of entries that were allocated.\<close>

record rte_lpm =
  tbl24 :: "nat \<Rightarrow> rte_lpm_tbl_entry"
  tbl8 :: "nat \<Rightarrow> rte_lpm_tbl_entry"
  tbl8_size :: nat
  lpm_name :: "u8 list"
  max_rules :: u32
  number_tbl8s :: u32
  rule_info :: "rte_lpm_rule_info list"
  rules_tbl :: "rte_lpm_rule list"
  lpm_v :: "rte_rcu_qsbr option"
  rcu_mode :: rte_lpm_qsbr_mode
  lpm_dq :: "rte_rcu_qsbr_dq option"

definition get24 :: "rte_lpm \<Rightarrow> nat \<Rightarrow> rte_lpm_tbl_entry option" where
  "get24 l i = (if i < TBL24_ENTRIES then Some (tbl24 l i) else None)"

definition set24 :: "rte_lpm \<Rightarrow> nat \<Rightarrow> rte_lpm_tbl_entry \<Rightarrow> rte_lpm option" where
  "set24 l i e = (if i < TBL24_ENTRIES then Some (l\<lparr>tbl24 := (tbl24 l)(i := e)\<rparr>) else None)"

definition get8 :: "rte_lpm \<Rightarrow> nat \<Rightarrow> rte_lpm_tbl_entry option" where
  "get8 l i = (if i < tbl8_size l then Some (tbl8 l i) else None)"

definition set8 :: "rte_lpm \<Rightarrow> nat \<Rightarrow> rte_lpm_tbl_entry \<Rightarrow> rte_lpm option" where
  "set8 l i e = (if i < tbl8_size l then Some (l\<lparr>tbl8 := (tbl8 l)(i := e)\<rparr>) else None)"

text \<open>A group number times 256. The factors are an \<open>int\<close>, also where the first one is a bit-field.\<close>

definition group_start :: "nat \<Rightarrow> nat option" where
  "group_start g = (if g * TBL8_GROUP_ENTRIES < 2 ^ 31 then Some (g * TBL8_GROUP_ENTRIES) else None)"

text \<open>A loop over \<open>n\<close> indices from \<open>i\<close> on.\<close>

fun for_n :: "nat \<Rightarrow> nat \<Rightarrow> (nat \<Rightarrow> 's \<Rightarrow> 's option) \<Rightarrow> 's \<Rightarrow> 's option" where
  "for_n 0 i f s = Some s"
| "for_n (Suc n) i f s = do { s \<leftarrow> f i s; for_n n (i + 1) f s }"

section \<open>Depths\<close>

text \<open>Both are called with depths from 1 to 32.\<close>

definition depth_to_mask :: "u8 \<Rightarrow> u32" where
  "depth_to_mask d = signed_drop_bit (unat d - 1) 0x80000000"

definition depth_to_range :: "u8 \<Rightarrow> nat" where
  "depth_to_range d =
     (if unat d \<le> MAX_DEPTH_TBL24 then 2 ^ (MAX_DEPTH_TBL24 - unat d) else 2 ^ (RTE_LPM_MAX_DEPTH - unat d))"

section \<open>The rules\<close>

text \<open>The scan of a group, from \<open>i\<close> up to \<open>en\<close>.\<close>

function scan_rules :: "rte_lpm_rule list \<Rightarrow> u32 \<Rightarrow> u32 \<Rightarrow> u32 \<Rightarrow> u32 option option" where
  "scan_rules tbl x i en =
     (if i < en then do {
        r \<leftarrow> nth_opt tbl (unat i);
        (if rule_ip r = x then Some (Some i) else scan_rules tbl x (i + 1) en) }
      else Some None)"
  by auto
termination
proof (relation "measure (\<lambda>(tbl, x, i, en). unat en - unat i)")
  fix tbl :: "rte_lpm_rule list" and x i en :: u32 and r
  assume "i < en"
  then have "unat (i + 1) = unat i + 1" "unat i < unat en" by unat_arith+
  then show "((tbl, x, i + 1, en), tbl, x, i, en) \<in> measure (\<lambda>(tbl, x, i, en). unat en - unat i)" by simp
qed simp

declare scan_rules.simps [simp del]

definition rule_find :: "rte_lpm \<Rightarrow> u32 \<Rightarrow> u8 \<Rightarrow> int option" where
  "rule_find l ip_masked d = do {
     info \<leftarrow> nth_opt (rule_info l) (unat d - 1);
     r \<leftarrow> scan_rules (rules_tbl l) ip_masked (first_rule info) (first_rule info + used_rules info);
     Some (case r of Some i \<Rightarrow> sint i | None \<Rightarrow> LPM_EINVAL) }"

text \<open>The end of the last used group among the first \<open>n\<close>.\<close>

fun group_before :: "rte_lpm_rule_info list \<Rightarrow> nat \<Rightarrow> u32 option" where
  "group_before infos 0 = Some 0"
| "group_before infos (Suc n) = do {
     info \<leftarrow> nth_opt infos n;
     (if 0 < used_rules info then Some (first_rule info + used_rules info) else group_before infos n) }"

text \<open>Every group after depth \<open>d\<close>, from the last, moves its first rule behind its last one; \<open>False\<close> if there is no room.\<close>

fun shift_groups :: "nat \<Rightarrow> nat \<Rightarrow> rte_lpm \<Rightarrow> (rte_lpm \<times> bool) option" where
  "shift_groups 0 d l = Some (l, True)"
| "shift_groups (Suc i) d l =
     (if Suc i \<le> d then Some (l, True)
      else do {
        info \<leftarrow> nth_opt (rule_info l) i;
        (if first_rule info + used_rules info = max_rules l then Some (l, False)
         else if 0 < used_rules info then do {
           r \<leftarrow> nth_opt (rules_tbl l) (unat (first_rule info));
           t \<leftarrow> upd_opt (rules_tbl l) (unat (first_rule info + used_rules info)) r;
           shift_groups i d (l\<lparr>rules_tbl := t, rule_info := (rule_info l)[i := info\<lparr>first_rule := first_rule info + 1\<rparr>]\<rparr>) }
         else shift_groups i d l) })"

text \<open>The part of \<open>rule_add\<close> that looks for the place: an early return or the index.\<close>

definition rule_place :: "rte_lpm \<Rightarrow> u32 \<Rightarrow> u8 \<Rightarrow> u32 \<Rightarrow> (rte_lpm \<times> (int + u32)) option" where
  "rule_place l ip_masked d nh = do {
     info \<leftarrow> nth_opt (rule_info l) (unat d - 1);
     (if 0 < used_rules info then do {
        let en = first_rule info + used_rules info;
        f \<leftarrow> scan_rules (rules_tbl l) ip_masked (first_rule info) en;
        (case f of
           Some i \<Rightarrow> do {
             r \<leftarrow> nth_opt (rules_tbl l) (unat i);
             (if rule_next_hop r = nh then Some (l, Inl LPM_EEXIST)
              else Some (l\<lparr>rules_tbl := (rules_tbl l)[unat i := r\<lparr>rule_next_hop := nh\<rparr>]\<rparr>, Inl (sint i))) }
         | None \<Rightarrow> Some (l, if en = max_rules l then Inl LPM_ENOSPC else Inr en)) }
      else do {
        i \<leftarrow> group_before (rule_info l) (unat d - 1);
        (if i = max_rules l then Some (l, Inl LPM_ENOSPC)
         else Some (l\<lparr>rule_info := (rule_info l)[unat d - 1 := info\<lparr>first_rule := i\<rparr>]\<rparr>, Inr i)) }) }"

definition rule_add :: "rte_lpm \<Rightarrow> u32 \<Rightarrow> u8 \<Rightarrow> u32 \<Rightarrow> (rte_lpm \<times> int) option" where
  "rule_add l ip_masked d nh = do {
     (l, place) \<leftarrow> rule_place l ip_masked d nh;
     (case place of
        Inl rc \<Rightarrow> Some (l, rc)
      | Inr i \<Rightarrow> do {
          (l, room) \<leftarrow> shift_groups RTE_LPM_MAX_DEPTH (unat d) l;
          (if \<not> room then Some (l, LPM_ENOSPC)
           else do {
             t \<leftarrow> upd_opt (rules_tbl l) (unat i) \<lparr>rule_ip = ip_masked, rule_next_hop = nh\<rparr>;
             info \<leftarrow> nth_opt (rule_info l) (unat d - 1);
             Some (l\<lparr>rules_tbl := t, rule_info := (rule_info l)[unat d - 1 := info\<lparr>used_rules := used_rules info + 1\<rparr>]\<rparr>,
               sint i) }) }) }"

text \<open>The loop of \<open>rule_delete\<close>: every later group moves its last rule before its first one.\<close>

fun unshift_groups :: "nat \<Rightarrow> nat \<Rightarrow> rte_lpm \<Rightarrow> rte_lpm option" where
  "unshift_groups 0 i l = Some l"
| "unshift_groups (Suc n) i l = do {
     info \<leftarrow> nth_opt (rule_info l) i;
     (if 0 < used_rules info then do {
        r \<leftarrow> nth_opt (rules_tbl l) (unat (first_rule info + used_rules info - 1));
        t \<leftarrow> upd_opt (rules_tbl l) (unat (first_rule info - 1)) r;
        unshift_groups n (i + 1)
          (l\<lparr>rules_tbl := t, rule_info := (rule_info l)[i := info\<lparr>first_rule := first_rule info - 1\<rparr>]\<rparr>) }
      else unshift_groups n (i + 1) l) }"

definition rule_delete :: "rte_lpm \<Rightarrow> int \<Rightarrow> u8 \<Rightarrow> rte_lpm option" where
  "rule_delete l idx d = do {
     info \<leftarrow> nth_opt (rule_info l) (unat d - 1);
     r \<leftarrow> nth_opt (rules_tbl l) (unat (first_rule info + used_rules info - 1));
     t \<leftarrow> upd_opt (rules_tbl l) (nat idx) r;
     l \<leftarrow> unshift_groups (RTE_LPM_MAX_DEPTH - unat d) (unat d) (l\<lparr>rules_tbl := t\<rparr>);
     info \<leftarrow> nth_opt (rule_info l) (unat d - 1);
     Some (l\<lparr>rule_info := (rule_info l)[unat d - 1 := info\<lparr>used_rules := used_rules info - 1\<rparr>]\<rparr>) }"

section \<open>Groups of the second table\<close>

definition free_resource :: "nat \<Rightarrow> u32 \<Rightarrow> (nat \<Rightarrow> rte_lpm_tbl_entry) \<Rightarrow> (nat \<Rightarrow> rte_lpm_tbl_entry) option" where
  "free_resource sz i t = (if unat i < sz then Some (t(unat i := zero_entry)) else None)"

fun alloc_scan :: "nat \<Rightarrow> nat \<Rightarrow> rte_lpm \<Rightarrow> (rte_lpm \<times> int) option" where
  "alloc_scan 0 g l = Some (l, LPM_ENOSPC)"
| "alloc_scan (Suc n) g l = do {
     e \<leftarrow> get8 l (g * TBL8_GROUP_ENTRIES);
     (if valid_group e then alloc_scan n (g + 1) l
      else do {
        l \<leftarrow> for_n TBL8_GROUP_ENTRIES (g * TBL8_GROUP_ENTRIES) (\<lambda>j l. set8 l j zero_entry) l;
        l \<leftarrow> set8 l (g * TBL8_GROUP_ENTRIES) (zero_entry\<lparr>valid_group := True\<rparr>);
        Some (l, int g) }) }"

definition tbl8_alloc :: "rte_lpm \<Rightarrow> (rte_lpm \<times> int) option" where
  "tbl8_alloc l = do {
     (l, g) \<leftarrow> alloc_scan (unat (number_tbl8s l)) 0 l;
     (case lpm_dq l of
        Some dq \<Rightarrow>
          if g = LPM_ENOSPC then do {
            v \<leftarrow> lpm_v l;
            (v, dq, t, rc) \<leftarrow> rte_rcu_qsbr_dq_reclaim (free_resource (tbl8_size l)) v dq 1 (tbl8 l);
            let l = l\<lparr>lpm_v := Some v, lpm_dq := Some dq, tbl8 := t\<rparr>;
            (if rc = 0 then alloc_scan (unat (number_tbl8s l)) 0 l else Some (l, g)) }
          else Some (l, g)
      | None \<Rightarrow> Some (l, g)) }"

text \<open>\<open>wait\<close> is what other threads do to the variable while \<open>rte_rcu_qsbr_synchronize\<close> waits.\<close>

type_synonym qsbr_wait = "rte_rcu_qsbr \<Rightarrow> u64 \<Rightarrow> rte_rcu_qsbr"

definition tbl8_free :: "qsbr_wait \<Rightarrow> rte_lpm \<Rightarrow> nat \<Rightarrow> (rte_lpm \<times> int) option" where
  "tbl8_free wait l start =
     (case lpm_v l of
        None \<Rightarrow> map_option (\<lambda>l. (l, 0)) (set8 l start zero_entry)
      | Some v \<Rightarrow>
          (case rcu_mode l of
             RTE_LPM_QSBR_MODE_SYNC \<Rightarrow> do {
               v \<leftarrow> rte_rcu_qsbr_synchronize wait v RTE_QSBR_THRID_INVALID;
               l \<leftarrow> set8 (l\<lparr>lpm_v := Some v\<rparr>) start zero_entry;
               Some (l, 0) }
           | RTE_LPM_QSBR_MODE_DQ \<Rightarrow> do {
               dq \<leftarrow> lpm_dq l;
               (v, dq, t, rc) \<leftarrow> rte_rcu_qsbr_dq_enqueue (free_resource (tbl8_size l)) v dq (of_nat start) (tbl8 l);
               Some (l\<lparr>lpm_v := Some v, lpm_dq := Some dq, tbl8 := t\<rparr>, if rc = 1 then LPM_ENOSPC else 0) }))"

section \<open>Adding a route\<close>

definition new_entry :: "u32 \<Rightarrow> bool \<Rightarrow> u8 \<Rightarrow> rte_lpm_tbl_entry" where
  "new_entry nh vg d = \<lparr>next_hop = ucast nh, valid = True, valid_group = vg, depth = ucast d\<rparr>"

text \<open>The entry of \<open>tbl24\<close> that leads to group \<open>g\<close>.\<close>

definition group_entry :: "nat \<Rightarrow> rte_lpm_tbl_entry" where
  "group_entry g = \<lparr>next_hop = of_nat g, valid = True, valid_group = True, depth = 0\<rparr>"

definition add_small_8 :: "u8 \<Rightarrow> u32 \<Rightarrow> nat \<Rightarrow> rte_lpm \<Rightarrow> rte_lpm option" where
  "add_small_8 d nh j l = do {
     t \<leftarrow> get8 l j;
     (if \<not> valid t \<or> unat (depth t) \<le> unat d then set8 l j (new_entry nh True d) else Some l) }"

definition add_small_24 :: "u8 \<Rightarrow> u32 \<Rightarrow> nat \<Rightarrow> rte_lpm \<Rightarrow> rte_lpm option" where
  "add_small_24 d nh i l = do {
     e \<leftarrow> get24 l i;
     (if \<not> valid e \<or> \<not> valid_group e \<and> unat (depth e) \<le> unat d then set24 l i (new_entry nh False d)
      else if valid_group e then do {
        s \<leftarrow> group_start (unat (next_hop e));
        for_n TBL8_GROUP_ENTRIES s (add_small_8 d nh) l }
      else Some l) }"

definition add_depth_small :: "rte_lpm \<Rightarrow> u32 \<Rightarrow> u8 \<Rightarrow> u32 \<Rightarrow> (rte_lpm \<times> int) option" where
  "add_depth_small l ip d nh =
     map_option (\<lambda>l. (l, 0)) (for_n (depth_to_range d) (unat (drop_bit 8 ip)) (add_small_24 d nh) l)"

text \<open>Entries of a group get a next hop and keep \<open>valid_group\<close>; in the second form only if their depth is not greater.\<close>

definition put_8 :: "u8 \<Rightarrow> u32 \<Rightarrow> nat \<Rightarrow> rte_lpm \<Rightarrow> rte_lpm option" where
  "put_8 d nh j l = do { t \<leftarrow> get8 l j; set8 l j (new_entry nh (valid_group t) d) }"

definition add_big_8 :: "u8 \<Rightarrow> u32 \<Rightarrow> nat \<Rightarrow> rte_lpm \<Rightarrow> rte_lpm option" where
  "add_big_8 d nh j l = do {
     t \<leftarrow> get8 l j;
     (if \<not> valid t \<or> unat (depth t) \<le> unat d then set8 l j (new_entry nh (valid_group t) d) else Some l) }"

definition copy_8 :: "rte_lpm_tbl_entry \<Rightarrow> nat \<Rightarrow> rte_lpm \<Rightarrow> rte_lpm option" where
  "copy_8 e j l = do { t \<leftarrow> get8 l j; set8 l j (e\<lparr>valid := True, valid_group := valid_group t\<rparr>) }"

definition add_depth_big :: "rte_lpm \<Rightarrow> u32 \<Rightarrow> u8 \<Rightarrow> u32 \<Rightarrow> (rte_lpm \<times> int) option" where
  "add_depth_big l ip d nh = do {
     let i = unat (drop_bit 8 ip);
     e \<leftarrow> get24 l i;
     (if \<not> valid e then do {
        (l, g) \<leftarrow> tbl8_alloc l;
        (if g < 0 then Some (l, g)
         else do {
           s \<leftarrow> group_start (nat g);
           l \<leftarrow> for_n (depth_to_range d) (s + unat (ip AND 0xFF)) (put_8 d nh) l;
           l \<leftarrow> set24 l i (group_entry (nat g));
           Some (l, 0) }) }
      else if \<not> valid_group e then do {
        (l, g) \<leftarrow> tbl8_alloc l;
        (if g < 0 then Some (l, g)
         else do {
           s \<leftarrow> group_start (nat g);
           l \<leftarrow> for_n TBL8_GROUP_ENTRIES s (copy_8 e) l;
           l \<leftarrow> for_n (depth_to_range d) (s + unat (ip AND 0xFF)) (put_8 d nh) l;
           l \<leftarrow> set24 l i (group_entry (nat g));
           Some (l, 0) }) }
      else do {
        s \<leftarrow> group_start (unat (next_hop e));
        l \<leftarrow> for_n (depth_to_range d) (s + unat (ip AND 0xFF)) (add_big_8 d nh) l;
        Some (l, 0) }) }"

definition rte_lpm_add :: "rte_lpm \<Rightarrow> u32 \<Rightarrow> u8 \<Rightarrow> u32 \<Rightarrow> (rte_lpm \<times> int) option" where
  "rte_lpm_add l ip d nh =
     (if d < 1 \<or> unat d > RTE_LPM_MAX_DEPTH then Some (l, LPM_EINVAL)
      else do {
        let ip_masked = ip AND depth_to_mask d;
        (l, rule) \<leftarrow> rule_add l ip_masked d nh;
        (if rule = LPM_EEXIST then Some (l, 0)
         else if rule < 0 then Some (l, rule)
         else if unat d \<le> MAX_DEPTH_TBL24 then do {
           (l, _) \<leftarrow> add_depth_small l ip_masked d nh;
           Some (l, 0) }
         else do {
           (l, status) \<leftarrow> add_depth_big l ip_masked d nh;
           (if status < 0 then do {
              l \<leftarrow> rule_delete l rule d;
              Some (l, status) }
            else Some (l, 0)) }) })"

definition rte_lpm_is_rule_present :: "rte_lpm \<Rightarrow> u32 \<Rightarrow> u8 \<Rightarrow> (int \<times> u32 option) option" where
  "rte_lpm_is_rule_present l ip d =
     (if d < 1 \<or> unat d > RTE_LPM_MAX_DEPTH then Some (LPM_EINVAL, None)
      else do {
        i \<leftarrow> rule_find l (ip AND depth_to_mask d) d;
        (if i \<ge> 0 then do { r \<leftarrow> nth_opt (rules_tbl l) (nat i); Some (1, Some (rule_next_hop r)) }
         else Some (0, None)) })"

section \<open>Deleting a route\<close>

text \<open>The loop of \<open>find_previous_rule\<close>: the index of the rule and its depth, or -1.\<close>

fun previous_rule :: "nat \<Rightarrow> rte_lpm \<Rightarrow> u32 \<Rightarrow> (int \<times> u8) option" where
  "previous_rule 0 l ip = Some (- 1, 0)"
| "previous_rule (Suc n) l ip = do {
     i \<leftarrow> rule_find l (ip AND depth_to_mask (of_nat (Suc n))) (of_nat (Suc n));
     (if i \<ge> 0 then Some (i, of_nat (Suc n)) else previous_rule n l ip) }"

definition find_previous_rule :: "rte_lpm \<Rightarrow> u32 \<Rightarrow> u8 \<Rightarrow> (int \<times> u8) option" where
  "find_previous_rule l ip d = previous_rule (unat d - 1) l ip"

definition invalidate_8 :: "u8 \<Rightarrow> nat \<Rightarrow> rte_lpm \<Rightarrow> rte_lpm option" where
  "invalidate_8 d j l = do {
     t \<leftarrow> get8 l j;
     (if unat (depth t) \<le> unat d then set8 l j (t\<lparr>valid := False\<rparr>) else Some l) }"

definition replace_8 :: "u8 \<Rightarrow> rte_lpm_tbl_entry \<Rightarrow> nat \<Rightarrow> rte_lpm \<Rightarrow> rte_lpm option" where
  "replace_8 d new j l = do {
     t \<leftarrow> get8 l j;
     (if unat (depth t) \<le> unat d then set8 l j new else Some l) }"

text \<open>A turn of the loop over \<open>tbl24\<close>: what an entry becomes, and what is done to the entries of a group.\<close>

definition delete_small_24 ::
  "u8 \<Rightarrow> rte_lpm_tbl_entry \<Rightarrow> (nat \<Rightarrow> rte_lpm \<Rightarrow> rte_lpm option) \<Rightarrow> nat \<Rightarrow> rte_lpm \<Rightarrow> rte_lpm option" where
  "delete_small_24 d new body i l = do {
     e \<leftarrow> get24 l i;
     (if \<not> valid_group e \<and> unat (depth e) \<le> unat d then set24 l i new
      else if valid_group e then do {
        s \<leftarrow> group_start (unat (next_hop e));
        for_n TBL8_GROUP_ENTRIES s body l }
      else Some l) }"

definition delete_depth_small :: "rte_lpm \<Rightarrow> u32 \<Rightarrow> u8 \<Rightarrow> int \<Rightarrow> u8 \<Rightarrow> (rte_lpm \<times> int) option" where
  "delete_depth_small l ip d sub sub_depth = do {
     let start = unat (drop_bit 8 ip);
     l \<leftarrow> (if sub < 0 then
         for_n (depth_to_range d) start (delete_small_24 d zero_entry (invalidate_8 d)) l
       else do {
         r \<leftarrow> nth_opt (rules_tbl l) (nat sub);
         for_n (depth_to_range d) start
           (delete_small_24 d (new_entry (rule_next_hop r) False sub_depth)
             (replace_8 d (new_entry (rule_next_hop r) True sub_depth))) l });
     Some (l, 0) }"

text \<open>The scans of \<open>tbl8_recycle_check\<close>: whether all \<open>n\<close> entries from \<open>j\<close> on satisfy a condition.\<close>

fun all_8 :: "(rte_lpm_tbl_entry \<Rightarrow> bool) \<Rightarrow> nat \<Rightarrow> nat \<Rightarrow> rte_lpm \<Rightarrow> bool option" where
  "all_8 ok 0 j l = Some True"
| "all_8 ok (Suc n) j l = do { t \<leftarrow> get8 l j; (if ok t then all_8 ok n (j + 1) l else Some False) }"

definition tbl8_recycle_check :: "rte_lpm \<Rightarrow> nat \<Rightarrow> int option" where
  "tbl8_recycle_check l start = do {
     e \<leftarrow> get8 l start;
     (if valid e then
        if unat (depth e) \<le> MAX_DEPTH_TBL24 then do {
          same \<leftarrow> all_8 (\<lambda>t. depth t = depth e) (TBL8_GROUP_ENTRIES - 1) (start + 1) l;
          Some (if same then int start else LPM_EEXIST) }
        else Some LPM_EEXIST
      else do {
        none \<leftarrow> all_8 (\<lambda>t. \<not> valid t) (TBL8_GROUP_ENTRIES - 1) (start + 1) l;
        Some (if none then LPM_EINVAL else LPM_EEXIST) }) }"

definition delete_depth_big :: "qsbr_wait \<Rightarrow> rte_lpm \<Rightarrow> u32 \<Rightarrow> u8 \<Rightarrow> int \<Rightarrow> u8 \<Rightarrow> (rte_lpm \<times> int) option" where
  "delete_depth_big wait l ip d sub sub_depth = do {
     let i = unat (drop_bit 8 ip);
     e \<leftarrow> get24 l i;
     let start = unat (next_hop e) * TBL8_GROUP_ENTRIES;
     let j = start + unat (ip AND 0xFF);
     l \<leftarrow> (if sub < 0 then for_n (depth_to_range d) j (invalidate_8 d) l
       else do {
         t \<leftarrow> get8 l start;
         r \<leftarrow> nth_opt (rules_tbl l) (nat sub);
         for_n (depth_to_range d) j (replace_8 d (new_entry (rule_next_hop r) (valid_group t) sub_depth)) l });
     rec \<leftarrow> tbl8_recycle_check l start;
     (if rec = LPM_EINVAL then do {
        e \<leftarrow> get24 l i;
        l \<leftarrow> set24 l i (e\<lparr>valid := False\<rparr>);
        tbl8_free wait l start }
      else if rec > - 1 then do {
        t \<leftarrow> get8 l (nat rec);
        l \<leftarrow> set24 l i \<lparr>next_hop = next_hop t, valid = True, valid_group = False, depth = depth t\<rparr>;
        tbl8_free wait l start }
      else Some (l, 0)) }"

definition rte_lpm_delete :: "qsbr_wait \<Rightarrow> rte_lpm \<Rightarrow> u32 \<Rightarrow> u8 \<Rightarrow> (rte_lpm \<times> int) option" where
  "rte_lpm_delete wait l ip d =
     (if d < 1 \<or> unat d > RTE_LPM_MAX_DEPTH then Some (l, LPM_EINVAL)
      else do {
        let ip_masked = ip AND depth_to_mask d;
        idx \<leftarrow> rule_find l ip_masked d;
        (if idx < 0 then Some (l, LPM_EINVAL)
         else do {
           l \<leftarrow> rule_delete l idx d;
           (sub, sub_depth) \<leftarrow> find_previous_rule l ip d;
           (if unat d \<le> MAX_DEPTH_TBL24 then delete_depth_small l ip_masked d sub sub_depth
            else delete_depth_big wait l ip_masked d sub sub_depth) }) })"

definition rte_lpm_delete_all :: "rte_lpm \<Rightarrow> rte_lpm option" where
  "rte_lpm_delete_all l =
     (if TBL8_GROUP_ENTRIES * unat (number_tbl8s l) \<le> tbl8_size l \<and> unat (max_rules l) \<le> length (rules_tbl l)
      then Some (l\<lparr>rule_info := replicate RTE_LPM_MAX_DEPTH \<lparr>used_rules = 0, first_rule = 0\<rparr>,
        tbl24 := (\<lambda>_. zero_entry),
        tbl8 := (\<lambda>j. if j < TBL8_GROUP_ENTRIES * unat (number_tbl8s l) then zero_entry else tbl8 l j),
        rules_tbl := replicate (unat (max_rules l)) \<lparr>rule_ip = 0, rule_next_hop = 0\<rparr> @ drop (unat (max_rules l)) (rules_tbl l)\<rparr>)
      else None)"

section \<open>Looking up an address\<close>

text \<open>The word of the entry for an address.\<close>

definition lookup_entry :: "rte_lpm \<Rightarrow> u32 \<Rightarrow> u32 option" where
  "lookup_entry l ip = do {
     e \<leftarrow> get24 l (unat (drop_bit 8 ip));
     let w = entry_word e;
     (if w AND 0x03000000 = 0x03000000 then do {
        e \<leftarrow> get8 l (unat ((ucast (ucast ip :: u8) :: u32) + (w AND 0x00FFFFFF) * 256));
        Some (entry_word e) }
      else Some w) }"

definition rte_lpm_lookup :: "rte_lpm \<Rightarrow> u32 \<Rightarrow> (int \<times> u32) option" where
  "rte_lpm_lookup l ip = do {
     w \<leftarrow> lookup_entry l ip;
     Some (if w AND 0x01000000 \<noteq> 0 then 0 else LPM_ENOENT, w AND 0x00FFFFFF) }"

fun rte_lpm_lookup_bulk :: "rte_lpm \<Rightarrow> u32 list \<Rightarrow> u32 list option" where
  "rte_lpm_lookup_bulk l [] = Some []"
| "rte_lpm_lookup_bulk l (ip # ips) = do {
     w \<leftarrow> lookup_entry l ip;
     ws \<leftarrow> rte_lpm_lookup_bulk l ips;
     Some (w # ws) }"

text \<open>\<open>rte_lpm_lookupx4\<close> without vector instructions: four addresses with a default next hop.\<close>

fun rte_lpm_lookupx4 :: "rte_lpm \<Rightarrow> u32 list \<Rightarrow> u32 \<Rightarrow> u32 list option" where
  "rte_lpm_lookupx4 l [] defv = Some []"
| "rte_lpm_lookupx4 l (ip # ips) defv = do {
     (ret, nh) \<leftarrow> rte_lpm_lookup l ip;
     hops \<leftarrow> rte_lpm_lookupx4 l ips defv;
     Some ((if ret = 0 then nh else defv) # hops) }"

end
