(* ===== verification/Lpm_Rules.thy ===== *)
theory Lpm_Rules
  imports Lpm
begin

text \<open>
  The rule table of \<open>rte_lpm.c\<close>: it is the concatenation of the groups of the 32 depths (\<open>rules_ok\<close>), and adding, finding and
  deleting a rule are the operations of a map from depths and prefixes to next hops (\<open>routes_of\<close>). \<open>best\<close> is the longest
  match in such a map.
\<close>

section \<open>Words and loops\<close>

lemma unat_plus_u32: "unat a + unat b < 2 ^ 32 \<Longrightarrow> unat (a + b :: u32) = unat a + unat b"
  by (simp add: unat_word_ariths)

lemma unat_minus1_u32: "0 < unat a \<Longrightarrow> unat (a - 1 :: u32) = unat a - 1"
  by (metis unat_eq_zero unat_minus_one less_numeral_extra(3))

lemma sint_u32:
  assumes "unat i < 2 ^ 31"
  shows "sint (i :: u32) = int (unat i)"
proof -
  have "int (unat i) < int (2 ^ 31)" using assms by (simp only: of_nat_less_iff)
  then have u: "uint i < 2 ^ 31" by simp
  have "- (2 ^ 31) \<le> uint i" by (rule order_trans [of _ 0]) simp_all
  from signed_take_bit_int_eq_self [OF this u] show ?thesis by (simp add: sint_uint)
qed

lemma gt0_unat: "0 < (a :: u32) \<longleftrightarrow> 0 < unat a"
  by (simp add: word_less_nat_alt)

section \<open>Routes\<close>

type_synonym routes = "nat \<Rightarrow> u32 \<Rightarrow> u32 option"

definition pfx :: "nat \<Rightarrow> u32 \<Rightarrow> u32" where "pfx d ip = ip AND depth_to_mask (of_nat d)"

fun best :: "routes \<Rightarrow> nat \<Rightarrow> u32 \<Rightarrow> (nat \<times> u32) option" where
  "best R 0 ip = None"
| "best R (Suc n) ip = (case R (Suc n) (pfx (Suc n) ip) of Some h \<Rightarrow> Some (Suc n, h) | None \<Rightarrow> best R n ip)"

definition route_add :: "routes \<Rightarrow> nat \<Rightarrow> u32 \<Rightarrow> u32 \<Rightarrow> routes" where
  "route_add R d x h = R(d := (R d)(x \<mapsto> h))"

definition route_del :: "routes \<Rightarrow> nat \<Rightarrow> u32 \<Rightarrow> routes" where
  "route_del R d x = R(d := (R d)(x := None))"

lemma best_Some_iff:
  "best R n ip = Some (d, h) \<longleftrightarrow>
     0 < d \<and> d \<le> n \<and> R d (pfx d ip) = Some h \<and> (\<forall>k. d < k \<and> k \<le> n \<longrightarrow> R k (pfx k ip) = None)"
proof (induction n)
  case (Suc n)
  show ?case
  proof (cases "R (Suc n) (pfx (Suc n) ip)")
    case None
    then show ?thesis using Suc by (auto simp: le_Suc_eq)
  next
    case (Some v)
    show ?thesis
    proof
      assume "best R (Suc n) ip = Some (d, h)"
      then show "0 < d \<and> d \<le> Suc n \<and> R d (pfx d ip) = Some h \<and> (\<forall>k. d < k \<and> k \<le> Suc n \<longrightarrow> R k (pfx k ip) = None)"
        using Some by auto
    next
      assume r: "0 < d \<and> d \<le> Suc n \<and> R d (pfx d ip) = Some h \<and> (\<forall>k. d < k \<and> k \<le> Suc n \<longrightarrow> R k (pfx k ip) = None)"
      then have "\<not> d < Suc n" using Some by fastforce
      then have "d = Suc n" using r by simp
      then show "best R (Suc n) ip = Some (d, h)" using r by simp
    qed
  qed
qed auto

lemma best_None_iff: "best R n ip = None \<longleftrightarrow> (\<forall>d. 0 < d \<and> d \<le> n \<longrightarrow> R d (pfx d ip) = None)"
proof (induction n)
  case (Suc n)
  then show ?case by (auto simp: le_Suc_eq split: option.splits)
qed simp

section \<open>The groups\<close>

definition rmap :: "rte_lpm_rule list \<Rightarrow> u32 \<Rightarrow> u32 option" where
  "rmap g = map_of (map (\<lambda>r. (rule_ip r, rule_next_hop r)) g)"

definition routes_of :: "rte_lpm_rule list list \<Rightarrow> routes" where
  "routes_of gs d = (if 0 < d \<and> d \<le> length gs then rmap (gs ! (d - 1)) else Map.empty)"

definition goff :: "'a list list \<Rightarrow> nat \<Rightarrow> nat" where "goff gs i = length (concat (take i gs))"

definition wf_groups :: "rte_lpm_rule list list \<Rightarrow> bool" where
  "wf_groups gs \<longleftrightarrow> (\<forall>i < length gs. distinct (map rule_ip (gs ! i)) \<and> (\<forall>r \<in> set (gs ! i). pfx (i + 1) (rule_ip r) = rule_ip r))"

definition info_ok :: "nat \<Rightarrow> nat \<Rightarrow> nat \<Rightarrow> rte_lpm_rule_info \<Rightarrow> bool" where
  "info_ok m off n info \<longleftrightarrow> unat (used_rules info) = n \<and> (0 < n \<longrightarrow> unat (first_rule info) = off) \<and> unat (first_rule info) < m"

definition rules_ok :: "rte_lpm \<Rightarrow> rte_lpm_rule list list \<Rightarrow> bool" where
  "rules_ok l gs \<longleftrightarrow> length gs = 32 \<and> length (rule_info l) = 32 \<and> length (rules_tbl l) = unat (max_rules l) \<and>
     unat (max_rules l) < 2 ^ 31 \<and> (\<exists>rest. rules_tbl l = concat gs @ rest) \<and>
     (\<forall>i < 32. info_ok (unat (max_rules l)) (goff gs i) (length (gs ! i)) (rule_info l ! i))"

text \<open>The parts of the state that the rule operations leave alone.\<close>

definition same_tables :: "rte_lpm \<Rightarrow> rte_lpm \<Rightarrow> bool" where
  "same_tables l l' \<longleftrightarrow> l' = l\<lparr>rules_tbl := rules_tbl l', rule_info := rule_info l'\<rparr>"

lemma same_tables_refl [simp]: "same_tables l l" by (simp add: same_tables_def)

lemma same_tables_upd [simp]:
  "same_tables l (l'\<lparr>rules_tbl := t\<rparr>) = same_tables l l'"
  "same_tables l (l'\<lparr>rule_info := i\<rparr>) = same_tables l l'"
  by (cases l; cases l'; simp add: same_tables_def)+

lemma same_tables_upd_left [simp]: "same_tables (l\<lparr>rule_info := i\<rparr>) l' = same_tables l l'" "same_tables (l\<lparr>rules_tbl := t\<rparr>) l' = same_tables l l'"
  by (cases l; cases l'; simp add: same_tables_def)+

lemma same_tables_trans: "same_tables l l1 \<Longrightarrow> same_tables l1 l2 \<Longrightarrow> same_tables l l2"
  by (cases l; cases l1; cases l2) (simp add: same_tables_def)

lemma same_tables_simps:
  assumes "same_tables l l'"
  shows "tbl24 l' = tbl24 l" "tbl8 l' = tbl8 l" "tbl8_size l' = tbl8_size l" "lpm_name l' = lpm_name l" "max_rules l' = max_rules l"
    "number_tbl8s l' = number_tbl8s l" "lpm_v l' = lpm_v l" "rcu_mode l' = rcu_mode l" "lpm_dq l' = lpm_dq l"
  using assms by (cases l; cases l'; simp add: same_tables_def)+

lemma goff_Suc: "i < length gs \<Longrightarrow> goff gs (Suc i) = goff gs i + length (gs ! i)"
  by (simp add: goff_def take_Suc_conv_app_nth)

lemma goff_total: "length gs \<le> i \<Longrightarrow> goff gs i = length (concat gs)"
  by (simp add: goff_def)

lemma goff_0 [simp]: "goff gs 0 = 0" by (simp add: goff_def)

lemma goff_le: "goff gs i \<le> length (concat gs)"
  by (metis append_take_drop_id concat_append goff_def le_add1 length_append)

lemma goff_mono: "i \<le> j \<Longrightarrow> goff gs i \<le> goff gs j"
  by (metis goff_def goff_le min.absorb1 take_take)

lemma goff_group: "i < length gs \<Longrightarrow> goff gs i + length (gs ! i) \<le> length (concat gs)"
  using goff_le [of gs "Suc i"] by (simp add: goff_Suc)

lemma concat_split: "i < length gs \<Longrightarrow> concat gs = concat (take i gs) @ gs ! i @ concat (drop (Suc i) gs)"
  by (metis concat.simps(2) concat_append id_take_nth_drop)

lemma nth_group: "i < length gs \<Longrightarrow> k < length (gs ! i) \<Longrightarrow> (concat gs @ rest) ! (goff gs i + k) = gs ! i ! k"
  by (simp add: concat_split [of i gs] goff_def nth_append)

lemma rules_okD:
  assumes "rules_ok l gs" "i < 32"
  shows "i < length (rule_info l)" "info_ok (unat (max_rules l)) (goff gs i) (length (gs ! i)) (rule_info l ! i)"
    "goff gs i + length (gs ! i) \<le> unat (max_rules l)" "length (concat gs) \<le> unat (max_rules l)"
    "i < length gs" "length gs = 32" "length (rules_tbl l) = unat (max_rules l)" "unat (max_rules l) < 2 ^ 31"
proof -
  show r: "length gs = 32" "length (rules_tbl l) = unat (max_rules l)" "i < length (rule_info l)" "i < length gs"
    "info_ok (unat (max_rules l)) (goff gs i) (length (gs ! i)) (rule_info l ! i)" "unat (max_rules l) < 2 ^ 31"
    using assms by (auto simp: rules_ok_def)
  show t: "length (concat gs) \<le> unat (max_rules l)" using assms by (auto simp: rules_ok_def)
  show "goff gs i + length (gs ! i) \<le> unat (max_rules l)" using goff_group [OF r(4)] t by linarith
qed

section \<open>Finding a rule\<close>

lemma rmap_Some:
  assumes "distinct (map rule_ip g)"
  shows "rmap g x = Some h \<longleftrightarrow> (\<exists>r \<in> set g. rule_ip r = x \<and> rule_next_hop r = h)"
proof -
  have "distinct (map fst (map (\<lambda>r. (rule_ip r, rule_next_hop r)) g))" using assms by (simp add: comp_def)
  from map_of_eq_Some_iff [OF this] show ?thesis by (auto simp: rmap_def)
qed

lemma rmap_None: "rmap g x = None \<longleftrightarrow> x \<notin> rule_ip ` set g"
  by (simp add: rmap_def map_of_eq_None_iff image_image)

lemma rmap_cong:
  assumes "distinct (map rule_ip g)" "distinct (map rule_ip g')" "set g = set g'"
  shows "rmap g = rmap g'"
proof
  fix x
  have "rmap g x = Some h \<longleftrightarrow> rmap g' x = Some h" for h
    using assms by (simp add: rmap_Some)
  then show "rmap g x = rmap g' x" by (metis option.exhaust)
qed

lemma scan_rules_ok:
  assumes "unat i + n \<le> length tbl" "length tbl < 2 ^ 31" "unat en = unat i + n"
  shows "scan_rules tbl x i en = Some None \<and> (\<forall>k < n. rule_ip (tbl ! (unat i + k)) \<noteq> x) \<or>
    (\<exists>k < n. \<exists>j. scan_rules tbl x i en = Some (Some j) \<and> unat j = unat i + k \<and> rule_ip (tbl ! (unat i + k)) = x)"
  using assms
proof (induction n arbitrary: i)
  case 0
  then show ?case by (subst scan_rules.simps) (simp add: word_less_nat_alt)
next
  case (Suc n)
  have lt: "i < en" using Suc.prems by (simp add: word_less_nat_alt)
  have u: "unat (i + 1) = unat i + 1" using Suc.prems by (simp add: unat_plus_u32)
  note st = scan_rules.simps [of tbl x i en]
  show ?case
  proof (cases "rule_ip (tbl ! unat i) = x")
    case True
    then have "scan_rules tbl x i en = Some (Some i)" using lt Suc.prems(1) by (subst st) (simp add: nth_opt_def)
    then show ?thesis using True by (intro disjI2 exI [of _ 0]) simp
  next
    case False
    have e: "scan_rules tbl x i en = scan_rules tbl x (i + 1) en"
      using lt Suc.prems(1) False by (subst st) (simp add: nth_opt_def)
    have "scan_rules tbl x (i + 1) en = Some None \<and> (\<forall>k < n. rule_ip (tbl ! (unat (i + 1) + k)) \<noteq> x) \<or>
      (\<exists>k < n. \<exists>j. scan_rules tbl x (i + 1) en = Some (Some j) \<and> unat j = unat (i + 1) + k \<and> rule_ip (tbl ! (unat (i + 1) + k)) = x)"
      using Suc.prems by (intro Suc.IH) (simp_all add: u)
    then show ?thesis
    proof
      assume a: "scan_rules tbl x (i + 1) en = Some None \<and> (\<forall>k < n. rule_ip (tbl ! (unat (i + 1) + k)) \<noteq> x)"
      have "rule_ip (tbl ! (unat i + k)) \<noteq> x" if "k < Suc n" for k
        using that a False by (cases k) (auto simp: u)
      then show ?thesis using a e by simp
    next
      assume "\<exists>k < n. \<exists>j. scan_rules tbl x (i + 1) en = Some (Some j) \<and> unat j = unat (i + 1) + k \<and> rule_ip (tbl ! (unat (i + 1) + k)) = x"
      then obtain k j where "k < n" "scan_rules tbl x (i + 1) en = Some (Some j)" "unat j = unat i + Suc k" "rule_ip (tbl ! (unat i + Suc k)) = x"
        by (auto simp: u)
      then show ?thesis using e by (intro disjI2 exI [of _ "Suc k"] conjI exI [of _ j]) simp_all
    qed
  qed
qed

lemma scan_group:
  assumes ok: "rules_ok l gs" and i: "i < 32" and info: "info = rule_info l ! i" "gs ! i \<noteq> []"
  shows "scan_rules (rules_tbl l) x (first_rule info) (first_rule info + used_rules info) = Some None \<and> x \<notin> rule_ip ` set (gs ! i) \<or>
    (\<exists>k < length (gs ! i). \<exists>j. scan_rules (rules_tbl l) x (first_rule info) (first_rule info + used_rules info) = Some (Some j) \<and>
      unat j = goff gs i + k \<and> rule_ip (gs ! i ! k) = x)"
proof -
  note D = rules_okD [OF ok i]
  obtain rest where rest: "rules_tbl l = concat gs @ rest" using ok by (auto simp: rules_ok_def)
  have f: "unat (first_rule info) = goff gs i" "unat (used_rules info) = length (gs ! i)"
    using D(2) info by (auto simp: info_ok_def)
  have s: "unat (first_rule info + used_rules info) = goff gs i + length (gs ! i)"
    using D(3,8) f by (simp add: unat_plus_u32)
  have n: "rules_tbl l ! (goff gs i + k) = gs ! i ! k" if "k < length (gs ! i)" for k
    using nth_group [OF D(5) that] rest by simp
  have a: "unat (first_rule info) + length (gs ! i) \<le> length (rules_tbl l)" "length (rules_tbl l) < 2 ^ 31"
    "unat (first_rule info + used_rules info) = unat (first_rule info) + length (gs ! i)"
    using D(3,7,8) f s by simp_all
  show ?thesis using scan_rules_ok [OF a, of x] f(1) n by (fastforce simp: in_set_conv_nth)
qed

lemma scan_empty: "used_rules info = 0 \<Longrightarrow> scan_rules tbl x (first_rule info) (first_rule info + used_rules info) = Some None"
  by (subst scan_rules.simps) simp

lemma rule_find_cases:
  assumes ok: "rules_ok l gs" and d: "0 < d" "d \<le> 32"
  shows "rule_find l x (of_nat d) = Some LPM_EINVAL \<and> x \<notin> rule_ip ` set (gs ! (d - 1)) \<or>
    (\<exists>k < length (gs ! (d - 1)). rule_find l x (of_nat d) = Some (int (goff gs (d - 1) + k)) \<and> rule_ip (gs ! (d - 1) ! k) = x)"
proof -
  have i: "d - 1 < 32" using d by simp
  have u: "unat (of_nat d :: u8) = d" using d by (simp add: unat_of_nat)
  note D = rules_okD [OF ok i]
  let ?info = "rule_info l ! (d - 1)"
  show ?thesis
  proof (cases "gs ! (d - 1) = []")
    case True
    then have "unat (used_rules ?info) = 0" using D(2) by (simp add: info_ok_def)
    then have z: "used_rules ?info = 0" by (simp add: unat_eq_zero)
    then show ?thesis using True D(1) scan_empty [OF z] by (simp add: rule_find_def u nth_opt_def)
  next
    case False
    have "sint j = int (goff gs (d - 1) + k)" if "unat j = goff gs (d - 1) + k" "k < length (gs ! (d - 1))" for j :: u32 and k
      using that D(3,8) by (subst sint_u32) simp_all
    then show ?thesis using scan_group [OF ok i refl False, of x] D(1) by (fastforce simp: rule_find_def u nth_opt_def)
  qed
qed

lemma rule_find_ok:
  assumes ok: "rules_ok l gs" and wf: "wf_groups gs" and d: "0 < d" "d \<le> 32"
  shows "case routes_of gs d x of
      None \<Rightarrow> rule_find l x (of_nat d) = Some LPM_EINVAL
    | Some h \<Rightarrow> \<exists>k < length (gs ! (d - 1)). rule_find l x (of_nat d) = Some (int (goff gs (d - 1) + k)) \<and>
        nat (int (goff gs (d - 1) + k)) < length (rules_tbl l) \<and>
        rule_ip (gs ! (d - 1) ! k) = x \<and> rules_tbl l ! nat (int (goff gs (d - 1) + k)) = gs ! (d - 1) ! k \<and> rule_next_hop (gs ! (d - 1) ! k) = h"
proof -
  have i: "d - 1 < 32" using d by simp
  note D = rules_okD [OF ok i]
  obtain rest where rest: "rules_tbl l = concat gs @ rest" using ok by (auto simp: rules_ok_def)
  have dist: "distinct (map rule_ip (gs ! (d - 1)))" using wf D(5) by (simp add: wf_groups_def)
  have R: "routes_of gs d x = rmap (gs ! (d - 1)) x" using d D(6) by (simp add: routes_of_def)
  from rule_find_cases [OF ok d, of x] show ?thesis
  proof (elim disjE conjE exE)
    assume "rule_find l x (of_nat d) = Some LPM_EINVAL" "x \<notin> rule_ip ` set (gs ! (d - 1))"
    then show ?thesis by (simp add: R rmap_None [THEN iffD2])
  next
    fix k assume k: "k < length (gs ! (d - 1))" "rule_find l x (of_nat d) = Some (int (goff gs (d - 1) + k))" "rule_ip (gs ! (d - 1) ! k) = x"
    then have "rmap (gs ! (d - 1)) x = Some (rule_next_hop (gs ! (d - 1) ! k))"
      using rmap_Some [OF dist] nth_mem by blast
    moreover have "rules_tbl l ! (goff gs (d - 1) + k) = gs ! (d - 1) ! k" using nth_group [OF D(5) k(1)] rest by simp
    ultimately show ?thesis using k D(3,7) by (auto simp: R simp del: of_nat_add)
  qed
qed

end
