(* ===== verification/Lpm_Rules_Upd.thy ===== *)
theory Lpm_Rules_Upd
  imports Lpm_Rules
begin

text \<open>
  Adding and deleting a rule: the loops that make room and close the gap rotate the groups of greater depths by one, and the
  routes change at the one rule only.
\<close>

section \<open>Rotations\<close>

definition rot :: "'a list \<Rightarrow> 'a list" where "rot g = (case g of [] \<Rightarrow> [] | x # xs \<Rightarrow> xs @ [x])"

definition unrot :: "'a list \<Rightarrow> 'a list" where "unrot g = (if g = [] then [] else last g # butlast g)"

lemma rot_simps [simp]: "rot [] = []" "rot (x # xs) = xs @ [x]" "length (rot g) = length g" "set (rot g) = set g"
  "distinct (map f (rot g)) = distinct (map f g)" "rot g = [] \<longleftrightarrow> g = []"
  by (cases g; auto simp: rot_def)+

lemma unrot_simps [simp]: "unrot [] = []" "unrot (xs @ [x]) = x # xs" "length (unrot g) = length g" "set (unrot g) = set g"
  "distinct (map f (unrot g)) = distinct (map f g)" "unrot g = [] \<longleftrightarrow> g = []"
  by (auto simp: unrot_def; cases g rule: rev_cases; auto)+

section \<open>Making room\<close>

text \<open>The table while the groups move: those from \<open>i\<close> on have moved by one, and there is a free place before them.\<close>

definition moving :: "rte_lpm \<Rightarrow> rte_lpm_rule list list \<Rightarrow> nat \<Rightarrow> rte_lpm \<Rightarrow> bool" where
  "moving l0 gs i l \<longleftrightarrow> same_tables l0 l \<and> length (rule_info l) = 32 \<and> length (rules_tbl l) = unat (max_rules l) \<and>
     (\<exists>h rest. rules_tbl l = concat (take i gs) @ h # concat (map rot (drop i gs)) @ rest) \<and>
     (\<forall>j < 32. info_ok (unat (max_rules l)) (goff gs j + (if j < i then 0 else 1)) (length (gs ! j)) (rule_info l ! j)) \<and>
     (\<forall>j < i. rule_info l ! j = rule_info l0 ! j)"

lemma moving_step:
  assumes gs: "length gs = 32" "length (concat gs) < unat (max_rules l0)" "unat (max_rules l0) < 2 ^ 31"
    and m: "moving l0 gs (Suc i) l" and i: "i < 32" "d < Suc i"
  shows "\<exists>l'. shift_groups (Suc i) d l = shift_groups i d l' \<and> moving l0 gs i l'"
proof -
  let ?info = "rule_info l ! i" and ?m = "unat (max_rules l)"
  obtain h rest where t: "rules_tbl l = concat (take (Suc i) gs) @ h # concat (map rot (drop (Suc i) gs)) @ rest"
    and st: "same_tables l0 l" and len: "length (rule_info l) = 32" "length (rules_tbl l) = ?m"
    and info: "\<forall>j < 32. info_ok ?m (goff gs j + (if j < Suc i then 0 else 1)) (length (gs ! j)) (rule_info l ! j)"
    and old: "\<forall>j < Suc i. rule_info l ! j = rule_info l0 ! j"
    using m by (auto simp: moving_def)
  have mx: "max_rules l = max_rules l0" using same_tables_simps [OF st] by simp
  have I: "info_ok ?m (goff gs i) (length (gs ! i)) ?info" using info i(1) by force
  have ti: "take (Suc i) gs = take i gs @ [gs ! i]" "drop i gs = gs ! i # drop (Suc i) gs"
    using i(1) gs(1) by (simp_all add: take_Suc_conv_app_nth Cons_nth_drop_Suc)
  have end_: "goff gs i + length (gs ! i) < ?m" using goff_group [of i gs] gs i(1) mx by simp
  have u: "unat (first_rule ?info + used_rules ?info) = unat (first_rule ?info) + length (gs ! i)"
    using I end_ gs(3) mx by (subst unat_plus_u32) (auto simp: info_ok_def)
  have "unat (first_rule ?info + used_rules ?info) < ?m"
    using I end_ u by (cases "gs ! i = []") (auto simp: info_ok_def)
  then have ne: "first_rule ?info + used_rules ?info \<noteq> max_rules l" by auto
  show ?thesis
  proof (cases "gs ! i")
    case Nil
    then have "shift_groups (Suc i) d l = shift_groups i d l"
      using I ne i(2) len(1) i(1) by (simp add: info_ok_def gt0_unat nth_opt_def)
    moreover have "moving l0 gs i l"
      unfolding moving_def using st len t info old Nil ti
      by (auto simp: less_Suc_eq info_ok_def)
    ultimately show ?thesis by blast
  next
    case (Cons x xs)
    then have f: "unat (first_rule ?info) = goff gs i" "unat (used_rules ?info) = Suc (length xs)"
      using I by (auto simp: info_ok_def)
    have off: "goff gs i = length (concat (take i gs))" by (simp add: goff_def)
    have r: "rules_tbl l ! goff gs i = x" using t ti Cons by (simp add: off)
    have w: "(rules_tbl l)[goff gs i + Suc (length xs) := x] =
        concat (take i gs) @ x # concat (map rot (drop i gs)) @ rest"
      using t ti Cons by (simp add: off list_update_append)
    have u1: "unat (first_rule ?info + 1) = goff gs i + 1"
      using f end_ gs(3) mx by (subst unat_plus_u32) auto
    let ?l = "l\<lparr>rules_tbl := (rules_tbl l)[goff gs i + Suc (length xs) := x],
      rule_info := (rule_info l)[i := ?info\<lparr>first_rule := first_rule ?info + 1\<rparr>]\<rparr>"
    have "shift_groups (Suc i) d l = shift_groups i d ?l"
      using ne i len f r u Cons end_ by (simp add: gt0_unat nth_opt_def upd_opt_def)
    moreover have "moving l0 gs i ?l"
      unfolding moving_def
    proof (intro conjI)
      show "same_tables l0 ?l" using st by simp
      show "\<exists>h rest. rules_tbl ?l = concat (take i gs) @ h # concat (map rot (drop i gs)) @ rest"
        using w by auto
      show "\<forall>j < 32. info_ok (unat (max_rules ?l)) (goff gs j + (if j < i then 0 else 1)) (length (gs ! j)) (rule_info ?l ! j)"
        using info len(1) u1 f Cons end_ by (auto simp: nth_list_update info_ok_def less_Suc_eq)
    qed (use len old in auto)
    ultimately show ?thesis by blast
  qed
qed

lemma shift_groups_room:
  assumes "length gs = 32" "length (concat gs) < unat (max_rules l0)" "unat (max_rules l0) < 2 ^ 31"
  shows "moving l0 gs i l \<Longrightarrow> d \<le> i \<Longrightarrow> i \<le> 32 \<Longrightarrow> \<exists>l'. shift_groups i d l = Some (l', True) \<and> moving l0 gs d l'"
proof (induction i arbitrary: l)
  case (Suc i)
  show ?case
  proof (cases "d = Suc i")
    case False
    then have "i < 32" "d < Suc i" "d \<le> i" "i \<le> 32" using Suc.prems by simp_all
    with moving_step [OF assms Suc.prems(1)] Suc.IH show ?thesis by metis
  qed (use Suc.prems in simp)
qed simp

text \<open>When the table is full, the last group has no room.\<close>

lemma shift_groups_full:
  assumes ok: "rules_ok l gs" and full: "length (concat gs) = unat (max_rules l)"
  shows "goff gs i = length (concat gs) \<Longrightarrow> goff gs d < length (concat gs) \<Longrightarrow> i \<le> 32 \<Longrightarrow> shift_groups i d l = Some (l, False)"
proof (induction i)
  case (Suc i)
  then have i: "i < 32" by simp
  have d: "d \<le> i" using Suc.prems goff_mono [of "Suc i" d gs] by (metis not_less_eq_eq not_less)
  note D = rules_okD [OF ok i]
  let ?info = "rule_info l ! i"
  have s: "goff gs (Suc i) = goff gs i + length (gs ! i)" using goff_Suc D(5) .
  have u: "unat (first_rule ?info + used_rules ?info) = unat (first_rule ?info) + length (gs ! i)"
    using D(2,3,8) by (subst unat_plus_u32) (auto simp: info_ok_def)
  show ?case
  proof (cases "gs ! i = []")
    case True
    then have "unat (first_rule ?info + used_rules ?info) < unat (max_rules l)" using D(2) u by (simp add: info_ok_def)
    then have "first_rule ?info + used_rules ?info \<noteq> max_rules l" by auto
    then show ?thesis using Suc True s d D(1,2) by (simp add: nth_opt_def gt0_unat info_ok_def)
  next
    case False
    then have "unat (first_rule ?info + used_rules ?info) = unat (max_rules l)"
      using D(2) u s Suc.prems(1) full by (simp add: info_ok_def)
    then have "first_rule ?info + used_rules ?info = max_rules l" by (simp only: word_unat_eq_iff)
    then show ?thesis using d D(1) by (simp add: nth_opt_def)
  qed
next
  case 0
  then show ?case by (metis goff_0 not_less_zero)
qed

lemma group_before_ok:
  assumes ok: "rules_ok l gs"
  shows "n \<le> 32 \<Longrightarrow> \<exists>i. group_before (rule_info l) n = Some i \<and> unat i = goff gs n"
proof (induction n)
  case (Suc n)
  then have n: "n < 32" by simp
  note D = rules_okD [OF ok n]
  have s: "goff gs (Suc n) = goff gs n + length (gs ! n)" using goff_Suc D(5) .
  show ?case
  proof (cases "gs ! n = []")
    case True
    then show ?thesis using Suc s D(1,2) by (auto simp: nth_opt_def gt0_unat info_ok_def)
  next
    case False
    then have "unat (first_rule (rule_info l ! n) + used_rules (rule_info l ! n)) = goff gs (Suc n)"
      using D(2,3,8) s by (subst unat_plus_u32) (auto simp: info_ok_def)
    then show ?thesis using False D(1,2) by (auto simp: nth_opt_def gt0_unat info_ok_def)
  qed
qed simp

section \<open>Routes of changed groups\<close>

lemma routes_of_cong:
  assumes "length gs' = length gs" "wf_groups gs" "wf_groups gs'"
    and d: "0 < d" "d \<le> length gs" and same: "\<forall>i < length gs. i \<noteq> d - 1 \<longrightarrow> set (gs' ! i) = set (gs ! i)"
    and new: "rmap (gs' ! (d - 1)) = m"
  shows "routes_of gs' = (routes_of gs)(d := m)"
proof
  fix k
  have "routes_of gs' k = routes_of gs k" if "k \<noteq> d"
  proof (cases "0 < k \<and> k \<le> length gs")
    case True
    then have "k - 1 < length gs" "k - 1 \<noteq> d - 1" using that d by auto
    then have "rmap (gs' ! (k - 1)) = rmap (gs ! (k - 1))"
      using assms(1-3) same by (intro rmap_cong) (auto simp: wf_groups_def)
    then show ?thesis using assms(1) by (simp add: routes_of_def)
  qed (use assms(1) in \<open>auto simp: routes_of_def\<close>)
  then show "routes_of gs' k = ((routes_of gs)(d := m)) k" using d new assms(1) by (auto simp: routes_of_def)
qed

lemma rmap_snoc: "rule_ip r \<notin> rule_ip ` set g \<Longrightarrow> rmap (g @ [r]) = (rmap g)(rule_ip r \<mapsto> rule_next_hop r)"
  using rmap_None [of g "rule_ip r"]
  by (auto simp: rmap_def fun_eq_iff map_add_def split: option.splits)

lemma rmap_nth:
  assumes "distinct (map rule_ip g)"
  shows "rmap g y = Some h \<longleftrightarrow> (\<exists>j < length g. rule_ip (g ! j) = y \<and> rule_next_hop (g ! j) = h)"
  unfolding rmap_Some [OF assms] by (metis in_set_conv_nth)

lemma rmap_update:
  assumes d: "distinct (map rule_ip g)" and k: "k < length g"
  shows "rmap (g[k := (g ! k)\<lparr>rule_next_hop := nh\<rparr>]) = (rmap g)(rule_ip (g ! k) \<mapsto> nh)"
proof
  fix y
  let ?g = "g[k := (g ! k)\<lparr>rule_next_hop := nh\<rparr>]"
  have m: "map rule_ip ?g = map rule_ip g" using k by (intro nth_equalityI) (auto simp: nth_list_update)
  have inj: "i = j" if "i < length g" "j < length g" "rule_ip (g ! i) = rule_ip (g ! j)" for i j
    using d that nth_eq_iff_index_eq [of "map rule_ip g" i j] by simp
  have "rmap ?g y = Some h \<longleftrightarrow> ((rmap g)(rule_ip (g ! k) \<mapsto> nh)) y = Some h" for h
  proof (cases "y = rule_ip (g ! k)")
    case True
    have "rmap ?g y = Some h \<longleftrightarrow> (\<exists>j < length g. rule_ip (?g ! j) = y \<and> rule_next_hop (?g ! j) = h)"
      using rmap_nth [of ?g] d m by simp
    also have "\<dots> \<longleftrightarrow> h = nh" using True k inj by (auto simp: nth_list_update split: if_splits)
    finally show ?thesis using True by auto
  next
    case False
    have "rmap ?g y = Some h \<longleftrightarrow> (\<exists>j < length g. rule_ip (?g ! j) = y \<and> rule_next_hop (?g ! j) = h)"
      using rmap_nth [of ?g] d m by simp
    also have "\<dots> \<longleftrightarrow> (\<exists>j < length g. rule_ip (g ! j) = y \<and> rule_next_hop (g ! j) = h)"
      using False k by (auto simp: nth_list_update)
    also have "\<dots> \<longleftrightarrow> rmap g y = Some h" using rmap_nth [OF d] by simp
    finally show ?thesis using False by simp
  qed
  then show "rmap ?g y = ((rmap g)(rule_ip (g ! k) \<mapsto> nh)) y" by (metis option.exhaust)
qed

lemma set_swap_out:
  assumes "distinct g" "k < length g"
  shows "set (butlast (g[k := last g])) = set g - {g ! k}"
proof (cases g rule: rev_cases)
  case (snoc ys y)
  show ?thesis
  proof (cases "k = length ys")
    case True
    then show ?thesis using snoc assms by auto
  next
    case False
    then have "k < length ys" using snoc assms by simp
    then show ?thesis using snoc assms by (auto simp: list_update_append nth_append set_update_distinct)
  qed
qed (use assms in simp)

lemma rmap_swap_out:
  assumes d: "distinct (map rule_ip g)" and k: "k < length g"
  shows "rmap (butlast (g[k := last g])) = (rmap g)(rule_ip (g ! k) := None)"
    and "distinct (map rule_ip (butlast (g[k := last g])))"
proof -
  let ?g = "butlast (g[k := last g])"
  have g: "distinct g" "g \<noteq> []" using d k by (auto simp: distinct_map)
  have s: "set ?g = set g - {g ! k}" using set_swap_out [OF g(1) k] .
  have i: "inj_on rule_ip (set g)" using d by (simp add: distinct_map)
  have "card (set ?g) = length ?g" using s g k by (simp add: distinct_card)
  then have dg: "distinct ?g" by (rule card_distinct)
  show dd: "distinct (map rule_ip ?g)" using dg s i by (simp add: distinct_map inj_on_diff)
  show "rmap ?g = (rmap g)(rule_ip (g ! k) := None)"
  proof
    fix y
    have "rmap ?g y = Some h \<longleftrightarrow> ((rmap g)(rule_ip (g ! k) := None)) y = Some h" for h
    proof (cases "y = rule_ip (g ! k)")
      case True
      then have "\<not> (\<exists>r \<in> set ?g. rule_ip r = y)" using s inj_onD [OF i] nth_mem [OF k] by blast
      then show ?thesis using True rmap_Some [OF dd] by auto
    next
      case False
      then have "(\<exists>r \<in> set ?g. rule_ip r = y \<and> rule_next_hop r = h) \<longleftrightarrow> (\<exists>r \<in> set g. rule_ip r = y \<and> rule_next_hop r = h)"
        unfolding s by blast
      then show ?thesis using False rmap_Some [OF dd] rmap_Some [OF d] by simp
    qed
    then show "rmap ?g y = ((rmap g)(rule_ip (g ! k) := None)) y" by (metis option.exhaust)
  qed
qed

section \<open>Adding a rule\<close>

lemma concat_update: "i < length gs \<Longrightarrow> concat (gs[i := g]) = concat (take i gs) @ g @ concat (drop (Suc i) gs)"
  by (simp add: upd_conv_take_nth_drop)

text \<open>The result for the three cases: the same rule, another next hop, a new prefix.\<close>

definition add_result :: "routes \<Rightarrow> nat \<Rightarrow> u32 \<Rightarrow> u32 \<Rightarrow> bool \<Rightarrow> int \<Rightarrow> routes \<Rightarrow> bool" where
  "add_result R d x h full rc R' \<longleftrightarrow>
     (case R d x of
        Some h' \<Rightarrow> if h' = h then rc = LPM_EEXIST \<and> R' = R else 0 \<le> rc \<and> R' = route_add R d x h
      | None \<Rightarrow> if full then rc = LPM_ENOSPC \<and> R' = R else 0 \<le> rc \<and> R' = route_add R d x h)"

text \<open>The index of a rule is its place in the concatenation of the groups.\<close>

definition rule_at :: "rte_lpm_rule list list \<Rightarrow> nat \<Rightarrow> u32 \<Rightarrow> int \<Rightarrow> bool" where
  "rule_at gs d x rc \<longleftrightarrow> (\<exists>k < length (gs ! (d - 1)). rc = int (goff gs (d - 1) + k) \<and> rule_ip (gs ! (d - 1) ! k) = x)"

lemma rule_update_ok:
  fixes gs :: "rte_lpm_rule list list" and nh :: u32
  assumes ok: "rules_ok l gs" and wf: "wf_groups gs" and d: "0 < d" "d \<le> 32"
    and k: "k < length (gs ! (d - 1))" and j: "j = goff gs (d - 1) + k" and x: "rule_ip (gs ! (d - 1) ! k) = x"
  defines "gs' \<equiv> gs[d - 1 := (gs ! (d - 1))[k := (gs ! (d - 1) ! k)\<lparr>rule_next_hop := nh\<rparr>]]"
  shows "rules_ok (l\<lparr>rules_tbl := (rules_tbl l)[j := (gs ! (d - 1) ! k)\<lparr>rule_next_hop := nh\<rparr>]\<rparr>) gs'" "wf_groups gs'"
    "routes_of gs' = route_add (routes_of gs) d x nh" "length (concat gs') = length (concat gs)"
proof -
  have i: "d - 1 < 32" using d by simp
  note D = rules_okD [OF ok i]
  let ?g = "gs ! (d - 1)" and ?r = "(gs ! (d - 1) ! k)\<lparr>rule_next_hop := nh\<rparr>"
  obtain rest where rest: "rules_tbl l = concat gs @ rest" using ok by (auto simp: rules_ok_def)
  have dist: "distinct (map rule_ip ?g)" using wf D(5) by (simp add: wf_groups_def)
  have len: "map length gs' = map length gs" using k D(5) by (intro nth_equalityI) (auto simp: gs'_def nth_list_update)
  have off: "goff gs' m = goff gs m" for m
    unfolding goff_def length_concat take_map [symmetric] len ..
  have lgs: "length (gs' ! m) = length (gs ! m)" if "m < 32" for m using len that D(6) by (metis length_map nth_map)
  show "length (concat gs') = length (concat gs)" unfolding length_concat len ..
  have "concat gs' = (concat gs)[j := ?r]"
    unfolding gs'_def using D(5) k j
    by (simp add: concat_split [OF D(5)] concat_update goff_def list_update_append)
  then have T: "(rules_tbl l)[j := ?r] = concat gs' @ rest"
    using rest j k goff_group [OF D(5)] by (simp add: list_update_append)
  have "length (concat gs' @ rest) = unat (max_rules l)" unfolding T [symmetric] using D(7) by simp
  with T show "rules_ok (l\<lparr>rules_tbl := (rules_tbl l)[j := ?r]\<rparr>) gs'"
    using D(6-8) ok off lgs by (auto simp: rules_ok_def gs'_def)
  have m: "map rule_ip (?g[k := ?r]) = map rule_ip ?g" using k by (intro nth_equalityI) (auto simp: nth_list_update)
  have "pfx (d - 1 + 1) (rule_ip r) = rule_ip r" if "r \<in> set (?g[k := ?r])" for r
  proof -
    have "rule_ip r \<in> set (map rule_ip (?g[k := ?r]))" using that by simp
    then show ?thesis unfolding m using wf D(5) unfolding wf_groups_def by (auto simp del: Suc_pred)
  qed
  then show w: "wf_groups gs'"
    using wf dist m D(5) unfolding wf_groups_def gs'_def by (auto simp: nth_list_update simp del: Suc_pred)
  show "routes_of gs' = route_add (routes_of gs) d x nh"
    unfolding route_add_def
  proof (rule routes_of_cong [OF _ wf w])
    show "rmap (gs' ! (d - 1)) = (routes_of gs d)(x \<mapsto> nh)"
      using rmap_update [OF dist k] d D(5,6) x by (simp add: gs'_def routes_of_def)
  qed (use d D(6) in \<open>auto simp: gs'_def\<close>)
qed

lemma append_nth:
  fixes gs :: "'a list list" and a :: 'a
  assumes "length gs = n" "i < n"
  defines "gs' \<equiv> take i gs @ (gs ! i @ [a]) # map rot (drop (Suc i) gs)"
  shows "length gs' = n" "\<And>m. m < n \<Longrightarrow> gs' ! m = (if m < i then gs ! m else if m = i then gs ! i @ [a] else rot (gs ! m))"
    "\<And>m. m \<le> n \<Longrightarrow> goff gs' m = goff gs m + (if m \<le> i then 0 else 1)"
    "concat gs' = concat (take (Suc i) gs) @ a # concat (map rot (drop (Suc i) gs))"
proof -
  show l: "length gs' = n" using assms by simp
  show N: "gs' ! m = (if m < i then gs ! m else if m = i then gs ! i @ [a] else rot (gs ! m))" if "m < n" for m
  proof (cases "i < m")
    case True
    then have e: "m - i = Suc (m - Suc i)" "Suc (i + (m - Suc i)) = m" by simp_all
    have "gs' ! m = map rot (drop (Suc i) gs) ! (m - Suc i)" using assms that True e(1) by (simp add: nth_append)
    also have "\<dots> = rot (gs ! m)" using assms that True e(2) by simp
    finally show ?thesis using True by simp
  next
    case False
    then show ?thesis using assms that by (cases "m = i") (simp_all add: nth_append)
  qed
  show "goff gs' m = goff gs m + (if m \<le> i then 0 else 1)" if "m \<le> n" for m
    using that
  proof (induction m)
    case (Suc m)
    then have "m < length gs'" "m < length gs" "m < n" using l assms(1) by simp_all
    then show ?case using Suc N [of m] by (cases "m = i") (auto simp: goff_Suc)
  qed simp
  show "concat gs' = concat (take (Suc i) gs) @ a # concat (map rot (drop (Suc i) gs))"
    using assms by (simp add: take_Suc_conv_app_nth)
qed

lemma rule_append_ok:
  fixes gs :: "rte_lpm_rule list list" and x nh :: u32
  assumes ok: "rules_ok l1 gs" and wf: "wf_groups gs" and d: "0 < d" "d \<le> 32" and room: "length (concat gs) < unat (max_rules l1)"
    and mv: "moving l1 gs d l2" and first: "unat (first_rule (rule_info l1 ! (d - 1))) = goff gs (d - 1)"
    and x: "x \<notin> rule_ip ` set (gs ! (d - 1))" "pfx d x = x"
  defines "new \<equiv> \<lparr>rule_ip = x, rule_next_hop = nh\<rparr>"
  defines "gs' \<equiv> take (d - 1) gs @ (gs ! (d - 1) @ [new]) # map rot (drop d gs)"
  defines "info \<equiv> rule_info l2 ! (d - 1)"
  shows "rules_ok (l2\<lparr>rules_tbl := (rules_tbl l2)[goff gs d := new],
      rule_info := (rule_info l2)[d - 1 := info\<lparr>used_rules := used_rules info + 1\<rparr>]\<rparr>) gs'"
    "wf_groups gs'" "routes_of gs' = route_add (routes_of gs) d x nh" "rule_at gs' d x (int (goff gs d))"
    "goff gs d < unat (max_rules l1)" "d - 1 < length (rule_info l2)" "goff gs d < length (rules_tbl l2)"
proof -
  have i: "d - 1 < 32" using d by simp
  note D = rules_okD [OF ok i]
  obtain h rest where t: "rules_tbl l2 = concat (take d gs) @ h # concat (map rot (drop d gs)) @ rest"
    and st: "same_tables l1 l2" and len: "length (rule_info l2) = 32" "length (rules_tbl l2) = unat (max_rules l2)"
    and inf: "\<forall>j < 32. info_ok (unat (max_rules l2)) (goff gs j + (if j < d then 0 else 1)) (length (gs ! j)) (rule_info l2 ! j)"
    and old: "\<forall>j < d. rule_info l2 ! j = rule_info l1 ! j"
    using mv by (auto simp: moving_def)
  have mx: "max_rules l2 = max_rules l1" using same_tables_simps [OF st] by simp
  have sd: "Suc (d - 1) = d" using d by simp
  note A = append_nth [OF D(6) i, where a = new, unfolded sd, folded gs'_def]
  have gd: "goff gs d = goff gs (d - 1) + length (gs ! (d - 1))" using goff_Suc [OF D(5)] sd by simp
  show gm: "goff gs d < unat (max_rules l1)" using goff_le [of gs d] room by simp
  show "d - 1 < length (rule_info l2)" using i len by simp
  show "goff gs d < length (rules_tbl l2)" using gm len mx by simp
  have od: "goff gs d = length (concat (take d gs))" by (simp add: goff_def)
  have T: "(rules_tbl l2)[goff gs d := new] = concat gs' @ rest" using t A(4) by (simp add: od)
  have used: "unat (used_rules info + 1) = Suc (length (gs ! (d - 1)))" "unat (first_rule info) = goff gs (d - 1)"
  proof -
    have u: "unat (used_rules info) = length (gs ! (d - 1))" using inf i by (auto simp: info_def info_ok_def)
    then show "unat (used_rules info + 1) = Suc (length (gs ! (d - 1)))" using gm gd D(8) by (subst unat_plus_u32) auto
    show "unat (first_rule info) = goff gs (d - 1)" using first old d by (simp add: info_def)
  qed
  have I: "info_ok (unat (max_rules l2)) (goff gs' j) (length (gs' ! j))
      ((rule_info l2)[d - 1 := info\<lparr>used_rules := used_rules info + 1\<rparr>] ! j)" if "j < 32" for j
  proof (cases "j = d - 1")
    case True
    then show ?thesis using A(2) [of j] A(3) [of j] used gm gd mx len i by (simp add: info_ok_def)
  next
    case False
    then have "length (gs' ! j) = length (gs ! j)" "goff gs' j = goff gs j + (if j < d then 0 else 1)"
      using that A(2) [of j] A(3) [of j] by auto
    then show ?thesis using inf that False by simp
  qed
  show "rules_ok (l2\<lparr>rules_tbl := (rules_tbl l2)[goff gs d := new],
      rule_info := (rule_info l2)[d - 1 := info\<lparr>used_rules := used_rules info + 1\<rparr>]\<rparr>) gs'"
  proof -
    have "length (concat gs' @ rest) = unat (max_rules l2)" unfolding T [symmetric] using len(2) by simp
    then show ?thesis unfolding rules_ok_def using I A(1) len mx D(8) T by auto
  qed
  show w: "wf_groups gs'"
    unfolding wf_groups_def
  proof (intro allI impI)
    fix j assume "j < length gs'"
    then have j: "j < 32" using A(1) by simp
    then have wj: "distinct (map rule_ip (gs ! j))" "\<forall>r \<in> set (gs ! j). pfx (j + 1) (rule_ip r) = rule_ip r"
      using wf D(6) by (auto simp: wf_groups_def)
    have "gs' ! j = (if j < d - 1 then gs ! j else if j = d - 1 then gs ! (d - 1) @ [new] else rot (gs ! j))" using A(2) [OF j] .
    then show "distinct (map rule_ip (gs' ! j)) \<and> (\<forall>r \<in> set (gs' ! j). pfx (j + 1) (rule_ip r) = rule_ip r)"
      using wj x d by (auto simp: new_def)
  qed
  show "routes_of gs' = route_add (routes_of gs) d x nh"
    unfolding route_add_def
  proof (rule routes_of_cong [OF _ wf w])
    show "rmap (gs' ! (d - 1)) = (routes_of gs d)(x \<mapsto> nh)"
      using rmap_snoc [of new "gs ! (d - 1)"] x A(2) [OF i] d D(6) by (simp add: routes_of_def new_def)
  qed (use d D(6) A(1,2) in auto)
  show "rule_at gs' d x (int (goff gs d))"
    unfolding rule_at_def using A(2) [OF i] A(3) [of "d - 1"] gd i
    by (intro exI [of _ "length (gs ! (d - 1))"]) (auto simp: new_def)
qed

lemma moving_start:
  assumes "rules_ok l gs" "length (concat gs) < unat (max_rules l)"
  shows "moving l gs 32 l"
proof -
  obtain rest where rest: "rules_tbl l = concat gs @ rest" using assms(1) by (auto simp: rules_ok_def)
  have "length (rules_tbl l) = unat (max_rules l)" using assms(1) by (simp add: rules_ok_def)
  then have "rest \<noteq> []" using rest assms(2) by auto
  then show ?thesis using assms(1) rest by (cases rest) (auto simp: moving_def rules_ok_def)
qed

text \<open>\<open>rule_add\<close> from the place on.\<close>

definition insert_rule :: "rte_lpm \<Rightarrow> nat \<Rightarrow> u32 \<Rightarrow> u32 \<Rightarrow> u32 \<Rightarrow> (rte_lpm \<times> int) option" where
  "insert_rule l d i x nh = do {
     (l, room) \<leftarrow> shift_groups RTE_LPM_MAX_DEPTH d l;
     (if \<not> room then Some (l, LPM_ENOSPC)
      else do {
        t \<leftarrow> upd_opt (rules_tbl l) (unat i) \<lparr>rule_ip = x, rule_next_hop = nh\<rparr>;
        info \<leftarrow> nth_opt (rule_info l) (d - 1);
        Some (l\<lparr>rules_tbl := t, rule_info := (rule_info l)[d - 1 := info\<lparr>used_rules := used_rules info + 1\<rparr>]\<rparr>,
          sint i) }) }"

lemma rule_add_eq:
  "rule_add l x dd nh = do {
     (l, place) \<leftarrow> rule_place l x dd nh;
     (case place of Inl rc \<Rightarrow> Some (l, rc) | Inr i \<Rightarrow> insert_rule l (unat dd) i x nh) }"
  unfolding rule_add_def insert_rule_def by (rule refl)

lemma insert_rule_ok:
  assumes ok: "rules_ok l gs" and wf: "wf_groups gs" and d: "0 < d" "d \<le> 32"
    and i: "unat i = goff gs d" "goff gs d < unat (max_rules l)"
    and first: "unat (first_rule (rule_info l ! (d - 1))) = goff gs (d - 1)"
    and new: "routes_of gs d x = None" and x: "x \<notin> rule_ip ` set (gs ! (d - 1))" "pfx d x = x"
  shows "\<exists>l' rc gs'. insert_rule l d i x nh = Some (l', rc) \<and> rules_ok l' gs' \<and> wf_groups gs' \<and> same_tables l l' \<and>
    add_result (routes_of gs) d x nh (length (concat gs) = unat (max_rules l)) rc (routes_of gs') \<and> (0 \<le> rc \<longrightarrow> rule_at gs' d x rc)"
proof (cases "length (concat gs) = unat (max_rules l)")
  case True
  have "shift_groups 32 d l = Some (l, False)"
    using True i ok by (intro shift_groups_full [OF ok True]) (auto simp: goff_total rules_ok_def)
  then show ?thesis using True ok wf new by (auto simp: insert_rule_def add_result_def)
next
  case False
  have ii: "d - 1 < 32" using d by simp
  note D = rules_okD [OF ok ii]
  have room: "length (concat gs) < unat (max_rules l)" using False D(4) by simp
  obtain l2 where l2: "shift_groups 32 d l = Some (l2, True)" "moving l gs d l2"
    using shift_groups_room [OF D(6) room D(8) moving_start [OF ok room]] d by auto
  note A = rule_append_ok(1-4) [OF ok wf d room l2(2) first x, where nh = nh] rule_append_ok(5-7) [OF ok wf d room l2(2) first x]
  have s: "sint i = int (goff gs d)" using i D(8) by (subst sint_u32) simp_all
  have "same_tables l l2" using l2(2) by (simp add: moving_def)
  then show ?thesis using False A l2(1) s i(1)
    by (auto simp: insert_rule_def nth_opt_def upd_opt_def add_result_def new)
qed

lemma rule_add_ok:
  assumes ok: "rules_ok l gs" and wf: "wf_groups gs" and d: "0 < d" "d \<le> 32" and x: "pfx d x = x"
  shows "\<exists>l' rc gs'. rule_add l x (of_nat d) nh = Some (l', rc) \<and> rules_ok l' gs' \<and> wf_groups gs' \<and> same_tables l l' \<and>
    add_result (routes_of gs) d x nh (length (concat gs) = unat (max_rules l)) rc (routes_of gs') \<and>
    (0 \<le> rc \<longrightarrow> rule_at gs' d x rc \<or> routes_of gs d x \<noteq> None)"
proof -
  have i: "d - 1 < 32" using d by simp
  note D = rules_okD [OF ok i]
  have u: "unat (of_nat d :: u8) = d" using d by (simp add: unat_of_nat)
  let ?g = "gs ! (d - 1)" and ?info = "rule_info l ! (d - 1)" and ?R = "routes_of gs"
  have R: "?R d x = rmap ?g x" using d D(6) by (simp add: routes_of_def)
  have dist: "distinct (map rule_ip ?g)" using wf D(5) by (simp add: wf_groups_def)
  have gd: "goff gs d = goff gs (d - 1) + length ?g" using goff_Suc [OF D(5)] d by simp
  obtain rest where rest: "rules_tbl l = concat gs @ rest" using ok by (auto simp: rules_ok_def)
  show ?thesis
  proof (cases "?g = []")
    case True
    then have new: "?R d x = None" "x \<notin> rule_ip ` set ?g" using R by (simp_all add: rmap_def)
    obtain p where p: "group_before (rule_info l) (d - 1) = Some p" "unat p = goff gs d"
      using group_before_ok [OF ok, of "d - 1"] i gd True by auto
    have z: "\<not> 0 < used_rules ?info" using D(2) True by (simp add: info_ok_def gt0_unat)
    show ?thesis
    proof (cases "p = max_rules l")
      case full: True
      then have "rule_add l x (of_nat d) nh = Some (l, LPM_ENOSPC)"
        using z p D(1) by (simp add: rule_add_eq rule_place_def u nth_opt_def)
      moreover have "length (concat gs) = unat (max_rules l)" using full p goff_le [of gs d] D(4) by simp
      ultimately show ?thesis using ok wf new by (auto simp: add_result_def)
    next
      case False
      let ?l = "l\<lparr>rule_info := (rule_info l)[d - 1 := ?info\<lparr>first_rule := p\<rparr>]\<rparr>"
      have e: "rule_add l x (of_nat d) nh = insert_rule ?l d p x nh"
        using z p False D(1) by (simp add: rule_add_eq rule_place_def u nth_opt_def)
      have pm: "goff gs d < unat (max_rules l)"
        using False p goff_le [of gs d] D(4) by (metis le_less_trans nat_less_le unsigned_word_eqI)
      have "info_ok (unat (max_rules l)) (goff gs j) (length (gs ! j)) ((rule_info l)[d - 1 := ?info\<lparr>first_rule := p\<rparr>] ! j)" if "j < 32" for j
        using that rules_okD [OF ok that] D(1,2) True p(2) pm by (cases "j = d - 1") (auto simp: info_ok_def)
      then have "rules_ok ?l gs" using ok by (auto simp: rules_ok_def)
      moreover have "unat (first_rule (rule_info ?l ! (d - 1))) = goff gs (d - 1)" using D(1) p(2) gd True by simp
      moreover have "goff gs d < unat (max_rules ?l)" using pm by simp
      ultimately have "\<exists>l' rc gs'. insert_rule ?l d p x nh = Some (l', rc) \<and> rules_ok l' gs' \<and> wf_groups gs' \<and> same_tables ?l l' \<and>
          add_result ?R d x nh (length (concat gs) = unat (max_rules ?l)) rc (routes_of gs') \<and> (0 \<le> rc \<longrightarrow> rule_at gs' d x rc)"
        using insert_rule_ok wf d p(2) new x by blast
      then show ?thesis unfolding e by auto
    qed
  next
    case False
    have z: "0 < used_rules ?info" "unat (first_rule ?info) = goff gs (d - 1)"
      using D(2) False by (simp_all add: info_ok_def gt0_unat)
    have en: "unat (first_rule ?info + used_rules ?info) = goff gs d"
      using D(2,3,8) gd False by (subst unat_plus_u32) (auto simp: info_ok_def)
    from scan_group [OF ok i refl False, of x] show ?thesis
    proof (elim disjE conjE exE)
      assume s: "scan_rules (rules_tbl l) x (first_rule ?info) (first_rule ?info + used_rules ?info) = Some None"
        and nx: "x \<notin> rule_ip ` set ?g"
      then have new: "?R d x = None" using R rmap_None by metis
      show ?thesis
      proof (cases "first_rule ?info + used_rules ?info = max_rules l")
        case full: True
        then have "rule_add l x (of_nat d) nh = Some (l, LPM_ENOSPC)"
          using z s D(1) by (simp add: rule_add_eq rule_place_def u nth_opt_def Let_def)
        moreover have "length (concat gs) = unat (max_rules l)" using full en goff_le [of gs d] D(4) by simp
        ultimately show ?thesis using ok wf new by (auto simp: add_result_def)
      next
        case nfull: False
        then have e: "rule_add l x (of_nat d) nh = insert_rule l d (first_rule ?info + used_rules ?info) x nh"
          using z s D(1) by (simp add: rule_add_eq rule_place_def u nth_opt_def Let_def)
        have pm: "goff gs d < unat (max_rules l)"
          using nfull en goff_le [of gs d] D(4) by (metis le_less_trans nat_less_le unsigned_word_eqI)
        show ?thesis unfolding e using insert_rule_ok [OF ok wf d en pm z(2) new nx x, of nh] by blast
      qed
    next
      fix k j assume k: "k < length ?g" and s: "scan_rules (rules_tbl l) x (first_rule ?info) (first_rule ?info + used_rules ?info) = Some (Some j)"
        and j: "unat j = goff gs (d - 1) + k" and kx: "rule_ip (?g ! k) = x"
      have r: "rules_tbl l ! unat j = ?g ! k" "unat j < length (rules_tbl l)"
        using nth_group [OF D(5) k] rest j k D(3,7) by simp_all
      have Rx: "?R d x = Some (rule_next_hop (?g ! k))" using R rmap_nth [OF dist] k kx by metis
      have sj: "sint j = int (unat j)" using r(2) D(7,8) by (intro sint_u32) simp
      show ?thesis
      proof (cases "rule_next_hop (?g ! k) = nh")
        case True
        then have "rule_add l x (of_nat d) nh = Some (l, LPM_EEXIST)"
          using z s D(1) r by (simp add: rule_add_eq rule_place_def u nth_opt_def Let_def)
        then show ?thesis using ok wf Rx True by (auto simp: add_result_def)
      next
        case False
        then have e: "rule_add l x (of_nat d) nh = Some (l\<lparr>rules_tbl := (rules_tbl l)[unat j := (?g ! k)\<lparr>rule_next_hop := nh\<rparr>]\<rparr>, sint j)"
          using z s D(1) r by (simp add: rule_add_eq rule_place_def u nth_opt_def Let_def)
        from rule_update_ok [OF ok wf d k j kx, of nh] show ?thesis unfolding e using Rx False sj by (auto simp: add_result_def)
      qed
    qed
  qed
qed

end
