(* ===== verification/Lpm_Rules_Del.thy ===== *)
theory Lpm_Rules_Del
  imports Lpm_Rules_Upd
begin

text \<open>
  Deleting a rule: its place gets the last rule of its group, and every later group moves its last rule to the gap before it.
\<close>

section \<open>Closing the gap\<close>

text \<open>
  The table while the groups from \<open>d\<close> up to \<open>i\<close> have moved back by one: \<open>a\<close> is what comes before them, and the gap is before
  group \<open>i\<close>.
\<close>

definition closing :: "rte_lpm \<Rightarrow> rte_lpm_rule list list \<Rightarrow> rte_lpm_rule list \<Rightarrow> nat \<Rightarrow> nat \<Rightarrow> rte_lpm \<Rightarrow> bool" where
  "closing l0 gs a d i l \<longleftrightarrow> same_tables l0 l \<and> length (rule_info l) = 32 \<and> length (rules_tbl l) = unat (max_rules l) \<and>
     (\<exists>h rest. rules_tbl l = (a @ concat (map unrot (take (i - d) (drop d gs)))) @ h # concat (drop i gs) @ rest) \<and>
     length (a @ concat (map unrot (take (i - d) (drop d gs)))) + 1 = goff gs i \<and>
     (\<forall>j < 32. info_ok (unat (max_rules l)) (goff gs j - (if d \<le> j \<and> j < i then 1 else 0)) (length (gs ! j)) (rule_info l ! j))"

lemma closing_step:
  assumes gs: "length gs = 32" "length (concat gs) \<le> unat (max_rules l0)" "unat (max_rules l0) < 2 ^ 31"
    and c: "closing l0 gs a d i l" and i: "d \<le> i" "i < 32"
  shows "\<exists>l'. unshift_groups (Suc n) i l = unshift_groups n (Suc i) l' \<and> closing l0 gs a d (Suc i) l'"
proof -
  let ?info = "rule_info l ! i" and ?m = "unat (max_rules l)"
  let ?p = "a @ concat (map unrot (take (i - d) (drop d gs)))"
  obtain h rest where t: "rules_tbl l = ?p @ h # concat (drop i gs) @ rest"
    and st: "same_tables l0 l" and len: "length (rule_info l) = 32" "length (rules_tbl l) = ?m"
    and lp: "length ?p + 1 = goff gs i"
    and info: "\<forall>j < 32. info_ok ?m (goff gs j - (if d \<le> j \<and> j < i then 1 else 0)) (length (gs ! j)) (rule_info l ! j)"
    using c by (auto simp: closing_def)
  have mx: "max_rules l = max_rules l0" using same_tables_simps [OF st] by simp
  have I: "info_ok ?m (goff gs i) (length (gs ! i)) ?info" using info i(2) by force
  have di: "drop i gs = gs ! i # drop (Suc i) gs" using i gs(1) by (simp add: Cons_nth_drop_Suc)
  have tk: "take (Suc i - d) (drop d gs) = take (i - d) (drop d gs) @ [gs ! i]"
    using i gs(1) by (simp add: Suc_diff_le take_Suc_conv_app_nth)
  have gS: "goff gs (Suc i) = goff gs i + length (gs ! i)" using goff_Suc [of i gs] i gs(1) by simp
  have en: "goff gs i + length (gs ! i) \<le> ?m" using goff_group [of i gs] gs i(2) mx by simp
  show ?thesis
  proof (cases "gs ! i" rule: rev_cases)
    case Nil
    then have "unshift_groups (Suc n) i l = unshift_groups n (Suc i) l"
      using I i(2) len(1) by (simp add: info_ok_def gt0_unat nth_opt_def)
    moreover have "closing l0 gs a d (Suc i) l"
      unfolding closing_def
    proof (intro conjI)
      show "\<exists>h rest. rules_tbl l = (a @ concat (map unrot (take (Suc i - d) (drop d gs)))) @ h # concat (drop (Suc i) gs) @ rest"
        using t di tk Nil by auto
      show "length (a @ concat (map unrot (take (Suc i - d) (drop d gs)))) + 1 = goff gs (Suc i)"
        using lp tk Nil gS by simp
      show "\<forall>j < 32. info_ok ?m (goff gs j - (if d \<le> j \<and> j < Suc i then 1 else 0)) (length (gs ! j)) (rule_info l ! j)"
        using info Nil by (auto simp: info_ok_def less_Suc_eq)
    qed (use st len in auto)
    ultimately show ?thesis by blast
  next
    case (snoc ys y)
    then have f: "unat (first_rule ?info) = goff gs i" "unat (used_rules ?info) = Suc (length ys)"
      using I by (auto simp: info_ok_def)
    have s: "unat (first_rule ?info + used_rules ?info) = goff gs i + Suc (length ys)"
      using f en snoc gs(3) mx by (subst unat_plus_u32) auto
    have u: "unat (first_rule ?info + used_rules ?info - 1) = goff gs i + length ys" using s by (subst unat_minus1_u32) auto
    have g1: "0 < goff gs i" using lp by simp
    have u1: "unat (first_rule ?info - 1) = goff gs i - 1" using f(1) g1 by (subst unat_minus1_u32) auto
    have off: "goff gs i = Suc (length ?p)" using lp by simp
    have r: "rules_tbl l ! (goff gs i + length ys) = y"
      unfolding t off di snoc by (simp add: nth_append)
    have w: "(rules_tbl l)[goff gs i - 1 := y] =
        (a @ concat (map unrot (take (Suc i - d) (drop d gs)))) @ y # concat (drop (Suc i) gs) @ rest"
      unfolding t off di snoc tk by (simp add: list_update_append)
    have gm: "goff gs i - 1 < unat (max_rules l)" using en snoc by simp
    let ?l = "l\<lparr>rules_tbl := (rules_tbl l)[goff gs i - 1 := y],
      rule_info := (rule_info l)[i := ?info\<lparr>first_rule := first_rule ?info - 1\<rparr>]\<rparr>"
    have "unshift_groups (Suc n) i l = unshift_groups n (Suc i) ?l"
      using i len f r u u1 snoc en gm by (simp add: gt0_unat nth_opt_def upd_opt_def)
    moreover have "closing l0 gs a d (Suc i) ?l"
      unfolding closing_def
    proof (intro conjI)
      show "same_tables l0 ?l" using st by simp
      show "\<exists>h rest. rules_tbl ?l = (a @ concat (map unrot (take (Suc i - d) (drop d gs)))) @ h # concat (drop (Suc i) gs) @ rest"
        using w by auto
      show "length (a @ concat (map unrot (take (Suc i - d) (drop d gs)))) + 1 = goff gs (Suc i)"
        using lp gS snoc unfolding tk by simp
      show "\<forall>j < 32. info_ok (unat (max_rules ?l)) (goff gs j - (if d \<le> j \<and> j < Suc i then 1 else 0)) (length (gs ! j)) (rule_info ?l ! j)"
        using info len(1) u1 f snoc en i g1 by (auto simp: nth_list_update info_ok_def less_Suc_eq)
    qed (use len in auto)
    ultimately show ?thesis by blast
  qed
qed

lemma unshift_groups_ok:
  assumes "length gs = 32" "length (concat gs) \<le> unat (max_rules l0)" "unat (max_rules l0) < 2 ^ 31"
  shows "closing l0 gs a d i l \<Longrightarrow> d \<le> i \<Longrightarrow> i + n = 32 \<Longrightarrow> \<exists>l'. unshift_groups n i l = Some l' \<and> closing l0 gs a d 32 l'"
proof (induction n arbitrary: i l)
  case (Suc n)
  then have "i < 32" "d \<le> Suc i" "Suc i + n = 32" by simp_all
  with closing_step [OF assms Suc.prems(1,2)] Suc.IH show ?case by metis
qed simp

section \<open>The groups without the rule\<close>

lemma shrink_nth:
  fixes gs :: "'a list list" and g :: "'a list"
  assumes "length gs = n" "i < n" "length g + 1 = length (gs ! i)"
  defines "gs' \<equiv> take i gs @ g # map unrot (drop (Suc i) gs)"
  shows "length gs' = n" "\<And>m. m < n \<Longrightarrow> gs' ! m = (if m < i then gs ! m else if m = i then g else unrot (gs ! m))"
    "\<And>m. m \<le> n \<Longrightarrow> goff gs' m + (if m \<le> i then 0 else 1) = goff gs m"
proof -
  show l: "length gs' = n" using assms by simp
  show N: "gs' ! m = (if m < i then gs ! m else if m = i then g else unrot (gs ! m))" if "m < n" for m
  proof (cases "i < m")
    case True
    then have e: "m - i = Suc (m - Suc i)" "Suc (i + (m - Suc i)) = m" by simp_all
    have "gs' ! m = map unrot (drop (Suc i) gs) ! (m - Suc i)" using assms that True e(1) by (simp add: nth_append)
    also have "\<dots> = unrot (gs ! m)" using assms that True e(2) by simp
    finally show ?thesis using True by simp
  next
    case False
    then show ?thesis using assms that by (cases "m = i") (simp_all add: nth_append)
  qed
  show "goff gs' m + (if m \<le> i then 0 else 1) = goff gs m" if "m \<le> n" for m
    using that
  proof (induction m)
    case (Suc m)
    then have "m < length gs'" "m < length gs" "m < n" using l assms(1) by simp_all
    then show ?case using Suc N [of m] assms(3) by (cases "m = i") (auto simp: goff_Suc split: if_splits)
  qed simp
qed

lemma update_middle: "k < length b \<Longrightarrow> (a @ b @ c)[length a + k := x] = a @ b[k := x] @ c"
  by (simp add: list_update_append)

lemma rule_delete_ok:
  assumes ok: "rules_ok l gs" and wf: "wf_groups gs" and d: "0 < d" "d \<le> 32" and at: "rule_at gs d x idx"
  shows "\<exists>l' gs'. rule_delete l idx (of_nat d) = Some l' \<and> rules_ok l' gs' \<and> wf_groups gs' \<and> same_tables l l' \<and>
    routes_of gs' = route_del (routes_of gs) d x \<and> length (concat gs') + 1 = length (concat gs)"
proof -
  have i: "d - 1 < 32" using d by simp
  note D = rules_okD [OF ok i]
  have u: "unat (of_nat d :: u8) = d" using d by (simp add: unat_of_nat)
  let ?g = "gs ! (d - 1)" and ?info = "rule_info l ! (d - 1)"
  obtain k where k: "k < length ?g" "idx = int (goff gs (d - 1) + k)" "rule_ip (?g ! k) = x" using at by (auto simp: rule_at_def)
  obtain rest where rest: "rules_tbl l = concat gs @ rest" using ok by (auto simp: rules_ok_def)
  have sd: "Suc (d - 1) = d" using d by simp
  have gd: "goff gs d = goff gs (d - 1) + length ?g" using goff_Suc [OF D(5)] sd by simp
  have ne: "?g \<noteq> []" using k by auto
  have f: "unat (first_rule ?info) = goff gs (d - 1)" "unat (used_rules ?info) = length ?g"
    using D(2) ne by (auto simp: info_ok_def)
  have s: "unat (first_rule ?info + used_rules ?info) = goff gs d" using f gd D(3,8) by (subst unat_plus_u32) auto
  have li: "unat (first_rule ?info + used_rules ?info - 1) = goff gs (d - 1) + (length ?g - 1)"
    using s gd k(1) by (subst unat_minus1_u32) auto
  have last: "rules_tbl l ! (goff gs (d - 1) + (length ?g - 1)) = last ?g"
  proof -
    have lt: "length ?g - 1 < length ?g" using k(1) by simp
    show ?thesis unfolding rest nth_group [OF D(5) lt] using ne by (simp add: last_conv_nth)
  qed
  let ?t = "(rules_tbl l)[goff gs (d - 1) + k := last ?g]"
  let ?g' = "butlast (?g[k := last ?g])"
  let ?a = "concat (take (d - 1) gs) @ ?g'"
  have lst: "?g[k := last ?g] = ?g' @ [last ?g]"
    using ne k(1) append_butlast_last_id [of "?g[k := last ?g]"] by (cases ?g rule: rev_cases) (auto simp: list_update_append split: if_splits nat.splits)
  have off: "goff gs (d - 1) = length (concat (take (d - 1) gs))" by (simp add: goff_def)
  have T: "?t = ?a @ last ?g # concat (drop d gs) @ rest"
    unfolding rest concat_split [OF D(5)] off sd append_assoc update_middle [OF k(1)] by (subst lst) simp
  have lg: "length ?g' + 1 = length ?g" using k(1) by simp
  have la: "length ?a + 1 = goff gs d" unfolding gd off length_append using lg by linarith
  let ?l = "l\<lparr>rules_tbl := ?t\<rparr>"
  have "closing l gs ?a d d ?l"
    unfolding closing_def
  proof (intro conjI)
    show "length (rules_tbl ?l) = unat (max_rules ?l)" using D(7) by simp
    show "\<exists>h rest. rules_tbl ?l = (?a @ concat (map unrot (take (d - d) (drop d gs)))) @ h # concat (drop d gs) @ rest"
      using T by auto
    show "length (?a @ concat (map unrot (take (d - d) (drop d gs)))) + 1 = goff gs d" using la by simp
  qed (use ok in \<open>auto simp: rules_ok_def\<close>)
  then obtain l2 where l2: "unshift_groups (32 - d) d ?l = Some l2" "closing l gs ?a d 32 l2"
    using unshift_groups_ok [OF D(6) D(4) D(8), of ?a d d ?l "32 - d"] d by auto
  let ?info2 = "rule_info l2 ! (d - 1)"
  let ?l' = "l2\<lparr>rule_info := (rule_info l2)[d - 1 := ?info2\<lparr>used_rules := used_rules ?info2 - 1\<rparr>]\<rparr>"
  obtain h rest2 where t2: "rules_tbl l2 = (?a @ concat (map unrot (take (32 - d) (drop d gs)))) @ h # concat (drop 32 gs) @ rest2"
    and st: "same_tables l l2" and len: "length (rule_info l2) = 32" "length (rules_tbl l2) = unat (max_rules l2)"
    and inf: "\<forall>j < 32. info_ok (unat (max_rules l2)) (goff gs j - (if d \<le> j \<and> j < 32 then 1 else 0)) (length (gs ! j)) (rule_info l2 ! j)"
    using l2(2) unfolding closing_def by blast
  have mx: "max_rules l2 = max_rules l" using same_tables_simps [OF st] by simp
  define gs' where "gs' = take (d - 1) gs @ ?g' # map unrot (drop d gs)"
  note A = shrink_nth [OF D(6) i lg, unfolded sd, folded gs'_def]
  have T2: "rules_tbl l2 = concat gs' @ h # rest2" using t2 D(6) d by (simp add: gs'_def)
  have inf2: "unat (used_rules ?info2) = length ?g" "unat (first_rule ?info2) = goff gs (d - 1)" "unat (first_rule ?info2) < unat (max_rules l2)"
    using inf i d ne by (auto simp: info_ok_def split: if_splits)
  have u2: "unat (used_rules ?info2 - 1) = length ?g'" using inf2(1) lg ne by (subst unat_minus1_u32) auto
  have I: "info_ok (unat (max_rules l2)) (goff gs' j) (length (gs' ! j))
      ((rule_info l2)[d - 1 := ?info2\<lparr>used_rules := used_rules ?info2 - 1\<rparr>] ! j)" if "j < 32" for j
  proof (cases "j = d - 1")
    case True
    then show ?thesis using A(2) [of j] A(3) [of j] inf2 u2 len i by (simp add: info_ok_def)
  next
    case False
    then have "length (gs' ! j) = length (gs ! j)" "goff gs' j = goff gs j - (if d \<le> j \<and> j < 32 then 1 else 0)"
      using that A(2) [of j] A(3) [of j] by (auto split: if_splits)
    then show ?thesis using inf that False by simp
  qed
  have "length (concat gs' @ h # rest2) = unat (max_rules l2)" unfolding T2 [symmetric] using len(2) .
  then have ok': "rules_ok ?l' gs'" unfolding rules_ok_def using I A(1) len mx D(8) T2 by auto
  have dist: "distinct (map rule_ip ?g)" using wf D(5) by (simp add: wf_groups_def)
  have sub: "set ?g' \<subseteq> set ?g" using set_swap_out [of ?g k] dist k(1) by (auto simp: distinct_map)
  have wf': "wf_groups gs'"
    unfolding wf_groups_def
  proof (intro allI impI)
    fix j assume "j < length gs'"
    then have j: "j < 32" using A(1) by simp
    then have wj: "distinct (map rule_ip (gs ! j))" "\<forall>r \<in> set (gs ! j). pfx (j + 1) (rule_ip r) = rule_ip r"
      using wf D(6) by (auto simp: wf_groups_def)
    have "gs' ! j = (if j < d - 1 then gs ! j else if j = d - 1 then ?g' else unrot (gs ! j))" using A(2) [OF j] .
    then show "distinct (map rule_ip (gs' ! j)) \<and> (\<forall>r \<in> set (gs' ! j). pfx (j + 1) (rule_ip r) = rule_ip r)"
      using wj rmap_swap_out(2) [OF dist k(1)] sub by auto
  qed
  have R: "routes_of gs' = route_del (routes_of gs) d x"
    unfolding route_del_def
  proof (rule routes_of_cong [OF _ wf wf'])
    show "rmap (gs' ! (d - 1)) = (routes_of gs d)(x := None)"
      using rmap_swap_out(1) [OF dist k(1)] k(3) A(2) [OF i] d D(6) by (simp add: routes_of_def)
  qed (use d D(6) A(1,2) in auto)
  have L: "length (concat gs') + 1 = length (concat gs)"
    using A(3) [of 32] i A(1) D(6) by (simp add: goff_total)
  have "goff gs (d - 1) + (length ?g - 1) < unat (max_rules l)" using D(3) k(1) by linarith
  then have "rule_delete l idx (of_nat d) = Some ?l'"
    using D(1,3,7) k li last l2(1) len i ne by (simp add: rule_delete_def u nth_opt_def upd_opt_def nat_int_add)
  then show ?thesis using ok' wf' R L st by (intro exI [of _ ?l'] exI [of _ gs']) simp
qed

end
