(* ===== verification/Lpm_Match.thy ===== *)
theory Lpm_Match
  imports Lpm_Rules_Del
begin

text \<open>
  Prefixes as ranges of the two table indices, and how the longest match changes when a route is added or deleted.
\<close>

section \<open>Prefixes and indices\<close>

text \<open>The address of entry \<open>j\<close> of the group of entry \<open>i\<close>.\<close>

definition addr :: "nat \<Rightarrow> nat \<Rightarrow> u32" where "addr i j = of_nat (256 * i + j)"

lemma unat_addr: "i < 16777216 \<Longrightarrow> j < 256 \<Longrightarrow> unat (addr i j) = 256 * i + j"
  unfolding addr_def by (subst unat_of_nat) simp

lemma unat_u32: "unat (a :: u32) < 2 ^ 32"
proof -
  have "unat a < 2 ^ LENGTH(32)" by (rule unsigned_less)
  then show ?thesis by simp
qed

lemma unat_drop8: "unat (drop_bit 8 (x :: u32)) = unat x div 256"
  by (simp only: unat_drop_bit_eq) (simp add: drop_bit_eq_div)

lemma unat_and_ff: "unat (x AND 0xFF :: u32) = unat x mod 256"
proof -
  have "(0xFF :: u32) = mask 8" by (simp add: mask_eq_decr_exp)
  then have "x AND 0xFF = take_bit 8 x" by (simp only: take_bit_eq_mask)
  then show ?thesis by (simp only: unsigned_take_bit_eq) (simp add: take_bit_eq_mod)
qed

lemma addr_split: "addr (unat (drop_bit 8 ip)) (unat (ip AND 0xFF)) = ip"
  unfolding addr_def unat_drop8 unat_and_ff by simp

lemma index_bounds: "unat (drop_bit 8 (x :: u32)) < 16777216" "unat (x AND 0xFF :: u32) < 256"
proof -
  note unat_u32 [of x]
  then show "unat (drop_bit 8 x) < 16777216" unfolding unat_drop8 by (simp add: less_mult_imp_div_less)
  show "unat (x AND 0xFF) < 256" unfolding unat_and_ff by simp
qed

lemma depth_to_mask_eq:
  assumes "0 < d" "d \<le> 32"
  shows "depth_to_mask (of_nat d) = NOT (mask (32 - d))"
proof -
  have "\<forall>d \<in> set [1..<33]. depth_to_mask (of_nat d) = NOT (mask (32 - d))" by code_simp
  then show ?thesis using assms by auto
qed

lemma unat_pfx:
  assumes "0 < d" "d \<le> 32"
  shows "unat (pfx d a) = unat a div 2 ^ (32 - d) * 2 ^ (32 - d)"
proof -
  have "pfx d a = push_bit (32 - d) (drop_bit (32 - d) a)"
    unfolding pfx_def depth_to_mask_eq [OF assms] by (rule bit_word_eqI) (auto simp: bit_simps)
  moreover have "unat a div 2 ^ (32 - d) * 2 ^ (32 - d) < 2 ^ 32"
    using unat_u32 [of a] by (rule le_less_trans [OF div_times_less_eq_dividend])
  moreover have "unat (push_bit (32 - d) (drop_bit (32 - d) a)) = take_bit LENGTH(32) (push_bit (32 - d) (drop_bit (32 - d) (unat a)))"
    by (simp only: unsigned_push_bit_eq unat_drop_bit_eq)
  ultimately show ?thesis
    by (simp only: drop_bit_eq_div push_bit_eq_mult) (simp add: take_bit_nat_eq_self)
qed

lemma pfx_pfx: "pfx d (pfx d a) = pfx d a"
  by (simp add: pfx_def and.assoc)

lemma pfx_range:
  assumes "0 < d" "d \<le> 32" "pfx d x = x"
  shows "pfx d a = x \<longleftrightarrow> unat x \<le> unat a \<and> unat a < unat x + 2 ^ (32 - d)"
proof -
  let ?k = "2 ^ (32 - d) :: nat"
  have k: "0 < ?k" by simp
  have x: "unat x = unat x div ?k * ?k" using unat_pfx [OF assms(1,2), of x] assms(3) by simp
  have "pfx d a = x \<longleftrightarrow> unat a div ?k * ?k = unat x"
    using unat_pfx [OF assms(1,2), of a] by (metis unsigned_word_eqI)
  also have "\<dots> \<longleftrightarrow> unat x \<le> unat a \<and> unat a < unat x + ?k"
  proof
    assume "unat a div ?k * ?k = unat x"
    then show "unat x \<le> unat a \<and> unat a < unat x + ?k"
      using k by (metis add_less_cancel_left div_mult_mod_eq le_add1 mod_less_divisor)
  next
    assume r: "unat x \<le> unat a \<and> unat a < unat x + ?k"
    then have "unat x div ?k \<le> unat a div ?k" by (simp add: div_le_mono)
    moreover have "unat a div ?k < Suc (unat x div ?k)"
      using r x by (subst div_less_iff_less_mult [OF k]) simp
    ultimately have "unat a div ?k = unat x div ?k" by simp
    then show "unat a div ?k * ?k = unat x" using x by simp
  qed
  finally show ?thesis .
qed

lemma pfx_end:
  assumes "0 < d" "d \<le> 32" "pfx d x = x" "32 - d \<le> n" "n \<le> 32"
  shows "unat x mod 2 ^ n + 2 ^ (32 - d) \<le> 2 ^ n"
proof -
  define k m :: nat where "k = 2 ^ (32 - d)" and "m = 2 ^ (n - (32 - d))"
  have e: "(2 :: nat) ^ n = k * m" unfolding k_def m_def power_add [symmetric] using assms(4) by (simp only: le_add_diff_inverse)
  obtain q where x: "unat x = k * q" using unat_pfx [OF assms(1,2), of x] assms(3) by (metis mult.commute k_def)
  have r: "unat x mod (k * m) = k * (q mod m)" unfolding x by (rule mult_mod_right [symmetric])
  have "0 < m" by (simp add: m_def)
  then have "q mod m + 1 \<le> m" by (simp add: Suc_le_eq)
  then have "k * (q mod m + 1) \<le> k * m" by (rule mult_le_mono2)
  then show ?thesis unfolding e r k_def [symmetric] by simp
qed

lemma small_range:
  assumes d: "0 < d" "d \<le> 24" and x: "pfx d x = x" and ij: "i < 16777216" "j < 256"
  shows "pfx d (addr i j) = x \<longleftrightarrow> unat (drop_bit 8 x) \<le> i \<and> i < unat (drop_bit 8 x) + depth_to_range (of_nat d)"
    and "unat (drop_bit 8 x) + depth_to_range (of_nat d) \<le> 16777216"
proof -
  have d32: "d \<le> 32" using d by simp
  have r: "depth_to_range (of_nat d) = 2 ^ (24 - d)" using d by (simp add: depth_to_range_def unat_of_nat)
  have k: "(2 :: nat) ^ (32 - d) = 256 * 2 ^ (24 - d)"
  proof -
    have "32 - d = 8 + (24 - d)" using d by simp
    then have "(2 :: nat) ^ (32 - d) = 2 ^ 8 * 2 ^ (24 - d)" by (simp only: power_add)
    then show ?thesis by simp
  qed
  obtain q where q: "unat x = 256 * q"
    using unat_pfx [OF d(1) d32, of x] x unfolding k by (metis mult.commute mult.left_commute)
  have i0: "unat (drop_bit 8 x) = q" unfolding unat_drop8 q by simp
  show "pfx d (addr i j) = x \<longleftrightarrow> unat (drop_bit 8 x) \<le> i \<and> i < unat (drop_bit 8 x) + depth_to_range (of_nat d)"
    unfolding pfx_range [OF d(1) d32 x] unat_addr [OF ij] i0 r q k using ij(2) by (intro iffI conjI; linarith)
  have "unat x mod 2 ^ 32 + 2 ^ (32 - d) \<le> 2 ^ 32" by (rule pfx_end [OF d(1) d32 x]) simp_all
  then show "unat (drop_bit 8 x) + depth_to_range (of_nat d) \<le> 16777216"
    using unat_u32 [of x] unfolding i0 r k q by simp
qed

lemma big_range:
  assumes d: "24 < d" "d \<le> 32" and x: "pfx d x = x" and ij: "i < 16777216" "j < 256"
  shows "pfx d (addr i j) = x \<longleftrightarrow> i = unat (drop_bit 8 x) \<and> unat (x AND 0xFF) \<le> j \<and> j < unat (x AND 0xFF) + depth_to_range (of_nat d)"
    and "unat (x AND 0xFF) + depth_to_range (of_nat d) \<le> 256"
proof -
  have d0: "0 < d" using d by simp
  have r: "depth_to_range (of_nat d) = 2 ^ (32 - d)" using d by (simp add: depth_to_range_def unat_of_nat)
  let ?q = "unat x div 256" and ?s = "unat x mod 256"
  have e: "?s + 2 ^ (32 - d) \<le> 256" using pfx_end [OF d0 d(2) x, of 8] d by simp
  have X: "unat x = 256 * ?q + ?s" by simp
  show "unat (x AND 0xFF) + depth_to_range (of_nat d) \<le> 256" unfolding unat_and_ff r using e .
  show "pfx d (addr i j) = x \<longleftrightarrow> i = unat (drop_bit 8 x) \<and> unat (x AND 0xFF) \<le> j \<and> j < unat (x AND 0xFF) + depth_to_range (of_nat d)"
    unfolding pfx_range [OF d0 d(2) x] unat_addr [OF ij] unat_drop8 unat_and_ff r
  proof
    assume a: "unat x \<le> 256 * i + j \<and> 256 * i + j < unat x + 2 ^ (32 - d)"
    have "?q \<le> i" using a ij(2) X e by linarith
    moreover have "i \<le> ?q" using a X e by linarith
    ultimately have "i = ?q" by simp
    then show "i = ?q \<and> ?s \<le> j \<and> j < ?s + 2 ^ (32 - d)" using a X by linarith
  next
    assume "i = ?q \<and> ?s \<le> j \<and> j < ?s + 2 ^ (32 - d)"
    then show "unat x \<le> 256 * i + j \<and> 256 * i + j < unat x + 2 ^ (32 - d)" using X by linarith
  qed
qed

text \<open>Up to depth 24 all addresses of a group have the same prefixes.\<close>

lemma pfx_small_same:
  assumes "0 < d" "d \<le> 24" "i < 16777216" "j < 256" "j' < 256"
  shows "pfx d (addr i j) = pfx d (addr i j')"
  using small_range(1) [OF assms(1,2) pfx_pfx assms(3,4), of "addr i j'"] small_range(1) [OF assms(1,2) pfx_pfx assms(3,5), of "addr i j'"] by simp

section \<open>Changes of the longest match\<close>

definition madd :: "(nat \<times> u32) option \<Rightarrow> nat \<Rightarrow> u32 \<Rightarrow> (nat \<times> u32) option" where
  "madd m d h = (case m of Some (d', _) \<Rightarrow> if d < d' then m else Some (d, h) | None \<Rightarrow> Some (d, h))"

definition mdel :: "(nat \<times> u32) option \<Rightarrow> nat \<Rightarrow> (nat \<times> u32) option \<Rightarrow> (nat \<times> u32) option" where
  "mdel m d sub = (case m of Some (d', _) \<Rightarrow> if d' = d then sub else m | None \<Rightarrow> None)"

lemma best_depth: "best R n ip = Some (d, h) \<Longrightarrow> 0 < d \<and> d \<le> n"
  by (simp add: best_Some_iff)

lemma best_cong: "(\<And>k. 0 < k \<Longrightarrow> k \<le> n \<Longrightarrow> R' k (pfx k ip') = R k (pfx k ip)) \<Longrightarrow> best R' n ip' = best R n ip"
  by (induction n) (auto split: option.splits)

lemma route_at [simp]:
  "route_add R d x h d y = (if y = x then Some h else R d y)" "k \<noteq> d \<Longrightarrow> route_add R d x h k y = R k y"
  "route_del R d x d y = (if y = x then None else R d y)" "k \<noteq> d \<Longrightarrow> route_del R d x k y = R k y"
  by (simp_all add: route_add_def route_del_def)

lemma best_above: "n < d \<Longrightarrow> best (route_add R d x h) n ip = best R n ip" "n < d \<Longrightarrow> best (route_del R d x) n ip = best R n ip"
  by (rule best_cong; simp)+

lemma best_add:
  assumes "0 < d" "d \<le> n"
  shows "best (route_add R d x h) n ip = (if pfx d ip = x then madd (best R n ip) d h else best R n ip)"
  using assms(2)
proof (induction n)
  case (Suc n)
  show ?case
  proof (cases "d = Suc n")
    case True
    then show ?thesis
      by (auto simp: madd_def best_above split: option.splits dest: best_depth)
  next
    case False
    then show ?thesis using Suc by (auto simp: madd_def split: option.splits)
  qed
qed (use assms(1) in simp)

lemma best_del:
  assumes "0 < d" "d \<le> n"
  shows "best (route_del R d x) n ip = (if pfx d ip = x then mdel (best R n ip) d (best R (d - 1) ip) else best R n ip)"
  using assms(2)
proof (induction n)
  case (Suc n)
  show ?case
  proof (cases "d = Suc n")
    case True
    then show ?thesis
      by (auto simp: mdel_def best_above split: option.splits dest: best_depth)
  next
    case False
    then show ?thesis using Suc by (auto simp: mdel_def split: option.splits)
  qed
qed (use assms(1) in simp)

section \<open>Long prefixes\<close>

text \<open>Whether an entry of the first table has rules of more than 24 bits, and what an address matches.\<close>

definition big :: "routes \<Rightarrow> nat \<Rightarrow> bool" where
  "big R i \<longleftrightarrow> (\<exists>d x. 24 < d \<and> R d x \<noteq> None \<and> unat (drop_bit 8 x) = i)"

definition mt :: "routes \<Rightarrow> nat \<Rightarrow> nat \<Rightarrow> (nat \<times> u32) option" where "mt R i j = best R 32 (addr i j)"

definition wf_routes :: "routes \<Rightarrow> bool" where
  "wf_routes R \<longleftrightarrow> (\<forall>d x. R d x \<noteq> None \<longrightarrow> 0 < d \<and> d \<le> 32 \<and> pfx d x = x)"

lemma wf_routes_of: "wf_groups gs \<Longrightarrow> length gs = 32 \<Longrightarrow> wf_routes (routes_of gs)"
proof -
  assume wf: "wf_groups gs" and l: "length gs = 32"
  have "0 < d \<and> d \<le> 32 \<and> pfx d x = x" if r: "routes_of gs d x \<noteq> None" for d x
  proof -
    have d: "0 < d" "d \<le> 32" using r l by (auto simp: routes_of_def split: if_splits)
    then have "x \<in> rule_ip ` set (gs ! (d - 1))" using r l rmap_None by (auto simp: routes_of_def)
    then show ?thesis using wf d l unfolding wf_groups_def by (auto dest!: spec [of _ "d - 1"])
  qed
  then show ?thesis by (simp add: wf_routes_def)
qed

lemma big_addr:
  assumes "24 < d" "d \<le> 32" "R d (pfx d (addr i j)) \<noteq> None" "i < 16777216" "j < 256"
  shows "big R i"
proof -
  have "unat (drop_bit 8 (pfx d (addr i j))) = i"
    using big_range(1) [OF assms(1,2) pfx_pfx assms(4,5), of "addr i j"] by simp
  then show ?thesis using assms by (auto simp: big_def)
qed

lemma mt_deep: "mt R i j = Some (d, h) \<Longrightarrow> 24 < d \<Longrightarrow> i < 16777216 \<Longrightarrow> j < 256 \<Longrightarrow> big R i"
  by (rule big_addr [of d _ _ j]) (auto simp: mt_def best_Some_iff)

lemma big_deep:
  assumes wf: "wf_routes R" and b: "big R i"
  shows "\<exists>j < 256. \<exists>d h. mt R i j = Some (d, h) \<and> 24 < d"
proof -
  obtain d x where x: "24 < d" "R d x \<noteq> None" "unat (drop_bit 8 x) = i" using b by (auto simp: big_def)
  then have d: "d \<le> 32" "pfx d x = x" using wf by (auto simp: wf_routes_def)
  let ?j = "unat (x AND 0xFF)"
  have a: "addr i ?j = x" using addr_split [of x] x(3) by simp
  then have "mt R i ?j \<noteq> None" using x(1,2) d unfolding mt_def best_None_iff by (metis gr_zeroI less_nat_zero_code)
  then obtain k h where k: "mt R i ?j = Some (k, h)" by auto
  have "\<not> k < d" using k x d a by (auto simp: mt_def best_Some_iff)
  then show ?thesis using k x index_bounds(2) [of x] by (intro exI [of _ ?j]) auto
qed

lemma small_const:
  assumes "\<not> big R i" "i < 16777216" "j < 256" "j' < 256"
  shows "mt R i j = mt R i j'"
  unfolding mt_def
proof (rule best_cong)
  fix k :: nat
  assume k: "0 < k" "k \<le> 32"
  show "R k (pfx k (addr i j)) = R k (pfx k (addr i j'))"
  proof (cases "k \<le> 24")
    case True
    then show ?thesis using pfx_small_same [OF k(1) _ assms(2-4)] by simp
  next
    case False
    then show ?thesis using big_addr [of k R i j] big_addr [of k R i j'] assms k by (metis not_le)
  qed
qed

text \<open>A match of at most 24 bits covers the whole group.\<close>

lemma mt_cover:
  assumes "mt R i j = Some (d, h)" "d \<le> 24" "i < 16777216" "j < 256" "j' < 256"
  shows "\<exists>d' h'. mt R i j' = Some (d', h') \<and> d \<le> d'"
proof -
  have d: "0 < d" "R d (pfx d (addr i j)) = Some h" using assms(1) by (auto simp: mt_def best_Some_iff)
  then have r: "R d (pfx d (addr i j')) = Some h" using pfx_small_same [OF d(1) assms(2-5)] by simp
  then have "mt R i j' \<noteq> None" using d(1) assms(2) by (auto simp: mt_def best_None_iff)
  then obtain d' h' where m: "mt R i j' = Some (d', h')" by auto
  then have "\<not> d' < d" using r assms(2) by (auto simp: mt_def best_Some_iff)
  then show ?thesis using m by auto
qed

lemma route_dom:
  "route_add R d x h k y \<noteq> None \<longleftrightarrow> k = d \<and> y = x \<or> R k y \<noteq> None"
  "route_del R d x k y \<noteq> None \<longleftrightarrow> \<not> (k = d \<and> y = x) \<and> R k y \<noteq> None"
  by (auto simp: route_add_def route_del_def)

lemma big_add_small: "d \<le> 24 \<Longrightarrow> big (route_add R d x h) = big R"
  unfolding fun_eq_iff big_def route_dom by (metis not_le)

lemma big_del_small: "d \<le> 24 \<Longrightarrow> big (route_del R d x) = big R"
  unfolding fun_eq_iff big_def route_dom by (metis not_le)

lemma big_add_big: "24 < d \<Longrightarrow> big (route_add R d x h) = (big R)(unat (drop_bit 8 x) := True)"
  unfolding fun_eq_iff big_def route_dom by auto

lemma big_del_other: "i \<noteq> unat (drop_bit 8 x) \<Longrightarrow> big (route_del R d x) i = big R i"
  unfolding big_def route_dom by metis

lemma wf_route_add: "wf_routes R \<Longrightarrow> 0 < d \<Longrightarrow> d \<le> 32 \<Longrightarrow> pfx d x = x \<Longrightarrow> wf_routes (route_add R d x h)"
  by (auto simp: wf_routes_def route_add_def)

lemma wf_route_del: "wf_routes R \<Longrightarrow> wf_routes (route_del R d x)"
  by (auto simp: wf_routes_def route_del_def)

end
