(* ===== verification/Rcu_Props.thy ===== *)
theory Rcu_Props
  imports Rcu_Qsbr
begin

text \<open>The operations of the defer queue on a well-formed variable are defined, and what they keep.\<close>

definition qsbr_ok :: "rte_rcu_qsbr \<Rightarrow> bool" where
  "qsbr_ok v \<longleftrightarrow> length (qsbr_cnt v) = unat (max_threads v) \<and> (\<forall>i \<in> set (bmap_ids (thread_bmap v)). i < unat (max_threads v))"

section \<open>The bitmap\<close>

text \<open>Up to 0xFFFFFFC0 threads the bitmap has an element for every thread; beyond that the 32-bit sum wraps around.\<close>

lemma unat_align: "unat (n + 64 - 1 :: u32) = (if unat n + 63 < 2 ^ 32 then unat n + 63 else unat n + 63 - 2 ^ 32)"
proof -
  have "n + 64 - 1 = n + 63" by simp
  then show ?thesis by (simp add: unat_plus_if')
qed

lemma num_elems_nat:
  assumes "n \<le> 0xFFFFFFC0"
  shows "unat (num_elems n) = (unat n + 63) div 64"
proof -
  have "unat n \<le> 0xFFFFFFC0" using assms by (simp add: word_le_nat_alt)
  then have s: "unat (n + 64 - 1) = unat n + 63" unfolding unat_align by simp
  have "unat ((n + 64 - 1) div 64) = (unat n + 63) div 64" unfolding unat_div s by simp
  moreover from this have "unat ((n + 64 - 1) div 64 * 64) = (unat n + 63) div 64 * 64"
    using \<open>unat n \<le> 0xFFFFFFC0\<close> by (subst unat_mult_lem [THEN iffD1]) simp_all
  ultimately show ?thesis by (simp add: num_elems_def unat_div)
qed

lemma thr_elem_inside: "th < n \<Longrightarrow> n \<le> 0xFFFFFFC0 \<Longrightarrow> thr_elem th < unat (num_elems n)"
  unfolding thr_elem_def unat_drop_bit_eq by (simp add: num_elems_nat drop_bit_eq_div word_less_nat_alt)

lemma num_elems_wraps:
  assumes "0xFFFFFFC0 < n"
  shows "num_elems n = 0"
proof -
  have "unat n < 2 ^ LENGTH(32)" by (rule unsigned_less)
  then have "unat (n + 64 - 1) < 64" using assms unfolding unat_align by (simp add: word_less_nat_alt)
  then have "unat ((n + 64 - 1) div 64) = 0" unfolding unat_div by simp
  then show ?thesis by (simp add: num_elems_def unat_eq_zero)
qed

text \<open>So a variable for more threads has an empty bitmap, and no thread can register.\<close>

lemma init_too_many:
  "0xFFFFFFC0 < n \<Longrightarrow> rte_rcu_qsbr_init n = Some v \<Longrightarrow> th < n \<Longrightarrow> rte_rcu_qsbr_thread_register v th = None"
  by (auto simp: rte_rcu_qsbr_init_def rte_rcu_qsbr_thread_register_def num_elems_wraps nth_opt_def split: if_splits)

lemma register_defined:
  "rte_rcu_qsbr_init n = Some v \<Longrightarrow> th < n \<Longrightarrow> n \<le> 0xFFFFFFC0 \<Longrightarrow> \<exists>v'. rte_rcu_qsbr_thread_register v th = Some (v', 0) \<and> thr_elem th < length (thread_bmap v)"
  using thr_elem_inside [of th n]
  by (auto simp: rte_rcu_qsbr_init_def rte_rcu_qsbr_thread_register_def nth_opt_def split: if_splits)

section \<open>Checks\<close>

lemma check_ids_total: "\<forall>i \<in> set is. i < length cnts \<Longrightarrow> check_ids cnts t is a \<noteq> None"
  by (induction "is" arbitrary: a) (auto simp: nth_opt_def split: option.splits)

lemma check_end_ok: "qsbr_ok v \<Longrightarrow> qsbr_ok (fst (check_end v r))"
  by (simp add: check_end_def qsbr_ok_def split: option.splits)

lemma check_total:
  assumes "qsbr_ok v"
  shows "\<exists>v' ok. rte_rcu_qsbr_check v t = Some (v', ok) \<and> qsbr_ok v'"
proof -
  have "\<exists>r. check_ids (qsbr_cnt v) t [0..<unat (max_threads v)] QSBR_CNT_MAX = Some r"
    "\<exists>r. check_ids (qsbr_cnt v) t (bmap_ids (thread_bmap v)) QSBR_CNT_MAX = Some r"
    using check_ids_total [of _ "qsbr_cnt v" t] assms by (auto simp: qsbr_ok_def)
  then show ?thesis
    using assms check_end_ok [OF assms]
    unfolding rte_rcu_qsbr_check_def rte_rcu_qsbr_check_all_def rte_rcu_qsbr_check_selective_def
    by (auto simp: prod_eq_iff)
qed

lemma start_ok: "qsbr_ok v \<Longrightarrow> rte_rcu_qsbr_start v = (v', t) \<Longrightarrow> qsbr_ok v'"
  by (auto simp: rte_rcu_qsbr_start_def qsbr_ok_def Let_def)

section \<open>Deferred resources\<close>

text \<open>
  The contract of a structure that defers the freeing of its resources: \<open>inv\<close> relates the queue to the structure, and the
  function that frees the first resource of the queue keeps it.
\<close>

locale deferred =
  fixes free :: "u32 \<Rightarrow> 'p \<Rightarrow> 'p option" and inv :: "(u64 \<times> u32) list \<Rightarrow> 'p \<Rightarrow> bool"
  assumes frees: "inv ((t, e) # q) p \<Longrightarrow> \<exists>p'. free e p = Some p' \<and> inv q p'"
begin

lemma reclaim_loop_ok:
  "qsbr_ok v \<Longrightarrow> inv q p \<Longrightarrow> \<exists>v' q' p' k. reclaim_loop free v n q p = Some (v', q', p', k) \<and> qsbr_ok v' \<and> inv q' p'"
proof (induction n arbitrary: v q p)
  case (Suc n)
  show ?case
  proof (cases q)
    case Nil
    then show ?thesis using Suc.prems by simp
  next
    case (Cons a q1)
    obtain t e where a: "a = (t, e)" by (cases a)
    obtain v1 ok where c: "rte_rcu_qsbr_check v t = Some (v1, ok)" "qsbr_ok v1" using check_total Suc.prems(1) by blast
    show ?thesis
    proof (cases "ok = 1")
      case False
      then show ?thesis using Suc.prems c by (simp add: Cons a)
    next
      case True
      have "inv ((t, e) # q1) p" using Suc.prems(2) by (simp add: Cons a)
      then obtain p1 where p1: "free e p = Some p1" "inv q1 p1" using frees by blast
      then obtain v' q' p' k where "reclaim_loop free v1 n q1 p1 = Some (v', q', p', k)" "qsbr_ok v'" "inv q' p'"
        using Suc.IH [OF c(2)] by blast
      then show ?thesis using True c p1 by (simp add: Cons a)
    qed
  qed
qed simp

lemma dq_reclaim_ok:
  assumes "qsbr_ok v" "inv (dq_ring dq) p"
  shows "\<exists>v' q' p' rc. rte_rcu_qsbr_dq_reclaim free v dq n p = Some (v', dq\<lparr>dq_ring := q'\<rparr>, p', rc) \<and> qsbr_ok v' \<and> inv q' p'"
proof (cases "n = 0")
  case True
  then show ?thesis using assms by (intro exI [of _ v] exI [of _ "dq_ring dq"]) (simp add: rte_rcu_qsbr_dq_reclaim_def)
next
  case False
  then show ?thesis using reclaim_loop_ok [OF assms, of "unat n"] by (auto simp: rte_rcu_qsbr_dq_reclaim_def)
qed

text \<open>A resource that is enqueued is at the end of the queue, or the queue is full and it is not in it.\<close>

lemma dq_enqueue_ok:
  assumes "qsbr_ok v" "inv (dq_ring dq) p"
  shows "\<exists>v' t q' p'. qsbr_ok v' \<and> inv q' p' \<and>
    (rte_rcu_qsbr_dq_enqueue free v dq e p = Some (v', dq\<lparr>dq_ring := q' @ [(t, e)]\<rparr>, p', 0) \<or>
     rte_rcu_qsbr_dq_enqueue free v dq e p = Some (v', dq\<lparr>dq_ring := q'\<rparr>, p', 1))"
proof -
  obtain v1 t where v1: "rte_rcu_qsbr_start v = (v1, t)" by (cases "rte_rcu_qsbr_start v")
  then have ok: "qsbr_ok v1" using start_ok assms(1) by blast
  obtain v2 q2 p2 where r: "qsbr_ok v2" "inv q2 p2"
    "(if of_nat (length (dq_ring dq)) > trigger_reclaim_limit dq
      then map_option (\<lambda>(v, dq, p, _). (v, dq, p)) (rte_rcu_qsbr_dq_reclaim free v1 dq (max_reclaim_size dq) p)
      else Some (v1, dq, p)) = Some (v2, dq\<lparr>dq_ring := q2\<rparr>, p2)"
  proof (cases "of_nat (length (dq_ring dq)) > trigger_reclaim_limit dq")
    case True
    then show ?thesis using that dq_reclaim_ok [OF ok assms(2), of "max_reclaim_size dq"] by auto
  next
    case False
    then show ?thesis using that [of v1 "dq_ring dq" p] ok assms(2) by simp
  qed
  then show ?thesis unfolding rte_rcu_qsbr_dq_enqueue_def v1 Let_def prod.case r(3) bind.simps by auto
qed

end

end
