(* ===== verification/Rcu_Grace.thy ===== *)
theory Rcu_Grace
  imports Rcu_Props
begin

text \<open>
  The grace period of \<open>rte_rcu_qsbr.h\<close>: threads and writers act on the variable in any order, one call after the other, and
  a check of a token succeeds only after every reader that was online when the token was drawn has acted.
\<close>

section \<open>Actions\<close>

datatype qsbr_action = Register u32 | Unregister u32 | Online u32 | Offline u32 | Quiescent u32 | Start | Check u64

fun qsbr_act :: "qsbr_action \<Rightarrow> rte_rcu_qsbr \<Rightarrow> rte_rcu_qsbr option" where
  "qsbr_act (Register th) v = map_option fst (rte_rcu_qsbr_thread_register v th)"
| "qsbr_act (Unregister th) v = map_option fst (rte_rcu_qsbr_thread_unregister v th)"
| "qsbr_act (Online th) v = rte_rcu_qsbr_thread_online v th"
| "qsbr_act (Offline th) v = rte_rcu_qsbr_thread_offline v th"
| "qsbr_act (Quiescent th) v = rte_rcu_qsbr_quiescent v th"
| "qsbr_act Start v = Some (fst (rte_rcu_qsbr_start v))"
| "qsbr_act (Check t) v = map_option fst (rte_rcu_qsbr_check v t)"

fun qsbr_run :: "qsbr_action list \<Rightarrow> rte_rcu_qsbr \<Rightarrow> rte_rcu_qsbr option" where
  "qsbr_run [] v = Some v"
| "qsbr_run (a # as) v = do { v \<leftarrow> qsbr_act a v; qsbr_run as v }"

text \<open>A reader: registered in the bitmap and online.\<close>

definition registered :: "rte_rcu_qsbr \<Rightarrow> u32 \<Rightarrow> bool" where
  "registered v th \<longleftrightarrow> th < max_threads v \<and> thr_elem th < length (thread_bmap v) \<and> bit (thread_bmap v ! thr_elem th) (thr_bit th)"

definition online :: "rte_rcu_qsbr \<Rightarrow> u32 \<Rightarrow> bool" where
  "online v th \<longleftrightarrow> registered v th \<and> unat th < length (qsbr_cnt v) \<and> qsbr_cnt v ! unat th \<noteq> QSBR_CNT_THR_OFFLINE"

text \<open>The actions by which a thread reports that it holds no reference.\<close>

definition reports :: "u32 \<Rightarrow> qsbr_action \<Rightarrow> bool" where
  "reports th a \<longleftrightarrow> a \<in> {Unregister th, Online th, Offline th, Quiescent th}"

section \<open>Threads and bits\<close>

lemma thr_split: "thr_elem th = unat th div 64" "thr_bit th = unat th mod 64"
proof -
  show "thr_elem th = unat th div 64" unfolding thr_elem_def by (simp only: unat_drop_bit_eq) (simp add: drop_bit_eq_div)
  have "(0x3f :: u32) = mask 6" by (simp add: mask_eq_decr_exp)
  then have "th AND 0x3f = take_bit 6 th" by (simp only: take_bit_eq_mask)
  then show "thr_bit th = unat th mod 64" unfolding thr_bit_def by (simp only: unsigned_take_bit_eq) (simp add: take_bit_eq_mod)
qed

lemma unat_eq32: "unat a = unat (b :: u32) \<longleftrightarrow> a = b"
  by (auto intro: unsigned_word_eqI)

lemma thr_inj: "thr_elem a = thr_elem b \<Longrightarrow> thr_bit a = thr_bit b \<Longrightarrow> a = b"
  unfolding thr_split by (metis div_mult_mod_eq unsigned_word_eqI)

lemma bmap_ids_iff: "i \<in> set (bmap_ids bm) \<longleftrightarrow> i div 64 < length bm \<and> bit (bm ! (i div 64)) (i mod 64)"
proof
  assume "i \<in> set (bmap_ids bm)"
  then obtain e j where "e < length bm" "j < 64" "bit (bm ! e) j" "i = 64 * e + j" by (auto simp: bmap_ids_def)
  moreover from this have "i div 64 = e" "i mod 64 = j" by simp_all
  ultimately show "i div 64 < length bm \<and> bit (bm ! (i div 64)) (i mod 64)" by simp
next
  assume a: "i div 64 < length bm \<and> bit (bm ! (i div 64)) (i mod 64)"
  have "64 * (i div 64) + i mod 64 \<in> set (map (\<lambda>j. 64 * (i div 64) + j) (filter (bit (bm ! (i div 64))) [0..<64]))"
    unfolding set_map by (rule imageI) (use a in simp)
  then show "i \<in> set (bmap_ids bm)" using a unfolding bmap_ids_def set_concat by fastforce
qed

lemma registered_id: "registered v th \<Longrightarrow> unat th \<in> set (bmap_ids (thread_bmap v)) \<and> unat th \<in> set [0..<unat (max_threads v)]"
  by (simp add: registered_def bmap_ids_iff thr_split word_less_nat_alt)

section \<open>Checks\<close>

lemma check_ids_below:
  assumes "check_ids cnts t is a = Some (Some a')"
  shows "a' \<le> a \<and> (\<forall>i \<in> set is. cnts ! i \<noteq> 0 \<longrightarrow> t \<le> cnts ! i \<and> a' \<le> cnts ! i)"
  using assms
proof (induction "is" arbitrary: a)
  case (Cons i "is")
  from Cons.prems obtain c a1 where c: "nth_opt cnts i = Some c" "qsbr_turn t c a = Some a1" "check_ids cnts t is a1 = Some (Some a')"
    by (auto simp: bind_eq_Some_conv split: option.splits simp del: nth_opt_Some)
  then have "cnts ! i = c" by (auto simp: nth_opt_def split: if_splits)
  moreover have "a1 \<le> a" "c \<noteq> 0 \<longrightarrow> t \<le> c \<and> a1 \<le> c" using c(2) by (auto simp: qsbr_turn_def split: if_splits)
  ultimately show ?case using Cons.IH [OF c(3)] by auto
qed simp

text \<open>A check leaves the acknowledged token or lowers it to at most the counter of every reader.\<close>

lemma check_below:
  assumes c: "rte_rcu_qsbr_check v t = Some (v', ok)" and i: "online v th" "qsbr_cnt v ! unat th < t0" "acked_token v < t0"
  shows "online v' th \<and> qsbr_cnt v' ! unat th = qsbr_cnt v ! unat th \<and> acked_token v' < t0 \<and> (t0 \<le> t \<longrightarrow> ok = 0)"
proof -
  have r: "registered v th" "qsbr_cnt v ! unat th \<noteq> 0" using i(1) by (auto simp: online_def)
  let ?ids = "if num_threads v = max_threads v then [0..<unat (max_threads v)] else bmap_ids (thread_bmap v)"
  have ids: "unat th \<in> set ?ids" using registered_id [OF r(1)] by simp
  have eq: "rte_rcu_qsbr_check v t =
      (if t \<le> acked_token v then Some (v, 1) else map_option (check_end v) (check_ids (qsbr_cnt v) t ?ids QSBR_CNT_MAX))"
    by (simp add: rte_rcu_qsbr_check_def rte_rcu_qsbr_check_all_def rte_rcu_qsbr_check_selective_def)
  consider (old) "t \<le> acked_token v" "v' = v" "ok = 1"
    | (new) ids r where "unat th \<in> set ids" "check_ids (qsbr_cnt v) t ids QSBR_CNT_MAX = Some r" "check_end v r = (v', ok)"
  proof (cases "t \<le> acked_token v")
    case False
    then obtain r where "check_ids (qsbr_cnt v) t ?ids QSBR_CNT_MAX = Some r" "check_end v r = (v', ok)"
      using c unfolding eq if_not_P [OF False] map_option_eq_Some by blast
    then show ?thesis using new [OF ids] by blast
  next
    case True
    then have "v' = v \<and> ok = 1" using c unfolding eq by simp
    then show ?thesis using True old by blast
  qed
  then show ?thesis
  proof cases
    case old
    then show ?thesis using i by auto
  next
    case new
    then show ?thesis
      using i r check_ids_below [of "qsbr_cnt v" t ids QSBR_CNT_MAX]
      by (auto simp: check_end_def online_def registered_def split: option.splits if_splits)
  qed
qed

section \<open>A reader that does not report\<close>

lemma act_keeps:
  assumes a: "qsbr_act a v = Some v'" "\<not> reports th a" and i: "online v th" "qsbr_cnt v ! unat th < t0" "acked_token v < t0"
  shows "online v' th \<and> qsbr_cnt v' ! unat th = qsbr_cnt v ! unat th \<and> acked_token v' < t0"
proof (cases a)
  case (Register th')
  then show ?thesis using a(1) i
    by (auto simp: rte_rcu_qsbr_thread_register_def online_def registered_def nth_opt_def nth_list_update bit_or_iff split: if_splits)
next
  case (Unregister th')
  then have "thr_elem th' = thr_elem th \<Longrightarrow> thr_bit th' \<noteq> thr_bit th" using a(2) thr_inj by (auto simp: reports_def)
  moreover have "bit (e AND NOT (push_bit (thr_bit th') 1) :: u64) (thr_bit th) \<longleftrightarrow> bit e (thr_bit th)" if "thr_bit th' \<noteq> thr_bit th" for e
    using that thr_split(2) [of th] by (auto simp: bit_simps)
  ultimately show ?thesis using a(1) i Unregister
    by (auto simp: rte_rcu_qsbr_thread_unregister_def online_def registered_def nth_opt_def nth_list_update split: if_splits)
next
  case (Check t)
  then obtain ok where "rte_rcu_qsbr_check v t = Some (v', ok)" using a(1) by auto
  from check_below [OF this i] show ?thesis by simp
next
  case Start
  then show ?thesis using a(1) i by (auto simp: rte_rcu_qsbr_start_def Let_def online_def registered_def)
qed (use a i in \<open>auto simp: reports_def online_def registered_def rte_rcu_qsbr_thread_online_def rte_rcu_qsbr_thread_offline_def
  rte_rcu_qsbr_quiescent_def upd_opt_def nth_opt_def nth_list_update unat_eq32 split: if_splits\<close>)

lemma run_keeps:
  "qsbr_run as v = Some v' \<Longrightarrow> \<forall>a \<in> set as. \<not> reports th a \<Longrightarrow> online v th \<Longrightarrow> qsbr_cnt v ! unat th < t0 \<Longrightarrow> acked_token v < t0 \<Longrightarrow>
    online v' th \<and> qsbr_cnt v' ! unat th < t0 \<and> acked_token v' < t0"
proof (induction "as" arbitrary: v)
  case (Cons a "as")
  then obtain v1 where v1: "qsbr_act a v = Some v1" "qsbr_run as v1 = Some v'" by (auto simp: bind_eq_Some_conv)
  from act_keeps [OF v1(1) _ Cons.prems(3-5)] Cons.IH [OF v1(2)] Cons.prems show ?case by auto
qed simp

section \<open>Tokens\<close>

text \<open>No counter and no acknowledged token is ahead of the token.\<close>

definition qsbr_wf :: "rte_rcu_qsbr \<Rightarrow> bool" where
  "qsbr_wf v \<longleftrightarrow> acked_token v \<le> token v \<and> (\<forall>c \<in> set (qsbr_cnt v). c \<le> token v)"

lemma check_ids_mem: "check_ids cnts t is a = Some (Some a') \<Longrightarrow> a' = a \<or> a' \<in> set cnts"
proof (induction "is" arbitrary: a)
  case (Cons i "is")
  then obtain a1 where "qsbr_turn t (cnts ! i) a = Some a1" "i < length cnts" "check_ids cnts t is a1 = Some (Some a')"
    by (auto simp: bind_eq_Some_conv nth_opt_def split: option.splits if_splits)
  with Cons.IH [of a1] show ?case by (auto simp: qsbr_turn_def split: if_splits)
qed simp

lemma check_wf:
  assumes wf: "qsbr_wf v" and c: "rte_rcu_qsbr_check v t = Some (v', ok)"
  shows "qsbr_wf v' \<and> token v' = token v"
proof (cases "t \<le> acked_token v")
  case True
  then show ?thesis using c wf by (simp add: rte_rcu_qsbr_check_def)
next
  case False
  then obtain ids r where r: "check_ids (qsbr_cnt v) t ids QSBR_CNT_MAX = Some r" "check_end v r = (v', ok)"
    using c unfolding rte_rcu_qsbr_check_def rte_rcu_qsbr_check_all_def rte_rcu_qsbr_check_selective_def if_not_P [OF False]
    by (cases "num_threads v = max_threads v") auto
  have "a = QSBR_CNT_MAX \<or> a \<le> token v" if "r = Some a" for a
    using check_ids_mem [OF r(1) [unfolded that]] wf by (auto simp: qsbr_wf_def)
  then show ?thesis using r(2) wf by (cases r) (auto simp: check_end_def qsbr_wf_def split: if_splits)
qed

lemma start_wf: "qsbr_wf v \<Longrightarrow> token v \<noteq> - 1 \<Longrightarrow> rte_rcu_qsbr_start v = (v', t) \<Longrightarrow>
    qsbr_wf v' \<and> t = token v + 1 \<and> token v < t \<and> v' = v\<lparr>token := t\<rparr>"
proof -
  assume wf: "qsbr_wf v" and m: "token v \<noteq> - 1" and s: "rte_rcu_qsbr_start v = (v', t)"
  have "1 + token v \<noteq> 0" using m by (metis add.commute add_eq_0_iff)
  from unatSuc [OF this] have "token v < token v + 1" by (simp add: word_less_nat_alt add.commute)
  moreover from this have "c \<le> token v \<Longrightarrow> c \<le> token v + 1" for c by (meson le_less_trans less_imp_le)
  ultimately show ?thesis using wf s by (auto simp: rte_rcu_qsbr_start_def Let_def qsbr_wf_def)
qed

lemma act_other:
  assumes "qsbr_act a v = Some v'" "\<And>t. a \<noteq> Check t" "a \<noteq> Start"
  shows "token v' = token v \<and> acked_token v' = acked_token v \<and> set (qsbr_cnt v') \<subseteq> insert 0 (insert (token v) (set (qsbr_cnt v)))"
  using assms
  by (cases a) (auto simp: rte_rcu_qsbr_thread_register_def rte_rcu_qsbr_thread_unregister_def rte_rcu_qsbr_thread_online_def
    rte_rcu_qsbr_thread_offline_def rte_rcu_qsbr_quiescent_def upd_opt_def nth_opt_def split: if_splits
    dest: subsetD [OF set_update_subset_insert])

lemma act_wf:
  assumes "qsbr_act a v = Some v'" "qsbr_wf v" "unat (token v) < n" "n < 2 ^ 64"
  shows "qsbr_wf v' \<and> unat (token v') < n + 1"
proof (cases a)
  case (Check t)
  then obtain ok where "rte_rcu_qsbr_check v t = Some (v', ok)" using assms(1) by auto
  from check_wf [OF assms(2) this] show ?thesis using assms(3) by simp
next
  case Start
  have "unat (- 1 :: u64) = 2 ^ 64 - 1" by (simp add: unsigned_minus_1_eq_mask mask_eq_exp_minus_1)
  then have m: "token v \<noteq> - 1" using assms(3,4) by auto
  have "unat (token v + 1) = (unat (token v) + unat (1 :: u64)) mod 2 ^ LENGTH(64)" by (rule unat_word_ariths)
  then have "unat (token v + 1) \<le> unat (token v) + 1" by (metis mod_less_eq_dividend unat_1)
  moreover have v': "v' = v\<lparr>token := token v + 1\<rparr>" using assms(1) by (simp add: Start rte_rcu_qsbr_start_def Let_def)
  moreover have "rte_rcu_qsbr_start v = (v', token v + 1)" by (simp add: v' rte_rcu_qsbr_start_def Let_def)
  from start_wf [OF assms(2) m this] have "qsbr_wf v'" by (rule conjunct1)
  ultimately have "qsbr_wf v'" "unat (token v') \<le> unat (token v) + 1" by simp_all
  then show ?thesis using assms(3) by simp
qed (use act_other [OF assms(1)] assms(2,3) in \<open>auto simp: qsbr_wf_def\<close>)

lemma run_wf:
  "qsbr_run as v = Some v' \<Longrightarrow> qsbr_wf v \<Longrightarrow> unat (token v) < n \<Longrightarrow> n + length as < 2 ^ 64 \<Longrightarrow> qsbr_wf v' \<and> unat (token v') < n + length as"
proof (induction "as" arbitrary: v n)
  case (Cons a "as")
  then obtain v1 where v1: "qsbr_act a v = Some v1" "qsbr_run as v1 = Some v'" by (auto simp: bind_eq_Some_conv)
  have "qsbr_wf v1 \<and> unat (token v1) < n + 1" using act_wf [OF v1(1) Cons.prems(2,3)] Cons.prems(4) by simp
  then show ?case using Cons.IH [OF v1(2), of "n + 1"] Cons.prems(4) by simp
qed simp

section \<open>Well-formed variables\<close>

lemma bmap_bit:
  "k < length bm \<Longrightarrow> i \<in> set (bmap_ids (bm[k := e])) \<longleftrightarrow> (if i div 64 = k then bit e (i mod 64) else i \<in> set (bmap_ids bm))"
  by (auto simp: bmap_ids_iff nth_list_update)

lemma bmap_set:
  assumes "thr_elem th < length bm" "i \<in> set (bmap_ids (bm[thr_elem th := bm ! thr_elem th OR push_bit (thr_bit th) 1]))"
  shows "i = unat th \<or> i \<in> set (bmap_ids bm)"
proof (cases "i div 64 = thr_elem th")
  case True
  have "bit (push_bit k 1 :: u64) j \<Longrightarrow> j = k" for k j by (auto simp: bit_simps)
  then have "i mod 64 = thr_bit th \<or> bit (bm ! thr_elem th) (i mod 64)" using assms True by (auto simp: bmap_bit bit_or_iff)
  then show ?thesis using True assms(1) unfolding bmap_ids_iff thr_split by (metis div_mult_mod_eq)
qed (use assms in \<open>simp add: bmap_bit\<close>)

lemma bmap_clear:
  "k < length bm \<Longrightarrow> i \<in> set (bmap_ids (bm[k := bm ! k AND e])) \<Longrightarrow> i \<in> set (bmap_ids bm)"
  by (cases "i div 64 = k") (auto simp: bmap_bit bit_and_iff bmap_ids_iff)

lemma act_ok: "qsbr_act a v = Some v' \<Longrightarrow> qsbr_ok v \<Longrightarrow> qsbr_ok v'"
proof (cases a)
  case (Register th)
  assume r: "qsbr_act a v = Some v'" "qsbr_ok v"
  then show ?thesis using Register bmap_set [of th "thread_bmap v"]
    by (auto simp: rte_rcu_qsbr_thread_register_def qsbr_ok_def nth_opt_def not_le word_less_nat_alt simp del: push_bit_of_1 split: if_splits)
      fastforce
next
  case (Unregister th)
  assume r: "qsbr_act a v = Some v'" "qsbr_ok v"
  then show ?thesis using Unregister bmap_clear [of "thr_elem th" "thread_bmap v"]
    by (auto simp: rte_rcu_qsbr_thread_unregister_def qsbr_ok_def nth_opt_def split: if_splits)
next
  case (Check t)
  assume "qsbr_act a v = Some v'" "qsbr_ok v"
  then show ?thesis using Check check_total [of v t] by auto
qed (auto simp: qsbr_ok_def rte_rcu_qsbr_thread_online_def rte_rcu_qsbr_thread_offline_def rte_rcu_qsbr_quiescent_def
  rte_rcu_qsbr_start_def Let_def upd_opt_def nth_opt_def split: if_splits)

lemma run_ok: "qsbr_run as v = Some v' \<Longrightarrow> qsbr_ok v \<Longrightarrow> qsbr_ok v'"
  by (induction "as" arbitrary: v) (auto simp: bind_eq_Some_conv dest: act_ok)

section \<open>The grace period\<close>

lemma init_wf: "rte_rcu_qsbr_init n = Some v \<Longrightarrow> qsbr_wf v \<and> unat (token v) < 2"
  by (auto simp: rte_rcu_qsbr_init_def qsbr_wf_def split: if_splits)

text \<open>C5: The grace period of the quiescent state variable. From a variable made by \<open>rte_rcu_qsbr_init\<close>, after any calls, a
writer draws a token while thread \<open>th\<close> is registered and online. Whatever calls follow, by any threads and in any order, a
check of that token can return 1 only if \<open>th\<close> has reported a quiescent state, gone offline, come online again or
unregistered since. So what \<open>th\<close> could refer to when the token was drawn is not freed under it. The calls before are
fewer than the tokens of 64 bits. For more than 0xFFFFFFC0 threads the bitmap is empty (\<open>num_elems_wraps\<close>), no registration is
defined (\<open>init_too_many\<close>), and no thread is online in a defined run.\<close>

theorem rcu_grace_period:
  assumes init: "rte_rcu_qsbr_init n = Some v0" and before: "qsbr_run before v0 = Some v" "length before < 2 ^ 64 - 2"
    and start: "rte_rcu_qsbr_start v = (v1, t)" and th: "online v th"
    and after: "qsbr_run after v1 = Some v2" and check: "rte_rcu_qsbr_check v2 t = Some (v3, 1)"
  shows "\<exists>a \<in> set after. a \<in> {Unregister th, Online th, Offline th, Quiescent th}"
proof (rule ccontr)
  assume "\<not> ?thesis"
  then have no: "\<forall>a \<in> set after. \<not> reports th a" by (auto simp: reports_def)
  have wf: "qsbr_wf v" "unat (token v) < 2 + length before" using run_wf [OF before(1), of 2] init_wf [OF init] before(2) by auto
  have "unat (- 1 :: u64) = 2 ^ 64 - 1" by (simp add: unsigned_minus_1_eq_mask mask_eq_exp_minus_1)
  then have "token v \<noteq> - 1" using wf(2) before(2) by auto
  note S = start_wf [OF wf(1) this start]
  have "qsbr_cnt v ! unat th \<le> token v" using th wf(1) by (auto simp: online_def qsbr_wf_def)
  then have "qsbr_cnt v ! unat th < t" "acked_token v < t" using S wf(1) by (auto simp: qsbr_wf_def intro: le_less_trans)
  then have "online v1 th" "qsbr_cnt v1 ! unat th < t" "acked_token v1 < t" using S th by (auto simp: online_def registered_def)
  note K = run_keeps [OF after no this]
  from check_below [OF check, of th t] K show False by simp
qed

lemma rcu_grace_period_witness:
  "\<exists>v0 v v1 v2 v3 t. rte_rcu_qsbr_init 2 = Some v0 \<and> qsbr_run [Register 0, Online 0, Register 1, Online 1] v0 = Some v \<and>
     rte_rcu_qsbr_start v = (v1, t) \<and> qsbr_run [Quiescent 0, Check t, Quiescent 1] v1 = Some v2 \<and> rte_rcu_qsbr_check v2 t = Some (v3, 1) \<and>
     (\<exists>a \<in> set [Quiescent 0, Check t, Quiescent 1]. a \<in> {Unregister 1, Online 1, Offline 1, Quiescent 1})"
proof -
  define v where "v = (\<lambda>t c. \<lparr>token = t, acked_token = 0, num_threads = 2, max_threads = 2, qsbr_cnt = c, thread_bmap = [3]\<rparr> :: rte_rcu_qsbr)"
  let ?i = "\<lparr>token = 1, acked_token = 0, num_threads = 0, max_threads = 2, qsbr_cnt = [0, 0], thread_bmap = [0]\<rparr> :: rte_rcu_qsbr"
  have c: "rte_rcu_qsbr_init 2 = Some ?i" by code_simp
  have 1: "qsbr_run [Register 0, Online 0, Register 1, Online 1] ?i = Some (v 1 [1, 1])" unfolding v_def by code_simp
  have 2: "rte_rcu_qsbr_start (v 1 [1, 1]) = (v 2 [1, 1], 2)" unfolding v_def by code_simp
  have 3: "online (v 1 [1, 1]) 1" unfolding v_def by code_simp
  have 4: "qsbr_run [Quiescent 0, Check 2, Quiescent 1] (v 2 [1, 1]) = Some (v 2 [2, 2])" unfolding v_def by code_simp
  have 5: "rte_rcu_qsbr_check (v 2 [2, 2]) 2 = Some ((v 2 [2, 2])\<lparr>acked_token := 2\<rparr>, 1)" unfolding v_def by code_simp
  have "length [Register 0, Online 0, Register 1, Online 1] < 2 ^ 64 - 2" by simp
  from rcu_grace_period [OF c 1 this 2 3 4 5] c 1 2 4 5 show ?thesis by blast
qed

end
