(* ===== verification/Rcu_Defer.thy ===== *)
theory Rcu_Defer
  imports Rcu_Grace
begin

text \<open>What the defer queue does while a thread reads: nothing that was put into it since then is freed.\<close>

text \<open>A thread that has been reading since before token \<open>t0\<close> was drawn.\<close>

definition reader :: "rte_rcu_qsbr \<Rightarrow> u32 \<Rightarrow> u64 \<Rightarrow> bool" where
  "reader v th t0 \<longleftrightarrow> online v th \<and> qsbr_cnt v ! unat th < t0 \<and> acked_token v < t0"

lemma reader_token [simp]: "reader (v\<lparr>token := t\<rparr>) th t0 = reader v th t0"
  by (simp add: reader_def online_def registered_def)

lemma check_token: "rte_rcu_qsbr_check v t = Some (v', ok) \<Longrightarrow> token v' = token v"
  by (auto simp: rte_rcu_qsbr_check_def rte_rcu_qsbr_check_all_def rte_rcu_qsbr_check_selective_def check_end_def
    split: if_splits option.splits)

lemma check_reader:
  "rte_rcu_qsbr_check v t = Some (v', ok) \<Longrightarrow> reader v th t0 \<Longrightarrow> reader v' th t0 \<and> (t0 \<le> t \<longrightarrow> ok = 0)"
  using check_below [of v t v' ok th t0] by (simp add: reader_def)

lemma reader_start: "token v \<noteq> - 1 \<Longrightarrow> qsbr_wf v \<Longrightarrow> online v th \<Longrightarrow> reader v th (token v + 1)"
proof -
  assume m: "token v \<noteq> - 1" and wf: "qsbr_wf v" and th: "online v th"
  have "token v < token v + 1" using start_wf [OF wf m, of "fst (rte_rcu_qsbr_start v)" "snd (rte_rcu_qsbr_start v)"]
    by (auto simp: rte_rcu_qsbr_start_def Let_def)
  moreover have "qsbr_cnt v ! unat th \<le> token v" using th wf by (auto simp: online_def qsbr_wf_def)
  ultimately show ?thesis using th wf by (auto simp: reader_def qsbr_wf_def intro: le_less_trans)
qed

section \<open>Steps of the queue\<close>

text \<open>Only elements of before \<open>t0\<close> go, new ones have the token that was drawn for them.\<close>

definition queue_step :: "rte_rcu_qsbr \<Rightarrow> (u64 \<times> u32) list \<Rightarrow> rte_rcu_qsbr \<Rightarrow> (u64 \<times> u32) list \<Rightarrow> bool" where
  "queue_step v q v' q' \<longleftrightarrow>
     (\<forall>th t0. reader v th t0 \<longrightarrow> reader v' th t0 \<and> (\<forall>e \<in> set q. t0 \<le> fst e \<longrightarrow> e \<in> set q')) \<and>
     (token v' = token v \<and> set q' \<subseteq> set q \<or> token v' = token v + 1 \<and> (\<forall>e \<in> set q' - set q. fst e = token v + 1))"

lemma queue_step_refl [simp]: "queue_step v q v q"
  by (simp add: queue_step_def)

lemma reclaim_loop_step:
  "reclaim_loop free v n q p = Some (v', q', p', k) \<Longrightarrow> token v' = token v \<and> set q' \<subseteq> set q \<and>
    (reader v th t0 \<longrightarrow> reader v' th t0 \<and> (\<forall>e \<in> set q. t0 \<le> fst e \<longrightarrow> e \<in> set q'))"
proof (induction free v n q p arbitrary: v' q' p' k rule: reclaim_loop.induct)
  case (3 free v n t e q p)
  then obtain v1 ok where c: "rte_rcu_qsbr_check v t = Some (v1, ok)" by (auto simp: bind_eq_Some_conv)
  note C = check_token [OF c] check_reader [OF c, of th t0]
  show ?case
  proof (cases "ok = 1")
    case True
    then obtain p1 k1 where p1: "free e p = Some p1" "reclaim_loop free v1 n q p1 = Some (v', q', p', k1)"
      using 3(2) c by (auto simp: bind_eq_Some_conv)
    have "reader v th t0 \<Longrightarrow> \<not> t0 \<le> t" using C(2) True by auto
    then show ?thesis using 3(1) [OF c refl _ p1] C True by (auto simp: not_le)
  next
    case False
    then show ?thesis using 3(2) c C by auto
  qed
qed auto

lemma dq_reclaim_step:
  "rte_rcu_qsbr_dq_reclaim free v dq n p = Some (v', dq', p', rc) \<Longrightarrow> token v' = token v \<and> set (dq_ring dq') \<subseteq> set (dq_ring dq) \<and>
    (reader v th t0 \<longrightarrow> reader v' th t0 \<and> (\<forall>e \<in> set (dq_ring dq). t0 \<le> fst e \<longrightarrow> e \<in> set (dq_ring dq')))"
  using reclaim_loop_step [of free v "unat n" "dq_ring dq" p v' _ p' _ th t0]
  by (auto simp: rte_rcu_qsbr_dq_reclaim_def bind_eq_Some_conv split: if_splits)

lemma dq_reclaim_queue_step: "rte_rcu_qsbr_dq_reclaim free v dq n p = Some (v', dq', p', rc) \<Longrightarrow> queue_step v (dq_ring dq) v' (dq_ring dq')"
  using dq_reclaim_step [of free v dq n p v' dq' p' rc] by (simp add: queue_step_def)

lemma dq_enqueue_queue_step:
  assumes "rte_rcu_qsbr_dq_enqueue free v dq e p = Some (v', dq', p', rc)"
  shows "queue_step v (dq_ring dq) v' (dq_ring dq')"
proof -
  let ?v = "v\<lparr>token := token v + 1\<rparr>" and ?big = "trigger_reclaim_limit dq < of_nat (length (dq_ring dq))"
  show ?thesis
  proof (cases ?big)
    case True
    then obtain v1 dq1 p1 x where r: "rte_rcu_qsbr_dq_reclaim free ?v dq (max_reclaim_size dq) p = Some (v1, dq1, p1, x)" "v' = v1"
      "dq_ring dq' = dq_ring dq1 \<or> dq_ring dq' = dq_ring dq1 @ [(token v + 1, e)]"
      using assms by (auto simp: rte_rcu_qsbr_dq_enqueue_def rte_rcu_qsbr_start_def Let_def bind_eq_Some_conv split: if_splits)
    have "reader v th t0 \<longrightarrow> reader v1 th t0 \<and> (\<forall>e \<in> set (dq_ring dq). t0 \<le> fst e \<longrightarrow> e \<in> set (dq_ring dq1))" for th t0
      using dq_reclaim_step [OF r(1), of th t0] by simp
    moreover have "token v1 = token v + 1" "set (dq_ring dq1) \<subseteq> set (dq_ring dq)" using dq_reclaim_step [OF r(1)] by simp_all
    ultimately show ?thesis using r(2,3) unfolding queue_step_def by auto
  next
    case False
    then have "v' = ?v" "dq_ring dq' = dq_ring dq \<or> dq_ring dq' = dq_ring dq @ [(token v + 1, e)]"
      using assms by (auto simp: rte_rcu_qsbr_dq_enqueue_def rte_rcu_qsbr_start_def Let_def split: if_splits)
    then show ?thesis unfolding queue_step_def by auto
  qed
qed

end
