(* ===== verification/Lpm_Tables.thy ===== *)
theory Lpm_Tables
  imports Lpm_Match Rcu_Defer
begin

text \<open>
  The invariant of the two tables of \<open>rte_lpm.c\<close> against the longest match, and the few ways in which the operations change
  them: an entry of the first table, the entries of a group, a group that is taken, let go or freed.
\<close>

section \<open>The invariant\<close>

text \<open>An entry holds the match of its addresses. The bit-field keeps 24 bits of the next hop.\<close>

definition ent_ok :: "rte_lpm_tbl_entry \<Rightarrow> (nat \<times> u32) option \<Rightarrow> bool" where
  "ent_ok e m \<longleftrightarrow> (case m of None \<Rightarrow> \<not> valid e | Some (d, h) \<Rightarrow> valid e \<and> unat (depth e) = d \<and> next_hop e = ucast h)"

definition grp :: "rte_lpm \<Rightarrow> nat \<Rightarrow> nat" where "grp l i = unat (next_hop (tbl24 l i))"

definition slot_ok :: "bool \<Rightarrow> (nat \<Rightarrow> (nat \<times> u32) option) \<Rightarrow> rte_lpm \<Rightarrow> nat \<Rightarrow> bool" where
  "slot_ok b f l i \<longleftrightarrow>
     (if b then valid (tbl24 l i) \<and> valid_group (tbl24 l i) \<and> grp l i < unat (number_tbl8s l) \<and>
        valid_group (tbl8 l (256 * grp l i)) \<and> (\<forall>j < 256. ent_ok (tbl8 l (256 * grp l i + j)) (f j))
      else (valid (tbl24 l i) \<longrightarrow> \<not> valid_group (tbl24 l i)) \<and> (\<forall>j < 256. ent_ok (tbl24 l i) (f j)))"

text \<open>
  What a reader that is between two loads relies on: \<open>link_ok\<close> restricts the group that an entry of the first table may have,
  and \<open>kept\<close> the entries of a group that waits to be freed. The operations keep whatever is put there.
\<close>

record watch =
  link_ok :: "nat \<Rightarrow> nat \<Rightarrow> bool"
  kept :: "u32 \<Rightarrow> rte_lpm_tbl_entry list \<Rightarrow> bool"

definition no_watch :: watch where "no_watch = \<lparr>link_ok = (\<lambda>_ _. True), kept = (\<lambda>_ _. True)\<rparr>"

definition group_of :: "(nat \<Rightarrow> rte_lpm_tbl_entry) \<Rightarrow> nat \<Rightarrow> rte_lpm_tbl_entry list" where
  "group_of t g = map (\<lambda>j. t (256 * g + j)) [0..<256]"

text \<open>
  \<open>b i\<close> says whether entry \<open>i\<close> has a group and \<open>f i j\<close> is the match of the address. No two entries share a group, and a
  group in \<open>q\<close>, which waits in the defer queue or was lost, is taken but no entry has it.
\<close>

definition waits :: "watch \<Rightarrow> (nat \<Rightarrow> bool) \<Rightarrow> rte_lpm \<Rightarrow> u32 \<Rightarrow> bool" where
  "waits w b l s \<longleftrightarrow> (\<exists>g < unat (number_tbl8s l). unat s = 256 * g \<and> valid_group (tbl8 l (256 * g)) \<and> kept w s (group_of (tbl8 l) g) \<and>
     (\<forall>i < TBL24_ENTRIES. b i \<longrightarrow> grp l i \<noteq> g))"

definition tables :: "watch \<Rightarrow> (nat \<Rightarrow> bool) \<Rightarrow> (nat \<Rightarrow> nat \<Rightarrow> (nat \<times> u32) option) \<Rightarrow> u32 list \<Rightarrow> rte_lpm \<Rightarrow> bool" where
  "tables w b f q l \<longleftrightarrow>
     (\<forall>i < TBL24_ENTRIES. slot_ok (b i) (f i) l i \<and> (b i \<longrightarrow> link_ok w i (grp l i))) \<and>
     (\<forall>i < TBL24_ENTRIES. \<forall>i' < TBL24_ENTRIES. b i \<longrightarrow> b i' \<longrightarrow> grp l i = grp l i' \<longrightarrow> i = i') \<and>
     256 * unat (number_tbl8s l) \<le> tbl8_size l \<and> unat (number_tbl8s l) \<le> 2 ^ 22 \<and>
     distinct q \<and> (\<forall>s \<in> set q. waits w b l s)"

text \<open>The defer queue and its groups.\<close>

definition queue :: "rte_lpm \<Rightarrow> (u64 \<times> u32) list" where
  "queue l = (case lpm_dq l of None \<Rightarrow> [] | Some dq \<Rightarrow> dq_ring dq)"

definition pending :: "rte_lpm \<Rightarrow> u32 list" where "pending l = map snd (queue l)"

definition rcu_ok :: "rte_lpm \<Rightarrow> bool" where
  "rcu_ok l \<longleftrightarrow> (lpm_dq l \<noteq> None \<longrightarrow> lpm_v l \<noteq> None) \<and> (\<forall>v. lpm_v l = Some v \<longrightarrow> qsbr_ok v) \<and>
     (lpm_v l \<noteq> None \<longrightarrow> rcu_mode l = RTE_LPM_QSBR_MODE_DQ \<longrightarrow> lpm_dq l \<noteq> None)"

lemma tables_upd [simp]:
  "tables w b f q (l\<lparr>lpm_v := v\<rparr>) = tables w b f q l" "tables w b f q (l\<lparr>lpm_dq := dq\<rparr>) = tables w b f q l"
  "tables w b f q (l\<lparr>rules_tbl := t\<rparr>) = tables w b f q l" "tables w b f q (l\<lparr>rule_info := i\<rparr>) = tables w b f q l"
  by (simp_all add: tables_def waits_def slot_ok_def grp_def)

lemma tables_fields:
  "tbl24 l' = tbl24 l \<Longrightarrow> tbl8 l' = tbl8 l \<Longrightarrow> tbl8_size l' = tbl8_size l \<Longrightarrow> number_tbl8s l' = number_tbl8s l \<Longrightarrow>
    tables w b f q l' = tables w b f q l"
  by (simp add: tables_def waits_def slot_ok_def grp_def)

lemma tables_same: "same_tables l l' \<Longrightarrow> tables w b f q l' = tables w b f q l"
  by (simp add: same_tables_simps tables_def waits_def slot_ok_def grp_def)

lemma rcu_same: "same_tables l l' \<Longrightarrow> rcu_ok l' = rcu_ok l \<and> pending l' = pending l"
  by (simp add: same_tables_simps rcu_ok_def pending_def queue_def)

lemma tablesD:
  assumes "tables w b f q l" "i < TBL24_ENTRIES"
  shows "slot_ok (b i) (f i) l i" "b i \<Longrightarrow> 256 * grp l i + 256 \<le> tbl8_size l" "unat (number_tbl8s l) \<le> 2 ^ 22"
    "256 * unat (number_tbl8s l) \<le> tbl8_size l"
proof -
  show s: "slot_ok (b i) (f i) l i" "unat (number_tbl8s l) \<le> 2 ^ 22" "256 * unat (number_tbl8s l) \<le> tbl8_size l"
    using assms by (auto simp: tables_def)
  show "256 * grp l i + 256 \<le> tbl8_size l" if "b i" using s that by (auto simp: slot_ok_def)
qed

lemma tables_inj: "tables w b f q l \<Longrightarrow> i < TBL24_ENTRIES \<Longrightarrow> i' < TBL24_ENTRIES \<Longrightarrow> b i \<Longrightarrow> b i' \<Longrightarrow> grp l i = grp l i' \<Longrightarrow> i = i'"
  unfolding tables_def by blast

lemma tables_pend:
  assumes "tables w b f q l" "s \<in> set q"
  obtains g where "g < unat (number_tbl8s l)" "unat s = 256 * g" "valid_group (tbl8 l (256 * g))" "kept w s (group_of (tbl8 l) g)"
    "\<And>i. i < TBL24_ENTRIES \<Longrightarrow> b i \<Longrightarrow> grp l i \<noteq> g"
  using assms unfolding tables_def waits_def by blast

lemma tables_link_ok: "tables w b f q l \<Longrightarrow> i < TBL24_ENTRIES \<Longrightarrow> b i \<Longrightarrow> link_ok w i (grp l i)"
  by (simp add: tables_def)

lemma waits_via:
  assumes "waits w b l s" "number_tbl8s l' = number_tbl8s l"
    and "\<And>g. unat s = 256 * g \<Longrightarrow> g < unat (number_tbl8s l) \<Longrightarrow> \<forall>i < TBL24_ENTRIES. b i \<longrightarrow> grp l i \<noteq> g \<Longrightarrow>
      (\<forall>j < 256. tbl8 l' (256 * g + j) = tbl8 l (256 * g + j)) \<and> (\<forall>i < TBL24_ENTRIES. b' i \<longrightarrow> grp l' i \<noteq> g)"
  shows "waits w b' l' s"
proof -
  obtain g where g: "g < unat (number_tbl8s l)" "unat s = 256 * g" "valid_group (tbl8 l (256 * g))" "kept w s (group_of (tbl8 l) g)"
    "\<forall>i < TBL24_ENTRIES. b i \<longrightarrow> grp l i \<noteq> g" using assms(1) by (auto simp: waits_def)
  have e: "\<forall>j < 256. tbl8 l' (256 * g + j) = tbl8 l (256 * g + j)" and n: "\<forall>i < TBL24_ENTRIES. b' i \<longrightarrow> grp l' i \<noteq> g"
    using assms(3) [OF g(2,1,5)] by blast+
  have "tbl8 l' (256 * g) = tbl8 l (256 * g)" using e [rule_format, of 0] by simp
  moreover have "group_of (tbl8 l') g = group_of (tbl8 l) g" using e by (simp add: group_of_def)
  ultimately show ?thesis using g n assms(2) by (auto simp: waits_def)
qed

lemma tablesI:
  assumes "tables w b0 f0 q l0" "tbl8_size l = tbl8_size l0" "number_tbl8s l = number_tbl8s l0"
    and "\<And>i. i < TBL24_ENTRIES \<Longrightarrow> slot_ok (b i) (f i) l i"
    and "\<And>i. i < TBL24_ENTRIES \<Longrightarrow> b i \<Longrightarrow> link_ok w i (grp l i)"
    and "\<And>i i'. i < TBL24_ENTRIES \<Longrightarrow> i' < TBL24_ENTRIES \<Longrightarrow> b i \<Longrightarrow> b i' \<Longrightarrow> grp l i = grp l i' \<Longrightarrow> i = i'"
    and "\<And>s. s \<in> set q \<Longrightarrow> waits w b l s"
  shows "tables w b f q l"
  using assms unfolding tables_def by simp

text \<open>The watch may be changed between operations.\<close>

lemma tables_watch:
  assumes t: "tables w b f q l" and link: "\<And>i. i < TBL24_ENTRIES \<Longrightarrow> b i \<Longrightarrow> link_ok w' i (grp l i)"
    and kept: "\<And>s e. s \<in> set q \<Longrightarrow> kept w s e \<Longrightarrow> kept w' s e"
  shows "tables w' b f q l"
proof -
  have "waits w' b l s" if "s \<in> set q" for s
    using t kept [OF that] that unfolding tables_def waits_def by meson
  then show ?thesis using t link unfolding tables_def by blast
qed

lemma tables_no_watch: "tables w b f q l \<Longrightarrow> tables no_watch b f q l"
  by (rule tables_watch) (simp_all add: no_watch_def)

lemma tables_waits: "tables w b f q l \<Longrightarrow> s \<in> set q \<Longrightarrow> waits w b l s"
  by (simp add: tables_def)

lemma tables_cong: "tables w b f q l \<Longrightarrow> (\<And>i j. i < TBL24_ENTRIES \<Longrightarrow> j < 256 \<Longrightarrow> f' i j = f i j) \<Longrightarrow> (\<And>i. i < TBL24_ENTRIES \<Longrightarrow> b' i = b i) \<Longrightarrow> tables w b' f' q l"
  by (auto simp: tables_def slot_ok_def waits_def)

section \<open>Changes of the tables\<close>

lemma tables_entry:
  assumes t: "tables w b f q l" and i: "\<not> b i" "valid e \<longrightarrow> \<not> valid_group e" "\<forall>j < 256. ent_ok e (f' j)"
  shows "tables w b (f(i := f')) q (l\<lparr>tbl24 := (tbl24 l)(i := e)\<rparr>)"
proof -
  let ?l = "l\<lparr>tbl24 := (tbl24 l)(i := e)\<rparr>"
  have g: "b k \<Longrightarrow> grp ?l k = grp l k" for k using i(1) by (auto simp: grp_def)
  have sl: "slot_ok (b k) ((f(i := f')) k) ?l k" if "k < TBL24_ENTRIES" for k
    using tablesD(1) [OF t that] i by (cases "k = i") (auto simp: slot_ok_def grp_def)
  have "waits w b ?l s" if "s \<in> set q" for s
    by (rule waits_via [OF tables_waits [OF t that]]) (use g in auto)
  then show ?thesis
    by (intro tablesI [OF t _ _ sl]) (use g tables_link_ok [OF t] tables_inj [OF t] in auto)
qed

text \<open>Other groups do not overlap.\<close>

lemma group_disjoint: "g \<noteq> g' \<Longrightarrow> j < 256 \<Longrightarrow> j' < 256 \<Longrightarrow> 256 * g + j \<noteq> 256 * g' + (j' :: nat)"
  by arith

lemma tables_group:
  assumes t: "tables w b f q l" and i: "b i" "i < TBL24_ENTRIES"
    and out: "\<And>k. \<not> (256 * grp l i \<le> k \<and> k < 256 * grp l i + 256) \<Longrightarrow> t' k = tbl8 l k"
    and v: "valid_group (t' (256 * grp l i))" and e: "\<And>j. j < 256 \<Longrightarrow> ent_ok (t' (256 * grp l i + j)) (f' j)"
  shows "tables w b (f(i := f')) q (l\<lparr>tbl8 := t'\<rparr>)"
proof -
  let ?l = "l\<lparr>tbl8 := t'\<rparr>"
  have g: "grp ?l k = grp l k" for k by (simp add: grp_def)
  have other: "t' (256 * h + j) = tbl8 l (256 * h + j)" if "h \<noteq> grp l i" "j < 256" for h j
    using that by (intro out) arith
  have other0: "t' (256 * h) = tbl8 l (256 * h)" if "h \<noteq> grp l i" for h using other [OF that, of 0] by simp
  have sl: "slot_ok (b k) ((f(i := f')) k) ?l k" if "k < TBL24_ENTRIES" for k
  proof (cases "k = i")
    case True
    then show ?thesis using tablesD(1) [OF t i(2)] i(1) v e by (simp add: slot_ok_def g)
  next
    case False
    then have "b k \<Longrightarrow> grp l k \<noteq> grp l i" using t i that by (auto simp: tables_def)
    then show ?thesis using tablesD(1) [OF t that] False other other0 by (auto simp: slot_ok_def g)
  qed
  show ?thesis
  proof (rule tablesI [OF t _ _ sl])
    show "waits w b ?l s" if "s \<in> set q" for s
      by (rule waits_via [OF tables_waits [OF t that]]) (use other i in \<open>auto simp: g\<close>)
  qed (use tables_link_ok [OF t] tables_inj [OF t] in \<open>auto simp: g\<close>)
qed

text \<open>A group that no entry has and that does not wait.\<close>

definition unused :: "(nat \<Rightarrow> bool) \<Rightarrow> u32 list \<Rightarrow> rte_lpm \<Rightarrow> nat \<Rightarrow> bool" where
  "unused b q l g \<longleftrightarrow> g < unat (number_tbl8s l) \<and> (\<forall>i < TBL24_ENTRIES. b i \<longrightarrow> grp l i \<noteq> g) \<and> (\<forall>s \<in> set q. unat s \<noteq> 256 * g)"

lemma tables_unused:
  assumes t: "tables w b f q l" and g: "unused b q l g"
    and out: "\<And>k. \<not> (256 * g \<le> k \<and> k < 256 * g + 256) \<Longrightarrow> t' k = tbl8 l k"
  shows "tables w b f q (l\<lparr>tbl8 := t'\<rparr>)" "unused b q (l\<lparr>tbl8 := t'\<rparr>) g"
proof -
  let ?l = "l\<lparr>tbl8 := t'\<rparr>"
  have gr: "grp ?l k = grp l k" for k by (simp add: grp_def)
  have other: "t' (256 * h + j) = tbl8 l (256 * h + j)" if "h \<noteq> g" "j < 256" for h j
    using that by (intro out) arith
  have other0: "t' (256 * h) = tbl8 l (256 * h)" if "h \<noteq> g" for h using other [OF that, of 0] by simp
  have sl: "slot_ok (b k) (f k) ?l k" if "k < TBL24_ENTRIES" for k
  proof -
    have "b k \<Longrightarrow> grp l k \<noteq> g" using g that by (auto simp: unused_def)
    then show ?thesis using tablesD(1) [OF t that] other other0 by (auto simp: slot_ok_def gr)
  qed
  show "tables w b f q ?l"
  proof (rule tablesI [OF t _ _ sl])
    show "waits w b ?l s" if "s \<in> set q" for s
      by (rule waits_via [OF tables_waits [OF t that]]) (use other g that in \<open>auto simp: gr unused_def\<close>)
  qed (use tables_link_ok [OF t] tables_inj [OF t] in \<open>auto simp: gr\<close>)
  show "unused b q ?l g" using g by (simp add: unused_def gr)
qed

text \<open>An entry of the first table takes a prepared group, or lets its group go.\<close>

lemma tables_link:
  assumes t: "tables w b f q l" and i: "\<not> b i" "i < TBL24_ENTRIES" and g: "unused b q l g" "link_ok w i g"
    and v: "valid_group (tbl8 l (256 * g))" and e: "\<And>j. j < 256 \<Longrightarrow> ent_ok (tbl8 l (256 * g + j)) (f' j)"
  shows "tables w (b(i := True)) (f(i := f')) q (l\<lparr>tbl24 := (tbl24 l)(i := group_entry g)\<rparr>)"
proof -
  let ?l = "l\<lparr>tbl24 := (tbl24 l)(i := group_entry g)\<rparr>"
  have "g < 2 ^ 24" using g(1) tablesD(3) [OF t i(2)] by (auto simp: unused_def)
  then have gi: "grp ?l k = (if k = i then g else grp l k)" for k
    by (simp add: grp_def group_entry_def unat_of_nat)
  have ge: "valid (group_entry g)" "valid_group (group_entry g)" by (simp_all add: group_entry_def)
  have "slot_ok ((b(i := True)) k) ((f(i := f')) k) ?l k" if "k < TBL24_ENTRIES" for k
    using tablesD(1) [OF t that] v e g(1) by (auto simp: slot_ok_def gi ge unused_def)
  moreover have "waits w (b(i := True)) ?l s" if "s \<in> set q" for s
    by (rule waits_via [OF tables_waits [OF t that]]) (use g(1) that in \<open>auto simp: gi unused_def\<close>)
  moreover have "j = k" if "j < TBL24_ENTRIES" "k < TBL24_ENTRIES" "(b(i := True)) j" "(b(i := True)) k" "grp ?l j = grp ?l k" for j k
    using that g(1) tables_inj [OF t that(1,2)] by (auto simp: gi unused_def split: if_splits)
  moreover have "link_ok w k (grp ?l k)" if "k < TBL24_ENTRIES" "(b(i := True)) k" for k
    using that g(2) tables_link_ok [OF t that(1)] by (auto simp: gi)
  ultimately show ?thesis by (intro tablesI [OF t]) simp_all
qed

lemma tables_unlink:
  assumes t: "tables w b f q l" and i: "b i" "i < TBL24_ENTRIES"
    and e: "valid e \<longrightarrow> \<not> valid_group e" "\<forall>j < 256. ent_ok e (f' j)"
  shows "tables w (b(i := False)) (f(i := f')) q (l\<lparr>tbl24 := (tbl24 l)(i := e)\<rparr>)"
    "unused (b(i := False)) q (l\<lparr>tbl24 := (tbl24 l)(i := e)\<rparr>) (grp l i)"
proof -
  let ?l = "l\<lparr>tbl24 := (tbl24 l)(i := e)\<rparr>"
  have gi: "k \<noteq> i \<Longrightarrow> grp ?l k = grp l k" for k by (simp add: grp_def)
  have s: "slot_ok ((b(i := False)) k) ((f(i := f')) k) ?l k" if "k < TBL24_ENTRIES" for k
    using tablesD(1) [OF t that] e by (cases "k = i") (auto simp: slot_ok_def grp_def)
  have p: "waits w (b(i := False)) ?l s" if "s \<in> set q" for s
    by (rule waits_via [OF tables_waits [OF t that]]) (auto simp: gi)
  show "tables w (b(i := False)) (f(i := f')) q ?l"
    using s p tables_inj [OF t] tables_link_ok [OF t] by (intro tablesI [OF t]) (auto simp: gi split: if_splits)
  have "unat s \<noteq> 256 * grp l i" if "s \<in> set q" for s by (rule tables_pend [OF t that]) (use i in auto)
  then show "unused (b(i := False)) q ?l (grp l i)"
    using i tables_inj [OF t _ i(2) _ i(1)] tablesD(1) [OF t i(2)] by (auto simp: unused_def slot_ok_def gi)
qed

section \<open>Freeing groups\<close>

lemma tables_zero:
  assumes "tables w b f q l" "unused b q l g"
  shows "tables w b f q (l\<lparr>tbl8 := (tbl8 l)(256 * g := zero_entry)\<rparr>)"
  by (rule tables_unused(1) [OF assms]) auto

lemma tables_push:
  assumes t: "tables w b f (p @ q) l" and g: "unused b (p @ q) l g" "valid_group (tbl8 l (256 * g))" "kept w s (group_of (tbl8 l) g)"
    and s: "unat s = 256 * g"
  shows "tables w b f (p @ s # q) l"
proof -
  have "s \<notin> set (p @ q)" using g(1) s by (auto simp: unused_def)
  moreover have "waits w b l s" using g s by (auto simp: unused_def waits_def)
  ultimately show ?thesis using t unfolding tables_def by auto
qed

lemma tables_sub: "tables w b f q l \<Longrightarrow> distinct q' \<Longrightarrow> set q' \<subseteq> set q \<Longrightarrow> tables w b f q' l"
  unfolding tables_def by blast

text \<open>The queue of groups satisfies the contract, also when further groups \<open>r\<close> are set aside.\<close>

lemma free_resource_ok:
  assumes t: "tables w b f (e # q) l"
  shows "free_resource (tbl8_size l) e (tbl8 l) = Some ((tbl8 l)(unat e := zero_entry)) \<and> tables w b f q (l\<lparr>tbl8 := (tbl8 l)(unat e := zero_entry)\<rparr>)"
proof -
  obtain g where g: "g < unat (number_tbl8s l)" "unat e = 256 * g" "\<And>i. i < TBL24_ENTRIES \<Longrightarrow> b i \<Longrightarrow> grp l i \<noteq> g"
    by (rule tables_pend [OF t, of e]) auto
  have d: "e \<notin> set q" "distinct q" using t by (auto simp: tables_def)
  have u: "unused b q l g"
    unfolding unused_def
  proof (intro conjI ballI notI)
    fix s assume "s \<in> set q" "unat s = 256 * g"
    then have "s = e" using g(2) by (metis unsigned_word_eqI)
    then show False using d \<open>s \<in> set q\<close> by simp
  qed (use g in auto)
  have "tables w b f q l" using tables_sub [OF t d(2)] by auto
  from tables_zero [OF this u] show ?thesis using t g by (auto simp: free_resource_def tables_def)
qed

interpretation lpm_groups: deferred "free_resource (tbl8_size l)" "\<lambda>q t. tables w b f (map snd q @ r) (l\<lparr>tbl8 := t\<rparr>)" for b f l r
proof
  fix t e q p
  assume "tables w b f (map snd ((t, e) # q) @ r) (l\<lparr>tbl8 := p\<rparr>)"
  then have "tables w b f (e # map snd q @ r) (l\<lparr>tbl8 := p\<rparr>)" by simp
  from free_resource_ok [OF this] show "\<exists>p'. free_resource (tbl8_size l) e p = Some p' \<and> tables w b f (map snd q @ r) (l\<lparr>tbl8 := p'\<rparr>)"
    by simp
qed

text \<open>What stays the same in all the following.\<close>

definition same_rules :: "rte_lpm \<Rightarrow> rte_lpm \<Rightarrow> bool" where
  "same_rules l l' \<longleftrightarrow> rules_tbl l' = rules_tbl l \<and> rule_info l' = rule_info l \<and> max_rules l' = max_rules l \<and>
     number_tbl8s l' = number_tbl8s l \<and> tbl8_size l' = tbl8_size l \<and> lpm_name l' = lpm_name l"

lemma same_rules_refl [simp]: "same_rules l l" by (simp add: same_rules_def)

lemma same_rules_trans: "same_rules l l1 \<Longrightarrow> same_rules l1 l2 \<Longrightarrow> same_rules l l2" by (simp add: same_rules_def)

lemma same_rules_upd [simp]:
  "same_rules l (l'\<lparr>tbl24 := t\<rparr>) = same_rules l l'" "same_rules l (l'\<lparr>tbl8 := t\<rparr>) = same_rules l l'"
  "same_rules l (l'\<lparr>lpm_v := v\<rparr>) = same_rules l l'" "same_rules l (l'\<lparr>lpm_dq := d\<rparr>) = same_rules l l'"
  by (simp_all add: same_rules_def)

lemma rcu_ok_upd [simp]: "rcu_ok (l\<lparr>tbl24 := t\<rparr>) = rcu_ok l" "rcu_ok (l\<lparr>tbl8 := t\<rparr>) = rcu_ok l"
  "pending (l\<lparr>tbl24 := t\<rparr>) = pending l" "pending (l\<lparr>tbl8 := t\<rparr>) = pending l"
  by (simp_all add: rcu_ok_def pending_def queue_def)

text \<open>What \<open>rte_rcu_qsbr_synchronize\<close> leaves is a variable of the same kind.\<close>

definition wait_ok :: "qsbr_wait \<Rightarrow> bool" where "wait_ok wait \<longleftrightarrow> (\<forall>v t. qsbr_ok v \<longrightarrow> qsbr_ok (wait v t))"

lemma synchronize_ok:
  "wait_ok wait \<Longrightarrow> qsbr_ok v \<Longrightarrow> \<exists>v'. rte_rcu_qsbr_synchronize wait v RTE_QSBR_THRID_INVALID = Some v' \<and> qsbr_ok v'"
  using start_ok [of v] by (auto simp: rte_rcu_qsbr_synchronize_def wait_ok_def split: prod.split)

text \<open>What an operation does to the variable and the queue of a table with deferred freeing.\<close>

definition rcu_step :: "rte_lpm \<Rightarrow> rte_lpm \<Rightarrow> bool" where
  "rcu_step l l' \<longleftrightarrow> rcu_mode l' = rcu_mode l \<and> (lpm_v l' = None \<longleftrightarrow> lpm_v l = None) \<and> (lpm_dq l' = None \<longleftrightarrow> lpm_dq l = None) \<and>
     (\<forall>v v'. rcu_mode l = RTE_LPM_QSBR_MODE_DQ \<longrightarrow> lpm_v l = Some v \<longrightarrow> lpm_v l' = Some v' \<longrightarrow> queue_step v (queue l) v' (queue l'))"

lemma rcu_step_same:
  "lpm_v l' = lpm_v l \<Longrightarrow> lpm_dq l' = lpm_dq l \<Longrightarrow> rcu_mode l' = rcu_mode l \<Longrightarrow> rcu_step l l'"
  by (auto simp: rcu_step_def queue_def)

lemma rcu_step_cong:
  "lpm_v l1 = lpm_v l \<Longrightarrow> lpm_dq l1 = lpm_dq l \<Longrightarrow> rcu_mode l1 = rcu_mode l \<Longrightarrow> rcu_step l1 l' = rcu_step l l'"
  "lpm_v l1 = lpm_v l' \<Longrightarrow> lpm_dq l1 = lpm_dq l' \<Longrightarrow> rcu_mode l1 = rcu_mode l' \<Longrightarrow> rcu_step l l1 = rcu_step l l'"
  by (auto simp: rcu_step_def queue_def)

lemma rcu_step_upd [simp]:
  "rcu_step l l" "rcu_step l (l'\<lparr>tbl24 := t\<rparr>) = rcu_step l l'" "rcu_step l (l'\<lparr>tbl8 := u\<rparr>) = rcu_step l l'"
  by (simp add: rcu_step_same, (rule rcu_step_cong(2); simp)+)

lemma rcu_step_tables:
  assumes "same_tables l l'"
  shows "rcu_step l' k = rcu_step l k" "rcu_step k l' = rcu_step k l"
  using same_tables_simps [OF assms] by (simp_all add: rcu_step_cong(1) [of l' l k] rcu_step_cong(2) [of l' l k])

definition deferring :: "rte_lpm \<Rightarrow> bool" where
  "deferring l \<longleftrightarrow> lpm_v l \<noteq> None \<and> rcu_mode l = RTE_LPM_QSBR_MODE_DQ"

text \<open>Freeing a group. \<open>r'\<close> has the group when it is lost, because the queue is full.\<close>

lemma tbl8_free_ok:
  assumes t: "tables w b f (pending l @ r) l" and r: "rcu_ok l" and g: "unused b (pending l @ r) l g" "valid_group (tbl8 l (256 * g))"
    and k: "kept w (of_nat (256 * g)) (group_of (tbl8 l) g)" and w: "wait_ok wait"
  shows "\<exists>l' rc r'. tbl8_free wait l (256 * g) = Some (l', rc) \<and> rc \<in> {0, LPM_ENOSPC} \<and> (lpm_dq l = None \<longrightarrow> rc = 0) \<and>
    tables w b f (pending l' @ r' @ r) l' \<and> rcu_ok l' \<and> same_rules l l' \<and> rcu_step l l' \<and>
    (deferring l \<longrightarrow> of_nat (256 * g) \<in> set (pending l' @ r'))"
proof (cases "lpm_v l")
  case None
  have "256 * g < tbl8_size l" using t g by (auto simp: tables_def unused_def)
  then show ?thesis using None tables_zero [OF t g(1)] r
    by (intro exI [of _ "l\<lparr>tbl8 := (tbl8 l)(256 * g := zero_entry)\<rparr>"] exI [of _ 0] exI [of _ "[]"])
      (simp add: tbl8_free_def set8_def deferring_def rcu_step_same)
next
  case (Some v)
  then have v: "qsbr_ok v" using r by (auto simp: rcu_ok_def)
  have lt: "256 * g < tbl8_size l" "256 * g < 2 ^ 32" using t g by (auto simp: tables_def unused_def)
  show ?thesis
  proof (cases "rcu_mode l")
    case RTE_LPM_QSBR_MODE_SYNC
    obtain v' where v': "rte_rcu_qsbr_synchronize wait v RTE_QSBR_THRID_INVALID = Some v'" "qsbr_ok v'" using synchronize_ok [OF w v] by blast
    let ?l = "l\<lparr>lpm_v := Some v'\<rparr>"
    let ?l' = "?l\<lparr>tbl8 := (tbl8 ?l)(256 * g := zero_entry)\<rparr>"
    have "unused b (pending l @ r) ?l g" using g(1) by (simp add: unused_def grp_def)
    moreover have "tables w b f (pending l @ r) ?l" using t by simp
    ultimately have z: "tables w b f (pending l @ r) ?l'" by (rule tables_zero [rotated])
    have "rcu_ok ?l'" "rcu_step l ?l'" "pending ?l' = pending l"
      using r v'(2) Some RTE_LPM_QSBR_MODE_SYNC by (auto simp: rcu_ok_def rcu_step_def pending_def queue_def)
    then show ?thesis using Some RTE_LPM_QSBR_MODE_SYNC lt z v'(1)
      by (intro exI [of _ ?l'] exI [of _ 0] exI [of _ "[]"]) (simp add: tbl8_free_def set8_def deferring_def)
  next
    case RTE_LPM_QSBR_MODE_DQ
    then obtain dq where dq: "lpm_dq l = Some dq" using r Some by (auto simp: rcu_ok_def)
    then have q: "pending l = map snd (dq_ring dq)" by (simp add: pending_def queue_def)
    let ?s = "of_nat (256 * g) :: u32"
    have s: "unat ?s = 256 * g" using lt(2) by (subst unat_of_nat) simp
    have "tables w b f (map snd (dq_ring dq) @ ?s # r) (l\<lparr>tbl8 := tbl8 l\<rparr>)"
      using tables_push [OF t g k s] by (simp add: q)
    from lpm_groups.dq_enqueue_ok [OF v this] obtain v' t' q' p' where
      e: "qsbr_ok v'" "tables w b f (map snd q' @ ?s # r) (l\<lparr>tbl8 := p'\<rparr>)"
      "rte_rcu_qsbr_dq_enqueue (free_resource (tbl8_size l)) v dq ?s (tbl8 l) = Some (v', dq\<lparr>dq_ring := q' @ [(t', ?s)]\<rparr>, p', 0) \<or>
       rte_rcu_qsbr_dq_enqueue (free_resource (tbl8_size l)) v dq ?s (tbl8 l) = Some (v', dq\<lparr>dq_ring := q'\<rparr>, p', 1)"
      by blast
    have k: "tables w b f q (l\<lparr>lpm_v := v, lpm_dq := d, tbl8 := p'\<rparr>) = tables w b f q (l\<lparr>tbl8 := p'\<rparr>)" for q v d
      by (rule tables_fields) simp_all
    have step: "rcu_step l (l\<lparr>lpm_v := Some v', lpm_dq := Some d, tbl8 := p'\<rparr>)"
      if "rte_rcu_qsbr_dq_enqueue (free_resource (tbl8_size l)) v dq ?s (tbl8 l) = Some (v', d, p', x)" for d x
      using dq_enqueue_queue_step [OF that] Some dq by (simp add: rcu_step_def queue_def)
    from e(3) show ?thesis
    proof
      assume a: "rte_rcu_qsbr_dq_enqueue (free_resource (tbl8_size l)) v dq ?s (tbl8 l) = Some (v', dq\<lparr>dq_ring := q' @ [(t', ?s)]\<rparr>, p', 0)"
      let ?l = "l\<lparr>lpm_v := Some v', lpm_dq := Some (dq\<lparr>dq_ring := q' @ [(t', ?s)]\<rparr>), tbl8 := p'\<rparr>"
      have p: "pending ?l = map snd q' @ [?s]" by (simp add: pending_def queue_def)
      have "tbl8_free wait l (256 * g) = Some (?l, 0)" using Some RTE_LPM_QSBR_MODE_DQ dq a by (simp add: tbl8_free_def)
      moreover have "tables w b f (pending ?l @ [] @ r) ?l" using e(2) unfolding p k by simp
      moreover have "rcu_ok ?l" using e(1) by (simp add: rcu_ok_def)
      ultimately show ?thesis using step [OF a] p
        by (intro exI [of _ ?l] exI [of _ 0] exI [of _ "[]"]) simp
    next
      assume a: "rte_rcu_qsbr_dq_enqueue (free_resource (tbl8_size l)) v dq ?s (tbl8 l) = Some (v', dq\<lparr>dq_ring := q'\<rparr>, p', 1)"
      let ?l = "l\<lparr>lpm_v := Some v', lpm_dq := Some (dq\<lparr>dq_ring := q'\<rparr>), tbl8 := p'\<rparr>"
      have p: "pending ?l = map snd q'" by (simp add: pending_def queue_def)
      have "tbl8_free wait l (256 * g) = Some (?l, LPM_ENOSPC)" using Some RTE_LPM_QSBR_MODE_DQ dq a by (simp add: tbl8_free_def)
      moreover have "tables w b f (pending ?l @ [?s] @ r) ?l" using e(2) unfolding p k by simp
      moreover have "rcu_ok ?l" using e(1) by (simp add: rcu_ok_def)
      ultimately show ?thesis using step [OF a] dq
        by (intro exI [of _ ?l] exI [of _ LPM_ENOSPC] exI [of _ "[?s]"]) simp
    qed
  qed
qed

section \<open>Loops over the entries\<close>

lemma for_n_inv:
  assumes "\<And>k s. k < n \<Longrightarrow> P k s \<Longrightarrow> \<exists>s'. f (a + k) s = Some s' \<and> P (Suc k) s'"
  shows "P 0 s \<Longrightarrow> \<exists>s'. for_n n a f s = Some s' \<and> P n s'"
proof -
  have "k \<le> n \<Longrightarrow> P (n - k) s \<Longrightarrow> \<exists>s'. for_n k (a + (n - k)) f s = Some s' \<and> P n s'" for k
  proof (induction k arbitrary: s)
    case (Suc k)
    then have e: "n - k = Suc (n - Suc k)" "n - Suc k < n" by simp_all
    obtain s1 where "f (a + (n - Suc k)) s = Some s1" "P (n - k) s1" using assms [OF e(2) Suc.prems(2)] unfolding e(1) by blast
    then show ?case using Suc.IH [of s1] Suc.prems(1) e(1) by simp
  qed simp
  from this [of n] show "P 0 s \<Longrightarrow> \<exists>s'. for_n n a f s = Some s' \<and> P n s'" by simp
qed

text \<open>A body that changes one entry of \<open>tbl8\<close>.\<close>

definition upd8 :: "nat \<Rightarrow> nat \<Rightarrow> ('e \<Rightarrow> 'e) \<Rightarrow> (nat \<Rightarrow> 'e) \<Rightarrow> nat \<Rightarrow> 'e" where
  "upd8 a n u t = (\<lambda>j. if a \<le> j \<and> j < a + n then u (t j) else t j)"

definition changes8 :: "(nat \<Rightarrow> rte_lpm \<Rightarrow> rte_lpm option) \<Rightarrow> (rte_lpm_tbl_entry \<Rightarrow> rte_lpm_tbl_entry) \<Rightarrow> bool" where
  "changes8 body u \<longleftrightarrow> (\<forall>j l. j < tbl8_size l \<longrightarrow> body j l = Some (l\<lparr>tbl8 := (tbl8 l)(j := u (tbl8 l j))\<rparr>))"

lemma for_n_8:
  assumes "changes8 body u"
  shows "a + n \<le> tbl8_size l \<Longrightarrow> for_n n a body l = Some (l\<lparr>tbl8 := upd8 a n u (tbl8 l)\<rparr>)"
proof (induction n arbitrary: a l)
  case 0
  have "upd8 a 0 u (tbl8 l) = tbl8 l" by (auto simp: upd8_def fun_eq_iff)
  then show ?case by simp
next
  case (Suc n)
  define x where "x = (tbl8 l)(a := u (tbl8 l a))"
  have "upd8 (a + 1) n u x = upd8 a (Suc n) u (tbl8 l)" by (auto simp: upd8_def fun_eq_iff x_def)
  moreover have "body a l = Some (l\<lparr>tbl8 := x\<rparr>)" using assms Suc.prems unfolding changes8_def x_def by simp
  moreover have "for_n n (a + 1) body (l\<lparr>tbl8 := x\<rparr>) = Some (l\<lparr>tbl8 := upd8 (a + 1) n u x\<rparr>)"
    using Suc.IH [of "a + 1" "l\<lparr>tbl8 := x\<rparr>"] Suc.prems by simp
  ultimately show ?case by (simp only: for_n.simps bind.simps)
qed

definition u_add :: "u8 \<Rightarrow> u32 \<Rightarrow> (rte_lpm_tbl_entry \<Rightarrow> bool) \<Rightarrow> rte_lpm_tbl_entry \<Rightarrow> rte_lpm_tbl_entry" where
  "u_add d nh vg t = (if \<not> valid t \<or> unat (depth t) \<le> unat d then new_entry nh (vg t) d else t)"

definition u_del :: "u8 \<Rightarrow> (rte_lpm_tbl_entry \<Rightarrow> rte_lpm_tbl_entry) \<Rightarrow> rte_lpm_tbl_entry \<Rightarrow> rte_lpm_tbl_entry" where
  "u_del d new t = (if unat (depth t) \<le> unat d then new t else t)"

lemma put_entry: "j < tbl8_size l \<Longrightarrow> (if c then set8 l j e else Some l) = Some (l\<lparr>tbl8 := (tbl8 l)(j := if c then e else tbl8 l j)\<rparr>)"
  by (simp add: set8_def)

lemma bodies8:
  "changes8 (\<lambda>j l. set8 l j zero_entry) (\<lambda>_. zero_entry)"
  "changes8 (add_small_8 d nh) (u_add d nh (\<lambda>_. True))"
  "changes8 (add_big_8 d nh) (u_add d nh valid_group)"
  "changes8 (put_8 d nh) (\<lambda>t. new_entry nh (valid_group t) d)"
  "changes8 (copy_8 e) (\<lambda>t. e\<lparr>valid := True, valid_group := valid_group t\<rparr>)"
  "changes8 (invalidate_8 d) (u_del d (\<lambda>t. t\<lparr>valid := False\<rparr>))"
  "changes8 (replace_8 d new) (u_del d (\<lambda>_. new))"
  unfolding changes8_def add_small_8_def add_big_8_def put_8_def copy_8_def invalidate_8_def replace_8_def u_add_def u_del_def
  by (simp_all add: get8_def set8_def)

section \<open>Entries\<close>

lemma new_entry_ok: "d \<le> 32 \<Longrightarrow> ent_ok (new_entry h vg (of_nat d)) (Some (d, h))"
  by (simp add: ent_ok_def new_entry_def unat_of_nat unsigned_ucast_eq take_bit_nat_eq_self)

lemma ent_add:
  assumes "ent_ok t m" "d \<le> 32"
  shows "ent_ok (u_add (of_nat d) h vg t) (madd m d h)"
proof -
  have u: "unat (of_nat d :: u8) = d" using assms(2) by (simp add: unat_of_nat)
  show ?thesis using assms new_entry_ok [OF assms(2), of h "vg t"]
    by (cases m) (auto simp: u_add_def madd_def u ent_ok_def)
qed

lemma ent_del:
  assumes "ent_ok t m" "d \<le> 32" "m = Some (d', h')" "d \<le> d'" "ent_ok (new t) sub"
  shows "ent_ok (u_del (of_nat d) new t) (mdel m d sub)"
proof -
  have u: "unat (of_nat d :: u8) = d" using assms(2) by (simp add: unat_of_nat)
  show ?thesis using assms by (auto simp: u_del_def mdel_def u) (auto simp: ent_ok_def)
qed

lemma ent_invalid: "\<not> valid e \<Longrightarrow> ent_ok e None"
  by (simp add: ent_ok_def)

section \<open>Taking a group\<close>

text \<open>A fresh group: nobody has it, its first entry marks it as taken, and no entry is valid.\<close>

definition fresh :: "(nat \<Rightarrow> bool) \<Rightarrow> u32 list \<Rightarrow> rte_lpm \<Rightarrow> nat \<Rightarrow> bool" where
  "fresh b r l g \<longleftrightarrow> unused b (pending l @ r) l g \<and> valid_group (tbl8 l (256 * g)) \<and> (\<forall>j < 256. \<not> valid (tbl8 l (256 * g + j)))"

text \<open>No group is free.\<close>

definition groups_taken :: "rte_lpm \<Rightarrow> bool" where
  "groups_taken l \<longleftrightarrow> (\<forall>k < unat (number_tbl8s l). valid_group (tbl8 l (256 * k)))"

lemma groups_taken_same: "same_tables l l' \<Longrightarrow> groups_taken l' = groups_taken l"
  by (simp add: same_tables_simps groups_taken_def)

lemma alloc_scan_ok:
  assumes t: "tables w b f (pending l @ r) l"
  shows "g + n = unat (number_tbl8s l) \<Longrightarrow>
    \<exists>l' rc. alloc_scan n g l = Some (l', rc) \<and> (\<exists>t'. l' = l\<lparr>tbl8 := t'\<rparr>) \<and> tables w b f (pending l' @ r) l' \<and>
      (rc = LPM_ENOSPC \<and> l' = l \<and> (\<forall>k. g \<le> k \<longrightarrow> k < unat (number_tbl8s l) \<longrightarrow> valid_group (tbl8 l (256 * k))) \<or>
       0 \<le> rc \<and> fresh b r l' (nat rc))"
proof (induction n arbitrary: g)
  case 0
  then show ?case using t by (intro exI [of _ l]) (auto intro: exI [of _ "tbl8 l"])
next
  case (Suc n)
  have sz: "256 * g + 256 \<le> tbl8_size l" "g < unat (number_tbl8s l)" using Suc.prems t by (auto simp: tables_def)
  show ?case
  proof (cases "valid_group (tbl8 l (g * 256))")
    case True
    then have "valid_group (tbl8 l (256 * k))" if "g \<le> k" "\<not> g + 1 \<le> k" for k
    proof -
      have "k = g" using that by simp
      then show ?thesis using True by (simp add: mult.commute)
    qed
    moreover have "g + 1 + n = unat (number_tbl8s l)" using Suc.prems by simp
    ultimately show ?thesis using Suc.IH [of "g + 1"] sz True by (simp add: get8_def) blast
  next
    case False
    let ?t = "(upd8 (256 * g) 256 (\<lambda>_. zero_entry) (tbl8 l))(256 * g := zero_entry\<lparr>valid_group := True\<rparr>)"
    let ?l = "l\<lparr>tbl8 := ?t\<rparr>"
    have e: "alloc_scan (Suc n) g l = Some (?l, int g)"
      using False sz for_n_8 [OF bodies8(1), of "256 * g" 256 l] by (simp add: get8_def set8_def mult.commute [of g])
    have F: "\<not> valid_group (tbl8 l (256 * g))" using False by (simp add: mult.commute)
    have "grp l i \<noteq> g" if "i < TBL24_ENTRIES" "b i" for i
      using tablesD(1) [OF t that(1)] that(2) F by (auto simp: slot_ok_def)
    moreover have "unat s \<noteq> 256 * g" if "s \<in> set (pending l @ r)" for s
      by (rule tables_pend [OF t that]) (use F in auto)
    ultimately have u: "unused b (pending l @ r) l g" using sz by (auto simp: unused_def)
    have T: "tables w b f (pending l @ r) ?l" "unused b (pending l @ r) ?l g"
      by (rule tables_unused [OF t u]; auto simp: upd8_def)+
    have "fresh b r ?l g" using T(2) by (auto simp: fresh_def upd8_def zero_entry_def)
    then show ?thesis using e T(1) by auto
  qed
qed

lemma alloc_scan_all:
  assumes "tables w b f (pending l @ r) l"
  shows "\<exists>l' rc. alloc_scan (unat (number_tbl8s l)) 0 l = Some (l', rc) \<and> (\<exists>t'. l' = l\<lparr>tbl8 := t'\<rparr>) \<and> tables w b f (pending l' @ r) l' \<and>
    (rc = LPM_ENOSPC \<and> l' = l \<and> groups_taken l \<or> 0 \<le> rc \<and> fresh b r l' (nat rc))"
  using alloc_scan_ok [OF assms add_0] by (simp only: groups_taken_def le0 simp_thms)

lemma rcu_ok_dq: "rcu_ok l \<Longrightarrow> qsbr_ok v \<Longrightarrow> rcu_ok (l\<lparr>lpm_v := Some v, lpm_dq := Some dq, tbl8 := t\<rparr>)"
  by (simp add: rcu_ok_def)

lemma tbl8_alloc_ok:
  assumes t: "tables w b f (pending l @ r) l" and rcu: "rcu_ok l"
  shows "\<exists>l' g. tbl8_alloc l = Some (l', g) \<and> tables w b f (pending l' @ r) l' \<and> rcu_ok l' \<and> same_rules l l' \<and> tbl24 l' = tbl24 l \<and>
    rcu_step l l' \<and> (g = LPM_ENOSPC \<and> groups_taken l \<or> 0 \<le> g \<and> fresh b r l' (nat g))"
proof -
  obtain l1 g1 t1 where a: "alloc_scan (unat (number_tbl8s l)) 0 l = Some (l1, g1)" "l1 = l\<lparr>tbl8 := t1\<rparr>" "tables w b f (pending l1 @ r) l1"
    "g1 = LPM_ENOSPC \<and> l1 = l \<and> groups_taken l \<or> 0 \<le> g1 \<and> fresh b r l1 (nat g1)"
    using alloc_scan_all [OF t] by blast
  show ?thesis
  proof (cases "lpm_dq l1 = None \<or> g1 \<noteq> LPM_ENOSPC")
    case True
    then have "tbl8_alloc l = Some (l1, g1)" using a(1) by (auto simp: tbl8_alloc_def split: option.splits)
    then show ?thesis using a rcu by (auto simp: rcu_step_same)
  next
    case False
    then obtain dq v where dq: "lpm_dq l = Some dq" "lpm_v l = Some v" "g1 = LPM_ENOSPC" "l1 = l" "groups_taken l"
      using a(2,4) rcu by (auto simp: rcu_ok_def)
    have v: "qsbr_ok v" using rcu dq by (simp add: rcu_ok_def)
    have "tables w b f (map snd (dq_ring dq) @ r) (l\<lparr>tbl8 := tbl8 l\<rparr>)" using t dq(1) by (simp add: pending_def queue_def)
    from lpm_groups.dq_reclaim_ok [OF v this, of 1] obtain v' q' t' rc where
      e: "rte_rcu_qsbr_dq_reclaim (free_resource (tbl8_size l)) v dq 1 (tbl8 l) = Some (v', dq\<lparr>dq_ring := q'\<rparr>, t', rc)" "qsbr_ok v'"
      "tables w b f (map snd q' @ r) (l\<lparr>tbl8 := t'\<rparr>)" by blast
    let ?l = "l\<lparr>lpm_v := Some v', lpm_dq := Some (dq\<lparr>dq_ring := q'\<rparr>), tbl8 := t'\<rparr>"
    have T: "tables w b f (pending ?l @ r) ?l" using e(3) tables_fields [of ?l "l\<lparr>tbl8 := t'\<rparr>"] by (simp add: pending_def queue_def)
    have step: "rcu_step l ?l" using dq_reclaim_queue_step [OF e(1)] dq by (simp add: rcu_step_def queue_def)
    have R: "rcu_ok ?l" by (rule rcu_ok_dq [OF rcu e(2)])
    obtain l2 g2 t2 where s: "alloc_scan (unat (number_tbl8s ?l)) 0 ?l = Some (l2, g2)" "l2 = ?l\<lparr>tbl8 := t2\<rparr>" "tables w b f (pending l2 @ r) l2"
      "g2 = LPM_ENOSPC \<and> l2 = ?l \<or> 0 \<le> g2 \<and> fresh b r l2 (nat g2)"
      using alloc_scan_all [OF T] by blast
    have "tbl8_alloc l = (if rc = 0 then Some (l2, g2) else Some (?l, LPM_ENOSPC))"
      using a(1) dq e(1) s(1) by (simp add: tbl8_alloc_def)
    moreover have "rcu_ok l2" "rcu_step l l2" using R step s(2) rcu_step_cong(2) [of l2 ?l l] by simp_all
    ultimately show ?thesis using T R step s(2-4) dq by (cases "rc = 0") auto
  qed
qed

end
