(* ===== verification/Lpm_Add.thy ===== *)
theory Lpm_Add
  imports Lpm_Tables
begin

text \<open>Adding a route changes the two tables to those of the new routes.\<close>

section \<open>Short prefixes\<close>

text \<open>Only the two tables change.\<close>

definition same_rest :: "rte_lpm \<Rightarrow> rte_lpm \<Rightarrow> bool" where
  "same_rest l l' \<longleftrightarrow> l' = l\<lparr>tbl24 := tbl24 l', tbl8 := tbl8 l'\<rparr>"

lemma same_rest_simps [simp]:
  "same_rest l l" "same_rest l (l'\<lparr>tbl24 := t\<rparr>) = same_rest l l'" "same_rest l (l'\<lparr>tbl8 := u\<rparr>) = same_rest l l'"
  by (cases l; cases l'; simp add: same_rest_def)+

lemma same_restD:
  assumes "same_rest l l'"
  shows "same_rules l l'" "rcu_ok l' = rcu_ok l" "pending l' = pending l" "rcu_step l l'"
  using assms by (cases l; cases l'; simp add: same_rest_def same_rules_def rcu_ok_def pending_def queue_def rcu_step_same)+

lemma group_start_ok:
  assumes "tables w b f q l" "i < TBL24_ENTRIES" "b i"
  shows "group_start (unat (next_hop (tbl24 l i))) = Some (256 * grp l i)"
proof -
  have "grp l i < 2 ^ 22" using tablesD(1,3) [OF assms(1,2)] assms(3) by (auto simp: slot_ok_def)
  then show ?thesis by (simp add: group_start_def grp_def mult.commute)
qed

lemma mt_add:
  assumes "0 < d" "d \<le> 32"
  shows "mt (route_add R d x h) i j = (if pfx d (addr i j) = x then madd (mt R i j) d h else mt R i j)"
  unfolding mt_def by (rule best_add [OF assms])

lemma mt_del:
  assumes "0 < d" "d \<le> 32"
  shows "mt (route_del R d x) i j = (if pfx d (addr i j) = x then mdel (mt R i j) d (best R (d - 1) (addr i j)) else mt R i j)"
  unfolding mt_def by (rule best_del [OF assms])

text \<open>The entries of a group after a loop over some of them.\<close>

lemma tables_loop:
  assumes t: "tables w b f q l" and i: "i < TBL24_ENTRIES" "b i" and c: "changes8 body u" and n: "a + n \<le> 256"
    and vg: "\<And>e. valid_group e \<Longrightarrow> valid_group (u e)"
    and e: "\<And>j e. j < 256 \<Longrightarrow> ent_ok e (f i j) \<Longrightarrow> ent_ok (if a \<le> j \<and> j < a + n then u e else e) (f' j)"
  shows "for_n n (256 * grp l i + a) body l = Some (l\<lparr>tbl8 := upd8 (256 * grp l i + a) n u (tbl8 l)\<rparr>)"
    "tables w b (f(i := f')) q (l\<lparr>tbl8 := upd8 (256 * grp l i + a) n u (tbl8 l)\<rparr>)"
proof -
  let ?t = "upd8 (256 * grp l i + a) n u (tbl8 l)"
  have s: "256 * grp l i + a + n \<le> tbl8_size l" using tablesD(2) [OF t i] n by simp
  have g: "valid_group (tbl8 l (256 * grp l i))" "\<And>j. j < 256 \<Longrightarrow> ent_ok (tbl8 l (256 * grp l i + j)) (f i j)"
    using tablesD(1) [OF t i(1)] i(2) by (auto simp: slot_ok_def)
  show "for_n n (256 * grp l i + a) body l = Some (l\<lparr>tbl8 := ?t\<rparr>)" by (rule for_n_8 [OF c s])
  show "tables w b (f(i := f')) q (l\<lparr>tbl8 := ?t\<rparr>)"
  proof (rule tables_group [where i = i and t' = ?t, OF t i(2,1)])
    show "valid_group (?t (256 * grp l i))" using g(1) vg by (simp add: upd8_def)
    show "ent_ok (?t (256 * grp l i + j)) (f' j)" if "j < 256" for j
      using e [OF that g(2) [OF that]] by (auto simp: upd8_def split: if_splits)
  qed (use n in \<open>auto simp: upd8_def\<close>)
qed

lemma u_add_group: "valid_group e \<Longrightarrow> valid_group (u_add d h (\<lambda>_. True) e)" "valid_group e \<Longrightarrow> valid_group (u_add d h valid_group e)"
  by (simp_all add: u_add_def new_entry_def)

text \<open>
  A loop over the entries of the first table under a short prefix: \<open>u\<close> is what it does to an entry of a group and \<open>u24\<close>
  to an entry without one.
\<close>

lemma small_loop_ok:
  assumes t: "tables w (big R) (mt R) q l" and d: "0 < d" "d \<le> 24" and x: "pfx d x = x" and B: "big R' = big R"
    and off: "\<And>i j. i < TBL24_ENTRIES \<Longrightarrow> j < 256 \<Longrightarrow> pfx d (addr i j) \<noteq> x \<Longrightarrow> mt R' i j = mt R i j"
    and body8: "changes8 body8 u" "\<And>e. valid_group e \<Longrightarrow> valid_group (u e)"
    and u: "\<And>i j e. i < TBL24_ENTRIES \<Longrightarrow> j < 256 \<Longrightarrow> pfx d (addr i j) = x \<Longrightarrow> ent_ok e (mt R i j) \<Longrightarrow>
      ent_ok (u e) (mt R' i j) \<and> ent_ok (u24 e) (mt R' i j)"
    and u24: "\<And>e. valid e \<longrightarrow> \<not> valid_group e \<Longrightarrow> valid (u24 e) \<longrightarrow> \<not> valid_group (u24 e)"
    and group: "\<And>i s. i < TBL24_ENTRIES \<Longrightarrow> valid (tbl24 s i) \<Longrightarrow> valid_group (tbl24 s i) \<Longrightarrow>
      body i s = do { a \<leftarrow> group_start (unat (next_hop (tbl24 s i))); for_n 256 a body8 s }"
    and one: "\<And>i s. i < TBL24_ENTRIES \<Longrightarrow> valid (tbl24 s i) \<longrightarrow> \<not> valid_group (tbl24 s i) \<Longrightarrow> ent_ok (tbl24 s i) (mt R i 0) \<Longrightarrow>
      pfx d (addr i 0) = x \<Longrightarrow> body i s = Some (s\<lparr>tbl24 := (tbl24 s)(i := u24 (tbl24 s i))\<rparr>)"
  shows "\<exists>l'. for_n (depth_to_range (of_nat d)) (unat (drop_bit 8 x)) body l = Some l' \<and> tables w (big R') (mt R') q l' \<and> same_rest l l'"
proof -
  let ?i = "unat (drop_bit 8 x)" and ?n = "depth_to_range (of_nat d)"
  note rng = small_range [OF d x]
  have n: "?i + ?n \<le> 16777216" using rng(2) [of 0 0] by simp
  define F where "F k i = (if ?i \<le> i \<and> i < ?i + k then mt R' i else mt R i)" for k i
  define P where "P k s \<longleftrightarrow> tables w (big R) (F k) q s \<and> same_rest l s" for k s
  have step: "\<exists>s'. body (?i + k) s = Some s' \<and> P (Suc k) s'" if k: "k < ?n" and "P k s" for k s
  proof -
    let ?j = "?i + k"
    have T: "tables w (big R) (F k) q s" and S: "same_rest l s" using \<open>P k s\<close> by (auto simp: P_def)
    have i: "?j < TBL24_ENTRIES" using k n by simp
    have p: "pfx d (addr ?j j) = x" if "j < 256" for j using rng(1) [OF _ that, of ?j] i k by simp
    have F: "F k ?j = mt R ?j" "(F k)(?j := mt R' ?j) = F (Suc k)" by (auto simp: F_def fun_eq_iff)
    let ?e = "tbl24 s ?j"
    show ?thesis
    proof (cases "big R ?j")
      case True
      then have v: "valid ?e" "valid_group ?e" using tablesD(1) [OF T i] by (auto simp: slot_ok_def)
      have E: "ent_ok (if 0 \<le> j \<and> j < 0 + 256 then u e else e) (mt R' ?j j)" if "j < 256" "ent_ok e (F k ?j j)" for j e
        using u [OF i that(1) p [OF that(1)]] that by (simp add: F)
      have "0 + 256 \<le> (256 :: nat)" by simp
      note L = tables_loop [OF T i True body8(1) this body8(2) E]
      have "body ?j s = Some (s\<lparr>tbl8 := upd8 (256 * grp s ?j) 256 u (tbl8 s)\<rparr>)"
        using L(1) group_start_ok [OF T i True] by (simp add: group [OF i v])
      then show ?thesis using L(2) S unfolding F P_def by simp
    next
      case False
      then have e: "valid ?e \<longrightarrow> \<not> valid_group ?e" "\<And>j. j < 256 \<Longrightarrow> ent_ok ?e (mt R ?j j)"
        using tablesD(1) [OF T i] by (auto simp: slot_ok_def F)
      have "body ?j s = Some (s\<lparr>tbl24 := (tbl24 s)(?j := u24 ?e)\<rparr>)" using e(2) p by (intro one [OF i e(1)]) auto
      moreover have "tables w (big R) ((F k)(?j := mt R' ?j)) q (s\<lparr>tbl24 := (tbl24 s)(?j := u24 ?e)\<rparr>)"
        using u24 [OF e(1)] u [OF i _ p e(2)] by (intro tables_entry [OF T False]) auto
      ultimately show ?thesis using S unfolding F P_def by simp
    qed
  qed
  have "F 0 = mt R" by (auto simp: F_def fun_eq_iff)
  then have "P 0 l" using t by (simp add: P_def)
  from for_n_inv [where P = P and n = ?n and a = ?i and f = body, OF step this] obtain l' where
    l': "for_n ?n ?i body l = Some l'" "P ?n l'" by blast
  have "tables w (big R') (mt R') q l'"
    by (rule tables_cong [of w "big R" "F ?n"]) (use l'(2) off rng(1) in \<open>auto simp: P_def B F_def\<close>)
  then show ?thesis using l' by (simp add: P_def)
qed

lemma add_depth_small_ok:
  assumes t: "tables w (big R) (mt R) q l" and d: "0 < d" "d \<le> 24" and x: "pfx d x = x"
  shows "\<exists>l'. add_depth_small l x (of_nat d) h = Some (l', 0) \<and> tables w (big (route_add R d x h)) (mt (route_add R d x h)) q l' \<and> same_rest l l'"
proof -
  let ?R = "route_add R d x h"
  have d32: "d \<le> 32" using d by simp
  note m = mt_add [OF d(1) d32, of R x h]
  have "\<exists>l'. for_n (depth_to_range (of_nat d)) (unat (drop_bit 8 x)) (add_small_24 (of_nat d) h) l = Some l' \<and>
      tables w (big ?R) (mt ?R) q l' \<and> same_rest l l'"
  proof (rule small_loop_ok [OF t d x big_add_small [OF d(2)] _ bodies8(2) u_add_group(1)])
    show "mt ?R i j = mt R i j" if "pfx d (addr i j) \<noteq> x" for i j using that m by simp
    show "ent_ok (u_add (of_nat d) h (\<lambda>_. True) e) (mt ?R i j) \<and> ent_ok (u_add (of_nat d) h (\<lambda>_. False) e) (mt ?R i j)"
      if "pfx d (addr i j) = x" "ent_ok e (mt R i j)" for i j e using that m ent_add [OF that(2) d32] by simp
    show "valid (u_add (of_nat d) h (\<lambda>_. False) e) \<longrightarrow> \<not> valid_group (u_add (of_nat d) h (\<lambda>_. False) e)"
      if "valid e \<longrightarrow> \<not> valid_group e" for e using that by (simp add: u_add_def new_entry_def)
    show "add_small_24 (of_nat d) h i s = do { a \<leftarrow> group_start (unat (next_hop (tbl24 s i))); for_n 256 a (add_small_8 (of_nat d) h) s }"
      if "i < TBL24_ENTRIES" "valid (tbl24 s i)" "valid_group (tbl24 s i)" for i s using that by (simp add: add_small_24_def get24_def)
    show "add_small_24 (of_nat d) h i s = Some (s\<lparr>tbl24 := (tbl24 s)(i := u_add (of_nat d) h (\<lambda>_. False) (tbl24 s i))\<rparr>)"
      if "i < TBL24_ENTRIES" "valid (tbl24 s i) \<longrightarrow> \<not> valid_group (tbl24 s i)" for i s
      using that by (auto simp: add_small_24_def get24_def set24_def u_add_def)
  qed
  then show ?thesis by (auto simp: add_depth_small_def)
qed

section \<open>Long prefixes\<close>

text \<open>A fresh group gets its entries and is then linked to an entry of the first table.\<close>

lemma tables_fill:
  assumes t: "tables w b f (pending l @ r) l" and i: "\<not> b i" "i < TBL24_ENTRIES" and g: "fresh b r l g" and w: "link_ok w i g"
    and out: "\<And>k. \<not> (256 * g \<le> k \<and> k < 256 * g + 256) \<Longrightarrow> t' k = tbl8 l k"
    and v: "valid_group (t' (256 * g))" and e: "\<And>j. j < 256 \<Longrightarrow> ent_ok (t' (256 * g + j)) (f' j)"
  shows "tables w (b(i := True)) (f(i := f')) (pending l @ r) (l\<lparr>tbl8 := t', tbl24 := (tbl24 l)(i := group_entry g)\<rparr>)"
proof -
  have g: "unused b (pending l @ r) l g" using g by (simp add: fresh_def)
  note T = tables_unused [of w b f "pending l @ r" l g t', OF t g out]
  have "tables w (b(i := True)) (f(i := f')) (pending l @ r)
      ((l\<lparr>tbl8 := t'\<rparr>)\<lparr>tbl24 := (tbl24 (l\<lparr>tbl8 := t'\<rparr>))(i := group_entry g)\<rparr>)"
    by (rule tables_link [OF T(1) i T(2) w]) (use v e in auto)
  then show ?thesis by simp
qed

lemma same_rules_via: "same_rules l l1 \<Longrightarrow> same_rest l1 l2 \<Longrightarrow> same_rules l l2"
  using same_restD(1) same_rules_trans by blast

lemma add_depth_big_ok:
  fixes R :: routes and h x :: u32
  assumes t: "tables w (big R) (mt R) (pending l @ r) l" and rcu: "rcu_ok l" and d: "24 < d" "d \<le> 32" and x: "pfx d x = x"
    and w: "\<forall>i g. \<not> big R i \<longrightarrow> link_ok w i g"
  defines "R' \<equiv> route_add R d x h"
  shows "\<exists>l' rc. add_depth_big l x (of_nat d) h = Some (l', rc) \<and> rcu_ok l' \<and> same_rules l l' \<and> rcu_step l l' \<and>
    (rc = 0 \<and> tables w (big R') (mt R') (pending l' @ r) l' \<or>
     rc = LPM_ENOSPC \<and> tables w (big R) (mt R) (pending l' @ r) l' \<and> \<not> big R (unat (drop_bit 8 x)) \<and> groups_taken l)"
proof -
  let ?i = "unat (drop_bit 8 x)" and ?s = "unat (x AND 0xFF)" and ?n = "depth_to_range (of_nat d)" and ?e = "tbl24 l (unat (drop_bit 8 x))"
  have d0: "0 < d" using d by simp
  have i: "?i < TBL24_ENTRIES" by (rule index_bounds)
  have n: "?s + ?n \<le> 256" using big_range(2) [OF d x, of 0 0] by simp
  have in_rng: "pfx d (addr k j) = x \<longleftrightarrow> k = ?i \<and> ?s \<le> j \<and> j < ?s + ?n" if "k < TBL24_ENTRIES" "j < 256" for k j
    using big_range(1) [OF d x that] .
  have m: "mt R' k j = (if k = ?i \<and> ?s \<le> j \<and> j < ?s + ?n then madd (mt R k j) d h else mt R k j)" if "k < TBL24_ENTRIES" "j < 256" for k j
    unfolding R'_def mt_add [OF d0 d(2)] in_rng [OF that] ..
  have B: "big R' = (big R)(?i := True)" unfolding R'_def by (rule big_add_big [OF d(1)])
  have fin: "tables w (big R') (mt R') q s" if "tables w ((big R)(?i := True)) ((mt R)(?i := mt R' ?i)) q s" for q s
    by (rule tables_cong [OF that]) (auto simp: B m)
  have fill: "\<exists>l' rc. add_depth_big l x (of_nat d) h = Some (l', rc) \<and> rcu_ok l' \<and> same_rules l l' \<and> rcu_step l l' \<and>
      (rc = 0 \<and> tables w (big R') (mt R') (pending l' @ r) l' \<or> rc = LPM_ENOSPC \<and> tables w (big R) (mt R) (pending l' @ r) l' \<and> \<not> big R ?i \<and> groups_taken l)"
    if nb: "\<not> big R ?i" and ex: "\<And>l1 g. tbl8_alloc l = Some (l1, int g) \<Longrightarrow> 256 * g + 256 \<le> tbl8_size l1 \<Longrightarrow> g < 2 ^ 22 \<Longrightarrow> tbl24 l1 = tbl24 l \<Longrightarrow>
        add_depth_big l x (of_nat d) h = Some (l1\<lparr>tbl8 := upd8 (256 * g + ?s) ?n (\<lambda>t. new_entry h (valid_group t) (of_nat d)) (u g (tbl8 l1)),
          tbl24 := (tbl24 l1)(?i := group_entry g)\<rparr>, 0)"
      and fail: "\<And>l1. tbl8_alloc l = Some (l1, LPM_ENOSPC) \<Longrightarrow> add_depth_big l x (of_nat d) h = Some (l1, LPM_ENOSPC)"
      and out: "\<And>g t k. \<not> (256 * g \<le> k \<and> k < 256 * g + 256) \<Longrightarrow> u g t k = t k"
      and ent: "\<And>g (t :: nat \<Rightarrow> rte_lpm_tbl_entry) j. \<not> valid (t (256 * g + j)) \<Longrightarrow> j < 256 \<Longrightarrow> ent_ok (u g t (256 * g + j)) (mt R ?i j)"
      and vg: "\<And>g t k. valid_group (u g t k) = valid_group (t k)" for u
  proof -
    obtain l1 g where a: "tbl8_alloc l = Some (l1, g)" "tables w (big R) (mt R) (pending l1 @ r) l1" "rcu_ok l1" "same_rules l l1" "tbl24 l1 = tbl24 l"
      "rcu_step l l1" "g = LPM_ENOSPC \<and> groups_taken l \<or> 0 \<le> g \<and> fresh (big R) r l1 (nat g)" using tbl8_alloc_ok [OF t rcu] by (elim exE conjE)
    show ?thesis
    proof (cases "g = LPM_ENOSPC")
      case True
      then show ?thesis using fail [of l1] a(1-4,6,7) nb by simp
    next
      case False
      then obtain g' where g: "g = int g'" "fresh (big R) r l1 g'" using a(7) by (metis int_nat_eq)
      then have "g' < unat (number_tbl8s l1)" by (simp add: fresh_def unused_def)
      then have sz: "256 * g' + 256 \<le> tbl8_size l1" "g' < 2 ^ 22" using tablesD(3,4) [OF a(2) i] by auto
      let ?t = "upd8 (256 * g' + ?s) ?n (\<lambda>t. new_entry h (valid_group t) (of_nat d)) (u g' (tbl8 l1))"
      let ?l = "l1\<lparr>tbl8 := ?t, tbl24 := (tbl24 l1)(?i := group_entry g')\<rparr>"
      have "tables w ((big R)(?i := True)) ((mt R)(?i := mt R' ?i)) (pending l1 @ r) ?l"
      proof (rule tables_fill [OF a(2) nb i g(2) w [rule_format, OF nb]])
        show "?t k = tbl8 l1 k" if "\<not> (256 * g' \<le> k \<and> k < 256 * g' + 256)" for k
          using that n out [OF that] by (auto simp: upd8_def)
        show "valid_group (?t (256 * g'))" using g(2) vg by (simp add: upd8_def new_entry_def fresh_def)
        fix j :: nat assume j: "j < 256"
        have U: "ent_ok (u g' (tbl8 l1) (256 * g' + j)) (mt R ?i j)" using ent j g(2) by (simp add: fresh_def)
        have "madd (mt R ?i j) d h = Some (d, h)"
        proof (cases "mt R ?i j")
          case (Some y)
          then have "fst y \<le> 24" using mt_deep [of R ?i j "fst y" "snd y"] nb i j by (cases y) (fastforce simp: not_le [symmetric])
          then show ?thesis using Some d by (cases y) (simp add: madd_def)
        qed (simp add: madd_def)
        then show "ent_ok (?t (256 * g' + j)) (mt R' ?i j)"
          using U j m [OF i j] new_entry_ok [OF d(2)] by (auto simp: upd8_def)
      qed
      then have "tables w (big R') (mt R') (pending ?l @ r) ?l" using fin by simp
      then show ?thesis using ex [of l1 g'] a g(1) sz by (intro exI [of _ ?l] exI [of _ 0]) simp
    qed
  qed
  show ?thesis
  proof (cases "big R ?i")
    case True
    then have v: "valid ?e" "valid_group ?e" using tablesD(1) [OF t i] by (auto simp: slot_ok_def)
    have E: "ent_ok (if ?s \<le> j \<and> j < ?s + ?n then u_add (of_nat d) h valid_group e else e) (mt R' ?i j)"
      if "j < 256" "ent_ok e (mt R ?i j)" for j e
      using ent_add [OF that(2) d(2), of h valid_group] m [OF i that(1)] that(2) by simp
    note L = tables_loop [OF t i True bodies8(3) n u_add_group(2) E]
    have "add_depth_big l x (of_nat d) h = Some (l\<lparr>tbl8 := upd8 (256 * grp l ?i + ?s) ?n (u_add (of_nat d) h valid_group) (tbl8 l)\<rparr>, 0)"
      using L(1) v i group_start_ok [OF t i True] by (simp add: add_depth_big_def get24_def Let_def)
    moreover have "(big R)(?i := True) = big R" using True by (simp add: fun_eq_iff)
    ultimately show ?thesis using fin [of "pending l @ r"] L(2) rcu by simp
  next
    case False
    then have e: "valid ?e \<longrightarrow> \<not> valid_group ?e" "\<And>j. j < 256 \<Longrightarrow> ent_ok ?e (mt R ?i j)"
      using tablesD(1) [OF t i] by (auto simp: slot_ok_def)
    have st: "group_start g = Some (256 * g)" if "g < 2 ^ 22" for g using that by (simp add: group_start_def mult.commute)
    have put: "for_n ?n (256 * g + ?s) (put_8 (of_nat d) h) l1 = Some (l1\<lparr>tbl8 := upd8 (256 * g + ?s) ?n (\<lambda>t. new_entry h (valid_group t) (of_nat d)) (tbl8 l1)\<rparr>)"
      if "256 * g + 256 \<le> tbl8_size l1" for g l1 using for_n_8 [OF bodies8(4)] that n by simp
    show ?thesis
    proof (cases "valid ?e")
      case v: False
      show ?thesis
      proof (rule fill [OF False, where u = "\<lambda>_ t. t"])
        fix l1 g assume "tbl8_alloc l = Some (l1, int g)" "256 * g + 256 \<le> tbl8_size l1" "g < 2 ^ 22" "tbl24 l1 = tbl24 l"
        then show "add_depth_big l x (of_nat d) h = Some (l1\<lparr>tbl8 := upd8 (256 * g + ?s) ?n (\<lambda>t. new_entry h (valid_group t) (of_nat d)) (tbl8 l1),
          tbl24 := (tbl24 l1)(?i := group_entry g)\<rparr>, 0)"
          using v i put st by (simp add: add_depth_big_def get24_def set24_def Let_def)
      next
        fix l1 assume "tbl8_alloc l = Some (l1, LPM_ENOSPC)"
        then show "add_depth_big l x (of_nat d) h = Some (l1, LPM_ENOSPC)" using v i by (simp add: add_depth_big_def get24_def Let_def)
      next
        fix g j :: nat and t :: "nat \<Rightarrow> rte_lpm_tbl_entry" assume "\<not> valid (t (256 * g + j))" "j < 256"
        moreover have "mt R ?i j = None" using e(2) [OF \<open>j < 256\<close>] v by (auto simp: ent_ok_def split: option.splits)
        ultimately show "ent_ok (t (256 * g + j)) (mt R ?i j)" by (simp add: ent_ok_def)
      qed simp_all
    next
      case v: True
      let ?u = "\<lambda>t. ?e\<lparr>valid := True, valid_group := valid_group t\<rparr>"
      have c: "for_n 256 (256 * g) (copy_8 ?e) l1 = Some (l1\<lparr>tbl8 := upd8 (256 * g) 256 ?u (tbl8 l1)\<rparr>)"
        if "256 * g + 256 \<le> tbl8_size l1" for g l1 using for_n_8 [OF bodies8(5)] that by simp
      show ?thesis
      proof (rule fill [OF False, where u = "\<lambda>g. upd8 (256 * g) 256 ?u"])
        fix l1 g assume "tbl8_alloc l = Some (l1, int g)" "256 * g + 256 \<le> tbl8_size l1" "g < 2 ^ 22" "tbl24 l1 = tbl24 l"
        then show "add_depth_big l x (of_nat d) h = Some (l1\<lparr>tbl8 := upd8 (256 * g + ?s) ?n (\<lambda>t. new_entry h (valid_group t) (of_nat d)) (upd8 (256 * g) 256 ?u (tbl8 l1)),
          tbl24 := (tbl24 l1)(?i := group_entry g)\<rparr>, 0)"
          using v e(1) i put [of g "l1\<lparr>tbl8 := upd8 (256 * g) 256 ?u (tbl8 l1)\<rparr>"] c st by (simp add: add_depth_big_def get24_def set24_def Let_def)
      next
        fix l1 assume "tbl8_alloc l = Some (l1, LPM_ENOSPC)"
        then show "add_depth_big l x (of_nat d) h = Some (l1, LPM_ENOSPC)" using v e(1) i by (simp add: add_depth_big_def get24_def Let_def)
      next
        fix g j :: nat and t :: "nat \<Rightarrow> rte_lpm_tbl_entry" assume "j < 256"
        then show "ent_ok (upd8 (256 * g) 256 ?u t (256 * g + j)) (mt R ?i j)"
          using e(2) [of j] v by (auto simp: upd8_def ent_ok_def split: option.splits)
      qed (auto simp: upd8_def)
    qed
  qed
qed

end
