(* ===== verification/Lpm_Inv.thy ===== *)
theory Lpm_Inv
  imports Lpm_Add Lpm_Rules_Del
begin

text \<open>The invariant of a whole table, and \<open>rte_lpm_add\<close> against it.\<close>

section \<open>The invariant\<close>

text \<open>
  A table holds the routes \<open>R\<close>: its rules are those of \<open>R\<close>, and its two tables give the longest match of every address.
  The general form has what a reader watches, and the groups \<open>r\<close> that were lost because the defer queue was full.
\<close>

definition rules_hold :: "rte_lpm \<Rightarrow> routes \<Rightarrow> bool" where
  "rules_hold l R \<longleftrightarrow> (\<exists>gs. rules_ok l gs \<and> wf_groups gs \<and> R = routes_of gs)"

definition lpm_state :: "watch \<Rightarrow> u32 list \<Rightarrow> rte_lpm \<Rightarrow> routes \<Rightarrow> bool" where
  "lpm_state w r l R \<longleftrightarrow> rules_hold l R \<and> tables w (big R) (mt R) (pending l @ r) l \<and> rcu_ok l"

definition lpm_holds :: "rte_lpm \<Rightarrow> routes \<Rightarrow> bool" where
  "lpm_holds l R \<longleftrightarrow> rules_hold l R \<and> tables no_watch (big R) (mt R) (pending l) l \<and> rcu_ok l"

lemma lpm_holds_state: "lpm_holds l R = lpm_state no_watch [] l R"
  by (simp add: lpm_holds_def lpm_state_def)

lemma lpm_state_holds: "lpm_state w r l R \<Longrightarrow> lpm_holds l R"
proof -
  assume s: "lpm_state w r l R"
  then have "tables w (big R) (mt R) (pending l) l" unfolding lpm_state_def by (auto elim: tables_sub simp: tables_def)
  then show ?thesis using s tables_no_watch by (auto simp: lpm_state_def lpm_holds_def)
qed

definition rules_used :: "rte_lpm \<Rightarrow> nat" where "rules_used l = sum_list (map (\<lambda>i. unat (used_rules i)) (rule_info l))"

lemma rules_used_ok: "rules_ok l gs \<Longrightarrow> rules_used l = length (concat gs)"
proof -
  assume ok: "rules_ok l gs"
  then have "map (\<lambda>i. unat (used_rules i)) (rule_info l) = map length gs"
    by (intro nth_equalityI) (auto simp: rules_ok_def info_ok_def)
  then show ?thesis by (simp add: rules_used_def length_concat)
qed

lemma rules_via: "same_rules l l' \<Longrightarrow> rules_ok l' gs = rules_ok l gs"
  by (simp add: same_rules_def rules_ok_def)

lemma lpm_stateI:
  "rules_ok l gs \<Longrightarrow> wf_groups gs \<Longrightarrow> R = routes_of gs \<Longrightarrow> tables w (big R) (mt R) (pending l @ r) l \<Longrightarrow> rcu_ok l \<Longrightarrow> lpm_state w r l R"
  by (auto simp: lpm_state_def rules_hold_def)

lemma lpm_holdsI:
  "rules_ok l gs \<Longrightarrow> wf_groups gs \<Longrightarrow> R = routes_of gs \<Longrightarrow> tables no_watch (big R) (mt R) (pending l) l \<Longrightarrow> rcu_ok l \<Longrightarrow> lpm_holds l R"
  by (auto simp: lpm_holds_def rules_hold_def)

lemma rules_hold_wf: "rules_hold l R \<Longrightarrow> wf_routes R"
  by (auto simp: rules_hold_def rules_ok_def intro: wf_routes_of)

lemma lpm_holds_wf: "lpm_holds l R \<Longrightarrow> wf_routes R"
  by (auto simp: lpm_holds_def intro: rules_hold_wf)

lemma rules_hold_var [simp]: "rules_hold (l\<lparr>lpm_v := v\<rparr>) R = rules_hold l R"
  by (simp add: rules_hold_def rules_ok_def)

lemma pending_var [simp]: "pending (l\<lparr>lpm_v := v\<rparr>) = pending l" "queue (l\<lparr>lpm_v := v\<rparr>) = queue l"
  by (simp_all add: pending_def queue_def)

lemma rcu_ok_var: "rcu_ok l \<Longrightarrow> lpm_v l \<noteq> None \<Longrightarrow> qsbr_ok v \<Longrightarrow> rcu_ok (l\<lparr>lpm_v := Some v\<rparr>)"
  by (simp add: rcu_ok_def)

lemma lpm_state_var: "lpm_state w r l R \<Longrightarrow> lpm_v l \<noteq> None \<Longrightarrow> qsbr_ok v \<Longrightarrow> lpm_state w r (l\<lparr>lpm_v := Some v\<rparr>) R"
  by (simp add: lpm_state_def rcu_ok_var)

lemma lpm_holds_dom: "lpm_holds l R \<Longrightarrow> R d x = Some h \<Longrightarrow> 0 < d \<and> d \<le> 32 \<and> pfx d x = x"
  using lpm_holds_wf by (fastforce simp: wf_routes_def)

lemma add_del_new: "R d x = None \<Longrightarrow> route_del (route_add R d x h) d x = R"
  by (auto simp: fun_eq_iff route_add_def route_del_def)

lemma add_same: "R d x = Some h \<Longrightarrow> route_add R d x h = R"
  by (auto simp: fun_eq_iff route_add_def)

section \<open>Adding\<close>

text \<open>An address added again, a full table and a lack of groups leave the routes as they are.\<close>

lemma lpm_state_add:
  assumes inv: "lpm_state w r l R" and w: "\<forall>i g. \<not> big R i \<longrightarrow> link_ok w i g" and d: "0 < d" "d \<le> 32" and x: "x = pfx d ip"
  shows "\<exists>l' rc. rte_lpm_add l ip (of_nat d) h = Some (l', rc) \<and> rcu_step l l' \<and>
    (rc = 0 \<and> lpm_state w r l' (route_add R d x h) \<or>
     rc = LPM_ENOSPC \<and> lpm_state w r l' R \<and> R d x = None \<and> (rules_used l = unat (max_rules l) \<or> 24 < d \<and> \<not> big R (unat (drop_bit 8 ip)) \<and> groups_taken l))"
proof -
  let ?d = "of_nat d :: u8" and ?R = "route_add R d x h"
  have u: "unat ?d = d" using d by (simp add: unat_of_nat)
  have ne: "\<not> ?d < 1" "\<not> 32 < unat ?d" using d by (auto simp: u word_less_nat_alt)
  have px: "pfx d x = x" "ip AND depth_to_mask ?d = x" unfolding x pfx_pfx by (simp_all add: pfx_def)
  obtain gs where gs: "rules_ok l gs" "wf_groups gs" "R = routes_of gs" and t: "tables w (big R) (mt R) (pending l @ r) l" and rcu: "rcu_ok l"
    using inv by (auto simp: lpm_state_def rules_hold_def)
  obtain l1 rc gs1 where a: "rule_add l x ?d h = Some (l1, rc)" "rules_ok l1 gs1" "wf_groups gs1" "same_tables l l1"
    "add_result R d x h (length (concat gs) = unat (max_rules l)) rc (routes_of gs1)" "0 \<le> rc \<longrightarrow> rule_at gs1 d x rc \<or> R d x \<noteq> None"
    using rule_add_ok [OF gs(1,2) d px(1), of h] unfolding gs(3) [symmetric] by (elim exE conjE)
  have t1: "tables w (big R) (mt R) (pending l1 @ r) l1" "rcu_ok l1" using t rcu a(4) by (simp_all add: tables_same rcu_same)
  note st = rcu_step_tables [OF a(4)]
  have eq: "rte_lpm_add l ip ?d h =
      (if rc = LPM_EEXIST then Some (l1, 0) else if rc < 0 then Some (l1, rc)
       else if d \<le> 24 then do { (l, _) \<leftarrow> add_depth_small l1 x ?d h; Some (l, 0) }
       else do { (l, status) \<leftarrow> add_depth_big l1 x ?d h;
         (if status < 0 then do { l \<leftarrow> rule_delete l rc ?d; Some (l, status) } else Some (l, 0)) })"
    using ne by (simp add: rte_lpm_add_def px a(1) u)
  have "rc = LPM_EEXIST \<and> routes_of gs1 = R \<and> R d x = Some h \<or> rc = LPM_ENOSPC \<and> routes_of gs1 = R \<and> R d x = None \<and> rules_used l = unat (max_rules l) \<or>
      0 \<le> rc \<and> routes_of gs1 = ?R"
    using a(5) rules_used_ok [OF gs(1)] by (auto simp: add_result_def split: option.splits if_splits)
  then consider (same) "rc = LPM_EEXIST" "routes_of gs1 = R" "R d x = Some h" | (full) "rc = LPM_ENOSPC" "routes_of gs1 = R" "R d x = None" "rules_used l = unat (max_rules l)"
    | (new) "0 \<le> rc" "routes_of gs1 = ?R" by (elim disjE conjE) simp_all
  then show ?thesis
  proof cases
    case same
    then have "lpm_state w r l1 ?R" using a(2,3) t1 by (intro lpm_stateI) (auto simp: add_same)
    then show ?thesis using eq same st by simp
  next
    case full
    then have "lpm_state w r l1 R" using a(2,3) t1 by (intro lpm_stateI) auto
    then show ?thesis using eq full st by simp
  next
    case new
    show ?thesis
    proof (cases "d \<le> 24")
      case True
      obtain l2 where b: "add_depth_small l1 x ?d h = Some (l2, 0)" "tables w (big ?R) (mt ?R) (pending l1 @ r) l2" "same_rest l1 l2"
        using add_depth_small_ok [OF t1(1) d(1) True px(1), of h] by (elim exE conjE)
      note S = same_restD [OF b(3)]
      have "lpm_state w r l2 ?R" using a(2,3) b(2) t1(2) new(2) S by (intro lpm_stateI [of _ gs1]) (auto simp: rules_via [OF S(1)])
      then show ?thesis using eq new True b(1) st S by simp
    next
      case False
      then have d24: "24 < d" by simp
      obtain l2 st where b: "add_depth_big l1 x ?d h = Some (l2, st)" "rcu_ok l2" "same_rules l1 l2" "rcu_step l1 l2"
        "st = 0 \<and> tables w (big ?R) (mt ?R) (pending l2 @ r) l2 \<or> st = LPM_ENOSPC \<and> tables w (big R) (mt R) (pending l2 @ r) l2 \<and> \<not> big R (unat (drop_bit 8 x)) \<and> groups_taken l1"
        using add_depth_big_ok [OF t1 d24 d(2) px(1) w, of h] by (elim exE conjE)
      have r2: "rules_ok l2 gs1" using a(2) by (simp add: rules_via [OF b(3)])
      from b(5) show ?thesis
      proof
        assume c: "st = 0 \<and> tables w (big ?R) (mt ?R) (pending l2 @ r) l2"
        then have "lpm_state w r l2 ?R" using r2 a(3) b(2) new(2) by (intro lpm_stateI) auto
        then show ?thesis using eq new False b(1,4) c st by simp
      next
        assume c: "st = LPM_ENOSPC \<and> tables w (big R) (mt R) (pending l2 @ r) l2 \<and> \<not> big R (unat (drop_bit 8 x)) \<and> groups_taken l1"
        then have none: "R d x = None" using d24 by (auto simp: big_def)
        have "rule_at gs1 d x rc" using a(6) new none by simp
        from rule_delete_ok [OF r2 a(3) d this] obtain l3 gs3 where e: "rule_delete l2 rc ?d = Some l3" "rules_ok l3 gs3" "wf_groups gs3"
          "same_tables l2 l3" "routes_of gs3 = route_del (routes_of gs1) d x" by (elim exE conjE)
        have R: "routes_of gs3 = R" using e(5) new(2) none by (simp add: add_del_new)
        have "lpm_state w r l3 R" using c b(2) R by (intro lpm_stateI [OF e(2,3)]) (simp_all add: tables_same [OF e(4)] rcu_same [OF e(4)])
        moreover have "\<not> big R (unat (drop_bit 8 ip))"
        proof -
          have a: "addr (unat (drop_bit 8 ip)) (unat (ip AND 0xFF)) = ip" by (rule addr_split)
          have "pfx d (addr (unat (drop_bit 8 ip)) (unat (ip AND 0xFF))) = x" unfolding a x ..
          then have "unat (drop_bit 8 ip) = unat (drop_bit 8 x)" using big_range(1) [OF d24 d(2) px(1) index_bounds] by simp
          then show ?thesis using c by simp
        qed
        ultimately show ?thesis using eq new False b(1,4) c e(1) none d24 st groups_taken_same [OF a(4)] rcu_step_tables [OF e(4)] by simp
      qed
    qed
  qed
qed

lemma lpm_add_ok:
  assumes inv: "lpm_holds l R" and d: "0 < d" "d \<le> 32" and x: "x = pfx d ip"
  shows "\<exists>l' rc. rte_lpm_add l ip (of_nat d) h = Some (l', rc) \<and>
    (rc = 0 \<and> lpm_holds l' (route_add R d x h) \<or>
     rc = LPM_ENOSPC \<and> lpm_holds l' R \<and> R d x = None \<and> (rules_used l = unat (max_rules l) \<or> 24 < d \<and> \<not> big R (unat (drop_bit 8 ip)) \<and> groups_taken l))"
proof -
  have "\<forall>i g. \<not> big R i \<longrightarrow> link_ok no_watch i g" by (simp add: no_watch_def)
  from lpm_state_add [OF inv [unfolded lpm_holds_state] this d x, of h] show ?thesis by (auto dest: lpm_state_holds)
qed

end
