(* ===== verification/Lpm_Delete.thy ===== *)
theory Lpm_Delete
  imports Lpm_Inv
begin

text \<open>Deleting a route puts the next longest match in its place, and lets go of groups that are no longer needed.\<close>

section \<open>The rule that takes over\<close>

definition sub_ok :: "rte_lpm \<Rightarrow> int \<Rightarrow> u8 \<Rightarrow> (nat \<times> u32) option \<Rightarrow> bool" where
  "sub_ok l sub sub_depth m \<longleftrightarrow>
     (case m of None \<Rightarrow> sub < 0
      | Some (k, h) \<Rightarrow> 0 \<le> sub \<and> sub_depth = of_nat k \<and> (\<exists>r. nth_opt (rules_tbl l) (nat sub) = Some r \<and> rule_next_hop r = h))"

lemma previous_rule_ok:
  assumes ok: "rules_ok l gs" and wf: "wf_groups gs"
  shows "n \<le> 32 \<Longrightarrow> \<exists>sub k. previous_rule n l ip = Some (sub, k) \<and> sub_ok l sub k (best (routes_of gs) n ip)"
proof (induction n)
  case (Suc n)
  have n: "0 < Suc n" "Suc n \<le> 32" using Suc.prems by simp_all
  have p: "ip AND depth_to_mask (of_nat (Suc n)) = pfx (Suc n) ip" by (simp only: pfx_def)
  note F = rule_find_ok [OF ok wf n, of "pfx (Suc n) ip"]
  show ?case
  proof (cases "routes_of gs (Suc n) (pfx (Suc n) ip)")
    case None
    then have "rule_find l (pfx (Suc n) ip) (of_nat (Suc n)) = Some LPM_EINVAL" using F by simp
    then show ?thesis using None Suc by (simp del: of_nat_Suc add: p)
  next
    case (Some h)
    then obtain i where "rule_find l (pfx (Suc n) ip) (of_nat (Suc n)) = Some i" "0 \<le> i" "nat i < length (rules_tbl l)"
      "rule_next_hop (rules_tbl l ! nat i) = h" using F by (auto simp del: of_nat_Suc)
    then show ?thesis using Some by (simp del: of_nat_Suc add: p sub_ok_def nth_opt_def)
  qed
qed (simp add: sub_ok_def)

lemma pfx_le:
  assumes "0 < k" "k \<le> d" "d \<le> 32"
  shows "pfx k (pfx d a) = pfx k a"
proof -
  have "depth_to_mask (of_nat d) AND depth_to_mask (of_nat k) = depth_to_mask (of_nat k)"
    using assms by (simp add: depth_to_mask_eq) (rule bit_word_eqI, auto simp: bit_simps)
  then show ?thesis by (simp add: pfx_def and.assoc)
qed

lemma best_under: "pfx d a = pfx d b \<Longrightarrow> d \<le> 32 \<Longrightarrow> best R (d - 1) a = best R (d - 1) b"
  by (rule best_cong) (metis pfx_le diff_le_self order_trans)

lemma covered:
  assumes "R d (pfx d (addr i j)) \<noteq> None" "0 < d" "d \<le> 32"
  shows "\<exists>d' h'. mt R i j = Some (d', h') \<and> d \<le> d'"
proof -
  have "mt R i j \<noteq> None" using assms by (auto simp: mt_def best_None_iff)
  then obtain d' h' where m: "mt R i j = Some (d', h')" by auto
  then have "\<not> d' < d" using assms by (auto simp: mt_def best_Some_iff)
  then show ?thesis using m by auto
qed

section \<open>Short prefixes\<close>

text \<open>What the loop bodies put into an entry.\<close>

definition sub_entry :: "(nat \<times> u32) option \<Rightarrow> bool \<Rightarrow> rte_lpm_tbl_entry" where
  "sub_entry m vg = (case m of None \<Rightarrow> zero_entry | Some (k, h) \<Rightarrow> new_entry h vg (of_nat k))"

definition sub_8 :: "(nat \<times> u32) option \<Rightarrow> rte_lpm_tbl_entry \<Rightarrow> rte_lpm_tbl_entry" where
  "sub_8 m t = (case m of None \<Rightarrow> t\<lparr>valid := False\<rparr> | Some (k, h) \<Rightarrow> new_entry h True (of_nat k))"

definition sub_body :: "u8 \<Rightarrow> (nat \<times> u32) option \<Rightarrow> nat \<Rightarrow> rte_lpm \<Rightarrow> rte_lpm option" where
  "sub_body d m = (case m of None \<Rightarrow> invalidate_8 d | Some (k, h) \<Rightarrow> replace_8 d (new_entry h True (of_nat k)))"

lemma sub_entries:
  assumes "\<And>k h. m = Some (k, h) \<Longrightarrow> k \<le> 32"
  shows "ent_ok (sub_entry m vg) m" "\<not> valid_group (sub_entry m False)" "ent_ok (sub_8 m t) m" "valid_group t \<Longrightarrow> valid_group (sub_8 m t)"
    "changes8 (sub_body d m) (u_del d (sub_8 m))"
proof -
  have e: "sub_8 None = (\<lambda>t. t\<lparr>valid := False\<rparr>)" "sub_8 (Some (k, h)) = (\<lambda>t. new_entry h True (of_nat k))" for k h
    by (simp_all add: fun_eq_iff sub_8_def)
  show "ent_ok (sub_entry m vg) m" "\<not> valid_group (sub_entry m False)" "ent_ok (sub_8 m t) m" "valid_group t \<Longrightarrow> valid_group (sub_8 m t)"
    using assms new_entry_ok by (auto simp: sub_entry_def sub_8_def zero_entry_def new_entry_def ent_invalid split: option.splits)
  show "changes8 (sub_body d m) (u_del d (sub_8 m))"
    by (cases m) (auto simp: sub_body_def e bodies8)
qed

lemma u_del_group: "(\<And>t. valid_group t \<Longrightarrow> valid_group (new t)) \<Longrightarrow> valid_group e \<Longrightarrow> valid_group (u_del d new e)"
  by (simp add: u_del_def)

lemma sub_depth_le: "best R (d - 1) a = Some (k, h) \<Longrightarrow> d \<le> 32 \<Longrightarrow> k \<le> 32"
  using best_depth [of R "d - 1" a k h] by linarith

lemma delete_depth_small_ok:
  assumes t: "tables w (big R) (mt R) q l" and d: "0 < d" "d \<le> 24" and x: "pfx d x = x" and r: "R d x \<noteq> None"
    and s: "sub_ok l sub sub_depth (best R (d - 1) x)"
  shows "\<exists>l'. delete_depth_small l x (of_nat d) sub sub_depth = Some (l', 0) \<and>
    tables w (big (route_del R d x)) (mt (route_del R d x)) q l' \<and> same_rest l l'"
proof -
  let ?R = "route_del R d x" and ?m = "best R (d - 1) x" and ?d = "of_nat d :: u8"
  let ?body = "delete_small_24 ?d (sub_entry ?m False) (sub_body ?d ?m)"
  have d32: "d \<le> 32" using d by simp
  have u: "unat ?d = d" using d by (simp add: unat_of_nat)
  note E = sub_entries [OF sub_depth_le [OF _ d32, of R x]]
  have m: "mt ?R i j = (if pfx d (addr i j) = x then mdel (mt R i j) d ?m else mt R i j)" for i j
    using mt_del [OF d(1) d32, of R x i j] best_under [of d "addr i j" x R] x d32 by (auto simp: mt_def)
  have "delete_depth_small l x ?d sub sub_depth =
      map_option (\<lambda>l. (l, 0)) (for_n (depth_to_range ?d) (unat (drop_bit 8 x)) ?body l)"
  proof (cases ?m)
    case None
    then show ?thesis using s by (simp add: delete_depth_small_def sub_ok_def sub_entry_def sub_body_def map_conv_bind_option comp_def)
  next
    case (Some y)
    obtain k h where y: "y = (k, h)" by (cases y)
    then obtain r where "0 \<le> sub" "sub_depth = of_nat k" "nth_opt (rules_tbl l) (nat sub) = Some r" "rule_next_hop r = h"
      using s Some unfolding sub_ok_def by (simp del: nth_opt_Some) blast
    then show ?thesis using Some y by (simp del: nth_opt_Some add: delete_depth_small_def sub_entry_def sub_body_def map_conv_bind_option comp_def)
  qed
  moreover have "\<exists>l'. for_n (depth_to_range ?d) (unat (drop_bit 8 x)) ?body l = Some l' \<and> tables w (big ?R) (mt ?R) q l' \<and> same_rest l l'"
  proof (rule small_loop_ok [OF t d x big_del_small [OF d(2)] _ E(5) u_del_group [OF E(4)]])
    show "mt ?R i j = mt R i j" if "pfx d (addr i j) \<noteq> x" for i j using that m by simp
    show "ent_ok (u_del ?d (sub_8 ?m) e) (mt ?R i j) \<and> ent_ok (u_del ?d (\<lambda>_. sub_entry ?m False) e) (mt ?R i j)"
      if "pfx d (addr i j) = x" "ent_ok e (mt R i j)" for i j e
    proof -
      obtain d' h' where "mt R i j = Some (d', h')" "d \<le> d'" using covered [OF _ d(1) d32, of R i j] r unfolding \<open>pfx d (addr i j) = x\<close> by blast
      then show ?thesis using that m ent_del [OF that(2) d32] E(1,3) by simp
    qed
    show "valid (u_del ?d (\<lambda>_. sub_entry ?m False) e) \<longrightarrow> \<not> valid_group (u_del ?d (\<lambda>_. sub_entry ?m False) e)"
      if "valid e \<longrightarrow> \<not> valid_group e" for e using that E(2) by (simp add: u_del_def)
    show "?body i s = do { a \<leftarrow> group_start (unat (next_hop (tbl24 s i))); for_n 256 a (sub_body ?d ?m) s }"
      if "i < TBL24_ENTRIES" "valid (tbl24 s i)" "valid_group (tbl24 s i)" for i s using that by (simp add: delete_small_24_def get24_def)
    show "?body i s = Some (s\<lparr>tbl24 := (tbl24 s)(i := u_del ?d (\<lambda>_. sub_entry ?m False) (tbl24 s i))\<rparr>)"
      if "i < TBL24_ENTRIES" "valid (tbl24 s i) \<longrightarrow> \<not> valid_group (tbl24 s i)" "ent_ok (tbl24 s i) (mt R i 0)" "pfx d (addr i 0) = x" for i s
    proof -
      have "valid (tbl24 s i)" using covered [OF _ d(1) d32, of R i 0] r that(3) unfolding that(4) by (auto simp: ent_ok_def)
      then show ?thesis using that by (auto simp: delete_small_24_def get24_def set24_def u_del_def u)
    qed
  qed
  ultimately show ?thesis by auto
qed

section \<open>Recycling a group\<close>

lemma all_8_eq: "j + n \<le> tbl8_size l \<Longrightarrow> all_8 ok n j l = Some (\<forall>k < n. ok (tbl8 l (j + k)))"
  by (induction n arbitrary: j) (auto simp: get8_def All_less_Suc2)

lemma recycle_check_ok:
  assumes e: "\<And>j. j < 256 \<Longrightarrow> ent_ok (tbl8 l (256 * g + j)) (mt R i j)" and sz: "256 * g + 256 \<le> tbl8_size l"
    and wf: "wf_routes R" and i: "i < TBL24_ENTRIES"
  shows "tbl8_recycle_check l (256 * g) =
    Some (if big R i then LPM_EEXIST else if mt R i 0 = None then LPM_EINVAL else int (256 * g))"
proof -
  let ?t = "\<lambda>j. tbl8 l (256 * g + j)"
  have S: "(\<forall>k < 255. P (256 * g + 1 + k)) \<longleftrightarrow> (\<forall>j < 256. 0 < j \<longrightarrow> P (256 * g + j))" for P
  proof
    assume a: "\<forall>k < 255. P (256 * g + 1 + k)"
    have "P (256 * g + j)" if "j < 256" "0 < j" for j using spec [OF a, of "j - 1"] that by simp
    then show "\<forall>j < 256. 0 < j \<longrightarrow> P (256 * g + j)" by simp
  next
    assume a: "\<forall>j < 256. 0 < j \<longrightarrow> P (256 * g + j)"
    have "P (256 * g + 1 + k)" if "k < 255" for k using spec [OF a, of "k + 1"] that by simp
    then show "\<forall>k < 255. P (256 * g + 1 + k)" by simp
  qed
  have A: "all_8 ok 255 (256 * g + 1) l = Some (\<forall>j < 256. 0 < j \<longrightarrow> ok (?t j))" for ok
    using sz all_8_eq [of "256 * g + 1" 255 l ok] S [of "\<lambda>k. ok (tbl8 l k)"] by simp
  have eq: "tbl8_recycle_check l (256 * g) =
      Some (if valid (?t 0) then
              if unat (depth (?t 0)) \<le> 24 \<and> (\<forall>j < 256. 0 < j \<longrightarrow> depth (?t j) = depth (?t 0)) then int (256 * g) else LPM_EEXIST
            else if \<forall>j < 256. 0 < j \<longrightarrow> \<not> valid (?t j) then LPM_EINVAL else LPM_EEXIST)"
    using sz A by (simp add: tbl8_recycle_check_def get8_def)
  show ?thesis
  proof (cases "big R i")
    case True
    obtain j d h where j: "j < 256" "mt R i j = Some (d, h)" "24 < d" using big_deep [OF wf True] by blast
    then have v: "valid (?t j)" "24 < unat (depth (?t j))" using e [OF j(1)] by (auto simp: ent_ok_def)
    then have "0 < j" if "\<not> valid (?t 0) \<or> unat (depth (?t 0)) \<le> 24" using that by (cases j) auto
    then show ?thesis unfolding eq using True v j(1) by (auto simp: not_le)
  next
    case False
    have c: "mt R i j = mt R i 0" if "j < 256" for j by (rule small_const [OF False i that]) simp
    show ?thesis
    proof (cases "mt R i 0")
      case None
      then have "\<not> valid (?t j)" if "j < 256" for j using e [OF that] c [OF that] by (simp add: ent_ok_def)
      from this [of 0] this show ?thesis unfolding eq using False None by simp
    next
      case (Some m)
      obtain d h where m: "m = (d, h)" by (cases m)
      have v: "valid (?t j)" "unat (depth (?t j)) = d" if "j < 256" for j
        using e [OF that] c [OF that] Some m by (auto simp: ent_ok_def)
      have "d \<le> 24" using mt_deep [of R i 0 d h] False i Some m by fastforce
      moreover have "depth (?t j) = depth (?t 0)" if "j < 256" for j
      proof (rule unsigned_word_eqI)
        show "unat (depth (?t j)) = unat (depth (?t 0))" using v(2) [OF that] v(2) [of 0] by simp
      qed
      ultimately show ?thesis unfolding eq using v(1) [of 0] v(2) [of 0] False Some by simp
    qed
  qed
qed

section \<open>Long prefixes\<close>

lemma delete_depth_big_ok:
  assumes t: "tables w (big R) (mt R) (pending l @ r) l" and rcu: "rcu_ok l" and wt: "wait_ok wait" and d: "24 < d" "d \<le> 32" and x: "pfx d x = x"
    and r: "R d x \<noteq> None" and wf: "wf_routes R" and s: "sub_ok l sub sub_depth (best R (d - 1) x)"
    and kp: "\<forall>es. length es = 256 \<longrightarrow> (\<forall>j < 256. ent_ok (es ! j) (mt (route_del R d x) (unat (drop_bit 8 x)) j)) \<longrightarrow>
      kept w (of_nat (256 * grp l (unat (drop_bit 8 x)))) es"
  shows "\<exists>l' rc r'. delete_depth_big wait l x (of_nat d) sub sub_depth = Some (l', rc) \<and> rcu_ok l' \<and> same_rules l l' \<and>
    rc \<in> {0, LPM_ENOSPC} \<and> (lpm_dq l = None \<longrightarrow> rc = 0) \<and> rcu_step l l' \<and>
    tables w (big (route_del R d x)) (mt (route_del R d x)) (pending l' @ r' @ r) l' \<and>
    (deferring l \<longrightarrow> \<not> big (route_del R d x) (unat (drop_bit 8 x)) \<longrightarrow>
      of_nat (256 * grp l (unat (drop_bit 8 x))) \<in> set (pending l' @ r'))"
proof -
  let ?R = "route_del R d x" and ?m = "best R (d - 1) x" and ?d = "of_nat d :: u8"
  let ?i = "unat (drop_bit 8 x)" and ?s = "unat (x AND 0xFF)" and ?n = "depth_to_range (of_nat d)" and ?e = "tbl24 l (unat (drop_bit 8 x))"
  let ?g = "grp l ?i" and ?q = "pending l @ r"
  have d0: "0 < d" using d by simp
  have i: "?i < TBL24_ENTRIES" by (rule index_bounds)
  have n: "?s + ?n \<le> 256" using big_range(2) [OF d x, of 0 0] by simp
  have B: "big R ?i" using r d(1) by (auto simp: big_def)
  have v: "valid ?e" "valid_group ?e" "valid_group (tbl8 l (256 * ?g))" using tablesD(1) [OF t i] B by (auto simp: slot_ok_def)
  have sz: "256 * ?g + 256 \<le> tbl8_size l" using tablesD(2) [OF t i B] .
  have st: "unat (next_hop ?e) * 256 = 256 * ?g" by (simp add: grp_def)
  note E = sub_entries [OF sub_depth_le [OF _ d(2), of R x]]
  have m: "mt ?R k j = (if k = ?i \<and> ?s \<le> j \<and> j < ?s + ?n then mdel (mt R k j) d ?m else mt R k j)" if "k < TBL24_ENTRIES" "j < 256" for k j
    using mt_del [OF d0 d(2), of R x k j] best_under [of d "addr k j" x R] x d(2) big_range(1) [OF d x that] by (auto simp: mt_def)
  have D: "ent_ok (if ?s \<le> j \<and> j < ?s + ?n then u_del ?d (sub_8 ?m) e else e) (mt ?R ?i j)" if "j < 256" "ent_ok e (mt R ?i j)" for j e
  proof (cases "?s \<le> j \<and> j < ?s + ?n")
    case True
    then have "pfx d (addr ?i j) = x" using big_range(1) [OF d x i that(1)] by simp
    with covered [OF _ d0 d(2), of R ?i j] r obtain d' h' where "mt R ?i j = Some (d', h')" "d \<le> d'" by auto
    then show ?thesis using True m [OF i that(1)] ent_del [OF that(2) d(2)] E(3) by simp
  qed (use that m [OF i that(1)] in auto)
  note L = tables_loop [OF t i B E(5) n u_del_group [OF E(4)] D]
  let ?t = "upd8 (256 * ?g + ?s) ?n (u_del ?d (sub_8 ?m)) (tbl8 l)"
  define l1 where "l1 = l\<lparr>tbl8 := ?t\<rparr>"
  have T: "tables w (big R) ((mt R)(?i := mt ?R ?i)) ?q l1" using L(2) unfolding l1_def .
  have l1: "grp l1 ?i = ?g" "rcu_ok l1" "pending l1 = pending l" "rcu_step l l1" "deferring l1 = deferring l" "same_rules l l1" "tbl24 l1 = tbl24 l" "lpm_dq l1 = lpm_dq l" "tbl8_size l1 = tbl8_size l"
    using rcu by (simp_all add: l1_def grp_def deferring_def)
  have g: "valid_group (tbl8 l1 (256 * ?g))" "\<And>j. j < 256 \<Longrightarrow> ent_ok (tbl8 l1 (256 * ?g + j)) (mt ?R ?i j)"
    using tablesD(1) [OF T i] B by (auto simp: slot_ok_def l1(1))
  have sub: "(if sub < 0 then for_n ?n (256 * ?g + ?s) (invalidate_8 ?d) l
       else do { t \<leftarrow> get8 l (256 * ?g); r \<leftarrow> nth_opt (rules_tbl l) (nat sub);
         for_n ?n (256 * ?g + ?s) (replace_8 ?d (new_entry (rule_next_hop r) (valid_group t) sub_depth)) l }) = Some l1"
  proof (cases ?m)
    case None
    then show ?thesis using s L(1) by (simp add: sub_ok_def sub_body_def l1_def)
  next
    case (Some y)
    obtain k h where y: "y = (k, h)" by (cases y)
    then obtain r where "0 \<le> sub" "sub_depth = of_nat k" "nth_opt (rules_tbl l) (nat sub) = Some r" "rule_next_hop r = h"
      using s Some unfolding sub_ok_def by (simp del: nth_opt_Some) blast
    moreover have "get8 l (256 * ?g) = Some (tbl8 l (256 * ?g))" using sz by (simp add: get8_def)
    ultimately show ?thesis using Some y L(1) v(3) by (simp del: nth_opt_Some add: sub_body_def l1_def)
  qed
  note C = recycle_check_ok [OF g(2) _ wf_route_del [OF wf] i, unfolded l1(9), OF _ sz]
  have g24: "get24 l ?i = Some ?e" using i by (simp add: get24_def)
  have ng: "nat (256 * int ?g) = 256 * ?g" by arith
  have eq: "delete_depth_big wait l x ?d sub sub_depth =
      (if big ?R ?i then Some (l1, 0)
       else if mt ?R ?i 0 = None then tbl8_free wait (l1\<lparr>tbl24 := (tbl24 l1)(?i := ?e\<lparr>valid := False\<rparr>)\<rparr>) (256 * ?g)
       else tbl8_free wait (l1\<lparr>tbl24 := (tbl24 l1)(?i := \<lparr>next_hop = next_hop (tbl8 l1 (256 * ?g)), valid = True, valid_group = False,
         depth = depth (tbl8 l1 (256 * ?g))\<rparr>)\<rparr>) (256 * ?g))"
    unfolding delete_depth_big_def Let_def g24 bind.simps st sub
    using i C sz by (simp add: get24_def set24_def get8_def ng l1(7,9))
  have other: "big ?R k = big R k" if "k \<noteq> ?i" for k using big_del_other [OF that] .
  have out: "mt ?R k j = mt R k j" if "k \<noteq> ?i" "k < TBL24_ENTRIES" "j < 256" for k j using m [OF that(2,3)] that(1) by simp
  show ?thesis
  proof (cases "big ?R ?i")
    case True
    have "big ?R k = big R k" for k using True B other [of k] by (cases "k = ?i") auto
    then have "tables w (big ?R) (mt ?R) ?q l1" using out by (intro tables_cong [OF T]) auto
    then show ?thesis using eq True l1 by (intro exI [of _ l1] exI [of _ 0] exI [of _ "[]"]) simp
  next
    case False
    have kp: "kept w (of_nat (256 * ?g)) (group_of (tbl8 l1) ?g)"
      using kp g(2) by (simp add: group_of_def)
    have free: "\<exists>l' rc r'. tbl8_free wait (l1\<lparr>tbl24 := (tbl24 l1)(?i := e)\<rparr>) (256 * ?g) = Some (l', rc) \<and> rcu_ok l' \<and> same_rules l l' \<and>
        rc \<in> {0, LPM_ENOSPC} \<and> (lpm_dq l = None \<longrightarrow> rc = 0) \<and> rcu_step l l' \<and> tables w (big ?R) (mt ?R) (pending l' @ r' @ r) l' \<and>
        (deferring l \<longrightarrow> of_nat (256 * ?g) \<in> set (pending l' @ r'))"
      if e: "valid e \<longrightarrow> \<not> valid_group e" "\<forall>j < 256. ent_ok e (mt ?R ?i j)" for e
    proof -
      let ?l = "l1\<lparr>tbl24 := (tbl24 l1)(?i := e)\<rparr>" and ?b = "(big R)(?i := False)"
      note U = tables_unlink [OF T B i e, unfolded l1(1)]
      have l: "pending ?l = pending l" "rcu_ok ?l" "lpm_dq ?l = lpm_dq l" "deferring ?l = deferring l" "tbl8 ?l = tbl8 l1" "same_rules l ?l"
        using l1 by (simp_all add: deferring_def)
      have rs: "rcu_step ?l k = rcu_step l k" for k by (rule rcu_step_cong(1)) (simp_all add: l1_def)
      obtain l' rc r' where
        f: "tbl8_free wait ?l (256 * ?g) = Some (l', rc)" "rc \<in> {0, LPM_ENOSPC}" "lpm_dq l = None \<longrightarrow> rc = 0"
        "tables w ?b (((mt R)(?i := mt ?R ?i))(?i := mt ?R ?i)) (pending l' @ r' @ r) l'" "rcu_ok l'" "same_rules ?l l'" "rcu_step l l'"
        "deferring l \<longrightarrow> of_nat (256 * ?g) \<in> set (pending l' @ r')"
        using tbl8_free_ok [of w ?b _ ?l r ?g wait, unfolded l rs, OF U(1) l(2) U(2) g(1) kp wt] by (elim exE conjE)
      have "tables w (big ?R) (mt ?R) (pending l' @ r' @ r) l'"
        by (rule tables_cong [OF f(4)]) (use False other out in \<open>simp_all add: fun_upd_apply\<close>)
      moreover have "same_rules l l'" by (rule same_rules_trans [OF l(6) f(6)])
      ultimately show ?thesis using f by (intro exI [of _ l'] exI [of _ rc] exI [of _ r']) (simp del: set_append)
    qed
    have c: "mt ?R ?i j = mt ?R ?i 0" if "j < 256" for j by (rule small_const [OF False i that]) simp
    show ?thesis
    proof (cases "mt ?R ?i 0")
      case None
      have "\<forall>j < 256. ent_ok (?e\<lparr>valid := False\<rparr>) (mt ?R ?i j)" using c None by (simp add: ent_ok_def)
      then show ?thesis using free [of "?e\<lparr>valid := False\<rparr>"] eq False None by (simp del: set_append)
    next
      case (Some y)
      let ?new = "\<lparr>next_hop = next_hop (tbl8 l1 (256 * ?g)), valid = True, valid_group = False, depth = depth (tbl8 l1 (256 * ?g))\<rparr>"
      have "\<forall>j < 256. ent_ok ?new (mt ?R ?i j)" using c g(2) [of 0] Some by (cases y) (simp add: ent_ok_def)
      then show ?thesis using free [of ?new] eq False Some by simp
    qed
  qed
qed

section \<open>The operation\<close>

lemma lpm_state_delete:
  assumes inv: "lpm_state w r l R" and wt: "wait_ok wait" and d: "0 < d" "d \<le> 32" and x: "x = pfx d ip"
    and kp: "\<forall>i < TBL24_ENTRIES. big R i \<longrightarrow> (\<forall>es. length es = 256 \<longrightarrow> (\<forall>j < 256. ent_ok (es ! j) (mt (route_del R d x) i j)) \<longrightarrow>
      kept w (of_nat (256 * grp l i)) es)"
  shows "\<exists>l' rc r'. rte_lpm_delete wait l ip (of_nat d) = Some (l', rc) \<and> rcu_step l l' \<and>
    (if R d x = None then rc = LPM_EINVAL \<and> l' = l
     else lpm_state w (r' @ r) l' (route_del R d x) \<and> (rc = 0 \<or> rc = LPM_ENOSPC \<and> lpm_dq l \<noteq> None \<and> 24 < d) \<and>
       (deferring l \<longrightarrow> (\<forall>i < TBL24_ENTRIES. big R i \<longrightarrow> \<not> big (route_del R d x) i \<longrightarrow> of_nat (256 * grp l i) \<in> set (pending l' @ r'))))"
proof -
  let ?d = "of_nat d :: u8" and ?R = "route_del R d x"
  have u: "unat ?d = d" using d by (simp add: unat_of_nat)
  have ne: "\<not> ?d < 1" "\<not> 32 < unat ?d" using d by (auto simp: u word_less_nat_alt)
  have px: "pfx d x = x" "ip AND depth_to_mask ?d = x" unfolding x pfx_pfx by (simp_all add: pfx_def)
  obtain gs where gs: "rules_ok l gs" "wf_groups gs" "R = routes_of gs" and t: "tables w (big R) (mt R) (pending l @ r) l" and rcu: "rcu_ok l"
    using inv by (auto simp: lpm_state_def rules_hold_def)
  note F = rule_find_ok [OF gs(1,2) d, of x, folded gs(3)]
  show ?thesis
  proof (cases "R d x")
    case None
    then show ?thesis using F ne by (simp add: rte_lpm_delete_def px)
  next
    case (Some h)
    then obtain k where k: "k < length (gs ! (d - 1))" "rule_find l x ?d = Some (int (goff gs (d - 1) + k))" "rule_ip (gs ! (d - 1) ! k) = x"
      using F by auto
    let ?idx = "int (goff gs (d - 1) + k)"
    have "rule_at gs d x ?idx" using k by (auto simp: rule_at_def)
    from rule_delete_ok [OF gs(1,2) d this] obtain l1 gs1 where a: "rule_delete l ?idx ?d = Some l1" "rules_ok l1 gs1" "wf_groups gs1"
      "same_tables l l1" "routes_of gs1 = route_del (routes_of gs) d x" by (elim exE conjE)
    have R1: "routes_of gs1 = ?R" using a(5) gs(3) by simp
    have t1: "tables w (big R) (mt R) (pending l1 @ r) l1" "rcu_ok l1" using t rcu a(4) by (simp_all add: tables_same rcu_same)
    have dq: "lpm_dq l1 = lpm_dq l" "deferring l1 = deferring l" "grp l1 k = grp l k" for k
      using same_tables_simps [OF a(4)] by (simp_all add: deferring_def grp_def)
    note st = rcu_step_tables [OF a(4)]
    have b: "best ?R (d - 1) ip = best R (d - 1) x"
      using best_above(2) [of "d - 1" d R x ip] best_under [of d ip x R] d px(1) x by simp
    obtain sub sd where s: "find_previous_rule l1 ip ?d = Some (sub, sd)" "sub_ok l1 sub sd (best R (d - 1) x)"
      using previous_rule_ok [OF a(2,3), of "d - 1" ip] d unfolding R1 b find_previous_rule_def u by (metis diff_le_self order_trans)
    have some: "R d x \<noteq> None" using Some by simp
    have eq: "rte_lpm_delete wait l ip ?d =
        (if d \<le> 24 then delete_depth_small l1 x ?d sub sd else delete_depth_big wait l1 x ?d sub sd)"
      using ne k(2) a(1) s(1) by (simp add: rte_lpm_delete_def px u)
    show ?thesis
    proof (cases "d \<le> 24")
      case True
      obtain l2 where e: "delete_depth_small l1 x ?d sub sd = Some (l2, 0)" "tables w (big ?R) (mt ?R) (pending l1 @ r) l2" "same_rest l1 l2"
        using delete_depth_small_ok [OF t1(1) d(1) True px(1) some s(2)] by (elim exE conjE)
      note S = same_restD [OF e(3)]
      have "lpm_state w ([] @ r) l2 ?R" using a(2,3) e(2) t1(2) R1 S by (intro lpm_stateI [of _ gs1]) (auto simp: rules_via [OF S(1)])
      then show ?thesis using eq True e(1) some S(4) st big_del_small [OF True]
        by (intro exI [of _ l2] exI [of _ 0] exI [of _ "[]"]) simp
    next
      case False
      then have d24: "24 < d" by simp
      let ?i = "unat (drop_bit 8 x)"
      have B: "big R ?i" using some d24 by (auto simp: big_def)
      have "\<forall>es. length es = 256 \<longrightarrow> (\<forall>j < 256. ent_ok (es ! j) (mt ?R ?i j)) \<longrightarrow> kept w (of_nat (256 * grp l1 ?i)) es"
        using kp B index_bounds(1) [of x] unfolding dq(3) by blast
      moreover have "wf_routes R" using inv rules_hold_wf by (auto simp: lpm_state_def)
      ultimately obtain l2 rc r' where
        e: "delete_depth_big wait l1 x ?d sub sd = Some (l2, rc)" "rcu_ok l2" "same_rules l1 l2" "rc \<in> {0, LPM_ENOSPC}"
        "lpm_dq l1 = None \<longrightarrow> rc = 0" "rcu_step l1 l2" "tables w (big ?R) (mt ?R) (pending l2 @ r' @ r) l2"
        "deferring l1 \<longrightarrow> \<not> big ?R ?i \<longrightarrow> of_nat (256 * grp l1 ?i) \<in> set (pending l2 @ r')"
        using delete_depth_big_ok [OF t1 wt d24 d(2) px(1) some _ s(2)] by (elim meta_impE exE conjE) assumption
      have "lpm_state w (r' @ r) l2 ?R" using a(2,3) e(2,7) R1 by (intro lpm_stateI [of _ gs1]) (auto simp: rules_via [OF e(3)])
      moreover have "of_nat (256 * grp l k) \<in> set (pending l2 @ r')" if "deferring l" "big R k" "\<not> big ?R k" for k
      proof -
        have "k = ?i" using that(2,3) big_del_other [of k x R d] by metis
        then show ?thesis using e(8) that unfolding dq by simp
      qed
      moreover have "rcu_step l l2" using e(6) st by simp
      moreover have "rc = 0 \<or> rc = LPM_ENOSPC \<and> lpm_dq l \<noteq> None \<and> 24 < d" using e(4,5) d24 unfolding dq by auto
      ultimately show ?thesis using eq False e(1) Some by (intro exI [of _ l2] exI [of _ rc] exI [of _ r']) (simp del: set_append)
    qed
  qed
qed

lemma lpm_delete_ok:
  assumes inv: "lpm_holds l R" and w: "wait_ok wait" and d: "0 < d" "d \<le> 32" and x: "x = pfx d ip"
  shows "\<exists>l' rc. rte_lpm_delete wait l ip (of_nat d) = Some (l', rc) \<and>
    (if R d x = None then rc = LPM_EINVAL \<and> l' = l
     else lpm_holds l' (route_del R d x) \<and> (rc = 0 \<or> rc = LPM_ENOSPC \<and> lpm_dq l \<noteq> None \<and> 24 < d))"
  using lpm_state_delete [OF inv [unfolded lpm_holds_state] w d x] by (auto simp: no_watch_def split: if_splits dest: lpm_state_holds)

end
