(* ===== verification/Lpm_Lookup.thy ===== *)
theory Lpm_Lookup
  imports Lpm_Delete
begin

text \<open>Looking up an address gives the next hop of the longest match, and a table under any sequence of operations.\<close>

section \<open>The word of an entry\<close>

lemma bit_entry_word:
  "bit (entry_word e) n \<longleftrightarrow> n < 24 \<and> bit (next_hop e) n \<or> n = 24 \<and> valid e \<or> n = 25 \<and> valid_group e \<or> 26 \<le> n \<and> n < 32 \<and> bit (depth e) (n - 26)"
proof -
  have b: "bit (of_bool b :: u32) k \<longleftrightarrow> b \<and> k = 0" for b k by (cases b) (auto simp: bit_simps)
  have h: "bit (next_hop e) n \<Longrightarrow> n < 24" using bit_imp_le_length [of "next_hop e" n] by simp
  consider "n < 24" | "n = 24" | "n = 25" | "26 \<le> n" by linarith
  then show ?thesis
  proof cases
    case 4
    then have "\<not> bit (next_hop e) n" using h by auto
    then show ?thesis using 4 by (auto simp: entry_word_def bit_simps b)
  qed (use h in \<open>auto simp: entry_word_def bit_simps b\<close>)
qed

lemma entry_masks:
  "(0x03000000 :: u32) = push_bit 24 (mask 2)" "(0x01000000 :: u32) = push_bit 24 1" "(0x00FFFFFF :: u32) = mask 24"
  by (simp_all add: mask_eq_decr_exp)

lemma word_ext32: "(\<And>n. n < 32 \<Longrightarrow> bit a n = bit b n) \<Longrightarrow> a = (b :: u32)"
  by (rule bit_word_eqI) simp

lemma entry_word_extended: "entry_word e AND 0x03000000 = 0x03000000 \<longleftrightarrow> valid e \<and> valid_group e"
proof
  assume "entry_word e AND 0x03000000 = 0x03000000"
  then have "bit (entry_word e AND push_bit 24 (mask 2)) n = bit (push_bit 24 (mask 2 :: u32)) n" for n unfolding entry_masks by simp
  from this [of 24] this [of 25] show "valid e \<and> valid_group e" by (simp add: bit_simps bit_entry_word)
next
  assume "valid e \<and> valid_group e"
  then show "entry_word e AND 0x03000000 = 0x03000000"
    unfolding entry_masks by (intro word_ext32) (auto simp: bit_simps bit_entry_word)
qed

lemma bit_valid: "bit (0x01000000 :: int) n \<longleftrightarrow> n = 24"
proof -
  have "(0x01000000 :: int) = 2 ^ 24" by simp
  then show ?thesis by (simp only: bit_exp_iff) auto
qed

lemma hop_len: "bit (next_hop e) n \<Longrightarrow> n < 24"
  using bit_imp_le_length [of "next_hop e" n] by simp

lemma entry_word_valid: "entry_word e AND 0x01000000 \<noteq> 0 \<longleftrightarrow> valid e"
proof -
  have "entry_word e AND 0x01000000 = (if valid e then 0x01000000 else 0)"
    by (rule word_ext32) (auto simp: bit_and_iff bit_valid bit_entry_word)
  then show ?thesis by simp
qed

lemma entry_word_hop: "entry_word e AND 0x00FFFFFF = ucast (next_hop e)"
  unfolding entry_masks by (intro word_ext32) (auto simp: bit_simps bit_entry_word dest: hop_len)

lemma hop24: "ucast (ucast h :: 24 word) = h AND (0x00FFFFFF :: u32)"
  unfolding entry_masks by (intro word_ext32) (auto simp: bit_simps)

section \<open>Lookup\<close>

text \<open>The index in a group is formed in 32 bits. Group numbers are below \<open>2\<close> to the 22nd, so it does not wrap.\<close>

lemma group_index:
  fixes w ip :: u32
  assumes "g < 2 ^ 22" "unat w = g"
  shows "unat ((ucast (ucast ip :: u8) :: u32) + w * 256) = 256 * g + unat (ip AND 0xFF)"
proof -
  have i: "ucast (ucast ip :: u8) = ip AND (0xFF :: u32)"
  proof -
    have "(0xFF :: u32) = mask 8" by (simp add: mask_eq_decr_exp)
    then have "ip AND 0xFF = take_bit 8 ip" by (simp only: take_bit_eq_mask)
    moreover have "ucast (ucast ip :: u8) = take_bit 8 ip" by (rule word_ext32) (auto simp: bit_simps)
    ultimately show ?thesis by simp
  qed
  have m: "unat (w * 256) = 256 * g" using assms by (subst unat_mult_lem [THEN iffD1]) simp_all
  have "unat (ip AND 0xFF) < 256" by (rule index_bounds)
  then show ?thesis unfolding i using assms(1) m by (subst unat_plus_u32) simp_all
qed

lemma lookup_entry_ok:
  assumes "lpm_holds l R"
  shows "\<exists>e. lookup_entry l ip = Some (entry_word e) \<and> ent_ok e (best R 32 ip)"
proof -
  let ?i = "unat (drop_bit 8 ip)" and ?j = "unat (ip AND 0xFF)"
  have t: "tables no_watch (big R) (mt R) (pending l) l" using assms by (simp add: lpm_holds_def)
  note b = index_bounds [of ip]
  have mt: "mt R ?i ?j = best R 32 ip" by (simp add: mt_def addr_split)
  note S = tablesD [OF t b(1)]
  have g24: "get24 l ?i = Some (tbl24 l ?i)" using b by (simp add: get24_def)
  show ?thesis
  proof (cases "big R ?i")
    case True
    have v: "valid (tbl24 l ?i)" "valid_group (tbl24 l ?i)" "grp l ?i < unat (number_tbl8s l)"
      "ent_ok (tbl8 l (256 * grp l ?i + ?j)) (mt R ?i ?j)" using S(1) True b(2) by (auto simp: slot_ok_def)
    have "unat (ucast (next_hop (tbl24 l ?i)) :: u32) = grp l ?i"
      by (simp add: grp_def unsigned_ucast_eq take_bit_nat_eq_self_iff) (rule less_trans [OF unsigned_less], simp)
    note I = group_index [OF _ this, of ip]
    have "grp l ?i < 2 ^ 22" using v(3) S(3) by simp
    then show ?thesis using v S(2) [OF True] b(2) mt I
      by (simp add: lookup_entry_def g24 entry_word_extended entry_word_hop get8_def)
        (rule exI [of _ "tbl8 l (256 * grp l ?i + ?j)"], simp)
  next
    case False
    then have "\<not> (valid (tbl24 l ?i) \<and> valid_group (tbl24 l ?i))" "ent_ok (tbl24 l ?i) (mt R ?i ?j)"
      using S(1) b(2) by (auto simp: slot_ok_def)
    then show ?thesis using mt by (auto simp: lookup_entry_def g24 entry_word_extended)
  qed
qed

text \<open>What the three lookups return for an address.\<close>

definition lookup_spec :: "routes \<Rightarrow> u32 \<Rightarrow> int \<times> u32 \<Rightarrow> bool" where
  "lookup_spec R ip res \<longleftrightarrow>
     (case best R 32 ip of None \<Rightarrow> fst res = LPM_ENOENT | Some (d, h) \<Rightarrow> res = (0, h AND 0x00FFFFFF))"

text \<open>A word as the caller of the bulk lookup reads it.\<close>

definition read_word :: "u32 \<Rightarrow> int \<times> u32" where
  "read_word w = (if w AND 0x01000000 \<noteq> 0 then 0 else LPM_ENOENT, w AND 0x00FFFFFF)"

lemma read_word_ok: "ent_ok e (best R 32 ip) \<Longrightarrow> lookup_spec R ip (read_word (entry_word e))"
  using hop24 by (auto simp: read_word_def lookup_spec_def ent_ok_def entry_word_valid entry_word_hop split: option.splits)

lemma lpm_lookup_ok:
  assumes "lpm_holds l R"
  shows "\<exists>res. rte_lpm_lookup l ip = Some res \<and> lookup_spec R ip res"
proof -
  obtain e where e: "lookup_entry l ip = Some (entry_word e)" "ent_ok e (best R 32 ip)" using lookup_entry_ok [OF assms] by blast
  then show ?thesis using read_word_ok [OF e(2)] by (simp add: rte_lpm_lookup_def read_word_def)
qed

lemma lpm_lookup_bulk_ok:
  assumes "lpm_holds l R"
  shows "\<exists>ws. rte_lpm_lookup_bulk l ips = Some ws \<and>
    list_all2 (\<lambda>ip w. lookup_spec R ip (read_word w)) ips ws"
proof (induction ips)
  case (Cons ip ips)
  obtain e where e: "lookup_entry l ip = Some (entry_word e)" "ent_ok e (best R 32 ip)" using lookup_entry_ok [OF assms] by blast
  then show ?case using Cons read_word_ok [OF e(2)] by auto
qed simp

definition hop_or :: "u32 \<Rightarrow> (nat \<times> u32) option \<Rightarrow> u32" where
  "hop_or defv m = (case m of None \<Rightarrow> defv | Some (d, h) \<Rightarrow> h AND 0x00FFFFFF)"

lemma lpm_lookupx4_ok:
  assumes "lpm_holds l R"
  shows "rte_lpm_lookupx4 l ips defv = Some (map (\<lambda>ip. hop_or defv (best R 32 ip)) ips)"
proof (induction ips)
  case (Cons ip ips)
  obtain res where r: "rte_lpm_lookup l ip = Some res" "lookup_spec R ip res" using lpm_lookup_ok [OF assms] by blast
  then show ?case using Cons by (cases res) (auto simp: lookup_spec_def hop_or_def split: option.splits)
qed simp

lemma lpm_is_rule_present_ok:
  assumes inv: "lpm_holds l R" and d: "0 < d" "d \<le> 32"
  shows "rte_lpm_is_rule_present l ip (of_nat d) = Some (case R d (pfx d ip) of None \<Rightarrow> (0, None) | Some h \<Rightarrow> (1, Some h))"
proof -
  let ?d = "of_nat d :: u8"
  have ne: "\<not> ?d < 1" "\<not> 32 < unat ?d" using d by (auto simp: unat_of_nat word_less_nat_alt)
  have p: "ip AND depth_to_mask ?d = pfx d ip" by (simp add: pfx_def)
  obtain gs where gs: "rules_ok l gs" "wf_groups gs" "R = routes_of gs" using inv by (auto simp: lpm_holds_def rules_hold_def)
  note F = rule_find_ok [OF gs(1,2) d, of "pfx d ip", folded gs(3)]
  show ?thesis
  proof (cases "R d (pfx d ip)")
    case None
    then show ?thesis using F ne by (simp add: rte_lpm_is_rule_present_def p)
  next
    case (Some h)
    then obtain i where "rule_find l (pfx d ip) ?d = Some i" "0 \<le> i" "nat i < length (rules_tbl l)" "rule_next_hop (rules_tbl l ! nat i) = h"
      using F by auto
    then show ?thesis using Some ne by (simp add: rte_lpm_is_rule_present_def p nth_opt_def)
  qed
qed

section \<open>Deleting everything\<close>

lemma lpm_delete_all_ok:
  assumes inv: "lpm_holds l R" and q: "pending l = []"
  shows "\<exists>l'. rte_lpm_delete_all l = Some l' \<and> lpm_holds l' (\<lambda>_. Map.empty)"
proof -
  obtain gs where gs: "rules_ok l gs" "wf_groups gs" "R = routes_of gs" and t: "tables no_watch (big R) (mt R) (pending l) l" and rcu: "rcu_ok l"
    using inv by (auto simp: lpm_holds_def rules_hold_def)
  have mx: "length (rules_tbl l) = unat (max_rules l)" "unat (max_rules l) < 2 ^ 31" "0 < unat (max_rules l)"
    using gs(1) by (auto simp: rules_ok_def info_ok_def dest: spec [of _ 0])
  obtain l' where l': "rte_lpm_delete_all l = Some l'" "rule_info l' = replicate 32 \<lparr>used_rules = 0, first_rule = 0\<rparr>"
    "tbl24 l' = (\<lambda>_. zero_entry)" "length (rules_tbl l') = unat (max_rules l')" "max_rules l' = max_rules l" "number_tbl8s l' = number_tbl8s l"
    "tbl8_size l' = tbl8_size l" "pending l' = pending l" "rcu_ok l'"
    using tablesD(4) [OF t, of 0] mx(1) rcu by (simp add: rte_lpm_delete_all_def rcu_ok_def pending_def queue_def)
  let ?gs = "replicate 32 [] :: rte_lpm_rule list list"
  have off: "goff ?gs i = 0" for i by (simp add: goff_def)
  have "rules_ok l' ?gs" using l' mx off by (simp add: rules_ok_def info_ok_def)
  moreover have "wf_groups ?gs" by (simp add: wf_groups_def)
  moreover have "routes_of ?gs = (\<lambda>_. Map.empty)" by (auto simp: fun_eq_iff routes_of_def rmap_def)
  moreover have "tables no_watch (big (\<lambda>_. Map.empty)) (mt (\<lambda>_. Map.empty)) (pending l') l'"
  proof -
    have "best (\<lambda>_. Map.empty) n ip = None" for n ip by (simp add: best_None_iff)
    then show ?thesis
      using tablesD(3,4) [OF t, of 0] l' q by (auto simp: tables_def waits_def no_watch_def slot_ok_def big_def mt_def zero_entry_def ent_ok_def)
  qed
  ultimately have "lpm_holds l' (\<lambda>_. Map.empty)" using lpm_holdsI l'(9) by metis
  then show ?thesis using l'(1) by blast
qed

text \<open>The queue is left as it is: groups that wait in it are free at once, and freed again later.\<close>

lemma lpm_delete_all_pending:
  assumes inv: "lpm_holds l R" and s: "s \<in> set (pending l)" and run: "rte_lpm_delete_all l = Some l'"
  shows "s \<in> set (pending l')" "\<not> valid_group (tbl8 l' (unat s))" "\<not> lpm_holds l' R'"
proof -
  have t: "tables no_watch (big R) (mt R) (pending l) l" using inv by (simp add: lpm_holds_def)
  obtain g where g: "g < unat (number_tbl8s l)" "unat s = 256 * g" by (rule tables_pend [OF t s])
  have l': "pending l' = pending l" "tbl8 l' (256 * g) = zero_entry" using run g(1) by (auto simp: rte_lpm_delete_all_def pending_def queue_def split: if_splits)
  then show 1: "s \<in> set (pending l')" and 2: "\<not> valid_group (tbl8 l' (unat s))" using s g(2) by (simp_all add: zero_entry_def)
  show "\<not> lpm_holds l' R'"
  proof
    assume "lpm_holds l' R'"
    then have "tables no_watch (big R') (mt R') (pending l') l'" by (simp add: lpm_holds_def)
    from tables_pend [OF this 1] obtain h where "unat s = 256 * h" "valid_group (tbl8 l' (256 * h))" by metis
    then show False using 2 by simp
  qed
qed

end
