(* ===== verification/Lpm_Create.thy ===== *)
theory Lpm_Create
  imports Lpm_Lookup
begin

text \<open>
  Creating, finding and freeing tables, and associating one with a quiescent state variable. The list of tables is the list
  of their structures in order; \<open>mem k n\<close> says whether the \<open>k\<close>th allocation of a call, of \<open>n\<close> bytes, succeeds.
\<close>

section \<open>The list of tables\<close>

abbreviation (input) RTE_LPM_NAMESIZE :: nat where "RTE_LPM_NAMESIZE \<equiv> 32"

text \<open>Names are compared on at most 32 characters. The result is a position in the list.\<close>

fun find_name :: "u8 list \<Rightarrow> rte_lpm list \<Rightarrow> nat option option" where
  "find_name name [] = Some None"
| "find_name name (l # ls) = do {
     same \<leftarrow> strncmp_eq name (lpm_name l) RTE_LPM_NAMESIZE;
     (if same then Some (Some 0) else map_option (map_option Suc) (find_name name ls)) }"

definition rte_lpm_find_existing :: "rte_lpm list \<Rightarrow> u8 list \<Rightarrow> (int + nat) option" where
  "rte_lpm_find_existing ls name =
     map_option (\<lambda>r. case r of None \<Rightarrow> Inl (- LPM_ENOENT) | Some k \<Rightarrow> Inr k) (find_name name ls)"

text \<open>
  \<open>rte_zmalloc\<close> gives a null pointer for a size of 0. The sizes of the rules and of the groups are 32-bit products, of 8
  bytes for a rule and 4 for an entry. The results are an error number or the position of the new table.
\<close>

definition zmalloc :: "(nat \<Rightarrow> nat \<Rightarrow> bool) \<Rightarrow> nat \<Rightarrow> u32 \<Rightarrow> bool" where
  "zmalloc mem k n \<longleftrightarrow> n \<noteq> 0 \<and> mem k (unat n)"

definition new_lpm :: "u8 list \<Rightarrow> u32 \<Rightarrow> u32 \<Rightarrow> nat \<Rightarrow> nat \<Rightarrow> rte_lpm" where
  "new_lpm name maxr num rules_size tbl8s_size =
     \<lparr>tbl24 = (\<lambda>_. zero_entry), tbl8 = (\<lambda>_. zero_entry), tbl8_size = tbl8s_size div 4, lpm_name = name, max_rules = maxr,
       number_tbl8s = num, rule_info = replicate RTE_LPM_MAX_DEPTH \<lparr>used_rules = 0, first_rule = 0\<rparr>,
       rules_tbl = replicate (rules_size div 8) \<lparr>rule_ip = 0, rule_next_hop = 0\<rparr>,
       lpm_v = None, rcu_mode = RTE_LPM_QSBR_MODE_DQ, lpm_dq = None\<rparr>"

definition rte_lpm_create ::
  "(nat \<Rightarrow> nat \<Rightarrow> bool) \<Rightarrow> nat \<Rightarrow> rte_lpm list \<Rightarrow> u8 list option \<Rightarrow> int \<Rightarrow> u32 \<Rightarrow> u32 \<Rightarrow> (rte_lpm list \<times> (int + nat)) option" where
  "rte_lpm_create mem struct_size ls name socket_id maxr num =
     (case name of
        None \<Rightarrow> Some (ls, Inl 22)
      | Some name \<Rightarrow>
          if socket_id < - 1 \<or> maxr = 0 \<or> num > 2 ^ 24 then Some (ls, Inl 22)
          else do {
            r \<leftarrow> find_name name ls;
            (case r of
               Some _ \<Rightarrow> Some (ls, Inl 17)
             | None \<Rightarrow>
                 let rules_size = 8 * maxr; tbl8s_size = 4 * 256 * num in
                 if \<not> zmalloc mem 0 24 \<or> \<not> mem 1 struct_size \<or> \<not> zmalloc mem 2 rules_size \<or> \<not> zmalloc mem 3 tbl8s_size then Some (ls, Inl 12)
                 else do {
                   (nm, _) \<leftarrow> strlcpy (replicate RTE_LPM_NAMESIZE 0) name RTE_LPM_NAMESIZE;
                   Some (ls @ [new_lpm nm maxr num (unat rules_size) (unat tbl8s_size)], Inr (length ls)) }) })"

text \<open>The queue of the table is emptied as far as possible, and the memory is freed either way. The variable outlives the table.\<close>

definition rte_lpm_free :: "rte_lpm list \<Rightarrow> nat option \<Rightarrow> (rte_lpm list \<times> rte_rcu_qsbr option) option" where
  "rte_lpm_free ls k =
     (case k of
        None \<Rightarrow> Some (ls, None)
      | Some k \<Rightarrow> do {
          l \<leftarrow> nth_opt ls k;
          v \<leftarrow> (case lpm_dq l of
             None \<Rightarrow> Some (lpm_v l)
           | Some dq \<Rightarrow> do {
               v \<leftarrow> lpm_v l;
               (v, _, _, _) \<leftarrow> rte_rcu_qsbr_dq_delete (free_resource (tbl8_size l)) v (Some dq) (tbl8 l);
               Some (Some v) });
          Some (take k ls @ drop (Suc k) ls, v) })"

section \<open>The quiescent state variable\<close>

text \<open>\<open>None\<close> as the mode is a value that is neither of the two. The results are the value returned and the error number, if set here.\<close>

record rte_lpm_rcu_config =
  cfg_v :: "rte_rcu_qsbr option"
  cfg_mode :: "rte_lpm_qsbr_mode option"
  cfg_dq_size :: u32
  reclaim_thd :: u32
  reclaim_max :: u32

abbreviation (input) RTE_LPM_RCU_DQ_RECLAIM_MAX :: u32 where "RTE_LPM_RCU_DQ_RECLAIM_MAX \<equiv> 16"

definition rte_lpm_rcu_qsbr_add ::
  "bool \<Rightarrow> (u32 \<Rightarrow> nat option) \<Rightarrow> rte_lpm option \<Rightarrow> rte_lpm_rcu_config option \<Rightarrow> rte_lpm option \<times> int \<times> int option" where
  "rte_lpm_rcu_qsbr_add mem ring lpm cfg =
     (case (lpm, cfg) of
        (Some l, Some c) \<Rightarrow>
          if lpm_v l \<noteq> None then (lpm, 1, Some 17)
          else
            (case cfg_mode c of
               None \<Rightarrow> (lpm, 1, Some 22)
             | Some RTE_LPM_QSBR_MODE_SYNC \<Rightarrow> (Some (l\<lparr>rcu_mode := RTE_LPM_QSBR_MODE_SYNC, lpm_v := cfg_v c\<rparr>), 0, None)
             | Some RTE_LPM_QSBR_MODE_DQ \<Rightarrow>
                 let sz = if cfg_dq_size c = 0 then number_tbl8s l else cfg_dq_size c;
                   mx = if reclaim_max c = 0 then RTE_LPM_RCU_DQ_RECLAIM_MAX else reclaim_max c in
                 (case if cfg_v c = None then None else rte_rcu_qsbr_dq_create mem ring sz (reclaim_thd c) mx of
                    None \<Rightarrow> (Some (l\<lparr>lpm_dq := None\<rparr>), 1, None)
                  | Some dq \<Rightarrow> (Some (l\<lparr>lpm_dq := Some dq, rcu_mode := RTE_LPM_QSBR_MODE_DQ, lpm_v := cfg_v c\<rparr>), 0, None)))
      | _ \<Rightarrow> (lpm, 1, Some 22))"

section \<open>A new table\<close>

lemma empty_routes: "routes_of (replicate 32 []) = (\<lambda>_. Map.empty)" "goff (replicate 32 []) i = 0" "best (\<lambda>_. Map.empty) n ip = None"
  by (auto simp: fun_eq_iff routes_of_def rmap_def goff_def best_None_iff)

lemma new_lpm_ok:
  assumes "0 < unat maxr" "unat maxr < 2 ^ 29" "unat num < 2 ^ 22"
  shows "lpm_holds (new_lpm name maxr num (unat (8 * maxr)) (unat (4 * 256 * num))) (\<lambda>_. Map.empty)"
proof -
  have sz: "unat (8 * maxr) = 8 * unat maxr" "unat (4 * 256 * num) = 4 * (256 * unat num)"
    using assms by (subst unat_mult_lem [THEN iffD1]; simp)+
  let ?l = "new_lpm name maxr num (8 * unat maxr) (4 * (256 * unat num))"
  have "rules_ok ?l (replicate 32 [])" using assms by (simp add: rules_ok_def new_lpm_def info_ok_def empty_routes)
  moreover have "wf_groups (replicate 32 [])" by (simp add: wf_groups_def)
  moreover have "tables no_watch (big (\<lambda>_. Map.empty)) (mt (\<lambda>_. Map.empty)) (pending ?l) ?l" "rcu_ok ?l"
    using assms(3) by (simp_all add: new_lpm_def tables_def waits_def no_watch_def slot_ok_def big_def mt_def zero_entry_def ent_ok_def empty_routes pending_def queue_def rcu_ok_def)
  ultimately show ?thesis unfolding sz using lpm_holdsI [OF _ _ empty_routes(1) [symmetric]] by blast
qed

text \<open>A variable associated with a table that has none keeps its routes.\<close>

lemma rcu_qsbr_add_ok:
  assumes inv: "lpm_holds l R" and none: "lpm_dq l = None" and v: "\<And>c v. cfg = Some c \<Longrightarrow> cfg_v c = Some v \<Longrightarrow> qsbr_ok v"
    and run: "rte_lpm_rcu_qsbr_add mem ring (Some l) cfg = (l', rc, err)"
  shows "\<exists>l1. l' = Some l1 \<and> lpm_holds l1 R"
proof -
  have p: "pending l = []" using none by (simp add: pending_def queue_def)
  have "lpm_holds (l\<lparr>lpm_dq := None\<rparr>) R" using inv none by (cases l) simp
  moreover have "lpm_holds (l\<lparr>rcu_mode := m, lpm_v := v\<rparr>) R"
    if "lpm_v l = None" "\<forall>x. v = Some x \<longrightarrow> qsbr_ok x" "m = RTE_LPM_QSBR_MODE_SYNC" for m v
    using inv that none p by (auto simp: lpm_holds_def rules_hold_def rules_ok_def tables_def waits_def no_watch_def slot_ok_def grp_def pending_def queue_def rcu_ok_def)
  moreover have "lpm_holds (l\<lparr>lpm_dq := Some dq, rcu_mode := m, lpm_v := Some v\<rparr>) R" if "qsbr_ok v" "dq_ring dq = []" for dq m v
    using inv that p by (auto simp: lpm_holds_def rules_hold_def rules_ok_def tables_def waits_def no_watch_def slot_ok_def grp_def pending_def queue_def rcu_ok_def)
  ultimately show ?thesis using run inv v
    by (auto simp: rte_lpm_rcu_qsbr_add_def Let_def rte_rcu_qsbr_dq_create_def split: option.splits if_splits rte_lpm_qsbr_mode.splits)
qed

text \<open>A name of 32 characters or more is stored cut off, and compared in full: its table is not found, and a second one can be created.\<close>

lemma lpm_long_name:
  fixes nm :: "u8 list"
  defines "nm \<equiv> replicate 32 97 @ [0]"
  shows "\<exists>l l'. rte_lpm_create (\<lambda>_ _. True) 100 [] (Some nm) 0 4 1 = Some ([l], Inr 0) \<and> rte_lpm_find_existing [l] nm = Some (Inl 2) \<and>
    rte_lpm_create (\<lambda>_ _. True) 100 [l] (Some nm) 0 4 1 = Some ([l, l'], Inr 1)"
proof -
  let ?l = "new_lpm (replicate 31 97 @ [0]) 4 1 32 1024"
  have c: "strlcpy (replicate 32 0) nm 32 = Some (replicate 31 97 @ [0], 32)" unfolding nm_def by code_simp
  have "strncmp_eq nm (replicate 31 97 @ [0]) 32 = Some False" unfolding nm_def by code_simp
  then have f: "find_name nm [?l] = Some None" by (simp add: new_lpm_def)
  have "rte_lpm_create (\<lambda>_ _. True) 100 [] (Some nm) 0 4 1 = Some ([?l], Inr 0)" using c by (simp add: rte_lpm_create_def zmalloc_def)
  moreover have "rte_lpm_find_existing [?l] nm = Some (Inl 2)" using f by (simp add: rte_lpm_find_existing_def)
  moreover have "rte_lpm_create (\<lambda>_ _. True) 100 [?l] (Some nm) 0 4 1 = Some ([?l, ?l], Inr 1)"
    using c f by (simp add: rte_lpm_create_def zmalloc_def del: find_name.simps)
  ultimately show ?thesis by blast
qed

end
