(* ===== verification/Lpm_Props.thy ===== *)
theory Lpm_Props
  imports Lpm_Create Rcu_Grace
begin

text \<open>The contract of a routing table, and what \<open>rte_lpm.c\<close> promises its callers.\<close>

section \<open>The contract\<close>

text \<open>The calls on a table, and what the reader threads do to its quiescent state variable in between.\<close>

datatype lpm_op = Op_add u32 u8 u32 | Op_delete u32 u8 | Op_readers "qsbr_action list"

definition lpm_readers :: "qsbr_action list \<Rightarrow> rte_lpm \<Rightarrow> (rte_lpm \<times> int) option" where
  "lpm_readers as l =
     (case lpm_v l of
        None \<Rightarrow> Some (l, 0)
      | Some v \<Rightarrow> Some (case qsbr_run as v of None \<Rightarrow> l | Some v' \<Rightarrow> l\<lparr>lpm_v := Some v'\<rparr>, 0))"

text \<open>What an operation does to the routes, given the value it returns.\<close>

definition depth_ok :: "u8 \<Rightarrow> bool" where "depth_ok d \<longleftrightarrow> 0 < unat d \<and> unat d \<le> 32"

fun route_step :: "lpm_op \<Rightarrow> int \<Rightarrow> routes \<Rightarrow> routes" where
  "route_step (Op_add ip d h) rc R = (if rc = 0 then route_add R (unat d) (pfx (unat d) ip) h else R)"
| "route_step (Op_delete ip d) rc R = (if rc = LPM_EINVAL then R else route_del R (unat d) (pfx (unat d) ip))"
| "route_step (Op_readers as) rc R = R"

text \<open>The values an operation may return.\<close>

fun route_rc :: "lpm_op \<Rightarrow> routes \<Rightarrow> int \<Rightarrow> bool" where
  "route_rc (Op_add ip d h) R rc \<longleftrightarrow>
     (if depth_ok d then rc = 0 \<or> rc = LPM_ENOSPC \<and> R (unat d) (pfx (unat d) ip) = None else rc = LPM_EINVAL)"
| "route_rc (Op_delete ip d) R rc \<longleftrightarrow>
     (if depth_ok d \<and> R (unat d) (pfx (unat d) ip) \<noteq> None then rc = 0 \<or> rc = LPM_ENOSPC \<and> 24 < unat d else rc = LPM_EINVAL)"
| "route_rc (Op_readers as) R rc \<longleftrightarrow> rc = 0"

type_synonym 'l table_add = "'l \<Rightarrow> u32 \<Rightarrow> u8 \<Rightarrow> u32 \<Rightarrow> ('l \<times> int) option"
type_synonym 'l table_del = "'l \<Rightarrow> u32 \<Rightarrow> u8 \<Rightarrow> ('l \<times> int) option"
type_synonym 'l table_env = "qsbr_action list \<Rightarrow> 'l \<Rightarrow> ('l \<times> int) option"

fun table_op :: "'l table_add \<Rightarrow> 'l table_del \<Rightarrow> 'l table_env \<Rightarrow> lpm_op \<Rightarrow> 'l \<Rightarrow> ('l \<times> int) option" where
  "table_op add del env (Op_add ip d h) l = add l ip d h"
| "table_op add del env (Op_delete ip d) l = del l ip d"
| "table_op add del env (Op_readers as) l = env as l"

fun table_run :: "'l table_add \<Rightarrow> 'l table_del \<Rightarrow> 'l table_env \<Rightarrow> lpm_op list \<Rightarrow> 'l \<Rightarrow> ('l \<times> int list) option" where
  "table_run add del env [] l = Some (l, [])"
| "table_run add del env (p # ps) l = do {
     (l, rc) \<leftarrow> table_op add del env p l;
     (l, rcs) \<leftarrow> table_run add del env ps l;
     Some (l, rc # rcs) }"

text \<open>The routes after some operations and the values they returned.\<close>

fun routes_run :: "lpm_op list \<Rightarrow> int list \<Rightarrow> routes \<Rightarrow> routes" where
  "routes_run (p # ps) (rc # rcs) R = routes_run ps rcs (route_step p rc R)"
| "routes_run _ _ R = R"

fun rcs_ok :: "lpm_op list \<Rightarrow> int list \<Rightarrow> routes \<Rightarrow> bool" where
  "rcs_ok [] [] R = True"
| "rcs_ok (p # ps) (rc # rcs) R \<longleftrightarrow> route_rc p R rc \<and> rcs_ok ps rcs (route_step p rc R)"
| "rcs_ok _ _ R = False"

locale routing_table =
  fixes holds :: "'l \<Rightarrow> routes \<Rightarrow> bool"
    and add :: "'l table_add" and del :: "'l table_del" and env :: "'l table_env"
    and look :: "'l \<Rightarrow> u32 \<Rightarrow> (int \<times> u32) option"
  assumes op: "holds l R \<Longrightarrow> \<exists>l' rc. table_op add del env p l = Some (l', rc) \<and> route_rc p R rc \<and> holds l' (route_step p rc R)"
    and look: "holds l R \<Longrightarrow> \<exists>res. look l ip = Some res \<and> lookup_spec R ip res"
begin

lemma table_run_ok: "holds l R \<Longrightarrow> \<exists>l' rcs. table_run add del env ps l = Some (l', rcs) \<and> rcs_ok ps rcs R \<and> holds l' (routes_run ps rcs R)"
proof (induction ps arbitrary: l R)
  case (Cons p ps)
  from op [OF Cons.prems, of p] obtain l1 rc where
    p: "table_op add del env p l = Some (l1, rc)" "route_rc p R rc" "holds l1 (route_step p rc R)" by (elim exE conjE)
  from Cons.IH [OF p(3)] obtain l2 rcs where "table_run add del env ps l1 = Some (l2, rcs)" "rcs_ok ps rcs (route_step p rc R)"
    "holds l2 (routes_run ps rcs (route_step p rc R))" by (elim exE conjE)
  with p show ?case by (intro exI [of _ l2] exI [of _ "rc # rcs"]) simp
qed simp

lemma run_look:
  assumes "holds l R"
  shows "\<exists>l' rcs. table_run add del env ps l = Some (l', rcs) \<and> rcs_ok ps rcs R \<and>
    (\<forall>ip. \<exists>res. look l' ip = Some res \<and> lookup_spec (routes_run ps rcs R) ip res)"
  using table_run_ok [OF assms, of ps] look by (elim exE conjE) blast

end

section \<open>The tables of rte_lpm.c\<close>

lemma depth_cases: "depth_ok d \<Longrightarrow> 0 < unat d \<and> unat d \<le> 32 \<and> of_nat (unat d) = d" "\<not> depth_ok d \<longleftrightarrow> d < 1 \<or> 32 < unat d"
proof -
  show "depth_ok d \<Longrightarrow> 0 < unat d \<and> unat d \<le> 32 \<and> of_nat (unat d) = d" by (simp add: depth_ok_def)
  have "d < 1 \<longleftrightarrow> \<not> 0 < unat d" by (simp add: word_less_nat_alt)
  then show "\<not> depth_ok d \<longleftrightarrow> d < 1 \<or> 32 < unat d" by (auto simp: depth_ok_def)
qed

lemma lpm_op_ok:
  assumes w: "wait_ok wait" and inv: "lpm_holds l R"
  shows "\<exists>l' rc. table_op rte_lpm_add (rte_lpm_delete wait) lpm_readers p l = Some (l', rc) \<and> route_rc p R rc \<and> lpm_holds l' (route_step p rc R)"
proof (cases p)
  case (Op_add ip d h)
  show ?thesis
  proof (cases "depth_ok d")
    case True
    note d = depth_cases(1) [OF True]
    from lpm_add_ok [OF inv, of "unat d" "pfx (unat d) ip" ip h] d obtain l' rc where
      "rte_lpm_add l ip d h = Some (l', rc)" "rc = 0 \<and> lpm_holds l' (route_add R (unat d) (pfx (unat d) ip) h) \<or>
       rc = LPM_ENOSPC \<and> lpm_holds l' R \<and> R (unat d) (pfx (unat d) ip) = None" by auto
    then show ?thesis using True Op_add by auto
  next
    case False
    then show ?thesis using inv depth_cases(2) [of d] Op_add by (auto simp: rte_lpm_add_def)
  qed
next
  case (Op_readers as)
  show ?thesis
  proof (cases "lpm_v l")
    case (Some v)
    have "qsbr_ok v" using inv Some by (auto simp: lpm_holds_def rcu_ok_def)
    then have "lpm_holds (l\<lparr>lpm_v := Some v'\<rparr>) R" if "qsbr_run as v = Some v'" for v'
      using inv Some run_ok [OF that] unfolding lpm_holds_state by (simp add: lpm_state_var)
    then show ?thesis using inv Some Op_readers by (cases "qsbr_run as v") (simp_all add: lpm_readers_def)
  qed (use inv Op_readers in \<open>simp add: lpm_readers_def\<close>)
next
  case (Op_delete ip d)
  show ?thesis
  proof (cases "depth_ok d")
    case True
    note d = depth_cases(1) [OF True]
    from lpm_delete_ok [OF inv w, of "unat d" "pfx (unat d) ip" ip] d obtain l' rc where
      "rte_lpm_delete wait l ip d = Some (l', rc)" "if R (unat d) (pfx (unat d) ip) = None then rc = LPM_EINVAL \<and> l' = l
       else lpm_holds l' (route_del R (unat d) (pfx (unat d) ip)) \<and> (rc = 0 \<or> rc = LPM_ENOSPC \<and> lpm_dq l \<noteq> None \<and> 24 < unat d)" by auto
    then show ?thesis using True Op_delete inv by (auto split: if_splits)
  next
    case False
    then show ?thesis using inv depth_cases(2) [of d] Op_delete by (auto simp: rte_lpm_delete_def)
  qed
qed

interpretation lpm_table: routing_table "\<lambda>l R. wait_ok wait \<and> lpm_holds l R" rte_lpm_add "rte_lpm_delete wait" lpm_readers rte_lpm_lookup for wait
proof
  show "\<exists>l' rc. table_op rte_lpm_add (rte_lpm_delete wait) lpm_readers p l = Some (l', rc) \<and> route_rc p R rc \<and> wait_ok wait \<and> lpm_holds l' (route_step p rc R)"
    if "wait_ok wait \<and> lpm_holds l R" for l R p using lpm_op_ok [of wait l R p] that by (elim conjE) auto
qed (use lpm_lookup_ok in blast)

section \<open>Properties\<close>

text \<open>C4: A table as a routing table. Take one made by \<open>rte_lpm_create\<close> for fewer than 2^29 rules and 2^22 groups,
with or without a quiescent state variable, in either mode, and call \<open>rte_lpm_add\<close> and \<open>rte_lpm_delete\<close> on it any number of
times with any arguments, while reader threads register, come and go in between. Every call is defined: no access is outside a table, and the loops end. The values returned are
those of the contract: an add of a valid depth gives 0, or \<open>-ENOSPC\<close> for a route that is not there, and then changes no
route; a delete of a route that is there deletes it. Afterwards every lookup gives the next hop of the longest match in the
routes that the values returned say are there, or \<open>-ENOENT\<close>. \<open>wait\<close> stands for other threads during the waiting mode.\<close>

theorem lpm_longest_match:
  assumes create: "rte_lpm_create mem sz ls name socket maxr num = Some (ls', Inr k)" and small: "unat maxr < 2 ^ 29" "unat num < 2 ^ 22"
    and add: "rte_lpm_rcu_qsbr_add mem' ring (Some (ls' ! k)) cfg = (Some l, rc, err)" and v: "\<And>c v. cfg = Some c \<Longrightarrow> cfg_v c = Some v \<Longrightarrow> qsbr_ok v"
    and wait: "wait_ok wait"
  shows "\<exists>l' rcs. table_run rte_lpm_add (rte_lpm_delete wait) lpm_readers ps l = Some (l', rcs) \<and> rcs_ok ps rcs (\<lambda>_. Map.empty) \<and>
    (\<forall>ip. \<exists>res. rte_lpm_lookup l' ip = Some res \<and> lookup_spec (routes_run ps rcs (\<lambda>_. Map.empty)) ip res)"
proof -
  obtain nm where n: "ls' ! k = new_lpm nm maxr num (unat (8 * maxr)) (unat (4 * 256 * num))" "maxr \<noteq> 0"
    using create by (auto simp: rte_lpm_create_def Let_def bind_eq_Some_conv split: option.splits if_splits)
  then have "0 < unat maxr" by (simp add: unat_gt_0)
  then have "lpm_holds (ls' ! k) (\<lambda>_. Map.empty)" "lpm_dq (ls' ! k) = None" using new_lpm_ok small n(1) by (simp_all add: new_lpm_def)
  from rcu_qsbr_add_ok [OF this v add] have "wait_ok wait \<and> lpm_holds l (\<lambda>_. Map.empty)" using wait by simp
  then show ?thesis by (rule lpm_table.run_look)
qed

text \<open>A table in a registry of its own, with one group and the variable of one thread in the queueing mode.\<close>

definition demo_ops :: "lpm_op list" where
  "demo_ops = [Op_readers [Register 0, Online 0], Op_add 0x0A000000 8 5, Op_add 0x0A000080 25 7, Op_delete 0x0A000080 25,
     Op_readers [Quiescent 0]]"

definition demo_var :: rte_rcu_qsbr where
  "demo_var = \<lparr>token = 1, acked_token = 0, num_threads = 0, max_threads = 1, qsbr_cnt = [0], thread_bmap = [0]\<rparr>"

definition demo_cfg :: rte_lpm_rcu_config where
  "demo_cfg = \<lparr>cfg_v = Some demo_var, cfg_mode = Some RTE_LPM_QSBR_MODE_DQ, cfg_dq_size = 0, reclaim_thd = 0, reclaim_max = 0\<rparr>"

definition demo_table :: rte_lpm where
  "demo_table = new_lpm (116 # replicate 31 0) 4 1 32 1024"

definition demo_rcu_table :: rte_lpm where
  "demo_rcu_table = demo_table\<lparr>lpm_v := Some demo_var,
     lpm_dq := Some \<lparr>dq_ring = [], dq_capacity = 2, dq_size = 1, trigger_reclaim_limit = 0, max_reclaim_size = 16\<rparr>\<rparr>"

lemma demo_create: "rte_lpm_create (\<lambda>_ _. True) 100 [] (Some (literal ''t'')) 0 4 1 = Some ([demo_table], Inr 0)"
proof -
  have "strlcpy (replicate 32 0) (literal ''t'') 32 = Some (116 # replicate 31 0, 1)" by code_simp
  then show ?thesis by (simp add: rte_lpm_create_def zmalloc_def demo_table_def)
qed

lemma demo_add: "rte_lpm_rcu_qsbr_add True (\<lambda>n. Some (unat n)) (Some demo_table) (Some demo_cfg) = (Some demo_rcu_table, 0, None)"
proof -
  have "unat (rte_align32pow2 (1 + 1)) = 2" by code_simp
  then show ?thesis
    by (simp add: rte_lpm_rcu_qsbr_add_def demo_table_def demo_cfg_def demo_rcu_table_def new_lpm_def rte_rcu_qsbr_dq_create_def Let_def)
qed

lemma demo_var_ok: "qsbr_ok demo_var"
  unfolding qsbr_ok_def by code_simp

lemma lpm_longest_match_witness:
  "\<exists>l' rcs. table_run rte_lpm_add (rte_lpm_delete (\<lambda>v t. v)) lpm_readers demo_ops demo_rcu_table = Some (l', rcs) \<and> rcs_ok demo_ops rcs (\<lambda>_. Map.empty) \<and>
    (\<forall>ip. \<exists>res. rte_lpm_lookup l' ip = Some res \<and> lookup_spec (routes_run demo_ops rcs (\<lambda>_. Map.empty)) ip res)"
proof -
  have a: "rte_lpm_rcu_qsbr_add True (\<lambda>n. Some (unat n)) (Some ([demo_table] ! 0)) (Some demo_cfg) = (Some demo_rcu_table, 0, None)"
    using demo_add by simp
  have v: "qsbr_ok v" if "Some demo_cfg = Some c" "cfg_v c = Some v" for c v using that demo_var_ok by (auto simp: demo_cfg_def)
  have w: "wait_ok (\<lambda>v t. v)" by (simp add: wait_ok_def)
  show ?thesis by (rule lpm_longest_match [OF demo_create _ _ a v w]) simp_all
qed

lemma lookup_spec_longest:
  assumes inv: "lpm_holds l R" and r: "lookup_spec R ip (rc, nh)"
  shows "rc = 0 \<and> (\<exists>d h. R d (pfx d ip) = Some h \<and> (\<forall>k > d. R k (pfx k ip) = None) \<and> nh = h AND 0x00FFFFFF) \<or>
    rc = LPM_ENOENT \<and> (\<forall>d. R d (pfx d ip) = None)"
proof -
  have dom: "0 < d \<and> d \<le> 32" if "R d x = Some h" for d x h using lpm_holds_dom [OF inv that] by simp
  show ?thesis
  proof (cases "best R 32 ip")
    case None
    then have "R d (pfx d ip) = None" for d
      using dom [of d "pfx d ip"] by (cases "R d (pfx d ip)") (auto simp: best_None_iff)
    then show ?thesis using r None by (simp add: lookup_spec_def)
  next
    case (Some m)
    obtain d h where m: "best R 32 ip = Some (d, h)" using Some by (cases m) auto
    then have b: "R d (pfx d ip) = Some h" "\<And>k. d < k \<Longrightarrow> k \<le> 32 \<Longrightarrow> R k (pfx k ip) = None" by (auto simp: best_Some_iff)
    then have "R k (pfx k ip) = None" if "d < k" for k using dom [of k "pfx k ip"] that by (cases "R k (pfx k ip)") auto
    then show ?thesis using r m b(1) by (auto simp: lookup_spec_def)
  qed
qed

text \<open>C7: The lookups. In a table that holds the routes \<open>R\<close>, \<open>rte_lpm_lookup\<close> gives 0 and the lower 24 bits of the next hop
of a route that covers the address, and no route with more bits covers it; or it gives \<open>-ENOENT\<close>, and no route covers it.
\<open>rte_lpm_lookup_bulk\<close> gives for every address a word from which the same is read, and \<open>rte_lpm_lookupx4\<close> the same next
hops, with the default value where there is no route.\<close>

theorem lpm_lookup_longest:
  assumes inv: "lpm_holds l R"
  shows "(\<exists>rc nh. rte_lpm_lookup l ip = Some (rc, nh) \<and>
      (rc = 0 \<and> (\<exists>d h. R d (pfx d ip) = Some h \<and> (\<forall>k > d. R k (pfx k ip) = None) \<and> nh = h AND 0x00FFFFFF) \<or>
       rc = LPM_ENOENT \<and> (\<forall>d. R d (pfx d ip) = None))) \<and>
    (\<exists>ws. rte_lpm_lookup_bulk l ips = Some ws \<and> list_all2 (\<lambda>ip w. lookup_spec R ip (read_word w)) ips ws) \<and>
    rte_lpm_lookupx4 l ips defv = Some (map (\<lambda>ip. hop_or defv (best R 32 ip)) ips)"
proof -
  obtain res where r: "rte_lpm_lookup l ip = Some res" "lookup_spec R ip res" using lpm_lookup_ok [OF inv] by blast
  have "\<exists>rc nh. rte_lpm_lookup l ip = Some (rc, nh) \<and>
      (rc = 0 \<and> (\<exists>d h. R d (pfx d ip) = Some h \<and> (\<forall>k > d. R k (pfx k ip) = None) \<and> nh = h AND 0x00FFFFFF) \<or>
       rc = LPM_ENOENT \<and> (\<forall>d. R d (pfx d ip) = None))"
    using r lookup_spec_longest [OF inv, of ip "fst res" "snd res"] by (cases res) simp
  then show ?thesis using lpm_lookup_bulk_ok [OF inv] lpm_lookupx4_ok [OF inv] by blast
qed

text \<open>A table with one route.\<close>

lemma demo_route: "\<exists>l. rte_lpm_add demo_table 0x0A010203 8 5 = Some (l, 0) \<and> lpm_holds l (route_add (\<lambda>_. Map.empty) 8 0x0A000000 5)"
proof -
  have "lpm_holds (new_lpm (116 # replicate 31 0) 4 1 (unat (8 * 4 :: u32)) (unat (4 * 256 * 1 :: u32))) (\<lambda>_. Map.empty)" by (rule new_lpm_ok) simp_all
  then have h: "lpm_holds demo_table (\<lambda>_. Map.empty)" by (simp add: demo_table_def)
  have p: "0x0A000000 = pfx 8 0x0A010203" by code_simp
  have "rules_used demo_table \<noteq> unat (max_rules demo_table)" by (simp add: rules_used_def demo_table_def new_lpm_def sum_list_replicate)
  with lpm_add_ok [OF h _ _ p, of 5] show ?thesis by auto
qed

lemma lpm_lookup_longest_witness:
  "\<exists>l R. lpm_holds l R \<and> R 8 0x0A000000 = Some 5 \<and>
    ((\<exists>rc nh. rte_lpm_lookup l 0x0A0B0C0D = Some (rc, nh) \<and>
      (rc = 0 \<and> (\<exists>d h. R d (pfx d 0x0A0B0C0D) = Some h \<and> (\<forall>k > d. R k (pfx k 0x0A0B0C0D) = None) \<and> nh = h AND 0x00FFFFFF) \<or>
       rc = LPM_ENOENT \<and> (\<forall>d. R d (pfx d 0x0A0B0C0D) = None))) \<and>
     (\<exists>ws. rte_lpm_lookup_bulk l [1, 2] = Some ws \<and> list_all2 (\<lambda>ip w. lookup_spec R ip (read_word w)) [1, 2] ws) \<and>
     rte_lpm_lookupx4 l [1, 2] 9 = Some (map (\<lambda>ip. hop_or 9 (best R 32 ip)) [1, 2]))"
proof -
  obtain l where l: "lpm_holds l (route_add (\<lambda>_. Map.empty) 8 0x0A000000 5)" using demo_route by blast
  have "route_add (\<lambda>_. Map.empty) 8 0x0A000000 5 8 0x0A000000 = Some 5" by (simp add: route_add_def)
  with l lpm_lookup_longest [OF l, of "0x0A0B0C0D" "[1, 2]" 9] show ?thesis by blast
qed

text \<open>C8: When an add fails. In a table that holds the routes \<open>R\<close>, adding a route gives 0, and the table then holds it too,
with the new next hop when the route was there before; or it gives \<open>-ENOSPC\<close> and the routes stay as they were, also when
the rule had to be taken back after no group was free. It fails only for a route that is not there, when the rule table is
full or the route is longer than 24 bits, no other such route shares its first 24 bits and every group is taken. A delete of a route that is not
there gives \<open>-EINVAL\<close> and changes nothing; one of a route that is there takes it away, and can give \<open>-ENOSPC\<close> after that
only when the table has a defer queue.\<close>

theorem lpm_add_delete_results:
  assumes inv: "lpm_holds l R" and d: "0 < d" "d \<le> 32" and wait: "wait_ok wait"
  shows "(\<exists>l' rc. rte_lpm_add l ip (of_nat d) h = Some (l', rc) \<and>
      (rc = 0 \<and> lpm_holds l' (route_add R d (pfx d ip) h) \<or>
       rc = LPM_ENOSPC \<and> lpm_holds l' R \<and> R d (pfx d ip) = None \<and> (rules_used l = unat (max_rules l) \<or> 24 < d \<and> \<not> big R (unat (drop_bit 8 ip)) \<and> groups_taken l))) \<and>
    (\<exists>l' rc. rte_lpm_delete wait l ip (of_nat d) = Some (l', rc) \<and>
      (if R d (pfx d ip) = None then rc = LPM_EINVAL \<and> l' = l
       else lpm_holds l' (route_del R d (pfx d ip)) \<and> (rc = 0 \<or> rc = LPM_ENOSPC \<and> lpm_dq l \<noteq> None \<and> 24 < d)))"
  using lpm_add_ok [OF inv d refl, of ip h] lpm_delete_ok [OF inv wait d refl, of ip] by (rule conjI)

lemma lpm_add_delete_results_witness:
  "\<exists>l R. lpm_holds l R \<and> R 8 (pfx 8 0x0A0B0C0D) = Some 5 \<and>
    (\<exists>l' rc. rte_lpm_add l 0x0A0B0C0D (of_nat 8) 6 = Some (l', rc) \<and>
      (rc = 0 \<and> lpm_holds l' (route_add R 8 (pfx 8 0x0A0B0C0D) 6) \<or>
       rc = LPM_ENOSPC \<and> lpm_holds l' R \<and> R 8 (pfx 8 0x0A0B0C0D) = None \<and>
       (rules_used l = unat (max_rules l) \<or> 24 < (8 :: nat) \<and> \<not> big R (unat (drop_bit 8 (0x0A0B0C0D :: u32))) \<and> groups_taken l))) \<and>
    (\<exists>l' rc. rte_lpm_delete (\<lambda>v t. v) l 0x0A0B0C0D (of_nat 8) = Some (l', rc) \<and>
      (if R 8 (pfx 8 0x0A0B0C0D) = None then rc = LPM_EINVAL \<and> l' = l
       else lpm_holds l' (route_del R 8 (pfx 8 0x0A0B0C0D)) \<and> (rc = 0 \<or> rc = LPM_ENOSPC \<and> lpm_dq l \<noteq> None \<and> 24 < (8 :: nat))))"
proof -
  obtain l where l: "lpm_holds l (route_add (\<lambda>_. Map.empty) 8 0x0A000000 5)" using demo_route by blast
  have p: "pfx 8 0x0A0B0C0D = 0x0A000000" by code_simp
  have r: "route_add (\<lambda>_. Map.empty) 8 0x0A000000 5 8 (pfx 8 0x0A0B0C0D) = Some 5" unfolding p by (simp add: route_add_def)
  have w: "wait_ok (\<lambda>v t. v)" by (simp add: wait_ok_def)
  have d: "0 < (8 :: nat)" "8 \<le> (32 :: nat)" by simp_all
  note T = lpm_add_delete_results [OF l d w, of "0x0A0B0C0D" 6]
  show ?thesis by (rule exI [of _ l], rule exI [of _ "route_add (\<lambda>_. Map.empty) 8 0x0A000000 5"], intro conjI, rule l, rule r,
    rule conjunct1 [OF T], rule conjunct2 [OF T])
qed

section \<open>Faults\<close>

text \<open>C39: \<open>rte_lpm_delete_all\<close> and the defer queue. In a table that holds routes, a call of \<open>rte_lpm_delete_all\<close> while a group
waits in the defer queue leaves it in the queue and marks it as free: the next add can take it, and when its grace period
is over the queue frees it again, under the routes that use it by then. With an empty queue the table holds no routes after
the call, as it should.\<close>

theorem lpm_delete_all_queue:
  assumes inv: "lpm_holds l R" and run: "rte_lpm_delete_all l = Some l'"
  shows "if pending l = [] then lpm_holds l' (\<lambda>_. Map.empty)
    else pending l' = pending l \<and> (\<forall>s \<in> set (pending l'). \<not> valid_group (tbl8 l' (unat s))) \<and> (\<forall>R'. \<not> lpm_holds l' R')"
proof (cases "pending l = []")
  case True
  then show ?thesis using lpm_delete_all_ok [OF inv True] run by simp
next
  case False
  then obtain s where s: "s \<in> set (pending l)" by (cases "pending l") auto
  have "pending l' = pending l" using run by (auto simp: rte_lpm_delete_all_def pending_def queue_def split: if_splits)
  then show ?thesis using False lpm_delete_all_pending [OF inv s run] lpm_delete_all_pending(2) [OF inv _ run] by auto
qed

text \<open>A table whose only group waits in the queue.\<close>

definition demo_waiting :: rte_lpm where
  "demo_waiting = demo_rcu_table\<lparr>tbl8 := (\<lambda>_. zero_entry)(0 := zero_entry\<lparr>valid_group := True\<rparr>),
     lpm_dq := Some \<lparr>dq_ring = [(2, 0)], dq_capacity = 2, dq_size = 1, trigger_reclaim_limit = 0, max_reclaim_size = 16\<rparr>\<rparr>"

lemma demo_waiting_ok: "lpm_holds demo_waiting (\<lambda>_. Map.empty)"
proof -
  have "rules_ok demo_waiting (replicate 32 [])"
    by (simp add: rules_ok_def demo_waiting_def demo_rcu_table_def demo_table_def new_lpm_def info_ok_def empty_routes)
  moreover have "wf_groups (replicate 32 [])" by (simp add: wf_groups_def)
  moreover have "tables no_watch (big (\<lambda>_. Map.empty)) (mt (\<lambda>_. Map.empty)) (pending demo_waiting) demo_waiting"
    by (simp add: demo_waiting_def demo_rcu_table_def demo_table_def new_lpm_def tables_def waits_def no_watch_def slot_ok_def big_def mt_def zero_entry_def ent_ok_def
      empty_routes pending_def queue_def)
  moreover have "rcu_ok demo_waiting"
    using demo_var_ok by (simp add: demo_waiting_def demo_rcu_table_def rcu_ok_def)
  ultimately show ?thesis using lpm_holdsI [OF _ _ empty_routes(1) [symmetric]] by blast
qed

lemma lpm_delete_all_queue_witness:
  "\<exists>l'. rte_lpm_delete_all demo_waiting = Some l' \<and> pending l' = [0] \<and> \<not> valid_group (tbl8 l' 0) \<and> (\<forall>R'. \<not> lpm_holds l' R')"
proof -
  obtain l' where l': "rte_lpm_delete_all demo_waiting = Some l'"
    by (simp add: rte_lpm_delete_all_def demo_waiting_def demo_rcu_table_def demo_table_def new_lpm_def)
  have p: "pending demo_waiting = [0]" by (simp add: demo_waiting_def pending_def queue_def)
  have "pending l' = [0] \<and> (\<forall>s \<in> set (pending l'). \<not> valid_group (tbl8 l' (unat s))) \<and> (\<forall>R'. \<not> lpm_holds l' R')"
    using lpm_delete_all_queue [OF demo_waiting_ok l'] unfolding p by auto
  then have q: "pending l' = [0]" "\<forall>s \<in> set (pending l'). \<not> valid_group (tbl8 l' (unat s))" "\<forall>R'. \<not> lpm_holds l' R'" by blast+
  then have "\<not> valid_group (tbl8 l' 0)" by simp
  with q l' show ?thesis by blast
qed

text \<open>C40: \<open>rte_lpm_create\<close> and large tables. A table for 2^22 + 1 groups, which the check of the arguments allows, is created with
memory for one group, as the size in bytes is computed in 32 bits. The search for a free group of any table of this size
whose first group is taken reads after its end.\<close>

theorem lpm_create_short:
  "\<exists>l. rte_lpm_create (\<lambda>_ _. True) 100 [] (Some (literal ''t'')) 0 4 0x400001 = Some ([l], Inr 0) \<and>
     unat (number_tbl8s l) = 4194305 \<and> tbl8_size l = 256 \<and>
     (\<forall>l'. tbl8_size l' = tbl8_size l \<and> number_tbl8s l' = number_tbl8s l \<and> valid_group (tbl8 l' 0) \<longrightarrow> tbl8_alloc l' = None)"
proof -
  have "strlcpy (replicate 32 0) (literal ''t'') 32 = Some (116 # replicate 31 0, 1)" by code_simp
  then have c: "rte_lpm_create (\<lambda>_ _. True) 100 [] (Some (literal ''t'')) 0 4 0x400001 = Some ([new_lpm (116 # replicate 31 0) 4 0x400001 32 1024], Inr 0)"
    by (simp add: rte_lpm_create_def zmalloc_def)
  have n: "(4194305 :: nat) = Suc (Suc 4194303)" by simp
  have "tbl8_alloc l' = None" if "tbl8_size l' = 256" "number_tbl8s l' = 0x400001" "valid_group (tbl8 l' 0)" for l'
  proof -
    have "unat (number_tbl8s l') = Suc (Suc 4194303)" using that(2) by simp
    then have "alloc_scan (unat (number_tbl8s l')) 0 l' = None" using that(1,3) by (simp only: alloc_scan.simps) (simp add: get8_def)
    then show ?thesis by (simp add: tbl8_alloc_def)
  qed
  then show ?thesis using c by (simp add: new_lpm_def)
qed

lemma lpm_create_short_witness:
  "\<exists>l. rte_lpm_create (\<lambda>_ _. True) 100 [] (Some (literal ''t'')) 0 4 0x400001 = Some ([l], Inr 0) \<and> tbl8_size l = 256 \<and>
     tbl8_alloc (l\<lparr>tbl8 := (tbl8 l)(0 := zero_entry\<lparr>valid_group := True\<rparr>)\<rparr>) = None"
proof -
  obtain l where l: "rte_lpm_create (\<lambda>_ _. True) 100 [] (Some (literal ''t'')) 0 4 0x400001 = Some ([l], Inr 0)" "tbl8_size l = 256"
    "\<forall>l'. tbl8_size l' = tbl8_size l \<and> number_tbl8s l' = number_tbl8s l \<and> valid_group (tbl8 l' 0) \<longrightarrow> tbl8_alloc l' = None"
    using lpm_create_short by blast
  then show ?thesis by simp
qed

text \<open>A next hop has 24 bits in the tables and 32 in the rules: what \<open>rte_lpm_is_rule_present\<close> gives is not what a lookup gives.\<close>

lemma lpm_next_hop_cut:
  "\<exists>l. rte_lpm_add demo_table 0x0A000000 8 0x01000005 = Some (l, 0) \<and>
     rte_lpm_is_rule_present l 0x0A000000 8 = Some (1, Some 0x01000005) \<and> rte_lpm_lookup l 0x0A000000 = Some (0, 5)"
proof -
  have "lpm_holds (new_lpm (116 # replicate 31 0) 4 1 (unat (8 * 4 :: u32)) (unat (4 * 256 * 1 :: u32))) (\<lambda>_. Map.empty)" by (rule new_lpm_ok) simp_all
  then have h: "lpm_holds demo_table (\<lambda>_. Map.empty)" by (simp add: demo_table_def)
  have p: "0x0A000000 = pfx 8 0x0A000000" by code_simp
  have "rules_used demo_table \<noteq> unat (max_rules demo_table)" by (simp add: rules_used_def demo_table_def new_lpm_def sum_list_replicate)
  with lpm_add_ok [OF h _ _ p, of "0x01000005"] obtain l where l: "rte_lpm_add demo_table 0x0A000000 8 0x01000005 = Some (l, 0)"
    "lpm_holds l (route_add (\<lambda>_. Map.empty) 8 0x0A000000 0x01000005)" by auto
  let ?R = "route_add (\<lambda>_. Map.empty) 8 0x0A000000 0x01000005"
  have b: "best ?R 32 0x0A000000 = Some (8, 0x01000005)" unfolding best_Some_iff using p by (simp add: route_add_def)
  obtain res where "rte_lpm_lookup l 0x0A000000 = Some res" "lookup_spec ?R 0x0A000000 res" using lpm_lookup_ok [OF l(2)] by blast
  then have "rte_lpm_lookup l 0x0A000000 = Some (0, 5)" by (simp add: lookup_spec_def b)
  moreover have "rte_lpm_is_rule_present l 0x0A000000 8 = Some (1, Some 0x01000005)"
    using lpm_is_rule_present_ok [OF l(2), of 8 "0x0A000000"] p by (simp add: route_add_def)
  ultimately show ?thesis using l(1) by blast
qed

end
