(* ===== verification/Lpm_Readers.thy ===== *)
theory Lpm_Readers
  imports Lpm_Props
begin

text \<open>
  A lookup that is overtaken: between its two loads the writer adds and deletes routes and other threads act on the
  quiescent state variable. Every call in between is one step.
\<close>

section \<open>The two loads\<close>

definition lookup_first :: "rte_lpm \<Rightarrow> u32 \<Rightarrow> u32 option" where
  "lookup_first l ip = map_option entry_word (get24 l (unat (drop_bit 8 ip)))"

definition lookup_second :: "rte_lpm \<Rightarrow> u32 \<Rightarrow> u32 \<Rightarrow> u32 option" where
  "lookup_second l ip w =
     (if w AND 0x03000000 = 0x03000000
      then map_option entry_word (get8 l (unat ((ucast (ucast ip :: u8) :: u32) + (w AND 0x00FFFFFF) * 256)))
      else Some w)"

lemma lookup_entry_loads: "lookup_entry l ip = do { w \<leftarrow> lookup_first l ip; lookup_second l ip w }"
  by (auto simp: lookup_entry_def lookup_first_def lookup_second_def Let_def bind_eq_Some_conv split: bind_splits intro!: option.expand)

section \<open>An operation\<close>

text \<open>What the routes become if the operation takes one away.\<close>

fun route_less :: "lpm_op \<Rightarrow> routes \<Rightarrow> routes" where
  "route_less (Op_delete ip d) R = route_del R (unat d) (pfx (unat d) ip)"
| "route_less _ R = R"

lemma big_add_mono: "big R i \<Longrightarrow> big (route_add R d x h) i"
  unfolding big_def route_dom by blast

lemma state_op:
  assumes inv: "lpm_state w r l R" and wait: "wait_ok wait" and p: "\<forall>as. p \<noteq> Op_readers as"
    and link: "\<forall>i g. \<not> big R i \<longrightarrow> link_ok w i g"
    and kp: "\<forall>i < TBL24_ENTRIES. big R i \<longrightarrow> (\<forall>es. length es = 256 \<longrightarrow> (\<forall>j < 256. ent_ok (es ! j) (mt (route_less p R) i j)) \<longrightarrow>
      kept w (of_nat (256 * grp l i)) es)"
  shows "\<exists>l' rc r'. table_op rte_lpm_add (rte_lpm_delete wait) lpm_readers p l = Some (l', rc) \<and> rcu_step l l' \<and>
    lpm_state w (r' @ r) l' (route_step p rc R) \<and>
    (\<forall>i < TBL24_ENTRIES. big R i \<longrightarrow> \<not> big (route_step p rc R) i \<longrightarrow>
      route_step p rc R = route_less p R \<and> (deferring l \<longrightarrow> of_nat (256 * grp l i) \<in> set (pending l' @ r')))"
proof (cases p)
  case (Op_add ip d h)
  show ?thesis
  proof (cases "depth_ok d")
    case True
    note d = depth_cases(1) [OF True]
    from lpm_state_add [OF inv link, of "unat d" "pfx (unat d) ip" ip h] d obtain l' rc where
      "rte_lpm_add l ip d h = Some (l', rc)" "rcu_step l l'" "rc = 0 \<and> lpm_state w r l' (route_add R (unat d) (pfx (unat d) ip) h) \<or>
       rc = LPM_ENOSPC \<and> lpm_state w r l' R" by auto
    then show ?thesis using Op_add big_add_mono [of R]
      by (intro exI [of _ l'] exI [of _ rc] exI [of _ "[]"]) auto
  next
    case False
    then show ?thesis using inv depth_cases(2) [of d] Op_add
      by (intro exI [of _ l] exI [of _ LPM_EINVAL] exI [of _ "[]"]) (auto simp: rte_lpm_add_def)
  qed
next
  case (Op_delete ip d)
  show ?thesis
  proof (cases "depth_ok d")
    case True
    note d = depth_cases(1) [OF True]
    let ?R = "route_del R (unat d) (pfx (unat d) ip)"
    from lpm_state_delete [OF inv wait, of "unat d" "pfx (unat d) ip" ip] d kp obtain l' rc r' where
      e: "rte_lpm_delete wait l ip d = Some (l', rc)" "rcu_step l l'" "if R (unat d) (pfx (unat d) ip) = None then rc = LPM_EINVAL \<and> l' = l
       else lpm_state w (r' @ r) l' ?R \<and> (rc = 0 \<or> rc = LPM_ENOSPC \<and> lpm_dq l \<noteq> None \<and> 24 < unat d) \<and>
       (deferring l \<longrightarrow> (\<forall>i < TBL24_ENTRIES. big R i \<longrightarrow> \<not> big ?R i \<longrightarrow> of_nat (256 * grp l i) \<in> set (pending l' @ r')))"
      by (simp add: Op_delete del: set_append) blast
    show ?thesis
    proof (cases "R (unat d) (pfx (unat d) ip) = None")
      case True
      then show ?thesis using e inv Op_delete by (intro exI [of _ l'] exI [of _ rc] exI [of _ "[]"]) simp
    next
      case False
      then show ?thesis using e Op_delete by (intro exI [of _ l'] exI [of _ rc] exI [of _ r']) (auto simp del: set_append)
    qed
  next
    case False
    then show ?thesis using inv depth_cases(2) [of d] Op_delete
      by (intro exI [of _ l] exI [of _ LPM_EINVAL] exI [of _ "[]"]) (auto simp: rte_lpm_delete_def)
  qed
qed (use p in simp)

section \<open>The reader's token\<close>

text \<open>
  Thread \<open>th\<close> reads since before token \<open>t0\<close> was drawn, the table defers, and \<open>n\<close> more tokens can be drawn.
\<close>

definition holding :: "u32 \<Rightarrow> u64 \<Rightarrow> nat \<Rightarrow> rte_lpm \<Rightarrow> bool" where
  "holding th t0 n l \<longleftrightarrow> rcu_mode l = RTE_LPM_QSBR_MODE_DQ \<and>
     (\<exists>v. lpm_v l = Some v \<and> reader v th t0 \<and> unat t0 \<le> unat (token v) + 1 \<and> unat (token v) + n < 2 ^ 64 - 1)"

lemma unat_token: "unat (t :: u64) + 1 < 2 ^ 64 \<Longrightarrow> unat (t + 1) = unat t + 1"
  by (subst unat_add_lem [THEN iffD1]) simp_all

lemma holding_step:
  assumes s: "rcu_step l l'" and h: "holding th t0 (n + 1) l"
  shows "holding th t0 n l'" "\<forall>e \<in> set (queue l). t0 \<le> fst e \<longrightarrow> e \<in> set (queue l')" "\<forall>e \<in> set (queue l') - set (queue l). t0 \<le> fst e"
proof -
  obtain v where v: "lpm_v l = Some v" "reader v th t0" "unat t0 \<le> unat (token v) + 1" "unat (token v) + (n + 1) < 2 ^ 64 - 1"
    and m: "rcu_mode l = RTE_LPM_QSBR_MODE_DQ" using h by (auto simp: holding_def)
  obtain v' where v': "lpm_v l' = Some v'" using s v(1) by (auto simp: rcu_step_def)
  have q: "queue_step v (queue l) v' (queue l')" and m': "rcu_mode l' = RTE_LPM_QSBR_MODE_DQ" using s m v(1) v' by (auto simp: rcu_step_def)
  have r: "reader v' th t0" and k: "\<forall>e \<in> set (queue l). t0 \<le> fst e \<longrightarrow> e \<in> set (queue l')" using q v(2) by (auto simp: queue_step_def)
  show "\<forall>e \<in> set (queue l). t0 \<le> fst e \<longrightarrow> e \<in> set (queue l')" by (rule k)
  have u: "unat (token v + 1) = unat (token v) + 1" using v(4) by (intro unat_token) simp
  then have t: "t0 \<le> token v + 1" using v(3) by (simp add: word_le_nat_alt)
  have "fst e = token v + 1" if "e \<in> set (queue l') - set (queue l)" for e using q that unfolding queue_step_def by blast
  then show "\<forall>e \<in> set (queue l') - set (queue l). t0 \<le> fst e" using t by simp
  have "token v' = token v \<or> token v' = token v + 1" using q by (auto simp: queue_step_def)
  then show "holding th t0 n l'" using r v(3,4) v' m' u by (auto simp: holding_def)
qed

lemma act_token:
  assumes a: "qsbr_act a v = Some v'"
  shows "token v' = token v \<or> token v' = token v + 1"
proof (cases "a = Start \<or> (\<exists>t. a = Check t)")
  case True
  then show ?thesis using a check_token by (auto simp: rte_rcu_qsbr_start_def Let_def)
next
  case False
  then show ?thesis using act_other [OF a] by simp
qed

lemma run_token: "qsbr_run as v = Some v' \<Longrightarrow> unat (token v) + length as < 2 ^ 64 \<Longrightarrow>
    unat (token v) \<le> unat (token v') \<and> unat (token v') \<le> unat (token v) + length as"
proof (induction "as" arbitrary: v)
  case (Cons a "as")
  then obtain v1 where v1: "qsbr_act a v = Some v1" "qsbr_run as v1 = Some v'" by (auto simp: bind_eq_Some_conv)
  have "unat (token v1) = unat (token v) \<or> unat (token v1) = unat (token v) + 1"
    using act_token [OF v1(1)] unat_token [of "token v"] Cons.prems(2) by auto
  then show ?case using Cons.IH [OF v1(2)] Cons.prems(2) by auto
qed simp

lemma holding_readers:
  assumes h: "holding th t0 (n + length as) l" and quiet: "\<forall>a \<in> set as. \<not> reports th a"
  shows "\<exists>v v'. lpm_v l = Some v \<and> lpm_readers as l = Some (l\<lparr>lpm_v := Some v'\<rparr>, 0) \<and> holding th t0 n (l\<lparr>lpm_v := Some v'\<rparr>) \<and> (qsbr_ok v \<longrightarrow> qsbr_ok v')"
proof -
  obtain v where v: "lpm_v l = Some v" "reader v th t0" "unat t0 \<le> unat (token v) + 1" "unat (token v) + (n + length as) < 2 ^ 64 - 1"
    and m: "rcu_mode l = RTE_LPM_QSBR_MODE_DQ" using h by (auto simp: holding_def)
  have same: "l\<lparr>lpm_v := Some v\<rparr> = l" using v(1) by (cases l) simp
  show ?thesis
  proof (cases "qsbr_run as v")
    case None
    then show ?thesis using v m same by (intro exI [of _ v]) (auto simp: lpm_readers_def holding_def)
  next
    case (Some v')
    have "reader v' th t0" using run_keeps [OF Some quiet, of t0] v(2) by (simp add: reader_def)
    moreover have "unat (token v) \<le> unat (token v') \<and> unat (token v') \<le> unat (token v) + length as" using run_token [OF Some] v(4) by simp
    ultimately have "holding th t0 n (l\<lparr>lpm_v := Some v'\<rparr>)" using v(3,4) m by (auto simp: holding_def)
    then show ?thesis using v(1) Some run_ok [OF Some] by (intro exI [of _ v] exI [of _ v']) (simp add: lpm_readers_def)
  qed
qed

section \<open>What the reader holds\<close>

text \<open>
  A reader holds group \<open>g\<close>, which it found in entry \<open>i\<close>. Either the entry still has it (\<open>None\<close>), or it was let go by the
  operation after which the routes were \<open>R0\<close>: it waits in the queue with a token of \<open>t0\<close> or later, or it was lost. Its
  entries then stay as they were.
\<close>

abbreviation (input) group_key :: "nat \<Rightarrow> u32" where "group_key g \<equiv> of_nat (256 * g)"

definition group_shows :: "routes \<Rightarrow> nat \<Rightarrow> rte_lpm_tbl_entry list \<Rightarrow> bool" where
  "group_shows R i es \<longleftrightarrow> (\<forall>j < 256. ent_ok (es ! j) (mt R i j))"

definition holds_group :: "nat \<Rightarrow> nat \<Rightarrow> u64 \<Rightarrow> rte_lpm \<Rightarrow> routes \<Rightarrow> routes option \<Rightarrow> bool" where
  "holds_group i g t0 l R ph \<longleftrightarrow>
     (\<exists>w r. lpm_state w r l R \<and>
       (case ph of
          None \<Rightarrow> big R i \<and> grp l i = g
        | Some R0 \<Rightarrow> (\<forall>es. kept w (group_key g) es \<longrightarrow> group_shows R0 i es) \<and>
            (group_key g \<in> set r \<or> (\<exists>t \<ge> t0. (t, group_key g) \<in> set (queue l)))))"

text \<open>The watch for the next operation: the entry has no other group, and if its group goes, its entries stay.\<close>

definition watching :: "nat \<Rightarrow> nat \<Rightarrow> routes option \<Rightarrow> routes \<Rightarrow> watch" where
  "watching i g ph R' =
     \<lparr>link_ok = (\<lambda>k h. ph = None \<longrightarrow> k = i \<longrightarrow> h = g),
      kept = (\<lambda>s es. s = group_key g \<longrightarrow> group_shows (case ph of None \<Rightarrow> R' | Some R0 \<Rightarrow> R0) i es)\<rparr>"

lemma group_key: "g < 2 ^ 24 \<Longrightarrow> unat (group_key g) = 256 * g"
  by (subst unat_of_nat) simp

lemma grp_less: "grp l i < 2 ^ 24"
  unfolding grp_def by (rule less_le_trans [OF unsigned_less]) simp

lemma key_pending: "(t, s) \<in> set (queue l) \<Longrightarrow> s \<in> set (pending l)"
  unfolding pending_def by force

lemma key_other:
  assumes "tables w b f q l" "group_key g \<in> set q" "g < 2 ^ 24" "k < TBL24_ENTRIES" "b k"
  shows "grp l k \<noteq> g"
  by (rule tables_pend [OF assms(1,2)]) (use assms group_key [OF assms(3)] in auto)

lemma holds_watching:
  assumes h: "holds_group i g t0 l R ph" and i: "i < TBL24_ENTRIES" "g < 2 ^ 24"
  shows "\<exists>r. lpm_state (watching i g ph R') r l R \<and> (ph = None \<longrightarrow> big R i \<and> grp l i = g \<and> group_key g \<notin> set (pending l)) \<and>
    (ph \<noteq> None \<longrightarrow> group_key g \<in> set r \<or> (\<exists>t \<ge> t0. (t, group_key g) \<in> set (queue l)))"
proof -
  obtain w r where s: "lpm_state w r l R" and ph: "case ph of None \<Rightarrow> big R i \<and> grp l i = g
      | Some R0 \<Rightarrow> (\<forall>es. kept w (group_key g) es \<longrightarrow> group_shows R0 i es) \<and> (group_key g \<in> set r \<or> (\<exists>t \<ge> t0. (t, group_key g) \<in> set (queue l)))"
    using h by (auto simp: holds_group_def)
  have t: "tables w (big R) (mt R) (pending l @ r) l" using s by (simp add: lpm_state_def)
  have no: "group_key g \<notin> set (pending l @ r)" if "ph = None"
    using key_other [OF t _ i(2,1)] ph that by auto
  have "tables (watching i g ph R') (big R) (mt R) (pending l @ r) l"
  proof (rule tables_watch [OF t])
    show "link_ok (watching i g ph R') k (grp l k)" for k using ph by (auto simp: watching_def)
    show "kept (watching i g ph R') s es" if "s \<in> set (pending l @ r)" "kept w s es" for s es
      using no ph that by (cases ph) (auto simp: watching_def simp del: set_append)
  qed
  then show ?thesis using s ph no by (intro exI [of _ r]) (cases ph; auto simp: lpm_state_def)
qed

lemma holds_op:
  assumes h: "holds_group i g t0 l R ph" and i: "i < TBL24_ENTRIES" "g < 2 ^ 24" and wait: "wait_ok wait"
    and p: "\<forall>as. p \<noteq> Op_readers as" and hold: "holding th t0 (n + 1) l"
  shows "\<exists>l' rc ph'. table_op rte_lpm_add (rte_lpm_delete wait) lpm_readers p l = Some (l', rc) \<and> holding th t0 n l' \<and>
    holds_group i g t0 l' (route_step p rc R) ph' \<and> (ph' = ph \<or> ph = None \<and> ph' = Some (route_step p rc R))"
proof -
  let ?w = "watching i g ph (route_less p R)"
  obtain r where s: "lpm_state ?w r l R" and n: "ph = None \<Longrightarrow> big R i \<and> grp l i = g \<and> group_key g \<notin> set (pending l)"
    and q: "ph \<noteq> None \<Longrightarrow> group_key g \<in> set r \<or> (\<exists>t \<ge> t0. (t, group_key g) \<in> set (queue l))"
    using holds_watching [OF h i] by blast
  have t: "tables ?w (big R) (mt R) (pending l @ r) l" using s by (simp add: lpm_state_def)
  have link: "\<forall>k h. \<not> big R k \<longrightarrow> link_ok ?w k h" using n by (auto simp: watching_def)
  have kp: "kept ?w (group_key (grp l k)) es"
    if k: "k < TBL24_ENTRIES" "big R k" "\<forall>j < 256. ent_ok (es ! j) (mt (route_less p R) k j)" for k es
  proof (cases "group_key (grp l k) = group_key g")
    case True
    then have e: "grp l k = g" using group_key [OF grp_less, of l k] group_key [OF i(2)] by simp
    show ?thesis
    proof (cases ph)
      case None
      then have "k = i" using tables_inj [OF t k(1) i(1) k(2)] n e by simp
      then show ?thesis using k(3) None by (simp add: watching_def group_shows_def)
    next
      case (Some R0)
      then have "group_key g \<in> set (pending l @ r)" using q key_pending by fastforce
      then show ?thesis using key_other [OF t _ i(2) k(1,2)] e by simp
    qed
  qed (simp add: watching_def)
  obtain l' rc r' where o: "table_op rte_lpm_add (rte_lpm_delete wait) lpm_readers p l = Some (l', rc)" "rcu_step l l'"
    "lpm_state ?w (r' @ r) l' (route_step p rc R)"
    "\<forall>i < TBL24_ENTRIES. big R i \<longrightarrow> \<not> big (route_step p rc R) i \<longrightarrow>
      route_step p rc R = route_less p R \<and> (deferring l \<longrightarrow> group_key (grp l i) \<in> set (pending l' @ r'))"
    using state_op [OF s wait p link] kp by (simp del: set_append) blast
  note H = holding_step [OF o(2) hold]
  have d: "deferring l" using hold by (auto simp: holding_def deferring_def)
  have same: "holds_group i g t0 l' (route_step p rc R) (Some R0)"
    if "ph = Some R0 \<or> ph = None \<and> R0 = route_less p R" "group_key g \<in> set (r' @ r) \<or> (\<exists>t \<ge> t0. (t, group_key g) \<in> set (queue l'))" for R0
    unfolding holds_group_def using o(3) that
    by (intro exI [of _ ?w] exI [of _ "r' @ r"]) (auto simp: watching_def simp del: set_append)
  show ?thesis
  proof (cases ph)
    case (Some R0)
    then have "group_key g \<in> set (r' @ r) \<or> (\<exists>t \<ge> t0. (t, group_key g) \<in> set (queue l'))" using q H(2) by fastforce
    then show ?thesis using same Some o(1) H(1) by blast
  next
    case None
    show ?thesis
    proof (cases "big (route_step p rc R) i")
      case True
      have "tables ?w (big (route_step p rc R)) (mt (route_step p rc R)) (pending l' @ r' @ r) l'" using o(3) by (simp add: lpm_state_def)
      from tables_link_ok [OF this i(1) True] have "grp l' i = g" using None by (simp add: watching_def)
      then have "holds_group i g t0 l' (route_step p rc R) None" using o(3) True by (auto simp: holds_group_def)
      then show ?thesis using None o(1) H(1) by blast
    next
      case False
      then have e: "route_step p rc R = route_less p R" "group_key g \<in> set (pending l' @ r')" using o(4) i(1) n [OF None] d by auto
      have "group_key g \<in> set (r' @ r) \<or> (\<exists>t \<ge> t0. (t, group_key g) \<in> set (queue l'))"
      proof (cases "group_key g \<in> set r'")
        case False
        then obtain t where t: "(t, group_key g) \<in> set (queue l')" using e(2) by (auto simp: pending_def)
        moreover have "(t, group_key g) \<notin> set (queue l)" using n [OF None] key_pending by blast
        ultimately have "t0 \<le> fst (t, group_key g)" using H(3) by blast
        then show ?thesis using t by auto
      qed simp
      then show ?thesis using same [of "route_less p R"] None e(1) o(1) H(1) by metis
    qed
  qed
qed

section \<open>Any number of operations\<close>

text \<open>At most so many tokens are drawn.\<close>

fun draws :: "lpm_op list \<Rightarrow> nat" where
  "draws [] = 0"
| "draws (Op_readers as # ps) = length as + draws ps"
| "draws (p # ps) = 1 + draws ps"

fun silent :: "u32 \<Rightarrow> lpm_op \<Rightarrow> bool" where
  "silent th (Op_readers as) \<longleftrightarrow> (\<forall>a \<in> set as. \<not> reports th a)"
| "silent th p \<longleftrightarrow> True"

lemma holds_var: "holds_group i g t0 l R ph \<Longrightarrow> lpm_v l \<noteq> None \<Longrightarrow> qsbr_ok v \<Longrightarrow> holds_group i g t0 (l\<lparr>lpm_v := Some v\<rparr>) R ph"
  unfolding holds_group_def pending_var grp_def
  by (elim exE conjE, intro exI conjI, erule (2) lpm_state_var) (cases ph; simp)

lemma holds_step:
  assumes h: "holds_group i g t0 l R ph" and i: "i < TBL24_ENTRIES" "g < 2 ^ 24" and wait: "wait_ok wait"
    and s: "silent th p" and hold: "holding th t0 (draws (p # ps)) l"
  shows "\<exists>l' rc ph'. table_op rte_lpm_add (rte_lpm_delete wait) lpm_readers p l = Some (l', rc) \<and> holding th t0 (draws ps) l' \<and>
    holds_group i g t0 l' (route_step p rc R) ph' \<and> (ph' = ph \<or> ph = None \<and> ph' = Some (route_step p rc R))"
proof (cases p)
  case (Op_readers as)
  have q: "\<forall>a \<in> set as. \<not> reports th a" "holding th t0 (draws ps + length as) l" using s hold by (simp_all add: Op_readers add.commute)
  obtain v v' where v: "lpm_v l = Some v" "lpm_readers as l = Some (l\<lparr>lpm_v := Some v'\<rparr>, 0)" "holding th t0 (draws ps) (l\<lparr>lpm_v := Some v'\<rparr>)"
    "qsbr_ok v \<longrightarrow> qsbr_ok v'" using holding_readers [OF q(2,1)] by blast
  have "qsbr_ok v" using h v(1) by (auto simp: holds_group_def lpm_state_def rcu_ok_def)
  then have "holds_group i g t0 (l\<lparr>lpm_v := Some v'\<rparr>) R ph" using holds_var [OF h] v by simp
  then show ?thesis using v Op_readers by (intro exI [of _ "l\<lparr>lpm_v := Some v'\<rparr>"] exI [of _ 0] exI [of _ ph]) simp
next
  case (Op_add ip d h)
  then have "holding th t0 (draws ps + 1) l" "\<forall>as. p \<noteq> Op_readers as" using hold by simp_all
  then show ?thesis using holds_op [OF assms(1) i wait] by blast
next
  case (Op_delete ip d)
  then have "holding th t0 (draws ps + 1) l" "\<forall>as. p \<noteq> Op_readers as" using hold by simp_all
  then show ?thesis using holds_op [OF assms(1) i wait] by blast
qed

lemma holds_run:
  assumes i: "i < TBL24_ENTRIES" "g < 2 ^ 24" and wait: "wait_ok wait"
  shows "holds_group i g t0 l R ph \<Longrightarrow> \<forall>p \<in> set ps. silent th p \<Longrightarrow> holding th t0 (draws ps) l \<Longrightarrow>
    \<exists>l' rcs ph'. table_run rte_lpm_add (rte_lpm_delete wait) lpm_readers ps l = Some (l', rcs) \<and>
      holds_group i g t0 l' (routes_run ps rcs R) ph' \<and>
      (ph' = ph \<or> ph = None \<and> (\<exists>n \<le> length ps. ph' = Some (routes_run (take n ps) (take n rcs) R)))"
proof (induction ps arbitrary: l R ph)
  case (Cons p ps)
  have "silent th p" using Cons.prems(2) by simp
  from holds_step [OF Cons.prems(1) i wait this Cons.prems(3)] obtain l1 rc ph1 where
    o: "table_op rte_lpm_add (rte_lpm_delete wait) lpm_readers p l = Some (l1, rc)" "holding th t0 (draws ps) l1"
    "holds_group i g t0 l1 (route_step p rc R) ph1" "ph1 = ph \<or> ph = None \<and> ph1 = Some (route_step p rc R)" by (elim exE conjE)
  from Cons.IH [OF o(3) _ o(2)] Cons.prems(2) obtain l' rcs ph' where
    r: "table_run rte_lpm_add (rte_lpm_delete wait) lpm_readers ps l1 = Some (l', rcs)"
    "holds_group i g t0 l' (routes_run ps rcs (route_step p rc R)) ph'"
    "ph' = ph1 \<or> ph1 = None \<and> (\<exists>n \<le> length ps. ph' = Some (routes_run (take n ps) (take n rcs) (route_step p rc R)))" by auto
  have "ph' = ph \<or> ph = None \<and> (\<exists>n \<le> length (p # ps). ph' = Some (routes_run (take n (p # ps)) (take n (rc # rcs)) R))"
  proof -
    have "ph' = Some (routes_run (take n ps) (take n rcs) (route_step p rc R)) \<Longrightarrow> n \<le> length ps \<Longrightarrow>
        \<exists>n \<le> length (p # ps). ph' = Some (routes_run (take n (p # ps)) (take n (rc # rcs)) R)" for n
      by (intro exI [of _ "Suc n"]) simp
    moreover have "routes_run (take 0 ps) (take 0 rcs) (route_step p rc R) = route_step p rc R" by simp
    ultimately show ?thesis using o(4) r(3) by (metis le0)
  qed
  then show ?case using o(1) r(1,2) by (intro exI [of _ l'] exI [of _ "rc # rcs"] exI [of _ ph']) simp
qed (intro exI [of _ "[]"] exI, auto)

section \<open>The second load\<close>

lemma second_load:
  assumes h: "holds_group i g t0 l R ph" and i: "i = unat (drop_bit 8 ip)" and g: "g = grp l0 i"
    and e: "valid (tbl24 l0 i)" "valid_group (tbl24 l0 i)"
  shows "\<exists>x. lookup_second l ip (entry_word (tbl24 l0 i)) = Some (entry_word x) \<and> ent_ok x (best (case ph of None \<Rightarrow> R | Some R0 \<Rightarrow> R0) 32 ip)"
proof -
  let ?j = "unat (ip AND 0xFF)"
  have b: "i < TBL24_ENTRIES" "?j < 256" "g < 2 ^ 24" using index_bounds [of ip] grp_less by (simp_all add: i g)
  have mt: "mt R' i ?j = best R' 32 ip" for R' by (simp add: mt_def addr_split i)
  obtain w r where t: "tables w (big R) (mt R) (pending l @ r) l" and ph: "case ph of None \<Rightarrow> big R i \<and> grp l i = g
      | Some R0 \<Rightarrow> (\<forall>es. kept w (group_key g) es \<longrightarrow> group_shows R0 i es) \<and> (group_key g \<in> set r \<or> (\<exists>t \<ge> t0. (t, group_key g) \<in> set (queue l)))"
    using h by (auto simp: holds_group_def lpm_state_def)
  have S: "unat (number_tbl8s l) \<le> 2 ^ 22" "256 * unat (number_tbl8s l) \<le> tbl8_size l" using tablesD(3,4) [OF t b(1)] by simp_all
  have G: "g < unat (number_tbl8s l) \<and> ent_ok (tbl8 l (256 * g + ?j)) (mt (case ph of None \<Rightarrow> R | Some R0 \<Rightarrow> R0) i ?j)"
  proof (cases ph)
    case None
    then show ?thesis using tablesD(1) [OF t b(1)] ph b(2) by (auto simp: slot_ok_def)
  next
    case (Some R0)
    then have "group_key g \<in> set (pending l @ r)" using ph key_pending by auto
    from tables_pend [OF t this] obtain h where h: "h < unat (number_tbl8s l)" "unat (group_key g) = 256 * h" "kept w (group_key g) (group_of (tbl8 l) h)" by metis
    then have "h = g" using group_key [OF b(3)] by simp
    then have "group_shows R0 i (group_of (tbl8 l) g)" using h ph Some by simp
    then show ?thesis using h \<open>h = g\<close> b(2) Some by (simp add: group_shows_def group_of_def)
  qed
  have "unat (ucast (next_hop (tbl24 l0 i)) :: u32) = g"
    by (simp add: g grp_def unsigned_ucast_eq take_bit_nat_eq_self_iff) (rule less_trans [OF unsigned_less], simp)
  from group_index [OF _ this, of ip] G S b(2) have
    "lookup_second l ip (entry_word (tbl24 l0 i)) = Some (entry_word (tbl8 l (256 * g + ?j)))"
    using e by (simp add: lookup_second_def entry_word_extended entry_word_hop get8_def)
  then show ?thesis using G mt by auto
qed

section \<open>The lookup\<close>

lemma routes_run_take: "routes_run ps (take (length ps) rcs) R = routes_run ps rcs R"
  by (induction ps rcs R rule: routes_run.induct) auto

lemma lookup_first_group:
  assumes inv: "lpm_holds l R"
  shows "lookup_first l ip = Some (entry_word (tbl24 l (unat (drop_bit 8 ip))))"
    "big R (unat (drop_bit 8 ip)) \<Longrightarrow> valid (tbl24 l (unat (drop_bit 8 ip))) \<and> valid_group (tbl24 l (unat (drop_bit 8 ip)))"
    "big R (unat (drop_bit 8 ip)) \<Longrightarrow> holds_group (unat (drop_bit 8 ip)) (grp l (unat (drop_bit 8 ip))) t0 l R None"
    "\<not> big R (unat (drop_bit 8 ip)) \<Longrightarrow> lookup_second l' ip (entry_word (tbl24 l (unat (drop_bit 8 ip)))) = Some (entry_word (tbl24 l (unat (drop_bit 8 ip)))) \<and>
      ent_ok (tbl24 l (unat (drop_bit 8 ip))) (best R 32 ip)"
proof -
  let ?i = "unat (drop_bit 8 ip)"
  note b = index_bounds [of ip]
  show "lookup_first l ip = Some (entry_word (tbl24 l ?i))" using b by (simp add: lookup_first_def get24_def)
  have t: "tables no_watch (big R) (mt R) (pending l) l" using inv by (simp add: lpm_holds_def)
  have s: "slot_ok (big R ?i) (mt R ?i) l ?i" by (rule tablesD(1) [OF t b(1)])
  show "valid (tbl24 l ?i) \<and> valid_group (tbl24 l ?i)" if "big R ?i" using s that by (simp add: slot_ok_def)
  show "holds_group ?i (grp l ?i) t0 l R None" if "big R ?i"
    using inv that unfolding lpm_holds_state holds_group_def by auto
  have "mt R ?i (unat (ip AND 0xFF)) = best R 32 ip" by (simp add: mt_def addr_split)
  then show "lookup_second l' ip (entry_word (tbl24 l ?i)) = Some (entry_word (tbl24 l ?i)) \<and> ent_ok (tbl24 l ?i) (best R 32 ip)" if "\<not> big R ?i"
    using s that b(2) by (auto simp: slot_ok_def lookup_second_def entry_word_extended)
qed

text \<open>C6: A lookup that is overtaken. In a table that holds the routes \<open>R\<close> and has a quiescent state variable in the queueing mode,
a thread that is online loads the entry of \<open>tbl24\<close> for an address. Before it loads the entry of \<open>tbl8\<close> that the first one
leads to, any calls of \<open>rte_lpm_add\<close> and \<open>rte_lpm_delete\<close> are made, and other threads register, report, come and go; only
the thread itself does not report. The second load is then inside the table, and the lookup gives the longest match in the
routes as they were after some of these calls, although the group may have been let go, and another address may have the
entry of \<open>tbl24\<close> with another group: a group waits in the queue as long as a thread can read it. The tokens of 64 bits do not
run out.\<close>

theorem lpm_lookup_overtaken:
  assumes inv: "lpm_holds l R" and mode: "rcu_mode l = RTE_LPM_QSBR_MODE_DQ" and v: "lpm_v l = Some v" "qsbr_wf v" and th: "online v th"
    and wait: "wait_ok wait" and silent: "\<forall>p \<in> set ps. silent th p" and tokens: "unat (token v) + draws ps < 2 ^ 64 - 1"
  shows "\<exists>w l' rcs w'. lookup_first l ip = Some w \<and>
    table_run rte_lpm_add (rte_lpm_delete wait) lpm_readers ps l = Some (l', rcs) \<and> lookup_second l' ip w = Some w' \<and>
    (\<exists>n \<le> length ps. lookup_spec (routes_run (take n ps) (take n rcs) R) ip (read_word w'))"
proof -
  let ?i = "unat (drop_bit 8 ip)"
  let ?w = "entry_word (tbl24 l ?i)"
  note F = lookup_first_group [OF inv, of ip]
  show ?thesis
  proof (cases "big R ?i")
    case False
    obtain l' rcs where r: "table_run rte_lpm_add (rte_lpm_delete wait) lpm_readers ps l = Some (l', rcs)"
      using lpm_table.table_run_ok [of wait l R ps] inv wait by blast
    have "lookup_spec (routes_run (take 0 ps) (take 0 rcs) R) ip (read_word ?w)" using read_word_ok F(4) [OF False] by simp
    then show ?thesis using r F(1) F(4) [OF False] by blast
  next
    case True
    have "unat (- 1 :: u64) = 2 ^ 64 - 1" by (simp add: unsigned_minus_1_eq_mask mask_eq_exp_minus_1)
    then have "token v \<noteq> - 1" using tokens by auto
    then have "reader v th (token v + 1)" by (rule reader_start [OF _ v(2) th])
    moreover have "unat (token v + 1) = unat (token v) + 1" using tokens by (intro unat_token) simp
    ultimately have "holding th (token v + 1) (draws ps) l" using mode v(1) tokens by (auto simp: holding_def)
    from holds_run [OF index_bounds(1) grp_less wait F(3) [OF True] silent this] obtain l' rcs ph where
      r: "table_run rte_lpm_add (rte_lpm_delete wait) lpm_readers ps l = Some (l', rcs)"
      "holds_group ?i (grp l ?i) (token v + 1) l' (routes_run ps rcs R) ph"
      "ph = None \<or> (\<exists>n \<le> length ps. ph = Some (routes_run (take n ps) (take n rcs) R))" by (elim exE conjE) auto
    have "valid (tbl24 l ?i)" "valid_group (tbl24 l ?i)" using F(2) [OF True] by simp_all
    from second_load [OF r(2) refl refl this] obtain x where
      x: "lookup_second l' ip ?w = Some (entry_word x)" "ent_ok x (best (case ph of None \<Rightarrow> routes_run ps rcs R | Some R0 \<Rightarrow> R0) 32 ip)" by blast
    have "\<exists>n \<le> length ps. (case ph of None \<Rightarrow> routes_run ps rcs R | Some R0 \<Rightarrow> R0) = routes_run (take n ps) (take n rcs) R"
      using r(3) routes_run_take [of ps rcs R] by (cases ph) (auto intro: exI [of _ "length ps"])
    then have "\<exists>n \<le> length ps. lookup_spec (routes_run (take n ps) (take n rcs) R) ip (read_word (entry_word x))"
      using read_word_ok [OF x(2)] by auto
    then show ?thesis using r(1) x(1) F(1) by blast
  qed
qed

text \<open>A table whose one group belongs to a route of 32 bits, with the variable of one thread, which is online.\<close>

definition demo_online :: rte_rcu_qsbr where
  "demo_online = \<lparr>token = 1, acked_token = 0, num_threads = 1, max_threads = 1, qsbr_cnt = [1], thread_bmap = [1]\<rparr>"

lemma demo_reading:
  "\<exists>l. lpm_holds l (route_add (\<lambda>_. Map.empty) 32 0x0A000080 7) \<and> rcu_mode l = RTE_LPM_QSBR_MODE_DQ \<and> lpm_v l = Some demo_online"
proof -
  let ?R = "route_add (\<lambda>_. Map.empty) 32 0x0A000080 7" and ?cfg = "demo_cfg\<lparr>cfg_v := Some demo_online, cfg_dq_size := 1\<rparr>"
  have "lpm_holds (new_lpm (116 # replicate 31 0) 4 1 (unat (8 * 4 :: u32)) (unat (4 * 256 * 1 :: u32))) (\<lambda>_. Map.empty)" by (rule new_lpm_ok) simp_all
  then have h: "lpm_state no_watch [] demo_table (\<lambda>_. Map.empty)" by (simp add: demo_table_def flip: lpm_holds_state)
  have p: "0x0A000080 = pfx 32 0x0A000080" by code_simp
  have w: "\<forall>i g. \<not> big (\<lambda>_. Map.empty) i \<longrightarrow> link_ok no_watch i g" by (simp add: no_watch_def)
  have "rules_used demo_table \<noteq> unat (max_rules demo_table)" "\<not> groups_taken demo_table"
    by (simp_all add: rules_used_def demo_table_def new_lpm_def sum_list_replicate groups_taken_def zero_entry_def)
  with lpm_state_add [OF h w _ _ p, of 7] obtain l where l: "lpm_state no_watch [] l ?R" "rcu_step demo_table l" by auto
  then have l: "lpm_holds l ?R" "lpm_v l = None" "lpm_dq l = None" by (simp_all add: lpm_holds_state rcu_step_def demo_table_def new_lpm_def)
  obtain l' rc err where a: "rte_lpm_rcu_qsbr_add True (\<lambda>n. Some 2) (Some l) (Some ?cfg) = (l', rc, err)" by (metis prod_cases3)
  then have l': "l' = Some (l\<lparr>lpm_dq := Some \<lparr>dq_ring = [], dq_capacity = 2, dq_size = 1, trigger_reclaim_limit = 0, max_reclaim_size = 16\<rparr>,
      rcu_mode := RTE_LPM_QSBR_MODE_DQ, lpm_v := Some demo_online\<rparr>)"
    using l(2) by (auto simp: rte_lpm_rcu_qsbr_add_def demo_cfg_def rte_rcu_qsbr_dq_create_def Let_def)
  have "qsbr_ok demo_online" unfolding qsbr_ok_def by code_simp
  then have "\<exists>l1. l' = Some l1 \<and> lpm_holds l1 ?R" by (intro rcu_qsbr_add_ok [OF l(1,3) _ a]) (auto simp: demo_cfg_def)
  then show ?thesis unfolding l' by auto
qed

definition demo_between :: "lpm_op list" where
  "demo_between = [Op_delete 0x0A000080 32, Op_add 0x0B000080 32 9, Op_readers [Register 0, Check 2], Op_delete 0x0B000080 32]"

lemma lpm_lookup_overtaken_witness:
  "\<exists>l w l' rcs w'. lpm_holds l (route_add (\<lambda>_. Map.empty) 32 0x0A000080 7) \<and> lookup_first l 0x0A000080 = Some w \<and>
    table_run rte_lpm_add (rte_lpm_delete (\<lambda>v t. v)) lpm_readers demo_between l = Some (l', rcs) \<and> lookup_second l' 0x0A000080 w = Some w' \<and>
    (\<exists>n \<le> length demo_between. lookup_spec (routes_run (take n demo_between) (take n rcs) (route_add (\<lambda>_. Map.empty) 32 0x0A000080 7)) 0x0A000080 (read_word w'))"
proof -
  obtain l where l: "lpm_holds l (route_add (\<lambda>_. Map.empty) 32 0x0A000080 7)" "rcu_mode l = RTE_LPM_QSBR_MODE_DQ" "lpm_v l = Some demo_online" using demo_reading by blast
  have v: "qsbr_wf demo_online" "online demo_online 0" unfolding qsbr_wf_def by code_simp+
  have w: "wait_ok (\<lambda>v t. v)" by (simp add: wait_ok_def)
  have s: "\<forall>p \<in> set demo_between. silent 0 p" by (simp add: demo_between_def reports_def)
  have t: "unat (token demo_online) + draws demo_between < 2 ^ 64 - 1" by (simp add: demo_between_def demo_online_def)
  from lpm_lookup_overtaken [OF l v w s t, of "0x0A000080"] l(1) show ?thesis by blast
qed

end
