(* ===== verification/BPF_Cfg_Decide.thy ===== *)
theory BPF_Cfg_Decide
  imports BPF_Verified
begin

text \<open>
  The first pass decides what it means to decide. The search returns on every graph whose edges
  stay inside the array, colours black exactly the nodes that can be reached from the first one, and
  counts a back edge only when there is a cycle; so \<open>validate\<close> accepts a program with valid
  instructions and jumps if and only if all its instructions can be reached and it has no loop.
\<close>

section \<open>The graph and the invariant\<close>

definition edges :: "inst_node list \<Rightarrow> (nat \<times> nat) set" where
  "edges ns = {(i, j). i < length ns \<and> j \<in> node_succs (ns ! i)}"

lemma skel_length:
  assumes "skel ns' = skel ns"
  shows "length ns' = length ns"
  using arg_cong [OF assms, of length] by (simp add: skel_def)

lemma edges_skel:
  assumes "skel ns' = skel ns"
  shows "edges ns' = edges ns"
  using skel_length [OF assms] node_succs_skel [OF assms] by (fastforce simp: edges_def)

text \<open>The path back to the root, without the part of the older invariant that a loop breaks.\<close>

fun link :: "inst_node list \<Rightarrow> nat \<Rightarrow> nat list \<Rightarrow> bool" where
  "link ns x [] = (x = 0 \<and> prev_node (ns ! x) = 0)"
| "link ns x (y # r) = (unat (prev_node (ns ! x)) = y \<and> x \<in> node_succs (ns ! y) \<and> link ns y r)"

lemma link_reach:
  "link ns x r \<Longrightarrow> set (x # r) \<subseteq> {..<length ns} \<Longrightarrow> y \<in> set (x # r) \<Longrightarrow> (y, x) \<in> (edges ns)\<^sup>*"
proof (induction ns x r rule: link.induct)
  case (2 ns x z r)
  then have "(z, x) \<in> edges ns" by (simp add: edges_def)
  then show ?case using 2 by (auto intro: rtrancl_into_rtrancl)
qed simp

lemma link_root: "link ns x r \<Longrightarrow> 0 \<in> set (x # r)"
  by (induction ns x r rule: link.induct) auto

lemma link_cong:
  assumes "link ns x r" "prev_node (ns' ! x) = prev_node (ns ! x)"
    and "\<And>y. y \<in> set r \<Longrightarrow> prev_node (ns' ! y) = prev_node (ns ! y) \<and> node_succs (ns' ! y) = node_succs (ns ! y)"
  shows "link ns' x r"
  using assms by (induction ns x r rule: link.induct) auto

text \<open>
  No node that is done, and no edge that was followed, leads to a white node, except perhaps to
  the node the search is at.
\<close>

definition closed :: "inst_node list \<Rightarrow> nat set \<Rightarrow> bool" where
  "closed ns X \<longleftrightarrow> (\<forall>i < length ns. \<forall>k < nb_edge (ns ! i).
     (colour (ns ! i) = BLACK \<or> (colour (ns ! i) = GREY \<and> k < cur_edge (ns ! i))) \<longrightarrow>
     colour (ns ! unat (edge_dest (ns ! i) ! k)) \<noteq> WHITE \<or> unat (edge_dest (ns ! i) ! k) \<in> X)"

lemma closed_grey:
  "closed ns X \<Longrightarrow> i < length ns \<Longrightarrow> k < nb_edge (ns ! i) \<Longrightarrow> colour (ns ! i) = GREY \<Longrightarrow>
   k < cur_edge (ns ! i) \<Longrightarrow>
   colour (ns ! unat (edge_dest (ns ! i) ! k)) \<noteq> WHITE \<or> unat (edge_dest (ns ! i) ! k) \<in> X"
  unfolding closed_def by blast

definition visited_reach :: "inst_node list \<Rightarrow> bool" where
  "visited_reach ns \<longleftrightarrow> (\<forall>i < length ns. colour (ns ! i) \<noteq> WHITE \<longrightarrow> (0, i) \<in> (edges ns)\<^sup>*)"

definition at_node :: "inst_node list \<Rightarrow> nat \<Rightarrow> nat list \<Rightarrow> bool" where
  "at_node ns n r \<longleftrightarrow> link ns n r \<and> distinct (n # r) \<and> set (n # r) \<subseteq> {..<length ns} \<and>
     colour (ns ! n) \<noteq> BLACK \<and> (\<forall>i < length ns. colour (ns ! i) = GREY \<longrightarrow> i \<in> set (n # r)) \<and>
     (\<forall>y \<in> set r. colour (ns ! y) = GREY) \<and> closed ns {n} \<and> visited_reach ns"

definition at_end :: "inst_node list \<Rightarrow> bool" where
  "at_end ns \<longleftrightarrow> 0 < length ns \<and> colour (ns ! 0) = BLACK \<and>
     (\<forall>i < length ns. colour (ns ! i) \<noteq> GREY) \<and> closed ns {} \<and> visited_reach ns"

definition ok_node :: "nat \<Rightarrow> inst_node \<Rightarrow> bool" where
  "ok_node len nd \<longleftrightarrow> wf_node nd \<and> length (node_edge_type nd) = MAX_EDGES \<and>
     (\<forall>k < nb_edge nd. unat (edge_dest nd ! k) < len)"

definition cnt :: "inst_node list \<Rightarrow> node_colour \<Rightarrow> nat" where
  "cnt ns c = length (filter (\<lambda>nd. colour nd = c) ns)"

text \<open>
  The counters follow the colours up to a constant \<open>kc\<close>: the nodes that are no heads were never
  counted as white.
\<close>

definition base_inv :: "(nat \<times> u32 list) list \<Rightarrow> u32 \<Rightarrow> (node_colour \<Rightarrow> u32) \<Rightarrow> bpf_verifier \<Rightarrow> bool" where
  "base_inv sk nn kc b \<longleftrightarrow> list_all (ok_node (length sk)) (bvf_in b) \<and> skel (bvf_in b) = sk \<and>
     length sk < 2 ^ LENGTH(32) \<and> nb_nodes b = nn \<and>
     (\<forall>c. bvf_node_colour b c = of_nat (cnt (bvf_in b) c) + kc c) \<and>
     bvf_edge_type b UNKNOWN_EDGE = 0 \<and>
     (bvf_edge_type b BACK_EDGE \<noteq> 0 \<longrightarrow> \<not> acyclic (edges (bvf_in b)))"

definition turn_inv :: "(nat \<times> u32 list) list \<Rightarrow> u32 \<Rightarrow> (node_colour \<Rightarrow> u32) \<Rightarrow> nat \<Rightarrow> bpf_verifier \<Rightarrow> bool" where
  "turn_inv sk nn kc n b \<longleftrightarrow> base_inv sk nn kc b \<and>
     ((\<exists>r. at_node (bvf_in b) n r) \<or> (n = 0 \<and> at_end (bvf_in b)))"

section \<open>Updates of one node\<close>

lemma cnt_upd:
  "n < length ns \<Longrightarrow> cnt (ns[n := nd]) c + (if colour (ns ! n) = c then 1 else 0) =
     cnt ns c + (if colour nd = c then 1 else 0)"
proof (induction ns arbitrary: n)
  case (Cons a ns)
  then show ?case by (cases n) (auto simp: cnt_def)
qed simp

lemma cnt_same: "colour nd = colour (ns ! n) \<Longrightarrow> cnt (ns[n := nd]) c = cnt ns c"
  using cnt_upd [of n ns nd c] by (cases "n < length ns") (auto simp: list_update_beyond)

lemma set_node_colour_counts:
  assumes s: "set_node_colour b n new = Some b'" and o: "colour (bvf_in b ! n) \<noteq> new"
    and i: "\<forall>c. bvf_node_colour b c = of_nat (cnt (bvf_in b) c) + kc c"
  shows "bvf_node_colour b' c = of_nat (cnt (bvf_in b') c) + kc c"
proof -
  note S = set_node_colour_Some [OF s]
  have f: "bvf_node_colour b' = (let p = colour (bvf_in b ! n); f = bvf_node_colour b;
      g = f(p := f p - 1) in g(new := g new + 1))"
    using s by (auto simp: set_node_colour_def get_node_Some put_node_Some Let_def split: bind_splits)
  have u: "cnt (bvf_in b') c + (if colour (bvf_in b ! n) = c then 1 else 0) =
      cnt (bvf_in b) c + (if new = c then 1 else 0)"
    using cnt_upd [OF S(1), of "(bvf_in b ! n)\<lparr>colour := new\<rparr>" c] S(2) by simp
  consider "c = new" | "c = colour (bvf_in b ! n)" "c \<noteq> new" | "c \<noteq> new" "c \<noteq> colour (bvf_in b ! n)"
    by blast
  then show ?thesis
  proof cases
    case 1
    then have "cnt (bvf_in b') c = cnt (bvf_in b) c + 1" using u o by simp
    then show ?thesis using 1 f i o by (simp add: Let_def)
  next
    case 2
    then have "cnt (bvf_in b) c = cnt (bvf_in b') c + 1" using u by simp
    then show ?thesis using 2 f i by (simp add: Let_def)
  next
    case 3
    then show ?thesis using u f i by (simp add: Let_def)
  qed
qed

lemma ok_upd: "list_all (ok_node l) ns \<Longrightarrow> ok_node l nd \<Longrightarrow> list_all (ok_node l) (ns[n := nd])"
  unfolding list_all_length by (metis length_list_update nth_list_update_eq nth_list_update_neq)

lemma base_colour:
  assumes "base_inv sk nn kc b" "set_node_colour b n new = Some b'" "colour (bvf_in b ! n) \<noteq> new"
    and "new \<noteq> WHITE"
  shows "base_inv sk nn kc b'"
proof -
  note S = set_node_colour_Some [OF assms(2)]
  have nn: "nb_nodes b' = nb_nodes b"
    using assms(2) by (auto simp: set_node_colour_def put_node_Some Let_def split: bind_splits)
  have sk: "skel (bvf_in b') = skel (bvf_in b)" using S(2) by (simp add: skel_upd)
  have l: "length (bvf_in b) = length sk" using assms(1) by (auto simp: base_inv_def skel_def)
  then have "ok_node (length sk) (bvf_in b ! n)"
    using assms(1) S(1) by (simp add: base_inv_def list_all_length)
  then have "ok_node (length sk) ((bvf_in b ! n)\<lparr>colour := new\<rparr>)"
    using assms(4) by (simp add: ok_node_def wf_node_def)
  then have "list_all (ok_node (length sk)) (bvf_in b')"
    using assms(1) unfolding S(2) by (intro ok_upd) (simp_all add: base_inv_def)
  moreover have "\<forall>c. bvf_node_colour b' c = of_nat (cnt (bvf_in b') c) + kc c"
    using set_node_colour_counts [OF assms(2,3)] assms(1) by (simp add: base_inv_def)
  ultimately show ?thesis
    using assms(1) sk nn edges_skel [OF sk] by (simp add: base_inv_def S(3))
qed

lemma base_upd:
  assumes "base_inv sk nn kc b" "ok_node (length sk) nd" "colour nd = colour (bvf_in b ! n)"
    and "nb_edge nd = nb_edge (bvf_in b ! n)" "edge_dest nd = edge_dest (bvf_in b ! n)"
  shows "base_inv sk nn kc (b\<lparr>bvf_in := (bvf_in b)[n := nd]\<rparr>)"
proof -
  have sk: "skel ((bvf_in b)[n := nd]) = skel (bvf_in b)" using assms(4,5) by (rule skel_upd)
  show ?thesis
    using assms(1,2) sk edges_skel [OF sk] cnt_same [OF assms(3)] by (simp add: base_inv_def ok_upd)
qed

text \<open>Closedness after the change of one node whose edges stay the same.\<close>

lemma closed_upd:
  assumes c: "closed ns X" and n: "n < length ns"
    and sk: "nb_edge nd = nb_edge (ns ! n)" "edge_dest nd = edge_dest (ns ! n)"
    and col: "colour nd \<noteq> WHITE"
    and new: "\<And>k. k < nb_edge nd \<Longrightarrow> colour nd = BLACK \<or> (colour nd = GREY \<and> k < cur_edge nd) \<Longrightarrow>
      let d = unat (edge_dest nd ! k) in colour (ns ! d) \<noteq> WHITE \<or> d \<in> insert n Y"
    and sub: "X \<subseteq> insert n Y"
  shows "closed (ns[n := nd]) Y"
  unfolding closed_def
proof (intro allI impI)
  fix i k
  let ?ns = "ns[n := nd]"
  assume i: "i < length ?ns" and k: "k < nb_edge (?ns ! i)"
    and h: "colour (?ns ! i) = BLACK \<or> (colour (?ns ! i) = GREY \<and> k < cur_edge (?ns ! i))"
  let ?d = "unat (edge_dest (?ns ! i) ! k)"
  have "colour (ns ! ?d) \<noteq> WHITE \<or> ?d \<in> insert n Y"
  proof (cases "i = n")
    case True
    then show ?thesis using new [of k] k h n by (simp add: Let_def)
  next
    case False
    then have "colour (ns ! ?d) \<noteq> WHITE \<or> ?d \<in> X" using c i k h by (auto simp: closed_def)
    then show ?thesis using sub by blast
  qed
  then show "colour (?ns ! ?d) \<noteq> WHITE \<or> ?d \<in> Y"
    using col n by (cases "?d = n") auto
qed

lemma visited_upd:
  assumes "visited_reach ns" "skel (ns[n := nd]) = skel ns" "(0, n) \<in> (edges ns)\<^sup>*"
  shows "visited_reach (ns[n := nd])"
  using assms edges_skel [OF assms(2)] unfolding visited_reach_def
  by (metis length_list_update nth_list_update_neq)

lemma link_upd:
  assumes "link ns x r" "skel (ns[n := nd]) = skel ns" "prev_node nd = prev_node (ns ! n)"
    "set (x # r) \<subseteq> {..<length ns}"
  shows "link (ns[n := nd]) x r"
proof (rule link_cong [OF assms(1)])
  have p: "prev_node (ns[n := nd] ! y) = prev_node (ns ! y)" if "y < length ns" for y
    using assms(3) that by (cases "y = n") auto
  show "prev_node (ns[n := nd] ! x) = prev_node (ns ! x)" using p assms(4) by simp
  show "prev_node (ns[n := nd] ! y) = prev_node (ns ! y) \<and>
      node_succs (ns[n := nd] ! y) = node_succs (ns ! y)" if "y \<in> set r" for y
    using that p node_succs_skel [OF assms(2)] assms(4) by auto
qed

lemma at_node_reach: "at_node ns n r \<Longrightarrow> (0, n) \<in> (edges ns)\<^sup>*"
  using link_reach [of ns n r 0] link_root [of ns n r] by (auto simp: at_node_def)

text \<open>The current node stays current: it becomes grey, or it has followed an edge to a node that is not white.\<close>

lemma at_node_upd:
  assumes a: "at_node ns n r" and sk: "nb_edge nd = nb_edge (ns ! n)" "edge_dest nd = edge_dest (ns ! n)"
    and p: "prev_node nd = prev_node (ns ! n)" and c: "colour nd = GREY"
    and new: "\<And>k. k < nb_edge nd \<Longrightarrow> k < cur_edge nd \<Longrightarrow>
      let d = unat (edge_dest nd ! k) in colour (ns ! d) \<noteq> WHITE \<or> d = n"
  shows "at_node (ns[n := nd]) n r"
proof -
  have n: "n < length ns" and r: "n \<notin> set r" and cl: "closed ns {n}"
    using a by (auto simp: at_node_def)
  have s: "skel (ns[n := nd]) = skel ns" using sk by (rule skel_upd)
  have "closed (ns[n := nd]) {n}"
    by (rule closed_upd [OF cl n sk]) (use c new in auto)
  moreover have "visited_reach (ns[n := nd])"
    using visited_upd [OF _ s at_node_reach [OF a]] a by (simp add: at_node_def)
  moreover have "link (ns[n := nd]) n r"
    using link_upd [OF _ s p] a by (simp add: at_node_def)
  moreover have "colour (ns[n := nd] ! y) = GREY" if "y \<in> set r" for y
    using that r a by (metis at_node_def nth_list_update_neq)
  ultimately show ?thesis using a n c
    by (auto simp: at_node_def nth_list_update)
qed

lemma succ_of_edge:
  assumes "wf_node nd" "k < nb_edge nd"
  shows "unat (edge_dest nd ! k) \<in> node_succs nd"
proof -
  have "take (nb_edge nd) (edge_dest nd) ! k = edge_dest nd ! k" "k < length (take (nb_edge nd) (edge_dest nd))"
    using assms by (auto simp: wf_node_def)
  then show ?thesis unfolding node_succs_def by (metis image_eqI list.set_map nth_mem)
qed

lemma at_node_child:
  assumes a: "at_node ns n r" and g: "colour (ns ! n) = GREY"
    and d: "d < length ns" "colour (ns ! d) = WHITE" "unat (edge_dest (ns ! n) ! cur_edge (ns ! n)) = d"
    and w: "wf_node (ns ! n)" "cur_edge (ns ! n) < nb_edge (ns ! n)"
    and ns1: "ns1 = ns[n := nd]" "nd = (ns ! n)\<lparr>cur_edge := cur_edge (ns ! n) + 1, node_edge_type := ts\<rparr>"
    and ns2: "ns2 = ns1[d := (ns1 ! d)\<lparr>prev_node := p\<rparr>]" "unat p = n"
  shows "at_node ns2 d (n # r)"
proof -
  have n: "n < length ns" and nr: "n \<notin> set r" and cl: "closed ns {n}" and ch: "link ns n r"
    and rl: "set r \<subseteq> {..<length ns}" and gr: "\<And>y. y \<in> set r \<Longrightarrow> colour (ns ! y) = GREY"
    using a by (auto simp: at_node_def)
  have dn: "d \<noteq> n" "d \<notin> set r" using d g gr by auto
  have s1: "skel ns1 = skel ns" using ns1 by (auto intro: skel_upd)
  have s2: "skel ns2 = skel ns" using ns2(1) s1 by (auto simp: skel_upd)
  have cl1: "closed ns1 {d}" unfolding ns1(1)
  proof (rule closed_upd [OF cl n])
    fix k assume "k < nb_edge nd" and "colour nd = BLACK \<or> (colour nd = GREY \<and> k < cur_edge nd)"
    then have "k < cur_edge (ns ! n) \<or> k = cur_edge (ns ! n)" and "k < nb_edge (ns ! n)"
      using ns1(2) g by auto
    then show "let e = unat (edge_dest nd ! k) in colour (ns ! e) \<noteq> WHITE \<or> e \<in> insert n {d}"
      using closed_grey [OF cl n _ g, of k] d(3) ns1(2) by (auto simp: Let_def)
  qed (use ns1(2) g in auto)
  have l1: "length ns1 = length ns" and l: "length ns2 = length ns" by (simp_all add: ns1(1) ns2(1))
  have d1: "ns1 ! d = ns ! d" using dn(1) by (simp add: ns1(1))
  have n2: "ns2 ! n = nd" "ns2 ! d = (ns ! d)\<lparr>prev_node := p\<rparr>"
    using n d(1) dn(1) d1 l1 by (simp_all add: ns2(1) ns1(1))
  have o: "ns2 ! i = ns ! i" if "i \<noteq> n" "i \<noteq> d" for i
    using that by (simp add: ns2(1) ns1(1))
  have same: "colour (ns2 ! i) = colour (ns1 ! i) \<and> cur_edge (ns2 ! i) = cur_edge (ns1 ! i) \<and>
      nb_edge (ns2 ! i) = nb_edge (ns1 ! i) \<and> edge_dest (ns2 ! i) = edge_dest (ns1 ! i)" for i
    using ns2(1) by (cases "i = d \<and> d < length ns1") (auto simp: nth_list_update list_update_beyond)
  have "length ns2 = length ns1" using l l1 by simp
  then have "closed ns2 {d}" using cl1 unfolding closed_def by (simp only: same)
  moreover have col: "colour (ns2 ! i) = colour (ns ! i)" for i
    using n2 o [of i] ns1(2) by (cases "i = n"; cases "i = d") auto
  then have "visited_reach ns2"
    using a l edges_skel [OF s2] by (auto simp: visited_reach_def at_node_def)
  moreover have "link ns2 n r"
  proof (rule link_cong [OF ch])
    show "prev_node (ns2 ! y) = prev_node (ns ! y) \<and> node_succs (ns2 ! y) = node_succs (ns ! y)"
      if "y \<in> set r" for y
      using that o [of y] nr dn by metis
  qed (use n2 ns1 in auto)
  moreover have "d \<in> node_succs (ns2 ! n)"
    using succ_of_edge [OF w] d(3) n2(1) ns1(2) by (simp add: node_succs_def)
  ultimately show ?thesis
    using a l col n2 ns2(2) g d dn by (auto simp: at_node_def)
qed

lemma at_node_finish:
  assumes a: "at_node ns n r" and g: "colour (ns ! n) = GREY" and c: "cur_edge (ns ! n) = nb_edge (ns ! n)"
    and nd: "nd = (ns ! n)\<lparr>colour := BLACK, cur_edge := 0\<rparr>" and m: "m = unat (prev_node (ns ! n))"
  shows "(\<exists>r. at_node (ns[n := nd]) m r) \<or> (m = 0 \<and> at_end (ns[n := nd]))"
proof -
  let ?ns = "ns[n := nd]"
  have n: "n < length ns" and nr: "n \<notin> set r" and cl: "closed ns {n}" and ch: "link ns n r"
    and gr: "\<And>y. y \<in> set r \<Longrightarrow> colour (ns ! y) = GREY"
    and all: "\<And>i. i < length ns \<Longrightarrow> colour (ns ! i) = GREY \<Longrightarrow> i = n \<or> i \<in> set r"
    using a by (auto simp: at_node_def)
  have s: "skel ?ns = skel ns" using nd by (auto intro: skel_upd)
  have v: "visited_reach ?ns" using visited_upd [OF _ s at_node_reach [OF a]] a by (simp add: at_node_def)
  have clo: "closed ?ns Y" for Y
  proof (rule closed_upd [OF cl n])
    fix k assume "k < nb_edge nd"
    then show "let d = unat (edge_dest nd ! k) in colour (ns ! d) \<noteq> WHITE \<or> d \<in> insert n Y"
      using closed_grey [OF cl n _ g, of k] c nd by (auto simp: Let_def)
  qed (use nd in auto)
  have o: "?ns ! i = ns ! i" if "i \<noteq> n" for i using that by simp
  show ?thesis
  proof (cases r)
    case Nil
    have "colour (?ns ! i) \<noteq> GREY" if "i < length ?ns" for i
      using that all [of i] Nil nd by (cases "i = n") auto
    moreover have "n = 0" using ch Nil by simp
    ultimately have "at_end ?ns" using n clo v nd by (auto simp: at_end_def)
    then show ?thesis using Nil ch m by auto
  next
    case (Cons y r')
    have "link ?ns y r'"
      by (rule link_upd [OF _ s]) (use ch Cons nd a in \<open>auto simp: at_node_def\<close>)
    moreover have "y \<noteq> n" "n \<notin> set r'" using nr Cons by auto
    moreover have "i \<in> set (y # r')" if "i < length ?ns" "colour (?ns ! i) = GREY" for i
      using that all [of i] Cons nd by (cases "i = n") auto
    moreover have "colour (?ns ! z) = GREY" if "z \<in> set r" for z
      using that gr nr o by metis
    ultimately have "at_node ?ns y r'"
      using a Cons clo v n by (auto simp: at_node_def)
    then show ?thesis using m ch Cons by auto
  qed
qed

section \<open>One turn\<close>

text \<open>At a grey node, inside the inner loop.\<close>

definition grey_inv :: "(nat \<times> u32 list) list \<Rightarrow> u32 \<Rightarrow> (node_colour \<Rightarrow> u32) \<Rightarrow> nat \<Rightarrow> bpf_verifier \<Rightarrow> bool" where
  "grey_inv sk nn kc n b \<longleftrightarrow> base_inv sk nn kc b \<and> colour (bvf_in b ! n) = GREY \<and> (\<exists>r. at_node (bvf_in b) n r)"

lemma base_node:
  assumes "base_inv sk nn kc b" "n < length (bvf_in b)"
  shows "ok_node (length (bvf_in b)) (bvf_in b ! n)"
proof -
  have "length (bvf_in b) = length sk" using assms(1) by (auto simp: base_inv_def skel_def)
  then show ?thesis using assms by (simp add: base_inv_def list_all_length)
qed

text \<open>The inner loop has a next edge, or has followed all of them.\<close>

lemma next_edge_total:
  assumes "ok_node (length (bvf_in b)) (bvf_in b ! n)" "n < length (bvf_in b)"
  shows "get_next_node b n = Some (b, None) \<or>
    (\<exists>b1 d b2. get_next_node b n = Some (b1, Some d) \<and> set_edge_type b1 n d = Some b2)"
proof (cases "cur_edge (bvf_in b ! n) = nb_edge (bvf_in b ! n)")
  case True
  then show ?thesis using assms(2) by (simp add: get_next_node_def get_node_def nth_opt_lt)
next
  case False
  then have "cur_edge (bvf_in b ! n) < nb_edge (bvf_in b ! n)" "cur_edge (bvf_in b ! n) < 2"
    using assms(1) by (auto simp: ok_node_def wf_node_def)
  then show ?thesis using assms False
    by (simp add: get_next_node_def get_node_def set_edge_type_def put_node_def
        ok_node_def wf_node_def nth_opt_lt upd_opt_def)
qed

lemma edge_types_length:
  assumes "get_next_node b n = Some (b1, Some d)" "set_edge_type b1 n d = Some b2"
  shows "length (node_edge_type (bvf_in b2 ! n)) = length (node_edge_type (bvf_in b ! n))"
  using assms(2) get_next_node_Some(1,5) [OF assms(1)]
  by (auto simp: set_edge_type_def get_node_Some put_node_Some split: bind_splits)

lemma edge_step:
  assumes i: "grey_inv sk nn kc n b" and g: "get_next_node b n = Some (b1, Some d)"
    and t: "set_edge_type b1 n d = Some b2"
  shows "base_inv sk nn kc b2" and "colour (bvf_in b2 ! n) = GREY" and "d < length (bvf_in b2)"
    and "colour (bvf_in b2 ! d) \<noteq> WHITE \<Longrightarrow> grey_inv sk nn kc n b2"
    and "colour (bvf_in b2 ! d) = WHITE \<Longrightarrow> set_prev_node b2 d n = Some b3 \<Longrightarrow>
      \<exists>r. at_node (bvf_in b3) d r"
proof -
  let ?ns = "bvf_in b"
  obtain r where a: "at_node ?ns n r" and gr: "colour (?ns ! n) = GREY" and bi: "base_inv sk nn kc b"
    using i by (auto simp: grey_inv_def)
  obtain ts ty where e: "n < length ?ns" "d < length ?ns" "cur_edge (?ns ! n) < length (edge_dest (?ns ! n))"
    "cur_edge (?ns ! n) \<noteq> nb_edge (?ns ! n)" "d = unat (edge_dest (?ns ! n) ! cur_edge (?ns ! n))"
    "ty = edge_type_of (colour (?ns ! d))"
    "b2 = b\<lparr>bvf_in := ?ns[n := (?ns ! n)\<lparr>cur_edge := cur_edge (?ns ! n) + 1, node_edge_type := ts\<rparr>],
      bvf_edge_type := (bvf_edge_type b)(ty := bvf_edge_type b ty + 1)\<rparr>"
    by (rule edge_turn [OF g t])
  let ?nd = "(?ns ! n)\<lparr>cur_edge := cur_edge (?ns ! n) + 1, node_edge_type := ts\<rparr>"
  have b2: "bvf_in b2 = ?ns[n := ?nd]" using e(7) by simp
  have ok: "ok_node (length ?ns) (?ns ! n)" by (rule base_node [OF bi e(1)])
  then have w: "wf_node (?ns ! n)" and lt: "cur_edge (?ns ! n) < nb_edge (?ns ! n)"
    using e(4) by (auto simp: ok_node_def wf_node_def)
  have sk: "skel (bvf_in b2) = skel ?ns" using b2 by (simp add: skel_upd)
  have "length ts = 2"
    using edge_types_length [OF g t] b2 e(1) ok by (simp add: ok_node_def)
  show "colour (bvf_in b2 ! n) = GREY" "d < length (bvf_in b2)" using b2 gr e(1,2) by simp_all
  have l: "length (bvf_in b2) = length ?ns" "length ?ns = length sk"
    using b2 bi by (auto simp: base_inv_def skel_def)
  have ed: "(n, d) \<in> edges ?ns" using succ_of_edge [OF w lt] e(1,5) by (simp add: edges_def)
  have cyc: "\<not> acyclic (edges ?ns)" if "colour (?ns ! d) = GREY"
  proof -
    have "d \<in> set (n # r)" using a that e(2) by (auto simp: at_node_def)
    then have "(d, n) \<in> (edges ?ns)\<^sup>*" using a by (intro link_reach) (auto simp: at_node_def)
    then have "(n, n) \<in> (edges ?ns)\<^sup>+" using ed by (rule rtrancl_into_trancl2 [rotated])
    then show ?thesis by (auto simp: acyclic_def)
  qed
  have ty: "ty \<noteq> UNKNOWN_EDGE" "ty = BACK_EDGE \<Longrightarrow> colour (?ns ! d) = GREY"
    using e(6) by (cases "colour (?ns ! d)"; simp)+
  have "ok_node (length sk) ?nd"
    using ok lt gr \<open>length ts = 2\<close> l by (simp add: ok_node_def wf_node_def)
  then have "list_all (ok_node (length sk)) (bvf_in b2)"
    using bi unfolding b2 by (intro ok_upd) (simp_all add: base_inv_def)
  moreover have "cnt (bvf_in b2) c = cnt ?ns c" for c unfolding b2 by (rule cnt_same) simp
  moreover have "bvf_edge_type b2 BACK_EDGE \<noteq> 0 \<Longrightarrow> \<not> acyclic (edges ?ns)"
    using bi ty cyc e(7) by (cases "ty = BACK_EDGE") (auto simp: base_inv_def)
  ultimately show base: "base_inv sk nn kc b2"
    using bi sk edges_skel [OF sk] ty(1) e(7) by (auto simp: base_inv_def)
  show "grey_inv sk nn kc n b2" if c: "colour (bvf_in b2 ! d) \<noteq> WHITE"
  proof -
    have cd: "colour (?ns ! d) \<noteq> WHITE" using c b2 gr e(1) by (cases "d = n") auto
    have cl: "closed ?ns {n}" using a by (simp add: at_node_def)
    have "at_node (bvf_in b2) n r" unfolding b2
    proof (rule at_node_upd [OF a])
      fix k assume "k < nb_edge ?nd" "k < cur_edge ?nd"
      then have "k < nb_edge (?ns ! n)" "k < cur_edge (?ns ! n) \<or> k = cur_edge (?ns ! n)" by auto
      then show "let f = unat (edge_dest ?nd ! k) in colour (?ns ! f) \<noteq> WHITE \<or> f = n"
        using closed_grey [OF cl e(1) _ gr, of k] cd e(5) by (auto simp: Let_def)
    qed (use gr in auto)
    then show ?thesis using base b2 gr e(1) by (auto simp: grey_inv_def)
  qed
  show "\<exists>r. at_node (bvf_in b3) d r"
    if c: "colour (bvf_in b2 ! d) = WHITE" and p: "set_prev_node b2 d n = Some b3"
  proof -
    have dn: "d \<noteq> n" using c b2 gr e(1) by auto
    then have cd: "colour (?ns ! d) = WHITE" using c b2 by simp
    have b3: "bvf_in b3 = (bvf_in b2)[d := (bvf_in b2 ! d)\<lparr>prev_node := get_node_idx n\<rparr>]"
      using p by (auto simp: set_prev_node_def get_node_Some put_node_Some split: bind_splits)
    have "unat (get_node_idx n) = n"
      using bi e(1) l by (simp add: get_node_idx_def unat_of_nat base_inv_def)
    then show ?thesis
      using at_node_child [OF a gr e(2) cd e(5) [symmetric] w lt b2 refl b3] by blast
  qed
qed

lemma grey_len: "grey_inv sk nn kc n b \<Longrightarrow> n < length (bvf_in b)"
  by (auto simp: grey_inv_def at_node_def)

lemma next_child_total: "grey_inv sk nn kc n b \<Longrightarrow> \<exists>b' r. next_child b n = Some (b', r)"
proof (induction b n rule: next_child.induct)
  case (1 b n)
  have n: "n < length (bvf_in b)" and bi: "base_inv sk nn kc b"
    using grey_len [OF "1.prems"] "1.prems" by (auto simp: grey_inv_def)
  from next_edge_total [OF base_node [OF bi n] n] show ?case
  proof (elim disjE exE conjE)
    assume "get_next_node b n = Some (b, None)"
    then show ?thesis by (subst next_child.simps) simp
  next
    fix b1 d b2 assume g: "get_next_node b n = Some (b1, Some d)" and t: "set_edge_type b1 n d = Some b2"
    note E = edge_step [OF "1.prems" g t]
    have d: "get_node b2 d = Some (bvf_in b2 ! d)" using E(3) by (simp add: get_node_Some)
    show ?thesis
    proof (cases "colour (bvf_in b2 ! d) = WHITE")
      case True
      then show ?thesis using g t d by (subst next_child.simps) simp
    next
      case False
      have "\<exists>b' r. next_child b2 n = Some (b', r)"
        by (rule "1.IH" [OF g refl refl t d False E(4) [OF False]])
      then show ?thesis using g t d False by (subst next_child.simps) simp
    qed
  qed
qed

lemma set_node_colour_total:
  "n < length (bvf_in b) \<Longrightarrow> \<exists>b'. set_node_colour b n c = Some b'"
  by (simp add: set_node_colour_def get_node_def put_node_def nth_opt_lt upd_opt_def Let_def)

lemma grey_start:
  assumes "base_inv sk nn kc b" "at_node (bvf_in b) n r"
  obtains b1 where "(if colour (bvf_in b ! n) = WHITE then set_node_colour b n GREY else Some b) = Some b1"
    "grey_inv sk nn kc n b1"
proof (cases "colour (bvf_in b ! n) = WHITE")
  case False
  then have "colour (bvf_in b ! n) = GREY"
    using assms(2) by (cases "colour (bvf_in b ! n)") (auto simp: at_node_def)
  then show ?thesis using that False assms by (auto simp: grey_inv_def)
next
  case True
  have n: "n < length (bvf_in b)" using assms(2) by (auto simp: at_node_def)
  obtain b1 where s: "set_node_colour b n GREY = Some b1" using set_node_colour_total [OF n] by blast
  note S = set_node_colour_Some [OF s]
  have ok: "wf_node (bvf_in b ! n)" using base_node [OF assms(1) n] by (simp add: ok_node_def)
  have "at_node (bvf_in b1) n r"
    unfolding S(2) by (rule at_node_upd [OF assms(2)]) (use ok True in \<open>auto simp: wf_node_def\<close>)
  then have "grey_inv sk nn kc n b1"
    using base_colour [OF assms(1) s] True S(2) n by (auto simp: grey_inv_def)
  then show ?thesis using that s True by simp
qed

lemma turn_total:
  assumes i: "turn_inv sk nn kc n b"
  shows "\<exists>b' r. dfs_turn b n = Some (b', r) \<and>
    (case r of Some m \<Rightarrow> turn_inv sk nn kc m b' | None \<Rightarrow> base_inv sk nn kc b' \<and> at_end (bvf_in b'))"
proof (cases "n = 0 \<and> at_end (bvf_in b)")
  case True
  then have "dfs_turn b n = Some (b, None)"
    by (auto simp: dfs_turn_def get_node_def nth_opt_lt at_end_def)
  then show ?thesis using True i by (simp add: turn_inv_def)
next
  case False
  then obtain r where bi: "base_inv sk nn kc b" and a: "at_node (bvf_in b) n r"
    using i by (auto simp: turn_inv_def)
  obtain b1 where b1: "(if colour (bvf_in b ! n) = WHITE then set_node_colour b n GREY else Some b) = Some b1"
    and i1: "grey_inv sk nn kc n b1" by (rule grey_start [OF bi a])
  have n: "get_node b n = Some (bvf_in b ! n)" using a by (auto simp: get_node_Some at_node_def)
  have n1: "get_node b1 n = Some (bvf_in b1 ! n)" "colour (bvf_in b1 ! n) = GREY"
    using i1 grey_len [OF i1] by (auto simp: grey_inv_def get_node_Some)
  obtain b2 q where c: "next_child b1 n = Some (b2, q)" using next_child_total [OF i1] by blast
  have I: "case q of None \<Rightarrow> grey_inv sk nn kc n b2 \<and> get_next_node b2 n = Some (b2, None)
     | Some d \<Rightarrow> \<exists>b b1. grey_inv sk nn kc n b \<and> get_next_node b n = Some (b1, Some d) \<and>
        set_edge_type b1 n d = Some b2 \<and> colour (bvf_in b2 ! d) = WHITE"
    by (rule next_child_inv [where P = "grey_inv sk nn kc n", OF c i1]) (rule edge_step(4))
  have turn: "dfs_turn b n = (case q of
           Some d \<Rightarrow> do { bvf3 \<leftarrow> set_prev_node b2 d n; Some (bvf3, Some d) }
         | None \<Rightarrow> do {
             bvf3 \<leftarrow> set_node_colour b2 n BLACK;
             nd3 \<leftarrow> get_node bvf3 n;
             bvf4 \<leftarrow> put_node bvf3 n (nd3\<lparr>cur_edge := 0\<rparr>);
             p \<leftarrow> get_prev_node bvf4 n;
             Some (bvf4, Some p) })"
    using n b1 n1 c by (simp add: dfs_turn_def)
  show ?thesis
  proof (cases q)
    case (Some d)
    then obtain b0 b0' where G: "grey_inv sk nn kc n b0" "get_next_node b0 n = Some (b0', Some d)"
      "set_edge_type b0' n d = Some b2" "colour (bvf_in b2 ! d) = WHITE" using I by auto
    note E = edge_step [OF G(1-3)]
    let ?b3 = "b2\<lparr>bvf_in := (bvf_in b2)[d := (bvf_in b2 ! d)\<lparr>prev_node := get_node_idx n\<rparr>]\<rparr>"
    have p: "set_prev_node b2 d n = Some ?b3"
      using E(3) by (simp add: set_prev_node_def get_node_def put_node_def nth_opt_lt upd_opt_def)
    have "\<exists>r. at_node (bvf_in ?b3) d r" by (rule E(5) [OF G(4) p])
    moreover have "base_inv sk nn kc ?b3"
      by (rule base_upd [OF E(1)])
        (use E(1,3) in \<open>auto simp: base_inv_def ok_node_def wf_node_def list_all_length\<close>)
    ultimately show ?thesis using turn Some p by (auto simp: turn_inv_def)
  next
    case None
    then have i2: "grey_inv sk nn kc n b2" and g: "get_next_node b2 n = Some (b2, None)" using I by auto
    have n2: "n < length (bvf_in b2)" by (rule grey_len [OF i2])
    obtain b3 where s: "set_node_colour b2 n BLACK = Some b3" using set_node_colour_total [OF n2] by blast
    note S = set_node_colour_Some [OF s]
    let ?nd = "(bvf_in b2 ! n)\<lparr>colour := BLACK, cur_edge := 0\<rparr>"
    let ?b4 = "b3\<lparr>bvf_in := (bvf_in b2)[n := ?nd]\<rparr>"
    have t: "dfs_turn b n = Some (?b4, Some (unat (prev_node (bvf_in b2 ! n))))"
      using turn None s n2 S(2)
      by (simp add: get_node_def put_node_def nth_opt_lt upd_opt_def get_prev_node_def)
    obtain r2 where a2: "at_node (bvf_in b2) n r2" and gr: "colour (bvf_in b2 ! n) = GREY"
      using i2 by (auto simp: grey_inv_def)
    have b3: "base_inv sk nn kc b3" by (rule base_colour [OF _ s]) (use i2 gr in \<open>auto simp: grey_inv_def\<close>)
    have n3: "n < length (bvf_in b3)" "length (bvf_in b3) = length sk"
      using n2 S(2) b3 by (auto simp: base_inv_def skel_def)
    have "ok_node (length sk) ((bvf_in b3 ! n)\<lparr>cur_edge := 0\<rparr>)"
      using base_node [OF b3 n3(1)] n3(2) by (simp add: ok_node_def wf_node_def)
    from base_upd [OF b3 this, of n] have "base_inv sk nn kc ?b4" using S(2) n2 by simp
    then show ?thesis
      using t at_node_finish [OF a2 gr get_next_node_None(3) [OF g] refl refl] by (simp add: turn_inv_def)
  qed
qed

section \<open>The whole search\<close>

lemma dfs_from_total:
  "turn_inv sk nn kc n b \<Longrightarrow> \<exists>b'. dfs_from b (Some n) = Some b' \<and> base_inv sk nn kc b' \<and> at_end (bvf_in b')"
proof (induction "work b" arbitrary: b n rule: less_induct)
  case less
  obtain b1 r where t: "dfs_turn b n = Some (b1, r)" and I: "case r of Some m \<Rightarrow> turn_inv sk nn kc m b1
      | None \<Rightarrow> base_inv sk nn kc b1 \<and> at_end (bvf_in b1)"
    using turn_total [OF less.prems] by blast
  show ?case
  proof (cases r)
    case None
    then show ?thesis using t I by (simp add: dfs_from.simps)
  next
    case (Some m)
    have "\<exists>b'. dfs_from b1 (Some m) = Some b' \<and> base_inv sk nn kc b' \<and> at_end (bvf_in b')"
      by (rule less.hyps) (use dfs_turn_work t Some I in auto)
    then show ?thesis using t Some by (subst dfs_from.simps) simp
  qed
qed

text \<open>At the end the black nodes are the ones that can be reached.\<close>

lemma black_reach:
  assumes e: "at_end ns" and ok: "list_all (ok_node (length ns)) ns" and r: "(0, i) \<in> (edges ns)\<^sup>*"
  shows "i < length ns \<and> colour (ns ! i) = BLACK"
  using r
proof (induction rule: rtrancl_induct)
  case base
  then show ?case using e by (simp add: at_end_def)
next
  case (step i j)
  obtain k where k: "k < nb_edge (ns ! i)" "j = unat (edge_dest (ns ! i) ! k)"
    using step.hyps(2) by (auto simp: edges_def node_succs_def in_set_conv_nth)
  then have j: "j < length ns" using ok step.IH by (auto simp: list_all_length ok_node_def)
  have "colour (ns ! j) \<noteq> WHITE" using e step.IH k by (auto simp: at_end_def closed_def)
  then show ?case using j e by (cases "colour (ns ! j)") (auto simp: at_end_def)
qed

lemma black_iff_reach:
  assumes "at_end ns" "list_all (ok_node (length ns)) ns" "i < length ns"
  shows "colour (ns ! i) = BLACK \<longleftrightarrow> (0, i) \<in> (edges ns)\<^sup>*"
  using black_reach [OF assms(1,2)] assms(1,3) by (auto simp: at_end_def visited_reach_def)

section \<open>The verdict\<close>

text \<open>The graph of a program, and the programs whose instructions and jumps are valid.\<close>

definition prog_edges :: "rte_bpf_prm \<Rightarrow> (nat \<times> nat) set" where
  "prog_edges p = {(i, unat d) | i d. i \<in> set (heads (ins p) 0) \<and> d \<in> set (succ_list i (ins p ! i))}"

definition well_formed :: "rte_bpf_prm \<Rightarrow> bool" where
  "well_formed p = (ins p \<noteq> [] \<and> length (ins p) < 2 ^ 30 \<and> no_jump_into_imm64 p \<and>
     list_all (\<lambda>i. check_syntax (ins p ! i) = None \<and>
       list_all (\<lambda>d. unat d < length (ins p)) (succ_list i (ins p ! i))) (heads (ins p) 0))"

lemma graph_edges:
  assumes "graph_of (ins p) b"
  shows "edges (bvf_in b) = prog_edges p"
proof -
  have "node_succs (bvf_in b ! i) = (if i \<in> set (heads (ins p) 0) then unat ` set (succ_list i (ins p ! i)) else {})"
    if "i < length (ins p)" for i
    using assms that by (simp add: graph_of_def node_succs_def zero_node_def)
  then show ?thesis using assms heads_range
    by (fastforce simp: edges_def prog_edges_def graph_of_def split: if_splits)
qed

lemma add_edge_total:
  assumes "n < length (bvf_in b)" "bvf_in b ! n = built ds" "length ds < 2" "d \<le> nb_ins (bvf_prm b)"
  shows "add_edge b n d = Some (b\<lparr>bvf_in := (bvf_in b)[n := built (ds @ [d])]\<rparr>, 0)"
proof -
  have "length (edge_dest (built ds)) = 2" using assms(3) by (simp add: built_def)
  then show ?thesis using assms
    by (simp add: add_edge_def get_node_def put_node_def nth_opt_lt upd_opt_def built_snoc not_less)
qed

lemma cfg_edges_total:
  assumes "n < length (bvf_in b)" "bvf_in b ! n = zero_node"
    and "\<And>d. d \<in> set (succ_list n x) \<Longrightarrow> d \<le> nb_ins (bvf_prm b)"
  shows "\<exists>b'. cfg_edges b n x = Some (b', 0)"
proof -
  have z: "bvf_in b ! n = built []" using assms(2) by (simp add: built_Nil)
  have one: "\<exists>b'. add_edge (b\<lparr>nb_ldmb_nodes := c\<rparr>) n d = Some (b', 0)" "\<exists>b'. add_edge b n d = Some (b', 0)"
    if "d \<le> nb_ins (bvf_prm b)" for d c
    using add_edge_total [of n b "[]" d] add_edge_total [of n "b\<lparr>nb_ldmb_nodes := c\<rparr>" "[]" d] assms(1) z that
    by simp_all
  show ?thesis
  proof (cases "code x \<in> set jcc_codes")
    case True
    then have s: "succ_list n x = [jmp_dest n x, get_node_idx n + 1]"
      using jcc_codes_other [OF True] by (simp add: succ_list_def)
    let ?b = "b\<lparr>bvf_in := (bvf_in b)[n := built ([] @ [jmp_dest n x])]\<rparr>"
    have "add_edge b n (jmp_dest n x) = Some (?b, 0)"
      by (rule add_edge_total [OF assms(1) z]) (use assms(3) s in auto)
    moreover have "\<exists>b'. add_edge ?b n (get_node_idx n + 1) = Some (b', 0)"
      using add_edge_total [of n ?b "[jmp_dest n x]" "get_node_idx n + 1"] assms(1,3) s by auto
    ultimately show ?thesis using True jcc_codes_other [OF True] by (auto simp: cfg_edges_def)
  next
    case False
    have "\<not> (code x \<in> set ldmb_codes \<and> (code x = (BPF_LD OR BPF_IMM OR EBPF_DW) \<or> code x = (BPF_JMP OR BPF_JA) \<or>
        code x = (BPF_JMP OR EBPF_EXIT)))"
      by (auto simp: ldmb_codes_def)
    then show ?thesis using False assms(3) one
      by (auto simp: cfg_edges_def succ_list_def split: if_splits)
  qed
qed

lemma validate_loop_total:
  assumes "\<forall>j. i \<le> j \<and> j < length xs \<longrightarrow> bvf_in b ! j = zero_node" "length (bvf_in b) = length xs"
    and "\<forall>j \<in> set (heads xs i). check_syntax (xs ! j) = None \<and>
       (\<forall>d \<in> set (succ_list j (xs ! j)). d \<le> nb_ins (bvf_prm b))"
  shows "\<exists>b'. validate_loop b xs i 0 = Some (b', 0) \<and> nb_nodes b' = nb_nodes b + of_nat (length (heads xs i)) \<and>
    bvf_node_colour b' = (bvf_node_colour b)(WHITE := bvf_node_colour b WHITE + of_nat (length (heads xs i)))"
  using assms
proof (induction "length xs - i" arbitrary: i b rule: less_induct)
  case less
  show ?case
  proof (cases "i < length xs")
    case False
    then show ?thesis by (simp add: validate_loop.simps [of b xs i] heads.simps [of xs i])
  next
    case True
    let ?x = "xs ! i" and ?k = "next_head i (xs ! i)"
    have h: "heads xs i = i # heads xs ?k" using True by (subst heads.simps) simp
    have z: "i < length (bvf_in b)" "bvf_in b ! i = zero_node" using less.prems True by auto
    have sy: "check_syntax ?x = None" and sd: "\<And>d. d \<in> set (succ_list i ?x) \<Longrightarrow> d \<le> nb_ins (bvf_prm b)"
      using less.prems(3) h by auto
    obtain b1 where "cfg_edges b i ?x = Some (b1, 0)" using cfg_edges_total [OF z sd] by blast
    then obtain b2 where v: "validate_ins b i ?x 0 = Some (b2, 0)" using sy by (simp add: validate_ins_def)
    note V = validate_ins_ok [OF v z(2,1)]
    have "\<exists>b'. validate_loop b2 xs ?k 0 = Some (b', 0) \<and> nb_nodes b' = nb_nodes b2 + of_nat (length (heads xs ?k)) \<and>
      bvf_node_colour b' = (bvf_node_colour b2)(WHITE := bvf_node_colour b2 WHITE + of_nat (length (heads xs ?k)))"
    proof (rule less.hyps)
      show "length xs - ?k < length xs - i" using True next_head_less [of i ?x] by linarith
      show "\<forall>j. ?k \<le> j \<and> j < length xs \<longrightarrow> bvf_in b2 ! j = zero_node"
        using less.prems(1) V(4) next_head_less [of i ?x] by auto
      show "length (bvf_in b2) = length xs" using V(3) less.prems(2) by (simp add: same_rest_def)
      show "\<forall>j\<in>set (heads xs ?k). check_syntax (xs ! j) = None \<and>
          (\<forall>d\<in>set (succ_list j (xs ! j)). d \<le> nb_ins (bvf_prm b2))"
        using less.prems(3) h V(3) by (simp add: same_rest_def)
    qed
    then show ?thesis using True v V(6,7) h
      by (subst validate_loop.simps) (auto simp: algebra_simps)
  qed
qed

text \<open>The loop leaves the search in its first state.\<close>

lemma heads_distinct: "distinct (heads xs i)"
proof (induction xs i rule: heads.induct)
  case (1 xs i)
  show ?case
    using "1.IH" next_head_less [of i "xs ! i"]
    by (subst heads.simps) (auto dest: heads_range)
qed

lemma graph_start:
  assumes g: "graph_of (ins p) b" and w: "well_formed p"
    and c: "\<And>c. bvf_node_colour b c = of_nat (cnt (bvf_in b) c) + kc c"
  shows "turn_inv (skel (bvf_in b)) (nb_nodes b) kc 0 b"
proof -
  let ?ns = "bvf_in b"
  have l: "length ?ns = length (ins p)" "0 < length (ins p)" "length (ins p) < 2 ^ 30"
    using g w by (auto simp: graph_of_def well_formed_def)
  have node: "?ns ! i = built [] \<or> (i \<in> set (heads (ins p) 0) \<and> ?ns ! i = built (succ_list i (ins p ! i)))"
    if "i < length ?ns" for i
    using g that by (auto simp: graph_of_def built_Nil)
  have W: "colour (?ns ! i) = WHITE" "prev_node (?ns ! i) = 0" if "i < length ?ns" for i
    using node [OF that] by auto
  have "ok_node (length ?ns) (?ns ! i)" if i: "i < length ?ns" for i
    using node [OF i]
  proof (elim disjE conjE)
    assume h: "i \<in> set (heads (ins p) 0)" and n: "?ns ! i = built (succ_list i (ins p ! i))"
    have s: "length (succ_list i (ins p ! i)) \<le> 2" by (simp add: succ_list_def)
    have "unat (succ_list i (ins p ! i) ! k) < length ?ns" if "k < length (succ_list i (ins p ! i))" for k
      using w h l that by (auto simp: well_formed_def list_all_iff)
    then show ?thesis using n s
      by (auto simp: ok_node_def wf_node_def built_def zero_node_def nth_append)
  qed (auto simp: ok_node_def wf_node_def built_def zero_node_def)
  moreover have "at_node ?ns 0 []"
    using W l by (auto simp: at_node_def closed_def visited_reach_def)
  moreover have "bvf_edge_type b = (\<lambda>_. 0)" using g by (simp add: graph_of_def)
  ultimately show ?thesis using c l
    by (auto simp: turn_inv_def base_inv_def list_all_length skel_def)
qed

lemma cnt_card: "cnt ns c = card {i. i < length ns \<and> colour (ns ! i) = c}"
  by (simp add: cnt_def length_filter_conv_card)

lemma cnt_sum: "cnt ns WHITE + cnt ns GREY + cnt ns BLACK = length ns"
proof (induction ns)
  case (Cons a ns)
  then show ?case by (cases "colour a") (auto simp: cnt_def)
qed (simp add: cnt_def)

lemma of_nat32_eq:
  assumes "x < 2 ^ 30" "y < 2 ^ 30"
  shows "(of_nat x :: u32) = of_nat y \<longleftrightarrow> x = y"
proof
  assume "(of_nat x :: u32) = of_nat y"
  then have "unat (of_nat x :: u32) = unat (of_nat y :: u32)" by simp
  then show "x = y" using assms by (simp add: unat_of_nat)
qed simp

lemma reach_heads:
  assumes "well_formed p" "(0, i) \<in> (prog_edges p)\<^sup>*"
  shows "i \<in> set (heads (ins p) 0)"
  using assms(2)
proof (induction rule: rtrancl_induct)
  case base
  then show ?case using assms(1) heads_0 by (simp add: well_formed_def)
next
  case (step i j)
  then show ?case using assms(1)
    by (auto simp: prog_edges_def well_formed_def no_jump_into_imm64_def Let_def list_all_iff)
qed

text \<open>
  What \<open>validate\<close> sees after the search on a well-formed program. \<open>H\<close> are the heads, \<open>R\<close> the ones that
  can be reached.
\<close>

lemma search_verdict:
  assumes w: "well_formed p" and l: "validate_loop (bvf_init p) (ins p) 0 0 = Some (b, 0)"
    and nb: "nb_nodes b = of_nat (length (heads (ins p) 0))"
    and nc: "bvf_node_colour b = (\<lambda>_. 0)(WHITE := of_nat (length (heads (ins p) 0)))"
  obtains b' where "dfs b = Some b'" "bvf_prm b = p"
    and "bvf_node_colour b' BLACK = nb_nodes b' \<longleftrightarrow> (\<forall>i \<in> set (heads (ins p) 0). (0, i) \<in> (prog_edges p)\<^sup>*)"
    and "bvf_node_colour b' BLACK = nb_nodes b' \<longrightarrow> bvf_node_colour b' GREY = 0 \<and> bvf_node_colour b' WHITE = 0 \<and>
      bvf_edge_type b' UNKNOWN_EDGE = 0 \<and> (bvf_edge_type b' BACK_EDGE = 0 \<longleftrightarrow> acyclic (prog_edges p))"
proof -
  let ?H = "set (heads (ins p) 0)" and ?N = "length (ins p)"
  note V = validate_loop_init [OF l]
  have sr: "bvf_prm b = p"
    using validate_loop_ok [OF l] by (simp add: bvf_init_def same_rest_def)
  have lb: "length (bvf_in b) = ?N" "?N < 2 ^ 30" "ins p \<noteq> []"
    using V(1) w by (auto simp: graph_of_def well_formed_def)
  define kc where "kc c = bvf_node_colour b c - of_nat (cnt (bvf_in b) c)" for c
  have st: "turn_inv (skel (bvf_in b)) (nb_nodes b) kc 0 b"
    by (rule graph_start [OF V(1) w]) (simp add: kc_def)
  obtain b' where d: "dfs b = Some b'" and B: "base_inv (skel (bvf_in b)) (nb_nodes b) kc b'"
    and E: "at_end (bvf_in b')"
    using dfs_from_total [OF st] by (auto simp: dfs_def)
  let ?ns = "bvf_in b'"
  have sk: "skel ?ns = skel (bvf_in b)" using B by (simp add: base_inv_def)
  have ln: "length ?ns = ?N" using skel_length [OF sk] lb(1) by simp
  have ok: "list_all (ok_node (length ?ns)) ?ns" using B ln lb(1) by (simp add: base_inv_def skel_def)
  have ed: "edges ?ns = prog_edges p" using edges_skel [OF sk] graph_edges [OF V(1)] by simp
  have black: "i < ?N \<Longrightarrow> colour (?ns ! i) = BLACK \<longleftrightarrow> (0, i) \<in> (prog_edges p)\<^sup>*" for i
    using black_iff_reach [OF E ok] ln ed by auto
  let ?R = "{i. i < ?N \<and> colour (?ns ! i) = BLACK}"
  have R: "?R \<subseteq> ?H" using black reach_heads [OF w] by auto
  have H: "card ?H = length (heads (ins p) 0)" by (rule distinct_card [OF heads_distinct])
  have Hs: "?H \<subseteq> {..<?N}" using heads_range by fastforce
  have le: "cnt ?ns BLACK \<le> ?N" "card ?H \<le> ?N"
    using cnt_sum [of ?ns] ln card_mono [OF _ Hs] by auto
  have white0: "cnt (bvf_in b) c = (if c = WHITE then ?N else 0)" for c
  proof -
    have "list_all (\<lambda>nd. colour nd = WHITE) (bvf_in b)"
      using V(1) by (auto simp: graph_of_def list_all_length zero_node_def)
    then have "filter (\<lambda>nd. colour nd = c) (bvf_in b) = (if c = WHITE then bvf_in b else [])"
      by (auto simp: list_all_iff filter_empty_conv intro: filter_True)
    then show ?thesis using lb(1) by (simp add: cnt_def)
  qed
  have col: "bvf_node_colour b' c = of_nat (cnt ?ns c) + kc c" for c using B by (simp add: base_inv_def)
  have kcs: "kc BLACK = 0" "kc GREY = 0" "kc WHITE = of_nat (card ?H) - of_nat ?N"
    by (simp_all add: kc_def white0 nc H)
  have nb': "nb_nodes b' = of_nat (card ?H)" using B nb H by (simp add: base_inv_def)
  have "bvf_node_colour b' BLACK = nb_nodes b' \<longleftrightarrow> cnt ?ns BLACK = card ?H"
    unfolding col kcs nb' add_0_right
    by (rule of_nat32_eq [OF le_less_trans [OF le(1) lb(2)] le_less_trans [OF le(2) lb(2)]])
  also have "\<dots> \<longleftrightarrow> card ?R = card ?H" by (simp only: cnt_card ln)
  also have "\<dots> \<longleftrightarrow> ?R = ?H"
    by (rule iffI, rule card_subset_eq [OF finite_set R], assumption, simp only:)
  finally have eq: "bvf_node_colour b' BLACK = nb_nodes b' \<longleftrightarrow> ?R = ?H" .
  also have "\<dots> \<longleftrightarrow> (\<forall>i \<in> ?H. (0, i) \<in> (prog_edges p)\<^sup>*)"
    using R Hs black by blast
  finally have 1: "bvf_node_colour b' BLACK = nb_nodes b' \<longleftrightarrow> (\<forall>i \<in> ?H. (0, i) \<in> (prog_edges p)\<^sup>*)" .
  have 2: "bvf_node_colour b' GREY = 0 \<and> bvf_node_colour b' WHITE = 0 \<and>
      bvf_edge_type b' UNKNOWN_EDGE = 0 \<and> (bvf_edge_type b' BACK_EDGE = 0 \<longleftrightarrow> acyclic (prog_edges p))"
    if "bvf_node_colour b' BLACK = nb_nodes b'"
  proof -
    have RH: "?R = ?H" using eq that by simp
    have g0: "cnt ?ns GREY = 0" using E by (simp add: cnt_card at_end_def)
    then have "cnt ?ns WHITE + card ?H = ?N" using cnt_sum [of ?ns] RH ln cnt_card [of ?ns BLACK] by simp
    then have "of_nat (cnt ?ns WHITE) + of_nat (card ?H) = (of_nat ?N :: u32)" by (metis of_nat_add)
    then have "bvf_node_colour b' WHITE = 0" by (simp add: col kcs algebra_simps)
    moreover have "acyclic (prog_edges p)" if nbe: "bvf_edge_type b' BACK_EDGE = 0"
    proof -
      obtain fin where f: "finished ?ns fin"
        using dfs_acyclic [OF d graph_fresh [OF V(1) lb(3)] _ nbe] lb by auto
      show ?thesis
      proof (rule acyclicI_order)
        fix i j assume "(i, j) \<in> prog_edges p"
        then have s: "j \<in> node_succs (?ns ! i)" and "i < ?N" using ed ln by (auto simp: edges_def)
        have "i \<in> ?H" using \<open>(i, j) \<in> prog_edges p\<close> by (auto simp: prog_edges_def)
        then have "i \<in> set fin" using RH f ln by (auto simp: finished_def)
        then show "rank_of fin j < rank_of fin i"
          using rank_of_succ [of ?ns fin i j] s f by (auto simp: finished_def)
      qed
    qed
    ultimately show ?thesis using B ed g0 by (auto simp: base_inv_def col kcs)
  qed
  show ?thesis by (rule that [OF d sr 1]) (use 2 in blast)
qed

text \<open>
  C3: on every program whose instructions are valid one by one and whose jumps go to instructions of
  the program, the first pass returns, and it accepts the program if and only if every
  instruction can be reached from the first one and the control flow has no cycle.
\<close>

theorem validate_decides:
  assumes w: "well_formed p"
  shows "\<exists>b rc. validate (bvf_init p) = Some (b, rc) \<and>
    (rc = 0 \<longleftrightarrow> acyclic (prog_edges p) \<and> (\<forall>i \<in> set (heads (ins p) 0). (0, i) \<in> (prog_edges p)\<^sup>*))"
proof -
  have le: "d \<le> nb_ins p" if "unat d < length (ins p)" for d
    using that w by (simp add: nb_ins_def word_le_nat_alt unat_of_nat well_formed_def)
  have "\<exists>b. validate_loop (bvf_init p) (ins p) 0 0 = Some (b, 0) \<and>
      nb_nodes b = nb_nodes (bvf_init p) + of_nat (length (heads (ins p) 0)) \<and>
      bvf_node_colour b = (bvf_node_colour (bvf_init p))
        (WHITE := bvf_node_colour (bvf_init p) WHITE + of_nat (length (heads (ins p) 0)))"
    by (rule validate_loop_total) (use w le in \<open>auto simp: bvf_init_def well_formed_def list_all_iff\<close>)
  then obtain b where l: "validate_loop (bvf_init p) (ins p) 0 0 = Some (b, 0)"
    and nb: "nb_nodes b = of_nat (length (heads (ins p) 0))"
    and nc: "bvf_node_colour b = (\<lambda>_. 0)(WHITE := of_nat (length (heads (ins p) 0)))"
    by (auto simp: bvf_init_def)
  obtain b' where d: "dfs b = Some b'" and "bvf_prm b = p"
    and S: "bvf_node_colour b' BLACK = nb_nodes b' \<longleftrightarrow> (\<forall>i \<in> set (heads (ins p) 0). (0, i) \<in> (prog_edges p)\<^sup>*)"
    "bvf_node_colour b' BLACK = nb_nodes b' \<longrightarrow> bvf_node_colour b' GREY = 0 \<and> bvf_node_colour b' WHITE = 0 \<and>
      bvf_edge_type b' UNKNOWN_EDGE = 0 \<and> (bvf_edge_type b' BACK_EDGE = 0 \<longleftrightarrow> acyclic (prog_edges p))"
    by (rule search_verdict [OF w l nb nc])
  have v: "validate (bvf_init p) = Some (if bvf_node_colour b' BLACK \<noteq> nb_nodes b'
        then (log_unreachable (bpf_log b' (Log ''unreachable instructions'' [])), - EINVAL)
        else if bvf_edge_type b' BACK_EDGE \<noteq> 0
        then (log_loop (bpf_log b' (Log ''loops detected'' [])), - EINVAL) else (b', 0))"
    using l d S(2) by (auto simp: validate_def bvf_init_def)
  show ?thesis
    using v S by (cases "bvf_node_colour b' BLACK = nb_nodes b'"; cases "bvf_edge_type b' BACK_EDGE = 0") auto
qed

theorem validate_decides_witness:
  "well_formed (prm prog_ret) \<and> (\<exists>b rc. validate (bvf_init (prm prog_ret)) = Some (b, rc) \<and>
    (rc = 0 \<longleftrightarrow> acyclic (prog_edges (prm prog_ret)) \<and>
      (\<forall>i \<in> set (heads (ins (prm prog_ret)) 0). (0, i) \<in> (prog_edges (prm prog_ret))\<^sup>*)))"
proof -
  have "list_all (\<lambda>i. check_syntax (ins (prm prog_ret) ! i) = None \<and>
      list_all (\<lambda>d. unat d < length (ins (prm prog_ret))) (succ_list i (ins (prm prog_ret) ! i)))
      (heads (ins (prm prog_ret)) 0)"
    by code_simp
  then have "well_formed (prm prog_ret)"
    using prog_ret_size by (auto simp: well_formed_def)
  then show ?thesis using validate_decides by simp
qed

end
