(* ===== verification/Bytes.thy ===== *)
theory Bytes
  imports Prelude
begin

text \<open>
  Bytes of a word and their place in memory: little-endian decoding inverts encoding, what is stored
  is what is loaded, a store leaves the other addresses alone, and reversing the bytes twice
  restores them.
\<close>

lemma le_val_le_bytes: "le_val (le_bytes n w) = take_bit (8 * n) w"
proof (induction n arbitrary: w)
  case (Suc n)
  show ?case
    by (rule bit_word_eqI) (auto simp: Suc bit_simps)
qed simp

lemma bit_le_val: "bit (le_val bs) i \<longleftrightarrow> i < 64 \<and> i < 8 * length bs \<and> bit (bs ! (i div 8)) (i mod 8)"
proof (induction bs arbitrary: i)
  case (Cons b bs)
  show ?case
  proof (cases "i < 8")
    case True
    then show ?thesis by (auto simp: bit_simps)
  next
    case False
    then have "i div 8 = Suc ((i - 8) div 8)" "(i - 8) mod 8 = i mod 8"
      by (simp_all add: div_if mod_if)
    then show ?thesis using False Cons [of "i - 8"] bit_imp_le_length [of b i] by (auto simp: bit_simps)
  qed
qed simp

lemma le_bytes_le_val: "length bs \<le> 8 \<Longrightarrow> le_bytes (length bs) (le_val bs) = bs"
proof (induction bs)
  case (Cons b bs)
  have "ucast (ucast b OR push_bit 8 (le_val bs)) = b"
    by (rule bit_word_eqI) (auto simp: bit_simps)
  moreover have "drop_bit 8 (ucast b OR push_bit 8 (le_val bs)) = le_val bs"
    using Cons.prems by (intro bit_word_eqI) (auto simp: bit_simps bit_le_val dest: bit_imp_le_length)
  ultimately show ?case using Cons by simp
qed simp

lemma st_bytes_frame:
  "st_bytes m a bs = Some m' \<Longrightarrow> (\<And>k. k < length bs \<Longrightarrow> c \<noteq> a + of_nat k) \<Longrightarrow> m' c = m c"
proof (induction bs arbitrary: m a)
  case (Cons b bs)
  have s: "st_bytes (m(a \<mapsto> b)) (a + 1) bs = Some m'" using Cons.prems(1) by (auto split: bind_splits)
  have "c \<noteq> a + 1 + of_nat k" if "k < length bs" for k
    using Cons.prems(2) [of "Suc k"] that by (simp add: add_ac)
  then have "m' c = (m(a \<mapsto> b)) c" by (rule Cons.IH [OF s])
  moreover have "c \<noteq> a" using Cons.prems(2) [of 0] by simp
  ultimately show ?case by simp
qed simp

lemma st_bytes_ld:
  "st_bytes m a bs = Some m' \<Longrightarrow> length bs \<le> 8 \<Longrightarrow> ld_bytes m' a (length bs) = Some bs"
proof (induction bs arbitrary: m a)
  case (Cons b bs)
  have s: "st_bytes (m(a \<mapsto> b)) (a + 1) bs = Some m'" using Cons.prems(1) by (auto split: bind_splits)
  have "a \<noteq> a + 1 + of_nat k" if "k < length bs" for k
  proof
    assume "a = a + 1 + of_nat k"
    then have "(of_nat (Suc k) :: u64) = 0" by (simp add: add.assoc)
    then have "unat (of_nat (Suc k) :: u64) = 0" by (simp only: unat_0)
    then show False using that Cons.prems(2) by (simp add: unat_of_nat del: of_nat_Suc)
  qed
  then have "m' a = Some b" using st_bytes_frame [OF s] by simp
  then show ?case using Cons.IH [OF s] Cons.prems(2) by simp
qed simp

text \<open>What is stored is what is loaded, cut to the size of the access.\<close>

lemma store_load: "store m n a v = Some m' \<Longrightarrow> n \<le> 8 \<Longrightarrow> load m' n a = Some (take_bit (8 * n) v)"
  using st_bytes_ld [of m a "le_bytes n v" m'] by (simp add: store_def load_def le_val_le_bytes)

lemma store_frame:
  "store m n a v = Some m' \<Longrightarrow> (\<And>k. k < n \<Longrightarrow> c \<noteq> a + of_nat k) \<Longrightarrow> m' c = m c"
  using st_bytes_frame [of m a "le_bytes n v" m' c] by (simp add: store_def)

lemma be_val_twice: "n \<le> 8 \<Longrightarrow> be_val (le_bytes n (be_val (le_bytes n v))) = take_bit (8 * n) v"
  using le_bytes_le_val [of "rev (le_bytes n v)"] by (simp add: le_val_le_bytes)

end
