(* ===== verification/BPF_Exec_Props.thy ===== *)
theory BPF_Exec_Props
  imports BPF_Verified Bytes
begin

text \<open>
  What the checks of the single instructions give a run: the frame pointer R10 is never written,
  register numbers are always inside the register array, an immediate divisor is never zero; so
  in a run of an accepted program only a memory access, a packet access, a call or a shift can
  have no defined result. The last section has the byte swaps and the burst.
\<close>

section \<open>The table of instructions against the switch\<close>

text \<open>The macros that assign the destination register.\<close>

fun writes_dst :: "action \<Rightarrow> bool" where
  "writes_dst (BPF_NEG_ALU _) = True"
| "writes_dst (EBPF_MOV_ALU_REG _) = True"
| "writes_dst (BPF_OP_ALU_REG _ _) = True"
| "writes_dst (BPF_DIV_ZERO_CHECK_OP_ALU_REG _ _) = True"
| "writes_dst (EBPF_MOV_ALU_IMM _) = True"
| "writes_dst (BPF_OP_ALU_IMM _ _) = True"
| "writes_dst BPF_ALU_BE = True"
| "writes_dst BPF_ALU_LE = True"
| "writes_dst (BPF_LD_REG _) = True"
| "writes_dst BPF_LD_IMM64 = True"
| "writes_dst _ = False"

text \<open>The macros with an effect that the registers alone do not determine, and the shifts.\<close>

fun outside :: "action \<Rightarrow> bool" where
  "outside (BPF_LD_REG _) = True"
| "outside (BPF_ST_IMM _) = True"
| "outside (BPF_ST_REG _) = True"
| "outside (BPF_ST_XADD_REG _) = True"
| "outside (BPF_LD_ABS _) = True"
| "outside (BPF_LD_IND _) = True"
| "outside CALL_FUNC = True"
| "outside (BPF_OP_ALU_REG q _) = (q = Lsh \<or> q = Rsh)"
| "outside (BPF_OP_ALU_IMM q _) = (q = Lsh \<or> q = Rsh)"
| "outside _ = False"

text \<open>Which operators the switch uses with which macro.\<close>

fun op_ok :: "bpf_ins_check \<Rightarrow> action \<Rightarrow> bool" where
  "op_ok e (BPF_OP_ALU_REG q t) = (q \<noteq> Div \<and> q \<noteq> Mod \<and> (t = Int64 \<longrightarrow> q = Rsh))"
| "op_ok e (BPF_DIV_ZERO_CHECK_OP_ALU_REG q t) = ((q = Div \<or> q = Mod) \<and> t \<noteq> Int64)"
| "op_ok e (BPF_OP_ALU_IMM q t) =
     ((q = Div \<or> q = Mod \<longrightarrow> imm_min e = 1) \<and> (t = Int64 \<longrightarrow> q = Rsh))"
| "op_ok e _ = True"

lemma table_masks:
  "list_all (\<lambda>(c, e). case map_of bpf_switch c of None \<Rightarrow> False | Some a \<Rightarrow>
     mask_dreg e \<in> set [WRT_REGS, ALL_REGS, ZERO_REG] \<and>
     mask_sreg e \<in> set [ALL_REGS, ZERO_REG, IND_SRC_REGS] \<and>
     (writes_dst a \<longrightarrow> mask_dreg e = WRT_REGS) \<and> op_ok e a) ins_chk"
  by code_simp

lemma mask_bits:
  "list_all (\<lambda>k. list_all (\<lambda>m. (m :: u16) AND push_bit k 1 \<noteq> 0 \<longrightarrow> k < 11)
      [WRT_REGS, ALL_REGS, ZERO_REG, IND_SRC_REGS] \<and> (WRT_REGS AND push_bit k 1 \<noteq> 0 \<longrightarrow> k < 10)) [0..<16]"
  by code_simp

lemma mask_reg:
  assumes "m AND push_bit (unat (r :: 4 word)) 1 \<noteq> 0"
    and "m \<in> {WRT_REGS, ALL_REGS, ZERO_REG, IND_SRC_REGS}"
  shows "unat r < 11" and "m = WRT_REGS \<Longrightarrow> unat r < 10"
proof -
  have "unat r < 16" using unsigned_less [of r] by simp
  then have r: "unat r \<in> set [0..<16]" by simp
  then show "unat r < 11" "m = WRT_REGS \<Longrightarrow> unat r < 10"
    using mask_bits [unfolded list_all_iff, rule_format, OF r] assms by auto
qed

lemma check_syntax_regs:
  assumes s: "check_syntax x = None"
  obtains a e where "map_of bpf_switch (code x) = Some a" "op_ok e a"
    "unat (dst_reg x) < 11" "unat (src_reg x) < 11" "writes_dst a \<Longrightarrow> unat (dst_reg x) < 10"
    "imm_min e \<le> imm x"
proof -
  obtain e where e: "map_of ins_chk (code x) = Some e"
    using s by (auto simp: check_syntax_def ins_chk_at_def ent_def Let_def split: option.splits)
  then have i: "(code x, e) \<in> set ins_chk" by (rule map_of_SomeD)
  obtain a where a: "map_of bpf_switch (code x) = Some a"
    and m: "mask_dreg e \<in> {WRT_REGS, ALL_REGS, ZERO_REG}" "mask_sreg e \<in> {ALL_REGS, ZERO_REG, IND_SRC_REGS}"
    and w: "writes_dst a \<longrightarrow> mask_dreg e = WRT_REGS" "op_ok e a"
    using table_masks [unfolded list_all_iff, rule_format, OF i] by (auto split: option.splits)
  have c: "mask_dreg e AND push_bit (unat (dst_reg x)) 1 \<noteq> 0"
    "mask_sreg e AND push_bit (unat (src_reg x)) 1 \<noteq> 0" "imm_min e \<le> imm x"
    using s by (auto simp: check_syntax_def ins_chk_at_def e Let_def split: if_splits)
  show ?thesis
    using that [OF a w(2) mask_reg(1) [OF c(1)] mask_reg(1) [OF c(2)] _ c(3)] m w(1) mask_reg(2) [OF c(1)]
    by auto
qed

section \<open>Runs keep the frame pointer and the register array\<close>

lemma set_dst_regs:
  assumes "set_dst st i v = Some (Next st')"
  shows "length (reg st') = length (reg st)" and "unat (dst_reg i) < 10 \<Longrightarrow> reg st' ! 10 = reg st ! 10"
  using assms by (auto simp: set_dst_def wr_reg_def)

lemma exec_action_regs:
  assumes "exec_action p i st a = Some (Next st')" and "writes_dst a \<Longrightarrow> unat (dst_reg i) < 10"
  shows "length (reg st') = length (reg st) \<and> reg st' ! 10 = reg st ! 10"
  using assms
  by (cases a)
    (auto simp: ld_imm64_def call_func_def ld_mbuf_to_r0_def wr_reg_def set_dst_def
       split: bind_splits if_splits xsym_union.splits prod.splits option.splits)

lemma head_syntax:
  assumes "at_head p fin st"
  shows "fetch p (pc st) = Some (ins p ! nat (pc st))" and "check_syntax (ins p ! nat (pc st)) = None"
proof -
  have h: "nat (pc st) \<in> set (heads (ins p) 0)" "0 \<le> pc st" using assms by (simp_all add: at_head_def)
  then show "fetch p (pc st) = Some (ins p ! nat (pc st))"
    using heads_range [OF h(1)] by (simp add: fetch_def nth_opt_lt)
  show "check_syntax (ins p ! nat (pc st)) = None"
    using assms h by (auto simp: at_head_def first_pass_def)
qed

lemma run_regs:
  assumes "reaches p st st'" "at_head p fin st"
  shows "length (reg st') = length (reg st) \<and> reg st' ! 10 = reg st ! 10"
  using assms
proof (induction rule: reaches.induct)
  case (reaches_step st st' st'')
  have h: "at_head p fin st'" using vrun.reaches_good reaches_step by blast
  let ?x = "ins p ! nat (pc st')"
  obtain a e where a: "map_of bpf_switch (code ?x) = Some a" "writes_dst a \<Longrightarrow> unat (dst_reg ?x) < 10"
    by (rule check_syntax_regs [OF head_syntax(2) [OF h]]) blast
  have "exec_action p ?x st' a = Some (Next st'')"
    using reaches_step.hyps(2) head_syntax(1) [OF h] a(1) by (simp add: bpf_step_def)
  then show ?case using exec_action_regs a(2) reaches_step by metis
qed simp

lemma accepted_start:
  assumes "bpf_validate io po bpf = Some (0, bpf')"
    and "length (ins (prm bpf)) < 2 ^ 30" and "no_jump_into_imm64 (prm bpf)"
  obtains fin where "prm bpf' = prm bpf" "at_head (prm bpf) fin \<lparr>pc = 0, reg = rs, emem = m\<rparr>"
proof -
  obtain b where v: "validate (bvf_init (prm bpf)) = Some (b, 0)" and p: "prm bpf' = prm bpf"
    using bpf_validate_ok [OF assms(1)] by blast
  obtain fin where f: "first_pass (prm bpf) fin" using validate_first_pass [OF v assms(2,3)] by blast
  have "at_head (prm bpf) fin \<lparr>pc = 0, reg = rs, emem = m\<rparr>" using start_at_head [OF f] by simp
  then show ?thesis by (rule that [OF p])
qed

text \<open>
  C10: in a run of an accepted program, of fewer than 2^30 instructions and with no jump into the second half of a
  64-bit load, the frame pointer R10 keeps its value, and the array of registers its length. (The verifier accepts such
  jumps, see \<open>loop_accepted\<close>, and does not check the registers of what is there.)
\<close>

theorem frame_pointer_kept:
  assumes "bpf_validate io po bpf = Some (0, bpf')"
    and "length (ins (prm bpf)) < 2 ^ 30" and "no_jump_into_imm64 (prm bpf)"
    and "reaches (prm bpf') \<lparr>pc = 0, reg = rs, emem = m\<rparr> st"
  shows "reg st ! 10 = rs ! 10 \<and> length (reg st) = length rs"
proof -
  obtain fin where "prm bpf' = prm bpf" "at_head (prm bpf) fin \<lparr>pc = 0, reg = rs, emem = m\<rparr>"
    by (rule accepted_start [OF assms(1-3)])
  then show ?thesis using run_regs assms(4) by fastforce
qed

theorem frame_pointer_kept_witness:
  "\<exists>bpf' st. bpf_validate True True prog_ret = Some (0, bpf') \<and>
     bpf_step (prm bpf') \<lparr>pc = 0, reg = [7, 7, 7, 7, 7, 7, 7, 7, 7, 7, 9], emem = \<lambda>_. None\<rparr> = Some (Next st) \<and>
     reg st ! 0 = 0 \<and> reg st ! 10 = 9 \<and> length (reg st) = 11"
proof -
  obtain bpf' where v: "bpf_validate True True prog_ret = Some (0, bpf')" by (rule prog_ret_ok)
  then have p: "prm bpf' = prm prog_ret" using bpf_validate_ok by metis
  let ?st = "\<lparr>pc = 0, reg = [7, 7, 7, 7, 7, 7, 7, 7, 7, 7, 9], emem = \<lambda>_. None\<rparr>"
  let ?st' = "\<lparr>pc = 1, reg = [0, 7, 7, 7, 7, 7, 7, 7, 7, 7, 9], emem = \<lambda>_. None\<rparr>"
  have f: "fetch (prm prog_ret) 0 = Some (mk_insn 0xb7 0 0 0 0)"
    and sw: "map_of bpf_switch 0xb7 = Some (EBPF_MOV_ALU_IMM Uint64)"
    by code_simp+
  have s: "bpf_step (prm bpf') ?st = Some (Next ?st')"
    using f sw by (simp add: p bpf_step_def mk_insn_def set_dst_def wr_reg_def imm64_def next_ins_def upd_opt_def)
  have "reg ?st' ! 10 = ([7, 7, 7, 7, 7, 7, 7, 7, 7, 7, 9]) ! 10 \<and> length (reg ?st') = length ([7, 7, 7, 7, 7, 7, 7, 7, 7, 7, 9 :: u64])"
    by (rule frame_pointer_kept [OF v _ prog_ret_size(2) reaches_step [OF reaches_refl s]])
      (simp add: prog_ret_size(1))
  then show ?thesis using v s by auto
qed

section \<open>Steps that are always defined\<close>

lemma op_alu_defined:
  assumes "q \<noteq> Lsh" "q \<noteq> Rsh" "t \<noteq> Int64" "q = Div \<or> q = Mod \<Longrightarrow> cast t b \<noteq> 0"
  shows "op_alu q t a b \<noteq> None"
  using assms by (cases t; cases q) auto

lemma imm64_nonzero:
  assumes "1 \<le> imm x"
  shows "cast t (imm64 x) \<noteq> 0"
proof -
  have n: "imm x \<noteq> 0" using assms by auto
  have u: "(ucast (imm64 x) :: u32) = imm x" unfolding imm64_def by (rule bit_word_eqI) (simp add: bit_simps)
  then have "imm64 x \<noteq> 0" using n by auto
  moreover have "(ucast (ucast (imm64 x) :: u32) :: u64) \<noteq> 0"
  proof
    assume "(ucast (ucast (imm64 x) :: u32) :: u64) = 0"
    then have "(ucast (ucast (imm x) :: u64) :: u32) = 0" unfolding u by simp
    moreover have "(ucast (ucast (imm x) :: u64) :: u32) = imm x"
      by (rule bit_word_eqI) (simp add: bit_simps)
    ultimately show False using n by simp
  qed
  ultimately show ?thesis by (cases t) simp_all
qed

lemma exec_action_defined:
  assumes "length (reg st) = 11" "unat (dst_reg x) < 11" "unat (src_reg x) < 11" "op_ok e a"
    and "imm_min e \<le> imm x" "\<not> outside a" "a = BPF_LD_IMM64 \<Longrightarrow> nat (pc st) + 1 < length (ins p)"
  shows "exec_action p x st a \<noteq> None"
proof -
  have d: "rd_reg st (dst_reg x) = Some (reg st ! unat (dst_reg x))"
    "rd_reg st (src_reg x) = Some (reg st ! unat (src_reg x))"
    "\<And>v. wr_reg st (unat (dst_reg x)) v = Some (st\<lparr>reg := (reg st)[unat (dst_reg x) := v]\<rparr>)"
    using assms(1-3) by (simp_all add: rd_reg_def nth_opt_lt wr_reg_def upd_opt_def)
  then have s: "\<And>v. set_dst st x v = Some (next_ins (st\<lparr>reg := (reg st)[unat (dst_reg x) := v]\<rparr>))"
    by (simp add: set_dst_def)
  show ?thesis
  proof (cases a)
    case (BPF_OP_ALU_REG q t)
    then have "op_alu q t u v \<noteq> None" for u v using assms(4,6) by (intro op_alu_defined) auto
    then show ?thesis using BPF_OP_ALU_REG d(1,2) s by (auto split: bind_splits)
  next
    case (BPF_DIV_ZERO_CHECK_OP_ALU_REG q t)
    then have "cast t v \<noteq> 0 \<Longrightarrow> op_alu q t u v \<noteq> None" for u v
      using assms(4) by (intro op_alu_defined) auto
    then show ?thesis using BPF_DIV_ZERO_CHECK_OP_ALU_REG d(1,2) s
      by (cases "cast t (reg st ! unat (src_reg x)) = 0") (auto split: bind_splits)
  next
    case (BPF_OP_ALU_IMM q t)
    then have "op_alu q t u (imm64 x) \<noteq> None" for u
      using assms(4-6) imm64_nonzero [of x t] by (intro op_alu_defined) auto
    then show ?thesis using BPF_OP_ALU_IMM d(1) s by (auto split: bind_splits)
  next
    case BPF_LD_IMM64
    then show ?thesis using assms(7) d(3) by (auto simp: ld_imm64_def nth_opt_lt)
  next
    case EXIT_PROG
    then show ?thesis using assms(1) by (simp add: nth_opt_lt)
  qed (use d s assms(6) in auto)
qed

lemma ld_imm64_room:
  assumes h: "at_head p fin st" and a: "map_of bpf_switch (code (ins p ! nat (pc st))) = Some BPF_LD_IMM64"
  shows "nat (pc st) + 1 < length (ins p)"
proof -
  let ?i = "nat (pc st)" and ?x = "ins p ! nat (pc st)"
  have f: "first_pass p fin" and i: "?i \<in> set fin" "?i \<in> set (heads (ins p) 0)" using h by (auto simp: at_head_def)
  have "flow_ok (code ?x) BPF_LD_IMM64"
    by (rule check_syntax_opcode [OF head_syntax(2) [OF h]]) (use a in auto)
  then have "code ?x = (BPF_LD OR BPF_IMM OR EBPF_DW)" by simp
  then have "succ_list ?i ?x = [get_node_idx ?i + 2]"
    by (auto simp: succ_list_def dest: jcc_codes_other)
  then have "unat (get_node_idx ?i + 2) \<in> set (heads (ins p) 0)" using f i by (auto simp: first_pass_def)
  then have "unat (get_node_idx ?i + 2) < length (ins p)" using heads_range by blast
  moreover have "?i < length (ins p)" "length (ins p) < 2 ^ 30" using heads_range [OF i(2)] f by (auto simp: first_pass_def)
  then have "unat (get_node_idx ?i + 2) = ?i + 2"
    by (simp add: get_node_idx_def unat_word_ariths unat_of_nat)
  ultimately show ?thesis by simp
qed

text \<open>
  C9: in a run of an accepted program, of fewer than 2^30 instructions and with no jump into the second half of a
  64-bit load, with all eleven registers, every instruction that is not a memory or packet access, a call or a shift has a defined result: no register number is outside
  the array, no divisor is zero, no second half of a 64-bit load is missing.
\<close>

theorem register_step_defined:
  assumes "bpf_validate io po bpf = Some (0, bpf')"
    and "length (ins (prm bpf)) < 2 ^ 30" and "no_jump_into_imm64 (prm bpf)"
    and "reaches (prm bpf') \<lparr>pc = 0, reg = rs, emem = m\<rparr> st" and "length rs = 11"
    and "fetch (prm bpf') (pc st) = Some x" and "map_of bpf_switch (code x) = Some a" and "\<not> outside a"
  shows "bpf_step (prm bpf') st \<noteq> None"
proof -
  obtain fin where p: "prm bpf' = prm bpf" and s: "at_head (prm bpf) fin \<lparr>pc = 0, reg = rs, emem = m\<rparr>"
    by (rule accepted_start [OF assms(1-3)])
  have h: "at_head (prm bpf) fin st" using vrun.reaches_good [OF assms(4) [unfolded p] s] .
  have x: "x = ins (prm bpf) ! nat (pc st)" using assms(6) head_syntax(1) [OF h] p by simp
  have l: "length (reg st) = 11" using run_regs [OF assms(4) [unfolded p] s] assms(5) by simp
  have "check_syntax x = None" using head_syntax(2) [OF h] x by simp
  then obtain e where "op_ok e a" "unat (dst_reg x) < 11" "unat (src_reg x) < 11" "imm_min e \<le> imm x"
    using assms(7) by (elim check_syntax_regs) auto
  then have "exec_action (prm bpf) x st a \<noteq> None"
    using exec_action_defined [OF l] ld_imm64_room [OF h] assms(7,8) x by blast
  then show ?thesis using assms(6,7) p by (simp add: bpf_step_def)
qed

theorem register_step_defined_witness:
  "\<exists>bpf'. bpf_validate True True prog_ret = Some (0, bpf') \<and>
     bpf_step (prm bpf') \<lparr>pc = 0, reg = [7, 7, 7, 7, 7, 7, 7, 7, 7, 7, 9], emem = \<lambda>_. None\<rparr> \<noteq> None"
proof -
  obtain bpf' where v: "bpf_validate True True prog_ret = Some (0, bpf')" by (rule prog_ret_ok)
  then have p: "prm bpf' = prm prog_ret" using bpf_validate_ok by metis
  let ?st = "\<lparr>pc = 0, reg = [7, 7, 7, 7, 7, 7, 7, 7, 7, 7, 9], emem = \<lambda>_. None\<rparr>"
  have f: "fetch (prm prog_ret) 0 = Some (mk_insn 0xb7 0 0 0 0)"
    and sw: "map_of bpf_switch 0xb7 = Some (EBPF_MOV_ALU_IMM Uint64)"
    by code_simp+
  have "bpf_step (prm bpf') ?st \<noteq> None"
    by (rule register_step_defined [OF v _ prog_ret_size(2) reaches_refl, where x = "mk_insn 0xb7 0 0 0 0"
          and a = "EBPF_MOV_ALU_IMM Uint64"])
      (use f sw in \<open>simp_all add: p prog_ret_size(1) mk_insn_def\<close>)
  then show ?thesis using v by auto
qed

section \<open>Byte order and memory\<close>

text \<open>
  converting to big-endian twice gives back the low bits of the value, as many as the
  instruction names, and that is what the conversion to little-endian gives.
\<close>

theorem byte_swap_twice:
  assumes "check_alu_bele i = None"
  shows "bpf_alu_be i (bpf_alu_be i v) = bpf_alu_le i v \<and> bpf_alu_le i v = take_bit (unat (imm i)) v"
proof -
  have b: "be_val (le_bytes n (be_val (le_bytes n v))) = take_bit (8 * n) v" if "n \<le> 8" for n
    using that by (rule be_val_twice)
  have u: "(ucast (ucast v :: u16) :: u64) = take_bit 16 v" "(ucast (ucast v :: u32) :: u64) = take_bit 32 v"
    "take_bit 64 v = v"
    by (rule bit_word_eqI, auto simp: bit_simps)+
  consider "imm i = 16" | "imm i = 32" | "imm i = 64"
    using assms by (auto simp: check_alu_bele_def split: if_splits)
  then show ?thesis
    using b [of 2] b [of 4] b [of 8] u by cases (simp_all add: bpf_alu_be_def bpf_alu_le_def del: be_val.simps)
qed

theorem byte_swap_twice_witness:
  "bpf_alu_be (mk_insn 0xdc 0 0 0 16) (bpf_alu_be (mk_insn 0xdc 0 0 0 16) 0x12345) = 0x2345"
proof -
  have "check_alu_bele (mk_insn 0xdc 0 0 0 16) = None" by code_simp
  from byte_swap_twice [OF this, of "0x12345"] show ?thesis by (simp add: mk_insn_def take_bit_eq_mod)
qed

text \<open>
  C16: a store followed by a load of the same size. The store writes at its destination register plus the sign-extended
  offset; a load whose source register plus sign-extended offset is that address, by whatever registers and offsets, gets the
  bytes that were stored, zero-extended, and every byte of memory outside the access is as it was before.
\<close>

theorem store_then_load:
  assumes "exec_action p i st (BPF_ST_REG n) = Some (Next st1)" and "n \<le> 8"
    and "unat (src_reg j) < length (reg st)" and "unat (dst_reg j) < length (reg st)"
    and "reg st ! unat (src_reg j) + scast (off j) = reg st ! unat (dst_reg i) + scast (off i)"
  shows "\<exists>st2. exec_action p j st1 (BPF_LD_REG n) = Some (Next st2) \<and>
    reg st2 ! unat (dst_reg j) = take_bit (8 * n) (reg st ! unat (src_reg i)) \<and>
    (\<forall>c. (\<forall>k < n. c \<noteq> reg st ! unat (dst_reg i) + scast (off i) + of_nat k) \<longrightarrow> emem st2 c = emem st c)"
proof -
  let ?a = "reg st ! unat (dst_reg i) + scast (off i)" and ?v = "reg st ! unat (src_reg i)"
  obtain m where m: "store (emem st) n ?a ?v = Some m" and st1: "st1 = st\<lparr>emem := m, pc := pc st + 1\<rparr>"
    using assms(1) by (auto simp: rd_reg_def eff_addr_def next_ins_def split: bind_splits)
  have "load m n ?a = Some (take_bit (8 * n) ?v)" by (rule store_load [OF m assms(2)])
  then have "exec_action p j st1 (BPF_LD_REG n) =
      Some (next_ins (st1\<lparr>reg := (reg st)[unat (dst_reg j) := take_bit (8 * n) ?v]\<rparr>))"
    using assms(3-5)
    by (simp add: st1 rd_reg_def nth_opt_lt eff_addr_def set_dst_def wr_reg_def upd_opt_def)
  then show ?thesis using store_frame [OF m] assms(4) st1 by (auto simp: next_ins_def)
qed

text \<open>A store of two bytes at R10 - 2 and a load from R3 + 1, where R10 is 102 and R3 is 99.\<close>

theorem store_then_load_witness:
  "\<exists>st1 st2. exec_action (prm prog_ret) (mk_insn 0x6b 10 1 0xfffe 0)
        \<lparr>pc = 0, reg = [0, 0x12345, 0, 99, 0, 0, 0, 0, 0, 0, 102], emem = [100 \<mapsto> 0, 101 \<mapsto> 0]\<rparr> (BPF_ST_REG 2) = Some (Next st1) \<and>
     exec_action (prm prog_ret) (mk_insn 0x69 0 3 1 0) st1 (BPF_LD_REG 2) = Some (Next st2) \<and>
     reg st2 ! 0 = 0x2345"
proof -
  let ?st = "\<lparr>pc = 0, reg = [0, 0x12345, 0, 99, 0, 0, 0, 0, 0, 0, 102], emem = [100 \<mapsto> 0, 101 \<mapsto> 0]\<rparr> :: exec_st"
  let ?i = "mk_insn 0x6b 10 1 0xfffe 0" and ?j = "mk_insn 0x69 0 3 1 0"
  have "case exec_action (prm prog_ret) ?i ?st (BPF_ST_REG 2) of Some (Next s) \<Rightarrow> True | _ \<Rightarrow> False"
    by code_simp
  then obtain st1 where s: "exec_action (prm prog_ret) ?i ?st (BPF_ST_REG 2) = Some (Next st1)"
    by (auto split: option.splits exec_res.splits)
  have a: "unat (src_reg ?j) < length (reg ?st)" "unat (dst_reg ?j) < length (reg ?st)"
    "reg ?st ! unat (src_reg ?j) + scast (off ?j) = reg ?st ! unat (dst_reg ?i) + scast (off ?i)" by code_simp+
  have "\<exists>st2. exec_action (prm prog_ret) ?j st1 (BPF_LD_REG 2) = Some (Next st2) \<and> reg st2 ! 0 = take_bit (8 * 2) 0x12345"
    using store_then_load [OF s _ a] by (auto simp: mk_insn_def)
  then show ?thesis using s by (auto simp: take_bit_eq_mod)
qed

end
