(* ===== verification/Mbuf_Props.thy ===== *)
theory Mbuf_Props
  imports BPF_Exec_Props
begin

text \<open>
  Reading from a packet that is split over a chain of mbufs gives the bytes of the packet, as if it
  were one piece, and the packet loads of the interpreter give their big-endian value.
\<close>

section \<open>Packets\<close>

text \<open>The data \<open>ds\<close> of the segments of the chain that begins at an address.\<close>

fun segs :: "mem \<Rightarrow> u64 \<Rightarrow> u8 list list \<Rightarrow> bool" where
  "segs m a [] = True"
| "segs m a (d # ds) = (\<exists>dl src nx. rte_pktmbuf_data_len m a = Some dl \<and> unat dl = length d \<and>
     rte_pktmbuf_mtod_offset m a 0 = Some src \<and> ld_bytes m src (length d) = Some d \<and>
     load m 8 (a + MBUF_NEXT) = Some nx \<and> segs m nx ds)"

definition packet :: "mem \<Rightarrow> u64 \<Rightarrow> u8 list list \<Rightarrow> bool" where
  "packet m mb ds \<longleftrightarrow> ds \<noteq> [] \<and> segs m mb ds \<and>
     (\<exists>pl. rte_pktmbuf_pkt_len m mb = Some pl \<and> unat pl = length (concat ds))"

lemma ld_bytes_part:
  "ld_bytes m a n = Some d \<Longrightarrow> k + j \<le> n \<Longrightarrow> ld_bytes m (a + of_nat k) j = Some (take j (drop k d))"
proof (induction n arbitrary: a k j d)
  case (Suc n)
  obtain b bs where b: "m a = Some b" "ld_bytes m (a + 1) n = Some bs" "d = b # bs"
    using Suc.prems(1) by (auto split: bind_splits)
  show ?case
  proof (cases k)
    case 0
    then show ?thesis
    proof (cases j)
      case (Suc j')
      have "ld_bytes m (a + 1) j' = Some (take j' bs)"
        using Suc.IH [OF b(2), of 0 j'] Suc.prems(2) 0 Suc by simp
      then show ?thesis using 0 Suc b by simp
    qed simp
  next
    case (Suc k')
    then show ?thesis using Suc.IH [OF b(2), of k' j] Suc.prems(2) b(3) by (simp add: add_ac)
  qed
qed simp

lemma mtod_offset_add:
  assumes "rte_pktmbuf_mtod_offset m a 0 = Some src"
  shows "rte_pktmbuf_mtod_offset m a ofs = Some (src + ucast ofs)"
  using assms by (auto simp: rte_pktmbuf_mtod_offset_def split: bind_splits)

text \<open>A piece of one segment.\<close>

lemma seg_piece:
  fixes ofs len :: u32
  assumes "segs m a (d # ds)" "unat ofs + unat len \<le> length d"
  shows "rte_pktmbuf_mtod_offset m a ofs \<bind> (\<lambda>src. ld_bytes m src (unat len)) =
    Some (take (unat len) (drop (unat ofs) d))"
proof -
  obtain src where s: "rte_pktmbuf_mtod_offset m a 0 = Some src" "ld_bytes m src (length d) = Some d"
    using assms(1) by auto
  have "(ucast ofs :: u64) = of_nat (unat ofs)" by simp
  then show ?thesis using mtod_offset_add [OF s(1)] ld_bytes_part [OF s(2) assms(2)] by simp
qed

section \<open>The loops\<close>

lemma skip_segs_ok:
  fixes ofs :: u32
  assumes "segs m a ds" "unat ofs < length (concat ds)"
  shows "\<exists>seg ofs' e es. skip_segs m a ofs = Some (seg, ofs') \<and> segs m seg (e # es) \<and>
    unat ofs' < length e \<and> unat ofs' \<le> unat ofs \<and> drop (unat ofs') (concat (e # es)) = drop (unat ofs) (concat ds)"
  using assms
proof (induction ds arbitrary: a ofs)
  case (Cons d ds)
  obtain dl nx where dl: "rte_pktmbuf_data_len m a = Some dl" "unat dl = length d"
    and nx: "load m 8 (a + MBUF_NEXT) = Some nx" "segs m nx ds" using Cons.prems(1) by auto
  show ?case
  proof (cases "ofs \<ge> dl")
    case False
    then have "skip_segs m a ofs = Some (a, ofs)" using dl by (simp add: skip_segs.simps)
    moreover have "unat ofs < length d" using False dl(2) by (simp add: word_le_nat_alt)
    ultimately show ?thesis using Cons.prems(1) by blast
  next
    case True
    then have u: "unat (ofs - dl) = unat ofs - length d" using dl(2) by (simp add: unat_sub)
    have l: "length d \<le> unat ofs" using True dl(2) by (simp add: word_le_nat_alt)
    have "skip_segs m a ofs = skip_segs m nx (ofs - dl)"
      using True dl(1) nx(1) by (subst skip_segs.simps) simp
    moreover have "drop (unat (ofs - dl)) (concat ds) = drop (unat ofs) (concat (d # ds))"
      using l u by simp
    moreover have "unat (ofs - dl) < length (concat ds)" using Cons.prems(2) u l by simp
    moreover have "unat (ofs - dl) \<le> unat ofs" using u by simp
    ultimately show ?thesis using Cons.IH [OF nx(2), of "ofs - dl"] by (metis order_trans)
  qed
qed simp

lemma copy_segs_ok:
  fixes ofs len :: u32
  assumes "segs m a ds" "ds \<noteq> [] \<longrightarrow> unat ofs \<le> length (hd ds)"
    and "unat ofs + unat len \<le> length (concat ds)"
  shows "copy_segs m a ofs len buf = Some (buf @ take (unat len) (drop (unat ofs) (concat ds)))"
  using assms
proof (induction ds arbitrary: a ofs len buf)
  case Nil
  then have "len = 0" by (simp add: unsigned_eq_0_iff)
  then show ?case by (subst copy_segs.simps) simp
next
  case (Cons d ds)
  obtain dl nx where dl: "rte_pktmbuf_data_len m a = Some dl" "unat dl = length d"
    and nx: "load m 8 (a + MBUF_NEXT) = Some nx" "segs m nx ds" using Cons.prems(1) by auto
  have o: "unat ofs \<le> length d" using Cons.prems(2) by simp
  then have "ofs \<le> dl" using dl(2) by (simp add: word_le_nat_alt)
  then have u: "unat (dl - ofs) = length d - unat ofs" using dl(2) by (simp add: unat_sub)
  define cl where "cl = (if dl - ofs > len then len else dl - ofs)"
  have cl: "unat cl = min (unat len) (length d - unat ofs)" "cl \<le> len"
    using u by (auto simp: cl_def word_less_nat_alt word_le_nat_alt)
  then have l: "unat (len - cl) = unat len - unat cl" by (simp add: unat_sub)
  have "unat ofs + unat cl \<le> length d" using o cl(1) by simp
  note piece = seg_piece [OF Cons.prems(1) this]
  show ?case
  proof (cases "len = 0")
    case True
    then show ?thesis by (subst copy_segs.simps) simp
  next
    case False
    then have "copy_segs m a ofs len buf =
        copy_segs m nx 0 (len - cl) (buf @ take (unat cl) (drop (unat ofs) d))"
      using dl(1) nx(1) piece
      by (subst copy_segs.simps) (auto simp: cl_def word_neq_0_conv [symmetric] split: bind_splits)
    also have "\<dots> = Some ((buf @ take (unat cl) (drop (unat ofs) d)) @
        take (unat (len - cl)) (drop (unat (0 :: u32)) (concat ds)))"
      by (rule Cons.IH [OF nx(2)]) (use Cons.prems(3) l cl(1) o in auto)
    also have "\<dots> = Some (buf @ take (unat len) (drop (unat ofs) (concat (d # ds))))"
      using l cl(1) o by (auto simp: min_def)
    finally show ?thesis .
  qed
qed

section \<open>The reader\<close>

text \<open>The bytes from \<open>k\<close> on of a packet, when there are that many.\<close>

definition packet_bytes :: "u8 list list \<Rightarrow> nat \<Rightarrow> nat \<Rightarrow> u8 list option" where
  "packet_bytes ds k n =
     (if k + n \<le> length (concat ds) then Some (take n (drop k (concat ds))) else None)"

lemma read_packet:
  assumes "packet m mb ds" and "0 < n" and "unat ofs + unat n < 2 ^ 32"
  shows "rte_pktmbuf_read m mb ofs n = Some (packet_bytes ds (unat ofs) (unat n))"
proof -
  obtain pl where ds: "ds \<noteq> []" "segs m mb ds" and pl: "rte_pktmbuf_pkt_len m mb = Some pl" "unat pl = length (concat ds)"
    using assms(1) by (auto simp: packet_def)
  obtain d ds' where d: "ds = d # ds'" using ds(1) by (cases ds) auto
  obtain dl where dl: "rte_pktmbuf_data_len m mb = Some dl" "unat dl = length d" using ds(2) d by auto
  have sum: "unat (ofs + n) = unat ofs + unat n" using assms(3) by (simp add: unat_word_ariths)
  have n0: "0 < unat n" using assms(2) by (simp add: word_less_nat_alt)
  show ?thesis
  proof (cases "ofs + n \<le> dl")
    case True
    then have le: "unat ofs + unat n \<le> length d" using sum dl(2) by (simp add: word_le_nat_alt)
    then show ?thesis
      using seg_piece [OF ds(2) [unfolded d] le] dl(1) True d
      by (auto simp: rte_pktmbuf_read_def packet_bytes_def split: bind_splits)
  next
    case False
    then have slow: "rte_pktmbuf_read m mb ofs n = rte_pktmbuf_read_slow m mb ofs n"
      using dl(1) by (simp add: rte_pktmbuf_read_def)
    show ?thesis
    proof (cases "unat ofs + unat n \<le> length (concat ds)")
      case False
      then have "ofs + n > pl" using sum pl(2) by (simp add: word_less_nat_alt)
      then show ?thesis using slow pl(1) False by (simp add: rte_pktmbuf_read_slow_def packet_bytes_def)
    next
      case True
      then have le: "\<not> ofs + n > pl" using sum pl(2) by (simp add: word_less_nat_alt)
      have "unat ofs < length (concat ds)" using True n0 by linarith
      then obtain seg o' e es where sk: "skip_segs m mb ofs = Some (seg, o')" "segs m seg (e # es)"
        "unat o' < length e" "unat o' \<le> unat ofs" and dr: "drop (unat o') (concat (e # es)) = drop (unat ofs) (concat ds)"
        using skip_segs_ok [OF ds(2)] by blast
      obtain el where el: "rte_pktmbuf_data_len m seg = Some el" "unat el = length e" using sk(2) by auto
      have len: "unat o' + unat n \<le> length (concat (e # es))"
        using arg_cong [OF dr, of length] True sk(3) by auto
      have sum': "unat (o' + n) = unat o' + unat n"
        using sk(4) assms(3) by (simp add: unat_word_ariths)
      have "rte_pktmbuf_read_slow m mb ofs n = Some (Some (take (unat n) (drop (unat o') (concat (e # es)))))"
      proof (cases "o' + n \<le> el")
        case True
        then have "unat o' + unat n \<le> length e" using sum' el(2) by (simp add: word_le_nat_alt)
        note piece = seg_piece [OF sk(2) this]
        show ?thesis
          using piece pl(1) le sk(1) el(1) True \<open>unat o' + unat n \<le> length e\<close>
          by (auto simp: rte_pktmbuf_read_slow_def split: bind_splits)
      next
        case False
        have "copy_segs m seg o' n [] = Some (take (unat n) (drop (unat o') (concat (e # es))))"
          using copy_segs_ok [OF sk(2) _ len, of "[]"] sk(3) by simp
        then show ?thesis using pl(1) le sk(1) el(1) False by (simp add: rte_pktmbuf_read_slow_def)
      qed
      then show ?thesis unfolding slow dr packet_bytes_def using True by simp
    qed
  qed
qed

text \<open>The code compares the 32-bit sum of the offset and the length.\<close>

lemma read_null_iff:
  assumes "packet m mb ds"
  shows "rte_pktmbuf_read m mb ofs n = Some None \<longleftrightarrow> length (concat ds) < unat (ofs + n)"
proof -
  obtain pl where ds: "ds \<noteq> []" "segs m mb ds" and pl: "rte_pktmbuf_pkt_len m mb = Some pl" "unat pl = length (concat ds)"
    using assms by (auto simp: packet_def)
  obtain d ds' where d: "ds = d # ds'" using ds(1) by (cases ds) auto
  obtain dl where dl: "rte_pktmbuf_data_len m mb = Some dl" "unat dl = length d" using ds(2) d by auto
  have le: "ofs + n \<le> dl \<longleftrightarrow> unat (ofs + n) \<le> length d" "ofs + n > pl \<longleftrightarrow> length (concat ds) < unat (ofs + n)"
    using dl(2) pl(2) by (simp_all add: word_le_nat_alt word_less_nat_alt)
  show ?thesis
  proof (cases "ofs + n \<le> dl")
    case True
    then have "rte_pktmbuf_read m mb ofs n \<noteq> Some None" using dl(1) by (simp add: rte_pktmbuf_read_def split: bind_splits)
    moreover have "\<not> length (concat ds) < unat (ofs + n)" using True le(1) d by simp
    ultimately show ?thesis by simp
  next
    case False
    then have "rte_pktmbuf_read m mb ofs n = rte_pktmbuf_read_slow m mb ofs n" using dl(1) by (simp add: rte_pktmbuf_read_def)
    then show ?thesis using le(2) pl(1) by (auto simp: rte_pktmbuf_read_slow_def split: bind_splits if_splits)
  qed
qed

lemma read_wrapped:
  assumes "packet m mb ds" and "unat (ofs + n) \<le> length (hd ds)"
  shows "rte_pktmbuf_read m mb ofs n = rte_pktmbuf_mtod_offset m mb 0 \<bind> (\<lambda>a. map_option Some (ld_bytes m (a + ucast ofs) (unat n)))"
proof -
  obtain d ds' where d: "ds = d # ds'" "segs m mb ds" using assms(1) by (cases ds) (auto simp: packet_def)
  obtain dl src where dl: "rte_pktmbuf_data_len m mb = Some dl" "unat dl = length d" "rte_pktmbuf_mtod_offset m mb 0 = Some src"
    using d by auto
  have "ofs + n \<le> dl" using assms(2) dl(2) d(1) by (simp add: word_le_nat_alt)
  then show ?thesis using dl(1,3) mtod_offset_add [OF dl(3), of ofs] by (auto simp: rte_pktmbuf_read_def split: bind_splits)
qed

text \<open>
  C14: reading \<open>n\<close> bytes (at least one) at an offset of a packet. While the offset and the length together fit 32 bits, the result is these
  bytes of the packet, however it is split into segments, or the null pointer when the packet is too short. The code adds
  them in 32 bits: in all cases the result is null exactly when the wrapped sum is beyond the packet, and when the sum wraps around to a value
  within the first segment the bytes at that offset from its data are read, which are outside it.
\<close>

theorem pktmbuf_read_ok:
  assumes "packet m mb ds" and "0 < n"
  shows "(unat ofs + unat n < 2 ^ 32 \<longrightarrow> rte_pktmbuf_read m mb ofs n = Some (packet_bytes ds (unat ofs) (unat n))) \<and>
    (rte_pktmbuf_read m mb ofs n = Some None \<longleftrightarrow> length (concat ds) < unat (ofs + n)) \<and>
    (2 ^ 32 \<le> unat ofs + unat n \<and> unat (ofs + n) \<le> length (hd ds) \<longrightarrow>
      rte_pktmbuf_read m mb ofs n = rte_pktmbuf_mtod_offset m mb 0 \<bind> (\<lambda>a. map_option Some (ld_bytes m (a + ucast ofs) (unat n))))"
  using read_packet [OF assms] read_null_iff [OF assms(1)] read_wrapped [OF assms(1)] by blast

text \<open>A packet of two segments, of three and of two bytes.\<close>

fun fields :: "u64 \<Rightarrow> u8 list \<Rightarrow> (u64 \<times> u8) list" where
  "fields a [] = []"
| "fields a (b # bs) = (a, b) # fields (a + 1) bs"

definition two_segs :: mem where
  "two_segs = map_of (
     fields (0x100 + MBUF_BUF_ADDR) (le_bytes 8 0x300) @ fields (0x100 + MBUF_DATA_OFF) (le_bytes 2 0x10) @
     fields (0x100 + MBUF_PKT_LEN) (le_bytes 4 5) @ fields (0x100 + MBUF_DATA_LEN) (le_bytes 2 3) @
     fields (0x100 + MBUF_NEXT) (le_bytes 8 0x200) @
     fields (0x200 + MBUF_BUF_ADDR) (le_bytes 8 0x400) @ fields (0x200 + MBUF_DATA_OFF) (le_bytes 2 0) @
     fields (0x200 + MBUF_DATA_LEN) (le_bytes 2 2) @ fields (0x200 + MBUF_NEXT) (le_bytes 8 0) @
     fields 0x310 [1, 2, 3] @ fields 0x400 [4, 5])"

lemma two_segs_packet: "packet two_segs 0x100 [[1, 2, 3], [4, 5]]"
proof -
  have "rte_pktmbuf_data_len two_segs 0x100 = Some 3" "rte_pktmbuf_mtod_offset two_segs 0x100 0 = Some 0x310"
    "ld_bytes two_segs 0x310 (Suc (Suc (Suc 0))) = Some [1, 2, 3]" "load two_segs 8 (0x100 + MBUF_NEXT) = Some 0x200"
    "rte_pktmbuf_data_len two_segs 0x200 = Some 2" "rte_pktmbuf_mtod_offset two_segs 0x200 0 = Some 0x400"
    "ld_bytes two_segs 0x400 (Suc (Suc 0)) = Some [4, 5]" "load two_segs 8 (0x200 + MBUF_NEXT) = Some 0"
    "rte_pktmbuf_pkt_len two_segs 0x100 = Some 5"
    by code_simp+
  then show ?thesis by (simp add: packet_def del: ld_bytes.simps)
qed

theorem pktmbuf_read_ok_witness:
  "rte_pktmbuf_read two_segs 0x100 1 4 = Some (Some [2, 3, 4, 5]) \<and>
   rte_pktmbuf_read two_segs 0x100 2 4 = Some None \<and>
   rte_pktmbuf_read two_segs 0x100 0xffffffff 2 \<noteq> Some None"
  using pktmbuf_read_ok [OF two_segs_packet, of 4 1] pktmbuf_read_ok [OF two_segs_packet, of 4 2]
    conjunct1 [OF conjunct2 [OF pktmbuf_read_ok [OF two_segs_packet, of 2 "0xffffffff"]]]
  by (simp add: packet_bytes_def)

section \<open>The packet loads of the interpreter\<close>

text \<open>
  C15: the instruction that loads from an absolute packet offset puts the big-endian value of these
  bytes of the packet into R0, and ends the program with the result 0 when the packet is too short.
\<close>

theorem ld_abs_reads_packet:
  assumes "packet (emem st) (reg st ! 6) ds" and "6 < length (reg st)"
    and "0 < n" and "n \<le> 4" and "imm i \<le> INT32_MAX"
  shows "exec_action p i st (BPF_LD_ABS n) = Some (case packet_bytes ds (unat (imm i)) n of
      None \<Rightarrow> Return 0 (emem st)
    | Some bs \<Rightarrow> Next (st\<lparr>reg := (reg st)[0 := be_val bs], pc := pc st + 1\<rparr>))"
proof -
  have n: "unat (of_nat n :: u32) = n" using assms(4) by (simp add: unat_of_nat)
  have "unat (imm i) < 2 ^ 31" using assms(5) by (simp add: word_le_nat_alt)
  then have "rte_pktmbuf_read (emem st) (reg st ! 6) (imm i) (of_nat n) = Some (packet_bytes ds (unat (imm i)) n)"
    using read_packet [OF assms(1), of "of_nat n" "imm i"] n assms(3,4)
    by (simp add: word_less_nat_alt)
  then show ?thesis using assms(2)
    by (auto simp: ld_mbuf_to_r0_def bpf_ld_mbuf_def nth_opt_lt wr_reg_def upd_opt_def next_ins_def
        split: option.split)
qed

theorem ld_abs_reads_packet_witness:
  "exec_action (prm prog_ret) (mk_insn 0x28 0 0 0 2)
     \<lparr>pc = 0, reg = [0, 0, 0, 0, 0, 0, 0x100, 0, 0, 0, 0], emem = two_segs\<rparr> (BPF_LD_ABS 2) =
   Some (Next \<lparr>pc = 1, reg = [0x0304, 0, 0, 0, 0, 0, 0x100, 0, 0, 0, 0], emem = two_segs\<rparr>)"
proof -
  let ?st = "\<lparr>pc = 0, reg = [0, 0, 0, 0, 0, 0, 0x100, 0, 0, 0, 0], emem = two_segs\<rparr> :: exec_st"
  have "packet (emem ?st) (reg ?st ! 6) [[1, 2, 3], [4, 5]]" using two_segs_packet by simp
  from ld_abs_reads_packet [OF this, of 2 "mk_insn 0x28 0 0 0 2" "prm prog_ret"]
  show ?thesis by (simp add: packet_bytes_def mk_insn_def)
qed

end
