(* ===== verification/Cirbuf.thy ===== *)
theory Cirbuf
  imports Cstring
begin

text \<open>
  The circular character buffer of the command line library: \<open>lib/cmdline/cmdline_cirbuf.c\<close> and
  \<open>.h\<close>. The fields are \<open>unsigned int\<close>; \<open>buf\<close> is the memory the C field points to, as a list that may be
  longer than \<open>maxlen\<close>. A function returns the new buffer and its \<open>int\<close> result; it is \<open>None\<close> where
  the C code accesses memory outside \<open>buf\<close> or outside the caller's array, or takes a remainder by
  zero. The tests of the C functions for a null pointer have no counterpart: a buffer and an array
  are values here.
\<close>

section \<open>The structure\<close>

record cirbuf =
  maxlen :: u32
  cstart :: u32
  cend :: u32
  clen :: u32
  buf :: "u8 list"

abbreviation (input) CIRBUF_EINVAL :: u32 where "CIRBUF_EINVAL \<equiv> - 22"

definition CIRBUF_IS_FULL :: "cirbuf \<Rightarrow> bool" where "CIRBUF_IS_FULL cb = (maxlen cb = clen cb)"
definition CIRBUF_IS_EMPTY :: "cirbuf \<Rightarrow> bool" where "CIRBUF_IS_EMPTY cb = (clen cb = 0)"
definition CIRBUF_GET_FREELEN :: "cirbuf \<Rightarrow> u32" where "CIRBUF_GET_FREELEN cb = maxlen cb - clen cb"

definition cirbuf_init :: "u8 list \<Rightarrow> u32 \<Rightarrow> u32 \<Rightarrow> cirbuf" where
  "cirbuf_init b start n = \<lparr>maxlen = n, cstart = start, cend = start, clen = 0, buf = b\<rparr>"

text \<open>\<open>a % b\<close>, one byte of the buffer, and \<open>memcpy\<close> into and out of an array.\<close>

definition umod :: "u32 \<Rightarrow> u32 \<Rightarrow> u32 option" where
  "umod a b = (if b = 0 then None else Some (a mod b))"

definition get_c :: "cirbuf \<Rightarrow> u32 \<Rightarrow> u8 option" where
  "get_c cb i = nth_opt (buf cb) (unat i)"

definition put_c :: "cirbuf \<Rightarrow> u32 \<Rightarrow> u8 \<Rightarrow> cirbuf option" where
  "put_c cb i c = map_option (\<lambda>b. cb\<lparr>buf := b\<rparr>) (upd_opt (buf cb) (unat i) c)"

definition slice_of :: "'a list \<Rightarrow> nat \<Rightarrow> nat \<Rightarrow> 'a list option" where
  "slice_of xs k n = (if k + n \<le> length xs then Some (take n (drop k xs)) else None)"

definition memcpy_in :: "cirbuf \<Rightarrow> u32 \<Rightarrow> u8 list \<Rightarrow> u32 \<Rightarrow> u32 \<Rightarrow> cirbuf option" where
  "memcpy_in cb d c s n = do {
     xs \<leftarrow> slice_of c (unat s) (unat n);
     b \<leftarrow> blit (buf cb) (unat d) xs;
     Some (cb\<lparr>buf := b\<rparr>) }"

definition memcpy_out :: "u8 list \<Rightarrow> u32 \<Rightarrow> cirbuf \<Rightarrow> u32 \<Rightarrow> u32 \<Rightarrow> u8 list option" where
  "memcpy_out c d cb s n = do {
     xs \<leftarrow> slice_of (buf cb) (unat s) (unat n);
     blit c (unat d) xs }"

section \<open>Adding\<close>

definition empty_bit :: "cirbuf \<Rightarrow> u32" where
  "empty_bit cb = (if CIRBUF_IS_EMPTY cb then 1 else 0)"

definition cirbuf_add_buf_head :: "cirbuf \<Rightarrow> u8 list \<Rightarrow> u32 \<Rightarrow> (cirbuf \<times> u32) option" where
  "cirbuf_add_buf_head cb c n =
     (if n = 0 \<or> n > CIRBUF_GET_FREELEN cb then Some (cb, CIRBUF_EINVAL)
      else do {
        e \<leftarrow> Some (empty_bit cb);
        cb1 \<leftarrow> (if n < cstart cb + e
                then memcpy_in cb (cstart cb - n + e) c 0 n
                else do {
                  cb1 \<leftarrow> memcpy_in cb 0 c (n - (cstart cb + e)) (cstart cb + e);
                  memcpy_in cb1 (maxlen cb - n + (cstart cb + e)) c 0 (n - (cstart cb + e)) });
        s \<leftarrow> umod (cstart cb + (maxlen cb - n + e)) (maxlen cb);
        Some (cb1\<lparr>clen := clen cb + n, cstart := s\<rparr>, n) })"

definition cirbuf_add_buf_tail :: "cirbuf \<Rightarrow> u8 list \<Rightarrow> u32 \<Rightarrow> (cirbuf \<times> u32) option" where
  "cirbuf_add_buf_tail cb c n =
     (if n = 0 \<or> n > CIRBUF_GET_FREELEN cb then Some (cb, CIRBUF_EINVAL)
      else do {
        e \<leftarrow> Some (empty_bit cb);
        ne \<leftarrow> Some (1 - e);
        cb1 \<leftarrow> (if n < maxlen cb - cend cb - 1 + e
                then memcpy_in cb (cend cb + ne) c 0 n
                else do {
                  cb1 \<leftarrow> memcpy_in cb (cend cb + ne) c 0 (maxlen cb - cend cb - 1 + e);
                  memcpy_in cb1 0 c (maxlen cb - cend cb - 1 + e) (n - maxlen cb + cend cb + 1 - e) });
        t \<leftarrow> umod (cend cb + (n - e)) (maxlen cb);
        Some (cb1\<lparr>clen := clen cb + n, cend := t\<rparr>, n) })"

definition cirbuf_add_head :: "cirbuf \<Rightarrow> u8 \<Rightarrow> cirbuf option" where
  "cirbuf_add_head cb c = do {
     s \<leftarrow> (if CIRBUF_IS_EMPTY cb then Some (cstart cb) else umod (cstart cb + (maxlen cb - 1)) (maxlen cb));
     cb1 \<leftarrow> put_c (cb\<lparr>cstart := s\<rparr>) s c;
     Some (cb1\<lparr>clen := clen cb1 + 1\<rparr>) }"

definition cirbuf_add_head_safe :: "cirbuf \<Rightarrow> u8 \<Rightarrow> (cirbuf \<times> u32) option" where
  "cirbuf_add_head_safe cb c =
     (if \<not> CIRBUF_IS_FULL cb then do { cb1 \<leftarrow> cirbuf_add_head cb c; Some (cb1, 0) }
      else Some (cb, CIRBUF_EINVAL))"

definition cirbuf_add_tail :: "cirbuf \<Rightarrow> u8 \<Rightarrow> cirbuf option" where
  "cirbuf_add_tail cb c = do {
     t \<leftarrow> (if CIRBUF_IS_EMPTY cb then Some (cend cb) else umod (cend cb + 1) (maxlen cb));
     cb1 \<leftarrow> put_c (cb\<lparr>cend := t\<rparr>) t c;
     Some (cb1\<lparr>clen := clen cb1 + 1\<rparr>) }"

definition cirbuf_add_tail_safe :: "cirbuf \<Rightarrow> u8 \<Rightarrow> (cirbuf \<times> u32) option" where
  "cirbuf_add_tail_safe cb c =
     (if \<not> CIRBUF_IS_FULL cb then do { cb1 \<leftarrow> cirbuf_add_tail cb c; Some (cb1, 0) }
      else Some (cb, CIRBUF_EINVAL))"

section \<open>Alignment\<close>

text \<open>The copy loops, from \<open>i\<close> on; \<open>k\<close> turns are left.\<close>

fun shift_left_loop :: "nat \<Rightarrow> u32 \<Rightarrow> cirbuf \<Rightarrow> cirbuf option" where
  "shift_left_loop 0 i cb = Some cb"
| "shift_left_loop (Suc k) i cb = do {
     s \<leftarrow> umod (cstart cb + i + 1) (maxlen cb);
     d \<leftarrow> umod (cstart cb + i) (maxlen cb);
     c \<leftarrow> get_c cb s;
     cb1 \<leftarrow> put_c cb d c;
     shift_left_loop k (i + 1) cb1 }"

definition cirbuf_shift_left :: "cirbuf \<Rightarrow> cirbuf option" where
  "cirbuf_shift_left cb = do {
     tmp \<leftarrow> get_c cb (cstart cb);
     cb1 \<leftarrow> shift_left_loop (unat (clen cb)) 0 cb;
     d \<leftarrow> umod (cstart cb - 1 + maxlen cb) (maxlen cb);
     cb2 \<leftarrow> put_c cb1 d tmp;
     s \<leftarrow> umod (cstart cb + (maxlen cb - 1)) (maxlen cb);
     t \<leftarrow> umod (cend cb + (maxlen cb - 1)) (maxlen cb);
     Some (cb2\<lparr>cstart := s, cend := t\<rparr>) }"

fun shift_right_loop :: "nat \<Rightarrow> u32 \<Rightarrow> cirbuf \<Rightarrow> cirbuf option" where
  "shift_right_loop 0 i cb = Some cb"
| "shift_right_loop (Suc k) i cb = do {
     s \<leftarrow> umod (cend cb + maxlen cb - i - 1) (maxlen cb);
     d \<leftarrow> umod (cend cb + maxlen cb - i) (maxlen cb);
     c \<leftarrow> get_c cb s;
     cb1 \<leftarrow> put_c cb d c;
     shift_right_loop k (i + 1) cb1 }"

definition cirbuf_shift_right :: "cirbuf \<Rightarrow> cirbuf option" where
  "cirbuf_shift_right cb = do {
     tmp \<leftarrow> get_c cb (cend cb);
     cb1 \<leftarrow> shift_right_loop (unat (clen cb)) 0 cb;
     d \<leftarrow> umod (cend cb + 1) (maxlen cb);
     cb2 \<leftarrow> put_c cb1 d tmp;
     s \<leftarrow> umod (cstart cb + 1) (maxlen cb);
     t \<leftarrow> umod (cend cb + 1) (maxlen cb);
     Some (cb2\<lparr>cstart := s, cend := t\<rparr>) }"

text \<open>The \<open>while\<close> loops of the two alignments; they need not end on a buffer that is not well formed.\<close>

partial_function (option) shift_while ::
  "(cirbuf \<Rightarrow> bool) \<Rightarrow> (cirbuf \<Rightarrow> cirbuf option) \<Rightarrow> cirbuf \<Rightarrow> cirbuf option" where
  "shift_while test step cb =
     (if test cb then do { cb1 \<leftarrow> step cb; shift_while test step cb1 } else Some cb)"

declare shift_while.simps [code]

definition cirbuf_align_left :: "cirbuf \<Rightarrow> (cirbuf \<times> u32) option" where
  "cirbuf_align_left cb = do {
     cb1 \<leftarrow> (if cstart cb < maxlen cb div 2
             then shift_while (\<lambda>b. cstart b \<noteq> 0) cirbuf_shift_left cb
             else shift_while (\<lambda>b. cstart b \<noteq> 0) cirbuf_shift_right cb);
     Some (cb1, 0) }"

definition cirbuf_align_right :: "cirbuf \<Rightarrow> (cirbuf \<times> u32) option" where
  "cirbuf_align_right cb = do {
     cb1 \<leftarrow> (if cstart cb \<ge> maxlen cb div 2
             then shift_while (\<lambda>b. cend b \<noteq> maxlen b - 1) cirbuf_shift_left cb
             else shift_while (\<lambda>b. cstart b \<noteq> maxlen b - 1) cirbuf_shift_right cb);
     Some (cb1, 0) }"

section \<open>Deleting\<close>

definition cirbuf_del_buf_head :: "cirbuf \<Rightarrow> u32 \<Rightarrow> (cirbuf \<times> u32) option" where
  "cirbuf_del_buf_head cb siz =
     (if siz = 0 \<or> siz > clen cb then Some (cb, CIRBUF_EINVAL)
      else do {
        cb1 \<leftarrow> Some (cb\<lparr>clen := clen cb - siz\<rparr>);
        s \<leftarrow> umod (cstart cb + (if CIRBUF_IS_EMPTY cb1 then siz - 1 else siz)) (maxlen cb);
        Some (cb1\<lparr>cstart := s\<rparr>, 0) })"

definition cirbuf_del_buf_tail :: "cirbuf \<Rightarrow> u32 \<Rightarrow> (cirbuf \<times> u32) option" where
  "cirbuf_del_buf_tail cb siz =
     (if siz = 0 \<or> siz > clen cb then Some (cb, CIRBUF_EINVAL)
      else do {
        cb1 \<leftarrow> Some (cb\<lparr>clen := clen cb - siz\<rparr>);
        t \<leftarrow> umod (cend cb + (if CIRBUF_IS_EMPTY cb1 then maxlen cb - siz + 1 else maxlen cb - siz)) (maxlen cb);
        Some (cb1\<lparr>cend := t\<rparr>, 0) })"

definition cirbuf_del_head :: "cirbuf \<Rightarrow> cirbuf option" where
  "cirbuf_del_head cb = do {
     cb1 \<leftarrow> Some (cb\<lparr>clen := clen cb - 1\<rparr>);
     (if CIRBUF_IS_EMPTY cb1 then Some cb1
      else do { s \<leftarrow> umod (cstart cb + 1) (maxlen cb); Some (cb1\<lparr>cstart := s\<rparr>) }) }"

definition cirbuf_del_head_safe :: "cirbuf \<Rightarrow> (cirbuf \<times> u32) option" where
  "cirbuf_del_head_safe cb =
     (if \<not> CIRBUF_IS_EMPTY cb then do { cb1 \<leftarrow> cirbuf_del_head cb; Some (cb1, 0) }
      else Some (cb, CIRBUF_EINVAL))"

definition cirbuf_del_tail :: "cirbuf \<Rightarrow> cirbuf option" where
  "cirbuf_del_tail cb = do {
     cb1 \<leftarrow> Some (cb\<lparr>clen := clen cb - 1\<rparr>);
     (if CIRBUF_IS_EMPTY cb1 then Some cb1
      else do { t \<leftarrow> umod (cend cb + (maxlen cb - 1)) (maxlen cb); Some (cb1\<lparr>cend := t\<rparr>) }) }"

definition cirbuf_del_tail_safe :: "cirbuf \<Rightarrow> (cirbuf \<times> u32) option" where
  "cirbuf_del_tail_safe cb =
     (if \<not> CIRBUF_IS_EMPTY cb then do { cb1 \<leftarrow> cirbuf_del_tail cb; Some (cb1, 0) }
      else Some (cb, CIRBUF_EINVAL))"

section \<open>Reading\<close>

text \<open>\<open>c\<close> is the array the characters are copied to; the results are the array and the count.\<close>

definition cirbuf_get_buf_head :: "cirbuf \<Rightarrow> u8 list \<Rightarrow> u32 \<Rightarrow> (u8 list \<times> u32) option" where
  "cirbuf_get_buf_head cb c siz = do {
     n \<leftarrow> Some (if siz < clen cb then siz else clen cb);
     (if n = 0 then Some (c, 0)
      else do {
        c1 \<leftarrow> (if cstart cb \<le> cend cb then memcpy_out c 0 cb (cstart cb) n
               else if n \<le> maxlen cb - cstart cb then memcpy_out c 0 cb (cstart cb) n
               else do {
                 c1 \<leftarrow> memcpy_out c 0 cb (cstart cb) (maxlen cb - cstart cb);
                 memcpy_out c1 (maxlen cb - cstart cb) cb 0 (n - maxlen cb + cstart cb) });
        Some (c1, n) }) }"

definition cirbuf_get_buf_tail :: "cirbuf \<Rightarrow> u8 list \<Rightarrow> u32 \<Rightarrow> (u8 list \<times> u32) option" where
  "cirbuf_get_buf_tail cb c siz = do {
     n \<leftarrow> Some (if siz < clen cb then siz else clen cb);
     (if n = 0 then Some (c, 0)
      else do {
        c1 \<leftarrow> (if cstart cb \<le> cend cb then memcpy_out c 0 cb (cend cb - n + 1) n
               else if n \<le> cend cb + 1 then memcpy_out c 0 cb (cend cb - n + 1) n
               else do {
                 c1 \<leftarrow> memcpy_out c (maxlen cb - cstart cb) cb 0 (cend cb + 1);
                 memcpy_out c1 0 cb (maxlen cb - n + cend cb + 1) (n - cend cb - 1) });
        Some (c1, n) }) }"

definition cirbuf_get_head :: "cirbuf \<Rightarrow> u8 option" where
  "cirbuf_get_head cb = get_c cb (cstart cb)"

definition cirbuf_get_tail :: "cirbuf \<Rightarrow> u8 option" where
  "cirbuf_get_tail cb = get_c cb (cend cb)"

end
