(* ===== verification/Vt100.thy ===== *)
theory Vt100
  imports Prelude
begin

text \<open>
  The parser of terminal control sequences: \<open>lib/cmdline/cmdline_vt100.c\<close> and \<open>.h\<close>. A character is a
  byte; the result of the parser is an \<open>int\<close>: -2 inside a sequence, -1 for a character that is no
  command, else the number of the command. \<open>None\<close> is a write outside \<open>buf\<close>. The null pointer test
  has no counterpart.
\<close>

section \<open>The structure\<close>

datatype cmdline_vt100_parser_state = CMDLINE_VT100_INIT | CMDLINE_VT100_ESCAPE | CMDLINE_VT100_ESCAPE_CSI

definition CMDLINE_VT100_BUF_SIZE :: nat where "CMDLINE_VT100_BUF_SIZE = 8"

record cmdline_vt100 =
  bufpos :: u8
  vtbuf :: "u8 list"
  vtstate :: cmdline_vt100_parser_state

section \<open>The sequences\<close>

abbreviation (input) ESC :: u8 where "ESC \<equiv> 0x1B"

definition vt100_bs :: "u8 list" where "vt100_bs = [0x08]"
definition vt100_tab :: "u8 list" where "vt100_tab = [0x09]"
definition vt100_clear_right :: "u8 list" where "vt100_clear_right = [ESC, 0x5B, 0x30, 0x4B]"
definition vt100_up_arr :: "u8 list" where "vt100_up_arr = [ESC, 0x5B, 0x41]"
definition vt100_down_arr :: "u8 list" where "vt100_down_arr = [ESC, 0x5B, 0x42]"
definition vt100_right_arr :: "u8 list" where "vt100_right_arr = [ESC, 0x5B, 0x43]"
definition vt100_left_arr :: "u8 list" where "vt100_left_arr = [ESC, 0x5B, 0x44]"
definition vt100_multi_right :: "u8 list" where "vt100_multi_right = [ESC, 0x5B, 0x25, 0x75, 0x43]"
definition vt100_multi_left :: "u8 list" where "vt100_multi_left = [ESC, 0x5B, 0x25, 0x75, 0x44]"
definition vt100_suppr :: "u8 list" where "vt100_suppr = [ESC, 0x5B, 0x33, 0x7E]"
definition vt100_home :: "u8 list" where "vt100_home = [ESC, 0x4D, ESC, 0x45]"
definition vt100_word_left :: "u8 list" where "vt100_word_left = [ESC, 0x62]"
definition vt100_word_right :: "u8 list" where "vt100_word_right = [ESC, 0x66]"

definition cmdline_vt100_commands :: "u8 list list" where
  "cmdline_vt100_commands =
     [vt100_up_arr, vt100_down_arr, vt100_right_arr, vt100_left_arr, [0x7F], [0x0A], [0x01], [0x05], [0x0B],
      [0x19], [0x03], [0x06], [0x02], vt100_suppr, vt100_tab, [0x04], [0x0C], [0x0D], [ESC, 0x7F],
      vt100_word_left, vt100_word_right, [0x3F], [0x17], [0x10], [0x0E], [ESC, 0x64], vt100_bs]"

text \<open>The keys, in the order of the table.\<close>

abbreviation (input) "CMDLINE_KEY_UP_ARR \<equiv> 0 :: int"
abbreviation (input) "CMDLINE_KEY_DOWN_ARR \<equiv> 1 :: int"
abbreviation (input) "CMDLINE_KEY_RIGHT_ARR \<equiv> 2 :: int"
abbreviation (input) "CMDLINE_KEY_LEFT_ARR \<equiv> 3 :: int"
abbreviation (input) "CMDLINE_KEY_BKSPACE \<equiv> 4 :: int"
abbreviation (input) "CMDLINE_KEY_RETURN \<equiv> 5 :: int"
abbreviation (input) "CMDLINE_KEY_CTRL_A \<equiv> 6 :: int"
abbreviation (input) "CMDLINE_KEY_CTRL_E \<equiv> 7 :: int"
abbreviation (input) "CMDLINE_KEY_CTRL_K \<equiv> 8 :: int"
abbreviation (input) "CMDLINE_KEY_CTRL_Y \<equiv> 9 :: int"
abbreviation (input) "CMDLINE_KEY_CTRL_C \<equiv> 10 :: int"
abbreviation (input) "CMDLINE_KEY_CTRL_F \<equiv> 11 :: int"
abbreviation (input) "CMDLINE_KEY_CTRL_B \<equiv> 12 :: int"
abbreviation (input) "CMDLINE_KEY_SUPPR \<equiv> 13 :: int"
abbreviation (input) "CMDLINE_KEY_TAB \<equiv> 14 :: int"
abbreviation (input) "CMDLINE_KEY_CTRL_D \<equiv> 15 :: int"
abbreviation (input) "CMDLINE_KEY_CTRL_L \<equiv> 16 :: int"
abbreviation (input) "CMDLINE_KEY_RETURN2 \<equiv> 17 :: int"
abbreviation (input) "CMDLINE_KEY_META_BKSPACE \<equiv> 18 :: int"
abbreviation (input) "CMDLINE_KEY_WLEFT \<equiv> 19 :: int"
abbreviation (input) "CMDLINE_KEY_WRIGHT \<equiv> 20 :: int"
abbreviation (input) "CMDLINE_KEY_HELP \<equiv> 21 :: int"
abbreviation (input) "CMDLINE_KEY_CTRL_W \<equiv> 22 :: int"
abbreviation (input) "CMDLINE_KEY_CTRL_P \<equiv> 23 :: int"
abbreviation (input) "CMDLINE_KEY_CTRL_N \<equiv> 24 :: int"
abbreviation (input) "CMDLINE_KEY_META_D \<equiv> 25 :: int"
abbreviation (input) "CMDLINE_KEY_BKSPACE2 \<equiv> 26 :: int"

section \<open>The parser\<close>

definition vt100_init :: "cmdline_vt100 \<Rightarrow> cmdline_vt100" where
  "vt100_init vt = vt\<lparr>vtstate := CMDLINE_VT100_INIT\<rparr>"

text \<open>The first command that is exactly the first \<open>sz\<close> characters of the buffer; \<open>i\<close> counts.\<close>

fun match_from :: "u8 list list \<Rightarrow> int \<Rightarrow> u8 list \<Rightarrow> nat \<Rightarrow> int" where
  "match_from [] i b sz = -1"
| "match_from (cmd # cmds) i b sz =
     (if sz = length cmd \<and> take sz b = cmd then i else match_from cmds (i + 1) b sz)"

definition match_command :: "u8 list \<Rightarrow> nat \<Rightarrow> int" where
  "match_command b sz = match_from cmdline_vt100_commands 0 b sz"

definition vt100_parser :: "cmdline_vt100 \<Rightarrow> u8 \<Rightarrow> (cmdline_vt100 \<times> int) option" where
  "vt100_parser vt c = do {
     vt \<leftarrow> Some (if unat (bufpos vt) \<ge> CMDLINE_VT100_BUF_SIZE
                then vt\<lparr>vtstate := CMDLINE_VT100_INIT, bufpos := 0\<rparr> else vt);
     b \<leftarrow> upd_opt (vtbuf vt) (unat (bufpos vt)) c;
     vt \<leftarrow> Some (vt\<lparr>vtbuf := b, bufpos := bufpos vt + 1\<rparr>);
     Some (case vtstate vt of
         CMDLINE_VT100_INIT \<Rightarrow>
           (if c = ESC then (vt\<lparr>vtstate := CMDLINE_VT100_ESCAPE\<rparr>, -2)
            else (vt\<lparr>bufpos := 0\<rparr>, match_command b (unat (bufpos vt))))
       | CMDLINE_VT100_ESCAPE \<Rightarrow>
           (if c = 0x5B then (vt\<lparr>vtstate := CMDLINE_VT100_ESCAPE_CSI\<rparr>, -2)
            else if c \<ge> 0x30 \<and> c \<le> 0x7F
            then (vt\<lparr>bufpos := 0, vtstate := CMDLINE_VT100_INIT\<rparr>, match_command b (unat (bufpos vt)))
            else (vt, -2))
       | CMDLINE_VT100_ESCAPE_CSI \<Rightarrow>
           (if c \<ge> 0x40 \<and> c \<le> 0x7E
            then (vt\<lparr>bufpos := 0, vtstate := CMDLINE_VT100_INIT\<rparr>, match_command b (unat (bufpos vt)))
            else (vt, -2))) }"

text \<open>A run of the parser over several characters, with the result of each.\<close>

fun vt100_run :: "cmdline_vt100 \<Rightarrow> u8 list \<Rightarrow> (cmdline_vt100 \<times> int list) option" where
  "vt100_run vt [] = Some (vt, [])"
| "vt100_run vt (c # cs) = do {
     (vt1, r) \<leftarrow> vt100_parser vt c;
     (vt2, rs) \<leftarrow> vt100_run vt1 cs;
     Some (vt2, r # rs) }"

section \<open>Properties\<close>

text \<open>
  The state between two characters: outside a sequence nothing is buffered, inside one the buffer has
  its first characters.
\<close>

definition wf_vt :: "cmdline_vt100 \<Rightarrow> bool" where
  "wf_vt vt \<longleftrightarrow> length (vtbuf vt) = CMDLINE_VT100_BUF_SIZE \<and> unat (bufpos vt) \<le> CMDLINE_VT100_BUF_SIZE \<and>
     (case vtstate vt of
        CMDLINE_VT100_INIT \<Rightarrow> True
      | CMDLINE_VT100_ESCAPE \<Rightarrow> bufpos vt \<noteq> 0
      | CMDLINE_VT100_ESCAPE_CSI \<Rightarrow> unat (bufpos vt) \<ge> 2)"

lemma match_from_bounds:
  "match_from cmds i b n = -1 \<or> i \<le> match_from cmds i b n \<and> match_from cmds i b n < i + int (length cmds)"
  by (induction cmds arbitrary: i) (auto, (smt (verit))+)

lemma match_command_bounds: "-2 \<le> match_command b n" "-1 \<le> match_command b n" "match_command b n \<le> CMDLINE_KEY_BKSPACE2"
  using match_from_bounds [of cmdline_vt100_commands 0 b n]
  by (auto simp: match_command_def cmdline_vt100_commands_def)

lemma match_take: "match_command (take n b) n = match_command b n"
proof -
  have "match_from cmds i (take n b) n = match_from cmds i b n" for cmds i
    by (induction cmds arbitrary: i) auto
  then show ?thesis by (simp add: match_command_def)
qed

text \<open>
  The parser on the buffered characters \<open>pre\<close> alone: when a character ends the sequence, the result is
  the number of the sequence, and nothing is buffered any more.
\<close>

definition vt_ends :: "cmdline_vt100_parser_state \<Rightarrow> u8 \<Rightarrow> bool" where
  "vt_ends s c = (case s of CMDLINE_VT100_INIT \<Rightarrow> c \<noteq> ESC
     | CMDLINE_VT100_ESCAPE \<Rightarrow> c \<noteq> 0x5B \<and> 0x30 \<le> c \<and> c \<le> 0x7F
     | CMDLINE_VT100_ESCAPE_CSI \<Rightarrow> 0x40 \<le> c \<and> c \<le> 0x7E)"

definition vt_next :: "cmdline_vt100_parser_state \<Rightarrow> u8 \<Rightarrow> cmdline_vt100_parser_state" where
  "vt_next s c = (if s = CMDLINE_VT100_INIT then CMDLINE_VT100_ESCAPE
     else if s = CMDLINE_VT100_ESCAPE \<and> c = 0x5B then CMDLINE_VT100_ESCAPE_CSI else s)"

fun vt_spec :: "u8 list \<Rightarrow> cmdline_vt100_parser_state \<Rightarrow> u8 \<Rightarrow> u8 list \<times> cmdline_vt100_parser_state \<times> int" where
  "vt_spec pre s c =
     (let (pre, s) = (if length pre \<ge> CMDLINE_VT100_BUF_SIZE then ([], CMDLINE_VT100_INIT) else (pre, s)) in
      if vt_ends s c then ([], CMDLINE_VT100_INIT, match_command (pre @ [c]) (length pre + 1))
      else (pre @ [c], vt_next s c, -2))"

fun vt_spec_run :: "u8 list \<Rightarrow> cmdline_vt100_parser_state \<Rightarrow> u8 list \<Rightarrow> u8 list \<times> cmdline_vt100_parser_state \<times> int list" where
  "vt_spec_run pre s [] = (pre, s, [])"
| "vt_spec_run pre s (c # cs) =
     (let (pre1, s1, r) = vt_spec pre s c; (pre2, s2, rs) = vt_spec_run pre1 s1 cs in (pre2, s2, r # rs))"

definition pre_of :: "cmdline_vt100 \<Rightarrow> u8 list" where
  "pre_of vt = take (unat (bufpos vt)) (vtbuf vt)"

lemma pre_of_length: "wf_vt vt \<Longrightarrow> length (pre_of vt) = unat (bufpos vt)"
  by (simp add: pre_of_def wf_vt_def)

lemma pos_suc: "unat x < 8 \<Longrightarrow> unat (x + 1 :: u8) = unat x + 1"
  by (simp add: unat_word_ariths)

lemma vt100_parser_spec:
  assumes "wf_vt vt" and "vt_spec (pre_of vt) (vtstate vt) c = (pre', s', r)"
  shows "\<exists>vt'. vt100_parser vt c = Some (vt', r) \<and> wf_vt vt' \<and> pre_of vt' = pre' \<and> vtstate vt' = s'"
proof -
  define vt0 where "vt0 = (if unat (bufpos vt) \<ge> CMDLINE_VT100_BUF_SIZE
      then vt\<lparr>vtstate := CMDLINE_VT100_INIT, bufpos := 0\<rparr> else vt)"
  have w: "length (vtbuf vt0) = 8" "unat (bufpos vt0) < 8" "wf_vt vt0"
    using assms(1) by (auto simp: vt0_def wf_vt_def CMDLINE_VT100_BUF_SIZE_def)
  have pl: "length (pre_of vt0) = unat (bufpos vt0)" by (rule pre_of_length [OF w(3)])
  have S: "vt_spec (pre_of vt) (vtstate vt) c =
      (if vt_ends (vtstate vt0) c then ([], CMDLINE_VT100_INIT, match_command (pre_of vt0 @ [c]) (unat (bufpos vt0) + 1))
       else (pre_of vt0 @ [c], vt_next (vtstate vt0) c, -2))"
    using pl pre_of_length [OF assms(1)] by (auto simp: vt0_def pre_of_def)
  define b where "b = (vtbuf vt0)[unat (bufpos vt0) := c]"
  define vt1 where "vt1 = vt0\<lparr>vtbuf := b, bufpos := bufpos vt0 + 1\<rparr>"
  have n: "unat (bufpos vt1) = unat (bufpos vt0) + 1" by (simp add: vt1_def pos_suc w(2))
  have t: "pre_of vt1 = pre_of vt0 @ [c]"
    using w n by (simp add: pre_of_def vt1_def b_def take_Suc_conv_app_nth)
  have m: "match_command b (unat (bufpos vt1)) = match_command (pre_of vt0 @ [c]) (unat (bufpos vt0) + 1)"
    using match_take [of "unat (bufpos vt1)" b] t n by (simp add: pre_of_def vt1_def)
  have P: "vt100_parser vt c = Some (if vt_ends (vtstate vt0) c
      then (vt1\<lparr>bufpos := 0, vtstate := CMDLINE_VT100_INIT\<rparr>, match_command b (unat (bufpos vt1)))
      else (vt1\<lparr>vtstate := vt_next (vtstate vt0) c\<rparr>, -2))"
    using w(1,2) by (cases "vtstate vt0")
      (auto simp: vt100_parser_def vt0_def [symmetric] upd_opt_def vt1_def b_def vt_ends_def vt_next_def)
  have nz: "bufpos vt1 \<noteq> 0" using n by auto
  have pz: "Suc 0 \<le> unat (bufpos vt0)" if "bufpos vt0 \<noteq> 0" using that by (simp add: unat_gt_0 Suc_leI)
  have "wf_vt (vt1\<lparr>vtstate := vt_next (vtstate vt0) c\<rparr>)" if "\<not> vt_ends (vtstate vt0) c"
    using w n nz pz by (cases "vtstate vt0")
      (auto simp: wf_vt_def vt_next_def vt1_def b_def CMDLINE_VT100_BUF_SIZE_def unat_gt_0)
  moreover have "wf_vt (vt1\<lparr>bufpos := 0, vtstate := CMDLINE_VT100_INIT\<rparr>)"
    using w(1) by (simp add: wf_vt_def vt1_def b_def CMDLINE_VT100_BUF_SIZE_def)
  ultimately show ?thesis
    using assms(2) S P m t by (auto simp: pre_of_def split: if_splits)
qed

lemma vt100_parser_ok:
  assumes "wf_vt vt"
  shows "\<exists>vt' r. vt100_parser vt c = Some (vt', r) \<and> wf_vt vt' \<and> -2 \<le> r \<and> r \<le> CMDLINE_KEY_BKSPACE2 \<and>
    (r \<noteq> -2 \<longrightarrow> vtstate vt' = CMDLINE_VT100_INIT \<and> bufpos vt' = 0)"
proof -
  obtain pre s r where S: "vt_spec (pre_of vt) (vtstate vt) c = (pre, s, r)" by (metis prod_cases3)
  obtain vt' where v: "vt100_parser vt c = Some (vt', r)" "wf_vt vt'" "pre_of vt' = pre" "vtstate vt' = s"
    using vt100_parser_spec [OF assms S] by blast
  have "-2 \<le> r \<and> r \<le> CMDLINE_KEY_BKSPACE2 \<and> (r \<noteq> -2 \<longrightarrow> s = CMDLINE_VT100_INIT \<and> pre = [])"
    using S match_command_bounds by (auto simp: Let_def split: if_splits)
  moreover have "bufpos vt' = 0" if "pre = []"
    using that v(3) pre_of_length [OF v(2)] by (simp add: unsigned_eq_0_iff)
  ultimately show ?thesis using v by blast
qed

text \<open>A printable character outside a sequence is no command, except the question mark.\<close>

lemma vt100_plain:
  assumes "wf_vt vt" "vtstate vt = CMDLINE_VT100_INIT" "bufpos vt = 0" "0x20 \<le> c" "c \<le> 0x7E" "c \<noteq> 0x3F"
  shows "\<exists>vt'. vt100_parser vt c = Some (vt', -1) \<and> wf_vt vt' \<and> vtstate vt' = CMDLINE_VT100_INIT \<and> bufpos vt' = 0"
proof -
  have ne: "c \<notin> {0x7F, 0xA, 1, 5, 0xB, 0x19, 3, 6, 2, 9, 4, 0xC, 0xD, 0x3F, 0x17, 0x10, 0xE, 8, 0x1B}"
    using assms(4-6) by (auto simp: word_le_nat_alt)
  have "vt_spec (pre_of vt) (vtstate vt) c = ([], CMDLINE_VT100_INIT, -1)"
    using ne by (simp add: pre_of_def assms(2,3) vt_ends_def CMDLINE_VT100_BUF_SIZE_def match_command_def
      cmdline_vt100_commands_def vt100_up_arr_def vt100_down_arr_def vt100_right_arr_def vt100_left_arr_def
      vt100_suppr_def vt100_tab_def vt100_word_left_def vt100_word_right_def vt100_bs_def)
  from vt100_parser_spec [OF assms(1) this] obtain vt' where
    "vt100_parser vt c = Some (vt', -1)" "wf_vt vt'" "pre_of vt' = []" "vtstate vt' = CMDLINE_VT100_INIT" by blast
  moreover from this have "bufpos vt' = 0" using pre_of_length [of vt'] by (simp add: unsigned_eq_0_iff)
  ultimately show ?thesis by blast
qed

lemma vt100_run_spec:
  assumes "wf_vt vt" "vt_spec_run (pre_of vt) (vtstate vt) cs = (pre', s', rs)"
  shows "\<exists>vt'. vt100_run vt cs = Some (vt', rs) \<and> wf_vt vt' \<and> pre_of vt' = pre' \<and> vtstate vt' = s'"
  using assms
proof (induction cs arbitrary: vt rs)
  case Nil
  then show ?case by simp
next
  case (Cons c cs)
  obtain pre1 s1 r where S: "vt_spec (pre_of vt) (vtstate vt) c = (pre1, s1, r)" by (metis prod_cases3)
  obtain vt1 where v: "vt100_parser vt c = Some (vt1, r)" "wf_vt vt1" "pre_of vt1 = pre1" "vtstate vt1 = s1"
    using vt100_parser_spec [OF Cons.prems(1) S] by blast
  obtain rs1 where R: "vt_spec_run (pre_of vt1) (vtstate vt1) cs = (pre', s', rs1)" "rs = r # rs1"
    using Cons.prems(2) S v(3,4) by (auto simp del: vt_spec.simps split: prod.splits)
  show ?case using Cons.IH [OF v(2) R(1)] v(1) R(2) by auto
qed

lemma commands_spec:
  "list_all (\<lambda>i. vt_spec_run [] CMDLINE_VT100_INIT (cmdline_vt100_commands ! i) =
     ([], CMDLINE_VT100_INIT, replicate (length (cmdline_vt100_commands ! i) - 1) (-2) @ [int i]))
     [0..<length cmdline_vt100_commands]"
  by code_simp

text \<open>from any state between two sequences, the characters of every command of the table make the
  parser answer -2 until the last one, which gives the number of the command, and leave it between two
  sequences again.\<close>

theorem vt100_commands_recognised:
  assumes "wf_vt vt" "vtstate vt = CMDLINE_VT100_INIT" "bufpos vt = 0" "i < length cmdline_vt100_commands"
  shows "\<exists>vt'. vt100_run vt (cmdline_vt100_commands ! i) =
      Some (vt', replicate (length (cmdline_vt100_commands ! i) - 1) (-2) @ [int i]) \<and>
    vtstate vt' = CMDLINE_VT100_INIT \<and> bufpos vt' = 0"
proof -
  have "vt_spec_run (pre_of vt) (vtstate vt) (cmdline_vt100_commands ! i) =
     ([], CMDLINE_VT100_INIT, replicate (length (cmdline_vt100_commands ! i) - 1) (-2) @ [int i])"
    using commands_spec assms(2,3,4) by (auto simp: list_all_iff pre_of_def)
  from vt100_run_spec [OF assms(1) this] obtain vt' where
    "vt100_run vt (cmdline_vt100_commands ! i) = Some (vt', replicate (length (cmdline_vt100_commands ! i) - 1) (-2) @ [int i])"
    "wf_vt vt'" "pre_of vt' = []" "vtstate vt' = CMDLINE_VT100_INIT" by blast
  moreover from this have "bufpos vt' = 0" using pre_of_length [of vt'] by (simp add: unsigned_eq_0_iff)
  ultimately show ?thesis by blast
qed

abbreviation "vt_fresh \<equiv> \<lparr>bufpos = 0, vtbuf = replicate 8 0, vtstate = CMDLINE_VT100_INIT\<rparr>"

theorem vt100_commands_recognised_witness:
  "wf_vt vt_fresh \<and> (\<exists>vt'. vt100_run vt_fresh [0x1B, 0x5B, 0x33, 0x7E] = Some (vt', [-2, -2, -2, 13]))"
proof -
  have w: "wf_vt vt_fresh" by (simp add: wf_vt_def CMDLINE_VT100_BUF_SIZE_def)
  have n: "cmdline_vt100_commands ! 13 = [0x1B, 0x5B, 0x33, 0x7E]" "13 < length cmdline_vt100_commands"
    by (simp_all add: cmdline_vt100_commands_def vt100_suppr_def)
  show ?thesis using vt100_commands_recognised [OF w _ _ n(2)] w n(1) by (auto simp: numeral_eq_Suc)
qed

text \<open>\<open>vt100_init\<close> in the middle of a sequence leaves the buffered characters: after an escape character
  and a reinitialisation, the letter b is taken for the command word-left, which it is not for a
  fresh parser.\<close>

theorem vt100_init_keeps_prefix:
  "map_option (\<lambda>(vt, r). vt100_run (vt100_init vt) [0x62]) (vt100_run vt_fresh [0x1B]) =
     Some (Some (\<lparr>bufpos = 0, vtbuf = [0x1B, 0x62, 0, 0, 0, 0, 0, 0], vtstate = CMDLINE_VT100_INIT\<rparr>,
       [CMDLINE_KEY_WLEFT]))
   \<and> map_option snd (vt100_run vt_fresh [0x62]) = Some [-1]"
  by code_simp

end
