(* ===== verification/Rdline.thy ===== *)
theory Rdline
  imports Cirbuf Vt100
begin

text \<open>
  The line editor of the command line library: \<open>lib/cmdline/cmdline_rdline.c\<close>, with its structure in
  \<open>cmdline_private.h\<close>. The line is the circular buffer \<open>left\<close>, before the caret, and \<open>right\<close>, after
  it; \<open>left_buf\<close>, \<open>right_buf\<close> and \<open>history_buf\<close> are the memories of the three circular buffers (in C the
  pointers to them are set by \<open>cirbuf_init\<close>).

  What the callback \<open>write_char\<close> writes is the list \<open>out\<close>. The callback \<open>validate\<close> gets the state and
  the size argument and returns the new state; \<open>complete\<close> gets the state, the text of \<open>left_buf\<close> and
  \<open>*state\<close>, and returns its result, what \<open>tmp_buf\<close> then holds and the new \<open>*state\<close>; it does not
  change the editor. \<open>BUFSIZ\<close> is 8192, as in the C library of Linux. \<open>None\<close> is an undefined access, or a
  completion loop that does not end. The tests for null pointers have no counterpart.
\<close>

section \<open>The structure\<close>

abbreviation (input) RDLINE_BUF_SIZE :: u32 where "RDLINE_BUF_SIZE \<equiv> 512"
abbreviation (input) RDLINE_PROMPT_SIZE :: nat where "RDLINE_PROMPT_SIZE \<equiv> 32"
abbreviation (input) RDLINE_HISTORY_BUF_SIZE :: u32 where "RDLINE_HISTORY_BUF_SIZE \<equiv> 8192"
abbreviation (input) BUFSIZ :: nat where "BUFSIZ \<equiv> 8192"

datatype rdline_status = RDLINE_INIT | RDLINE_RUNNING | RDLINE_EXITED

record rdline =
  rl_status :: rdline_status
  left :: cirbuf
  right :: cirbuf
  prompt :: "u8 list"
  prompt_size :: nat
  kill_buf :: "u8 list"
  kill_size :: u32
  history :: cirbuf
  history_cur_line :: int
  vt100 :: cmdline_vt100
  out :: "u8 list"

type_synonym validate_cb = "rdline \<Rightarrow> u32 \<Rightarrow> rdline"
type_synonym complete_cb = "rdline \<Rightarrow> u8 list \<Rightarrow> int \<Rightarrow> int \<times> u8 list \<times> int"

abbreviation (input) RDLINE_RES_SUCCESS :: int where "RDLINE_RES_SUCCESS \<equiv> 0"
abbreviation (input) RDLINE_RES_VALIDATED :: int where "RDLINE_RES_VALIDATED \<equiv> 1"
abbreviation (input) RDLINE_RES_COMPLETE :: int where "RDLINE_RES_COMPLETE \<equiv> 2"
abbreviation (input) RDLINE_RES_NOT_RUNNING :: int where "RDLINE_RES_NOT_RUNNING \<equiv> -1"
abbreviation (input) RDLINE_RES_EOF :: int where "RDLINE_RES_EOF \<equiv> -2"
abbreviation (input) RDLINE_RES_EXITED :: int where "RDLINE_RES_EXITED \<equiv> -3"

section \<open>The C library\<close>

text \<open>\<open>isprint\<close> of the C locale.\<close>

definition isprint :: "u8 \<Rightarrow> bool" where "isprint c = (0x20 \<le> c \<and> c \<le> 0x7E)"

definition isblank2 :: "u8 \<Rightarrow> bool" where "isblank2 c = (c = 0x20 \<or> c = 0x09)"

section \<open>Output\<close>

definition write_char :: "rdline \<Rightarrow> u8 \<Rightarrow> rdline" where
  "write_char rdl c = rdl\<lparr>out := out rdl @ [c]\<rparr>"

definition rdline_puts :: "rdline \<Rightarrow> u8 list \<Rightarrow> rdline" where
  "rdline_puts rdl s = rdl\<lparr>out := out rdl @ s\<rparr>"

definition crlf :: "u8 list" where "crlf = [0x0D, 0x0A]"

text \<open>The digits loop of \<open>rdline_miniprintf\<close>, then its format loop.\<close>

function mini_digits :: "u32 \<Rightarrow> u32 \<Rightarrow> bool \<Rightarrow> u8 list" where
  "mini_digits val dv started =
     (if dv = 0 then []
      else (let c = ucast (val div dv) :: u8 in
        (if c \<noteq> 0 \<or> started then (c + 0x30) # mini_digits (val mod dv) (dv div 10) True
         else mini_digits (val mod dv) (dv div 10) False)))"
  by auto
termination
proof (relation "measure (\<lambda>(val, dv, started). unat dv)")
  show "wf (measure (\<lambda>(val :: u32, dv :: u32, started :: bool). unat dv))" by simp
qed (auto simp: unat_div unat_gt_0)

fun mini_fmt :: "u8 list \<Rightarrow> u32 \<Rightarrow> u32 \<Rightarrow> u8 list option" where
  "mini_fmt [] val dv = Some []"
| "mini_fmt [c] val dv = (if c \<noteq> 0x25 then Some [c] else None)"
| "mini_fmt (c # d # cs) val dv =
     (if c \<noteq> 0x25 then map_option (Cons c) (mini_fmt (d # cs) val dv)
      else if d \<noteq> 0x75 then map_option (\<lambda>o'. 0x25 # d # o') (mini_fmt cs val dv)
      else map_option (\<lambda>o'. mini_digits val dv False @ o') (mini_fmt cs val 0))"

definition rdline_miniprintf :: "rdline \<Rightarrow> u8 list \<Rightarrow> u32 \<Rightarrow> rdline option" where
  "rdline_miniprintf rdl fmt val = map_option (rdline_puts rdl) (mini_fmt fmt val 100)"

section \<open>Iteration over a circular buffer\<close>

text \<open>\<open>CIRBUF_FOREACH\<close>: the characters its body sees; after each turn the next one is read.\<close>

fun foreach_from :: "cirbuf \<Rightarrow> nat \<Rightarrow> u32 \<Rightarrow> u8 \<Rightarrow> u8 list option" where
  "foreach_from cb 0 i e = Some []"
| "foreach_from cb (Suc k) i e = do {
     j \<leftarrow> umod (cstart cb + (i + 1)) (maxlen cb);
     e1 \<leftarrow> get_c cb j;
     es \<leftarrow> foreach_from cb k (i + 1) e1;
     Some (e # es) }"

definition CIRBUF_FOREACH :: "cirbuf \<Rightarrow> u8 list option" where
  "CIRBUF_FOREACH cb = do { e \<leftarrow> get_c cb (cstart cb); foreach_from cb (unat (clen cb)) 0 e }"

section \<open>Setting up a line\<close>

definition rdline_init :: "rdline" where
  "rdline_init =
     \<lparr>rl_status = RDLINE_INIT,
      left = \<lparr>maxlen = 0, cstart = 0, cend = 0, clen = 0, buf = replicate 514 0\<rparr>,
      right = \<lparr>maxlen = 0, cstart = 0, cend = 0, clen = 0, buf = replicate 512 0\<rparr>,
      prompt = replicate RDLINE_PROMPT_SIZE 0, prompt_size = 0, kill_buf = replicate 512 0, kill_size = 0,
      history = cirbuf_init (replicate 8192 0) 0 RDLINE_HISTORY_BUF_SIZE, history_cur_line = 0,
      vt100 = \<lparr>bufpos = 0, vtbuf = replicate 8 0, vtstate = CMDLINE_VT100_INIT\<rparr>, out = []\<rparr>"

text \<open>The line is emptied and the key parser reinitialised.\<close>

definition clear_line :: "rdline \<Rightarrow> rdline" where
  "clear_line rdl = rdl\<lparr>vt100 := vt100_init (vt100 rdl), left := cirbuf_init (buf (left rdl)) 0 RDLINE_BUF_SIZE,
     right := cirbuf_init (buf (right rdl)) 0 RDLINE_BUF_SIZE\<rparr>"

definition rdline_newline :: "rdline \<Rightarrow> u8 list \<Rightarrow> rdline option" where
  "rdline_newline rdl p = do {
     rdl \<leftarrow> Some (clear_line rdl);
     n \<leftarrow> strnlen p (RDLINE_PROMPT_SIZE - 1);
     q \<leftarrow> blit (prompt rdl) 0 (take n p);
     q \<leftarrow> upd_opt q (RDLINE_PROMPT_SIZE - 1) 0;
     rdl \<leftarrow> Some (rdline_puts (rdl\<lparr>prompt_size := n, prompt := q\<rparr>) (take n q));
     Some (rdl\<lparr>rl_status := RDLINE_RUNNING, history_cur_line := -1\<rparr>) }"

definition rdline_stop :: "rdline \<Rightarrow> rdline" where "rdline_stop rdl = rdl\<lparr>rl_status := RDLINE_INIT\<rparr>"
definition rdline_quit :: "rdline \<Rightarrow> rdline" where "rdline_quit rdl = rdl\<lparr>rl_status := RDLINE_EXITED\<rparr>"
definition rdline_restart :: "rdline \<Rightarrow> rdline" where "rdline_restart rdl = rdl\<lparr>rl_status := RDLINE_RUNNING\<rparr>"

definition rdline_reset :: "rdline \<Rightarrow> rdline" where
  "rdline_reset rdl = (clear_line rdl)\<lparr>rl_status := RDLINE_RUNNING, history_cur_line := -1\<rparr>"

definition rdline_clear_history :: "rdline \<Rightarrow> rdline" where
  "rdline_clear_history rdl = rdl\<lparr>history := cirbuf_init (buf (history rdl)) 0 RDLINE_HISTORY_BUF_SIZE\<rparr>"

text \<open>The buffer it returns is \<open>left_buf\<close>.\<close>

definition rdline_get_buffer :: "rdline \<Rightarrow> rdline option" where
  "rdline_get_buffer rdl = do {
     (l, _) \<leftarrow> cirbuf_align_left (left rdl);
     (r, _) \<leftarrow> cirbuf_align_left (right rdl);
     xs \<leftarrow> slice_of (buf r) 0 (unat (clen r));
     b \<leftarrow> blit (buf l) (unat (clen l)) xs;
     b \<leftarrow> upd_opt b (unat (clen l + clen r)) 0x0A;
     b \<leftarrow> upd_opt b (unat (clen l + clen r + 1)) 0;
     Some (rdl\<lparr>left := l\<lparr>buf := b\<rparr>, right := r\<rparr>) }"

definition display_right_buffer :: "rdline \<Rightarrow> bool \<Rightarrow> rdline option" where
  "display_right_buffer rdl force =
     (if \<not> force \<and> CIRBUF_IS_EMPTY (right rdl) then Some rdl
      else do {
        rdl \<leftarrow> Some (rdline_puts rdl vt100_clear_right);
        cs \<leftarrow> CIRBUF_FOREACH (right rdl);
        rdl \<leftarrow> Some (rdline_puts rdl cs);
        (if \<not> CIRBUF_IS_EMPTY (right rdl) then rdline_miniprintf rdl vt100_multi_left (clen (right rdl))
         else Some rdl) })"

definition rdline_redisplay :: "rdline \<Rightarrow> rdline option" where
  "rdline_redisplay rdl = do {
     rdl \<leftarrow> Some (rdline_puts rdl vt100_home);
     p \<leftarrow> slice_of (prompt rdl) 0 (prompt_size rdl);
     rdl \<leftarrow> Some (rdline_puts rdl p);
     cs \<leftarrow> CIRBUF_FOREACH (left rdl);
     display_right_buffer (rdline_puts rdl cs) True }"

section \<open>Moving the caret and deleting\<close>

lemma del_tail_shorter: "cirbuf_del_tail cb = Some cb1 \<Longrightarrow> clen cb \<noteq> 0 \<Longrightarrow> unat (clen cb1) < unat (clen cb)"
  by (auto simp: cirbuf_del_tail_def CIRBUF_IS_EMPTY_def unat_sub word_le_nat_alt unat_gt_0 Suc_leI
    split: if_splits bind_splits)

lemma del_head_shorter: "cirbuf_del_head cb = Some cb1 \<Longrightarrow> clen cb \<noteq> 0 \<Longrightarrow> unat (clen cb1) < unat (clen cb)"
  by (auto simp: cirbuf_del_head_def CIRBUF_IS_EMPTY_def unat_sub word_le_nat_alt unat_gt_0 Suc_leI
    split: if_splits bind_splits)

text \<open>One character over the caret.\<close>

definition char_left :: "rdline \<Rightarrow> u8 \<Rightarrow> rdline option" where
  "char_left rdl tmp = do {
     l \<leftarrow> cirbuf_del_tail (left rdl);
     r \<leftarrow> cirbuf_add_head (right rdl) tmp;
     Some (rdl\<lparr>left := l, right := r\<rparr>) }"

definition char_right :: "rdline \<Rightarrow> u8 \<Rightarrow> rdline option" where
  "char_right rdl tmp = do {
     r \<leftarrow> cirbuf_del_head (right rdl);
     l \<leftarrow> cirbuf_add_tail (left rdl) tmp;
     Some (rdl\<lparr>left := l, right := r\<rparr>) }"

lemma char_left_shorter: "char_left rdl c = Some rdl1 \<Longrightarrow> clen (left rdl) \<noteq> 0 \<Longrightarrow>
    unat (clen (left rdl1)) < unat (clen (left rdl))"
  by (auto simp: char_left_def del_tail_shorter split: bind_splits)

lemma char_right_shorter: "char_right rdl c = Some rdl1 \<Longrightarrow> clen (right rdl) \<noteq> 0 \<Longrightarrow>
    unat (clen (right rdl1)) < unat (clen (right rdl))"
  by (auto simp: char_right_def del_head_shorter split: bind_splits)

text \<open>
  The loops that move or delete characters while they satisfy a test \<open>p\<close>; \<open>s\<close> is what a turn prints.
\<close>

function left_while :: "(u8 \<Rightarrow> bool) \<Rightarrow> u8 list \<Rightarrow> rdline \<Rightarrow> rdline option" where
  "left_while p s rdl =
     (if CIRBUF_IS_EMPTY (left rdl) then Some rdl
      else case cirbuf_get_tail (left rdl) of None \<Rightarrow> None
      | Some tmp \<Rightarrow>
          (if \<not> p tmp then Some rdl
           else case char_left (rdline_puts rdl s) tmp of None \<Rightarrow> None
           | Some rdl1 \<Rightarrow> left_while p s rdl1))"
  by auto
termination
  by (relation "measure (\<lambda>(p, s, rdl). unat (clen (left rdl)))")
    (auto dest!: char_left_shorter simp: CIRBUF_IS_EMPTY_def rdline_puts_def)

function right_while :: "(u8 \<Rightarrow> bool) \<Rightarrow> u8 list \<Rightarrow> rdline \<Rightarrow> rdline option" where
  "right_while p s rdl =
     (if CIRBUF_IS_EMPTY (right rdl) then Some rdl
      else case cirbuf_get_head (right rdl) of None \<Rightarrow> None
      | Some tmp \<Rightarrow>
          (if \<not> p tmp then Some rdl
           else case char_right (rdline_puts rdl s) tmp of None \<Rightarrow> None
           | Some rdl1 \<Rightarrow> right_while p s rdl1))"
  by auto
termination
  by (relation "measure (\<lambda>(p, s, rdl). unat (clen (right rdl)))")
    (auto dest!: char_right_shorter simp: CIRBUF_IS_EMPTY_def rdline_puts_def)

function del_left_while :: "(u8 \<Rightarrow> bool) \<Rightarrow> rdline \<Rightarrow> rdline option" where
  "del_left_while p rdl =
     (if CIRBUF_IS_EMPTY (left rdl) then Some rdl
      else case cirbuf_get_tail (left rdl) of None \<Rightarrow> None
      | Some tmp \<Rightarrow>
          (if \<not> p tmp then Some rdl
           else case cirbuf_del_tail (left rdl) of None \<Rightarrow> None
           | Some l \<Rightarrow> del_left_while p ((rdline_puts rdl vt100_bs)\<lparr>left := l\<rparr>)))"
  by auto
termination
  by (relation "measure (\<lambda>(p, rdl). unat (clen (left rdl)))")
    (auto simp: CIRBUF_IS_EMPTY_def rdline_puts_def del_tail_shorter)

function del_right_while :: "(u8 \<Rightarrow> bool) \<Rightarrow> rdline \<Rightarrow> rdline option" where
  "del_right_while p rdl =
     (if CIRBUF_IS_EMPTY (right rdl) then Some rdl
      else case cirbuf_get_head (right rdl) of None \<Rightarrow> None
      | Some tmp \<Rightarrow>
          (if \<not> p tmp then Some rdl
           else case cirbuf_del_head (right rdl) of None \<Rightarrow> None
           | Some r \<Rightarrow> del_right_while p (rdl\<lparr>right := r\<rparr>)))"
  by auto
termination
  by (relation "measure (\<lambda>(p, rdl). unat (clen (right rdl)))")
    (auto simp: CIRBUF_IS_EMPTY_def del_head_shorter)

declare left_while.simps [simp del] right_while.simps [simp del] del_left_while.simps [simp del]
  del_right_while.simps [simp del]

text \<open>The characters \<open>i\<close> on of an array go to the left of the caret while there is room; \<open>k\<close> turns are left.\<close>

fun insert_loop :: "u8 list \<Rightarrow> nat \<Rightarrow> nat \<Rightarrow> rdline \<Rightarrow> rdline option" where
  "insert_loop xs 0 i rdl = Some rdl"
| "insert_loop xs (Suc k) i rdl =
     (if clen (right rdl) + clen (left rdl) < RDLINE_BUF_SIZE
      then do {
        c \<leftarrow> nth_opt xs i;
        l \<leftarrow> cirbuf_add_tail (left rdl) c;
        insert_loop xs k (i + 1) (write_char (rdl\<lparr>left := l\<rparr>) c) }
      else Some rdl)"

section \<open>History\<close>

function rdline_remove_old_history_item :: "cirbuf \<Rightarrow> cirbuf option" where
  "rdline_remove_old_history_item h =
     (if CIRBUF_IS_EMPTY h then Some h
      else case cirbuf_get_head h of None \<Rightarrow> None
      | Some tmp \<Rightarrow>
          (case cirbuf_del_head h of None \<Rightarrow> None
           | Some h1 \<Rightarrow> (if tmp = 0 then Some h1 else rdline_remove_old_history_item h1)))"
  by auto
termination
  by (relation "measure (\<lambda>h. unat (clen h))") (auto simp: CIRBUF_IS_EMPTY_def del_head_shorter)

function remove_item_tail :: "cirbuf \<Rightarrow> cirbuf option" where
  "remove_item_tail h =
     (if CIRBUF_IS_EMPTY h then Some h
      else case cirbuf_get_tail h of None \<Rightarrow> None
      | Some tmp \<Rightarrow>
          (if tmp = 0 then Some h
           else case cirbuf_del_tail h of None \<Rightarrow> None
           | Some h1 \<Rightarrow> remove_item_tail h1))"
  by auto
termination
  by (relation "measure (\<lambda>h. unat (clen h))") (auto simp: CIRBUF_IS_EMPTY_def del_tail_shorter)

declare rdline_remove_old_history_item.simps [simp del] remove_item_tail.simps [simp del]

definition rdline_remove_first_history_item :: "cirbuf \<Rightarrow> cirbuf option" where
  "rdline_remove_first_history_item h =
     (if CIRBUF_IS_EMPTY h then Some h
      else do { h1 \<leftarrow> cirbuf_del_tail h; remove_item_tail h1 })"

definition rdline_get_history_size :: "cirbuf \<Rightarrow> u32 option" where
  "rdline_get_history_size h = do {
     cs \<leftarrow> CIRBUF_FOREACH h;
     Some (of_nat (length [c \<leftarrow> cs. c = 0])) }"

text \<open>The result is the index of the item in \<open>history_buf\<close>, \<open>None\<close> for the null pointer.\<close>

fun history_scan :: "u8 list \<Rightarrow> u32 \<Rightarrow> u32 \<Rightarrow> nat \<Rightarrow> nat option" where
  "history_scan [] len idx i = None"
| "history_scan (c # cs) len idx i =
     (if idx = len - 1 then Some i else history_scan cs (if c = 0 then len - 1 else len) idx (i + 1))"

definition rdline_get_history_item :: "rdline \<Rightarrow> u32 \<Rightarrow> (rdline \<times> nat option) option" where
  "rdline_get_history_item rdl idx = do {
     len \<leftarrow> rdline_get_history_size (history rdl);
     (if idx \<ge> len then Some (rdl, None)
      else do {
        (h, _) \<leftarrow> cirbuf_align_left (history rdl);
        cs \<leftarrow> CIRBUF_FOREACH h;
        Some (rdl\<lparr>history := h\<rparr>, history_scan cs len idx 0) }) }"

partial_function (option) make_room :: "u32 \<Rightarrow> cirbuf \<Rightarrow> cirbuf option" where
  "make_room len h =
     (if len \<ge> CIRBUF_GET_FREELEN h
      then do { h1 \<leftarrow> rdline_remove_old_history_item h; make_room len h1 }
      else Some h)"

declare make_room.simps [code]

definition rdline_add_history :: "rdline \<Rightarrow> u8 list \<Rightarrow> (rdline \<times> int) option" where
  "rdline_add_history rdl b = do {
     n \<leftarrow> strnlen b (unat RDLINE_BUF_SIZE);
     len \<leftarrow> Some (of_nat (length (takeWhile (\<lambda>c. c \<noteq> 0x0A) (take n b))));
     (if len \<ge> RDLINE_HISTORY_BUF_SIZE then Some (rdl, -1)
      else do {
        h \<leftarrow> make_room len (history rdl);
        (h, _) \<leftarrow> cirbuf_add_buf_tail h b len;
        h \<leftarrow> cirbuf_add_tail h 0;
        Some (rdl\<lparr>history := h\<rparr>, 0) }) }"

end
