(* ===== verification/Rdline_Keys.thy ===== *)
theory Rdline_Keys
  imports Rdline
begin

text \<open>
  The keys of the line editor: one definition per group of cases of the switch of \<open>rdline_char_in\<close>
  (\<open>lib/cmdline/cmdline_rdline.c\<close>), then \<open>rdline_char_in\<close> itself and \<open>cmdline_in\<close>
  (\<open>lib/cmdline/cmdline.c\<close>), which feeds characters to it and keeps the history.
\<close>

section \<open>The cases of the switch\<close>

definition key_left :: "rdline \<Rightarrow> rdline option" where
  "key_left rdl =
     (if CIRBUF_IS_EMPTY (left rdl) then Some rdl
      else do {
        tmp \<leftarrow> cirbuf_get_tail (left rdl);
        rdl \<leftarrow> char_left rdl tmp;
        Some (rdline_puts rdl vt100_left_arr) })"

definition key_right :: "rdline \<Rightarrow> rdline option" where
  "key_right rdl =
     (if CIRBUF_IS_EMPTY (right rdl) then Some rdl
      else do {
        tmp \<leftarrow> cirbuf_get_head (right rdl);
        rdl \<leftarrow> char_right rdl tmp;
        Some (rdline_puts rdl vt100_right_arr) })"

definition key_wleft :: "rdline \<Rightarrow> rdline option" where
  "key_wleft rdl = do {
     rdl \<leftarrow> left_while (\<lambda>tmp. tmp \<noteq> 0 \<and> isblank2 tmp) vt100_left_arr rdl;
     left_while (\<lambda>tmp. tmp \<noteq> 0 \<and> \<not> isblank2 tmp) vt100_left_arr rdl }"

definition key_wright :: "rdline \<Rightarrow> rdline option" where
  "key_wright rdl = do {
     rdl \<leftarrow> right_while (\<lambda>tmp. tmp \<noteq> 0 \<and> isblank2 tmp) vt100_right_arr rdl;
     right_while (\<lambda>tmp. tmp \<noteq> 0 \<and> \<not> isblank2 tmp) vt100_right_arr rdl }"

definition key_ctrl_a :: "rdline \<Rightarrow> rdline option" where
  "key_ctrl_a rdl =
     (if CIRBUF_IS_EMPTY (left rdl) then Some rdl
      else do {
        rdl \<leftarrow> rdline_miniprintf rdl vt100_multi_left (clen (left rdl));
        left_while (\<lambda>_. True) [] rdl })"

definition key_ctrl_e :: "rdline \<Rightarrow> rdline option" where
  "key_ctrl_e rdl =
     (if CIRBUF_IS_EMPTY (right rdl) then Some rdl
      else do {
        rdl \<leftarrow> rdline_miniprintf rdl vt100_multi_right (clen (right rdl));
        right_while (\<lambda>_. True) [] rdl })"

definition key_bkspace :: "rdline \<Rightarrow> rdline option" where
  "key_bkspace rdl = do {
     (l, ret) \<leftarrow> cirbuf_del_tail_safe (left rdl);
     (if ret = 0 then display_right_buffer (rdline_puts (rdl\<lparr>left := l\<rparr>) vt100_bs) True
      else Some (rdl\<lparr>left := l\<rparr>)) }"

definition key_suppr :: "rdline \<Rightarrow> rdline option" where
  "key_suppr rdl = do {
     (r, ret) \<leftarrow> cirbuf_del_head_safe (right rdl);
     (if ret = 0 then display_right_buffer (rdl\<lparr>right := r\<rparr>) True else Some (rdl\<lparr>right := r\<rparr>)) }"

definition key_meta_bkspace :: "rdline \<Rightarrow> rdline option" where
  "key_meta_bkspace rdl = do {
     rdl \<leftarrow> del_left_while isblank2 rdl;
     rdl \<leftarrow> del_left_while (\<lambda>c. \<not> isblank2 c) rdl;
     display_right_buffer rdl True }"

definition key_meta_d :: "rdline \<Rightarrow> rdline option" where
  "key_meta_d rdl = do {
     rdl \<leftarrow> del_right_while isblank2 rdl;
     rdl \<leftarrow> del_right_while (\<lambda>c. \<not> isblank2 c) rdl;
     display_right_buffer rdl True }"

definition key_ctrl_k :: "rdline \<Rightarrow> rdline option" where
  "key_ctrl_k rdl = do {
     (k, _) \<leftarrow> cirbuf_get_buf_head (right rdl) (kill_buf rdl) RDLINE_BUF_SIZE;
     n \<leftarrow> Some (clen (right rdl));
     (r, _) \<leftarrow> cirbuf_del_buf_head (right rdl) n;
     Some (rdline_puts (rdl\<lparr>kill_buf := k, kill_size := n, right := r\<rparr>) vt100_clear_right) }"

definition key_ctrl_y :: "rdline \<Rightarrow> rdline option" where
  "key_ctrl_y rdl = do {
     rdl \<leftarrow> insert_loop (kill_buf rdl) (unat (kill_size rdl)) 0 rdl;
     display_right_buffer rdl False }"

definition key_ctrl_c :: "rdline \<Rightarrow> rdline option" where
  "key_ctrl_c rdl = rdline_newline (rdline_puts rdl crlf) (prompt rdl)"

text \<open>The loop over the choices: the characters of \<open>tmp_buf\<close> up to its null character.\<close>

definition shown_text :: "u8 list \<Rightarrow> u8 list option" where
  "shown_text xs = (if 0 \<in> set xs then Some (takeWhile (\<lambda>c. c \<noteq> 0) xs) else None)"

partial_function (option) choice_loop ::
  "complete_cb \<Rightarrow> int \<Rightarrow> u8 list \<Rightarrow> int \<Rightarrow> rdline \<Rightarrow> rdline option" where
  "choice_loop complete ret tmp st rdl =
     (if ret \<noteq> 0
      then do {
        cs \<leftarrow> shown_text tmp;
        rdl \<leftarrow> Some (rdline_puts rdl (0x20 # cs @ crlf));
        (let (ret1, tmp1, st1) = complete rdl (buf (left rdl)) st
         in choice_loop complete ret1 tmp1 st1 rdl) }
      else Some rdl)"

declare choice_loop.simps [code]

definition key_tab :: "complete_cb \<Rightarrow> int \<Rightarrow> rdline \<Rightarrow> (rdline \<times> int) option" where
  "key_tab complete cmd rdl = do {
     (l, _) \<leftarrow> cirbuf_align_left (left rdl);
     b \<leftarrow> upd_opt (buf l) (unat (clen l)) 0;
     rdl \<leftarrow> Some (rdl\<lparr>left := l\<lparr>buf := b\<rparr>\<rparr>);
     (let (ret, tmp, st) = complete rdl b (if cmd = CMDLINE_KEY_TAB then 0 else -1) in
      if ret \<le> 0 then Some (rdl, RDLINE_RES_COMPLETE)
      else do {
        n \<leftarrow> strnlen tmp BUFSIZ;
        (if ret = RDLINE_RES_COMPLETE
         then do {
           rdl \<leftarrow> insert_loop tmp n 0 rdl;
           rdl \<leftarrow> display_right_buffer rdl True;
           Some (rdl, RDLINE_RES_COMPLETE) }
         else do {
           rdl \<leftarrow> choice_loop complete ret tmp st (rdline_puts rdl crlf);
           rdl \<leftarrow> rdline_redisplay rdl;
           Some (rdl, RDLINE_RES_COMPLETE) }) }) }"

definition key_return :: "validate_cb \<Rightarrow> rdline \<Rightarrow> (rdline \<times> int) option" where
  "key_return validate rdl = do {
     rdl \<leftarrow> rdline_get_buffer rdl;
     rdl \<leftarrow> Some (rdline_puts (rdl\<lparr>rl_status := RDLINE_INIT\<rparr>) crlf);
     rdl \<leftarrow> (if history_cur_line rdl \<noteq> -1
            then do { h \<leftarrow> rdline_remove_first_history_item (history rdl); Some (rdl\<lparr>history := h\<rparr>) }
            else Some rdl);
     rdl \<leftarrow> Some (validate rdl (clen (left rdl) + 2));
     Some (rdl, if rl_status rdl = RDLINE_EXITED then RDLINE_RES_EXITED else RDLINE_RES_VALIDATED) }"

text \<open>Showing the history item at index \<open>i\<close> of \<open>history_buf\<close>.\<close>

definition show_item :: "nat \<Rightarrow> rdline \<Rightarrow> rdline option" where
  "show_item i rdl = do {
     rdl \<leftarrow> Some (clear_line rdl);
     b \<leftarrow> Some (drop i (buf (history rdl)));
     n \<leftarrow> strnlen b (unat RDLINE_BUF_SIZE);
     (l, _) \<leftarrow> cirbuf_add_buf_tail (left rdl) b (of_nat n);
     rdline_redisplay (rdl\<lparr>left := l\<rparr>) }"

definition key_up :: "rdline \<Rightarrow> rdline option" where
  "key_up rdl = do {
     rdl \<leftarrow> (if history_cur_line rdl = 0
            then do { h \<leftarrow> rdline_remove_first_history_item (history rdl); Some (rdl\<lparr>history := h\<rparr>) }
            else Some rdl);
     rdl \<leftarrow> (if history_cur_line rdl \<le> 0
            then do {
              rdl \<leftarrow> rdline_get_buffer rdl;
              (rdl, _) \<leftarrow> rdline_add_history rdl (buf (left rdl));
              Some (rdl\<lparr>history_cur_line := 0\<rparr>) }
            else Some rdl);
     (rdl, item) \<leftarrow> rdline_get_history_item rdl (of_int (history_cur_line rdl + 1));
     (case item of None \<Rightarrow> Some rdl
      | Some i \<Rightarrow> show_item i (rdl\<lparr>history_cur_line := history_cur_line rdl + 1\<rparr>)) }"

definition key_down :: "rdline \<Rightarrow> rdline option" where
  "key_down rdl =
     (if history_cur_line rdl - 1 < 0 then Some rdl
      else do {
        rdl \<leftarrow> Some (rdl\<lparr>history_cur_line := history_cur_line rdl - 1\<rparr>);
        (rdl, item) \<leftarrow> rdline_get_history_item rdl (of_int (history_cur_line rdl));
        (case item of None \<Rightarrow> Some rdl | Some i \<Rightarrow> show_item i rdl) })"

section \<open>One character\<close>

definition success :: "rdline option \<Rightarrow> (rdline \<times> int) option" where
  "success r = map_option (\<lambda>rdl. (rdl, RDLINE_RES_SUCCESS)) r"

definition key_action :: "validate_cb \<Rightarrow> complete_cb \<Rightarrow> int \<Rightarrow> rdline \<Rightarrow> (rdline \<times> int) option" where
  "key_action validate complete cmd rdl =
     (if cmd = CMDLINE_KEY_CTRL_B \<or> cmd = CMDLINE_KEY_LEFT_ARR then success (key_left rdl)
      else if cmd = CMDLINE_KEY_CTRL_F \<or> cmd = CMDLINE_KEY_RIGHT_ARR then success (key_right rdl)
      else if cmd = CMDLINE_KEY_WLEFT then success (key_wleft rdl)
      else if cmd = CMDLINE_KEY_WRIGHT then success (key_wright rdl)
      else if cmd = CMDLINE_KEY_CTRL_A then success (key_ctrl_a rdl)
      else if cmd = CMDLINE_KEY_CTRL_E then success (key_ctrl_e rdl)
      else if cmd = CMDLINE_KEY_BKSPACE \<or> cmd = CMDLINE_KEY_BKSPACE2 then success (key_bkspace rdl)
      else if cmd = CMDLINE_KEY_SUPPR \<or> cmd = CMDLINE_KEY_CTRL_D then
        (if cmd = CMDLINE_KEY_CTRL_D \<and> CIRBUF_IS_EMPTY (left rdl) \<and> CIRBUF_IS_EMPTY (right rdl)
         then Some (rdl, RDLINE_RES_EOF) else success (key_suppr rdl))
      else if cmd = CMDLINE_KEY_META_BKSPACE \<or> cmd = CMDLINE_KEY_CTRL_W then success (key_meta_bkspace rdl)
      else if cmd = CMDLINE_KEY_META_D then success (key_meta_d rdl)
      else if cmd = CMDLINE_KEY_CTRL_K then success (key_ctrl_k rdl)
      else if cmd = CMDLINE_KEY_CTRL_Y then success (key_ctrl_y rdl)
      else if cmd = CMDLINE_KEY_CTRL_C then success (key_ctrl_c rdl)
      else if cmd = CMDLINE_KEY_CTRL_L then success (rdline_redisplay rdl)
      else if cmd = CMDLINE_KEY_TAB \<or> cmd = CMDLINE_KEY_HELP then key_tab complete cmd rdl
      else if cmd = CMDLINE_KEY_RETURN \<or> cmd = CMDLINE_KEY_RETURN2 then key_return validate rdl
      else if cmd = CMDLINE_KEY_UP_ARR \<or> cmd = CMDLINE_KEY_CTRL_P then success (key_up rdl)
      else if cmd = CMDLINE_KEY_DOWN_ARR \<or> cmd = CMDLINE_KEY_CTRL_N then success (key_down rdl)
      else Some (rdl, RDLINE_RES_SUCCESS))"

definition insert_char :: "u8 \<Rightarrow> rdline \<Rightarrow> rdline option" where
  "insert_char c rdl =
     (if \<not> isprint c then Some rdl
      else if clen (left rdl) + clen (right rdl) \<ge> RDLINE_BUF_SIZE then Some rdl
      else do {
        (l, ret) \<leftarrow> cirbuf_add_tail_safe (left rdl) c;
        (if ret \<noteq> 0 then Some (rdl\<lparr>left := l\<rparr>)
         else display_right_buffer (write_char (rdl\<lparr>left := l\<rparr>) c) False) })"

definition rdline_char_in :: "validate_cb \<Rightarrow> complete_cb \<Rightarrow> rdline \<Rightarrow> u8 \<Rightarrow> (rdline \<times> int) option" where
  "rdline_char_in validate complete rdl c =
     (if rl_status rdl = RDLINE_EXITED then Some (rdl, RDLINE_RES_EXITED)
      else if rl_status rdl \<noteq> RDLINE_RUNNING then Some (rdl, RDLINE_RES_NOT_RUNNING)
      else do {
        (vt, cmd) \<leftarrow> vt100_parser (vt100 rdl) c;
        rdl \<leftarrow> Some (rdl\<lparr>vt100 := vt\<rparr>);
        (if cmd = -2 then Some (rdl, RDLINE_RES_SUCCESS)
         else if cmd \<ge> 0 then key_action validate complete cmd rdl
         else success (insert_char c rdl)) })"

section \<open>The command line\<close>

record cmdline =
  rdl :: rdline
  cl_prompt :: "u8 list"

text \<open>A validated line goes to the history, unless it is empty or the same as the last one.\<close>

definition cmdline_keep :: "rdline \<Rightarrow> rdline option" where
  "cmdline_keep r = do {
     r \<leftarrow> rdline_get_buffer r;
     buffer \<leftarrow> Some (buf (left r));
     (r, item) \<leftarrow> rdline_get_history_item r 0;
     same \<leftarrow> (case item of None \<Rightarrow> Some False
        | Some i \<Rightarrow> do {
            histlen \<leftarrow> strnlen (drop i (buf (history r))) (unat RDLINE_BUF_SIZE);
            b \<leftarrow> slice_of buffer 0 histlen;
            h \<leftarrow> slice_of (buf (history r)) i histlen;
            e \<leftarrow> nth_opt buffer histlen;
            Some (b = h \<and> e = 0x0A) });
     buflen \<leftarrow> strnlen buffer (unat RDLINE_BUF_SIZE);
     (if buflen > 1 \<and> \<not> same then do { (r, _) \<leftarrow> rdline_add_history r buffer; Some r } else Some r) }"

fun cmdline_loop :: "validate_cb \<Rightarrow> complete_cb \<Rightarrow> cmdline \<Rightarrow> u8 list \<Rightarrow> int \<Rightarrow> (cmdline \<times> int) option" where
  "cmdline_loop validate complete cl [] i = Some (cl, i)"
| "cmdline_loop validate complete cl (c # cs) i = do {
     (r, ret) \<leftarrow> rdline_char_in validate complete (rdl cl) c;
     (if ret = RDLINE_RES_VALIDATED
      then do {
        r \<leftarrow> cmdline_keep r;
        r \<leftarrow> rdline_newline r (cl_prompt cl);
        cmdline_loop validate complete (cl\<lparr>rdl := r\<rparr>) cs (i + 1) }
      else if ret = RDLINE_RES_EOF \<or> ret = RDLINE_RES_EXITED then Some (cl\<lparr>rdl := r\<rparr>, -1)
      else cmdline_loop validate complete (cl\<lparr>rdl := r\<rparr>) cs (i + 1)) }"

definition cmdline_in :: "validate_cb \<Rightarrow> complete_cb \<Rightarrow> cmdline \<Rightarrow> u8 list \<Rightarrow> (cmdline \<times> int) option" where
  "cmdline_in validate complete cl b = cmdline_loop validate complete cl b 0"

text \<open>The prompt is copied with \<open>strlcpy\<close>: at most 31 characters, then null; \<open>p\<close> is the string.\<close>

definition cmdline_set_prompt :: "cmdline \<Rightarrow> u8 list \<Rightarrow> cmdline" where
  "cmdline_set_prompt cl p =
     (let t = take (RDLINE_PROMPT_SIZE - 1) p in
      cl\<lparr>cl_prompt := t @ 0 # drop (length t + 1) (cl_prompt cl)\<rparr>)"

definition cmdline_new :: "u8 list \<Rightarrow> cmdline option" where
  "cmdline_new p = do {
     cl \<leftarrow> Some (cmdline_set_prompt \<lparr>rdl = rdline_init, cl_prompt = replicate RDLINE_PROMPT_SIZE 0\<rparr> p);
     r \<leftarrow> rdline_newline (rdl cl) (cl_prompt cl);
     Some (cl\<lparr>rdl := r\<rparr>) }"

end
