(* ===== verification/Cirbuf_Props.thy ===== *)
theory Cirbuf_Props
  imports Cirbuf
begin

text \<open>
  The circular buffer implements a double-ended queue of characters: \<open>chars\<close> is its content,
  \<open>wf_cb\<close> the invariant of its fields, and every operation keeps the invariant and does to the content
  what its name says. The interface \<open>deque\<close> has the laws a client relies on.
\<close>

section \<open>Content and invariant\<close>

abbreviation siz_of :: "cirbuf \<Rightarrow> nat" where "siz_of cb \<equiv> unat (maxlen cb)"
abbreviation fst_of :: "cirbuf \<Rightarrow> nat" where "fst_of cb \<equiv> unat (cstart cb)"
abbreviation len_of_cb :: "cirbuf \<Rightarrow> nat" where "len_of_cb cb \<equiv> unat (clen cb)"

text \<open>An index that went past the end of the array comes back at its beginning.\<close>

definition wrap :: "nat \<Rightarrow> nat \<Rightarrow> nat" where "wrap m x = (if x < m then x else x - m)"

lemma wrap_mod: "x < 2 * m \<Longrightarrow> x mod m = wrap m x"
  by (simp add: wrap_def mod_if)

lemma wrap_back: "s < m \<Longrightarrow> 1 < l \<Longrightarrow> l \<le> m \<Longrightarrow> wrap m (wrap m (s + l - 1) + (m - 1)) = wrap m (s + (l - 1) - 1)"
  by (auto simp: wrap_def)

definition chars :: "cirbuf \<Rightarrow> u8 list" where
  "chars cb = map (\<lambda>i. buf cb ! wrap (siz_of cb) (fst_of cb + i)) [0..<len_of_cb cb]"

definition wf_cb :: "cirbuf \<Rightarrow> bool" where
  "wf_cb cb \<longleftrightarrow> 0 < siz_of cb \<and> siz_of cb \<le> 2 ^ 31 \<and> siz_of cb \<le> length (buf cb) \<and>
     fst_of cb < siz_of cb \<and> len_of_cb cb \<le> siz_of cb \<and>
     unat (cend cb) = (if clen cb = 0 then fst_of cb else wrap (siz_of cb) (fst_of cb + len_of_cb cb - 1))"

definition same_mem :: "cirbuf \<Rightarrow> cirbuf \<Rightarrow> bool" where
  "same_mem a b \<longleftrightarrow> maxlen b = maxlen a \<and> length (buf b) = length (buf a)"

lemma chars_length [simp]: "length (chars cb) = len_of_cb cb"
  by (simp add: chars_def)

lemma chars_nth: "i < len_of_cb cb \<Longrightarrow> chars cb ! i = buf cb ! wrap (siz_of cb) (fst_of cb + i)"
  by (simp add: chars_def)

lemma clen_zero: "clen cb = 0 \<longleftrightarrow> len_of_cb cb = 0"
  by (simp add: unsigned_eq_0_iff)

lemma end_less: "wf_cb cb \<Longrightarrow> unat (cend cb) < siz_of cb"
  by (auto simp: wf_cb_def wrap_def)

lemma umod_wrap:
  fixes a b m :: u32
  assumes "unat a + unat b < 2 * unat m" "unat m \<le> 2 ^ 31"
  shows "\<exists>r. umod (a + b) m = Some r \<and> unat r = wrap (unat m) (unat a + unat b)"
proof -
  have "unat (a + b) = unat a + unat b" using assms by (simp add: unat_word_ariths)
  moreover have "m \<noteq> 0" using assms(1) by auto
  ultimately show ?thesis using wrap_mod [OF assms(1)] by (simp add: umod_def unat_mod)
qed

lemma put_c_ok:
  "unat i < length (buf cb) \<Longrightarrow> put_c cb i c = Some (cb\<lparr>buf := (buf cb)[unat i := c]\<rparr>)"
  by (simp add: put_c_def upd_opt_def)

lemma get_c_ok: "unat i < length (buf cb) \<Longrightarrow> get_c cb i = Some (buf cb ! unat i)"
  by (simp add: get_c_def nth_opt_lt)

lemma unat_suc: "len_of_cb cb < siz_of cb \<Longrightarrow> unat (clen cb + 1) = len_of_cb cb + 1"
proof -
  assume "len_of_cb cb < siz_of cb"
  moreover have "unat (maxlen cb) < 2 ^ LENGTH(32)" by (rule unsigned_less)
  ultimately show ?thesis by (simp add: unat_word_ariths)
qed

lemma unat_pred: "clen cb \<noteq> 0 \<Longrightarrow> unat (clen cb - 1) = len_of_cb cb - 1"
  by (simp add: unat_sub word_le_nat_alt clen_zero)

lemma unat_max_pred: "0 < siz_of cb \<Longrightarrow> unat (maxlen cb - 1) = siz_of cb - 1"
  by (simp add: unat_sub word_le_nat_alt)

section \<open>Initialisation and single characters\<close>

lemma cirbuf_init_ok:
  assumes "0 < unat n" "unat n \<le> 2 ^ 31" "unat n \<le> length b" "start < n"
  shows "wf_cb (cirbuf_init b start n)" and "chars (cirbuf_init b start n) = []"
  using assms by (simp_all add: wf_cb_def cirbuf_init_def chars_def word_less_nat_alt)

lemma add_tail_ok:
  assumes w: "wf_cb cb" and f: "len_of_cb cb < siz_of cb"
  shows "\<exists>cb'. cirbuf_add_tail cb c = Some cb' \<and> wf_cb cb' \<and> chars cb' = chars cb @ [c] \<and> same_mem cb cb'"
proof -
  let ?M = "siz_of cb" and ?s = "fst_of cb" and ?L = "len_of_cb cb"
  have b: "0 < ?M" "?M \<le> 2 ^ 31" "?M \<le> length (buf cb)" "?s < ?M" using w by (auto simp: wf_cb_def)
  have "\<exists>t. (if CIRBUF_IS_EMPTY cb then Some (cend cb) else umod (cend cb + 1) (maxlen cb)) = Some t \<and>
      unat t = wrap ?M (?s + ?L)"
  proof (cases "clen cb = 0")
    case True
    then show ?thesis using w b by (simp add: CIRBUF_IS_EMPTY_def wf_cb_def wrap_def)
  next
    case False
    have e: "unat (cend cb) = wrap ?M (?s + ?L - 1)" "0 < ?L"
      using w False by (auto simp: wf_cb_def clen_zero)
    have "unat (cend cb) + unat (1 :: u32) < 2 * ?M" using end_less [OF w] b(1) by simp
    from umod_wrap [OF this b(2)] show ?thesis
      using False e b f by (auto simp: CIRBUF_IS_EMPTY_def wrap_def split: if_splits)
  qed
  then obtain t where t: "(if CIRBUF_IS_EMPTY cb then Some (cend cb) else umod (cend cb + 1) (maxlen cb)) = Some t"
    "unat t = wrap ?M (?s + ?L)" by blast
  have tl: "unat t < length (buf cb)" using t(2) b f by (auto simp: wrap_def)
  let ?cb = "cb\<lparr>cend := t, buf := (buf cb)[unat t := c], clen := clen cb + 1\<rparr>"
  have r: "cirbuf_add_tail cb c = Some ?cb"
    using t(1) put_c_ok [of t "cb\<lparr>cend := t\<rparr>" c] tl by (simp add: cirbuf_add_tail_def)
  have n: "unat (clen cb + 1) = ?L + 1" by (rule unat_suc [OF f])
  then have nz: "clen cb + 1 \<noteq> 0" by (metis add_eq_0_iff_both_eq_0 one_neq_zero unat_0)
  have "wf_cb ?cb" using w n nz t(2) f by (simp add: wf_cb_def)
  moreover have "chars ?cb = chars cb @ [c]"
  proof (rule nth_equalityI)
    fix i assume "i < length (chars ?cb)"
    then have "i < ?L \<or> i = ?L" using n by auto
    then show "chars ?cb ! i = (chars cb @ [c]) ! i"
      using n t(2) b f tl by (auto simp: chars_nth nth_append wrap_def)
  qed (use n in simp)
  ultimately show ?thesis using r by (simp add: same_mem_def)
qed

lemma add_head_ok:
  assumes w: "wf_cb cb" and f: "len_of_cb cb < siz_of cb"
  shows "\<exists>cb'. cirbuf_add_head cb c = Some cb' \<and> wf_cb cb' \<and> chars cb' = c # chars cb \<and> same_mem cb cb'"
proof -
  let ?M = "siz_of cb" and ?s = "fst_of cb" and ?L = "len_of_cb cb"
  have b: "0 < ?M" "?M \<le> 2 ^ 31" "?M \<le> length (buf cb)" "?s < ?M" using w by (auto simp: wf_cb_def)
  define s' where "s' = (if ?L = 0 then ?s else wrap ?M (?s + (?M - 1)))"
  have "\<exists>t. (if CIRBUF_IS_EMPTY cb then Some (cstart cb) else umod (cstart cb + (maxlen cb - 1)) (maxlen cb)) = Some t \<and>
      unat t = s'"
  proof (cases "clen cb = 0")
    case True
    then show ?thesis by (simp add: CIRBUF_IS_EMPTY_def s'_def)
  next
    case False
    have "unat (cstart cb) + unat (maxlen cb - 1) < 2 * ?M" using b unat_max_pred by simp
    from umod_wrap [OF this b(2)] show ?thesis
      using False unat_max_pred [OF b(1)] by (simp add: CIRBUF_IS_EMPTY_def s'_def clen_zero)
  qed
  then obtain t where t: "(if CIRBUF_IS_EMPTY cb then Some (cstart cb)
      else umod (cstart cb + (maxlen cb - 1)) (maxlen cb)) = Some t" "unat t = s'" by blast
  have s': "s' < ?M" using b by (auto simp: s'_def wrap_def)
  let ?cb = "cb\<lparr>cstart := t, buf := (buf cb)[unat t := c], clen := clen cb + 1\<rparr>"
  have r: "cirbuf_add_head cb c = Some ?cb"
    using t put_c_ok [of t "cb\<lparr>cstart := t\<rparr>" c] s' b by (simp add: cirbuf_add_head_def)
  have n: "unat (clen cb + 1) = ?L + 1" by (rule unat_suc [OF f])
  then have nz: "clen cb + 1 \<noteq> 0" by (metis add_eq_0_iff_both_eq_0 one_neq_zero unat_0)
  have "unat (cend cb) = wrap ?M (s' + ?L)"
    using w b f by (auto simp: wf_cb_def s'_def wrap_def clen_zero split: if_splits)
  then have "wf_cb ?cb" using w n nz t(2) s' f by (simp add: wf_cb_def)
  moreover have "chars ?cb = c # chars cb"
  proof (rule nth_equalityI)
    fix i assume "i < length (chars ?cb)"
    then have i: "i < ?L + 1" using n by simp
    show "chars ?cb ! i = (c # chars cb) ! i"
    proof (cases i)
      case 0
      then show ?thesis using n t(2) s' b by (simp add: chars_nth wrap_def)
    next
      case (Suc j)
      then have "wrap ?M (s' + i) = wrap ?M (?s + j)" "wrap ?M (s' + i) \<noteq> s'"
        using i b f s' by (auto simp: s'_def wrap_def split: if_splits)
      then show ?thesis using n t(2) Suc i by (simp add: chars_nth)
    qed
  qed (use n in simp)
  ultimately show ?thesis using r by (simp add: same_mem_def)
qed

lemma del_head_ok:
  assumes w: "wf_cb cb" and f: "chars cb \<noteq> []"
  shows "\<exists>cb'. cirbuf_del_head cb = Some cb' \<and> wf_cb cb' \<and> chars cb' = tl (chars cb) \<and> same_mem cb cb'"
proof -
  let ?M = "siz_of cb" and ?s = "fst_of cb" and ?L = "len_of_cb cb"
  have b: "0 < ?M" "?M \<le> 2 ^ 31" "?s < ?M" "?L \<le> ?M" using w by (auto simp: wf_cb_def)
  have L: "0 < ?L" using f by (auto simp flip: chars_length)
  then have nz: "clen cb \<noteq> 0" by (simp add: clen_zero)
  note n = unat_pred [OF nz]
  show ?thesis
  proof (cases "clen cb - 1 = 0")
    case True
    then have "?L = 1" using n L by simp
    then have "wf_cb (cb\<lparr>clen := clen cb - 1\<rparr>)" "chars (cb\<lparr>clen := clen cb - 1\<rparr>) = tl (chars cb)"
      using w True nz b by (auto simp: wf_cb_def chars_def wrap_def)
    then show ?thesis using True by (simp add: cirbuf_del_head_def CIRBUF_IS_EMPTY_def same_mem_def)
  next
    case False
    have L2: "1 < ?L" using False n L by (metis One_nat_def Suc_lessI diff_Suc_1 unat_eq_zero)
    have "unat (cstart cb) + unat (1 :: u32) < 2 * ?M" using b by simp
    then obtain t where t: "umod (cstart cb + 1) (maxlen cb) = Some t" "unat t = wrap ?M (?s + 1)"
      using umod_wrap [OF _ b(2)] by fastforce
    let ?cb = "cb\<lparr>clen := clen cb - 1, cstart := t\<rparr>"
    have "wf_cb ?cb" using w n t(2) L2 b False nz by (auto simp: wf_cb_def wrap_def split: if_splits)
    moreover have "chars ?cb = tl (chars cb)"
    proof (rule nth_equalityI)
      fix i assume "i < length (chars ?cb)"
      then have i: "i < ?L - 1" using n by simp
      then have "wrap ?M (wrap ?M (?s + 1) + i) = wrap ?M (?s + Suc i)" using b by (auto simp: wrap_def)
      then show "chars ?cb ! i = tl (chars cb) ! i" using i n t(2) by (simp add: chars_nth nth_tl)
    qed (use n in simp)
    ultimately show ?thesis
      using t(1) False by (simp add: cirbuf_del_head_def CIRBUF_IS_EMPTY_def same_mem_def)
  qed
qed

lemma del_tail_ok:
  assumes w: "wf_cb cb" and f: "chars cb \<noteq> []"
  shows "\<exists>cb'. cirbuf_del_tail cb = Some cb' \<and> wf_cb cb' \<and> chars cb' = butlast (chars cb) \<and> same_mem cb cb'"
proof -
  let ?M = "siz_of cb" and ?s = "fst_of cb" and ?L = "len_of_cb cb"
  have b: "0 < ?M" "?M \<le> 2 ^ 31" "?s < ?M" "?L \<le> ?M" using w by (auto simp: wf_cb_def)
  have L: "0 < ?L" using f by (auto simp flip: chars_length)
  then have nz: "clen cb \<noteq> 0" by (simp add: clen_zero)
  note n = unat_pred [OF nz]
  have ch: "chars (cb\<lparr>clen := clen cb - 1, cend := t\<rparr>) = butlast (chars cb)" for t
    by (rule nth_equalityI) (use n in \<open>auto simp: chars_nth nth_butlast\<close>)
  show ?thesis
  proof (cases "clen cb - 1 = 0")
    case True
    then have "?L = 1" using n L by simp
    then have "wf_cb (cb\<lparr>clen := clen cb - 1\<rparr>)"
      using w True nz b by (auto simp: wf_cb_def wrap_def)
    then show ?thesis using True ch [of "cend cb"] by (simp add: cirbuf_del_tail_def CIRBUF_IS_EMPTY_def same_mem_def)
  next
    case False
    have L2: "1 < ?L" using False n L by (metis One_nat_def Suc_lessI diff_Suc_1 unat_eq_zero)
    have e: "unat (cend cb) = wrap ?M (?s + ?L - 1)" using w nz by (simp add: wf_cb_def)
    have "unat (cend cb) + unat (maxlen cb - 1) < 2 * ?M"
      using end_less [OF w] unat_max_pred [OF b(1)] by simp
    then obtain t where t: "umod (cend cb + (maxlen cb - 1)) (maxlen cb) = Some t"
      "unat t = wrap ?M (unat (cend cb) + (?M - 1))"
      using umod_wrap [OF _ b(2)] unat_max_pred [OF b(1)] by fastforce
    have "unat t = wrap ?M (?s + (?L - 1) - 1)"
      unfolding t(2) e by (rule wrap_back) (use b L2 in linarith)+
    then have "wf_cb (cb\<lparr>clen := clen cb - 1, cend := t\<rparr>)"
      using w n L2 b False by (simp add: wf_cb_def)
    then show ?thesis
      using t(1) False ch [of t] by (simp add: cirbuf_del_tail_def CIRBUF_IS_EMPTY_def same_mem_def)
  qed
qed

lemma get_head_ok:
  assumes w: "wf_cb cb" and f: "chars cb \<noteq> []"
  shows "cirbuf_get_head cb = Some (hd (chars cb))"
proof -
  have "0 < len_of_cb cb" using f by (auto simp flip: chars_length)
  then have "hd (chars cb) = buf cb ! fst_of cb"
    using f w by (simp add: hd_conv_nth chars_nth wf_cb_def wrap_def)
  moreover have "fst_of cb < length (buf cb)" using w by (simp add: wf_cb_def)
  ultimately show ?thesis by (simp add: cirbuf_get_head_def get_c_ok)
qed

lemma get_tail_ok:
  assumes w: "wf_cb cb" and f: "chars cb \<noteq> []"
  shows "cirbuf_get_tail cb = Some (last (chars cb))"
proof -
  have L: "0 < len_of_cb cb" using f by (auto simp flip: chars_length)
  then have "unat (cend cb) = wrap (siz_of cb) (fst_of cb + (len_of_cb cb - 1))"
    using w by (simp add: wf_cb_def clen_zero)
  then have "last (chars cb) = buf cb ! unat (cend cb)"
    using f L by (simp add: last_conv_nth chars_nth)
  moreover have "unat (cend cb) < length (buf cb)" using end_less [OF w] w by (simp add: wf_cb_def)
  ultimately show ?thesis by (simp add: cirbuf_get_tail_def get_c_ok)
qed

section \<open>Blocks of characters\<close>

text \<open>\<open>b'\<close> is \<open>b\<close> with \<open>xs\<close> written around the array from position \<open>p\<close> on.\<close>

definition ring_put :: "nat \<Rightarrow> nat \<Rightarrow> 'a list \<Rightarrow> 'a list \<Rightarrow> 'a list \<Rightarrow> bool" where
  "ring_put m p xs b b' \<longleftrightarrow> length b' = length b \<and> (\<forall>k < length xs. b' ! wrap m (p + k) = xs ! k) \<and>
     (\<forall>j < length b. (\<forall>k < length xs. j \<noteq> wrap m (p + k)) \<longrightarrow> b' ! j = b ! j)"

lemma ring_put_once:
  assumes "blit b p xs = Some b'" "p + length xs \<le> m" "m \<le> length b"
  shows "ring_put m p xs b b'"
proof -
  obtain c where c: "blit b p xs = Some c" "length c = length b"
    "\<And>j. j < length b \<Longrightarrow> c ! j = (if p \<le> j \<and> j < p + length xs then xs ! (j - p) else b ! j)"
    using blit_ok [of p xs b] assms by auto
  have w: "wrap m (p + k) = p + k" if "k < length xs" for k using that assms(2) by (simp add: wrap_def)
  have "b' = c" using c(1) assms(1) by simp
  moreover have "c ! j = b ! j" if "j < length b" "\<forall>k < length xs. j \<noteq> wrap m (p + k)" for j
  proof -
    have "\<not> (p \<le> j \<and> j < p + length xs)"
    proof
      assume "p \<le> j \<and> j < p + length xs"
      then have "j - p < length xs" "p + (j - p) = j" by auto
      then show False using that(2) w by metis
    qed
    then show ?thesis using c(3) that(1) by auto
  qed
  ultimately show ?thesis using c w assms(2,3) by (auto simp: ring_put_def)
qed

lemma ring_put_twice:
  assumes b: "length b' = length b" "m \<le> length b" "p \<le> m" "m - p \<le> length xs" "length xs \<le> m"
    and n: "\<And>j. j < length b \<Longrightarrow> b' ! j = (if p \<le> j \<and> j < m then xs ! (j - p)
      else if j < length xs - (m - p) then xs ! (m - p + j) else b ! j)"
  shows "ring_put m p xs b b'"
proof -
  have "b' ! wrap m (p + k) = xs ! k" if k: "k < length xs" for k
  proof (cases "p + k < m")
    case True
    then show ?thesis using n [of "p + k"] b by (simp add: wrap_def)
  next
    case False
    then have "p + k - m < length xs - (m - p)" "\<not> p \<le> p + k - m" "m - p + (p + k - m) = k" using k b by auto
    then show ?thesis using n [of "p + k - m"] b False k by (simp add: wrap_def)
  qed
  moreover have "b' ! j = b ! j" if j: "j < length b" "\<forall>k < length xs. j \<noteq> wrap m (p + k)" for j
  proof -
    have "\<not> (p \<le> j \<and> j < m)"
    proof
      assume a: "p \<le> j \<and> j < m"
      then have "j - p < length xs" "wrap m (p + (j - p)) = j" using b by (auto simp: wrap_def)
      then show False using j(2) by metis
    qed
    moreover have "\<not> j < length xs - (m - p)"
    proof
      assume "j < length xs - (m - p)"
      then have "m - p + j < length xs" "wrap m (p + (m - p + j)) = j" using b by (auto simp: wrap_def)
      then show False using j(2) by metis
    qed
    ultimately show ?thesis using n [OF j(1)] by auto
  qed
  ultimately show ?thesis using b(1) by (simp add: ring_put_def)
qed

text \<open>The two copies of a block that reaches the end of the array, in either order.\<close>

lemma two_blits:
  assumes "m \<le> length b" "p \<le> m" "m - p \<le> length xs" "length xs \<le> m"
  shows "\<exists>b1 b2. blit b p (take (m - p) xs) = Some b1 \<and> blit b1 0 (drop (m - p) xs) = Some b2 \<and> ring_put m p xs b b2"
    and "\<exists>b1 b2. blit b 0 (drop (m - p) xs) = Some b1 \<and> blit b1 p (take (m - p) xs) = Some b2 \<and> ring_put m p xs b b2"
proof -
  let ?h = "take (m - p) xs" and ?t = "drop (m - p) xs"
  have l: "length ?h = m - p" "length ?t = length xs - (m - p)" using assms by simp_all
  have t: "0 + length ?t \<le> length b" "p + length ?h \<le> length b" using assms unfolding l by linarith+
  obtain b1 where b1: "blit b p ?h = Some b1" "length b1 = length b"
    "\<And>j. j < length b \<Longrightarrow> b1 ! j = (if p \<le> j \<and> j < p + (m - p) then ?h ! (j - p) else b ! j)"
    using blit_ok [OF t(2)] l by auto
  obtain b2 where b2: "blit b1 0 ?t = Some b2" "length b2 = length b"
    "\<And>j. j < length b \<Longrightarrow> b2 ! j = (if j < length xs - (m - p) then ?t ! j else b1 ! j)"
    using blit_ok [OF t(1) [folded b1(2)]] l b1(2) by auto
  have "ring_put m p xs b b2"
    by (rule ring_put_twice [OF b2(2) assms]) (use assms b1(3) b2(3) in auto)
  then show "\<exists>b1 b2. blit b p ?h = Some b1 \<and> blit b1 0 ?t = Some b2 \<and> ring_put m p xs b b2"
    using b1 b2 by blast
  obtain b3 where b3: "blit b 0 ?t = Some b3" "length b3 = length b"
    "\<And>j. j < length b \<Longrightarrow> b3 ! j = (if j < length xs - (m - p) then ?t ! j else b ! j)"
    using blit_ok [OF t(1)] l by auto
  obtain b4 where b4: "blit b3 p ?h = Some b4" "length b4 = length b"
    "\<And>j. j < length b \<Longrightarrow> b4 ! j = (if p \<le> j \<and> j < p + (m - p) then ?h ! (j - p) else b3 ! j)"
    using blit_ok [OF t(2) [folded b3(2)]] l b3(2) by auto
  have "ring_put m p xs b b4"
    by (rule ring_put_twice [OF b4(2) assms]) (use assms b3(3) b4(3) in auto)
  then show "\<exists>b1 b2. blit b 0 ?t = Some b1 \<and> blit b1 p ?h = Some b2 \<and> ring_put m p xs b b2"
    using b3 b4 by blast
qed

text \<open>What a written block is in the content.\<close>

lemma ring_put_tail:
  assumes r: "ring_put m p xs b b'" and p: "p = s + l \<or> p + m = s + l"
    and b: "s < m" "l + length xs \<le> m" "m \<le> length b"
  shows "map (\<lambda>i. b' ! wrap m (s + i)) [0..<l + length xs] = map (\<lambda>i. b ! wrap m (s + i)) [0..<l] @ xs"
proof (rule nth_equalityI)
  fix i assume "i < length (map (\<lambda>i. b' ! wrap m (s + i)) [0..<l + length xs])"
  then have i: "i < l + length xs" by simp
  show "map (\<lambda>i. b' ! wrap m (s + i)) [0..<l + length xs] ! i = (map (\<lambda>i. b ! wrap m (s + i)) [0..<l] @ xs) ! i"
  proof (cases "i < l")
    case True
    have "wrap m (s + i) < length b" "\<forall>k < length xs. wrap m (s + i) \<noteq> wrap m (p + k)"
      using True b p by (auto simp: wrap_def split: if_splits)
    then show ?thesis using r True i by (simp add: ring_put_def nth_append)
  next
    case False
    then obtain k where k: "i = l + k" "k < length xs" using i by (metis add_less_cancel_left le_Suc_ex not_less)
    then have "wrap m (s + i) = wrap m (p + k)" using b p by (auto simp: wrap_def)
    then show ?thesis using r k by (simp add: ring_put_def nth_append)
  qed
qed simp

lemma ring_put_head:
  assumes r: "ring_put m p xs b b'" and p: "s' = wrap m p" "p + length xs = s \<or> p + length xs = s + m"
    and b: "s < m" "l + length xs \<le> m" "m \<le> length b" "p \<le> m"
  shows "map (\<lambda>i. b' ! wrap m (s' + i)) [0..<l + length xs] = xs @ map (\<lambda>i. b ! wrap m (s + i)) [0..<l]"
proof (rule nth_equalityI)
  fix i assume "i < length (map (\<lambda>i. b' ! wrap m (s' + i)) [0..<l + length xs])"
  then have i: "i < l + length xs" by simp
  show "map (\<lambda>i. b' ! wrap m (s' + i)) [0..<l + length xs] ! i = (xs @ map (\<lambda>i. b ! wrap m (s + i)) [0..<l]) ! i"
  proof (cases "i < length xs")
    case True
    have "wrap m (s' + i) = wrap m (p + i)" using True b p by (auto simp: wrap_def)
    then show ?thesis using r True i by (simp add: ring_put_def nth_append)
  next
    case False
    then obtain k where k: "i = length xs + k" "k < l"
      using i by (metis add.commute add_less_cancel_right le_Suc_ex not_less)
    have w: "wrap m (s' + i) = wrap m (s + k)" using k b p by (auto simp: wrap_def split: if_splits)
    have "wrap m (s + k) < length b" "\<forall>q < length xs. wrap m (s + k) \<noteq> wrap m (p + q)"
      using k b p by (auto simp: wrap_def split: if_splits)
    then show ?thesis using r k w by (simp add: ring_put_def nth_append)
  qed
qed simp

lemma free_len: "wf_cb cb \<Longrightarrow> unat (CIRBUF_GET_FREELEN cb) = siz_of cb - len_of_cb cb"
  by (simp add: CIRBUF_GET_FREELEN_def wf_cb_def unat_sub word_le_nat_alt)

lemma memcpy_in_ok:
  assumes "unat si + unat n \<le> length c" "blit (buf cb) (unat d) (take (unat n) (drop (unat si) c)) = Some b"
  shows "memcpy_in cb d c si n = Some (cb\<lparr>buf := b\<rparr>)"
  using assms by (simp add: memcpy_in_def slice_of_def)

text \<open>
  Where the tail block goes: from \<open>cend + 1\<close>, or from \<open>cend\<close> into an empty buffer, and how many
  characters fit before the end of the array.
\<close>

lemma tail_room:
  assumes w: "wf_cb cb"
  shows "unat (cend cb + (1 - empty_bit cb)) = (if clen cb = 0 then unat (cend cb) else unat (cend cb) + 1)"
    and "unat (cend cb + (1 - empty_bit cb)) \<le> siz_of cb"
    and "unat (maxlen cb - cend cb - 1 + empty_bit cb) = siz_of cb - unat (cend cb + (1 - empty_bit cb))"
proof -
  have e: "unat (cend cb) < siz_of cb" "siz_of cb \<le> 2 ^ 31" using w end_less [OF w] by (auto simp: wf_cb_def)
  then have s: "unat (cend cb + 1) = unat (cend cb) + 1" by (simp add: unat_word_ariths)
  show 1: "unat (cend cb + (1 - empty_bit cb)) = (if clen cb = 0 then unat (cend cb) else unat (cend cb) + 1)"
    using s by (simp add: empty_bit_def CIRBUF_IS_EMPTY_def)
  then show "unat (cend cb + (1 - empty_bit cb)) \<le> siz_of cb" using e by simp
  have le: "cend cb \<le> maxlen cb" "cend cb + 1 \<le> maxlen cb" using e s by (simp_all add: word_le_nat_alt)
  show "unat (maxlen cb - cend cb - 1 + empty_bit cb) = siz_of cb - unat (cend cb + (1 - empty_bit cb))"
    using s le by (auto simp: empty_bit_def CIRBUF_IS_EMPTY_def unat_sub diff_diff_eq)
qed

lemma add_buf_tail_ok:
  assumes w: "wf_cb cb" and n: "0 < unat n" "len_of_cb cb + unat n \<le> siz_of cb" "unat n \<le> length c"
  shows "\<exists>cb'. cirbuf_add_buf_tail cb c n = Some (cb', n) \<and> wf_cb cb' \<and>
    chars cb' = chars cb @ take (unat n) c \<and> same_mem cb cb'"
proof -
  let ?M = "siz_of cb" and ?s = "fst_of cb" and ?L = "len_of_cb cb" and ?N = "unat n" and ?e = "empty_bit cb"
  have b: "0 < ?M" "?M \<le> 2 ^ 31" "?M \<le> length (buf cb)" "?s < ?M" using w by (auto simp: wf_cb_def)
  define d where "d = cend cb + (1 - ?e)"
  define r where "r = maxlen cb - cend cb - 1 + ?e"
  note T = tail_room [OF w, folded d_def r_def]
  have xs: "length (take ?N c) = ?N" using n(3) by simp
  have guard: "\<not> (n = 0 \<or> n > CIRBUF_GET_FREELEN cb)"
    using n free_len [OF w] by (auto simp: word_less_nat_alt)
  have n2: "n - maxlen cb + cend cb + 1 - ?e = n - r" by (simp add: r_def)
  have "\<exists>b'. (if n < r then memcpy_in cb d c 0 n
        else do { cb1 \<leftarrow> memcpy_in cb d c 0 r; memcpy_in cb1 0 c r (n - r) }) = Some (cb\<lparr>buf := b'\<rparr>) \<and>
      ring_put ?M (unat d) (take ?N c) (buf cb) b'"
  proof (cases "n < r")
    case True
    then have lt: "unat d + length (take ?N c) \<le> ?M" using T(2,3) xs by (simp add: word_less_nat_alt)
    then obtain b' where b': "blit (buf cb) (unat d) (take ?N c) = Some b'"
      using blit_ok [of "unat d" "take ?N c" "buf cb"] b(3) by auto
    then show ?thesis
      using True memcpy_in_ok [of 0 n c cb d b'] n(3) ring_put_once [OF b' lt b(3)] by auto
  next
    case False
    then have le: "?M - unat d \<le> length (take ?N c)" using T(3) xs by (simp add: word_less_nat_alt)
    have nr: "unat (n - r) = ?N - unat r" using False by (simp add: unat_sub)
    obtain b1 b2 where B: "blit (buf cb) (unat d) (take (?M - unat d) (take ?N c)) = Some b1"
      "blit b1 0 (drop (?M - unat d) (take ?N c)) = Some b2" "ring_put ?M (unat d) (take ?N c) (buf cb) b2"
      using two_blits(1) [OF b(3) T(2) le] xs n(2) by auto
    have "memcpy_in cb d c 0 r = Some (cb\<lparr>buf := b1\<rparr>)"
      by (rule memcpy_in_ok) (use B(1) T(3) le xs n(3) in \<open>auto simp: min_absorb1\<close>)
    moreover have "memcpy_in (cb\<lparr>buf := b1\<rparr>) 0 c r (n - r) = Some (cb\<lparr>buf := b2\<rparr>)"
      using memcpy_in_ok [of r "n - r" c "cb\<lparr>buf := b1\<rparr>" 0 b2] B(2) T(3) le xs n(3) nr by (simp add: drop_take)
    ultimately show ?thesis using False B(3) by auto
  qed
  then obtain b' where m: "(if n < r then memcpy_in cb d c 0 n
        else do { cb1 \<leftarrow> memcpy_in cb d c 0 r; memcpy_in cb1 0 c r (n - r) }) = Some (cb\<lparr>buf := b'\<rparr>)"
    and rp: "ring_put ?M (unat d) (take ?N c) (buf cb) b'" by blast
  have ne: "unat (n - ?e) = ?N - (if clen cb = 0 then 1 else 0)"
    using n(1) by (simp add: empty_bit_def CIRBUF_IS_EMPTY_def unat_sub word_le_nat_alt)
  have "unat (cend cb) + unat (n - ?e) < 2 * ?M" using ne n end_less [OF w] by linarith
  then obtain t where t: "umod (cend cb + (n - ?e)) (maxlen cb) = Some t"
    "unat t = wrap ?M (unat (cend cb) + unat (n - ?e))" using umod_wrap [OF _ b(2)] by blast
  have L': "unat (clen cb + n) = ?L + ?N" using n(2) b(2) by (simp add: unat_word_ariths)
  have nz: "clen cb + n \<noteq> 0" using L' n(1) by (metis add_is_0 less_numeral_extra(3) unat_0)
  let ?cb = "cb\<lparr>buf := b', clen := clen cb + n, cend := t\<rparr>"
  have res: "cirbuf_add_buf_tail cb c n = Some (?cb, n)"
    using guard m t(1)
    by (cases "n < r") (auto simp: cirbuf_add_buf_tail_def d_def [symmetric] r_def [symmetric] n2 split: bind_splits)
  have e: "unat (cend cb) = (if clen cb = 0 then ?s else wrap ?M (?s + ?L - 1))" using w by (simp add: wf_cb_def)
  have "unat t = wrap ?M (?s + (?L + ?N) - 1)"
    using t(2) ne e n b(4) by (auto simp: wrap_def clen_zero split: if_splits)
  then have "wf_cb ?cb" using w L' nz n(2) rp by (simp add: wf_cb_def ring_put_def)
  moreover have "unat d = ?s + ?L \<or> unat d + ?M = ?s + ?L"
    using T(1) e b(4) by (auto simp: wrap_def clen_zero split: if_splits)
  then have "chars ?cb = chars cb @ take ?N c"
    using ring_put_tail [OF rp _ b(4) _ b(3)] xs n(2) L' by (simp add: chars_def)
  ultimately show ?thesis using res rp by (auto simp: same_mem_def ring_put_def)
qed

lemma ring_put_alone:
  assumes "ring_put m p xs b b'" "length xs \<le> m" "p \<le> m"
  shows "map (\<lambda>i. b' ! wrap m (wrap m p + i)) [0..<length xs] = xs"
proof (rule nth_equalityI)
  fix i assume i: "i < length (map (\<lambda>i. b' ! wrap m (wrap m p + i)) [0..<length xs])"
  then have "wrap m (wrap m p + i) = wrap m (p + i)" using assms(2,3) by (auto simp: wrap_def)
  then show "map (\<lambda>i. b' ! wrap m (wrap m p + i)) [0..<length xs] ! i = xs ! i"
    using assms(1) i by (simp add: ring_put_def)
qed simp

text \<open>The head block goes before the first character, or before the next one of an empty buffer.\<close>

lemma head_room:
  assumes w: "wf_cb cb"
  shows "unat (cstart cb + empty_bit cb) = (if clen cb = 0 then fst_of cb + 1 else fst_of cb)"
    and "unat (cstart cb + empty_bit cb) \<le> siz_of cb"
proof -
  have e: "fst_of cb < siz_of cb" "siz_of cb \<le> 2 ^ 31" using w by (auto simp: wf_cb_def)
  then have s: "unat (cstart cb + 1) = fst_of cb + 1" by (simp add: unat_word_ariths)
  then show "unat (cstart cb + empty_bit cb) = (if clen cb = 0 then fst_of cb + 1 else fst_of cb)"
    by (simp add: empty_bit_def CIRBUF_IS_EMPTY_def)
  then show "unat (cstart cb + empty_bit cb) \<le> siz_of cb" using e by simp
qed

lemma add_buf_head_ok:
  assumes w: "wf_cb cb" and n: "0 < unat n" "len_of_cb cb + unat n \<le> siz_of cb" "unat n \<le> length c"
  shows "\<exists>cb'. cirbuf_add_buf_head cb c n = Some (cb', n) \<and> wf_cb cb' \<and>
    chars cb' = take (unat n) c @ chars cb \<and> same_mem cb cb'"
proof -
  let ?M = "siz_of cb" and ?s = "fst_of cb" and ?L = "len_of_cb cb" and ?N = "unat n" and ?e = "empty_bit cb"
  have b: "0 < ?M" "?M \<le> 2 ^ 31" "?M \<le> length (buf cb)" "?s < ?M" using w by (auto simp: wf_cb_def)
  define h where "h = cstart cb + ?e"
  note H = head_room [OF w, folded h_def]
  define p where "p = (if n < h then unat h - ?N else ?M - ?N + unat h)"
  have pM: "p \<le> ?M" using H(2) n(2) by (auto simp: p_def word_less_nat_alt)
  have xs: "length (take ?N c) = ?N" using n(3) by simp
  have guard: "\<not> (n = 0 \<or> n > CIRBUF_GET_FREELEN cb)"
    using n free_len [OF w] by (auto simp: word_less_nat_alt)
  have d1: "cstart cb - n + ?e = h - n" by (simp add: h_def)
  have "\<exists>b'. (if n < h then memcpy_in cb (h - n) c 0 n
        else do { cb1 \<leftarrow> memcpy_in cb 0 c (n - h) h; memcpy_in cb1 (maxlen cb - n + h) c 0 (n - h) }) =
          Some (cb\<lparr>buf := b'\<rparr>) \<and> ring_put ?M p (take ?N c) (buf cb) b'"
  proof (cases "n < h")
    case True
    then have p: "unat (h - n) = p" by (simp add: p_def unat_sub less_imp_le)
    have lt: "p + length (take ?N c) \<le> ?M" using H(2) xs True by (simp add: p_def word_less_nat_alt)
    then obtain b' where b': "blit (buf cb) p (take ?N c) = Some b'"
      using blit_ok [of p "take ?N c" "buf cb"] b(3) by auto
    then show ?thesis
      using True memcpy_in_ok [of 0 n c cb "h - n" b'] p n(3) ring_put_once [OF b' lt b(3)] by auto
  next
    case False
    have nh: "unat (n - h) = ?N - unat h" "unat h \<le> ?N"
      using False by (auto simp: unat_sub word_less_nat_alt word_le_nat_alt)
    have p: "p = ?M - ?N + unat h" using False by (simp add: p_def)
    then have le: "?M - p \<le> length (take ?N c)" "?M - p = ?N - unat h" using xs nh n(2) by auto
    have "unat (maxlen cb - n) = ?M - ?N" using n(2) by (simp add: unat_sub word_le_nat_alt)
    then have pu: "unat (maxlen cb - n + h) = p"
      using p nh n(2) b(2) by (simp add: unat_word_ariths)
    obtain b1 b2 where B: "blit (buf cb) 0 (drop (?M - p) (take ?N c)) = Some b1"
      "blit b1 p (take (?M - p) (take ?N c)) = Some b2" "ring_put ?M p (take ?N c) (buf cb) b2"
      using two_blits(2) [OF b(3) pM le(1)] xs n(2) by auto
    have "memcpy_in cb 0 c (n - h) h = Some (cb\<lparr>buf := b1\<rparr>)"
      using memcpy_in_ok [of "n - h" h c cb 0 b1] B(1) nh le(2) n(3) by (simp add: drop_take)
    moreover have "memcpy_in (cb\<lparr>buf := b1\<rparr>) (maxlen cb - n + h) c 0 (n - h) = Some (cb\<lparr>buf := b2\<rparr>)"
      using memcpy_in_ok [of 0 "n - h" c "cb\<lparr>buf := b1\<rparr>" "maxlen cb - n + h" b2] B(2) pu nh le(2) n(3)
      by (simp add: min_def)
    ultimately show ?thesis using False B(3) by auto
  qed
  then obtain b' where m: "(if n < h then memcpy_in cb (h - n) c 0 n
        else do { cb1 \<leftarrow> memcpy_in cb 0 c (n - h) h; memcpy_in cb1 (maxlen cb - n + h) c 0 (n - h) }) =
          Some (cb\<lparr>buf := b'\<rparr>)" and rp: "ring_put ?M p (take ?N c) (buf cb) b'" by blast
  have mn: "unat (maxlen cb - n) = ?M - ?N" using n(2) by (simp add: unat_sub word_le_nat_alt)
  then have mne: "unat (maxlen cb - n + ?e) = ?M - ?N + (if clen cb = 0 then 1 else 0)"
    using b(2) by (simp add: empty_bit_def CIRBUF_IS_EMPTY_def unat_word_ariths)
  have sum: "?s + unat (maxlen cb - n + ?e) = unat h + (?M - ?N)" using mne H(1) by simp
  have "?s + unat (maxlen cb - n + ?e) < 2 * ?M" unfolding sum using H(2) n b(1) by linarith
  then obtain t where t: "umod (cstart cb + (maxlen cb - n + ?e)) (maxlen cb) = Some t"
    "unat t = wrap ?M (unat h + (?M - ?N))" using umod_wrap [OF _ b(2)] sum by metis
  have tp: "unat t = wrap ?M p"
    using t(2) H(2) n b(1) by (auto simp: p_def wrap_def word_less_nat_alt add.commute)
  have L': "unat (clen cb + n) = ?L + ?N" using n(2) b(2) by (simp add: unat_word_ariths)
  have nz: "clen cb + n \<noteq> 0" using L' n(1) by (metis add_is_0 less_numeral_extra(3) unat_0)
  let ?cb = "cb\<lparr>buf := b', clen := clen cb + n, cstart := t\<rparr>"
  have res: "cirbuf_add_buf_head cb c n = Some (?cb, n)"
    using guard m t(1)
    by (cases "n < h") (auto simp: cirbuf_add_buf_head_def h_def [symmetric] d1 split: bind_splits)
  have e: "unat (cend cb) = (if clen cb = 0 then ?s else wrap ?M (?s + ?L - 1))" using w by (simp add: wf_cb_def)
  have "unat (cend cb) = wrap ?M (unat t + (?L + ?N) - 1)"
    using t(2) H e n b(4) by (auto simp: wrap_def clen_zero split: if_splits)
  moreover have "unat t < ?M" using t(2) H n b(1) by (auto simp: wrap_def)
  ultimately have "wf_cb ?cb" using w L' nz n(2) rp by (simp add: wf_cb_def ring_put_def)
  moreover have "chars ?cb = take ?N c @ chars cb"
  proof (cases "clen cb = 0")
    case True
    then show ?thesis using ring_put_alone [OF rp _ pM] xs n(2) L' tp by (simp add: chars_def)
  next
    case False
    then have "p + length (take ?N c) = ?s \<or> p + length (take ?N c) = ?s + ?M"
      using H(1) xs n(2) by (auto simp: p_def word_less_nat_alt)
    then show ?thesis
      using ring_put_head [OF rp tp _ b(4) _ b(3) pM] xs n(2) L' by (simp add: chars_def)
  qed
  ultimately show ?thesis using res rp by (auto simp: same_mem_def ring_put_def)
qed

end
