(* ===== verification/Cirbuf_Align.thy ===== *)
theory Cirbuf_Align
  imports Cirbuf_Props
begin

text \<open>
  Blocks removed and copied out of the circular buffer, and its alignment: \<open>cirbuf_align_left\<close> ends and
  moves the content to the beginning of the array without changing it.
\<close>

section \<open>Indices around the array\<close>

lemma wrap_less: "x < 2 * m \<Longrightarrow> wrap m x < m"
  by (auto simp: wrap_def)

lemma wrap_wrap: "x < 2 * m \<Longrightarrow> y < m \<Longrightarrow> x + y < 2 * m \<Longrightarrow> wrap m (wrap m x + y) = wrap m (x + y)"
  by (auto simp: wrap_def)

lemma wrap_inj: "s < m \<Longrightarrow> i < m \<Longrightarrow> j < m \<Longrightarrow> wrap m (s + i) = wrap m (s + j) \<longleftrightarrow> i = j"
  by (auto simp: wrap_def split: if_splits)

lemma wrap_inj_down:
  "e < m \<Longrightarrow> i < m \<Longrightarrow> j < m \<Longrightarrow> wrap m (e + m - i) = wrap m (e + m - j) \<longleftrightarrow> i = j"
  by (auto simp: wrap_def split: if_splits)

lemma wrap_drop_tail:
  assumes "s < m" "l \<le> m" "0 < n" "n \<le> l"
  shows "wrap m (wrap m (s + l - 1) + (m - n)) = (if l = n then wrap m (s + m - 1) else wrap m (s + (l - n) - 1))"
  using assms by (auto simp: wrap_def)

lemma wrap_drop_all:
  assumes "s < m" "l \<le> m" "0 < l"
  shows "wrap m (wrap m (s + l - 1) + (m - l + 1)) = s"
  using assms by (auto simp: wrap_def)

lemma wrap_drop_head:
  assumes "s < m" "l \<le> m" "n < l"
  shows "wrap m (s + l - 1) = wrap m (wrap m (s + n) + (l - n) - 1)"
  using assms by (auto simp: wrap_def)

lemma wrap_left_end:
  assumes "s < m" "l \<le> m"
  shows "l \<noteq> 0 \<Longrightarrow> wrap m (wrap m (s + l - 1) + (m - 1)) = wrap m (wrap m (s + (m - 1)) + l - 1)"
  using assms by (auto simp: wrap_def)

lemma wrap_left_step:
  assumes "s < m" "Suc j < m"
  shows "wrap m (wrap m (s + (m - 1)) + Suc j) = wrap m (s + j)"
  using assms by (auto simp: wrap_def)

lemma wrap_right_end:
  assumes "s < m" "l \<le> m"
  shows "l \<noteq> 0 \<Longrightarrow> wrap m (wrap m (s + l - 1) + 1) = wrap m (wrap m (s + 1) + l - 1)"
  using assms by (auto simp: wrap_def)

lemma wrap_right_step:
  assumes "s < m" "l \<le> m" "i + 1 < l"
  shows "wrap m (wrap m (s + l - 1) + m - (l - 2 - i)) = wrap m (wrap m (s + 1) + i)"
    and "wrap m (wrap m (s + l - 1) + m - (l - 2 - i) - 1) = wrap m (s + i)"
    and "wrap m (wrap m (s + 1) + i) \<noteq> wrap m (wrap m (s + l - 1) + 1)"
  using assms by (auto simp: wrap_def)

section \<open>Removing blocks\<close>

lemma del_buf_head_ok:
  assumes w: "wf_cb cb" and n: "0 < unat n" "unat n \<le> len_of_cb cb"
  shows "\<exists>cb'. cirbuf_del_buf_head cb n = Some (cb', 0) \<and> wf_cb cb' \<and> chars cb' = drop (unat n) (chars cb) \<and>
    same_mem cb cb'"
proof -
  let ?M = "siz_of cb" and ?s = "fst_of cb" and ?L = "len_of_cb cb" and ?N = "unat n"
  have b: "0 < ?M" "?M \<le> 2 ^ 31" "?s < ?M" "?L \<le> ?M" "?M \<le> length (buf cb)"
    using w by (auto simp: wf_cb_def)
  have guard: "\<not> (n = 0 \<or> n > clen cb)" using n by (auto simp: word_less_nat_alt)
  have l: "unat (clen cb - n) = ?L - ?N" using n(2) by (simp add: unat_sub word_le_nat_alt)
  have z: "clen cb - n = 0 \<longleftrightarrow> ?L = ?N" using l n by (auto simp: word_unat_eq_iff)
  let ?k = "if clen cb - n = 0 then n - 1 else n"
  have k: "unat ?k = (if ?L = ?N then ?N - 1 else ?N)"
    using n l z by (auto simp: unat_sub word_le_nat_alt)
  have "?s + unat ?k < 2 * ?M" using k b n by (auto split: if_splits)
  then obtain t where t: "umod (cstart cb + ?k) (maxlen cb) = Some t" "unat t = wrap ?M (?s + unat ?k)"
    using umod_wrap [OF _ b(2)] by blast
  let ?cb = "cb\<lparr>clen := clen cb - n, cstart := t\<rparr>"
  have res: "cirbuf_del_buf_head cb n = Some (?cb, 0)"
    using guard t(1) by (simp add: cirbuf_del_buf_head_def CIRBUF_IS_EMPTY_def)
  have nz: "clen cb \<noteq> 0" using n by (auto simp: clen_zero)
  have tb: "unat t < ?M" using t(2) k b n by (auto simp: wrap_def split: if_splits)
  have e: "unat (cend cb) = wrap ?M (?s + ?L - 1)" using w nz by (simp add: wf_cb_def)
  have "unat (cend cb) = (if clen cb - n = 0 then unat t else wrap ?M (unat t + (?L - ?N) - 1))"
  proof (cases "?L = ?N")
    case True
    then have "clen cb - n = 0" using z by simp
    then show ?thesis using True e t(2) k n by (simp add: Nat.add_diff_assoc)
  next
    case False
    then have "clen cb - n \<noteq> 0" "?N < ?L" using z n by simp_all
    then show ?thesis using False e t(2) k b wrap_drop_head [of ?s ?M ?L ?N] by simp
  qed
  moreover have "?L - ?N \<le> ?M" using b(4) by linarith
  ultimately have "wf_cb ?cb" unfolding wf_cb_def using l tb b by simp
  moreover have "chars ?cb = drop ?N (chars cb)"
  proof (rule nth_equalityI)
    fix i assume "i < length (chars ?cb)"
    then have i: "i < ?L - ?N" using l by simp
    then have "?L \<noteq> ?N" by linarith
    then have k': "unat t = wrap ?M (?s + ?N)" using t(2) k by simp
    have "wrap ?M (unat t + i) = wrap ?M (?s + (?N + i))"
      unfolding k' using wrap_wrap [of "?s + ?N" ?M i] i b by (simp add: add.assoc)
    then show "chars ?cb ! i = drop ?N (chars cb) ! i" using i l by (simp add: chars_nth)
  qed (use l in simp)
  ultimately show ?thesis using res by (simp add: same_mem_def)
qed

lemma del_buf_tail_ok:
  assumes w: "wf_cb cb" and n: "0 < unat n" "unat n \<le> len_of_cb cb"
  shows "\<exists>cb'. cirbuf_del_buf_tail cb n = Some (cb', 0) \<and> wf_cb cb' \<and>
    chars cb' = take (len_of_cb cb - unat n) (chars cb) \<and> same_mem cb cb'"
proof -
  let ?M = "siz_of cb" and ?s = "fst_of cb" and ?L = "len_of_cb cb" and ?N = "unat n"
  have b: "0 < ?M" "?M \<le> 2 ^ 31" "?s < ?M" "?L \<le> ?M" using w by (auto simp: wf_cb_def)
  have guard: "\<not> (n = 0 \<or> n > clen cb)" using n by (auto simp: word_less_nat_alt)
  have l: "unat (clen cb - n) = ?L - ?N" using n(2) by (simp add: unat_sub word_le_nat_alt)
  have mn: "unat (maxlen cb - n) = ?M - ?N" using n(2) b by (simp add: unat_sub word_le_nat_alt)
  let ?k = "if clen cb - n = 0 then maxlen cb - n + 1 else maxlen cb - n"
  have z: "clen cb - n = 0 \<longleftrightarrow> ?L = ?N" using l n by (auto simp: word_unat_eq_iff)
  have k: "unat ?k = (if ?L = ?N then ?M - ?N + 1 else ?M - ?N)"
    using mn b n z by (simp add: unat_word_ariths)
  have nz: "clen cb \<noteq> 0" using n by (auto simp: clen_zero)
  have e: "unat (cend cb) = wrap ?M (?s + ?L - 1)" "unat (cend cb) < ?M"
    using w nz end_less [OF w] by (simp_all add: wf_cb_def)
  have "unat (cend cb) + unat ?k < 2 * ?M" using k b n e(2) by (auto split: if_splits)
  then obtain t where t: "umod (cend cb + ?k) (maxlen cb) = Some t" "unat t = wrap ?M (unat (cend cb) + unat ?k)"
    using umod_wrap [OF _ b(2)] by blast
  let ?cb = "cb\<lparr>clen := clen cb - n, cend := t\<rparr>"
  have res: "cirbuf_del_buf_tail cb n = Some (?cb, 0)"
    using guard t(1) by (simp add: cirbuf_del_buf_tail_def CIRBUF_IS_EMPTY_def)
  have "unat t = (if clen cb - n = 0 then ?s else wrap ?M (?s + (?L - ?N) - 1))"
  proof (cases "?L = ?N")
    case True
    then have "unat ?k = ?M - ?L + 1" "clen cb - n = 0" using k z by simp_all
    then show ?thesis unfolding t(2) e(1) using wrap_drop_all [OF b(3,4)] True n by simp
  next
    case False
    then have "unat ?k = ?M - ?N" "clen cb - n \<noteq> 0" using k z by simp_all
    then show ?thesis unfolding t(2) e(1) using wrap_drop_tail [OF b(3,4) n] False by simp
  qed
  moreover have "?L - ?N \<le> ?M" using b by linarith
  ultimately have "wf_cb ?cb" using w l b by (simp add: wf_cb_def)
  moreover have "chars ?cb = take (?L - ?N) (chars cb)"
    by (rule nth_equalityI) (use l in \<open>auto simp: chars_nth\<close>)
  ultimately show ?thesis using res by (simp add: same_mem_def)
qed

section \<open>Copying out\<close>

lemma chars_take:
  assumes w: "wf_cb cb" and n: "n \<le> len_of_cb cb"
  shows "take n (chars cb) = (if fst_of cb + n \<le> siz_of cb then take n (drop (fst_of cb) (buf cb))
    else take (siz_of cb - fst_of cb) (drop (fst_of cb) (buf cb)) @ take (n - (siz_of cb - fst_of cb)) (buf cb))"
proof -
  have b: "siz_of cb \<le> length (buf cb)" "fst_of cb < siz_of cb" "len_of_cb cb \<le> siz_of cb" using w by (auto simp: wf_cb_def)
  show ?thesis
  proof (cases "fst_of cb + n \<le> siz_of cb")
    case True
    have "take n (chars cb) = take n (drop (fst_of cb) (buf cb))"
      by (rule nth_equalityI) (use True b n in \<open>auto simp: chars_nth wrap_def\<close>)
    then show ?thesis using True by simp
  next
    case False
    have "take n (chars cb) = take (siz_of cb - fst_of cb) (drop (fst_of cb) (buf cb)) @
        take (n - (siz_of cb - fst_of cb)) (buf cb)"
      by (rule nth_equalityI) (use False b n in \<open>auto simp: chars_nth wrap_def nth_append add.commute\<close>)
    then show ?thesis using False by simp
  qed
qed

lemma memcpy_out_ok:
  assumes "unat s + unat n \<le> length (buf cb)" "unat d + unat n \<le> length c"
  shows "memcpy_out c d cb s n =
    Some (take (unat d) c @ take (unat n) (drop (unat s) (buf cb)) @ drop (unat d + unat n) c)"
  using assms by (simp add: memcpy_out_def slice_of_def blit_def)

lemma split_copy:
  assumes "h \<le> length x" "h \<le> n" "h \<le> length c" "c1 = take h x @ drop h c"
  shows "length c1 = length c" and "take h c1 @ y @ drop (h + (n - h)) c1 = take h x @ y @ drop n c"
  using assms by simp_all

lemma get_buf_head_ok:
  assumes w: "wf_cb cb" and c: "min (unat n) (len_of_cb cb) \<le> length c"
  shows "\<exists>k. cirbuf_get_buf_head cb c n = Some (take (unat n) (chars cb) @ drop (unat k) c, k) \<and>
    unat k = min (unat n) (len_of_cb cb)"
proof -
  let ?M = "siz_of cb" and ?s = "fst_of cb" and ?L = "len_of_cb cb"
  have b: "0 < ?M" "?M \<le> 2 ^ 31" "?s < ?M" "?L \<le> ?M" "?M \<le> length (buf cb)" using w by (auto simp: wf_cb_def)
  define k where "k = (if n < clen cb then n else clen cb)"
  have k: "unat k = min (unat n) ?L" by (auto simp: k_def word_less_nat_alt)
  have tk: "take (unat n) (chars cb) = take (unat k) (chars cb)" by (simp add: k min_def)
  note C = chars_take [OF w, of "unat k"]
  show ?thesis
  proof (cases "k = 0")
    case True
    then show ?thesis using k tk by (auto simp: cirbuf_get_buf_head_def k_def [symmetric])
  next
    case False
    then have nz: "clen cb \<noteq> 0" "0 < unat k" using k by (auto simp: clen_zero word_neq_0_conv word_less_nat_alt)
    have e: "unat (cend cb) = wrap ?M (?s + ?L - 1)" using w nz by (simp add: wf_cb_def)
    have ms: "unat (maxlen cb - cstart cb) = ?M - ?s" using b by (simp add: unat_sub word_le_nat_alt)
    have "cirbuf_get_buf_head cb c n = Some (take (unat k) (chars cb) @ drop (unat k) c, k)"
    proof (cases "cstart cb \<le> cend cb \<or> k \<le> maxlen cb - cstart cb")
      case True
      then have fit: "?s + unat k \<le> ?M"
        using e b k nz ms by (auto simp: word_le_nat_alt wrap_def split: if_splits)
      have m: "memcpy_out c 0 cb (cstart cb) k = Some (take (unat k) (chars cb) @ drop (unat k) c)"
        using memcpy_out_ok [of "cstart cb" k cb 0 c] fit b c k C by simp
      show ?thesis using True False m by (auto simp: cirbuf_get_buf_head_def k_def [symmetric])
    next
      case split: False
      then have gt: "?M - ?s < unat k" using ms by (simp add: word_le_nat_alt)
      have eq: "k - maxlen cb + cstart cb = k - (maxlen cb - cstart cb)" by simp
      have "unat (k - (maxlen cb - cstart cb)) = unat k - unat (maxlen cb - cstart cb)"
        by (rule unat_sub) (use gt ms in \<open>simp add: word_le_nat_alt\<close>)
      then have r: "unat (k - maxlen cb + cstart cb) = unat k - (?M - ?s)" by (simp only: eq ms)
      define c1 where "c1 = take (?M - ?s) (drop ?s (buf cb)) @ drop (?M - ?s) c"
      have hb: "?M - ?s \<le> length (drop ?s (buf cb))" using b by simp
      have hk: "?M - ?s \<le> unat k" "?M - ?s \<le> length c" using gt c k by linarith+
      have rb: "unat k - (?M - ?s) \<le> length (buf cb)" using b k by linarith
      note S = split_copy [OF hb hk c1_def]
      have m1: "memcpy_out c 0 cb (cstart cb) (maxlen cb - cstart cb) = Some c1"
        using memcpy_out_ok [of "cstart cb" "maxlen cb - cstart cb" cb 0 c] ms b(3,5) hk(2)
        by (simp add: c1_def)
      have kc: "unat k \<le> length c" using c k by simp
      have "memcpy_out c1 (maxlen cb - cstart cb) cb 0 (k - maxlen cb + cstart cb) =
          Some (take (?M - ?s) c1 @ take (unat k - (?M - ?s)) (buf cb) @ drop (?M - ?s + (unat k - (?M - ?s))) c1)"
        using memcpy_out_ok [of 0 "k - maxlen cb + cstart cb" cb "maxlen cb - cstart cb" c1]
        unfolding r ms using rb S(1) kc hk by simp
      also have "take (?M - ?s) c1 @ take (unat k - (?M - ?s)) (buf cb) @ drop (?M - ?s + (unat k - (?M - ?s))) c1 =
          take (?M - ?s) (drop ?s (buf cb)) @ take (unat k - (?M - ?s)) (buf cb) @ drop (unat k) c"
        by (rule S(2))
      also have "\<dots> = take (unat k) (chars cb) @ drop (unat k) c"
      proof -
        have "\<not> ?s + unat k \<le> ?M" using gt by linarith
        moreover have "unat k \<le> ?L" using k by simp
        ultimately show ?thesis using C by simp
      qed
      finally have m2: "memcpy_out c1 (maxlen cb - cstart cb) cb 0 (k - maxlen cb + cstart cb) =
          Some (take (unat k) (chars cb) @ drop (unat k) c)" .
      show ?thesis using split False m1 m2 by (auto simp: cirbuf_get_buf_head_def k_def [symmetric])
    qed
    then show ?thesis using k tk by auto
  qed
qed

section \<open>Shifting the content by one place\<close>

lemma shift_left_loop_ok:
  assumes b: "0 < siz_of cb" "siz_of cb \<le> 2 ^ 31" "siz_of cb \<le> length (buf cb)" "fst_of cb < siz_of cb"
    and k: "unat i + k \<le> siz_of cb"
  shows "\<exists>b'. shift_left_loop k i cb = Some (cb\<lparr>buf := b'\<rparr>) \<and> length b' = length (buf cb) \<and>
    (\<forall>j. unat i \<le> j \<and> j < unat i + k \<and> j + 1 < siz_of cb \<longrightarrow>
       b' ! wrap (siz_of cb) (fst_of cb + j) = buf cb ! wrap (siz_of cb) (fst_of cb + j + 1)) \<and>
    (\<forall>x < length (buf cb). (\<forall>j. unat i \<le> j \<and> j < unat i + k \<longrightarrow> x \<noteq> wrap (siz_of cb) (fst_of cb + j)) \<longrightarrow>
       b' ! x = buf cb ! x)"
  using b k
proof (induction k arbitrary: i cb)
  case 0
  then show ?case by (auto intro: exI [of _ "buf cb"])
next
  case (Suc k)
  let ?M = "siz_of cb" and ?s = "fst_of cb" and ?w = "wrap (siz_of cb)"
  have i: "unat i < ?M" using Suc.prems(5) by simp
  have i1: "unat (i + 1) = unat i + 1" using i Suc.prems(2) by (simp add: unat_word_ariths)
  have "unat (cstart cb) + unat (i + 1) < 2 * ?M" "unat (cstart cb) + unat i < 2 * ?M"
    using i i1 Suc.prems(4) by simp_all
  from umod_wrap [OF this(1) Suc.prems(2)] umod_wrap [OF this(2) Suc.prems(2)]
  obtain p q where p: "umod (cstart cb + (i + 1)) (maxlen cb) = Some p" "unat p = ?w (?s + unat i + 1)"
    and q: "umod (cstart cb + i) (maxlen cb) = Some q" "unat q = ?w (?s + unat i)"
    using i1 by (auto simp: add.assoc)
  have pq: "unat p < length (buf cb)" "unat q < length (buf cb)"
    using p(2) q(2) i Suc.prems by (auto simp: wrap_def)
  let ?c = "buf cb ! unat p"
  let ?cb = "cb\<lparr>buf := (buf cb)[unat q := ?c]\<rparr>"
  have step: "shift_left_loop (Suc k) i cb = shift_left_loop k (i + 1) ?cb"
    using p(1) q(1) get_c_ok [OF pq(1)] put_c_ok [OF pq(2)] by (simp add: add.assoc)
  obtain b' where I: "shift_left_loop k (i + 1) ?cb = Some (?cb\<lparr>buf := b'\<rparr>)" "length b' = length (buf cb)"
    and I2: "\<And>j. unat i + 1 \<le> j \<Longrightarrow> j < unat i + 1 + k \<Longrightarrow> j + 1 < ?M \<Longrightarrow>
       b' ! ?w (?s + j) = buf ?cb ! ?w (?s + j + 1)"
    and I3: "\<And>x. x < length (buf cb) \<Longrightarrow> (\<And>j. unat i + 1 \<le> j \<Longrightarrow> j < unat i + 1 + k \<Longrightarrow> x \<noteq> ?w (?s + j)) \<Longrightarrow>
       b' ! x = buf ?cb ! x"
    using Suc.IH [of ?cb "i + 1"] Suc.prems i1 by auto
  have "b' ! ?w (?s + j) = buf cb ! ?w (?s + j + 1)"
    if j: "unat i \<le> j" "j < unat i + Suc k" "j + 1 < ?M" for j
  proof (cases "j = unat i")
    case True
    have "b' ! unat q = buf ?cb ! unat q"
    proof (rule I3 [OF pq(2)])
      fix j' assume "unat i + 1 \<le> j'" "j' < unat i + 1 + k"
      then show "unat q \<noteq> ?w (?s + j')" using q(2) Suc.prems(4,5) i by (auto simp: wrap_def)
    qed
    then show ?thesis using True q(2) p(2) pq by simp
  next
    case False
    then have "b' ! ?w (?s + j) = buf ?cb ! ?w (?s + j + 1)" using I2 [of j] j by simp
    moreover have "?w (?s + j + 1) \<noteq> unat q" using q(2) False j Suc.prems(4) i by (auto simp: wrap_def)
    ultimately show ?thesis by simp
  qed
  moreover have "b' ! x = buf cb ! x"
    if x: "x < length (buf cb)" "\<forall>j. unat i \<le> j \<and> j < unat i + Suc k \<longrightarrow> x \<noteq> ?w (?s + j)" for x
  proof -
    have "b' ! x = buf ?cb ! x" by (rule I3 [OF x(1)]) (use x(2) in auto)
    moreover have "x \<noteq> unat q" using x(2) q(2) by auto
    ultimately show ?thesis by simp
  qed
  ultimately show ?case using I step by auto
qed

lemma shift_right_loop_ok:
  assumes b: "0 < siz_of cb" "siz_of cb \<le> 2 ^ 31" "siz_of cb \<le> length (buf cb)" "unat (cend cb) < siz_of cb"
    and k: "unat i + k \<le> siz_of cb"
  shows "\<exists>b'. shift_right_loop k i cb = Some (cb\<lparr>buf := b'\<rparr>) \<and> length b' = length (buf cb) \<and>
    (\<forall>j. unat i \<le> j \<and> j < unat i + k \<and> j + 1 < siz_of cb \<longrightarrow>
       b' ! wrap (siz_of cb) (unat (cend cb) + siz_of cb - j) =
         buf cb ! wrap (siz_of cb) (unat (cend cb) + siz_of cb - j - 1)) \<and>
    (\<forall>x < length (buf cb). (\<forall>j. unat i \<le> j \<and> j < unat i + k \<longrightarrow>
         x \<noteq> wrap (siz_of cb) (unat (cend cb) + siz_of cb - j)) \<longrightarrow> b' ! x = buf cb ! x)"
  using b k
proof (induction k arbitrary: i cb)
  case 0
  then show ?case by (auto intro: exI [of _ "buf cb"])
next
  case (Suc k)
  let ?M = "siz_of cb" and ?e = "unat (cend cb)" and ?w = "wrap (siz_of cb)"
  have i: "unat i < ?M" using Suc.prems(5) by simp
  have i1: "unat (i + 1) = unat i + 1" using i Suc.prems(2) by (simp add: unat_word_ariths)
  have m: "unat (maxlen cb - i) = ?M - unat i" "unat (maxlen cb - (i + 1)) = ?M - unat i - 1"
    using i i1 by (simp_all add: unat_sub word_le_nat_alt)
  have "unat (cend cb) + unat (maxlen cb - i) < 2 * ?M" "unat (cend cb) + unat (maxlen cb - (i + 1)) < 2 * ?M"
    using m Suc.prems(4) by simp_all
  from umod_wrap [OF this(1) Suc.prems(2)] umod_wrap [OF this(2) Suc.prems(2)]
  obtain p q where p: "umod (cend cb + (maxlen cb - (i + 1))) (maxlen cb) = Some p" "unat p = ?w (?e + (?M - unat i - 1))"
    and q: "umod (cend cb + (maxlen cb - i)) (maxlen cb) = Some q" "unat q = ?w (?e + (?M - unat i))"
    unfolding m by blast
  have w: "?e + (?M - unat i - 1) = ?e + ?M - unat i - 1" "?e + (?M - unat i) = ?e + ?M - unat i" using i by simp_all
  note pw = p(2) [unfolded w] and qw = q(2) [unfolded w]
  have pq: "unat p < length (buf cb)" "unat q < length (buf cb)"
    using pw qw i Suc.prems by (auto simp: wrap_def)
  let ?c = "buf cb ! unat p"
  let ?cb = "cb\<lparr>buf := (buf cb)[unat q := ?c]\<rparr>"
  have eq: "cend cb + maxlen cb - i = cend cb + (maxlen cb - i)"
    "cend cb + (maxlen cb - i) - 1 = cend cb + (maxlen cb - (i + 1))" by simp_all
  have step: "shift_right_loop (Suc k) i cb = shift_right_loop k (i + 1) ?cb"
    using p(1) q(1) get_c_ok [OF pq(1)] put_c_ok [OF pq(2)] by (simp only: shift_right_loop.simps eq bind.simps)
  obtain b' where I: "shift_right_loop k (i + 1) ?cb = Some (?cb\<lparr>buf := b'\<rparr>)" "length b' = length (buf cb)"
    and I2: "\<And>j. unat i + 1 \<le> j \<Longrightarrow> j < unat i + 1 + k \<Longrightarrow> j + 1 < ?M \<Longrightarrow>
       b' ! ?w (?e + ?M - j) = buf ?cb ! ?w (?e + ?M - j - 1)"
    and I3: "\<And>x. x < length (buf cb) \<Longrightarrow> (\<And>j. unat i + 1 \<le> j \<Longrightarrow> j < unat i + 1 + k \<Longrightarrow> x \<noteq> ?w (?e + ?M - j)) \<Longrightarrow>
       b' ! x = buf ?cb ! x"
    using Suc.IH [of ?cb "i + 1"] Suc.prems i1 by auto
  have "b' ! ?w (?e + ?M - j) = buf cb ! ?w (?e + ?M - j - 1)"
    if j: "unat i \<le> j" "j < unat i + Suc k" "j + 1 < ?M" for j
  proof (cases "j = unat i")
    case True
    have "b' ! unat q = buf ?cb ! unat q"
    proof (rule I3 [OF pq(2)])
      fix j' assume "unat i + 1 \<le> j'" "j' < unat i + 1 + k"
      then show "unat q \<noteq> ?w (?e + ?M - j')" using qw Suc.prems(4,5) i by (auto simp: wrap_def)
    qed
    then show ?thesis using True qw pw pq by simp
  next
    case False
    then have "b' ! ?w (?e + ?M - j) = buf ?cb ! ?w (?e + ?M - j - 1)" using I2 [of j] j by simp
    moreover have "?w (?e + ?M - j - 1) \<noteq> unat q" using qw False j Suc.prems(4) i by (auto simp: wrap_def)
    ultimately show ?thesis by simp
  qed
  moreover have "b' ! x = buf cb ! x"
    if x: "x < length (buf cb)" "\<forall>j. unat i \<le> j \<and> j < unat i + Suc k \<longrightarrow> x \<noteq> ?w (?e + ?M - j)" for x
  proof -
    have "b' ! x = buf ?cb ! x" by (rule I3 [OF x(1)]) (use x(2) in auto)
    moreover have "x \<noteq> unat q" using x(2) qw by auto
    ultimately show ?thesis by simp
  qed
  ultimately show ?case using I step by auto
qed

lemma cirbuf_shift_left_ok:
  assumes w: "wf_cb cb"
  shows "\<exists>cb'. cirbuf_shift_left cb = Some cb' \<and> wf_cb cb' \<and> chars cb' = chars cb \<and> same_mem cb cb' \<and>
    fst_of cb' = wrap (siz_of cb) (fst_of cb + siz_of cb - 1)"
proof -
  let ?M = "siz_of cb" and ?s = "fst_of cb" and ?L = "len_of_cb cb" and ?w = "wrap (siz_of cb)"
  have b: "0 < ?M" "?M \<le> 2 ^ 31" "?M \<le> length (buf cb)" "?s < ?M" "?L \<le> ?M" using w by (auto simp: wf_cb_def)
  have g: "get_c cb (cstart cb) = Some (buf cb ! ?s)" using get_c_ok [of "cstart cb" cb] b by simp
  obtain b1 where L: "shift_left_loop (unat (clen cb)) 0 cb = Some (cb\<lparr>buf := b1\<rparr>)" "length b1 = length (buf cb)"
    and L2: "\<And>j. j < ?L \<Longrightarrow> j + 1 < ?M \<Longrightarrow> b1 ! ?w (?s + j) = buf cb ! ?w (?s + j + 1)"
    using shift_left_loop_ok [OF b(1-4), of 0 ?L] b(5) by auto
  have mp: "unat (maxlen cb - 1) = ?M - 1" by (rule unat_max_pred [OF b(1)])
  have "unat (cstart cb) + unat (maxlen cb - 1) < 2 * ?M" "unat (cend cb) + unat (maxlen cb - 1) < 2 * ?M"
    using mp b end_less [OF w] by simp_all
  from umod_wrap [OF this(1) b(2)] umod_wrap [OF this(2) b(2)]
  obtain p q where p: "umod (cstart cb + (maxlen cb - 1)) (maxlen cb) = Some p" "unat p = ?w (?s + (?M - 1))"
    and q: "umod (cend cb + (maxlen cb - 1)) (maxlen cb) = Some q" "unat q = ?w (unat (cend cb) + (?M - 1))"
    unfolding mp by blast
  have eq: "cstart cb - 1 + maxlen cb = cstart cb + (maxlen cb - 1)" by simp
  have pM: "unat p < ?M" unfolding p(2) using b(1,4) by (intro wrap_less) simp
  have put: "put_c (cb\<lparr>buf := b1\<rparr>) p (buf cb ! ?s) = Some (cb\<lparr>buf := b1[unat p := buf cb ! ?s]\<rparr>)"
    using put_c_ok [of p "cb\<lparr>buf := b1\<rparr>"] pM L(2) b(3) by simp
  let ?cb = "cb\<lparr>buf := b1[unat p := buf cb ! ?s], cstart := p, cend := q\<rparr>"
  have res: "cirbuf_shift_left cb = Some ?cb"
    using g L(1) p(1) q(1) put by (simp add: cirbuf_shift_left_def eq)
  have ce: "unat (cend cb) = (if clen cb = 0 then ?s else ?w (?s + ?L - 1))" using w by (simp add: wf_cb_def)
  have "unat q = (if clen cb = 0 then unat p else ?w (unat p + ?L - 1))"
    unfolding q(2) ce p(2) using wrap_left_end [OF b(4) b(5)] by (simp add: clen_zero)
  then have "wf_cb ?cb" unfolding wf_cb_def using b L(2) pM by simp
  moreover have "chars ?cb = chars cb"
  proof (rule nth_equalityI)
    fix i assume "i < length (chars ?cb)"
    then have i: "i < ?L" by simp
    show "chars ?cb ! i = chars cb ! i"
    proof (cases i)
      case 0
      then show ?thesis using i pM b L(2) by (simp add: chars_nth wrap_def)
    next
      case (Suc j)
      have pj: "?w (unat p + i) = ?w (?s + j)" unfolding p(2) Suc using b(4,5) i Suc by (intro wrap_left_step) simp_all
      have "?w (?s + j) \<noteq> unat p"
        using wrap_inj [of ?s ?M j "?M - 1"] p(2) b i Suc by simp
      then have "chars ?cb ! i = b1 ! ?w (?s + j)" using i pj by (simp add: chars_nth)
      also have "\<dots> = buf cb ! ?w (?s + i)" using L2 [of j] i Suc b(5) by simp
      finally show ?thesis using i by (simp add: chars_nth)
    qed
  qed simp
  ultimately show ?thesis using res p(2) b(1) L(2) by (simp add: same_mem_def Nat.add_diff_assoc)
qed

lemma cirbuf_shift_right_ok:
  assumes w: "wf_cb cb"
  shows "\<exists>cb'. cirbuf_shift_right cb = Some cb' \<and> wf_cb cb' \<and> chars cb' = chars cb \<and> same_mem cb cb' \<and>
    fst_of cb' = wrap (siz_of cb) (fst_of cb + 1)"
proof -
  let ?M = "siz_of cb" and ?s = "fst_of cb" and ?L = "len_of_cb cb" and ?w = "wrap (siz_of cb)"
    and ?e = "unat (cend cb)"
  have b: "0 < ?M" "?M \<le> 2 ^ 31" "?M \<le> length (buf cb)" "?s < ?M" "?L \<le> ?M" using w by (auto simp: wf_cb_def)
  have eM: "?e < ?M" by (rule end_less [OF w])
  have g: "get_c cb (cend cb) = Some (buf cb ! ?e)" using get_c_ok [of "cend cb" cb] b(3) eM by simp
  obtain b1 where L: "shift_right_loop (unat (clen cb)) 0 cb = Some (cb\<lparr>buf := b1\<rparr>)" "length b1 = length (buf cb)"
    and L2: "\<And>j. j < ?L \<Longrightarrow> j + 1 < ?M \<Longrightarrow> b1 ! ?w (?e + ?M - j) = buf cb ! ?w (?e + ?M - j - 1)"
    using shift_right_loop_ok [OF b(1-3) eM, of 0 ?L] b(5) by auto
  have "unat (cstart cb) + unat (1 :: u32) < 2 * ?M" "?e + unat (1 :: u32) < 2 * ?M" using b(4) eM by simp_all
  from umod_wrap [OF this(1) b(2)] umod_wrap [OF this(2) b(2)]
  obtain p q where p: "umod (cstart cb + 1) (maxlen cb) = Some p" "unat p = ?w (?s + 1)"
    and q: "umod (cend cb + 1) (maxlen cb) = Some q" "unat q = ?w (?e + 1)"
    unfolding unat_1 by blast
  have pM: "unat p < ?M" unfolding p(2) using b(1,4) by (intro wrap_less) simp
  have qM: "unat q < ?M" unfolding q(2) using b(1) eM by (intro wrap_less) simp
  have put: "put_c (cb\<lparr>buf := b1\<rparr>) q (buf cb ! ?e) = Some (cb\<lparr>buf := b1[unat q := buf cb ! ?e]\<rparr>)"
    using put_c_ok [of q "cb\<lparr>buf := b1\<rparr>"] qM L(2) b(3) by simp
  let ?cb = "cb\<lparr>buf := b1[unat q := buf cb ! ?e], cstart := p, cend := q\<rparr>"
  have res: "cirbuf_shift_right cb = Some ?cb"
    using g L(1) p(1) q(1) put by (simp add: cirbuf_shift_right_def)
  have ce: "?e = (if clen cb = 0 then ?s else ?w (?s + ?L - 1))" using w by (simp add: wf_cb_def)
  have "unat q = (if clen cb = 0 then unat p else ?w (unat p + ?L - 1))"
    unfolding q(2) ce p(2) using wrap_right_end [OF b(4) b(5)] by (simp add: clen_zero)
  then have "wf_cb ?cb" unfolding wf_cb_def using b L(2) pM by simp
  moreover have "chars ?cb = chars cb"
  proof (rule nth_equalityI)
    fix i assume "i < length (chars ?cb)"
    then have i: "i < ?L" by simp
    then have e: "?e = ?w (?s + ?L - 1)" using ce by (auto simp: clen_zero)
    have old: "chars cb ! i = buf cb ! ?w (?s + i)" and new: "chars ?cb ! i = b1[unat q := buf cb ! ?e] ! ?w (unat p + i)"
      using i by (simp_all add: chars_nth)
    show "chars ?cb ! i = chars cb ! i"
    proof (cases "i + 1 = ?L")
      case True
      then have x: "\<And>a. a + i = a + ?L - 1" by linarith
      have "?L \<noteq> 0" using i by linarith
      then have "?w (unat p + i) = unat q" "?w (?s + i) = ?e"
        unfolding q(2) p(2) e x using wrap_right_end [OF b(4,5)] by simp_all
      then show ?thesis using old new qM b(3) L(2) by simp
    next
      case False
      define j where "j = ?L - 2 - i"
      have R: "?w (?e + ?M - j) = ?w (unat p + i)" "?w (?e + ?M - j - 1) = ?w (?s + i)" "?w (unat p + i) \<noteq> unat q"
        using wrap_right_step [OF b(4,5), of i] False i unfolding q(2) p(2) e j_def by auto
      have "b1 ! ?w (?e + ?M - j) = buf cb ! ?w (?e + ?M - j - 1)"
        by (rule L2) (use b(5) i False in \<open>simp_all add: j_def\<close>)
      then have "b1 ! ?w (unat p + i) = buf cb ! ?w (?s + i)" unfolding R(1,2) .
      then show ?thesis using old new R(3) by simp
    qed
  qed simp
  ultimately show ?thesis using res p(2) L(2) by (simp add: same_mem_def)
qed

section \<open>Aligning to the left\<close>

lemma shift_while_stop [simp]: "\<not> test cb \<Longrightarrow> shift_while test step cb = Some cb"
  by (simp add: shift_while.simps)

lemma shift_while_step:
  "cstart cb \<noteq> 0 \<Longrightarrow> step cb = Some cb1 \<Longrightarrow>
    shift_while (\<lambda>b. cstart b \<noteq> 0) step cb = shift_while (\<lambda>b. cstart b \<noteq> 0) step cb1"
  by (subst shift_while.simps) simp

lemma same_mem_trans: "same_mem a b \<Longrightarrow> same_mem b c \<Longrightarrow> same_mem a c"
  by (simp add: same_mem_def)

lemma wrap_down: "0 < s \<Longrightarrow> s < m \<Longrightarrow> wrap m (s + m - 1) = s - 1"
  by (auto simp: wrap_def)

lemma while_left_ok:
  assumes "wf_cb cb"
  shows "\<exists>cb'. shift_while (\<lambda>b. cstart b \<noteq> 0) cirbuf_shift_left cb = Some cb' \<and> wf_cb cb' \<and>
    chars cb' = chars cb \<and> same_mem cb cb' \<and> cstart cb' = 0"
  using assms
proof (induction "fst_of cb" arbitrary: cb)
  case 0
  then have "cstart cb = 0" by (simp add: unsigned_eq_0_iff)
  then show ?case using 0 by (simp add: same_mem_def)
next
  case (Suc n)
  then have nz: "cstart cb \<noteq> 0" by auto
  obtain cb1 where c: "cirbuf_shift_left cb = Some cb1" "wf_cb cb1" "chars cb1 = chars cb" "same_mem cb cb1"
    "fst_of cb1 = wrap (siz_of cb) (fst_of cb + siz_of cb - 1)" using cirbuf_shift_left_ok [OF Suc.prems] by blast
  have "fst_of cb < siz_of cb" "0 < fst_of cb" using Suc.prems Suc.hyps(2) by (simp_all add: wf_cb_def)
  then have "n = fst_of cb1" unfolding c(5) using wrap_down Suc.hyps(2) by simp
  from Suc.hyps(1) [OF this c(2)] show ?case
    unfolding shift_while_step [of cb cirbuf_shift_left, OF nz c(1)] c(3) using same_mem_trans [OF c(4)] by blast
qed

lemma while_right_ok:
  assumes "wf_cb cb"
  shows "\<exists>cb'. shift_while (\<lambda>b. cstart b \<noteq> 0) cirbuf_shift_right cb = Some cb' \<and> wf_cb cb' \<and>
    chars cb' = chars cb \<and> same_mem cb cb' \<and> cstart cb' = 0"
  using assms
proof (induction "siz_of cb - fst_of cb" arbitrary: cb rule: less_induct)
  case less
  show ?case
  proof (cases "cstart cb = 0")
    case True
    then show ?thesis using less.prems by (simp add: same_mem_def)
  next
    case False
    obtain cb1 where c: "cirbuf_shift_right cb = Some cb1" "wf_cb cb1" "chars cb1 = chars cb" "same_mem cb cb1"
      "fst_of cb1 = wrap (siz_of cb) (fst_of cb + 1)" using cirbuf_shift_right_ok [OF less.prems] by blast
    note step = shift_while_step [of cb cirbuf_shift_right, OF False c(1)]
    have M: "siz_of cb1 = siz_of cb" using c(4) by (simp add: same_mem_def)
    show ?thesis
    proof (cases "fst_of cb + 1 < siz_of cb")
      case True
      then have "siz_of cb1 - fst_of cb1 < siz_of cb - fst_of cb" using c(5) M by (simp add: wrap_def)
      from less.hyps [OF this c(2)] show ?thesis unfolding step c(3) using same_mem_trans [OF c(4)] by blast
    next
      case F: False
      then have "fst_of cb1 = 0" using c(5) less.prems by (simp add: wf_cb_def wrap_def)
      then have "cstart cb1 = 0" by (simp add: unsigned_eq_0_iff)
      then show ?thesis using step c(2,3,4) by simp
    qed
  qed
qed

lemma cirbuf_align_left_ok:
  assumes "wf_cb cb"
  shows "\<exists>cb'. cirbuf_align_left cb = Some (cb', 0) \<and> wf_cb cb' \<and> chars cb' = chars cb \<and> same_mem cb cb' \<and>
    cstart cb' = 0"
  using while_left_ok [OF assms] while_right_ok [OF assms] by (auto simp: cirbuf_align_left_def)

text \<open>The characters are then a prefix of the array.\<close>

lemma chars_aligned: "wf_cb cb \<Longrightarrow> cstart cb = 0 \<Longrightarrow> chars cb = take (len_of_cb cb) (buf cb)"
  using chars_take [of cb "len_of_cb cb"] by (simp add: wf_cb_def)

end
