(* ===== verification/Cirbuf_Deque.thy ===== *)
theory Cirbuf_Deque
  imports Cirbuf_Align
begin

text \<open>
  The interface of the circular buffer its clients rely on: a double-ended queue of bounded capacity.
  The lemmas of the locale are about two queues with a caret between them, as the line editor has
  them; the interpretation at the end shows that the circular buffer keeps the laws.
\<close>

section \<open>The interface\<close>

locale deque =
  fixes ok :: "'b \<Rightarrow> bool" and items :: "'b \<Rightarrow> 'a list" and shape :: "'b \<Rightarrow> 's" and cap :: "'s \<Rightarrow> nat"
    and add_head add_tail :: "'b \<Rightarrow> 'a \<Rightarrow> 'b option" and del_head del_tail :: "'b \<Rightarrow> 'b option"
    and get_head get_tail :: "'b \<Rightarrow> 'a option"
  assumes fits: "ok b \<Longrightarrow> length (items b) \<le> cap (shape b)"
    and add_head: "ok b \<Longrightarrow> length (items b) < cap (shape b) \<Longrightarrow>
      \<exists>b'. add_head b c = Some b' \<and> ok b' \<and> items b' = c # items b \<and> shape b' = shape b"
    and add_tail: "ok b \<Longrightarrow> length (items b) < cap (shape b) \<Longrightarrow>
      \<exists>b'. add_tail b c = Some b' \<and> ok b' \<and> items b' = items b @ [c] \<and> shape b' = shape b"
    and del_head: "ok b \<Longrightarrow> items b \<noteq> [] \<Longrightarrow>
      \<exists>b'. del_head b = Some b' \<and> ok b' \<and> items b' = tl (items b) \<and> shape b' = shape b"
    and del_tail: "ok b \<Longrightarrow> items b \<noteq> [] \<Longrightarrow>
      \<exists>b'. del_tail b = Some b' \<and> ok b' \<and> items b' = butlast (items b) \<and> shape b' = shape b"
    and get_head: "ok b \<Longrightarrow> items b \<noteq> [] \<Longrightarrow> get_head b = Some (hd (items b))"
    and get_tail: "ok b \<Longrightarrow> items b \<noteq> [] \<Longrightarrow> get_tail b = Some (last (items b))"
begin

text \<open>Two queues that together fit into either of them.\<close>

definition pair_ok :: "'s \<Rightarrow> 's \<Rightarrow> nat \<Rightarrow> 'b \<Rightarrow> 'b \<Rightarrow> bool" where
  "pair_ok sl sr n l r \<longleftrightarrow> ok l \<and> ok r \<and> shape l = sl \<and> shape r = sr \<and> n \<le> cap sl \<and> n \<le> cap sr \<and>
     length (items l) + length (items r) \<le> n"

lemma carry_left:
  assumes "pair_ok sl sr n l r" "items l \<noteq> []"
  shows "\<exists>l' r'. del_tail l = Some l' \<and> add_head r (last (items l)) = Some r' \<and> pair_ok sl sr n l' r' \<and>
    items l' = butlast (items l) \<and> items r' = last (items l) # items r"
proof -
  have p: "0 < length (items l)" using assms(2) by simp
  obtain l' where l: "del_tail l = Some l'" "ok l'" "items l' = butlast (items l)" "shape l' = sl"
    using del_tail [of l] assms by (auto simp: pair_ok_def)
  have "length (items r) < cap (shape r)" using assms(1) p by (auto simp: pair_ok_def simp del: length_greater_0_conv)
  then obtain r' where r: "add_head r (last (items l)) = Some r'" "ok r'" "items r' = last (items l) # items r"
    "shape r' = sr" using add_head [of r "last (items l)"] assms by (auto simp: pair_ok_def)
  have "pair_ok sl sr n l' r'" using assms(1) l r p by (simp add: pair_ok_def del: length_greater_0_conv)
  then show ?thesis using l r by blast
qed

lemma carry_right:
  assumes "pair_ok sl sr n l r" "items r \<noteq> []"
  shows "\<exists>l' r'. del_head r = Some r' \<and> add_tail l (hd (items r)) = Some l' \<and> pair_ok sl sr n l' r' \<and>
    items l' = items l @ [hd (items r)] \<and> items r' = tl (items r)"
proof -
  have p: "0 < length (items r)" using assms(2) by simp
  obtain r' where r: "del_head r = Some r'" "ok r'" "items r' = tl (items r)" "shape r' = sr"
    using del_head [of r] assms by (auto simp: pair_ok_def)
  have "length (items l) < cap (shape l)" using assms(1) p by (auto simp: pair_ok_def simp del: length_greater_0_conv)
  then obtain l' where l: "add_tail l (hd (items r)) = Some l'" "ok l'" "items l' = items l @ [hd (items r)]"
    "shape l' = sl" using add_tail [of l "hd (items r)"] assms by (auto simp: pair_ok_def)
  have "pair_ok sl sr n l' r'" using assms(1) l r p by (simp add: pair_ok_def del: length_greater_0_conv)
  then show ?thesis using l r by blast
qed

lemma drop_left:
  assumes "pair_ok sl sr n l r" "items l \<noteq> []"
  shows "\<exists>l'. del_tail l = Some l' \<and> pair_ok sl sr n l' r \<and> items l' = butlast (items l)"
  using del_tail [of l] assms by (auto simp: pair_ok_def)

lemma drop_right:
  assumes "pair_ok sl sr n l r" "items r \<noteq> []"
  shows "\<exists>r'. del_head r = Some r' \<and> pair_ok sl sr n l r' \<and> items r' = tl (items r)"
  using del_head [of r] assms by (auto simp: pair_ok_def)

lemma insert_left:
  assumes "pair_ok sl sr n l r" "length (items l) + length (items r) < n"
  shows "\<exists>l'. add_tail l c = Some l' \<and> pair_ok sl sr n l' r \<and> items l' = items l @ [c]"
  using add_tail [of l c] assms by (auto simp: pair_ok_def)

end

section \<open>The circular buffer keeps its laws\<close>

definition cb_shape :: "cirbuf \<Rightarrow> u32 \<times> nat" where "cb_shape cb = (maxlen cb, length (buf cb))"

definition cb_cap :: "u32 \<times> nat \<Rightarrow> nat" where "cb_cap s = unat (fst s)"

lemma same_mem_shape: "same_mem a b \<longleftrightarrow> cb_shape b = cb_shape a"
  by (auto simp: same_mem_def cb_shape_def)

lemma cb_cap_shape [simp]: "cb_cap (cb_shape cb) = siz_of cb"
  by (simp add: cb_cap_def cb_shape_def)

lemma wf_cb_fits: "wf_cb cb \<Longrightarrow> len_of_cb cb \<le> siz_of cb"
  by (simp add: wf_cb_def)

interpretation cb: deque wf_cb chars cb_shape cb_cap cirbuf_add_head cirbuf_add_tail cirbuf_del_head
    cirbuf_del_tail cirbuf_get_head cirbuf_get_tail
proof unfold_locales
  fix b :: cirbuf and c :: u8
  assume w: "wf_cb b"
  show "length (chars b) \<le> cb_cap (cb_shape b)" using wf_cb_fits [OF w] by simp
  {
    assume r: "length (chars b) < cb_cap (cb_shape b)"
    then have f: "len_of_cb b < siz_of b" by simp
    show "\<exists>b'. cirbuf_add_head b c = Some b' \<and> wf_cb b' \<and> chars b' = c # chars b \<and> cb_shape b' = cb_shape b"
      using add_head_ok [OF w f] by (simp add: same_mem_shape)
    show "\<exists>b'. cirbuf_add_tail b c = Some b' \<and> wf_cb b' \<and> chars b' = chars b @ [c] \<and> cb_shape b' = cb_shape b"
      using add_tail_ok [OF w f] by (simp add: same_mem_shape)
  }
  assume n: "chars b \<noteq> []"
  show "\<exists>b'. cirbuf_del_head b = Some b' \<and> wf_cb b' \<and> chars b' = tl (chars b) \<and> cb_shape b' = cb_shape b"
    using del_head_ok [OF w n] by (simp add: same_mem_shape)
  show "\<exists>b'. cirbuf_del_tail b = Some b' \<and> wf_cb b' \<and> chars b' = butlast (chars b) \<and> cb_shape b' = cb_shape b"
    using del_tail_ok [OF w n] by (simp add: same_mem_shape)
  show "cirbuf_get_head b = Some (hd (chars b))" by (rule get_head_ok [OF w n])
  show "cirbuf_get_tail b = Some (last (chars b))" by (rule get_tail_ok [OF w n])
qed

section \<open>The buffer as a whole\<close>

text \<open>Adding a block at the end of a circular buffer with room for it appends it to the content, also
  where it goes around the end of the array, and keeps the invariant.\<close>

lemma cirbuf_add_buf_tail_appends:
  assumes "wf_cb cb" "0 < unat n" "len_of_cb cb + unat n \<le> siz_of cb" "unat n \<le> length c"
  shows "\<exists>cb'. cirbuf_add_buf_tail cb c n = Some (cb', n) \<and> wf_cb cb' \<and>
    chars cb' = chars cb @ take (unat n) c \<and> same_mem cb cb'"
  by (rule add_buf_tail_ok [OF assms])

abbreviation "wrapped_cb \<equiv> \<lparr>maxlen = 4, cstart = 2, cend = 3, clen = 2, buf = [1, 2, 3, 4]\<rparr>"

lemma cirbuf_add_buf_tail_example:
  "chars wrapped_cb = [3, 4] \<and> (\<exists>cb'. cirbuf_add_buf_tail wrapped_cb [7, 8, 9] 2 = Some (cb', 2) \<and> chars cb' = [3, 4, 7, 8])"
proof -
  have c: "chars wrapped_cb = [3, 4]" by code_simp
  have w: "wf_cb wrapped_cb" by (simp add: wf_cb_def wrap_def)
  have t: "take (unat (2 :: u32)) [7, 8, 9 :: u8] = [7, 8]" by code_simp
  show ?thesis using cirbuf_add_buf_tail_appends [OF w, of 2 "[7, 8, 9]"] unfolding c t by auto
qed

text \<open>C32: aligning a well-formed circular buffer to the left ends, keeps the content, and then the content is
  the beginning of the array.\<close>

theorem cirbuf_align_left_prefix:
  assumes "wf_cb cb"
  shows "\<exists>cb'. cirbuf_align_left cb = Some (cb', 0) \<and> wf_cb cb' \<and> cstart cb' = 0 \<and> chars cb' = chars cb \<and>
    take (len_of_cb cb') (buf cb') = chars cb \<and> same_mem cb cb'"
  using cirbuf_align_left_ok [OF assms] chars_aligned by metis

theorem cirbuf_align_left_prefix_witness:
  "\<exists>cb'. cirbuf_align_left wrapped_cb = Some (cb', 0) \<and> take (len_of_cb cb') (buf cb') = [3, 4]"
proof -
  have c: "chars wrapped_cb = [3, 4]" by code_simp
  have w: "wf_cb wrapped_cb" by (simp add: wf_cb_def wrap_def)
  show ?thesis using cirbuf_align_left_prefix [OF w] c by auto
qed

text \<open>reading the last two of three characters of a wrapped buffer into an array of two writes past the
  array: the first copy of \<open>cirbuf_get_buf_tail\<close> goes to \<open>maxlen - start\<close>, the place it has in the whole
  content, not in the last \<open>size\<close> characters.\<close>

theorem cirbuf_get_buf_tail_overruns:
  "wf_cb \<lparr>maxlen = 4, cstart = 2, cend = 0, clen = 3, buf = [3, 0, 1, 2]\<rparr> \<and>
   cirbuf_get_buf_tail \<lparr>maxlen = 4, cstart = 2, cend = 0, clen = 3, buf = [3, 0, 1, 2]\<rparr> [0, 0] 2 = None \<and>
   map_option fst (cirbuf_get_buf_tail \<lparr>maxlen = 4, cstart = 2, cend = 0, clen = 3, buf = [3, 0, 1, 2]\<rparr> [0, 0, 0] 2) =
     Some [2, 0, 3]"
proof -
  have "wf_cb \<lparr>maxlen = 4, cstart = 2, cend = 0, clen = 3, buf = [3, 0, 1, 2]\<rparr>" by (simp add: wf_cb_def wrap_def)
  moreover have "cirbuf_get_buf_tail \<lparr>maxlen = 4, cstart = 2, cend = 0, clen = 3, buf = [3, 0, 1, 2]\<rparr> [0, 0] 2 = None"
    by code_simp
  moreover have "map_option fst (cirbuf_get_buf_tail
      \<lparr>maxlen = 4, cstart = 2, cend = 0, clen = 3, buf = [3, 0, 1, 2]\<rparr> [0, 0, 0] 2) = Some [2, 0, 3]"
    by code_simp
  ultimately show ?thesis by blast
qed

text \<open>Aligning to the right a content that begins in the first half of the array ends when its first character,
  not its last one, is at the end of the array.\<close>

lemma cirbuf_align_right_moves_start:
  "cirbuf_align_right \<lparr>maxlen = 4, cstart = 0, cend = 1, clen = 2, buf = [1, 2, 0, 0]\<rparr> =
     Some (\<lparr>maxlen = 4, cstart = 3, cend = 0, clen = 2, buf = [2, 0, 0, 1]\<rparr>, 0)"
  by code_simp

end
