(* ===== verification/Rdline_Props.thy ===== *)
theory Rdline_Props
  imports Rdline_Keys Cirbuf_Deque
begin

text \<open>
  The line editor on the characters of its buffers. \<open>line_ok\<close> is the invariant of the two halves of the
  line: together they never hold more than the 512 characters that \<open>left_buf\<close> has room for, so that
  putting them together with a newline and a null character stays inside it. A key changes the halves
  as its comment says and leaves everything else alone but the output.
\<close>

section \<open>The two halves of the line\<close>

definition line_ok :: "cirbuf \<Rightarrow> cirbuf \<Rightarrow> bool" where
  "line_ok l r \<longleftrightarrow> cb.pair_ok (512, 514) (512, 512) 512 l r \<and> 0 \<notin> set (chars l) \<and> 0 \<notin> set (chars r)"

lemma line_okD:
  assumes "line_ok l r"
  shows "wf_cb l" "wf_cb r" "maxlen l = 512" "maxlen r = 512" "length (buf l) = 514" "length (buf r) = 512"
    "len_of_cb l + len_of_cb r \<le> 512" "0 \<notin> set (chars l)" "0 \<notin> set (chars r)"
  using assms by (auto simp: line_ok_def cb.pair_ok_def cb_shape_def)

lemma no_zero_last: "0 \<notin> set xs \<Longrightarrow> xs \<noteq> [] \<Longrightarrow> last xs \<noteq> (0 :: u8) \<and> 0 \<notin> set (butlast xs)"
  by (metis in_set_butlastD last_in_set)

lemma no_zero_hd: "0 \<notin> set xs \<Longrightarrow> xs \<noteq> [] \<Longrightarrow> hd xs \<noteq> (0 :: u8) \<and> 0 \<notin> set (tl xs)"
  by (cases xs) auto

lemma line_ok_carry_left:
  assumes "line_ok l r" "chars l \<noteq> []"
  shows "\<exists>l' r'. cirbuf_del_tail l = Some l' \<and> cirbuf_add_head r (last (chars l)) = Some r' \<and> line_ok l' r' \<and>
    chars l' = butlast (chars l) \<and> chars r' = last (chars l) # chars r"
  using cb.carry_left [of "(512, 514)" "(512, 512)" 512 l r] assms no_zero_last [of "chars l"]
  by (auto simp: line_ok_def)

lemma line_ok_carry_right:
  assumes "line_ok l r" "chars r \<noteq> []"
  shows "\<exists>l' r'. cirbuf_del_head r = Some r' \<and> cirbuf_add_tail l (hd (chars r)) = Some l' \<and> line_ok l' r' \<and>
    chars l' = chars l @ [hd (chars r)] \<and> chars r' = tl (chars r)"
  using cb.carry_right [of "(512, 514)" "(512, 512)" 512 l r] assms no_zero_hd [of "chars r"]
  by (auto simp: line_ok_def)

lemma line_ok_drop_left:
  assumes "line_ok l r" "chars l \<noteq> []"
  shows "\<exists>l'. cirbuf_del_tail l = Some l' \<and> line_ok l' r \<and> chars l' = butlast (chars l)"
  using cb.drop_left [of "(512, 514)" "(512, 512)" 512 l r] assms no_zero_last [of "chars l"]
  by (auto simp: line_ok_def)

lemma line_ok_drop_right:
  assumes "line_ok l r" "chars r \<noteq> []"
  shows "\<exists>r'. cirbuf_del_head r = Some r' \<and> line_ok l r' \<and> chars r' = tl (chars r)"
  using cb.drop_right [of "(512, 514)" "(512, 512)" 512 l r] assms no_zero_hd [of "chars r"]
  by (auto simp: line_ok_def)

lemma line_ok_insert:
  assumes "line_ok l r" "length (chars l) + length (chars r) < 512" "c \<noteq> 0"
  shows "\<exists>l'. cirbuf_add_tail l c = Some l' \<and> line_ok l' r \<and> chars l' = chars l @ [c]"
  using cb.insert_left [of "(512, 514)" "(512, 512)" 512 l r c] assms by (auto simp: line_ok_def)

lemma cb_empty: "CIRBUF_IS_EMPTY cb \<longleftrightarrow> chars cb = []"
  by (simp add: CIRBUF_IS_EMPTY_def clen_zero flip: length_0_conv)

text \<open>A new line.\<close>

lemma line_ok_clear:
  assumes "length a = 514" "length b = 512"
  shows "line_ok (cirbuf_init a 0 512) (cirbuf_init b 0 512)"
    and "chars (cirbuf_init a 0 512) = []" "chars (cirbuf_init b 0 512) = []"
  using assms cirbuf_init_ok [of 512 a 0] cirbuf_init_ok [of 512 b 0]
  by (simp_all add: line_ok_def cb.pair_ok_def cb_shape_def cb_cap_def cirbuf_init_def)

section \<open>Output\<close>

lemma foreach_from_ok:
  assumes w: "wf_cb cb"
  shows "unat i + k = len_of_cb cb \<Longrightarrow> 0 < k \<Longrightarrow>
    foreach_from cb k i (chars cb ! unat i) = Some (drop (unat i) (chars cb))"
proof (induction k arbitrary: i)
  case 0
  then show ?case by simp
next
  case (Suc k)
  have b: "siz_of cb \<le> 2 ^ 31" "fst_of cb < siz_of cb" "len_of_cb cb \<le> siz_of cb" "siz_of cb \<le> length (buf cb)"
    using w by (auto simp: wf_cb_def)
  have i: "unat i < len_of_cb cb" using Suc.prems by simp
  then have i1: "unat (i + 1) = unat i + 1" using b by (simp add: unat_word_ariths)
  have "fst_of cb + unat (i + 1) < 2 * siz_of cb" using i i1 b by linarith
  from umod_wrap [OF this b(1)] obtain j where
    j: "umod (cstart cb + (i + 1)) (maxlen cb) = Some j" "unat j = wrap (siz_of cb) (fst_of cb + (unat i + 1))"
    using i1 by auto
  have "unat j < length (buf cb)" using j(2) b i by (auto simp: wrap_def)
  then have g: "get_c cb j = Some (buf cb ! wrap (siz_of cb) (fst_of cb + (unat i + 1)))" by (simp add: get_c_ok j(2))
  have d: "drop (unat i) (chars cb) = chars cb ! unat i # drop (unat i + 1) (chars cb)"
    using i by (simp add: Cons_nth_drop_Suc)
  show ?case
  proof (cases k)
    case 0
    then show ?thesis using j(1) g d Suc.prems by simp
  next
    case (Suc k')
    then have "unat i + 1 < len_of_cb cb" using Suc.prems by simp
    then have "buf cb ! wrap (siz_of cb) (fst_of cb + (unat i + 1)) = chars cb ! unat (i + 1)"
      using i1 by (simp add: chars_nth)
    moreover have "foreach_from cb k (i + 1) (chars cb ! unat (i + 1)) = Some (drop (unat (i + 1)) (chars cb))"
      by (rule Suc.IH) (use Suc Suc.prems i1 in simp_all)
    ultimately show ?thesis using j(1) g d i1 by simp
  qed
qed

lemma CIRBUF_FOREACH_ok:
  assumes w: "wf_cb cb"
  shows "CIRBUF_FOREACH cb = Some (chars cb)"
proof -
  have b: "fst_of cb < siz_of cb" "siz_of cb \<le> length (buf cb)" using w by (auto simp: wf_cb_def)
  then have g: "get_c cb (cstart cb) = Some (buf cb ! fst_of cb)" by (simp add: get_c_ok)
  show ?thesis
  proof (cases "len_of_cb cb = 0")
    case True
    then have "chars cb = []" by (simp flip: length_0_conv)
    then show ?thesis using g True by (simp add: CIRBUF_FOREACH_def)
  next
    case False
    then have "chars cb ! 0 = buf cb ! fst_of cb" using b(1) by (simp add: chars_nth wrap_def)
    then show ?thesis using foreach_from_ok [OF w, of 0 "len_of_cb cb"] g False by (simp add: CIRBUF_FOREACH_def)
  qed
qed

lemma miniprintf_left: "\<exists>o'. rdline_miniprintf rd vt100_multi_left n = Some (rd\<lparr>out := o'\<rparr>)"
  and miniprintf_right: "\<exists>o'. rdline_miniprintf rd vt100_multi_right n = Some (rd\<lparr>out := o'\<rparr>)"
  by (auto simp: rdline_miniprintf_def rdline_puts_def vt100_multi_left_def vt100_multi_right_def)

lemma display_right_ok:
  assumes "wf_cb (right rd)"
  shows "\<exists>o'. display_right_buffer rd f = Some (rd\<lparr>out := o'\<rparr>)"
proof (cases "\<not> f \<and> CIRBUF_IS_EMPTY (right rd)")
  case True
  then show ?thesis by (auto simp: display_right_buffer_def intro: exI [of _ "out rd"])
next
  case False
  then show ?thesis
    using CIRBUF_FOREACH_ok [OF assms] miniprintf_left [of "rd\<lparr>out := out rd @ vt100_clear_right @ chars (right rd)\<rparr>"
      "clen (right rd)"]
    by (auto simp: display_right_buffer_def rdline_puts_def)
qed

lemma redisplay_ok:
  assumes "wf_cb (left rd)" "wf_cb (right rd)" "prompt_size rd \<le> length (prompt rd)"
  shows "\<exists>o'. rdline_redisplay rd = Some (rd\<lparr>out := o'\<rparr>)"
proof -
  obtain o' where "display_right_buffer (rd\<lparr>out := out rd @ vt100_home @ take (prompt_size rd) (prompt rd) @
      chars (left rd)\<rparr>) True = Some (rd\<lparr>out := o'\<rparr>)"
    using display_right_ok [of "rd\<lparr>out := out rd @ vt100_home @ take (prompt_size rd) (prompt rd) @
      chars (left rd)\<rparr>" True] assms(2) by auto
  then show ?thesis
    using CIRBUF_FOREACH_ok [OF assms(1)] assms(3)
    by (auto simp: rdline_redisplay_def rdline_puts_def slice_of_def)
qed

section \<open>Caret and deletion keys\<close>

text \<open>The result changes the halves of the line, to \<open>xs\<close> and \<open>ys\<close>, and the output, and nothing else.\<close>

definition edits :: "rdline \<Rightarrow> rdline option \<Rightarrow> u8 list \<Rightarrow> u8 list \<Rightarrow> bool" where
  "edits rd res xs ys \<longleftrightarrow> (\<exists>l r o'. res = Some (rd\<lparr>left := l, right := r, out := o'\<rparr>) \<and> line_ok l r \<and>
     chars l = xs \<and> chars r = ys)"

abbreviation lchars :: "rdline \<Rightarrow> u8 list" where "lchars rd \<equiv> chars (left rd)"
abbreviation rchars :: "rdline \<Rightarrow> u8 list" where "rchars rd \<equiv> chars (right rd)"
abbreviation rl_ok :: "rdline \<Rightarrow> bool" where "rl_ok rd \<equiv> line_ok (left rd) (right rd)"

lemma editsI:
  "line_ok l r \<Longrightarrow> chars l = xs \<Longrightarrow> chars r = ys \<Longrightarrow> res = Some (rd\<lparr>left := l, right := r, out := o'\<rparr>) \<Longrightarrow>
    edits rd res xs ys"
  by (auto simp: edits_def)

lemma edits_none: "rl_ok rd \<Longrightarrow> edits rd (Some rd) (lchars rd) (rchars rd)"
  by (rule editsI [of "left rd" "right rd", where o' = "out rd"]) simp_all

lemma edits_bind:
  assumes "edits rd res xs ys"
    and "\<And>l r o'. line_ok l r \<Longrightarrow> chars l = xs \<Longrightarrow> chars r = ys \<Longrightarrow>
      edits (rd\<lparr>left := l, right := r, out := o'\<rparr>) (f (rd\<lparr>left := l, right := r, out := o'\<rparr>)) xs' ys'"
  shows "edits rd (Option.bind res f) xs' ys'"
  using assms unfolding edits_def by fastforce

lemma edits_out: "edits (rd\<lparr>out := o'\<rparr>) res xs ys \<Longrightarrow> edits rd res xs ys"
  by (simp add: edits_def)

lemma edits_step:
  "edits (rd\<lparr>out := o', left := l, right := r\<rparr>) res xs ys \<Longrightarrow> edits rd res xs ys"
  "edits (rd\<lparr>out := o', left := l\<rparr>) res xs ys \<Longrightarrow> edits rd res xs ys"
  "edits (rd\<lparr>right := r\<rparr>) res xs ys \<Longrightarrow> edits rd res xs ys"
  by (cases rd; fastforce simp: edits_def)+

lemma edits_display:
  assumes "line_ok l r" "chars l = xs" "chars r = ys"
  shows "edits rd (display_right_buffer (rd\<lparr>left := l, right := r, out := o'\<rparr>) f) xs ys"
  using display_right_ok [of "rd\<lparr>left := l, right := r, out := o'\<rparr>" f] line_okD(2) [OF assms(1)] assms
  by (auto intro: editsI)

text \<open>The loops.\<close>

lemma left_while_ok:
  assumes "rl_ok rd"
  shows "edits rd (left_while p s rd) (rev (dropWhile p (rev (lchars rd)))) (rev (takeWhile p (rev (lchars rd))) @ rchars rd)"
  using assms
proof (induction "length (lchars rd)" arbitrary: rd)
  case 0
  then have "lchars rd = []" by (simp add: chars_def)
  then show ?case using edits_none [OF 0(2)] by (simp add: left_while.simps [of p s rd] cb_empty)
next
  case (Suc n)
  then have ne: "lchars rd \<noteq> []" by (metis list.size(3) nat.distinct(1))
  then obtain xs x where x: "lchars rd = xs @ [x]" by (metis append_butlast_last_id)
  have g: "cirbuf_get_tail (left rd) = Some x" using cb.get_tail [OF line_okD(1) [OF Suc.prems] ne] x by simp
  show ?case
  proof (cases "p x")
    case True
    obtain l r where c: "cirbuf_del_tail (left rd) = Some l" "cirbuf_add_head (right rd) x = Some r" "line_ok l r"
      "chars l = xs" "chars r = x # rchars rd" using line_ok_carry_left [OF Suc.prems ne] x by auto
    let ?rd = "rd\<lparr>out := out rd @ s, left := l, right := r\<rparr>"
    have "left_while p s rd = left_while p s ?rd"
      using ne g True c(1,2) by (simp add: left_while.simps [of p s rd] cb_empty char_left_def rdline_puts_def)
    moreover have "edits ?rd (left_while p s ?rd) (rev (dropWhile p (rev xs))) (rev (takeWhile p (rev xs)) @ x # rchars rd)"
      using Suc.hyps(1) [of ?rd] Suc.hyps(2) x c(3-5) by simp
    ultimately show ?thesis using x True by (auto intro: edits_step)
  next
    case False
    then show ?thesis using edits_none [OF Suc.prems] ne g x by (simp add: left_while.simps [of p s rd] cb_empty)
  qed
qed

lemma right_while_ok:
  assumes "rl_ok rd"
  shows "edits rd (right_while p s rd) (lchars rd @ takeWhile p (rchars rd)) (dropWhile p (rchars rd))"
  using assms
proof (induction "length (rchars rd)" arbitrary: rd)
  case 0
  then have "rchars rd = []" by (simp add: chars_def)
  then show ?case using edits_none [OF 0(2)] by (simp add: right_while.simps [of p s rd] cb_empty)
next
  case (Suc n)
  then have ne: "rchars rd \<noteq> []" by (metis list.size(3) nat.distinct(1))
  then obtain xs x where x: "rchars rd = x # xs" by (metis list.exhaust)
  have g: "cirbuf_get_head (right rd) = Some x" using cb.get_head [OF line_okD(2) [OF Suc.prems] ne] x by simp
  show ?case
  proof (cases "p x")
    case True
    obtain l r where c: "cirbuf_del_head (right rd) = Some r" "cirbuf_add_tail (left rd) x = Some l" "line_ok l r"
      "chars l = lchars rd @ [x]" "chars r = xs" using line_ok_carry_right [OF Suc.prems ne] x by auto
    let ?rd = "rd\<lparr>out := out rd @ s, left := l, right := r\<rparr>"
    have "right_while p s rd = right_while p s ?rd"
      using ne g True c(1,2) by (simp add: right_while.simps [of p s rd] cb_empty char_right_def rdline_puts_def)
    moreover have "edits ?rd (right_while p s ?rd) (lchars rd @ x # takeWhile p xs) (dropWhile p xs)"
      using Suc.hyps(1) [of ?rd] Suc.hyps(2) x c(3-5) by simp
    ultimately show ?thesis using x True by (auto intro: edits_step)
  next
    case False
    then show ?thesis using edits_none [OF Suc.prems] ne g x by (simp add: right_while.simps [of p s rd] cb_empty)
  qed
qed

lemma del_left_while_ok:
  assumes "rl_ok rd"
  shows "edits rd (del_left_while p rd) (rev (dropWhile p (rev (lchars rd)))) (rchars rd)"
  using assms
proof (induction "length (lchars rd)" arbitrary: rd)
  case 0
  then have "lchars rd = []" by (simp add: chars_def)
  then show ?case using edits_none [OF 0(2)] by (simp add: del_left_while.simps [of p rd] cb_empty)
next
  case (Suc n)
  then have ne: "lchars rd \<noteq> []" by (metis list.size(3) nat.distinct(1))
  then obtain xs x where x: "lchars rd = xs @ [x]" by (metis append_butlast_last_id)
  have g: "cirbuf_get_tail (left rd) = Some x" using cb.get_tail [OF line_okD(1) [OF Suc.prems] ne] x by simp
  show ?case
  proof (cases "p x")
    case True
    obtain l where c: "cirbuf_del_tail (left rd) = Some l" "line_ok l (right rd)" "chars l = xs"
      using line_ok_drop_left [OF Suc.prems ne] x by auto
    let ?rd = "rd\<lparr>out := out rd @ vt100_bs, left := l\<rparr>"
    have "del_left_while p rd = del_left_while p ?rd"
      using ne g True c(1) by (simp add: del_left_while.simps [of p rd] cb_empty rdline_puts_def)
    moreover have "edits ?rd (del_left_while p ?rd) (rev (dropWhile p (rev xs))) (rchars rd)"
      using Suc.hyps(1) [of ?rd] Suc.hyps(2) x c(2,3) by simp
    ultimately show ?thesis using x True by (auto intro: edits_step)
  next
    case False
    then show ?thesis using edits_none [OF Suc.prems] ne g x by (simp add: del_left_while.simps [of p rd] cb_empty)
  qed
qed

lemma del_right_while_ok:
  assumes "rl_ok rd"
  shows "edits rd (del_right_while p rd) (lchars rd) (dropWhile p (rchars rd))"
  using assms
proof (induction "length (rchars rd)" arbitrary: rd)
  case 0
  then have "rchars rd = []" by (simp add: chars_def)
  then show ?case using edits_none [OF 0(2)] by (simp add: del_right_while.simps [of p rd] cb_empty)
next
  case (Suc n)
  then have ne: "rchars rd \<noteq> []" by (metis list.size(3) nat.distinct(1))
  then obtain xs x where x: "rchars rd = x # xs" by (metis list.exhaust)
  have g: "cirbuf_get_head (right rd) = Some x" using cb.get_head [OF line_okD(2) [OF Suc.prems] ne] x by simp
  show ?case
  proof (cases "p x")
    case True
    obtain r where c: "cirbuf_del_head (right rd) = Some r" "line_ok (left rd) r" "chars r = xs"
      using line_ok_drop_right [OF Suc.prems ne] x by auto
    let ?rd = "rd\<lparr>right := r\<rparr>"
    have "del_right_while p rd = del_right_while p ?rd"
      using ne g True c(1) by (simp add: del_right_while.simps [of p rd] cb_empty)
    moreover have "edits ?rd (del_right_while p ?rd) (lchars rd) (dropWhile p xs)"
      using Suc.hyps(1) [of ?rd] Suc.hyps(2) x c(2,3) by simp
    ultimately show ?thesis using x True by (auto intro: edits_step)
  next
    case False
    then show ?thesis using edits_none [OF Suc.prems] ne g x by (simp add: del_right_while.simps [of p rd] cb_empty)
  qed
qed

end
