(* ===== verification/Rdline_Edit.thy ===== *)
theory Rdline_Edit
  imports Rdline_Props
begin

text \<open>
  What the editing keys do to the line, the kill buffer and the buffer handed to the callbacks.
\<close>

section \<open>Single keys\<close>

lemma no_display: "line_ok l r \<Longrightarrow> chars l = xs \<Longrightarrow> chars r = ys \<Longrightarrow>
    edits rd (Some (rd\<lparr>left := l, right := r\<rparr>)) xs ys"
  by (rule editsI [of l r, where o' = "out rd"]) simp_all

lemma key_left_ok:
  assumes "rl_ok rd"
  shows "edits rd (key_left rd) (butlast (lchars rd)) (drop (length (lchars rd) - 1) (lchars rd) @ rchars rd)"
proof (cases "lchars rd = []")
  case True
  then show ?thesis using edits_none [OF assms] by (simp add: key_left_def cb_empty)
next
  case False
  obtain l r where c: "cirbuf_del_tail (left rd) = Some l" "cirbuf_add_head (right rd) (last (lchars rd)) = Some r"
    "line_ok l r" "chars l = butlast (lchars rd)" "chars r = last (lchars rd) # rchars rd"
    using line_ok_carry_left [OF assms False] by blast
  have "drop (length (lchars rd) - 1) (lchars rd) = [last (lchars rd)]"
    using False by (metis append_butlast_last_id append_eq_conv_conj length_butlast)
  then show ?thesis
    using editsI [OF c(3) c(4) c(5), where rd = rd and o' = "out rd @ vt100_left_arr"] False c(1,2) cb.get_tail [OF line_okD(1) [OF assms] False]
    by (simp add: key_left_def cb_empty char_left_def rdline_puts_def del: chars_length)
qed

lemma key_right_ok:
  assumes "rl_ok rd"
  shows "edits rd (key_right rd) (lchars rd @ take 1 (rchars rd)) (tl (rchars rd))"
proof (cases "rchars rd = []")
  case True
  then show ?thesis using edits_none [OF assms] by (simp add: key_right_def cb_empty)
next
  case False
  obtain l r where c: "cirbuf_del_head (right rd) = Some r" "cirbuf_add_tail (left rd) (hd (rchars rd)) = Some l"
    "line_ok l r" "chars l = lchars rd @ [hd (rchars rd)]" "chars r = tl (rchars rd)"
    using line_ok_carry_right [OF assms False] by blast
  have "take 1 (rchars rd) = [hd (rchars rd)]" using False by (cases "rchars rd") auto
  then show ?thesis
    using editsI [OF c(3) c(4) c(5), where rd = rd and o' = "out rd @ vt100_right_arr"] False c(1,2) cb.get_head [OF line_okD(2) [OF assms] False]
    by (simp add: key_right_def cb_empty char_right_def rdline_puts_def)
qed

lemma key_bkspace_ok:
  assumes "rl_ok rd"
  shows "edits rd (key_bkspace rd) (butlast (lchars rd)) (rchars rd)"
proof (cases "lchars rd = []")
  case True
  then show ?thesis using edits_none [OF assms]
    by (simp add: key_bkspace_def cirbuf_del_tail_safe_def cb_empty)
next
  case False
  obtain l where c: "cirbuf_del_tail (left rd) = Some l" "line_ok l (right rd)" "chars l = butlast (lchars rd)"
    using line_ok_drop_left [OF assms False] by blast
  show ?thesis
    using edits_display [OF c(2,3) refl, of rd "out rd @ vt100_bs" True] False c(1)
    by (simp add: key_bkspace_def cirbuf_del_tail_safe_def cb_empty rdline_puts_def)
qed

lemma key_suppr_ok:
  assumes "rl_ok rd"
  shows "edits rd (key_suppr rd) (lchars rd) (tl (rchars rd))"
proof (cases "rchars rd = []")
  case True
  then show ?thesis using edits_none [OF assms]
    by (simp add: key_suppr_def cirbuf_del_head_safe_def cb_empty)
next
  case False
  obtain r where c: "cirbuf_del_head (right rd) = Some r" "line_ok (left rd) r" "chars r = tl (rchars rd)"
    using line_ok_drop_right [OF assms False] by blast
  show ?thesis
    using edits_display [OF c(2) refl c(3), of rd "out rd" True] False c(1)
    by (simp add: key_suppr_def cirbuf_del_head_safe_def cb_empty)
qed

section \<open>Words\<close>

abbreviation drop_last :: "(u8 \<Rightarrow> bool) \<Rightarrow> u8 list \<Rightarrow> u8 list" where
  "drop_last p xs \<equiv> rev (dropWhile p (rev xs))"
abbreviation take_last :: "(u8 \<Rightarrow> bool) \<Rightarrow> u8 list \<Rightarrow> u8 list" where
  "take_last p xs \<equiv> rev (takeWhile p (rev xs))"

text \<open>The line before the word that ends \<open>xs\<close>, blanks after it included.\<close>

definition before_word :: "u8 list \<Rightarrow> u8 list" where
  "before_word xs = drop_last (\<lambda>c. \<not> isblank2 c) (drop_last isblank2 xs)"
definition after_word :: "u8 list \<Rightarrow> u8 list" where
  "after_word xs = dropWhile (\<lambda>c. \<not> isblank2 c) (dropWhile isblank2 xs)"
definition last_word :: "u8 list \<Rightarrow> u8 list" where
  "last_word xs = drop (length (before_word xs)) xs"
definition first_word :: "u8 list \<Rightarrow> u8 list" where
  "first_word xs = take (length xs - length (after_word xs)) xs"

lemma drop_take_last: "drop_last p xs @ take_last p xs = xs"
  by (metis rev_append rev_rev_ident takeWhile_dropWhile_id)

lemma last_word_eq:
  "last_word xs = take_last (\<lambda>c. \<not> isblank2 c) (drop_last isblank2 xs) @ take_last isblank2 xs"
proof -
  let ?b = "drop_last isblank2 xs"
  have "xs = before_word xs @ (take_last (\<lambda>c. \<not> isblank2 c) ?b @ take_last isblank2 xs)"
    unfolding before_word_def append_assoc [symmetric] drop_take_last ..
  then show ?thesis unfolding last_word_def by (metis append_eq_conv_conj)
qed

lemma first_word_eq:
  "first_word xs = takeWhile isblank2 xs @ takeWhile (\<lambda>c. \<not> isblank2 c) (dropWhile isblank2 xs)"
proof -
  have "xs = (takeWhile isblank2 xs @ takeWhile (\<lambda>c. \<not> isblank2 c) (dropWhile isblank2 xs)) @ after_word xs"
    unfolding after_word_def by simp
  then show ?thesis unfolding first_word_def by (metis append_eq_conv_conj add_diff_cancel_right' length_append)
qed

text \<open>Without null characters in the line the loops test for blanks only.\<close>

lemma while_no_zero:
  assumes "0 \<notin> set xs"
  shows "takeWhile (\<lambda>c. c \<noteq> 0 \<and> p c) xs = takeWhile p xs" "dropWhile (\<lambda>c. c \<noteq> 0 \<and> p c) xs = dropWhile p xs"
  using assms by (auto intro!: takeWhile_cong dropWhile_cong)

lemma no_zero_sub: "0 \<notin> set xs \<Longrightarrow> 0 \<notin> set (dropWhile p xs)"
  by (metis set_dropWhileD)

lemma key_wleft_ok:
  assumes "rl_ok rd"
  shows "edits rd (key_wleft rd) (before_word (lchars rd)) (last_word (lchars rd) @ rchars rd)"
proof -
  let ?q = "\<lambda>c. c \<noteq> 0 \<and> isblank2 c" and ?q' = "\<lambda>c. c \<noteq> 0 \<and> \<not> isblank2 c"
  have z: "0 \<notin> set (rev (lchars rd))" using line_okD(8) [OF assms] by simp
  have z2: "0 \<notin> set (rev (drop_last isblank2 (lchars rd)))" using no_zero_sub [OF z] by simp
  have "edits rd (left_while ?q vt100_left_arr rd) (drop_last isblank2 (lchars rd)) (take_last isblank2 (lchars rd) @ rchars rd)"
    using left_while_ok [OF assms, of ?q vt100_left_arr] by (simp only: while_no_zero [OF z])
  then show ?thesis unfolding key_wleft_def
  proof (rule edits_bind)
    fix l r o' assume l: "line_ok l r" "chars l = drop_last isblank2 (lchars rd)"
      "chars r = take_last isblank2 (lchars rd) @ rchars rd"
    let ?rd = "rd\<lparr>left := l, right := r, out := o'\<rparr>"
    have "edits ?rd (left_while ?q' vt100_left_arr ?rd) (drop_last ?q' (chars l)) (take_last ?q' (chars l) @ chars r)"
      using left_while_ok [of ?rd ?q' vt100_left_arr] l(1) by simp
    then show "edits ?rd (left_while ?q' vt100_left_arr ?rd) (before_word (lchars rd)) (last_word (lchars rd) @ rchars rd)"
      unfolding l(2,3) while_no_zero [OF z2] before_word_def last_word_eq by simp
  qed
qed

lemma key_wright_ok:
  assumes "rl_ok rd"
  shows "edits rd (key_wright rd) (lchars rd @ first_word (rchars rd)) (after_word (rchars rd))"
proof -
  let ?q = "\<lambda>c. c \<noteq> 0 \<and> isblank2 c" and ?q' = "\<lambda>c. c \<noteq> 0 \<and> \<not> isblank2 c"
  have z: "0 \<notin> set (rchars rd)" using line_okD(9) [OF assms] .
  note z2 = no_zero_sub [OF z, of isblank2]
  have "edits rd (right_while ?q vt100_right_arr rd) (lchars rd @ takeWhile isblank2 (rchars rd)) (dropWhile isblank2 (rchars rd))"
    using right_while_ok [OF assms, of ?q vt100_right_arr] by (simp only: while_no_zero [OF z])
  then show ?thesis unfolding key_wright_def
  proof (rule edits_bind)
    fix l r o' assume l: "line_ok l r" "chars l = lchars rd @ takeWhile isblank2 (rchars rd)"
      "chars r = dropWhile isblank2 (rchars rd)"
    let ?rd = "rd\<lparr>left := l, right := r, out := o'\<rparr>"
    have "edits ?rd (right_while ?q' vt100_right_arr ?rd) (chars l @ takeWhile ?q' (chars r)) (dropWhile ?q' (chars r))"
      using right_while_ok [of ?rd ?q' vt100_right_arr] l(1) by simp
    then show "edits ?rd (right_while ?q' vt100_right_arr ?rd) (lchars rd @ first_word (rchars rd)) (after_word (rchars rd))"
      unfolding l(2,3) while_no_zero [OF z2] after_word_def first_word_eq by simp
  qed
qed

lemma key_meta_bkspace_ok:
  assumes "rl_ok rd"
  shows "edits rd (key_meta_bkspace rd) (before_word (lchars rd)) (rchars rd)"
  unfolding key_meta_bkspace_def
proof (rule edits_bind [OF del_left_while_ok [OF assms]])
  fix l r o' assume l: "line_ok l r" "chars l = drop_last isblank2 (lchars rd)" "chars r = rchars rd"
  let ?rd = "rd\<lparr>left := l, right := r, out := o'\<rparr>" and ?q = "\<lambda>c. \<not> isblank2 c"
  have "edits ?rd (del_left_while ?q ?rd) (drop_last ?q (chars l)) (chars r)"
    using del_left_while_ok [of ?rd ?q] l(1) by simp
  then show "edits ?rd (Option.bind (del_left_while ?q ?rd) (\<lambda>rdl. display_right_buffer rdl True))
      (before_word (lchars rd)) (rchars rd)"
  proof (rule edits_bind)
    fix l2 r2 o2 assume "line_ok l2 r2" "chars l2 = drop_last ?q (chars l)" "chars r2 = chars r"
    then show "edits (?rd\<lparr>left := l2, right := r2, out := o2\<rparr>)
        (display_right_buffer (?rd\<lparr>left := l2, right := r2, out := o2\<rparr>) True) (before_word (lchars rd)) (rchars rd)"
      using edits_display [of l2 r2 _ _ "?rd\<lparr>left := l2, right := r2, out := o2\<rparr>" o2 True] l
      by (simp add: before_word_def)
  qed
qed

lemma key_meta_d_ok:
  assumes "rl_ok rd"
  shows "edits rd (key_meta_d rd) (lchars rd) (after_word (rchars rd))"
  unfolding key_meta_d_def
proof (rule edits_bind [OF del_right_while_ok [OF assms]])
  fix l r o' assume l: "line_ok l r" "chars l = lchars rd" "chars r = dropWhile isblank2 (rchars rd)"
  let ?rd = "rd\<lparr>left := l, right := r, out := o'\<rparr>" and ?q = "\<lambda>c. \<not> isblank2 c"
  have "edits ?rd (del_right_while ?q ?rd) (chars l) (dropWhile ?q (chars r))"
    using del_right_while_ok [of ?rd ?q] l(1) by simp
  then show "edits ?rd (Option.bind (del_right_while ?q ?rd) (\<lambda>rdl. display_right_buffer rdl True))
      (lchars rd) (after_word (rchars rd))"
  proof (rule edits_bind)
    fix l2 r2 o2 assume "line_ok l2 r2" "chars l2 = chars l" "chars r2 = dropWhile ?q (chars r)"
    then show "edits (?rd\<lparr>left := l2, right := r2, out := o2\<rparr>)
        (display_right_buffer (?rd\<lparr>left := l2, right := r2, out := o2\<rparr>) True) (lchars rd) (after_word (rchars rd))"
      using edits_display [of l2 r2 _ _ "?rd\<lparr>left := l2, right := r2, out := o2\<rparr>" o2 True] l
      by (simp add: after_word_def)
  qed
qed

section \<open>To the ends of the line\<close>

lemma while_true [simp]: "takeWhile (\<lambda>_. True) xs = xs" "dropWhile (\<lambda>_. True) xs = []"
  by (induction xs) auto

lemma key_ctrl_a_ok:
  assumes "rl_ok rd"
  shows "edits rd (key_ctrl_a rd) [] (lchars rd @ rchars rd)"
proof (cases "lchars rd = []")
  case True
  then show ?thesis using edits_none [OF assms] by (simp add: key_ctrl_a_def cb_empty)
next
  case False
  obtain o' where m: "rdline_miniprintf rd vt100_multi_left (clen (left rd)) = Some (rd\<lparr>out := o'\<rparr>)"
    using miniprintf_left by blast
  have "edits (rd\<lparr>out := o'\<rparr>) (left_while (\<lambda>_. True) [] (rd\<lparr>out := o'\<rparr>)) [] (lchars rd @ rchars rd)"
    using left_while_ok [of "rd\<lparr>out := o'\<rparr>" "\<lambda>_. True" "[]"] assms by simp
  then show ?thesis using edits_out m False by (simp add: key_ctrl_a_def cb_empty)
qed

lemma key_ctrl_e_ok:
  assumes "rl_ok rd"
  shows "edits rd (key_ctrl_e rd) (lchars rd @ rchars rd) []"
proof (cases "rchars rd = []")
  case True
  then show ?thesis using edits_none [OF assms] by (simp add: key_ctrl_e_def cb_empty)
next
  case False
  obtain o' where m: "rdline_miniprintf rd vt100_multi_right (clen (right rd)) = Some (rd\<lparr>out := o'\<rparr>)"
    using miniprintf_right by blast
  have "edits (rd\<lparr>out := o'\<rparr>) (right_while (\<lambda>_. True) [] (rd\<lparr>out := o'\<rparr>)) (lchars rd @ rchars rd) []"
    using right_while_ok [of "rd\<lparr>out := o'\<rparr>" "\<lambda>_. True" "[]"] assms by simp
  then show ?thesis using edits_out m False by (simp add: key_ctrl_e_def cb_empty)
qed

section \<open>Inserting\<close>

lemma insert_char_ok:
  assumes "rl_ok rd"
  shows "edits rd (insert_char c rd)
    (if isprint c \<and> length (lchars rd) + length (rchars rd) < 512 then lchars rd @ [c] else lchars rd) (rchars rd)"
proof -
  note D = line_okD [OF assms]
  have s: "unat (clen (left rd) + clen (right rd)) = length (lchars rd) + length (rchars rd)"
    using D(7) by (simp add: unat_word_ariths)
  show ?thesis
  proof (cases "isprint c \<and> length (lchars rd) + length (rchars rd) < 512")
    case True
    then have nz: "c \<noteq> 0" by (auto simp: isprint_def)
    have nf: "\<not> CIRBUF_IS_FULL (left rd)"
      using True D(3) by (auto simp: CIRBUF_IS_FULL_def dest: arg_cong [of _ _ unat])
    obtain l where c: "cirbuf_add_tail (left rd) c = Some l" "line_ok l (right rd)" "chars l = lchars rd @ [c]"
      using line_ok_insert [OF assms _ nz] True by blast
    have g: "\<not> clen (left rd) + clen (right rd) \<ge> 512" using s True by (simp add: word_le_nat_alt)
    show ?thesis
      using edits_display [OF c(2,3) refl, of rd "out rd @ [c]" False] True nf c(1) g
      by (simp add: insert_char_def cirbuf_add_tail_safe_def write_char_def)
  next
    case False
    then have "insert_char c rd = Some rd"
      using s by (auto simp: insert_char_def word_le_nat_alt)
    then show ?thesis using edits_none [OF assms] False by auto
  qed
qed

text \<open>A block is inserted as far as there is room.\<close>

lemma insert_loop_ok:
  assumes "rl_ok rd" "i + k \<le> length xs" "0 \<notin> set (take k (drop i xs))"
  shows "edits rd (insert_loop xs k i rd)
    (lchars rd @ take (512 - (length (lchars rd) + length (rchars rd))) (take k (drop i xs))) (rchars rd)"
  using assms
proof (induction k arbitrary: i rd)
  case 0
  then show ?case using edits_none [OF 0(1)] by simp
next
  case (Suc k)
  note D = line_okD [OF Suc.prems(1)]
  have s: "unat (clen (right rd) + clen (left rd)) = length (lchars rd) + length (rchars rd)"
    using D(7) by (simp add: unat_word_ariths)
  have t: "take (Suc k) (drop i xs) = xs ! i # take k (drop (i + 1) xs)"
    using Suc.prems(2) by (simp add: Cons_nth_drop_Suc [symmetric])
  show ?case
  proof (cases "length (lchars rd) + length (rchars rd) < 512")
    case True
    have nz: "xs ! i \<noteq> 0" using Suc.prems(3) t by auto
    obtain l where c: "cirbuf_add_tail (left rd) (xs ! i) = Some l" "line_ok l (right rd)" "chars l = lchars rd @ [xs ! i]"
      using line_ok_insert [OF Suc.prems(1) True nz] by blast
    let ?rd = "write_char (rd\<lparr>left := l\<rparr>) (xs ! i)"
    have L: "left ?rd = l" "right ?rd = right rd" by (simp_all add: write_char_def)
    have "insert_loop xs (Suc k) i rd = insert_loop xs k (i + 1) ?rd"
      using True s c(1) Suc.prems(2) by (simp add: word_less_nat_alt nth_opt_lt)
    moreover have "edits ?rd (insert_loop xs k (i + 1) ?rd)
        (lchars ?rd @ take (512 - (length (lchars ?rd) + length (rchars ?rd))) (take k (drop (i + 1) xs))) (rchars ?rd)"
      by (rule Suc.IH) (use Suc.prems c t L in auto)
    moreover have "lchars ?rd @ take (512 - (length (lchars ?rd) + length (rchars ?rd))) (take k (drop (i + 1) xs)) =
        lchars rd @ take (512 - (length (lchars rd) + length (rchars rd))) (take (Suc k) (drop i xs))"
    proof -
      have "512 - (length (lchars rd) + length (rchars rd)) = Suc (512 - (length (lchars ?rd) + length (rchars ?rd)))"
        using True unfolding L c(3) length_append by (simp del: chars_length)
      then show ?thesis unfolding t L c(3) by simp
    qed
    ultimately have "edits ?rd (insert_loop xs (Suc k) i rd)
        (lchars rd @ take (512 - (length (lchars rd) + length (rchars rd))) (take (Suc k) (drop i xs))) (rchars rd)"
      using L by simp
    then show ?thesis
      unfolding edits_def write_char_def by (cases rd) fastforce
  next
    case False
    then have "insert_loop xs (Suc k) i rd = Some rd" using s by (simp add: word_less_nat_alt)
    moreover have "512 - (length (lchars rd) + length (rchars rd)) = 0" using False by linarith
    ultimately show ?thesis using edits_none [OF Suc.prems(1)] by (simp del: chars_length)
  qed
qed

section \<open>The kill buffer\<close>

definition kill_ok :: "rdline \<Rightarrow> bool" where
  "kill_ok rd \<longleftrightarrow> length (kill_buf rd) = 512 \<and> unat (kill_size rd) \<le> 512 \<and>
     0 \<notin> set (take (unat (kill_size rd)) (kill_buf rd))"

definition killed :: "rdline \<Rightarrow> u8 list" where
  "killed rd = take (unat (kill_size rd)) (kill_buf rd)"

lemma key_ctrl_k_ok:
  assumes "rl_ok rd" "kill_ok rd"
  shows "\<exists>r k n o'. key_ctrl_k rd = Some (rd\<lparr>kill_buf := k, kill_size := n, right := r, out := o'\<rparr>) \<and>
    line_ok (left rd) r \<and> chars r = [] \<and> length k = 512 \<and> unat n = length (rchars rd) \<and>
    take (unat n) k = rchars rd"
proof -
  note D = line_okD [OF assms(1)]
  let ?R = "rchars rd"
  have k5: "length (kill_buf rd) = 512" using assms(2) by (simp add: kill_ok_def)
  have c512: "unat (512 :: u32) = 512" by simp
  have le: "len_of_cb (right rd) \<le> 512" using D(7) by simp
  then obtain k where k: "cirbuf_get_buf_head (right rd) (kill_buf rd) 512 =
      Some (take (unat (512 :: u32)) ?R @ drop (unat k) (kill_buf rd), k)" "unat k = min 512 (len_of_cb (right rd))"
    using get_buf_head_ok [OF D(2), of 512 "kill_buf rd"] k5 unfolding c512 by auto
  have kl: "unat k = len_of_cb (right rd)" using k(2) le by simp
  let ?kb = "take (unat (512 :: u32)) ?R @ drop (unat k) (kill_buf rd)"
  have kb: "?kb = ?R @ drop (len_of_cb (right rd)) (kill_buf rd)" using le by (simp add: kl)
  have "\<exists>r ret. cirbuf_del_buf_head (right rd) (clen (right rd)) = Some (r, ret) \<and> wf_cb r \<and> chars r = [] \<and>
      same_mem (right rd) r"
  proof (cases "clen (right rd) = 0")
    case True
    then have "?R = []" by (simp add: chars_def)
    then show ?thesis using True D(2) by (simp add: cirbuf_del_buf_head_def same_mem_def)
  next
    case False
    then have "0 < len_of_cb (right rd)" by (simp add: unat_gt_0)
    then show ?thesis using del_buf_head_ok [OF D(2), of "clen (right rd)"] by auto
  qed
  then obtain r ret where r: "cirbuf_del_buf_head (right rd) (clen (right rd)) = Some (r, ret)" "wf_cb r" "chars r = []"
    "same_mem (right rd) r" by blast
  have "line_ok (left rd) r"
    using assms(1) r(2-4) by (simp add: line_ok_def cb.pair_ok_def same_mem_shape)
  moreover have "key_ctrl_k rd = Some (rd\<lparr>kill_buf := ?kb, kill_size := clen (right rd), right := r,
      out := out rd @ vt100_clear_right\<rparr>)"
    using r(1) k(1) unfolding key_ctrl_k_def by (simp add: rdline_puts_def)
  moreover have "length ?kb = 512" "take (len_of_cb (right rd)) ?kb = ?R" unfolding kb using k5 le by simp_all
  ultimately show ?thesis using r(3) unfolding chars_length by blast
qed

lemma key_ctrl_y_ok:
  assumes "rl_ok rd" "kill_ok rd"
  shows "edits rd (key_ctrl_y rd)
    (lchars rd @ take (512 - (length (lchars rd) + length (rchars rd))) (killed rd)) (rchars rd)"
  unfolding key_ctrl_y_def
proof (rule edits_bind)
  show "edits rd (insert_loop (kill_buf rd) (unat (kill_size rd)) 0 rd)
      (lchars rd @ take (512 - (length (lchars rd) + length (rchars rd))) (killed rd)) (rchars rd)"
    using insert_loop_ok [OF assms(1), of 0 "unat (kill_size rd)" "kill_buf rd"] assms(2)
    by (simp add: kill_ok_def killed_def)
next
  fix l r o' assume "line_ok l r" "chars l = lchars rd @ take (512 - (length (lchars rd) + length (rchars rd))) (killed rd)"
    "chars r = rchars rd"
  from edits_display [OF this, of "rd\<lparr>left := l, right := r, out := o'\<rparr>" o' False]
  show "edits (rd\<lparr>left := l, right := r, out := o'\<rparr>) (display_right_buffer (rd\<lparr>left := l, right := r, out := o'\<rparr>) False)
      (lchars rd @ take (512 - (length (lchars rd) + length (rchars rd))) (killed rd)) (rchars rd)" by simp
qed

section \<open>The whole line\<close>

text \<open>\<open>left_buf\<close> then begins with the line, a newline and a null character, inside its 514 characters.\<close>

lemma get_buffer_ok:
  assumes "rl_ok rd"
  shows "\<exists>l r. rdline_get_buffer rd = Some (rd\<lparr>left := l, right := r\<rparr>) \<and> line_ok l r \<and> chars l = lchars rd \<and>
    chars r = rchars rd \<and>
    take (length (lchars rd) + length (rchars rd) + 2) (buf l) = lchars rd @ rchars rd @ [0x0A, 0]"
proof -
  note D = line_okD [OF assms]
  let ?L = "lchars rd" and ?R = "rchars rd"
  obtain l where l: "cirbuf_align_left (left rd) = Some (l, 0)" "wf_cb l" "chars l = ?L" "same_mem (left rd) l" "cstart l = 0"
    using cirbuf_align_left_ok [OF D(1)] by blast
  obtain r where r: "cirbuf_align_left (right rd) = Some (r, 0)" "wf_cb r" "chars r = ?R" "same_mem (right rd) r" "cstart r = 0"
    using cirbuf_align_left_ok [OF D(2)] by blast
  have ll: "len_of_cb l = length ?L" "len_of_cb r = length ?R" using l(3) r(3) by (metis chars_length)+
  have sum: "length ?L + length ?R \<le> 512" using D(7) by simp
  have bl: "length (buf l) = 514" "length (buf r) = 512" "maxlen l = 512" "maxlen r = 512"
    using l(4) r(4) D(3-6) by (simp_all add: same_mem_def)
  have L: "take (length ?L) (buf l) = ?L" using chars_aligned [OF l(2,5)] unfolding ll l(3) by (rule sym)
  have R: "take (length ?R) (buf r) = ?R" using chars_aligned [OF r(2,5)] unfolding ll r(3) by (rule sym)
  have c: "unat (clen l + clen r) = length ?L + length ?R" "unat (clen l + clen r + 1) = length ?L + length ?R + 1"
    using ll sum by (simp_all add: unat_word_ariths)
  define b where "b = take (length ?L) (buf l) @ ?R @ drop (length ?L + length ?R) (buf l)"
  have blen: "length b = 514" using bl sum by (simp add: b_def)
  have xs: "slice_of (buf r) 0 (unat (clen r)) = Some ?R" using bl ll sum R by (simp add: slice_of_def)
  have bt: "blit (buf l) (unat (clen l)) ?R = Some b" using bl ll sum by (simp add: blit_def b_def)
  define b2 where "b2 = b[length ?L + length ?R := 0x0A, length ?L + length ?R + 1 := 0]"
  have res: "rdline_get_buffer rd = Some (rd\<lparr>left := l\<lparr>buf := b2\<rparr>, right := r\<rparr>)"
    using l(1) r(1) xs bt c blen sum by (simp add: rdline_get_buffer_def upd_opt_def b2_def)
  have pre: "take (length ?L + length ?R + 2) b2 = ?L @ ?R @ [0x0A, 0]"
  proof -
    have d: "drop (length ?L + length ?R) (buf l) = buf l ! (length ?L + length ?R) #
        buf l ! (length ?L + length ?R + 1) # drop (length ?L + length ?R + 2) (buf l)"
      using bl(1) sum by (simp add: Cons_nth_drop_Suc)
    show ?thesis unfolding b2_def b_def L d
      by (simp add: list_update_append del: chars_length)
  qed
  have preL: "take (length ?L) b2 = ?L"
  proof -
    have "take (length ?L) b2 = take (length ?L) (take (length ?L + length ?R + 2) b2)" by simp
    then show ?thesis unfolding pre by simp
  qed
  have w: "wf_cb (l\<lparr>buf := b2\<rparr>)" using l(2) blen bl(1) by (simp add: wf_cb_def b2_def)
  have ch: "chars (l\<lparr>buf := b2\<rparr>) = ?L" using chars_aligned [OF w] l(5) ll preL by simp
  have "line_ok (l\<lparr>buf := b2\<rparr>) r"
    using w r(2) ch r(3) assms bl blen sum D by (simp add: line_ok_def cb.pair_ok_def cb_shape_def cb_cap_def b2_def)
  moreover have "take (length ?L + length ?R + 2) (buf (l\<lparr>buf := b2\<rparr>)) = ?L @ ?R @ [0x0A, 0]" using pre by simp
  ultimately show ?thesis using res ch r(3) by blast
qed

end
