(* ===== verification/Rdline_History.thy ===== *)
theory Rdline_History
  imports Rdline_Edit
begin

text \<open>
  The history of the line editor as a list of lines, oldest first: the buffer holds them one after the
  other, each with a null character after it. A new line drops the oldest ones until it fits.
\<close>

section \<open>Lines in the buffer\<close>

definition stored :: "u8 list list \<Rightarrow> u8 list" where
  "stored xs = concat (map (\<lambda>x. x @ [0]) xs)"

definition hist_ok :: "cirbuf \<Rightarrow> u8 list list \<Rightarrow> bool" where
  "hist_ok h xs \<longleftrightarrow> wf_cb h \<and> maxlen h = 8192 \<and> length (buf h) = 8192 \<and> chars h = stored xs \<and>
     (\<forall>x \<in> set xs. 0 \<notin> set x)"

lemma stored_simps [simp]:
  "stored [] = []" "stored (x # xs) = x @ 0 # stored xs" "stored (xs @ ys) = stored xs @ stored ys"
  by (simp_all add: stored_def)

lemma stored_nil [simp]: "stored xs = [] \<longleftrightarrow> xs = []"
  by (cases xs) auto

lemma length_stored: "length xs \<le> length (stored xs)"
  by (induction xs) auto

lemma hist_okD:
  assumes "hist_ok h xs"
  shows "wf_cb h" "maxlen h = 8192" "length (buf h) = 8192" "chars h = stored xs" "\<And>x. x \<in> set xs \<Longrightarrow> 0 \<notin> set x"
    "length (stored xs) \<le> 8192" "length xs \<le> 8192" "len_of_cb h = length (stored xs)"
proof -
  show *: "wf_cb h" "maxlen h = 8192" "length (buf h) = 8192" "chars h = stored xs" "\<And>x. x \<in> set xs \<Longrightarrow> 0 \<notin> set x"
    using assms by (auto simp: hist_ok_def)
  show l: "len_of_cb h = length (stored xs)" using *(4) by (metis chars_length)
  have "len_of_cb h \<le> 8192" using *(1,2) wf_cb_fits [of h] by simp
  then show "length (stored xs) \<le> 8192" "length xs \<le> 8192" using l length_stored [of xs] by simp_all
qed

lemma hist_okI:
  "hist_ok h xs \<Longrightarrow> wf_cb h' \<Longrightarrow> cb_shape h' = cb_shape h \<Longrightarrow> chars h' = stored ys \<Longrightarrow> set ys \<subseteq> set xs \<Longrightarrow> hist_ok h' ys"
  by (auto simp: hist_ok_def cb_shape_def)

section \<open>Removing lines\<close>

lemma remove_old_ok:
  assumes "wf_cb h" "chars h = x @ 0 # ys" "0 \<notin> set x"
  shows "\<exists>h'. rdline_remove_old_history_item h = Some h' \<and> wf_cb h' \<and> cb_shape h' = cb_shape h \<and> chars h' = ys"
  using assms
proof (induction x arbitrary: h)
  case Nil
  then have ne: "chars h \<noteq> []" by simp
  obtain h1 where h: "cirbuf_del_head h = Some h1" "wf_cb h1" "chars h1 = ys" "cb_shape h1 = cb_shape h"
    using cb.del_head [OF Nil(1) ne] Nil(2) by auto
  show ?case using h cb.get_head [OF Nil(1) ne] Nil(2) ne
    by (simp add: rdline_remove_old_history_item.simps [of h] cb_empty)
next
  case (Cons c x)
  then have ne: "chars h \<noteq> []" by simp
  obtain h1 where h: "cirbuf_del_head h = Some h1" "wf_cb h1" "chars h1 = x @ 0 # ys" "cb_shape h1 = cb_shape h"
    using cb.del_head [OF Cons.prems(1) ne] Cons.prems(2) by auto
  show ?case using h Cons.IH [OF h(2,3)] cb.get_head [OF Cons.prems(1) ne] Cons.prems ne
    by (simp add: rdline_remove_old_history_item.simps [of h] cb_empty)
qed

lemma remove_item_tail_ok:
  assumes "wf_cb h" "chars h = ys @ x" "0 \<notin> set x" "ys = [] \<or> last ys = 0"
  shows "\<exists>h'. remove_item_tail h = Some h' \<and> wf_cb h' \<and> cb_shape h' = cb_shape h \<and> chars h' = ys"
  using assms
proof (induction x arbitrary: h rule: rev_induct)
  case Nil
  show ?case
  proof (cases "ys = []")
    case True
    then show ?thesis using Nil by (simp add: remove_item_tail.simps [of h] cb_empty)
  next
    case False
    then have ne: "chars h \<noteq> []" using Nil by simp
    then show ?thesis using Nil cb.get_tail [OF Nil(1) ne] False
      by (simp add: remove_item_tail.simps [of h] cb_empty)
  qed
next
  case (snoc c x)
  then have ne: "chars h \<noteq> []" by simp
  obtain h1 where h: "cirbuf_del_tail h = Some h1" "wf_cb h1" "chars h1 = ys @ x" "cb_shape h1 = cb_shape h"
    using cb.del_tail [OF snoc.prems(1) ne] snoc.prems(2) by (auto simp: butlast_append)
  show ?case using h snoc.IH [OF h(2,3)] cb.get_tail [OF snoc.prems(1) ne] snoc.prems ne
    by (simp add: remove_item_tail.simps [of h] cb_empty)
qed

lemma remove_first_ok:
  assumes "hist_ok h xs"
  shows "\<exists>h'. rdline_remove_first_history_item h = Some h' \<and> hist_ok h' (butlast xs)"
proof (cases xs rule: rev_cases)
  case Nil
  then show ?thesis using assms hist_okD(4) [OF assms] by (simp add: rdline_remove_first_history_item_def cb_empty)
next
  case (snoc ys x)
  note D = hist_okD [OF assms]
  have c: "chars h = stored ys @ x @ [0]" using D(4) snoc by simp
  then have ne: "chars h \<noteq> []" by simp
  obtain h1 where h1: "cirbuf_del_tail h = Some h1" "wf_cb h1" "chars h1 = stored ys @ x" "cb_shape h1 = cb_shape h"
    using cb.del_tail [OF D(1) ne] c by (auto simp: butlast_append)
  have l: "stored ys = [] \<or> last (stored ys) = 0" by (cases ys rule: rev_cases) auto
  have "0 \<notin> set x" using D(5) snoc by simp
  then obtain h2 where h2: "remove_item_tail h1 = Some h2" "wf_cb h2" "chars h2 = stored ys" "cb_shape h2 = cb_shape h"
    using remove_item_tail_ok [OF h1(2,3) _ l] h1(4) by auto
  have "hist_ok h2 (butlast xs)" by (rule hist_okI [OF assms h2(2,4)]) (use h2(3) snoc in auto)
  then show ?thesis using h1(1) h2(1) ne by (simp add: rdline_remove_first_history_item_def cb_empty)
qed

text \<open>Making room for \<open>n\<close> characters and a null character drops as few lines as possible.\<close>

lemma free_hist: "hist_ok h xs \<Longrightarrow> unat (CIRBUF_GET_FREELEN h) = 8192 - length (stored xs)"
  using free_len [of h] hist_okD [of h xs] by simp

lemma make_room_ok:
  assumes "hist_ok h xs" "unat n < 8192"
  shows "\<exists>h' k. make_room n h = Some h' \<and> hist_ok h' (drop k xs) \<and> k \<le> length xs \<and>
    length (stored (drop k xs)) + unat n < 8192 \<and> (\<forall>j < k. length (stored (drop j xs)) + unat n \<ge> 8192)"
  using assms
proof (induction xs arbitrary: h)
  case Nil
  then have "\<not> CIRBUF_GET_FREELEN h \<le> n" using free_hist [OF Nil(1)] by (simp add: word_le_nat_alt)
  then show ?case using Nil by (subst make_room.simps) simp
next
  case (Cons x xs)
  note D = hist_okD [OF Cons.prems(1)]
  show ?case
  proof (cases "length (stored (x # xs)) + unat n < 8192")
    case True
    then have "\<not> CIRBUF_GET_FREELEN h \<le> n" using free_hist [OF Cons.prems(1)] by (simp add: word_le_nat_alt)
    then have "make_room n h = Some h" by (subst make_room.simps) simp
    then show ?thesis using True Cons.prems by (intro exI [of _ h] exI [of _ 0]) simp
  next
    case False
    then have g: "CIRBUF_GET_FREELEN h \<le> n" using free_hist [OF Cons.prems(1)] by (simp add: word_le_nat_alt)
    obtain h1 where h1: "rdline_remove_old_history_item h = Some h1" "wf_cb h1" "cb_shape h1 = cb_shape h" "chars h1 = stored xs"
      using remove_old_ok [of h x "stored xs"] D by auto
    have "hist_ok h1 xs" by (rule hist_okI [OF Cons.prems(1) h1(2,3,4)]) auto
    from Cons.IH [OF this Cons.prems(2)] obtain h' k where
      k: "make_room n h1 = Some h'" "hist_ok h' (drop k xs)" "k \<le> length xs"
        "length (stored (drop k xs)) + unat n < 8192" "\<forall>j < k. length (stored (drop j xs)) + unat n \<ge> 8192" by blast
    have "make_room n h = Some h'" using g h1(1) k(1) by (subst make_room.simps) simp
    moreover have "length (stored (drop j (x # xs))) + unat n \<ge> 8192" if "j < Suc k" for j
      using that False k(5) by (cases j) auto
    ultimately show ?thesis using k by (intro exI [of _ h'] exI [of _ "Suc k"]) simp
  qed
qed

section \<open>Adding a line\<close>

definition line_of :: "u8 list \<Rightarrow> u8 list" where
  "line_of xs = takeWhile (\<lambda>c. c \<noteq> 0x0A) xs"

lemma add_history_ok:
  assumes "hist_ok (history rd) xs" "strnlen b 512 = Some n"
  shows "\<exists>h k. rdline_add_history rd b = Some (rd\<lparr>history := h\<rparr>, 0) \<and> hist_ok h (drop k xs @ [line_of (take n b)]) \<and>
    (\<forall>j < k. length (stored (drop j xs)) + length (line_of (take n b)) \<ge> 8192)"
proof -
  let ?t = "line_of (take n b)"
  note S = strnlen_ok [OF assms(2)]
  have tl: "length ?t \<le> 512" using S length_takeWhile_le [of _ "take n b"] unfolding line_of_def by (metis le_trans length_take min.bounded_iff)
  have pre: "take (length ?t) b = ?t"
    unfolding line_of_def by (metis append_eq_conv_conj append_take_drop_id takeWhile_dropWhile_id append_assoc)
  have bl: "length ?t \<le> length b" using pre by (metis length_take min.cobounded2 min.commute)
  define len where "len = (of_nat (length ?t) :: u32)"
  have len: "unat len = length ?t" using tl by (simp add: len_def unat_of_nat)
  obtain h1 k where h1: "make_room len (history rd) = Some h1" "hist_ok h1 (drop k xs)"
    "length (stored (drop k xs)) + length ?t < 8192" "\<forall>j < k. length (stored (drop j xs)) + length ?t \<ge> 8192"
    using make_room_ok [OF assms(1), of len] len tl by auto
  note D = hist_okD [OF h1(2)]
  have "\<exists>h2 ret. cirbuf_add_buf_tail h1 b len = Some (h2, ret) \<and> wf_cb h2 \<and> chars h2 = stored (drop k xs) @ ?t \<and> same_mem h1 h2"
  proof (cases "length ?t = 0")
    case True
    then have "len = 0" by (simp add: len_def)
    then show ?thesis using True D(1,4) by (simp add: cirbuf_add_buf_tail_def same_mem_def)
  next
    case False
    then show ?thesis
      using add_buf_tail_ok [OF D(1), of len b] len bl pre h1(3) D by auto
  qed
  then obtain h2 ret where h2: "cirbuf_add_buf_tail h1 b len = Some (h2, ret)" "wf_cb h2" "chars h2 = stored (drop k xs) @ ?t"
    "same_mem h1 h2" by blast
  have "length (chars h2) < siz_of h2" using h1(3) h2(3,4) D(2) by (simp add: same_mem_def del: chars_length)
  then obtain h3 where h3: "cirbuf_add_tail h2 0 = Some h3" "wf_cb h3" "chars h3 = chars h2 @ [0]" "cb_shape h3 = cb_shape h2"
    using cb.add_tail [OF h2(2), of 0] by auto
  have "0 \<notin> set ?t" using S unfolding line_of_def by (meson set_takeWhileD)
  then have "hist_ok h3 (drop k xs @ [?t])"
    using h2 h3 D by (auto simp: hist_ok_def same_mem_shape cb_shape_def)
  moreover have "rdline_add_history rd b = Some (rd\<lparr>history := h3\<rparr>, 0)"
    using assms(2) h1(1) h2(1) h3(1) tl len
    by (simp add: rdline_add_history_def line_of_def [symmetric] len_def [symmetric] word_le_nat_alt)
  ultimately show ?thesis using h1(4) by blast
qed

section \<open>Looking up a line\<close>

lemma zeros_stored: "\<forall>x \<in> set xs. 0 \<notin> set x \<Longrightarrow> length [c \<leftarrow> stored xs. c = 0] = length xs"
proof (induction xs)
  case (Cons x xs)
  then have "[c \<leftarrow> x. c = 0] = []" by (auto simp: filter_empty_conv)
  then show ?case using Cons by simp
qed simp

lemma history_size_ok: "hist_ok h xs \<Longrightarrow> rdline_get_history_size h = Some (of_nat (length xs))"
  using CIRBUF_FOREACH_ok [of h] zeros_stored [of xs] hist_okD [of h xs]
  by (simp add: rdline_get_history_size_def)

lemma history_scan_skip:
  "0 \<notin> set x \<Longrightarrow> idx \<noteq> len - 1 \<Longrightarrow> history_scan (x @ 0 # ys) len idx i = history_scan ys (len - 1) idx (i + length x + 1)"
  by (induction x arbitrary: i) auto

lemma history_scan_ok:
  assumes "\<forall>x \<in> set xs. 0 \<notin> set x" "length xs \<le> 8192" "unat idx < length xs"
  shows "history_scan (stored xs) (of_nat (length xs)) idx i =
    Some (i + length (stored (take (length xs - 1 - unat idx) xs)))"
  using assms
proof (induction xs arbitrary: i)
  case (Cons x xs)
  have u: "unat (of_nat (length (x # xs)) - 1 :: u32) = length xs"
    using Cons.prems(2) by (simp add: unat_of_nat)
  show ?case
  proof (cases "unat idx = length xs")
    case True
    then have "idx = of_nat (length (x # xs)) - 1" using u by (simp add: word_unat_eq_iff)
    moreover obtain c cs where "stored (x # xs) = c # cs" by (cases x) auto
    ultimately show ?thesis using True by simp
  next
    case False
    then have n: "idx \<noteq> of_nat (length (x # xs)) - 1" using u by auto
    have lt: "unat idx < length xs" using False Cons.prems(3) by simp
    have t: "take (length (x # xs) - 1 - unat idx) (x # xs) = x # take (length xs - 1 - unat idx) xs"
    proof -
      have "length (x # xs) - 1 - unat idx = Suc (length xs - 1 - unat idx)" using lt by simp
      then show ?thesis by simp
    qed
    have "history_scan (stored (x # xs)) (of_nat (length (x # xs))) idx i =
        history_scan (stored xs) (of_nat (length xs)) idx (i + length x + 1)"
      using history_scan_skip [OF _ n] Cons.prems(1) by simp
    also have "\<dots> = Some (i + length x + 1 + length (stored (take (length xs - 1 - unat idx) xs)))"
      by (rule Cons.IH) (use Cons.prems lt in auto)
    finally show ?thesis unfolding t by simp
  qed
qed simp

text \<open>Item \<open>idx\<close> counts from the newest line; the result points to its characters and their null character.\<close>

lemma history_item_ok:
  assumes "hist_ok (history rd) xs"
  shows "unat idx < length xs \<Longrightarrow> \<exists>h i ys. rdline_get_history_item rd idx = Some (rd\<lparr>history := h\<rparr>, Some i) \<and> hist_ok h xs \<and>
      drop i (buf h) = (xs ! (length xs - 1 - unat idx)) @ 0 # ys \<and> i \<le> 8192"
    and "length xs \<le> unat idx \<Longrightarrow> rdline_get_history_item rd idx = Some (rd, None)"
proof -
  note D = hist_okD [OF assms]
  have sz: "unat (of_nat (length xs) :: u32) = length xs" using D(7) by (simp add: unat_of_nat)
  show "rdline_get_history_item rd idx = Some (rd, None)" if "length xs \<le> unat idx"
    using that history_size_ok [OF assms] sz by (simp add: rdline_get_history_item_def word_le_nat_alt)
  assume i: "unat idx < length xs"
  obtain h where h: "cirbuf_align_left (history rd) = Some (h, 0)" "wf_cb h" "chars h = stored xs"
    "same_mem (history rd) h" "cstart h = 0" using cirbuf_align_left_ok [OF D(1)] D(4) by auto
  have hk: "hist_ok h xs" by (rule hist_okI [OF assms h(2)]) (use h in \<open>auto simp: same_mem_shape\<close>)
  let ?m = "length xs - 1 - unat idx"
  let ?i = "length (stored (take ?m xs))"
  have m: "?m < length xs" using i by linarith
  have "xs = take ?m xs @ xs ! ?m # drop (?m + 1) xs" using m by (simp add: id_take_nth_drop)
  then have "stored xs = stored (take ?m xs) @ xs ! ?m @ 0 # stored (drop (?m + 1) xs)" by (metis stored_simps(2,3))
  moreover have "buf h = stored xs @ drop (len_of_cb h) (buf h)"
    using chars_aligned [OF h(2,5)] h(3) by (metis append_take_drop_id)
  ultimately have "buf h = stored (take ?m xs) @ xs ! ?m @ 0 # stored (drop (?m + 1) xs) @ drop (len_of_cb h) (buf h)"
    by (metis append_assoc append_Cons)
  then have "drop ?i (buf h) = drop ?i (stored (take ?m xs) @ xs ! ?m @ 0 # stored (drop (?m + 1) xs) @ drop (len_of_cb h) (buf h))"
    by (rule arg_cong)
  then have dr: "drop ?i (buf h) = xs ! ?m @ 0 # stored (drop (?m + 1) xs) @ drop (len_of_cb h) (buf h)" by simp
  have "?i \<le> length (stored xs)" by (metis append_take_drop_id length_append le_add1 stored_simps(3))
  then have il: "?i \<le> 8192" using D(6) by simp
  have "rdline_get_history_item rd idx = Some (rd\<lparr>history := h\<rparr>, Some ?i)"
    using history_size_ok [OF assms] h(1,3) i sz CIRBUF_FOREACH_ok [OF h(2)] history_scan_ok [of xs idx 0] D
    by (simp add: rdline_get_history_item_def word_le_nat_alt)
  then show "\<exists>h i ys. rdline_get_history_item rd idx = Some (rd\<lparr>history := h\<rparr>, Some i) \<and> hist_ok h xs \<and>
      drop i (buf h) = (xs ! (length xs - 1 - unat idx)) @ 0 # ys \<and> i \<le> 8192"
    using hk dr il by blast
qed

end
