(* ===== verification/Rdline_Char.thy ===== *)
theory Rdline_Char
  imports Rdline_History
begin

text \<open>
  The line editor and the command line as a whole: whatever is typed, no array is overrun and the
  invariant \<open>wf_rdl\<close> holds; the editing keys do to the line what \<open>edit_spec\<close> says; the history keys
  bring lines back.
\<close>

section \<open>The invariant\<close>

definition prompt_ok :: "rdline \<Rightarrow> bool" where
  "prompt_ok rd \<longleftrightarrow> length (prompt rd) = RDLINE_PROMPT_SIZE \<and> prompt_size rd < RDLINE_PROMPT_SIZE"

definition cur_ok :: "rdline \<Rightarrow> bool" where
  "cur_ok rd \<longleftrightarrow> -1 \<le> history_cur_line rd \<and> history_cur_line rd < 8192"

definition wf_rdl :: "rdline \<Rightarrow> bool" where
  "wf_rdl rd \<longleftrightarrow> rl_ok rd \<and> kill_ok rd \<and> prompt_ok rd \<and> wf_vt (vt100 rd) \<and> (\<exists>xs. hist_ok (history rd) xs) \<and> cur_ok rd"

lemmas wf_parts = wf_rdl_def kill_ok_def prompt_ok_def cur_ok_def

text \<open>Before the first \<open>rdline_newline\<close> only the memories have their sizes.\<close>

definition mem_ok :: "rdline \<Rightarrow> bool" where
  "mem_ok rd \<longleftrightarrow> length (buf (left rd)) = 514 \<and> length (buf (right rd)) = 512 \<and> kill_ok rd \<and>
     length (prompt rd) = RDLINE_PROMPT_SIZE \<and> wf_vt (vt100 rd) \<and> (\<exists>xs. hist_ok (history rd) xs)"

lemma wf_mem: "wf_rdl rd \<Longrightarrow> mem_ok rd"
  using line_okD(5,6) [of "left rd" "right rd"] by (auto simp: wf_rdl_def mem_ok_def prompt_ok_def)

lemma init_mem_ok: "mem_ok rdline_init"
proof -
  have "hist_ok (history rdline_init) []"
    using cirbuf_init_ok [of 8192 "replicate 8192 0" 0]
    by (auto simp: hist_ok_def rdline_init_def cirbuf_init_def)
  then show ?thesis
    by (auto simp: mem_ok_def rdline_init_def kill_ok_def wf_vt_def CMDLINE_VT100_BUF_SIZE_def)
qed

lemma wf_vt_init: "wf_vt vt \<Longrightarrow> wf_vt (vt100_init vt)"
  by (simp add: wf_vt_def vt100_init_def)

lemma clear_line_ok:
  assumes "mem_ok rd"
  shows "rl_ok (clear_line rd)" "lchars (clear_line rd) = []" "rchars (clear_line rd) = []"
  using line_ok_clear [of "buf (left rd)" "buf (right rd)"] assms by (simp_all add: mem_ok_def clear_line_def)

lemma blit_length: "blit d k xs = Some b \<Longrightarrow> length b = length d"
  by (auto simp: blit_def split: if_splits)

lemma newline_ok:
  assumes "mem_ok rd" "strnlen p 31 = Some n"
  shows "\<exists>rd'. rdline_newline rd p = Some rd' \<and> wf_rdl rd' \<and> lchars rd' = [] \<and> rchars rd' = [] \<and>
    rl_status rd' = RDLINE_RUNNING \<and> history rd' = history rd \<and> history_cur_line rd' = -1"
proof -
  have n: "n \<le> 31" "n \<le> length p" using strnlen_ok [OF assms(2)] by simp_all
  have pl: "length (prompt (clear_line rd)) = 32" using assms(1) by (simp add: mem_ok_def clear_line_def)
  obtain q where q: "blit (prompt (clear_line rd)) 0 (take n p) = Some q" using pl n by (simp add: blit_def)
  have ql: "length q = 32" using blit_length [OF q] pl by simp
  have "rdline_newline rd p = Some ((rdline_puts ((clear_line rd)\<lparr>prompt_size := n, prompt := q[31 := 0]\<rparr>) (take n (q[31 := 0])))
      \<lparr>rl_status := RDLINE_RUNNING, history_cur_line := -1\<rparr>)"
    using assms(2) q ql by (simp add: rdline_newline_def upd_opt_def)
  then show ?thesis
    using clear_line_ok [OF assms(1)] assms(1) n ql
    by (auto simp: wf_parts mem_ok_def rdline_puts_def clear_line_def wf_vt_init)
qed

text \<open>What \<open>edits\<close> says of the rest of the state.\<close>

lemma edits_wf:
  assumes "edits rd res xs ys" "wf_rdl rd"
  shows "\<exists>rd'. res = Some rd' \<and> wf_rdl rd' \<and> lchars rd' = xs \<and> rchars rd' = ys \<and> killed rd' = killed rd"
  using assms unfolding edits_def by (auto simp: wf_parts killed_def)

section \<open>History keys\<close>

lemma cur_index:
  assumes "0 \<le> i" "i \<le> 8192"
  shows "unat (of_int i :: u32) = nat i"
proof -
  have "of_int i = (of_nat (nat i) :: u32)" using assms(1) by simp
  then show ?thesis using assms(2) by (simp add: unat_of_nat nat_less_iff)
qed

lemma show_item_ok:
  assumes w: "wf_rdl rd" and d: "drop i (buf (history rd)) = item @ 0 # ys" and z: "0 \<notin> set item"
  shows "\<exists>rd'. show_item i rd = Some rd' \<and> wf_rdl rd' \<and> lchars rd' = take 512 item \<and> rchars rd' = [] \<and>
    history rd' = history rd \<and> history_cur_line rd' = history_cur_line rd"
proof -
  note M = wf_mem [OF w]
  note C = clear_line_ok [OF M]
  let ?rd = "clear_line rd"
  note D = line_okD [OF C(1)]
  define n where "n = min (length item) 512"
  have sn: "strnlen (item @ 0 # ys) 512 = Some n" unfolding n_def by (rule strnlen_text [OF z])
  have c512: "unat (512 :: u32) = 512" by simp
  have hb: "buf (history ?rd) = buf (history rd)" by (simp add: clear_line_def)
  have un: "unat (of_nat n :: u32) = n" by (simp add: n_def unat_of_nat)
  have tk: "take n (item @ 0 # ys) = take 512 item"
    by (cases "length item \<le> 512") (simp_all add: n_def min_def)
  have "\<exists>l ret. cirbuf_add_buf_tail (left ?rd) (item @ 0 # ys) (of_nat n) = Some (l, ret) \<and> wf_cb l \<and>
      chars l = take 512 item \<and> same_mem (left ?rd) l"
  proof (cases "n = 0")
    case True
    then have "item = []" by (simp add: n_def min_def split: if_splits)
    then show ?thesis using True D(1) C(2) by (simp add: cirbuf_add_buf_tail_def same_mem_def)
  next
    case False
    have e: "len_of_cb (left ?rd) = 0" using C(2) by (metis chars_length list.size(3))
    have "len_of_cb (left ?rd) + n \<le> siz_of (left ?rd)" using e D(3) by (simp add: n_def)
    moreover have "n \<le> length (item @ 0 # ys)" by (simp add: n_def)
    moreover have "0 < n" using False by blast
    ultimately show ?thesis
      using add_buf_tail_ok [OF D(1), of "of_nat n" "item @ 0 # ys", unfolded un tk] C(2) by auto
  qed
  then obtain l ret where l: "cirbuf_add_buf_tail (left ?rd) (item @ 0 # ys) (of_nat n) = Some (l, ret)" "wf_cb l"
    "chars l = take 512 item" "same_mem (left ?rd) l" by blast
  have lo: "line_ok l (right ?rd)"
    using C l z D by (auto simp: line_ok_def cb.pair_ok_def same_mem_shape dest: in_set_takeD simp del: chars_length)
  let ?rd1 = "?rd\<lparr>left := l\<rparr>"
  have "prompt_size ?rd1 \<le> length (prompt ?rd1)" using w by (simp add: wf_parts clear_line_def)
  then obtain o' where o': "rdline_redisplay ?rd1 = Some (?rd1\<lparr>out := o'\<rparr>)"
    using redisplay_ok [of ?rd1] line_okD(1,2) [OF lo] by auto
  have "show_item i rd = Some (?rd1\<lparr>out := o'\<rparr>)"
    using sn l(1) o' d unfolding show_item_def c512 by (simp add: hb)
  moreover have "wf_rdl (?rd1\<lparr>out := o'\<rparr>)" using w lo by (auto simp: wf_parts clear_line_def wf_vt_init)
  ultimately show ?thesis using l(3) C(3) by (simp add: clear_line_def)
qed

lemma wf_history:
  "wf_rdl rd \<Longrightarrow> hist_ok h xs \<Longrightarrow> wf_rdl (rd\<lparr>history := h\<rparr>)"
  by (auto simp: wf_parts)

text \<open>Storing the line being edited as the newest one of the history.\<close>

definition save_line :: "rdline \<Rightarrow> rdline option" where
  "save_line rd = do {
     rd \<leftarrow> rdline_get_buffer rd;
     (rd, _) \<leftarrow> rdline_add_history rd (buf (left rd));
     Some rd }"

lemma line_of_newline: "line_of (t @ [0x0A]) = line_of t"
  by (induction t) (simp_all add: line_of_def)

lemma take_prefix: "n \<le> length xs \<Longrightarrow> take n (xs @ ys) = take n xs"
  by simp

lemma save_line_ok:
  assumes w: "wf_rdl rd" and x: "hist_ok (history rd) xs"
  shows "\<exists>rd' k. save_line rd = Some rd' \<and> wf_rdl rd' \<and> lchars rd' = lchars rd \<and> rchars rd' = rchars rd \<and>
    hist_ok (history rd') (drop k xs @ [line_of (lchars rd @ rchars rd)]) \<and> history_cur_line rd' = history_cur_line rd"
proof -
  have lo: "rl_ok rd" using w by (simp add: wf_parts)
  obtain l r where b: "rdline_get_buffer rd = Some (rd\<lparr>left := l, right := r\<rparr>)" "line_ok l r" "chars l = lchars rd"
    "chars r = rchars rd" "take (length (lchars rd) + length (rchars rd) + 2) (buf l) = lchars rd @ rchars rd @ [0x0A, 0]"
    using get_buffer_ok [OF lo] by blast
  note D = line_okD [OF b(2)]
  let ?t = "lchars rd @ rchars rd" and ?rest = "drop (length (lchars rd) + length (rchars rd) + 2) (buf l)"
  have bl: "buf l = (?t @ [0x0A]) @ 0 # ?rest" using b(5) append_take_drop_id [of "length (lchars rd) + length (rchars rd) + 2" "buf l"] by simp
  have "0 \<notin> set (?t @ [0x0A])" using line_okD(8,9) [OF lo] by simp
  from strnlen_text [OF this, of ?rest 512] have sn: "strnlen (buf l) 512 = Some (min (length (?t @ [0x0A])) 512)"
    by (simp only: bl [symmetric])
  let ?n = "min (length (?t @ [0x0A])) 512"
  have tl: "length ?t \<le> 512" using line_okD(7) [OF lo] by simp
  have "take ?n (buf l) = take ?n ((?t @ [0x0A]) @ 0 # ?rest)" by (rule arg_cong [OF bl])
  also have "\<dots> = take ?n (?t @ [0x0A])" by (rule take_prefix) (rule min.cobounded1)
  finally have "take ?n (buf l) = take ?n (?t @ [0x0A])" .
  then have "line_of (take ?n (buf l)) = line_of (take ?n (?t @ [0x0A]))" by simp
  also have "\<dots> = line_of ?t"
  proof (cases "length ?t = 512")
    case True
    then show ?thesis by (simp del: chars_length)
  next
    case False
    then have n: "?n = length (?t @ [0x0A])" using tl by simp
    have all: "take ?n (?t @ [0x0A]) = ?t @ [0x0A]" by (rule take_all) (use n in linarith)
    show ?thesis unfolding all by (rule line_of_newline)
  qed
  finally have line: "line_of (take ?n (buf l)) = line_of ?t" .
  let ?rd = "rd\<lparr>left := l, right := r\<rparr>"
  obtain h k where h: "rdline_add_history ?rd (buf l) = Some (?rd\<lparr>history := h\<rparr>, 0)"
    "hist_ok h (drop k xs @ [line_of ?t])"
    using add_history_ok [of ?rd xs "buf l" ?n] x sn line by auto
  have "save_line rd = Some (?rd\<lparr>history := h\<rparr>)" using b(1) h(1) by (simp add: save_line_def)
  moreover have "wf_rdl (?rd\<lparr>history := h\<rparr>)" using w b(2) h(2) by (auto simp: wf_parts)
  ultimately show ?thesis using b(3,4) h(2) by auto
qed

lemma key_up_split:
  "key_up rd = do {
     rd \<leftarrow> (if history_cur_line rd = 0
           then do { h \<leftarrow> rdline_remove_first_history_item (history rd); Some (rd\<lparr>history := h\<rparr>) } else Some rd);
     rd \<leftarrow> (if history_cur_line rd \<le> 0 then do { rd \<leftarrow> save_line rd; Some (rd\<lparr>history_cur_line := 0\<rparr>) } else Some rd);
     (rd, item) \<leftarrow> rdline_get_history_item rd (of_int (history_cur_line rd + 1));
     (case item of None \<Rightarrow> Some rd
      | Some i \<Rightarrow> show_item i (rd\<lparr>history_cur_line := history_cur_line rd + 1\<rparr>)) }"
  by (simp add: key_up_def save_line_def case_prod_unfold)

text \<open>The last step of both keys: the line becomes the history line at distance \<open>c\<close> from the newest.\<close>

lemma recall_ok:
  assumes w: "wf_rdl rd" and x: "hist_ok (history rd) xs" and c: "0 \<le> c" "c \<le> 8192"
  shows "nat c < length xs \<Longrightarrow> \<exists>h i rd'. rdline_get_history_item rd (of_int c) = Some (rd\<lparr>history := h\<rparr>, Some i) \<and>
      show_item i (rd\<lparr>history := h, history_cur_line := c\<rparr>) = Some rd' \<and> wf_rdl rd' \<and>
      lchars rd' = take 512 (xs ! (length xs - 1 - nat c)) \<and> rchars rd' = [] \<and> hist_ok (history rd') xs \<and> history_cur_line rd' = c"
    and "length xs \<le> nat c \<Longrightarrow> rdline_get_history_item rd (of_int c) = Some (rd, None)"
proof -
  note u = cur_index [OF c]
  show "rdline_get_history_item rd (of_int c) = Some (rd, None)" if "length xs \<le> nat c"
    by (rule history_item_ok(2) [OF x]) (use that u in simp)
  assume lt: "nat c < length xs"
  obtain h i ys where h: "rdline_get_history_item rd (of_int c) = Some (rd\<lparr>history := h\<rparr>, Some i)" "hist_ok h xs"
    "drop i (buf h) = (xs ! (length xs - 1 - nat c)) @ 0 # ys"
    using history_item_ok(1) [OF x, of "of_int c"] lt unfolding u by blast
  let ?rd = "rd\<lparr>history := h, history_cur_line := c\<rparr>"
  have "c < 8192" using lt hist_okD(7) [OF x] by linarith
  then have wf: "wf_rdl ?rd" using w h(2) c by (auto simp: wf_parts)
  have "length xs - 1 - nat c < length xs" using lt by linarith
  then have z: "0 \<notin> set (xs ! (length xs - 1 - nat c))" using hist_okD(5) [OF x] by simp
  obtain rd' where "show_item i ?rd = Some rd'" "wf_rdl rd'" "lchars rd' = take 512 (xs ! (length xs - 1 - nat c))"
    "rchars rd' = []" "history rd' = h" "history_cur_line rd' = c"
    using show_item_ok [OF wf, of i _ ys, OF _ z] h(3) by auto
  then show "\<exists>h i rd'. rdline_get_history_item rd (of_int c) = Some (rd\<lparr>history := h\<rparr>, Some i) \<and>
      show_item i (rd\<lparr>history := h, history_cur_line := c\<rparr>) = Some rd' \<and> wf_rdl rd' \<and>
      lchars rd' = take 512 (xs ! (length xs - 1 - nat c)) \<and> rchars rd' = [] \<and> hist_ok (history rd') xs \<and> history_cur_line rd' = c"
    using h(1,2) by blast
qed

definition up_shows :: "rdline \<Rightarrow> u8 list list \<Rightarrow> rdline \<Rightarrow> bool" where
  "up_shows rd xs rd' \<longleftrightarrow>
     (if nat (history_cur_line rd + 1) < length xs
      then lchars rd' = take 512 (xs ! (length xs - 1 - nat (history_cur_line rd + 1))) \<and> rchars rd' = [] \<and>
        hist_ok (history rd') xs \<and> history_cur_line rd' = history_cur_line rd + 1
      else rd' = rd)"

lemma up_tail_ok:
  assumes w: "wf_rdl rd" and x: "hist_ok (history rd) xs" and c: "0 \<le> history_cur_line rd"
  shows "\<exists>rd'. do { (rd, item) \<leftarrow> rdline_get_history_item rd (of_int (history_cur_line rd + 1));
      (case item of None \<Rightarrow> Some rd
       | Some i \<Rightarrow> show_item i (rd\<lparr>history_cur_line := history_cur_line rd + 1\<rparr>)) } = Some rd' \<and> wf_rdl rd' \<and>
      up_shows rd xs rd'"
proof -
  let ?c = "history_cur_line rd + 1"
  have c1: "0 \<le> ?c" "?c \<le> 8192" using w c by (auto simp: wf_parts)
  show ?thesis
  proof (cases "nat ?c < length xs")
    case True
    from recall_ok(1) [OF w x c1 True] show ?thesis using True by (auto simp: up_shows_def)
  next
    case False
    then have "length xs \<le> nat ?c" by simp
    from recall_ok(2) [OF w x c1 this] show ?thesis using False w by (auto simp: up_shows_def)
  qed
qed

lemma wf_cur0: "wf_rdl rd \<Longrightarrow> wf_rdl (rd\<lparr>history_cur_line := 0\<rparr>)"
  by (auto simp: wf_parts)

text \<open>A line edited for the first time is stored, and the one before it shown.\<close>

lemma key_up_new:
  assumes w: "wf_rdl rd" and x: "hist_ok (history rd) xs" and c: "history_cur_line rd = -1"
  shows "\<exists>rd1 rd2 k. key_up rd = Some rd2 \<and> wf_rdl rd2 \<and> lchars rd1 = lchars rd \<and> rchars rd1 = rchars rd \<and>
    history_cur_line rd1 = 0 \<and> hist_ok (history rd1) (drop k xs @ [line_of (lchars rd @ rchars rd)]) \<and>
    up_shows rd1 (drop k xs @ [line_of (lchars rd @ rchars rd)]) rd2"
proof -
  obtain rd0 k where s: "save_line rd = Some rd0" "wf_rdl rd0" "lchars rd0 = lchars rd" "rchars rd0 = rchars rd"
    "hist_ok (history rd0) (drop k xs @ [line_of (lchars rd @ rchars rd)])"
    using save_line_ok [OF w x] by blast
  let ?rd1 = "rd0\<lparr>history_cur_line := 0\<rparr>"
  have h: "hist_ok (history ?rd1) (drop k xs @ [line_of (lchars rd @ rchars rd)])" using s(5) by simp
  from up_tail_ok [OF wf_cur0 [OF s(2)] h] obtain rd2 where
    "do { (rd, item) \<leftarrow> rdline_get_history_item ?rd1 (of_int (history_cur_line ?rd1 + 1));
      (case item of None \<Rightarrow> Some rd
       | Some i \<Rightarrow> show_item i (rd\<lparr>history_cur_line := history_cur_line rd + 1\<rparr>)) } = Some rd2"
    "wf_rdl rd2" "up_shows ?rd1 (drop k xs @ [line_of (lchars rd @ rchars rd)]) rd2" by auto
  moreover from this have "key_up rd = Some rd2" using c s(1) unfolding key_up_split by simp
  ultimately show ?thesis using s(3,4) h by (intro exI [of _ ?rd1] exI [of _ rd2] exI [of _ k]) simp
qed

lemma key_up_ok:
  assumes w: "wf_rdl rd"
  shows "\<exists>rd'. key_up rd = Some rd' \<and> wf_rdl rd'"
proof -
  obtain xs where x: "hist_ok (history rd) xs" using w by (auto simp: wf_parts)
  consider "history_cur_line rd = -1" | "history_cur_line rd = 0" | "0 < history_cur_line rd"
    using w unfolding wf_parts by linarith
  then show ?thesis
  proof cases
    case 1
    then show ?thesis using key_up_new [OF w x] by blast
  next
    case 2
    obtain h where h: "rdline_remove_first_history_item (history rd) = Some h" "hist_ok h (butlast xs)"
      using remove_first_ok [OF x] by blast
    have w1: "wf_rdl (rd\<lparr>history := h\<rparr>)" by (rule wf_history [OF w h(2)])
    obtain rd0 ys where s: "save_line (rd\<lparr>history := h\<rparr>) = Some rd0" "wf_rdl rd0" "hist_ok (history rd0) ys"
      "history_cur_line rd0 = 0" using save_line_ok [OF w1, of "butlast xs"] h(2) 2 by auto
    have h0: "hist_ok (history (rd0\<lparr>history_cur_line := 0\<rparr>)) ys" using s(3) by simp
    from up_tail_ok [OF wf_cur0 [OF s(2)] h0] show ?thesis
      using 2 h(1) s(1) unfolding key_up_split by auto
  next
    case 3
    from up_tail_ok [OF w x] show ?thesis using 3 unfolding key_up_split by auto
  qed
qed

lemma key_down_ok:
  assumes w: "wf_rdl rd" and x: "hist_ok (history rd) xs"
  shows "\<exists>rd'. key_down rd = Some rd' \<and> wf_rdl rd' \<and>
    (let c = history_cur_line rd - 1 in
     if 0 \<le> c \<and> nat c < length xs
     then lchars rd' = take 512 (xs ! (length xs - 1 - nat c)) \<and> rchars rd' = []
     else lchars rd' = lchars rd \<and> rchars rd' = rchars rd)"
proof -
  let ?c = "history_cur_line rd - 1"
  show ?thesis
  proof (cases "0 \<le> ?c")
    case False
    then show ?thesis using w by (simp add: key_down_def)
  next
    case True
    let ?rd = "rd\<lparr>history_cur_line := ?c\<rparr>"
    have c: "0 \<le> ?c" "?c \<le> 8192" using True w by (auto simp: wf_parts)
    have w1: "wf_rdl ?rd" using w c by (auto simp: wf_parts)
    have h1: "hist_ok (history ?rd) xs" using x by simp
    show ?thesis
    proof (cases "nat ?c < length xs")
      case lt: True
      obtain h i rd' where r: "rdline_get_history_item ?rd (of_int ?c) = Some (?rd\<lparr>history := h\<rparr>, Some i)"
        "show_item i (?rd\<lparr>history := h, history_cur_line := ?c\<rparr>) = Some rd'" "wf_rdl rd'"
        "lchars rd' = take 512 (xs ! (length xs - 1 - nat ?c))" "rchars rd' = []"
        using recall_ok(1) [OF w1 h1 c lt] by blast
      have "?rd\<lparr>history := h, history_cur_line := ?c\<rparr> = ?rd\<lparr>history := h\<rparr>" by (cases rd) simp
      then have "show_item i (?rd\<lparr>history := h\<rparr>) = Some rd'" using r(2) by (rule subst)
      then show ?thesis using r(1,3-5) lt True by (simp add: key_down_def)
    next
      case ge: False
      then show ?thesis using recall_ok(2) [OF w1 h1 c] w1 True by (simp add: key_down_def)
    qed
  qed
qed

end
