(* ===== verification/Rdline_Main.thy ===== *)
theory Rdline_Main
  imports Rdline_Char
begin

text \<open>
  The theorems on the line editor and the command line: safety and invariant for any input and any
  callbacks that behave, the refinement of the editing keys, typing, the history keys, and the prompt
  that an interrupt shows.
\<close>

section \<open>Completion\<close>

text \<open>
  What the editor needs of the callbacks. \<open>validate\<close> gets a string and leaves an editor that is well formed, as it does
  when it only calls functions of the library. \<open>complete\<close> leaves a null-terminated text in \<open>tmp_buf\<close> when it does not return 0.
  Unless it completes the line at state 0, \<open>*state\<close> advances and is not 0 again, so that it runs out of choices.
\<close>

definition validate_ok :: "validate_cb \<Rightarrow> bool" where
  "validate_ok v \<longleftrightarrow> (\<forall>rd n. wf_rdl rd \<longrightarrow> 0 \<in> set (buf (left rd)) \<longrightarrow> wf_rdl (v rd n))"

definition complete_ok :: "complete_cb \<Rightarrow> (int \<Rightarrow> nat) \<Rightarrow> bool" where
  "complete_ok c m \<longleftrightarrow> (\<forall>rd b st ret tmp st'. c rd b st = (ret, tmp, st') \<longrightarrow> 0 \<in> set b \<longrightarrow> -1 \<le> st \<longrightarrow> ret \<noteq> 0 \<longrightarrow>
     length tmp = BUFSIZ \<and> 0 \<in> set tmp \<and> (st = 0 \<and> ret = RDLINE_RES_COMPLETE \<or> 0 < st' \<and> m st' < m st))"

lemma complete_okD:
  "complete_ok c m \<Longrightarrow> c rd b st = (ret, tmp, st') \<Longrightarrow> 0 \<in> set b \<Longrightarrow> -1 \<le> st \<Longrightarrow> ret \<noteq> 0 \<Longrightarrow>
    length tmp = BUFSIZ \<and> 0 \<in> set tmp \<and> (st = 0 \<and> ret = RDLINE_RES_COMPLETE \<or> 0 < st' \<and> m st' < m st)"
  unfolding complete_ok_def by blast

lemma choice_loop_ok:
  assumes "complete_ok c m"
  shows "(ret \<noteq> 0 \<longrightarrow> 0 \<in> set tmp \<and> 0 < st) \<Longrightarrow> 0 \<in> set (buf (left rd)) \<Longrightarrow> \<exists>o'. choice_loop c ret tmp st rd = Some (rd\<lparr>out := o'\<rparr>)"
proof (induction "m st" arbitrary: ret tmp st rd rule: less_induct)
  case less
  show ?case
  proof (cases "ret = 0")
    case True
    then show ?thesis by (subst choice_loop.simps) (auto intro: exI [of _ "out rd"])
  next
    case False
    let ?rd = "rd\<lparr>out := out rd @ 0x20 # takeWhile (\<lambda>c. c \<noteq> 0) tmp @ crlf\<rparr>"
    obtain ret1 tmp1 st1 where c: "c ?rd (buf (left ?rd)) st = (ret1, tmp1, st1)" by (metis prod_cases3)
    have step: "choice_loop c ret tmp st rd = choice_loop c ret1 tmp1 st1 ?rd"
      using False less.prems c by (subst choice_loop.simps) (simp add: shown_text_def rdline_puts_def)
    show ?thesis
    proof (cases "ret1 = 0")
      case True
      then show ?thesis unfolding step by (subst choice_loop.simps) auto
    next
      case False
      have b: "0 \<in> set (buf (left ?rd))" using less.prems(2) by simp
      have "0 < st" using less.prems(1) \<open>ret \<noteq> 0\<close> by simp
      then have "m st1 < m st" "ret1 \<noteq> 0 \<longrightarrow> 0 \<in> set tmp1 \<and> 0 < st1" using complete_okD [OF assms c b _ False] by simp_all
      from less.hyps [OF this b] obtain o' where "choice_loop c ret1 tmp1 st1 ?rd = Some (?rd\<lparr>out := o'\<rparr>)" by blast
      then show ?thesis unfolding step by auto
    qed
  qed
qed

text \<open>The left half, aligned and terminated for the callback.\<close>

lemma terminate_left_ok:
  assumes "rl_ok rd"
  shows "\<exists>l b. cirbuf_align_left (left rd) = Some (l, 0) \<and> upd_opt (buf l) (unat (clen l)) 0 = Some b \<and>
    line_ok (l\<lparr>buf := b\<rparr>) (right rd) \<and> chars (l\<lparr>buf := b\<rparr>) = lchars rd"
proof -
  note D = line_okD [OF assms]
  obtain l where l: "cirbuf_align_left (left rd) = Some (l, 0)" "wf_cb l" "chars l = lchars rd" "same_mem (left rd) l" "cstart l = 0"
    using cirbuf_align_left_ok [OF D(1)] by blast
  have ll: "len_of_cb l = length (lchars rd)" using l(3) by (metis chars_length)
  have bl: "length (buf l) = 514" "maxlen l = 512" using l(4) D(3,5) by (simp_all add: same_mem_def)
  have lt: "len_of_cb l < length (buf l)" using ll D(7) bl by simp
  define b where "b = (buf l)[len_of_cb l := 0]"
  have w: "wf_cb (l\<lparr>buf := b\<rparr>)" using l(2) by (simp add: wf_cb_def b_def)
  have "chars (l\<lparr>buf := b\<rparr>) = take (len_of_cb l) b" using chars_aligned [OF w] l(5) by simp
  also have "\<dots> = take (len_of_cb l) (buf l)" by (simp add: b_def)
  also have "\<dots> = lchars rd" using chars_aligned [OF l(2,5)] l(3) by simp
  finally have ch: "chars (l\<lparr>buf := b\<rparr>) = lchars rd" .
  have "line_ok (l\<lparr>buf := b\<rparr>) (right rd)"
    using w ch assms bl D by (simp add: line_ok_def cb.pair_ok_def cb_shape_def cb_cap_def b_def)
  then show ?thesis using l(1) lt ch by (simp add: b_def)
qed

lemma key_tab_ok:
  assumes w: "wf_rdl rd" and c: "complete_ok c m"
  shows "\<exists>rd'. key_tab c cmd rd = Some (rd', RDLINE_RES_COMPLETE) \<and> wf_rdl rd'"
proof -
  have lo: "rl_ok rd" using w by (simp add: wf_parts)
  obtain l b where l: "cirbuf_align_left (left rd) = Some (l, 0)" "upd_opt (buf l) (unat (clen l)) 0 = Some b"
    "line_ok (l\<lparr>buf := b\<rparr>) (right rd)" using terminate_left_ok [OF lo] by blast
  let ?rd = "rd\<lparr>left := l\<lparr>buf := b\<rparr>\<rparr>"
  have w1: "wf_rdl ?rd" using w l(3) by (auto simp: wf_parts)
  have lo1: "rl_ok ?rd" using l(3) by simp
  obtain ret tmp st where cc: "c ?rd b (if cmd = CMDLINE_KEY_TAB then 0 else -1) = (ret, tmp, st)" by (metis prod_cases3)
  show ?thesis
  proof (cases "ret \<le> 0")
    case True
    then show ?thesis using l(1,2) cc w1 by (simp add: key_tab_def del: upd_opt_Some)
  next
    case False
    have b0: "0 \<in> set b" using l(2) set_update_memI [of "unat (clen l)" "buf l" 0] by simp
    then have d: "length tmp = BUFSIZ" "0 \<in> set tmp" "ret = RDLINE_RES_COMPLETE \<or> 0 < st"
      using complete_okD [OF c cc b0] False by auto
    obtain n where n: "strnlen tmp BUFSIZ = Some n" using strnlen_full [of BUFSIZ tmp] d by auto
    note S = strnlen_ok [OF n]
    show ?thesis
    proof (cases "ret = 2")
      case True
      let ?xs = "lchars ?rd @ take (512 - (length (lchars ?rd) + length (rchars ?rd))) (take n (drop 0 tmp))"
      have "edits ?rd (Option.bind (insert_loop tmp n 0 ?rd) (\<lambda>rd. display_right_buffer rd True)) ?xs (rchars ?rd)"
      proof (rule edits_bind [OF insert_loop_ok [OF lo1]])
        fix l r o' assume "line_ok l r" "chars l = ?xs" "chars r = rchars ?rd"
        from edits_display [OF this, of "?rd\<lparr>left := l, right := r, out := o'\<rparr>" o' True]
        show "edits (?rd\<lparr>left := l, right := r, out := o'\<rparr>) (display_right_buffer (?rd\<lparr>left := l, right := r, out := o'\<rparr>) True)
            ?xs (rchars ?rd)" by simp
      qed (use S in simp_all)
      from edits_wf [OF this w1] obtain rd' where
        "Option.bind (insert_loop tmp n 0 ?rd) (\<lambda>rd. display_right_buffer rd True) = Some rd'" "wf_rdl rd'" by blast
      then show ?thesis using True l(1,2) cc n by (auto simp: key_tab_def bind_eq_Some_conv simp del: upd_opt_Some)
    next
      case F2: False
      let ?rd1 = "rdline_puts ?rd crlf"
      obtain o' where o': "choice_loop c ret tmp st ?rd1 = Some (?rd1\<lparr>out := o'\<rparr>)"
        using choice_loop_ok [OF c, of ret tmp st ?rd1] d b0 F2 by (auto simp: rdline_puts_def)
      let ?rd2 = "?rd1\<lparr>out := o'\<rparr>"
      have w2: "wf_rdl ?rd2" using w1 by (auto simp: wf_parts rdline_puts_def)
      have "wf_cb (left ?rd2)" "wf_cb (right ?rd2)" "prompt_size ?rd2 \<le> length (prompt ?rd2)"
        using w2 line_okD(1,2) by (auto simp: wf_parts)
      then obtain o2 where "rdline_redisplay ?rd2 = Some (?rd2\<lparr>out := o2\<rparr>)" using redisplay_ok by blast
      moreover have "wf_rdl (?rd2\<lparr>out := o2\<rparr>)" using w2 by (auto simp: wf_parts)
      ultimately show ?thesis using False F2 l(1,2) cc n o' by (simp add: key_tab_def del: upd_opt_Some)
    qed
  qed
qed

section \<open>Every key\<close>

lemma key_return_line:
  assumes "wf_rdl rd"
  shows "\<exists>rd1. key_return v rd = Some (v rd1 (clen (left rd) + 2),
      if rl_status (v rd1 (clen (left rd) + 2)) = RDLINE_EXITED then RDLINE_RES_EXITED else RDLINE_RES_VALIDATED) \<and>
    take (length (lchars rd) + length (rchars rd) + 2) (buf (left rd1)) = lchars rd @ rchars rd @ [0x0A, 0] \<and>
    wf_rdl rd1 \<and> rl_status rd1 = RDLINE_INIT"
proof -
  have lo: "rl_ok rd" using assms by (simp add: wf_parts)
  obtain xs where x: "hist_ok (history rd) xs" using assms by (auto simp: wf_parts)
  obtain l r where b: "rdline_get_buffer rd = Some (rd\<lparr>left := l, right := r\<rparr>)" "line_ok l r" "chars l = lchars rd"
    "take (length (lchars rd) + length (rchars rd) + 2) (buf l) = lchars rd @ rchars rd @ [0x0A, 0]"
    using get_buffer_ok [OF lo] by blast
  have cl: "clen l = clen (left rd)" using b(3) by (metis chars_length word_unat_eq_iff)
  obtain h where h: "rdline_remove_first_history_item (history rd) = Some h" "hist_ok h (butlast xs)"
    using remove_first_ok [OF x] by blast
  let ?rd = "rdline_puts (rd\<lparr>left := l, right := r, rl_status := RDLINE_INIT\<rparr>) crlf"
  let ?rd1 = "if history_cur_line rd \<noteq> -1 then ?rd\<lparr>history := h\<rparr> else ?rd"
  have "wf_rdl ?rd1" using assms b(2) h(2) by (auto simp: wf_parts rdline_puts_def)
  moreover have "rl_status ?rd1 = RDLINE_INIT" "buf (left ?rd1) = buf l" by (simp_all add: rdline_puts_def)
  moreover have "key_return v rd = Some (v ?rd1 (clen (left rd) + 2),
      if rl_status (v ?rd1 (clen (left rd) + 2)) = RDLINE_EXITED then RDLINE_RES_EXITED else RDLINE_RES_VALIDATED)"
    using b(1) h(1) cl by (simp add: key_return_def rdline_puts_def)
  ultimately show ?thesis using b(4) by (intro exI [of _ ?rd1]) simp
qed

lemma key_return_ok:
  assumes w: "wf_rdl rd" and v: "validate_ok v"
  shows "\<exists>rd' res. key_return v rd = Some (rd', res) \<and> wf_rdl rd' \<and> (res = RDLINE_RES_EXITED \<or> res = RDLINE_RES_VALIDATED)"
proof -
  obtain rd1 where r: "key_return v rd = Some (v rd1 (clen (left rd) + 2),
      if rl_status (v rd1 (clen (left rd) + 2)) = RDLINE_EXITED then RDLINE_RES_EXITED else RDLINE_RES_VALIDATED)"
    "take (length (lchars rd) + length (rchars rd) + 2) (buf (left rd1)) = lchars rd @ rchars rd @ [0x0A, 0]" "wf_rdl rd1"
    using key_return_line [OF w] by blast
  have "0 \<in> set (take (length (lchars rd) + length (rchars rd) + 2) (buf (left rd1)))" unfolding r(2) by simp
  then have "0 \<in> set (buf (left rd1))" by (rule in_set_takeD)
  then have "wf_rdl (v rd1 n)" for n using v r(3) by (simp add: validate_ok_def)
  then show ?thesis using r(1) by auto
qed

lemma ctrl_k_wf:
  assumes "wf_rdl rd"
  shows "\<exists>rd'. key_ctrl_k rd = Some rd' \<and> wf_rdl rd' \<and> lchars rd' = lchars rd \<and> rchars rd' = [] \<and> killed rd' = rchars rd"
proof -
  have lo: "rl_ok rd" "kill_ok rd" using assms by (simp_all add: wf_rdl_def)
  obtain r k n o' where k: "key_ctrl_k rd = Some (rd\<lparr>kill_buf := k, kill_size := n, right := r, out := o'\<rparr>)"
    "line_ok (left rd) r" "chars r = []" "length k = 512" "unat n = length (rchars rd)" "take (unat n) k = rchars rd"
    using key_ctrl_k_ok [OF lo] by blast
  have "unat n \<le> 512" using line_okD(7) [OF lo(1)] k(5) by simp
  moreover have "0 \<notin> set (take (unat n) k)" unfolding k(6) using line_okD(9) [OF lo(1)] .
  ultimately have "wf_rdl (rd\<lparr>kill_buf := k, kill_size := n, right := r, out := o'\<rparr>)"
    using assms k(2,4) by (auto simp: wf_parts)
  then show ?thesis using k by (simp add: killed_def)
qed

lemma ctrl_c_ok:
  assumes "wf_rdl rd"
  shows "\<exists>rd'. key_ctrl_c rd = Some rd' \<and> wf_rdl rd'"
proof -
  have "mem_ok (rdline_puts rd crlf)" using wf_mem [OF assms] by (auto simp: mem_ok_def rdline_puts_def kill_ok_def)
  moreover obtain n where "strnlen (prompt rd) 31 = Some n"
    using strnlen_full [of 31 "prompt rd"] assms by (auto simp: wf_parts)
  ultimately show ?thesis using newline_ok by (fastforce simp: key_ctrl_c_def)
qed

lemma redisplay_wf:
  assumes "wf_rdl rd"
  shows "\<exists>rd'. rdline_redisplay rd = Some rd' \<and> wf_rdl rd'"
proof -
  have "wf_cb (left rd)" "wf_cb (right rd)" "prompt_size rd \<le> length (prompt rd)"
    using assms line_okD(1,2) [of "left rd" "right rd"] by (auto simp: wf_parts)
  then obtain o' where "rdline_redisplay rd = Some (rd\<lparr>out := o'\<rparr>)" using redisplay_ok by blast
  moreover have "wf_rdl (rd\<lparr>out := o'\<rparr>)" using assms by (auto simp: wf_parts)
  ultimately show ?thesis by blast
qed

lemma success_ok: "\<exists>rd'. r = Some rd' \<and> wf_rdl rd' \<Longrightarrow> \<exists>rd' res. success r = Some (rd', res) \<and> wf_rdl rd'"
  by (auto simp: success_def)

lemma edits_success:
  "edits rd r xs ys \<Longrightarrow> wf_rdl rd \<Longrightarrow> \<exists>rd' res. success r = Some (rd', res) \<and> wf_rdl rd'"
  using edits_wf success_ok by blast

lemma key_action_ok:
  assumes w: "wf_rdl rd" and v: "validate_ok v" and c: "complete_ok c m"
  shows "\<exists>rd' res. key_action v c cmd rd = Some (rd', res) \<and> wf_rdl rd'"
proof -
  have lo: "rl_ok rd" "kill_ok rd" using w by (simp_all add: wf_rdl_def)
  obtain xs where x: "hist_ok (history rd) xs" using w by (auto simp: wf_parts)
  note E = edits_success [OF _ w]
  have K: "\<exists>rd' res. success (key_ctrl_k rd) = Some (rd', res) \<and> wf_rdl rd'"
    "\<exists>rd' res. success (key_ctrl_c rd) = Some (rd', res) \<and> wf_rdl rd'"
    "\<exists>rd' res. success (rdline_redisplay rd) = Some (rd', res) \<and> wf_rdl rd'"
    "\<exists>rd' res. success (key_up rd) = Some (rd', res) \<and> wf_rdl rd'"
    "\<exists>rd' res. success (key_down rd) = Some (rd', res) \<and> wf_rdl rd'"
    using ctrl_k_wf [OF w] ctrl_c_ok [OF w] redisplay_wf [OF w] key_up_ok [OF w] key_down_ok [OF w x]
    by (blast intro: success_ok)+
  have R: "\<exists>rd' res. key_tab c cmd rd = Some (rd', res) \<and> wf_rdl rd'" "\<exists>rd' res. key_return v rd = Some (rd', res) \<and> wf_rdl rd'"
    using key_tab_ok [OF w c] key_return_ok [OF w v] by blast+
  show ?thesis
    using E [OF key_left_ok [OF lo(1)]] E [OF key_right_ok [OF lo(1)]] E [OF key_wleft_ok [OF lo(1)]]
      E [OF key_wright_ok [OF lo(1)]] E [OF key_ctrl_a_ok [OF lo(1)]] E [OF key_ctrl_e_ok [OF lo(1)]]
      E [OF key_bkspace_ok [OF lo(1)]] E [OF key_suppr_ok [OF lo(1)]] E [OF key_meta_bkspace_ok [OF lo(1)]]
      E [OF key_meta_d_ok [OF lo(1)]] E [OF key_ctrl_y_ok [OF lo]] K R w
    unfolding key_action_def by (simp split del: if_split cong: if_cong) (auto split: if_splits)
qed

lemma char_in_ok:
  assumes w: "wf_rdl rd" and v: "validate_ok v" and c: "complete_ok c m"
  shows "\<exists>rd' res. rdline_char_in v c rd ch = Some (rd', res) \<and> wf_rdl rd'"
proof -
  obtain vt cmd where p: "vt100_parser (vt100 rd) ch = Some (vt, cmd)" "wf_vt vt"
    using vt100_parser_ok [of "vt100 rd" ch] w by (auto simp: wf_parts)
  let ?rd = "rd\<lparr>vt100 := vt\<rparr>"
  have w1: "wf_rdl ?rd" using w p(2) by (auto simp: wf_parts)
  have lo: "rl_ok ?rd" using w by (simp add: wf_rdl_def)
  show ?thesis
    using p(1) w w1 key_action_ok [OF w1 v c, of cmd] edits_success [OF insert_char_ok [OF lo] w1, of ch]
    by (auto simp: rdline_char_in_def)
qed

section \<open>The command line\<close>

lemma slice_of_Some: "k + n \<le> length xs \<Longrightarrow> slice_of xs k n = Some (take n (drop k xs))"
  by (simp add: slice_of_def)

lemma cmdline_keep_ok:
  assumes w: "wf_rdl r"
  shows "\<exists>r'. cmdline_keep r = Some r' \<and> wf_rdl r'"
proof -
  have lo: "rl_ok r" using w by (simp add: wf_parts)
  obtain xs where x: "hist_ok (history r) xs" using w by (auto simp: wf_parts)
  obtain l q where b: "rdline_get_buffer r = Some (r\<lparr>left := l, right := q\<rparr>)" "line_ok l q"
    using get_buffer_ok [OF lo] by blast
  let ?r = "r\<lparr>left := l, right := q\<rparr>"
  have w1: "wf_rdl ?r" using w b(2) by (auto simp: wf_parts)
  have bl: "length (buf l) = 514" using line_okD(5) [OF b(2)] .
  have c512: "unat (512 :: u32) = 512" by simp
  obtain n where n: "strnlen (buf l) 512 = Some n" using strnlen_full [of 512 "buf l"] bl by auto
  have x1: "hist_ok (history ?r) xs" using x by simp
  define add where "add r2 same = (if n > 1 \<and> \<not> same then do { (r, _) \<leftarrow> rdline_add_history r2 (buf l); Some r } else Some r2)"
    for r2 and same :: bool
  have A: "\<exists>r'. add r2 same = Some r' \<and> wf_rdl r'" if "wf_rdl r2" "hist_ok (history r2) ys" for r2 same ys
    using add_history_ok [OF that(2) n] wf_history [OF that(1)] that(1) by (auto simp: add_def)
  show ?thesis
  proof (cases "xs = []")
    case True
    then have "rdline_get_history_item ?r 0 = Some (?r, None)" using history_item_ok(2) [OF x1, of 0] by simp
    then have "cmdline_keep r = add ?r False" using b(1) n unfolding cmdline_keep_def c512 by (simp add: add_def)
    then show ?thesis using A [OF w1 x1] by simp
  next
    case False
    then have lt: "unat (0 :: u32) < length xs" by simp
    obtain h i ys where h: "rdline_get_history_item ?r 0 = Some (?r\<lparr>history := h\<rparr>, Some i)" "hist_ok h xs"
      "drop i (buf h) = (xs ! (length xs - 1 - unat (0 :: u32))) @ 0 # ys" "i \<le> 8192"
      using history_item_ok(1) [OF x1 lt] by blast
    let ?item = "xs ! (length xs - 1 - unat (0 :: u32))"
    have "0 \<notin> set ?item" using hist_okD(5) [OF h(2)] False by simp
    from strnlen_text [OF this, of ys 512] obtain k where k: "strnlen (drop i (buf h)) 512 = Some k" "k \<le> 512"
      unfolding h(3) by auto
    have "k \<le> 8192 - i" using strnlen_ok [OF k(1)] hist_okD(3) [OF h(2)] by simp
    then have il: "i + k \<le> length (buf h)" using h(4) hist_okD(3) [OF h(2)] by linarith
    have kb: "0 + k \<le> length (buf l)" "k < length (buf l)" using k(2) bl by simp_all
    have w2: "wf_rdl (?r\<lparr>history := h\<rparr>)" "hist_ok (history (?r\<lparr>history := h\<rparr>)) xs" using wf_history [OF w1 h(2)] h(2) by simp_all
    have "cmdline_keep r = add (?r\<lparr>history := h\<rparr>) (take k (drop 0 (buf l)) = take k (drop i (buf h)) \<and> buf l ! k = 0x0A)"
      using b(1) n h(1) k(1) slice_of_Some [OF kb(1)] slice_of_Some [OF il]
      unfolding cmdline_keep_def c512 by (auto simp: add_def nth_opt_lt [OF kb(2)])
    then show ?thesis using A [OF w2] by simp
  qed
qed

definition wf_cl :: "cmdline \<Rightarrow> bool" where
  "wf_cl cl \<longleftrightarrow> wf_rdl (rdl cl) \<and> strnlen (cl_prompt cl) 31 \<noteq> None"

lemma cmdline_loop_ok:
  assumes "wf_cl cl" and v: "validate_ok v" and c: "complete_ok c m"
  shows "\<exists>cl' n. cmdline_loop v c cl cs i = Some (cl', n) \<and> wf_cl cl' \<and> (n = -1 \<or> n = i + int (length cs))"
  using assms(1)
proof (induction cs arbitrary: cl i)
  case Nil
  then show ?case by simp
next
  case (Cons ch cs)
  obtain r ret where r: "rdline_char_in v c (rdl cl) ch = Some (r, ret)" "wf_rdl r"
    using char_in_ok [OF _ v c, of "rdl cl" ch] Cons.prems by (auto simp: wf_cl_def)
  have W: "wf_cl (cl\<lparr>rdl := r'\<rparr>)" if "wf_rdl r'" for r' using Cons.prems that by (simp add: wf_cl_def)
  have I: "\<exists>cl' n. cmdline_loop v c (cl\<lparr>rdl := r'\<rparr>) cs (i + 1) = Some (cl', n) \<and> wf_cl cl' \<and>
      (n = -1 \<or> n = i + int (length (ch # cs)))" if "wf_rdl r'" for r'
    using Cons.IH [OF W [OF that], of "i + 1"] by (auto simp: ac_simps)
  obtain r2 where r2: "cmdline_keep r = Some r2" "wf_rdl r2" using cmdline_keep_ok [OF r(2)] by blast
  obtain n where n: "strnlen (cl_prompt cl) 31 = Some n" using Cons.prems by (auto simp: wf_cl_def)
  obtain r3 where r3: "rdline_newline r2 (cl_prompt cl) = Some r3" "wf_rdl r3"
    using newline_ok [OF wf_mem [OF r2(2)] n] by blast
  show ?case using r r2(1) r3(1) I [OF r3(2)] I [OF r(2)] W [OF r(2)] by auto
qed

text \<open>C21: whatever characters are typed into a command line in a well-formed state, with callbacks that behave,
  \<open>cmdline_in\<close> has a defined result: no buffer is overrun and every loop ends. It leaves a well-formed
  state, and returns the number of characters, or -1.\<close>

theorem cmdline_in_safe:
  assumes "wf_cl cl" "validate_ok v" "complete_ok c m"
  shows "\<exists>cl' n. cmdline_in v c cl cs = Some (cl', n) \<and> wf_cl cl' \<and> (n = -1 \<or> n = int (length cs))"
  using cmdline_loop_ok [OF assms, of cs 0] by (simp add: cmdline_in_def)

lemma cmdline_new_ok:
  assumes "0 \<notin> set p"
  shows "\<exists>cl. cmdline_new p = Some cl \<and> wf_cl cl \<and> lchars (rdl cl) = [] \<and> rchars (rdl cl) = [] \<and>
    rl_status (rdl cl) = RDLINE_RUNNING"
proof -
  let ?q = "take 31 p @ 0 # drop (length (take 31 p) + 1) (replicate RDLINE_PROMPT_SIZE 0)"
  have "0 \<notin> set (take 31 p)" using assms by (meson in_set_takeD)
  then have n: "strnlen ?q 31 = Some (min (length (take 31 p)) 31)" by (rule strnlen_text)
  from newline_ok [OF init_mem_ok n] obtain r where
    "rdline_newline rdline_init ?q = Some r" "wf_rdl r" "lchars r = []" "rchars r = []" "rl_status r = RDLINE_RUNNING" by blast
  then show ?thesis using n by (auto simp: cmdline_new_def cmdline_set_prompt_def Let_def wf_cl_def)
qed

text \<open>Callbacks for the examples: nothing happens on validation; there are two choices.\<close>

definition keep_state :: validate_cb where "keep_state rd n = rd"
definition two_choices :: complete_cb where
  "two_choices rd b st = (if st < 2 then (1, [0x61, 0x62] @ replicate (BUFSIZ - 2) 0, max 1 (st + 1)) else (0, replicate BUFSIZ 0, st))"

lemma callbacks_ok: "validate_ok keep_state" "complete_ok two_choices (\<lambda>st. nat (2 - st))"
  by (auto simp: validate_ok_def keep_state_def complete_ok_def two_choices_def split: if_splits)

theorem cmdline_in_safe_witness:
  "\<exists>cl cl' n. cmdline_new [0x3E, 0x20] = Some cl \<and> wf_cl cl \<and>
     cmdline_in keep_state two_choices cl [0x61, 0x09, 0x1B, 0x5B, 0x44, 0x0D, 0x10] = Some (cl', n) \<and> wf_cl cl' \<and>
     (n = -1 \<or> n = 7)"
proof -
  obtain cl where cl: "cmdline_new [0x3E, 0x20] = Some cl" "wf_cl cl" using cmdline_new_ok [of "[0x3E, 0x20]"] by auto
  from cmdline_in_safe [OF cl(2) callbacks_ok, of "[0x61, 0x09, 0x1B, 0x5B, 0x44, 0x0D, 0x10]"] obtain cl' n where
    "cmdline_in keep_state two_choices cl [0x61, 0x09, 0x1B, 0x5B, 0x44, 0x0D, 0x10] = Some (cl', n)" "wf_cl cl'"
    "n = -1 \<or> n = int (length [0x61, 0x09, 0x1B, 0x5B, 0x44, 0x0D, 0x10 :: u8])" by blast
  then show ?thesis using cl by (intro exI [of _ cl] exI [of _ cl'] exI [of _ n]) simp
qed

section \<open>Editing\<close>

text \<open>The editing keys on the text before the caret, the text after it and the kill buffer.\<close>

definition edit_keys :: "int set" where "edit_keys = {2, 3, 4, 6, 7, 8, 9, 11, 12, 13, 15, 18, 19, 20, 22, 25, 26}"

definition edit_spec :: "int \<Rightarrow> u8 list \<times> u8 list \<times> u8 list \<Rightarrow> u8 list \<times> u8 list \<times> u8 list" where
  "edit_spec cmd = (\<lambda>(l, r, k).
     if cmd \<in> {CMDLINE_KEY_LEFT_ARR, CMDLINE_KEY_CTRL_B} then (butlast l, drop (length l - 1) l @ r, k)
     else if cmd \<in> {CMDLINE_KEY_RIGHT_ARR, CMDLINE_KEY_CTRL_F} then (l @ take 1 r, tl r, k)
     else if cmd = CMDLINE_KEY_WLEFT then (before_word l, last_word l @ r, k)
     else if cmd = CMDLINE_KEY_WRIGHT then (l @ first_word r, after_word r, k)
     else if cmd = CMDLINE_KEY_CTRL_A then ([], l @ r, k)
     else if cmd = CMDLINE_KEY_CTRL_E then (l @ r, [], k)
     else if cmd \<in> {CMDLINE_KEY_BKSPACE, CMDLINE_KEY_BKSPACE2} then (butlast l, r, k)
     else if cmd \<in> {CMDLINE_KEY_SUPPR, CMDLINE_KEY_CTRL_D} then (l, tl r, k)
     else if cmd \<in> {CMDLINE_KEY_META_BKSPACE, CMDLINE_KEY_CTRL_W} then (before_word l, r, k)
     else if cmd = CMDLINE_KEY_META_D then (l, after_word r, k)
     else if cmd = CMDLINE_KEY_CTRL_K then (l, [], r)
     else if cmd = CMDLINE_KEY_CTRL_Y then (l @ take (512 - (length l + length r)) k, r, k)
     else (l, r, k))"

definition text_of :: "rdline \<Rightarrow> u8 list \<times> u8 list \<times> u8 list" where
  "text_of rd = (lchars rd, rchars rd, killed rd)"

lemma edits_text:
  "edits rd r xs ys \<Longrightarrow> wf_rdl rd \<Longrightarrow> \<exists>rd' res. success r = Some (rd', res) \<and> wf_rdl rd' \<and> text_of rd' = (xs, ys, killed rd)"
  using edits_wf [of rd r xs ys] by (auto simp: success_def text_of_def)

lemma key_action_edits:
  assumes w: "wf_rdl rd" and k: "cmd \<in> edit_keys"
  shows "\<exists>rd' res. key_action v c cmd rd = Some (rd', res) \<and> wf_rdl rd' \<and> text_of rd' = edit_spec cmd (text_of rd)"
proof -
  have lo: "rl_ok rd" "kill_ok rd" using w by (simp_all add: wf_rdl_def)
  note E = edits_text [OF _ w]
  have K: "\<exists>rd' res. success (key_ctrl_k rd) = Some (rd', res) \<and> wf_rdl rd' \<and> text_of rd' = (lchars rd, [], rchars rd)"
    using ctrl_k_wf [OF w] by (auto simp: success_def text_of_def)
  have D: "\<exists>rd' res. (if CIRBUF_IS_EMPTY (left rd) \<and> CIRBUF_IS_EMPTY (right rd) then Some (rd, RDLINE_RES_EOF)
      else success (key_suppr rd)) = Some (rd', res) \<and> wf_rdl rd' \<and> text_of rd' = (lchars rd, tl (rchars rd), killed rd)"
    using E [OF key_suppr_ok [OF lo(1)]] w by (auto simp: cb_empty text_of_def)
  note facts = E [OF key_left_ok [OF lo(1)]] E [OF key_right_ok [OF lo(1)]] E [OF key_wleft_ok [OF lo(1)]]
      E [OF key_wright_ok [OF lo(1)]] E [OF key_ctrl_a_ok [OF lo(1)]] E [OF key_ctrl_e_ok [OF lo(1)]]
      E [OF key_bkspace_ok [OF lo(1)]] E [OF key_suppr_ok [OF lo(1)]] E [OF key_meta_bkspace_ok [OF lo(1)]]
      E [OF key_meta_d_ok [OF lo(1)]] E [OF key_ctrl_y_ok [OF lo]] K D
  have t: "text_of rd = (lchars rd, rchars rd, killed rd)" by (simp add: text_of_def)
  show ?thesis
    using k facts unfolding edit_keys_def insert_iff empty_iff t
    by (elim disjE) (simp_all add: key_action_def edit_spec_def del: chars_length split del: if_split)
qed

text \<open>C22: a character that completes the sequence of an editing key changes the text before the caret, the text
  after it and the kill buffer exactly as the specification of the key says, whatever the callbacks.\<close>

theorem char_in_edits:
  assumes "wf_rdl rd" "rl_status rd = RDLINE_RUNNING" "vt100_parser (vt100 rd) ch = Some (vt, cmd)" "cmd \<in> edit_keys"
  shows "\<exists>rd' res. rdline_char_in v c rd ch = Some (rd', res) \<and> wf_rdl rd' \<and> text_of rd' = edit_spec cmd (text_of rd)"
proof -
  have "wf_vt vt" using vt100_parser_ok [of "vt100 rd" ch] assms(1,3) by (auto simp: wf_parts)
  then have w: "wf_rdl (rd\<lparr>vt100 := vt\<rparr>)" using assms(1) by (auto simp: wf_parts)
  have "0 \<le> cmd" "cmd \<noteq> -2" using assms(4) by (auto simp: edit_keys_def)
  then show ?thesis
    using key_action_edits [OF w assms(4), of v c] assms(2,3) by (simp add: rdline_char_in_def text_of_def killed_def)
qed

text \<open>An editor with the text ab, the caret after it.\<close>

definition rd_ab :: rdline where
  "rd_ab = rdline_init\<lparr>rl_status := RDLINE_RUNNING,
     left := \<lparr>maxlen = 512, cstart = 0, cend = 1, clen = 2, buf = [0x61, 0x62] @ replicate 512 0\<rparr>,
     right := cirbuf_init (replicate 512 0) 0 512\<rparr>"

lemma rd_ab_ok: "wf_rdl rd_ab" "rl_status rd_ab = RDLINE_RUNNING" "text_of rd_ab = ([0x61, 0x62], [], [])"
  "vt100 rd_ab = vt_fresh" "history_cur_line rd_ab = 0"
proof -
  have w: "wf_cb (left rd_ab)" by (simp add: wf_cb_def rd_ab_def wrap_def)
  have L: "lchars rd_ab = [0x61, 0x62]"
  proof -
    have "len_of_cb (left rd_ab) = 2" "cstart (left rd_ab) = 0" by (simp_all add: rd_ab_def)
    then have "lchars rd_ab = take 2 (buf (left rd_ab))" using chars_aligned [OF w] by simp
    also have "\<dots> = [0x61, 0x62]" by (simp add: rd_ab_def take_Cons')
    finally show ?thesis .
  qed
  note C = cirbuf_init_ok [of 512 "replicate 512 0" 0]
  have R: "wf_cb (right rd_ab)" "rchars rd_ab = []" using C by (simp_all add: rd_ab_def)
  have "rl_ok rd_ab"
    using w L R by (simp add: line_ok_def cb.pair_ok_def cb_shape_def cb_cap_def)
      (simp add: rd_ab_def cirbuf_init_def)
  then show "wf_rdl rd_ab"
    using init_mem_ok by (auto simp: wf_parts mem_ok_def rd_ab_def rdline_init_def)
  show "rl_status rd_ab = RDLINE_RUNNING" "vt100 rd_ab = vt_fresh" "history_cur_line rd_ab = 0"
    by (simp_all add: rd_ab_def rdline_init_def)
  show "text_of rd_ab = ([0x61, 0x62], [], [])"
    using L R by (simp add: text_of_def killed_def) (simp add: rd_ab_def rdline_init_def)
qed

theorem char_in_edits_witness:
  "\<exists>rd' res. rdline_char_in keep_state two_choices rd_ab 0x02 = Some (rd', res) \<and> text_of rd' = ([0x61], [0x62], [])"
proof -
  have p: "vt100_parser (vt100 rd_ab) 0x02 =
      Some (\<lparr>bufpos = 0, vtbuf = [2, 0, 0, 0, 0, 0, 0, 0], vtstate = CMDLINE_VT100_INIT\<rparr>, CMDLINE_KEY_CTRL_B)"
    unfolding rd_ab_ok(4) by code_simp
  have "CMDLINE_KEY_CTRL_B \<in> edit_keys" by (simp add: edit_keys_def)
  from char_in_edits [OF rd_ab_ok(1,2) p this, where v = keep_state and c = two_choices] show ?thesis
    unfolding rd_ab_ok(3) edit_spec_def by auto
qed

section \<open>Return\<close>

text \<open>the return key hands \<open>validate\<close> the whole line, the text before the caret and the text after it with a
  newline and a null character, in \<open>left_buf\<close>; the size argument counts the text before the caret only.\<close>

theorem return_hands_line:
  assumes "wf_rdl rd"
  shows "\<exists>rd1. key_return v rd = Some (v rd1 (clen (left rd) + 2),
      if rl_status (v rd1 (clen (left rd) + 2)) = RDLINE_EXITED then RDLINE_RES_EXITED else RDLINE_RES_VALIDATED) \<and>
    take (length (lchars rd) + length (rchars rd) + 2) (buf (left rd1)) = lchars rd @ rchars rd @ [0x0A, 0] \<and>
    wf_rdl rd1 \<and> rl_status rd1 = RDLINE_INIT"
  by (rule key_return_line [OF assms])

theorem return_hands_line_witness:
  "\<exists>rd1. key_return keep_state rd_ab = Some (rd1, RDLINE_RES_VALIDATED) \<and>
     take 4 (buf (left rd1)) = [0x61, 0x62, 0x0A, 0]"
proof -
  have t: "lchars rd_ab = [0x61, 0x62]" "rchars rd_ab = []" using rd_ab_ok(3) by (simp_all add: text_of_def)
  obtain rd1 where "key_return keep_state rd_ab = Some (rd1, if rl_status rd1 = RDLINE_EXITED then RDLINE_RES_EXITED
      else RDLINE_RES_VALIDATED)" "take (length [0x61, 0x62 :: u8] + length ([] :: u8 list) + 2) (buf (left rd1)) =
      [0x61, 0x62] @ [] @ [0x0A, 0]" "rl_status rd1 = RDLINE_INIT"
    using return_hands_line [OF rd_ab_ok(1), of keep_state] unfolding t keep_state_def by blast
  moreover have "length [0x61, 0x62 :: u8] + length ([] :: u8 list) + 2 = 4" by simp
  ultimately show ?thesis by (intro exI [of _ rd1]) (simp del: list.size)
qed

section \<open>Typing\<close>

fun rdline_feed :: "validate_cb \<Rightarrow> complete_cb \<Rightarrow> rdline \<Rightarrow> u8 list \<Rightarrow> rdline option" where
  "rdline_feed v c rd [] = Some rd"
| "rdline_feed v c rd (ch # cs) = do { (rd1, _) \<leftarrow> rdline_char_in v c rd ch; rdline_feed v c rd1 cs }"

definition ready :: "rdline \<Rightarrow> bool" where
  "ready rd \<longleftrightarrow> wf_rdl rd \<and> rl_status rd = RDLINE_RUNNING \<and> vtstate (vt100 rd) = CMDLINE_VT100_INIT \<and> bufpos (vt100 rd) = 0"

definition plain :: "u8 \<Rightarrow> bool" where "plain ch \<longleftrightarrow> isprint ch \<and> ch \<noteq> 0x3F"

lemma type_char:
  assumes "ready rd" "plain ch"
  shows "\<exists>rd'. rdline_char_in v c rd ch = Some (rd', RDLINE_RES_SUCCESS) \<and> ready rd' \<and> rchars rd' = rchars rd \<and>
    lchars rd' = lchars rd @ take (512 - (length (lchars rd) + length (rchars rd))) [ch]"
proof -
  have w: "wf_vt (vt100 rd)" using assms(1) by (simp add: ready_def wf_rdl_def)
  obtain vt where vt: "vt100_parser (vt100 rd) ch = Some (vt, -1)" "wf_vt vt" "vtstate vt = CMDLINE_VT100_INIT" "bufpos vt = 0"
    using vt100_plain [OF w, of ch] assms by (auto simp: ready_def plain_def isprint_def)
  let ?rd = "rd\<lparr>vt100 := vt\<rparr>"
  have w1: "wf_rdl ?rd" using assms(1) vt(2) by (auto simp: wf_parts ready_def)
  have lo: "rl_ok ?rd" using w1 by (simp add: wf_rdl_def)
  let ?xs = "if isprint ch \<and> length (lchars rd) + length (rchars rd) < 512 then lchars rd @ [ch] else lchars rd"
  have E: "edits ?rd (insert_char ch ?rd) ?xs (rchars rd)"
    using insert_char_ok [OF lo, of ch] by (simp split del: if_split cong: if_cong)
  then obtain l r o' where i: "insert_char ch ?rd = Some (?rd\<lparr>left := l, right := r, out := o'\<rparr>)" "line_ok l r"
    "chars l = ?xs" "chars r = rchars rd" unfolding edits_def by blast
  have "?xs = lchars rd @ take (512 - (length (lchars rd) + length (rchars rd))) [ch]"
    using assms(2) by (auto simp: plain_def take_Cons split: nat.splits simp del: chars_length)
  moreover have "ready (?rd\<lparr>left := l, right := r, out := o'\<rparr>)"
    using w1 i(2) vt assms(1) by (auto simp: ready_def wf_parts)
  ultimately show ?thesis
    using vt(1) i assms(1) by (auto simp: rdline_char_in_def ready_def success_def)
qed

text \<open>typing printable characters other than the question mark puts them before the caret, in order, until the
  line has 512 characters, and the rest is ignored; the text after the caret stays.\<close>

theorem typing_inserts:
  assumes "ready rd" "\<forall>ch \<in> set cs. plain ch"
  shows "\<exists>rd'. rdline_feed v c rd cs = Some rd' \<and> ready rd' \<and> rchars rd' = rchars rd \<and>
    lchars rd' = lchars rd @ take (512 - (length (lchars rd) + length (rchars rd))) cs"
  using assms
proof (induction cs arbitrary: rd)
  case (Cons ch cs)
  let ?n = "\<lambda>rd. 512 - (length (lchars rd) + length (rchars rd))"
  obtain rd1 where r1: "rdline_char_in v c rd ch = Some (rd1, RDLINE_RES_SUCCESS)" "ready rd1" "rchars rd1 = rchars rd"
    "lchars rd1 = lchars rd @ take (?n rd) [ch]" using type_char [OF Cons.prems(1)] Cons.prems(2) by force
  obtain rd2 where r2: "rdline_feed v c rd1 cs = Some rd2" "ready rd2" "rchars rd2 = rchars rd1"
    "lchars rd2 = lchars rd1 @ take (?n rd1) cs" using Cons.IH [OF r1(2)] Cons.prems(2) by auto
  have "take (?n rd) [ch] @ take (?n rd1) cs = take (?n rd) (ch # cs)"
  proof (cases "?n rd")
    case 0
    then show ?thesis unfolding r1(3,4) length_append by (simp del: chars_length)
  next
    case (Suc m)
    then have "?n rd1 = m" unfolding r1(3,4) length_append by (simp del: chars_length)
    then show ?thesis unfolding Suc by simp
  qed
  then show ?case using r1 r2 by (auto simp del: chars_length)
qed simp

theorem typing_inserts_witness:
  "\<exists>rd'. rdline_feed keep_state two_choices rd_ab [0x63, 0x20] = Some rd' \<and> lchars rd' = [0x61, 0x62, 0x63, 0x20]"
proof -
  have "ready rd_ab" using rd_ab_ok by (simp add: ready_def)
  moreover have t: "lchars rd_ab = [0x61, 0x62]" "rchars rd_ab = []" using rd_ab_ok(3) by (simp_all add: text_of_def)
  moreover have "\<forall>ch \<in> set [0x63, 0x20]. plain ch" by (simp add: plain_def isprint_def)
  ultimately show ?thesis
    using typing_inserts [of rd_ab "[0x63, 0x20]" keep_state two_choices] by (auto simp: t simp del: chars_length)
qed

section \<open>History\<close>

text \<open>C23: going up from a line that is being edited and down again brings its text back, however full the history
  is; in between the line shows the newest line of the history that is still there.\<close>

theorem up_then_down:
  assumes "wf_rdl rd" "hist_ok (history rd) xs" "history_cur_line rd = -1" "0x0A \<notin> set (lchars rd @ rchars rd)"
  shows "\<exists>rd1 rd2 k. key_up rd = Some rd1 \<and> key_down rd1 = Some rd2 \<and> wf_rdl rd2 \<and>
    (if drop k xs = [] then lchars rd1 @ rchars rd1 = lchars rd @ rchars rd else lchars rd1 = take 512 (last (drop k xs))) \<and>
    lchars rd2 @ rchars rd2 = lchars rd @ rchars rd"
proof -
  let ?t = "lchars rd @ rchars rd"
  have lt: "line_of ?t = ?t" unfolding line_of_def takeWhile_eq_all_conv using assms(4) by auto
  have lo: "rl_ok rd" using assms(1) by (simp add: wf_parts)
  have tl: "length ?t \<le> 512" using line_okD(7) [OF lo] by simp
  obtain rd0 rd1 k where u: "key_up rd = Some rd1" "wf_rdl rd1" "lchars rd0 = lchars rd" "rchars rd0 = rchars rd"
    "history_cur_line rd0 = 0" "hist_ok (history rd0) (drop k xs @ [?t])" "up_shows rd0 (drop k xs @ [?t]) rd1"
    using key_up_new [OF assms(1-3)] unfolding lt by blast
  let ?ys = "drop k xs"
  show ?thesis
  proof (cases "?ys = []")
    case True
    then have e: "rd1 = rd0" using u(5,7) by (simp add: up_shows_def)
    have h: "hist_ok (history rd1) (?ys @ [?t])" using e u(6) by simp
    obtain rd2 where d: "key_down rd1 = Some rd2" "wf_rdl rd2" "lchars rd2 = lchars rd1" "rchars rd2 = rchars rd1"
      using key_down_ok [OF u(2) h] u(5) e by auto
    show ?thesis using u(1) d True e u(3,4) by (intro exI [of _ rd1] exI [of _ rd2] exI [of _ k]) simp
  next
    case False
    then have n: "nat (history_cur_line rd0 + 1) < length (?ys @ [?t])" using u(5) by simp
    have idx: "length (?ys @ [?t]) - 1 - nat (history_cur_line rd0 + 1) = length ?ys - 1" using u(5) by simp
    have "length ?ys - 1 < length ?ys" using False by (metis diff_less length_greater_0_conv less_one)
    then have "(?ys @ [?t]) ! (length ?ys - 1) = last ?ys" using False unfolding nth_append by (metis last_conv_nth)
    then have s: "lchars rd1 = take 512 (last ?ys)" "hist_ok (history rd1) (?ys @ [?t])" "history_cur_line rd1 = 1"
      using u(5,7) n unfolding up_shows_def idx by simp_all
    obtain rd2 where d: "key_down rd1 = Some rd2" "wf_rdl rd2" "lchars rd2 = take 512 ?t" "rchars rd2 = []"
    proof -
      have "(?ys @ [?t]) ! (length xs - k) = ?t" using nth_append_length [of ?ys ?t] by simp
      then show thesis using that key_down_ok [OF u(2) s(2)] s(3) by auto
    qed
    have "take 512 ?t = ?t" using tl by (rule take_all)
    then show ?thesis using u(1) d s(1) False by (intro exI [of _ rd1] exI [of _ rd2] exI [of _ k]) simp
  qed
qed

theorem up_then_down_witness:
  "\<exists>rd1 rd2. key_up (rd_ab\<lparr>history_cur_line := -1\<rparr>) = Some rd1 \<and> key_down rd1 = Some rd2 \<and>
     lchars rd2 @ rchars rd2 = [0x61, 0x62]"
proof -
  let ?rd = "rd_ab\<lparr>history_cur_line := -1\<rparr>"
  have w: "wf_rdl ?rd" using rd_ab_ok(1) by (auto simp: wf_parts)
  have t: "lchars ?rd = [0x61, 0x62]" "rchars ?rd = []" using rd_ab_ok(3) by (simp_all add: text_of_def)
  obtain xs where x: "hist_ok (history ?rd) xs" using w by (auto simp: wf_parts)
  have "0x0A \<notin> set (lchars ?rd @ rchars ?rd)" unfolding t by simp
  from up_then_down [OF w x _ this] show ?thesis unfolding t by auto
qed

text \<open>C24: adding a line to the history makes it the newest one and drops the oldest lines only as long as there is
  no room for it.\<close>

theorem add_history_keeps_newest:
  assumes "hist_ok (history rd) xs" "strnlen b 512 = Some n"
  shows "\<exists>h k. rdline_add_history rd b = Some (rd\<lparr>history := h\<rparr>, 0) \<and> hist_ok h (drop k xs @ [line_of (take n b)]) \<and>
    (\<forall>j < k. length (stored (drop j xs)) + length (line_of (take n b)) \<ge> 8192)"
  by (rule add_history_ok [OF assms])

theorem add_history_keeps_newest_witness:
  "\<exists>h. rdline_add_history rd_ab [0x61, 0x0A, 0] = Some (rd_ab\<lparr>history := h\<rparr>, 0) \<and> hist_ok h [[0x61]]"
proof -
  have x: "hist_ok (history rd_ab) []"
    using cirbuf_init_ok [of 8192 "replicate 8192 0" 0]
    by (auto simp: hist_ok_def rd_ab_def rdline_init_def cirbuf_init_def)
  have "0 \<notin> set [0x61, 0x0A :: u8]" by simp
  from strnlen_text [OF this, of "[]" 512] have n: "strnlen [0x61, 0x0A, 0] 512 = Some 2" by simp
  have "line_of (take 2 [0x61, 0x0A, 0]) = [0x61]" by code_simp
  then show ?thesis using add_history_keeps_newest [OF x n] by auto
qed

section \<open>The prompt after an interrupt\<close>

text \<open>A prompt shorter than the one before is copied without a null character: the line shows it, but the
  line that an interrupt starts shows the rest of the longer prompt after it.\<close>

lemma ctrl_c_shows_old_prompt:
  assumes "0 \<notin> set p" "0 \<notin> set q" "length q \<le> length p" "length p \<le> 30"
  shows "\<exists>r1 r2 r3. rdline_newline rdline_init (p @ [0]) = Some r1 \<and> rdline_newline r1 (q @ [0]) = Some r2 \<and>
    out r2 = out r1 @ q \<and> key_ctrl_c r2 = Some r3 \<and> out r3 = out r2 @ crlf @ q @ drop (length q) p"
proof -
  have sp: "strnlen (p @ [0]) 31 = Some (length p)" "strnlen (q @ [0]) 31 = Some (length q)"
    using strnlen_text [OF assms(1), of "[]" 31] strnlen_text [OF assms(2), of "[]" 31] assms(3,4) by simp_all
  define z where "z = replicate (30 - length p) (0 :: u8)"
  have P: "blit (replicate 32 0) 0 p = Some (p @ 0 # z @ [0])"
  proof -
    have "32 - length p = Suc (30 - length p + 1)" using assms(4) by simp
    then have "replicate (32 - length p) (0 :: u8) = 0 # z @ [0]"
      by (simp only: replicate_Suc replicate_add z_def) simp
    then show ?thesis using assms(4) by (simp add: blit_def)
  qed
  have up: "upd_opt (x @ 0 # z @ [0]) 31 0 = Some (x @ 0 # z @ [0])" if "length x = length p" for x
  proof -
    have l: "length (x @ 0 # z) = 31" using that assms(4) by (simp add: z_def)
    then have "((x @ 0 # z) @ [0]) ! 31 = 0" by (metis nth_append_length)
    then have "((x @ 0 # z) @ [0])[31 := 0] = (x @ 0 # z) @ [0]" by (metis list_update_id)
    then show ?thesis using l by (simp add: upd_opt_def)
  qed
  obtain r1 where r1: "rdline_newline rdline_init (p @ [0]) = Some r1" "prompt r1 = p @ 0 # z @ [0]"
    using sp(1) P up [of p] by (simp add: rdline_newline_def rdline_init_def clear_line_def rdline_puts_def)
  let ?q = "q @ drop (length q) p @ 0 # z @ [0]"
  have Q: "blit (p @ 0 # z @ [0]) 0 q = Some ?q" using assms(3) by (simp add: blit_def)
  have l: "length (q @ drop (length q) p) = length p" using assms(3) by simp
  have uq: "upd_opt ?q 31 0 = Some ?q" using up [OF l] by simp
  obtain r2 where r2: "rdline_newline r1 (q @ [0]) = Some r2" "prompt r2 = ?q" "out r2 = out r1 @ q"
    using sp(2) Q uq r1(2) by (simp add: rdline_newline_def clear_line_def rdline_puts_def)
  have "0 \<notin> set (q @ drop (length q) p)" using assms(1,2) by (auto dest: in_set_dropD)
  from strnlen_text [OF this, of "z @ [0]" 31] have s3: "strnlen ?q 31 = Some (length p)" using l assms(4) by simp
  have t: "take (length p) ?q = q @ drop (length q) p" using l by (metis append.assoc append_eq_conv_conj)
  have B: "blit ?q 0 (take (length p) ?q) = Some ?q" unfolding t using l by (simp add: blit_def)
  obtain r3 where "key_ctrl_c r2 = Some r3" "out r3 = out r2 @ crlf @ q @ drop (length q) p"
    using s3 B uq t r2(2) by (simp add: key_ctrl_c_def rdline_newline_def clear_line_def rdline_puts_def del: take_append upd_opt_Some)
  then show ?thesis using r1(1) r2(1,3) by blast
qed

lemma ctrl_c_shows_old_prompt_example:
  "\<exists>r1 r2 r3. rdline_newline rdline_init [0x61, 0x62, 0x3E, 0] = Some r1 \<and> rdline_newline r1 [0x3E, 0] = Some r2 \<and>
     key_ctrl_c r2 = Some r3 \<and> out r3 = out r2 @ crlf @ [0x3E, 0x62, 0x3E]"
  using ctrl_c_shows_old_prompt [of "[0x61, 0x62, 0x3E]" "[0x3E]"] by auto

end
