(* ===== verification/Parse_Num.thy ===== *)
theory Parse_Num
  imports Prelude
begin

text \<open>
  The number token of the command line library: \<open>lib/cmdline/cmdline_parse_num.c\<close> and the character
  tests of \<open>cmdline_parse.c\<close>. A string is the memory from \<open>srcbuf\<close> on, and reading past its end is
  \<open>None\<close>; \<open>res\<close> is \<open>None\<close> for the null pointer or the size of the memory it points to. The result is the
  bytes stored at \<open>res\<close>, if any, and the return value. The theorem compares the state machine with a
  grammar of numbers.
\<close>

section \<open>Tokens\<close>

definition cmdline_isblank2 :: "u8 \<Rightarrow> bool" where "cmdline_isblank2 c = (c = 0x20 \<or> c = 0x09)"
definition isendofline :: "u8 \<Rightarrow> bool" where "isendofline c = (c = 0x0A \<or> c = 0x0D)"
definition iscomment :: "u8 \<Rightarrow> bool" where "iscomment c = (c = 0x23)"

definition cmdline_isendoftoken :: "u8 \<Rightarrow> bool" where
  "cmdline_isendoftoken c = (c = 0 \<or> iscomment c \<or> cmdline_isblank2 c \<or> isendofline c)"

definition cmdline_isendofcommand :: "u8 \<Rightarrow> bool" where
  "cmdline_isendofcommand c = (c = 0 \<or> iscomment c \<or> isendofline c)"

section \<open>The state machine\<close>

datatype cmdline_numtype =
  RTE_UINT8 | RTE_UINT16 | RTE_UINT32 | RTE_UINT64 | RTE_INT8 | RTE_INT16 | RTE_INT32 | RTE_INT64

datatype num_parse_state_t =
  START | DEC_NEG | BIN | HEX | ERROR | FIRST_OK | ZERO_OK | HEX_OK | OCTAL_OK | BIN_OK | DEC_NEG_OK | DEC_POS_OK

definition add_to_res :: "u8 \<Rightarrow> u64 \<Rightarrow> u64 \<Rightarrow> u64 option" where
  "add_to_res c res base = (if (- 1 - ucast c) div base < res then None else Some (res * base + ucast c))"

text \<open>A digit is added, and the state is \<open>st\<close>, or an error on overflow.\<close>

definition add_digit :: "num_parse_state_t \<Rightarrow> u8 \<Rightarrow> u64 \<Rightarrow> u64 \<Rightarrow> num_parse_state_t \<times> u64" where
  "add_digit st c res base = (case add_to_res c res base of None \<Rightarrow> (ERROR, res) | Some r \<Rightarrow> (st, r))"

definition hex_digit :: "u8 \<Rightarrow> u64 \<Rightarrow> num_parse_state_t \<times> u64" where
  "hex_digit c res =
     (if c \<ge> 0x30 \<and> c \<le> 0x39 then add_digit HEX_OK (c - 0x30) res 16
      else if c \<ge> 0x61 \<and> c \<le> 0x66 then add_digit HEX_OK (c - 0x61 + 10) res 16
      else if c \<ge> 0x41 \<and> c \<le> 0x46 then add_digit HEX_OK (c - 0x41 + 10) res 16
      else (ERROR, res))"

fun num_step :: "num_parse_state_t \<Rightarrow> u64 \<Rightarrow> u8 \<Rightarrow> num_parse_state_t \<times> u64" where
  "num_step START res c =
     (if c = 0x2D then (DEC_NEG, res)
      else if c = 0x30 then (ZERO_OK, res)
      else if c \<ge> 0x31 \<and> c \<le> 0x39 then add_digit DEC_POS_OK (c - 0x30) res 10
      else (ERROR, res))"
| "num_step ZERO_OK res c =
     (if c = 0x78 then (HEX, res)
      else if c = 0x62 then (BIN, res)
      else if c \<ge> 0x30 \<and> c \<le> 0x37 then add_digit OCTAL_OK (c - 0x30) res 10
      else (ERROR, res))"
| "num_step DEC_NEG res c =
     (if c \<ge> 0x30 \<and> c \<le> 0x39 then add_digit DEC_NEG_OK (c - 0x30) res 10 else (ERROR, res))"
| "num_step DEC_NEG_OK res c =
     (if c \<ge> 0x30 \<and> c \<le> 0x39 then add_digit DEC_NEG_OK (c - 0x30) res 10 else (ERROR, res))"
| "num_step DEC_POS_OK res c =
     (if c \<ge> 0x30 \<and> c \<le> 0x39 then add_digit DEC_POS_OK (c - 0x30) res 10 else (ERROR, res))"
| "num_step HEX res c = hex_digit c res"
| "num_step HEX_OK res c = hex_digit c res"
| "num_step OCTAL_OK res c =
     (if c \<ge> 0x30 \<and> c \<le> 0x37 then add_digit OCTAL_OK (c - 0x30) res 8 else (ERROR, res))"
| "num_step BIN res c =
     (if c \<ge> 0x30 \<and> c \<le> 0x31 then add_digit BIN_OK (c - 0x30) res 2 else (ERROR, res))"
| "num_step BIN_OK res c =
     (if c \<ge> 0x30 \<and> c \<le> 0x31 then add_digit BIN_OK (c - 0x30) res 2 else (ERROR, res))"
| "num_step st res c = (st, res)"

text \<open>The loop, \<open>n\<close> characters into the token; the inner \<open>None\<close> is a token that is too long.\<close>

fun num_loop :: "u8 list \<Rightarrow> nat \<Rightarrow> num_parse_state_t \<Rightarrow> u64 \<Rightarrow> (num_parse_state_t \<times> u64 \<times> nat) option option" where
  "num_loop [] n st res = None"
| "num_loop (c # cs) n st res =
     (if st \<noteq> ERROR \<and> c \<noteq> 0 \<and> \<not> cmdline_isendoftoken c
      then (let (st1, res1) = num_step st res c in
        if cs = [] then None
        else if n + 1 > 127 then Some None
        else num_loop cs (n + 1) st1 res1)
      else Some (Some (st, res, n)))"

definition check_res_size :: "cmdline_numtype \<Rightarrow> nat \<Rightarrow> int" where
  "check_res_size ty ressize = (case ty of
       RTE_INT8 \<Rightarrow> if ressize < 1 then -1 else 0 | RTE_UINT8 \<Rightarrow> if ressize < 1 then -1 else 0
     | RTE_INT16 \<Rightarrow> if ressize < 2 then -1 else 0 | RTE_UINT16 \<Rightarrow> if ressize < 2 then -1 else 0
     | RTE_INT32 \<Rightarrow> if ressize < 4 then -1 else 0 | RTE_UINT32 \<Rightarrow> if ressize < 4 then -1 else 0
     | RTE_INT64 \<Rightarrow> if ressize < 8 then -1 else 0 | RTE_UINT64 \<Rightarrow> if ressize < 8 then -1 else 0)"

text \<open>The switch after the loop: the bytes of the value, of the size of its type, or an error.\<close>

definition store_pos :: "cmdline_numtype \<Rightarrow> u64 \<Rightarrow> u8 list option" where
  "store_pos ty r =
     (if ty = RTE_INT8 \<and> r \<le> 0x7F then Some (le_bytes 1 r)
      else if ty = RTE_INT16 \<and> r \<le> 0x7FFF then Some (le_bytes 2 r)
      else if ty = RTE_INT32 \<and> r \<le> 0x7FFFFFFF then Some (le_bytes 4 r)
      else if ty = RTE_INT64 \<and> r \<le> 0x7FFFFFFFFFFFFFFF then Some (le_bytes 8 r)
      else if ty = RTE_UINT8 \<and> r \<le> 0xFF then Some (le_bytes 1 r)
      else if ty = RTE_UINT16 \<and> r \<le> 0xFFFF then Some (le_bytes 2 r)
      else if ty = RTE_UINT32 \<and> r \<le> 0xFFFFFFFF then Some (le_bytes 4 r)
      else if ty = RTE_UINT64 then Some (le_bytes 8 r)
      else None)"

definition store_neg :: "cmdline_numtype \<Rightarrow> u64 \<Rightarrow> u8 list option" where
  "store_neg ty r =
     (if ty = RTE_INT8 \<and> r \<le> 0x80 then Some (le_bytes 1 (- r))
      else if ty = RTE_INT16 \<and> r \<le> 0x8000 then Some (le_bytes 2 (- r))
      else if ty = RTE_INT32 \<and> r \<le> 0x80000000 then Some (le_bytes 4 (- r))
      else if ty = RTE_INT64 \<and> r \<le> 0x8000000000000000 then Some (le_bytes 8 (- r))
      else None)"

definition store_num :: "cmdline_numtype \<Rightarrow> num_parse_state_t \<Rightarrow> u64 \<Rightarrow> u8 list option" where
  "store_num ty st r =
     (if st = ZERO_OK \<or> st = DEC_POS_OK \<or> st = HEX_OK \<or> st = OCTAL_OK \<or> st = BIN_OK then store_pos ty r
      else if st = DEC_NEG_OK then store_neg ty r
      else None)"

definition cmdline_parse_num :: "cmdline_numtype \<Rightarrow> u8 list \<Rightarrow> nat option \<Rightarrow> (u8 list option \<times> int) option" where
  "cmdline_parse_num ty srcbuf res = do {
     c \<leftarrow> nth_opt srcbuf 0;
     (if c = 0 then Some (None, -1)
      else if (case res of None \<Rightarrow> False | Some ressize \<Rightarrow> check_res_size ty ressize < 0) then Some (None, -1)
      else do {
        r \<leftarrow> num_loop srcbuf 0 START 0;
        Some (case r of
            None \<Rightarrow> (None, -1)
          | Some (st, res1, n) \<Rightarrow>
              (case store_num ty st res1 of
                 None \<Rightarrow> (None, -1)
               | Some bs \<Rightarrow> (if res = None then None else Some bs, int n))) }) }"

section \<open>Numbers\<close>

text \<open>The grammar: decimal, with a minus sign or not; hexadecimal after \<open>0x\<close>, binary after \<open>0b\<close>, octal after \<open>0\<close>.\<close>

definition digit :: "u8 \<Rightarrow> nat option" where
  "digit c = (if 0x30 \<le> c \<and> c \<le> 0x39 then Some (unat c - 0x30)
     else if 0x61 \<le> c \<and> c \<le> 0x66 then Some (unat c - 0x61 + 10)
     else if 0x41 \<le> c \<and> c \<le> 0x46 then Some (unat c - 0x41 + 10) else None)"

definition is_digit :: "nat \<Rightarrow> u8 \<Rightarrow> bool" where
  "is_digit b c = (case digit c of None \<Rightarrow> False | Some d \<Rightarrow> d < b)"

definition value_of :: "nat \<Rightarrow> u8 list \<Rightarrow> nat" where
  "value_of b ds = foldl (\<lambda>v c. v * b + the (digit c)) 0 ds"

definition digits :: "nat \<Rightarrow> u8 list \<Rightarrow> nat option" where
  "digits b ds = (if ds \<noteq> [] \<and> list_all (is_digit b) ds then Some (value_of b ds) else None)"

text \<open>The sign and the magnitude of a number.\<close>

definition num_of :: "u8 list \<Rightarrow> (bool \<times> nat) option" where
  "num_of t = (case t of
       [] \<Rightarrow> None
     | c # cs \<Rightarrow>
         if c = 0x2D then map_option (Pair True) (digits 10 cs)
         else if c = 0x30 then
           (case cs of [] \<Rightarrow> Some (False, 0)
            | d # ds \<Rightarrow> map_option (Pair False)
                (if d = 0x78 then digits 16 ds else if d = 0x62 then digits 2 ds else digits 8 cs))
         else map_option (Pair False) (digits 10 t))"

definition type_bytes :: "cmdline_numtype \<Rightarrow> nat" where
  "type_bytes ty = (case ty of RTE_UINT8 \<Rightarrow> 1 | RTE_INT8 \<Rightarrow> 1 | RTE_UINT16 \<Rightarrow> 2 | RTE_INT16 \<Rightarrow> 2
     | RTE_UINT32 \<Rightarrow> 4 | RTE_INT32 \<Rightarrow> 4 | RTE_UINT64 \<Rightarrow> 8 | RTE_INT64 \<Rightarrow> 8)"

definition type_signed :: "cmdline_numtype \<Rightarrow> bool" where
  "type_signed ty = (ty \<in> {RTE_INT8, RTE_INT16, RTE_INT32, RTE_INT64})"

definition in_range :: "cmdline_numtype \<Rightarrow> bool \<Rightarrow> nat \<Rightarrow> bool" where
  "in_range ty neg v =
     (if neg then type_signed ty \<and> v \<le> 2 ^ (8 * type_bytes ty - 1)
      else v < (if type_signed ty then 2 ^ (8 * type_bytes ty - 1) else 2 ^ (8 * type_bytes ty)))"

definition num_spec :: "cmdline_numtype \<Rightarrow> u8 list \<Rightarrow> (u8 list \<times> int) option" where
  "num_spec ty t = (case num_of t of
       None \<Rightarrow> None
     | Some (neg, v) \<Rightarrow>
         if length t \<le> 127 \<and> in_range ty neg v
         then Some (le_bytes (type_bytes ty) (word_of_int (if neg then - int v else int v)), int (length t))
         else None)"

lemma in_range_64: "in_range ty neg v \<Longrightarrow> v < 2 ^ 64"
  by (cases ty; cases neg) (auto simp: in_range_def type_signed_def type_bytes_def)

section \<open>The machine on digits\<close>

lemma unat_byte: "unat (ucast c :: u64) = unat (c :: u8)"
proof -
  have "unat c < 2 ^ 8" using unsigned_less [of c] by simp
  then show ?thesis by (simp add: unsigned_ucast_eq take_bit_nat_eq_self)
qed

lemma add_to_res_eq:
  assumes "0 < unat base"
  shows "add_to_res c res base = (if unat res * unat base + unat c < 2 ^ 64 then Some (res * base + ucast c) else None)"
proof -
  have c: "unat (ucast c :: u64) = unat c" by (rule unat_byte)
  have c8: "unat c < 2 ^ 8" using unsigned_less [of c] by simp
  have m: "unat (- 1 - ucast c :: u64) = 2 ^ 64 - 1 - unat c"
    using c c8 by (simp add: unat_sub word_le_nat_alt unsigned_minus_1_eq_mask mask_eq_exp_minus_1)
  have "(- 1 - ucast c) div base < res \<longleftrightarrow> (2 ^ 64 - 1 - unat c) div unat base < unat res"
    by (simp add: word_less_nat_alt unat_div m)
  also have "\<dots> \<longleftrightarrow> 2 ^ 64 - 1 - unat c < unat res * unat base"
    using assms by (rule div_less_iff_less_mult)
  also have "\<dots> \<longleftrightarrow> \<not> unat res * unat base + unat c < 2 ^ 64" using c8 by auto
  finally show ?thesis by (simp add: add_to_res_def)
qed

lemma add_digit_eq:
  assumes "0 < unat base"
  shows "add_digit st c res base =
    (if unat res * unat base + unat c < 2 ^ 64 then (st, res * base + ucast c) else (ERROR, res))"
    and "unat res * unat base + unat c < 2 ^ 64 \<Longrightarrow> unat (res * base + ucast c) = unat res * unat base + unat c"
proof -
  show "add_digit st c res base =
      (if unat res * unat base + unat c < 2 ^ 64 then (st, res * base + ucast c) else (ERROR, res))"
    using add_to_res_eq [OF assms] by (simp add: add_digit_def)
  assume "unat res * unat base + unat c < 2 ^ 64"
  then show "unat (res * base + ucast c) = unat res * unat base + unat c"
    by (simp add: unat_word_ariths unat_byte)
qed

text \<open>A step of the machine in a state that reads digits of base \<open>b\<close>.\<close>

definition digit_step :: "num_parse_state_t \<Rightarrow> nat \<Rightarrow> u64 \<Rightarrow> u8 \<Rightarrow> num_parse_state_t \<times> u64" where
  "digit_step st b r c = (if is_digit b c then add_digit st (of_nat (the (digit c))) r (of_nat b) else (ERROR, r))"

lemma byte_minus: "k \<le> c \<Longrightarrow> (of_nat (unat c - unat k) :: u8) = c - k"
  by (simp add: of_nat_diff word_le_nat_alt)

lemma digit_cases:
  "0x30 \<le> c \<Longrightarrow> c \<le> 0x39 \<Longrightarrow> digit c = Some (unat c - 0x30)"
  "0x61 \<le> c \<Longrightarrow> c \<le> 0x66 \<Longrightarrow> digit c = Some (unat c - 0x61 + 10)"
  "0x41 \<le> c \<Longrightarrow> c \<le> 0x46 \<Longrightarrow> digit c = Some (unat c - 0x41 + 10)"
  "\<not> (0x30 \<le> c \<and> c \<le> 0x39) \<Longrightarrow> \<not> (0x61 \<le> c \<and> c \<le> 0x66) \<Longrightarrow> \<not> (0x41 \<le> c \<and> c \<le> 0x46) \<Longrightarrow> digit c = None"
  by (auto simp: digit_def word_le_nat_alt)

lemma dec_step: "digit_step st 10 r c = (if c \<ge> 0x30 \<and> c \<le> 0x39 then add_digit st (c - 0x30) r 10 else (ERROR, r))"
  using byte_minus [of "0x30" c]
  by (auto simp: digit_step_def is_digit_def digit_def word_le_nat_alt)

lemma oct_step: "digit_step st 8 r c = (if c \<ge> 0x30 \<and> c \<le> 0x37 then add_digit st (c - 0x30) r 8 else (ERROR, r))"
  using byte_minus [of "0x30" c]
  by (auto simp: digit_step_def is_digit_def digit_def word_le_nat_alt)

lemma bin_step: "digit_step st 2 r c = (if c \<ge> 0x30 \<and> c \<le> 0x31 then add_digit st (c - 0x30) r 2 else (ERROR, r))"
  using byte_minus [of "0x30" c]
  by (auto simp: digit_step_def is_digit_def digit_def word_le_nat_alt)

lemma hex_step: "digit_step HEX_OK 16 r c = hex_digit c r"
proof -
  have a: "(of_nat (unat c - unat k + 10) :: u8) = c - k + 10" if "k \<le> c" for k
    using byte_minus [OF that] by simp
  show ?thesis
    using byte_minus [of "0x30" c] a [of "0x61"] a [of "0x41"]
    by (auto simp: digit_step_def is_digit_def digit_def hex_digit_def word_le_nat_alt)
qed

lemma digit_bound: "digit c = Some d \<Longrightarrow> d < 16"
  by (auto simp: digit_def word_le_nat_alt split: if_splits)

lemma digit_step_ok:
  assumes "is_digit b c" "0 < b" "b \<le> 16"
  shows "digit_step st b r c =
    (if unat r * b + the (digit c) < 2 ^ 64 then (st, r * of_nat b + of_nat (the (digit c))) else (ERROR, r))"
    and "unat r * b + the (digit c) < 2 ^ 64 \<Longrightarrow>
      unat (r * of_nat b + of_nat (the (digit c)) :: u64) = unat r * b + the (digit c)"
proof -
  obtain d where d: "digit c = Some d" "d < b" using assms(1) by (auto simp: is_digit_def split: option.splits)
  have d16: "d < 16" by (rule digit_bound [OF d(1)])
  have u: "unat (of_nat d :: u8) = d" "unat (of_nat b :: u64) = b" using d16 assms(3) by (simp_all add: unat_of_nat)
  have e: "(ucast (of_nat d :: u8) :: u64) = of_nat d"
    using unat_byte [of "of_nat d"] u(1) d16 by (simp add: word_unat_eq_iff unat_of_nat)
  have b0: "0 < unat (of_nat b :: u64)" using u(2) assms(2) by simp
  note A = add_digit_eq(1) [OF b0, of st "of_nat d" r, unfolded u e] add_digit_eq(2) [OF b0, of r "of_nat d", unfolded u e]
  show "digit_step st b r c =
      (if unat r * b + the (digit c) < 2 ^ 64 then (st, r * of_nat b + of_nat (the (digit c))) else (ERROR, r))"
    using A(1) assms(1) d(1) by (simp add: digit_step_def)
  show "unat r * b + the (digit c) < 2 ^ 64 \<Longrightarrow>
      unat (r * of_nat b + of_nat (the (digit c)) :: u64) = unat r * b + the (digit c)"
    using A(2) d(1) by simp
qed

section \<open>The machine on tokens\<close>

text \<open>The machine without the end of the token; an error stays.\<close>

fun num_run :: "num_parse_state_t \<Rightarrow> u64 \<Rightarrow> u8 list \<Rightarrow> num_parse_state_t \<times> u64" where
  "num_run st r [] = (st, r)"
| "num_run st r (c # cs) = (let (st1, r1) = num_step st r c in if st1 = ERROR then (ERROR, r1) else num_run st1 r1 cs)"

definition in_token :: "u8 \<Rightarrow> bool" where "in_token c \<longleftrightarrow> c \<noteq> 0 \<and> \<not> cmdline_isendoftoken c"

definition loop_result :: "nat \<Rightarrow> (num_parse_state_t \<times> u64) \<Rightarrow> (num_parse_state_t \<times> u64 \<times> nat) option \<Rightarrow> bool" where
  "loop_result len run res = (case res of
       None \<Rightarrow> 127 < len \<or> fst run = ERROR
     | Some (st1, r1, n1) \<Rightarrow> if st1 = ERROR then fst run = ERROR else len \<le> 127 \<and> run = (st1, r1) \<and> n1 = len)"

lemma num_loop_run:
  assumes "st \<noteq> ERROR" "list_all in_token t" "\<not> in_token e" "n \<le> 127"
  shows "\<exists>res. num_loop (t @ e # rest) n st r = Some res \<and> loop_result (n + length t) (num_run st r t) res"
  using assms
proof (induction t arbitrary: n st r)
  case Nil
  then show ?case by (auto simp: in_token_def loop_result_def)
next
  case (Cons c t)
  obtain s2 r2 where s: "num_step st r c = (s2, r2)" by (metis prod.exhaust)
  have L: "num_loop ((c # t) @ e # rest) n st r =
      (if n + 1 > 127 then Some None else num_loop (t @ e # rest) (n + 1) s2 r2)"
    using Cons.prems s by (simp add: in_token_def)
  have E: "num_loop (t @ e # rest) (n + 1) ERROR r2 = Some (Some (ERROR, r2, n + 1))"
    by (cases t) simp_all
  show ?case
  proof (cases "s2 = ERROR \<or> n + 1 > 127")
    case True
    then show ?thesis using L E s by (auto simp: loop_result_def)
  next
    case False
    then obtain res where "num_loop (t @ e # rest) (n + 1) s2 r2 = Some res" "loop_result (n + 1 + length t) (num_run s2 r2 t) res"
      using Cons.IH [of s2 "n + 1" r2] Cons.prems by auto
    then show ?thesis using False L s by simp
  qed
qed

text \<open>Digits of one base, after a first part with the value \<open>r\<close>.\<close>

definition value_from :: "nat \<Rightarrow> nat \<Rightarrow> u8 list \<Rightarrow> nat" where
  "value_from b v ds = foldl (\<lambda>v c. v * b + the (digit c)) v ds"

lemma value_from_simps [simp]:
  "value_from b v [] = v" "value_from b v (c # ds) = value_from b (v * b + the (digit c)) ds"
  by (simp_all add: value_from_def)

lemma value_from_mono: "0 < b \<Longrightarrow> v \<le> value_from b v ds"
proof (induction ds arbitrary: v)
  case (Cons c ds)
  have "v \<le> v * b + the (digit c)" using Cons.prems by (simp add: trans_le_add1)
  also have "\<dots> \<le> value_from b (v * b + the (digit c)) ds" by (rule Cons.IH [OF Cons.prems])
  finally show ?case by simp
qed simp

lemma run_digits:
  assumes "\<And>r c. num_step st r c = digit_step st b r c" "st \<noteq> ERROR" "0 < b" "b \<le> 16"
  shows "if list_all (is_digit b) ds \<and> value_from b (unat r) ds < 2 ^ 64
    then \<exists>r'. num_run st r ds = (st, r') \<and> unat r' = value_from b (unat r) ds
    else fst (num_run st r ds) = ERROR"
proof (induction ds arbitrary: r)
  case Nil
  have "unat r < 2 ^ 64" using unsigned_less [of r] by simp
  then show ?case by simp
next
  case (Cons c ds)
  let ?d = "the (digit c)"
  show ?case
  proof (cases "is_digit b c")
    case False
    then show ?thesis using assms(1,2) by (simp add: digit_step_def)
  next
    case True
    note D = digit_step_ok(1) [OF True assms(3,4), of st r] digit_step_ok(2) [OF True assms(3,4), of r]
    show ?thesis
    proof (cases "unat r * b + ?d < 2 ^ 64")
      case lt: True
      let ?r = "r * of_nat b + of_nat ?d :: u64"
      have "num_run st r (c # ds) = num_run st ?r ds" using D(1) lt assms(1,2) by simp
      moreover have u: "unat ?r = unat r * b + ?d" using D lt by blast
      note Cons.IH [of ?r, unfolded u]
      ultimately show ?thesis using True by (simp only: list.pred_inject value_from_simps simp_thms)
    next
      case ge: False
      have "2 ^ 64 \<le> value_from b (unat r) (c # ds)"
        using ge value_from_mono [OF assms(3), of "unat r * b + ?d" ds] by simp
      then show ?thesis using D(1) ge assms(1,2) by simp
    qed
  qed
qed

text \<open>The sign of the number a state accepts.\<close>

definition accepts :: "num_parse_state_t \<Rightarrow> bool option" where
  "accepts st = (if st \<in> {ZERO_OK, DEC_POS_OK, HEX_OK, OCTAL_OK, BIN_OK} then Some False
     else if st = DEC_NEG_OK then Some True else None)"

definition run_matches :: "(bool \<times> nat) option \<Rightarrow> num_parse_state_t \<times> u64 \<Rightarrow> bool" where
  "run_matches num run = (case num of
       None \<Rightarrow> accepts (fst run) = None
     | Some (neg, v) \<Rightarrow> if v < 2 ^ 64 then accepts (fst run) = Some neg \<and> unat (snd run) = v else accepts (fst run) = None)"

lemma accepts_simps [simp]:
  "accepts ERROR = None" "accepts START = None" "accepts DEC_NEG = None" "accepts HEX = None" "accepts BIN = None"
  "accepts ZERO_OK = Some False" "accepts DEC_POS_OK = Some False" "accepts HEX_OK = Some False"
  "accepts OCTAL_OK = Some False" "accepts BIN_OK = Some False" "accepts DEC_NEG_OK = Some True"
  by (simp_all add: accepts_def)

lemma digit_states:
  "num_step DEC_NEG_OK r c = digit_step DEC_NEG_OK 10 r c" "num_step DEC_POS_OK r c = digit_step DEC_POS_OK 10 r c"
  "num_step HEX_OK r c = digit_step HEX_OK 16 r c" "num_step OCTAL_OK r c = digit_step OCTAL_OK 8 r c"
  "num_step BIN_OK r c = digit_step BIN_OK 2 r c"
  by (simp_all add: dec_step hex_step oct_step bin_step)

lemma digits_match:
  assumes "\<And>r c. num_step st r c = digit_step st b r c" "accepts st = Some neg" "0 < b" "b \<le> 16" "ds \<noteq> []"
  shows "run_matches (map_option (Pair neg) (digits b ds)) (num_run st 0 ds)"
proof -
  have "st \<noteq> ERROR" using assms(2) by auto
  from run_digits [where r = 0 and ds = ds, OF assms(1) this assms(3,4)] show ?thesis
    using assms(2,5) by (auto simp: run_matches_def digits_def value_of_def value_from_def split: if_splits)
qed

lemma num_run_matches: "run_matches (num_of t) (num_run START 0 t)"
proof (cases t)
  case Nil
  then show ?thesis by (simp add: num_of_def run_matches_def)
next
  case (Cons c cs)
  have first: "num_run st 0 (d # ds) = num_run st' 0 (d # ds)" if "num_step st 0 d = num_step st' 0 d" for st st' d ds
    using that by simp
  consider "c = 0x2D" | "c = 0x30" | "c \<noteq> 0x2D" "c \<noteq> 0x30" by blast
  then show ?thesis
  proof cases
    case 1
    show ?thesis
    proof (cases cs)
      case Nil
      then show ?thesis using Cons 1 by (simp add: num_of_def digits_def run_matches_def)
    next
      case (Cons d ds)
      have "num_run START 0 t = num_run DEC_NEG 0 cs" using \<open>t = c # cs\<close> 1 by simp
      also have "\<dots> = num_run DEC_NEG_OK 0 cs" unfolding Cons by (rule first) simp
      finally show ?thesis
        using digits_match [of DEC_NEG_OK 10 True cs] digit_states(1) Cons \<open>t = c # cs\<close> 1 by (simp add: num_of_def)
    qed
  next
    case 2
    show ?thesis
    proof (cases cs)
      case Nil
      then show ?thesis using Cons 2 by (simp add: num_of_def run_matches_def)
    next
      case (Cons d ds)
      have z: "num_run START 0 t = num_run ZERO_OK 0 cs" using \<open>t = c # cs\<close> 2 by simp
      consider "d = 0x78" | "d = 0x62" | "d \<noteq> 0x78" "d \<noteq> 0x62" by blast
      then show ?thesis
      proof cases
        case 1
        have z1: "num_run START 0 t = num_run HEX 0 ds" using z 1 Cons by simp
        show ?thesis
        proof (cases ds)
          case Nil
          then show ?thesis using z1 1 2 Cons \<open>t = c # cs\<close> by (simp add: num_of_def digits_def run_matches_def)
        next
          case (Cons e es)
          have "num_run HEX 0 ds = num_run HEX_OK 0 ds" unfolding Cons by (rule first) simp
          then show ?thesis
            using digits_match [of HEX_OK 16 False ds] digit_states(3) z1 Cons \<open>cs = d # ds\<close> \<open>t = c # cs\<close> 1 2
            by (simp add: num_of_def)
        qed
      next
        case b: 2
        have z1: "num_run START 0 t = num_run BIN 0 ds" using z b Cons by simp
        show ?thesis
        proof (cases ds)
          case Nil
          then show ?thesis using z1 b 2 Cons \<open>t = c # cs\<close> by (simp add: num_of_def digits_def run_matches_def)
        next
          case (Cons e es)
          have "num_run BIN 0 ds = num_run BIN_OK 0 ds" unfolding Cons by (rule first) simp
          then show ?thesis
            using digits_match [of BIN_OK 2 False ds] digit_states(5) z1 Cons \<open>cs = d # ds\<close> \<open>t = c # cs\<close> b 2
            by (simp add: num_of_def)
        qed
      next
        case 3
        have "num_step ZERO_OK 0 d = num_step OCTAL_OK 0 d"
          using 3 by (simp add: add_digit_def add_to_res_def)
        then have "num_run ZERO_OK 0 cs = num_run OCTAL_OK 0 cs" unfolding Cons by (rule first)
        then show ?thesis
          using digits_match [of OCTAL_OK 8 False cs] digit_states(4) z Cons \<open>t = c # cs\<close> 2 3 by (simp add: num_of_def)
      qed
    qed
  next
    case 3
    have "c \<ge> 0x31 \<longleftrightarrow> c \<ge> 0x30" using 3(2) by (auto simp: word_le_nat_alt word_unat_eq_iff)
    then have "num_step START 0 c = num_step DEC_POS_OK 0 c" using 3 by simp
    then have "num_run START 0 t = num_run DEC_POS_OK 0 t" unfolding Cons by (rule first)
    then show ?thesis
      using digits_match [of DEC_POS_OK 10 False t] digit_states(2) Cons 3 by (simp add: num_of_def)
  qed
qed

section \<open>The value stored\<close>

lemma in_range_pos:
  "unat r = v \<Longrightarrow> store_pos ty r =
    (if in_range ty False v then Some (le_bytes (type_bytes ty) r) else None)"
  using unsigned_less [of r] by (cases ty) (auto simp: store_pos_def in_range_def type_signed_def type_bytes_def word_le_nat_alt)

lemma in_range_neg:
  "unat r = v \<Longrightarrow> store_neg ty r =
    (if in_range ty True v then Some (le_bytes (type_bytes ty) (- r)) else None)"
  by (cases ty) (auto simp: store_neg_def in_range_def type_signed_def type_bytes_def word_le_nat_alt)

lemma store_num_accepts:
  assumes "accepts st = Some neg" "unat r = v"
  shows "store_num ty st r =
    (if in_range ty neg v then Some (le_bytes (type_bytes ty) (word_of_int (if neg then - int v else int v))) else None)"
proof -
  have r: "word_of_int (int v) = r" using assms(2) by (metis uint_nat word_of_int_uint)
  have m: "word_of_int (- int v) = - r" using r by (metis wi_hom_neg)
  show ?thesis using assms(1) in_range_pos [OF assms(2)] in_range_neg [OF assms(2)] r m
    by (auto simp: store_num_def accepts_def split: if_splits)
qed

lemma store_num_none: "accepts st = None \<Longrightarrow> store_num ty st r = None"
  by (simp add: store_num_def accepts_def split: if_splits)

lemma le_bytes_2: "le_bytes 2 w = [ucast w, ucast (drop_bit 8 w)]"
  by (simp add: numeral_2_eq_2)

section \<open>The token\<close>

text \<open>There is room for the value, or no place to store it is given.\<close>

definition room_for :: "cmdline_numtype \<Rightarrow> nat option \<Rightarrow> bool" where
  "room_for ty res = (case res of None \<Rightarrow> True | Some ressize \<Rightarrow> type_bytes ty \<le> ressize)"

lemma room_for_check:
  "(case res of None \<Rightarrow> False | Some ressize \<Rightarrow> check_res_size ty ressize < 0) = (\<not> room_for ty res)"
  by (cases ty) (auto simp: room_for_def check_res_size_def type_bytes_def split: option.split)

lemma run_stored:
  assumes "run_matches num run" "accepts (fst run) = Some neg"
  shows "\<exists>v. num = Some (neg, v) \<and> unat (snd run) = v"
  using assms by (auto simp: run_matches_def split: option.splits if_splits)

lemma run_not_stored:
  assumes "run_matches num run" "accepts (fst run) = None"
  shows "num = None \<or> (\<exists>neg v. num = Some (neg, v) \<and> \<not> in_range ty neg v)"
proof (cases num)
  case (Some nv)
  then obtain neg v where nv: "num = Some (neg, v)" by (cases nv) simp
  then have "\<not> v < 2 ^ 64" using assms by (auto simp: run_matches_def split: if_splits)
  then show ?thesis using nv in_range_64 [of ty neg v] by blast
qed simp

lemma store_run:
  assumes "run_matches (num_of t) run" "length t \<le> 127"
  shows "store_num ty (fst run) (snd run) = map_option fst (num_spec ty t)"
    and "map_option snd (num_spec ty t) \<noteq> None \<Longrightarrow> map_option snd (num_spec ty t) = Some (int (length t))"
proof -
  show "store_num ty (fst run) (snd run) = map_option fst (num_spec ty t)"
  proof (cases "accepts (fst run)")
    case None
    then show ?thesis using run_not_stored [OF assms(1) None, of ty]
      by (auto simp: store_num_none num_spec_def)
  next
    case (Some neg)
    obtain v where v: "num_of t = Some (neg, v)" "unat (snd run) = v" using run_stored [OF assms(1) Some] by blast
    then show ?thesis using store_num_accepts [OF Some v(2), of ty] assms(2) by (simp add: num_spec_def)
  qed
  assume "map_option snd (num_spec ty t) \<noteq> None"
  then show "map_option snd (num_spec ty t) = Some (int (length t))"
    by (auto simp: num_spec_def split: option.splits if_splits)
qed

lemma num_spec_error:
  assumes "run_matches (num_of t) run" "fst run = ERROR \<or> 127 < length t"
  shows "num_spec ty t = None"
  using assms run_not_stored [OF assms(1), of ty] by (auto simp: num_spec_def split: option.splits)

text \<open>
  C26: The number token parser is the number grammar: on a token followed by an end-of-token character it
  stores the value in little-endian two's complement at the size of the type and returns the token's length,
  when the token is a number of at most 127 characters in the type's range and \<open>res\<close> has room; it
  stores nothing and returns -1 in every other case, overflow of the 64-bit accumulator included.
\<close>
theorem cmdline_parse_num_spec:
  assumes t: "list_all in_token t" and e: "\<not> in_token e"
  shows "cmdline_parse_num ty (t @ e # rest) res = Some (case num_spec ty t of
      None \<Rightarrow> (None, -1)
    | Some (bs, k) \<Rightarrow> if room_for ty res then (if res = None then None else Some bs, k) else (None, -1))"
proof -
  let ?out = "case num_spec ty t of None \<Rightarrow> (None, -1)
    | Some (bs, k) \<Rightarrow> if room_for ty res then (if res = None then None else Some bs, k) else (None, -1)"
  let ?run = "num_run START 0 t"
  obtain r where r: "num_loop (t @ e # rest) 0 START 0 = Some r" "loop_result (length t) ?run r"
    using num_loop_run [of START t e 0 rest 0] t e by auto
  have M: "run_matches (num_of t) ?run" by (rule num_run_matches)
  have res: "(case r of None \<Rightarrow> (None, -1) | Some (st, res1, n) \<Rightarrow> (case store_num ty st res1 of
        None \<Rightarrow> (None, -1) | Some bs \<Rightarrow> (if res = None then None else Some bs, int n))) = ?out"
    if room: "room_for ty res"
  proof (cases "r = None \<or> fst (the r) = ERROR")
    case True
    then have "fst ?run = ERROR \<or> 127 < length t" using r(2) by (auto simp: loop_result_def split: option.splits)
    then show ?thesis using num_spec_error [OF M, of ty] True store_num_none [of ERROR ty] by (auto split: option.splits)
  next
    case False
    then obtain st r1 where r1: "r = Some (st, r1, length t)" "?run = (st, r1)" "length t \<le> 127"
      using r(2) by (auto simp: loop_result_def split: option.splits if_splits)
    then show ?thesis using store_run [OF M r1(3), of ty] room by (auto split: option.splits)
  qed
  have hd: "nth_opt (t @ e # rest) 0 = Some (hd (t @ [e]))" by (cases t) (simp_all add: nth_opt_def)
  have z: "num_spec ty t = None" if "hd (t @ [e]) = 0"
    using that t by (cases t) (simp_all add: in_token_def num_spec_def num_of_def)
  have "cmdline_parse_num ty (t @ e # rest) res = Some (if hd (t @ [e]) = 0 \<or> \<not> room_for ty res then (None, -1)
      else case r of None \<Rightarrow> (None, -1) | Some (st, res1, n) \<Rightarrow> (case store_num ty st res1 of
        None \<Rightarrow> (None, -1) | Some bs \<Rightarrow> (if res = None then None else Some bs, int n)))"
    unfolding cmdline_parse_num_def hd room_for_check r(1) by simp
  then show ?thesis using res z by (cases "room_for ty res") (auto split: option.splits)
qed

text \<open>\<open>-0\<close> to \<open>-128\<close> fit the type, \<open>-129\<close> does not; \<open>0x1F\<close> ends at the blank.\<close>
lemma cmdline_parse_num_spec_witness:
  "cmdline_parse_num RTE_INT8 [0x2D, 0x31, 0x32, 0x38, 0] (Some 1) = Some (Some [0x80], 4)
   \<and> cmdline_parse_num RTE_UINT16 [0x30, 0x78, 0x31, 0x46, 0x20, 0x31] (Some 2) = Some (Some [0x1F, 0], 4)"
proof -
  note defs = num_spec_def num_of_def digits_def value_of_def is_digit_def digit_def in_range_def
    type_signed_def type_bytes_def
  have 1: "num_spec RTE_INT8 [0x2D, 0x31, 0x32, 0x38] = Some ([0x80], 4)" by (simp add: defs)
  have 2: "num_spec RTE_UINT16 [0x30, 0x78, 0x31, 0x46] = Some ([0x1F, 0], 4)" by (simp add: defs le_bytes_2)
  show ?thesis
    using cmdline_parse_num_spec [of "[0x2D, 0x31, 0x32, 0x38]" 0 RTE_INT8 "[]" "Some 1"]
      cmdline_parse_num_spec [of "[0x30, 0x78, 0x31, 0x46]" "0x20" RTE_UINT16 "[0x31]" "Some 2"] 1 2
    by (simp add: in_token_def cmdline_isendoftoken_def iscomment_def cmdline_isblank2_def isendofline_def
        room_for_def type_bytes_def)
qed

end
