(* ===== verification/Cmdline_Parse.thy ===== *)
theory Cmdline_Parse
  imports Cstring Parse_Num
begin

text \<open>
  The command parser of the command line library: \<open>lib/cmdline/cmdline_parse.c\<close> up to
  \<open>cmdline_parse_check\<close>. A token is its offset and its \<open>ops\<close>, functions that know the token; \<open>parse\<close> has
  the memory at \<open>res\<close> as a list, or \<open>None\<close> for the null pointer, and returns it afterwards. An instruction has its
  array of tokens, null included, and its function with the data. \<open>dyn\<close> is what the function of an
  instruction answers when it is asked for a token. Calls of the function are part of the result.
\<close>

section \<open>Instructions\<close>

record cmdline_token =
  offset :: nat
  parse :: "u8 list \<Rightarrow> u8 list option \<Rightarrow> (u8 list option \<times> int) option"
  complete_get_nb :: "int option option"
  complete_get_elt :: "(int \<Rightarrow> u8 list \<Rightarrow> u32 \<Rightarrow> (u8 list \<times> int) option) option"
  get_help :: "(u8 list \<Rightarrow> nat \<Rightarrow> (u8 list \<times> int) option) option"

record 'f cmdline_inst =
  inst_f :: "'f option"
  help_str :: "u8 list option"
  tokens :: "cmdline_token option list"

definition CMDLINE_PARSE_SUCCESS :: int where "CMDLINE_PARSE_SUCCESS = 0"
definition CMDLINE_PARSE_AMBIGUOUS :: int where "CMDLINE_PARSE_AMBIGUOUS = -1"
definition CMDLINE_PARSE_NOMATCH :: int where "CMDLINE_PARSE_NOMATCH = -2"
definition CMDLINE_PARSE_BAD_ARGS :: int where "CMDLINE_PARSE_BAD_ARGS = -3"
definition CMDLINE_PARSE_RESULT_BUFSIZE :: nat where "CMDLINE_PARSE_RESULT_BUFSIZE = 8192"
definition ENOBUFS :: int where "ENOBUFS = 105"

definition get_token :: "('f \<Rightarrow> nat \<Rightarrow> cmdline_token option) \<Rightarrow> 'f cmdline_inst \<Rightarrow> nat \<Rightarrow> cmdline_token option option" where
  "get_token dyn inst index = do {
     t0 \<leftarrow> nth_opt (tokens inst) 0;
     (case (t0, inst_f inst) of
        (None, Some f) \<Rightarrow> Some (dyn f index)
      | _ \<Rightarrow> nth_opt (tokens inst) index) }"

section \<open>One instruction\<close>

fun skip_blanks :: "u8 list \<Rightarrow> u8 list option" where
  "skip_blanks [] = None"
| "skip_blanks (c # cs) = (if cmdline_isblank2 c then skip_blanks cs else Some (c # cs))"

text \<open>The call of \<open>parse\<close>: the memory at \<open>resbuf\<close> afterwards, or a token outside it.\<close>

definition call_parse :: "cmdline_token \<Rightarrow> u8 list \<Rightarrow> u8 list option \<Rightarrow> (int + u8 list option \<times> int) option" where
  "call_parse tk b res = (case res of
       None \<Rightarrow> map_option (\<lambda>(_, n). Inr (None, n)) (parse tk b None)
     | Some r \<Rightarrow>
         if offset tk > length r then Some (Inl (- ENOBUFS))
         else map_option (\<lambda>(r1, n). Inr (Some (take (offset tk) r @ the r1), n)) (parse tk b (Some (drop (offset tk) r))))"

text \<open>
  The loop over the tokens, at token \<open>i\<close>: an early return, or whether \<open>token_p\<close> is not null, the number of
  tokens matched, the rest of the input and the result.
\<close>

partial_function (option) match_loop ::
  "('f \<Rightarrow> nat \<Rightarrow> cmdline_token option) \<Rightarrow> 'f cmdline_inst \<Rightarrow> nat \<Rightarrow> bool \<Rightarrow> u8 list \<Rightarrow> nat \<Rightarrow> u8 list option \<Rightarrow>
    (int \<times> u8 list option + bool \<times> nat \<times> u8 list \<times> u8 list option) option" where
  "match_loop dyn inst nb tokp b i res =
     (if nb = 0 \<or> i < nb then do {
        tp \<leftarrow> get_token dyn inst i;
        (case tp of
           None \<Rightarrow> Some (Inr (False, i, b, res))
         | Some tk \<Rightarrow> do {
             b \<leftarrow> skip_blanks b;
             c \<leftarrow> nth_opt b 0;
             (if isendofline c \<or> iscomment c then Some (Inr (True, i, b, res))
              else do {
                p \<leftarrow> call_parse tk b res;
                (case p of
                   Inl e \<Rightarrow> Some (Inl (e, res))
                 | Inr (res1, n) \<Rightarrow>
                     if n < 0 then Some (Inr (True, i, b, res1))
                     else match_loop dyn inst nb True (drop (nat n) b) (i + 1) res1) }) }) }
      else Some (Inr (tokp, i, b, res)))"

definition match_inst ::
  "('f \<Rightarrow> nat \<Rightarrow> cmdline_token option) \<Rightarrow> 'f cmdline_inst \<Rightarrow> u8 list \<Rightarrow> nat \<Rightarrow> u8 list option \<Rightarrow> (int \<times> u8 list option) option" where
  "match_inst dyn inst b nb_match_token resbuf = do {
     out \<leftarrow> match_loop dyn inst nb_match_token False b 0 (map_option (\<lambda>r. replicate (length r) 0) resbuf);
     (case out of
        Inl r \<Rightarrow> Some r
      | Inr (tokp, i, b, res) \<Rightarrow>
          if i = 0 then Some (-1, res)
          else if nb_match_token \<noteq> 0 then Some (if i = nb_match_token then 0 else int i, res)
          else if tokp then Some (int i, res)
          else do {
            b \<leftarrow> skip_blanks b;
            c \<leftarrow> nth_opt b 0;
            Some (if isendofline c \<or> iscomment c then 0 else int i, res) }) }"

section \<open>A line\<close>

text \<open>
  The first loop: the length of the line, \<open>parse_it\<close>, and \<open>curbuf\<close> at its end; \<open>None\<close> inside for a buffer
  without an end of line.
\<close>

fun line_scan :: "u8 list \<Rightarrow> bool \<Rightarrow> bool \<Rightarrow> nat \<Rightarrow> (nat \<times> bool \<times> u8 list) option option" where
  "line_scan [] comment parse_it n = None"
| "line_scan (c # cs) comment parse_it n =
     (if isendofline c then Some (Some (n, parse_it, c # cs))
      else if c = 0 then Some None
      else (let comment1 = (comment \<or> iscomment c)
            in line_scan cs comment1 (parse_it \<or> (\<not> cmdline_isblank2 c \<and> \<not> comment1)) (n + 1)))"

text \<open>
  The loop over the instructions; \<open>result\<close> is what \<open>result.buf\<close> has, and \<open>use_tmp\<close> that \<open>result_buf\<close> is
  \<open>tmp_result.buf\<close>. It gives \<open>err\<close>, \<open>f\<close> and \<open>result.buf\<close>.
\<close>

fun inst_loop ::
  "('f \<Rightarrow> nat \<Rightarrow> cmdline_token option) \<Rightarrow> u8 list \<Rightarrow> 'f cmdline_inst option list \<Rightarrow> u8 list \<Rightarrow> int \<Rightarrow> 'f option \<Rightarrow>
    bool \<Rightarrow> u8 list \<Rightarrow> u8 list \<Rightarrow> (int \<times> 'f option \<times> u8 list) option" where
  "inst_loop dyn b [] curbuf err f use_tmp result tmp = None"
| "inst_loop dyn b (None # ctx) curbuf err f use_tmp result tmp = Some (err, f, result)"
| "inst_loop dyn b (Some inst # ctx) curbuf err f use_tmp result tmp = do {
     (tok, r) \<leftarrow> match_inst dyn inst b 0 (Some (if use_tmp then tmp else result));
     result \<leftarrow> Some (if use_tmp then result else the r);
     tmp \<leftarrow> Some (if use_tmp then the r else tmp);
     (if tok > 0 then inst_loop dyn b ctx curbuf CMDLINE_PARSE_BAD_ARGS f use_tmp result tmp
      else if tok = 0
      then do {
        curbuf \<leftarrow> skip_blanks curbuf;
        c \<leftarrow> nth_opt curbuf 0;
        (if isendofline c \<or> iscomment c
         then (case f of
                 None \<Rightarrow> inst_loop dyn b ctx curbuf err (inst_f inst) True result tmp
               | Some _ \<Rightarrow> Some (CMDLINE_PARSE_AMBIGUOUS, None, result))
         else inst_loop dyn b ctx curbuf err f use_tmp result tmp) }
      else inst_loop dyn b ctx curbuf err f use_tmp result tmp) }"

text \<open>The result and the call of the function, if it is called. The two buffers are not initialised.\<close>

definition cmdline_parse_line ::
  "('f \<Rightarrow> nat \<Rightarrow> cmdline_token option) \<Rightarrow> 'f cmdline_inst option list \<Rightarrow> u8 list \<Rightarrow> bool \<Rightarrow> u8 list \<Rightarrow> u8 list \<Rightarrow>
    (int \<times> ('f \<times> u8 list) option) option" where
  "cmdline_parse_line dyn ctx b call_fn result0 tmp0 = do {
     ls \<leftarrow> line_scan b False False 0;
     (case ls of
        None \<Rightarrow> Some (0, None)
      | Some (linelen, parse_it, curbuf) \<Rightarrow> do {
          eols \<leftarrow> scan (\<lambda>c. \<not> isendofline c) (drop linelen b);
          linelen \<leftarrow> Some (linelen + eols);
          (if \<not> parse_it then Some (int linelen, None)
           else do {
             (err, f, result) \<leftarrow> inst_loop dyn b ctx curbuf CMDLINE_PARSE_NOMATCH None False result0 tmp0;
             (case f of
                None \<Rightarrow> Some (err, None)
              | Some fn \<Rightarrow> Some (int linelen, if call_fn then Some (fn, result) else None)) }) }) }"

definition cmdline_parse where "cmdline_parse dyn ctx b r t = cmdline_parse_line dyn ctx b True r t"
definition cmdline_parse_check where "cmdline_parse_check dyn ctx b r t = cmdline_parse_line dyn ctx b False r t"

section \<open>The contract of a token\<close>

text \<open>
  What \<open>cmdline_parse.h\<close> asks of \<open>parse\<close>: the number of characters it parsed, up to the end of a token, or a
  negative number; it writes inside the memory it was given.
\<close>

locale token_parser =
  fixes tparse :: "u8 list \<Rightarrow> u8 list option \<Rightarrow> (u8 list option \<times> int) option"
  assumes writes_inside: "0 \<in> set b \<Longrightarrow> tparse b (Some r) = Some (res, n) \<Longrightarrow> \<exists>r'. res = Some r' \<and> length r' = length r"
    and consumes: "0 \<in> set b \<Longrightarrow> tparse b res = Some (res', n) \<Longrightarrow> 0 \<le> n \<Longrightarrow>
      nat n < length b \<and> 0 \<notin> set (take (nat n) b) \<and> cmdline_isendoftoken (b ! nat n)"

text \<open>A token whose parser has a defined result on every string.\<close>

locale total_token_parser = token_parser +
  assumes total: "0 \<in> set b \<Longrightarrow> tparse b res \<noteq> None"
begin

lemma rest_is_string:
  assumes "0 \<in> set b" "tparse b res = Some (res', n)" "0 \<le> n"
  shows "0 \<in> set (drop (nat n) b)"
proof -
  have "0 \<in> set (take (nat n) b) \<union> set (drop (nat n) b)" using assms(1) by (metis append_take_drop_id set_append)
  then show ?thesis using consumes [OF assms] by simp
qed

end

end
