(* ===== verification/Cmdline_Parse_Props.thy ===== *)
theory Cmdline_Parse_Props
  imports Cmdline_Parse
begin

text \<open>
  What the command parser does, for instructions with an array of tokens that ends in a null pointer and
  whose parsers keep the contract \<open>total_token_parser\<close>. Matching an instruction always ends. Parsing a line
  calls the function of the one instruction that matches it, with the result of that match.
\<close>

section \<open>Matching ends\<close>

definition static_inst :: "'f cmdline_inst \<Rightarrow> cmdline_token list \<Rightarrow> bool" where
  "static_inst inst toks \<longleftrightarrow> (\<exists>pad. tokens inst = map Some toks @ None # pad) \<and> (toks \<noteq> [] \<or> inst_f inst = None) \<and>
     (\<forall>tk \<in> set toks. total_token_parser (parse tk))"

lemma get_token_static:
  assumes "static_inst inst toks" "i \<le> length toks"
  shows "get_token dyn inst i = Some (if i < length toks then Some (toks ! i) else None)"
proof -
  obtain pad where t: "tokens inst = map Some toks @ None # pad" "toks \<noteq> [] \<or> inst_f inst = None"
    using assms(1) by (auto simp: static_inst_def)
  have i: "nth_opt (tokens inst) i = Some (if i < length toks then Some (toks ! i) else None)"
    using assms(2) t(1) by (auto simp: nth_append)
  have o: "nth_opt (tokens inst) 0 = Some (if toks = [] then None else Some (toks ! 0))"
    using t(1) by (auto simp: nth_append)
  show ?thesis using t(2)
    unfolding get_token_def i o bind.simps by (cases "inst_f inst") auto
qed

lemma skip_blanks_string: "0 \<in> set b \<Longrightarrow> \<exists>c cs. skip_blanks b = Some (c # cs) \<and> 0 \<in> set (c # cs) \<and> \<not> cmdline_isblank2 c"
  by (induction b) (auto simp: cmdline_isblank2_def)

definition same_size :: "u8 list option \<Rightarrow> u8 list option \<Rightarrow> bool" where
  "same_size res res' \<longleftrightarrow> map_option length res' = map_option length res"

lemma same_size_refl [simp]: "same_size res res"
  by (simp add: same_size_def)

lemma same_size_trans: "same_size a b \<Longrightarrow> same_size b c \<Longrightarrow> same_size a c"
  by (simp add: same_size_def)

lemma call_parse_total:
  assumes "total_token_parser (parse tk)" "0 \<in> set b"
  obtains "call_parse tk b res = Some (Inl (- ENOBUFS))"
  | res' n where "call_parse tk b res = Some (Inr (res', n))" "same_size res res'" "0 \<le> n \<Longrightarrow> 0 \<in> set (drop (nat n) b)"
proof -
  note total = total_token_parser.total [OF assms(1)]
  note rest_is_string = total_token_parser.rest_is_string [OF assms(1)]
  note writes_inside = token_parser.writes_inside [OF total_token_parser.axioms(1) [OF assms(1)]]
  show thesis
  proof (cases res)
    case None
    obtain r n where p: "parse tk b None = Some (r, n)" using total [OF assms(2), of None] by auto
    then have "call_parse tk b res = Some (Inr (None, n))" by (simp add: call_parse_def None)
    moreover have "0 \<in> set (drop (nat n) b)" if "0 \<le> n" by (rule rest_is_string [OF assms(2) p that])
    ultimately show thesis using that(2) None by simp
  next
    case (Some r)
    show thesis
    proof (cases "offset tk > length r")
      case True
      then show thesis using that(1) Some by (simp add: call_parse_def)
    next
      case False
      obtain r1 n where p: "parse tk b (Some (drop (offset tk) r)) = Some (r1, n)" using total [OF assms(2)] by fastforce
      obtain r2 where r2: "r1 = Some r2" "length r2 = length (drop (offset tk) r)" using writes_inside [OF assms(2) p] by blast
      have "call_parse tk b res = Some (Inr (Some (take (offset tk) r @ r2), n))"
        using Some False p r2(1) by (simp add: call_parse_def)
      moreover have "same_size res (Some (take (offset tk) r @ r2))" using Some False r2(2) by (simp add: same_size_def)
      moreover have "0 \<in> set (drop (nat n) b)" if "0 \<le> n" by (rule rest_is_string [OF assms(2) p that])
      ultimately show thesis using that(2) by blast
    qed
  qed
qed

definition loop_end :: "nat \<Rightarrow> u8 list option \<Rightarrow> int \<times> u8 list option + bool \<times> nat \<times> u8 list \<times> u8 list option \<Rightarrow> bool" where
  "loop_end m res out = (case out of
       Inl (e, res') \<Rightarrow> e < 0 \<and> same_size res res'
     | Inr (tp', i', b', res') \<Rightarrow> 0 \<in> set b' \<and> i' \<le> m \<and> same_size res res')"

lemma loop_end_trans: "same_size res res' \<Longrightarrow> loop_end m res' out \<Longrightarrow> loop_end m res out"
  by (auto simp: loop_end_def intro: same_size_trans split: sum.splits)

lemma match_loop_total:
  assumes "static_inst inst toks" "i \<le> length toks" "0 \<in> set b"
  shows "\<exists>out. match_loop dyn inst nb tp b i res = Some out \<and> loop_end (length toks) res out"
  using assms(2,3)
proof (induction "length toks - i" arbitrary: i tp b res)
  case 0
  then show ?case
    by (subst match_loop.simps) (simp add: get_token_static [OF assms(1)] loop_end_def)
next
  case (Suc k)
  have i: "i < length toks" using Suc.hyps(2) by simp
  obtain c cs where b: "skip_blanks b = Some (c # cs)" "0 \<in> set (c # cs)" using skip_blanks_string [OF Suc.prems(2)] by blast
  have tk: "total_token_parser (parse (toks ! i))" using assms(1) i by (simp add: static_inst_def)
  have n: "nth_opt (c # cs) 0 = Some c" by simp
  have E: "match_loop dyn inst nb tp b i res = (if nb = 0 \<or> i < nb
      then if isendofline c \<or> iscomment c then Some (Inr (True, i, c # cs, res))
        else do {
          p \<leftarrow> call_parse (toks ! i) (c # cs) res;
          (case p of
             Inl e \<Rightarrow> Some (Inl (e, res))
           | Inr (res1, n) \<Rightarrow> if n < 0 then Some (Inr (True, i, c # cs, res1))
               else match_loop dyn inst nb True (drop (nat n) (c # cs)) (i + 1) res1) }
      else Some (Inr (tp, i, b, res)))"
    using i by (subst match_loop.simps) (simp only: get_token_static [OF assms(1) Suc.prems(1)] b(1) n bind.simps if_True option.case)
  show ?case
  proof (rule call_parse_total [OF tk b(2), of res])
    assume "call_parse (toks ! i) (c # cs) res = Some (Inl (- ENOBUFS))"
    then show ?thesis unfolding E using Suc.prems b(2) by (auto simp: loop_end_def ENOBUFS_def)
  next
    fix res' n
    assume p: "call_parse (toks ! i) (c # cs) res = Some (Inr (res', n))" "same_size res res'"
      "0 \<le> n \<Longrightarrow> 0 \<in> set (drop (nat n) (c # cs))"
    show ?thesis
    proof (cases "n < 0")
      case True
      then show ?thesis unfolding E using Suc.prems b(2) p(1,2) by (auto simp: loop_end_def)
    next
      case False
      then have z: "0 \<in> set (drop (nat n) (c # cs))" using p(3) by simp
      obtain out where "match_loop dyn inst nb True (drop (nat n) (c # cs)) (i + 1) res' = Some out" "loop_end (length toks) res out"
        using Suc.hyps(1) [of "i + 1" "drop (nat n) (c # cs)" True res', OF _ _ z] Suc.hyps(2) i loop_end_trans [OF p(2)]
        by fastforce
      then show ?thesis unfolding E p(1) using False Suc.prems b(2) by (auto simp: loop_end_def)
    qed
  qed
qed

lemma match_inst_total:
  assumes "static_inst inst toks" "0 \<in> set b"
  shows "\<exists>tok res'. match_inst dyn inst b nb res = Some (tok, res') \<and> same_size res res' \<and>
    (nb \<noteq> 0 \<and> tok = 0 \<longrightarrow> nb \<le> length toks)"
proof -
  let ?r = "map_option (\<lambda>r. replicate (length r) (0 :: u8)) res"
  have s: "same_size res ?r" by (cases res) (simp_all add: same_size_def)
  obtain out where o: "match_loop dyn inst nb False b 0 ?r = Some out" "loop_end (length toks) res out"
    using match_loop_total [OF assms(1) _ assms(2), of 0 dyn nb False ?r] loop_end_trans [OF s] by auto
  show ?thesis
  proof (cases out)
    case (Inl x)
    then show ?thesis using o by (cases x) (auto simp: match_inst_def loop_end_def)
  next
    case (Inr x)
    obtain tp i b' res' where x: "x = (tp, i, b', res')" by (metis prod.exhaust)
    then have z: "0 \<in> set b'" "same_size res res'" "i \<le> length toks" using o(2) Inr by (auto simp: loop_end_def)
    obtain c cs where "skip_blanks b' = Some (c # cs)" using skip_blanks_string [OF z(1)] by blast
    then show ?thesis using o(1) Inr x z(2,3) by (auto simp: match_inst_def nth_opt_def)
  qed
qed

section \<open>The line\<close>

lemma line_scan_line:
  assumes "list_all (\<lambda>c. c \<noteq> 0 \<and> \<not> isendofline c) l" "isendofline e"
  shows "line_scan (l @ e # rest) cm pi n = Some (Some (n + length l,
    pi \<or> \<not> cm \<and> \<not> list_all cmdline_isblank2 (takeWhile (\<lambda>c. \<not> iscomment c) l), e # rest))"
  using assms by (induction l arbitrary: cm pi n) (auto simp: Let_def)

lemma line_scan_open: "list_all (\<lambda>c. c \<noteq> 0 \<and> \<not> isendofline c) l \<Longrightarrow> line_scan (l @ 0 # rest) cm pi n = Some None"
  by (induction l arbitrary: cm pi n) (auto simp: Let_def isendofline_def)

section \<open>All instructions\<close>

definition inst_result :: "('f \<Rightarrow> nat \<Rightarrow> cmdline_token option) \<Rightarrow> u8 list \<Rightarrow> 'f cmdline_inst \<Rightarrow> int \<times> u8 list option" where
  "inst_result dyn b inst = the (match_inst dyn inst b 0 (Some (replicate CMDLINE_PARSE_RESULT_BUFSIZE 0)))"

definition inst_matches :: "('f \<Rightarrow> nat \<Rightarrow> cmdline_token option) \<Rightarrow> u8 list \<Rightarrow> 'f cmdline_inst \<Rightarrow> bool" where
  "inst_matches dyn b inst \<longleftrightarrow> fst (inst_result dyn b inst) = 0"

lemma match_inst_result:
  assumes "static_inst inst toks" "0 \<in> set b" "length r = CMDLINE_PARSE_RESULT_BUFSIZE"
  shows "\<exists>tok r'. match_inst dyn inst b 0 (Some r) = Some (tok, Some r') \<and> length r' = CMDLINE_PARSE_RESULT_BUFSIZE \<and>
    inst_result dyn b inst = (tok, Some r')"
proof -
  have "match_inst dyn inst b 0 (Some (replicate CMDLINE_PARSE_RESULT_BUFSIZE 0)) = match_inst dyn inst b 0 (Some r)"
    using assms(3) by (simp add: match_inst_def)
  moreover obtain tok res' where "match_inst dyn inst b 0 (Some r) = Some (tok, res')" "same_size (Some r) res'"
    using match_inst_total [OF assms(1,2)] by blast
  ultimately show ?thesis using assms(3) by (auto simp: inst_result_def same_size_def)
qed

lemma eol_not_blank: "isendofline e \<Longrightarrow> \<not> cmdline_isblank2 e"
  by (auto simp: isendofline_def cmdline_isblank2_def)

text \<open>After one match: any other makes the line ambiguous.\<close>

lemma inst_loop_matched:
  assumes "\<forall>inst \<in> set insts. \<exists>toks. static_inst inst toks" "0 \<in> set b" "isendofline e"
    and "length tmp = CMDLINE_PARSE_RESULT_BUFSIZE"
  shows "\<exists>err'. inst_loop dyn b (map Some insts @ None # pad) (e # rest) err (Some g) True result tmp =
    Some (if filter (inst_matches dyn b) insts = [] then err' else CMDLINE_PARSE_AMBIGUOUS,
      if filter (inst_matches dyn b) insts = [] then Some g else None, result)"
  using assms(1,4)
proof (induction insts arbitrary: err tmp)
  case (Cons inst insts)
  obtain toks where st: "static_inst inst toks" using Cons.prems(1) by auto
  obtain tok r' where m: "match_inst dyn inst b 0 (Some tmp) = Some (tok, Some r')" "length r' = CMDLINE_PARSE_RESULT_BUFSIZE"
    "inst_result dyn b inst = (tok, Some r')" using match_inst_result [OF st assms(2) Cons.prems(2)] by blast
  have IH: "\<exists>err'. inst_loop dyn b (map Some insts @ None # pad) (e # rest) err0 (Some g) True result r' =
    Some (if filter (inst_matches dyn b) insts = [] then err' else CMDLINE_PARSE_AMBIGUOUS,
      if filter (inst_matches dyn b) insts = [] then Some g else None, result)" for err0
    using Cons.IH [of r' err0] Cons.prems(1) m(2) by simp
  have im: "inst_matches dyn b inst \<longleftrightarrow> tok = 0" using m(3) by (simp add: inst_matches_def)
  show ?case
  proof (cases "tok = 0")
    case True
    then show ?thesis using m(1) im assms(3) eol_not_blank [OF assms(3)] by (simp add: nth_opt_def)
  next
    case False
    then show ?thesis using m(1) im IH [of CMDLINE_PARSE_BAD_ARGS] IH [of err] by (cases "0 < tok") simp_all
  qed
qed simp

lemma inst_loop_unmatched:
  assumes "\<forall>inst \<in> set insts. (\<exists>toks. static_inst inst toks) \<and> inst_f inst \<noteq> None" "0 \<in> set b" "isendofline e"
    and "length result = CMDLINE_PARSE_RESULT_BUFSIZE" "length tmp = CMDLINE_PARSE_RESULT_BUFSIZE"
  shows "\<exists>err' result'. inst_loop dyn b (map Some insts @ None # pad) (e # rest) err None False result tmp = Some (
    case filter (inst_matches dyn b) insts of
      [] \<Rightarrow> (if \<exists>inst \<in> set insts. 0 < fst (inst_result dyn b inst) then CMDLINE_PARSE_BAD_ARGS else err, None, result')
    | [m] \<Rightarrow> (err', inst_f m, the (snd (inst_result dyn b m)))
    | _ \<Rightarrow> (CMDLINE_PARSE_AMBIGUOUS, None, result'))"
  using assms(1,4)
proof (induction insts arbitrary: err result)
  case (Cons inst insts)
  obtain toks where st: "static_inst inst toks" using Cons.prems(1) by auto
  obtain tok r' where m: "match_inst dyn inst b 0 (Some result) = Some (tok, Some r')" "length r' = CMDLINE_PARSE_RESULT_BUFSIZE"
    "inst_result dyn b inst = (tok, Some r')" using match_inst_result [OF st assms(2) Cons.prems(2)] by blast
  have im: "inst_matches dyn b inst \<longleftrightarrow> tok = 0" using m(3) by (simp add: inst_matches_def)
  show ?case
  proof (cases "tok = 0")
    case True
    obtain g where g: "inst_f inst = Some g" using Cons.prems(1) by auto
    have stat: "\<forall>inst \<in> set insts. \<exists>toks. static_inst inst toks" using Cons.prems(1) by simp
    obtain err' where "inst_loop dyn b (map Some insts @ None # pad) (e # rest) err (Some g) True r' tmp =
      Some (if filter (inst_matches dyn b) insts = [] then err' else CMDLINE_PARSE_AMBIGUOUS,
        if filter (inst_matches dyn b) insts = [] then Some g else None, r')"
      using inst_loop_matched [OF stat assms(2,3,5)] by blast
    then show ?thesis using True m(1,3) im assms(3) eol_not_blank [OF assms(3)] g
      by (auto simp: nth_opt_def split: list.split)
  next
    case False
    have IH: "\<exists>err' result'. inst_loop dyn b (map Some insts @ None # pad) (e # rest) err0 None False r' tmp = Some (
      case filter (inst_matches dyn b) insts of
        [] \<Rightarrow> (if \<exists>inst \<in> set insts. 0 < fst (inst_result dyn b inst) then CMDLINE_PARSE_BAD_ARGS else err0, None, result')
      | [m] \<Rightarrow> (err', inst_f m, the (snd (inst_result dyn b m)))
      | _ \<Rightarrow> (CMDLINE_PARSE_AMBIGUOUS, None, result'))" for err0
      using Cons.IH [of r' err0] Cons.prems(1) m(2) by simp
    show ?thesis
    proof (cases "0 < tok")
      case True
      then show ?thesis using False m(1,3) im IH [of CMDLINE_PARSE_BAD_ARGS] by (auto split: list.splits)
    next
      case neg: False
      then show ?thesis using False m(1,3) im IH [of err] by (auto split: list.splits)
    qed
  qed
qed simp

section \<open>The command parser\<close>

definition command_line :: "u8 list \<Rightarrow> bool" where
  "command_line l \<longleftrightarrow> \<not> list_all cmdline_isblank2 (takeWhile (\<lambda>c. \<not> iscomment c) l)"

lemma cmdline_parse_line_eq:
  assumes insts: "\<forall>inst \<in> set insts. (\<exists>toks. static_inst inst toks) \<and> inst_f inst \<noteq> None"
    and l: "list_all (\<lambda>c. c \<noteq> 0 \<and> \<not> isendofline c) l" "isendofline e" "0 \<in> set rest"
    and r: "length r0 = CMDLINE_PARSE_RESULT_BUFSIZE" "length t0 = CMDLINE_PARSE_RESULT_BUFSIZE"
  defines "b \<equiv> l @ e # rest" and "linelen \<equiv> int (length l + 1 + length (takeWhile isendofline rest))"
  shows "cmdline_parse_line dyn (map Some insts @ None # pad) b call_fn r0 t0 = Some (
    if \<not> command_line l then (linelen, None)
    else case filter (inst_matches dyn b) insts of
      [] \<Rightarrow> (if \<exists>inst \<in> set insts. 0 < fst (inst_result dyn b inst) then CMDLINE_PARSE_BAD_ARGS else CMDLINE_PARSE_NOMATCH, None)
    | [m] \<Rightarrow> (linelen, if call_fn then Some (the (inst_f m), the (snd (inst_result dyn b m))) else None)
    | _ \<Rightarrow> (CMDLINE_PARSE_AMBIGUOUS, None))"
proof -
  have ls: "line_scan b False False 0 = Some (Some (length l, command_line l, e # rest))"
    unfolding b_def using line_scan_line [OF l(1,2), of rest False False 0] by (simp add: command_line_def)
  obtain q z where z: "rest = q @ 0 # z" "0 \<notin> set q" using split_list_first [OF l(3)] by blast
  have eol0: "\<not> isendofline 0" by (simp add: isendofline_def)
  have "scan (\<lambda>c. \<not> isendofline c) (e # rest) = Some (1 + length (takeWhile isendofline rest))"
  proof -
    obtain x y where "rest = takeWhile isendofline rest @ x # y" "\<not> isendofline x"
      using l(3) eol0 by (metis dropWhile_eq_Nil_conv hd_dropWhile list.exhaust_sel takeWhile_dropWhile_id)
    then have "scan (\<lambda>c. \<not> isendofline c) ((e # takeWhile isendofline rest) @ x # y) = Some (length (e # takeWhile isendofline rest))"
      using l(2) by (intro scan_found) (auto simp: list_all_iff dest: set_takeWhileD)
    then show ?thesis using \<open>rest = takeWhile isendofline rest @ x # y\<close> by simp
  qed
  then have sc: "scan (\<lambda>c. \<not> isendofline c) (drop (length l) b) = Some (1 + length (takeWhile isendofline rest))"
    by (simp add: b_def)
  have b0: "0 \<in> set b" using l(3) by (simp add: b_def)
  obtain err' result' where il: "inst_loop dyn b (map Some insts @ None # pad) (e # rest) CMDLINE_PARSE_NOMATCH None False r0 t0 = Some (
    case filter (inst_matches dyn b) insts of
      [] \<Rightarrow> (if \<exists>inst \<in> set insts. 0 < fst (inst_result dyn b inst) then CMDLINE_PARSE_BAD_ARGS else CMDLINE_PARSE_NOMATCH, None, result')
    | [m] \<Rightarrow> (err', inst_f m, the (snd (inst_result dyn b m)))
    | _ \<Rightarrow> (CMDLINE_PARSE_AMBIGUOUS, None, result'))"
    using inst_loop_unmatched [OF insts b0 l(2) r] by blast
  have one: "\<exists>g. inst_f m = Some g" if "filter (inst_matches dyn b) insts = [m]" for m
  proof -
    have "m \<in> set insts" using that by (metis filter_is_subset list.set_intros(1) subsetD)
    then show ?thesis using insts by auto
  qed
  show ?thesis
  proof (cases "command_line l")
    case False
    then show ?thesis by (simp add: cmdline_parse_line_def ls sc linelen_def)
  next
    case True
    show ?thesis
    proof (cases "filter (inst_matches dyn b) insts")
      case Nil
      then show ?thesis using True il by (simp add: cmdline_parse_line_def ls sc)
    next
      case (Cons m ms)
      then show ?thesis using True il one
        by (cases ms) (auto simp: cmdline_parse_line_def ls sc linelen_def)
    qed
  qed
qed

text \<open>
  C25: Parsing a buffer that starts with the line \<open>l\<close>. A line of blanks and a comment is skipped. Otherwise, when exactly
  one instruction matches, its function is called with the bytes its own tokens parsed, whatever the attempts before
  and after it wrote; when several match, nothing is called and the result is ambiguous; when none matches, the result
  is bad arguments if one matched its first tokens, and no match otherwise.
\<close>
theorem cmdline_parse_line_spec:
  assumes insts: "\<forall>inst \<in> set insts. (\<exists>toks. static_inst inst toks) \<and> inst_f inst \<noteq> None"
    and l: "list_all (\<lambda>c. c \<noteq> 0 \<and> \<not> isendofline c) l" "isendofline e" "0 \<in> set rest"
    and r: "length r0 = CMDLINE_PARSE_RESULT_BUFSIZE" "length t0 = CMDLINE_PARSE_RESULT_BUFSIZE"
  defines "b \<equiv> l @ e # rest" and "linelen \<equiv> int (length l + 1 + length (takeWhile isendofline rest))"
  shows "cmdline_parse_line dyn (map Some insts @ None # pad) b call_fn r0 t0 = Some (
    if \<not> command_line l then (linelen, None)
    else case filter (inst_matches dyn b) insts of
      [] \<Rightarrow> (if \<exists>inst \<in> set insts. 0 < fst (inst_result dyn b inst) then CMDLINE_PARSE_BAD_ARGS else CMDLINE_PARSE_NOMATCH, None)
    | [m] \<Rightarrow> (linelen, if call_fn then Some (the (inst_f m), the (snd (inst_result dyn b m))) else None)
    | _ \<Rightarrow> (CMDLINE_PARSE_AMBIGUOUS, None))"
  unfolding b_def linelen_def by (rule cmdline_parse_line_eq [OF insts l r])

text \<open>A buffer without an end of line is left for later.\<close>

lemma cmdline_parse_incomplete:
  assumes "list_all (\<lambda>c. c \<noteq> 0 \<and> \<not> isendofline c) l"
  shows "cmdline_parse_line dyn ctx (l @ 0 # rest) call_fn r0 t0 = Some (0, None)"
  using line_scan_open [OF assms] by (simp add: cmdline_parse_line_def)

text \<open>
  A function that is null is not told from no match so far: the next instruction that matches is taken for the only one,
  and its function gets the result buffer that the first one filled, its own being in \<open>tmp_result\<close>.
\<close>

lemma null_function_gives_other_result:
  assumes st: "static_inst i1 toks1" "static_inst i2 toks2" and f: "inst_f i1 = None" "inst_f i2 = Some g"
    and m: "inst_matches dyn b i1" "inst_matches dyn b i2" and b: "0 \<in> set b" "isendofline e"
    and r: "length r0 = CMDLINE_PARSE_RESULT_BUFSIZE" "length t0 = CMDLINE_PARSE_RESULT_BUFSIZE"
  shows "inst_loop dyn b [Some i1, Some i2, None] (e # rest) err None False r0 t0 =
    Some (err, Some g, the (snd (inst_result dyn b i1)))"
proof -
  obtain r1 where r1: "match_inst dyn i1 b 0 (Some r0) = Some (0, Some r1)" "inst_result dyn b i1 = (0, Some r1)"
    using match_inst_result [OF st(1) b(1) r(1), of dyn] m(1) by (auto simp: inst_matches_def)
  obtain r2 where r2: "match_inst dyn i2 b 0 (Some t0) = Some (0, Some r2)"
    using match_inst_result [OF st(2) b(1) r(2), of dyn] m(2) by (auto simp: inst_matches_def)
  show ?thesis using r1 r2 f b(2) eol_not_blank [OF b(2)] by (simp add: nth_opt_def)
qed

end
