(* ===== verification/Parse_String.thy ===== *)
theory Parse_String
  imports Cstring Parse_Num
begin

text \<open>
  The string token of the command line library: \<open>lib/cmdline/cmdline_parse_string.c\<close>. The field \<open>str\<close> of
  a token is null (\<open>None\<close>) for any word, empty for the rest of the line, and otherwise a list of choices
  between \<open>#\<close> characters. \<open>res\<close> is \<open>None\<close> for the null pointer or the memory it points to, and the
  parser returns that memory afterwards.
\<close>

section \<open>The parser\<close>

definition STR_TOKEN_SIZE :: nat where "STR_TOKEN_SIZE = 128"
definition STR_MULTI_TOKEN_SIZE :: nat where "STR_MULTI_TOKEN_SIZE = 4096"
definition TOKEN_STRING_MULTI :: "u8 list" where "TOKEN_STRING_MULTI = [0]"

definition get_token_len :: "u8 list \<Rightarrow> nat option" where
  "get_token_len s = scan (\<lambda>c. c = 0x23 \<or> c = 0) s"

definition get_next_token :: "u8 list \<Rightarrow> u8 list option option" where
  "get_next_token s = do {
     i \<leftarrow> get_token_len s;
     c \<leftarrow> nth_opt s i;
     Some (if c = 0x23 then Some (drop (i + 1) s) else None) }"

lemma scan_length: "scan p s = Some i \<Longrightarrow> i < length s"
  by (induction s arbitrary: i) (auto split: if_splits)

lemma get_next_token_shorter: "get_next_token s = Some (Some s') \<Longrightarrow> length s' < length s"
  by (auto simp: get_next_token_def get_token_len_def dest!: scan_length split: bind_splits if_splits)

text \<open>
  The loop over the choices: the length of the first one that the input starts with and that ends there,
  or \<open>None\<close> inside when \<open>str\<close> becomes null. A \<open>continue\<close> goes to the condition of the loop.
\<close>

function fixed_token :: "u8 list \<Rightarrow> u8 list \<Rightarrow> nat option option" where
  "fixed_token b str = do {
     token_len \<leftarrow> get_token_len str;
     found \<leftarrow>
       (if token_len \<ge> STR_TOKEN_SIZE - 1 then Some False
        else do {
          eq \<leftarrow> strncmp_eq b str token_len;
          (if \<not> eq then Some False
           else do { c \<leftarrow> nth_opt b token_len; Some (cmdline_isendoftoken c) }) });
     (if found then Some (Some token_len)
      else do {
        str \<leftarrow> get_next_token str;
        (case str of None \<Rightarrow> Some None | Some s \<Rightarrow> fixed_token b s) }) }"
  by pat_completeness auto
termination by (relation "measure (\<lambda>(b, str). length str)") (auto dest: get_next_token_shorter)

declare fixed_token.simps [simp del]

text \<open>The part of the result that is written: the two copies of \<open>strlcpy\<close> and the null character.\<close>

definition store_token :: "bool \<Rightarrow> u8 list \<Rightarrow> u8 list \<Rightarrow> nat \<Rightarrow> u8 list option" where
  "store_token multi res b token_len = do {
     (res, _) \<leftarrow> strlcpy res b (if multi then STR_MULTI_TOKEN_SIZE else STR_TOKEN_SIZE);
     upd_opt res token_len 0 }"

text \<open>\<open>ressize\<close> is the length of \<open>res\<close>, and 0 with a null pointer, as \<open>match_inst\<close> passes it.\<close>

definition cmdline_parse_string :: "u8 list option \<Rightarrow> u8 list \<Rightarrow> u8 list option \<Rightarrow> (u8 list option \<times> int) option" where
  "cmdline_parse_string str b res = do {
     ressize \<leftarrow> Some (case res of None \<Rightarrow> 0 | Some r \<Rightarrow> length r);
     (if res \<noteq> None \<and> ressize < STR_TOKEN_SIZE then Some (res, -1)
      else do {
        c \<leftarrow> nth_opt b 0;
        (if c = 0 then Some (res, -1)
         else do {
           multi \<leftarrow> (case str of None \<Rightarrow> Some False | Some s \<Rightarrow> strcmp_eq s TOKEN_STRING_MULTI);
           token_len \<leftarrow>
             (if str \<noteq> None \<and> \<not> multi then fixed_token b (the str)
              else if str \<noteq> None
              then (if ressize < STR_MULTI_TOKEN_SIZE then Some None
                    else do {
                      n \<leftarrow> scan_max cmdline_isendofcommand b (STR_MULTI_TOKEN_SIZE - 1);
                      Some (if n \<ge> STR_MULTI_TOKEN_SIZE - 1 then None else Some n) })
              else do {
                n \<leftarrow> scan_max cmdline_isendoftoken b (STR_TOKEN_SIZE - 1);
                Some (if n \<ge> STR_TOKEN_SIZE - 1 then None else Some n) });
           (case token_len of
              None \<Rightarrow> Some (res, -1)
            | Some n \<Rightarrow>
                (case res of
                   None \<Rightarrow> Some (None, int n)
                 | Some r \<Rightarrow> map_option (\<lambda>r. (Some r, int n)) (store_token multi r b n))) }) }) }"

section \<open>Completion and help\<close>

function count_tokens :: "u8 list \<Rightarrow> int \<Rightarrow> int option" where
  "count_tokens str n = do {
     s \<leftarrow> get_next_token str;
     (case s of None \<Rightarrow> Some n | Some s \<Rightarrow> count_tokens s (n + 1)) }"
  by pat_completeness auto
termination by (relation "measure (\<lambda>(str, n). length str)") (auto dest: get_next_token_shorter)

declare count_tokens.simps [simp del]

definition cmdline_complete_get_nb_string :: "u8 list option \<Rightarrow> int option" where
  "cmdline_complete_get_nb_string str = (case str of None \<Rightarrow> Some 0 | Some s \<Rightarrow> count_tokens s 1)"

text \<open>\<open>while (idx-- && s)\<close>, for an \<open>idx\<close> that is not negative.\<close>

fun skip_tokens :: "nat \<Rightarrow> u8 list option \<Rightarrow> u8 list option option" where
  "skip_tokens 0 s = Some s"
| "skip_tokens (Suc idx) None = Some None"
| "skip_tokens (Suc idx) (Some s) = do { s \<leftarrow> get_next_token s; skip_tokens idx s }"

text \<open>\<open>dstbuf\<close> is the memory the completion is written to; \<open>size\<close> is unsigned, so \<open>size - 1\<close> wraps at 0.\<close>

definition cmdline_complete_get_elt_string ::
  "u8 list option \<Rightarrow> int \<Rightarrow> u8 list \<Rightarrow> u32 \<Rightarrow> (u8 list \<times> int) option" where
  "cmdline_complete_get_elt_string str idx dstbuf sz =
     (if idx < 0 then Some (dstbuf, -1)
      else do {
        s \<leftarrow> skip_tokens (nat idx) str;
        (case s of
           None \<Rightarrow> Some (dstbuf, -1)
         | Some s \<Rightarrow> do {
             len \<leftarrow> get_token_len s;
             (if len > unat (sz - 1) then Some (dstbuf, -1)
              else do {
                d \<leftarrow> blit dstbuf 0 (take len s);
                d \<leftarrow> upd_opt d len 0;
                Some (d, 0) }) }) })"

definition CHOICESTRING_HELP :: "u8 list" where "CHOICESTRING_HELP = literal ''Mul-choice STRING''"
definition ANYSTRING_HELP :: "u8 list" where "ANYSTRING_HELP = literal ''Any STRING''"
definition ANYSTRINGS_HELP :: "u8 list" where "ANYSTRINGS_HELP = literal ''Any STRINGS''"
definition FIXEDSTRING_HELP :: "u8 list" where "FIXEDSTRING_HELP = literal ''Fixed STRING''"

definition cmdline_get_help_string :: "u8 list option \<Rightarrow> u8 list \<Rightarrow> nat \<Rightarrow> (u8 list \<times> int) option" where
  "cmdline_get_help_string str dstbuf sz = do {
     text \<leftarrow> (case str of
         None \<Rightarrow> Some ANYSTRING_HELP
       | Some s \<Rightarrow> do {
           multi \<leftarrow> strcmp_eq s TOKEN_STRING_MULTI;
           (if multi then Some ANYSTRINGS_HELP
            else do { n \<leftarrow> get_next_token s; Some (if n \<noteq> None then CHOICESTRING_HELP else FIXEDSTRING_HELP) }) });
     (d, _) \<leftarrow> strlcpy dstbuf text sz;
     Some (d, 0) }"

section \<open>Choices\<close>

text \<open>The specification: the choices of a string, and which one an input starts with.\<close>

definition choices :: "u8 list \<Rightarrow> u8 list list" where "choices s = split_on 0x23 s"

definition chooses :: "u8 list \<Rightarrow> u8 list \<Rightarrow> bool" where
  "chooses b c \<longleftrightarrow> length c < 127 \<and> take (length c) b = c \<and> length c < length b \<and> cmdline_isendoftoken (b ! length c)"

lemma get_token_len_text:
  assumes "0x23 \<notin> set c" "0 \<notin> set c" "x = 0 \<or> x = 0x23"
  shows "get_token_len (c @ x # r) = Some (length c)"
  unfolding get_token_len_def by (rule scan_found) (use assms in \<open>auto simp: list_all_iff\<close>)

lemma get_next_token_text:
  assumes "0x23 \<notin> set c" "0 \<notin> set c" "x = 0 \<or> x = 0x23"
  shows "get_next_token (c @ x # r) = Some (if x = 0x23 then Some r else None)"
  using get_token_len_text [OF assms, of r] by (simp add: get_next_token_def nth_opt_def)

text \<open>One turn: the choice \<open>c\<close>, with the input a string.\<close>

lemma fixed_token_turn:
  assumes c: "0x23 \<notin> set c" "0 \<notin> set c" and x: "x = 0 \<or> x = 0x23" and b: "0 \<notin> set b"
  shows "fixed_token (b @ 0 # rb) (c @ x # r) =
    (if chooses (b @ [0]) c then Some (Some (length c)) else if x = 0x23 then fixed_token (b @ 0 # rb) r else Some None)"
proof -
  note len = get_token_len_text [OF c x, of r]
  note nxt = get_next_token_text [OF c x, of r]
  have cmp: "strncmp_eq (b @ 0 # rb) (c @ x # r) (length c) = Some (take (length c) b = c)"
    by (rule strncmp_eq_text [OF b c(2)])
  have le: "length c \<le> length b" if "take (length c) b = c"
    using arg_cong [OF that, of length] by (simp add: min_def split: if_splits)
  have pre: "take (length c) (b @ [0]) = c \<longleftrightarrow> take (length c) b = c"
  proof (cases "length c \<le> length b")
    case False
    have "c \<noteq> b @ [0]" using c(2) by auto
    then show ?thesis using False le by auto
  qed simp
  have at: "(b @ 0 # rb) ! length c = (b @ [0]) ! length c" if "take (length c) b = c"
    using le [OF that] by (auto simp: nth_append)
  have in1: "length c < length (b @ 0 # rb)" "length c < length (b @ [0])" if "take (length c) b = c"
    using le [OF that] by auto
  have nt: "nth_opt (b @ 0 # rb) (length c) = Some ((b @ [0]) ! length c)" if "take (length c) b = c"
    using at [OF that] in1(1) [OF that] by simp
  have "fixed_token (b @ 0 # rb) (c @ x # r) = do {
      found \<leftarrow> (if 127 \<le> length c then Some False
        else if take (length c) b \<noteq> c then Some False
        else do { c \<leftarrow> nth_opt (b @ 0 # rb) (length c); Some (cmdline_isendoftoken c) });
      (if found then Some (Some (length c)) else if x = 0x23 then fixed_token (b @ 0 # rb) r else Some None) }"
    by (subst fixed_token.simps) (simp add: len nxt cmp STR_TOKEN_SIZE_def cong: if_cong)
  also have "\<dots> = (if chooses (b @ [0]) c then Some (Some (length c)) else if x = 0x23 then fixed_token (b @ 0 # rb) r else Some None)"
  proof (cases "take (length c) b = c")
    case True
    show ?thesis using pre in1(2) [OF True] True unfolding nt [OF True] by (simp add: chooses_def)
  next
    case False
    then show ?thesis using pre by (simp add: chooses_def)
  qed
  finally show ?thesis .
qed

text \<open>A string of choices is one choice, or a choice, a separator and a string of choices.\<close>

lemma fixed_token_find:
  assumes "0 \<notin> set s" "0 \<notin> set b"
  shows "fixed_token (b @ 0 # rb) (s @ 0 # rs) = Some (map_option length (find (chooses (b @ [0])) (choices s)))"
  using assms(1)
proof (induction "length s" arbitrary: s rule: less_induct)
  case less
  show ?case
  proof (cases s rule: split_on_cases [where c = "0x23"])
    case one
    then show ?thesis using fixed_token_turn [OF one less.prems, of 0 b rb rs] assms(2)
      by (simp add: choices_def split_on_none [OF one])
  next
    case (more a r)
    have z: "0 \<notin> set a" "0 \<notin> set r" using less.prems more(1) by auto
    then show ?thesis using fixed_token_turn [OF more(2) z(1), of "0x23" b rb "r @ 0 # rs"] assms(2) more less.hyps [of r]
      by (simp add: choices_def split_on_first [OF more(2)])
  qed
qed

lemma count_tokens_choices:
  assumes "0 \<notin> set s"
  shows "count_tokens (s @ 0 # rs) n = Some (n + int (length (choices s)) - 1)"
  using assms
proof (induction "length s" arbitrary: s n rule: less_induct)
  case less
  show ?case
  proof (cases s rule: split_on_cases [where c = "0x23"])
    case one
    then show ?thesis using get_next_token_text [OF one less.prems, of 0 rs]
      by (subst count_tokens.simps) (simp add: choices_def split_on_none [OF one])
  next
    case (more a r)
    have z: "0 \<notin> set a" "0 \<notin> set r" using less.prems more(1) by auto
    then show ?thesis using get_next_token_text [OF more(2) z(1), of "0x23" "r @ 0 # rs"] more less.hyps [of r "n + 1"]
      by (subst count_tokens.simps) (simp add: choices_def split_on_first [OF more(2)])
  qed
qed

lemma skip_tokens_choices:
  assumes "0 \<notin> set s"
  shows "if idx < length (choices s)
    then \<exists>x r. skip_tokens idx (Some (s @ 0 # rs)) = Some (Some (choices s ! idx @ x # r)) \<and> (x = 0 \<or> x = 0x23)
    else skip_tokens idx (Some (s @ 0 # rs)) = Some None"
  using assms
proof (induction idx arbitrary: s)
  case 0
  show ?case
  proof (cases s rule: split_on_cases [where c = "0x23"])
    case one
    then show ?thesis by (auto simp: choices_def split_on_none [OF one])
  next
    case (more a r)
    then show ?thesis by (auto simp: choices_def split_on_first [OF more(2)])
  qed
next
  case (Suc idx)
  show ?case
  proof (cases s rule: split_on_cases [where c = "0x23"])
    case one
    have "skip_tokens idx None = Some None" by (cases idx) simp_all
    then show ?thesis using get_next_token_text [OF one Suc.prems, of 0 rs]
      by (simp add: choices_def split_on_none [OF one])
  next
    case (more a r)
    have z: "0 \<notin> set a" "0 \<notin> set r" using Suc.prems more(1) by auto
    then show ?thesis using get_next_token_text [OF more(2) z(1), of "0x23" "r @ 0 # rs"] more Suc.IH [of r]
      by (simp add: choices_def split_on_first [OF more(2)] split: if_splits)
  qed
qed

lemma choices_chars: "c \<in> set (choices s) \<Longrightarrow> 0x23 \<notin> set c \<and> set c \<subseteq> set s"
proof (induction "length s" arbitrary: s rule: less_induct)
  case less
  show ?case
  proof (cases s rule: split_on_cases [where c = "0x23"])
    case one
    then show ?thesis using less.prems by (simp add: choices_def split_on_none [OF one])
  next
    case (more a r)
    then show ?thesis using less.prems less.hyps [of r] by (auto simp: choices_def split_on_first [OF more(2)])
  qed
qed

text \<open>A completion is the choice with its number.\<close>

lemma complete_get_elt:
  assumes "0 \<notin> set s" "i < length (choices s)" "length (choices s ! i) \<le> unat (sz - 1)" "length (choices s ! i) < length d"
  shows "cmdline_complete_get_elt_string (Some (s @ 0 # rs)) (int i) d sz =
    Some (choices s ! i @ 0 # drop (Suc (length (choices s ! i))) d, 0)"
proof -
  let ?c = "choices s ! i"
  obtain x r where x: "skip_tokens i (Some (s @ 0 # rs)) = Some (Some (?c @ x # r))" "x = 0 \<or> x = 0x23"
    using skip_tokens_choices [OF assms(1), of i rs] assms(2) by auto
  have c: "0x23 \<notin> set ?c" "0 \<notin> set ?c" using choices_chars [of ?c s] assms(1,2) by auto
  have bl: "blit d 0 ?c = Some (?c @ drop (length ?c) d)" using assms(4) by (simp add: blit_def)
  have "drop (length ?c) d = d ! length ?c # drop (Suc (length ?c)) d"
    using assms(4) by (rule Cons_nth_drop_Suc [symmetric])
  then have "(?c @ drop (length ?c) d)[length ?c := 0] = ?c @ 0 # drop (Suc (length ?c)) d"
    by (simp add: list_update_append)
  then show ?thesis using x(1) get_token_len_text [OF c x(2), of r] assms(3,4) bl
    by (simp add: cmdline_complete_get_elt_string_def upd_opt_def)
qed

section \<open>Tokens\<close>

text \<open>The specification of the length of a token.\<close>

definition string_len :: "u8 list option \<Rightarrow> u8 list \<Rightarrow> nat option" where
  "string_len str b = (case str of
       None \<Rightarrow> (let n = length (takeWhile (\<lambda>c. \<not> cmdline_isendoftoken c) b) in if n < 127 then Some n else None)
     | Some s \<Rightarrow>
         if s = [] then (let n = length (takeWhile (\<lambda>c. \<not> cmdline_isendofcommand c) b) in if n < 4095 then Some n else None)
         else map_option length (find (chooses (b @ [0])) (choices s)))"

definition c_string :: "u8 list \<Rightarrow> u8 list" where "c_string s = s @ [0]"

lemma scan_max_text:
  assumes "p 0" "0 \<notin> set b"
  shows "scan_max p (b @ 0 # r) m = Some (min (length (takeWhile (\<lambda>c. \<not> p c) b)) m)"
proof -
  let ?t = "takeWhile (\<lambda>c. \<not> p c) b"
  obtain e q where e: "dropWhile (\<lambda>c. \<not> p c) b @ 0 # r = e # q" "p e"
    using assms(1) hd_dropWhile [of "\<lambda>c. \<not> p c" b] by (cases "dropWhile (\<lambda>c. \<not> p c) b") auto
  have "b @ 0 # r = ?t @ e # q" unfolding e(1) [symmetric] append_assoc [symmetric] by simp
  moreover have "list_all (\<lambda>c. \<not> p c) ?t" by (auto simp: list_all_iff dest: set_takeWhileD)
  ultimately show ?thesis using scan_max_found [of p ?t e q m] e(2) by simp
qed

lemma store_token_ok:
  assumes "0 \<notin> set b" "n \<le> length b" "n < m" "m \<le> length r" "m = (if multi then STR_MULTI_TOKEN_SIZE else STR_TOKEN_SIZE)"
  shows "\<exists>r'. store_token multi r (b @ 0 # rb) n = Some r' \<and> take (Suc n) r' = take n b @ [0] \<and>
    length r' = length r \<and> drop m r' = drop m r"
proof -
  define r1 where "r1 = take (m - 1) b @ 0 # drop (Suc (min (length b) (m - 1))) r"
  have m0: "0 < m" using assms(3) by simp
  have "strlcpy r (b @ 0 # rb) m = Some (r1, length b)"
    using strlcpy_text [OF assms(1,4), of rb] m0 by (simp add: r1_def)
  moreover have len: "length r1 = length r" using assms(3,4) by (auto simp: r1_def min_def)
  ultimately have "store_token multi r (b @ 0 # rb) n = Some (r1[n := 0])"
    using assms(3-5) by (simp add: store_token_def upd_opt_def)
  moreover have "take (Suc n) (r1[n := 0]) = take n b @ [0]"
  proof -
    have "take (Suc n) (r1[n := 0]) = take n r1 @ [0]"
      using len assms(3,4) by (simp add: take_Suc_conv_app_nth)
    moreover have "take n r1 = take n b"
    proof -
      have "n \<le> m - 1" using assms(3) by simp
      then show ?thesis using assms(2) by (simp add: r1_def min_def)
    qed
    ultimately show ?thesis by simp
  qed
  moreover have "drop m (r1[n := 0]) = drop m r"
  proof -
    have "drop m (r1[n := 0]) = drop m r1" using assms(3) by (simp add: drop_update_cancel)
    also have "\<dots> = drop m r" 
    proof (cases "m - length b")
      case (Suc k)
      then have "Suc (k + length b) = m" by simp
      then show ?thesis using Suc by (auto simp: r1_def min_def)
    qed (use m0 in \<open>auto simp: r1_def min_def\<close>)
    finally show ?thesis .
  qed
  ultimately show ?thesis using len by auto
qed

lemma find_chooses: "find (chooses (b @ [0])) cs = Some c \<Longrightarrow> c \<in> set cs \<and> length c < 127 \<and> length c \<le> length b"
  by (auto simp: find_Some_iff chooses_def)

lemma takeWhile_le: "length (takeWhile p b) \<le> length b"
  by (simp add: length_takeWhile_le)

definition token_room :: "u8 list option \<Rightarrow> nat" where
  "token_room str = (if str = Some [] then 4096 else 128)"

lemma string_len_bound: "string_len str b = Some n \<Longrightarrow> n \<le> length b \<and> n < token_room str"
  using takeWhile_le by (fastforce simp: string_len_def token_room_def Let_def dest!: find_chooses split: option.splits if_splits)

lemma multi_text: "0 \<notin> set s \<Longrightarrow> strcmp_eq (s @ 0 # rs) TOKEN_STRING_MULTI = Some (s = [])"
  using strcmp_eq_text [of s "[]" rs "[]"] by (simp add: TOKEN_STRING_MULTI_def)

definition no_room :: "u8 list option \<Rightarrow> u8 list option \<Rightarrow> bool" where
  "no_room str res \<longleftrightarrow> (case res of None \<Rightarrow> str = Some [] | Some r \<Rightarrow> length r < token_room str)"

text \<open>The parser by the length of the token.\<close>

lemma parse_string_len:
  assumes b: "0 \<notin> set b" "b \<noteq> []" and s: "\<And>s. str = Some s \<Longrightarrow> 0 \<notin> set s"
  shows "cmdline_parse_string (map_option c_string str) (b @ 0 # rb) res = (
    if no_room str res then Some (res, -1)
    else case string_len str b of
      None \<Rightarrow> Some (res, -1)
    | Some n \<Rightarrow> (case res of
          None \<Rightarrow> Some (None, int n)
        | Some r \<Rightarrow> map_option (\<lambda>r. (Some r, int n)) (store_token (str = Some []) r (b @ 0 # rb) n)))"
proof -
  have hd: "nth_opt (b @ 0 # rb) 0 = Some (hd b)" "hd b \<noteq> 0"
    using b by (cases b; simp add: nth_opt_def)+
  have tok: "cmdline_isendoftoken 0" "cmdline_isendofcommand 0"
    by (simp_all add: cmdline_isendoftoken_def cmdline_isendofcommand_def)
  note sc = scan_max_text [where p = cmdline_isendoftoken and m = 127 and r = rb, OF tok(1) b(1)]
    scan_max_text [where p = cmdline_isendofcommand and m = 4095 and r = rb, OF tok(2) b(1)]
  note defs = cmdline_parse_string_def string_len_def no_room_def token_room_def STR_TOKEN_SIZE_def
    STR_MULTI_TOKEN_SIZE_def Let_def not_le not_less
  show ?thesis
  proof (cases str)
    case None
    then show ?thesis using hd sc(1) by (cases res) (auto simp: defs simp del: nth_opt_Some split: option.splits)
  next
    case (Some s')
    then have s': "0 \<notin> set s'" by (rule s)
    note m = multi_text [OF s', of "[]", folded c_string_def]
    have ff: "fixed_token (b @ 0 # rb) (c_string s') = Some (map_option length (find (chooses (b @ [0])) (choices s')))"
      unfolding c_string_def by (rule fixed_token_find [OF s' b(1)])
    show ?thesis
    proof (cases "s' = []")
      case True
      then show ?thesis using hd sc(2) Some m
        by (cases res) (auto simp: defs simp del: nth_opt_Some split: option.splits)
    next
      case False
      then show ?thesis using hd Some m ff
        by (cases res) (auto simp: defs simp del: nth_opt_Some split: option.splits)
    qed
  qed
qed

lemma parse_string_accepted:
  assumes "0 \<notin> set b" "b \<noteq> []" "\<And>s. str = Some s \<Longrightarrow> 0 \<notin> set s" "token_room str \<le> length r" "string_len str b = Some n"
  shows "\<exists>r'. cmdline_parse_string (map_option c_string str) (b @ 0 # rb) (Some r) = Some (Some r', int n) \<and>
        take (Suc n) r' = take n b @ [0] \<and> length r' = length r \<and> drop (token_room str) r' = drop (token_room str) r"
proof -
  have n: "n \<le> length b" "n < token_room str" using string_len_bound [OF assms(5)] by simp_all
  have m: "token_room str = (if (str = Some []) then STR_MULTI_TOKEN_SIZE else STR_TOKEN_SIZE)"
    by (simp add: token_room_def STR_TOKEN_SIZE_def STR_MULTI_TOKEN_SIZE_def)
  have "\<not> no_room str (Some r)" using assms(4) by (simp add: no_room_def)
  then show ?thesis using store_token_ok [OF assms(1) n assms(4) m, of rb] parse_string_len [OF assms(1-3), of str rb "Some r"] assms(5)
    by auto
qed

text \<open>
  The string token, on an input \<open>b\<close> and with room for its kind of token: any word of fewer than 127 characters,
  the rest of the line up to 4095, or the first of the choices that the input starts with and that ends there. The
  length is returned, \<open>res\<close> has the token as a string, and nothing after the size of the token type is written;
  otherwise \<open>res\<close> is left alone and the result is -1.
\<close>
theorem cmdline_parse_string_spec:
  assumes "0 \<notin> set b" "b \<noteq> []" "\<And>s. str = Some s \<Longrightarrow> 0 \<notin> set s" "token_room str \<le> length r"
  shows "case string_len str b of
      None \<Rightarrow> cmdline_parse_string (map_option c_string str) (b @ 0 # rb) (Some r) = Some (Some r, -1)
    | Some n \<Rightarrow> \<exists>r'. cmdline_parse_string (map_option c_string str) (b @ 0 # rb) (Some r) = Some (Some r', int n) \<and>
        take (Suc n) r' = take n b @ [0] \<and> length r' = length r \<and> drop (token_room str) r' = drop (token_room str) r"
  using parse_string_len [OF assms(1-3), of str rb "Some r"] parse_string_accepted [OF assms, of _ rb] assms(4)
  by (simp add: no_room_def split: option.split)

text \<open>The choices \<open>on#off\<close> and the input \<open>off now\<close>.\<close>
lemma cmdline_parse_string_spec_witness:
  "\<exists>r'. cmdline_parse_string (Some [0x6F, 0x6E, 0x23, 0x6F, 0x66, 0x66, 0]) [0x6F, 0x66, 0x66, 0x20, 0x6E, 0]
     (Some (replicate 128 1)) = Some (Some r', 3) \<and> take 4 r' = [0x6F, 0x66, 0x66, 0]"
proof -
  have "string_len (Some [0x6F, 0x6E, 0x23, 0x6F, 0x66, 0x66]) [0x6F, 0x66, 0x66, 0x20, 0x6E] = Some 3"
    by (simp add: string_len_def choices_def chooses_def cmdline_isendoftoken_def iscomment_def cmdline_isblank2_def
        isendofline_def)
  then show ?thesis
    using cmdline_parse_string_spec [of "[0x6F, 0x66, 0x66, 0x20, 0x6E]" "Some [0x6F, 0x6E, 0x23, 0x6F, 0x66, 0x66]" "replicate 128 1" "[]"]
    by (auto simp: token_room_def c_string_def)
qed

text \<open>
  C28: Every completion that is offered is accepted: a choice that is not empty and fits is copied to the buffer of
  the completion, and the parser accepts it when it is followed by the end of a token.
\<close>
theorem completion_accepted:
  assumes s: "0 \<notin> set s" "s \<noteq> []" and i: "i < length (choices s)" "choices s ! i \<noteq> []"
    and len: "length (choices s ! i) \<le> unat (sz - 1)" "length (choices s ! i) < length d" "length (choices s ! i) < 127"
    and q: "0 \<notin> set q" "cmdline_isendoftoken (hd (q @ [0]))" and r: "128 \<le> length r"
  shows "\<exists>d' r' n. cmdline_complete_get_nb_string (Some (c_string s)) = Some (int (length (choices s))) \<and>
    cmdline_complete_get_elt_string (Some (c_string s)) (int i) d sz = Some (d', 0) \<and>
    takeWhile (\<lambda>c. c \<noteq> 0) d' = choices s ! i \<and>
    cmdline_parse_string (Some (c_string s)) ((takeWhile (\<lambda>c. c \<noteq> 0) d' @ q) @ 0 # rb) (Some r) = Some (Some r', int n)"
proof -
  let ?c = "choices s ! i"
  have c: "0 \<notin> set ?c" using choices_chars [of ?c s] s(1) i(1) by auto
  have nb: "cmdline_complete_get_nb_string (Some (c_string s)) = Some (int (length (choices s)))"
    using count_tokens_choices [OF s(1), of "[]" 1] by (simp add: cmdline_complete_get_nb_string_def c_string_def)
  have elt: "cmdline_complete_get_elt_string (Some (c_string s)) (int i) d sz = Some (?c @ 0 # drop (Suc (length ?c)) d, 0)"
    unfolding c_string_def by (rule complete_get_elt [OF s(1) i(1) len(1,2)])
  have tw: "takeWhile (\<lambda>c. c \<noteq> 0) (?c @ 0 # drop (Suc (length ?c)) d) = ?c"
    using c by (subst takeWhile_append2) auto
  have "chooses ((?c @ q) @ [0]) ?c" using len(3) q(2) by (cases q) (simp_all add: chooses_def nth_append)
  then have "find (chooses ((?c @ q) @ [0])) (choices s) \<noteq> None" unfolding find_None_iff using nth_mem [OF i(1)] by blast
  then obtain n where n: "string_len (Some s) (?c @ q) = Some n" using s(2) by (auto simp: string_len_def)
  have b: "0 \<notin> set (?c @ q)" "?c @ q \<noteq> []" using c q(1) i(2) by auto
  obtain r' where "cmdline_parse_string (Some (c_string s)) ((?c @ q) @ 0 # rb) (Some r) = Some (Some r', int n)"
    using parse_string_accepted [OF b, of "Some s" r n rb] s r n by (auto simp: token_room_def)
  then show ?thesis using nb elt tw
    by (intro exI [of _ "?c @ 0 # drop (Suc (length ?c)) d"] exI [of _ r'] exI [of _ n]) simp
qed

lemma completion_accepted_witness:
  "\<exists>d' r' n. cmdline_complete_get_nb_string (Some (c_string [0x6F, 0x6E, 0x23, 0x6F, 0x66, 0x66])) = Some 2 \<and>
    cmdline_complete_get_elt_string (Some (c_string [0x6F, 0x6E, 0x23, 0x6F, 0x66, 0x66])) 1 (replicate 64 0) 64 = Some (d', 0) \<and>
    takeWhile (\<lambda>c. c \<noteq> 0) d' = [0x6F, 0x66, 0x66] \<and>
    cmdline_parse_string (Some (c_string [0x6F, 0x6E, 0x23, 0x6F, 0x66, 0x66])) ((takeWhile (\<lambda>c. c \<noteq> 0) d' @ []) @ [0])
      (Some (replicate 128 0)) = Some (Some r', int n)"
  using completion_accepted [of "[0x6F, 0x6E, 0x23, 0x6F, 0x66, 0x66]" 1 64 "replicate 64 0" "[]" "replicate 128 0" "[]"]
  by (simp add: choices_def cmdline_isendoftoken_def)

text \<open>
  Without a place for the result, as when \<open>cmdline_complete\<close> matches the tokens before the one to complete, a
  multi-word token is refused whatever the input is: its size is tested without \<open>res\<close>.
\<close>
lemma multi_string_never_matches_unstored:
  assumes "b \<noteq> []"
  shows "cmdline_parse_string (Some TOKEN_STRING_MULTI) b None = Some (None, -1)"
  using assms by (cases b) (simp_all add: cmdline_parse_string_def TOKEN_STRING_MULTI_def STR_MULTI_TOKEN_SIZE_def nth_opt_def)

end
