(* ===== verification/Parse_Portlist.thy ===== *)
theory Parse_Portlist
  imports Cstring Parse_Num
begin

text \<open>
  The port list token of the command line library: \<open>lib/cmdline/cmdline_parse_portlist.c\<close>. A port list is
  a bit map of 32 ports. \<open>1 << low\<close> is a shift of an \<open>int\<close>, which C does not define for \<open>low = 31\<close>.
  The value of \<open>pl->map\<close> is passed on; the result of the parser has the map it leaves, if it wrote one.
\<close>

section \<open>The parser\<close>

definition PORTLIST_TOKEN_SIZE :: nat where "PORTLIST_TOKEN_SIZE = 128"

lemma shl_int_bound: "shl_int 1 n = Some b \<Longrightarrow> n < 31"
proof -
  assume "shl_int 1 n = Some b"
  then have "(2::int) ^ n < 2 ^ 31" by (simp add: shl_int_def split: if_splits)
  then show "n < 31" by (simp only: power_strict_increasing_iff)
qed

lemma shl_int_one: "n < 31 \<Longrightarrow> shl_int 1 n = Some (push_bit n 1)"
proof -
  assume n: "n < 31"
  then have "(2::int) ^ n < 2 ^ 31" by (simp only: power_strict_increasing_iff)
  then show ?thesis using n by (simp add: shl_int_def)
qed

function parse_set_list :: "u32 \<Rightarrow> u64 \<Rightarrow> u64 \<Rightarrow> u32 option" where
  "parse_set_list m low high = do {
     b \<leftarrow> shl_int 1 (unat low);
     m \<leftarrow> Some (m OR b);
     low1 \<leftarrow> Some (low + 1);
     (if low1 \<le> high then parse_set_list m low1 high else Some m) }"
  by pat_completeness auto
termination
proof (relation "measure (\<lambda>(m, low, high). 31 - unat low)")
  fix m :: u32 and low high :: u64 and b x :: u32 and low1
  assume b: "shl_int 1 (unat low) = Some b" and l: "Some (low + 1) = Some low1"
  have "unat low < 31" using shl_int_bound [OF b] .
  then have "unat (low + 1) = unat low + 1" by (simp add: unat_word_ariths)
  then show "((x, low1, high), m, low, high) \<in> measure (\<lambda>(m, low, high). 31 - unat low)"
    using \<open>unat low < 31\<close> l by auto
qed simp

declare parse_set_list.simps [simp del]

lemma strchr_shorter: "strchr s c = Some (Some l) \<Longrightarrow> length (tl l) < length s"
proof (induction s)
  case (Cons x s)
  then show ?case by (cases "x = c"; cases "x = 0") auto
qed simp

text \<open>
  One turn per item: \<open>last\<close> is the comma after it or null. The condition of the loop stops it after the
  item without a comma, so the \<open>first = last + 1\<close> on a null \<open>last\<close> is not used.
\<close>

function parse_ports :: "u32 \<Rightarrow> u8 list \<Rightarrow> (u32 \<times> int) option" where
  "parse_ports m first = do {
     last \<leftarrow> strchr first 0x2C;
     (ps, err, stop) \<leftarrow> strtoul first;
     c \<leftarrow> nth_opt stop 0;
     (if err \<or> stop = first \<or> (c \<noteq> 0x2D \<and> c \<noteq> 0 \<and> Some stop \<noteq> last) then Some (m, -1)
      else do {
        pe \<leftarrow> (if c = 0x2D
               then do {
                 (pe, err, stop2) \<leftarrow> strtoul (tl stop);
                 c2 \<leftarrow> nth_opt stop2 0;
                 Some (if err \<or> stop2 = tl stop \<or> (c2 \<noteq> 0 \<and> Some stop2 \<noteq> last) then None else Some pe) }
               else Some (Some ps));
        (case pe of
           None \<Rightarrow> Some (m, -1)
         | Some pe \<Rightarrow>
             if ps > pe \<or> pe \<ge> 32 then Some (m, -1)
             else do {
               m \<leftarrow> parse_set_list m ps pe;
               (case last of None \<Rightarrow> Some (m, 0) | Some l \<Rightarrow> parse_ports m (tl l)) }) }) }"
  by pat_completeness auto
termination
  by (relation "measure (\<lambda>(m, first). length first)") (auto dest: strchr_shorter)

declare parse_ports.simps [simp del]

definition cmdline_parse_portlist :: "u8 list \<Rightarrow> nat option \<Rightarrow> (u32 option \<times> int) option" where
  "cmdline_parse_portlist b res = do {
     c \<leftarrow> nth_opt b 0;
     (if c = 0 then Some (None, -1)
      else if (case res of None \<Rightarrow> False | Some ressize \<Rightarrow> ressize < 4) then Some (None, -1)
      else do {
        token_len \<leftarrow> scan_max cmdline_isendoftoken b PORTLIST_TOKEN_SIZE;
        (if token_len \<ge> PORTLIST_TOKEN_SIZE then Some (None, -1)
         else do {
           (portlist_str, _) \<leftarrow> strlcpy (replicate (PORTLIST_TOKEN_SIZE + 1) 0) b (token_len + 1);
           (if res = None then Some (None, int token_len)
            else do {
              all \<leftarrow> strcmp_eq [0x61, 0x6C, 0x6C, 0] portlist_str;
              (if all then Some (Some (- 1), int token_len)
               else do {
                 (m, r) \<leftarrow> parse_ports 0 portlist_str;
                 Some (Some m, if r \<noteq> 0 then -1 else int token_len) }) }) }) }) }"

section \<open>Sets of ports\<close>

lemma parse_set_list_bits:
  assumes "lo \<le> hi" "unat hi < 31"
  shows "\<exists>m'. parse_set_list m lo hi = Some m' \<and>
    (\<forall>k < 32. bit m' k \<longleftrightarrow> bit m k \<or> (unat lo \<le> k \<and> k \<le> unat hi))"
  using assms
proof (induction m lo hi rule: parse_set_list.induct)
  case (1 m lo hi)
  let ?m = "m OR push_bit (unat lo) 1"
  have le: "unat lo \<le> unat hi" using 1(2) by (simp add: word_le_nat_alt)
  then have s: "shl_int 1 (unat lo) = Some (push_bit (unat lo) 1)" using 1(3) by (intro shl_int_one) simp
  have u: "unat (lo + 1) = unat lo + 1" using le 1(3) by (simp add: unat_word_ariths)
  have b: "bit ?m k \<longleftrightarrow> bit m k \<or> k = unat lo" if "k < 32" for k
    using that by (auto simp: bit_simps)
  show ?case
  proof (cases "lo + 1 \<le> hi")
    case True
    have E: "parse_set_list m lo hi = parse_set_list ?m (lo + 1) hi"
      by (subst parse_set_list.simps) (simp add: s True)
    obtain m' where "parse_set_list ?m (lo + 1) hi = Some m'"
      "\<forall>k < 32. bit m' k \<longleftrightarrow> bit ?m k \<or> (unat (lo + 1) \<le> k \<and> k \<le> unat hi)"
      using 1(1) [OF s refl refl True True 1(3)] by blast
    then show ?thesis using E b u le by (intro exI [of _ m']) auto
  next
    case False
    then have "unat hi = unat lo" using le u by (simp add: word_le_nat_alt)
    moreover have "parse_set_list m lo hi = Some ?m"
      by (subst parse_set_list.simps) (simp add: s False)
    ultimately show ?thesis using b by auto
  qed
qed

lemma parse_set_list_undefined:
  assumes "lo \<le> hi" "31 \<le> unat hi"
  shows "parse_set_list m lo hi = None"
  using assms
proof (induction m lo hi rule: parse_set_list.induct)
  case (1 m lo hi)
  show ?case
  proof (cases "shl_int 1 (unat lo)")
    case None
    then show ?thesis by (subst parse_set_list.simps) simp
  next
    case (Some b)
    have "unat lo < 31" by (rule shl_int_bound [OF Some])
    then have "lo + 1 \<le> hi" using 1(3) by (simp add: word_le_nat_alt unat_word_ariths)
    then show ?thesis using 1(1) [OF Some refl refl _ _ 1(3)] Some by (subst parse_set_list.simps) simp
  qed
qed

section \<open>Items\<close>

text \<open>The specification: items between commas, each a number or two numbers with a minus sign between them.\<close>

definition port_num :: "u8 list \<Rightarrow> u64 option" where
  "port_num s = (case dec_number s of
       None \<Rightarrow> None
     | Some (neg, v) \<Rightarrow> if v < 2 ^ 64 then Some (if neg then - of_nat v else of_nat v) else None)"

definition port_item :: "u8 list \<Rightarrow> u64 \<Rightarrow> u64 \<Rightarrow> bool" where
  "port_item it lo hi \<longleftrightarrow> (port_num it = Some lo \<and> hi = lo) \<or>
     (\<exists>a b. it = a @ 0x2D # b \<and> port_num a = Some lo \<and> port_num b = Some hi)"

definition item_ok :: "u8 list \<Rightarrow> bool" where
  "item_ok it \<longleftrightarrow> (\<exists>lo hi. port_item it lo hi \<and> lo \<le> hi \<and> unat hi < 31)"

definition item_has :: "u8 list \<Rightarrow> nat \<Rightarrow> bool" where
  "item_has it k \<longleftrightarrow> (\<exists>lo hi. port_item it lo hi \<and> unat lo \<le> k \<and> k \<le> unat hi)"

lemma strtoul_ok:
  assumes "port_num a = Some n" "\<not> isdigit x"
  shows "strtoul (a @ x # r) = Some (n, False, x # r)"
proof -
  obtain neg v where "dec_number a = Some (neg, v)" "v < 2 ^ 64" "n = (if neg then - of_nat v else of_nat v)"
    using assms(1) by (auto simp: port_num_def simp del: unsigned_of_nat split: option.splits if_splits)
  then show ?thesis using scan_number_text [of a neg v x r] assms(2) by (simp add: strtoul_def)
qed

lemma strtoul_split:
  assumes "strtoul s = Some (n, False, e)" "e \<noteq> s"
  shows "\<exists>a. s = a @ e \<and> port_num a = Some n"
proof -
  obtain r where r: "scan_number s = Some r" using assms(1) by (auto simp: strtoul_def)
  then obtain neg v e' where v': "r = Some (neg, v, e')" using assms by (cases r) (auto simp: strtoul_def)
  have v: "scan_number s = Some (Some (neg, v, e))" "v < 2 ^ 64" "n = (if neg then - of_nat v else of_nat v)"
    using assms r v' by (simp_all add: strtoul_def split: if_splits)
  then obtain a where "s = a @ e" "dec_number a = Some (neg, v)" using scan_number_split [OF v(1)] by blast
  then show ?thesis using v by (auto simp: port_num_def)
qed

lemma strtoul_total: "0 \<in> set s \<Longrightarrow> strtoul s \<noteq> None"
  using scan_number_total [of s] by (simp add: strtoul_def)

lemma port_num_chars: "port_num a = Some n \<Longrightarrow> 0 \<notin> set a \<and> 0x2C \<notin> set a"
  using dec_number_chars [of a _ 0] dec_number_chars [of a _ "0x2C"]
  by (auto simp: port_num_def isspace_def isdigit_def split: option.splits)

lemma port_num_ne: "port_num a = Some n \<Longrightarrow> a \<noteq> []"
  by (auto simp: port_num_def)

text \<open>A number at the start of an item \<open>it\<close>, which \<open>x\<close> ends.\<close>

lemma strtoul_item:
  assumes x: "x = 0 \<or> x = 0x2C" and it: "0 \<in> set (x # r)"
  obtains n err stop where "strtoul (it @ x # r) = Some (n, err, stop)" "err \<or> stop = it @ x # r"
  | n a b where "strtoul (it @ x # r) = Some (n, False, b @ x # r)" "it = a @ b" "port_num a = Some n" "a \<noteq> []"
proof -
  have "0 \<in> set (it @ x # r)" using it by auto
  then obtain n err stop where s: "strtoul (it @ x # r) = Some (n, err, stop)" using strtoul_total [of "it @ x # r"] by auto
  show thesis
  proof (cases "err \<or> stop = it @ x # r")
    case True
    then show thesis using s that(1) by blast
  next
    case False
    then obtain a where a: "it @ x # r = a @ stop" "port_num a = Some n" using strtoul_split [of _ n stop] s by auto
    have nx: "x \<notin> set a" using port_num_chars [OF a(2)] x by auto
    obtain us where us: "it = a @ us \<and> us @ x # r = stop \<or> it @ us = a \<and> x # r = us @ stop"
      using a(1) unfolding append_eq_append_conv2 by blast
    then have "it = a @ us \<and> us @ x # r = stop"
    proof
      assume g: "it @ us = a \<and> x # r = us @ stop"
      then have "us = []" using nx by (cases us) auto
      then show ?thesis using g by auto
    qed simp
    then show thesis using that(2) [of n us a] s False a(2) port_num_ne [OF a(2)] by simp
  qed
qed

lemma port_item_strtoul:
  assumes "port_item it lo hi"
  obtains b where "strtoul (it @ [0]) = Some (lo, False, b @ [0])" "b = [] \<and> hi = lo \<or> (\<exists>c. b = 0x2D # c \<and> port_num c = Some hi)"
proof -
  have d: "\<not> isdigit 0" "\<not> isdigit 0x2D" by (simp_all add: isdigit_def)
  consider "port_num it = Some lo" "hi = lo" | a c where "it = a @ 0x2D # c" "port_num a = Some lo" "port_num c = Some hi"
    using assms by (auto simp: port_item_def)
  then show thesis
  proof cases
    case 1
    then show thesis using that [of "[]"] strtoul_ok [OF 1(1) d(1)] by simp
  next
    case 2
    then show thesis using that [of "0x2D # c"] strtoul_ok [OF 2(2) d(2), of "c @ [0]"] by simp
  qed
qed

lemma port_item_fun:
  assumes "port_item it lo hi" "port_item it lo' hi'"
  shows "lo = lo' \<and> hi = hi'"
  by (rule port_item_strtoul [OF assms(1)]; rule port_item_strtoul [OF assms(2)]) fastforce

lemma port_item_chars: "port_item it lo hi \<Longrightarrow> it \<noteq> []"
  by (auto simp: port_item_def dest: port_num_ne)

text \<open>One turn of the loop.\<close>

lemma strchr_item:
  assumes "0 \<notin> set it" "0x2C \<notin> set it" "x = 0 \<or> x = 0x2C"
  shows "strchr (it @ x # r) 0x2C = Some (if x = 0x2C then Some (x # r) else None)"
  using assms by (induction it) auto

lemma parse_ports_item:
  assumes it: "0 \<notin> set it" "0x2C \<notin> set it" and x: "x = 0 \<or> x = 0x2C"
    and p: "port_item it lo hi" "lo \<le> hi" "hi < 32"
  shows "parse_ports m (it @ x # r) =
    do { m \<leftarrow> parse_set_list m lo hi; (if x = 0x2C then parse_ports m r else Some (m, 0)) }"
proof -
  have d: "\<not> isdigit x" "\<not> isdigit 0x2D" using x by (auto simp: isdigit_def)
  note last = strchr_item [OF it x, of r]
  have nv: "\<not> lo > hi" "\<not> hi \<ge> 32" using p(2,3) by auto
  consider "port_num it = Some lo" "hi = lo" | a b where "it = a @ 0x2D # b" "port_num a = Some lo" "port_num b = Some hi"
    using p(1) by (auto simp: port_item_def)
  then show ?thesis
  proof cases
    case 1
    have "it \<noteq> []" by (rule port_num_ne [OF 1(1)])
    then show ?thesis using x nv 1(2)
      by (subst parse_ports.simps) (auto simp: last strtoul_ok [OF 1(1) d(1)] nth_opt_def)
  next
    case 2
    have s: "strtoul (it @ x # r) = Some (lo, False, 0x2D # b @ x # r)"
      using strtoul_ok [OF 2(2) d(2), of "b @ x # r"] 2(1) by simp
    have ne: "a \<noteq> []" "b \<noteq> []" using port_num_ne 2(2,3) by blast+
    then have "0x2D # b @ x # r \<noteq> it @ x # r" using 2(1) by simp
    then show ?thesis using x nv ne
      by (subst parse_ports.simps) (auto simp: last s strtoul_ok [OF 2(3) d(1)] nth_opt_def)
  qed
qed

lemma parse_ports_bad_item:
  assumes it: "0 \<notin> set it" "0x2C \<notin> set it" and x: "x = 0 \<or> x = 0x2C" and z: "0 \<in> set (x # r)"
    and p: "\<And>lo hi. port_item it lo hi \<Longrightarrow> \<not> (lo \<le> hi \<and> hi < 32)"
  shows "parse_ports m (it @ x # r) = Some (m, -1)"
proof (rule strtoul_item [OF x z, of it])
  note last = strchr_item [OF it x, of r]
  fix n err stop
  assume s: "strtoul (it @ x # r) = Some (n, err, stop)" "err \<or> stop = it @ x # r"
  have "stop \<noteq> []" using s by (auto simp: strtoul_def dest!: scan_number_split split: option.splits if_splits)
  then show ?thesis using s by (subst parse_ports.simps) (auto simp: last nth_opt_def)
next
  note last = strchr_item [OF it x, of r]
  fix n a b
  assume s: "strtoul (it @ x # r) = Some (n, False, b @ x # r)" "it = a @ b" "port_num a = Some n" "a \<noteq> []"
  have first: "b @ x # r \<noteq> it @ x # r" using s(2,4) by simp
  show ?thesis
  proof (cases b)
    case Nil
    then have "\<not> (n \<le> n \<and> n < 32)" using s(2,3) p [of n n] by (simp add: port_item_def)
    then show ?thesis using x first Nil
      by (subst parse_ports.simps) (auto simp: last s(1) nth_opt_def)
  next
    case (Cons y c)
    have y: "y \<noteq> 0" "y \<noteq> 0x2C" using it s(2) Cons by auto
    show ?thesis
    proof (cases "y = 0x2D")
      case False
      then show ?thesis using y first Cons by (subst parse_ports.simps) (auto simp: last s(1) nth_opt_def)
    next
      case True
      have ic: "it = a @ 0x2D # c" using s(2) Cons True by simp
      show ?thesis
      proof (rule strtoul_item [OF x z, of c])
        fix n2 err stop
        assume s2: "strtoul (c @ x # r) = Some (n2, err, stop)" "err \<or> stop = c @ x # r"
        have "stop \<noteq> []" using s2 by (auto simp: strtoul_def dest!: scan_number_split split: option.splits if_splits)
        then show ?thesis using s2 first Cons True
          by (subst parse_ports.simps) (auto simp: last s(1) nth_opt_def)
      next
        fix n2 a2 b2
        assume s2: "strtoul (c @ x # r) = Some (n2, False, b2 @ x # r)" "c = a2 @ b2" "port_num a2 = Some n2" "a2 \<noteq> []"
        show ?thesis
        proof (cases b2)
          case Nil
          then have "\<not> (n \<le> n2 \<and> n2 < 32)" using s2(2,3) s(3) ic p [of n n2] by (auto simp: port_item_def)
          then show ?thesis using x first Cons True s2 Nil
            by (subst parse_ports.simps) (auto simp: last s(1) nth_opt_def not_le not_less)
        next
          case (Cons y2 c2)
          have "y2 \<noteq> 0" using it s(2) \<open>b = y # c\<close> s2(2) Cons by auto
          then show ?thesis using first \<open>b = y # c\<close> True s2 Cons
            by (subst parse_ports.simps) (auto simp: last s(1) nth_opt_def)
        qed
      qed
    qed
  qed
qed

section \<open>Lists of ports\<close>

lemma unat_lt_iff: "(hi :: u64) < 32 \<longleftrightarrow> unat hi < 32"
  by (simp add: word_less_nat_alt)

text \<open>The outcome of an item, followed by \<open>rest\<close>.\<close>

lemma parse_ports_turn:
  assumes it: "0 \<notin> set it" "0x2C \<notin> set it" and x: "x = 0 \<or> x = 0x2C" and z: "0 \<in> set (x # r)"
  shows "parse_ports m (it @ x # r) = Some (m', 0) \<longleftrightarrow> item_ok it \<and>
    (\<exists>m1. (\<forall>k < 32. bit m1 k \<longleftrightarrow> bit m k \<or> item_has it k) \<and>
      (if x = 0x2C then parse_ports m1 r else Some (m1, 0)) = Some (m', 0))"
proof (cases "\<exists>lo hi. port_item it lo hi \<and> lo \<le> hi \<and> hi < 32")
  case False
  then have "parse_ports m (it @ x # r) = Some (m, -1)" by (intro parse_ports_bad_item it x z) blast
  moreover have "\<not> item_ok it" using False by (force simp: item_ok_def unat_lt_iff)
  ultimately show ?thesis by simp
next
  case True
  then obtain lo hi where p: "port_item it lo hi" "lo \<le> hi" "hi < 32" by blast
  note E = parse_ports_item [OF it x p, of m r]
  have has: "item_has it k \<longleftrightarrow> unat lo \<le> k \<and> k \<le> unat hi" for k
    using port_item_fun [OF p(1)] p(1) unfolding item_has_def by blast
  have ok: "item_ok it \<longleftrightarrow> unat hi < 31"
    using port_item_fun [OF p(1)] p(1,2) unfolding item_ok_def by blast
  show ?thesis
  proof (cases "unat hi < 31")
    case False
    then have "parse_set_list m lo hi = None" by (intro parse_set_list_undefined p(2)) simp
    then show ?thesis using E ok False by simp
  next
    case True
    obtain m1 where m1: "parse_set_list m lo hi = Some m1"
      "\<forall>k < 32. bit m1 k \<longleftrightarrow> bit m k \<or> (unat lo \<le> k \<and> k \<le> unat hi)"
      using parse_set_list_bits [OF p(2) True] by blast
    have u: "m2 = m1" if "\<forall>k < 32. bit m2 k \<longleftrightarrow> bit m k \<or> item_has it k" for m2 :: u32
      using that m1(2) has by (intro bit_word_eqI) simp
    have one: "(\<exists>m2. (\<forall>k < 32. bit m2 k \<longleftrightarrow> bit m k \<or> item_has it k) \<and> F m2) \<longleftrightarrow> F m1" for F
      using u m1(2) unfolding has [symmetric] by blast
    show ?thesis unfolding E one by (simp add: ok True m1(1))
  qed
qed

lemma parse_ports_iff:
  assumes "0 \<notin> set t"
  shows "parse_ports m (t @ 0 # r) = Some (m', 0) \<longleftrightarrow> (\<forall>it \<in> set (split_on 0x2C t). item_ok it) \<and>
    (\<forall>k < 32. bit m' k \<longleftrightarrow> bit m k \<or> (\<exists>it \<in> set (split_on 0x2C t). item_has it k))"
  using assms
proof (induction "length t" arbitrary: t m rule: less_induct)
  case less
  show ?case
  proof (cases t rule: split_on_cases [where c = "0x2C"])
    case one
    have "m1 = m'" if "\<forall>k < 32. bit m' k = bit m1 k" for m1 using that by (intro bit_word_eqI) simp
    then show ?thesis
      using parse_ports_turn [OF less.prems one, of 0 r m m'] split_on_none [OF one] by auto
  next
    case (more a b)
    have a: "0 \<notin> set a" "0 \<notin> set b" using less.prems more(1) by auto
    have e: "t @ 0 # r = a @ 0x2C # (b @ 0 # r)" using more(1) by simp
    have IH: "parse_ports m1 (b @ 0 # r) = Some (m', 0) \<longleftrightarrow> (\<forall>it \<in> set (split_on 0x2C b). item_ok it) \<and>
        (\<forall>k < 32. bit m' k \<longleftrightarrow> bit m1 k \<or> (\<exists>it \<in> set (split_on 0x2C b). item_has it k))" for m1
      using less.hyps [of b m1] more(1) a(2) by simp
    have ex: "\<exists>m1 :: u32. \<forall>k < 32. bit m1 k \<longleftrightarrow> bit m k \<or> item_has a k" if "item_ok a"
    proof -
      obtain lo hi where p: "port_item a lo hi" "lo \<le> hi" "unat hi < 31" using \<open>item_ok a\<close> unfolding item_ok_def by blast
      have "item_has a k \<longleftrightarrow> unat lo \<le> k \<and> k \<le> unat hi" for k
        using port_item_fun [OF p(1)] p(1) unfolding item_has_def by blast
      then show ?thesis using parse_set_list_bits [OF p(2,3), of m] by auto
    qed
    have s: "split_on 0x2C t = a # split_on 0x2C b" unfolding more(1) by (rule split_on_first [OF more(2)])
    have T: "parse_ports m (t @ 0 # r) = Some (m', 0) \<longleftrightarrow> item_ok a \<and>
      (\<exists>m1. (\<forall>k < 32. bit m1 k \<longleftrightarrow> bit m k \<or> item_has a k) \<and> parse_ports m1 (b @ 0 # r) = Some (m', 0))"
      unfolding e using parse_ports_turn [OF a(1) more(2), of "0x2C" "b @ 0 # r" m m'] by simp
    have one: "(\<exists>m1 :: u32. (\<forall>k < 32. bit m1 k \<longleftrightarrow> bit m k \<or> item_has a k) \<and>
        C \<and> (\<forall>k < 32. bit m' k \<longleftrightarrow> bit m1 k \<or> H k)) \<longleftrightarrow>
        C \<and> (\<forall>k < 32. bit m' k \<longleftrightarrow> bit m k \<or> item_has a k \<or> H k)" if "item_ok a" for C H
    proof -
      obtain m1 :: u32 where "\<forall>k < 32. bit m1 k \<longleftrightarrow> bit m k \<or> item_has a k" using ex [OF \<open>item_ok a\<close>] by blast
      then show ?thesis
      proof (intro iffI, goal_cases)
        case 1
        from 1(2) show ?case by (elim exE) simp
      next
        case 2
        then show ?case by (intro exI [of _ m1]) simp
      qed
    qed
    show ?thesis
    proof (cases "item_ok a")
      case True
      show ?thesis unfolding T IH s using one [OF True] True by simp
    qed (simp add: T s)
  qed
qed

text \<open>
  The loop has no defined result exactly when the items before one are fine and this one names the port 31. Otherwise it
  returns 0 or -1.
\<close>

definition item_31 :: "u8 list \<Rightarrow> bool" where
  "item_31 it \<longleftrightarrow> (\<exists>lo hi. port_item it lo hi \<and> lo \<le> hi \<and> hi = 31)"

lemma below_31: "hi = 31 \<or> unat hi < 31" if "(hi :: u64) < 32"
proof -
  have "unat hi = 31 \<or> unat hi < 31" using that by (auto simp: unat_lt_iff)
  then show ?thesis by (auto intro: unsigned_word_eqI)
qed

lemma item_kinds:
  assumes it: "0 \<notin> set it" "0x2C \<notin> set it" and x: "x = 0 \<or> x = 0x2C" and z: "0 \<in> set (x # r)"
  obtains (undefined) "item_31 it" "parse_ports m (it @ x # r) = None"
    | (ok) m1 where "item_ok it" "\<not> item_31 it" "parse_ports m (it @ x # r) = (if x = 0x2C then parse_ports m1 r else Some (m1, 0))"
    | (bad) "\<not> item_ok it" "\<not> item_31 it" "parse_ports m (it @ x # r) = Some (m, -1)"
proof (cases "\<exists>lo hi. port_item it lo hi \<and> lo \<le> hi \<and> hi < 32")
  case False
  then have "parse_ports m (it @ x # r) = Some (m, -1)" by (intro parse_ports_bad_item it x z) blast
  moreover have "\<not> item_ok it" "\<not> item_31 it" using False by (force simp: item_ok_def item_31_def unat_lt_iff)+
  ultimately show ?thesis by (intro bad)
next
  case True
  then obtain lo hi where p: "port_item it lo hi" "lo \<le> hi" "hi < 32" by blast
  note E = parse_ports_item [OF it x p, of m r]
  have k: "item_31 it \<longleftrightarrow> hi = 31" "item_ok it \<longleftrightarrow> unat hi < 31"
    using port_item_fun [OF p(1)] p(1,2) unfolding item_31_def item_ok_def by blast+
  show ?thesis
  proof (cases "hi = 31")
    case True
    then have "parse_set_list m lo hi = None" by (intro parse_set_list_undefined p(2)) simp
    then show ?thesis using E k(1) True by (intro undefined) simp_all
  next
    case False
    then have h: "unat hi < 31" using below_31 [OF p(3)] by simp
    then obtain m1 where "parse_set_list m lo hi = Some m1" using parse_set_list_bits [OF p(2)] by blast
    then show ?thesis using E k h False by (intro ok [of m1]) simp_all
  qed
qed

lemma first_31:
  "(\<exists>k < length (a # its). item_31 ((a # its) ! k) \<and> (\<forall>j < k. item_ok ((a # its) ! j))) \<longleftrightarrow>
    item_31 a \<or> item_ok a \<and> (\<exists>k < length its. item_31 (its ! k) \<and> (\<forall>j < k. item_ok (its ! j)))"
  unfolding list.size(4) add_Suc_right add_0_right Ex_less_Suc2 by (simp add: All_less_Suc2) blast

lemma parse_ports_outcome:
  assumes "0 \<notin> set t"
  shows "(parse_ports m (t @ 0 # r) = None \<longleftrightarrow>
      (\<exists>k < length (split_on 0x2C t). item_31 (split_on 0x2C t ! k) \<and> (\<forall>j < k. item_ok (split_on 0x2C t ! j)))) \<and>
    (\<forall>m' rc. parse_ports m (t @ 0 # r) = Some (m', rc) \<longrightarrow> rc = 0 \<or> rc = -1)"
  using assms
proof (induction "length t" arbitrary: t m rule: less_induct)
  case less
  show ?case
  proof (cases t rule: split_on_cases [where c = "0x2C"])
    case one
    show ?thesis
      by (rule item_kinds [OF less.prems one, of 0 r m]) (simp_all add: split_on_none [OF one])
  next
    case (more a b)
    have a: "0 \<notin> set a" "0 \<notin> set b" using less.prems more(1) by auto
    have e: "t @ 0 # r = a @ 0x2C # (b @ 0 # r)" using more(1) by simp
    have s: "split_on 0x2C t = a # split_on 0x2C b" unfolding more(1) by (rule split_on_first [OF more(2)])
    note IH = less.hyps [of b, OF _ a(2)]
    show ?thesis unfolding s first_31 e
      by (rule item_kinds [OF a(1) more(2), of "0x2C" "b @ 0 # r" m]) (use IH more(1) in auto)
  qed
qed

text \<open>The parser on a token \<open>t\<close>, by the outcome of \<open>parse_ports\<close>.\<close>

lemma cmdline_parse_portlist_eq:
  assumes t: "list_all (\<lambda>c. \<not> cmdline_isendoftoken c) t" and e: "cmdline_isendoftoken e" "0 \<in> set (e # rest)"
    and ne: "t \<noteq> [] \<or> e \<noteq> 0"
  shows "\<exists>pad. cmdline_parse_portlist (t @ e # rest) (Some n) =
    (if n < 4 \<or> 128 \<le> length t then Some (None, -1)
     else if t = [0x61, 0x6C, 0x6C] then Some (Some (- 1), int (length t))
     else map_option (\<lambda>(m, r). (Some m, if r \<noteq> 0 then -1 else int (length t))) (parse_ports 0 (t @ 0 # pad)))"
proof -
  have t0: "0 \<notin> set t" using t by (auto simp: list_all_iff cmdline_isendoftoken_def)
  note hd = token_hd [of t e rest]
  have hd0: "hd (t @ [e]) \<noteq> 0" using ne t0 by (cases t) auto
  note sm = scan_max_found [OF t e(1), of rest 128]
  show ?thesis
  proof (cases "length t < 128")
    case False
    then show ?thesis using hd hd0
      by (simp add: cmdline_parse_portlist_def sm PORTLIST_TOKEN_SIZE_def del: nth_opt_Some)
  next
    case True
    obtain pad k where cp: "strlcpy (replicate 129 0) (t @ e # rest) (length t + 1) = Some (t @ 0 # pad, k)"
      using token_copy [OF t0 e(2), of 129] True by auto
    have cmp: "strcmp_eq [0x61, 0x6C, 0x6C, 0] (t @ 0 # pad) = Some (t = [0x61, 0x6C, 0x6C])"
      using strcmp_eq_text [of "[0x61, 0x6C, 0x6C]" t "[]" pad] t0 by (simp add: eq_commute)
    show ?thesis using hd hd0 True cp cmp
      by (intro exI [of _ pad], cases "parse_ports 0 (t @ 0 # pad)")
        (auto simp: cmdline_parse_portlist_def sm PORTLIST_TOKEN_SIZE_def simp del: nth_opt_Some)
  qed
qed

lemma portlist_success:
  assumes t: "list_all (\<lambda>c. \<not> cmdline_isendoftoken c) t" and e: "cmdline_isendoftoken e" "0 \<in> set (e # rest)"
  shows "cmdline_parse_portlist (t @ e # rest) (Some n) = Some (Some m, int (length t)) \<longleftrightarrow>
    4 \<le> n \<and> length t < 128 \<and>
    (if t = [0x61, 0x6C, 0x6C] then m = - 1
     else (\<forall>it \<in> set (split_on 0x2C t). item_ok it) \<and>
       (\<forall>k < 32. bit m k \<longleftrightarrow> (\<exists>it \<in> set (split_on 0x2C t). item_has it k)))"
proof (cases "t = [] \<and> e = 0")
  case True
  have "\<not> item_ok []" using port_item_chars by (auto simp: item_ok_def)
  then show ?thesis using True by (simp add: cmdline_parse_portlist_def nth_opt_def)
next
  case False
  have t0: "0 \<notin> set t" using t by (auto simp: list_all_iff cmdline_isendoftoken_def)
  obtain pad where E: "cmdline_parse_portlist (t @ e # rest) (Some n) =
    (if n < 4 \<or> 128 \<le> length t then Some (None, -1)
     else if t = [0x61, 0x6C, 0x6C] then Some (Some (- 1), int (length t))
     else map_option (\<lambda>(m, r). (Some m, if r \<noteq> 0 then -1 else int (length t))) (parse_ports 0 (t @ 0 # pad)))"
    using cmdline_parse_portlist_eq [OF t e, of n] False by blast
  have "map_option (\<lambda>(m, r). (Some m, if r \<noteq> 0 then -1 else int (length t))) (parse_ports 0 (t @ 0 # pad))
      = Some (Some m, int (length t)) \<longleftrightarrow> parse_ports 0 (t @ 0 # pad) = Some (m, 0)"
    by (cases "parse_ports 0 (t @ 0 # pad)") (auto split: if_splits)
  then show ?thesis unfolding E using parse_ports_iff [OF t0, of 0 pad m] by auto
qed

lemma portlist_other:
  assumes t: "list_all (\<lambda>c. \<not> cmdline_isendoftoken c) t" and e: "cmdline_isendoftoken e" "0 \<in> set (e # rest)"
  defines "its \<equiv> split_on 0x2C t"
  shows "(cmdline_parse_portlist (t @ e # rest) (Some n) = None \<longleftrightarrow>
      4 \<le> n \<and> length t < 128 \<and> t \<noteq> [0x61, 0x6C, 0x6C] \<and> (\<exists>k < length its. item_31 (its ! k) \<and> (\<forall>j < k. item_ok (its ! j)))) \<and>
    (\<forall>x. cmdline_parse_portlist (t @ e # rest) (Some n) = Some x \<longrightarrow> snd x = -1 \<or> (\<exists>m. x = (Some m, int (length t))))"
proof (cases "t = [] \<and> e = 0")
  case True
  have "\<not> item_31 []" using port_item_chars by (auto simp: item_31_def)
  then show ?thesis using True by (simp add: its_def cmdline_parse_portlist_def nth_opt_def)
next
  case False
  have t0: "0 \<notin> set t" using t by (auto simp: list_all_iff cmdline_isendoftoken_def)
  obtain pad where E: "cmdline_parse_portlist (t @ e # rest) (Some n) =
    (if n < 4 \<or> 128 \<le> length t then Some (None, -1)
     else if t = [0x61, 0x6C, 0x6C] then Some (Some (- 1), int (length t))
     else map_option (\<lambda>(m, r). (Some m, if r \<noteq> 0 then -1 else int (length t))) (parse_ports 0 (t @ 0 # pad)))"
    using cmdline_parse_portlist_eq [OF t e, of n] False by blast
  note O = parse_ports_outcome [OF t0, of 0 pad, folded its_def]
  show ?thesis unfolding E using O [THEN conjunct1] by auto
qed

text \<open>
  C27: The outcomes of the port list parser with a result buffer of \<open>n\<close> bytes on a token \<open>t\<close>. It succeeds with the map \<open>m\<close> exactly
  when there is room for it, the token has fewer than 128 characters, and it is \<open>all\<close>, for all 32 ports, or every item
  between its commas is a number, or two numbers with a minus sign between them in ascending order, below 31, and \<open>m\<close> has the
  ports of the items. It has no defined result exactly when an item, the first that is not of this kind, is a number or a
  range up to 31: that is a port of the map, but the code shifts the \<open>int\<close> 1 by 31. In all other cases it returns -1.
\<close>
theorem cmdline_parse_portlist_iff:
  fixes n :: nat
  assumes "list_all (\<lambda>c. \<not> cmdline_isendoftoken c) t" and "cmdline_isendoftoken e" "0 \<in> set (e # rest)"
  defines "its \<equiv> split_on 0x2C t" and "res \<equiv> cmdline_parse_portlist (t @ e # rest) (Some n)"
  shows "(\<forall>m. res = Some (Some m, int (length t)) \<longleftrightarrow> 4 \<le> n \<and> length t < 128 \<and>
      (if t = [0x61, 0x6C, 0x6C] then m = - 1
       else (\<forall>it \<in> set its. item_ok it) \<and> (\<forall>k < 32. bit m k \<longleftrightarrow> (\<exists>it \<in> set its. item_has it k)))) \<and>
    (res = None \<longleftrightarrow> 4 \<le> n \<and> length t < 128 \<and> t \<noteq> [0x61, 0x6C, 0x6C] \<and>
      (\<exists>k < length its. item_31 (its ! k) \<and> (\<forall>j < k. item_ok (its ! j)))) \<and>
    (\<forall>x. res = Some x \<longrightarrow> snd x = -1 \<or> (\<exists>m. x = (Some m, int (length t))))"
  unfolding res_def its_def using portlist_success [OF assms(1-3), of n] portlist_other [OF assms(1-3), of n] by blast

lemma port_num_eval:
  "port_num [0x31] = Some 1" "port_num [0x33] = Some 3" "port_num [0x35] = Some 5"
  "port_num [0x33, 0x31] = Some 31" "port_num [0x33, 0x30] = Some 30"
  by (simp_all add: port_num_def dec_number_def isspace_def isdigit_def dec_value_def)

text \<open>The token \<open>1,3-5\<close> is the ports 1, 3, 4 and 5.\<close>
lemma cmdline_parse_portlist_iff_witness:
  "cmdline_parse_portlist [0x31, 0x2C, 0x33, 0x2D, 0x35, 0x20, 0] (Some 4) = Some (Some 0x3A, 5)"
proof -
  have i: "port_item [0x31] 1 1" using port_num_eval by (simp add: port_item_def)
  have j: "port_item [0x33, 0x2D, 0x35] 3 5"
    unfolding port_item_def using port_num_eval by (intro disjI2 exI [of _ "[0x33]"] exI [of _ "[0x35]"]) simp
  have ok: "item_ok [0x31]" "item_ok [0x33, 0x2D, 0x35]"
    unfolding item_ok_def using i j by (force intro: exI [of _ 1] exI [of _ 3] exI [of _ 5])+
  have h: "item_has [0x31] k \<longleftrightarrow> k = 1" "item_has [0x33, 0x2D, 0x35] k \<longleftrightarrow> 3 \<le> k \<and> k \<le> 5" for k
    unfolding item_has_def using i j port_item_fun [OF i] port_item_fun [OF j] by fastforce+
  have b: "bit (0x3A :: u32) k \<longleftrightarrow> k = 1 \<or> 3 \<le> k \<and> k \<le> 5" if "k < 32" for k
  proof -
    have "k \<in> set [0, 1, 2, 3, 4, 5] \<or> 6 \<le> k" by auto
    moreover have "\<not> bit (0x3A :: u32) k" if "6 \<le> k"
    proof -
      have "bit (drop_bit 6 (0x3A :: u32)) (k - 6) = bit (0x3A :: u32) (6 + (k - 6))" by (rule fun_cong [OF bit_drop_bit_eq, unfolded comp_def])
      moreover have "drop_bit 6 (0x3A :: u32) = 0" by code_simp
      ultimately show ?thesis using that by (simp only: bit_0_eq le_add_diff_inverse bot_apply) simp
    qed
    ultimately show ?thesis by auto
  qed
  show ?thesis
    using cmdline_parse_portlist_iff [of "[0x31, 0x2C, 0x33, 0x2D, 0x35]" "0x20" "[0]" 4] ok h b
    by (simp add: cmdline_isendoftoken_def iscomment_def cmdline_isblank2_def isendofline_def)
qed

text \<open>
  The token \<open>31\<close> names a port of the 32-bit map, but \<open>parse_set_list\<close> shifts the \<open>int\<close> 1 by 31, which
  C does not define.
\<close>
lemma port_31_undefined: "cmdline_parse_portlist [0x33, 0x31, 0] (Some 4) = None"
proof -
  have p: "port_item [0x33, 0x31] 31 31" using port_num_eval by (simp add: port_item_def)
  have "parse_ports 0 ([0x33, 0x31] @ 0 # pad) = None" for pad
    using parse_ports_item [OF _ _ _ p, of 0 0 pad] parse_set_list_undefined [of 31 31 0] by simp
  then show ?thesis
    using cmdline_parse_portlist_eq [of "[0x33, 0x31]" 0 "[]" 4]
    by (auto simp: cmdline_isendoftoken_def iscomment_def cmdline_isblank2_def isendofline_def)
qed

end
