(* ===== verification/Ether.thy ===== *)
theory Ether
  imports Cstring Parse_Num
begin

text \<open>
  Ethernet addresses: \<open>lib/net/rte_ether.c\<close>, the tests of \<open>rte_ether.h\<close>, and the address token of the
  command line library, \<open>cmdline_parse_etheraddr.c\<close>. An address is its six bytes; an \<open>int8_t\<close> is a byte
  read as signed. The random number of \<open>rte_eth_random_addr\<close> is an argument.
\<close>

section \<open>Addresses\<close>

record rte_ether_addr =
  addr_bytes :: "u8 list"

definition RTE_ETHER_ADDR_LEN :: nat where "RTE_ETHER_ADDR_LEN = 6"
definition RTE_ETHER_ADDR_FMT_SIZE :: nat where "RTE_ETHER_ADDR_FMT_SIZE = 18"
definition RTE_ETHER_LOCAL_ADMIN_ADDR :: u8 where "RTE_ETHER_LOCAL_ADMIN_ADDR = 0x02"
definition RTE_ETHER_GROUP_ADDR :: u8 where "RTE_ETHER_GROUP_ADDR = 0x01"

text \<open>The 16-bit words of an address.\<close>

definition addr_word :: "rte_ether_addr \<Rightarrow> nat \<Rightarrow> u16" where
  "addr_word ea k = ucast (addr_bytes ea ! (2 * k)) OR push_bit 8 (ucast (addr_bytes ea ! (2 * k + 1)))"

definition rte_is_same_ether_addr :: "rte_ether_addr \<Rightarrow> rte_ether_addr \<Rightarrow> bool" where
  "rte_is_same_ether_addr ea1 ea2 =
     ((((addr_word ea1 0 XOR addr_word ea2 0) OR (addr_word ea1 1 XOR addr_word ea2 1)) OR
       (addr_word ea1 2 XOR addr_word ea2 2)) = 0)"

definition rte_is_zero_ether_addr :: "rte_ether_addr \<Rightarrow> bool" where
  "rte_is_zero_ether_addr ea = ((addr_word ea 0 OR addr_word ea 1 OR addr_word ea 2) = 0)"

definition rte_is_unicast_ether_addr :: "rte_ether_addr \<Rightarrow> bool" where
  "rte_is_unicast_ether_addr ea = (addr_bytes ea ! 0 AND RTE_ETHER_GROUP_ADDR = 0)"

definition rte_is_multicast_ether_addr :: "rte_ether_addr \<Rightarrow> bool" where
  "rte_is_multicast_ether_addr ea = (addr_bytes ea ! 0 AND RTE_ETHER_GROUP_ADDR \<noteq> 0)"

definition rte_is_broadcast_ether_addr :: "rte_ether_addr \<Rightarrow> bool" where
  "rte_is_broadcast_ether_addr ea = ((addr_word ea 0 AND addr_word ea 1 AND addr_word ea 2) = 0xFFFF)"

definition rte_is_universal_ether_addr :: "rte_ether_addr \<Rightarrow> bool" where
  "rte_is_universal_ether_addr ea = (addr_bytes ea ! 0 AND RTE_ETHER_LOCAL_ADMIN_ADDR = 0)"

definition rte_is_local_admin_ether_addr :: "rte_ether_addr \<Rightarrow> bool" where
  "rte_is_local_admin_ether_addr ea = (addr_bytes ea ! 0 AND RTE_ETHER_LOCAL_ADMIN_ADDR \<noteq> 0)"

definition rte_is_valid_assigned_ether_addr :: "rte_ether_addr \<Rightarrow> bool" where
  "rte_is_valid_assigned_ether_addr ea \<longleftrightarrow> rte_is_unicast_ether_addr ea \<and> \<not> rte_is_zero_ether_addr ea"

definition rte_eth_random_addr :: "u64 \<Rightarrow> rte_ether_addr" where
  "rte_eth_random_addr rand =
     (let addr = le_bytes RTE_ETHER_ADDR_LEN rand;
          addr = addr[0 := addr ! 0 AND NOT RTE_ETHER_GROUP_ADDR]
      in \<lparr>addr_bytes = addr[0 := addr ! 0 OR RTE_ETHER_LOCAL_ADMIN_ADDR]\<rparr>)"

section \<open>Printing\<close>

text \<open>\<open>%02X\<close> of a byte; \<open>snprintf\<close> writes at most \<open>size\<close> characters with the null character.\<close>

definition hex_char :: "u8 \<Rightarrow> u8" where "hex_char d = (if d < 10 then 0x30 + d else 0x41 + (d - 10))"
definition fmt_02X :: "u8 \<Rightarrow> u8 list" where "fmt_02X b = [hex_char (drop_bit 4 b), hex_char (b AND 0x0F)]"

fun join_colon :: "u8 list list \<Rightarrow> u8 list" where
  "join_colon [] = []"
| "join_colon [p] = p"
| "join_colon (p # ps) = p @ 0x3A # join_colon ps"

definition rte_ether_format_addr :: "u8 list \<Rightarrow> nat \<Rightarrow> rte_ether_addr \<Rightarrow> u8 list option" where
  "rte_ether_format_addr b sz eth_addr =
     map_option fst (strlcpy b (join_colon (map fmt_02X (addr_bytes eth_addr)) @ [0]) sz)"

section \<open>Parsing\<close>

definition get_xdigit :: "u8 \<Rightarrow> u8" where
  "get_xdigit ch =
     (if ch \<ge> 0x30 \<and> ch \<le> 0x39 then ch - 0x30
      else if ch \<ge> 0x61 \<and> ch \<le> 0x66 then ch - 0x61 + 10
      else if ch \<ge> 0x41 \<and> ch \<le> 0x46 then ch - 0x41 + 10
      else - 1)"

text \<open>The loop from byte \<open>i\<close> on; \<open>ea\<close> is the six bytes of the result, written as far as the code gets.\<close>

function addr6_from :: "nat \<Rightarrow> u8 list \<Rightarrow> u8 list \<Rightarrow> (bool \<times> u8 list) option" where
  "addr6_from i s ea =
     (if i < RTE_ETHER_ADDR_LEN then do {
        c \<leftarrow> nth_opt s 0;
        x \<leftarrow> Some (get_xdigit c);
        (if sint x < 0 then Some (False, ea) else do {
          ea \<leftarrow> upd_opt ea i (push_bit 4 x);
          c \<leftarrow> nth_opt s 1;
          y \<leftarrow> Some (get_xdigit c);
          (if sint y < 0 then Some (False, ea) else do {
            b \<leftarrow> nth_opt ea i;
            ea \<leftarrow> upd_opt ea i (b OR y);
            (if i < RTE_ETHER_ADDR_LEN - 1
             then do {
               c \<leftarrow> nth_opt s 2;
               (if c \<noteq> 0x3A then Some (False, ea) else addr6_from (i + 1) (drop 3 s) ea) }
             else addr6_from (i + 1) (drop 2 s) ea) }) }) }
      else do { c \<leftarrow> nth_opt s 0; Some (c = 0, ea) })"
  by pat_completeness auto
termination by (relation "measure (\<lambda>(i, _, _). RTE_ETHER_ADDR_LEN - i)") auto

declare addr6_from.simps [simp del]

definition get_ether_addr6 :: "u8 list \<Rightarrow> u8 list \<Rightarrow> (bool \<times> u8 list) option" where
  "get_ether_addr6 s0 ea = addr6_from 0 s0 ea"

text \<open>Four digits into a 16-bit word, the inner loop: \<open>w << 4\<close> is an \<open>int\<close> and cut to 16 bits.\<close>

fun word_digits :: "nat \<Rightarrow> u8 list \<Rightarrow> u16 \<Rightarrow> u16 option option" where
  "word_digits 0 s w = Some (Some w)"
| "word_digits (Suc j) s w = do {
     c \<leftarrow> nth_opt s 0;
     x \<leftarrow> Some (get_xdigit c);
     (if sint x < 0 then Some None else word_digits j (drop 1 s) (push_bit 4 w OR ucast x)) }"

function addr3_from :: "nat \<Rightarrow> u8 list \<Rightarrow> u8 list \<Rightarrow> (bool \<times> u8 list) option" where
  "addr3_from i s ea =
     (if i < RTE_ETHER_ADDR_LEN then do {
        w \<leftarrow> word_digits 4 s 0;
        (case w of None \<Rightarrow> Some (False, ea) | Some w \<Rightarrow> do {
           ea \<leftarrow> upd_opt ea i (ucast (drop_bit 8 w));
           ea \<leftarrow> upd_opt ea (i + 1) (ucast (w AND 0xFF));
           (if i < RTE_ETHER_ADDR_LEN - 2
            then do {
              c \<leftarrow> nth_opt s 4;
              (if c \<noteq> 0x3A then Some (False, ea) else addr3_from (i + 2) (drop 5 s) ea) }
            else addr3_from (i + 2) (drop 4 s) ea) }) }
      else do { c \<leftarrow> nth_opt s 0; Some (c = 0, ea) })"
  by pat_completeness auto
termination by (relation "measure (\<lambda>(i, _, _). RTE_ETHER_ADDR_LEN - i)") auto

declare addr3_from.simps [simp del]

definition get_ether_addr3 :: "u8 list \<Rightarrow> u8 list \<Rightarrow> (bool \<times> u8 list) option" where
  "get_ether_addr3 s ea = addr3_from 0 s ea"

text \<open>The address as left by the code, and the result.\<close>

definition rte_ether_unformat_addr :: "u8 list \<Rightarrow> u8 list \<Rightarrow> (u8 list \<times> int) option" where
  "rte_ether_unformat_addr s ea = do {
     (ok, ea) \<leftarrow> get_ether_addr6 s ea;
     (if ok then Some (ea, 0)
      else do {
        (ok, ea) \<leftarrow> get_ether_addr3 s ea;
        Some (ea, if ok then 0 else -1) }) }"

text \<open>The token: what is stored at \<open>res\<close>, and the result.\<close>

definition cmdline_parse_etheraddr :: "u8 list \<Rightarrow> nat option \<Rightarrow> (u8 list option \<times> int) option" where
  "cmdline_parse_etheraddr b res = do {
     (if (case res of None \<Rightarrow> False | Some ressize \<Rightarrow> ressize < RTE_ETHER_ADDR_LEN) then Some (None, -1)
      else do {
        c \<leftarrow> nth_opt b 0;
        (if c = 0 then Some (None, -1)
         else do {
           token_len \<leftarrow> scan cmdline_isendoftoken b;
           (if token_len \<ge> RTE_ETHER_ADDR_FMT_SIZE then Some (None, -1)
            else do {
              (ether_str, _) \<leftarrow> strlcpy (replicate RTE_ETHER_ADDR_FMT_SIZE 0) b (token_len + 1);
              (tmp, r) \<leftarrow> rte_ether_unformat_addr ether_str (replicate RTE_ETHER_ADDR_LEN 0);
              Some (if r < 0 then (None, -1) else (if res = None then None else Some tmp, int token_len)) }) }) }) }"

section \<open>The accepted strings\<close>

text \<open>The specification: six groups of two hexadecimal digits, or three of four, between colons.\<close>

definition is_hex :: "u8 \<Rightarrow> bool" where "is_hex c = is_digit 16 c"
definition hex_val :: "u8 \<Rightarrow> u8" where "hex_val c = of_nat (the (digit c))"
definition hex_byte :: "u8 \<Rightarrow> u8 \<Rightarrow> u8" where "hex_byte a b = push_bit 4 (hex_val a) OR hex_val b"

fun group_bytes :: "u8 list \<Rightarrow> u8 list" where
  "group_bytes (a # b # s) = hex_byte a b # group_bytes s"
| "group_bytes _ = []"

definition groups :: "nat \<Rightarrow> nat \<Rightarrow> u8 list \<Rightarrow> bool" where
  "groups n k t \<longleftrightarrow> length (split_on 0x3A t) = n \<and> (\<forall>p \<in> set (split_on 0x3A t). length p = k \<and> list_all is_hex p)"

definition ether_spec :: "u8 list \<Rightarrow> u8 list option" where
  "ether_spec t = (if groups 6 2 t \<or> groups 3 4 t then Some (concat (map group_bytes (split_on 0x3A t))) else None)"

lemma get_xdigit_eq: "get_xdigit c = (if is_hex c then hex_val c else - 1)"
  using byte_minus [of "0x30" c] byte_minus [of "0x61" c] byte_minus [of "0x41" c]
  by (auto simp: get_xdigit_def is_hex_def is_digit_def hex_val_def digit_def word_le_nat_alt)

lemma hex_val_bound: "is_hex c \<Longrightarrow> unat (hex_val c) < 16"
  using digit_bound [of c] by (auto simp: is_hex_def is_digit_def hex_val_def unat_of_nat split: option.splits)

lemma hex_val_uint: "is_hex c \<Longrightarrow> uint (hex_val c) < 16"
  using hex_val_bound [of c] by (metis of_nat_less_numeral_iff uint_nat)

lemma hex_sign: "is_hex c \<Longrightarrow> \<not> sint (hex_val c) < 0"
proof -
  assume "is_hex c"
  then have u: "uint (hex_val c) < 16" by (rule hex_val_uint)
  have "sint (hex_val c) = signed_take_bit 7 (uint (hex_val c))" by (simp add: sint_uint)
  also have "\<dots> = uint (hex_val c)"
    by (rule signed_take_bit_int_eq_self) (use u order_trans [OF _ uint_ge_0 [of "hex_val c"]] in simp_all)
  finally show ?thesis by simp
qed

lemma hex_val_bits: "is_hex c \<Longrightarrow> bit (hex_val c) n \<Longrightarrow> n < 4"
proof (rule ccontr)
  assume h: "is_hex c" "bit (hex_val c) n" "\<not> n < 4"
  have "bit (uint (hex_val c)) n" using h(2) bit_imp_le_length [OF h(2)] by (simp add: bit_uint_iff)
  moreover have "take_bit 4 (uint (hex_val c)) = uint (hex_val c)"
    using hex_val_uint [OF h(1)] by (intro take_bit_int_eq_self) simp_all
  ultimately show False using h(3) by (metis bit_take_bit_iff)
qed

lemma hex_seps: "\<not> is_hex 0" "\<not> is_hex 0x3A"
  by (simp_all add: is_hex_def is_digit_def digit_def)

text \<open>A string in groups is a group, and a colon and groups, if it is not the last one.\<close>

lemma groups_Suc:
  "groups (Suc n) k t \<longleftrightarrow> k \<le> length t \<and> list_all is_hex (take k t) \<and>
     (if n = 0 then drop k t = [] else \<exists>r. drop k t = 0x3A # r \<and> groups n k r)"
proof (cases t rule: split_on_cases [where c = "0x3A"])
  case one
  have "drop k t \<noteq> 0x3A # r" for r using one by (metis in_set_dropD list.set_intros(1))
  then show ?thesis using split_on_none [OF one] by (auto simp: groups_def)
next
  case (more a r)
  have s: "split_on 0x3A t = a # split_on 0x3A r" using split_on_first [OF more(2)] more(1) by simp
  have k: "k = length a" if "k \<le> length t" "list_all is_hex (take k t)" "drop k t = [] \<or> (\<exists>q. drop k t = 0x3A # q)"
  proof -
    have "k \<le> length a"
    proof (rule ccontr)
      assume "\<not> k \<le> length a"
      then have "0x3A \<in> set (take k t)" using more(1) by (cases "k - length a") auto
      then show False using that(2) hex_seps by (auto simp: list_all_iff)
    qed
    moreover have "\<not> k < length a"
    proof
      assume l: "k < length a"
      then obtain y ys where y: "drop k a = y # ys" by (cases "drop k a") auto
      then have "y \<in> set a" by (metis in_set_dropD list.set_intros(1))
      then show False using that(3) more y l by auto
    qed
    ultimately show ?thesis by simp
  qed
  show ?thesis
  proof (intro iffI)
    assume "groups (Suc n) k t"
    then have g: "length (split_on 0x3A r) = n" "length a = k" "list_all is_hex a"
      "\<forall>p \<in> set (split_on 0x3A r). length p = k \<and> list_all is_hex p" by (simp_all add: groups_def s)
    then show "k \<le> length t \<and> list_all is_hex (take k t) \<and>
      (if n = 0 then drop k t = [] else \<exists>r. drop k t = 0x3A # r \<and> groups n k r)"
      using more(1) split_on_ne [of "0x3A" r] by (auto simp: groups_def)
  next
    assume R: "k \<le> length t \<and> list_all is_hex (take k t) \<and>
      (if n = 0 then drop k t = [] else \<exists>r. drop k t = 0x3A # r \<and> groups n k r)"
    then have kl: "k = length a" using k by (auto split: if_splits)
    then show "groups (Suc n) k t" using R more s by (auto simp: groups_def split_on_first split: if_splits)
  qed
qed

lemma groups_length: "groups (Suc n) k t \<Longrightarrow> length t = Suc n * k + n"
proof (induction n arbitrary: t)
  case (Suc n)
  then obtain r where r: "k \<le> length t" "drop k t = 0x3A # r" "groups (Suc n) k r" by (auto simp: groups_Suc [of "Suc n"])
  have "length t - k = Suc (length r)" using arg_cong [OF r(2), of length] by simp
  moreover have "length r = Suc n * k + n" by (rule Suc.IH [OF r(3)])
  ultimately show ?case using r(1) by (simp add: algebra_simps)
next
  case 0
  then have "k \<le> length t" "drop k t = []" by (simp_all add: groups_Suc)
  then show ?case by simp
qed

lemma split_on_group:
  assumes "list_all is_hex p"
  shows "split_on 0x3A p = [p]" "split_on 0x3A (p @ 0x3A # r) = p # split_on 0x3A r"
proof -
  have "0x3A \<notin> set p" using assms hex_seps by (auto simp: list_all_iff)
  then show "split_on 0x3A p = [p]" "split_on 0x3A (p @ 0x3A # r) = p # split_on 0x3A r"
    by (auto intro: split_on_none split_on_first)
qed

definition group_concat :: "u8 list \<Rightarrow> u8 list" where
  "group_concat t = concat (map group_bytes (split_on 0x3A t))"

lemma group_concat_simps:
  "list_all is_hex p \<Longrightarrow> group_concat p = group_bytes p"
  "list_all is_hex p \<Longrightarrow> group_concat (p @ 0x3A # r) = group_bytes p @ group_concat r"
  by (simp_all add: group_concat_def split_on_group)

section \<open>The loops\<close>

lemma addr6_step:
  assumes "i < 6" "length ea = 6"
  shows "\<not> is_hex a \<Longrightarrow> addr6_from i (a # s) ea = Some (False, ea)"
    and "is_hex a \<Longrightarrow> \<not> is_hex b \<Longrightarrow> addr6_from i (a # b # s) ea = Some (False, ea[i := push_bit 4 (hex_val a)])"
    and "is_hex a \<Longrightarrow> is_hex b \<Longrightarrow> addr6_from i (a # b # c # s) ea =
      (if i < 5 then if c \<noteq> 0x3A then Some (False, ea[i := hex_byte a b]) else addr6_from (i + 1) s (ea[i := hex_byte a b])
       else addr6_from (i + 1) (c # s) (ea[i := hex_byte a b]))"
  using assms hex_sign [of a] hex_sign [of b]
  by (subst addr6_from.simps,
    simp add: RTE_ETHER_ADDR_LEN_def nth_opt_def upd_opt_def get_xdigit_eq hex_byte_def)+

definition loop_ok :: "nat \<Rightarrow> nat \<Rightarrow> u8 list \<Rightarrow> u8 list \<Rightarrow> nat \<Rightarrow> (bool \<times> u8 list) option \<Rightarrow> bool" where
  "loop_ok n k t ea i out \<longleftrightarrow> (\<exists>ok ea'. out = Some (ok, ea') \<and> length ea' = 6 \<and> (ok \<longleftrightarrow> groups n k t) \<and>
     (ok \<longrightarrow> ea' = take i ea @ group_concat t))"

lemma loop_fails: "length ea' = 6 \<Longrightarrow> \<not> groups n k t \<Longrightarrow> loop_ok n k t ea i (Some (False, ea'))"
  by (auto simp: loop_ok_def)

lemma addr6_end: "addr6_from 6 (c # s) ea = Some (c = 0, ea)"
  by (subst addr6_from.simps) (simp add: RTE_ETHER_ADDR_LEN_def nth_opt_def)

lemma groups2: "groups (Suc n) 2 [] = False" "groups (Suc n) 2 [a] = False"
  "groups (Suc n) 2 (a # b # s) \<longleftrightarrow> is_hex a \<and> is_hex b \<and>
     (if n = 0 then s = [] else \<exists>r. s = 0x3A # r \<and> groups n 2 r)"
  by (simp_all add: groups_Suc)

lemma addr6_groups:
  assumes "0 \<notin> set t" "length ea = 6" "i + Suc n = 6"
  shows "loop_ok (Suc n) 2 t ea i (addr6_from i (t @ 0 # r) ea)"
  using assms
proof (induction n arbitrary: i t ea)
  case (0 i t ea)
  consider "t = []" | a where "t = [a]" | a b s where "t = a # b # s" by (metis list.exhaust)
  then show ?case
  proof cases
    case 1
    then show ?thesis using 0 addr6_step(1) [of i ea 0 r] hex_seps by (simp add: loop_fails groups2)
  next
    case 2
    then show ?thesis using 0 addr6_step(1) [of i ea a "0 # r"] addr6_step(2) [of i ea a 0 r] hex_seps
      by (cases "is_hex a") (simp_all add: loop_fails groups2)
  next
    case 3
    obtain c s' where c: "s @ 0 # r = c # s'" "c = 0 \<longleftrightarrow> s = []" using 0(1) 3 by (cases s) auto
    consider "\<not> is_hex a" | "is_hex a" "\<not> is_hex b" | "is_hex a" "is_hex b" by blast
    then show ?thesis
    proof cases
      case h: 3
      have i: "i = 5" using 0(3) by simp
      have "addr6_from i (t @ 0 # r) ea = Some (s = [], ea[5 := hex_byte a b])"
        using addr6_step(3) [of i ea a b c s'] h 3 i 0(2) c addr6_end [of c s'] by simp
      moreover have "ea[5 := hex_byte a b] = take 5 ea @ [hex_byte a b]"
        using 0(2) by (simp add: upd_conv_take_nth_drop)
      ultimately show ?thesis using h 3 0(2) i group_concat_simps(1) [of "[a, b]"]
        by (auto simp: loop_ok_def groups2)
    qed (use 3 0 addr6_step(1) [of i ea a] addr6_step(2) [of i ea a b] in \<open>simp_all add: loop_fails groups2\<close>)
  qed
next
  case (Suc n i t ea)
  consider "t = []" | a where "t = [a]" | a b s where "t = a # b # s" by (metis list.exhaust)
  then show ?case
  proof cases
    case 1
    then show ?thesis using Suc addr6_step(1) [of i ea 0 r] hex_seps by (simp add: loop_fails groups2)
  next
    case 2
    then show ?thesis using Suc addr6_step(1) [of i ea a "0 # r"] addr6_step(2) [of i ea a 0 r] hex_seps
      by (cases "is_hex a") (simp_all add: loop_fails groups2)
  next
    case 3
    obtain c s' where c: "s @ 0 # r = c # s'" by (cases s) auto
    consider "\<not> is_hex a" | "is_hex a" "\<not> is_hex b" | "is_hex a" "is_hex b" by blast
    then show ?thesis
    proof cases
      case h: 3
      let ?ea = "ea[i := hex_byte a b]"
      have E: "addr6_from i (t @ 0 # r) ea = (if c \<noteq> 0x3A then Some (False, ?ea) else addr6_from (i + 1) s' ?ea)"
        using addr6_step(3) [of i ea a b c s'] h 3 Suc.prems c by simp
      show ?thesis
      proof (cases "c = 0x3A")
        case False
        then have "\<not> groups (Suc (Suc n)) 2 t" using c 3 by (auto simp: groups2)
        then show ?thesis using E False Suc.prems(2) by (simp add: loop_fails)
      next
        case True
        then obtain s2 where s2: "s = 0x3A # s2" "s' = s2 @ 0 # r" using c by (cases s) auto
        have "loop_ok (Suc n) 2 s2 ?ea (i + 1) (addr6_from (i + 1) (s2 @ 0 # r) ?ea)"
          by (rule Suc.IH) (use Suc.prems 3 s2 in auto)
        moreover have "take (i + 1) ?ea = take i ea @ [hex_byte a b]"
          using Suc.prems by (simp add: take_Suc_conv_app_nth)
        ultimately show ?thesis using E True s2 3 h group_concat_simps(2) [of "[a, b]" s2]
          by (auto simp: loop_ok_def groups2)
      qed
    qed (use 3 Suc.prems addr6_step(1) [of i ea a] addr6_step(2) [of i ea a b] in \<open>simp_all add: loop_fails groups2\<close>)
  qed
qed

lemma word_digits_eq:
  assumes "0 \<notin> set t"
  shows "word_digits j (t @ 0 # r) w = Some (if j \<le> length t \<and> list_all is_hex (take j t)
    then Some (foldl (\<lambda>w c. push_bit 4 w OR ucast (hex_val c)) w (take j t)) else None)"
  using assms
proof (induction j arbitrary: t w)
  case (Suc j)
  show ?case
  proof (cases t)
    case Nil
    then show ?thesis using hex_seps by (simp add: nth_opt_def get_xdigit_eq)
  next
    case (Cons c t')
    then show ?thesis using Suc.prems Suc.IH [of t'] hex_sign [of c]
      by (simp add: nth_opt_def get_xdigit_eq)
  qed
qed simp

lemma word_of_digits:
  assumes "is_hex a" "is_hex b" "is_hex c" "is_hex d"
  defines "w \<equiv> foldl (\<lambda>w c. push_bit 4 w OR ucast (hex_val c)) (0 :: u16) [a, b, c, d]"
  shows "ucast (drop_bit 8 w) = hex_byte a b" "ucast (w AND 0xFF) = hex_byte c d"
proof -
  have z: "\<not> bit (hex_val c) (4 + n)" "\<not> bit (hex_val d) (8 + n)" for n
    using hex_val_bits [OF assms(3), of "4 + n"] hex_val_bits [OF assms(4), of "8 + n"] by auto
  have ff: "bit (0xFF :: u16) n \<longleftrightarrow> n < 8" for n
    using bit_mask_iff [where 'a = u16, of 8 n] by (auto simp: mask_eq_exp_minus_1)
  have ff8: "bit (0xFF :: int) n \<longleftrightarrow> n < 8" for n
    using bit_mask_iff [where 'a = int, of 8 n] by (auto simp: mask_eq_exp_minus_1)
  show "ucast (drop_bit 8 w) = hex_byte a b"
    by (rule bit_word_eqI) (auto simp: w_def hex_byte_def bit_simps z)
  show "ucast (w AND 0xFF) = hex_byte c d"
    by (rule bit_word_eqI) (auto simp: w_def hex_byte_def bit_simps ff ff8)
qed

lemma addr3_step:
  assumes "i + 1 < 6" "length ea = 6" "0 \<notin> set t"
  shows "\<not> (4 \<le> length t \<and> list_all is_hex (take 4 t)) \<Longrightarrow> addr3_from i (t @ 0 # r) ea = Some (False, ea)"
    and "t = [a, b, c, d] @ s \<Longrightarrow> list_all is_hex [a, b, c, d] \<Longrightarrow> s @ 0 # r = x # s' \<Longrightarrow>
      addr3_from i (t @ 0 # r) ea = (let ea = ea[i := hex_byte a b, i + 1 := hex_byte c d] in
        if i < 4 then if x \<noteq> 0x3A then Some (False, ea) else addr3_from (i + 2) s' ea
        else addr3_from (i + 2) (x # s') ea)"
proof -
  show "\<not> (4 \<le> length t \<and> list_all is_hex (take 4 t)) \<Longrightarrow> addr3_from i (t @ 0 # r) ea = Some (False, ea)"
    using assms(1) by (subst addr3_from.simps)
      (simp only: RTE_ETHER_ADDR_LEN_def word_digits_eq [OF assms(3)] if_not_P bind.simps option.simps, simp)
  assume t: "t = [a, b, c, d] @ s" "list_all is_hex [a, b, c, d]" "s @ 0 # r = x # s'"
  let ?w = "foldl (\<lambda>w c. push_bit 4 w OR ucast (hex_val c)) (0 :: u16) [a, b, c, d]"
  have w: "word_digits 4 (t @ 0 # r) 0 = Some (Some ?w)"
    unfolding word_digits_eq [OF assms(3)] using t by (simp add: numeral_eq_Suc)
  note b = word_of_digits [of a b c d]
  have n: "nth_opt (t @ 0 # r) 4 = Some x" "drop 5 (t @ 0 # r) = s'" "drop 4 (t @ 0 # r) = x # s'"
    using t(1,3) by (simp_all add: nth_opt_def)
  have b2: "ucast (drop_bit 8 ?w) = hex_byte a b" "ucast (?w AND 0xFF) = hex_byte c d"
    using b t(2) by simp_all
  show "addr3_from i (t @ 0 # r) ea = (let ea = ea[i := hex_byte a b, i + 1 := hex_byte c d] in
        if i < 4 then if x \<noteq> 0x3A then Some (False, ea) else addr3_from (i + 2) s' ea
        else addr3_from (i + 2) (x # s') ea)"
    using assms(1,2)
    by (subst addr3_from.simps) (simp add: RTE_ETHER_ADDR_LEN_def w n b2 upd_opt_def Let_def del: foldl_Cons drop_append)
qed

lemma addr3_end: "addr3_from 6 (c # s) ea = Some (c = 0, ea)"
  by (subst addr3_from.simps) (simp add: RTE_ETHER_ADDR_LEN_def nth_opt_def)

lemma four_hex:
  assumes "4 \<le> length t"
  obtains a b c d s where "t = [a, b, c, d] @ s"
  using assms by (auto simp: numeral_eq_Suc Suc_le_length_iff)

lemma addr3_groups:
  assumes "0 \<notin> set t" "length ea = 6" "i + 2 * Suc n = 6"
  shows "loop_ok (Suc n) 4 t ea i (addr3_from i (t @ 0 # r) ea)"
  using assms
proof (induction n arbitrary: i t ea)
  case (0 i t ea)
  have i: "i = 4" using 0(3) by simp
  show ?case
  proof (cases "4 \<le> length t \<and> list_all is_hex (take 4 t)")
    case False
    then have "\<not> groups (Suc 0) 4 t" by (auto simp: groups_Suc)
    then show ?thesis using False 0 addr3_step(1) [of i ea t r] by (simp add: loop_fails)
  next
    case True
    then obtain a b c d s where t: "t = [a, b, c, d] @ s" using four_hex by blast
    obtain x s' where x: "s @ 0 # r = x # s'" "x = 0 \<longleftrightarrow> s = []" using 0(1) t by (cases s) auto
    have h: "list_all is_hex [a, b, c, d]" using True t by simp
    have "addr3_from i (t @ 0 # r) ea = Some (s = [], ea[4 := hex_byte a b, 5 := hex_byte c d])"
      using addr3_step(2) [OF _ 0(2,1) t h x(1), of i] i x(2) by (simp add: addr3_end Let_def)
    moreover have "ea[4 := hex_byte a b, 5 := hex_byte c d] = take 4 ea @ [hex_byte a b, hex_byte c d]"
      using 0(2) by (simp add: numeral_eq_Suc length_Suc_conv) auto
    ultimately show ?thesis using 0(2) h t i group_concat_simps(1) [OF h]
      by (auto simp: loop_ok_def groups_Suc)
  qed
next
  case (Suc n i t ea)
  show ?case
  proof (cases "4 \<le> length t \<and> list_all is_hex (take 4 t)")
    case False
    then have "\<not> groups (Suc (Suc n)) 4 t" by (auto simp: groups_Suc [of "Suc n"])
    then show ?thesis using False Suc.prems addr3_step(1) [of i ea t r] by (simp add: loop_fails)
  next
    case True
    then obtain a b c d s where t: "t = [a, b, c, d] @ s" using four_hex by blast
    obtain x s' where x: "s @ 0 # r = x # s'" by (cases s) auto
    have h: "list_all is_hex [a, b, c, d]" using True t by simp
    let ?ea = "ea[i := hex_byte a b, i + 1 := hex_byte c d]"
    have E: "addr3_from i (t @ 0 # r) ea = (if x \<noteq> 0x3A then Some (False, ?ea) else addr3_from (i + 2) s' ?ea)"
      using addr3_step(2) [OF _ Suc.prems(2,1) t h x, of i] Suc.prems(3) by (simp add: Let_def)
    have G: "groups (Suc (Suc n)) 4 t \<longleftrightarrow> (\<exists>r. s = 0x3A # r \<and> groups (Suc n) 4 r)"
      using True t by (simp add: groups_Suc [of "Suc n"])
    show ?thesis
    proof (cases "x = 0x3A")
      case False
      then have "\<not> groups (Suc (Suc n)) 4 t" using G x by auto
      then show ?thesis using E False Suc.prems(2) by (simp add: loop_fails)
    next
      case True
      then obtain s2 where s2: "s = 0x3A # s2" "s' = s2 @ 0 # r" using x by (cases s) auto
      have "loop_ok (Suc n) 4 s2 ?ea (i + 2) (addr3_from (i + 2) (s2 @ 0 # r) ?ea)"
        by (rule Suc.IH) (use Suc.prems t s2 in auto)
      moreover have "take (i + 2) ?ea = take i ea @ [hex_byte a b, hex_byte c d]"
        using Suc.prems by (simp add: take_Suc_conv_app_nth)
      moreover have "group_concat t = [hex_byte a b, hex_byte c d] @ group_concat s2"
        using group_concat_simps(2) [OF h, of s2] t s2 by simp
      ultimately show ?thesis using E True s2 G by (auto simp: loop_ok_def)
    qed
  qed
qed

section \<open>Strings and addresses\<close>

text \<open>The code accepts the strings of the specification and no others.\<close>

lemma unformat_spec:
  assumes "0 \<notin> set t" "length ea = 6"
  shows "\<exists>ea'. rte_ether_unformat_addr (t @ 0 # r) ea =
    Some (case ether_spec t of Some a \<Rightarrow> (a, 0) | None \<Rightarrow> (ea', -1)) \<and> length ea' = 6"
proof -
  obtain ok6 ea6 where six: "get_ether_addr6 (t @ 0 # r) ea = Some (ok6, ea6)" "length ea6 = 6"
      "ok6 \<longleftrightarrow> groups 6 2 t" "ok6 \<longrightarrow> ea6 = group_concat t"
    using addr6_groups [OF assms, of 0 5 r] by (auto simp: loop_ok_def get_ether_addr6_def)
  obtain ok3 ea3 where three: "get_ether_addr3 (t @ 0 # r) ea6 = Some (ok3, ea3)" "length ea3 = 6"
      "ok3 \<longleftrightarrow> groups 3 4 t" "ok3 \<longrightarrow> ea3 = group_concat t"
    using addr3_groups [OF assms(1) six(2), of 0 2 r] by (auto simp: loop_ok_def get_ether_addr3_def)
  show ?thesis
    using six three by (cases ok6; cases ok3)
      (auto simp: rte_ether_unformat_addr_def ether_spec_def group_concat_def [symmetric])
qed

lemma length_group_bytes: "length (group_bytes p) = length p div 2"
  by (induction p rule: group_bytes.induct) simp_all

lemma length_groups: "\<forall>p \<in> set ps. length p = k \<Longrightarrow> length (concat (map group_bytes ps)) = length ps * (k div 2)"
  by (induction ps) (simp_all add: length_group_bytes)

lemma ether_spec_length: "ether_spec t = Some a \<Longrightarrow> length a = 6"
  using length_groups [of "split_on 0x3A t" 2] length_groups [of "split_on 0x3A t" 4]
  by (auto simp: ether_spec_def groups_def split: if_splits)

lemma hex_char_digit: "unat d < 16 \<Longrightarrow> is_hex (hex_char d) \<and> hex_val (hex_char d) = d"
proof -
  assume d: "unat d < 16"
  have u: "unat (0x30 + d) = 0x30 + unat d" "10 \<le> unat d \<Longrightarrow> unat (0x41 + (d - 10)) = 0x41 + (unat d - 10)"
    using d by (simp_all add: unat_word_ariths unat_sub_if')
  show ?thesis
  proof (cases "d < 10")
    case True
    then have "unat d < 10" by (simp add: word_less_nat_alt)
    then have "digit (hex_char d) = Some (unat d)"
      using True u by (simp add: hex_char_def digit_def word_le_nat_alt)
    then show ?thesis using d by (simp add: is_hex_def is_digit_def hex_val_def)
  next
    case False
    then have g: "10 \<le> unat d" by (simp add: word_less_nat_alt)
    then have "digit (hex_char d) = Some (unat d)"
      using False u(2) [OF g] d g by (simp add: hex_char_def digit_def word_le_nat_alt)
    then show ?thesis using d by (simp add: is_hex_def is_digit_def hex_val_def)
  qed
qed

lemma fmt_02X_byte: "list_all is_hex (fmt_02X b)" "group_bytes (fmt_02X b) = [b]" "length (fmt_02X b) = 2" "0 \<notin> set (fmt_02X b)"
proof -
  have "unat b < 2 ^ 8" using unsigned_less [of b] by simp
  then have hi: "unat (drop_bit 4 b) < 16" by (simp add: drop_bit_eq_div unat_div)
  have lo: "unat (b AND 0x0F) < 16"
  proof -
    have "b AND 0x0F \<le> 0x0F" by (rule word_and_le1)
    then show ?thesis by (simp add: word_le_nat_alt)
  qed
  note h = hex_char_digit [OF hi] hex_char_digit [OF lo]
  have "push_bit 4 (drop_bit 4 b) OR b AND 0x0F = b"
  proof (rule bit_word_eqI)
    fix n
    have "bit (0x0F :: u8) n \<longleftrightarrow> n < 4" using bit_mask_iff [where 'a = u8, of 4 n] by (auto simp: mask_eq_exp_minus_1)
    then show "bit (push_bit 4 (drop_bit 4 b) OR b AND 0x0F) n = bit b n" if "n < LENGTH(8)" using that by (auto simp: bit_simps)
  qed
  then show "list_all is_hex (fmt_02X b)" "group_bytes (fmt_02X b) = [b]" "length (fmt_02X b) = 2"
    using h by (simp_all add: fmt_02X_def hex_byte_def)
  then show "0 \<notin> set (fmt_02X b)" using hex_seps(1) by (auto simp: list_all_iff)
qed

lemma split_join: "ps \<noteq> [] \<Longrightarrow> \<forall>p \<in> set ps. list_all is_hex p \<Longrightarrow> split_on 0x3A (join_colon ps) = ps"
  by (induction ps rule: join_colon.induct) (simp_all add: split_on_group)

lemma ether_spec_format:
  assumes "length bs = 6"
  shows "ether_spec (join_colon (map fmt_02X bs)) = Some bs"
proof -
  have "split_on 0x3A (join_colon (map fmt_02X bs)) = map fmt_02X bs"
    using assms fmt_02X_byte(1) by (intro split_join) auto
  moreover have "concat (map (group_bytes \<circ> fmt_02X) bs) = bs" by (induction bs) (simp_all add: fmt_02X_byte(2))
  ultimately show ?thesis using assms fmt_02X_byte(1,3) by (simp add: ether_spec_def groups_def)
qed

lemma format_text: "0 \<notin> set (join_colon (map fmt_02X bs))"
  "bs \<noteq> [] \<Longrightarrow> length (join_colon (map fmt_02X bs)) = 3 * length bs - 1"
  using fmt_02X_byte(3,4) by (induction bs rule: induct_list012) auto

text \<open>
  C29: Reading back what \<open>rte_ether_format_addr\<close> printed into a buffer of \<open>RTE_ETHER_ADDR_FMT_SIZE\<close> characters or
  more gives the address again.
\<close>
theorem unformat_format:
  assumes "length (addr_bytes a) = RTE_ETHER_ADDR_LEN" "RTE_ETHER_ADDR_FMT_SIZE \<le> sz" "sz \<le> length b"
    and "length ea = RTE_ETHER_ADDR_LEN"
  shows "\<exists>out. rte_ether_format_addr b sz a = Some out \<and> length out = length b \<and>
    rte_ether_unformat_addr out ea = Some (addr_bytes a, 0)"
proof -
  let ?t = "join_colon (map fmt_02X (addr_bytes a))"
  have len: "length (addr_bytes a) = 6" "18 \<le> sz" "length ea = 6"
    using assms by (simp_all add: RTE_ETHER_ADDR_LEN_def RTE_ETHER_ADDR_FMT_SIZE_def)
  have "addr_bytes a \<noteq> []" using len(1) by auto
  then have t: "length ?t = 17" using format_text(2) [of "addr_bytes a"] len(1) by simp
  have "rte_ether_format_addr b sz a = Some (?t @ 0 # drop 18 b)"
    using strlcpy_text [OF format_text(1) [of "addr_bytes a"] assms(3), of "[]"] len(2) t
    by (auto simp: rte_ether_format_addr_def min_def)
  then show ?thesis
    using unformat_spec [OF format_text(1) [of "addr_bytes a"] len(3), of "drop 18 b"] ether_spec_format [OF len(1)]
      t len(2) assms(3) by auto
qed

lemma unformat_format_witness:
  "\<exists>out. rte_ether_format_addr (replicate 18 0) 18 \<lparr>addr_bytes = [0, 0x1B, 2, 3, 0xFF, 5]\<rparr> = Some out \<and>
    length out = 18 \<and> rte_ether_unformat_addr out (replicate 6 0) = Some ([0, 0x1B, 2, 3, 0xFF, 5], 0)"
  using unformat_format [of "\<lparr>addr_bytes = [0, 0x1B, 2, 3, 0xFF, 5]\<rparr>" 18 "replicate 18 0" "replicate 6 0"]
  by (simp add: RTE_ETHER_ADDR_LEN_def RTE_ETHER_ADDR_FMT_SIZE_def)

text \<open>
  C30: The address token is accepted exactly when it is six groups of two hexadecimal digits or three of four,
  between colons, and there is room; the six bytes are stored and the length of the token is returned.
\<close>
theorem cmdline_parse_etheraddr_spec:
  assumes t: "list_all (\<lambda>c. \<not> cmdline_isendoftoken c) t" and e: "cmdline_isendoftoken e" "0 \<in> set (e # rest)"
  shows "cmdline_parse_etheraddr (t @ e # rest) res = Some (case ether_spec t of
      None \<Rightarrow> (None, -1)
    | Some bs \<Rightarrow> if (case res of None \<Rightarrow> False | Some n \<Rightarrow> n < 6) then (None, -1)
        else (if res = None then None else Some bs, int (length t)))"
proof -
  have t0: "0 \<notin> set t" using t by (auto simp: list_all_iff cmdline_isendoftoken_def)
  note hd = token_hd [of t e rest]
  have hd0: "hd (t @ [e]) = 0 \<longleftrightarrow> t = [] \<and> e = 0" using t0 by (cases t) auto
  note sc = scan_found [OF t e(1), of rest]
  have none: "ether_spec [] = None" by (simp add: ether_spec_def groups_def)
  have len: "ether_spec t = None" if "18 \<le> length t"
  proof -
    have "length t < 18" if "groups 6 2 t \<or> groups 3 4 t"
      using that groups_length [of 5 2 t] groups_length [of 2 4 t] by auto
    then show ?thesis using \<open>18 \<le> length t\<close> by (auto simp: ether_spec_def)
  qed
  show ?thesis
  proof (cases "length t < 18")
    case False
    then show ?thesis using hd sc len
      by (auto simp: cmdline_parse_etheraddr_def RTE_ETHER_ADDR_FMT_SIZE_def RTE_ETHER_ADDR_LEN_def simp del: nth_opt_Some split: option.splits)
  next
    case True
    obtain pad k where cp: "strlcpy (replicate 18 0) (t @ e # rest) (length t + 1) = Some (t @ 0 # pad, k)"
      using token_copy [OF t0 e(2) True] by blast
    obtain ea' where u: "rte_ether_unformat_addr (t @ 0 # pad) (replicate 6 0) =
        Some (case ether_spec t of Some a \<Rightarrow> (a, 0) | None \<Rightarrow> (ea', -1))"
      using unformat_spec [OF t0, of "replicate 6 0" pad] by auto
    show ?thesis using hd hd0 sc True cp u none
      by (cases "t = [] \<and> e = 0"; cases res; cases "ether_spec t")
        (auto simp: cmdline_parse_etheraddr_def RTE_ETHER_ADDR_FMT_SIZE_def RTE_ETHER_ADDR_LEN_def simp del: nth_opt_Some)
  qed
qed

text \<open>\<open>00:11:22:33:44:5F\<close> and \<open>0011:2233:445F\<close>.\<close>
lemma cmdline_parse_etheraddr_spec_witness:
  "cmdline_parse_etheraddr [0x30, 0x30, 0x31, 0x31, 0x3A, 0x32, 0x32, 0x33, 0x33, 0x3A, 0x34, 0x34, 0x35, 0x46, 0]
     (Some 6) = Some (Some [0, 0x11, 0x22, 0x33, 0x44, 0x5F], 14)"
proof -
  have "ether_spec [0x30, 0x30, 0x31, 0x31, 0x3A, 0x32, 0x32, 0x33, 0x33, 0x3A, 0x34, 0x34, 0x35, 0x46]
      = Some [0, 0x11, 0x22, 0x33, 0x44, 0x5F]"
    by (simp add: ether_spec_def groups_def is_hex_def is_digit_def digit_def hex_byte_def hex_val_def)
  then show ?thesis
    using cmdline_parse_etheraddr_spec [of "[0x30, 0x30, 0x31, 0x31, 0x3A, 0x32, 0x32, 0x33, 0x33, 0x3A, 0x34, 0x34, 0x35, 0x46]"
        0 "[]" "Some 6"]
    by (simp add: cmdline_isendoftoken_def iscomment_def cmdline_isblank2_def isendofline_def)
qed

end
