(* ===== verification/Parse_Ipaddr.thy ===== *)
theory Parse_Ipaddr
  imports Cstring Parse_Num
begin

text \<open>
  The IP address token of the command line library: \<open>lib/cmdline/cmdline_parse_ipaddr.c\<close> and the flags its
  header gives the tokens. \<open>inet_pton\<close> of the operating system is a pair of arguments: the bytes of an
  IPv4 and of an IPv6 address for a string, if it is one. \<open>res\<close> is \<open>None\<close> for the null pointer or the size of
  the memory it points to; the result has the structure that is stored, if one is. The union of the two
  kinds of address is the bytes written to it.
\<close>

section \<open>The parser\<close>

definition CMDLINE_IPADDR_V4 :: u8 where "CMDLINE_IPADDR_V4 = 0x01"
definition CMDLINE_IPADDR_V6 :: u8 where "CMDLINE_IPADDR_V6 = 0x02"
definition CMDLINE_IPADDR_NETWORK :: u8 where "CMDLINE_IPADDR_NETWORK = 0x04"

text \<open>The flags that \<open>TOKEN_IPADDR_INITIALIZER\<close> and the others give a token.\<close>

definition TOKEN_IPADDR_flags :: u8 where "TOKEN_IPADDR_flags = CMDLINE_IPADDR_V4 OR CMDLINE_IPADDR_V6"
definition TOKEN_IPV4_flags :: u8 where "TOKEN_IPV4_flags = CMDLINE_IPADDR_V4"
definition TOKEN_IPV6_flags :: u8 where "TOKEN_IPV6_flags = CMDLINE_IPADDR_V6"
definition TOKEN_IPNET_flags :: u8 where "TOKEN_IPNET_flags = CMDLINE_IPADDR_V4 OR CMDLINE_IPADDR_V6 OR CMDLINE_IPADDR_NETWORK"
definition TOKEN_IPV4NET_flags :: u8 where "TOKEN_IPV4NET_flags = CMDLINE_IPADDR_V4 OR CMDLINE_IPADDR_NETWORK"
definition TOKEN_IPV6NET_flags :: u8 where "TOKEN_IPV6NET_flags = CMDLINE_IPADDR_V4 OR CMDLINE_IPADDR_NETWORK"

definition AF_INET :: u8 where "AF_INET = 2"
definition AF_INET6 :: u8 where "AF_INET6 = 10"

record cmdline_ipaddr =
  family :: u8
  addr :: "u8 list"
  prefixlen :: u32

definition sizeof_ipaddr :: nat where "sizeof_ipaddr = 24"
definition INET6_ADDRSTRLEN :: nat where "INET6_ADDRSTRLEN = 46"
definition PREFIXMAX :: int where "PREFIXMAX = 128"
definition V4PREFIXMAX :: int where "V4PREFIXMAX = 32"

text \<open>The address without the prefix and the length of the prefix; the inner \<open>None\<close> is an error.\<close>

definition convert_prefix :: "u8 \<Rightarrow> u8 list \<Rightarrow> (u8 list \<times> int) option option" where
  "convert_prefix flags ip_str =
     (if flags AND CMDLINE_IPADDR_NETWORK \<noteq> 0
      then do {
        slash \<leftarrow> strrchr ip_str 0x2F;
        (case slash of
           None \<Rightarrow> Some None
         | Some s \<Rightarrow> do {
             ip \<leftarrow> upd_opt ip_str (length ip_str - length s) 0;
             (v, err, stop) \<leftarrow> strtol (tl s);
             c \<leftarrow> nth_opt stop 0;
             Some (if err \<or> c \<noteq> 0 \<or> v < 0 \<or> v > PREFIXMAX then None else Some (ip, v)) }) }
      else Some (Some (ip_str, 0)))"

definition cmdline_parse_ipaddr ::
  "(u8 list \<Rightarrow> u8 list option) \<Rightarrow> (u8 list \<Rightarrow> u8 list option) \<Rightarrow> u8 \<Rightarrow> u8 list \<Rightarrow> nat option \<Rightarrow> (cmdline_ipaddr option \<times> int) option" where
  "cmdline_parse_ipaddr pton4 pton6 flags b res =
     (if (case res of None \<Rightarrow> False | Some ressize \<Rightarrow> ressize < sizeof_ipaddr) then Some (None, -1)
      else do {
        c \<leftarrow> nth_opt b 0;
        (if c = 0 then Some (None, -1)
         else do {
           token_len \<leftarrow> scan cmdline_isendoftoken b;
           (if token_len \<ge> INET6_ADDRSTRLEN + 4 then Some (None, -1)
            else do {
              (ip_str, _) \<leftarrow> strlcpy (replicate (INET6_ADDRSTRLEN + 4 + 1) 0) b (token_len + 1);
              p \<leftarrow> convert_prefix flags ip_str;
              Some (case p of
                  None \<Rightarrow> (None, -1)
                | Some (ip, plen) \<Rightarrow>
                    (let s = takeWhile (\<lambda>c. c \<noteq> 0) ip;
                         out = (\<lambda>f a. (if res = None then None else Some \<lparr>family = f, addr = a, prefixlen = of_int plen\<rparr>, int token_len))
                     in if flags AND CMDLINE_IPADDR_V4 \<noteq> 0 \<and> pton4 s \<noteq> None \<and> plen \<le> V4PREFIXMAX then out AF_INET (the (pton4 s))
                        else if flags AND CMDLINE_IPADDR_V6 \<noteq> 0 \<and> pton6 s \<noteq> None then out AF_INET6 (the (pton6 s))
                        else (None, -1))) }) }) })"

section \<open>What it accepts\<close>

text \<open>The specification: the part after the last slash is empty or a number up to 128; the kinds of address in order.\<close>

definition prefix_num :: "u8 list \<Rightarrow> int option" where
  "prefix_num p = (if p = [] then Some 0 else (case dec_number p of
       None \<Rightarrow> None
     | Some (neg, v) \<Rightarrow> if v \<le> 128 \<and> (neg \<longrightarrow> v = 0) then Some (int v) else None))"

definition ip_parts :: "u8 \<Rightarrow> u8 list \<Rightarrow> (u8 list \<times> int) option" where
  "ip_parts flags t =
     (if flags AND CMDLINE_IPADDR_NETWORK = 0 then Some (t, 0)
      else if 0x2F \<notin> set t then None
      else map_option (Pair (rev (tl (dropWhile (\<lambda>c. c \<noteq> 0x2F) (rev t)))))
        (prefix_num (rev (takeWhile (\<lambda>c. c \<noteq> 0x2F) (rev t)))))"

definition ip_spec :: "(u8 list \<Rightarrow> u8 list option) \<Rightarrow> (u8 list \<Rightarrow> u8 list option) \<Rightarrow> u8 \<Rightarrow> u8 list \<Rightarrow> cmdline_ipaddr option" where
  "ip_spec pton4 pton6 flags t = (case ip_parts flags t of
       None \<Rightarrow> None
     | Some (s, plen) \<Rightarrow>
         if flags AND CMDLINE_IPADDR_V4 \<noteq> 0 \<and> pton4 s \<noteq> None \<and> plen \<le> 32
         then Some \<lparr>family = AF_INET, addr = the (pton4 s), prefixlen = of_int plen\<rparr>
         else if flags AND CMDLINE_IPADDR_V6 \<noteq> 0 \<and> pton6 s \<noteq> None
         then Some \<lparr>family = AF_INET6, addr = the (pton6 s), prefixlen = of_int plen\<rparr>
         else None)"

lemma strtol_prefix:
  assumes "0 \<notin> set p"
  shows "do { (v, err, stop) \<leftarrow> strtol (p @ 0 # r);
      c \<leftarrow> nth_opt stop 0;
      Some (if err \<or> c \<noteq> 0 \<or> v < 0 \<or> v > PREFIXMAX then None else Some v) } = Some (prefix_num p)"
proof (cases "dec_number p")
  case (Some nv)
  obtain neg v where nv: "nv = (neg, v)" by (cases nv)
  have p: "p \<noteq> []" using Some by auto
  have "scan_number (p @ 0 # r) = Some (Some (neg, v, 0 # r))"
    using scan_number_text [of p neg v 0 r] Some nv by (simp add: isdigit_def)
  then show ?thesis using Some nv p
    by (auto simp: strtol_def prefix_num_def PREFIXMAX_def nth_opt_def)
next
  case None
  have "0 \<in> set (p @ 0 # r)" by simp
  then obtain o' where o: "scan_number (p @ 0 # r) = Some o'" using scan_number_total by blast
  show ?thesis
  proof (cases o')
    case None
    then show ?thesis using o \<open>dec_number p = None\<close> assms
      by (cases p) (auto simp: strtol_def prefix_num_def PREFIXMAX_def nth_opt_def)
  next
    case (Some x)
    obtain neg v e where x: "x = (neg, v, e)" by (cases x)
    obtain a where a: "p @ 0 # r = a @ e" "dec_number a = Some (neg, v)" "e \<noteq> []"
      using scan_number_split [of "p @ 0 # r" neg v e] o Some x by auto
    have "0 \<notin> set a" using dec_number_chars [OF a(2), of 0] by (auto simp: isspace_def isdigit_def)
    then obtain us where us: "p = a @ us" "us @ 0 # r = e"
      using a(1) by (auto simp: append_eq_append_conv2 Cons_eq_append_conv)
    have "us \<noteq> []" using us(1) a(2) None by auto
    then have "hd e \<noteq> 0" "p \<noteq> []" using us assms by (cases us; auto)+
    then show ?thesis using o Some x None a(3)
      by (auto simp: strtol_def prefix_num_def nth_opt_def hd_conv_nth)
  qed
qed

lemma convert_prefix_text:
  assumes "0 \<notin> set t"
  shows "\<exists>pad. convert_prefix flags (t @ 0 # r) = Some (map_option (\<lambda>(s, n). (s @ 0 # pad, n)) (ip_parts flags t)) \<and>
    (ip_parts flags t \<noteq> None \<longrightarrow> 0 \<notin> set (fst (the (ip_parts flags t))))"
proof (cases "flags AND CMDLINE_IPADDR_NETWORK = 0")
  case True
  then show ?thesis using assms by (intro exI [of _ r]) (simp add: convert_prefix_def ip_parts_def)
next
  case False
  show ?thesis
  proof (cases "0x2F \<in> set t")
    case no: False
    then show ?thesis using False strrchr_text [OF assms, of "0x2F" r] by (simp add: convert_prefix_def ip_parts_def)
  next
    case True
    define p where "p = rev (takeWhile (\<lambda>c. c \<noteq> 0x2F) (rev t))"
    define a where "a = rev (tl (dropWhile (\<lambda>c. c \<noteq> 0x2F) (rev t)))"
    have "dropWhile (\<lambda>c. c \<noteq> 0x2F) (rev t) = 0x2F # rev a"
    proof -
      have ne: "dropWhile (\<lambda>c. c \<noteq> 0x2F) (rev t) \<noteq> []" using True by (auto simp: dropWhile_eq_Nil_conv)
      then have "hd (dropWhile (\<lambda>c. c \<noteq> 0x2F) (rev t)) = 0x2F" using hd_dropWhile [OF ne] by simp
      then show ?thesis using ne by (cases "dropWhile (\<lambda>c. c \<noteq> 0x2F) (rev t)") (simp_all add: a_def)
    qed
    then have "rev t = rev p @ 0x2F # rev a" by (metis p_def rev_rev_ident takeWhile_dropWhile_id)
    then have t: "t = a @ 0x2F # p" by (metis append.assoc append_Cons append_Nil rev.simps(2) rev_append rev_rev_ident)
    have z: "0 \<notin> set p" "0 \<notin> set a" using assms t by auto
    have s: "strrchr (t @ 0 # r) 0x2F = Some (Some (0x2F # p @ 0 # r))"
      using strrchr_text [OF assms, of "0x2F" r] True by (simp add: p_def)
    have u: "upd_opt (t @ 0 # r) (length (t @ 0 # r) - length (0x2F # p @ 0 # r)) 0 = Some (a @ 0 # p @ 0 # r)"
      by (simp add: t upd_opt_def list_update_append)
    have "ip_parts flags t = map_option (Pair a) (prefix_num p)" using False True by (simp add: ip_parts_def a_def p_def)
    moreover have "convert_prefix flags (t @ 0 # r) = Some (map_option (Pair (a @ 0 # p @ 0 # r)) (prefix_num p))"
    proof -
      obtain v err stop where st: "strtol (p @ 0 # r) = Some (v, err, stop)"
        using strtol_prefix [OF z(1), of r] by (auto split: bind_splits)
      obtain c where c: "nth_opt stop 0 = Some c" using strtol_prefix [OF z(1), of r] st by (auto split: bind_splits)
      have "prefix_num p = (if err \<or> c \<noteq> 0 \<or> v < 0 \<or> v > PREFIXMAX then None else Some v)"
        using strtol_prefix [OF z(1), of r] unfolding st bind.simps prod.case c by simp
      then show ?thesis using False
        unfolding convert_prefix_def s bind.simps option.case u list.sel st prod.case c by (auto split: if_splits)
    qed
    ultimately show ?thesis using z(2)
      by (intro exI [of _ "p @ 0 # r"]) (cases "prefix_num p"; simp)
  qed
qed

text \<open>
  C31: The IP address token accepts exactly the tokens of the specification, of fewer than 50 characters and with room
  for the structure: with the network flag the part after the last slash is empty or a number up to 128; the string
  before it is tried as an IPv4 address, with a prefix up to 32, and then as an IPv6 address.
\<close>
theorem cmdline_parse_ipaddr_spec:
  assumes t: "list_all (\<lambda>c. \<not> cmdline_isendoftoken c) t" and e: "cmdline_isendoftoken e" "0 \<in> set (e # rest)"
    and ne: "t \<noteq> [] \<or> e \<noteq> 0"
  shows "cmdline_parse_ipaddr pton4 pton6 flags (t @ e # rest) res = Some (
    if (case res of None \<Rightarrow> False | Some n \<Rightarrow> n < 24) \<or> 50 \<le> length t then (None, -1)
    else case ip_spec pton4 pton6 flags t of
      None \<Rightarrow> (None, -1)
    | Some a \<Rightarrow> (if res = None then None else Some a, int (length t)))"
proof -
  have t0: "0 \<notin> set t" using t by (auto simp: list_all_iff cmdline_isendoftoken_def)
  note hd = token_hd [of t e rest]
  have hd0: "hd (t @ [e]) \<noteq> 0" using ne t0 by (cases t) auto
  note sc = scan_found [OF t e(1), of rest]
  note sizes = sizeof_ipaddr_def INET6_ADDRSTRLEN_def
  show ?thesis
  proof (cases "length t < 50")
    case False
    then show ?thesis using hd hd0 sc by (simp add: cmdline_parse_ipaddr_def sizes del: nth_opt_Some)
  next
    case True
    obtain pad k where cp: "strlcpy (replicate 51 0) (t @ e # rest) (length t + 1) = Some (t @ 0 # pad, k)"
      using token_copy [OF t0 e(2), of 51] True by auto
    obtain pad' where cv: "convert_prefix flags (t @ 0 # pad) = Some (map_option (\<lambda>(s, n). (s @ 0 # pad', n)) (ip_parts flags t))"
        "ip_parts flags t \<noteq> None \<longrightarrow> 0 \<notin> set (fst (the (ip_parts flags t)))"
      using convert_prefix_text [OF t0, of flags pad] by blast
    have tw: "takeWhile (\<lambda>c. c \<noteq> 0) (s @ 0 # pad') = s" if "ip_parts flags t = Some (s, n)" for s n
      using cv(2) that by (subst takeWhile_append2) auto
    have E: "cmdline_parse_ipaddr pton4 pton6 flags (t @ e # rest) res =
      Some (if (case res of None \<Rightarrow> False | Some n \<Rightarrow> n < 24) then (None, -1)
        else case ip_parts flags t of None \<Rightarrow> (None, -1)
        | Some (s, plen) \<Rightarrow>
            (let out = (\<lambda>f a. (if res = None then None else Some \<lparr>family = f, addr = a, prefixlen = of_int plen\<rparr>, int (length t)))
             in if flags AND CMDLINE_IPADDR_V4 \<noteq> 0 \<and> pton4 s \<noteq> None \<and> plen \<le> V4PREFIXMAX then out AF_INET (the (pton4 s))
                else if flags AND CMDLINE_IPADDR_V6 \<noteq> 0 \<and> pton6 s \<noteq> None then out AF_INET6 (the (pton6 s))
                else (None, -1)))"
    proof (cases "ip_parts flags t")
      case None
      then show ?thesis using hd0 sc True cp cv(1) unfolding cmdline_parse_ipaddr_def sizes hd by simp
    next
      case (Some sn)
      obtain s n where sn: "sn = (s, n)" by (cases sn)
      then show ?thesis using hd0 sc True cp cv(1) tw [of s n] Some unfolding cmdline_parse_ipaddr_def sizes hd
        by (simp add: Let_def)
    qed
    show ?thesis unfolding E ip_spec_def using True
      by (cases "ip_parts flags t") (auto simp: Let_def V4PREFIXMAX_def split: prod.split)
  qed
qed

text \<open>
  With the network flag an empty prefix is the prefix 0, so \<open>9/\<close> is accepted where \<open>inet_pton\<close> accepts \<open>9\<close>.
\<close>
lemma cmdline_parse_ipaddr_spec_witness:
  "cmdline_parse_ipaddr (\<lambda>s. if s = [0x39] then Some [9, 0, 0, 0] else None) (\<lambda>s. None) TOKEN_IPV4NET_flags
     [0x39, 0x2F, 0] (Some 24) = Some (Some \<lparr>family = AF_INET, addr = [9, 0, 0, 0], prefixlen = 0\<rparr>, 2)"
  using cmdline_parse_ipaddr_spec [of "[0x39, 0x2F]" 0 "[]" "\<lambda>s. if s = [0x39] then Some [9, 0, 0, 0] else None"
      "\<lambda>s. None" TOKEN_IPV4NET_flags "Some 24"]
  by (simp add: cmdline_isendoftoken_def iscomment_def cmdline_isblank2_def isendofline_def ip_spec_def ip_parts_def
      prefix_num_def TOKEN_IPV4NET_flags_def CMDLINE_IPADDR_V4_def CMDLINE_IPADDR_NETWORK_def)

text \<open>The flags of the initializer for IPv6 networks name IPv4: a token with them never gives an IPv6 address.\<close>
lemma ipv6net_is_ipv4net:
  assumes "cmdline_parse_ipaddr pton4 pton6 TOKEN_IPV6NET_flags b res = Some (Some a, n)"
  shows "family a = AF_INET"
proof -
  have f: "TOKEN_IPV6NET_flags AND CMDLINE_IPADDR_V6 = 0"
    by (simp add: TOKEN_IPV6NET_flags_def CMDLINE_IPADDR_V4_def CMDLINE_IPADDR_V6_def CMDLINE_IPADDR_NETWORK_def)
  show ?thesis using assms f
    by (auto simp: cmdline_parse_ipaddr_def Let_def split: bind_splits if_splits option.splits prod.splits)
qed

end
