(* ===== verification/Cmdline_Tokens.thy ===== *)
theory Cmdline_Tokens
  imports Cmdline_Parse_Props Parse_String Parse_Portlist Ether Parse_Ipaddr
begin

text \<open>
  The tokens the command line library offers, as the command parser sees them: the \<open>ops\<close> of
  \<open>cmdline_parse_num.c\<close>, \<open>_string.c\<close>, \<open>_portlist.c\<close>, \<open>_ipaddr.c\<close> and \<open>_etheraddr.c\<close>. A value is stored as
  its bytes at the start of the memory at \<open>res\<close>. Every parser keeps the contract \<open>token_parser\<close>, and every one
  but the port list, whose port 31 is undefined, the contract \<open>total_token_parser\<close>.
\<close>

section \<open>Values in memory\<close>

definition stored :: "('a \<Rightarrow> u8 list) \<Rightarrow> (nat option \<Rightarrow> ('a option \<times> int) option) \<Rightarrow> u8 list option \<Rightarrow> (u8 list option \<times> int) option" where
  "stored bytes p res = map_option (\<lambda>(v, n).
     (map_option (\<lambda>r. case v of None \<Rightarrow> r | Some v \<Rightarrow> bytes v @ drop (length (bytes v)) r) res, n)) (p (map_option length res))"

text \<open>The layout of \<open>struct cmdline_ipaddr\<close>; padding and the unwritten part of the union are zero here.\<close>

definition ipaddr_bytes :: "cmdline_ipaddr \<Rightarrow> u8 list" where
  "ipaddr_bytes a = [family a, 0, 0, 0] @ take 16 (addr a @ replicate 16 0) @ le_bytes 4 (ucast (prefixlen a))"

section \<open>Parsers\<close>

definition num_parse :: "cmdline_numtype \<Rightarrow> u8 list \<Rightarrow> u8 list option \<Rightarrow> (u8 list option \<times> int) option" where
  "num_parse ty b = stored (\<lambda>bs. bs) (cmdline_parse_num ty b)"

definition portlist_parse :: "u8 list \<Rightarrow> u8 list option \<Rightarrow> (u8 list option \<times> int) option" where
  "portlist_parse b = stored (\<lambda>m. le_bytes 4 (ucast m)) (cmdline_parse_portlist b)"

definition etheraddr_parse :: "u8 list \<Rightarrow> u8 list option \<Rightarrow> (u8 list option \<times> int) option" where
  "etheraddr_parse b = stored (\<lambda>bs. bs) (cmdline_parse_etheraddr b)"

definition ipaddr_parse ::
  "(u8 list \<Rightarrow> u8 list option) \<Rightarrow> (u8 list \<Rightarrow> u8 list option) \<Rightarrow> u8 \<Rightarrow> u8 list \<Rightarrow> u8 list option \<Rightarrow> (u8 list option \<times> int) option" where
  "ipaddr_parse pton4 pton6 flags b = stored ipaddr_bytes (cmdline_parse_ipaddr pton4 pton6 flags b)"

section \<open>Help\<close>

definition num_help :: "cmdline_numtype \<Rightarrow> u8 list" where
  "num_help ty = literal (case ty of
       RTE_UINT8 \<Rightarrow> ''UINT8'' | RTE_UINT16 \<Rightarrow> ''UINT16'' | RTE_UINT32 \<Rightarrow> ''UINT32'' | RTE_UINT64 \<Rightarrow> ''UINT64''
     | RTE_INT8 \<Rightarrow> ''INT8'' | RTE_INT16 \<Rightarrow> ''INT16'' | RTE_INT32 \<Rightarrow> ''INT32'' | RTE_INT64 \<Rightarrow> ''INT64'')"

text \<open>\<open>dstbuf[size-1] = 0\<close> for an unsigned \<open>size\<close> of 0 is an access far outside.\<close>

definition cmdline_get_help_num :: "cmdline_numtype \<Rightarrow> u8 list \<Rightarrow> nat \<Rightarrow> (u8 list \<times> int) option" where
  "cmdline_get_help_num ty dstbuf sz = do {
     (d, _) \<leftarrow> strlcpy dstbuf (num_help ty) sz;
     d \<leftarrow> (if sz = 0 then None else upd_opt d (sz - 1) 0);
     Some (d, 0) }"

definition help_text :: "string \<Rightarrow> u8 list \<Rightarrow> nat \<Rightarrow> (u8 list \<times> int) option" where
  "help_text s dstbuf sz = map_option (\<lambda>(d, _). (d, 0)) (strlcpy dstbuf (literal s) sz)"

definition cmdline_get_help_portlist :: "u8 list \<Rightarrow> nat \<Rightarrow> (u8 list \<times> int) option" where
  "cmdline_get_help_portlist = help_text ''range of ports as 3,4-6,8-19,20''"

definition cmdline_get_help_etheraddr :: "u8 list \<Rightarrow> nat \<Rightarrow> (u8 list \<times> int) option" where
  "cmdline_get_help_etheraddr = help_text ''Ethernet address''"

definition ipaddr_help :: "u8 \<Rightarrow> string" where
  "ipaddr_help flags =
     (if flags = CMDLINE_IPADDR_V4 then ''IPv4''
      else if flags = CMDLINE_IPADDR_V6 then ''IPv6''
      else if flags = CMDLINE_IPADDR_V4 OR CMDLINE_IPADDR_V6 then ''IPv4/IPv6''
      else if flags = CMDLINE_IPADDR_NETWORK OR CMDLINE_IPADDR_V4 then ''IPv4 network''
      else if flags = CMDLINE_IPADDR_NETWORK OR CMDLINE_IPADDR_V6 then ''IPv6 network''
      else if flags = CMDLINE_IPADDR_NETWORK OR CMDLINE_IPADDR_V4 OR CMDLINE_IPADDR_V6 then ''IPv4/IPv6 network''
      else ''IPaddr (bad flags)'')"

definition cmdline_get_help_ipaddr :: "u8 \<Rightarrow> u8 list \<Rightarrow> nat \<Rightarrow> (u8 list \<times> int) option" where
  "cmdline_get_help_ipaddr flags = help_text (ipaddr_help flags)"

section \<open>Tokens\<close>

definition cmdline_token_num_ops :: "cmdline_numtype \<Rightarrow> nat \<Rightarrow> cmdline_token" where
  "cmdline_token_num_ops ty off = \<lparr>offset = off, parse = num_parse ty, complete_get_nb = None, complete_get_elt = None,
     get_help = Some (cmdline_get_help_num ty)\<rparr>"

definition cmdline_token_string_ops :: "u8 list option \<Rightarrow> nat \<Rightarrow> cmdline_token" where
  "cmdline_token_string_ops str off = \<lparr>offset = off, parse = cmdline_parse_string str,
     complete_get_nb = Some (cmdline_complete_get_nb_string str),
     complete_get_elt = Some (cmdline_complete_get_elt_string str),
     get_help = Some (cmdline_get_help_string str)\<rparr>"

definition cmdline_token_portlist_ops :: "nat \<Rightarrow> cmdline_token" where
  "cmdline_token_portlist_ops off = \<lparr>offset = off, parse = portlist_parse, complete_get_nb = None, complete_get_elt = None,
     get_help = Some cmdline_get_help_portlist\<rparr>"

definition cmdline_token_etheraddr_ops :: "nat \<Rightarrow> cmdline_token" where
  "cmdline_token_etheraddr_ops off = \<lparr>offset = off, parse = etheraddr_parse, complete_get_nb = None, complete_get_elt = None,
     get_help = Some cmdline_get_help_etheraddr\<rparr>"

definition cmdline_token_ipaddr_ops ::
  "(u8 list \<Rightarrow> u8 list option) \<Rightarrow> (u8 list \<Rightarrow> u8 list option) \<Rightarrow> u8 \<Rightarrow> nat \<Rightarrow> cmdline_token" where
  "cmdline_token_ipaddr_ops pton4 pton6 flags off = \<lparr>offset = off, parse = ipaddr_parse pton4 pton6 flags,
     complete_get_nb = None, complete_get_elt = None, get_help = Some (cmdline_get_help_ipaddr flags)\<rparr>"

section \<open>The contract of the parsers\<close>

lemma stored_token_parser:
  assumes "\<And>b n v k. 0 \<in> set b \<Longrightarrow> p b (Some n) = Some (Some v, k) \<Longrightarrow> length (bytes v) \<le> n"
    and "\<And>b res v k. 0 \<in> set b \<Longrightarrow> p b res = Some (v, k) \<Longrightarrow> 0 \<le> k \<Longrightarrow>
      nat k < length b \<and> 0 \<notin> set (take (nat k) b) \<and> cmdline_isendoftoken (b ! nat k)"
  shows "token_parser (\<lambda>b. stored bytes (p b))"
proof
  fix b r res n
  assume z: "0 \<in> set b" and "stored bytes (p b) (Some r) = Some (res, n)"
  then obtain v where v: "p b (Some (length r)) = Some (v, n)"
      "res = Some (case v of None \<Rightarrow> r | Some v \<Rightarrow> bytes v @ drop (length (bytes v)) r)" by (auto simp: stored_def)
  show "\<exists>r'. res = Some r' \<and> length r' = length r"
    using v assms(1) [OF z, of "length r" _ n] by (cases v) auto
next
  fix b res res' n
  assume "0 \<in> set b" "stored bytes (p b) res = Some (res', n)" "0 \<le> n"
  then show "nat n < length b \<and> 0 \<notin> set (take (nat n) b) \<and> cmdline_isendoftoken (b ! nat n)"
    using assms(2) [of b "map_option length res" _ n] by (auto simp: stored_def)
qed

lemma endoftoken_0: "cmdline_isendoftoken 0"
  by (simp add: cmdline_isendoftoken_def)

text \<open>A length that a scan for the end of the token found.\<close>

lemma token_end: "0 \<notin> set t \<Longrightarrow> cmdline_isendoftoken e \<Longrightarrow>
    length t < length (t @ e # rest) \<and> 0 \<notin> set (take (length t) (t @ e # rest)) \<and> cmdline_isendoftoken ((t @ e # rest) ! length t)"
  by simp

subsection \<open>Numbers\<close>

lemma cmdline_parse_num_writes: "cmdline_parse_num ty b (Some n) = Some (Some bs, k) \<Longrightarrow> length bs \<le> n"
  by (cases ty) (auto simp: cmdline_parse_num_def check_res_size_def store_num_def store_pos_def store_neg_def
      split: bind_splits if_splits option.splits prod.splits)

lemma num_string:
  assumes "0 \<in> set b"
  obtains t e rest out where "b = t @ e # rest" "0 \<notin> set t" "cmdline_isendoftoken e"
    "num_loop b 0 START 0 = Some out" "loop_result (length t) (num_run START 0 t) out"
proof (rule token_split [where p = cmdline_isendoftoken, OF endoftoken_0 assms])
  fix t e rest
  assume t: "b = t @ e # rest" "list_all (\<lambda>c. \<not> cmdline_isendoftoken c) t" "cmdline_isendoftoken e" "0 \<notin> set t"
  have "list_all in_token t" "\<not> in_token e" using t(2-4) by (auto simp: list_all_iff in_token_def)
  then obtain out where "num_loop (t @ e # rest) 0 START 0 = Some out" "loop_result (length t) (num_run START 0 t) out"
    using num_loop_run [of START t e 0 rest 0] by auto
  then show thesis using that t(1,3,4) by blast
qed

lemma cmdline_parse_num_total: "0 \<in> set b \<Longrightarrow> cmdline_parse_num ty b res \<noteq> None"
  by (erule num_string) (auto simp: cmdline_parse_num_def nth_opt_def)

lemma cmdline_parse_num_consumes:
  assumes "0 \<in> set b" "cmdline_parse_num ty b res = Some (v, k)" "0 \<le> k"
  shows "nat k < length b \<and> 0 \<notin> set (take (nat k) b) \<and> cmdline_isendoftoken (b ! nat k)"
proof (rule num_string [OF assms(1)])
  fix t e rest out
  assume t: "b = t @ e # rest" "0 \<notin> set t" "cmdline_isendoftoken e" "num_loop b 0 START 0 = Some out"
    "loop_result (length t) (num_run START 0 t) out"
  then obtain st r n where o: "out = Some (st, r, n)" "k = int n" "store_num ty st r \<noteq> None"
    using assms(2,3) by (auto simp: cmdline_parse_num_def split: bind_splits if_splits option.splits prod.splits)
  then have "st \<noteq> ERROR" by (auto simp: store_num_def)
  then have "n = length t" using t(5) o(1) by (simp add: loop_result_def)
  then show ?thesis using token_end [OF t(2,3), of rest] t(1) o(2) by simp
qed

interpretation num: total_token_parser "num_parse ty" for ty
proof -
  have "token_parser (num_parse ty)"
    unfolding num_parse_def [abs_def]
    by (rule stored_token_parser [OF cmdline_parse_num_writes cmdline_parse_num_consumes])
  then show "total_token_parser (num_parse ty)"
    by (rule total_token_parser.intro) (unfold_locales, use cmdline_parse_num_total in \<open>auto simp: num_parse_def stored_def\<close>)
qed

subsection \<open>Port lists\<close>

lemma scan_max_end: "scan_max p b m = Some n \<Longrightarrow> n < m \<Longrightarrow> n < length b \<and> p (b ! n) \<and> (\<forall>c \<in> set (take n b). \<not> p c)"
  by (induction p b m arbitrary: n rule: scan_max.induct) (auto split: if_splits)

lemma scan_end: "scan p b = Some n \<Longrightarrow> n < length b \<and> p (b ! n) \<and> (\<forall>c \<in> set (take n b). \<not> p c)"
  by (induction b arbitrary: n) (auto split: if_splits)

lemma scanned_token:
  assumes "n < length b \<and> cmdline_isendoftoken (b ! n) \<and> (\<forall>c \<in> set (take n b). \<not> cmdline_isendoftoken c)"
  shows "n < length b \<and> 0 \<notin> set (take n b) \<and> cmdline_isendoftoken (b ! n)"
  using assms endoftoken_0 by auto

lemma cmdline_parse_portlist_writes: "cmdline_parse_portlist b (Some n) = Some (Some v, k) \<Longrightarrow> length (le_bytes 4 (ucast v)) \<le> n"
  by (auto simp: cmdline_parse_portlist_def split: bind_splits if_splits)

lemma cmdline_parse_portlist_consumes:
  assumes "0 \<in> set b" "cmdline_parse_portlist b res = Some (v, k)" "0 \<le> k"
  shows "nat k < length b \<and> 0 \<notin> set (take (nat k) b) \<and> cmdline_isendoftoken (b ! nat k)"
proof -
  obtain n where "scan_max cmdline_isendoftoken b PORTLIST_TOKEN_SIZE = Some n" "n < PORTLIST_TOKEN_SIZE" "k = int n"
    using assms(2,3) by (auto simp: cmdline_parse_portlist_def split: bind_splits if_splits)
  then show ?thesis using scanned_token [OF scan_max_end [of cmdline_isendoftoken b PORTLIST_TOKEN_SIZE n]] by simp
qed

interpretation portlist: token_parser portlist_parse
  unfolding portlist_parse_def [abs_def]
  by (rule stored_token_parser [OF cmdline_parse_portlist_writes cmdline_parse_portlist_consumes])

subsection \<open>Ethernet addresses\<close>

text \<open>The call of the address parser on a string.\<close>

lemma etheraddr_string:
  assumes "0 \<in> set b"
  obtains t e rest pad k where "b = t @ e # rest" "0 \<notin> set t" "cmdline_isendoftoken e"
    "scan cmdline_isendoftoken b = Some (length t)"
    "length t < 18 \<Longrightarrow> strlcpy (replicate 18 0) b (length t + 1) = Some (t @ 0 # pad, k)"
proof (rule token_split [where p = cmdline_isendoftoken, OF endoftoken_0 assms])
  fix t e rest
  assume t: "b = t @ e # rest" "list_all (\<lambda>c. \<not> cmdline_isendoftoken c) t" "cmdline_isendoftoken e" "0 \<in> set (e # rest)" "0 \<notin> set t"
  have "\<exists>pad k. length t < 18 \<longrightarrow> strlcpy (replicate 18 0) b (length t + 1) = Some (t @ 0 # pad, k)"
    using token_copy [OF t(5,4), of 18] t(1) by auto
  then show thesis using that [OF t(1,5,3)] scan_found [OF t(2,3), of rest] t(1) by blast
qed

lemma cmdline_parse_etheraddr_total:
  assumes "0 \<in> set b"
  shows "cmdline_parse_etheraddr b res \<noteq> None"
proof (rule etheraddr_string [OF assms])
  fix t e rest pad k
  assume t: "b = t @ e # rest" "0 \<notin> set t" "cmdline_isendoftoken e" "scan cmdline_isendoftoken b = Some (length t)"
    "length t < 18 \<Longrightarrow> strlcpy (replicate 18 0) b (length t + 1) = Some (t @ 0 # pad, k)"
  obtain x where u: "rte_ether_unformat_addr (t @ 0 # pad) (replicate 6 0) = Some x"
    using unformat_spec [OF t(2), of "replicate 6 0" pad] by (metis length_replicate)
  have b: "b \<noteq> []" using assms by auto
  show ?thesis
    by (cases "length t < 18"; cases x; cases res)
      (use b t(4,5) u in \<open>auto simp: cmdline_parse_etheraddr_def RTE_ETHER_ADDR_FMT_SIZE_def RTE_ETHER_ADDR_LEN_def nth_opt_def\<close>)
qed

lemma cmdline_parse_etheraddr_writes:
  assumes "0 \<in> set b" "cmdline_parse_etheraddr b (Some n) = Some (Some v, k)"
  shows "length v \<le> n"
proof (rule etheraddr_string [OF assms(1)])
  fix t e rest pad j
  assume t: "b = t @ e # rest" "0 \<notin> set t" "cmdline_isendoftoken e" "scan cmdline_isendoftoken b = Some (length t)"
    "length t < 18 \<Longrightarrow> strlcpy (replicate 18 0) b (length t + 1) = Some (t @ 0 # pad, j)"
  have "rte_ether_unformat_addr (t @ 0 # pad) (replicate 6 0) = Some (v, x) \<Longrightarrow> 0 \<le> x \<Longrightarrow> length v = 6" for x
    using unformat_spec [OF t(2), of "replicate 6 0" pad] ether_spec_length [of t] by (auto split: option.splits)
  then show ?thesis using assms(2) t(4,5)
    by (auto simp: cmdline_parse_etheraddr_def RTE_ETHER_ADDR_FMT_SIZE_def RTE_ETHER_ADDR_LEN_def
        split: bind_splits if_splits)
qed

lemma cmdline_parse_etheraddr_consumes:
  assumes "0 \<in> set b" "cmdline_parse_etheraddr b res = Some (v, k)" "0 \<le> k"
  shows "nat k < length b \<and> 0 \<notin> set (take (nat k) b) \<and> cmdline_isendoftoken (b ! nat k)"
proof -
  obtain n where "scan cmdline_isendoftoken b = Some n" "k = int n"
    using assms(2,3) by (auto simp: cmdline_parse_etheraddr_def split: bind_splits if_splits prod.splits)
  then show ?thesis using scanned_token [OF scan_end [of cmdline_isendoftoken b n]] by simp
qed

interpretation etheraddr: total_token_parser etheraddr_parse
proof -
  have "token_parser etheraddr_parse"
    unfolding etheraddr_parse_def [abs_def]
    by (rule stored_token_parser [OF cmdline_parse_etheraddr_writes cmdline_parse_etheraddr_consumes])
  then show "total_token_parser etheraddr_parse"
    by (rule total_token_parser.intro)
      (unfold_locales, use cmdline_parse_etheraddr_total in \<open>auto simp: etheraddr_parse_def stored_def\<close>)
qed

subsection \<open>IP addresses\<close>

lemma ipaddr_string:
  assumes "0 \<in> set b"
  obtains t e rest pad k p where "b = t @ e # rest" "scan cmdline_isendoftoken b = Some (length t)"
    "length t < 50 \<Longrightarrow> strlcpy (replicate 51 0) b (length t + 1) = Some (t @ 0 # pad, k)"
    "convert_prefix flags (t @ 0 # pad) = Some p"
proof (rule token_split [where p = cmdline_isendoftoken, OF endoftoken_0 assms])
  fix t e rest
  assume t: "b = t @ e # rest" "list_all (\<lambda>c. \<not> cmdline_isendoftoken c) t" "cmdline_isendoftoken e" "0 \<in> set (e # rest)" "0 \<notin> set t"
  obtain pad k where pk: "length t < 50 \<longrightarrow> strlcpy (replicate 51 0) b (length t + 1) = Some (t @ 0 # pad, k)"
    using token_copy [OF t(5,4), of 51] t(1) by (cases "length t < 50") auto
  moreover obtain p where "convert_prefix flags (t @ 0 # pad) = Some p" using convert_prefix_text [OF t(5), of flags pad] by blast
  ultimately show thesis using that [OF t(1), of pad k p] scan_found [OF t(2,3), of rest] t(1) by blast
qed

lemma cmdline_parse_ipaddr_total:
  assumes "0 \<in> set b"
  shows "cmdline_parse_ipaddr pton4 pton6 flags b res \<noteq> None"
proof (rule ipaddr_string [OF assms, of flags])
  fix t e rest pad k p
  assume t: "b = t @ e # rest" "scan cmdline_isendoftoken b = Some (length t)"
    "length t < 50 \<Longrightarrow> strlcpy (replicate 51 0) b (length t + 1) = Some (t @ 0 # pad, k)"
    "convert_prefix flags (t @ 0 # pad) = Some p"
  have b: "b \<noteq> []" using assms by auto
  show ?thesis
    by (cases "length t < 50") (use b t(2-4) in \<open>auto simp: cmdline_parse_ipaddr_def INET6_ADDRSTRLEN_def nth_opt_def\<close>)
qed

lemma length_ipaddr_bytes: "length (ipaddr_bytes a) = 24"
  by (simp add: ipaddr_bytes_def)

lemma cmdline_parse_ipaddr_writes:
  "cmdline_parse_ipaddr pton4 pton6 flags b (Some n) = Some (Some v, k) \<Longrightarrow> length (ipaddr_bytes v) \<le> n"
  by (auto simp: cmdline_parse_ipaddr_def length_ipaddr_bytes sizeof_ipaddr_def split: bind_splits if_splits)

lemma cmdline_parse_ipaddr_consumes:
  assumes "0 \<in> set b" "cmdline_parse_ipaddr pton4 pton6 flags b res = Some (v, k)" "0 \<le> k"
  shows "nat k < length b \<and> 0 \<notin> set (take (nat k) b) \<and> cmdline_isendoftoken (b ! nat k)"
proof -
  obtain n where "scan cmdline_isendoftoken b = Some n" "k = int n"
    using assms(2,3) by (auto simp: cmdline_parse_ipaddr_def Let_def split: bind_splits if_splits prod.splits option.splits)
  then show ?thesis using scanned_token [OF scan_end [of cmdline_isendoftoken b n]] by simp
qed

interpretation ipaddr: total_token_parser "ipaddr_parse pton4 pton6 flags" for pton4 pton6 flags
proof -
  have "token_parser (ipaddr_parse pton4 pton6 flags)"
    unfolding ipaddr_parse_def [abs_def]
    by (rule stored_token_parser [OF cmdline_parse_ipaddr_writes cmdline_parse_ipaddr_consumes])
  then show "total_token_parser (ipaddr_parse pton4 pton6 flags)"
    by (rule total_token_parser.intro)
      (unfold_locales, use cmdline_parse_ipaddr_total in \<open>auto simp: ipaddr_parse_def stored_def\<close>)
qed

subsection \<open>Strings\<close>

lemma takeWhile_end: "p 0 \<Longrightarrow> p ((b @ [0]) ! length (takeWhile (\<lambda>c. \<not> p c) b))"
  using nth_length_takeWhile [of "\<lambda>c. \<not> p c" b] takeWhile_le [of "\<lambda>c. \<not> p c" b]
  by (cases "length (takeWhile (\<lambda>c. \<not> p c) b) < length b") (auto simp: nth_append)

lemma string_len_end:
  assumes "string_len str b = Some n"
  shows "cmdline_isendoftoken ((b @ [0]) ! n)"
proof (cases str)
  case None
  then show ?thesis using assms takeWhile_end [of cmdline_isendoftoken b, OF endoftoken_0]
    by (auto simp: string_len_def Let_def split: if_splits)
next
  case (Some s)
  show ?thesis
  proof (cases "s = []")
    case True
    have "cmdline_isendofcommand 0" by (simp add: cmdline_isendofcommand_def)
    from takeWhile_end [of cmdline_isendofcommand b, OF this] show ?thesis using assms Some True
      by (auto simp: string_len_def Let_def cmdline_isendoftoken_def cmdline_isendofcommand_def split: if_splits)
  next
    case False
    then obtain c where "find (chooses (b @ [0])) (choices s) = Some c" "n = length c"
      using assms Some by (auto simp: string_len_def)
    then show ?thesis by (auto simp: find_Some_iff chooses_def)
  qed
qed

lemma string_parse_cases:
  assumes "0 \<in> set b" "\<And>s. str = Some s \<Longrightarrow> 0 \<notin> set s"
  obtains "cmdline_parse_string (map_option c_string str) b res = Some (res, -1)"
  | n res' where "cmdline_parse_string (map_option c_string str) b res = Some (res', int n)"
    "map_option length res' = map_option length res" "n < length b" "0 \<notin> set (take n b)" "cmdline_isendoftoken (b ! n)"
proof -
  obtain s rb where b: "b = s @ 0 # rb" "0 \<notin> set s" using split_list_first [OF assms(1)] by blast
  show thesis
  proof (cases "s = [] \<or> no_room str res \<or> string_len str s = None")
    case True
    then have "cmdline_parse_string (map_option c_string str) b res = Some (res, -1)"
      using parse_string_len [where rb = rb and res = res, OF b(2) _ assms(2)] b(1)
      by (cases "s = []") (auto simp: cmdline_parse_string_def nth_opt_def)
    then show thesis by (rule that(1))
  next
    case False
    then obtain n where n: "string_len str s = Some n" "s \<noteq> []" "\<not> no_room str res" by auto
    note E = parse_string_len [where rb = rb and res = res, OF b(2) n(2) assms(2), folded b(1)]
    have nb: "n \<le> length s" using string_len_bound [OF n(1)] by simp
    have e: "n < length b" "0 \<notin> set (take n b)" "cmdline_isendoftoken (b ! n)"
      using nb b string_len_end [OF n(1)] by (auto simp: nth_append dest: in_set_takeD)
    show thesis
    proof (cases res)
      case None
      then show thesis using that(2) [of None n] E n e by simp
    next
      case (Some r)
      then have room: "token_room str \<le> length r" using n(3) by (simp add: no_room_def)
      obtain r' where "cmdline_parse_string (map_option c_string str) b res = Some (Some r', int n)" "length r' = length r"
        using parse_string_accepted [OF b(2) n(2) assms(2) room n(1), of rb] Some b(1) by auto
      then show thesis using that(2) [of "Some r'" n] e Some by simp
    qed
  qed
qed

lemma string_token_parser:
  assumes "\<And>s. str = Some s \<Longrightarrow> 0 \<notin> set s"
  shows "total_token_parser (cmdline_parse_string (map_option c_string str))"
proof
  fix b r res n
  assume "0 \<in> set b" "cmdline_parse_string (map_option c_string str) b (Some r) = Some (res, n)"
  then show "\<exists>r'. res = Some r' \<and> length r' = length r"
    by (elim string_parse_cases [OF _ assms, where res = "Some r"]) (auto simp: map_option_case split: option.splits)
next
  fix b res res' n
  assume "0 \<in> set b" "cmdline_parse_string (map_option c_string str) b res = Some (res', n)" "0 \<le> n"
  then show "nat n < length b \<and> 0 \<notin> set (take (nat n) b) \<and> cmdline_isendoftoken (b ! nat n)"
    by (elim string_parse_cases [OF _ assms, where res = res]) auto
next
  fix b :: "u8 list" and res :: "u8 list option"
  assume "0 \<in> set b"
  then show "cmdline_parse_string (map_option c_string str) b res \<noteq> None"
    by (elim string_parse_cases [OF _ assms, where res = res]) auto
qed

interpretation any_string: total_token_parser "cmdline_parse_string None"
  using string_token_parser [of None] by simp

interpretation multi_string: total_token_parser "cmdline_parse_string (Some TOKEN_STRING_MULTI)"
  using string_token_parser [of "Some []"] by (simp add: c_string_def TOKEN_STRING_MULTI_def)

section \<open>A command\<close>

text \<open>A command with one number, and another one with two.\<close>

definition one_num :: "nat cmdline_inst" where
  "one_num = \<lparr>inst_f = Some 1, help_str = None, tokens = [Some (cmdline_token_num_ops RTE_UINT8 0), None]\<rparr>"

definition two_nums :: "nat cmdline_inst" where
  "two_nums = \<lparr>inst_f = Some 2, help_str = None,
     tokens = [Some (cmdline_token_num_ops RTE_UINT8 0), Some (cmdline_token_num_ops RTE_UINT8 1), None]\<rparr>"

lemma num_static:
  "static_inst one_num [cmdline_token_num_ops RTE_UINT8 0]"
  "static_inst two_nums [cmdline_token_num_ops RTE_UINT8 0, cmdline_token_num_ops RTE_UINT8 1]"
  by (simp_all add: static_inst_def one_num_def two_nums_def cmdline_token_num_ops_def num.total_token_parser_axioms)

lemma parse_7: "num_parse RTE_UINT8 [0x37, 0x0A, 0] (Some (r # rs)) = Some (Some (7 # rs), 1)"
  by (simp add: num_parse_def stored_def cmdline_parse_num_def nth_opt_def check_res_size_def cmdline_isendoftoken_def
      iscomment_def cmdline_isblank2_def isendofline_def add_digit_def add_to_res_def store_num_def store_pos_def)

lemma result_7:
  "match_inst dyn one_num [0x37, 0x0A, 0] 0 (Some (r # rs)) = Some (0, Some (7 # replicate (length rs) 0))"
  "match_inst dyn two_nums [0x37, 0x0A, 0] 0 (Some (r # rs)) = Some (1, Some (7 # replicate (length rs) 0))"
proof -
  note step = get_token_def nth_opt_def cmdline_isblank2_def isendofline_def iscomment_def call_parse_def
    cmdline_token_num_ops_def parse_7
  show "match_inst dyn one_num [0x37, 0x0A, 0] 0 (Some (r # rs)) = Some (0, Some (7 # replicate (length rs) 0))"
    by (simp add: match_inst_def one_num_def step match_loop.simps [of dyn _ 0 False] match_loop.simps [of dyn _ 0 True])
  show "match_inst dyn two_nums [0x37, 0x0A, 0] 0 (Some (r # rs)) = Some (1, Some (7 # replicate (length rs) 0))"
    by (simp add: match_inst_def two_nums_def step match_loop.simps [of dyn _ 0 False] match_loop.simps [of dyn _ 0 True])
qed

lemma cmdline_parse_line_spec_witness:
  "cmdline_parse (\<lambda>f k. None) [Some two_nums, Some one_num, None] [0x37, 0x0A, 0] (replicate 8192 0) (replicate 8192 0) =
    Some (2, Some (1, 7 # replicate 8191 0))"
proof -
  have r: "inst_result (\<lambda>f k. None) [0x37, 0x0A, 0] one_num = (0, Some (7 # replicate 8191 0))"
    "inst_result (\<lambda>f k. None) [0x37, 0x0A, 0] two_nums = (1, Some (7 # replicate 8191 0))"
  proof -
    have e: "replicate CMDLINE_PARSE_RESULT_BUFSIZE 0 = 0 # replicate 8191 (0 :: u8)"
      by (simp add: CMDLINE_PARSE_RESULT_BUFSIZE_def flip: replicate_Suc)
    show "inst_result (\<lambda>f k. None) [0x37, 0x0A, 0] one_num = (0, Some (7 # replicate 8191 0))"
      "inst_result (\<lambda>f k. None) [0x37, 0x0A, 0] two_nums = (1, Some (7 # replicate 8191 0))"
      unfolding inst_result_def e result_7 by simp_all
  qed
  then have m: "filter (inst_matches (\<lambda>f k. None) [0x37, 0x0A, 0]) [two_nums, one_num] = [one_num]"
    by (simp add: inst_matches_def)
  have "command_line [0x37]" by (simp add: command_line_def iscomment_def cmdline_isblank2_def)
  then show ?thesis
    using cmdline_parse_line_spec [of "[two_nums, one_num]" "[0x37]" "0x0A" "[0]" "replicate 8192 0" "replicate 8192 0" "\<lambda>f k. None" "[]" True]
      m r num_static
    by (auto simp: cmdline_parse_def isendofline_def CMDLINE_PARSE_RESULT_BUFSIZE_def one_num_def two_nums_def)
qed

end
