(* ===== verification/Cmdline_Complete.thy ===== *)
theory Cmdline_Complete
  imports Cmdline_Parse
begin

text \<open>
  The completion of the command line library: \<open>cmdline_complete\<close> of \<open>lib/cmdline/cmdline_parse.c\<close>. The
  result is the return value, \<open>*state\<close>, and the memory at \<open>dst\<close>, which may be longer than \<open>size\<close>. The two
  local buffers have 64 characters; what they have at first is an argument.
\<close>

section \<open>The line\<close>

definition CMDLINE_BUFFER_SIZE :: nat where "CMDLINE_BUFFER_SIZE = 64"
definition COMPLETE_BUF_SIZE :: nat where "COMPLETE_BUF_SIZE = 512"

text \<open>The number of complete tokens and the start of the last one.\<close>

fun word_scan :: "u8 list \<Rightarrow> nat \<Rightarrow> u8 list \<Rightarrow> (nat \<times> u8 list) option" where
  "word_scan [] nb ptok = None"
| "word_scan [c] nb ptok = (if c = 0 then Some (nb, ptok) else None)"
| "word_scan (c # d # cs) nb ptok =
     (if c = 0 then Some (nb, ptok)
      else word_scan (d # cs) (if \<not> cmdline_isblank2 c \<and> cmdline_isblank2 d then nb + 1 else nb)
        (if cmdline_isblank2 c \<and> \<not> cmdline_isblank2 d then d # cs else ptok))"

fun nb_common_chars :: "u8 list \<Rightarrow> u8 list \<Rightarrow> nat option" where
  "nb_common_chars (x # s1) (y # s2) = (if x = y \<and> x \<noteq> 0 then map_option Suc (nb_common_chars s1 s2) else Some 0)"
| "nb_common_chars s1 s2 = None"

section \<open>Choices\<close>

text \<open>\<open>n\<close>, or 0 for a token that is not completable.\<close>

definition nb_choices :: "cmdline_token option \<Rightarrow> nat option" where
  "nb_choices tp = (case tp of
       None \<Rightarrow> Some 0
     | Some tk \<Rightarrow> (case (complete_get_nb tk, complete_get_elt tk) of
           (Some nb, Some elt) \<Rightarrow> map_option (\<lambda>n. unat (of_int n :: u32)) nb
         | _ \<Rightarrow> Some 0))"

text \<open>
  Choice \<open>i\<close> in \<open>tmpbuf\<close>, with a space after it if there is room: the buffer, and whether it is a choice and
  begins with the partial token.
\<close>

definition load_choice :: "cmdline_token \<Rightarrow> u8 list \<Rightarrow> nat \<Rightarrow> nat \<Rightarrow> u8 list \<Rightarrow> (u8 list \<times> bool) option" where
  "load_choice tk ptok plen i tmpbuf = do {
     (tmpbuf, r) \<leftarrow> (the (complete_get_elt tk)) (int i) tmpbuf (of_nat CMDLINE_BUFFER_SIZE);
     (if r < 0 then Some (tmpbuf, False)
      else do {
        tmp_len \<leftarrow> strnlen tmpbuf CMDLINE_BUFFER_SIZE;
        tmpbuf \<leftarrow> (if tmp_len < CMDLINE_BUFFER_SIZE - 1
          then do { t \<leftarrow> upd_opt tmpbuf tmp_len 0x20; upd_opt t (tmp_len + 1) 0 }
          else Some tmpbuf);
        eq \<leftarrow> strncmp_eq ptok tmpbuf plen;
        Some (tmpbuf, eq) }) }"

text \<open>The instruction \<open>inst\<close> as far as it matches the complete tokens: its next token, if it does.\<close>

definition next_token ::
  "('f \<Rightarrow> nat \<Rightarrow> cmdline_token option) \<Rightarrow> u8 list \<Rightarrow> nat \<Rightarrow> 'f cmdline_inst \<Rightarrow> cmdline_token option option option" where
  "next_token dyn b nb_token inst = do {
     skip \<leftarrow> (if nb_token \<noteq> 0
       then map_option (\<lambda>(r, _). r \<noteq> 0) (match_inst dyn inst b nb_token None) else Some False);
     (if skip then Some None else map_option Some (get_token dyn inst nb_token)) }"

section \<open>The first pass\<close>

text \<open>The characters that all choices have in common after the partial token: \<open>comp_buf\<close> and \<open>comp_len\<close>.\<close>

record comp_state =
  cs_tmp :: "u8 list"
  cs_comp :: "u8 list"
  cs_len :: int
  cs_nb :: nat
  cs_non :: nat

definition add_choice :: "nat \<Rightarrow> comp_state \<Rightarrow> comp_state option" where
  "add_choice plen cs =
     (if cs_len cs = -1
      then do {
        (cb, _) \<leftarrow> strlcpy (cs_comp cs) (drop plen (cs_tmp cs)) CMDLINE_BUFFER_SIZE;
        n \<leftarrow> strnlen (drop plen (cs_tmp cs)) (CMDLINE_BUFFER_SIZE - plen);
        Some (cs\<lparr>cs_comp := cb, cs_len := int n, cs_nb := cs_nb cs + 1\<rparr>) }
      else do {
        n \<leftarrow> nb_common_chars (cs_comp cs) (drop plen (cs_tmp cs));
        cb \<leftarrow> upd_opt (cs_comp cs) n 0;
        Some (cs\<lparr>cs_comp := cb, cs_len := int n, cs_nb := cs_nb cs + 1\<rparr>) })"

fun first_elts :: "cmdline_token \<Rightarrow> u8 list \<Rightarrow> nat \<Rightarrow> nat \<Rightarrow> nat \<Rightarrow> comp_state \<Rightarrow> comp_state option" where
  "first_elts tk ptok plen i 0 cs = Some cs"
| "first_elts tk ptok plen i (Suc k) cs = do {
     (t, eq) \<leftarrow> load_choice tk ptok plen i (cs_tmp cs);
     cs \<leftarrow> (if eq then add_choice plen (cs\<lparr>cs_tmp := t\<rparr>) else Some (cs\<lparr>cs_tmp := t\<rparr>));
     first_elts tk ptok plen (i + 1) k cs }"

fun first_loop ::
  "('f \<Rightarrow> nat \<Rightarrow> cmdline_token option) \<Rightarrow> u8 list \<Rightarrow> nat \<Rightarrow> u8 list \<Rightarrow> nat \<Rightarrow> 'f cmdline_inst option list \<Rightarrow> comp_state \<Rightarrow> comp_state option" where
  "first_loop dyn b nb ptok plen [] cs = None"
| "first_loop dyn b nb ptok plen (None # ctx) cs = Some cs"
| "first_loop dyn b nb ptok plen (Some inst # ctx) cs = do {
     nt \<leftarrow> next_token dyn b nb inst;
     cs \<leftarrow> (case nt of
         None \<Rightarrow> Some cs
       | Some tp \<Rightarrow> do {
           n \<leftarrow> nb_choices tp;
           (if n = 0 then Some (cs\<lparr>cs_non := cs_non cs + 1\<rparr>) else first_elts (the tp) ptok plen 0 n cs) });
     first_loop dyn b nb ptok plen ctx cs }"

section \<open>The second pass\<close>

text \<open>\<open>snprintf (dst + l, n, "%s", text)\<close>, with \<open>n\<close> as an unsigned number.\<close>

definition snprintf_at :: "u8 list \<Rightarrow> nat \<Rightarrow> u32 \<Rightarrow> u8 list \<Rightarrow> u8 list option" where
  "snprintf_at dst l n txt = (if n = 0 then Some dst else blit dst l (take (unat n - 1) txt @ [0]))"

text \<open>\<open>[%s]: %s\<close> of the help of the token, read into \<open>tmpbuf\<close>, and of the instruction.\<close>

definition help_line :: "(u8 list \<Rightarrow> nat \<Rightarrow> (u8 list \<times> int) option) \<Rightarrow> u8 list option \<Rightarrow> u8 list \<Rightarrow> (u8 list \<times> u8 list) option" where
  "help_line gh help tmpbuf = do {
     (t, _) \<leftarrow> gh tmpbuf CMDLINE_BUFFER_SIZE;
     n \<leftarrow> strlen t;
     h \<leftarrow> (case help of None \<Rightarrow> Some (butlast (literal ''No help'')) | Some s \<Rightarrow> map_option (\<lambda>n. take n s) (strlen s));
     Some (t, [0x5B] @ take n t @ [0x5D, 0x3A, 0x20] @ h) }"

text \<open>
  The choices of a token from \<open>i\<close> on: the return of the function with \<open>dst\<close>, or \<open>local_state\<close> and
  \<open>tmpbuf\<close> after them.
\<close>

fun second_elts ::
  "cmdline_token \<Rightarrow> u8 list option \<Rightarrow> u8 list \<Rightarrow> nat \<Rightarrow> u8 list \<Rightarrow> u32 \<Rightarrow> int \<Rightarrow> nat \<Rightarrow> nat \<Rightarrow> int \<Rightarrow> u8 list \<Rightarrow>
    (u8 list + int \<times> u8 list) option" where
  "second_elts tk help ptok plen dst sz state i 0 lstate tmp = Some (Inr (lstate, tmp))"
| "second_elts tk help ptok plen dst sz state i (Suc k) lstate tmp = do {
     (tmp, eq) \<leftarrow> load_choice tk ptok plen i tmp;
     (if \<not> eq then second_elts tk help ptok plen dst sz state (i + 1) k lstate tmp
      else if lstate < state then second_elts tk help ptok plen dst sz state (i + 1) k (lstate + 1) tmp
      else do {
        (dst, l) \<leftarrow> strlcpy dst tmp (unat sz);
        (case get_help tk of
           None \<Rightarrow> Some (Inl dst)
         | Some gh \<Rightarrow> do {
             (_, line) \<leftarrow> help_line gh help tmp;
             dst \<leftarrow> snprintf_at dst l (sz - of_nat l) line;
             Some (Inl dst) }) }) }"

fun second_loop ::
  "('f \<Rightarrow> nat \<Rightarrow> cmdline_token option) \<Rightarrow> u8 list \<Rightarrow> nat \<Rightarrow> u8 list \<Rightarrow> nat \<Rightarrow> u8 list \<Rightarrow> u32 \<Rightarrow> int \<Rightarrow> 'f cmdline_inst option list \<Rightarrow> int \<Rightarrow> u8 list \<Rightarrow>
    (int \<times> int \<times> u8 list) option" where
  "second_loop dyn b nb ptok plen dst sz state [] lstate tmp = None"
| "second_loop dyn b nb ptok plen dst sz state (None # ctx) lstate tmp = Some (0, state, dst)"
| "second_loop dyn b nb ptok plen dst sz state (Some inst # ctx) lstate tmp = do {
     nt \<leftarrow> next_token dyn b nb inst;
     (case nt of
        None \<Rightarrow> second_loop dyn b nb ptok plen dst sz state ctx lstate tmp
      | Some tp \<Rightarrow> do {
          n \<leftarrow> nb_choices tp;
          (if n = 0
           then (if lstate < state then second_loop dyn b nb ptok plen dst sz state ctx (lstate + 1) tmp
                 else do {
                   line \<leftarrow> (case tp of
                       None \<Rightarrow> Some (butlast (literal ''[RETURN]''))
                     | Some tk \<Rightarrow> (case get_help tk of
                           None \<Rightarrow> Some (butlast (literal ''[RETURN]''))
                         | Some gh \<Rightarrow> map_option snd (help_line gh (help_str inst) tmp)));
                   dst \<leftarrow> snprintf_at dst 0 sz line;
                   Some (1, state + 1, dst) })
           else do {
             r \<leftarrow> second_elts (the tp) (help_str inst) ptok plen dst sz state 0 n lstate tmp;
             (case r of
                Inl dst \<Rightarrow> Some (1, state + 1, dst)
              | Inr (lstate, tmp) \<Rightarrow> second_loop dyn b nb ptok plen dst sz state ctx lstate tmp) }) }) }"

section \<open>Completion\<close>

definition cmdline_complete ::
  "('f \<Rightarrow> nat \<Rightarrow> cmdline_token option) \<Rightarrow> 'f cmdline_inst option list \<Rightarrow> u8 list \<Rightarrow> int \<Rightarrow> u8 list \<Rightarrow> u32 \<Rightarrow> u8 list \<Rightarrow> u8 list \<Rightarrow>
    (int \<times> int \<times> u8 list) option" where
  "cmdline_complete dyn ctx b state dst sz tmp0 comp0 = do {
     (nb, ptok) \<leftarrow> word_scan b 0 b;
     plen \<leftarrow> strnlen ptok COMPLETE_BUF_SIZE;
     first \<leftarrow> (if state \<le> 0
       then do {
         cs \<leftarrow> first_loop dyn b nb ptok plen ctx \<lparr>cs_tmp = tmp0, cs_comp = comp0, cs_len = -1, cs_nb = 0, cs_non = 0\<rparr>;
         (if cs_nb cs = 0 \<and> cs_non cs = 0 then Some (Inl (0, state, dst))
          else if state = 0 \<and> plen > 0 \<and> cs_len cs > 0
          then (if nat (cs_len cs) + 1 > unat sz then Some (Inl (0, state, dst))
                else do {
                  (d, _) \<leftarrow> strlcpy dst (cs_comp cs) (unat sz);
                  d \<leftarrow> upd_opt d (nat (cs_len cs)) 0;
                  Some (Inl (2, state, d)) })
          else Some (Inr (cs_tmp cs))) }
       else Some (Inr tmp0));
     (case first of
        Inl r \<Rightarrow> Some r
      | Inr tmp \<Rightarrow> second_loop dyn b nb ptok plen dst sz (if state = -1 then 0 else state) ctx 0 tmp) }"

end
