(* ===== verification/Cmdline_Complete_Props.thy ===== *)
theory Cmdline_Complete_Props
  imports Cmdline_Complete Cmdline_Parse_Props "HOL-Library.Sublist"
begin

text \<open>
  What completion offers, for instructions whose tokens keep the contract \<open>token_completer\<close>. The entries of
  a line are the choices that extend its last word, or one line of help for a token without choices. A
  first call writes what all choices go on with; the calls that list the entries give each of them once, in the order of the
  instructions, and end.
\<close>

section \<open>The contract of a token\<close>

definition local_buffer :: "u8 list \<Rightarrow> bool" where "local_buffer d \<longleftrightarrow> length d = CMDLINE_BUFFER_SIZE"

text \<open>\<open>cs\<close> are the choices of the token, none when it is not completable; \<open>h\<close> is its help.\<close>

locale token_completer =
  fixes tk :: cmdline_token and cs :: "u8 list list" and h :: "u8 list option"
  assumes number: "nb_choices (Some tk) = Some (length cs)"
    and strings: "c \<in> set cs \<Longrightarrow> 0 \<notin> set c"
    and choice: "i < length cs \<Longrightarrow> local_buffer d \<Longrightarrow> \<exists>t r. (the (complete_get_elt tk)) (int i) d (of_nat CMDLINE_BUFFER_SIZE) = Some (t, r) \<and>
      local_buffer t \<and> (if length (cs ! i) < CMDLINE_BUFFER_SIZE then 0 \<le> r \<and> (\<exists>t'. t = cs ! i @ 0 # t') else r < 0)"
    and no_help: "h = None \<Longrightarrow> get_help tk = None"
    and help_text: "h = Some t \<Longrightarrow> \<exists>gh. get_help tk = Some gh \<and> 0 \<notin> set t \<and> length t < CMDLINE_BUFFER_SIZE \<and>
      (\<forall>d. local_buffer d \<longrightarrow> (\<exists>d' r. gh d CMDLINE_BUFFER_SIZE = Some (t @ 0 # d', r)))"

section \<open>The line\<close>

definition partial_word :: "u8 list \<Rightarrow> u8 list" where
  "partial_word s = rev (takeWhile (\<lambda>c. \<not> cmdline_isblank2 c) (rev s))"

text \<open>The words that a blank follows.\<close>

definition complete_words :: "u8 list \<Rightarrow> nat" where
  "complete_words s = length (filter (\<lambda>(c, d). \<not> cmdline_isblank2 c \<and> cmdline_isblank2 d) (zip s (tl s)))"

lemma blank_0: "\<not> cmdline_isblank2 0"
  by (simp add: cmdline_isblank2_def)

lemma partial_word_Cons: "partial_word (c # s) = (if \<exists>d \<in> set s. cmdline_isblank2 d then partial_word s else if cmdline_isblank2 c then s else c # s)"
proof (cases "\<exists>d \<in> set s. cmdline_isblank2 d")
  case True
  then obtain d where "d \<in> set s" "cmdline_isblank2 d" by blast
  then have "takeWhile (\<lambda>c. \<not> cmdline_isblank2 c) (rev s @ [c]) = takeWhile (\<lambda>c. \<not> cmdline_isblank2 c) (rev s)"
    using takeWhile_append1 [of d "rev s"] by simp
  then show ?thesis using True by (simp add: partial_word_def)
next
  case False
  then have "takeWhile (\<lambda>c. \<not> cmdline_isblank2 c) (rev s @ [c]) = rev s @ takeWhile (\<lambda>c. \<not> cmdline_isblank2 c) [c]"
    by (intro takeWhile_append2) auto
  then show ?thesis using False by (simp add: partial_word_def)
qed

lemma partial_word_no_blank: "\<forall>d \<in> set s. \<not> cmdline_isblank2 d \<Longrightarrow> partial_word s = s"
  by (induction s) (simp_all add: partial_word_Cons partial_word_def)

lemma word_scan_text:
  "0 \<notin> set s \<Longrightarrow> word_scan (s @ 0 # r) nb pt =
    Some (nb + complete_words s, if \<exists>d \<in> set s. cmdline_isblank2 d then partial_word s @ 0 # r else pt)"
proof (induction s arbitrary: nb pt)
  case Nil
  then show ?case by (cases r) (simp_all add: complete_words_def)
next
  case (Cons c s)
  show ?case
  proof (cases s)
    case Nil
    then show ?thesis using Cons by (auto simp: blank_0 complete_words_def partial_word_def)
  next
    case (Cons d s')
    then have "word_scan ((c # s) @ 0 # r) nb pt = word_scan (s @ 0 # r) (if \<not> cmdline_isblank2 c \<and> cmdline_isblank2 d then nb + 1 else nb)
        (if cmdline_isblank2 c \<and> \<not> cmdline_isblank2 d then s @ 0 # r else pt)"
      using Cons.prems by simp
    then show ?thesis using Cons.IH Cons.prems Cons by (auto simp: complete_words_def partial_word_Cons partial_word_no_blank)
  qed
qed

lemma partial_word_chars: "set (partial_word s) \<subseteq> set s"
  by (auto simp: partial_word_def dest: set_takeWhileD)

lemma word_scan_line: "0 \<notin> set s \<Longrightarrow> word_scan (s @ 0 # r) 0 (s @ 0 # r) = Some (complete_words s, partial_word s @ 0 # r)"
  using word_scan_text [of s r 0 "s @ 0 # r"] partial_word_no_blank [of s] by auto

section \<open>Entries\<close>

text \<open>A choice as it is shown and the test of the last word against it.\<close>

definition shown :: "u8 list \<Rightarrow> u8 list" where
  "shown c = (if length c < CMDLINE_BUFFER_SIZE - 1 then c @ [0x20] else c)"

definition offered :: "u8 list \<Rightarrow> u8 list \<Rightarrow> bool" where
  "offered p c \<longleftrightarrow> length c < CMDLINE_BUFFER_SIZE \<and> prefix p (shown c)"

lemma strncmp_eq_prefix:
  "0 \<notin> set p \<Longrightarrow> 0 \<notin> set t \<Longrightarrow> n \<le> length p \<Longrightarrow> strncmp_eq (p @ x) (t @ 0 # y) n = Some (take n t = take n p)"
proof (induction p arbitrary: t n)
  case (Cons c p)
  then show ?case by (cases t; cases n) auto
qed simp

lemma shown_length: "length c < CMDLINE_BUFFER_SIZE \<Longrightarrow> length (shown c) < CMDLINE_BUFFER_SIZE"
  by (auto simp: shown_def)

lemma prefix_cut:
  assumes "length t < m"
  shows "take (min (length p) m) t = take (min (length p) m) p \<longleftrightarrow> prefix p t"
proof (cases "length p \<le> m")
  case True
  then show ?thesis by (auto simp: prefix_def min_def) (metis append_take_drop_id)
next
  case False
  then have "take m t \<noteq> take m p" using assms by (metis length_take min.absorb4 nat_le_linear min_def not_less)
  moreover have "\<not> prefix p t" using False assms by (auto dest: prefix_length_le)
  ultimately show ?thesis using False by (simp add: min_def)
qed

text \<open>The lines of a token: what is shown after the choice, or instead of it.\<close>

definition help_entry :: "u8 list option \<Rightarrow> u8 list \<Rightarrow> u8 list" where
  "help_entry hs t = [0x5B] @ t @ [0x5D, 0x3A, 0x20] @
     (case hs of None \<Rightarrow> butlast (literal ''No help'') | Some s \<Rightarrow> takeWhile (\<lambda>c. c \<noteq> 0) s)"

definition choice_entry :: "u8 list option \<Rightarrow> u8 list option \<Rightarrow> u8 list \<Rightarrow> u8 list" where
  "choice_entry hs h c = shown c @ (case h of None \<Rightarrow> [] | Some t \<Rightarrow> help_entry hs t)"

definition lone_entry :: "u8 list option \<Rightarrow> u8 list option \<Rightarrow> u8 list" where
  "lone_entry hs h = (case h of None \<Rightarrow> butlast (literal ''[RETURN]'') | Some t \<Rightarrow> help_entry hs t)"

text \<open>The memory after a text and its end were written to it.\<close>

definition written :: "u8 list \<Rightarrow> u8 list \<Rightarrow> u8 list" where
  "written dst e = e @ 0 # drop (Suc (length e)) dst"

lemma written_length: "length e < length dst \<Longrightarrow> length (written dst e) = length dst"
  by (simp add: written_def)

lemma strlcpy_written: "0 \<notin> set e \<Longrightarrow> length e < n \<Longrightarrow> n \<le> length dst \<Longrightarrow> strlcpy dst (e @ 0 # r) n = Some (written dst e, length e)"
  by (simp add: strlcpy_text written_def min_def)

lemma snprintf_at_0: "length e < unat sz \<Longrightarrow> unat sz \<le> length dst \<Longrightarrow> snprintf_at dst 0 sz e = Some (written dst e)"
  by (auto simp: snprintf_at_def blit_def written_def)

lemma snprintf_at_end:
  assumes "length (e @ line) < unat sz" "unat sz \<le> length dst"
  shows "snprintf_at (written dst e) (length e) (sz - of_nat (length e)) line = Some (written dst (e @ line))"
proof -
  have "unat sz < 2 ^ LENGTH(32)" by (rule unsigned_less)
  then have u: "unat (of_nat (length e) :: u32) = length e"
    using assms(1) by (simp add: unat_of_nat take_bit_nat_eq_self)
  then have "of_nat (length e) \<le> sz" using assms(1) by (simp add: word_le_nat_alt)
  then have n: "unat (sz - of_nat (length e)) = unat sz - length e" using u by (simp add: unat_sub)
  then have "sz - of_nat (length e) \<noteq> 0" using assms(1) by auto
  then show ?thesis using assms n by (auto simp: snprintf_at_def blit_def written_def add.commute)
qed

definition help_string :: "u8 list option \<Rightarrow> bool" where
  "help_string hs \<longleftrightarrow> (\<forall>s. hs = Some s \<longrightarrow> 0 \<in> set s)"

lemma strlen_takeWhile: "0 \<in> set s \<Longrightarrow> strlen s = Some (length (takeWhile (\<lambda>c. c \<noteq> 0) s))"
  by (induction s) auto

lemma take_takeWhile_length: "take (length (takeWhile p s)) s = takeWhile p s"
  by (induction s) auto

text \<open>Call number \<open>k\<close>, with \<open>j\<close> entries before \<open>es\<close>: it stops at its entry, or passes all of them.\<close>

definition picks :: "u8 list \<Rightarrow> u8 list list \<Rightarrow> nat \<Rightarrow> nat \<Rightarrow> u8 list + int \<times> u8 list \<Rightarrow> bool" where
  "picks dst es k j out \<longleftrightarrow> (if k - j < length es then out = Inl (written dst (es ! (k - j)))
     else \<exists>d. local_buffer d \<and> out = Inr (int (j + length es), d))"

lemma picks_skip: "picks dst es k (j + 1) out \<Longrightarrow> j < k \<Longrightarrow> picks dst (e # es) k j out"
  using Suc_diff_Suc [of j k] by (auto simp: picks_def nth_Cons' split: if_splits)

lemma picks_now: "picks dst (e # es) k k (Inl (written dst e))"
  by (simp add: picks_def)

context token_completer
begin

lemma load_choice_ok:
  assumes "i < length cs" "local_buffer d" "0 \<notin> set p"
  shows "\<exists>d'. load_choice tk (p @ 0 # r) (min (length p) COMPLETE_BUF_SIZE) i d = Some (d', offered p (cs ! i)) \<and> local_buffer d' \<and>
    (offered p (cs ! i) \<longrightarrow> (\<exists>d''. d' = shown (cs ! i) @ 0 # d''))"
proof -
  let ?c = "cs ! i"
  obtain t x where t: "(the (complete_get_elt tk)) (int i) d (of_nat CMDLINE_BUFFER_SIZE) = Some (t, x)" "local_buffer t"
    "if length ?c < CMDLINE_BUFFER_SIZE then 0 \<le> x \<and> (\<exists>t'. t = ?c @ 0 # t') else x < 0" using choice [OF assms(1,2)] by blast
  show ?thesis
  proof (cases "length ?c < CMDLINE_BUFFER_SIZE")
    case False
    then show ?thesis using t by (simp add: load_choice_def offered_def)
  next
    case True
    then obtain t' where t': "t = ?c @ 0 # t'" "0 \<le> x" using t(3) by auto
    have z: "0 \<notin> set ?c" using strings assms(1) by simp
    have n: "strnlen t CMDLINE_BUFFER_SIZE = Some (length ?c)" using strnlen_text [OF z, of t' CMDLINE_BUFFER_SIZE] True t'(1) by simp
    obtain d'' where s: "(if length ?c < CMDLINE_BUFFER_SIZE - 1
        then do { t \<leftarrow> upd_opt t (length ?c) 0x20; upd_opt t (length ?c + 1) 0 } else Some t) = Some (shown ?c @ 0 # d'')"
      "local_buffer (shown ?c @ 0 # d'')"
    proof (cases "length ?c < CMDLINE_BUFFER_SIZE - 1")
      case True
      then obtain y t'' where y: "t' = y # t''" using t'(1) t(2) by (cases t') (auto simp: local_buffer_def)
      show thesis by (rule that [of t'']) (use True t'(1) t(2) y in \<open>simp_all add: upd_opt_def shown_def local_buffer_def list_update_append\<close>)
    next
      case False
      then show thesis using that [of t'] t'(1) t(2) by (simp add: shown_def)
    qed
    have zs: "0 \<notin> set (shown ?c)" using z by (auto simp: shown_def)
    have "length (shown ?c) < COMPLETE_BUF_SIZE" using shown_length [OF True] by (simp add: CMDLINE_BUFFER_SIZE_def COMPLETE_BUF_SIZE_def)
    then have "strncmp_eq (p @ 0 # r) (shown ?c @ 0 # d'') (min (length p) COMPLETE_BUF_SIZE) = Some (offered p ?c)"
      using strncmp_eq_prefix [OF assms(3) zs] True by (simp add: prefix_cut offered_def)
    then show ?thesis using t(1) t'(2) n s by (simp add: load_choice_def)
  qed
qed

lemma help_line_ok:
  assumes "h = Some t" "local_buffer d" "help_string hs"
  shows "\<exists>gh d'. get_help tk = Some gh \<and> help_line gh hs d = Some (d', help_entry hs t)"
proof -
  obtain gh where gh: "get_help tk = Some gh" "0 \<notin> set t"
    "\<forall>d. local_buffer d \<longrightarrow> (\<exists>d' r. gh d CMDLINE_BUFFER_SIZE = Some (t @ 0 # d', r))" using help_text [OF assms(1)] by blast
  obtain d' r where "gh d CMDLINE_BUFFER_SIZE = Some (t @ 0 # d', r)" using gh(3) assms(2) by blast
  then show ?thesis using gh(1) strlen_text [OF gh(2), of d'] assms(3)
    by (auto simp: help_line_def help_entry_def help_string_def strlen_takeWhile take_takeWhile_length split: option.splits)
qed

text \<open>The choices from \<open>i\<close> on.\<close>

lemma second_elts_ok:
  assumes p: "0 \<notin> set p" and hs: "help_string hs" and sz: "unat sz \<le> length dst"
  shows "i + n = length cs \<Longrightarrow> j \<le> k \<Longrightarrow> local_buffer d \<Longrightarrow>
    \<forall>e \<in> set (map (choice_entry hs h) (filter (offered p) (drop i cs))). length e < unat sz \<Longrightarrow>
    \<exists>out. second_elts tk hs (p @ 0 # r) (min (length p) COMPLETE_BUF_SIZE) dst sz (int k) i n (int j) d = Some out \<and>
      picks dst (map (choice_entry hs h) (filter (offered p) (drop i cs))) k j out"
proof (induction n arbitrary: i j d)
  case 0
  then show ?case by (auto simp: picks_def)
next
  case (Suc n)
  let ?c = "cs ! i"
  have i: "i < length cs" "drop i cs = ?c # drop (i + 1) cs" using Suc.prems(1) by (simp_all add: Cons_nth_drop_Suc)
  obtain d1 where d1: "load_choice tk (p @ 0 # r) (min (length p) COMPLETE_BUF_SIZE) i d = Some (d1, offered p ?c)" "local_buffer d1"
    "offered p ?c \<Longrightarrow> \<exists>d''. d1 = shown ?c @ 0 # d''" using load_choice_ok [OF i(1) Suc.prems(3) p, of r] by blast
  note IH = Suc.IH [of "i + 1" _ d1, OF _ _ d1(2)]
  show ?case
  proof (cases "offered p ?c")
    case False
    then show ?thesis using d1(1) i(2) IH [of j] Suc.prems(1,2,4) by simp
  next
    case True
    have es: "map (choice_entry hs h) (filter (offered p) (drop i cs)) =
        choice_entry hs h ?c # map (choice_entry hs h) (filter (offered p) (drop (i + 1) cs))" using True i(2) by simp
    show ?thesis
    proof (cases "j < k")
      case jk: True
      obtain out where "second_elts tk hs (p @ 0 # r) (min (length p) COMPLETE_BUF_SIZE) dst sz (int k) (i + 1) n (int (j + 1)) d1 = Some out"
        "picks dst (map (choice_entry hs h) (filter (offered p) (drop (i + 1) cs))) k (j + 1) out"
        using IH [of "j + 1"] Suc.prems(1,4) jk es by auto
      then show ?thesis unfolding es using True jk d1(1) picks_skip by (auto simp: add.commute)
    next
      case False
      then have kj: "k = j" using Suc.prems(2) by simp
      obtain d'' where d'': "d1 = shown ?c @ 0 # d''" using d1(3) True by blast
      have z: "0 \<notin> set (shown ?c)" using strings [of ?c] i(1) by (auto simp: shown_def)
      have len: "length (choice_entry hs h ?c) < unat sz" using Suc.prems(4) es by simp
      then have l: "length (shown ?c) < unat sz" by (simp add: choice_entry_def)
      note cp = strlcpy_written [OF z l sz, of d'', folded d'']
      have "second_elts tk hs (p @ 0 # r) (min (length p) COMPLETE_BUF_SIZE) dst sz (int k) i (Suc n) (int j) d =
        Some (Inl (written dst (choice_entry hs h ?c)))"
      proof (cases h)
        case None
        then show ?thesis using True kj d1(1) cp no_help by (simp add: choice_entry_def)
      next
        case (Some t)
        obtain gh d' where gh: "get_help tk = Some gh" "help_line gh hs d1 = Some (d', help_entry hs t)"
          using help_line_ok [OF Some d1(2) hs] by blast
        have "snprintf_at (written dst (shown ?c)) (length (shown ?c)) (sz - of_nat (length (shown ?c))) (help_entry hs t) =
            Some (written dst (choice_entry hs h ?c))"
          using snprintf_at_end [of "shown ?c" "help_entry hs t" sz dst] len sz Some by (simp add: choice_entry_def)
        then show ?thesis using True kj d1(1) cp gh by simp
      qed
      then show ?thesis unfolding es kj using picks_now by blast
    qed
  qed
qed

end

section \<open>Instructions\<close>

text \<open>The instruction fits the complete words of the line.\<close>

definition fits_words :: "('f \<Rightarrow> nat \<Rightarrow> cmdline_token option) \<Rightarrow> u8 list \<Rightarrow> nat \<Rightarrow> 'f cmdline_inst \<Rightarrow> bool" where
  "fits_words dyn b nb inst \<longleftrightarrow> nb = 0 \<or> fst (the (match_inst dyn inst b nb None)) = 0"

definition token_entries :: "u8 list list \<Rightarrow> u8 list option \<Rightarrow> u8 list option \<Rightarrow> u8 list \<Rightarrow> u8 list list" where
  "token_entries cs h hs p = (if cs = [] then [lone_entry hs h] else map (choice_entry hs h) (filter (offered p) cs))"

definition inst_entries ::
  "(cmdline_token \<Rightarrow> u8 list list) \<Rightarrow> (cmdline_token \<Rightarrow> u8 list option) \<Rightarrow> ('f \<Rightarrow> nat \<Rightarrow> cmdline_token option) \<Rightarrow>
    u8 list \<Rightarrow> nat \<Rightarrow> u8 list \<Rightarrow> 'f cmdline_inst \<Rightarrow> u8 list list" where
  "inst_entries ch hp dyn b nb p inst =
     (if \<not> fits_words dyn b nb inst then []
      else case the (get_token dyn inst nb) of
          None \<Rightarrow> [lone_entry (help_str inst) None]
        | Some tk \<Rightarrow> token_entries (ch tk) (hp tk) (help_str inst) p)"

definition completable ::
  "(cmdline_token \<Rightarrow> u8 list list) \<Rightarrow> (cmdline_token \<Rightarrow> u8 list option) \<Rightarrow> 'f cmdline_inst \<Rightarrow> bool" where
  "completable ch hp inst \<longleftrightarrow> help_string (help_str inst) \<and>
     (\<exists>toks. static_inst inst toks \<and> (\<forall>tk \<in> set toks. token_completer tk (ch tk) (hp tk)))"

lemma next_token_ok:
  assumes "static_inst inst toks" "0 \<in> set b"
  shows "next_token dyn b nb inst = Some (if fits_words dyn b nb inst then Some (the (get_token dyn inst nb)) else None)"
    "fits_words dyn b nb inst \<Longrightarrow> get_token dyn inst nb = Some (if nb < length toks then Some (toks ! nb) else None)"
proof -
  obtain tok res where m: "match_inst dyn inst b nb None = Some (tok, res)" "nb \<noteq> 0 \<and> tok = 0 \<longrightarrow> nb \<le> length toks"
    using match_inst_total [OF assms] by blast
  show g: "get_token dyn inst nb = Some (if nb < length toks then Some (toks ! nb) else None)" if "fits_words dyn b nb inst"
    using get_token_static [OF assms(1), of nb dyn] that m by (cases "nb = 0") (auto simp: fits_words_def)
  show "next_token dyn b nb inst = Some (if fits_words dyn b nb inst then Some (the (get_token dyn inst nb)) else None)"
    using m g by (auto simp: next_token_def fits_words_def)
qed

text \<open>What the token to complete is, with its contract.\<close>

lemma next_token_cases:
  assumes "completable ch hp inst" "0 \<in> set b"
  obtains (skip) "next_token dyn b nb inst = Some None" "inst_entries ch hp dyn b nb p inst = []"
  | (no_token) "next_token dyn b nb inst = Some (Some None)" "inst_entries ch hp dyn b nb p inst = [lone_entry (help_str inst) None]"
  | (token) tk where "next_token dyn b nb inst = Some (Some (Some tk))" "token_completer tk (ch tk) (hp tk)"
    "inst_entries ch hp dyn b nb p inst = token_entries (ch tk) (hp tk) (help_str inst) p"
proof -
  obtain toks where t: "static_inst inst toks" "\<forall>tk \<in> set toks. token_completer tk (ch tk) (hp tk)"
    using assms(1) by (auto simp: completable_def)
  note n = next_token_ok [OF t(1) assms(2), of dyn nb]
  show thesis
    by (cases "fits_words dyn b nb inst"; cases "nb < length toks")
      (use n t(2) skip no_token token in \<open>auto simp: inst_entries_def\<close>)
qed

lemma second_loop_ok:
  assumes b: "0 \<in> set b" and p: "0 \<notin> set p" and sz: "unat sz \<le> length dst"
  shows "\<forall>inst \<in> set insts. completable ch hp inst \<Longrightarrow> j \<le> k \<Longrightarrow> local_buffer d \<Longrightarrow>
    \<forall>e \<in> set (concat (map (inst_entries ch hp dyn b nb p) insts)). length e < unat sz \<Longrightarrow>
    second_loop dyn b nb (p @ 0 # r) (min (length p) COMPLETE_BUF_SIZE) dst sz (int k) (map Some insts @ None # pad) (int j) d =
      (let es = concat (map (inst_entries ch hp dyn b nb p) insts)
       in Some (if k - j < length es then (1, int k + 1, written dst (es ! (k - j))) else (0, int k, dst)))"
proof (induction insts arbitrary: j d)
  case (Cons inst insts)
  have ci: "completable ch hp inst" and hs: "help_string (help_str inst)" using Cons.prems(1) by (simp_all add: completable_def)
  note IH = Cons.IH [of _ d, OF _ _ Cons.prems(3)]
  show ?case
  proof (rule next_token_cases [OF ci b, of dyn nb p], goal_cases skip no_token token)
    case skip
    then show ?thesis using IH [of j] Cons.prems(1,2,4) by simp
  next
    case no_token
    show ?thesis
    proof (cases "j < k")
      case True
      then show ?thesis using no_token IH [of "j + 1"] Cons.prems(1,4) Suc_diff_Suc [of j k]
        by (auto simp: nb_choices_def Let_def add.commute)
    next
      case False
      then have "k = j" using Cons.prems(2) by simp
      then show ?thesis using no_token Cons.prems(4) snprintf_at_0 [OF _ sz, of "lone_entry (help_str inst) None"]
        by (simp add: nb_choices_def lone_entry_def)
    qed
  next
    case (token tk)
    note nb = token_completer.number [OF token(2)]
    show ?thesis
    proof (cases "ch tk = []")
      case True
      then have es: "inst_entries ch hp dyn b nb p inst = [lone_entry (help_str inst) (hp tk)]"
        using token(3) by (simp add: token_entries_def)
      show ?thesis
      proof (cases "j < k")
        case jk: True
        then show ?thesis using token(1) nb True es IH [of "j + 1"] Cons.prems(1,4) Suc_diff_Suc [of j k]
          by (auto simp: Let_def add.commute)
      next
        case False
        then have kj: "k = j" using Cons.prems(2) by simp
        have w: "snprintf_at dst 0 sz (lone_entry (help_str inst) (hp tk)) = Some (written dst (lone_entry (help_str inst) (hp tk)))"
          using snprintf_at_0 [OF _ sz] Cons.prems(4) es by simp
        show ?thesis
        proof (cases "hp tk")
          case None
          then show ?thesis using token_completer.no_help [OF token(2)] token(1) nb True es kj w by (simp add: lone_entry_def)
        next
          case (Some t)
          obtain gh d' where "get_help tk = Some gh" "help_line gh (help_str inst) d = Some (d', help_entry (help_str inst) t)"
            using token_completer.help_line_ok [OF token(2) Some Cons.prems(3) hs] by blast
          then show ?thesis using token(1) nb True es kj w Some by (simp add: lone_entry_def)
        qed
      qed
    next
      case False
      let ?es = "map (choice_entry (help_str inst) (hp tk)) (filter (offered p) (ch tk))"
      have es: "inst_entries ch hp dyn b nb p inst = ?es" using token(3) False by (simp add: token_entries_def)
      obtain out where out: "second_elts tk (help_str inst) (p @ 0 # r) (min (length p) COMPLETE_BUF_SIZE) dst sz (int k) 0 (length (ch tk)) (int j) d = Some out"
        "picks dst ?es k j out"
        using token_completer.second_elts_ok [OF token(2) p hs sz, of 0 "length (ch tk)" j k d r] Cons.prems(2-4) es by auto
      show ?thesis
      proof (cases "k - j < length ?es")
        case True
        then show ?thesis using out token(1) nb False es by (simp add: picks_def nth_append)
      next
        case kj: False
        obtain d' where d': "out = Inr (int (j + length ?es), d')" "local_buffer d'" using out(2) kj by (auto simp: picks_def)
        have "j + length ?es \<le> k" using kj Cons.prems(2) by simp
        then show ?thesis using Cons.IH [of "j + length ?es" d', OF _ _ d'(2)] out(1) d'(1) token(1) nb False es kj Cons.prems(1,4)
          by (auto simp: nth_append Let_def)
      qed
    qed
  qed
qed simp

section \<open>What the choices go on with\<close>

definition go_on :: "u8 list \<Rightarrow> u8 list \<Rightarrow> u8 list" where "go_on p c = drop (length p) (shown c)"

definition common :: "u8 list list \<Rightarrow> u8 list" where
  "common ws = (case ws of [] \<Rightarrow> [] | w # ws \<Rightarrow> foldl longest_common_prefix w ws)"

lemma common_snoc: "common (ws @ [w]) = (if ws = [] then w else longest_common_prefix (common ws) w)"
  by (cases ws) (simp_all add: common_def)

lemma common_prefix: "w \<in> set ws \<Longrightarrow> prefix (common ws) w"
proof (induction ws rule: rev_induct)
  case (snoc x ws)
  then show ?case
    using longest_common_prefix_prefix1 [of "common ws" x] longest_common_prefix_prefix2 [of "common ws" x]
    by (auto simp: common_snoc intro: prefix_order.trans)
qed simp

lemma common_longest: "ws \<noteq> [] \<Longrightarrow> \<forall>w \<in> set ws. prefix u w \<Longrightarrow> prefix u (common ws)"
  by (induction ws rule: rev_induct) (auto simp: common_snoc longest_common_prefix_max_prefix)

lemma nb_common_chars_text:
  "0 \<notin> set a \<Longrightarrow> 0 \<notin> set b \<Longrightarrow> nb_common_chars (a @ 0 # x) (b @ 0 # y) = Some (length (longest_common_prefix a b))"
proof (induction a arbitrary: b)
  case Nil
  then show ?case by (cases b) auto
next
  case (Cons c a)
  then show ?case by (cases b) auto
qed

definition inst_rests ::
  "(cmdline_token \<Rightarrow> u8 list list) \<Rightarrow> ('f \<Rightarrow> nat \<Rightarrow> cmdline_token option) \<Rightarrow> u8 list \<Rightarrow> nat \<Rightarrow> u8 list \<Rightarrow> 'f cmdline_inst \<Rightarrow> u8 list list" where
  "inst_rests ch dyn b nb p inst =
     (if \<not> fits_words dyn b nb inst then []
      else case the (get_token dyn inst nb) of None \<Rightarrow> [] | Some tk \<Rightarrow> map (go_on p) (filter (offered p) (ch tk)))"

text \<open>The state of the first pass after the rests \<open>ws\<close> and \<open>n\<close> entries.\<close>

definition seen_rests :: "u8 list list \<Rightarrow> nat \<Rightarrow> comp_state \<Rightarrow> bool" where
  "seen_rests ws n s \<longleftrightarrow> local_buffer (cs_tmp s) \<and> local_buffer (cs_comp s) \<and> cs_nb s = length ws \<and> cs_nb s + cs_non s = n \<and>
     cs_len s = (if ws = [] then -1 else int (length (common ws))) \<and>
     (ws \<noteq> [] \<longrightarrow> 0 \<notin> set (common ws) \<and> (\<exists>r. cs_comp s = common ws @ 0 # r))"

lemma lcp_take: "longest_common_prefix a b = take (length (longest_common_prefix a b)) a"
  by (metis append_eq_conv_conj longest_common_prefix_prefix1 prefix_def)

lemma add_choice_ok:
  assumes "seen_rests ws n s" "offered p c" "0 \<notin> set c" "cs_tmp s = shown c @ 0 # r"
  shows "\<exists>s'. add_choice (min (length p) COMPLETE_BUF_SIZE) s = Some s' \<and> seen_rests (ws @ [go_on p c]) (n + 1) s'"
proof -
  have lp: "length p < CMDLINE_BUFFER_SIZE" "length p \<le> length (shown c)"
    using assms(2) shown_length [of c] prefix_length_le [of p "shown c"] by (auto simp: offered_def)
  have m: "min (length p) COMPLETE_BUF_SIZE = length p" using lp(1) by (simp add: CMDLINE_BUFFER_SIZE_def COMPLETE_BUF_SIZE_def)
  have t: "drop (length p) (cs_tmp s) = go_on p c @ 0 # r" using lp(2) assms(4) by (simp add: go_on_def)
  have z: "0 \<notin> set (go_on p c)" using assms(3) by (auto simp: go_on_def shown_def dest: in_set_dropD)
  have l: "length (go_on p c) < CMDLINE_BUFFER_SIZE" "length (go_on p c) < CMDLINE_BUFFER_SIZE - length p"
    using shown_length [of c] assms(2) lp by (auto simp: go_on_def offered_def)
  show ?thesis
  proof (cases "ws = []")
    case True
    have "strlcpy (cs_comp s) (go_on p c @ 0 # r) CMDLINE_BUFFER_SIZE = Some (written (cs_comp s) (go_on p c), length (go_on p c))"
      by (rule strlcpy_written [OF z l(1)]) (use assms(1) in \<open>simp add: seen_rests_def local_buffer_def\<close>)
    moreover have "strnlen (go_on p c @ 0 # r) (CMDLINE_BUFFER_SIZE - length p) = Some (length (go_on p c))"
      using strnlen_text [OF z] l(2) by simp
    ultimately show ?thesis using True assms(1) z l(1) unfolding m add_choice_def t
      by (auto simp: seen_rests_def common_def local_buffer_def written_def)
  next
    case False
    let ?w = "longest_common_prefix (common ws) (go_on p c)"
    obtain y where y: "cs_comp s = common ws @ 0 # y" "0 \<notin> set (common ws)" using assms(1) False by (auto simp: seen_rests_def)
    have nb: "nb_common_chars (cs_comp s) (go_on p c @ 0 # r) = Some (length ?w)"
      unfolding y(1) by (rule nb_common_chars_text [OF y(2) z])
    have le: "length ?w \<le> length (common ws)" by (simp add: longest_common_prefix_prefix1 prefix_length_le)
    then have lt: "length ?w < length (cs_comp s)" using y(1) by simp
    obtain y' where y': "(cs_comp s)[length ?w := 0] = ?w @ 0 # y'"
      using lt le y(1) lcp_take [of "common ws" "go_on p c"] by (simp add: upd_conv_take_nth_drop)
    then have u: "upd_opt (cs_comp s) (length ?w) 0 = Some (?w @ 0 # y')" "local_buffer (?w @ 0 # y')"
      using lt assms(1) length_list_update [of "cs_comp s" "length ?w" 0] by (simp_all add: seen_rests_def local_buffer_def del: length_list_update)
    have "0 \<notin> set ?w" using y(2) lcp_take [of "common ws" "go_on p c"] by (metis in_set_takeD)
    moreover have "cs_len s \<noteq> -1" using False assms(1) by (simp add: seen_rests_def)
    then have "add_choice (min (length p) COMPLETE_BUF_SIZE) s =
        Some (s\<lparr>cs_comp := ?w @ 0 # y', cs_len := int (length ?w), cs_nb := cs_nb s + 1\<rparr>)"
      unfolding m add_choice_def t by (simp add: nb u(1) del: upd_opt_Some)
    ultimately show ?thesis using False assms(1) u(2) by (auto simp: seen_rests_def common_snoc)
  qed
qed

context token_completer
begin

lemma first_elts_ok:
  assumes p: "0 \<notin> set p"
  shows "i + k = length cs \<Longrightarrow> seen_rests ws n s \<Longrightarrow>
    \<exists>s'. first_elts tk (p @ 0 # r) (min (length p) COMPLETE_BUF_SIZE) i k s = Some s' \<and>
      seen_rests (ws @ map (go_on p) (filter (offered p) (drop i cs))) (n + length (filter (offered p) (drop i cs))) s'"
proof (induction k arbitrary: i ws n s)
  case 0
  then show ?case by simp
next
  case (Suc k)
  let ?c = "cs ! i"
  have i: "i < length cs" "drop i cs = ?c # drop (i + 1) cs" using Suc.prems(1) by (simp_all add: Cons_nth_drop_Suc)
  obtain d where d: "load_choice tk (p @ 0 # r) (min (length p) COMPLETE_BUF_SIZE) i (cs_tmp s) = Some (d, offered p ?c)" "local_buffer d"
    "offered p ?c \<Longrightarrow> \<exists>d'. d = shown ?c @ 0 # d'" using load_choice_ok [OF i(1) _ p, of "cs_tmp s" r] Suc.prems(2) by (auto simp: seen_rests_def)
  have s: "seen_rests ws n (s\<lparr>cs_tmp := d\<rparr>)" using Suc.prems(2) d(2) by (simp add: seen_rests_def)
  show ?case
  proof (cases "offered p ?c")
    case False
    then show ?thesis using d(1) i(2) Suc.IH [OF _ s, of "i + 1"] Suc.prems(1) by simp
  next
    case True
    obtain s' where s': "add_choice (min (length p) COMPLETE_BUF_SIZE) (s\<lparr>cs_tmp := d\<rparr>) = Some s'" "seen_rests (ws @ [go_on p ?c]) (n + 1) s'"
      using add_choice_ok [OF s True] d(3) [OF True] strings [of ?c] i(1) by auto
    then show ?thesis using True d(1) i(2) Suc.IH [OF _ s'(2), of "i + 1"] Suc.prems(1) by simp
  qed
qed

end

lemma first_loop_ok:
  assumes b: "0 \<in> set b" and p: "0 \<notin> set p"
  shows "\<forall>inst \<in> set insts. completable ch hp inst \<Longrightarrow> seen_rests ws n s \<Longrightarrow>
    \<exists>s'. first_loop dyn b nb (p @ 0 # r) (min (length p) COMPLETE_BUF_SIZE) (map Some insts @ None # pad) s = Some s' \<and>
      seen_rests (ws @ concat (map (inst_rests ch dyn b nb p) insts)) (n + length (concat (map (inst_entries ch hp dyn b nb p) insts))) s'"
proof (induction insts arbitrary: ws n s)
  case (Cons inst insts)
  have ci: "completable ch hp inst" using Cons.prems(1) by simp
  obtain toks where st: "static_inst inst toks" using ci by (auto simp: completable_def)
  note nt = next_token_ok(1) [OF st b, of dyn nb]
  have non: "seen_rests ws (n + 1) (s\<lparr>cs_non := cs_non s + 1\<rparr>)" using Cons.prems(2) by (auto simp: seen_rests_def)
  show ?case
  proof (rule next_token_cases [OF ci b, of dyn nb p], goal_cases skip no_token token)
    case skip
    then have "inst_rests ch dyn b nb p inst = []" using nt by (simp add: inst_rests_def split: if_splits)
    then show ?thesis using skip Cons.IH [OF _ Cons.prems(2)] Cons.prems(1) by simp
  next
    case no_token
    then have "inst_rests ch dyn b nb p inst = []" using nt by (auto simp: inst_rests_def split: if_splits)
    then show ?thesis using no_token Cons.IH [OF _ non] Cons.prems(1) by (simp add: nb_choices_def)
  next
    case (token tk)
    note nb = token_completer.number [OF token(2)]
    have rs: "inst_rests ch dyn b nb p inst = map (go_on p) (filter (offered p) (ch tk))"
      using token(1) nt by (auto simp: inst_rests_def split: if_splits)
    show ?thesis
    proof (cases "ch tk = []")
      case True
      then show ?thesis using token(1,3) nb rs Cons.IH [OF _ non] Cons.prems(1) by (simp add: token_entries_def)
    next
      case False
      obtain s' where s': "first_elts tk (p @ 0 # r) (min (length p) COMPLETE_BUF_SIZE) 0 (length (ch tk)) s = Some s'"
        "seen_rests (ws @ map (go_on p) (filter (offered p) (ch tk))) (n + length (filter (offered p) (ch tk))) s'"
        using token_completer.first_elts_ok [OF token(2) p _ Cons.prems(2), of 0 "length (ch tk)" r] by auto
      then show ?thesis using token(1,3) nb rs False Cons.IH [OF _ s'(2)] Cons.prems(1)
        by (simp add: token_entries_def add.assoc)
    qed
  qed
qed simp

lemma seen_common:
  assumes "seen_rests ws n s"
  shows "0 < cs_len s \<longleftrightarrow> common ws \<noteq> []"
    "common ws \<noteq> [] \<Longrightarrow> 0 \<notin> set (common ws) \<and> cs_len s = int (length (common ws)) \<and> (\<exists>r. cs_comp s = common ws @ 0 # r)"
  using assms by (cases "ws = []"; auto simp: seen_rests_def common_def)+

section \<open>Completion\<close>

text \<open>The entries of the line \<open>s\<close>, and what the choices of its last word go on with.\<close>

definition line_entries ::
  "(cmdline_token \<Rightarrow> u8 list list) \<Rightarrow> (cmdline_token \<Rightarrow> u8 list option) \<Rightarrow> ('f \<Rightarrow> nat \<Rightarrow> cmdline_token option) \<Rightarrow>
    'f cmdline_inst list \<Rightarrow> u8 list \<Rightarrow> u8 list \<Rightarrow> u8 list list" where
  "line_entries ch hp dyn insts s pad = concat (map (inst_entries ch hp dyn (s @ 0 # pad) (complete_words s) (partial_word s)) insts)"

definition line_rests ::
  "(cmdline_token \<Rightarrow> u8 list list) \<Rightarrow> ('f \<Rightarrow> nat \<Rightarrow> cmdline_token option) \<Rightarrow> 'f cmdline_inst list \<Rightarrow> u8 list \<Rightarrow> u8 list \<Rightarrow> u8 list list" where
  "line_rests ch dyn insts s pad = concat (map (inst_rests ch dyn (s @ 0 # pad) (complete_words s) (partial_word s)) insts)"

text \<open>The whole function, at a state that is -1 or not negative.\<close>

lemma cmdline_complete_eq:
  fixes insts :: "'f cmdline_inst list" and s pad :: "u8 list"
  assumes insts: "\<forall>inst \<in> set insts. completable ch hp inst" and s: "0 \<notin> set s" and sz: "unat sz \<le> length dst"
    and loc: "local_buffer tmp0" "local_buffer comp0"
    and len: "\<forall>e \<in> set (line_entries ch hp dyn insts s pad). length e < unat sz"
  shows "-1 \<le> state \<Longrightarrow> cmdline_complete dyn (map Some insts @ None # ctx) (s @ 0 # pad) state dst sz tmp0 comp0 = Some (
    let k = nat state; es = line_entries ch hp dyn insts s pad; w = common (line_rests ch dyn insts s pad)
    in if k = 0 \<and> es = [] then (0, state, dst)
       else if state = 0 \<and> partial_word s \<noteq> [] \<and> w \<noteq> []
       then (if length w + 1 > unat sz then (0, 0, dst) else (2, 0, written dst w))
       else if k < length es then (1, int k + 1, written dst (es ! k)) else (0, int k, dst))"
proof -
  define b p where bp: "b = s @ 0 # pad" "p = partial_word s"
  define es w where es: "es = line_entries ch hp dyn insts s pad" "w = common (line_rests ch dyn insts s pad)"
  have es_eq: "es = concat (map (inst_entries ch hp dyn b (complete_words s) p) insts)"
    and w_eq: "w = common (concat (map (inst_rests ch dyn b (complete_words s) p) insts))"
    by (simp_all add: es bp line_entries_def line_rests_def)
  have b: "0 \<in> set b" and p: "0 \<notin> set p" using s partial_word_chars [of s] by (auto simp: bp)
  have ws: "word_scan b 0 b = Some (complete_words s, p @ 0 # pad)" unfolding bp by (rule word_scan_line [OF s])
  have pl: "strnlen (p @ 0 # pad) COMPLETE_BUF_SIZE = Some (min (length p) COMPLETE_BUF_SIZE)" by (rule strnlen_text [OF p])
  have m0: "min (length p) COMPLETE_BUF_SIZE = 0 \<longleftrightarrow> p = []" by (cases p) (simp_all add: COMPLETE_BUF_SIZE_def)
  have "seen_rests [] 0 \<lparr>cs_tmp = tmp0, cs_comp = comp0, cs_len = -1, cs_nb = 0, cs_non = 0\<rparr>" using loc by (simp add: seen_rests_def)
  from first_loop_ok [OF b p insts this, of dyn "complete_words s" pad ctx] obtain cs where
    cs: "first_loop dyn b (complete_words s) (p @ 0 # pad) (min (length p) COMPLETE_BUF_SIZE) (map Some insts @ None # ctx)
        \<lparr>cs_tmp = tmp0, cs_comp = comp0, cs_len = -1, cs_nb = 0, cs_non = 0\<rparr> = Some cs"
      "seen_rests (concat (map (inst_rests ch dyn b (complete_words s) p) insts)) (length es) cs" by (auto simp: es_eq)
  have len': "\<forall>e \<in> set es. length e < unat sz" using len by (simp add: es)
  have sp: "second_loop dyn b (complete_words s) (p @ 0 # pad) (min (length p) COMPLETE_BUF_SIZE) dst sz (int k) (map Some insts @ None # ctx) 0 d =
      Some (if k < length es then (1, int k + 1, written dst (es ! k)) else (0, int k, dst))" if "local_buffer d" for k d
    using second_loop_ok [OF b p sz insts le0 that, where k = k and dyn = dyn and nb = "complete_words s" and r = pad and pad = ctx] len'
    by (simp add: es_eq [symmetric] Let_def)
  assume st: "-1 \<le> state"
  have sp0: "second_loop dyn b (complete_words s) (p @ 0 # pad) (min (length p) COMPLETE_BUF_SIZE) dst sz (if state = -1 then 0 else state)
      (map Some insts @ None # ctx) 0 d = Some (if nat state < length es then (1, int (nat state) + 1, written dst (es ! nat state)) else (0, int (nat state), dst))"
    if "local_buffer d" for d using sp [OF that, of "nat state"] st by (cases "state = -1") simp_all
  show ?thesis
  proof (cases "state \<le> 0")
    case False
    then show ?thesis unfolding es [symmetric] bp [symmetric] using ws pl sp0 [OF loc(1)] by (simp add: cmdline_complete_def Let_def)
  next
    case True
    have "cs_nb cs + cs_non cs = length es" using cs(2) unfolding seen_rests_def by blast
    then have none: "cs_nb cs = 0 \<and> cs_non cs = 0 \<longleftrightarrow> es = []" by auto
    have tmp: "local_buffer (cs_tmp cs)" using cs(2) by (simp add: seen_rests_def)
    have goes: "0 < cs_len cs \<longleftrightarrow> w \<noteq> []" using seen_common(1) [OF cs(2)] by (simp add: w_eq)
    show ?thesis
    proof (cases "es \<noteq> [] \<and> state = 0 \<and> p \<noteq> [] \<and> w \<noteq> []")
      case False
      then show ?thesis unfolding es [symmetric] bp [symmetric] using True st ws pl cs(1) none goes sp0 [OF tmp] m0
        by (auto simp: cmdline_complete_def Let_def)
    next
      case c: True
      then obtain y where y: "cs_comp cs = w @ 0 # y" "cs_len cs = int (length w)" "0 \<notin> set w"
        using seen_common(2) [OF cs(2)] by (auto simp: w_eq)
      have "strlcpy dst (cs_comp cs) (unat sz) = Some (written dst w, length w)" "(written dst w)[length w := 0] = written dst w"
        "length w < length (written dst w)" if "length w + 1 \<le> unat sz"
        unfolding y(1) using strlcpy_written [OF y(3) _ sz, of y] that sz by (simp_all add: written_def)
      then show ?thesis unfolding es [symmetric] bp [symmetric] using c ws pl cs(1) none goes m0 y(2)
        by (auto simp: cmdline_complete_def Let_def upd_opt_def)
    qed
  qed
qed

section \<open>The list of entries\<close>

lemma literal_chars: "0 \<notin> set (butlast (literal ''No help''))" "0 \<notin> set (butlast (literal ''[RETURN]''))"
  by code_simp+

lemma help_entry_chars: "0 \<notin> set t \<Longrightarrow> 0 \<notin> set (help_entry hs t)"
  using literal_chars by (auto simp: help_entry_def dest: set_takeWhileD split: option.splits)

lemma line_entries_chars:
  assumes "\<forall>inst \<in> set insts. completable ch hp inst" "0 \<notin> set s" "e \<in> set (line_entries ch hp dyn insts s pad)"
  shows "0 \<notin> set e"
proof -
  obtain inst where i: "inst \<in> set insts" "e \<in> set (inst_entries ch hp dyn (s @ 0 # pad) (complete_words s) (partial_word s) inst)"
    using assms(3) by (auto simp: line_entries_def)
  then have ci: "completable ch hp inst" using assms(1) by simp
  have b: "0 \<in> set (s @ 0 # pad)" by simp
  show ?thesis
  proof (rule next_token_cases [OF ci b, of dyn "complete_words s" "partial_word s"], goal_cases skip no_token token)
    case skip
    then show ?thesis using i(2) by simp
  next
    case no_token
    then show ?thesis using i(2) literal_chars by (simp add: lone_entry_def)
  next
    case (token tk)
    have "0 \<notin> set t" if "hp tk = Some t" for t using token_completer.help_text [OF token(2) that] by auto
    moreover have "0 \<notin> set (shown c)" if "c \<in> set (ch tk)" for c
      using token_completer.strings [OF token(2) that] by (simp add: shown_def)
    ultimately show ?thesis using i(2) token(3) literal_chars help_entry_chars
      by (auto simp: token_entries_def lone_entry_def choice_entry_def split: if_splits option.splits)
  qed
qed

text \<open>The calls of a user that lists the entries: until the result is 0, each with the state and the memory of the one before.\<close>

fun listing :: "(int \<Rightarrow> u8 list \<Rightarrow> (int \<times> int \<times> u8 list) option) \<Rightarrow> nat \<Rightarrow> int \<Rightarrow> u8 list \<Rightarrow> u8 list list option" where
  "listing call 0 state dst = None"
| "listing call (Suc n) state dst = do {
     (r, state, dst) \<leftarrow> call state dst;
     (if r = 0 then Some [] else map_option ((#) (takeWhile (\<lambda>c. c \<noteq> 0) dst)) (listing call n state dst)) }"

lemma takeWhile_text: "0 \<notin> set e \<Longrightarrow> takeWhile (\<lambda>c. c \<noteq> 0) (e @ 0 # r) = e"
  by (induction e) auto

lemma written_text: "0 \<notin> set e \<Longrightarrow> takeWhile (\<lambda>c. c \<noteq> 0) (written dst e) = e"
  by (simp add: written_def takeWhile_text)

lemma listing_from:
  assumes call: "\<And>k d. length d = n \<Longrightarrow> 0 < k \<Longrightarrow> call (int k) d = Some (if k < length es then (1, int k + 1, written d (es ! k)) else (0, int k, d))"
    and es: "\<forall>e \<in> set es. 0 \<notin> set e \<and> length e < n"
  shows "length d = n \<Longrightarrow> 0 < k \<Longrightarrow> k \<le> length es \<Longrightarrow> listing call (Suc (length es - k)) (int k) d = Some (drop k es)"
proof (induction "length es - k" arbitrary: k d)
  case 0
  then show ?case using call [of d k] by simp
next
  case (Suc m)
  then have k: "k < length es" by simp
  have e: "0 \<notin> set (es ! k)" "length (es ! k) < n" using es k by simp_all
  have "length (written d (es ! k)) = n" using Suc.prems(1) e(2) by (simp add: written_length)
  then have "listing call (Suc (length es - (k + 1))) (int (k + 1)) (written d (es ! k)) = Some (drop (k + 1) es)"
    using Suc.hyps(1) [of "k + 1" "written d (es ! k)"] Suc.hyps(2) k by simp
  then show ?case using call [OF Suc.prems(1,2)] k written_text [OF e(1), of d] Suc_diff_Suc [OF k]
    by (simp add: Cons_nth_drop_Suc add.commute)
qed

text \<open>
  C19: The list of completions. A user that asks for the entries of a line (state -1, or state 0 with an empty last word) and calls
  again while it gets one sees every entry exactly once, in the order of the instructions and of their choices, and the
  result 0 after the last, whatever the two local buffers have at each call.
\<close>
theorem complete_lists_entries:
  assumes insts: "\<forall>inst \<in> set insts. completable ch hp inst" and s: "0 \<notin> set s" and sz: "unat sz = length dst"
    and len: "\<forall>e \<in> set (line_entries ch hp dyn insts s pad). length e < length dst"
    and loc: "\<forall>st. local_buffer (tmp0 st) \<and> local_buffer (comp0 st)"
    and state: "state = -1 \<or> state = 0 \<and> partial_word s = []"
  shows "listing (\<lambda>st d. cmdline_complete dyn (map Some insts @ None # ctx) (s @ 0 # pad) st d sz (tmp0 st) (comp0 st))
    (Suc (length (line_entries ch hp dyn insts s pad))) state dst = Some (line_entries ch hp dyn insts s pad)"
proof -
  define es call where ec: "es = line_entries ch hp dyn insts s pad"
    "call = (\<lambda>st d. cmdline_complete dyn (map Some insts @ None # ctx) (s @ 0 # pad) st d sz (tmp0 st) (comp0 st))"
  have call: "call st d = Some (let k = nat st; w = common (line_rests ch dyn insts s pad)
      in if k = 0 \<and> es = [] then (0, st, d)
         else if st = 0 \<and> partial_word s \<noteq> [] \<and> w \<noteq> [] then (if length w + 1 > unat sz then (0, 0, d) else (2, 0, written d w))
         else if k < length es then (1, int k + 1, written d (es ! k)) else (0, int k, d))" if "-1 \<le> st" "length d = length dst" for st d
    unfolding ec using cmdline_complete_eq [OF insts s _ _ _ _ that(1), of sz d "tmp0 st" "comp0 st" dyn pad ctx] that(2) sz len loc
    by (simp add: Let_def)
  have chars: "\<forall>e \<in> set es. 0 \<notin> set e \<and> length e < length dst" using line_entries_chars [OF insts s] len by (auto simp: ec)
  have more: "call (int k) d = Some (if k < length es then (1, int k + 1, written d (es ! k)) else (0, int k, d))"
    if "length d = length dst" "0 < k" for k d using call [OF _ that(1), of "int k"] that(2) by (simp add: Let_def)
  have first: "call state dst = Some (if es = [] then (0, state, dst) else (1, 1, written dst (es ! 0)))"
    using call [of state dst] state by (auto simp: Let_def)
  have "listing call (Suc (length es)) state dst = Some es"
  proof (cases es)
    case Nil
    then show ?thesis using first by simp
  next
    case (Cons e es')
    have e: "0 \<notin> set e" "length (written dst e) = length dst" using chars Cons by (simp_all add: written_length)
    have "listing call (Suc (length es')) 1 (written dst e) = Some es'"
      using listing_from [OF more chars e(2), of 1] Cons by simp
    then show ?thesis using first Cons written_text [OF e(1), of dst] by simp
  qed
  then show ?thesis by (simp add: ec)
qed

lemma entries_no_rests: "inst_entries ch hp dyn b nb p inst = [] \<Longrightarrow> inst_rests ch dyn b nb p inst = []"
  by (auto simp: inst_entries_def inst_rests_def token_entries_def split: if_splits option.splits)

text \<open>
  C20: Completion. When the last word is not empty and the choices that extend it go on with the same characters \<open>w\<close>, a first
  call returns 2 and writes \<open>w\<close>: every choice goes on with \<open>w\<close>, and no longer text has this property. With less than
  \<open>length w + 1\<close> characters of room it returns 0 and writes nothing.
\<close>
theorem complete_writes_common:
  assumes insts: "\<forall>inst \<in> set insts. completable ch hp inst" and s: "0 \<notin> set s" "partial_word s \<noteq> []"
    and sz: "unat sz \<le> length dst" and loc: "local_buffer tmp0" "local_buffer comp0"
    and len: "\<forall>e \<in> set (line_entries ch hp dyn insts s pad). length e < unat sz"
  defines "ws \<equiv> line_rests ch dyn insts s pad"
  assumes w: "common ws \<noteq> []"
  shows "cmdline_complete dyn (map Some insts @ None # ctx) (s @ 0 # pad) 0 dst sz tmp0 comp0 = Some (
      if length (common ws) + 1 > unat sz then (0, 0, dst) else (2, 0, common ws @ 0 # drop (Suc (length (common ws))) dst)) \<and>
    (\<forall>c \<in> set ws. prefix (common ws) c) \<and> (\<forall>u. (\<forall>c \<in> set ws. prefix u c) \<longrightarrow> prefix u (common ws))"
proof -
  have ws: "ws \<noteq> []" using w by (auto simp: common_def)
  obtain inst where "inst \<in> set insts" "inst_rests ch dyn (s @ 0 # pad) (complete_words s) (partial_word s) inst \<noteq> []"
    using ws by (auto simp: ws_def line_rests_def)
  then have "line_entries ch hp dyn insts s pad \<noteq> []" using entries_no_rests by (fastforce simp: line_entries_def)
  then have "cmdline_complete dyn (map Some insts @ None # ctx) (s @ 0 # pad) 0 dst sz tmp0 comp0 = Some (
      if length (common ws) + 1 > unat sz then (0, 0, dst) else (2, 0, common ws @ 0 # drop (Suc (length (common ws))) dst))"
    using cmdline_complete_eq [OF insts s(1) sz loc len, of 0 ctx] w s(2) by (simp add: ws_def written_def Let_def)
  then show ?thesis using common_prefix common_longest [OF ws] by blast
qed

end
