(* ===== verification/Cmdline_Completers.thy ===== *)
theory Cmdline_Completers
  imports Cmdline_Tokens Cmdline_Complete_Props
begin

text \<open>
  The tokens of the command line library in completion: every one keeps the contract \<open>token_completer\<close>. Only
  a string with choices offers any.
\<close>

section \<open>Help\<close>

lemma literal_eq: "literal s = butlast (literal s) @ [0]"
  by (simp add: literal_def)

lemma strlcpy_help:
  assumes "0 \<notin> set t" "length t < CMDLINE_BUFFER_SIZE" "local_buffer d"
  shows "strlcpy d (t @ [0]) CMDLINE_BUFFER_SIZE = Some (written d t, length t)"
  using strlcpy_written [of t CMDLINE_BUFFER_SIZE d "[]"] assms by (simp add: local_buffer_def)

lemma help_text_ok:
  assumes "0 \<notin> set (butlast (literal s))" "length (literal s) \<le> CMDLINE_BUFFER_SIZE" "local_buffer d"
  shows "\<exists>d' r. Cmdline_Tokens.help_text s d CMDLINE_BUFFER_SIZE = Some (butlast (literal s) @ 0 # d', r)"
proof -
  have "literal s \<noteq> []" by (simp add: literal_def)
  then have "length (butlast (literal s)) < CMDLINE_BUFFER_SIZE" using assms(2) by (cases "literal s") auto
  then show ?thesis using strlcpy_help [OF assms(1) _ assms(3)] literal_eq [of s] by (auto simp: Cmdline_Tokens.help_text_def written_def)
qed

text \<open>A token without choices.\<close>

lemma plain_completer:
  assumes "complete_get_nb tk = None" "get_help tk = Some gh" "0 \<notin> set t" "length t < CMDLINE_BUFFER_SIZE"
    and "\<And>d. local_buffer d \<Longrightarrow> \<exists>d' r. gh d CMDLINE_BUFFER_SIZE = Some (t @ 0 # d', r)"
  shows "token_completer tk [] (Some t)"
  by unfold_locales (use assms in \<open>auto simp: nb_choices_def\<close>)

lemma help_text_completer:
  assumes "complete_get_nb tk = None" "get_help tk = Some (Cmdline_Tokens.help_text s)"
    "0 \<notin> set (butlast (literal s))" "length (literal s) \<le> CMDLINE_BUFFER_SIZE"
  shows "token_completer tk [] (Some (butlast (literal s)))"
proof (rule plain_completer [OF assms(1-3) _ help_text_ok [OF assms(3,4)]])
  show "length (butlast (literal s)) < CMDLINE_BUFFER_SIZE" using assms(4) by (simp add: literal_def)
qed

lemma num_help_ok: "0 \<notin> set (butlast (num_help ty))" "length (butlast (num_help ty)) < CMDLINE_BUFFER_SIZE" "num_help ty = butlast (num_help ty) @ [0]"
  by (cases ty; simp add: num_help_def literal_def CMDLINE_BUFFER_SIZE_def)+

lemma cmdline_get_help_num_ok:
  assumes "local_buffer d"
  shows "\<exists>d' r. cmdline_get_help_num ty d CMDLINE_BUFFER_SIZE = Some (butlast (num_help ty) @ 0 # d', r)"
proof -
  let ?t = "butlast (num_help ty)"
  have c: "strlcpy d (num_help ty) CMDLINE_BUFFER_SIZE = Some (written d ?t, length ?t)"
    by (subst num_help_ok(3)) (rule strlcpy_help [OF num_help_ok(1,2) assms])
  have l: "length (written d ?t) = CMDLINE_BUFFER_SIZE" "CMDLINE_BUFFER_SIZE - 1 > length ?t"
    using assms num_help_ok(2) [of ty] by (cases ty; simp add: local_buffer_def written_def CMDLINE_BUFFER_SIZE_def num_help_def literal_def)+
  have "\<exists>d'. (written d ?t)[CMDLINE_BUFFER_SIZE - 1 := 0] = ?t @ 0 # d'"
    using l(2) by (simp add: written_def list_update_append split: nat.split)
  then show ?thesis using c l by (auto simp: cmdline_get_help_num_def upd_opt_def CMDLINE_BUFFER_SIZE_def)
qed

interpretation num_completer: token_completer "cmdline_token_num_ops ty off" "[]" "Some (butlast (num_help ty))" for ty off
  by (rule plain_completer [where gh = "cmdline_get_help_num ty"])
    (use num_help_ok(1,2) [of ty] cmdline_get_help_num_ok in \<open>simp_all add: cmdline_token_num_ops_def\<close>)

interpretation portlist_completer: token_completer "cmdline_token_portlist_ops off" "[]" "Some (butlast (literal ''range of ports as 3,4-6,8-19,20''))" for off
  by (rule help_text_completer) (simp_all add: cmdline_token_portlist_ops_def cmdline_get_help_portlist_def literal_def CMDLINE_BUFFER_SIZE_def)

interpretation etheraddr_completer: token_completer "cmdline_token_etheraddr_ops off" "[]" "Some (butlast (literal ''Ethernet address''))" for off
  by (rule help_text_completer) (simp_all add: cmdline_token_etheraddr_ops_def cmdline_get_help_etheraddr_def literal_def CMDLINE_BUFFER_SIZE_def)

interpretation ipaddr_completer: token_completer "cmdline_token_ipaddr_ops pton4 pton6 flags off" "[]" "Some (butlast (literal (ipaddr_help flags)))"
  for pton4 pton6 flags off
  by (rule help_text_completer)
    (simp_all add: cmdline_token_ipaddr_ops_def cmdline_get_help_ipaddr_def ipaddr_help_def literal_def CMDLINE_BUFFER_SIZE_def)

section \<open>Strings\<close>

definition string_help :: "u8 list option \<Rightarrow> u8 list" where
  "string_help str = butlast (case str of
       None \<Rightarrow> ANYSTRING_HELP
     | Some s \<Rightarrow> if s = [] then ANYSTRINGS_HELP else if 0x23 \<in> set s then CHOICESTRING_HELP else FIXEDSTRING_HELP)"

lemma string_help_ok: "0 \<notin> set (string_help str)" "length (string_help str) < CMDLINE_BUFFER_SIZE"
  by (simp_all add: string_help_def ANYSTRING_HELP_def ANYSTRINGS_HELP_def CHOICESTRING_HELP_def FIXEDSTRING_HELP_def literal_def
      CMDLINE_BUFFER_SIZE_def split: option.split)

lemma cmdline_get_help_string_ok:
  assumes "\<And>s. str = Some s \<Longrightarrow> 0 \<notin> set s" "local_buffer d"
  shows "cmdline_get_help_string (map_option c_string str) d CMDLINE_BUFFER_SIZE = Some (written d (string_help str), 0)"
proof -
  have cp: "strlcpy d (string_help str @ [0]) CMDLINE_BUFFER_SIZE = Some (written d (string_help str), length (string_help str))"
    by (rule strlcpy_help [OF string_help_ok assms(2)])
  show ?thesis
  proof (cases str)
    case None
    then show ?thesis using cp literal_eq [of "''Any STRING''"] by (simp add: cmdline_get_help_string_def string_help_def ANYSTRING_HELP_def)
  next
    case (Some s)
    then have z: "0 \<notin> set s" using assms(1) by simp
    have m: "strcmp_eq (c_string s) TOKEN_STRING_MULTI = Some (s = [])"
      using strcmp_eq_text [OF z, of "[]" "[]" "[]"] by (simp add: c_string_def TOKEN_STRING_MULTI_def)
    obtain r where nx: "get_next_token (c_string s) = Some (if 0x23 \<in> set s then Some r else None)"
    proof (cases s rule: split_on_cases [where c = "0x23"])
      case one
      then show thesis using that get_next_token_text [OF one z, of 0 "[]"] by (simp add: c_string_def)
    next
      case (more a r)
      then show thesis using that [of "r @ [0]"] get_next_token_text [OF more(2), of "0x23" "r @ [0]"] z by (simp add: c_string_def)
    qed
    show ?thesis using Some m nx cp literal_eq [of "''Any STRINGS''"] literal_eq [of "''Mul-choice STRING''"] literal_eq [of "''Fixed STRING''"]
      by (auto simp: cmdline_get_help_string_def string_help_def ANYSTRINGS_HELP_def CHOICESTRING_HELP_def FIXEDSTRING_HELP_def)
  qed
qed

definition string_choices :: "u8 list option \<Rightarrow> u8 list list" where
  "string_choices str = (case str of None \<Rightarrow> [] | Some s \<Rightarrow> choices s)"

lemma complete_get_elt_long:
  assumes "0 \<notin> set s" "i < length (choices s)" "unat (sz - 1) < length (choices s ! i)"
  shows "cmdline_complete_get_elt_string (Some (c_string s)) (int i) d sz = Some (d, -1)"
proof -
  let ?c = "choices s ! i"
  obtain x r where x: "skip_tokens i (Some (c_string s)) = Some (Some (?c @ x # r))" "x = 0 \<or> x = 0x23"
    using skip_tokens_choices [OF assms(1), of i "[]"] assms(2) by (auto simp: c_string_def)
  have c: "0x23 \<notin> set ?c" "0 \<notin> set ?c" using choices_chars [of ?c s] assms(1,2) by auto
  show ?thesis using x(1) get_token_len_text [OF c x(2), of r] assms(3) by (simp add: cmdline_complete_get_elt_string_def)
qed

lemma string_completer:
  assumes s: "\<And>s. str = Some s \<Longrightarrow> 0 \<notin> set s" and n: "length (string_choices str) < 2 ^ 32"
  shows "token_completer (cmdline_token_string_ops (map_option c_string str) off) (string_choices str) (Some (string_help str))"
proof
  show "nb_choices (Some (cmdline_token_string_ops (map_option c_string str) off)) = Some (length (string_choices str))"
  proof (cases str)
    case None
    then show ?thesis by (simp add: nb_choices_def cmdline_token_string_ops_def cmdline_complete_get_nb_string_def string_choices_def)
  next
    case (Some t)
    then show ?thesis using count_tokens_choices [OF s [OF Some], of "[]" 1] n
      by (simp add: nb_choices_def cmdline_token_string_ops_def cmdline_complete_get_nb_string_def string_choices_def c_string_def
          unat_of_nat take_bit_nat_eq_self)
  qed
next
  show "0 \<notin> set c" if "c \<in> set (string_choices str)" for c
    using that s choices_chars by (fastforce simp: string_choices_def split: option.splits)
next
  fix i :: nat and d :: "u8 list"
  assume i: "i < length (string_choices str)" "local_buffer d"
  then obtain t where t: "str = Some t" by (auto simp: string_choices_def split: option.splits)
  then have z: "0 \<notin> set t" "i < length (choices t)" using s i(1) by (simp_all add: string_choices_def)
  show "\<exists>t r. the (complete_get_elt (cmdline_token_string_ops (map_option c_string str) off)) (int i) d (of_nat CMDLINE_BUFFER_SIZE) = Some (t, r) \<and>
      local_buffer t \<and> (if length (string_choices str ! i) < CMDLINE_BUFFER_SIZE
        then 0 \<le> r \<and> (\<exists>t'. t = string_choices str ! i @ 0 # t') else r < 0)"
  proof (cases "length (choices t ! i) < CMDLINE_BUFFER_SIZE")
    case True
    then show ?thesis using complete_get_elt [OF z, of "of_nat CMDLINE_BUFFER_SIZE" d "[]"] i(2) t
      by (simp add: cmdline_token_string_ops_def string_choices_def CMDLINE_BUFFER_SIZE_def local_buffer_def c_string_def)
  next
    case False
    then show ?thesis using complete_get_elt_long [OF z, of "of_nat CMDLINE_BUFFER_SIZE" d] i(2) t
      by (simp add: cmdline_token_string_ops_def string_choices_def CMDLINE_BUFFER_SIZE_def local_buffer_def)
  qed
next
  show "Some (string_help str) = None \<Longrightarrow> get_help (cmdline_token_string_ops (map_option c_string str) off) = None" by simp
next
  fix t
  assume "Some (string_help str) = Some t"
  then show "\<exists>gh. get_help (cmdline_token_string_ops (map_option c_string str) off) = Some gh \<and> 0 \<notin> set t \<and> length t < CMDLINE_BUFFER_SIZE \<and>
      (\<forall>d. local_buffer d \<longrightarrow> (\<exists>d' r. gh d CMDLINE_BUFFER_SIZE = Some (t @ 0 # d', r)))"
    using cmdline_get_help_string_ok [OF s] string_help_ok [of str] by (simp add: cmdline_token_string_ops_def written_def)
qed

interpretation any_string_completer: token_completer "cmdline_token_string_ops None off" "[]" "Some (string_help None)" for off
  using string_completer [of None off] by (simp add: string_choices_def)

section \<open>Two commands\<close>

definition bytes_of :: "string \<Rightarrow> u8 list" where "bytes_of s = map of_char s"

lemma bytes_of_simps: "length (bytes_of s) = length s" "bytes_of s = [] \<longleftrightarrow> s = []"
  by (simp_all add: bytes_of_def)

definition show_cmd :: "nat cmdline_inst" where
  "show_cmd = \<lparr>inst_f = Some 1, help_str = None, tokens = [Some (cmdline_token_string_ops (Some (c_string (bytes_of ''show''))) 0), None]\<rparr>"

definition shut_cmd :: "nat cmdline_inst" where
  "shut_cmd = \<lparr>inst_f = Some 2, help_str = Some (bytes_of ''stop'' @ [0]),
     tokens = [Some (cmdline_token_string_ops (Some (c_string (bytes_of ''shutdown''))) 128), None]\<rparr>"

definition cmd_name :: "cmdline_token \<Rightarrow> u8 list" where
  "cmd_name tk = (if offset tk = 0 then bytes_of ''show'' else bytes_of ''shutdown'')"

definition name_choices :: "cmdline_token \<Rightarrow> u8 list list" where "name_choices tk = string_choices (Some (cmd_name tk))"
definition name_help :: "cmdline_token \<Rightarrow> u8 list option" where "name_help tk = Some (string_help (Some (cmd_name tk)))"

lemma names: "choices (bytes_of ''show'') = [bytes_of ''show'']" "choices (bytes_of ''shutdown'') = [bytes_of ''shutdown'']"
  "0 \<notin> set (bytes_of ''show'')" "0 \<notin> set (bytes_of ''shutdown'')"
  by (simp_all add: choices_def bytes_of_def)

lemma commands_completable: "\<forall>inst \<in> set [show_cmd, shut_cmd]. completable name_choices name_help inst"
proof -
  have p: "total_token_parser (cmdline_parse_string (Some (c_string (bytes_of n))))" if "0 \<notin> set (bytes_of n)" for n
    using string_token_parser [of "Some (bytes_of n)"] that by simp
  have c: "token_completer (cmdline_token_string_ops (Some (c_string (bytes_of n))) off) (string_choices (Some (bytes_of n))) (Some (string_help (Some (bytes_of n))))"
    if "0 \<notin> set (bytes_of n)" "choices (bytes_of n) = [bytes_of n]" for n off
    using string_completer [of "Some (bytes_of n)" off] that by (simp add: string_choices_def)
  have "static_inst show_cmd [cmdline_token_string_ops (Some (c_string (bytes_of ''show''))) 0]"
    "static_inst shut_cmd [cmdline_token_string_ops (Some (c_string (bytes_of ''shutdown''))) 128]"
    using p names by (simp_all add: static_inst_def show_cmd_def shut_cmd_def cmdline_token_string_ops_def)
  moreover have "token_completer (cmdline_token_string_ops (Some (c_string (bytes_of ''show''))) 0)
      (name_choices (cmdline_token_string_ops (Some (c_string (bytes_of ''show''))) 0)) (name_help (cmdline_token_string_ops (Some (c_string (bytes_of ''show''))) 0))"
    "token_completer (cmdline_token_string_ops (Some (c_string (bytes_of ''shutdown''))) 128)
      (name_choices (cmdline_token_string_ops (Some (c_string (bytes_of ''shutdown''))) 128)) (name_help (cmdline_token_string_ops (Some (c_string (bytes_of ''shutdown''))) 128))"
    using c names by (simp_all add: name_choices_def name_help_def cmd_name_def cmdline_token_string_ops_def)
  moreover have "help_string (help_str show_cmd)" "help_string (help_str shut_cmd)"
    by (simp_all add: help_string_def show_cmd_def shut_cmd_def)
  ultimately show ?thesis by (auto simp: completable_def)
qed

lemma typed_s:
  "line_rests name_choices (\<lambda>f k. None) [show_cmd, shut_cmd] (bytes_of ''s'') [] = [bytes_of ''how '', bytes_of ''hutdown '']"
  "line_entries name_choices name_help (\<lambda>f k. None) [show_cmd, shut_cmd] (bytes_of ''s'') [] =
    [bytes_of ''show [Fixed STRING]: No help'', bytes_of ''shutdown [Fixed STRING]: stop'']"
proof -
  have "partial_word (bytes_of ''s'') = bytes_of ''s''" "complete_words (bytes_of ''s'') = 0"
    by (simp_all add: partial_word_def complete_words_def bytes_of_def cmdline_isblank2_def)
  moreover have "get_token (\<lambda>f k. None) show_cmd 0 = Some (Some (cmdline_token_string_ops (Some (c_string (bytes_of ''show''))) 0))"
    "get_token (\<lambda>f k. None) shut_cmd 0 = Some (Some (cmdline_token_string_ops (Some (c_string (bytes_of ''shutdown''))) 128))"
    by (simp_all add: get_token_def show_cmd_def shut_cmd_def nth_opt_def)
  moreover have "offered (bytes_of ''s'') (bytes_of ''show'')" "offered (bytes_of ''s'') (bytes_of ''shutdown'')"
    by (simp_all add: offered_def shown_def bytes_of_def CMDLINE_BUFFER_SIZE_def)
  ultimately show "line_rests name_choices (\<lambda>f k. None) [show_cmd, shut_cmd] (bytes_of ''s'') [] = [bytes_of ''how '', bytes_of ''hutdown '']"
    "line_entries name_choices name_help (\<lambda>f k. None) [show_cmd, shut_cmd] (bytes_of ''s'') [] =
    [bytes_of ''show [Fixed STRING]: No help'', bytes_of ''shutdown [Fixed STRING]: stop'']"
    using names
    by (simp_all add: line_rests_def line_entries_def inst_rests_def inst_entries_def fits_words_def name_choices_def name_help_def
        cmd_name_def string_choices_def cmdline_token_string_ops_def token_entries_def choice_entry_def help_entry_def go_on_def shown_def
        CMDLINE_BUFFER_SIZE_def show_cmd_def shut_cmd_def string_help_def FIXEDSTRING_HELP_def literal_def, simp_all add: bytes_of_def)
qed

lemma complete_writes_common_witness:
  "cmdline_complete (\<lambda>f k. None) [Some show_cmd, Some shut_cmd, None] (bytes_of ''s'' @ [0]) 0 (replicate 512 0) 512 (replicate 64 0) (replicate 64 0) =
    Some (2, 0, bytes_of ''h'' @ replicate 511 0)"
proof -
  have "common [bytes_of ''how '', bytes_of ''hutdown ''] = bytes_of ''h''" by (simp add: common_def bytes_of_def)
  moreover have "partial_word (bytes_of ''s'') \<noteq> []" "0 \<notin> set (bytes_of ''s'')" by (simp_all add: partial_word_def bytes_of_def cmdline_isblank2_def)
  moreover have "0 # replicate 510 0 = (replicate 511 0 :: u8 list)" by (simp flip: replicate_Suc)
  ultimately show ?thesis
    using complete_writes_common [OF commands_completable, of "bytes_of ''s''" 512 "replicate 512 0" "replicate 64 0" "replicate 64 0" "\<lambda>f k. None" "[]" "[]"]
    by (simp add: typed_s local_buffer_def CMDLINE_BUFFER_SIZE_def bytes_of_simps)
qed

lemma complete_lists_entries_witness:
  "listing (\<lambda>st d. cmdline_complete (\<lambda>f k. None) [Some show_cmd, Some shut_cmd, None] (bytes_of ''s'' @ [0]) st d 512 (replicate 64 0) (replicate 64 0))
    3 (-1) (replicate 512 0) = Some [bytes_of ''show [Fixed STRING]: No help'', bytes_of ''shutdown [Fixed STRING]: stop'']"
proof -
  have "0 \<notin> set (bytes_of ''s'')" by (simp add: bytes_of_def)
  then show ?thesis
    using complete_lists_entries [OF commands_completable, of "bytes_of ''s''" 512 "replicate 512 0" "\<lambda>f k. None" "[]"
        "\<lambda>_. replicate 64 0" "\<lambda>_. replicate 64 0" "-1" "[]"]
    by (simp add: typed_s local_buffer_def CMDLINE_BUFFER_SIZE_def bytes_of_simps numeral_3_eq_3)
qed

end
