(* ===== verification/Cmdline_Session.thy ===== *)
theory Cmdline_Session
  imports Rdline_Main Cmdline_Completers
begin

text \<open>
  The line editor with the callbacks that \<open>cmdline_new\<close> gives it: \<open>cmdline_valid_buffer\<close> and
  \<open>cmdline_complete_buffer\<close> of \<open>lib/cmdline/cmdline.c\<close>. What the functions of the commands do to the command line is a
  parameter, \<open>act\<close>. The two callbacks keep the contracts of the editor, so whatever is typed, the library
  has a defined behaviour; and the return key runs the command of the line.
\<close>

section \<open>The callbacks\<close>

definition cmdline_printf :: "rdline \<Rightarrow> string \<Rightarrow> rdline" where
  "cmdline_printf rd s = rd\<lparr>out := out rd @ map of_char s\<rparr>"

definition cmdline_valid_buffer ::
  "('f \<Rightarrow> u8 list \<Rightarrow> rdline \<Rightarrow> rdline) \<Rightarrow> ('f \<Rightarrow> nat \<Rightarrow> cmdline_token option) \<Rightarrow> 'f cmdline_inst option list \<Rightarrow> u8 list \<Rightarrow> u8 list \<Rightarrow>
    rdline \<Rightarrow> u32 \<Rightarrow> rdline option" where
  "cmdline_valid_buffer act dyn ctx r0 t0 rd sz = do {
     (ret, call) \<leftarrow> cmdline_parse dyn ctx (buf (left rd)) r0 t0;
     rd \<leftarrow> Some (case call of None \<Rightarrow> rd | Some (f, res) \<Rightarrow> act f res rd);
     Some (if ret = CMDLINE_PARSE_AMBIGUOUS then cmdline_printf rd (''Ambiguous command'' @ [CHR 0x0A])
       else if ret = CMDLINE_PARSE_NOMATCH then cmdline_printf rd (''Command not found'' @ [CHR 0x0A])
       else if ret = CMDLINE_PARSE_BAD_ARGS then cmdline_printf rd (''Bad arguments'' @ [CHR 0x0A])
       else rd) }"

text \<open>\<open>tmp_buf\<close> of the editor and the local buffers of \<open>cmdline_complete\<close> are not initialised.\<close>

definition cmdline_complete_buffer ::
  "('f \<Rightarrow> nat \<Rightarrow> cmdline_token option) \<Rightarrow> 'f cmdline_inst option list \<Rightarrow> u8 list \<Rightarrow> u8 list \<Rightarrow> u8 list \<Rightarrow>
    u8 list \<Rightarrow> int \<Rightarrow> (int \<times> u8 list \<times> int) option" where
  "cmdline_complete_buffer dyn ctx dst tmp0 comp0 b st =
     map_option (\<lambda>(ret, st, dst). (ret, dst, st)) (cmdline_complete dyn ctx b st dst (of_nat BUFSIZ) tmp0 comp0)"

definition validation_cb where
  "validation_cb act dyn ctx r0 t0 = (\<lambda>rd n. the (cmdline_valid_buffer act dyn ctx r0 t0 rd n))"

definition completion_cb where
  "completion_cb dyn ctx dst tmp0 comp0 = (\<lambda>rd :: rdline. \<lambda>b st. the (cmdline_complete_buffer dyn ctx dst tmp0 comp0 b st))"

section \<open>Reading characters\<close>

text \<open>\<open>cmdline_cancel\<close> does nothing on Unix.\<close>

definition cmdline_quit :: "cmdline \<Rightarrow> cmdline" where
  "cmdline_quit cl = cl\<lparr>rdl := rdline_quit (rdl cl)\<rparr>"

definition status_int :: "rdline_status \<Rightarrow> int" where
  "status_int s = (case s of RDLINE_INIT \<Rightarrow> 0 | RDLINE_RUNNING \<Rightarrow> 1 | RDLINE_EXITED \<Rightarrow> 2)"

text \<open>\<open>status\<close> is what \<open>cmdline_poll_char\<close> returns, \<open>rd\<close> what \<open>cmdline_read_char\<close> returns and the character.\<close>

definition cmdline_poll ::
  "validate_cb \<Rightarrow> complete_cb \<Rightarrow> int \<Rightarrow> int \<times> u8 \<Rightarrow> cmdline \<Rightarrow> (cmdline \<times> int) option" where
  "cmdline_poll validate complete status rd cl =
     (if rl_status (rdl cl) = RDLINE_EXITED then Some (cl, status_int RDLINE_EXITED)
      else if status < 0 then Some (cl, status)
      else if status > 0
      then (case rd of (read_status, c) \<Rightarrow>
        if read_status < 0 then Some (cl, read_status)
        else if read_status = 0 then (let cl = cmdline_quit cl in Some (cl, status_int (rl_status (rdl cl))))
        else do {
          (cl, st) \<leftarrow> cmdline_in validate complete cl [c];
          Some (cl, if st < 0 \<and> rl_status (rdl cl) \<noteq> RDLINE_EXITED then st else status_int (rl_status (rdl cl))) })
      else Some (cl, status_int (rl_status (rdl cl))))"

text \<open>The characters \<open>cmdline_read_char\<close> gives until its result is not positive.\<close>

fun cmdline_interact :: "validate_cb \<Rightarrow> complete_cb \<Rightarrow> cmdline \<Rightarrow> u8 list \<Rightarrow> cmdline option" where
  "cmdline_interact validate complete cl [] = Some cl"
| "cmdline_interact validate complete cl (c # cs) = do {
     (cl, n) \<leftarrow> cmdline_in validate complete cl [c];
     (if n < 0 then Some cl else cmdline_interact validate complete cl cs) }"

section \<open>Completion has a bound\<close>

definition inst_bound :: "(cmdline_token \<Rightarrow> u8 list list) \<Rightarrow> 'f cmdline_inst \<Rightarrow> nat" where
  "inst_bound ch inst = (\<Sum>t \<leftarrow> tokens inst. case t of None \<Rightarrow> 1 | Some tk \<Rightarrow> 1 + length (ch tk))"

definition entry_bound :: "(cmdline_token \<Rightarrow> u8 list list) \<Rightarrow> 'f cmdline_inst list \<Rightarrow> nat" where
  "entry_bound ch insts = sum_list (map (inst_bound ch) insts)"

definition short_help :: "'f cmdline_inst \<Rightarrow> bool" where
  "short_help inst \<longleftrightarrow> (\<forall>s. help_str inst = Some s \<longrightarrow> length (takeWhile (\<lambda>c. c \<noteq> 0) s) < 8000)"

lemma next_token_in:
  assumes "completable ch hp inst" "0 \<in> set b" "fits_words dyn b nb inst"
  shows "the (get_token dyn inst nb) \<in> set (tokens inst)"
    "the (get_token dyn inst nb) = Some tk \<Longrightarrow> token_completer tk (ch tk) (hp tk)"
proof -
  obtain toks where t: "static_inst inst toks" "\<forall>tk \<in> set toks. token_completer tk (ch tk) (hp tk)"
    using assms(1) by (auto simp: completable_def)
  note g = next_token_ok(2) [OF t(1) assms(2,3)]
  obtain pad where p: "tokens inst = map Some toks @ None # pad" using t(1) by (auto simp: static_inst_def)
  show "the (get_token dyn inst nb) \<in> set (tokens inst)" using g p by simp
  show "the (get_token dyn inst nb) = Some tk \<Longrightarrow> token_completer tk (ch tk) (hp tk)" using g t(2) by (auto split: if_splits)
qed

lemma inst_entries_bound:
  assumes "completable ch hp inst" "0 \<in> set b"
  shows "length (inst_entries ch hp dyn b nb p inst) \<le> inst_bound ch inst"
proof (cases "fits_words dyn b nb inst")
  case True
  let ?t = "the (get_token dyn inst nb)"
  define f where "f t = (case t of None \<Rightarrow> 1 | Some tk \<Rightarrow> 1 + length (ch tk))" for t
  have "f ?t \<in> set (map f (tokens inst))" using next_token_in(1) [OF assms True] by simp
  then have "f ?t \<le> inst_bound ch inst" unfolding inst_bound_def f_def [symmetric] by (rule member_le_sum_list) simp
  moreover have "length (inst_entries ch hp dyn b nb p inst) \<le> f ?t"
    using True by (auto simp: f_def inst_entries_def token_entries_def intro: le_SucI split: option.split)
  ultimately show ?thesis by simp
qed (simp add: inst_entries_def)

lemma line_entries_bound:
  assumes "\<forall>inst \<in> set insts. completable ch hp inst"
  shows "length (line_entries ch hp dyn insts s pad) \<le> entry_bound ch insts"
  unfolding line_entries_def entry_bound_def length_concat map_map
  by (rule sum_list_mono) (use assms in \<open>auto intro: inst_entries_bound\<close>)

lemma help_entry_length:
  assumes "length t < CMDLINE_BUFFER_SIZE" "\<forall>s. hs = Some s \<longrightarrow> length (takeWhile (\<lambda>c. c \<noteq> 0) s) < 8000"
  shows "length (help_entry hs t) < 8067"
  using assms by (cases hs) (auto simp: help_entry_def literal_def CMDLINE_BUFFER_SIZE_def)

lemma line_entries_length:
  assumes "\<forall>inst \<in> set insts. completable ch hp inst \<and> short_help inst" "e \<in> set (line_entries ch hp dyn insts s pad)"
  shows "length e < BUFSIZ"
proof -
  obtain inst where i: "inst \<in> set insts" "e \<in> set (inst_entries ch hp dyn (s @ 0 # pad) (complete_words s) (partial_word s) inst)"
    using assms(2) by (auto simp: line_entries_def)
  have ci: "completable ch hp inst" "short_help inst" using i(1) assms(1) by simp_all
  have f: "fits_words dyn (s @ 0 # pad) (complete_words s) inst" using i(2) by (auto simp: inst_entries_def split: if_splits)
  have z: "0 \<in> set (s @ 0 # pad)" by simp
  show ?thesis
  proof (cases "the (get_token dyn inst (complete_words s))")
    case None
    then show ?thesis using i(2) f by (auto simp: inst_entries_def lone_entry_def literal_def)
  next
    case (Some tk)
    note tc = next_token_in(2) [OF ci(1) z f Some]
    have h: "length (help_entry (help_str inst) t) < 8067" if "hp tk = Some t" for t
      using help_entry_length token_completer.help_text [OF tc that] ci(2) by (auto simp: short_help_def)
    have c: "length (shown c) < 64" if "offered (partial_word s) c" for c
      using shown_length [of c] that by (simp add: offered_def CMDLINE_BUFFER_SIZE_def)
    show ?thesis using i(2) f Some h c
      by (fastforce simp: inst_entries_def token_entries_def lone_entry_def choice_entry_def literal_def split: if_splits option.splits)
  qed
qed

section \<open>The contracts of the editor\<close>

text \<open>The memory a session has: the buffers of the two callbacks.\<close>

definition session_memory :: "u8 list \<Rightarrow> u8 list \<Rightarrow> u8 list \<Rightarrow> u8 list \<Rightarrow> u8 list \<Rightarrow> bool" where
  "session_memory r0 t0 dst tmp0 comp0 \<longleftrightarrow> length r0 = CMDLINE_PARSE_RESULT_BUFSIZE \<and> length t0 = CMDLINE_PARSE_RESULT_BUFSIZE \<and>
     length dst = BUFSIZ \<and> local_buffer tmp0 \<and> local_buffer comp0"

definition commands :: "(cmdline_token \<Rightarrow> u8 list list) \<Rightarrow> (cmdline_token \<Rightarrow> u8 list option) \<Rightarrow> 'f cmdline_inst list \<Rightarrow> bool" where
  "commands ch hp insts \<longleftrightarrow> (\<forall>inst \<in> set insts. completable ch hp inst \<and> short_help inst \<and> inst_f inst \<noteq> None)"

lemma commands_static: "commands ch hp insts \<Longrightarrow> \<forall>inst \<in> set insts. (\<exists>toks. static_inst inst toks) \<and> inst_f inst \<noteq> None"
  by (auto simp: commands_def completable_def)

definition act_ok :: "('f \<Rightarrow> u8 list \<Rightarrow> rdline \<Rightarrow> rdline) \<Rightarrow> bool" where
  "act_ok act \<longleftrightarrow> (\<forall>f res rd. wf_rdl rd \<longrightarrow> wf_rdl (act f res rd))"

lemma wf_printf: "wf_rdl rd \<Longrightarrow> wf_rdl (cmdline_printf rd s)"
  by (auto simp: cmdline_printf_def wf_parts)

lemma cmdline_parse_total:
  assumes "commands ch hp insts" "0 \<in> set b" "length r0 = CMDLINE_PARSE_RESULT_BUFSIZE" "length t0 = CMDLINE_PARSE_RESULT_BUFSIZE"
  shows "cmdline_parse dyn (map Some insts @ None # pad) b r0 t0 \<noteq> None"
proof -
  obtain l q where b: "b = l @ 0 # q" "0 \<notin> set l" using split_list_first [OF assms(2)] by blast
  show ?thesis
  proof (cases "\<exists>c \<in> set l. isendofline c")
    case False
    then have "list_all (\<lambda>c. c \<noteq> 0 \<and> \<not> isendofline c) l" using b(2) by (auto simp: list_all_iff)
    then show ?thesis by (simp add: b(1) cmdline_parse_def cmdline_parse_incomplete)
  next
    case True
    then obtain x e y where l: "l = x @ e # y" "isendofline e" "\<forall>c \<in> set x. \<not> isendofline c"
      using split_list_first_prop [of l isendofline] by blast
    then have "list_all (\<lambda>c. c \<noteq> 0 \<and> \<not> isendofline c) x" using b(2) by (auto simp: list_all_iff)
    then show ?thesis
      using cmdline_parse_line_eq [OF commands_static [OF assms(1)] _ l(2), of x "y @ 0 # q" r0 t0 dyn pad True] assms(3,4) b(1) l(1)
      by (simp add: cmdline_parse_def)
  qed
qed

lemma validation_ok:
  assumes "commands ch hp insts" "act_ok act" "session_memory r0 t0 dst tmp0 comp0"
  shows "validate_ok (validation_cb act dyn (map Some insts @ None # pad) r0 t0)"
  unfolding validate_ok_def
proof (intro allI impI)
  fix rd n
  assume rd: "wf_rdl rd" "0 \<in> set (buf (left rd))"
  obtain ret call where p: "cmdline_parse dyn (map Some insts @ None # pad) (buf (left rd)) r0 t0 = Some (ret, call)"
    using cmdline_parse_total [OF assms(1) rd(2), of r0 t0 dyn pad] assms(3) by (auto simp: session_memory_def)
  have "wf_rdl (case call of None \<Rightarrow> rd | Some (f, res) \<Rightarrow> act f res rd)" using rd(1) assms(2) by (auto simp: act_ok_def split: option.split)
  then show "wf_rdl (validation_cb act dyn (map Some insts @ None # pad) r0 t0 rd n)"
    using p wf_printf by (simp add: validation_cb_def cmdline_valid_buffer_def)
qed

lemma completion_ok:
  assumes "commands ch hp insts" "session_memory r0 t0 dst tmp0 comp0"
  shows "complete_ok (completion_cb dyn (map Some insts @ None # pad) dst tmp0 comp0) (\<lambda>st. nat (int (entry_bound ch insts) - st))"
  unfolding complete_ok_def
proof (intro allI impI)
  fix rd :: rdline and b st ret tmp st'
  assume c: "completion_cb dyn (map Some insts @ None # pad) dst tmp0 comp0 rd b st = (ret, tmp, st')"
    and b: "0 \<in> set b" and st: "-1 \<le> st" and ret: "ret \<noteq> 0"
  obtain s q where s: "b = s @ 0 # q" "0 \<notin> set s" using split_list_first [OF b] by blast
  have ci: "\<forall>inst \<in> set insts. completable ch hp inst \<and> short_help inst" "\<forall>inst \<in> set insts. completable ch hp inst"
    using assms(1) by (simp_all add: commands_def)
  define es w where ew: "es = line_entries ch hp dyn insts s q" "w = common (line_rests ch dyn insts s q)"
  have len: "\<forall>e \<in> set es. length e < BUFSIZ" using line_entries_length [OF ci(1)] by (auto simp: ew)
  have u: "unat (of_nat BUFSIZ :: u32) = BUFSIZ" by simp
  have m: "length dst = BUFSIZ" "local_buffer tmp0" "local_buffer comp0" using assms(2) by (simp_all add: session_memory_def)
  have "cmdline_complete dyn (map Some insts @ None # pad) b st dst (of_nat BUFSIZ) tmp0 comp0 = Some (
    let k = nat st
    in if k = 0 \<and> es = [] then (0, st, dst)
       else if st = 0 \<and> partial_word s \<noteq> [] \<and> w \<noteq> []
       then (if length w + 1 > BUFSIZ then (0, 0, dst) else (2, 0, written dst w))
       else if k < length es then (1, int k + 1, written dst (es ! k)) else (0, int k, dst))"
    using cmdline_complete_eq [OF ci(2) s(2) _ m(2,3) _ st, of "of_nat BUFSIZ" dst dyn q pad] len m(1) unfolding u s(1) ew by (simp add: Let_def)
  then have "(ret, st', tmp) = (let k = nat st
    in if k = 0 \<and> es = [] then (0, st, dst)
       else if st = 0 \<and> partial_word s \<noteq> [] \<and> w \<noteq> []
       then (if length w + 1 > BUFSIZ then (0, 0, dst) else (2, 0, written dst w))
       else if k < length es then (1, int k + 1, written dst (es ! k)) else (0, int k, dst))"
    using c unfolding completion_cb_def cmdline_complete_buffer_def by (auto simp: Let_def split: if_splits)
  then have r: "(st = 0 \<and> ret = 2 \<and> length w < BUFSIZ \<and> tmp = written dst w) \<or>
      (nat st < length es \<and> st' = int (nat st) + 1 \<and> tmp = written dst (es ! nat st))"
    using ret by (auto simp: Let_def split: if_splits)
  have "length es \<le> entry_bound ch insts" unfolding ew by (rule line_entries_bound [OF ci(2)])
  moreover have "length (written dst e) = BUFSIZ" "0 \<in> set (written dst e)" if "length e < BUFSIZ" for e
    using written_length [of e dst] that m(1) by (simp_all add: written_def)
  moreover have "length (es ! nat st) < BUFSIZ" if "nat st < length es" using len that by simp
  ultimately show "length tmp = BUFSIZ \<and> 0 \<in> set tmp \<and>
      (st = 0 \<and> ret = RDLINE_RES_COMPLETE \<or> 0 < st' \<and> nat (int (entry_bound ch insts) - st') < nat (int (entry_bound ch insts) - st))"
    using r st by (cases "0 \<le> st") auto
qed

section \<open>A session\<close>

lemma cmdline_interact_ok:
  assumes "validate_ok v" "complete_ok c m"
  shows "wf_cl cl \<Longrightarrow> \<exists>cl'. cmdline_interact v c cl cs = Some cl' \<and> wf_cl cl'"
proof (induction cs arbitrary: cl)
  case (Cons ch cs)
  obtain cl1 n where "cmdline_in v c cl [ch] = Some (cl1, n)" "wf_cl cl1"
    using cmdline_loop_ok [OF Cons.prems assms, where cs = "[ch]" and i = 0] by (auto simp: cmdline_in_def simp del: cmdline_loop.simps)
  then show ?case using Cons.IH [of cl1] by simp
qed simp

text \<open>
  C17: The whole library. Whatever characters arrive at a command line in a well-formed state, in one block or one at a time, editing,
  completion over the commands and the parsing of the lines included, the result is defined: no buffer of the editor, the
  completion or the parser is overrun, and every loop ends, the one that lists the completions included.
\<close>
theorem session_safe:
  fixes insts :: "'f cmdline_inst list" and pad :: "'f cmdline_inst option list" and dyn :: "'f \<Rightarrow> nat \<Rightarrow> cmdline_token option"
  assumes "wf_cl cl" "commands ch hp insts" "act_ok act" "session_memory r0 t0 dst tmp0 comp0"
  defines "v \<equiv> validation_cb act dyn (map Some insts @ None # pad) r0 t0"
    and "c \<equiv> completion_cb dyn (map Some insts @ None # pad) dst tmp0 comp0"
  shows "(\<exists>cl' n. cmdline_in v c cl cs = Some (cl', n) \<and> wf_cl cl' \<and> (n = -1 \<or> n = int (length cs))) \<and>
    (\<exists>cl'. cmdline_interact v c cl cs = Some cl' \<and> wf_cl cl')"
proof
  note cb = validation_ok [OF assms(2-4), of dyn pad, folded v_def] completion_ok [OF assms(2,4), of dyn pad, folded c_def]
  show "\<exists>cl' n. cmdline_in v c cl cs = Some (cl', n) \<and> wf_cl cl' \<and> (n = -1 \<or> n = int (length cs))"
    using cmdline_loop_ok [OF assms(1) cb, where cs = cs and i = 0] by (simp add: cmdline_in_def)
  show "\<exists>cl'. cmdline_interact v c cl cs = Some cl' \<and> wf_cl cl'"
    by (rule cmdline_interact_ok [OF cb assms(1)])
qed

text \<open>What the parser answers for a line in \<open>b\<close>, as the editor acts on it.\<close>

definition verdict ::
  "('f \<Rightarrow> u8 list \<Rightarrow> rdline \<Rightarrow> rdline) \<Rightarrow> ('f \<Rightarrow> nat \<Rightarrow> cmdline_token option) \<Rightarrow> 'f cmdline_inst list \<Rightarrow> u8 list \<Rightarrow> rdline \<Rightarrow> rdline" where
  "verdict act dyn insts b rd = (case filter (inst_matches dyn b) insts of
       [] \<Rightarrow> cmdline_printf rd ((if \<exists>inst \<in> set insts. 0 < fst (inst_result dyn b inst) then ''Bad arguments'' else ''Command not found'') @ [CHR 0x0A])
     | [m] \<Rightarrow> act (the (inst_f m)) (the (snd (inst_result dyn b m))) rd
     | _ \<Rightarrow> cmdline_printf rd (''Ambiguous command'' @ [CHR 0x0A]))"

lemma list_two_cases: "(xs = [] \<Longrightarrow> P) \<Longrightarrow> (\<And>x. xs = [x] \<Longrightarrow> P) \<Longrightarrow> (\<And>x y ys. xs = x # y # ys \<Longrightarrow> P) \<Longrightarrow> P"
  by (metis list.exhaust)

lemma cmdline_valid_buffer_line:
  assumes insts: "commands ch hp insts" and m: "session_memory r0 t0 dst tmp0 comp0"
    and l: "list_all (\<lambda>c. c \<noteq> 0 \<and> \<not> isendofline c) l" and b: "buf (left rd) = l @ 0x0A # 0 # rest"
  shows "cmdline_valid_buffer act dyn (map Some insts @ None # pad) r0 t0 rd n =
    Some (if command_line l then verdict act dyn insts (l @ 0x0A # 0 # rest) rd else rd)"
proof -
  let ?b = "l @ 0x0A # 0 # rest"
  have e: "isendofline 0x0A" "\<not> isendofline 0" by (simp_all add: isendofline_def)
  then have tw: "takeWhile isendofline (0 # rest) = []" by simp
  define k where "k = int (length l + 1)"
  have k: "0 < k" by (simp add: k_def)
  have p: "cmdline_parse dyn (map Some insts @ None # pad) ?b r0 t0 = Some (
      if \<not> command_line l then (k, None)
      else case filter (inst_matches dyn ?b) insts of
        [] \<Rightarrow> (if \<exists>inst \<in> set insts. 0 < fst (inst_result dyn ?b inst) then CMDLINE_PARSE_BAD_ARGS else CMDLINE_PARSE_NOMATCH, None)
      | [m] \<Rightarrow> (k, Some (the (inst_f m), the (snd (inst_result dyn ?b m))))
      | _ \<Rightarrow> (CMDLINE_PARSE_AMBIGUOUS, None))"
    using cmdline_parse_line_eq [OF commands_static [OF insts] l e(1), of "0 # rest" r0 t0 dyn pad True] m
    unfolding cmdline_parse_def k_def tw list.size(3) add_0_right if_True by (simp only: session_memory_def e list.set insert_iff simp_thms True_implies_equals)
  note codes = CMDLINE_PARSE_AMBIGUOUS_def CMDLINE_PARSE_NOMATCH_def CMDLINE_PARSE_BAD_ARGS_def
  show ?thesis
  proof (cases "command_line l")
    case False
    then show ?thesis using k by (simp add: cmdline_valid_buffer_def b p codes)
  next
    case True
    then show ?thesis using k
      by (cases "filter (inst_matches dyn ?b) insts" rule: list_two_cases) (simp_all add: cmdline_valid_buffer_def b p codes verdict_def)
  qed
qed

text \<open>
  C18: The return key runs the line. The parser gets the text before the caret and the text after it as one line; when exactly one
  command matches it, its function is called with the bytes its tokens parsed, otherwise the message for no match, bad
  arguments or an ambiguous command is printed, and a line without a command does nothing.
\<close>
theorem return_runs_command:
  assumes "wf_rdl rd" "commands ch hp insts" "session_memory r0 t0 dst tmp0 comp0"
    and l: "list_all (\<lambda>c. \<not> isendofline c) (lchars rd @ rchars rd)"
  shows "\<exists>rd1 rest res. key_return (validation_cb act dyn (map Some insts @ None # pad) r0 t0) rd =
      Some (if command_line (lchars rd @ rchars rd) then verdict act dyn insts ((lchars rd @ rchars rd) @ 0x0A # 0 # rest) rd1 else rd1, res) \<and>
    wf_rdl rd1 \<and> rl_status rd1 = RDLINE_INIT"
proof -
  let ?line = "lchars rd @ rchars rd"
  obtain rd1 where r: "key_return (validation_cb act dyn (map Some insts @ None # pad) r0 t0) rd =
      Some (validation_cb act dyn (map Some insts @ None # pad) r0 t0 rd1 (clen (left rd) + 2),
        if rl_status (validation_cb act dyn (map Some insts @ None # pad) r0 t0 rd1 (clen (left rd) + 2)) = RDLINE_EXITED
        then RDLINE_RES_EXITED else RDLINE_RES_VALIDATED)"
    "take (length (lchars rd) + length (rchars rd) + 2) (buf (left rd1)) = lchars rd @ rchars rd @ [0x0A, 0]"
    "wf_rdl rd1" "rl_status rd1 = RDLINE_INIT"
    using key_return_line [OF assms(1)] by blast
  then obtain rest where b: "buf (left rd1) = ?line @ 0x0A # 0 # rest"
    by (metis append_take_drop_id append.assoc append_Cons append_Nil)
  have "rl_ok rd" using assms(1) by (simp add: wf_parts)
  then have "0 \<notin> set ?line" using line_okD(8,9) by simp
  then have z: "list_all (\<lambda>c. c \<noteq> 0 \<and> \<not> isendofline c) ?line" using l by (auto simp: list_all_iff)
  note vb = cmdline_valid_buffer_line [OF assms(2,3) z b, of act dyn pad]
  show ?thesis using r(1,3,4) vb by (auto simp: validation_cb_def)
qed

section \<open>Examples\<close>

definition greet :: "nat \<Rightarrow> u8 list \<Rightarrow> rdline \<Rightarrow> rdline" where "greet f res rd = cmdline_printf rd ''hello''"

lemma greet_ok: "act_ok greet"
  by (simp add: act_ok_def greet_def wf_printf)

lemma two_commands: "commands name_choices name_help [show_cmd, shut_cmd]"
  using commands_completable by (simp add: commands_def short_help_def show_cmd_def shut_cmd_def bytes_of_def)

lemma zero_memory: "session_memory (replicate 8192 0) (replicate 8192 0) (replicate 8192 0) (replicate 64 0) (replicate 64 0)"
  by (simp add: session_memory_def CMDLINE_PARSE_RESULT_BUFSIZE_def local_buffer_def CMDLINE_BUFFER_SIZE_def)

lemma session_safe_witness:
  "\<exists>cl cl' n. cmdline_new [0x3E] = Some cl \<and>
    cmdline_in (validation_cb greet (\<lambda>f k. None) [Some show_cmd, Some shut_cmd, None] (replicate 8192 0) (replicate 8192 0))
      (completion_cb (\<lambda>f k. None) [Some show_cmd, Some shut_cmd, None] (replicate 8192 0) (replicate 64 0) (replicate 64 0))
      cl [0x73, 0x09, 0x3F, 0x6F, 0x77, 0x0D] = Some (cl', n) \<and> wf_cl cl' \<and> (n = -1 \<or> n = 6)"
proof -
  obtain cl where cl: "cmdline_new [0x3E] = Some cl" "wf_cl cl" using cmdline_new_ok [of "[0x3E]"] by auto
  from session_safe [OF cl(2) two_commands greet_ok zero_memory, of "\<lambda>f k. None" "[]" "[0x73, 0x09, 0x3F, 0x6F, 0x77, 0x0D]"]
  show ?thesis using cl(1) by (simp del: cmdline_interact.simps)
qed

text \<open>The command whose name is in the editor \<open>rd_ab\<close>.\<close>

definition ab_cmd :: "nat cmdline_inst" where
  "ab_cmd = \<lparr>inst_f = Some 3, help_str = None, tokens = [Some (cmdline_token_string_ops (Some (c_string [0x61, 0x62])) 0), None]\<rparr>"

lemma ab_commands: "commands (\<lambda>tk. [[0x61, 0x62]]) (\<lambda>tk. Some (string_help (Some [0x61, 0x62]))) [ab_cmd]"
proof -
  have "total_token_parser (cmdline_parse_string (Some (c_string [0x61, 0x62])))" using string_token_parser [of "Some [0x61, 0x62]"] by simp
  then have "static_inst ab_cmd [cmdline_token_string_ops (Some (c_string [0x61, 0x62])) 0]"
    by (simp add: static_inst_def ab_cmd_def cmdline_token_string_ops_def)
  moreover have "token_completer (cmdline_token_string_ops (Some (c_string [0x61, 0x62])) 0) [[0x61, 0x62]] (Some (string_help (Some [0x61, 0x62])))"
    using string_completer [of "Some [0x61, 0x62]" 0] by (simp add: string_choices_def choices_def)
  ultimately show ?thesis by (auto simp: commands_def completable_def help_string_def short_help_def ab_cmd_def)
qed

lemma ab_parsed:
  assumes "length r = CMDLINE_PARSE_RESULT_BUFSIZE"
  shows "\<exists>r'. cmdline_parse_string (Some (c_string [0x61, 0x62])) (0x61 # 0x62 # 0x0A # 0 # rest) (Some r) = Some (Some r', 2)"
proof -
  have "string_len (Some [0x61, 0x62]) [0x61, 0x62, 0x0A] = Some 2"
    by (simp add: string_len_def choices_def chooses_def cmdline_isendoftoken_def isendofline_def)
  from parse_string_accepted [OF _ _ _ _ this, of r rest] assms show ?thesis
    by (auto simp: token_room_def CMDLINE_PARSE_RESULT_BUFSIZE_def)
qed

lemma ab_matches: "inst_matches dyn ([0x61, 0x62] @ 0x0A # 0 # rest) ab_cmd"
proof -
  let ?z = "replicate CMDLINE_PARSE_RESULT_BUFSIZE (0 :: u8)"
  obtain r' where r': "cmdline_parse_string (Some (c_string [0x61, 0x62])) (0x61 # 0x62 # 0x0A # 0 # rest) (Some ?z) = Some (Some r', 2)"
    using ab_parsed [of ?z rest] by auto
  have "match_inst dyn ab_cmd ([0x61, 0x62] @ 0x0A # 0 # rest) 0 (Some ?z) = Some (0, Some r')"
    by (simp add: match_inst_def ab_cmd_def match_loop.simps [of dyn _ 0 False] match_loop.simps [of dyn _ 0 True] get_token_def nth_opt_def
        cmdline_isblank2_def isendofline_def iscomment_def call_parse_def cmdline_token_string_ops_def r')
  then show ?thesis by (simp add: inst_matches_def inst_result_def)
qed

lemma return_runs_command_witness:
  "\<exists>rd1 res. key_return (validation_cb greet (\<lambda>f k. None) [Some ab_cmd, None] (replicate 8192 0) (replicate 8192 0)) rd_ab =
    Some (cmdline_printf rd1 ''hello'', res)"
proof -
  have t: "lchars rd_ab = [0x61, 0x62]" "rchars rd_ab = []" using rd_ab_ok(3) by (simp_all add: text_of_def)
  have c: "command_line ([0x61, 0x62] @ [])" by (simp add: command_line_def cmdline_isblank2_def iscomment_def)
  have l: "list_all (\<lambda>c. \<not> isendofline c) (lchars rd_ab @ rchars rd_ab)" unfolding t by (simp add: isendofline_def)
  have v: "verdict greet (\<lambda>f k. None) [ab_cmd] (([0x61, 0x62] @ []) @ 0x0A # 0 # rest) rd1 = cmdline_printf rd1 ''hello''" for rest rd1
    using ab_matches [of "\<lambda>f k. None" rest] by (simp add: verdict_def greet_def)
  from return_runs_command [OF rd_ab_ok(1) ab_commands zero_memory l, of greet "\<lambda>f k. None" "[]"]
  show ?thesis unfolding t if_P [OF c] v by auto
qed

end
