(* ===== verification/Spec2Isabelle.thy ===== *)
theory Spec2Isabelle
  imports Buster_Main BPF_Load BPF_Convert BPF_Findings BPF_Jcc_Sound Lpm_Readers BPF_Cfg_Decide Mbuf_Props Rdline_Main Cmdline_Session
begin

text \<open>
  A verification development for four programs of this repository that carry logic of their
  own: the kernel module \<open>src/buster\<close>, which dumps the command and event buffers of an AMD IOMMU,
  and, from the DPDK tree beside it, the BPF library \<open>src/dpdk/lib/bpf\<close>, which verifies, converts, loads
  and runs packet filters, the command line library \<open>src/dpdk/lib/cmdline\<close> with the Ethernet addresses of
  \<open>src/dpdk/lib/net\<close>, and the routing table \<open>src/dpdk/lib/lpm\<close> with the memory reclamation \<open>src/dpdk/lib/rcu\<close>
  it uses.

  \<^bold>\<open>The module.\<close> \<open>Buster_Utils\<close> is \<open>utils.c\<close> and \<open>utils.h\<close>: the record \<open>buster\<close> holds the
  module's globals, \<open>log_range\<close> dumps a range of memory to the kernel log and compresses runs of
  equal blocks, \<open>get_mapping\<close> maps physical memory and records the address. \<open>Buster_Main\<close> is \<open>main.c\<close>:
  \<open>buster_ini\<close> scans four PCI buses and the capability list of each device, \<open>bust_open\<close> dumps the
  tables of a register block, \<open>freeall\<close> unmaps. The log and the calls to the kernel are lists in
  the record; \<open>ioremap\<close>, \<open>phys_to_virt\<close> and the memory itself are parameters. A capability list in
  memory may be circular, so the two walks of the list are \<open>partial_function (option)\<close>: \<open>None\<close> is a walk that
  does not end or an access that is undefined. The theorems: the log determines the memory that was dumped; the
  offsets it prints; what is mapped is unmapped when the module is refused; loading returns when the memory is readable and the
  lists end (\<open>memory_ok\<close>, \<open>lists_ok\<close>, \<open>tables_ok\<close>), and does not when a list is circular; a register block is dumped only once.

  \<^bold>\<open>BPF data.\<close> \<open>BPF_Def\<close> has the instruction format, opcodes, external symbols and program
  parameters (\<open>bpf_def.h\<close>, \<open>rte_bpf.h\<close>, \<open>bpf_impl.h\<close>). \<open>Mbuf_Read\<close> has the packet as the interpreter
  reads it (\<open>rte_pktmbuf_read\<close> and its slow path).

  \<^bold>\<open>The interpreter.\<close> \<open>BPF_Exec\<close> is \<open>bpf_exec.c\<close>. \<open>bpf_switch\<close> is the \<open>switch\<close> as a table from opcodes to
  the macros of the file; \<open>bpf_step\<close> is one turn of the loop on the state \<open>estate\<close> (program counter,
  registers, memory), and \<open>bpf_exec\<close> runs it on fuel. Its outcome keeps apart the end of the program,
  a step without a defined result (a program counter outside the program is one) and running out of
  fuel, so that a statement of termination is a statement about fuel.

  \<^bold>\<open>The verifier.\<close> \<open>bpf_validate.c\<close>, in the order of its passes. \<open>BPF_Syntax\<close>: the table \<open>ins_chk\<close> and
  \<open>check_syntax\<close>. \<open>BPF_State\<close>: the records of the verifier. \<open>BPF_Cfg\<close>: nodes and edges, the depth-first
  search, the tests for unreachable instructions and loops, and \<open>validate\<close> itself. \<open>BPF_Eval\<close> and
  \<open>BPF_Eval_Mem\<close>: the functions that compute the bounds of a register's value after each
  instruction. \<open>BPF_Validate\<close>: the pool of saved states, the walk over the paths (\<open>evaluate\<close>) and
  \<open>bpf_validate\<close>. The two loops whose end depends on the graph, of the search and of the walk,
  are \<open>partial_function (option)\<close>: that they return is part of what is proved.

  \<^bold>\<open>Loading and conversion.\<close> \<open>BPF_Load\<close> is \<open>bpf_load.c\<close> and \<open>bpf.c\<close>; the state is the list of existing
  mappings, and \<open>mmap\<close>, \<open>mprotect\<close> and the JIT compilers are the record \<open>os\<close>. \<open>BPF_Convert\<close> is
  \<open>bpf_convert.c\<close>, both passes of the conversion from classic BPF.

  \<^bold>\<open>What is proved of the BPF library.\<close> \<open>BPF_Cfg_Build\<close>: the graph that \<open>validate\<close> builds has the
  successors of each instruction as its edges. \<open>BPF_Cfg_Dfs\<close>: the search leaves the nodes in a
  topological order when it finds no back edge. \<open>BPF_Verified\<close> joins both with the interpreter in the
  locale \<open>ranked_program\<close>: an accepted program ends within as many turns as it has instructions and
  never leaves its code. \<open>BPF_Eval_Sound\<close> states what it means for a bounds computation to be
  sound for an operation, for its unsigned and for its signed bounds (locale \<open>sound_transfer\<close>); \<open>BPF_Eval_Props\<close> interprets it on
  the verifier's functions for addition, subtraction and the three shifts of 64 bits, joins them with a step of the interpreter, and has values that
  show where the bounds are wrong. \<open>BPF_Jcc_Sound\<close> does the same for the eleven conditional jumps (locale
  \<open>sound_branch\<close>) and shows that \<open>eval_jcc\<close> is sound for the branch the interpreter takes, but for one branch of four of them. \<open>BPF_Findings\<close> has whole programs that are accepted although the
  interpreter does not end or reads outside its argument; each one shows that a hypothesis of a
  theorem is needed, or that an operation is outside the sound ones for a reason.

  \<open>BPF_Cfg_Decide\<close>: the first pass accepts exactly the programs without cycles and without unreachable
  instructions. \<open>BPF_Exec_Props\<close> and \<open>Bytes\<close>: which steps of an accepted program are defined, the frame
  pointer, stores and loads, byte swaps. \<open>Mbuf_Props\<close>: reading a packet and the packet loads.

  \<^bold>\<open>The line editor.\<close> \<open>Cirbuf\<close> is \<open>cmdline_cirbuf.c\<close>, a circular buffer of characters with its memory as a
  list; \<open>Vt100\<close> is \<open>cmdline_vt100.c\<close>, the state machine that recognises the sequences of a terminal;
  \<open>Rdline\<close> and \<open>Rdline_Keys\<close> are \<open>cmdline_rdline.c\<close>, the line as two circular buffers with the caret between
  them, the kill buffer, the history, and one definition per group of cases of \<open>rdline_char_in\<close>, and
  \<open>cmdline_in\<close> of \<open>cmdline.c\<close>. The callbacks that validate and complete a line are parameters, what is
  written is a list of characters. \<open>Cirbuf_Props\<close> and \<open>Cirbuf_Align\<close> show that every operation of the buffer
  keeps its invariant \<open>wf_cb\<close> and does to the content \<open>chars\<close> what its name says; \<open>Cirbuf_Deque\<close> has the
  interface of a double-ended queue as the locale \<open>deque\<close>, with the lemmas on a caret between two queues,
  and interprets it on the buffer. \<open>Rdline_Props\<close> and \<open>Rdline_Edit\<close> give each editing key as a function
  on the text before and after the caret; \<open>Rdline_History\<close> reads the history buffer as a list of lines;
  \<open>Rdline_Char\<close> has the invariant \<open>wf_rdl\<close> and the history keys; \<open>Rdline_Main\<close> the theorems on the whole:
  no input overruns a buffer or keeps a loop going, the editing keys refine \<open>edit_spec\<close>, the history
  keys bring lines back. The circular buffers are taken to have at most \<open>2 ^ 31\<close> characters, so that the
  sum of two indices does not wrap; those of the editor have 512 and 8192.

  \<^bold>\<open>Tokens and commands.\<close> \<open>Cstring\<close> has what the C library does to strings, on lists of characters that may
  lack their end. \<open>Parse_Num\<close>, \<open>Parse_String\<close>, \<open>Parse_Portlist\<close>, \<open>Parse_Ipaddr\<close> and \<open>Ether\<close> are the token parsers
  \<open>cmdline_parse_num.c\<close> and so on, and \<open>rte_ether.c\<close>; each has a specification of the texts it accepts and of
  the value, and the theorem that the parser is that specification on every string. \<open>Cmdline_Parse\<close> is
  \<open>cmdline_parse.c\<close>: an instruction is a record with its tokens, a token a record of functions as in the
  source, and the loop over the tokens, which only the tokens can end, is a \<open>partial_function (option)\<close>. The locales
  \<open>token_parser\<close> and \<open>total_token_parser\<close> are the contract of a parser; \<open>Cmdline_Tokens\<close> has the \<open>ops\<close> of every token
  and interprets the contract on them. \<open>Cmdline_Parse_Props\<close>: matching ends, and a line calls the function of
  the one instruction that matches it. \<open>Cmdline_Complete\<close> is \<open>cmdline_complete\<close>; the locale \<open>token_completer\<close> of
  \<open>Cmdline_Complete_Props\<close> is the contract of a token there, \<open>Cmdline_Completers\<close> interprets it, and the theorems give the
  entries that a user sees. \<open>Cmdline_Session\<close> puts all together: the callbacks of \<open>cmdline.c\<close> keep the contracts of the line
  editor, so that a command line has a defined behaviour on every input and the return key runs the command of the line.
  Dynamic tokens are in the definitions (\<open>dyn\<close>); the theorems are about instructions with an array of tokens. The counters
  of completion, \<open>int\<close> in C, are unbounded here: they count entries of the commands.

  \<^bold>\<open>Quiescent states.\<close> \<open>Rcu_Qsbr\<close> is \<open>rte_rcu_qsbr.h\<close> and \<open>rte_rcu_qsbr.c\<close>: the variable in which reader threads report that
  they hold no reference, and the defer queue of what waits to be freed. \<open>Rcu_Props\<close> has the locale \<open>deferred\<close>, the contract of a
  structure whose resources go through the queue. \<open>Rcu_Grace\<close> runs the calls of any number of threads in any order and shows
  that a check succeeds only after every reader of its time has reported; for more than 0xFFFFFFC0 threads the size of the bitmap wraps to
  0 (\<open>num_elems_wraps\<close>) and no thread can register; \<open>Rcu_Defer\<close> what that means for the defer queue: while a
  thread reads, no element is freed that was put into it since.

  \<^bold>\<open>Routes.\<close> \<open>Lpm\<close> is \<open>rte_lpm.c\<close> with the lookups of \<open>rte_lpm.h\<close> and \<open>rte_lpm_scalar.h\<close>: the table \<open>tbl24\<close> over the first 24 bits
  of an address, the groups of \<open>tbl8\<close> for the last 8, the rules, and every operation on them; \<open>Lpm_Create\<close> has the list of
  tables and the RCU configuration. The specification is a map \<open>routes\<close> from depths and prefixes to next hops, and \<open>best\<close>,
  the longest match in it. \<open>Lpm_Rules\<close>, \<open>Lpm_Rules_Upd\<close> and \<open>Lpm_Rules_Del\<close>: the rule table, one array with a moving group per depth,
  is such a map. \<open>Lpm_Match\<close>: how the longest match of an address changes when a route is added or deleted. \<open>Lpm_Tables\<close>: the
  invariant \<open>tables\<close>, that every entry of the two tables holds the longest match of its addresses, that no group has two
  owners, and that a group in the defer queue, or lost because the queue was full, has none; and how the operations' stores change
  it. The invariant has a parameter \<open>watch\<close>, what a reader in the middle of a lookup relies on. It interprets \<open>deferred\<close> on
  the groups. \<open>Lpm_Add\<close>, \<open>Lpm_Inv\<close>, \<open>Lpm_Delete\<close> and \<open>Lpm_Lookup\<close> go through the operations. \<open>Lpm_Props\<close> has the locale \<open>routing_table\<close>,
  interprets it on \<open>rte_lpm.c\<close>, and states the results: any sequence of calls on a created table is defined and refines the
  map. The table has at most 2^22 groups and 2^29 rules there; beyond that the sizes that \<open>rte_lpm_create\<close> computes wrap.
  \<open>Lpm_Readers\<close> splits a lookup into its two loads, with operations and the acts of other threads in between, and joins both
  libraries: in the queueing mode the result is the longest match at some moment during the lookup.

  \<^bold>\<open>Undefined behaviour.\<close> A C execution with no defined result (an access outside an array, an
  oversized shift, a division that overflows) is \<open>None\<close>; integers are words of their C width.

  \<^bold>\<open>Not modelled.\<close> The JIT compilers, which emit machine code; the ELF loader and the packet
  callbacks, which call libelf and devices; the user-space programs \<open>run.c\<close> and \<open>user.cpp\<close>, which
  only call \<open>insmod\<close> and copy the log; the sockets and terminal settings of the command line library, calls of the
  operating system, and \<open>inet_pton\<close>, a parameter; all other DPDK libraries, drivers and applications.

  The IPv6 table \<open>rte_lpm6.c\<close> and the vector lookups. An operation of the routing table and a call on the quiescent state
  variable are one step each: a lookup can be overtaken by operations between its loads, but what a reader sees between two stores
  of one operation is not modelled.

  \<^bold>\<open>Possible extensions.\<close> The bounds of 32-bit operations; the classic-to-extended
  conversion against a semantics of classic programs; the callback registry of \<open>bpf_pkt.c\<close>; the lookups of the
  routing table between the single stores of a writer.
\<close>

end
